(* ===== verification/Prelude.thy ===== *)
theory Prelude
  imports Main "HOL-Library.Word" "HOL-Library.List_Lexorder" "HOL-Library.Mapping"
    "HOL-Library.AList" "HOL-Library.Sublist"
begin

unbundle bit_operations_syntax

text \<open>
  The vocabulary every theory of the development shares: the machine integers of the Rust
  code, the error type of \<^verbatim>\<open>tgrep-core/src/error.rs\<close>, the result type with its
  propagation (the \<^verbatim>\<open>?\<close> operator), little-endian encodings, and the lemmas
  on lists and bits the components use.
\<close>

section \<open>Machine integers and results\<close>

type_synonym byte = "8 word"
type_synonym u16 = "16 word"
type_synonym u32 = "32 word"
type_synonym u64 = "64 word"

text \<open>
  A Rust \<^verbatim>\<open>String\<close> is its UTF-8 bytes, and its order is the order of these bytes;
  \<^verbatim>\<open>usize\<close> is a natural number where it counts things that are in memory.
\<close>

type_synonym path = "byte list"

text \<open>
  The errors of \<^verbatim>\<open>error.rs\<close>.  The formatted message of a corruption is replaced
  by its constant part, which names the check that failed.
\<close>

datatype error =
    Io string
  | Json string
  | IndexNotFound string
  | IndexCorrupted string
  | Regex string
  | Server string
  | Managed string

type_synonym 'a result = "error + 'a"

text \<open>The \<^verbatim>\<open>?\<close> operator: an error returns early, a value is passed on.\<close>

definition rbind :: "'e + 'a \<Rightarrow> ('a \<Rightarrow> 'e + 'b) \<Rightarrow> 'e + 'b" where
  "rbind r f = (case r of Inl e \<Rightarrow> Inl e | Inr a \<Rightarrow> f a)"

lemma rbind_Inl [simp]: "rbind (Inl e) f = Inl e"
  by (simp add: rbind_def)

lemma rbind_Inr [simp]: "rbind (Inr a) f = f a"
  by (simp add: rbind_def)

lemma rbind_eq_Inr [simp]: "rbind r f = Inr b \<longleftrightarrow> (\<exists>a. r = Inr a \<and> f a = Inr b)"
  by (cases r) auto

lemma rbind_eq_Inl: "rbind r f = Inl e \<longleftrightarrow> r = Inl e \<or> (\<exists>a. r = Inr a \<and> f a = Inl e)"
  by (cases r) auto

lemma rbind_cong [fundef_cong]:
  "r = r' \<Longrightarrow> (\<And>a. r' = Inr a \<Longrightarrow> f a = f' a) \<Longrightarrow> rbind r f = rbind r' f'"
  by (cases r') auto

lemma unat_inject [simp]: "unat a = unat b \<longleftrightarrow> a = b"
  by (simp add: word_unat_eq_iff)

section \<open>Collections of facts\<close>

named_theorems codec_simps \<open>encoders and decoders evaluated on what they produce\<close>
named_theorems inv_intros \<open>preservation of a component's invariant by its operations\<close>
named_theorems sorted_ids \<open>operations that keep a list of identifiers strictly ascending\<close>

section \<open>Little-endian encodings\<close>

text \<open>
  \<^verbatim>\<open>to_le_bytes\<close> and \<^verbatim>\<open>from_le_bytes\<close> of the standard library, for any width.
\<close>

definition le_bytes :: "nat \<Rightarrow> 'a::len word \<Rightarrow> byte list" where
  "le_bytes n w = map (\<lambda>i. ucast (drop_bit (8 * i) w)) [0..<n]"

primrec from_le :: "byte list \<Rightarrow> 'a::len word" where
  "from_le [] = 0"
| "from_le (b # bs) = ucast b OR push_bit 8 (from_le bs)"

lemma length_le_bytes [simp]: "length (le_bytes n w) = n"
  by (simp add: le_bytes_def)

lemma bit_from_le:
  "bit (from_le bs :: 'a::len word) k \<longleftrightarrow>
     k < LENGTH('a) \<and> k div 8 < length bs \<and> bit (bs ! (k div 8)) (k mod 8)"
proof (induction bs arbitrary: k)
  case Nil
  then show ?case by simp
next
  case (Cons b bs)
  show ?case
  proof (cases "k < 8")
    case True
    then show ?thesis
      by (auto simp: bit_or_iff bit_push_bit_iff bit_ucast_iff)
  next
    case False
    then have "\<not> bit b k" by (simp add: bit_word.rep_eq bit_imp_le_length)
    have k: "k div 8 = Suc ((k - 8) div 8)" "k mod 8 = (k - 8) mod 8"
      using False by (simp_all add: le_div_geq le_mod_geq)
    show ?thesis
      using False Cons.IH [of "k - 8"] \<open>\<not> bit b k\<close>
      by (auto simp: bit_or_iff bit_push_bit_iff bit_ucast_iff k dest: bit_imp_le_length)
  qed
qed

lemma from_le_le_bytes [simp, codec_simps]:
  fixes w :: "'a::len word"
  assumes "LENGTH('a) \<le> 8 * n"
  shows "from_le (le_bytes n w) = w"
proof (rule bit_eqI)
  fix k
  assume "possible_bit TYPE('a word) k"
  then have "k < LENGTH('a)" by simp
  then have "k div 8 < n" using assms by arith
  then have "le_bytes n w ! (k div 8) = ucast (drop_bit (8 * (k div 8)) w)"
    by (simp add: le_bytes_def)
  moreover have "8 * (k div 8) + k mod 8 = k" by simp
  ultimately show "bit (from_le (le_bytes n w) :: 'a word) k \<longleftrightarrow> bit w k"
    using \<open>k < LENGTH('a)\<close> \<open>k div 8 < n\<close>
    by (simp add: bit_from_le bit_ucast_iff bit_drop_bit_eq)
qed

lemma le_bytes_inject [simp]:
  fixes v w :: "'a::len word"
  assumes "LENGTH('a) \<le> 8 * n"
  shows "le_bytes n v = le_bytes n w \<longleftrightarrow> v = w"
  using from_le_le_bytes [OF assms] by metis

lemma bit_nth_le_bytes:
  "i < n \<Longrightarrow> bit (le_bytes n w ! i) k \<longleftrightarrow> k < 8 \<and> bit w (8 * i + k)"
  by (simp add: le_bytes_def bit_ucast_iff bit_drop_bit_eq)

lemma le_bytes_from_le:
  assumes "length bs = n" "8 * n \<le> LENGTH('a)"
  shows "le_bytes n (from_le bs :: 'a::len word) = bs"
proof (rule nth_equalityI)
  show "length (le_bytes n (from_le bs :: 'a word)) = length bs" using assms(1) by simp
  fix i
  assume "i < length (le_bytes n (from_le bs :: 'a word))"
  then have i: "i < n" by simp
  show "le_bytes n (from_le bs :: 'a word) ! i = bs ! i"
  proof (rule bit_eqI)
    fix k
    assume "possible_bit TYPE(8 word) k"
    then have k: "k < 8" by simp
    then have "(8 * i + k) div 8 = i" "(8 * i + k) mod 8 = k" by simp_all
    moreover have "8 * i + k < LENGTH('a)" using i k assms(2) by linarith
    ultimately show "bit (le_bytes n (from_le bs :: 'a word) ! i) k \<longleftrightarrow> bit (bs ! i) k"
      using i k assms(1) by (simp add: bit_nth_le_bytes bit_from_le)
  qed
qed

section \<open>Iteration over hash tables\<close>

text \<open>
  An iteration lists every element of a set once, in an order that is not specified.
  \<open>order_of\<close> makes an iteration of any function and leaves an iteration as it is.
\<close>

definition iteration :: "('a::{finite, linorder} set \<Rightarrow> 'a list) \<Rightarrow> bool" where
  "iteration iter \<longleftrightarrow> (\<forall>S. set (iter S) = S \<and> distinct (iter S))"

definition order_of :: "('a::{finite, linorder} set \<Rightarrow> 'a list) \<Rightarrow> 'a set \<Rightarrow> 'a list" where
  "order_of iter S =
     (if set (iter S) = S \<and> distinct (iter S) then iter S else sorted_list_of_set S)"

lemma set_iteration: "iteration iter \<Longrightarrow> set (iter S) = S"
  by (simp add: iteration_def)

lemma distinct_iteration: "iteration iter \<Longrightarrow> distinct (iter S)"
  by (simp add: iteration_def)

lemma iteration_sorted_list_of_set [simp]: "iteration sorted_list_of_set"
  by (simp add: iteration_def)

lemma iteration_order_of [simp]: "iteration (order_of iter)"
  by (simp add: iteration_def order_of_def)

lemma order_of_iteration: "iteration iter \<Longrightarrow> order_of iter = iter"
  by (simp add: iteration_def order_of_def fun_eq_iff)

text \<open>The same for sets of paths, which are finite.\<close>

definition path_iteration :: "(path set \<Rightarrow> path list) \<Rightarrow> bool" where
  "path_iteration piter \<longleftrightarrow> (\<forall>S. finite S \<longrightarrow> set (piter S) = S \<and> distinct (piter S))"

lemma path_iteration_sorted [simp]: "path_iteration sorted_list_of_set"
  by (simp add: path_iteration_def)

lemma lookup_delete_if:
  "Mapping.lookup (Mapping.delete k m) k' = (if k = k' then None else Mapping.lookup m k')"
  by (cases "k = k'") simp_all

section \<open>Lists\<close>

text \<open>The chunks of a slice, \<^verbatim>\<open>slice.chunks(n)\<close>; the code never calls it with 0.\<close>

function chunks :: "nat \<Rightarrow> 'a list \<Rightarrow> 'a list list" where
  "chunks n xs = (if n = 0 \<or> xs = [] then [] else take n xs # chunks n (drop n xs))"
  by pat_completeness auto
termination
  by (relation "measure (\<lambda>(n, xs). length xs)") auto

declare chunks.simps [simp del]

lemma chunks_Nil [simp]: "chunks n [] = []"
  by (simp add: chunks.simps)

lemma concat_chunks [simp]: "n \<noteq> 0 \<Longrightarrow> concat (chunks n xs) = xs"
proof (induction n xs rule: chunks.induct)
  case (1 n xs)
  then show ?case by (simp add: chunks.simps [of n xs])
qed

lemma chunks_exact_length:
  "length xs = k * n \<Longrightarrow> c \<in> set (chunks n xs) \<Longrightarrow> length c = n"
proof (induction n xs arbitrary: k rule: chunks.induct)
  case (1 n xs)
  show ?case
  proof (cases "n = 0 \<or> xs = []")
    case True
    with "1.prems" show ?thesis by (simp add: chunks.simps [of n xs])
  next
    case False
    then obtain k' where k: "k = Suc k'" using "1.prems"(1) by (cases k) auto
    with "1.prems"(1) have "length (drop n xs) = k' * n" by simp
    with "1.IH" [OF False this] "1.prems" False k show ?thesis
      by (auto simp: chunks.simps [of n xs])
  qed
qed

text \<open>
  \<^verbatim>\<open>slice.partition_point(p)\<close>: for a slice partitioned by \<open>p\<close>, as the library
  requires, the number of elements before the first that fails \<open>p\<close>.
\<close>

definition partition_point :: "('a \<Rightarrow> bool) \<Rightarrow> 'a list \<Rightarrow> nat" where
  "partition_point p xs = length (takeWhile p xs)"

lemma drop_partition_point: "drop (partition_point p xs) xs = dropWhile p xs"
  by (simp add: partition_point_def dropWhile_eq_drop)

lemma partition_point_split:
  assumes "sorted (map key xs)"
  shows "x \<in> set (take (partition_point (\<lambda>x. key x < k) xs) xs) \<Longrightarrow> key x < k"
    and "x \<in> set (drop (partition_point (\<lambda>x. key x < k) xs) xs) \<Longrightarrow> k \<le> key x"
proof -
  show "x \<in> set (take (partition_point (\<lambda>x. key x < k) xs) xs) \<Longrightarrow> key x < k"
    by (auto simp: partition_point_def takeWhile_eq_take [symmetric] dest: set_takeWhileD)
  assume x: "x \<in> set (drop (partition_point (\<lambda>x. key x < k) xs) xs)"
  then have "x \<in> set (dropWhile (\<lambda>x. key x < k) xs)" by (simp add: drop_partition_point)
  moreover have "sorted (map key (dropWhile (\<lambda>x. key x < k) xs))"
    using assms by (metis dropWhile_eq_drop drop_map sorted_wrt_drop)
  moreover have "dropWhile (\<lambda>x. key x < k) xs = y # ys \<Longrightarrow> \<not> key y < k" for y ys
    by (metis dropWhile_eq_Cons_conv)
  ultimately show "k \<le> key x"
    by (cases "dropWhile (\<lambda>x. key x < k) xs") force+
qed

text \<open>The slice \<^verbatim>\<open>xs[a..b]\<close>.\<close>

definition slice :: "'a list \<Rightarrow> nat \<Rightarrow> nat \<Rightarrow> 'a list" where
  "slice xs a b = drop a (take b xs)"

lemma slice_append: "a \<le> b \<Longrightarrow> b \<le> c \<Longrightarrow> slice xs a b @ slice xs b c = slice xs a c"
proof -
  assume "a \<le> b" "b \<le> c"
  have "drop a (take c xs) = drop a (take b xs @ drop b (take c xs))"
    using \<open>b \<le> c\<close> by (metis append_take_drop_id min.absorb1 take_take)
  also have "\<dots> = drop a (take b xs) @ drop (a - length (take b xs)) (drop b (take c xs))" by simp
  also have "\<dots> = drop a (take b xs) @ drop b (take c xs)"
    using \<open>a \<le> b\<close> by (cases "b \<le> length xs") (simp_all add: min_def)
  finally show ?thesis by (simp add: slice_def)
qed

lemma length_slice: "b \<le> length xs \<Longrightarrow> length (slice xs a b) = b - a"
  by (simp add: slice_def)

lemma nth_slice: "a + i < b \<Longrightarrow> b \<le> length xs \<Longrightarrow> slice xs a b ! i = xs ! (a + i)"
  by (simp add: slice_def)

lemma slice_all: "slice xs 0 (length xs) = xs"
  by (simp add: slice_def)

lemma slice_last: "a < b \<Longrightarrow> b \<le> length xs \<Longrightarrow> slice xs a b = slice xs a (b - 1) @ [xs ! (b - 1)]"
  using slice_append [of a "b - 1" b xs] take_hd_drop [of "b - 1" xs]
  by (simp add: slice_def take_Suc_conv_app_nth hd_drop_conv_nth Cons_nth_drop_Suc [symmetric])

lemma slice_one: "0 < b \<Longrightarrow> b \<le> length xs \<Longrightarrow> slice xs (b - 1) b = [xs ! (b - 1)]"
  using slice_last [of "b - 1" b xs] by (simp add: slice_def)

lemma slice_two: "1 < b \<Longrightarrow> b \<le> length xs \<Longrightarrow> slice xs (b - 2) b = [xs ! (b - 2), xs ! (b - 1)]"
  using slice_append [of "b - 2" "b - 1" b xs] slice_one [of b xs] slice_one [of "b - 1" xs] by (simp add: numeral_2_eq_2)

text \<open>\<^verbatim>\<open>str::strip_prefix\<close>, and with it \<^verbatim>\<open>starts_with\<close>.\<close>

definition strip_prefix :: "path \<Rightarrow> path \<Rightarrow> path option" where
  "strip_prefix pre s =
     (if take (length pre) s = pre then Some (drop (length pre) s) else None)"

lemma strip_prefix_Some: "strip_prefix pre s = Some r \<longleftrightarrow> s = pre @ r"
  unfolding strip_prefix_def by (auto simp: append_eq_conv_conj) (metis append_take_drop_id)

text \<open>A path lies strictly below a directory.\<close>

definition below :: "path \<Rightarrow> path \<Rightarrow> bool" where
  "below directory p \<longleftrightarrow> (\<exists>r. p = directory @ [0x2F] @ r)"

lemma strip_prefix_below:
  "(case strip_prefix directory p of Some rest \<Rightarrow> take 1 rest = [0x2F] | None \<Rightarrow> False) \<longleftrightarrow>
     below directory p"
proof (cases "strip_prefix directory p")
  case None
  then show ?thesis using strip_prefix_Some [of directory p] by (auto simp: below_def)
next
  case (Some r)
  then have "p = directory @ r" by (simp add: strip_prefix_Some)
  then show ?thesis unfolding Some option.case by (cases r) (auto simp: below_def)
qed

abbreviation ascending :: "'a::linorder list \<Rightarrow> bool" where
  "ascending \<equiv> sorted_wrt (<)"

lemma ascending_sorted: "ascending xs \<Longrightarrow> sorted xs"
  by (simp add: strict_sorted_iff)

lemma ascending_distinct: "ascending xs \<Longrightarrow> distinct xs"
  by (simp add: strict_sorted_iff)

lemma ascending_filter [simp, sorted_ids]: "ascending xs \<Longrightarrow> ascending (filter p xs)"
  by (rule sorted_wrt_filter)

lemma ascending_eqI:
  "ascending xs \<Longrightarrow> ascending ys \<Longrightarrow> set xs = set ys \<Longrightarrow> xs = ys"
  by (simp add: strict_sorted_equal)

text \<open>
  \<^verbatim>\<open>dedup_by_key(f)\<close>: of each run of neighbours with equal keys the first stays;
  \<^verbatim>\<open>dedup()\<close> is the case where the key is the element.
\<close>

fun dedup_key :: "('a \<Rightarrow> 'k) \<Rightarrow> 'a list \<Rightarrow> 'a list" where
  "dedup_key f [] = []"
| "dedup_key f [x] = [x]"
| "dedup_key f (x # y # zs) =
     (if f x = f y then dedup_key f (x # zs) else x # dedup_key f (y # zs))"

lemma set_dedup_key: "set (dedup_key f xs) \<subseteq> set xs"
  by (induction f xs rule: dedup_key.induct) auto

lemma keys_dedup_key [simp]: "f ` set (dedup_key f xs) = f ` set xs"
  by (induction f xs rule: dedup_key.induct) auto

lemma hd_dedup_key: "xs \<noteq> [] \<Longrightarrow> dedup_key f xs \<noteq> [] \<and> f (hd (dedup_key f xs)) = f (hd xs)"
  by (induction f xs rule: dedup_key.induct) auto

lemma ascending_dedup_key [simp, sorted_ids]:
  "sorted (map f xs) \<Longrightarrow> ascending (map f (dedup_key f xs))"
proof (induction f xs rule: dedup_key.induct)
  case (3 f x y zs)
  show ?case
  proof (cases "f x = f y")
    case True
    have "sorted (map f (x # zs))" using "3.prems" by auto
    then have "ascending (map f (dedup_key f (x # zs)))" by (rule "3.IH"(1) [OF True])
    with True show ?thesis by (simp only: dedup_key.simps simp_thms if_True)
  next
    case False
    have "f x < f z" if "z \<in> set (y # zs)" for z
    proof -
      have "f y \<le> f z" using "3.prems" that by auto
      moreover have "f x < f y" using "3.prems" False by auto
      ultimately show ?thesis by order
    qed
    moreover have "ascending (map f (dedup_key f (y # zs)))"
      using "3.IH"(2) [OF False] "3.prems" by simp
    ultimately show ?thesis using False by auto
  qed
qed simp_all

lemma dedup_key_ascending: "ascending (map f xs) \<Longrightarrow> dedup_key f xs = xs"
  by (induction f xs rule: dedup_key.induct) auto

lemma sorted_sort_key_ascending:
  "ascending (map f xs) \<Longrightarrow> sort_key f xs = xs"
  by (rule sort_key_id_if_sorted) (rule ascending_sorted)

text \<open>Sorting is stable and the first of a run stays, so the first element of a key is kept.\<close>

lemma find_filter: "find P xs = (case filter P xs of [] \<Rightarrow> None | x # _ \<Rightarrow> Some x)"
  by (induction xs) auto

lemma find_sort_key: "find (\<lambda>x. f x = k) (sort_key f xs) = find (\<lambda>x. f x = k) xs"
  using filter_sort [of "\<lambda>x. f x = k" f xs] by (simp add: find_filter sort_key_stable)

lemma find_dedup_key: "find (\<lambda>x. f x = k) (dedup_key f xs) = find (\<lambda>x. f x = k) xs"
  by (induction f xs rule: dedup_key.induct) auto

lemma sort_key_map: "sort_key f (map g xs) = map g (sort_key (\<lambda>x. f (g x)) xs)"
proof -
  have "insort_key f (g x) (map g xs) = map g (insort_key (\<lambda>x. f (g x)) x xs)" for x xs
    by (induction xs) auto
  then show ?thesis by (induction xs) simp_all
qed

text \<open>A list that is strictly ascending by key has one element per key.\<close>

lemma ascending_key_unique:
  assumes "ascending (map f xs)" "x \<in> set xs" "y \<in> set xs" "f x = f y"
  shows "x = y"
  using assms ascending_distinct [OF assms(1)] by (meson distinct_map inj_on_def)

lemma filter_eq_distinct: "distinct ts \<Longrightarrow> filter (\<lambda>x. x = t) ts = (if t \<in> set ts then [t] else [])"
  by (induction ts) auto

section \<open>Prefixes in the order of lists\<close>

lemma prefix_le: "prefix pre q \<Longrightarrow> pre \<le> (q :: 'a::linorder list)"
proof (induction pre arbitrary: q)
  case (Cons a pre)
  then show ?case by (cases q) auto
qed simp

lemma prefix_interval:
  "pre \<le> p \<Longrightarrow> p \<le> q \<Longrightarrow> prefix pre q \<Longrightarrow> prefix pre (p :: 'a::linorder list)"
proof (induction pre arbitrary: p q)
  case (Cons a pre)
  from Cons.prems(3) obtain qs where q: "q = a # qs" "prefix pre qs" by (cases q) auto
  with Cons.prems obtain b ps where p: "p = b # ps" by (cases p) auto
  with Cons.prems q have "a \<le> b" "b \<le> a" by auto
  with Cons.prems q p have "pre \<le> ps" "ps \<le> qs" "b = a" by auto
  with Cons.IH q p show ?case by simp
qed simp

section \<open>Searching for a byte\<close>

text \<open>The crate \<^verbatim>\<open>memchr\<close> is an argument; its documentation promises the first position of a byte.\<close>

type_synonym memchr = "byte \<Rightarrow> byte list \<Rightarrow> nat option"

definition finds_first :: "memchr \<Rightarrow> bool" where
  "finds_first memchr \<longleftrightarrow> (\<forall>b bytes. case memchr b bytes of
     None \<Rightarrow> b \<notin> set bytes
   | Some n \<Rightarrow> n < length bytes \<and> bytes ! n = b \<and> b \<notin> set (take n bytes))"

text \<open>The search of a byte as a scan.\<close>

definition first_byte :: memchr where
  "first_byte b bytes = (if b \<in> set bytes then Some (length (takeWhile (\<lambda>x. x \<noteq> b) bytes)) else None)"

lemma first_byte_finds_first: "finds_first first_byte"
proof -
  have "length (takeWhile (\<lambda>x. x \<noteq> b) bytes) < length bytes \<and> bytes ! length (takeWhile (\<lambda>x. x \<noteq> b) bytes) = b \<and>
      b \<notin> set (take (length (takeWhile (\<lambda>x. x \<noteq> b) bytes)) bytes)" if "b \<in> set bytes" for b and bytes :: "byte list"
    using that by (induction bytes) auto
  then show ?thesis by (simp add: finds_first_def first_byte_def)
qed

lemma memchr_first:
  assumes "finds_first memchr" "b \<notin> set p"
  shows "memchr b (p @ b # rest) = Some (length p)"
proof (cases "memchr b (p @ b # rest)")
  case None
  then show ?thesis using assms(1) by (auto simp: finds_first_def dest!: spec [of _ b] spec [of _ "p @ b # rest"])
next
  case (Some n)
  then have n: "n < length (p @ b # rest)" "(p @ b # rest) ! n = b" "b \<notin> set (take n (p @ b # rest))"
    using assms(1) by (auto simp: finds_first_def dest!: spec [of _ b] spec [of _ "p @ b # rest"])
  have "n \<le> length p" using n(3) by (rule_tac ccontr) (auto simp: take_Cons' not_le)
  moreover have "\<not> n < length p" using n(2) assms(2) by (metis nth_append nth_mem)
  ultimately show ?thesis using Some by simp
qed

text \<open>All positions of a byte, \<^verbatim>\<open>memchr_iter\<close> of the same crate.\<close>

type_synonym memchr_iter = "byte \<Rightarrow> byte list \<Rightarrow> nat list"

definition finds_all :: "memchr_iter \<Rightarrow> bool" where
  "finds_all memchr_iter \<longleftrightarrow> (\<forall>b bytes. memchr_iter b bytes = filter (\<lambda>i. bytes ! i = b) [0..<length bytes])"

definition all_bytes :: memchr_iter where
  "all_bytes b bytes = filter (\<lambda>i. bytes ! i = b) [0..<length bytes]"

lemma all_bytes_finds_all: "finds_all all_bytes"
  by (simp add: finds_all_def all_bytes_def)

end
