(* ===== verification/Lines.thy ===== *)
theory Lines
  imports Prelude "HOL-Library.Product_Lexorder" "HOL-Library.AList_Mapping"
begin

text \<open>
  Lines and match ranges (\<^verbatim>\<open>tgrep-cli/src/matching.rs\<close>): the table of line starts, the
  grouping of byte ranges by the lines they cover, the limit on blocks of lines and the window of
  context lines.  Offsets and line numbers are natural numbers; the sum that computes the end of
  a window wraps at 64 bits as in a release build.  The crate \<^verbatim>\<open>memchr\<close> is an argument.
\<close>

type_synonym span = "nat \<times> nat"

section \<open>The table of line starts\<close>

record line_index =
  li_content :: "byte list"
  li_starts :: "nat list"

definition line_starts :: "memchr_iter \<Rightarrow> byte list \<Rightarrow> nat list" where
  "line_starts memchr_iter content =
     (if content = [] then []
      else let starts = 0 # map (\<lambda>i. i + 1) (memchr_iter 0x0A content)
           in if length starts > 1 \<and> last starts = length content then butlast starts else starts)"

definition line_index_new :: "memchr_iter \<Rightarrow> byte list \<Rightarrow> line_index" where
  "line_index_new memchr_iter content = \<lparr>li_content = content, li_starts = line_starts memchr_iter content\<rparr>"

definition line_count :: "line_index \<Rightarrow> nat" where
  "line_count self = length (li_starts self)"

text \<open>The binary search of the library returns the position of an equal element, or the place to insert it.\<close>

definition line_of :: "line_index \<Rightarrow> nat \<Rightarrow> nat" where
  "line_of self offset =
     (let starts = li_starts self
      in if starts = [] then 0
         else let i = partition_point (\<lambda>s. s < offset) starts
              in if i < length starts \<and> starts ! i = offset then i else i - 1)"

definition line_start :: "line_index \<Rightarrow> nat \<Rightarrow> nat" where
  "line_start self idx = (if idx < length (li_starts self) then li_starts self ! idx else length (li_content self))"

definition line_end :: "line_index \<Rightarrow> nat \<Rightarrow> nat" where
  "line_end self idx =
     (let start = line_start self idx;
          stop = (if idx + 1 < length (li_starts self) then li_starts self ! (idx + 1) else length (li_content self));
          bytes = li_content self;
          stop = (if stop > start \<and> bytes ! (stop - 1) = 0x0A then stop - 1 else stop);
          stop = (if stop > start \<and> bytes ! (stop - 1) = 0x0D then stop - 1 else stop)
      in stop)"

definition line_terminator_len :: "line_index \<Rightarrow> nat \<Rightarrow> nat" where
  "line_terminator_len self idx =
     (if idx + 1 < length (li_starts self) then li_starts self ! (idx + 1) else length (li_content self)) - line_end self idx"

definition line_text :: "line_index \<Rightarrow> nat \<Rightarrow> byte list" where
  "line_text self idx = slice (li_content self) (line_start self idx) (line_end self idx)"

section \<open>Ranges on lines\<close>

record line_hit =
  hit_idx :: nat
  hit_spans :: "span list"

text \<open>An empty match sits entirely on its start line.\<close>

definition last_line_of :: "line_index \<Rightarrow> span \<Rightarrow> nat" where
  "last_line_of index = (\<lambda>(s, e). if e > s then line_of index (e - 1) else line_of index s)"

fun limit_loop :: "line_index \<Rightarrow> nat \<Rightarrow> span list \<Rightarrow> nat \<Rightarrow> nat option \<Rightarrow> span list" where
  "limit_loop index max_blocks [] blocks block_end = []"
| "limit_loop index max_blocks ((s, e) # spans) blocks block_end =
     (let first = line_of index s;
          final = last_line_of index (s, e)
      in case block_end of
           Some stop \<Rightarrow>
             if first \<le> stop then (s, e) # limit_loop index max_blocks spans blocks (Some (max stop final))
             else if blocks = max_blocks then []
             else (s, e) # limit_loop index max_blocks spans (blocks + 1) (Some final)
         | None \<Rightarrow>
             if blocks = max_blocks then []
             else (s, e) # limit_loop index max_blocks spans (blocks + 1) (Some final))"

definition limit_to_line_blocks :: "line_index \<Rightarrow> span list \<Rightarrow> nat option \<Rightarrow> span list" where
  "limit_to_line_blocks index spans max_blocks =
     (case max_blocks of None \<Rightarrow> spans | Some n \<Rightarrow> limit_loop index n spans 0 None)"

definition clip_spans_to_start_line :: "line_index \<Rightarrow> span list \<Rightarrow> span list" where
  "clip_spans_to_start_line index spans =
     map (\<lambda>(s, e). (s, min e (line_end index (line_of index s)))) spans"

text \<open>\<^verbatim>\<open>Ord::clamp\<close>.\<close>

definition clamp :: "nat \<Rightarrow> nat \<Rightarrow> nat \<Rightarrow> nat" where
  "clamp x lo hi = (if x < lo then lo else if x > hi then hi else x)"

definition span_on_line :: "line_index \<Rightarrow> span \<Rightarrow> nat \<Rightarrow> span" where
  "span_on_line index = (\<lambda>(s, e) li.
     let ls = line_start index li; le = line_end index li
     in (clamp s ls le - ls, clamp e ls le - ls))"

definition lines_covered :: "line_index \<Rightarrow> span \<Rightarrow> nat list" where
  "lines_covered index span =
     [line_of index (fst span)..<min (last_line_of index span) (line_count index - 1) + 1]"

definition push_entry :: "nat \<Rightarrow> 'a \<Rightarrow> (nat, 'a list) mapping \<Rightarrow> (nat, 'a list) mapping" where
  "push_entry li x m = Mapping.update li ((case Mapping.lookup m li of Some xs \<Rightarrow> xs | None \<Rightarrow> []) @ [x]) m"

definition spans_by_line :: "line_index \<Rightarrow> span list \<Rightarrow> (nat, span list) mapping" where
  "spans_by_line index spans =
     fold (\<lambda>span by_line. fold (\<lambda>li. push_entry li (span_on_line index span li)) (lines_covered index span) by_line)
       spans Mapping.empty"

definition merge_span :: "span list \<Rightarrow> span \<Rightarrow> span list" where
  "merge_span merged span =
     (if merged \<noteq> [] \<and> fst span < snd (last merged)
      then butlast merged @ [(fst (last merged), max (snd (last merged)) (snd span))]
      else merged @ [span])"

definition group_spans_by_line :: "line_index \<Rightarrow> span list \<Rightarrow> line_hit list" where
  "group_spans_by_line index spans =
     (let by_line = spans_by_line index spans
      in map (\<lambda>idx. \<lparr>hit_idx = idx, hit_spans = foldl merge_span [] (sort (the (Mapping.lookup by_line idx)))\<rparr>)
           (Mapping.ordered_keys by_line))"

text \<open>The end of a window is a sum of machine integers.\<close>

definition expand_context_window :: "nat list \<Rightarrow> nat \<Rightarrow> nat \<Rightarrow> nat \<Rightarrow> nat list" where
  "expand_context_window match_indices total_lines before after =
     sorted_list_of_set (fold (\<lambda>mi printed.
       printed \<union> set [mi - before..<min ((mi + after + 1) mod 2 ^ 64) total_lines]) match_indices {})"

section \<open>The table divides the text\<close>

definition lines_wf :: "line_index \<Rightarrow> bool" where
  "lines_wf I \<longleftrightarrow> li_starts I = (if li_content I = [] then []
     else 0 # map Suc (filter (\<lambda>i. li_content I ! i = 0x0A) [0..<length (li_content I) - 1]))"

lemma line_index_new_wf:
  assumes "finds_all memchr_iter"
  shows "lines_wf (line_index_new memchr_iter content)" "li_content (line_index_new memchr_iter content) = content"
proof -
  show "li_content (line_index_new memchr_iter content) = content" by (simp add: line_index_new_def)
  show "lines_wf (line_index_new memchr_iter content)"
  proof (cases "content = []")
    case True
    then show ?thesis by (simp add: lines_wf_def line_index_new_def line_starts_def)
  next
    case False
    then obtain n where n: "length content = Suc n" by (cases "length content") auto
    let ?f = "filter (\<lambda>i. content ! i = 0x0A)"
    have all: "memchr_iter 0x0A content = ?f [0..<n] @ ?f [n]"
      using assms by (simp add: finds_all_def n)
    have less: "last (0 # map Suc (?f [0..<n])) < Suc n"
      by (cases "?f [0..<n] = []") (auto simp: last_map dest: last_in_set)
    show ?thesis using False less
      by (auto simp: lines_wf_def line_index_new_def line_starts_def all n Let_def butlast_append)
  qed
qed

lemma map_Suc_upt_ascending: "ascending (map Suc (filter p [0..<n]))"
  by (simp add: sorted_wrt_map sorted_wrt_filter)

lemma starts_ascending: "lines_wf I \<Longrightarrow> ascending (li_starts I)"
  using map_Suc_upt_ascending by (auto simp: lines_wf_def)

lemma mem_starts:
  assumes "lines_wf I"
  shows "s \<in> set (li_starts I) \<longleftrightarrow> li_content I \<noteq> [] \<and> (s = 0 \<or> 0 < s \<and> s < length (li_content I) \<and> li_content I ! (s - 1) = 0x0A)"
proof (cases "li_content I = []")
  case False
  have "s \<in> Suc ` {i. i < length (li_content I) - 1 \<and> li_content I ! i = 0x0A} \<longleftrightarrow>
      0 < s \<and> s < length (li_content I) \<and> li_content I ! (s - 1) = 0x0A"
    by (cases s) auto
  then show ?thesis using assms False by (auto simp: lines_wf_def)
qed (use assms in \<open>simp add: lines_wf_def\<close>)

lemma starts_empty: "lines_wf I \<Longrightarrow> li_starts I = [] \<longleftrightarrow> li_content I = []"
  by (simp add: lines_wf_def)

lemma line_start_0: "lines_wf I \<Longrightarrow> line_start I 0 = 0"
  by (auto simp: lines_wf_def line_start_def)

lemma line_start_count: "lines_wf I \<Longrightarrow> line_count I \<le> li \<Longrightarrow> line_start I li = length (li_content I)"
  by (simp add: line_start_def line_count_def)

lemma line_start_less:
  assumes "lines_wf I" "li < line_count I"
  shows "line_start I li < line_start I (li + 1)" "line_start I li < length (li_content I)"
    "line_start I (li + 1) \<le> length (li_content I)"
proof -
  have mem: "line_start I k < length (li_content I)" if "k < line_count I" for k
  proof -
    have "li_starts I ! k \<in> set (li_starts I)" using that by (simp add: line_count_def)
    then show ?thesis using that unfolding mem_starts [OF assms(1)] by (auto simp: line_start_def line_count_def)
  qed
  show "line_start I li < length (li_content I)" by (rule mem [OF assms(2)])
  show "line_start I (li + 1) \<le> length (li_content I)"
    using mem [of "li + 1"] line_start_count [OF assms(1), of "li + 1"] by (cases "li + 1 < line_count I") auto
  show "line_start I li < line_start I (li + 1)"
  proof (cases "li + 1 < line_count I")
    case True
    then show ?thesis using sorted_wrt_nth_less [OF starts_ascending [OF assms(1)], of li "li + 1"]
      by (simp add: line_start_def line_count_def)
  next
    case False
    then show ?thesis using mem [OF assms(2)] line_start_count [OF assms(1), of "li + 1"] by simp
  qed
qed

lemma line_start_mono:
  assumes "lines_wf I" "i \<le> j"
  shows "line_start I i \<le> line_start I j"
  using assms(2)
proof (induction rule: dec_induct)
  case (step j)
  then show ?case using line_start_less(1) [OF assms(1), of j] line_start_count [OF assms(1), of j] line_start_count [OF assms(1), of "Suc j"]
    by (cases "j < line_count I") auto
qed simp

text \<open>The line of an offset is the one that holds it.\<close>

lemma line_of_spec:
  assumes "lines_wf I" "li_content I \<noteq> []"
  shows "line_of I off < line_count I \<and> line_start I (line_of I off) \<le> off \<and>
    (line_of I off + 1 < line_count I \<longrightarrow> off < line_start I (line_of I off + 1))"
proof -
  let ?S = "li_starts I" and ?k = "partition_point (\<lambda>s. s < off) (li_starts I)"
  have ne: "?S \<noteq> []" "?S ! 0 = 0" using assms by (simp_all add: lines_wf_def)
  have srt: "sorted (map (\<lambda>x. x) ?S)" using ascending_sorted [OF starts_ascending [OF assms(1)]] by simp
  have k: "?k \<le> length ?S" by (simp add: partition_point_def length_takeWhile_le)
  have before: "?S ! i < off" if "i < ?k" for i
  proof -
    have "?S ! i \<in> set (take ?k ?S)" using that k by (auto simp: in_set_conv_nth intro!: exI [of _ i])
    then show ?thesis using partition_point_split(1) [OF srt, of "?S ! i" off] by simp
  qed
  have behind: "off \<le> ?S ! i" if "?k \<le> i" "i < length ?S" for i
  proof -
    have "?S ! i = drop ?k ?S ! (i - ?k)" "i - ?k < length (drop ?k ?S)" using that k by simp_all
    then have "?S ! i \<in> set (drop ?k ?S)" by (metis nth_mem)
    then show ?thesis using partition_point_split(2) [OF srt, of "?S ! i" off] by simp
  qed
  show ?thesis
  proof (cases "?k < length ?S \<and> ?S ! ?k = off")
    case True
    then have "line_of I off = ?k" using ne by (simp add: line_of_def Let_def)
    moreover have "off < ?S ! (?k + 1)" if "?k + 1 < length ?S"
      using True sorted_wrt_nth_less [OF starts_ascending [OF assms(1)], of ?k "?k + 1"] that by simp
    ultimately show ?thesis using True by (simp add: line_start_def line_count_def)
  next
    case False
    then have line: "line_of I off = ?k - 1" using ne by (auto simp: line_of_def Let_def)
    have pos: "0 < ?k"
    proof (rule ccontr)
      assume "\<not> 0 < ?k"
      then have "off \<le> ?S ! 0" using behind [of 0] ne by simp
      then show False using False ne \<open>\<not> 0 < ?k\<close> by simp
    qed
    then have "?S ! (?k - 1) < off" by (intro before) simp
    moreover have "off < ?S ! ?k" if "?k < length ?S" using behind [of ?k] False that by force
    ultimately show ?thesis using pos k line by (auto simp: line_start_def line_count_def)
  qed
qed

lemma line_of_eqI:
  assumes "lines_wf I" "li < line_count I" "line_start I li \<le> off" "li + 1 < line_count I \<Longrightarrow> off < line_start I (li + 1)"
  shows "line_of I off = li"
proof -
  have "li_content I \<noteq> []" using assms(1,2) by (auto simp: line_count_def lines_wf_def)
  note l = line_of_spec [OF assms(1) this, of off]
  have "\<not> line_of I off < li" using l assms(2,3) line_start_mono [OF assms(1), of "line_of I off + 1" li] by auto
  moreover have "\<not> li < line_of I off" using l assms(4) line_start_mono [OF assms(1), of "li + 1" "line_of I off"] by auto
  ultimately show ?thesis by simp
qed

lemma line_of_mono:
  assumes "lines_wf I" "a \<le> b"
  shows "line_of I a \<le> line_of I b"
proof (cases "li_content I = []")
  case True
  then show ?thesis using assms(1) by (simp add: line_of_def starts_empty)
next
  case False
  note a = line_of_spec [OF assms(1) False, of a] and b = line_of_spec [OF assms(1) False, of b]
  show ?thesis
  proof (rule ccontr)
    assume "\<not> line_of I a \<le> line_of I b"
    then show False using a b assms(2) line_start_mono [OF assms(1), of "line_of I b + 1" "line_of I a"] by auto
  qed
qed

text \<open>The text of a line and its terminator.\<close>

definition line_terminator :: "line_index \<Rightarrow> nat \<Rightarrow> byte list" where
  "line_terminator I li = slice (li_content I) (line_end I li) (line_start I (li + 1))"

text \<open>A line break is the last byte of its line.\<close>

lemma newline_ends_line:
  assumes "lines_wf I" "li < line_count I" "line_start I li \<le> k" "k < line_start I (li + 1)" "li_content I ! k = 0x0A"
  shows "k + 1 = line_start I (li + 1)"
proof (rule ccontr)
  assume "k + 1 \<noteq> line_start I (li + 1)"
  then have k: "k + 1 < line_start I (li + 1)" using assms(4) by simp
  then have "k + 1 < length (li_content I)" using line_start_less(3) [OF assms(1,2)] by simp
  then have "k + 1 \<in> set (li_starts I)" unfolding mem_starts [OF assms(1)] using assms(5) by auto
  then obtain j where j: "j < line_count I" "line_start I j = k + 1"
    by (auto simp: in_set_conv_nth line_count_def line_start_def)
  have "\<not> j \<le> li" using line_start_mono [OF assms(1), of j li] j assms(3) by auto
  moreover have "\<not> li + 1 \<le> j" using line_start_mono [OF assms(1), of "li + 1" j] j k by auto
  ultimately show False by simp
qed

lemma line_end_eq:
  "line_end I li =
     (let stop = line_start I (li + 1);
          stop = (if stop > line_start I li \<and> li_content I ! (stop - 1) = 0x0A then stop - 1 else stop)
      in if stop > line_start I li \<and> li_content I ! (stop - 1) = 0x0D then stop - 1 else stop)"
  unfolding line_end_def line_start_def [of I "li + 1"] Let_def by (rule refl)

lemma line_end_cases:
  assumes "lines_wf I" "li < line_count I"
  shows "line_start I li \<le> line_end I li \<and> line_end I li \<le> line_start I (li + 1) \<and>
    (line_terminator I li \<in> {[0x0A], [0x0D, 0x0A]} \<or>
     li + 1 = line_count I \<and> line_terminator I li \<in> {[], [0x0D]})"
proof -
  let ?C = "li_content I" and ?a = "line_start I li" and ?b = "line_start I (li + 1)"
  note lt = line_start_less [OF assms]
  show ?thesis
  proof (cases "?C ! (?b - 1) = 0x0A")
    case nl: True
    show ?thesis
    proof (cases "?a < ?b - 1 \<and> ?C ! (?b - 2) = 0x0D")
      case True
      then have "line_end I li = ?b - 2" using nl lt by (simp add: line_end_eq Let_def numeral_2_eq_2)
      moreover have "slice ?C (?b - 2) ?b = [0x0D, 0x0A]"
      proof -
        have "1 < ?b" using True by linarith
        then show ?thesis using slice_two [of ?b ?C] lt True nl by simp
      qed
      moreover have "?a \<le> ?b - 2" using True by linarith
      ultimately show ?thesis by (simp add: line_terminator_def)
    next
      case False
      then have "line_end I li = ?b - 1" using nl lt by (auto simp: line_end_eq Let_def numeral_2_eq_2)
      moreover have "slice ?C (?b - 1) ?b = [0x0A]"
        using slice_one [of ?b ?C] lt nl by simp
      ultimately show ?thesis using lt by (simp add: line_terminator_def)
    qed
  next
    case no_nl: False
    have last_line: "li + 1 = line_count I"
    proof (rule ccontr)
      assume "li + 1 \<noteq> line_count I"
      then have more: "li + 1 < line_count I" using assms(2) by simp
      then have "?b \<in> set (li_starts I)" by (simp add: line_start_def line_count_def)
      then show False using no_nl lt unfolding mem_starts [OF assms(1)] by auto
    qed
    show ?thesis
    proof (cases "?C ! (?b - 1) = 0x0D")
      case True
      then have "line_end I li = ?b - 1" using lt by (simp add: line_end_eq Let_def)
      moreover have "slice ?C (?b - 1) ?b = [0x0D]"
        using slice_one [of ?b ?C] lt True by simp
      ultimately show ?thesis using last_line lt by (simp add: line_terminator_def)
    next
      case False
      then have "line_end I li = ?b" using no_nl lt by (simp add: line_end_eq Let_def)
      then show ?thesis using last_line lt by (simp add: line_terminator_def slice_def)
    qed
  qed
qed

lemma line_end_bounds:
  assumes "lines_wf I"
  shows "line_start I li \<le> line_end I li" "line_end I li \<le> line_start I (li + 1)" "line_end I li \<le> length (li_content I)"
proof -
  show a: "line_start I li \<le> line_end I li" and b: "line_end I li \<le> line_start I (li + 1)"
    using line_end_cases [OF assms, of li] line_start_count [OF assms, of li] line_start_count [OF assms, of "li + 1"]
    by (cases "li < line_count I"; simp add: line_end_eq Let_def)+
  show "line_end I li \<le> length (li_content I)"
    using b line_start_mono [OF assms, of "li + 1" "max (li + 1) (line_count I)"]
      line_start_count [OF assms, of "max (li + 1) (line_count I)"] by simp
qed

lemma line_end_in_line:
  assumes "lines_wf I" "li < line_count I" "line_start I li \<le> p" "p \<le> line_end I li"
  shows "line_of I p = li"
proof (rule line_of_eqI [OF assms(1,2,3)])
  assume more: "li + 1 < line_count I"
  have "line_terminator I li \<noteq> []" using line_end_cases [OF assms(1,2)] more by auto
  then have "line_end I li < line_start I (li + 1)" by (auto simp: line_terminator_def slice_def)
  then show "p < line_start I (li + 1)" using assms(4) by simp
qed

lemma line_text_no_newline:
  assumes "lines_wf I" "li < line_count I"
  shows "0x0A \<notin> set (line_text I li)"
proof
  assume "0x0A \<in> set (line_text I li)"
  then obtain i where i: "i < length (line_text I li)" "line_text I li ! i = 0x0A" by (auto simp: in_set_conv_nth)
  note b = line_end_bounds [OF assms(1), of li]
  have i': "line_start I li + i < line_end I li" "li_content I ! (line_start I li + i) = 0x0A"
    using i b by (simp_all add: line_text_def length_slice nth_slice)
  have "line_start I li + i + 1 = line_start I (li + 1)"
    by (rule newline_ends_line [OF assms _ _ i'(2)]) (use i'(1) b in auto)
  then have "line_end I li = line_start I (li + 1)" using i'(1) b by simp
  then have "line_terminator I li = []" by (simp add: line_terminator_def slice_def)
  then have final: "li + 1 = line_count I" using line_end_cases [OF assms] by auto
  have "li_content I ! (line_start I (li + 1) - 1) = 0x0A"
    using i'(2) \<open>line_start I li + i + 1 = line_start I (li + 1)\<close> by (metis add_diff_cancel_right')
  then show False using \<open>line_end I li = line_start I (li + 1)\<close> line_start_less(1) [OF assms]
    by (simp add: line_end_eq Let_def split: if_splits)
qed

lemma lines_concat:
  assumes "lines_wf I" "n \<le> line_count I"
  shows "concat (map (\<lambda>li. line_text I li @ line_terminator I li) [0..<n]) = slice (li_content I) 0 (line_start I n)"
  using assms(2)
proof (induction n)
  case 0
  then show ?case by (simp add: line_start_0 [OF assms(1)] slice_def)
next
  case (Suc n)
  note b = line_end_bounds [OF assms(1), of n]
  have "slice (li_content I) 0 (line_start I n) @ slice (li_content I) (line_start I n) (line_end I n) @
      slice (li_content I) (line_end I n) (line_start I (n + 1)) = slice (li_content I) 0 (line_start I (n + 1))"
    using b by (simp add: slice_append)
  then show ?case using Suc by (simp add: line_text_def line_terminator_def)
qed

section \<open>Grouped ranges\<close>

lemma lookup_push_entry:
  "Mapping.lookup (push_entry li x m) k =
     (if k = li then Some ((case Mapping.lookup m li of Some xs \<Rightarrow> xs | None \<Rightarrow> []) @ [x]) else Mapping.lookup m k)"
  by (simp add: push_entry_def lookup_update')

lemma lookup_fold_push:
  "distinct ls \<Longrightarrow> Mapping.lookup (fold (\<lambda>li. push_entry li (f li)) ls m) k =
     (if k \<in> set ls then Some ((case Mapping.lookup m k of Some xs \<Rightarrow> xs | None \<Rightarrow> []) @ [f k]) else Mapping.lookup m k)"
  by (induction ls arbitrary: m) (auto simp: lookup_push_entry)

lemma lookup_spans_by_line:
  "Mapping.lookup (spans_by_line I spans) li =
     (let here = filter (\<lambda>span. li \<in> set (lines_covered I span)) spans
      in if here = [] then None else Some (map (\<lambda>span. span_on_line I span li) here))"
proof -
  have distinct: "distinct (lines_covered I span)" for span by (simp add: lines_covered_def)
  have "Mapping.lookup (fold (\<lambda>span. fold (\<lambda>li. push_entry li (span_on_line I span li)) (lines_covered I span)) spans m) li =
      (let here = filter (\<lambda>span. li \<in> set (lines_covered I span)) spans
       in if here = [] then Mapping.lookup m li
          else Some ((case Mapping.lookup m li of Some xs \<Rightarrow> xs | None \<Rightarrow> []) @ map (\<lambda>span. span_on_line I span li) here))" for m
    by (induction spans arbitrary: m) (auto simp: Let_def lookup_fold_push [OF distinct])
  from this [of Mapping.empty] show ?thesis by (simp add: spans_by_line_def Let_def)
qed

lemma keys_spans_by_line:
  "Mapping.keys (spans_by_line I spans) = (\<Union>span\<in>set spans. set (lines_covered I span))"
  by (auto simp: keys_dom_lookup domIff lookup_spans_by_line Let_def filter_empty_conv split: if_splits)

lemma finite_spans_by_line: "finite (Mapping.keys (spans_by_line I spans))"
  unfolding keys_spans_by_line by blast

text \<open>Ranges that do not overlap, in ascending order.\<close>

abbreviation separate :: "span list \<Rightarrow> bool" where
  "separate \<equiv> sorted_wrt (\<lambda>a b. snd a \<le> fst b)"

definition in_spans :: "span list \<Rightarrow> nat \<Rightarrow> bool" where
  "in_spans spans k \<longleftrightarrow> (\<exists>sp\<in>set spans. fst sp \<le> k \<and> k < snd sp)"

lemma in_spans_simps [simp]:
  "in_spans [] k \<longleftrightarrow> False"
  "in_spans (sp # spans) k \<longleftrightarrow> fst sp \<le> k \<and> k < snd sp \<or> in_spans spans k"
  "in_spans (xs @ ys) k \<longleftrightarrow> in_spans xs k \<or> in_spans ys k"
  by (auto simp: in_spans_def)

lemma merge_spans_exact:
  assumes "sorted spans" "\<forall>sp\<in>set spans. fst sp \<le> snd sp \<and> snd sp \<le> n"
    and "separate merged" "\<forall>sp\<in>set merged. fst sp \<le> snd sp \<and> snd sp \<le> n"
    and "merged \<noteq> [] \<Longrightarrow> \<forall>sp\<in>set spans. fst (last merged) \<le> fst sp"
  shows "separate (foldl merge_span merged spans) \<and>
    (\<forall>sp\<in>set (foldl merge_span merged spans). fst sp \<le> snd sp \<and> snd sp \<le> n) \<and>
    (\<forall>k. in_spans (foldl merge_span merged spans) k \<longleftrightarrow> in_spans merged k \<or> in_spans spans k)"
  using assms
proof (induction spans arbitrary: merged)
  case (Cons sp spans)
  let ?m = "merge_span merged sp"
  have sp: "fst sp \<le> snd sp" "snd sp \<le> n" using Cons.prems(2) by simp_all
  have later: "fst sp \<le> fst b" if "b \<in> set spans" for b
    using Cons.prems(1) that by (cases sp; cases b) (auto simp: less_eq_prod_def)
  have step: "separate ?m \<and> (\<forall>b\<in>set ?m. fst b \<le> snd b \<and> snd b \<le> n) \<and> fst (last ?m) \<le> fst sp \<and>
      (\<forall>k. in_spans ?m k \<longleftrightarrow> in_spans merged k \<or> fst sp \<le> k \<and> k < snd sp)"
  proof (cases "merged \<noteq> [] \<and> fst sp < snd (last merged)")
    case True
    then obtain pre l where m: "merged = pre @ [l]" by (cases merged rule: rev_cases) auto
    have "fst l \<le> fst sp" using Cons.prems(5) m by simp
    then show ?thesis using True Cons.prems(3,4) sp
      by (auto simp: m merge_span_def sorted_wrt_append max_def)
  next
    case False
    then have m: "?m = merged @ [sp]" by (auto simp: merge_span_def)
    have "snd b \<le> fst sp" if b: "b \<in> set merged" for b
    proof -
      obtain pre l where l: "merged = pre @ [l]" using b by (cases merged rule: rev_cases) auto
      then have "snd l \<le> fst sp" using False by auto
      moreover have "snd b \<le> fst l \<or> b = l" using Cons.prems(3) b by (auto simp: l sorted_wrt_append)
      moreover have "fst l \<le> snd l" using Cons.prems(4) by (simp add: l)
      ultimately show ?thesis by auto
    qed
    then show ?thesis using Cons.prems(3,4) sp by (auto simp: m sorted_wrt_append)
  qed
  have "sorted spans" "\<forall>b\<in>set spans. fst b \<le> snd b \<and> snd b \<le> n" using Cons.prems(1,2) by auto
  moreover have "\<forall>b\<in>set spans. fst (last ?m) \<le> fst b" using step later by fastforce
  ultimately have "separate (foldl merge_span ?m spans) \<and>
    (\<forall>b\<in>set (foldl merge_span ?m spans). fst b \<le> snd b \<and> snd b \<le> n) \<and>
    (\<forall>k. in_spans (foldl merge_span ?m spans) k \<longleftrightarrow> in_spans ?m k \<or> in_spans spans k)"
    using step by (intro Cons.IH) blast+
  then show ?case using step by auto
qed simp

lemma length_line_text:
  "lines_wf I \<Longrightarrow> length (line_text I li) = line_end I li - line_start I li"
  using line_end_bounds(3) [of I li] by (simp add: line_text_def length_slice)

text \<open>A range on a line.\<close>

lemma span_on_line_bounds:
  assumes "lines_wf I" "fst span \<le> snd span"
  shows "fst (span_on_line I span li) \<le> snd (span_on_line I span li)"
    "snd (span_on_line I span li) \<le> length (line_text I li)"
  using assms line_end_bounds(1) [OF assms(1), of li]
  by (auto simp: span_on_line_def Let_def clamp_def case_prod_unfold length_line_text [OF assms(1)])

lemma span_on_line_covers:
  assumes "lines_wf I" "k < length (line_text I li)"
  shows "fst (span_on_line I span li) \<le> k \<and> k < snd (span_on_line I span li) \<longleftrightarrow>
    fst span \<le> line_start I li + k \<and> line_start I li + k < snd span"
  using assms(2) by (auto simp: span_on_line_def Let_def clamp_def case_prod_unfold length_line_text [OF assms(1)])

lemma covered_line:
  assumes "lines_wf I" "li < line_count I" "k < length (line_text I li)"
    and "fst span \<le> line_start I li + k" "line_start I li + k < snd span"
  shows "li \<in> set (lines_covered I span)"
proof -
  have "line_of I (line_start I li + k) = li"
    by (rule line_end_in_line [OF assms(1,2)]) (use assms(3) in \<open>simp_all add: length_line_text [OF assms(1)]\<close>)
  moreover have "line_of I (fst span) \<le> line_of I (line_start I li + k)" by (rule line_of_mono [OF assms(1,4)])
  moreover have "line_of I (line_start I li + k) \<le> line_of I (snd span - 1)" by (rule line_of_mono [OF assms(1)]) (use assms(5) in simp)
  ultimately show ?thesis using assms(2,4,5)
    by (auto simp: lines_covered_def last_line_of_def case_prod_unfold)
qed

lemma covered_line_less:
  assumes "lines_wf I" "li_content I \<noteq> []" "li \<in> set (lines_covered I span)"
  shows "li < line_count I"
proof -
  have "0 < line_count I" using assms(1,2) by (simp add: line_count_def starts_empty)
  then show ?thesis using assms(3) by (auto simp: lines_covered_def)
qed

text \<open>Grouping the ranges of matches by line keeps exactly their bytes: the lines are those the ranges
  cover, in ascending order, the ranges of each line lie inside its text, do not overlap, and
  together hold the bytes of the line that some match holds.\<close>

theorem grouped_ranges_are_the_matches:
  assumes "finds_all memchr_iter" "I = line_index_new memchr_iter content" "content \<noteq> []"
    and "\<forall>sp\<in>set spans. fst sp \<le> snd sp" "hits = group_spans_by_line I spans"
  shows "ascending (map hit_idx hits) \<and>
    set (map hit_idx hits) = (\<Union>sp\<in>set spans. set (lines_covered I sp)) \<and>
    (\<forall>hit\<in>set hits. separate (hit_spans hit) \<and>
       (\<forall>sp\<in>set (hit_spans hit). fst sp \<le> snd sp \<and> snd sp \<le> length (line_text I (hit_idx hit)))) \<and>
    (\<forall>li < line_count I. \<forall>k < length (line_text I li).
       (\<exists>hit\<in>set hits. hit_idx hit = li \<and> in_spans (hit_spans hit) k) \<longleftrightarrow> in_spans spans (line_start I li + k))"
proof -
  have wf: "lines_wf I" and content: "li_content I = content" using line_index_new_wf [OF assms(1)] assms(2) by simp_all
  define on where "on li = map (\<lambda>span. span_on_line I span li) (filter (\<lambda>span. li \<in> set (lines_covered I span)) spans)" for li
  define keys where "keys = sorted_list_of_set (\<Union>sp\<in>set spans. set (lines_covered I sp))"
  have keys: "Mapping.ordered_keys (spans_by_line I spans) = keys"
    using finite_spans_by_line [of I spans] by (simp add: Mapping.ordered_keys_def keys_def keys_spans_by_line)
  have set_keys: "set keys = (\<Union>sp\<in>set spans. set (lines_covered I sp))" by (simp add: keys_def)
  have look: "the (Mapping.lookup (spans_by_line I spans) li) = on li" if "li \<in> set keys" for li
    using that by (auto simp: set_keys lookup_spans_by_line Let_def filter_empty_conv on_def)
  have hits: "hits = map (\<lambda>li. \<lparr>hit_idx = li, hit_spans = foldl merge_span [] (sort (on li))\<rparr>) keys"
    using look by (simp add: assms(5) group_spans_by_line_def Let_def keys)
  have on_ok: "\<forall>sp\<in>set (sort (on li)). fst sp \<le> snd sp \<and> snd sp \<le> length (line_text I li)" for li
    using span_on_line_bounds [OF wf] assms(4) by (auto simp: on_def)
  note merged = merge_spans_exact [OF sorted_sort on_ok, of "[]", simplified]
  have "map hit_idx hits = keys" by (simp add: hits comp_def)
  moreover have "ascending keys" by (simp add: keys_def)
  moreover have "(\<exists>hit\<in>set hits. hit_idx hit = li \<and> in_spans (hit_spans hit) k) \<longleftrightarrow> in_spans spans (line_start I li + k)"
    if "li < line_count I" "k < length (line_text I li)" for li k
  proof -
    have "in_spans (sort (on li)) k \<longleftrightarrow> in_spans spans (line_start I li + k)"
      using span_on_line_covers [OF wf that(2)] covered_line [OF wf that] by (fastforce simp: in_spans_def on_def)
    moreover have "li \<in> set keys" if "in_spans (sort (on li)) k"
      using that by (auto simp: in_spans_def on_def set_keys)
    ultimately show ?thesis using merged by (auto simp: hits)
  qed
  ultimately show ?thesis using merged by (auto simp: hits set_keys)
qed

text \<open>Two lines, and a match that crosses from one to the other.\<close>

theorem grouped_ranges_are_the_matches_witness:
  "\<exists>hit\<in>set (group_spans_by_line (line_index_new all_bytes [0x61, 0x62, 0x0A, 0x63, 0x64]) [(1, 4)]).
      hit_idx hit = 1 \<and> in_spans (hit_spans hit) 0 \<and> \<not> in_spans (hit_spans hit) 1"
proof -
  let ?I = "line_index_new all_bytes [0x61, 0x62, 0x0A, 0x63, 0x64]"
  have starts: "li_starts ?I = [0, 3]" "li_content ?I = [0x61, 0x62, 0x0A, 0x63, 0x64]" by code_simp+
  let ?hits = "group_spans_by_line ?I [(1, 4)]"
  have "line_count ?I = 2" "length (line_text ?I 1) = 2" "line_start ?I 1 = 3"
    using length_line_text [OF line_index_new_wf(1) [OF all_bytes_finds_all]]
    by (simp_all add: line_count_def line_end_def line_start_def starts Let_def)
  then have hits: "\<exists>hit\<in>set ?hits. hit_idx hit = 1 \<and> in_spans (hit_spans hit) 0"
    "\<not> (\<exists>hit\<in>set ?hits. hit_idx hit = 1 \<and> in_spans (hit_spans hit) 1)"
    using grouped_ranges_are_the_matches [OF all_bytes_finds_all refl _ _ refl, of "[0x61, 0x62, 0x0A, 0x63, 0x64]" "[(1, 4)]"]
    by simp_all
  then show ?thesis by blast
qed

text \<open>C23. The table of lines divides a text: the texts of the lines with their terminators are the whole text, no
  line holds a line break, every terminator is a line feed with or without a carriage return but
  that of the last line, which can be missing or a carriage return alone, and the line of an
  offset is the one that holds it.\<close>

theorem lines_divide_the_text:
  assumes "finds_all memchr_iter" "I = line_index_new memchr_iter content"
  shows "concat (map (\<lambda>li. line_text I li @ line_terminator I li) [0..<line_count I]) = content \<and>
    (\<forall>li < line_count I. 0x0A \<notin> set (line_text I li) \<and>
       length (line_terminator I li) = line_terminator_len I li \<and>
       (line_terminator I li \<in> {[0x0A], [0x0D, 0x0A]} \<or>
        li + 1 = line_count I \<and> line_terminator I li \<in> {[], [0x0D]})) \<and>
    (\<forall>off < length content. line_of I off < line_count I \<and>
       line_start I (line_of I off) \<le> off \<and> off < line_start I (line_of I off + 1))"
proof -
  have wf: "lines_wf I" and content: "li_content I = content" using line_index_new_wf [OF assms(1)] assms(2) by simp_all
  have "concat (map (\<lambda>li. line_text I li @ line_terminator I li) [0..<line_count I]) = content"
    using lines_concat [OF wf order_refl] line_start_count [OF wf order_refl] content by (simp add: slice_def)
  moreover have "length (line_terminator I li) = line_terminator_len I li" if "li < line_count I" for li
    using line_start_less(3) [OF wf that] by (simp add: line_terminator_def length_slice line_terminator_len_def line_start_def)
  moreover have "line_of I off < line_count I \<and> line_start I (line_of I off) \<le> off \<and> off < line_start I (line_of I off + 1)"
    if off: "off < length content" for off
  proof -
    have "li_content I \<noteq> []" using off content by auto
    from line_of_spec [OF wf this, of off] show ?thesis
      using line_start_count [OF wf, of "line_of I off + 1"] off content
      by (cases "line_of I off + 1 < line_count I") auto
  qed
  ultimately show ?thesis using line_text_no_newline [OF wf] line_end_cases [OF wf] by blast
qed

theorem lines_divide_the_text_witness:
  "line_terminator (line_index_new all_bytes [0x61, 0x0D, 0x0A, 0x62, 0x0D]) 0 = [0x0D, 0x0A] \<and>
   0x0A \<notin> set (line_text (line_index_new all_bytes [0x61, 0x0D, 0x0A, 0x62, 0x0D]) 1)"
proof -
  let ?I = "line_index_new all_bytes [0x61, 0x0D, 0x0A, 0x62, 0x0D]"
  have starts: "li_starts ?I = [0, 3]" "li_content ?I = [0x61, 0x0D, 0x0A, 0x62, 0x0D]" by code_simp+
  have "line_count ?I = 2" by (simp add: line_count_def starts)
  moreover have "line_terminator ?I 0 = [0x0D, 0x0A]"
    by (simp add: line_terminator_def line_end_def line_start_def starts slice_def)
  ultimately show ?thesis using lines_divide_the_text [OF all_bytes_finds_all refl, of "[0x61, 0x0D, 0x0A, 0x62, 0x0D]"] by auto
qed

section \<open>Limits and windows\<close>

lemma limit_loop_prefix: "prefix (limit_loop I n spans blocks block_end) spans"
  by (induction I n spans blocks block_end rule: limit_loop.induct) (auto simp: Let_def split: option.split)

lemma limit_prefix: "prefix (limit_to_line_blocks I spans max_blocks) spans"
  by (simp add: limit_to_line_blocks_def limit_loop_prefix split: option.split)

lemma fold_union_upt:
  "fold (\<lambda>x acc. acc \<union> set [f x..<g x]) xs A = A \<union> {j. \<exists>x\<in>set xs. f x \<le> j \<and> j < g x}"
  by (induction xs arbitrary: A) auto

lemma context_window:
  assumes "\<forall>mi\<in>set idxs. mi + after + 1 < 2 ^ 64"
  shows "ascending (expand_context_window idxs n_lines before after)"
    "set (expand_context_window idxs n_lines before after) =
       {j. j < n_lines \<and> (\<exists>mi\<in>set idxs. mi \<le> j + before \<and> j \<le> mi + after)}"
proof -
  let ?W = "{j. \<exists>mi\<in>set idxs. mi - before \<le> j \<and> j < min ((mi + after + 1) mod 2 ^ 64) n_lines}"
  have window: "expand_context_window idxs n_lines before after = sorted_list_of_set ?W"
    unfolding expand_context_window_def fold_union_upt by simp
  show "ascending (expand_context_window idxs n_lines before after)" by (simp add: window)
  have "?W \<subseteq> {..<n_lines}" by auto
  then have "finite ?W" by (rule finite_subset) simp
  moreover have "?W = {j. j < n_lines \<and> (\<exists>mi\<in>set idxs. mi \<le> j + before \<and> j \<le> mi + after)}"
    using assms by (auto simp: less_diff_conv) (metis add.commute diff_le_mono2 le_diff_conv less_Suc_eq_le mod_less)+
  ultimately show "set (expand_context_window idxs n_lines before after) =
       {j. j < n_lines \<and> (\<exists>mi\<in>set idxs. mi \<le> j + before \<and> j \<le> mi + after)}"
    by (simp add: window)
qed

text \<open>The largest context count wraps the end of the window to the match itself, which is then not printed.\<close>

lemma context_window_wraps: "expand_context_window [0] 1 0 (2 ^ 64 - 1) = []"
  by (simp add: expand_context_window_def)

end
