(* ===== verification/Trigram.thy ===== *)
theory Trigram
  imports Prelude
begin

text \<open>
  Trigram extraction (\<^verbatim>\<open>tgrep-core/src/trigram.rs\<close>): the packing of three bytes
  into a key, the hasher of the trigram tables, the per-file tables of location and
  next-byte masks, the single-pass extraction that covers a file and its lowercased
  text, and the mask checks of the query side.
\<close>

section \<open>The definitions of the code\<close>

subsection \<open>Hashing\<close>

text \<open>\<^verbatim>\<open>TrigramHasher\<close> is its 64-bit accumulator.\<close>

definition hasher_write :: "u64 \<Rightarrow> byte list \<Rightarrow> u64" where
  "hasher_write self bytes = foldl (\<lambda>h b. (h XOR ucast b) * 0x100000001b3) self bytes"

definition hasher_write_u32 :: "u64 \<Rightarrow> u32 \<Rightarrow> u64" where
  "hasher_write_u32 self value =
     (let mixed = (ucast value :: u64) * 0x9E3779B97F4A7C15
      in mixed XOR drop_bit 32 mixed)"

definition hash :: "byte \<Rightarrow> byte \<Rightarrow> byte \<Rightarrow> u32" where
  "hash a b c = push_bit 16 (ucast a) OR push_bit 8 (ucast b) OR ucast c"

definition loc_bit :: "nat \<Rightarrow> byte" where
  "loc_bit offset = push_bit (offset mod 8) 1"

definition next_bit :: "byte \<Rightarrow> byte" where
  "next_bit b = push_bit (unat (drop_bit 5 (b * 0x9E) AND 0x07)) 1"

definition bloom_hash :: "byte \<Rightarrow> byte" where
  "bloom_hash b = next_bit b"

subsection \<open>Masks of one file\<close>

record trigram_masks =
  loc_mask :: byte
  next_mask :: byte

type_synonym mask_map = "(u32, trigram_masks) mapping"

definition default_masks :: trigram_masks where
  "default_masks = \<lparr>loc_mask = 0, next_mask = 0\<rparr>"

text \<open>
  \<^verbatim>\<open>map.entry(h).or_default()\<close> followed by the two \<^verbatim>\<open>|=\<close>
  updates of the entry.
\<close>

definition or_masks :: "u32 \<Rightarrow> byte \<Rightarrow> byte \<Rightarrow> mask_map \<Rightarrow> mask_map" where
  "or_masks h loc nxt m =
     (let e = (case Mapping.lookup m h of None \<Rightarrow> default_masks | Some e \<Rightarrow> e)
      in Mapping.update h
           \<lparr>loc_mask = loc_mask e OR loc, next_mask = next_mask e OR nxt\<rparr> m)"

text \<open>\<^verbatim>\<open>data.windows(3)\<close>.\<close>

fun windows3 :: "byte list \<Rightarrow> (byte \<times> byte \<times> byte) list" where
  "windows3 (a # b # c # rest) = (a, b, c) # windows3 (b # c # rest)"
| "windows3 _ = []"

fun extract_loop :: "(byte \<times> byte \<times> byte) list \<Rightarrow> u32 set \<Rightarrow> u32 list" where
  "extract_loop [] seen = []"
| "extract_loop ((a, b, c) # ws) seen =
     (let h = hash a b c
      in if h \<in> seen then extract_loop ws seen
         else h # extract_loop ws (insert h seen))"

definition trigram_extract :: "byte list \<Rightarrow> u32 list" where
  "trigram_extract data = (if length data < 3 then [] else extract_loop (windows3 data) {})"

text \<open>The bit of the byte that follows the window at offset \<open>i\<close>, none at the end.\<close>

definition next_of_window :: "byte list \<Rightarrow> nat \<Rightarrow> byte" where
  "next_of_window data i = (if i + 3 < length data then next_bit (data ! (i + 3)) else 0)"

fun masks_step ::
  "byte list \<Rightarrow> nat \<times> byte \<times> byte \<times> byte \<Rightarrow> mask_map \<times> u32 list \<Rightarrow> mask_map \<times> u32 list"
where
  "masks_step data (i, a, b, c) (masks, order) =
     (let h = hash a b c
      in (or_masks h (loc_bit i) (next_of_window data i) masks,
          if Mapping.lookup masks h = None then order @ [h] else order))"

definition extract_with_masks :: "byte list \<Rightarrow> (u32 \<times> trigram_masks) list" where
  "extract_with_masks data =
     (if length data < 3 then []
      else let (masks, order) =
                 fold (masks_step data) (enumerate 0 (windows3 data)) (Mapping.empty, [])
           in map (\<lambda>h. (h, the (Mapping.lookup masks h))) order)"

subsection \<open>Mask checks\<close>

definition rotate_left1 :: "byte \<Rightarrow> byte" where
  "rotate_left1 x = push_bit 1 x OR drop_bit 7 x"

fun check_adjacency :: "(u32 \<times> trigram_masks) list \<Rightarrow> bool" where
  "check_adjacency (p # q # rest) =
     (if rotate_left1 (loc_mask (snd p)) AND loc_mask (snd q) = 0 then False
      else check_adjacency (q # rest))"
| "check_adjacency _ = True"

definition check_next_byte :: "trigram_masks \<Rightarrow> byte \<Rightarrow> bool" where
  "check_next_byte masks b = (next_mask masks AND next_bit b \<noteq> 0)"

subsection \<open>The single pass over both cases\<close>

definition is_ascii_uppercase :: "byte \<Rightarrow> bool" where
  "is_ascii_uppercase b = (0x41 \<le> b \<and> b \<le> 0x5A)"

definition to_ascii_lowercase :: "byte \<Rightarrow> byte" where
  "to_ascii_lowercase b = (if is_ascii_uppercase b then b + 0x20 else b)"

text \<open>
  The check the caller passes in may stop the extraction with an error and may carry a
  state of its own (the charged memory of the managed build): it is an argument, a
  function on that state.
\<close>

fun scan_upper :: "(mask_map \<Rightarrow> nat \<Rightarrow> 's \<Rightarrow> 'e + 's) \<Rightarrow> byte list list \<Rightarrow> 's \<Rightarrow> 'e + (bool \<times> 's)"
where
  "scan_upper check [] s = Inr (False, s)"
| "scan_upper check (chunk # rest) s =
     rbind (check Mapping.empty 0 s) (\<lambda>s.
       if list_ex is_ascii_uppercase chunk then Inr (True, s) else scan_upper check rest s)"

fun merge_window :: "byte list \<Rightarrow> bool \<Rightarrow> nat \<times> byte \<times> byte \<times> byte \<Rightarrow> mask_map \<Rightarrow> mask_map" where
  "merge_window content has_upper (i, a, b, c) per_tri =
     (let trigram = hash a b c;
          loc = loc_bit i;
          nxt = next_of_window content i
      in if \<not> has_upper then or_masks trigram loc nxt per_tri
         else
           let lowered = hash (to_ascii_lowercase a) (to_ascii_lowercase b) (to_ascii_lowercase c);
               next_lowered =
                 (if i + 3 < length content
                  then next_bit (to_ascii_lowercase (content ! (i + 3))) else 0)
           in if lowered = trigram then or_masks trigram loc (nxt OR next_lowered) per_tri
              else or_masks lowered loc next_lowered (or_masks trigram loc nxt per_tri))"

fun merged_loop ::
  "(mask_map \<Rightarrow> nat \<Rightarrow> 's \<Rightarrow> 'e + 's) \<Rightarrow> byte list \<Rightarrow> bool \<Rightarrow> (nat \<times> byte \<times> byte \<times> byte) list \<Rightarrow>
   mask_map \<Rightarrow> 's \<Rightarrow> 'e + (mask_map \<times> 's)"
where
  "merged_loop check content has_upper [] per_tri s = Inr (per_tri, s)"
| "merged_loop check content has_upper ((i, w) # ws) per_tri s =
     rbind (if i mod 1024 = 0 then check per_tri (min (length content - 2 - i) 1024) s else Inr s)
       (\<lambda>s. merged_loop check content has_upper ws
              (merge_window content has_upper (i, w) per_tri) s)"

definition extract_merged_masks_inner ::
  "(mask_map \<Rightarrow> nat \<Rightarrow> 's \<Rightarrow> 'e + 's) \<Rightarrow> byte list \<Rightarrow> 's \<Rightarrow> 'e + (mask_map \<times> 's)"
where
  "extract_merged_masks_inner check content s =
     rbind (check Mapping.empty 0 s) (\<lambda>s.
       if length content < 3 then Inr (Mapping.empty, s)
       else
         rbind (scan_upper check (chunks (64 * 1024) content) s) (\<lambda>(has_upper, s).
           merged_loop check content has_upper (enumerate 0 (windows3 content))
             Mapping.empty s))"

text \<open>The error type of the uncontrolled call is empty (\<^verbatim>\<open>Infallible\<close>).\<close>

definition extract_merged_masks :: "byte list \<Rightarrow> mask_map" where
  "extract_merged_masks content =
     (case extract_merged_masks_inner (\<lambda>_ _ s. Inr s :: unit + unit) content () of
        Inr (m, _) \<Rightarrow> m
      | Inl _ \<Rightarrow> Mapping.empty)"

definition extract_from_literal :: "byte list \<Rightarrow> u32 list" where
  "extract_from_literal s = trigram_extract s"

definition is_binary :: "byte list \<Rightarrow> bool" where
  "is_binary data = (0 \<in> set (take (min (length data) 8192) data))"

text \<open>
  The formulation the single pass replaced, kept by the code's tests as the definition of
  its result: extract from the file, then from its lowercased copy, and merge.
\<close>

definition merged_masks_via_materialised_copy :: "byte list \<Rightarrow> mask_map" where
  "merged_masks_via_materialised_copy content =
     fold (\<lambda>(tri, m). or_masks tri (loc_mask m) (next_mask m))
       (extract_with_masks (map to_ascii_lowercase content))
       (fold (\<lambda>(tri, m). Mapping.update tri m) (extract_with_masks content) Mapping.empty)"

section \<open>Hashing is injective\<close>

lemma bit_hash:
  "bit (hash a b c) k \<longleftrightarrow>
     (k < 8 \<and> bit c k) \<or> (8 \<le> k \<and> k < 16 \<and> bit b (k - 8)) \<or> (16 \<le> k \<and> k < 24 \<and> bit a (k - 16))"
  by (auto simp: hash_def bit_or_iff bit_push_bit_iff bit_ucast_iff dest: bit_imp_le_length)

lemma hash_inject [simp]: "hash a b c = hash a' b' c' \<longleftrightarrow> a = a' \<and> b = b' \<and> c = c'"
proof
  assume eq: "hash a b c = hash a' b' c'"
  have bits: "bit (hash a b c) k = bit (hash a' b' c') k" for k by (simp add: eq)
  have "bit c k = bit c' k" if "k < 8" for k
    using bits [of k] that by (simp add: bit_hash)
  moreover have "bit b k = bit b' k" if "k < 8" for k
    using bits [of "k + 8"] that by (simp add: bit_hash)
  moreover have "bit a k = bit a' k" if "k < 8" for k
    using bits [of "k + 16"] that by (simp add: bit_hash)
  ultimately show "a = a' \<and> b = b' \<and> c = c'"
    by (auto intro!: bit_eqI)
qed simp

lemma hash_less: "hash a b c < 0x1000000"
proof -
  have "take_bit 24 (hash a b c) = hash a b c"
    by (rule bit_eqI) (auto simp: bit_take_bit_iff bit_hash)
  then have "unat (hash a b c) < 2 ^ 24"
    by (metis take_bit_nat_less_exp unsigned_take_bit_eq)
  then show ?thesis by (simp add: word_less_nat_alt)
qed

lemma odd_mult_inject:
  "(x :: u64) * 0x9E3779B97F4A7C15 = y * 0x9E3779B97F4A7C15 \<longleftrightarrow> x = y"
proof
  have inverse: "(0x9E3779B97F4A7C15 :: u64) * 0xF1DE83E19937733D = 1" by simp
  assume "x * 0x9E3779B97F4A7C15 = y * 0x9E3779B97F4A7C15"
  then have "x * (0x9E3779B97F4A7C15 * 0xF1DE83E19937733D) =
      y * (0x9E3779B97F4A7C15 * 0xF1DE83E19937733D)"
    by (simp only: mult.assoc [symmetric])
  then show "x = y" by (simp only: inverse mult_1_right)
qed simp

lemma xorshift_inject:
  "(x :: u64) XOR drop_bit 32 x = y XOR drop_bit 32 y \<longleftrightarrow> x = y"
proof
  have inv: "(z XOR drop_bit 32 z) XOR drop_bit 32 (z XOR drop_bit 32 z) = z" for z :: u64
    by (rule bit_eqI) (auto simp: bit_xor_iff bit_drop_bit_eq dest: bit_imp_le_length)
  assume "x XOR drop_bit 32 x = y XOR drop_bit 32 y"
  then show "x = y" using inv [of x] inv [of y] by simp
qed simp

lemma hasher_write_u32_inject:
  "hasher_write_u32 s v = hasher_write_u32 s w \<longleftrightarrow> v = w"
proof -
  have "ucast (ucast x :: u64) = x" for x :: u32
    by (rule bit_eqI) (auto simp: bit_ucast_iff)
  then have "(ucast v :: u64) = ucast w \<longleftrightarrow> v = w"
    by metis
  then show ?thesis
    by (simp add: hasher_write_u32_def Let_def xorshift_inject odd_mult_inject)
qed

section \<open>Windows\<close>

lemma length_windows3: "length (windows3 data) = length data - 2"
  by (induction data rule: windows3.induct) auto

lemma nth_windows3:
  "i + 2 < length data \<Longrightarrow> windows3 data ! i = (data ! i, data ! (i + 1), data ! (i + 2))"
proof (induction data arbitrary: i rule: windows3.induct)
  case (1 a b c rest)
  then show ?case by (cases i) auto
qed auto

lemma windows3_map:
  "windows3 (map f data) = map (\<lambda>(a, b, c). (f a, f b, f c)) (windows3 data)"
  by (induction data rule: windows3.induct) auto

lemma windows3_short: "length data < 3 \<Longrightarrow> windows3 data = []"
  using length_windows3 [of data] by (cases "windows3 data") auto

text \<open>The trigram that starts at offset \<open>i\<close>.\<close>

definition trigram_at :: "byte list \<Rightarrow> nat \<Rightarrow> u32" where
  "trigram_at data i = hash (data ! i) (data ! (i + 1)) (data ! (i + 2))"

text \<open>The offsets at which a trigram occurs.\<close>

definition occurs :: "byte list \<Rightarrow> u32 \<Rightarrow> nat \<Rightarrow> bool" where
  "occurs data h i \<longleftrightarrow> i + 2 < length data \<and> trigram_at data i = h"

lemma in_enumerate_windows3:
  "(i, a, b, c) \<in> set (enumerate 0 (windows3 data)) \<longleftrightarrow>
     i + 2 < length data \<and> a = data ! i \<and> b = data ! (i + 1) \<and> c = data ! (i + 2)"
  by (auto simp: in_set_enumerate_eq length_windows3 nth_windows3)

lemma in_windows3:
  "(a, b, c) \<in> set (windows3 data) \<longleftrightarrow>
     (\<exists>i. i + 2 < length data \<and> a = data ! i \<and> b = data ! (i + 1) \<and> c = data ! (i + 2))"
proof -
  have "(a, b, c) \<in> set (windows3 data) \<longleftrightarrow>
      (\<exists>i < length data - 2. windows3 data ! i = (a, b, c))"
    by (auto simp: in_set_conv_nth length_windows3)
  also have "\<dots> \<longleftrightarrow> (\<exists>i. i + 2 < length data \<and> windows3 data ! i = (a, b, c))"
    by (auto simp: less_diff_conv)
  also have "\<dots> \<longleftrightarrow>
     (\<exists>i. i + 2 < length data \<and> a = data ! i \<and> b = data ! (i + 1) \<and> c = data ! (i + 2))"
    by (auto simp: nth_windows3)
  finally show ?thesis .
qed

section \<open>Extraction without masks\<close>

lemma extract_loop_set:
  "set (extract_loop ws seen) = (\<lambda>(a, b, c). hash a b c) ` set ws - seen"
proof (induction ws seen rule: extract_loop.induct)
  case (2 a b c ws seen)
  show ?case
  proof (cases "hash a b c \<in> seen")
    case True
    then show ?thesis using "2.IH"(1) [OF refl True] by (simp add: Let_def insert_Diff_if)
  next
    case False
    have "set (extract_loop ((a, b, c) # ws) seen) =
        insert (hash a b c) ((\<lambda>(a, b, c). hash a b c) ` set ws - insert (hash a b c) seen)"
      using "2.IH"(2) [OF refl False] False by (simp add: Let_def)
    also have "\<dots> = insert (hash a b c) ((\<lambda>(a, b, c). hash a b c) ` set ws) - seen"
      using False by blast
    finally show ?thesis by simp
  qed
qed simp

lemma extract_loop_distinct: "distinct (extract_loop ws seen)"
  by (induction ws seen rule: extract_loop.induct) (auto simp: Let_def extract_loop_set)

lemma distinct_trigram_extract [simp]: "distinct (trigram_extract data)"
  by (simp add: trigram_extract_def extract_loop_distinct)

lemma set_trigram_extract: "set (trigram_extract data) = {h. \<exists>i. occurs data h i}"
proof (cases "length data < 3")
  case True
  then show ?thesis by (auto simp: trigram_extract_def occurs_def)
next
  case False
  have "(\<lambda>(a, b, c). hash a b c) ` set (windows3 data) = {h. \<exists>i. occurs data h i}"
    (is "?l = ?r")
  proof (rule set_eqI)
    fix h
    have "h \<in> ?l \<longleftrightarrow> (\<exists>a b c. (a, b, c) \<in> set (windows3 data) \<and> hash a b c = h)"
      by force
    also have "\<dots> \<longleftrightarrow> h \<in> ?r"
      by (auto simp: in_windows3 occurs_def trigram_at_def)
    finally show "h \<in> ?l \<longleftrightarrow> h \<in> ?r" .
  qed
  with False show ?thesis by (simp add: trigram_extract_def extract_loop_set)
qed

section \<open>Mask tables\<close>

definition loc_of :: "mask_map \<Rightarrow> u32 \<Rightarrow> byte" where
  "loc_of m h = (case Mapping.lookup m h of None \<Rightarrow> 0 | Some e \<Rightarrow> loc_mask e)"

definition next_of :: "mask_map \<Rightarrow> u32 \<Rightarrow> byte" where
  "next_of m h = (case Mapping.lookup m h of None \<Rightarrow> 0 | Some e \<Rightarrow> next_mask e)"

lemma mask_map_eqI:
  assumes "Mapping.keys m = Mapping.keys m'"
    and "\<And>h. loc_of m h = loc_of m' h" and "\<And>h. next_of m h = next_of m' h"
  shows "m = m'"
proof (rule mapping_eqI)
  fix h
  have "h \<in> Mapping.keys m \<longleftrightarrow> h \<in> Mapping.keys m'" using assms(1) by simp
  then have "Mapping.lookup m h = None \<longleftrightarrow> Mapping.lookup m' h = None"
    by (auto simp: keys_dom_lookup dom_def)
  then show "Mapping.lookup m h = Mapping.lookup m' h"
    using assms(2) [of h] assms(3) [of h]
    by (auto simp: loc_of_def next_of_def split: option.splits)
qed

text \<open>A table built by \<open>or_masks\<close> depends on the contributions only as a set of bits.\<close>

type_synonym contribution = "u32 \<times> byte \<times> byte"

definition add_contributions :: "contribution list \<Rightarrow> mask_map \<Rightarrow> mask_map" where
  "add_contributions cs m = fold (\<lambda>(h, l, n). or_masks h l n) cs m"

lemma add_contributions_Nil [simp]: "add_contributions [] m = m"
  by (simp add: add_contributions_def)

lemma add_contributions_Cons [simp]:
  "add_contributions (c # cs) m =
     add_contributions cs (or_masks (fst c) (fst (snd c)) (snd (snd c)) m)"
  by (simp add: add_contributions_def case_prod_beta)

lemma add_contributions_append [simp]:
  "add_contributions (cs @ ds) m = add_contributions ds (add_contributions cs m)"
  by (simp add: add_contributions_def)

lemma keys_or_masks [simp]: "Mapping.keys (or_masks h l n m) = insert h (Mapping.keys m)"
  by (simp add: or_masks_def Let_def)

lemma loc_of_or_masks:
  "loc_of (or_masks h l n m) k = (if k = h then loc_of m k OR l else loc_of m k)"
  by (simp add: or_masks_def loc_of_def lookup_update' Let_def default_masks_def split: option.splits)

lemma next_of_or_masks:
  "next_of (or_masks h l n m) k = (if k = h then next_of m k OR n else next_of m k)"
  by (simp add: or_masks_def next_of_def lookup_update' Let_def default_masks_def split: option.splits)

definition loc_contributed :: "contribution list \<Rightarrow> u32 \<Rightarrow> nat \<Rightarrow> bool" where
  "loc_contributed cs h k \<longleftrightarrow> (\<exists>c \<in> set cs. fst c = h \<and> bit (fst (snd c)) k)"

definition next_contributed :: "contribution list \<Rightarrow> u32 \<Rightarrow> nat \<Rightarrow> bool" where
  "next_contributed cs h k \<longleftrightarrow> (\<exists>c \<in> set cs. fst c = h \<and> bit (snd (snd c)) k)"

lemma contributed_simps [simp]:
  "\<not> loc_contributed [] h k"
  "\<not> next_contributed [] h k"
  "loc_contributed (c # cs) h k \<longleftrightarrow> fst c = h \<and> bit (fst (snd c)) k \<or> loc_contributed cs h k"
  "next_contributed (c # cs) h k \<longleftrightarrow> fst c = h \<and> bit (snd (snd c)) k \<or> next_contributed cs h k"
  "loc_contributed (cs @ ds) h k \<longleftrightarrow> loc_contributed cs h k \<or> loc_contributed ds h k"
  "next_contributed (cs @ ds) h k \<longleftrightarrow> next_contributed cs h k \<or> next_contributed ds h k"
  by (auto simp: loc_contributed_def next_contributed_def)

lemma keys_add_contributions [simp]:
  "Mapping.keys (add_contributions cs m) = Mapping.keys m \<union> fst ` set cs"
  by (induction cs arbitrary: m) simp_all

lemma bit_loc_of_add_contributions [simp]:
  "bit (loc_of (add_contributions cs m) h) k \<longleftrightarrow> bit (loc_of m h) k \<or> loc_contributed cs h k"
  by (induction cs arbitrary: m) (simp_all add: loc_of_or_masks bit_or_iff disj_ac eq_commute)

lemma bit_next_of_add_contributions [simp]:
  "bit (next_of (add_contributions cs m) h) k \<longleftrightarrow> bit (next_of m h) k \<or> next_contributed cs h k"
  by (induction cs arbitrary: m) (simp_all add: next_of_or_masks bit_or_iff disj_ac eq_commute)

lemma masks_of_empty [simp]:
  "loc_of Mapping.empty h = 0" "next_of Mapping.empty h = 0"
  by (simp_all add: loc_of_def next_of_def)

text \<open>Two lists of contributions with the same keys and bits give the same table.\<close>

lemma add_contributions_eqI:
  assumes "fst ` set cs = fst ` set ds"
    and "\<And>h k. loc_contributed cs h k \<longleftrightarrow> loc_contributed ds h k"
    and "\<And>h k. next_contributed cs h k \<longleftrightarrow> next_contributed ds h k"
  shows "add_contributions cs Mapping.empty = add_contributions ds Mapping.empty"
  by (rule mask_map_eqI) (simp_all add: assms bit_eq_iff)

section \<open>Extraction with masks\<close>

text \<open>What one window of a file contributes, and what a whole pass contributes.\<close>

definition window_contributions :: "byte list \<Rightarrow> contribution list" where
  "window_contributions data =
     map (\<lambda>i. (trigram_at data i, loc_bit i, next_of_window data i)) [0..<length data - 2]"

lemma enumerate_windows3:
  "enumerate 0 (windows3 data) =
     map (\<lambda>i. (i, data ! i, data ! Suc i, data ! Suc (Suc i))) [0..<length data - 2]"
  by (rule nth_equalityI) (auto simp: length_windows3 nth_enumerate_eq nth_windows3)

lemma masks_fold:
  "fst (fold (masks_step data) ws (m, order)) =
     add_contributions (map (\<lambda>(i, a, b, c). (hash a b c, loc_bit i, next_of_window data i)) ws) m"
  by (induction ws arbitrary: m order) (auto simp: Let_def)

lemma masks_fold_order:
  "set order = Mapping.keys m \<Longrightarrow> distinct order \<Longrightarrow>
     (case fold (masks_step data) ws (m, order) of (m', order') \<Rightarrow>
        set order' = Mapping.keys m' \<and> distinct order')"
proof (induction ws arbitrary: m order)
  case (Cons w ws)
  obtain i a b c where w: "w = (i, a, b, c)" by (cases w)
  obtain m1 o1 where st: "masks_step data w (m, order) = (m1, o1)" by fastforce
  have known: "Mapping.lookup m (hash a b c) = None \<longleftrightarrow> hash a b c \<notin> set order"
    unfolding Cons.prems(1) by (auto simp: keys_dom_lookup)
  have "m1 = or_masks (hash a b c) (loc_bit i) (next_of_window data i) m"
    and "o1 = (if hash a b c \<in> set order then order else order @ [hash a b c])"
    using st by (auto simp: w Let_def known)
  then have "set o1 = Mapping.keys m1 \<and> distinct o1"
    using Cons.prems(2) by (simp add: Cons.prems(1) [symmetric] insert_absorb)
  with Cons.IH [of o1 m1] st show ?case by simp
qed simp

lemma extract_with_masks_table:
  "length data \<ge> 3 \<Longrightarrow>
     \<exists>m order. extract_with_masks data = map (\<lambda>h. (h, the (Mapping.lookup m h))) order \<and>
       m = add_contributions (window_contributions data) Mapping.empty \<and>
       set order = Mapping.keys m \<and> distinct order"
proof -
  assume len: "length data \<ge> 3"
  let ?r = "fold (masks_step data) (enumerate 0 (windows3 data)) (Mapping.empty, [])"
  obtain m order where r: "?r = (m, order)" by fastforce
  have "m = add_contributions (window_contributions data) Mapping.empty"
    using masks_fold [of data "enumerate 0 (windows3 data)" Mapping.empty "[]"] r
    by (simp add: enumerate_windows3 window_contributions_def comp_def trigram_at_def)
  moreover have "set order = Mapping.keys m \<and> distinct order"
    using masks_fold_order [of "[]" Mapping.empty data "enumerate 0 (windows3 data)"] r by simp
  moreover have "extract_with_masks data = map (\<lambda>h. (h, the (Mapping.lookup m h))) order"
    using len r by (simp add: extract_with_masks_def)
  ultimately show ?thesis by blast
qed

lemma fold_or_masks_table:
  "fold (\<lambda>(tri, m). or_masks tri (loc_mask m) (next_mask m))
     (map (\<lambda>h. (h, the (Mapping.lookup m h))) order) acc =
   add_contributions
     (map (\<lambda>h. (h, loc_mask (the (Mapping.lookup m h)), next_mask (the (Mapping.lookup m h)))) order) acc"
  by (induction order arbitrary: acc) simp_all

lemma table_contributions:
  assumes "set order = Mapping.keys m"
  shows "loc_contributed
      (map (\<lambda>h. (h, loc_mask (the (Mapping.lookup m h)), next_mask (the (Mapping.lookup m h)))) order)
      h k \<longleftrightarrow> bit (loc_of m h) k"
    and "next_contributed
      (map (\<lambda>h. (h, loc_mask (the (Mapping.lookup m h)), next_mask (the (Mapping.lookup m h)))) order)
      h k \<longleftrightarrow> bit (next_of m h) k"
  using assms
  by (auto simp: loc_contributed_def next_contributed_def loc_of_def next_of_def
      keys_dom_lookup dom_def split: option.splits)

lemma fold_update_table:
  "distinct order \<Longrightarrow>
   Mapping.lookup
     (fold (\<lambda>(tri, m). Mapping.update tri m) (map (\<lambda>h. (h, f h)) order) acc) k =
   (if k \<in> set order then Some (f k) else Mapping.lookup acc k)"
  by (induction order arbitrary: acc) (auto simp: lookup_update')

lemma fold_update_rebuilds:
  assumes "set order = Mapping.keys m" "distinct order"
  shows "fold (\<lambda>(tri, m). Mapping.update tri m)
      (map (\<lambda>h. (h, the (Mapping.lookup m h))) order) Mapping.empty = m"
  using assms
  by (intro mapping_eqI) (auto simp: fold_update_table keys_dom_lookup dom_def)

lemma window_contributions_short: "length data < 3 \<Longrightarrow> window_contributions data = []"
  by (simp add: window_contributions_def)

text \<open>Both passes of the reference formulation, as one list of contributions.\<close>

lemma merged_reference_contributions:
  "merged_masks_via_materialised_copy content =
     add_contributions (window_contributions content @
       window_contributions (map to_ascii_lowercase content)) Mapping.empty"
proof (cases "length content < 3")
  case True
  then show ?thesis
    by (simp add: merged_masks_via_materialised_copy_def extract_with_masks_def
        window_contributions_short)
next
  case False
  let ?lower = "map to_ascii_lowercase content"
  let ?m1 = "add_contributions (window_contributions content) Mapping.empty"
  let ?m2 = "add_contributions (window_contributions ?lower) Mapping.empty"
  from False obtain o1 where o1: "extract_with_masks content =
        map (\<lambda>h. (h, the (Mapping.lookup ?m1 h))) o1" "set o1 = Mapping.keys ?m1" "distinct o1"
    using extract_with_masks_table [of content] by auto
  from False obtain o2 where o2: "extract_with_masks ?lower =
        map (\<lambda>h. (h, the (Mapping.lookup ?m2 h))) o2" "set o2 = Mapping.keys ?m2" "distinct o2"
    using extract_with_masks_table [of ?lower] by auto
  let ?cs = "map (\<lambda>h. (h, loc_mask (the (Mapping.lookup ?m2 h)),
    next_mask (the (Mapping.lookup ?m2 h)))) o2"
  have "merged_masks_via_materialised_copy content = add_contributions ?cs ?m1"
    unfolding merged_masks_via_materialised_copy_def o1(1) o2(1)
    by (simp only: fold_or_masks_table fold_update_rebuilds [OF o1(2,3)])
  also have "\<dots> = add_contributions (window_contributions content @ ?cs) Mapping.empty"
    by simp
  also have "\<dots> =
      add_contributions (window_contributions content @ window_contributions ?lower) Mapping.empty"
  proof (rule add_contributions_eqI)
    have "fst ` set ?cs = set o2" by force
    then have "fst ` set ?cs = fst ` set (window_contributions ?lower)" using o2(2) by simp
    then show "fst ` set (window_contributions content @ ?cs) =
        fst ` set (window_contributions content @ window_contributions ?lower)" by (simp add: image_Un)
  qed (simp_all add: table_contributions [OF o2(2)])
  finally show ?thesis .
qed

section \<open>The single pass equals the two passes\<close>

definition merged_window_contributions :: "byte list \<Rightarrow> bool \<Rightarrow> nat \<Rightarrow> contribution list" where
  "merged_window_contributions content has_upper i =
     (let lower = map to_ascii_lowercase content;
          t = trigram_at content i; t' = trigram_at lower i;
          n = next_of_window content i; n' = next_of_window lower i
      in if \<not> has_upper then [(t, loc_bit i, n)]
         else if t' = t then [(t, loc_bit i, n OR n')]
         else [(t, loc_bit i, n), (t', loc_bit i, n')])"

lemma trigram_at_lower:
  "i + 2 < length content \<Longrightarrow>
     trigram_at (map to_ascii_lowercase content) i =
       hash (to_ascii_lowercase (content ! i)) (to_ascii_lowercase (content ! Suc i))
         (to_ascii_lowercase (content ! Suc (Suc i)))"
  by (simp add: trigram_at_def)

lemma next_of_window_lower:
  "next_of_window (map to_ascii_lowercase content) i =
     (if i + 3 < length content then next_bit (to_ascii_lowercase (content ! (i + 3))) else 0)"
  by (simp add: next_of_window_def)

lemma merge_window_contributions:
  assumes "i + 2 < length content"
  shows "merge_window content has_upper
      (i, content ! i, content ! Suc i, content ! Suc (Suc i)) m =
    add_contributions (merged_window_contributions content has_upper i) m"
  using assms
  by (simp add: merged_window_contributions_def next_of_window_lower trigram_at_lower [OF assms]
      Let_def) (simp add: trigram_at_def)

lemma merged_loop_contributions:
  assumes "merged_loop check content has_upper
      (map (\<lambda>i. (i, content ! i, content ! Suc i, content ! Suc (Suc i))) is) m s = Inr (m', s')"
    and "\<forall>i \<in> set is. i + 2 < length content"
  shows "m' = add_contributions (concat (map (merged_window_contributions content has_upper) is)) m"
  using assms
proof (induction "is" arbitrary: m s)
  case (Cons i "is")
  then show ?case
    by (auto simp: merge_window_contributions simp del: merge_window.simps)
qed simp

lemma merged_loop_uncontrolled:
  "\<exists>m'. merged_loop (\<lambda>_ _ s. Inr s) content has_upper ws m s = Inr (m', s)"
proof (induction ws arbitrary: m)
  case (Cons w ws)
  obtain i v where "w = (i, v)" by (cases w)
  with Cons show ?case by simp
qed simp

lemma scan_upper_result:
  "scan_upper check cs s = Inr (u, s') \<Longrightarrow> u = list_ex is_ascii_uppercase (concat cs)"
  by (induction check cs s rule: scan_upper.induct) (auto split: if_splits)

lemma scan_upper_uncontrolled:
  "scan_upper (\<lambda>_ _ s. Inr s) cs s = Inr (list_ex is_ascii_uppercase (concat cs), s)"
  by (induction cs) auto

lemma lower_of_no_upper:
  "\<not> list_ex is_ascii_uppercase content \<Longrightarrow> map to_ascii_lowercase content = content"
  by (auto simp: list_ex_iff to_ascii_lowercase_def map_idI)

lemma merged_window_bits:
  "loc_contributed (merged_window_contributions content True i) h k \<longleftrightarrow>
     bit (loc_bit i) k \<and> (trigram_at content i = h \<or>
       trigram_at (map to_ascii_lowercase content) i = h)"
  "next_contributed (merged_window_contributions content True i) h k \<longleftrightarrow>
     trigram_at content i = h \<and> bit (next_of_window content i) k \<or>
     trigram_at (map to_ascii_lowercase content) i = h \<and>
       bit (next_of_window (map to_ascii_lowercase content) i) k"
  by (auto simp: merged_window_contributions_def Let_def bit_or_iff)

lemma contributed_concat_map:
  "loc_contributed (concat (map f xs)) h k \<longleftrightarrow> (\<exists>x \<in> set xs. loc_contributed (f x) h k)"
  "next_contributed (concat (map f xs)) h k \<longleftrightarrow> (\<exists>x \<in> set xs. next_contributed (f x) h k)"
  by (induction xs) auto

lemma contributed_windows:
  "loc_contributed (window_contributions data) h k \<longleftrightarrow> (\<exists>i. occurs data h i \<and> bit (loc_bit i) k)"
  "next_contributed (window_contributions data) h k \<longleftrightarrow>
     (\<exists>i. occurs data h i \<and> bit (next_of_window data i) k)"
  by (auto simp: loc_contributed_def next_contributed_def window_contributions_def occurs_def
      less_diff_conv)

lemma keys_windows: "fst ` set (window_contributions data) = {h. \<exists>i. occurs data h i}"
  by (force simp: window_contributions_def occurs_def less_diff_conv image_iff)

lemma merged_contributions_upper:
  "add_contributions (concat (map (merged_window_contributions content True)
      [0..<length content - 2])) Mapping.empty =
   add_contributions (window_contributions content @
      window_contributions (map to_ascii_lowercase content)) Mapping.empty"
  (is "add_contributions ?cs _ = add_contributions ?ds _")
proof (rule add_contributions_eqI)
  have keys: "fst ` set (merged_window_contributions content True i) =
      {trigram_at content i, trigram_at (map to_ascii_lowercase content) i}" for i
    by (auto simp: merged_window_contributions_def Let_def)
  have "fst ` set ?cs = (\<Union>i < length content - 2.
      {trigram_at content i, trigram_at (map to_ascii_lowercase content) i})"
    by (simp add: image_UN keys atLeast0LessThan)
  also have "\<dots> = fst ` set ?ds"
    by (auto simp: image_Un keys_windows occurs_def less_diff_conv)
  finally show "fst ` set ?cs = fst ` set ?ds" .
qed (auto simp: contributed_concat_map merged_window_bits contributed_windows occurs_def
    less_diff_conv)

lemma merged_contributions_eq:
  "add_contributions
      (concat (map (merged_window_contributions content (list_ex is_ascii_uppercase content))
        [0..<length content - 2])) Mapping.empty =
    add_contributions (window_contributions content @
      window_contributions (map to_ascii_lowercase content)) Mapping.empty"
proof (cases "list_ex is_ascii_uppercase content")
  case True
  then show ?thesis by (simp only: merged_contributions_upper)
next
  case False
  then have "map to_ascii_lowercase content = content" by (rule lower_of_no_upper)
  moreover have "merged_window_contributions content False =
      (\<lambda>i. [(trigram_at content i, loc_bit i, next_of_window content i)])"
    by (rule ext) (simp add: merged_window_contributions_def Let_def)
  then have "concat (map (merged_window_contributions content False)
      [0..<length content - 2]) = window_contributions content"
    by (simp add: window_contributions_def concat_map_singleton)
  moreover have "add_contributions (cs @ cs) Mapping.empty = add_contributions cs Mapping.empty"
    for cs
    by (rule add_contributions_eqI) auto
  ultimately show ?thesis using False by (simp del: add_contributions_append)
qed

text \<open>Any call of the inner extraction that is not stopped by its check has this result.\<close>

lemma extract_merged_masks_inner_result:
  assumes "extract_merged_masks_inner check content s = Inr (m, s')"
  shows "m = merged_masks_via_materialised_copy content"
proof (cases "length content < 3")
  case True
  with assms show ?thesis
    by (auto simp: extract_merged_masks_inner_def merged_reference_contributions
        window_contributions_short)
next
  case False
  with assms obtain s1 u s2 where
      u: "scan_upper check (chunks (64 * 1024) content) s1 = Inr (u, s2)"
    and m: "merged_loop check content u (enumerate 0 (windows3 content)) Mapping.empty s2 = Inr (m, s')"
    by (auto simp: extract_merged_masks_inner_def)
  from u have "u = list_ex is_ascii_uppercase content"
    using scan_upper_result by fastforce
  moreover have "m = add_contributions
      (concat (map (merged_window_contributions content u) [0..<length content - 2])) Mapping.empty"
    by (rule merged_loop_contributions [OF m [unfolded enumerate_windows3]]) auto
  ultimately show ?thesis
    by (simp only: merged_contributions_eq merged_reference_contributions)
qed

lemma extract_merged_masks_reference:
  "extract_merged_masks content = merged_masks_via_materialised_copy content"
proof -
  let ?r = "extract_merged_masks_inner (\<lambda>_ _ s. Inr s :: unit + unit) content ()"
  have "\<exists>m. ?r = Inr (m, ())"
    using merged_loop_uncontrolled [where content = content and s = "()"]
    by (auto simp: extract_merged_masks_inner_def scan_upper_uncontrolled)
  then obtain m where m: "?r = Inr (m, ())" by blast
  then show ?thesis
    using extract_merged_masks_inner_result [OF m] by (simp add: extract_merged_masks_def)
qed

section \<open>What the masks of a file record\<close>

text \<open>
  The texts a file's table covers: the file itself and its ASCII-lowercased text, which
  has the same offsets.
\<close>

definition covered_text :: "byte list \<Rightarrow> byte list \<Rightarrow> bool" where
  "covered_text content data \<longleftrightarrow> data = content \<or> data = map to_ascii_lowercase content"

lemma extract_merged_masks_contributions:
  "extract_merged_masks content =
     add_contributions (window_contributions content @
       window_contributions (map to_ascii_lowercase content)) Mapping.empty"
  by (simp only: extract_merged_masks_reference merged_reference_contributions)

lemma keys_extract_merged_masks:
  "Mapping.keys (extract_merged_masks content) =
     {h. \<exists>data i. covered_text content data \<and> occurs data h i}"
  by (auto simp: extract_merged_masks_contributions keys_windows covered_text_def image_Un)

lemma bit_loc_extract_merged_masks:
  "bit (loc_of (extract_merged_masks content) h) k \<longleftrightarrow>
     (\<exists>data i. covered_text content data \<and> occurs data h i \<and> bit (loc_bit i) k)"
  by (auto simp: extract_merged_masks_contributions contributed_windows covered_text_def)

lemma bit_next_extract_merged_masks:
  "bit (next_of (extract_merged_masks content) h) k \<longleftrightarrow>
     (\<exists>data i. covered_text content data \<and> occurs data h i \<and> bit (next_of_window data i) k)"
  by (auto simp: extract_merged_masks_contributions contributed_windows covered_text_def)

lemma bit_loc_bit [simp]: "bit (loc_bit i) k \<longleftrightarrow> k = i mod 8"
  using mod_less_divisor [of 8 i] by (auto simp: loc_bit_def bit_exp_iff)

lemma next_bit_index: "unat (drop_bit 5 (b * 0x9E) AND 0x07 :: byte) < 8"
proof -
  have "unat (x AND 7) \<le> unat (7 :: byte)" for x :: byte
    using word_and_le1 [of x 7] by (simp only: word_le_nat_alt)
  from this [of "drop_bit 5 (b * 0x9E)"] show ?thesis by simp
qed

lemma next_bit_nonzero [simp]: "next_bit b \<noteq> 0"
proof
  assume "next_bit b = 0"
  then have "\<not> bit (next_bit b) (unat (drop_bit 5 (b * 0x9E) AND 0x07 :: byte))" by simp
  then show False using next_bit_index [of b] by (simp add: next_bit_def bit_exp_iff)
qed

text \<open>No false negatives: every occurrence is recorded, with its offset and its next byte.\<close>

lemma merged_masks_record:
  assumes "covered_text content data" "occurs data h i"
  shows "\<exists>e. Mapping.lookup (extract_merged_masks content) h = Some e \<and>
    bit (loc_mask e) (i mod 8) \<and>
    (i + 3 < length data \<longrightarrow> check_next_byte e (data ! (i + 3)))"
proof -
  let ?m = "extract_merged_masks content"
  have "h \<in> Mapping.keys ?m" using assms by (auto simp: keys_extract_merged_masks)
  then obtain e where e: "Mapping.lookup ?m h = Some e" by (auto simp: keys_dom_lookup)
  have "bit (loc_of ?m h) (i mod 8)"
    using assms by (auto simp: bit_loc_extract_merged_masks)
  moreover have "check_next_byte e (data ! (i + 3))" if less: "i + 3 < length data"
  proof -
    let ?b = "next_bit (data ! (i + 3))"
    obtain k where k: "bit ?b k"
      using next_bit_nonzero [of "data ! (i + 3)"] by (metis bit_eqI bit_0_eq bot_apply bot_bool_def)
    have "next_of_window data i = ?b" using less by (simp add: next_of_window_def)
    then have "bit (next_of ?m h) k"
      using assms k bit_next_extract_merged_masks [of content h k] by metis
    then have "bit (next_mask e AND ?b) k"
      using k e by (simp add: next_of_def bit_and_iff)
    then show ?thesis by (auto simp: check_next_byte_def)
  qed
  ultimately show ?thesis using e by (auto simp: loc_of_def)
qed

text \<open>Offsets that occur next to each other pass the rotate-and-mask adjacency test.\<close>

lemma bit_rotate_left1: "bit (rotate_left1 x) k \<longleftrightarrow> k < 8 \<and> bit x ((k + 7) mod 8)"
proof (cases "k < 8")
  case True
  have "bit (rotate_left1 x) k \<longleftrightarrow> (1 \<le> k \<and> bit x (k - 1)) \<or> bit x (k + 7)"
    unfolding rotate_left1_def bit_or_iff bit_push_bit_iff
    using True by (auto simp: bit_drop_bit_eq add.commute)
  also have "\<dots> \<longleftrightarrow> bit x ((k + 7) mod 8)"
  proof (cases "k = 0")
    case False
    then have "k + 7 = (k - 1) + 8" by simp
    then have "(k + 7) mod 8 = (k - 1) mod 8" by (simp only: mod_add_self2)
    also have "\<dots> = k - 1" using True by simp
    finally show ?thesis using False bit_imp_le_length [of x "k + 7"] by auto
  qed auto
  finally show ?thesis using True by simp
next
  case False
  then show ?thesis using bit_imp_le_length [of "rotate_left1 x" k] by auto
qed

lemma rotate_adjacent:
  assumes "bit l (i mod 8)" "bit l' (Suc i mod 8)"
  shows "rotate_left1 l AND l' \<noteq> 0"
proof
  assume zero: "rotate_left1 l AND l' = 0"
  have "(Suc i mod 8 + 7) mod 8 = i mod 8" by (simp add: mod_simps)
  then have "bit (rotate_left1 l) (Suc i mod 8)" using assms(1) by (simp add: bit_rotate_left1)
  then have "bit (rotate_left1 l AND l') (Suc i mod 8)" using assms(2) by (simp add: bit_and_iff)
  then show False by (simp add: zero)
qed

text \<open>The trigrams of a literal paired with their masks in a file, as the checks take them.\<close>

definition literal_masks :: "mask_map \<Rightarrow> byte list \<Rightarrow> (u32 \<times> trigram_masks) list" where
  "literal_masks m lit =
     map (\<lambda>i. (trigram_at lit i, the (Mapping.lookup m (trigram_at lit i)))) [0..<length lit - 2]"

lemma check_adjacency_nth:
  "(\<And>j. Suc j < length ps \<Longrightarrow>
      rotate_left1 (loc_mask (snd (ps ! j))) AND loc_mask (snd (ps ! Suc j)) \<noteq> 0) \<Longrightarrow>
   check_adjacency ps"
proof (induction ps rule: check_adjacency.induct)
  case (1 p q rest)
  from "1.prems" [of 0] have "rotate_left1 (loc_mask (snd p)) AND loc_mask (snd q) \<noteq> 0" by simp
  moreover have "check_adjacency (q # rest)"
    using calculation "1.prems" [of "Suc _"] by (intro "1.IH") auto
  ultimately show ?case by simp
qed auto

lemma occurs_literal:
  assumes "take (length lit) (drop p data) = lit" "i + 2 < length lit"
  shows "occurs data (trigram_at lit i) (p + i)"
    and "i + 3 < length lit \<Longrightarrow> p + i + 3 < length data \<and> data ! (p + i + 3) = lit ! (i + 3)"
proof -
  have len: "length lit \<le> length data - p"
    using arg_cong [OF assms(1), of length] by simp
  have nth: "data ! (p + j) = lit ! j" if "j < length lit" for j
  proof -
    have "lit ! j = take (length lit) (drop p data) ! j" by (simp add: assms(1))
    also have "\<dots> = data ! (p + j)" using that len by simp
    finally show ?thesis by simp
  qed
  show "occurs data (trigram_at lit i) (p + i)"
    using assms(2) len nth [of i] nth [of "i + 1"] nth [of "i + 2"]
    by (simp add: occurs_def trigram_at_def)
  show "p + i + 3 < length data \<and> data ! (p + i + 3) = lit ! (i + 3)" if "i + 3 < length lit"
    using that len nth [of "i + 3"] by (simp add: add.assoc)
qed

lemma literal_passes_adjacency:
  assumes "covered_text content data" "take (length lit) (drop p data) = lit"
  shows "check_adjacency (literal_masks (extract_merged_masks content) lit)"
proof (rule check_adjacency_nth)
  fix j
  assume "Suc j < length (literal_masks (extract_merged_masks content) lit)"
  then have j: "Suc j + 2 < length lit" by (simp add: literal_masks_def)
  have loc: "bit (loc_mask (the (Mapping.lookup (extract_merged_masks content) (trigram_at lit i))))
      ((p + i) mod 8)" if "i + 2 < length lit" for i
    using merged_masks_record [OF assms(1) occurs_literal(1) [OF assms(2) that]] by auto
  show "rotate_left1 (loc_mask (snd (literal_masks (extract_merged_masks content) lit ! j))) AND
      loc_mask (snd (literal_masks (extract_merged_masks content) lit ! Suc j)) \<noteq> 0"
    using j loc [of j] loc [of "Suc j"]
    by (simp add: literal_masks_def rotate_adjacent)
qed
section \<open>Properties\<close>

text \<open>C32. The single pass over both cases, with any check of the caller that lets it run to
  its end, computes the table the code's tests define it by: the table of the file merged
  with the table of its lowercased copy.  The uncontrolled entry point computes the same.\<close>

theorem single_pass_is_two_passes:
  assumes "extract_merged_masks_inner check content s = Inr (m, s')"
  shows "m = merged_masks_via_materialised_copy content \<and> extract_merged_masks content = m"
  using extract_merged_masks_inner_result [OF assms]
  by (simp add: extract_merged_masks_reference)

theorem single_pass_is_two_passes_witness:
  "\<exists>m s'. extract_merged_masks_inner
      (\<lambda>_ _ (s :: nat). if s = 0 then Inl () else Inr (s - 1)) [0x61, 0x42, 0x63, 0x64] 3 = Inr (m, s')
    \<and> m = merged_masks_via_materialised_copy [0x61, 0x42, 0x63, 0x64]"
proof -
  let ?run = "extract_merged_masks_inner
      (\<lambda>_ _ (s :: nat). if s = 0 then Inl () else Inr (s - 1)) [0x61, 0x42, 0x63, 0x64] 3"
  have "\<exists>m s'. ?run = Inr (m, s')"
    by (simp add: extract_merged_masks_inner_def chunks.simps is_ascii_uppercase_def)
  then obtain m s' where run: "?run = Inr (m, s')" by blast
  with single_pass_is_two_passes [OF run] show ?thesis by blast
qed

text \<open>The table of a file holds exactly the trigrams of the file and of its lowercased
  text, and its masks hold exactly the positions modulo 8 and the bits of the bytes that
  follow their occurrences.\<close>

theorem merged_masks_exact:
  "(Mapping.lookup (extract_merged_masks content) h \<noteq> None \<longleftrightarrow>
      (\<exists>data i. covered_text content data \<and> occurs data h i)) \<and>
   (bit (loc_of (extract_merged_masks content) h) k \<longleftrightarrow>
      (\<exists>data i. covered_text content data \<and> occurs data h i \<and> k = i mod 8)) \<and>
   (bit (next_of (extract_merged_masks content) h) k \<longleftrightarrow>
      (\<exists>data i. covered_text content data \<and> occurs data h i \<and> i + 3 < length data \<and>
         bit (next_bit (data ! (i + 3))) k))"
proof (intro conjI)
  have "Mapping.lookup (extract_merged_masks content) h \<noteq> None \<longleftrightarrow>
      h \<in> Mapping.keys (extract_merged_masks content)" by (auto simp: keys_dom_lookup)
  then show "Mapping.lookup (extract_merged_masks content) h \<noteq> None \<longleftrightarrow>
      (\<exists>data i. covered_text content data \<and> occurs data h i)"
    by (simp add: keys_extract_merged_masks)
qed (auto simp: bit_loc_extract_merged_masks bit_next_extract_merged_masks next_of_window_def)

text \<open>A literal that occurs in a file, or in its lowercased text, passes the adjacency
  check on the masks of the file, so the check never rejects a real occurrence.\<close>

theorem adjacency_never_rejects:
  assumes "covered_text content data" "take (length lit) (drop p data) = lit"
  shows "check_adjacency (literal_masks (extract_merged_masks content) lit)"
  by (rule literal_passes_adjacency [OF assms])

theorem adjacency_never_rejects_witness:
  "check_adjacency (literal_masks (extract_merged_masks [0x41, 0x42, 0x43, 0x44, 0x45])
     [0x62, 0x63, 0x64, 0x65])"
  by (rule adjacency_never_rejects [where data = "[0x61, 0x62, 0x63, 0x64, 0x65]" and p = 1])
    (simp_all add: covered_text_def to_ascii_lowercase_def is_ascii_uppercase_def)

text \<open>Packing three bytes into a key is injective and stays below 2^24, and the hasher of
  the tables maps distinct keys to distinct 64-bit hashes, so no two trigrams collide.\<close>

theorem trigram_keys_collision_free:
  "(hash a b c = hash a' b' c' \<longleftrightarrow> a = a' \<and> b = b' \<and> c = c') \<and>
   hash a b c < 0x1000000 \<and>
   (hasher_write_u32 s (hash a b c) = hasher_write_u32 s (hash a' b' c') \<longleftrightarrow>
      a = a' \<and> b = b' \<and> c = c')"
  by (simp add: hash_less hasher_write_u32_inject)

text \<open>The trigrams of a slice, each once.\<close>

theorem extract_is_the_set_of_windows:
  "set (trigram_extract data) =
     {hash (data ! i) (data ! (i + 1)) (data ! (i + 2)) | i. i + 2 < length data} \<and>
   distinct (trigram_extract data)"
  by (auto simp: set_trigram_extract occurs_def trigram_at_def)

end
