(* ===== verification/Utf8.thy ===== *)
theory Utf8
  imports Prelude
begin

text \<open>
  The part of the standard library's UTF-8 handling the program relies on:
  \<^verbatim>\<open>char::encode_utf8\<close>, and \<^verbatim>\<open>str::from_utf8\<close> with the
  \<^verbatim>\<open>valid_up_to\<close> and \<^verbatim>\<open>error_len\<close> of its error.
\<close>

definition encode_utf8 :: "u32 \<Rightarrow> byte list" where
  "encode_utf8 c =
     (if c < 0x80 then [ucast c]
      else if c < 0x800
        then [0xC0 OR ucast (drop_bit 6 c), 0x80 OR ucast (c AND 0x3F)]
      else if c < 0x10000
        then [0xE0 OR ucast (drop_bit 12 c), 0x80 OR ucast (drop_bit 6 c AND 0x3F),
              0x80 OR ucast (c AND 0x3F)]
      else [0xF0 OR ucast (drop_bit 18 c), 0x80 OR ucast (drop_bit 12 c AND 0x3F),
            0x80 OR ucast (drop_bit 6 c AND 0x3F), 0x80 OR ucast (c AND 0x3F)])"

lemma encode_utf8_ascii: "c \<le> 0x7F \<Longrightarrow> encode_utf8 c = [ucast c]"
proof -
  assume "c \<le> 0x7F"
  then have "c < 0x80" by unat_arith
  then show ?thesis by (simp add: encode_utf8_def)
qed

section \<open>Validation\<close>

definition is_cont :: "byte \<Rightarrow> bool" where
  "is_cont b = (0x80 \<le> b \<and> b \<le> 0xBF)"

text \<open>Which second bytes may follow a three-byte and a four-byte lead.\<close>

definition second_of_three :: "byte \<Rightarrow> byte \<Rightarrow> bool" where
  "second_of_three b0 b1 =
     (if b0 = 0xE0 then 0xA0 \<le> b1 \<and> b1 \<le> 0xBF
      else if b0 = 0xED then 0x80 \<le> b1 \<and> b1 \<le> 0x9F
      else is_cont b1)"

definition second_of_four :: "byte \<Rightarrow> byte \<Rightarrow> bool" where
  "second_of_four b0 b1 =
     (if b0 = 0xF0 then 0x90 \<le> b1 \<and> b1 \<le> 0xBF
      else if b0 = 0xF4 then 0x80 \<le> b1 \<and> b1 \<le> 0x8F
      else is_cont b1)"

text \<open>
  The next character of a non-empty slice: \<open>Inr n\<close> is a character of \<open>n\<close> bytes,
  \<open>Inl (Some n)\<close> an invalid sequence of \<open>n\<close> bytes, \<open>Inl None\<close> a slice that ends
  within a character.
\<close>

definition utf8_next :: "byte list \<Rightarrow> nat option + nat" where
  "utf8_next bs =
     (case bs of
        [] \<Rightarrow> Inl None
      | b0 # r0 \<Rightarrow>
          if b0 < 0x80 then Inr 1
          else if 0xC2 \<le> b0 \<and> b0 \<le> 0xDF then
            (case r0 of [] \<Rightarrow> Inl None | b1 # _ \<Rightarrow> if is_cont b1 then Inr 2 else Inl (Some 1))
          else if 0xE0 \<le> b0 \<and> b0 \<le> 0xEF then
            (case r0 of
               [] \<Rightarrow> Inl None
             | b1 # r1 \<Rightarrow>
                 if second_of_three b0 b1
                 then (case r1 of [] \<Rightarrow> Inl None
                       | b2 # _ \<Rightarrow> if is_cont b2 then Inr 3 else Inl (Some 2))
                 else Inl (Some 1))
          else if 0xF0 \<le> b0 \<and> b0 \<le> 0xF4 then
            (case r0 of
               [] \<Rightarrow> Inl None
             | b1 # r1 \<Rightarrow>
                 if second_of_four b0 b1
                 then (case r1 of [] \<Rightarrow> Inl None
                       | b2 # r2 \<Rightarrow>
                           if is_cont b2
                           then (case r2 of [] \<Rightarrow> Inl None
                                 | b3 # _ \<Rightarrow> if is_cont b3 then Inr 4 else Inl (Some 3))
                           else Inl (Some 2))
                 else Inl (Some 1))
          else Inl (Some 1))"

lemma utf8_next_Inr_bounds:
  "utf8_next bs = Inr n \<Longrightarrow> 1 \<le> n \<and> n \<le> 4 \<and> n \<le> length bs"
  by (auto simp: utf8_next_def split: list.splits if_splits)

lemma utf8_next_Inl_bounds:
  "utf8_next bs = Inl (Some n) \<Longrightarrow> 1 \<le> n \<and> n \<le> 3 \<and> n \<le> length bs"
  by (auto simp: utf8_next_def split: list.splits if_splits)

lemma utf8_next_incomplete:
  "utf8_next bs = Inl None \<Longrightarrow> length bs \<le> 3"
  by (auto simp: utf8_next_def split: list.splits if_splits)

text \<open>
  The error of \<^verbatim>\<open>str::from_utf8\<close>, \<open>None\<close> for a valid slice: how many bytes are
  valid and the length of the invalid sequence after them.
\<close>

function from_utf8_error :: "byte list \<Rightarrow> (nat \<times> nat option) option" where
  "from_utf8_error bs =
     (if bs = [] then None
      else case utf8_next bs of
        Inl e \<Rightarrow> Some (0, e)
      | Inr n \<Rightarrow> map_option (\<lambda>(v, e). (n + v, e)) (from_utf8_error (drop n bs)))"
  by pat_completeness auto
termination
  by (relation "measure length") (auto dest!: utf8_next_Inr_bounds)

declare from_utf8_error.simps [simp del]

definition valid_utf8 :: "byte list \<Rightarrow> bool" where
  "valid_utf8 bs = (from_utf8_error bs = None)"

lemma valid_utf8_Nil [simp]: "valid_utf8 []"
  by (simp add: valid_utf8_def from_utf8_error.simps)

lemma from_utf8_error_ascii [simp]:
  "b < 0x80 \<Longrightarrow>
     from_utf8_error (b # bs) = map_option (\<lambda>(v, e). (1 + v, e)) (from_utf8_error bs)"
  by (simp add: from_utf8_error.simps [of "b # bs"] utf8_next_def)

lemma valid_utf8_ascii [simp]: "b < 0x80 \<Longrightarrow> valid_utf8 (b # bs) \<longleftrightarrow> valid_utf8 bs"
  by (simp add: valid_utf8_def)

lemma from_utf8_error_bounds:
  "from_utf8_error bs = Some (v, e) \<Longrightarrow> v < length bs \<and>
     utf8_next (drop v bs) = Inl e"
proof (induction bs arbitrary: v e rule: from_utf8_error.induct)
  case (1 bs)
  show ?case
  proof (cases "utf8_next bs")
    case (Inl e')
    with "1.prems" show ?thesis by (auto simp: from_utf8_error.simps [of bs] split: if_splits)
  next
    case (Inr n)
    with "1.prems" obtain v' where v: "from_utf8_error (drop n bs) = Some (v', e)" "v = n + v'"
      and "bs \<noteq> []"
      by (auto simp: from_utf8_error.simps [of bs] split: if_splits)
    have "v' < length (drop n bs) \<and> utf8_next (drop v' (drop n bs)) = Inl e"
      by (rule "1.IH" [OF \<open>bs \<noteq> []\<close> Inr v(1)])
    then show ?thesis by (simp add: v(2) add.commute less_diff_conv)
  qed
qed

text \<open>The valid prefix before an error is itself valid.\<close>

lemma upto_four_cases:
  obtains "bs = []" | b0 where "bs = [b0]" | b0 b1 where "bs = [b0, b1]"
    | b0 b1 b2 where "bs = [b0, b1, b2]" | b0 b1 b2 b3 r where "bs = b0 # b1 # b2 # b3 # r"
proof (cases bs)
  case b0: (Cons b0 r0)
  show ?thesis
  proof (cases r0)
    case b1: (Cons b1 r1)
    show ?thesis
    proof (cases r1)
      case b2: (Cons b2 r2)
      show ?thesis by (cases r2) (use b0 b1 b2 that in auto)
    qed (use b0 b1 that in auto)
  qed (use b0 that in auto)
qed (use that in auto)

lemma utf8_next_append: "utf8_next bs = Inr n \<Longrightarrow> utf8_next (take n bs @ r) = Inr n"
  by (cases bs rule: upto_four_cases) (auto simp: utf8_next_def split: if_splits)

lemma utf8_next_take:
  assumes "utf8_next bs = Inr n" "n \<le> m"
  shows "utf8_next (take m bs) = Inr n"
proof -
  have "take m bs = take n bs @ take (m - n) (drop n bs)"
    using \<open>n \<le> m\<close> by (metis le_add_diff_inverse take_add)
  then show ?thesis using utf8_next_append [OF assms(1)] by simp
qed

lemma valid_utf8_take_error:
  "from_utf8_error bs = Some (v, e) \<Longrightarrow> valid_utf8 (take v bs)"
proof (induction bs arbitrary: v e rule: from_utf8_error.induct)
  case (1 bs)
  show ?case
  proof (cases "utf8_next bs")
    case (Inl e')
    with "1.prems" show ?thesis by (auto simp: from_utf8_error.simps [of bs] split: if_splits)
  next
    case (Inr n)
    with "1.prems" obtain v' where v: "from_utf8_error (drop n bs) = Some (v', e)" "v = n + v'"
      and ne: "bs \<noteq> []"
      by (auto simp: from_utf8_error.simps [of bs] split: if_splits)
    have "valid_utf8 (take v' (drop n bs))" by (rule "1.IH" [OF ne Inr v(1)])
    moreover have "utf8_next (take v bs) = Inr n" using Inr v(2) by (simp add: utf8_next_take)
    moreover have "drop n (take v bs) = take v' (drop n bs)" using v(2) by (simp add: drop_take)
    ultimately show ?thesis
      by (simp add: valid_utf8_def from_utf8_error.simps [of "take v bs"])
  qed
qed

lemma ascii_valid: "\<forall>b\<in>set bs. b < 0x80 \<Longrightarrow> valid_utf8 bs"
  by (induction bs) simp_all

end
