(* ===== verification/Query_Plan.thy ===== *)
theory Query_Plan
  imports Trigram Utf8
begin

text \<open>
  Query planning (\<^verbatim>\<open>tgrep-core/src/query.rs\<close>): the decomposition of a parsed regex
  into a tree of trigram queries, its simplification, and the plans of literals and of
  several patterns.  The regex parser (\<^verbatim>\<open>regex-syntax\<close>) is a parameter; of its
  syntax tree the model has the constructors and fields this code reads.
\<close>

section \<open>The syntax tree the planner reads\<close>

type_synonym rchar = u32

datatype hir_class =
    ClassUnicode "(rchar \<times> rchar) list"
  | ClassBytes "(byte \<times> byte) list"

text \<open>The assertions of \<^verbatim>\<open>regex-syntax\<close>.\<close>

datatype look =
    LookStart | LookEnd | LookStartLF | LookEndLF | LookStartCRLF | LookEndCRLF
  | LookWordAscii | LookWordAsciiNegate | LookWordUnicode | LookWordUnicodeNegate
  | LookWordStartAscii | LookWordEndAscii | LookWordStartUnicode | LookWordEndUnicode
  | LookWordStartHalfAscii | LookWordEndHalfAscii | LookWordStartHalfUnicode | LookWordEndHalfUnicode

datatype hir =
    HirEmpty
  | HirLiteral "byte list"
  | HirClass hir_class
  | HirLook look
  | HirRepetition nat hir
  | HirCapture hir
  | HirConcat "hir list"
  | HirAlternation "hir list"

section \<open>Plans\<close>

record trigram_query =
  q_hash :: u32
  expected_next :: "byte option"

datatype query_plan =
    And "trigram_query list"
  | Or "query_plan list"
  | MatchAll

definition is_match_all :: "query_plan \<Rightarrow> bool" where
  "is_match_all p = (case p of MatchAll \<Rightarrow> True | _ \<Rightarrow> False)"

definition literals_to_query_plan :: "byte list \<Rightarrow> query_plan" where
  "literals_to_query_plan bytes =
     (if length bytes < 3 then MatchAll
      else And (map (\<lambda>i.
        \<lparr>q_hash = hash (bytes ! i) (bytes ! (i + 1)) (bytes ! (i + 2)),
         expected_next = (if i + 3 < length bytes then Some (bytes ! (i + 3)) else None)\<rparr>)
        [0..<length bytes - 2]))"

section \<open>Decomposition\<close>

text \<open>
  The closure \<^verbatim>\<open>add_range\<close> over the ranges of a class: \<open>None\<close> is its early
  return, otherwise the folded byte so far.
\<close>

fun add_ranges :: "(u32 \<times> u32) list \<Rightarrow> byte option \<Rightarrow> byte option option" where
  "add_ranges [] folded = Some folded"
| "add_ranges ((start, end) # ranges) folded =
     (if start \<noteq> end \<or> 0x7f < start then None
      else let b = to_ascii_lowercase (ucast start)
           in if folded \<noteq> None \<and> folded \<noteq> Some b then None
              else add_ranges ranges (Some b))"

definition ascii_class_literal :: "hir_class \<Rightarrow> byte option" where
  "ascii_class_literal class =
     (case add_ranges
        (case class of ClassUnicode ranges \<Rightarrow> ranges
         | ClassBytes ranges \<Rightarrow> map (\<lambda>(s, e). (ucast s, ucast e)) ranges) None of
        None \<Rightarrow> None
      | Some folded \<Rightarrow> folded)"

text \<open>The closure \<^verbatim>\<open>flush\<close>: the queries with those of the finished run.\<close>

definition flush_run :: "byte list \<Rightarrow> bool \<Rightarrow> trigram_query list \<Rightarrow> trigram_query list" where
  "flush_run literal fold_run queries =
     (case literals_to_query_plan
        (if fold_run then map to_ascii_lowercase literal else literal) of
        And run \<Rightarrow> queries @ run
      | _ \<Rightarrow> queries)"

fun decompose_hir :: "hir \<Rightarrow> query_plan"
  and concat_loop :: "hir list \<Rightarrow> trigram_query list \<Rightarrow> byte list \<Rightarrow> bool \<Rightarrow> query_plan"
where
  "decompose_hir (HirLiteral bytes) = literals_to_query_plan bytes"
| "decompose_hir (HirConcat subs) = concat_loop subs [] [] False"
| "decompose_hir (HirAlternation alts) =
     (let plans = map decompose_hir alts
      in if list_ex is_match_all plans then MatchAll else Or plans)"
| "decompose_hir (HirRepetition rep_min sub) =
     (if 1 \<le> rep_min then decompose_hir sub else MatchAll)"
| "decompose_hir (HirCapture sub) = decompose_hir sub"
| "decompose_hir (HirClass class) = MatchAll"
| "decompose_hir (HirLook look) = MatchAll"
| "decompose_hir HirEmpty = MatchAll"
| "concat_loop [] all_queries literal fold_run =
     (let all_queries = flush_run literal fold_run all_queries
      in if all_queries = [] then MatchAll else And all_queries)"
| "concat_loop (sub # subs) all_queries literal fold_run =
     (case (case sub of
              HirLiteral bytes \<Rightarrow> Some (literal @ bytes, fold_run)
            | HirClass class \<Rightarrow>
                (case ascii_class_literal class of
                   Some b \<Rightarrow> Some (literal @ [b], True)
                 | None \<Rightarrow> None)
            | _ \<Rightarrow> None) of
        Some (literal, fold_run) \<Rightarrow> concat_loop subs all_queries literal fold_run
      | None \<Rightarrow>
          let all_queries = flush_run literal fold_run all_queries
          in concat_loop subs
               (case decompose_hir sub of And queries \<Rightarrow> all_queries @ queries
                | _ \<Rightarrow> all_queries) [] False)"

section \<open>Simplification\<close>

text \<open>
  \<^verbatim>\<open>Vec::dedup_by\<close>: the closure gets the current element first and the last
  retained one second, may change both, and the current one is dropped if it says so.
\<close>

fun dedup_by :: "('a \<Rightarrow> 'a \<Rightarrow> bool \<times> 'a \<times> 'a) \<Rightarrow> 'a list \<Rightarrow> 'a list" where
  "dedup_by same [] = []"
| "dedup_by same [x] = [x]"
| "dedup_by same (prev # cur # rest) =
     (case same cur prev of
        (dropped, cur, prev) \<Rightarrow>
          if dropped then dedup_by same (prev # rest) else prev # dedup_by same (cur # rest))"

text \<open>The closure \<^verbatim>\<open>|retained, duplicate|\<close> of \<open>simplify\<close>, in its parameters' order.\<close>

definition same_trigram ::
  "trigram_query \<Rightarrow> trigram_query \<Rightarrow> bool \<times> trigram_query \<times> trigram_query"
where
  "same_trigram retained duplicate =
     (if q_hash retained = q_hash duplicate
      then (True,
            if expected_next retained \<noteq> expected_next duplicate
            then retained\<lparr>expected_next := None\<rparr> else retained,
            duplicate)
      else (False, retained, duplicate))"

fun simplify :: "query_plan \<Rightarrow> query_plan" where
  "simplify (And queries) =
     (let queries = dedup_by same_trigram (sort_key q_hash queries)
      in if queries = [] then MatchAll else And queries)"
| "simplify (Or plans) =
     (let simplified = map simplify plans
      in case simplified of [p] \<Rightarrow> p | _ \<Rightarrow> Or simplified)"
| "simplify MatchAll = MatchAll"

section \<open>Plans of patterns\<close>

text \<open>
  The parser takes the pattern and the case flag and returns a message or a tree;
  \<open>escape\<close> is \<^verbatim>\<open>regex_syntax::escape\<close>, \<open>as_bytes\<close> the UTF-8 bytes of a
  string.
\<close>

definition build_query_plan ::
  "('p \<Rightarrow> bool \<Rightarrow> string + hir) \<Rightarrow> 'p \<Rightarrow> bool \<Rightarrow> string + query_plan"
where
  "build_query_plan parse pattern case_insensitive =
     rbind (parse pattern case_insensitive) (\<lambda>hir. Inr (simplify (decompose_hir hir)))"

definition build_literal_plan ::
  "('p \<Rightarrow> bool \<Rightarrow> string + hir) \<Rightarrow> ('p \<Rightarrow> 'p) \<Rightarrow> ('p \<Rightarrow> byte list) \<Rightarrow> 'p \<Rightarrow> bool \<Rightarrow> query_plan"
where
  "build_literal_plan parse escape as_bytes literal case_insensitive =
     (if case_insensitive
      then (case build_query_plan parse (escape literal) True of
              Inr plan \<Rightarrow> plan | Inl _ \<Rightarrow> MatchAll)
      else literals_to_query_plan (as_bytes literal))"

definition combine_plans :: "query_plan list \<Rightarrow> query_plan" where
  "combine_plans plans =
     (case plans of [] \<Rightarrow> MatchAll | [p] \<Rightarrow> p | _ \<Rightarrow> Or plans)"

fun multi_plan_loop ::
  "('p \<Rightarrow> string + query_plan) \<Rightarrow> 'p list \<Rightarrow> query_plan list \<Rightarrow> string + query_plan"
where
  "multi_plan_loop build [] plans = Inr (combine_plans plans)"
| "multi_plan_loop build (pattern # patterns) plans =
     rbind (build pattern) (\<lambda>plan.
       if is_match_all plan then Inr MatchAll
       else multi_plan_loop build patterns (plans @ [plan]))"

definition build_multi_pattern_plan ::
  "('p \<Rightarrow> bool \<Rightarrow> string + hir) \<Rightarrow> ('p \<Rightarrow> 'p) \<Rightarrow> ('p \<Rightarrow> byte list) \<Rightarrow>
   'p list \<Rightarrow> bool \<Rightarrow> bool \<Rightarrow> string + query_plan"
where
  "build_multi_pattern_plan parse escape as_bytes patterns fixed_string case_insensitive =
     multi_plan_loop
       (\<lambda>pattern.
          if fixed_string
          then Inr (build_literal_plan parse escape as_bytes pattern case_insensitive)
          else build_query_plan parse pattern case_insensitive)
       patterns []"

section \<open>Soundness of planning\<close>

subsection \<open>What a match means\<close>

text \<open>
  What the planner relies on of the regex engine: \<open>accepts h s\<close> says that the parsed
  expression \<open>h\<close> can match exactly the text \<open>s\<close>.  Only the necessary conditions of a
  match are assumed; anchors and word boundaries may restrict it further.
\<close>

definition hir_semantics :: "(hir \<Rightarrow> byte list \<Rightarrow> bool) \<Rightarrow> bool" where
  "hir_semantics accepts \<longleftrightarrow>
     (\<forall>bs s. accepts (HirLiteral bs) s \<longrightarrow> s = bs) \<and>
     (\<forall>rs s. accepts (HirClass (ClassUnicode rs)) s \<longrightarrow>
        (\<exists>r c. r \<in> set rs \<and> fst r \<le> c \<and> c \<le> snd r \<and> s = encode_utf8 c)) \<and>
     (\<forall>rs s. accepts (HirClass (ClassBytes rs)) s \<longrightarrow>
        (\<exists>r c. r \<in> set rs \<and> fst r \<le> c \<and> c \<le> snd r \<and> s = [c])) \<and>
     (\<forall>n h s. accepts (HirRepetition n h) s \<longrightarrow>
        (\<exists>ps. n \<le> length ps \<and> s = concat ps \<and> (\<forall>p \<in> set ps. accepts h p))) \<and>
     (\<forall>h s. accepts (HirCapture h) s \<longrightarrow> accepts h s) \<and>
     (\<forall>hs s. accepts (HirConcat hs) s \<longrightarrow>
        (\<exists>ps. s = concat ps \<and> list_all2 accepts hs ps)) \<and>
     (\<forall>hs s. accepts (HirAlternation hs) s \<longrightarrow> (\<exists>h \<in> set hs. accepts h s))"

lemma hir_semanticsD:
  assumes "hir_semantics accepts"
  shows "accepts (HirLiteral bs) s \<Longrightarrow> s = bs"
    and "accepts (HirClass (ClassUnicode rs)) s \<Longrightarrow>
      \<exists>r c. r \<in> set rs \<and> fst r \<le> c \<and> c \<le> snd r \<and> s = encode_utf8 c"
    and "accepts (HirClass (ClassBytes brs)) s \<Longrightarrow>
      \<exists>r c. r \<in> set brs \<and> fst r \<le> c \<and> c \<le> snd r \<and> s = [c]"
    and "accepts (HirRepetition n h) s \<Longrightarrow>
      \<exists>ps. n \<le> length ps \<and> s = concat ps \<and> (\<forall>p \<in> set ps. accepts h p)"
    and "accepts (HirCapture h) s \<Longrightarrow> accepts h s"
    and "accepts (HirConcat hs) s \<Longrightarrow> \<exists>ps. s = concat ps \<and> list_all2 accepts hs ps"
    and "accepts (HirAlternation hs) s \<Longrightarrow> \<exists>h \<in> set hs. accepts h s"
  using assms unfolding hir_semantics_def by (elim conjE, blast)+

text \<open>
  A relation with this behaviour, as the documentation of the syntax tree gives it for
  expressions without context-dependent assertions.
\<close>

inductive hir_accepts :: "hir \<Rightarrow> byte list \<Rightarrow> bool" where
  acc_empty: "hir_accepts HirEmpty []"
| acc_look: "hir_accepts (HirLook look) []"
| acc_literal: "hir_accepts (HirLiteral bs) bs"
| acc_unicode: "r \<in> set rs \<Longrightarrow> fst r \<le> c \<Longrightarrow> c \<le> snd r \<Longrightarrow>
    hir_accepts (HirClass (ClassUnicode rs)) (encode_utf8 c)"
| acc_bytes: "r \<in> set rs \<Longrightarrow> fst r \<le> c \<Longrightarrow> c \<le> snd r \<Longrightarrow>
    hir_accepts (HirClass (ClassBytes rs)) [c]"
| acc_repetition: "n \<le> length ps \<Longrightarrow> \<forall>p \<in> set ps. hir_accepts h p \<Longrightarrow>
    hir_accepts (HirRepetition n h) (concat ps)"
| acc_capture: "hir_accepts h s \<Longrightarrow> hir_accepts (HirCapture h) s"
| acc_concat: "list_all2 hir_accepts hs ps \<Longrightarrow> hir_accepts (HirConcat hs) (concat ps)"
| acc_alternation: "h \<in> set hs \<Longrightarrow> hir_accepts h s \<Longrightarrow> hir_accepts (HirAlternation hs) s"

inductive_simps hir_accepts_simps:
  "hir_accepts (HirLiteral bs) s"
  "hir_accepts (HirClass (ClassUnicode rs)) s"
  "hir_accepts (HirClass (ClassBytes rs)) s"
  "hir_accepts (HirRepetition n h) s"
  "hir_accepts (HirCapture h) s"
  "hir_accepts (HirConcat hs) s"
  "hir_accepts (HirAlternation hs) s"

lemma hir_semantics_hir_accepts: "hir_semantics hir_accepts"
  by (auto simp: hir_semantics_def hir_accepts_simps)

subsection \<open>What a plan demands of a file\<close>

definition query_satisfied :: "mask_map \<Rightarrow> trigram_query \<Rightarrow> bool" where
  "query_satisfied m q \<longleftrightarrow>
     (\<exists>e. Mapping.lookup m (q_hash q) = Some e \<and>
        (\<forall>b. expected_next q = Some b \<longrightarrow> check_next_byte e b))"

fun plan_satisfied :: "mask_map \<Rightarrow> query_plan \<Rightarrow> bool" where
  "plan_satisfied m (And queries) \<longleftrightarrow> (\<forall>q \<in> set queries. query_satisfied m q)"
| "plan_satisfied m (Or plans) \<longleftrightarrow> (\<exists>p \<in> set plans. plan_satisfied m p)"
| "plan_satisfied m MatchAll \<longleftrightarrow> True"

lemma literal_satisfied:
  assumes "covered_text content data" "data = pre @ lit @ post"
  shows "plan_satisfied (extract_merged_masks content) (literals_to_query_plan lit)"
proof (cases "length lit < 3")
  case True
  then show ?thesis by (simp add: literals_to_query_plan_def)
next
  case False
  have lit: "take (length lit) (drop (length pre) data) = lit" using assms(2) by simp
  have "query_satisfied (extract_merged_masks content)
      \<lparr>q_hash = hash (lit ! i) (lit ! (i + 1)) (lit ! (i + 2)),
       expected_next = (if i + 3 < length lit then Some (lit ! (i + 3)) else None)\<rparr>"
    if i: "i + 2 < length lit" for i
    using merged_masks_record [OF assms(1) occurs_literal(1) [OF lit i]]
      occurs_literal(2) [OF lit i]
    by (auto simp: query_satisfied_def trigram_at_def)
  with False show ?thesis by (auto simp: literals_to_query_plan_def less_diff_conv)
qed

lemma literals_to_query_plan_cases:
  "literals_to_query_plan bs = MatchAll \<or> (\<exists>q qs. literals_to_query_plan bs = And (q # qs))"
proof (cases "length bs < 3")
  case False
  then have "[0..<length bs - 2] = 0 # [1..<length bs - 2]" by (simp add: upt_conv_Cons)
  with False show ?thesis by (simp add: literals_to_query_plan_def)
qed (simp add: literals_to_query_plan_def)

subsection \<open>Classes that stand for one folded byte\<close>

lemma add_ranges_single:
  assumes "add_ranges rs folded = Some f" "r \<in> set rs"
  shows "fst r = snd r \<and> fst r \<le> 0x7F \<and> f = Some (to_ascii_lowercase (ucast (fst r)))"
proof -
  have keep: "add_ranges rs (Some b) = Some f \<Longrightarrow> f = Some b" for rs b
    by (induction rs "Some b" rule: add_ranges.induct) (auto simp: Let_def split: if_splits)
  show ?thesis
    using assms
  proof (induction rs folded rule: add_ranges.induct)
    case (2 start "end" ranges folded)
    then show ?case
      by (auto simp: Let_def not_less dest: keep split: if_splits)
  qed simp
qed

lemma ascii_class_literal_accepts:
  assumes sem: "hir_semantics accepts" and acc: "accepts (HirClass class) s"
    and lit: "ascii_class_literal class = Some b"
  shows "\<exists>x. s = [x] \<and> to_ascii_lowercase x = b"
proof (cases "class")
  case (ClassUnicode rs)
  then obtain r c where r: "r \<in> set rs" "fst r \<le> c" "c \<le> snd r" "s = encode_utf8 c"
    using hir_semanticsD(2) [OF sem] acc by blast
  have "add_ranges rs None = Some (Some b)"
    using lit ClassUnicode by (auto simp: ascii_class_literal_def split: option.splits)
  from add_ranges_single [OF this r(1)] r
  have "c \<le> 0x7F" "b = to_ascii_lowercase (ucast c)" by auto
  with r(4) show ?thesis by (simp add: encode_utf8_ascii)
next
  case (ClassBytes rs)
  then obtain r c where r: "r \<in> set rs" "fst r \<le> c" "c \<le> snd r" "s = [c]"
    using hir_semanticsD(3) [OF sem] acc by blast
  let ?u = "\<lambda>(s, e). (ucast s :: u32, ucast e :: u32)"
  have "add_ranges (map ?u rs) None = Some (Some b)"
    using lit ClassBytes by (auto simp: ascii_class_literal_def split: option.splits)
  from add_ranges_single [OF this, of "?u r"] r(1)
  have "(ucast (fst r) :: u32) = ucast (snd r)"
    and b: "b = to_ascii_lowercase (ucast (ucast (fst r) :: u32))"
    by (auto simp: case_prod_beta)
  moreover have "ucast (ucast x :: u32) = x" for x :: byte
    by (rule bit_eqI) (auto simp: bit_ucast_iff)
  ultimately have "fst r = snd r" and "b = to_ascii_lowercase (fst r)" by metis+
  with r show ?thesis by (auto intro: antisym)
qed

subsection \<open>Decomposition\<close>

text \<open>
  The text \<open>run\<close> of the current run of a concatenation against its literal: equal, or equal
  after folding once a class has been folded into it.
\<close>

definition run_matches :: "bool \<Rightarrow> byte list \<Rightarrow> byte list \<Rightarrow> bool" where
  "run_matches fold_run literal run \<longleftrightarrow>
     (if fold_run then map to_ascii_lowercase run = map to_ascii_lowercase literal
      else run = literal)"

lemma to_ascii_lowercase_idem [simp]:
  "to_ascii_lowercase (to_ascii_lowercase b) = to_ascii_lowercase b"
proof -
  have "b + 0x20 \<noteq> x" if "0x41 \<le> b" "b \<le> 0x5A" "0x41 \<le> x" "x \<le> 0x5A" for x
    using that by unat_arith
  then show ?thesis by (auto simp: to_ascii_lowercase_def is_ascii_uppercase_def)
qed

lemma run_matches_literal:
  "run_matches fold_run literal run \<Longrightarrow> run_matches fold_run (literal @ bs) (run @ bs)"
  by (auto simp: run_matches_def)

lemma run_matches_class:
  "run_matches fold_run literal run \<Longrightarrow> to_ascii_lowercase x = b \<Longrightarrow>
     run_matches True (literal @ [b]) (run @ [x])"
  by (auto simp: run_matches_def split: if_splits)

lemma flush_run_satisfied:
  assumes "content = pre @ run @ post" "run_matches fold_run literal run"
    and "\<forall>q \<in> set queries. query_satisfied (extract_merged_masks content) q"
  shows "\<forall>q \<in> set (flush_run literal fold_run queries).
    query_satisfied (extract_merged_masks content) q"
proof -
  let ?lit = "if fold_run then map to_ascii_lowercase literal else literal"
  let ?data = "if fold_run then map to_ascii_lowercase content else content"
  let ?f = "if fold_run then map to_ascii_lowercase else id"
  have "covered_text content ?data" by (simp add: covered_text_def)
  moreover have "?data = ?f pre @ ?lit @ ?f post"
    using assms(1,2) by (auto simp: run_matches_def)
  ultimately have "plan_satisfied (extract_merged_masks content) (literals_to_query_plan ?lit)"
    by (rule literal_satisfied)
  with assms(3) show ?thesis
    using literals_to_query_plan_cases [of ?lit] by (auto simp: flush_run_def)
qed

lemma decompose_satisfied:
  assumes sem: "hir_semantics accepts"
  shows "accepts h s \<Longrightarrow> content = pre @ s @ post \<Longrightarrow>
      plan_satisfied (extract_merged_masks content) (decompose_hir h)"
    and "list_all2 accepts subs parts \<Longrightarrow> content = pre @ run @ concat parts @ post \<Longrightarrow>
      run_matches fold_run literal run \<Longrightarrow>
      \<forall>q \<in> set queries. query_satisfied (extract_merged_masks content) q \<Longrightarrow>
      plan_satisfied (extract_merged_masks content) (concat_loop subs queries literal fold_run)"
proof (induction h and subs queries literal fold_run
    arbitrary: s pre post and parts run pre post rule: decompose_hir_concat_loop.induct)
  case (1 bytes)
  have "s = bytes" by (rule hir_semanticsD(1) [OF sem "1.prems"(1)])
  then have "content = pre @ bytes @ post" using "1.prems"(2) by simp
  moreover have "covered_text content content" by (simp add: covered_text_def)
  ultimately show ?case by (simp only: decompose_hir.simps literal_satisfied)
next
  case (2 subs)
  from hir_semanticsD(6) [OF sem "2.prems"(1)]
  obtain ps where ps: "s = concat ps" "list_all2 accepts subs ps" by auto
  have "content = pre @ [] @ concat ps @ post"
    unfolding append_Nil by (rule "2.prems"(2) [unfolded ps(1)])
  from "2.IH" [OF ps(2) this] show ?case by (simp add: run_matches_def)
next
  case (3 alts)
  from hir_semanticsD(7) [OF sem "3.prems"(1)]
  obtain h where h: "h \<in> set alts" "accepts h s" by auto
  from "3.IH" [OF h "3.prems"(2)] h(1) show ?case by (auto simp: Let_def)
next
  case (4 rep_min sub)
  show ?case
  proof (cases "1 \<le> rep_min")
    case True
    from hir_semanticsD(4) [OF sem "4.prems"(1)] obtain ps where
      ps: "rep_min \<le> length ps" "s = concat ps" "\<forall>p \<in> set ps. accepts sub p" by auto
    with True obtain p rest where split: "ps = p # rest" by (cases ps) auto
    have "content = pre @ p @ (concat rest @ post)" using "4.prems"(2) ps(2) split by simp
    moreover have "accepts sub p" using ps(3) split by simp
    ultimately show ?thesis using "4.IH" [OF True] True by simp
  qed simp
next
  case (5 sub)
  from "5.IH" [OF hir_semanticsD(5) [OF sem "5.prems"(1)] "5.prems"(2)]
  show ?case by simp
next
  case (9 queries literal fold_run)
  then have "content = pre @ run @ post" by simp
  from flush_run_satisfied [OF this "9.prems"(3,4)] show ?case by (simp add: Let_def)
next
  case (10 sub subs queries literal fold_run)
  then obtain p ps where parts: "parts = p # ps" "accepts sub p" "list_all2 accepts subs ps"
    by (auto simp: list_all2_Cons1)
  show ?case
  proof (cases "(case sub of
              HirLiteral bytes \<Rightarrow> Some (literal @ bytes, fold_run)
            | HirClass class \<Rightarrow>
                (case ascii_class_literal class of
                   Some b \<Rightarrow> Some (literal @ [b], True)
                 | None \<Rightarrow> None)
            | _ \<Rightarrow> None)")
    case None
    let ?qs = "flush_run literal fold_run queries"
    have sub: "plan_satisfied (extract_merged_masks content) (decompose_hir sub)"
      using "10.IH"(1) [OF None refl parts(2), of "pre @ run" "concat ps @ post"] "10.prems"(2) parts(1)
      by simp
    have "content = pre @ run @ (p @ concat ps @ post)" using "10.prems"(2) parts(1) by simp
    from flush_run_satisfied [OF this "10.prems"(3,4)] sub
    have qs: "\<forall>q \<in> set (case decompose_hir sub of And queries \<Rightarrow> ?qs @ queries | _ \<Rightarrow> ?qs).
        query_satisfied (extract_merged_masks content) q"
      by (auto split: query_plan.splits)
    from "10.IH"(2) [OF None refl parts(3) _ _ qs, of "pre @ run @ p" "[]" post] None
      "10.prems"(2) parts(1)
    show ?thesis by (simp add: run_matches_def Let_def)
  next
    case (Some r)
    obtain lit' fold' where r: "r = (lit', fold')" by (cases r)
    have "run_matches fold' lit' (run @ p)"
    proof (cases sub)
      case (HirLiteral bytes)
      then have "p = bytes" using parts(2) hir_semanticsD(1) [OF sem] by simp
      moreover have "lit' = literal @ bytes" "fold' = fold_run" using Some r HirLiteral by auto
      ultimately show ?thesis using run_matches_literal [OF "10.prems"(3)] by simp
    next
      case (HirClass cls)
      then obtain b where b: "ascii_class_literal cls = Some b" "lit' = literal @ [b]" "fold'"
        using Some r by (auto split: option.splits)
      then obtain x where "p = [x]" "to_ascii_lowercase x = b"
        using ascii_class_literal_accepts [OF sem] parts(2) HirClass by blast
      with b "10.prems"(3) run_matches_class show ?thesis by simp
    qed (use Some in auto)
    with "10.IH"(3) [OF Some [unfolded r] refl parts(3), of pre "run @ p" post] Some r "10.prems"
      parts(1)
    show ?thesis by simp
  qed
qed simp_all

subsection \<open>Well-formed plans and simplification\<close>

text \<open>
  A plan the executor may narrow by: no \<^verbatim>\<open>MatchAll\<close> below the root, which it would
  treat as selecting nothing, and no empty conjunction.
\<close>

fun narrows :: "query_plan \<Rightarrow> bool" where
  "narrows (And queries) \<longleftrightarrow> queries \<noteq> []"
| "narrows (Or plans) \<longleftrightarrow> (\<forall>p \<in> set plans. narrows p)"
| "narrows MatchAll \<longleftrightarrow> False"

definition well_formed_plan :: "query_plan \<Rightarrow> bool" where
  "well_formed_plan p \<longleftrightarrow> p = MatchAll \<or> narrows p"

lemma is_match_all_iff [simp]: "is_match_all p \<longleftrightarrow> p = MatchAll"
  by (cases p) (auto simp: is_match_all_def)

lemma literals_well_formed: "well_formed_plan (literals_to_query_plan bs)"
  using literals_to_query_plan_cases [of bs] by (auto simp: well_formed_plan_def)

lemma decompose_well_formed:
  "well_formed_plan (decompose_hir h)"
  "well_formed_plan (concat_loop subs queries literal fold_run)"
proof (induction h and subs queries literal fold_run rule: decompose_hir_concat_loop.induct)
  case (3 alts)
  then have "\<forall>p \<in> set (map decompose_hir alts). p = MatchAll \<or> narrows p"
    by (auto simp: well_formed_plan_def)
  then show ?case
    by (cases "MatchAll \<in> set (map decompose_hir alts)")
      (force simp: well_formed_plan_def Let_def list_ex_iff)+
next
  case (9 queries literal fold_run)
  show ?case by (simp add: well_formed_plan_def Let_def)
next
  case (10 sub subs queries literal fold_run)
  show ?case
  proof (cases "(case sub of
              HirLiteral bytes \<Rightarrow> Some (literal @ bytes, fold_run)
            | HirClass class \<Rightarrow>
                (case ascii_class_literal class of
                   Some b \<Rightarrow> Some (literal @ [b], True)
                 | None \<Rightarrow> None)
            | _ \<Rightarrow> None)")
    case None
    with "10.IH"(2) [OF None refl] show ?thesis by (simp add: Let_def)
  next
    case (Some r)
    obtain lit' fold' where r: "r = (lit', fold')" by (cases r)
    from "10.IH"(3) [OF Some r [symmetric]] Some r show ?thesis by simp
  qed
qed (auto simp: literals_well_formed, auto simp: well_formed_plan_def)

lemma dedup_same_trigram_key: "dedup_by same_trigram qs = dedup_key q_hash qs"
  by (induction "q_hash :: trigram_query \<Rightarrow> u32" qs rule: dedup_key.induct)
    (simp_all add: same_trigram_def)

lemma set_dedup_same_trigram: "set (dedup_by same_trigram qs) \<subseteq> set qs"
  by (simp only: dedup_same_trigram_key set_dedup_key)

lemma simplify_satisfied: "plan_satisfied m p \<Longrightarrow> plan_satisfied m (simplify p)"
proof (induction p rule: simplify.induct)
  case (1 queries)
  then show ?case
    using set_dedup_same_trigram [of "sort_key q_hash queries"] by (auto simp: Let_def)
next
  case (2 plans)
  then have "\<exists>p \<in> set (map simplify plans). plan_satisfied m p" by auto
  then show ?case by (auto simp: Let_def split: list.splits)
qed simp

lemma simplify_narrows: "narrows p \<Longrightarrow> narrows (simplify p)"
proof (induction p rule: simplify.induct)
  case (1 queries)
  then have "sort_key q_hash queries \<noteq> []" by (metis narrows.simps(1) set_empty set_sort)
  then have "dedup_by same_trigram (sort_key q_hash queries) \<noteq> []"
    using hd_dedup_key by (metis dedup_same_trigram_key)
  then show ?case by (simp add: Let_def)
next
  case (2 plans)
  then have "\<forall>p \<in> set (map simplify plans). narrows p" by auto
  then show ?case by (auto simp: Let_def split: list.splits)
qed simp

lemma simplify_well_formed: "well_formed_plan p \<Longrightarrow> well_formed_plan (simplify p)"
  by (auto simp: well_formed_plan_def simplify_narrows)

subsection \<open>Plans of patterns\<close>

lemma build_query_plan_satisfied:
  assumes "hir_semantics accepts" "build_query_plan parse pat ci = Inr plan"
    and "parse pat ci = Inr h" "accepts h s" "content = pre @ s @ post"
  shows "plan_satisfied (extract_merged_masks content) plan"
proof -
  have "plan = simplify (decompose_hir h)" using assms(2,3) by (simp add: build_query_plan_def)
  then show ?thesis
    using simplify_satisfied decompose_satisfied(1) [OF assms(1,4,5)] by blast
qed

lemma build_query_plan_well_formed:
  "build_query_plan parse pat ci = Inr plan \<Longrightarrow> well_formed_plan plan"
  by (auto simp: build_query_plan_def decompose_well_formed simplify_well_formed)

lemma build_literal_plan_well_formed: "well_formed_plan (build_literal_plan parse escape as_bytes lit ci)"
proof (cases "build_query_plan parse (escape lit) True")
  case (Inl e)
  then show ?thesis
    using literals_well_formed by (simp add: build_literal_plan_def) (simp add: well_formed_plan_def)
next
  case (Inr plan)
  then show ?thesis
    using build_query_plan_well_formed by (auto simp: build_literal_plan_def literals_well_formed)
qed

lemma combine_plans_well_formed:
  "\<forall>p \<in> set plans. narrows p \<Longrightarrow> well_formed_plan (combine_plans plans)"
  by (auto simp: combine_plans_def well_formed_plan_def split: list.splits)

lemma combine_plans_satisfied:
  "p \<in> set plans \<Longrightarrow> plan_satisfied m p \<Longrightarrow> plan_satisfied m (combine_plans plans)"
  by (auto simp: combine_plans_def split: list.splits)

lemma multi_plan_loop_well_formed:
  assumes "\<And>p plan. p \<in> set pats \<Longrightarrow> build p = Inr plan \<Longrightarrow> well_formed_plan plan"
    and "\<forall>p \<in> set plans. narrows p" "multi_plan_loop build pats plans = Inr plan"
  shows "well_formed_plan plan"
  using assms
proof (induction pats arbitrary: plans)
  case Nil
  then show ?case using combine_plans_well_formed by auto
next
  case (Cons p pats)
  from Cons.prems(3) obtain q where q: "build p = Inr q" by auto
  show ?case
  proof (cases "q = MatchAll")
    case True
    with Cons.prems(3) q show ?thesis by (simp add: well_formed_plan_def)
  next
    case False
    with Cons.prems(1) [of p q] q have "narrows q" by (simp add: well_formed_plan_def)
    with Cons.prems False q show ?thesis by (intro Cons.IH [of "plans @ [q]"]) auto
  qed
qed

lemma multi_plan_loop_satisfied:
  assumes "\<And>plan. build p = Inr plan \<Longrightarrow> plan_satisfied m plan"
    and "p \<in> set pats \<or> (\<exists>q \<in> set plans. plan_satisfied m q)"
    and "multi_plan_loop build pats plans = Inr plan"
  shows "plan_satisfied m plan"
  using assms(2,3)
proof (induction pats arbitrary: plans)
  case Nil
  then show ?case using combine_plans_satisfied by auto
next
  case (Cons p' pats)
  from Cons.prems(2) obtain q where q: "build p' = Inr q" by auto
  show ?case
  proof (cases "q = MatchAll")
    case True
    with Cons.prems(2) q show ?thesis by simp
  next
    case False
    have "p \<in> set pats \<or> (\<exists>r \<in> set (plans @ [q]). plan_satisfied m r)"
      using Cons.prems(1) q assms(1) by auto
    with Cons.prems(2) False q show ?thesis by (intro Cons.IH [of "plans @ [q]"]) auto
  qed
qed

text \<open>What it means that a text matches one of the user's patterns.\<close>

definition pattern_matches ::
  "(hir \<Rightarrow> byte list \<Rightarrow> bool) \<Rightarrow> ('p \<Rightarrow> bool \<Rightarrow> string + hir) \<Rightarrow> ('p \<Rightarrow> 'p) \<Rightarrow> ('p \<Rightarrow> byte list) \<Rightarrow>
   bool \<Rightarrow> bool \<Rightarrow> 'p \<Rightarrow> byte list \<Rightarrow> bool"
where
  "pattern_matches accepts parse escape as_bytes fixed ci pat s \<longleftrightarrow>
     (if fixed then
        (if ci then (case parse (escape pat) True of Inr h \<Rightarrow> accepts h s | Inl _ \<Rightarrow> True)
         else s = as_bytes pat)
      else (case parse pat ci of Inr h \<Rightarrow> accepts h s | Inl _ \<Rightarrow> False))"

lemma build_multi_pattern_plan_satisfied:
  assumes sem: "hir_semantics accepts"
    and plan: "build_multi_pattern_plan parse escape as_bytes pats fixed ci = Inr plan"
    and pat: "pat \<in> set pats" "pattern_matches accepts parse escape as_bytes fixed ci pat s"
    and content: "content = pre @ s @ post"
  shows "plan_satisfied (extract_merged_masks content) plan"
  using plan unfolding build_multi_pattern_plan_def
proof (rule multi_plan_loop_satisfied [rotated 2])
  show "pat \<in> set pats \<or> (\<exists>q \<in> set []. plan_satisfied (extract_merged_masks content) q)"
    using pat(1) by simp
  fix p
  assume p: "(if fixed then Inr (build_literal_plan parse escape as_bytes pat ci)
      else build_query_plan parse pat ci) = Inr p"
  show "plan_satisfied (extract_merged_masks content) p"
  proof (cases "fixed \<and> \<not> ci")
    case True
    then have "s = as_bytes pat" "p = literals_to_query_plan (as_bytes pat)"
      using pat(2) p by (simp_all add: pattern_matches_def build_literal_plan_def)
    then show ?thesis
      using literal_satisfied [of content content pre "as_bytes pat" post] content
      by (simp add: covered_text_def)
  next
    case False
    let ?pat = "if fixed then escape pat else pat"
    show ?thesis
    proof (cases "parse ?pat ci")
      case (Inl e)
      with False p pat(2) show ?thesis
        by (auto simp: pattern_matches_def build_literal_plan_def build_query_plan_def split: if_splits)
    next
      case (Inr h)
      with False p pat(2) have bq: "build_query_plan parse ?pat ci = Inr p" and acc: "accepts h s"
        by (auto simp: pattern_matches_def build_literal_plan_def build_query_plan_def split: if_splits)
      show ?thesis by (rule build_query_plan_satisfied [OF sem bq Inr acc content])
    qed
  qed
qed

lemma build_multi_pattern_plan_well_formed:
  assumes "build_multi_pattern_plan parse escape as_bytes pats fixed ci = Inr plan"
  shows "well_formed_plan plan"
  using assms unfolding build_multi_pattern_plan_def
  by (rule multi_plan_loop_well_formed [rotated 2])
    (auto simp: build_literal_plan_well_formed build_query_plan_well_formed split: if_splits)

section \<open>Properties\<close>

text \<open>C31. A file that contains a text matching one of the user's patterns satisfies the plan
  built for all of them: every trigram query of a branch of the plan is answered by the masks
  of the file.  The plan either scans everything or has no branch that would.\<close>

theorem multi_pattern_plan_never_loses_a_match:
  assumes "hir_semantics accepts"
    and "build_multi_pattern_plan parse escape as_bytes pats fixed ci = Inr plan"
    and "pat \<in> set pats" "pattern_matches accepts parse escape as_bytes fixed ci pat s"
    and "content = pre @ s @ post"
  shows "plan_satisfied (extract_merged_masks content) plan \<and> (plan = MatchAll \<or> narrows plan)"
  using build_multi_pattern_plan_satisfied [OF assms] build_multi_pattern_plan_well_formed [OF assms(2)]
  by (simp add: well_formed_plan_def)

definition demo_parse :: "byte list \<Rightarrow> bool \<Rightarrow> string + hir" where
  "demo_parse p ci = Inr (HirConcat [HirLiteral p, HirRepetition 1 (HirClass (ClassBytes [(0x30, 0x39)]))])"

theorem multi_pattern_plan_never_loses_a_match_witness:
  "\<exists>plan. build_multi_pattern_plan demo_parse id id [[0x78, 0x79, 0x7A], [0x61, 0x62, 0x63, 0x64]]
      False False = Inr plan \<and> plan \<noteq> MatchAll \<and>
    plan_satisfied (extract_merged_masks [0x20, 0x61, 0x62, 0x63, 0x64, 0x35, 0x36, 0x20]) plan"
proof -
  let ?pats = "[[0x78, 0x79, 0x7A], [0x61, 0x62, 0x63, 0x64]] :: byte list list"
  obtain plan where plan: "build_multi_pattern_plan demo_parse id id ?pats False False = Inr plan"
    and ne: "plan \<noteq> MatchAll"
    by (simp add: build_multi_pattern_plan_def build_query_plan_def demo_parse_def flush_run_def
        literals_to_query_plan_def is_match_all_def ascii_class_literal_def combine_plans_def
        upt_rec hash_def same_trigram_def)
  have digits: "hir_accepts (HirRepetition 1 (HirClass (ClassBytes [(0x30, 0x39)]))) ([0x35, 0x36])"
  proof -
    have "hir_accepts (HirRepetition 1 (HirClass (ClassBytes [(0x30, 0x39)]))) (concat [[0x35], [0x36]])"
      by (rule acc_repetition) (auto simp: hir_accepts_simps)
    then show ?thesis by simp
  qed
  have "hir_accepts (HirConcat [HirLiteral [0x61, 0x62, 0x63, 0x64],
      HirRepetition 1 (HirClass (ClassBytes [(0x30, 0x39)]))]) (concat [[0x61, 0x62, 0x63, 0x64], [0x35, 0x36]])"
    using digits by (intro acc_concat) (simp add: hir_accepts_simps)
  then have "pattern_matches hir_accepts demo_parse id id False False [0x61, 0x62, 0x63, 0x64]
      [0x61, 0x62, 0x63, 0x64, 0x35, 0x36]"
    by (simp add: pattern_matches_def demo_parse_def)
  from multi_pattern_plan_never_loses_a_match [OF hir_semantics_hir_accepts plan _ this,
      of "[0x20, 0x61, 0x62, 0x63, 0x64, 0x35, 0x36, 0x20]" "[0x20]" "[0x20]"] ne plan
  show ?thesis by auto
qed

text \<open>Simplifying a conjunction keeps its trigrams, each once and in strictly ascending
  order, and keeps of each trigram the first query that asked for it; a conjunction becomes a
  full scan only when it is empty.\<close>

theorem simplify_conjunction:
  "(queries = [] \<and> simplify (And queries) = MatchAll) \<or>
   (\<exists>qs. simplify (And queries) = And qs \<and> qs \<noteq> [] \<and> ascending (map q_hash qs) \<and>
      (\<forall>h. find (\<lambda>q. q_hash q = h) qs = find (\<lambda>q. q_hash q = h) queries))"
proof (cases "queries = []")
  case False
  let ?qs = "dedup_key q_hash (sort_key q_hash queries)"
  have "q_hash ` set ?qs = q_hash ` set queries" by simp
  then have "?qs \<noteq> []" using False by (metis image_is_empty set_empty)
  moreover have "ascending (map q_hash ?qs)" by simp
  moreover have "find (\<lambda>q. q_hash q = h) ?qs = find (\<lambda>q. q_hash q = h) queries" for h
    by (simp add: find_dedup_key find_sort_key)
  ultimately show ?thesis by (simp add: dedup_same_trigram_key)
qed (simp add: Let_def)

text \<open>Where a trigram is queried twice, with and without an expected next byte, the query
  that stays is the first of the stable sort with its expected byte: it is not cleared.\<close>

theorem simplify_keeps_first_expectation:
  "simplify (And [\<lparr>q_hash = h, expected_next = Some a\<rparr>, \<lparr>q_hash = h, expected_next = None\<rparr>]) =
     And [\<lparr>q_hash = h, expected_next = Some a\<rparr>]"
  by (simp add: same_trigram_def)

end
