(* ===== verification/Matcher.thy ===== *)
theory Matcher
  imports Lines Query_Plan
begin

text \<open>
  The compiled pattern and line-oriented search (\<^verbatim>\<open>tgrep-cli/src/matching.rs\<close>): the two
  kinds of engine behind one interface, replacement, the prescan of a whole buffer for candidate
  lines and the selection of hits.  The crates \<^verbatim>\<open>regex\<close> and \<^verbatim>\<open>fancy-regex\<close> are the
  functions of their records; a lazy iterator is the list of what it yields.
\<close>

section \<open>The engines\<close>

type_synonym expand = "byte list \<Rightarrow> byte list"

record std_regex =
  re_as_str :: "byte list"
  re_is_match :: "byte list \<Rightarrow> bool"
  re_find :: "byte list \<Rightarrow> span option"
  re_find_iter :: "byte list \<Rightarrow> span list"
  re_captures_iter :: "byte list \<Rightarrow> (span \<times> expand) list"

record fancy_regex =
  fancy_is_match :: "byte list \<Rightarrow> string + bool"
  fancy_find :: "byte list \<Rightarrow> string + span option"
  fancy_find_iter :: "byte list \<Rightarrow> (string + span) list"
  fancy_captures_iter :: "byte list \<Rightarrow> (string + span \<times> expand) list"

datatype search_matcher =
    Standard std_regex bool
  | Fancy fancy_regex "std_regex option"

definition is_standard :: "search_matcher \<Rightarrow> bool" where
  "is_standard self = (case self of Standard re dotall \<Rightarrow> True | Fancy re prefilter \<Rightarrow> False)"

definition ruled_out :: "std_regex option \<Rightarrow> byte list \<Rightarrow> bool" where
  "ruled_out prefilter hay = (case prefilter of Some re \<Rightarrow> \<not> re_is_match re hay | None \<Rightarrow> False)"

definition match_error :: "string + 'a \<Rightarrow> string + 'a" where
  "match_error r = (case r of Inl e \<Rightarrow> Inl (''regex match error: '' @ e) | Inr x \<Rightarrow> Inr x)"

definition matcher_is_match :: "search_matcher \<Rightarrow> byte list \<Rightarrow> string + bool" where
  "matcher_is_match self hay =
     (case self of
        Standard re dotall \<Rightarrow> Inr (re_is_match re hay)
      | Fancy re prefilter \<Rightarrow> if ruled_out prefilter hay then Inr False else match_error (fancy_is_match re hay))"

text \<open>A loop that pushes every item and returns the first error.\<close>

fun push_all :: "(string + 'a) list \<Rightarrow> 'a list \<Rightarrow> string + 'a list" where
  "push_all [] out = Inr out"
| "push_all (m # ms) out = rbind (match_error m) (\<lambda>x. push_all ms (out @ [x]))"

definition find_spans :: "search_matcher \<Rightarrow> byte list \<Rightarrow> string + span list" where
  "find_spans self hay =
     (case self of
        Standard re dotall \<Rightarrow> Inr (re_find_iter re hay)
      | Fancy re prefilter \<Rightarrow>
          if ruled_out prefilter hay then Inr [] else push_all (fancy_find_iter re hay) [])"

definition find_first_span :: "search_matcher \<Rightarrow> byte list \<Rightarrow> string + span option" where
  "find_first_span self hay =
     (case self of
        Standard re dotall \<Rightarrow> Inr (re_find re hay)
      | Fancy re prefilter \<Rightarrow> if ruled_out prefilter hay then Inr None else match_error (fancy_find re hay))"

section \<open>Replacement\<close>

type_synonym expansion = "span \<times> byte list"

definition expansions_upto :: "search_matcher \<Rightarrow> byte list \<Rightarrow> byte list \<Rightarrow> nat \<Rightarrow> string + expansion list" where
  "expansions_upto self hay replacement limit =
     (case self of
        Standard re dotall \<Rightarrow> Inr (map (\<lambda>(m, expand). (m, expand replacement)) (take limit (re_captures_iter re hay)))
      | Fancy re prefilter \<Rightarrow>
          if ruled_out prefilter hay then Inr []
          else rbind (push_all (take limit (fancy_captures_iter re hay)) [])
                 (\<lambda>caps. Inr (map (\<lambda>(m, expand). (m, expand replacement)) caps)))"

definition expansions :: "search_matcher \<Rightarrow> byte list \<Rightarrow> byte list \<Rightarrow> string + expansion list" where
  "expansions self hay replacement = expansions_upto self hay replacement (2 ^ 64 - 1)"

fun replace_loop :: "byte list \<Rightarrow> expansion list \<Rightarrow> nat \<Rightarrow> byte list \<Rightarrow> span list \<Rightarrow> byte list \<times> span list" where
  "replace_loop hay [] pos out spans = (out @ drop pos hay, spans)"
| "replace_loop hay (((start, stop), expanded) # reps) pos out spans =
     (let out = out @ slice hay pos start;
          span_start = length out;
          out = out @ expanded
      in replace_loop hay reps stop out (spans @ [(span_start, length out)]))"

definition replace_all :: "search_matcher \<Rightarrow> byte list \<Rightarrow> byte list \<Rightarrow> string + byte list \<times> span list" where
  "replace_all self hay replacement =
     rbind (expansions self hay replacement) (\<lambda>reps. Inr (replace_loop hay reps 0 [] []))"

section \<open>Patterns that can match a line terminator\<close>

fun hir_can_match_newline :: "hir \<Rightarrow> bool" where
  "hir_can_match_newline HirEmpty = False"
| "hir_can_match_newline (HirLiteral lit) = (0x0A \<in> set lit)"
| "hir_can_match_newline (HirClass class) =
     (case class of
        ClassUnicode ranges \<Rightarrow> \<exists>r\<in>set ranges. fst r \<le> 0x0A \<and> 0x0A \<le> snd r
      | ClassBytes ranges \<Rightarrow> \<exists>r\<in>set ranges. fst r \<le> 0x0A \<and> 0x0A \<le> snd r)"
| "hir_can_match_newline (HirLook look) =
     (look \<in> {LookStart, LookEnd, LookStartLF, LookEndLF, LookStartCRLF, LookEndCRLF})"
| "hir_can_match_newline (HirRepetition n sub) = hir_can_match_newline sub"
| "hir_can_match_newline (HirCapture sub) = hir_can_match_newline sub"
| "hir_can_match_newline (HirConcat subs) = list_ex hir_can_match_newline subs"
| "hir_can_match_newline (HirAlternation subs) = list_ex hir_can_match_newline subs"

text \<open>The parser gets the pattern and whether a dot matches a line break.\<close>

definition can_match_newline :: "(byte list \<Rightarrow> bool \<Rightarrow> hir option) \<Rightarrow> search_matcher \<Rightarrow> bool" where
  "can_match_newline parse self =
     (case self of
        Fancy re prefilter \<Rightarrow> True
      | Standard re dotall \<Rightarrow> (case parse (re_as_str re) dotall of None \<Rightarrow> True | Some hir \<Rightarrow> hir_can_match_newline hir))"

section \<open>Selecting lines\<close>

record match_options =
  invert_match :: bool
  multiline :: bool
  only_matching :: bool
  before_context :: nat
  after_context :: nat
  max_count :: "nat option"
  passthru :: bool
  replace :: "byte list option"
  stop_on_nonmatch :: bool
  vimgrep :: bool
  all_spans :: bool
  replace_blocks :: bool
  report_replacements :: bool

text \<open>A backslash takes the byte behind it along; \<^verbatim>\<open>\A\<close>, \<^verbatim>\<open>\z\<close> and \<^verbatim>\<open>\Z\<close> are anchors.\<close>

fun pattern_is_anchor_free :: "byte list \<Rightarrow> bool" where
  "pattern_is_anchor_free [] = True"
| "pattern_is_anchor_free (b # bytes) =
     (if b = 0x5C then
        (case bytes of
           [] \<Rightarrow> False
         | c # bytes \<Rightarrow> if c = 0x41 \<or> c = 0x7A \<or> c = 0x5A then False else pattern_is_anchor_free bytes)
      else if b = 0x5E \<or> b = 0x24 then False
      else pattern_is_anchor_free bytes)"

text \<open>The filter that drops a line equal to the one before it.\<close>

fun fresh_lines :: "nat option \<Rightarrow> nat list \<Rightarrow> nat list" where
  "fresh_lines seen [] = []"
| "fresh_lines seen (li # lis) =
     (if seen \<noteq> Some li then li # fresh_lines (Some li) lis else fresh_lines seen lis)"

text \<open>The lines from the start of a match through its end.\<close>

definition lines_touched :: "line_index \<Rightarrow> span \<Rightarrow> nat list" where
  "lines_touched index = (\<lambda>(s, e). [line_of index s..<line_of index e + 1])"

definition candidate_lines :: "byte list \<Rightarrow> line_index \<Rightarrow> search_matcher \<Rightarrow> match_options \<Rightarrow> nat list option" where
  "candidate_lines content index matcher opts =
     (if stop_on_nonmatch opts then None
      else case matcher of
          Fancy re prefilter \<Rightarrow> None
        | Standard re dotall \<Rightarrow>
            if \<not> pattern_is_anchor_free (re_as_str re) then None
            else if re_is_match re [] then None
            else Some (fresh_lines None
              (concat (map (lines_touched index) (re_find_iter re content)))))"

definition count_reached :: "match_options \<Rightarrow> line_hit list \<Rightarrow> bool" where
  "count_reached opts out = (case max_count opts of Some m \<Rightarrow> length out \<ge> m | None \<Rightarrow> False)"

text \<open>A visit returns whether to go on.\<close>

definition visit_line ::
  "line_index \<Rightarrow> search_matcher \<Rightarrow> match_options \<Rightarrow> nat \<Rightarrow> line_hit list \<Rightarrow> string + bool \<times> line_hit list"
where
  "visit_line index matcher opts i out =
     rbind (if all_spans opts then find_spans matcher (line_text index i)
            else rbind (find_first_span matcher (line_text index i))
                   (\<lambda>m. Inr (case m of Some span \<Rightarrow> [span] | None \<Rightarrow> []))) (\<lambda>spans.
       if spans \<noteq> [] then
         let out = out @ [\<lparr>hit_idx = i, hit_spans = spans\<rparr>]
         in Inr (\<not> count_reached opts out, out)
       else if stop_on_nonmatch opts \<and> out \<noteq> [] then Inr (False, out)
       else Inr (True, out))"

fun visit_lines ::
  "line_index \<Rightarrow> search_matcher \<Rightarrow> match_options \<Rightarrow> nat list \<Rightarrow> line_hit list \<Rightarrow> string + line_hit list"
where
  "visit_lines index matcher opts [] out = Inr out"
| "visit_lines index matcher opts (i # is) out =
     rbind (visit_line index matcher opts i out) (\<lambda>(more, out).
       if more then visit_lines index matcher opts is out else Inr out)"

fun invert_lines ::
  "line_index \<Rightarrow> search_matcher \<Rightarrow> match_options \<Rightarrow> nat list \<Rightarrow> line_hit list \<Rightarrow> string + line_hit list"
where
  "invert_lines index matcher opts [] out = Inr out"
| "invert_lines index matcher opts (i # is) out =
     rbind (matcher_is_match matcher (line_text index i)) (\<lambda>matched.
       if \<not> matched then
         let out = out @ [\<lparr>hit_idx = i, hit_spans = []\<rparr>]
         in if count_reached opts out then Inr out else invert_lines index matcher opts is out
       else if stop_on_nonmatch opts \<and> out \<noteq> [] then Inr out
       else invert_lines index matcher opts is out)"

definition collect_hits ::
  "byte list \<Rightarrow> line_index \<Rightarrow> search_matcher \<Rightarrow> match_options \<Rightarrow> string + line_hit list"
where
  "collect_hits content index matcher opts =
     (if invert_match opts then invert_lines index matcher opts [0..<line_count index] []
      else case candidate_lines content index matcher opts of
          Some candidates \<Rightarrow> visit_lines index matcher opts candidates []
        | None \<Rightarrow> visit_lines index matcher opts [0..<line_count index] [])"

section \<open>What is known of an engine\<close>

text \<open>
  The ranges an iteration yields, given the offsets at which the pattern matches: each starts at
  the first such offset behind the range before it, and none is left at the end.  An offset
  where the range before it ends can be passed over, because an empty match is not yielded there.
\<close>

definition later :: "nat option \<Rightarrow> nat \<Rightarrow> bool" where
  "later prev p = (case prev of None \<Rightarrow> True | Some q \<Rightarrow> q < p)"

fun leftmost_spans :: "nat set \<Rightarrow> nat option \<Rightarrow> span list \<Rightarrow> bool" where
  "leftmost_spans S prev [] \<longleftrightarrow> (\<forall>p\<in>S. \<not> later prev p)"
| "leftmost_spans S prev ((s, e) # spans) \<longleftrightarrow>
     s \<in> S \<and> s \<le> e \<and> (case prev of None \<Rightarrow> True | Some q \<Rightarrow> q \<le> s) \<and>
     (\<forall>p\<in>S. later prev p \<longrightarrow> s \<le> p) \<and> leftmost_spans S (Some e) spans"

definition leftmost_engine :: "std_regex \<Rightarrow> (byte list \<Rightarrow> nat set) \<Rightarrow> bool" where
  "leftmost_engine re starts \<longleftrightarrow> (\<forall>hay.
     leftmost_spans (starts hay) None (re_find_iter re hay) \<and>
     re_find re hay = (case re_find_iter re hay of [] \<Rightarrow> None | m # ms \<Rightarrow> Some m) \<and>
     (re_is_match re hay \<longleftrightarrow> starts hay \<noteq> {}))"

text \<open>
  Without anchors a pattern cannot tell whether a line was cut out of its text: what it matches in
  the line alone it matches at the same place of the text.
\<close>

definition line_local :: "(byte list \<Rightarrow> nat set) \<Rightarrow> bool" where
  "line_local starts \<longleftrightarrow> (\<forall>pre line post.
     (pre = [] \<or> last pre = 0x0A) \<longrightarrow> 0x0A \<notin> set line \<longrightarrow> (post = [] \<or> hd post \<in> {0x0A, 0x0D}) \<longrightarrow>
     (\<forall>p\<in>starts line. p \<le> length line \<and> length pre + p \<in> starts (pre @ line @ post)))"

lemma leftmost_covers:
  "leftmost_spans S prev spans \<Longrightarrow> p \<in> S \<Longrightarrow> later prev p \<Longrightarrow> \<exists>m\<in>set spans. fst m \<le> p \<and> p \<le> snd m"
proof (induction S prev spans rule: leftmost_spans.induct)
  case (2 S prev s e spans)
  then show ?case by (cases "p \<le> e") (auto simp: later_def)
qed simp

lemma set_lines_touched: "li \<in> set (lines_touched I m) \<longleftrightarrow> line_of I (fst m) \<le> li \<and> li \<le> line_of I (snd m)"
  by (auto simp: lines_touched_def case_prod_unfold)

lemma sorted_lines_touched: "sorted (lines_touched I m)"
  by (simp add: lines_touched_def case_prod_unfold del: upt_Suc)

lemma leftmost_lines_sorted:
  assumes "lines_wf I"
  shows "leftmost_spans S prev spans \<Longrightarrow>
    sorted (concat (map (lines_touched I) spans)) \<and>
    (\<forall>q. prev = Some q \<longrightarrow> (\<forall>li\<in>set (concat (map (lines_touched I) spans)). line_of I q \<le> li))"
proof (induction S prev spans rule: leftmost_spans.induct)
  case (2 S prev s e spans)
  have se: "line_of I s \<le> line_of I e" using 2(2) line_of_mono [OF assms, of s e] by simp
  have ih: "sorted (concat (map (lines_touched I) spans))"
    "\<And>li. li \<in> set (concat (map (lines_touched I) spans)) \<Longrightarrow> line_of I e \<le> li"
    using 2 by auto
  have "sorted (concat (map (lines_touched I) ((s, e) # spans)))"
  proof -
    have "x \<le> y" if "x \<in> set (lines_touched I (s, e))" "y \<in> set (concat (map (lines_touched I) spans))" for x y
      using ih(2) [OF that(2)] that(1) by (simp add: set_lines_touched)
    then show ?thesis using ih(1) sorted_lines_touched [of I "(s, e)"] by (simp add: sorted_append)
  qed
  moreover have "line_of I q \<le> li"
    if "prev = Some q" "li \<in> set (concat (map (lines_touched I) ((s, e) # spans)))" for q li
  proof -
    have "line_of I s \<le> li"
    proof (cases "li \<in> set (lines_touched I (s, e))")
      case True
      then show ?thesis by (simp add: set_lines_touched)
    next
      case False
      then show ?thesis using that(2) ih(2) [of li] se by simp
    qed
    moreover have "line_of I q \<le> line_of I s" using 2(2) that(1) line_of_mono [OF assms, of q s] by simp
    ultimately show ?thesis by simp
  qed
  ultimately show ?case by blast
qed simp

lemma fresh_lines_result:
  "sorted lis \<Longrightarrow> (\<And>x. seen = Some x \<Longrightarrow> \<forall>y\<in>set lis. x \<le> y) \<Longrightarrow>
   ascending (fresh_lines seen lis) \<and> set (fresh_lines seen lis) = set lis - set_option seen"
proof (induction seen lis rule: fresh_lines.induct)
  case (2 seen li lis)
  show ?case
  proof (cases "seen = Some li")
    case True
    then show ?thesis using 2 by auto
  next
    case False
    have "\<forall>y\<in>set lis. li \<le> y" "sorted lis" using "2.prems"(1) by auto
    then have ih: "ascending (fresh_lines (Some li) lis)" "set (fresh_lines (Some li) lis) = set lis - {li}"
      using "2.IH"(1) [OF False] by auto
    have "x \<notin> set (li # lis)" if "seen = Some x" for x
    proof -
      have "x \<le> li" "x \<noteq> li" using "2.prems"(2) [OF that] False that by auto
      then show ?thesis using \<open>\<forall>y\<in>set lis. li \<le> y\<close> by fastforce
    qed
    then have "set (li # lis) - set_option seen = set (li # lis)" by (cases seen) auto
    then show ?thesis using False ih \<open>\<forall>y\<in>set lis. li \<le> y\<close> by (auto simp: le_neq_trans)
  qed
qed simp

text \<open>A line in its text.\<close>

lemma line_in_text:
  assumes "lines_wf I" "li < line_count I"
  shows "\<exists>pre post. li_content I = pre @ line_text I li @ post \<and> length pre = line_start I li \<and>
    (pre = [] \<or> last pre = 0x0A) \<and> (post = [] \<or> hd post \<in> {0x0A, 0x0D})"
proof -
  let ?C = "li_content I" and ?s = "line_start I li" and ?e = "line_end I li"
  note b = line_end_bounds [OF assms(1), of li] line_start_less [OF assms]
  have "?C = slice ?C 0 ?s @ line_text I li @ slice ?C ?e (length ?C)"
    using b by (simp add: line_text_def slice_append slice_all)
  moreover have "length (slice ?C 0 ?s) = ?s" using b by (simp add: length_slice)
  moreover have "slice ?C 0 ?s = [] \<or> last (slice ?C 0 ?s) = 0x0A"
  proof (cases "?s = 0")
    case False
    have "?s \<in> set (li_starts I)" using assms(2) by (simp add: line_start_def line_count_def)
    then have "?C ! (?s - 1) = 0x0A" using False unfolding mem_starts [OF assms(1)] by simp
    then show ?thesis using slice_last [of 0 ?s ?C] False b by simp
  qed (simp add: slice_def)
  moreover have "slice ?C ?e (length ?C) = [] \<or> hd (slice ?C ?e (length ?C)) \<in> {0x0A, 0x0D}"
  proof -
    have "slice ?C ?e (length ?C) = line_terminator I li @ slice ?C (line_start I (li + 1)) (length ?C)"
      using b by (simp add: line_terminator_def slice_append)
    moreover have "slice ?C (line_start I (li + 1)) (length ?C) = []" if "li + 1 = line_count I"
      using line_start_count [OF assms(1), of "li + 1"] that by (simp add: slice_def)
    ultimately show ?thesis using line_end_cases [OF assms] by auto
  qed
  ultimately show ?thesis by blast
qed

lemma visit_lines_filter:
  assumes "\<And>i out. i \<in> set is \<Longrightarrow> \<not> P i \<Longrightarrow> visit_line index matcher opts i out = Inr (True, out)"
  shows "visit_lines index matcher opts is out = visit_lines index matcher opts (filter P is) out"
  using assms
proof (induction "is" arbitrary: out)
  case (Cons i "is")
  show ?case
  proof (cases "P i")
    case True
    have "rbind r (\<lambda>(more, out). if more then visit_lines index matcher opts is out else Inr out) =
        rbind r (\<lambda>(more, out). if more then visit_lines index matcher opts (filter P is) out else Inr out)" for r
      using Cons.IH Cons.prems by (cases r) auto
    then show ?thesis using True by simp
  next
    case False
    then show ?thesis using Cons.prems Cons.IH by simp
  qed
qed simp

lemma collect_hits_visits:
  assumes index: "finds_all memchr_iter" "index = line_index_new memchr_iter content"
    and engine: "leftmost_engine re starts" "pattern_is_anchor_free (re_as_str re) \<longrightarrow> line_local starts"
    and opts: "\<not> invert_match opts"
  shows "collect_hits content index (Standard re dotall) opts =
    visit_lines index (Standard re dotall) opts [0..<line_count index] []"
proof (cases "candidate_lines content index (Standard re dotall) opts")
  case None
  then show ?thesis using opts by (simp add: collect_hits_def)
next
  case (Some candidates)
  have wf: "lines_wf index" and content: "li_content index = content" using line_index_new_wf [OF index(1)] index(2) by simp_all
  let ?lines = "concat (map (lines_touched index) (re_find_iter re content))"
  have c: "\<not> stop_on_nonmatch opts" "line_local starts" "\<not> re_is_match re []" "candidates = fresh_lines None ?lines"
    using Some engine(2) by (auto simp: candidate_lines_def split: if_splits)
  have found: "leftmost_spans (starts hay) None (re_find_iter re hay)" for hay
    using engine(1) by (simp add: leftmost_engine_def)
  have cs: "ascending candidates" "set candidates = set ?lines"
    using fresh_lines_result [of ?lines None] leftmost_lines_sorted [OF wf found] unfolding c(4) by auto
  have "li < line_count index" if "li \<in> set candidates" for li
  proof -
    have "content \<noteq> []"
    proof
      assume "content = []"
      moreover have "starts [] = {}" using c(3) engine(1) by (simp add: leftmost_engine_def)
      ultimately have "re_find_iter re content = []" using found [of "[]"] by (cases "re_find_iter re []") auto
      then show False using that unfolding cs(2) by simp
    qed
    then have "line_of index e < line_count index" for e using line_of_spec [OF wf] content by simp
    then show ?thesis using that unfolding cs(2) by (auto simp: set_lines_touched intro: le_less_trans)
  qed
  then have "filter (\<lambda>i. i \<in> set candidates) [0..<line_count index] = candidates"
    using cs(1) by (intro ascending_eqI) auto
  moreover have "visit_line index (Standard re dotall) opts i out = Inr (True, out)"
    if i: "i < line_count index" "i \<notin> set candidates" for i out
  proof -
    have "starts (line_text index i) = {}"
    proof (rule ccontr)
      assume "starts (line_text index i) \<noteq> {}"
      then obtain p where p: "p \<in> starts (line_text index i)" by blast
      obtain pre post where t: "content = pre @ line_text index i @ post" "length pre = line_start index i"
        "pre = [] \<or> last pre = 0x0A" "post = [] \<or> hd post \<in> {0x0A, 0x0D}"
        using line_in_text [OF wf i(1)] content by auto
      have s: "p \<le> length (line_text index i)" "line_start index i + p \<in> starts content"
      proof -
        have "p \<le> length (line_text index i) \<and> length pre + p \<in> starts (pre @ line_text index i @ post)"
          using c(2) p t(3,4) line_text_no_newline [OF wf i(1)] unfolding line_local_def by blast
        then show "p \<le> length (line_text index i)" "line_start index i + p \<in> starts content"
          by (simp_all add: t(2) flip: t(1))
      qed
      obtain m where m: "m \<in> set (re_find_iter re content)" "fst m \<le> line_start index i + p" "line_start index i + p \<le> snd m"
        using leftmost_covers [OF found s(2)] by (auto simp: later_def)
      have "line_of index (line_start index i + p) = i"
        by (rule line_end_in_line [OF wf i(1)]) (use s(1) line_end_bounds(1) [OF wf, of i] in \<open>simp_all add: length_line_text [OF wf]\<close>)
      then have "line_of index (fst m) \<le> i" "i \<le> line_of index (snd m)"
        using line_of_mono [OF wf m(2)] line_of_mono [OF wf m(3)] by simp_all
      then have "i \<in> set ?lines" using m(1) by (force simp: set_lines_touched)
      then show False using i(2) unfolding cs(2) by simp
    qed
    then have "re_find_iter re (line_text index i) = []" using found [of "line_text index i"]
      by (cases "re_find_iter re (line_text index i)") auto
    moreover have "re_find re (line_text index i) = None" using calculation engine(1) by (simp add: leftmost_engine_def)
    ultimately show ?thesis using c(1) by (simp add: visit_line_def find_spans_def find_first_span_def)
  qed
  ultimately have "visit_lines index (Standard re dotall) opts [0..<line_count index] [] =
      visit_lines index (Standard re dotall) opts candidates []"
    using visit_lines_filter [of "[0..<line_count index]" "\<lambda>i. i \<in> set candidates" index "Standard re dotall" opts "[]"] by simp
  then show ?thesis using Some opts by (simp add: collect_hits_def)
qed

text \<open>C22. The prescan of the whole text changes no answer: line-oriented search finds the same lines with the same
  ranges, and stops at the same count, as if every line were matched on its own.\<close>

theorem prescan_changes_no_answer:
  assumes index: "finds_all memchr_iter" "index = line_index_new memchr_iter content"
    and engine: "leftmost_engine re starts" "pattern_is_anchor_free (re_as_str re) \<longrightarrow> line_local starts"
    and opts: "\<not> invert_match opts"
  shows "collect_hits content index (Standard re dotall) opts =
    visit_lines index (Standard re dotall) opts [0..<line_count index] []"
  by (rule collect_hits_visits [OF assms])

text \<open>An engine for a single byte.\<close>

definition byte_engine :: "byte \<Rightarrow> std_regex" where
  "byte_engine b =
     \<lparr>re_as_str = [b], re_is_match = (\<lambda>hay. b \<in> set hay),
      re_find = (\<lambda>hay. case all_bytes b hay of [] \<Rightarrow> None | i # is \<Rightarrow> Some (i, i + 1)),
      re_find_iter = (\<lambda>hay. map (\<lambda>i. (i, i + 1)) (all_bytes b hay)),
      re_captures_iter = (\<lambda>hay. map (\<lambda>i. ((i, i + 1), \<lambda>replacement. replacement)) (all_bytes b hay))\<rparr>"

lemma leftmost_singles:
  "ascending xs \<Longrightarrow> set xs \<subseteq> S \<Longrightarrow> {p \<in> S. later prev p} \<subseteq> set xs \<Longrightarrow>
   (case prev of None \<Rightarrow> True | Some q \<Rightarrow> \<forall>p\<in>set xs. q \<le> p) \<Longrightarrow> leftmost_spans S prev (map (\<lambda>i. (i, i + 1)) xs)"
proof (induction xs arbitrary: prev)
  case (Cons x xs)
  have "leftmost_spans S (Some (x + 1)) (map (\<lambda>i. (i, i + 1)) xs)"
  proof (rule Cons.IH)
    show "{p \<in> S. later (Some (x + 1)) p} \<subseteq> set xs"
    proof
      fix p assume "p \<in> {p \<in> S. later (Some (x + 1)) p}"
      then have p: "p \<in> S" "x + 1 < p" by (simp_all add: later_def)
      then have "later prev p" using Cons.prems(4) by (cases prev) (auto simp: later_def)
      then show "p \<in> set xs" using Cons.prems(3) p by auto
    qed
  qed (use Cons.prems in auto)
  moreover have "x \<le> p" if "p \<in> S" "later prev p" for p
  proof -
    have "p \<in> set (x # xs)" using Cons.prems(3) that by blast
    then show ?thesis using Cons.prems(1) by auto
  qed
  ultimately show ?case using Cons.prems(2,4) by (cases prev) auto
qed auto

lemma byte_engine_leftmost: "leftmost_engine (byte_engine b) (\<lambda>hay. set (all_bytes b hay))"
proof -
  have "leftmost_spans (set (all_bytes b hay)) None (map (\<lambda>i. (i, i + 1)) (all_bytes b hay))" for hay
    by (rule leftmost_singles) (auto simp: all_bytes_def sorted_wrt_filter)
  moreover have "b \<in> set hay \<longleftrightarrow> set (all_bytes b hay) \<noteq> {}" for hay by (auto simp: all_bytes_def in_set_conv_nth)
  ultimately show ?thesis by (simp add: leftmost_engine_def byte_engine_def split: list.split)
qed

lemma byte_engine_local: "line_local (\<lambda>hay. set (all_bytes b hay))"
  by (auto simp: line_local_def all_bytes_def nth_append)

theorem prescan_changes_no_answer_witness:
  "collect_hits [0x61, 0x0A, 0x62] (line_index_new all_bytes [0x61, 0x0A, 0x62]) (Standard (byte_engine 0x62) False)
     \<lparr>invert_match = False, multiline = False, only_matching = False, before_context = 0, after_context = 0,
      max_count = None, passthru = False, replace = None, stop_on_nonmatch = False, vimgrep = False,
      all_spans = True, replace_blocks = False, report_replacements = False\<rparr> =
   Inr [\<lparr>hit_idx = 1, hit_spans = [(0, 1)]\<rparr>]"
proof -
  let ?I = "line_index_new all_bytes [0x61, 0x0A, 0x62]" and ?M = "Standard (byte_engine 0x62) False"
  let ?opts = "\<lparr>invert_match = False, multiline = False, only_matching = False, before_context = 0, after_context = 0,
      max_count = None, passthru = False, replace = None, stop_on_nonmatch = False, vimgrep = False,
      all_spans = True, replace_blocks = False, report_replacements = False\<rparr>"
  have starts: "li_starts ?I = [0, 2]" "li_content ?I = [0x61, 0x0A, 0x62]" by code_simp+
  have "line_text ?I 0 = [0x61]" "line_text ?I 1 = [0x62]" "line_count ?I = 2"
    by (simp_all add: line_text_def line_end_def line_start_def starts slice_def Let_def line_count_def)
  moreover have "all_bytes 0x62 [0x61] = []" "all_bytes 0x62 [0x62] = [0]" by (simp_all add: all_bytes_def)
  ultimately have "visit_lines ?I ?M ?opts [0..<line_count ?I] [] = Inr [\<lparr>hit_idx = 1, hit_spans = [(0, 1)]\<rparr>]"
    by (simp add: visit_line_def find_spans_def byte_engine_def count_reached_def numeral_2_eq_2)
  then show ?thesis
    using prescan_changes_no_answer [where content = "[0x61, 0x0A, 0x62]" and opts = ?opts and dotall = False,
        OF all_bytes_finds_all refl byte_engine_leftmost [where b = "0x62"]] byte_engine_local
    by simp
qed

section \<open>Replacement and the prefilter\<close>

text \<open>Matches in order, none inside another, between two positions.\<close>

fun in_order :: "nat \<Rightarrow> nat \<Rightarrow> expansion list \<Rightarrow> bool" where
  "in_order stop pos [] \<longleftrightarrow> pos \<le> stop"
| "in_order stop pos (((s, e), x) # reps) \<longleftrightarrow> pos \<le> s \<and> s \<le> e \<and> in_order stop e reps"

lemma in_order_le: "in_order stop pos reps \<Longrightarrow> pos \<le> stop"
  by (induction stop pos reps rule: in_order.induct) auto

lemma in_order_nth:
  "in_order stop pos reps \<Longrightarrow> i < length reps \<Longrightarrow>
    pos \<le> fst (fst (reps ! i)) \<and> fst (fst (reps ! i)) \<le> snd (fst (reps ! i)) \<and> snd (fst (reps ! i)) \<le> stop"
proof (induction stop pos reps arbitrary: i rule: in_order.induct)
  case (2 stop pos s e x reps)
  then show ?case using in_order_le [of stop e reps] by (cases i) fastforce+
qed simp

text \<open>A text with its matches replaced, and where the replacements stand in it.\<close>

fun rewrite :: "byte list \<Rightarrow> nat \<Rightarrow> expansion list \<Rightarrow> nat \<Rightarrow> byte list" where
  "rewrite content stop [] pos = slice content pos stop"
| "rewrite content stop (((s, e), x) # reps) pos = slice content pos s @ x @ rewrite content stop reps e"

fun places :: "nat \<Rightarrow> expansion list \<Rightarrow> nat \<Rightarrow> span list" where
  "places at_pos [] pos = []"
| "places at_pos (((s, e), x) # reps) pos =
     (at_pos + (s - pos), at_pos + (s - pos) + length x) # places (at_pos + (s - pos) + length x) reps e"

lemma length_places [simp]: "length (places at_pos reps pos) = length reps"
  by (induction at_pos reps pos rule: places.induct) auto

lemma replace_loop_rewrites:
  "in_order (length hay) pos reps \<Longrightarrow>
   replace_loop hay reps pos out spans = (out @ rewrite hay (length hay) reps pos, spans @ places (length out) reps pos)"
proof (induction hay reps pos out spans rule: replace_loop.induct)
  case (1 hay pos out spans)
  then show ?case by (simp add: slice_def)
next
  case (2 hay start stop expanded reps pos out spans)
  then have "length (slice hay pos start) = start - pos" using in_order_le [of "length hay" stop reps] by (simp add: length_slice)
  then show ?case using 2 by (simp add: Let_def add.assoc)
qed

text \<open>How far the text behind the first \<open>i\<close> replacements has moved.\<close>

definition moved :: "expansion list \<Rightarrow> nat \<Rightarrow> int" where
  "moved reps i = (\<Sum>rep\<leftarrow>take i reps. int (length (snd rep)) - (int (snd (fst rep)) - int (fst (fst rep))))"

lemma moved_0 [simp]: "moved reps 0 = 0"
  by (simp add: moved_def)

lemma moved_Suc [simp]: "moved (((s, e), x) # reps) (Suc i) = int (length x) - (int e - int s) + moved reps i"
  by (simp add: moved_def)

lemma slice_inside: "slice (xs @ ys @ zs) (length xs) (length xs + length ys) = ys"
  by (simp add: slice_def)

lemma rewrite_places:
  assumes "in_order stop pos reps" "stop \<le> length content" "i < length reps"
  shows "slice (pre @ rewrite content stop reps pos) (fst (places (length pre) reps pos ! i)) (snd (places (length pre) reps pos ! i)) = snd (reps ! i) \<and>
    snd (places (length pre) reps pos ! i) = fst (places (length pre) reps pos ! i) + length (snd (reps ! i)) \<and>
    int (fst (places (length pre) reps pos ! i)) = int (length pre) + int (fst (fst (reps ! i))) - int pos + moved reps i"
  using assms
proof (induction stop pos reps arbitrary: i pre rule: in_order.induct)
  case (2 stop pos s e x reps)
  have "s \<le> length content" using "2.prems" in_order_le [of stop e reps] by simp
  then have len: "length (slice content pos s) = s - pos" by (simp add: length_slice)
  show ?case
  proof (cases i)
    case 0
    then show ?thesis using "2.prems" len slice_inside [of "pre @ slice content pos s" x "rewrite content stop reps e"] by (simp add: add.assoc)
  next
    case (Suc j)
    then show ?thesis using "2.prems" "2.IH" [of j "pre @ slice content pos s @ x"] len by (auto simp: add.assoc)
  qed
qed simp

text \<open>A byte that is in no match is copied.\<close>

lemma rewrite_copies:
  assumes "in_order stop pos reps" "stop \<le> length content" "pos \<le> k" "k < stop" "i \<le> length reps"
    and "\<And>j. j < i \<Longrightarrow> snd (fst (reps ! j)) \<le> k" "i < length reps \<Longrightarrow> k < fst (fst (reps ! i))"
  shows "0 \<le> int k - int pos + moved reps i \<and>
    nat (int k - int pos + moved reps i) < length (rewrite content stop reps pos) \<and>
    rewrite content stop reps pos ! nat (int k - int pos + moved reps i) = content ! k"
  using assms
proof (induction stop pos reps arbitrary: i rule: in_order.induct)
  case (1 stop pos)
  then show ?case by (simp add: length_slice nth_slice nat_diff_distrib')
next
  case (2 stop pos s e x reps)
  have "s \<le> length content" using 2 in_order_le [of stop e reps] by simp
  then have len: "length (slice content pos s) = s - pos" by (simp add: length_slice)
  show ?case
  proof (cases i)
    case 0
    then have "k < s" "k - pos < s - pos" using 2 by auto
    moreover have "nat (int k - int pos) = k - pos" using 2 by simp
    ultimately show ?thesis using 0 2 len \<open>s \<le> length content\<close> by (simp add: nth_append nth_slice)
  next
    case (Suc j)
    have "e \<le> k" using "2.prems"(6) [of 0] Suc by simp
    have "0 \<le> int k - int e + moved reps j \<and> nat (int k - int e + moved reps j) < length (rewrite content stop reps e) \<and>
        rewrite content stop reps e ! nat (int k - int e + moved reps j) = content ! k"
    proof (rule "2.IH")
      show "snd (fst (reps ! j')) \<le> k" if "j' < j" for j' using "2.prems"(6) [of "Suc j'"] that Suc by simp
      show "k < fst (fst (reps ! j))" if "j < length reps" using "2.prems"(7) that Suc by simp
    qed (use 2 Suc \<open>e \<le> k\<close> in simp_all)
    then obtain N where N: "int k - int e + moved reps j = int N" "N < length (rewrite content stop reps e)"
      "rewrite content stop reps e ! N = content ! k"
      by (metis nat_0_le)
    have "int k - int pos + moved (((s, e), x) # reps) i = int ((s - pos) + (length x + N))"
      using 2 Suc N(1) by simp
    then show ?thesis using N(2,3) len by (simp add: nth_append del: of_nat_add)
  qed
qed

text \<open>A replacement rewrites exactly the matches: the recorded ranges hold the expansions, each starts where its
  match did but for what the replacements before it added or took away, and every byte outside a
  match is copied.\<close>

theorem replacement_is_exact:
  assumes "expansions matcher hay replacement = Inr reps" "in_order (length hay) 0 reps"
  shows "\<exists>out spans. replace_all matcher hay replacement = Inr (out, spans) \<and> length spans = length reps \<and>
    (\<forall>i < length reps. slice out (fst (spans ! i)) (snd (spans ! i)) = snd (reps ! i) \<and>
       int (fst (spans ! i)) = int (fst (fst (reps ! i))) + moved reps i) \<and>
    (\<forall>k < length hay. \<forall>i \<le> length reps.
       (\<forall>j < i. snd (fst (reps ! j)) \<le> k) \<longrightarrow> (i < length reps \<longrightarrow> k < fst (fst (reps ! i))) \<longrightarrow>
       out ! nat (int k + moved reps i) = hay ! k)"
proof (intro exI conjI)
  show "replace_all matcher hay replacement = Inr (rewrite hay (length hay) reps 0, places 0 reps 0)"
    using replace_loop_rewrites [OF assms(2), of "[]" "[]"] by (simp add: replace_all_def assms(1))
  show "length (places 0 reps 0) = length reps" by simp
  show "\<forall>i < length reps. slice (rewrite hay (length hay) reps 0) (fst (places 0 reps 0 ! i)) (snd (places 0 reps 0 ! i)) = snd (reps ! i) \<and>
      int (fst (places 0 reps 0 ! i)) = int (fst (fst (reps ! i))) + moved reps i"
  proof (intro allI impI)
    fix i
    assume "i < length reps"
    from rewrite_places [OF assms(2) order_refl this, of "[]"]
    show "slice (rewrite hay (length hay) reps 0) (fst (places 0 reps 0 ! i)) (snd (places 0 reps 0 ! i)) = snd (reps ! i) \<and>
        int (fst (places 0 reps 0 ! i)) = int (fst (fst (reps ! i))) + moved reps i" by auto
  qed
  show "\<forall>k < length hay. \<forall>i \<le> length reps.
       (\<forall>j < i. snd (fst (reps ! j)) \<le> k) \<longrightarrow> (i < length reps \<longrightarrow> k < fst (fst (reps ! i))) \<longrightarrow>
       rewrite hay (length hay) reps 0 ! nat (int k + moved reps i) = hay ! k"
    using rewrite_copies [OF assms(2) order_refl le0] by simp
qed

theorem replacement_is_exact_witness:
  "\<exists>out spans. replace_all (Standard (byte_engine 0x62) False) [0x61, 0x62, 0x63] [0x78, 0x79] = Inr (out, spans) \<and>
     slice out (fst (spans ! 0)) (snd (spans ! 0)) = [0x78, 0x79] \<and> out ! 3 = 0x63"
proof -
  let ?M = "Standard (byte_engine 0x62) False" and ?reps = "[((1, 2), [0x78, 0x79])] :: expansion list"
  have "all_bytes 0x62 [0x61, 0x62, 0x63] = [1]" by code_simp
  then have "expansions ?M [0x61, 0x62, 0x63] [0x78, 0x79] = Inr ?reps"
    by (simp add: expansions_def expansions_upto_def byte_engine_def)
  moreover have "in_order (length [0x61, 0x62, 0x63 :: byte]) 0 ?reps" by simp
  ultimately obtain out spans where r: "replace_all ?M [0x61, 0x62, 0x63] [0x78, 0x79] = Inr (out, spans)"
    "\<forall>i < length ?reps. slice out (fst (spans ! i)) (snd (spans ! i)) = snd (?reps ! i)"
    "\<forall>k < length [0x61, 0x62, 0x63 :: byte]. \<forall>i \<le> length ?reps.
       (\<forall>j < i. snd (fst (?reps ! j)) \<le> k) \<longrightarrow> (i < length ?reps \<longrightarrow> k < fst (fst (?reps ! i))) \<longrightarrow>
       out ! nat (int k + moved ?reps i) = [0x61, 0x62, 0x63] ! k"
    using replacement_is_exact [of ?M "[0x61, 0x62, 0x63]" "[0x78, 0x79]" ?reps] by blast
  have "out ! 3 = 0x63" using r(3) [rule_format, of 2 1] by (simp add: moved_def)
  then show ?thesis using r(1,2) by auto
qed

text \<open>A prefilter rejects only texts in which the backtracking engine yields no match.\<close>

definition relaxes :: "std_regex \<Rightarrow> fancy_regex \<Rightarrow> bool" where
  "relaxes pre re \<longleftrightarrow> (\<forall>hay. \<not> re_is_match pre hay \<longrightarrow>
     fancy_is_match re hay \<noteq> Inr True \<and> (\<forall>m. fancy_find re hay \<noteq> Inr (Some m)) \<and>
     (\<forall>m. Inr m \<notin> set (fancy_find_iter re hay)))"

lemma push_all_errors: "push_all ms out = Inr xs \<Longrightarrow> \<forall>m. Inr m \<notin> set ms \<Longrightarrow> xs = out"
  by (cases ms) (auto simp: match_error_def split: sum.splits)

lemma match_error_Inr [simp]: "match_error r = Inr x \<longleftrightarrow> r = Inr x"
  by (auto simp: match_error_def split: sum.split)

lemma prefilter_answers:
  assumes "relaxes pre re"
  shows "matcher_is_match (Fancy re None) hay = Inr b \<Longrightarrow> matcher_is_match (Fancy re (Some pre)) hay = Inr b"
    "find_spans (Fancy re None) hay = Inr spans \<Longrightarrow> find_spans (Fancy re (Some pre)) hay = Inr spans"
    "find_first_span (Fancy re None) hay = Inr m \<Longrightarrow> find_first_span (Fancy re (Some pre)) hay = Inr m"
  using assms push_all_errors [of "fancy_find_iter re hay" "[]" spans]
  by (cases "re_is_match pre hay"; cases b; cases m; force simp: matcher_is_match_def find_spans_def find_first_span_def ruled_out_def relaxes_def)+

lemma prefilter_visit:
  assumes "relaxes pre re" "visit_line index (Fancy re None) opts i out = Inr r"
  shows "visit_line index (Fancy re (Some pre)) opts i out = Inr r"
proof (cases "all_spans opts")
  case True
  then obtain spans where "find_spans (Fancy re None) (line_text index i) = Inr spans"
    using assms(2) by (cases "find_spans (Fancy re None) (line_text index i)") (auto simp: visit_line_def)
  then show ?thesis using assms prefilter_answers(2) [OF assms(1)] True by (simp add: visit_line_def)
next
  case False
  then obtain m where "find_first_span (Fancy re None) (line_text index i) = Inr m"
    using assms(2) by (cases "find_first_span (Fancy re None) (line_text index i)") (auto simp: visit_line_def)
  then show ?thesis using assms prefilter_answers(3) [OF assms(1)] False by (simp add: visit_line_def)
qed

lemma prefilter_visits:
  "relaxes pre re \<Longrightarrow> visit_lines index (Fancy re None) opts is out = Inr hits \<Longrightarrow>
   visit_lines index (Fancy re (Some pre)) opts is out = Inr hits"
proof (induction "is" arbitrary: out)
  case (Cons i "is")
  obtain more out' where v: "visit_line index (Fancy re None) opts i out = Inr (more, out')"
    using Cons.prems(2) by (cases "visit_line index (Fancy re None) opts i out") auto
  then show ?case using Cons prefilter_visit [OF Cons.prems(1) v] by (cases more) auto
qed simp

lemma prefilter_inverts:
  "relaxes pre re \<Longrightarrow> invert_lines index (Fancy re None) opts is out = Inr hits \<Longrightarrow>
   invert_lines index (Fancy re (Some pre)) opts is out = Inr hits"
proof (induction "is" arbitrary: out)
  case (Cons i "is")
  obtain b where b: "matcher_is_match (Fancy re None) (line_text index i) = Inr b"
    using Cons.prems(2) by (cases "matcher_is_match (Fancy re None) (line_text index i)") auto
  then show ?case using Cons prefilter_answers(1) [OF Cons.prems(1) b]
    by (auto simp: Let_def split: if_splits)
qed simp

text \<open>A prefilter changes no answer of the backtracking engine: whatever a search finds without it, selected or
  inverted, it finds with it.\<close>

theorem prefilter_changes_no_answer:
  assumes "relaxes pre re" "collect_hits content index (Fancy re None) opts = Inr hits"
  shows "collect_hits content index (Fancy re (Some pre)) opts = Inr hits"
  using assms prefilter_visits prefilter_inverts
  by (auto simp: collect_hits_def candidate_lines_def split: if_splits)

theorem prefilter_changes_no_answer_witness:
  "collect_hits [0x61] (line_index_new all_bytes [0x61])
     (Fancy \<lparr>fancy_is_match = \<lambda>hay. Inr (0x61 \<in> set hay), fancy_find = \<lambda>hay. Inr (re_find (byte_engine 0x61) hay),
        fancy_find_iter = \<lambda>hay. map Inr (re_find_iter (byte_engine 0x61) hay), fancy_captures_iter = \<lambda>hay. []\<rparr>
        (Some (byte_engine 0x61)))
     \<lparr>invert_match = True, multiline = False, only_matching = False, before_context = 0, after_context = 0,
      max_count = None, passthru = False, replace = None, stop_on_nonmatch = False, vimgrep = False,
      all_spans = True, replace_blocks = False, report_replacements = False\<rparr> = Inr []"
proof -
  let ?re = "\<lparr>fancy_is_match = \<lambda>hay. Inr (0x61 \<in> set hay), fancy_find = \<lambda>hay. Inr (re_find (byte_engine 0x61) hay),
        fancy_find_iter = \<lambda>hay. map Inr (re_find_iter (byte_engine 0x61) hay), fancy_captures_iter = \<lambda>hay. []\<rparr> :: fancy_regex"
  have "0x61 \<notin> set hay \<Longrightarrow> all_bytes 0x61 hay = []" for hay using nth_mem by (fastforce simp: all_bytes_def filter_empty_conv)
  then have relaxed: "relaxes (byte_engine 0x61) ?re" by (auto simp: relaxes_def byte_engine_def)
  have starts: "li_starts (line_index_new all_bytes [0x61]) = [0]" by code_simp
  have one: "line_count (line_index_new all_bytes [0x61]) = 1" "line_text (line_index_new all_bytes [0x61]) 0 = [0x61]"
    by (simp_all add: line_count_def line_text_def line_end_def line_start_def starts slice_def Let_def)
      (simp_all add: line_index_new_def)
  have "collect_hits [0x61] (line_index_new all_bytes [0x61]) (Fancy ?re None)
     \<lparr>invert_match = True, multiline = False, only_matching = False, before_context = 0, after_context = 0,
      max_count = None, passthru = False, replace = None, stop_on_nonmatch = False, vimgrep = False,
      all_spans = True, replace_blocks = False, report_replacements = False\<rparr> = Inr []"
    by (simp add: collect_hits_def one matcher_is_match_def ruled_out_def match_error_def count_reached_def)
  from prefilter_changes_no_answer [OF relaxed this] show ?thesis .
qed

end
