(* ===== verification/Replace_Block.thy ===== *)
theory Replace_Block
  imports Matcher
begin

text \<open>
  Blocks of lines that a multiline replacement rewrites as a unit
  (\<^verbatim>\<open>tgrep-cli/src/matching.rs\<close>, \<^verbatim>\<open>ReplaceBlock\<close> and \<^verbatim>\<open>SourceCursor\<close>): how
  matches are grouped into blocks, the rewritten text with the places of its replacements, its lines,
  and the way back from a position of the rewritten text to the file.
\<close>

section \<open>Blocks\<close>

record placed =
  p_src :: span
  p_dst :: span

definition delta :: "placed \<Rightarrow> int" where
  "delta self = (int (snd (p_dst self)) - int (fst (p_dst self))) - (int (snd (p_src self)) - int (fst (p_src self)))"

record replace_block =
  rb_first :: nat
  rb_last :: nat
  rb_start :: nat
  rb_text :: "byte list"
  rb_reps :: "placed list"

type_synonym groups = "(nat \<times> nat \<times> expansion list) list"

definition add_to_groups :: "line_index \<Rightarrow> groups \<Rightarrow> expansion \<Rightarrow> groups" where
  "add_to_groups index groups rep =
     (let first = line_of index (fst (fst rep));
          final = last_line_of index (fst rep)
      in if groups \<noteq> [] \<and> first \<le> fst (snd (last groups)) + 1 then
           case last groups of (start, stop, members) \<Rightarrow> butlast groups @ [(start, max stop final, members @ [rep])]
         else groups @ [(first, final, [rep])])"

fun place_loop :: "byte list \<Rightarrow> expansion list \<Rightarrow> nat \<Rightarrow> byte list \<Rightarrow> placed list \<Rightarrow> byte list \<times> placed list \<times> nat" where
  "place_loop content [] pos out reps = (out, reps, pos)"
| "place_loop content (((s, e), rep) # members) pos out reps =
     (let out = out @ slice content pos s;
          at_pos = length out;
          out = out @ rep
      in place_loop content members e out (reps @ [\<lparr>p_src = (s, e), p_dst = (at_pos, length out)\<rparr>]))"

definition build_block :: "line_index \<Rightarrow> byte list \<Rightarrow> nat \<times> nat \<times> expansion list \<Rightarrow> replace_block" where
  "build_block index content = (\<lambda>(first, final, members).
     let start = line_start index first;
         stop = line_start index (final + 1)
     in case place_loop content members start [] [] of
          (out, reps, pos) \<Rightarrow>
            \<lparr>rb_first = first, rb_last = final, rb_start = start, rb_text = out @ slice content pos stop, rb_reps = reps\<rparr>)"

definition build_blocks :: "line_index \<Rightarrow> byte list \<Rightarrow> expansion list \<Rightarrow> replace_block list" where
  "build_blocks index content reps = map (build_block index content) (foldl (add_to_groups index) [] reps)"

section \<open>Lines of the rewritten text\<close>

function lines_from :: "memchr \<Rightarrow> byte list \<Rightarrow> nat \<Rightarrow> (nat \<times> nat \<times> nat) list" where
  "lines_from memchr bytes pos =
     (if pos < length bytes then
        let stop = (case memchr 0x0A (drop pos bytes) of Some i \<Rightarrow> pos + i + 1 | None \<Rightarrow> length bytes);
            content_end = (if stop > pos \<and> bytes ! (stop - 1) = 0x0A then stop - 1 else stop);
            content_end = (if content_end > pos \<and> bytes ! (content_end - 1) = 0x0D then content_end - 1 else content_end)
        in (pos, content_end, stop) # lines_from memchr bytes stop
      else [])"
  by pat_completeness auto
termination
  by (relation "measure (\<lambda>(memchr, bytes, pos). length bytes - pos)") (auto split: option.splits)

declare lines_from.simps [simp del]

definition block_lines :: "memchr \<Rightarrow> replace_block \<Rightarrow> (nat \<times> nat \<times> nat) list" where
  "block_lines memchr self = lines_from memchr (rb_text self) 0"

section \<open>From the rewritten text back to the file\<close>

type_synonym cursor = "nat \<times> int"

text \<open>The loop over the replacements from the cursor's position on.\<close>

fun cursor_loop :: "placed list \<Rightarrow> nat \<Rightarrow> nat \<Rightarrow> int \<Rightarrow> nat option \<times> cursor" where
  "cursor_loop [] pos nxt shift = (None, nxt, shift)"
| "cursor_loop (rep # reps) pos nxt shift =
     (if fst (p_dst rep) \<le> pos \<and> pos < snd (p_dst rep) then (Some (fst (p_src rep)), nxt, shift)
      else if snd (p_dst rep) > pos then (None, nxt, shift)
      else cursor_loop reps pos (nxt + 1) (shift + delta rep))"

definition source_cursor_at :: "replace_block \<Rightarrow> cursor \<Rightarrow> nat \<Rightarrow> nat \<times> cursor" where
  "source_cursor_at block = (\<lambda>(nxt, shift) pos.
     case cursor_loop (drop nxt (rb_reps block)) pos nxt shift of
       (Some src, cursor) \<Rightarrow> (src, cursor)
     | (None, nxt, shift) \<Rightarrow> (nat (int (rb_start block + pos) - shift), nxt, shift))"

section \<open>A block is the rewritten text of its lines\<close>

definition placed_at :: "expansion list \<Rightarrow> span list \<Rightarrow> placed list" where
  "placed_at members dsts = map (\<lambda>(rep, dst). \<lparr>p_src = fst rep, p_dst = dst\<rparr>) (zip members dsts)"

lemma place_loop_rewrites:
  "in_order stop pos members \<Longrightarrow> stop \<le> length content \<Longrightarrow>
   \<exists>final q. place_loop content members pos out reps = (final, reps @ placed_at members (places (length out) members pos), q) \<and>
     final @ slice content q stop = out @ rewrite content stop members pos"
proof (induction members arbitrary: pos out reps)
  case Nil
  then show ?case by (simp add: placed_at_def)
next
  case (Cons m members)
  obtain s e x where m: "m = ((s, e), x)" by (metis prod.collapse)
  have o: "in_order stop e members" "s \<le> e" using Cons.prems by (simp_all add: m)
  then have len: "length (slice content pos s) = s - pos"
    using in_order_le [OF o(1)] Cons.prems(2) by (simp add: length_slice)
  let ?out = "out @ slice content pos s @ x"
  let ?rep = "\<lparr>p_src = (s, e), p_dst = (length out + (s - pos), length ?out)\<rparr>"
  obtain final q where "place_loop content members e ?out (reps @ [?rep]) =
      (final, (reps @ [?rep]) @ placed_at members (places (length ?out) members e), q)"
    "final @ slice content q stop = ?out @ rewrite content stop members e"
    using Cons.IH [OF o(1) Cons.prems(2)] by blast
  then show ?case by (intro exI [of _ final] exI [of _ q]) (simp add: m Let_def len add.assoc placed_at_def)
qed

lemma built_block:
  assumes "in_order (line_start index (final + 1)) (line_start index first) members" "line_start index (final + 1) \<le> length content"
  shows "build_block index content (first, final, members) =
    \<lparr>rb_first = first, rb_last = final, rb_start = line_start index first,
     rb_text = rewrite content (line_start index (final + 1)) members (line_start index first),
     rb_reps = placed_at members (places 0 members (line_start index first))\<rparr>"
proof -
  obtain out q where "place_loop content members (line_start index first) [] [] =
      (out, placed_at members (places 0 members (line_start index first)), q)"
    "out @ slice content q (line_start index (final + 1)) = rewrite content (line_start index (final + 1)) members (line_start index first)"
    using place_loop_rewrites [OF assms, of "[]" "[]"] by auto
  then show ?thesis by (simp add: build_block_def Let_def)
qed

lemma in_order_mono: "in_order a pos reps \<Longrightarrow> a \<le> b \<Longrightarrow> in_order b pos reps"
  by (induction a pos reps rule: in_order.induct) auto

lemma in_order_snoc: "in_order stop pos (reps @ [((s, e), x)]) \<longleftrightarrow> in_order s pos reps \<and> s \<le> e \<and> e \<le> stop"
  by (induction stop pos reps rule: in_order.induct) auto

lemma in_order_from: "in_order stop a reps \<Longrightarrow> pos \<le> a \<Longrightarrow> in_order stop pos reps"
  by (cases "(stop, a, reps)" rule: in_order.cases) auto

lemma in_order_append:
  "in_order b pos reps \<Longrightarrow> in_order stop b reps' \<Longrightarrow> in_order stop pos (reps @ reps')"
  by (induction b pos reps rule: in_order.induct) (auto intro: in_order_from)

lemma in_order_ends:
  "in_order stop pos reps \<Longrightarrow> i \<le> j \<Longrightarrow> j < length reps \<Longrightarrow> snd (fst (reps ! i)) \<le> snd (fst (reps ! j))"
proof (induction stop pos reps arbitrary: i j rule: in_order.induct)
  case (2 stop pos s e x reps)
  show ?case
  proof (cases i)
    case 0
    then show ?thesis using 2 in_order_nth [of stop e reps "j - 1"] by (cases j) auto
  next
    case (Suc i')
    then show ?thesis using 2 by (cases j) auto
  qed
qed simp

text \<open>A rewritten text in two parts.\<close>

lemma rewrite_front:
  assumes "pos \<le> a" "in_order stop a reps"
  shows "slice content pos a @ rewrite content stop reps a = rewrite content stop reps pos"
proof (cases reps)
  case Nil
  then show ?thesis using assms slice_append [of pos a stop content] by simp
next
  case (Cons rep reps')
  obtain s e x where rep: "rep = ((s, e), x)" by (metis prod.collapse)
  have "slice content pos a @ slice content a s = slice content pos s"
    using assms by (intro slice_append) (simp_all add: Cons rep)
  then show ?thesis unfolding Cons rep by (simp only: rewrite.simps append_assoc [symmetric])
qed

lemma rewrite_append:
  "in_order b a reps \<Longrightarrow> in_order stop b reps' \<Longrightarrow>
   rewrite content b reps a @ rewrite content stop reps' b = rewrite content stop (reps @ reps') a"
  by (induction b a reps rule: in_order.induct) (simp_all add: rewrite_front)

section \<open>Groups of matches\<close>

abbreviation members_end :: "expansion list \<Rightarrow> nat" where
  "members_end ms \<equiv> snd (fst (last ms))"

definition group_ok :: "line_index \<Rightarrow> nat \<times> nat \<times> expansion list \<Rightarrow> bool" where
  "group_ok I = (\<lambda>(first, final, ms). ms \<noteq> [] \<and> first \<le> final \<and> final < line_count I \<and>
     in_order (members_end ms) (line_start I first) ms \<and> members_end ms \<le> line_start I (final + 1))"

definition groups_ok :: "line_index \<Rightarrow> groups \<Rightarrow> bool" where
  "groups_ok I G \<longleftrightarrow> (\<forall>g\<in>set G. group_ok I g) \<and> sorted_wrt (\<lambda>g h. fst (snd g) + 1 < fst h) G"

lemma match_lines:
  assumes "lines_wf I" "li_content I \<noteq> []" "s \<le> e" "e \<le> length (li_content I)"
  shows "line_of I s \<le> last_line_of I (s, e)" "last_line_of I (s, e) < line_count I"
    "line_start I (line_of I s) \<le> s" "e \<le> line_start I (last_line_of I (s, e) + 1)"
proof -
  note l = line_of_spec [OF assms(1,2)]
  have stop: "p < line_start I (line_of I p + 1)" if "p < length (li_content I)" for p
    using l [of p] line_start_count [OF assms(1), of "line_of I p + 1"] that by (cases "line_of I p + 1 < line_count I") auto
  show "line_of I s \<le> last_line_of I (s, e)" using line_of_mono [OF assms(1), of s "e - 1"] by (auto simp: last_line_of_def)
  show "last_line_of I (s, e) < line_count I" using l by (simp add: last_line_of_def)
  show "line_start I (line_of I s) \<le> s" using l by blast
  show "e \<le> line_start I (last_line_of I (s, e) + 1)"
  proof (cases "s < e")
    case True
    moreover have "e - 1 < length (li_content I)" using True assms(4) by simp
    ultimately show ?thesis using stop [of "e - 1"] by (simp add: last_line_of_def)
  next
    case False
    then have "e = s" using assms(3) by simp
    show ?thesis
    proof (cases "s < length (li_content I)")
      case True
      then show ?thesis using stop [of s] \<open>e = s\<close> by (simp add: last_line_of_def)
    next
      case False
      then have "\<not> line_of I s + 1 < line_count I" using l [of s] line_start_less(3) [OF assms(1), of "line_of I s"] by auto
      then have "line_start I (line_of I s + 1) = length (li_content I)" by (intro line_start_count [OF assms(1)]) simp
      then show ?thesis using \<open>e = s\<close> assms(4) by (simp add: last_line_of_def)
    qed
  qed
qed

lemma add_to_groups_ok:
  assumes wf: "lines_wf I" "li_content I \<noteq> []" and G: "groups_ok I G"
    and rep: "s \<le> e" "e \<le> length (li_content I)" "G \<noteq> [] \<Longrightarrow> members_end (snd (snd (last G))) \<le> s"
    and lower: "G \<noteq> [] \<Longrightarrow> fst (last G) \<le> line_of I s"
  shows "groups_ok I (add_to_groups I G ((s, e), x)) \<and>
    concat (map (\<lambda>g. snd (snd g)) (add_to_groups I G ((s, e), x))) = concat (map (\<lambda>g. snd (snd g)) G) @ [((s, e), x)] \<and>
    add_to_groups I G ((s, e), x) \<noteq> [] \<and>
    members_end (snd (snd (last (add_to_groups I G ((s, e), x))))) = e \<and>
    fst (last (add_to_groups I G ((s, e), x))) \<le> line_of I s"
proof -
  note m = match_lines [OF wf rep(1,2)]
  show ?thesis
  proof (cases "G \<noteq> [] \<and> line_of I s \<le> fst (snd (last G)) + 1")
    case True
    then obtain G' start stop ms where g: "G = G' @ [(start, stop, ms)]" by (cases G rule: rev_cases) auto
    have joined: "add_to_groups I G ((s, e), x) = G' @ [(start, max stop (last_line_of I (s, e)), ms @ [((s, e), x)])]"
      using True by (simp add: add_to_groups_def Let_def g)
    have ok: "group_ok I (start, stop, ms)" using G by (simp add: g groups_ok_def)
    have "line_start I (last_line_of I (s, e) + 1) \<le> line_start I (max stop (last_line_of I (s, e)) + 1)"
      by (rule line_start_mono [OF wf(1)]) simp
    moreover have "in_order s (line_start I start) ms" using ok rep(3) by (auto simp: g group_ok_def intro: in_order_mono)
    ultimately have "group_ok I (start, max stop (last_line_of I (s, e)), ms @ [((s, e), x)])"
      using ok m rep(1) by (auto simp: group_ok_def in_order_snoc)
    then show ?thesis using G lower unfolding joined by (auto simp: g groups_ok_def sorted_wrt_append)
  next
    case False
    have added: "add_to_groups I G ((s, e), x) = G @ [(line_of I s, last_line_of I (s, e), [((s, e), x)])]"
      using False by (auto simp: add_to_groups_def Let_def)
    have "group_ok I (line_of I s, last_line_of I (s, e), [((s, e), x)])" using m rep by (simp add: group_ok_def)
    moreover have "fst (snd g) + 1 < line_of I s" if mem: "g \<in> set G" for g
    proof -
      obtain G' l where l: "G = G' @ [l]" using mem by (cases G rule: rev_cases) auto
      have "g = l \<or> fst (snd g) + 1 < fst l" using G mem by (auto simp: l groups_ok_def sorted_wrt_append)
      moreover have "fst l \<le> fst (snd l)" using G by (auto simp: l groups_ok_def group_ok_def case_prod_unfold)
      ultimately show ?thesis using False by (auto simp: l)
    qed
    ultimately show ?thesis using G unfolding added by (auto simp: groups_ok_def sorted_wrt_append)
  qed
qed

lemma groups_of_matches:
  assumes wf: "lines_wf I" "li_content I \<noteq> []"
  shows "in_order (length (li_content I)) 0 reps \<Longrightarrow>
    groups_ok I (foldl (add_to_groups I) [] reps) \<and>
    concat (map (\<lambda>g. snd (snd g)) (foldl (add_to_groups I) [] reps)) = reps \<and>
    (foldl (add_to_groups I) [] reps \<noteq> [] \<longleftrightarrow> reps \<noteq> []) \<and>
    (reps \<noteq> [] \<longrightarrow> members_end (snd (snd (last (foldl (add_to_groups I) [] reps)))) = members_end reps \<and>
      fst (last (foldl (add_to_groups I) [] reps)) \<le> line_of I (fst (fst (last reps))))"
proof (induction reps rule: rev_induct)
  case (snoc rep reps)
  obtain s e x where rep: "rep = ((s, e), x)" by (metis prod.collapse)
  let ?G = "foldl (add_to_groups I) [] reps"
  have o: "in_order s 0 reps" "s \<le> e" "e \<le> length (li_content I)" using snoc.prems by (simp_all add: rep in_order_snoc)
  have before: "snd (fst (last reps)) \<le> s \<and> fst (fst (last reps)) \<le> s" if "reps \<noteq> []"
    using in_order_nth [OF o(1), of "length reps - 1"] that by (simp add: last_conv_nth) 
  have ih: "groups_ok I ?G" "concat (map (\<lambda>g. snd (snd g)) ?G) = reps" "?G \<noteq> [] \<longleftrightarrow> reps \<noteq> []"
    "reps \<noteq> [] \<Longrightarrow> members_end (snd (snd (last ?G))) = members_end reps"
    "reps \<noteq> [] \<Longrightarrow> fst (last ?G) \<le> line_of I (fst (fst (last reps)))"
    using snoc.IH in_order_mono [OF o(1), of "length (li_content I)"] o(2,3) by simp_all
  have "fst (last ?G) \<le> line_of I s" if "?G \<noteq> []"
    using ih(3,5) before that line_of_mono [OF wf(1), of "fst (fst (last reps))" s] by fastforce
  moreover have "members_end (snd (snd (last ?G))) \<le> s" if "?G \<noteq> []" using ih(3,4) before that by simp
  ultimately show ?case using add_to_groups_ok [OF wf ih(1) o(2,3), of x] ih(2) by (simp add: rep)
qed (simp add: groups_ok_def)

section \<open>The file with its blocks rewritten\<close>

fun spliced :: "line_index \<Rightarrow> byte list \<Rightarrow> nat \<Rightarrow> replace_block list \<Rightarrow> byte list" where
  "spliced index content pos [] = slice content pos (length content)"
| "spliced index content pos (b # bs) =
     slice content pos (rb_start b) @ rb_text b @ spliced index content (line_start index (rb_last b + 1)) bs"

lemma build_group:
  assumes "lines_wf I" "group_ok I (first, final, ms)"
  shows "build_block I (li_content I) (first, final, ms) =
    \<lparr>rb_first = first, rb_last = final, rb_start = line_start I first,
     rb_text = rewrite (li_content I) (line_start I (final + 1)) ms (line_start I first),
     rb_reps = placed_at ms (places 0 ms (line_start I first))\<rparr>"
    "in_order (line_start I (final + 1)) (line_start I first) ms" "line_start I (final + 1) \<le> length (li_content I)"
proof -
  show o: "in_order (line_start I (final + 1)) (line_start I first) ms"
    using assms(2) by (auto simp: group_ok_def intro: in_order_mono)
  show l: "line_start I (final + 1) \<le> length (li_content I)"
    using assms(2) by (intro line_start_less(3) [OF assms(1)]) (simp add: group_ok_def)
  show "build_block I (li_content I) (first, final, ms) =
    \<lparr>rb_first = first, rb_last = final, rb_start = line_start I first,
     rb_text = rewrite (li_content I) (line_start I (final + 1)) ms (line_start I first),
     rb_reps = placed_at ms (places 0 ms (line_start I first))\<rparr>"
    by (rule built_block [OF o l])
qed

lemma splice_groups:
  assumes "lines_wf I"
  shows "groups_ok I G \<Longrightarrow> pos \<le> length (li_content I) \<Longrightarrow> (G \<noteq> [] \<Longrightarrow> pos \<le> line_start I (fst (hd G))) \<Longrightarrow>
    in_order (length (li_content I)) pos (concat (map (\<lambda>g. snd (snd g)) G)) \<and>
    spliced I (li_content I) pos (map (build_block I (li_content I)) G) =
      rewrite (li_content I) (length (li_content I)) (concat (map (\<lambda>g. snd (snd g)) G)) pos"
proof (induction G arbitrary: pos)
  case (Cons g G)
  obtain first final ms where g: "g = (first, final, ms)" by (cases g)
  have ok: "group_ok I (first, final, ms)" "groups_ok I G" "\<forall>h\<in>set G. final + 1 < fst h"
    using Cons.prems(1) by (auto simp: g groups_ok_def)
  note b = build_group [OF assms ok(1)]
  let ?b = "line_start I (final + 1)" and ?a = "line_start I first"
  let ?rest = "concat (map (\<lambda>g. snd (snd g)) G)"
  have "?b \<le> line_start I (fst (hd G))" if "G \<noteq> []"
    by (rule line_start_mono [OF assms]) (use ok(3) hd_in_set [OF that] in \<open>fastforce\<close>)
  with Cons.IH [OF ok(2) b(3)] have ih: "in_order (length (li_content I)) ?b ?rest"
    "spliced I (li_content I) ?b (map (build_block I (li_content I)) G) = rewrite (li_content I) (length (li_content I)) ?rest ?b"
    by simp_all
  have whole: "in_order (length (li_content I)) ?a (ms @ ?rest)" by (rule in_order_append [OF b(2) ih(1)])
  have pos: "pos \<le> ?a" using Cons.prems(3) by (simp add: g)
  have "slice (li_content I) pos ?a @ rewrite (li_content I) ?b ms ?a @ rewrite (li_content I) (length (li_content I)) ?rest ?b =
      rewrite (li_content I) (length (li_content I)) (ms @ ?rest) pos"
    unfolding rewrite_append [OF b(2) ih(1)] by (rule rewrite_front [OF pos whole])
  moreover have "in_order (length (li_content I)) pos (ms @ ?rest)"
    by (rule in_order_from [OF whole pos])
  ultimately show ?case by (simp add: g b(1) ih(2) [simplified])
qed simp

lemma built_blocks:
  assumes "finds_all memchr_iter" "I = line_index_new memchr_iter content" "content \<noteq> []"
    and "in_order (length content) 0 reps"
  shows "spliced I content 0 (build_blocks I content reps) = rewrite content (length content) reps 0"
    "sorted_wrt (\<lambda>a b. rb_last a + 1 < rb_first b) (build_blocks I content reps)"
    "\<forall>b\<in>set (build_blocks I content reps).
       rb_start b = line_start I (rb_first b) \<and> rb_first b \<le> rb_last b \<and> rb_last b < line_count I"
    "build_blocks I content reps = [] \<longleftrightarrow> reps = []"
proof -
  have wf: "lines_wf I" and content: "li_content I = content" using line_index_new_wf [OF assms(1)] assms(2) by simp_all
  let ?G = "foldl (add_to_groups I) [] reps"
  have G: "groups_ok I ?G" "concat (map (\<lambda>g. snd (snd g)) ?G) = reps" "?G = [] \<longleftrightarrow> reps = []"
    using groups_of_matches [OF wf, of reps] assms(3,4) content by auto
  have built: "rb_first (build_block I content g) = fst g \<and> rb_last (build_block I content g) = fst (snd g) \<and>
      rb_start (build_block I content g) = line_start I (fst g)" if "g \<in> set ?G" for g
    using build_group(1) [OF wf, of "fst g" "fst (snd g)" "snd (snd g)"] G(1) that content by (auto simp: groups_ok_def)
  then have "sorted_wrt (\<lambda>a b. rb_last a + 1 < rb_first b) (map (build_block I content) ?G)"
    using G(1) unfolding sorted_wrt_map groups_ok_def
    by (elim conjE) (rule sorted_wrt_mono_rel [where P = "\<lambda>g h. fst (snd g) + 1 < fst h"], simp_all)
  then show "sorted_wrt (\<lambda>a b. rb_last a + 1 < rb_first b) (build_blocks I content reps)" by (simp add: build_blocks_def)
  show "spliced I content 0 (build_blocks I content reps) = rewrite content (length content) reps 0"
    using splice_groups [OF wf G(1), of 0] G(2) content by (simp add: build_blocks_def)
  show "build_blocks I content reps = [] \<longleftrightarrow> reps = []" using G(3) by (simp add: build_blocks_def)
  show "\<forall>b\<in>set (build_blocks I content reps).
      rb_start b = line_start I (rb_first b) \<and> rb_first b \<le> rb_last b \<and> rb_last b < line_count I"
    using built G(1) by (auto simp: build_blocks_def groups_ok_def group_ok_def case_prod_unfold)
qed

text \<open>Rewriting whole blocks of lines rewrites exactly the matches: the blocks do not touch one another, and the
  file with every block put in the place of its lines is the file with every match replaced.\<close>

theorem blocks_rewrite_the_matches:
  assumes "finds_all memchr_iter" "I = line_index_new memchr_iter content" "content \<noteq> []"
    and "in_order (length content) 0 reps"
  shows "spliced I content 0 (build_blocks I content reps) = rewrite content (length content) reps 0 \<and>
    sorted_wrt (\<lambda>a b. rb_last a + 1 < rb_first b) (build_blocks I content reps)"
  using built_blocks [OF assms] by simp

theorem blocks_rewrite_the_matches_witness:
  "spliced (line_index_new all_bytes [0x61, 0x0A, 0x62]) [0x61, 0x0A, 0x62] 0
     (build_blocks (line_index_new all_bytes [0x61, 0x0A, 0x62]) [0x61, 0x0A, 0x62] [((1, 2), [0x2C])]) = [0x61, 0x2C, 0x62]"
  using blocks_rewrite_the_matches [OF all_bytes_finds_all refl, of "[0x61, 0x0A, 0x62]" "[((1, 2), [0x2C])]"]
  by (simp add: slice_def)

section \<open>The cursor goes back to the file\<close>

fun cursor_run :: "replace_block \<Rightarrow> cursor \<Rightarrow> nat list \<Rightarrow> nat list" where
  "cursor_run block c [] = []"
| "cursor_run block c (p # ps) = (case source_cursor_at block c p of (r, c) \<Rightarrow> r # cursor_run block c ps)"

lemma length_rewrite:
  "in_order stop pos reps \<Longrightarrow> stop \<le> length content \<Longrightarrow>
   int (length (rewrite content stop reps pos)) = int stop - int pos + moved reps (length reps)"
proof (induction stop pos reps rule: in_order.induct)
  case (2 stop pos s e x reps)
  then have "s \<le> length content" using in_order_le [of stop e reps] by simp
  then show ?case using 2 by (simp add: length_slice)
qed (simp add: length_slice)

lemma moved_step: "i < length reps \<Longrightarrow>
  moved reps (Suc i) = moved reps i + int (length (snd (reps ! i))) - (int (snd (fst (reps ! i))) - int (fst (fst (reps ! i))))"
  by (simp add: moved_def take_Suc_conv_app_nth)

text \<open>What the cursor knows: the replacements it has passed end before the position, and their shift.\<close>

definition cursor_ok :: "expansion list \<Rightarrow> span list \<Rightarrow> nat \<Rightarrow> cursor \<Rightarrow> bool" where
  "cursor_ok ms dsts p = (\<lambda>(nxt, shift). nxt \<le> length ms \<and> shift = moved ms nxt \<and> (\<forall>i < nxt. snd (dsts ! i) \<le> p))"

lemma cursor_loop_ok:
  assumes "length dsts = length ms" "\<forall>i < length ms. int (snd (dsts ! i)) = int (fst (dsts ! i)) + int (length (snd (ms ! i)))"
  shows "cursor_ok ms dsts p (nxt, shift) \<Longrightarrow> cursor_loop (drop nxt (placed_at ms dsts)) p nxt shift = (found, c') \<Longrightarrow>
    cursor_ok ms dsts p c' \<and>
    (case found of
       Some src \<Rightarrow> \<exists>i < length ms. fst (dsts ! i) \<le> p \<and> p < snd (dsts ! i) \<and> src = fst (fst (ms ! i))
     | None \<Rightarrow> fst c' < length ms \<longrightarrow> p < fst (dsts ! fst c'))"
proof (induction "length ms - nxt" arbitrary: nxt shift)
  case 0
  then have "drop nxt (placed_at ms dsts) = []" using assms(1) by (simp add: placed_at_def)
  then show ?case using 0 by (auto simp: cursor_ok_def)
next
  case (Suc n)
  then have nxt: "nxt < length ms" by simp
  let ?rep = "\<lparr>p_src = fst (ms ! nxt), p_dst = dsts ! nxt\<rparr>"
  have d: "drop nxt (placed_at ms dsts) = ?rep # drop (nxt + 1) (placed_at ms dsts)"
    using nxt assms(1) by (simp add: placed_at_def Cons_nth_drop_Suc [symmetric])
  show ?case
  proof (cases "fst (dsts ! nxt) \<le> p \<and> p < snd (dsts ! nxt)")
    case True
    then show ?thesis using Suc.prems nxt by (auto simp: d)
  next
    case outside: False
    show ?thesis
    proof (cases "snd (dsts ! nxt) > p")
      case True
      then show ?thesis using Suc.prems outside by (auto simp: d)
    next
      case False
      have "delta ?rep = moved ms (nxt + 1) - moved ms nxt"
        using moved_step [OF nxt] assms(2) nxt by (simp add: delta_def)
      then have "cursor_ok ms dsts p (nxt + 1, shift + delta ?rep)"
        using Suc.prems(1) nxt False by (auto simp: cursor_ok_def less_Suc_eq)
      moreover have "cursor_loop (drop (nxt + 1) (placed_at ms dsts)) p (nxt + 1) (shift + delta ?rep) = (found, c')"
        using Suc.prems(2) outside False by (simp add: d)
      ultimately show ?thesis using Suc.hyps(1) [of "nxt + 1"] Suc.hyps(2) by simp
    qed
  qed
qed

lemma source_cursor_at_ok:
  assumes o: "in_order stop start ms" "stop \<le> length content" and p: "p < length (rewrite content stop ms start)"
    and block: "rb_start block = start" "rb_reps block = placed_at ms (places 0 ms start)"
    and c: "cursor_ok ms (places 0 ms start) p c" "source_cursor_at block c p = (r, c')"
  shows "cursor_ok ms (places 0 ms start) p c' \<and>
    ((\<exists>i < length ms. fst (places 0 ms start ! i) \<le> p \<and> p < snd (places 0 ms start ! i) \<and> r = fst (fst (ms ! i))) \<or>
     r < length content \<and> rewrite content stop ms start ! p = content ! r)"
proof -
  let ?dsts = "places 0 ms start"
  have dst: "snd (?dsts ! i) = fst (?dsts ! i) + length (snd (ms ! i))"
    "int (fst (?dsts ! i)) = int (fst (fst (ms ! i))) - int start + moved ms i" if "i < length ms" for i
    using rewrite_places [OF o that, of "[]"] by auto
  obtain nxt shift where c_eq: "c = (nxt, shift)" by (cases c)
  obtain found c1 where l: "cursor_loop (drop nxt (placed_at ms ?dsts)) p nxt shift = (found, c1)" by (rule prod.exhaust)
  have c1: "cursor_ok ms ?dsts p c1" "case found of
       Some src \<Rightarrow> \<exists>i < length ms. fst (?dsts ! i) \<le> p \<and> p < snd (?dsts ! i) \<and> src = fst (fst (ms ! i))
     | None \<Rightarrow> fst c1 < length ms \<longrightarrow> p < fst (?dsts ! fst c1)"
    using cursor_loop_ok [OF _ _ c(1) [unfolded c_eq] l] dst(1) by simp_all
  show ?thesis
  proof (cases found)
    case (Some src)
    then show ?thesis using c(2) c1 by (auto simp: source_cursor_at_def c_eq block l)
  next
    case None
    obtain n sh where n: "c1 = (n, sh)" by (cases c1)
    have ok: "n \<le> length ms" "sh = moved ms n" "\<forall>i < n. snd (?dsts ! i) \<le> p" using c1(1) by (simp_all add: cursor_ok_def n)
    define k where "k = int (start + p) - moved ms n"
    have r: "r = nat k" "c' = c1" using c(2) None by (simp_all add: source_cursor_at_def c_eq block l n ok(2) k_def)
    have ends: "int (snd (fst (ms ! j))) \<le> k" if j: "j < n" for j
    proof -
      define m where "m = n - 1"
      have m: "m < n" "n = Suc m" "j \<le> m" using j by (simp_all add: m_def)
      have len: "m < length ms" using m ok(1) by simp
      have "int (snd (fst (ms ! m))) \<le> k"
        using ok(3) [rule_format, OF m(1)] dst [OF len] moved_step [OF len] by (simp add: k_def m(2))
      moreover have "snd (fst (ms ! j)) \<le> snd (fst (ms ! m))" using in_order_ends [OF o(1) m(3) len] .
      ultimately show ?thesis by simp
    qed
    have low: "int start \<le> k"
    proof (cases n)
      case 0
      then show ?thesis by (simp add: k_def)
    next
      case (Suc m)
      have "0 < length ms" using Suc ok(1) by linarith
      from in_order_nth [OF o(1) this] have "start \<le> snd (fst (ms ! 0))" by linarith
      then show ?thesis using ends [of 0] Suc by simp
    qed
    have high: "n < length ms \<Longrightarrow> k < int (fst (fst (ms ! n)))" "k < int stop"
    proof -
      show before: "k < int (fst (fst (ms ! n)))" if "n < length ms"
        using c1(2) None n that dst(2) [OF that] by (simp add: k_def)
      show "k < int stop"
      proof (cases "n < length ms")
        case True
        then show ?thesis using before in_order_nth [OF o(1) True] by simp
      next
        case False
        then have "n = length ms" using ok(1) by simp
        then show ?thesis using length_rewrite [OF o] p by (simp add: k_def)
      qed
    qed
    obtain K where K: "k = int K" using low by (metis nonneg_int_cases of_nat_0_le_iff order_trans)
    have "rewrite content stop ms start ! nat (int K - int start + moved ms n) = content ! K"
    proof (rule rewrite_copies [OF o, THEN conjunct2, THEN conjunct2])
      show "start \<le> K" "K < stop" using low high(2) by (simp_all add: K)
      show "n \<le> length ms" by (rule ok(1))
      show "snd (fst (ms ! j)) \<le> K" if "j < n" for j using ends [OF that] by (simp add: K)
      show "K < fst (fst (ms ! n))" if "n < length ms" using high(1) [OF that] by (simp add: K)
    qed
    moreover have "nat (int K - int start + moved ms n) = p" unfolding K [symmetric] by (simp add: k_def)
    moreover have "r = K" "K < length content" using r(1) high(2) o(2) by (simp_all add: K)
    ultimately show ?thesis using c1(1) r(2) by auto
  qed
qed

lemma cursor_run_ok:
  assumes o: "in_order stop start ms" "stop \<le> length content"
    and block: "rb_start block = start" "rb_reps block = placed_at ms (places 0 ms start)"
  shows "sorted ps \<Longrightarrow> \<forall>p\<in>set ps. low \<le> p \<and> p < length (rewrite content stop ms start) \<Longrightarrow>
    cursor_ok ms (places 0 ms start) low c \<Longrightarrow> j < length ps \<Longrightarrow>
    (\<exists>i < length ms. fst (places 0 ms start ! i) \<le> ps ! j \<and> ps ! j < snd (places 0 ms start ! i) \<and>
       cursor_run block c ps ! j = fst (fst (ms ! i))) \<or>
    cursor_run block c ps ! j < length content \<and> rewrite content stop ms start ! (ps ! j) = content ! (cursor_run block c ps ! j)"
proof (induction ps arbitrary: low c j)
  case (Cons p ps)
  obtain r c' where r: "source_cursor_at block c p = (r, c')" by (rule prod.exhaust)
  have "cursor_ok ms (places 0 ms start) p c"
    using Cons.prems(2,3) by (auto simp: cursor_ok_def intro: order_trans)
  note step = source_cursor_at_ok [OF o _ block this r]
  show ?case
  proof (cases j)
    case 0
    then show ?thesis using step Cons.prems(2) r by simp
  next
    case (Suc i)
    have "\<forall>q\<in>set ps. p \<le> q \<and> q < length (rewrite content stop ms start)" using Cons.prems(1,2) by auto
    then show ?thesis using Cons.IH [of p c' i] Cons.prems step r Suc by simp
  qed
qed simp

text \<open>Positions of a rewritten block go back to the file: asked for ascending positions, the cursor answers for a
  position inside a replacement the start of the match it replaced, and for any other the place of
  the very byte that was copied there.\<close>

theorem cursor_goes_back:
  assumes "finds_all memchr_iter" "I = line_index_new memchr_iter content" "content \<noteq> []"
    and "in_order (length content) 0 reps" "block \<in> set (build_blocks I content reps)"
    and "sorted ps" "\<forall>p\<in>set ps. p < length (rb_text block)" "j < length ps"
  shows "(\<exists>rep\<in>set (rb_reps block). fst (p_dst rep) \<le> ps ! j \<and> ps ! j < snd (p_dst rep) \<and>
       cursor_run block (0, 0) ps ! j = fst (p_src rep)) \<or>
    (cursor_run block (0, 0) ps ! j < length content \<and>
     rb_text block ! (ps ! j) = content ! (cursor_run block (0, 0) ps ! j))"
proof -
  have wf: "lines_wf I" and content: "li_content I = content" using line_index_new_wf [OF assms(1)] assms(2) by simp_all
  obtain first final ms where g: "(first, final, ms) \<in> set (foldl (add_to_groups I) [] reps)"
    "block = build_block I content (first, final, ms)"
    using assms(5) by (auto simp: build_blocks_def)
  have "group_ok I (first, final, ms)"
    using groups_of_matches [OF wf, of reps] assms(3,4) content g(1) by (auto simp: groups_ok_def)
  note b = build_group [OF wf this, unfolded content, folded g(2)]
  let ?start = "line_start I first" and ?stop = "line_start I (final + 1)"
  let ?dsts = "places 0 ms ?start"
  have parts: "rb_start block = ?start" "rb_reps block = placed_at ms ?dsts" "rb_text block = rewrite content ?stop ms ?start"
    by (simp_all add: b(1))
  have rep: "\<lparr>p_src = fst (ms ! i), p_dst = ?dsts ! i\<rparr> \<in> set (rb_reps block)" if "i < length ms" for i
    using that by (auto simp: parts(2) placed_at_def set_zip intro!: image_eqI [where x = "(ms ! i, ?dsts ! i)"])
  have "cursor_ok ms ?dsts 0 (0, 0)" by (simp add: cursor_ok_def)
  from cursor_run_ok [OF b(2,3) parts(1,2) assms(6) _ this assms(8)] assms(7)
  show ?thesis unfolding parts(3) using rep by fastforce
qed

theorem cursor_goes_back_witness:
  "\<exists>r. cursor_run (hd (build_blocks (line_index_new all_bytes [0x61, 0x0A, 0x62]) [0x61, 0x0A, 0x62] [((1, 2), [0x2C, 0x2C])]))
      (0, 0) [0] = [r] \<and> [0x61, 0x0A, 0x62] ! r = (0x61 :: byte)"
proof -
  let ?C = "[0x61, 0x0A, 0x62] :: byte list" and ?reps = "[((1, 2), [0x2C, 0x2C])] :: expansion list"
  let ?I = "line_index_new all_bytes ?C"
  have starts: "li_starts ?I = [0, 2]" "li_content ?I = ?C" by code_simp+
  have "line_of ?I 1 = 0" by (simp add: line_of_def starts partition_point_def)
  then have "build_blocks ?I ?C ?reps = [build_block ?I ?C (0, 0, ?reps)]"
    by (simp add: build_blocks_def add_to_groups_def last_line_of_def)
  moreover have "build_block ?I ?C (0, 0, ?reps) = \<lparr>rb_first = 0, rb_last = 0, rb_start = 0, rb_text = [0x61, 0x2C, 0x2C],
      rb_reps = [\<lparr>p_src = (1, 2), p_dst = (1, 3)\<rparr>]\<rparr>" (is "_ = ?block")
    by (simp add: build_block_def line_start_def starts slice_def Let_def)
  ultimately have blocks: "build_blocks ?I ?C ?reps = [?block]" by simp
  have "?block \<in> set (build_blocks ?I ?C ?reps)" unfolding blocks by simp
  then have "cursor_run ?block (0, 0) [0] ! 0 < length ?C \<and> rb_text ?block ! 0 = ?C ! (cursor_run ?block (0, 0) [0] ! 0)"
    using cursor_goes_back [OF all_bytes_finds_all refl, of ?C ?reps ?block "[0]" 0] by auto
  moreover obtain r where "cursor_run ?block (0, 0) [0] = [r]" by (simp add: source_cursor_at_def)
  ultimately show ?thesis unfolding blocks by auto
qed

end
