(* ===== verification/File_Matches.thy ===== *)
theory File_Matches
  imports Replace_Block
begin

text \<open>
  The matches of one file and the rows they print (\<^verbatim>\<open>tgrep-cli/src/matching.rs\<close>,
  \<^verbatim>\<open>FileMatches\<close>, \<^verbatim>\<open>Emit\<close> and \<^verbatim>\<open>emit_block\<close>): which hits, totals,
  replacements and blocks a search keeps, and the walk over lines and context that hands rows to a
  callback.  A callback is a function on the caller's state that may return an error, which
  ends the walk.  The map from lines to hits is looked up by key only.
\<close>

section \<open>Rows\<close>

record match_row =
  m_line_number :: nat
  m_content :: "byte list"
  m_columns :: "nat list"
  m_spans :: "span list"
  m_absolute_offset :: nat
  m_line_offset :: nat
  m_column_shifts :: "int list"
  m_offset_shift :: int
  m_terminator_len :: nat
  m_block :: "(nat \<times> nat) option"
  m_hidden :: bool
  m_replacements :: "byte list list option"

record context_row =
  c_line_number :: nat
  c_content :: "byte list"
  c_absolute_offset :: nat
  c_terminator_len :: nat

datatype emit = EmitMatch match_row | EmitContext context_row

record file_matches =
  fm_index :: line_index
  fm_hits :: "line_hit list"
  fm_match_totals :: "nat \<times> nat"
  fm_blocks :: "replace_block list"
  fm_replacements :: "byte list list list"

section \<open>Replacements beside the source\<close>

definition push_piece ::
  "line_index \<Rightarrow> span \<Rightarrow> nat \<Rightarrow> byte list \<Rightarrow> line_hit list \<times> byte list list list \<Rightarrow> line_hit list \<times> byte list list list"
where
  "push_piece index span li expanded = (\<lambda>(hits, texts).
     let (hits, texts) = (if hits = [] \<or> hit_idx (last hits) \<noteq> li
                          then (hits @ [\<lparr>hit_idx = li, hit_spans = []\<rparr>], texts @ [[]]) else (hits, texts))
     in (butlast hits @ [(last hits)\<lparr>hit_spans := hit_spans (last hits) @ [span_on_line index span li]\<rparr>],
         butlast texts @ [last texts @ [expanded]]))"

text \<open>The first line of a match takes its replacement, the lines behind it get an empty one.\<close>

fun push_pieces ::
  "line_index \<Rightarrow> span \<Rightarrow> nat list \<Rightarrow> byte list \<Rightarrow> line_hit list \<times> byte list list list \<Rightarrow> line_hit list \<times> byte list list list"
where
  "push_pieces index span [] expanded acc = acc"
| "push_pieces index span (li # lis) expanded acc =
     push_pieces index span lis [] (push_piece index span li expanded acc)"

definition group_replacements_by_line :: "line_index \<Rightarrow> expansion list \<Rightarrow> line_hit list \<times> byte list list list" where
  "group_replacements_by_line index reps =
     fold (\<lambda>(span, expanded). push_pieces index span (lines_covered index span) expanded) reps ([], [])"

text \<open>Each range consumes the expansions up to its own, or all of them when it has none.\<close>

fun take_replacements :: "expansion list \<Rightarrow> span list \<Rightarrow> byte list list" where
  "take_replacements reps [] = []"
| "take_replacements reps (span # spans) =
     (case dropWhile (\<lambda>rep. fst rep \<noteq> span) reps of
        [] \<Rightarrow> [] # take_replacements [] spans
      | rep # reps \<Rightarrow> snd rep # take_replacements reps spans)"

definition line_replacements :: "search_matcher \<Rightarrow> byte list \<Rightarrow> span list \<Rightarrow> byte list \<Rightarrow> string + byte list list" where
  "line_replacements matcher line spans replacement =
     rbind (expansions matcher line replacement) (\<lambda>reps. Inr (take_replacements reps spans))"

section \<open>Matching a file\<close>

text \<open>The end of the text behind a terminator is not another line.\<close>

definition drop_eof_match :: "byte list \<Rightarrow> span list \<Rightarrow> span list" where
  "drop_eof_match content spans =
     (if (content = [] \<or> last content = 0x0A) \<and> spans \<noteq> [] \<and> last spans = (length content, length content)
      then butlast spans else spans)"

definition find_multiline ::
  "(byte list \<Rightarrow> bool \<Rightarrow> hir option) \<Rightarrow> line_index \<Rightarrow> byte list \<Rightarrow> search_matcher \<Rightarrow> match_options \<Rightarrow> string + file_matches"
where
  "find_multiline parse index content matcher opts =
     rbind (find_spans matcher content) (\<lambda>spans.
       let spans = limit_to_line_blocks index (drop_eof_match content spans) (max_count opts);
           hits = group_spans_by_line index spans;
           fm = \<lparr>fm_index = index, fm_hits = hits, fm_match_totals = (length spans, length hits),
                 fm_blocks = [], fm_replacements = []\<rparr>;
           shown = (if vimgrep opts
                    then fm\<lparr>fm_hits := group_spans_by_line index (clip_spans_to_start_line index spans)\<rparr> else fm)
       in case replace opts of
            Some rep \<Rightarrow>
              if report_replacements opts then
                rbind (expansions_upto matcher content rep (length spans)) (\<lambda>reps.
                  let (hits, texts) = group_replacements_by_line index reps
                  in Inr (fm\<lparr>fm_hits := hits, fm_replacements := texts\<rparr>))
              else if replace_blocks opts \<and> spans \<noteq> [] \<and> can_match_newline parse matcher then
                rbind (expansions_upto matcher content rep (length spans)) (\<lambda>reps.
                  Inr (fm\<lparr>fm_blocks := build_blocks index content reps\<rparr>))
              else Inr shown
          | None \<Rightarrow> Inr shown)"

fun map_result :: "('a \<Rightarrow> string + 'b) \<Rightarrow> 'a list \<Rightarrow> string + 'b list" where
  "map_result f [] = Inr []"
| "map_result f (x # xs) = rbind (f x) (\<lambda>y. rbind (map_result f xs) (\<lambda>ys. Inr (y # ys)))"

definition find_by_line ::
  "line_index \<Rightarrow> byte list \<Rightarrow> search_matcher \<Rightarrow> match_options \<Rightarrow> string + file_matches"
where
  "find_by_line index content matcher opts =
     rbind (collect_hits content index matcher opts) (\<lambda>hits.
       let fm = \<lparr>fm_index = index, fm_hits = hits,
                 fm_match_totals = (sum_list (map (\<lambda>h. length (hit_spans h)) hits), length hits),
                 fm_blocks = [], fm_replacements = []\<rparr>
       in case replace opts of
            Some rep \<Rightarrow>
              if report_replacements opts then
                rbind (map_result (\<lambda>hit. line_replacements matcher (line_text index (hit_idx hit)) (hit_spans hit) rep) hits)
                  (\<lambda>texts. Inr (fm\<lparr>fm_replacements := texts\<rparr>))
              else Inr fm
          | None \<Rightarrow> Inr fm)"

definition find_in_file ::
  "memchr_iter \<Rightarrow> (byte list \<Rightarrow> bool \<Rightarrow> hir option) \<Rightarrow> byte list \<Rightarrow> search_matcher \<Rightarrow> match_options \<Rightarrow> string + file_matches"
where
  "find_in_file memchr_iter parse content matcher opts =
     (let index = line_index_new memchr_iter content
      in if max_count opts = Some 0 then
           Inr \<lparr>fm_index = index, fm_hits = [], fm_match_totals = (0, 0), fm_blocks = [], fm_replacements = []\<rparr>
         else if multiline opts \<and> \<not> invert_match opts then find_multiline parse index content matcher opts
         else find_by_line index content matcher opts)"

definition fm_is_empty :: "file_matches \<Rightarrow> bool" where
  "fm_is_empty self = (fm_hits self = [])"

definition matched_lines :: "file_matches \<Rightarrow> nat" where
  "matched_lines self = length (fm_hits self)"

definition match_count :: "file_matches \<Rightarrow> nat" where
  "match_count self = (if fst (fm_match_totals self) = 0 then length (fm_hits self) else fst (fm_match_totals self))"

section \<open>The rows of a line\<close>

definition context_line :: "line_index \<Rightarrow> nat \<Rightarrow> emit" where
  "context_line index li = EmitContext
     \<lparr>c_line_number = li + 1, c_content = line_text index li, c_absolute_offset = line_start index li,
      c_terminator_len = line_terminator_len index li\<rparr>"

text \<open>The binary search for the line among the hits, whose lines ascend.\<close>

definition replacements_of :: "file_matches \<Rightarrow> nat \<Rightarrow> byte list list option" where
  "replacements_of self li =
     (let i = partition_point (\<lambda>h. hit_idx h < li) (fm_hits self)
      in if i < length (fm_hits self) \<and> hit_idx (fm_hits self ! i) = li \<and> i < length (fm_replacements self)
         then Some (fm_replacements self ! i) else None)"

text \<open>The columns of the matches, counted from one.\<close>

definition columns_of :: "span list \<Rightarrow> nat list" where
  "columns_of spans = map (\<lambda>span. fst span + 1) spans"

text \<open>With \<^verbatim>\<open>-o\<close> and \<^verbatim>\<open>-r\<close>, one row for every replacement.\<close>

fun replaced_rows :: "nat \<Rightarrow> nat \<Rightarrow> expansion list \<Rightarrow> int \<Rightarrow> emit list" where
  "replaced_rows li offset [] shift = []"
| "replaced_rows li offset (((start, stop), expanded) # reps) shift =
     EmitMatch \<lparr>m_line_number = li + 1, m_content = expanded, m_columns = [start + 1],
       m_spans = [(0, length expanded)], m_absolute_offset = offset + start, m_line_offset = offset,
       m_column_shifts = [shift], m_offset_shift = shift, m_terminator_len = 0, m_block = None,
       m_hidden = False, m_replacements = None\<rparr>
     # replaced_rows li offset reps (shift + (int (length expanded) - (int stop - int start)))"

definition matched_row :: "line_index \<Rightarrow> nat \<Rightarrow> span \<Rightarrow> emit" where
  "matched_row index li = (\<lambda>(s, e).
     let content = slice (line_text index li) s e
     in EmitMatch \<lparr>m_line_number = li + 1, m_content = content, m_columns = [s + 1],
          m_spans = [(0, length content)], m_absolute_offset = line_start index li + s,
          m_line_offset = line_start index li, m_column_shifts = [], m_offset_shift = 0,
          m_terminator_len = 0, m_block = None, m_hidden = False, m_replacements = None\<rparr>)"

text \<open>How far each column moved: the place of the replacement less the place of the match.\<close>

definition column_shifts_of :: "span list \<Rightarrow> span list \<Rightarrow> int list" where
  "column_shifts_of matched placed =
     map (\<lambda>i. if i < length placed then int (fst (placed ! i)) - int (fst (matched ! i)) else 0) [0..<length matched]"

definition whole_line_row ::
  "line_index \<Rightarrow> line_hit \<Rightarrow> byte list \<Rightarrow> span list \<Rightarrow> int list \<Rightarrow> byte list list option \<Rightarrow> emit"
where
  "whole_line_row index hit content spans shifts texts = EmitMatch
     \<lparr>m_line_number = hit_idx hit + 1, m_content = content, m_columns = columns_of (hit_spans hit),
      m_spans = spans, m_absolute_offset = line_start index (hit_idx hit),
      m_line_offset = line_start index (hit_idx hit), m_column_shifts = shifts, m_offset_shift = 0,
      m_terminator_len = line_terminator_len index (hit_idx hit), m_block = None, m_hidden = False,
      m_replacements = texts\<rparr>"

text \<open>The rows of a matching line; the engine can only fail before the first of them.\<close>

definition hit_rows :: "file_matches \<Rightarrow> match_options \<Rightarrow> search_matcher \<Rightarrow> line_hit \<Rightarrow> string + emit list" where
  "hit_rows self opts matcher hit =
     (let index = fm_index self; li = hit_idx hit; line = line_text index li; spans = hit_spans hit;
          plain = Inr [whole_line_row index hit line spans [] None]
      in case (if spans = [] then None else replacements_of self li) of
           Some texts \<Rightarrow> Inr [whole_line_row index hit line spans [] (Some texts)]
         | None \<Rightarrow>
             if spans = [] then plain
             else if only_matching opts then
               (case replace opts of
                  Some rep \<Rightarrow> rbind (expansions matcher line rep)
                    (\<lambda>reps. Inr (replaced_rows li (line_start index li) reps 0))
                | None \<Rightarrow> Inr (map (matched_row index li) spans))
             else (case replace opts of
                  Some rep \<Rightarrow> rbind (replace_all matcher line rep)
                    (\<lambda>(content, placed). Inr [whole_line_row index hit content placed (column_shifts_of spans placed) None])
                | None \<Rightarrow> plain))"

section \<open>The rows of a block\<close>

text \<open>The part of a replacement inside a line.\<close>

definition piece :: "placed \<Rightarrow> nat \<Rightarrow> nat \<Rightarrow> span option" where
  "piece rep ls te =
     (let a = max (fst (p_dst rep)) ls; b = min (snd (p_dst rep)) te in if a < b then Some (a, b) else None)"

definition block_range :: "replace_block \<Rightarrow> (nat \<times> nat) option" where
  "block_range block = Some (rb_first block + 1, rb_last block + 1)"

fun running_shifts :: "placed list \<Rightarrow> int \<Rightarrow> int list" where
  "running_shifts [] shift = []"
| "running_shifts (rep # reps) shift = shift # running_shifts reps (shift + delta rep)"

definition piece_row :: "replace_block \<Rightarrow> nat \<Rightarrow> placed \<Rightarrow> int \<Rightarrow> span \<Rightarrow> emit" where
  "piece_row block k rep shift = (\<lambda>(a, b). EmitMatch
     \<lparr>m_line_number = rb_first block + 1 + k, m_content = slice (rb_text block) a b,
      m_columns = [fst (p_src rep) - rb_start block + 1], m_spans = [(0, b - a)],
      m_absolute_offset = fst (p_src rep), m_line_offset = rb_start block, m_column_shifts = [shift],
      m_offset_shift = shift, m_terminator_len = 0, m_block = block_range block, m_hidden = False,
      m_replacements = None\<rparr>)"

definition piece_rows :: "replace_block \<Rightarrow> (nat \<times> nat \<times> nat) list \<Rightarrow> emit list" where
  "piece_rows block lines =
     concat (map (\<lambda>(k, ls, te, le).
       concat (map (\<lambda>(rep, shift). case piece rep ls te of None \<Rightarrow> [] | Some ab \<Rightarrow> [piece_row block k rep shift ab])
         (zip (rb_reps block) (running_shifts (rb_reps block) 0))))
       (zip [0..<length lines] lines))"

text \<open>The first line each replacement touches; the search for it goes on from the line before.\<close>

fun vimgrep_rows ::
  "replace_block \<Rightarrow> (nat \<times> nat \<times> nat) list \<Rightarrow> placed list \<Rightarrow> nat \<Rightarrow> cursor \<Rightarrow> emit list"
where
  "vimgrep_rows block lines [] k c = []"
| "vimgrep_rows block lines (rep # reps) k c =
     (let k = k + length (takeWhile (\<lambda>(ls, te, le). le \<le> fst (p_dst rep)) (drop k lines))
      in if k \<ge> length lines then []
         else case lines ! k of (ls, te, le) \<Rightarrow>
           if ls \<ge> snd (p_dst rep) then vimgrep_rows block lines reps k c
           else case source_cursor_at block c ls of (source_line, c) \<Rightarrow>
             let column = fst (p_src rep) - source_line
             in EmitMatch
                  \<lparr>m_line_number = rb_first block + 1 + k, m_content = slice (rb_text block) ls te,
                   m_columns = [column + 1],
                   m_spans = (case piece rep ls te of None \<Rightarrow> [] | Some (a, b) \<Rightarrow> [(a - ls, b - ls)]),
                   m_absolute_offset = source_line, m_line_offset = source_line,
                   m_column_shifts = [int (fst (p_dst rep) - ls) - int column],
                   m_offset_shift = int (rb_start block + ls) - int source_line,
                   m_terminator_len = le - te, m_block = block_range block, m_hidden = False,
                   m_replacements = None\<rparr>
                # vimgrep_rows block lines reps k c)"

fun plain_rows :: "replace_block \<Rightarrow> nat \<Rightarrow> (nat \<times> nat \<times> nat) list \<Rightarrow> nat \<Rightarrow> cursor \<Rightarrow> emit list" where
  "plain_rows block column [] k c = []"
| "plain_rows block column ((ls, te, le) # lines) k c =
     (case source_cursor_at block c ls of (source_line, c) \<Rightarrow>
        EmitMatch
          \<lparr>m_line_number = rb_first block + 1 + k, m_content = slice (rb_text block) ls te,
           m_columns = [column],
           m_spans = map (\<lambda>(a, b). (a - ls, b - ls)) (List.map_filter (\<lambda>rep. piece rep ls te) (rb_reps block)),
           m_absolute_offset = source_line, m_line_offset = rb_start block, m_column_shifts = [],
           m_offset_shift = int (rb_start block + ls) - int source_line,
           m_terminator_len = le - te, m_block = block_range block, m_hidden = False,
           m_replacements = None\<rparr>
        # plain_rows block column lines (k + 1) c)"

definition hidden_row :: "replace_block \<Rightarrow> emit" where
  "hidden_row block = EmitMatch
     \<lparr>m_line_number = rb_first block + 1, m_content = [], m_columns = [], m_spans = [],
      m_absolute_offset = rb_start block, m_line_offset = rb_start block, m_column_shifts = [],
      m_offset_shift = 0, m_terminator_len = 0, m_block = block_range block, m_hidden = True,
      m_replacements = None\<rparr>"

definition block_rows :: "memchr \<Rightarrow> replace_block \<Rightarrow> match_options \<Rightarrow> emit list" where
  "block_rows memchr block opts =
     (let lines = block_lines memchr block;
          rows = (if only_matching opts then piece_rows block lines
                  else if vimgrep opts then vimgrep_rows block lines (rb_reps block) 0 (0, 0)
                  else plain_rows block
                         (case rb_reps block of [] \<Rightarrow> 1 | rep # reps \<Rightarrow> fst (p_src rep) - rb_start block + 1) lines 0 (0, 0))
      in if rows = [] then [hidden_row block] else rows)"

section \<open>The walk over the file\<close>

type_synonym ('s, 'e) action = "'s \<Rightarrow> 's \<times> 'e option"

text \<open>A loop whose body can fail, and the question mark behind a call.\<close>

fun each :: "('a \<Rightarrow> ('s, 'e) action) \<Rightarrow> 'a list \<Rightarrow> ('s, 'e) action" where
  "each body [] s = (s, None)"
| "each body (x # xs) s =
     (case body x s of (s, None) \<Rightarrow> each body xs s | (s, Some e) \<Rightarrow> (s, Some e))"

definition and_then :: "('s, 'e) action \<Rightarrow> ('s, 'e) action \<Rightarrow> ('s, 'e) action" where
  "and_then a b s = (case a s of (s, None) \<Rightarrow> b s | (s, Some e) \<Rightarrow> (s, Some e))"

definition emit_hit ::
  "(string \<Rightarrow> 'e) \<Rightarrow> file_matches \<Rightarrow> match_options \<Rightarrow> search_matcher \<Rightarrow> (emit \<Rightarrow> ('s, 'e) action) \<Rightarrow> line_hit \<Rightarrow> ('s, 'e) action"
where
  "emit_hit from_error self opts matcher on_emit hit =
     (case hit_rows self opts matcher hit of
        Inl e \<Rightarrow> (\<lambda>s. (s, Some (from_error e)))
      | Inr rows \<Rightarrow> each on_emit rows)"

definition emit_block :: "memchr \<Rightarrow> match_options \<Rightarrow> (emit \<Rightarrow> ('s, 'e) action) \<Rightarrow> replace_block \<Rightarrow> ('s, 'e) action" where
  "emit_block memchr opts on_emit block = each on_emit (block_rows memchr block opts)"

definition hit_on :: "line_hit list \<Rightarrow> nat \<Rightarrow> line_hit option" where
  "hit_on hits = map_of (map (\<lambda>h. (hit_idx h, h)) (rev hits))"

definition emit_line ::
  "(string \<Rightarrow> 'e) \<Rightarrow> file_matches \<Rightarrow> match_options \<Rightarrow> search_matcher \<Rightarrow> (emit \<Rightarrow> ('s, 'e) action) \<Rightarrow> nat \<Rightarrow> ('s, 'e) action"
where
  "emit_line from_error self opts matcher on_emit li =
     (case hit_on (fm_hits self) li of
        Some hit \<Rightarrow> emit_hit from_error self opts matcher on_emit hit
      | None \<Rightarrow> on_emit (context_line (fm_index self) li))"

fun passthru_blocks ::
  "memchr \<Rightarrow> file_matches \<Rightarrow> match_options \<Rightarrow> (emit \<Rightarrow> ('s, 'e) action) \<Rightarrow> nat \<Rightarrow> replace_block list \<Rightarrow> ('s, 'e) action"
where
  "passthru_blocks memchr self opts on_emit li [] =
     each (\<lambda>li. on_emit (context_line (fm_index self) li)) [li..<line_count (fm_index self)]"
| "passthru_blocks memchr self opts on_emit li (b # bs) =
     and_then (each (\<lambda>li. on_emit (context_line (fm_index self) li)) [li..<rb_first b])
       (and_then (emit_block memchr opts on_emit b)
         (passthru_blocks memchr self opts on_emit (rb_last b + 1) bs))"

text \<open>The lines of the window; those inside a block just printed are passed over.\<close>

fun window_blocks ::
  "memchr \<Rightarrow> file_matches \<Rightarrow> match_options \<Rightarrow> (emit \<Rightarrow> ('s, 'e) action) \<Rightarrow> nat list \<Rightarrow> replace_block list \<Rightarrow> nat option \<Rightarrow> ('s, 'e) action"
where
  "window_blocks memchr self opts on_emit [] blocks inside_until = (\<lambda>s. (s, None))"
| "window_blocks memchr self opts on_emit (li # lis) blocks inside_until =
     (if (case inside_until of Some final \<Rightarrow> li \<le> final | None \<Rightarrow> False)
      then window_blocks memchr self opts on_emit lis blocks inside_until
      else if blocks \<noteq> [] \<and> rb_first (hd blocks) = li
      then and_then (emit_block memchr opts on_emit (hd blocks))
             (window_blocks memchr self opts on_emit lis (tl blocks) (Some (rb_last (hd blocks))))
      else and_then (on_emit (context_line (fm_index self) li))
             (window_blocks memchr self opts on_emit lis blocks inside_until))"

definition for_each_block ::
  "memchr \<Rightarrow> file_matches \<Rightarrow> match_options \<Rightarrow> (emit \<Rightarrow> ('s, 'e) action) \<Rightarrow> ('s, 'e) action"
where
  "for_each_block memchr self opts on_emit =
     (if passthru opts then passthru_blocks memchr self opts on_emit 0 (fm_blocks self)
      else if before_context opts = 0 \<and> after_context opts = 0 then each (emit_block memchr opts on_emit) (fm_blocks self)
      else window_blocks memchr self opts on_emit
             (expand_context_window (concat (map (\<lambda>b. [rb_first b..<rb_last b + 1]) (fm_blocks self)))
               (line_count (fm_index self)) (before_context opts) (after_context opts))
             (fm_blocks self) None)"

definition for_each ::
  "memchr \<Rightarrow> (string \<Rightarrow> 'e) \<Rightarrow> file_matches \<Rightarrow> match_options \<Rightarrow> search_matcher \<Rightarrow> (emit \<Rightarrow> ('s, 'e) action) \<Rightarrow> ('s, 'e) action"
where
  "for_each memchr from_error self opts matcher on_emit =
     (if fm_blocks self \<noteq> [] then for_each_block memchr self opts on_emit
      else if passthru opts then
        each (emit_line from_error self opts matcher on_emit) [0..<line_count (fm_index self)]
      else if before_context opts = 0 \<and> after_context opts = 0 then
        each (emit_hit from_error self opts matcher on_emit) (fm_hits self)
      else
        each (emit_line from_error self opts matcher on_emit)
          (expand_context_window (map hit_idx (fm_hits self)) (line_count (fm_index self))
            (before_context opts) (after_context opts)))"

section \<open>Which lines are selected\<close>

text \<open>
  The selected lines of a list: all of them, or with \<^verbatim>\<open>--stop-on-nonmatch\<close> only those before
  the first line that is not selected behind one that is; and no more than the maximum.
\<close>

definition line_run :: "bool \<Rightarrow> bool \<Rightarrow> (nat \<Rightarrow> bool) \<Rightarrow> nat list \<Rightarrow> nat list" where
  "line_run stop started selected lis =
     (if stop then takeWhile selected (if started then lis else dropWhile (\<lambda>li. \<not> selected li) lis)
      else filter selected lis)"

definition at_most :: "nat option \<Rightarrow> 'a list \<Rightarrow> 'a list" where
  "at_most limit xs = (case limit of None \<Rightarrow> xs | Some m \<Rightarrow> take m xs)"

definition room :: "nat option \<Rightarrow> nat \<Rightarrow> bool" where
  "room limit n \<longleftrightarrow> (case limit of None \<Rightarrow> True | Some m \<Rightarrow> n < m)"

lemma line_run_simps:
  "line_run stop started selected [] = []"
  "selected li \<Longrightarrow> line_run stop started selected (li # lis) = li # line_run stop True selected lis"
  "\<not> selected li \<Longrightarrow> line_run stop started selected (li # lis) = (if stop \<and> started then [] else line_run stop started selected lis)"
  by (simp_all add: line_run_def)

lemma at_most_Cons:
  "room limit n \<Longrightarrow> at_most (map_option (\<lambda>m. m - n) limit) (x # xs) =
     x # (if room limit (n + 1) then at_most (map_option (\<lambda>m. m - (n + 1)) limit) xs else [])"
  by (cases limit) (auto simp: at_most_def room_def take_Cons' Suc_diff_Suc)

lemma at_most_Nil [simp]: "at_most limit [] = []"
  by (simp add: at_most_def split: option.split)

lemma count_reached_room: "count_reached opts out \<longleftrightarrow> \<not> room (max_count opts) (length out)"
  by (auto simp: count_reached_def room_def split: option.split)

definition line_spans :: "std_regex \<Rightarrow> bool \<Rightarrow> byte list \<Rightarrow> span list" where
  "line_spans re all_of_them line =
     (if all_of_them then re_find_iter re line else case re_find re line of Some m \<Rightarrow> [m] | None \<Rightarrow> [])"

lemma visit_line_standard:
  "visit_line index (Standard re dotall) opts i out =
     (let spans = line_spans re (all_spans opts) (line_text index i)
      in if spans \<noteq> [] then Inr (room (max_count opts) (length out + 1), out @ [\<lparr>hit_idx = i, hit_spans = spans\<rparr>])
         else Inr (\<not> (stop_on_nonmatch opts \<and> out \<noteq> []), out))"
  by (simp add: visit_line_def find_spans_def find_first_span_def line_spans_def count_reached_room Let_def split: option.split)

lemma visit_lines_run:
  "room (max_count opts) (length out) \<Longrightarrow>
   visit_lines index (Standard re dotall) opts lis out =
     Inr (out @ map (\<lambda>i. \<lparr>hit_idx = i, hit_spans = line_spans re (all_spans opts) (line_text index i)\<rparr>)
       (at_most (map_option (\<lambda>m. m - length out) (max_count opts))
         (line_run (stop_on_nonmatch opts) (out \<noteq> []) (\<lambda>i. line_spans re (all_spans opts) (line_text index i) \<noteq> []) lis)))"
proof (induction lis arbitrary: out)
  case (Cons i lis)
  show ?case
  proof (cases "line_spans re (all_spans opts) (line_text index i) = []")
    case True
    then show ?thesis using Cons.IH [OF Cons.prems] by (simp add: visit_line_standard line_run_simps)
  next
    case False
    then show ?thesis using Cons.prems Cons.IH [of "out @ [\<lparr>hit_idx = i, hit_spans = line_spans re (all_spans opts) (line_text index i)\<rparr>]"]
      by (simp add: visit_line_standard line_run_simps at_most_Cons)
  qed
qed (simp add: line_run_simps)

lemma invert_lines_run:
  "room (max_count opts) (length out) \<Longrightarrow>
   invert_lines index (Standard re dotall) opts lis out =
     Inr (out @ map (\<lambda>i. \<lparr>hit_idx = i, hit_spans = []\<rparr>)
       (at_most (map_option (\<lambda>m. m - length out) (max_count opts))
         (line_run (stop_on_nonmatch opts) (out \<noteq> []) (\<lambda>i. \<not> re_is_match re (line_text index i)) lis)))"
proof (induction lis arbitrary: out)
  case (Cons i lis)
  show ?case
  proof (cases "re_is_match re (line_text index i)")
    case True
    then show ?thesis using Cons.IH [OF Cons.prems] by (simp add: matcher_is_match_def line_run_simps)
  next
    case False
    then show ?thesis using Cons.prems Cons.IH [of "out @ [\<lparr>hit_idx = i, hit_spans = []\<rparr>]"]
      by (simp add: matcher_is_match_def line_run_simps at_most_Cons count_reached_room Let_def)
  qed
qed (simp add: line_run_simps)

text \<open>A line the search selects: it matches, or under \<^verbatim>\<open>-v\<close> it does not.\<close>

definition line_selected :: "(byte list \<Rightarrow> nat set) \<Rightarrow> match_options \<Rightarrow> byte list \<Rightarrow> bool" where
  "line_selected starts opts line \<longleftrightarrow> (starts line \<noteq> {}) \<noteq> invert_match opts"

lemma line_spans_found:
  assumes "leftmost_engine re starts"
  shows "line_spans re all_of_them line \<noteq> [] \<longleftrightarrow> starts line \<noteq> {}"
proof -
  have "leftmost_spans (starts line) None (re_find_iter re line)"
    "re_find re line = (case re_find_iter re line of [] \<Rightarrow> None | m # ms \<Rightarrow> Some m)"
    using assms by (simp_all add: leftmost_engine_def)
  then show ?thesis by (cases "re_find_iter re line") (auto simp: line_spans_def later_def split: prod.splits)
qed

lemma collect_hits_selects:
  assumes "finds_all memchr_iter" "index = line_index_new memchr_iter content"
    and "leftmost_engine re starts" "pattern_is_anchor_free (re_as_str re) \<longrightarrow> line_local starts"
    and "max_count opts \<noteq> Some 0"
  shows "collect_hits content index (Standard re dotall) opts =
    Inr (map (\<lambda>i. \<lparr>hit_idx = i,
           hit_spans = (if invert_match opts then [] else line_spans re (all_spans opts) (line_text index i))\<rparr>)
      (at_most (max_count opts)
        (line_run (stop_on_nonmatch opts) False (\<lambda>i. line_selected starts opts (line_text index i)) [0..<line_count index])))"
proof -
  have room: "room (max_count opts) (length [])" using assms(5) by (auto simp: room_def split: option.split)
  have limit: "map_option (\<lambda>m. m - length []) (max_count opts) = max_count opts" by (cases "max_count opts") auto
  show ?thesis
  proof (cases "invert_match opts")
    case True
    have "re_is_match re line \<longleftrightarrow> starts line \<noteq> {}" for line using assms(3) by (simp add: leftmost_engine_def)
    then show ?thesis using invert_lines_run [OF room, of index re dotall "[0..<line_count index]"] True
      unfolding limit by (simp add: collect_hits_def line_selected_def)
  next
    case False
    show ?thesis unfolding collect_hits_visits [OF assms(1-4) False]
      using visit_lines_run [OF room, of index re dotall "[0..<line_count index]"] False
      unfolding limit by (simp add: line_selected_def line_spans_found [OF assms(3)])
  qed
qed

section \<open>The hits stand in the order of their lines\<close>

definition hits_wf :: "line_index \<Rightarrow> line_hit list \<Rightarrow> bool" where
  "hits_wf index hits \<longleftrightarrow> ascending (map hit_idx hits) \<and> (\<forall>h\<in>set hits. hit_idx h < line_count index)"

lemma lines_covered_bound:
  assumes "lines_wf I" "li_content I \<noteq> []" "li \<in> set (lines_covered I span)"
  shows "line_of I (fst span) \<le> li \<and> li \<le> last_line_of I span \<and> li < line_count I"
proof -
  have "li \<le> line_count I - 1" "line_of I (fst span) < line_count I"
    using assms line_of_spec [OF assms(1,2), of "fst span"] by (auto simp: lines_covered_def)
  then show ?thesis using assms(3) by (auto simp: lines_covered_def)
qed

lemma group_spans_wf:
  assumes "lines_wf I" "li_content I \<noteq> []"
  shows "hits_wf I (group_spans_by_line I spans)"
proof -
  have keys: "map hit_idx (group_spans_by_line I spans) = Mapping.ordered_keys (spans_by_line I spans)"
    by (simp add: group_spans_by_line_def Let_def comp_def)
  have "ascending (map hit_idx (group_spans_by_line I spans))"
    unfolding keys by (simp add: strict_sorted_iff Mapping.ordered_keys_def)
  moreover have "li < line_count I" if "li \<in> hit_idx ` set (group_spans_by_line I spans)" for li
  proof -
    have "li \<in> set (Mapping.ordered_keys (spans_by_line I spans))" using that by (simp flip: keys)
    then have "li \<in> Mapping.keys (spans_by_line I spans)" by (simp add: Mapping.ordered_keys_def finite_spans_by_line)
    then show ?thesis using lines_covered_bound [OF assms] by (auto simp: keys_spans_by_line)
  qed
  ultimately show ?thesis by (auto simp: hits_wf_def)
qed

text \<open>What the grouping of replacements keeps: the hits ascend to the line reached, and texts stand beside ranges.\<close>

definition pieces_ok :: "line_index \<Rightarrow> nat \<Rightarrow> line_hit list \<times> byte list list list \<Rightarrow> bool" where
  "pieces_ok I low = (\<lambda>(hits, texts).
     ascending (map hit_idx hits) \<and> (\<forall>h\<in>set hits. hit_idx h \<le> low \<and> hit_idx h < line_count I) \<and>
     list_all2 (\<lambda>h ts. length ts = length (hit_spans h)) hits texts)"

lemma pieces_ok_mono: "pieces_ok I low acc \<Longrightarrow> low \<le> low' \<Longrightarrow> pieces_ok I low' acc"
  by (fastforce simp: pieces_ok_def)

lemma push_piece_ok:
  assumes "pieces_ok I low acc" "low \<le> li" "li < line_count I"
  shows "pieces_ok I li (push_piece I span li x acc)"
proof -
  obtain hits texts where acc: "acc = (hits, texts)" by (cases acc)
  have ok: "ascending (map hit_idx hits)" "\<And>h. h \<in> set hits \<Longrightarrow> hit_idx h \<le> low \<and> hit_idx h < line_count I"
    "list_all2 (\<lambda>h ts. length ts = length (hit_spans h)) hits texts"
    using assms(1) by (auto simp: pieces_ok_def acc)
  show ?thesis
  proof (cases "hits = [] \<or> hit_idx (last hits) \<noteq> li")
    case True
    have "hit_idx h < li" if "h \<in> set hits" for h
    proof -
      from that obtain hs where hs: "hits = hs @ [last hits]" by (metis append_butlast_last_id empty_iff empty_set)
      have "hit_idx (last hits) < li" using True ok(2) [of "last hits"] hs assms(2) that by (cases hits) auto
      moreover have "hit_idx h \<le> hit_idx (last hits)"
        using ok(1) that by (subst (asm) (1 2) hs) (auto simp: sorted_wrt_append)
      ultimately show ?thesis by simp
    qed
    then show ?thesis using True ok assms(2,3)
      by (auto simp: acc push_piece_def pieces_ok_def sorted_wrt_append list_all2_appendI less_imp_le)
  next
    case False
    then obtain hs h where hs: "hits = hs @ [h]" "hit_idx h = li" by (metis append_butlast_last_id)
    obtain tss ts where ts: "texts = tss @ [ts]" "list_all2 (\<lambda>h ts. length ts = length (hit_spans h)) hs tss" "length ts = length (hit_spans h)"
      using ok(3) unfolding hs(1) by (auto simp: list_all2_append1 list_all2_Cons1)
    show ?thesis using ok(1,2) assms(2,3) hs(2) ts
      by (auto simp: acc push_piece_def pieces_ok_def hs(1) sorted_wrt_append list_all2_appendI intro: order_trans)
  qed
qed

lemma push_pieces_ok:
  "pieces_ok I low acc \<Longrightarrow> low \<le> a \<Longrightarrow> b \<le> line_count I \<Longrightarrow>
   pieces_ok I (if a < b then b - 1 else low) (push_pieces I span [a..<b] x acc)"
proof (induction "b - a" arbitrary: a low x acc)
  case (Suc n)
  then have ab: "a < b" by simp
  have step: "pieces_ok I a (push_piece I span a x acc)" using Suc.prems ab by (intro push_piece_ok) auto
  have "pieces_ok I (if Suc a < b then b - 1 else a) (push_pieces I span [Suc a..<b] [] (push_piece I span a x acc))"
    using Suc.hyps(2) Suc.prems(3) by (intro Suc.hyps(1) pieces_ok_mono [OF step]) auto
  then have "pieces_ok I (b - 1) (push_pieces I span [Suc a..<b] [] (push_piece I span a x acc))"
    by (rule pieces_ok_mono) (use ab in auto)
  then show ?case using ab by (simp add: upt_conv_Cons)
qed simp

lemma group_replacements_ok:
  assumes wf: "lines_wf I" "li_content I \<noteq> []"
  shows "in_order (length (li_content I)) pos reps \<Longrightarrow> pieces_ok I (line_of I pos) acc \<Longrightarrow>
    \<exists>low. pieces_ok I low (fold (\<lambda>(span, x). push_pieces I span (lines_covered I span) x) reps acc)"
proof (induction reps arbitrary: pos acc)
  case (Cons rep reps)
  obtain s e x where rep: "rep = ((s, e), x)" by (metis prod.collapse)
  have o: "pos \<le> s" "s \<le> e" "in_order (length (li_content I)) e reps" using Cons.prems(1) by (auto simp: rep)
  have e: "e \<le> length (li_content I)" using in_order_le [OF o(3)] .
  note m = match_lines [OF wf o(2) e]
  have ls: "lines_covered I (s, e) = [line_of I s..<last_line_of I (s, e) + 1]"
  proof -
    have "min (last_line_of I (s, e)) (line_count I - 1) = last_line_of I (s, e)" using m(2) by linarith
    then show ?thesis by (simp add: lines_covered_def)
  qed
  have "pieces_ok I (last_line_of I (s, e)) (push_pieces I (s, e) (lines_covered I (s, e)) x acc)"
    using push_pieces_ok [OF Cons.prems(2) line_of_mono [OF wf(1) o(1)], of "last_line_of I (s, e) + 1"] m(1,2)
    unfolding ls by simp
  moreover have "last_line_of I (s, e) \<le> line_of I e"
    using line_of_mono [OF wf(1), of "e - 1" e] o(2) by (auto simp: last_line_of_def intro: line_of_mono [OF wf(1)])
  ultimately have "pieces_ok I (line_of I e) (push_pieces I (s, e) (lines_covered I (s, e)) x acc)"
    by (rule pieces_ok_mono)
  from Cons.IH [OF o(3) this] show ?case by (simp add: rep)
qed auto

lemma group_replacements_wf:
  assumes "lines_wf I" "li_content I \<noteq> []" "in_order (length (li_content I)) 0 reps"
    and "group_replacements_by_line I reps = (hits, texts)"
  shows "hits_wf I hits" "list_all2 (\<lambda>h ts. length ts = length (hit_spans h)) hits texts"
  using group_replacements_ok [OF assms(1-3), of "([], [])"] assms(4)
  by (auto simp: group_replacements_by_line_def pieces_ok_def hits_wf_def)

lemma in_order_take: "in_order stop pos reps \<Longrightarrow> in_order stop pos (take n reps)"
proof (induction stop pos reps arbitrary: n rule: in_order.induct)
  case (2 stop pos s e x reps)
  then show ?case using in_order_le [of stop e reps] by (cases n) auto
qed simp

text \<open>The captures of an engine: the matches in order, each with what it expands to.\<close>

definition ordered_captures :: "std_regex \<Rightarrow> bool" where
  "ordered_captures re \<longleftrightarrow>
     (\<forall>hay rep. in_order (length hay) 0 (map (\<lambda>(m, expand). (m, expand rep)) (re_captures_iter re hay)))"

lemma expansions_in_order:
  assumes "ordered_captures re" "expansions_upto (Standard re dotall) hay rep n = Inr reps"
  shows "in_order (length hay) 0 reps"
  using assms by (auto simp: expansions_upto_def ordered_captures_def take_map [symmetric] intro!: in_order_take)

lemma line_run_filter: "\<exists>ms. line_run stop started selected lis = filter selected ms \<and> (\<exists>as bs. lis = as @ ms @ bs)"
proof (cases stop)
  case True
  let ?rest = "if started then lis else dropWhile (\<lambda>li. \<not> selected li) lis"
  have "filter selected (takeWhile selected ?rest) = takeWhile selected ?rest"
    by (simp add: filter_id_conv) (metis set_takeWhileD)
  moreover have "\<exists>as. lis = as @ ?rest" by (auto intro: exI [of _ "takeWhile (\<lambda>li. \<not> selected li) lis"])
  then have "\<exists>as bs. lis = as @ takeWhile selected ?rest @ bs" by (metis takeWhile_dropWhile_id)
  ultimately show ?thesis using True unfolding line_run_def by metis
next
  case False
  then have "line_run stop started selected lis = filter selected lis" "lis = [] @ lis @ []" by (simp_all add: line_run_def)
  then show ?thesis by metis
qed

lemma line_run_wf:
  "ascending (at_most limit (line_run stop started selected [0..<n]))"
  "li \<in> set (at_most limit (line_run stop started selected [0..<n])) \<Longrightarrow> li < n \<and> selected li"
proof -
  obtain ms as bs where ms: "line_run stop started selected [0..<n] = filter selected ms" "[0..<n] = as @ ms @ bs"
    using line_run_filter by blast
  have "ascending (as @ ms @ bs)" by (simp flip: ms(2))
  then have "ascending (line_run stop started selected [0..<n])" unfolding ms(1) by (simp add: sorted_wrt_append sorted_wrt_filter)
  then show "ascending (at_most limit (line_run stop started selected [0..<n]))"
    by (auto simp: at_most_def sorted_wrt_take split: option.split)
  have "set (as @ ms @ bs) \<subseteq> {0..<n}" by (simp flip: ms(2))
  then show "li \<in> set (at_most limit (line_run stop started selected [0..<n])) \<Longrightarrow> li < n \<and> selected li"
    by (fastforce simp: at_most_def ms(1) split: option.splits dest: in_set_takeD)
qed

lemma map_result_length: "map_result f xs = Inr ys \<Longrightarrow> length ys = length xs"
  by (induction xs arbitrary: ys) auto

lemma take_replacements_length [simp]: "length (take_replacements reps spans) = length spans"
  by (induction reps spans rule: take_replacements.induct) (auto split: list.split)

lemma map_result_replacements:
  "map_result (\<lambda>hit. line_replacements matcher (f hit) (hit_spans hit) rep) hits = Inr texts \<Longrightarrow>
   list_all2 (\<lambda>h ts. length ts = length (hit_spans h)) hits texts"
  by (induction hits arbitrary: texts) (auto simp: line_replacements_def)

lemma find_multiline_cases:
  assumes "find_multiline parse I content matcher opts = Inr fm"
  shows "fm_index fm = I \<and>
    ((\<exists>ss. fm_hits fm = group_spans_by_line I ss \<and> fm_replacements fm = []) \<or>
     (\<exists>rep n reps. expansions_upto matcher content rep n = Inr reps \<and>
       group_replacements_by_line I reps = (fm_hits fm, fm_replacements fm)))"
proof -
  obtain spans where spans: "find_spans matcher content = Inr spans"
    using assms by (auto simp: find_multiline_def)
  let ?spans = "limit_to_line_blocks I (drop_eof_match content spans) (max_count opts)"
  show ?thesis
  proof (cases "replace opts")
    case None
    then show ?thesis using assms by (auto simp: find_multiline_def spans Let_def split: if_splits)
  next
    case (Some rep)
    show ?thesis
    proof (cases "report_replacements opts")
      case True
      then obtain reps where reps: "expansions_upto matcher content rep (length ?spans) = Inr reps"
        using assms Some by (auto simp: find_multiline_def spans Let_def)
      obtain hits texts where "group_replacements_by_line I reps = (hits, texts)" by (rule prod.exhaust)
      then show ?thesis using assms Some True reps by (auto simp: find_multiline_def spans Let_def)
    next
      case False
      then show ?thesis using assms Some by (auto simp: find_multiline_def spans Let_def split: if_splits)
    qed
  qed
qed

lemma found_matches_wf:
  assumes "finds_all memchr_iter" "content \<noteq> []"
    and "leftmost_engine re starts" "pattern_is_anchor_free (re_as_str re) \<longrightarrow> line_local starts" "ordered_captures re"
    and found: "find_in_file memchr_iter parse content (Standard re dotall) opts = Inr fm"
  shows "fm_index fm = line_index_new memchr_iter content" "hits_wf (fm_index fm) (fm_hits fm)"
    "fm_replacements fm = [] \<or> list_all2 (\<lambda>h ts. length ts = length (hit_spans h)) (fm_hits fm) (fm_replacements fm)"
proof -
  let ?I = "line_index_new memchr_iter content"
  have wf: "lines_wf ?I" and content: "li_content ?I = content" using line_index_new_wf [OF assms(1)] by simp_all
  note groups = group_spans_wf [OF wf, unfolded content, OF assms(2)]
    and reps = group_replacements_wf [OF wf, unfolded content, OF assms(2)]
  have "fm_index fm = ?I \<and> hits_wf ?I (fm_hits fm) \<and>
    (fm_replacements fm = [] \<or> list_all2 (\<lambda>h ts. length ts = length (hit_spans h)) (fm_hits fm) (fm_replacements fm))"
  proof (cases "max_count opts = Some 0")
    case True
    then have "fm = \<lparr>fm_index = ?I, fm_hits = [], fm_match_totals = (0, 0), fm_blocks = [], fm_replacements = []\<rparr>"
      using found by (simp add: find_in_file_def)
    then show ?thesis by (simp add: hits_wf_def)
  next
    case some: False
    show ?thesis
    proof (cases "multiline opts \<and> \<not> invert_match opts")
      case True
      then have f: "find_multiline parse ?I content (Standard re dotall) opts = Inr fm"
        using found some by (simp add: find_in_file_def)
      have "hits_wf ?I (fm_hits fm) \<and> list_all2 (\<lambda>h ts. length ts = length (hit_spans h)) (fm_hits fm) (fm_replacements fm)"
        if "expansions_upto (Standard re dotall) content rep n = Inr es"
          "group_replacements_by_line ?I es = (fm_hits fm, fm_replacements fm)" for rep n es
        using reps [OF expansions_in_order [OF assms(5) that(1)] that(2)] by simp
      then show ?thesis using find_multiline_cases [OF f] groups by auto
    next
      case False
      then have f: "find_by_line ?I content (Standard re dotall) opts = Inr fm"
        using found some by (auto simp: find_in_file_def)
      obtain hits where hits: "collect_hits content ?I (Standard re dotall) opts = Inr hits" "hits_wf ?I hits"
        using collect_hits_selects [OF assms(1) refl assms(3,4) some, of content dotall]
          line_run_wf by (auto simp: hits_wf_def comp_def)
      show ?thesis using f hits(2)
        by (auto simp: find_by_line_def hits(1) Let_def split: option.splits if_splits dest: map_result_replacements)
    qed
  qed
  then show "fm_index fm = ?I" "hits_wf (fm_index fm) (fm_hits fm)"
    "fm_replacements fm = [] \<or> list_all2 (\<lambda>h ts. length ts = length (hit_spans h)) (fm_hits fm) (fm_replacements fm)"
    by simp_all
qed

section \<open>A search selects its lines\<close>

text \<open>The derived default.\<close>

definition match_options_default :: match_options where
  "match_options_default =
     \<lparr>invert_match = False, multiline = False, only_matching = False, before_context = 0, after_context = 0,
      max_count = None, passthru = False, replace = None, stop_on_nonmatch = False, vimgrep = False,
      all_spans = False, replace_blocks = False, report_replacements = False\<rparr>"

text \<open>The lines a search by lines selects, and what it finds.\<close>

definition selected_lines :: "(byte list \<Rightarrow> nat set) \<Rightarrow> match_options \<Rightarrow> line_index \<Rightarrow> nat list" where
  "selected_lines starts opts I = at_most (max_count opts) (line_run (stop_on_nonmatch opts) False
     (\<lambda>li. line_selected starts opts (line_text I li)) [0..<line_count I])"

definition spans_of_line :: "std_regex \<Rightarrow> match_options \<Rightarrow> line_index \<Rightarrow> nat \<Rightarrow> span list" where
  "spans_of_line re opts I li = (if invert_match opts then [] else line_spans re (all_spans opts) (line_text I li))"

definition found_by_line :: "std_regex \<Rightarrow> (byte list \<Rightarrow> nat set) \<Rightarrow> match_options \<Rightarrow> line_index \<Rightarrow> file_matches" where
  "found_by_line re starts opts I =
     (let hits = map (\<lambda>li. \<lparr>hit_idx = li, hit_spans = spans_of_line re opts I li\<rparr>) (selected_lines starts opts I)
      in \<lparr>fm_index = I, fm_hits = hits, fm_match_totals = (\<Sum>h\<leftarrow>hits. length (hit_spans h), length hits),
          fm_blocks = [], fm_replacements = []\<rparr>)"

lemma find_in_file_by_line:
  assumes "finds_all memchr_iter" "I = line_index_new memchr_iter content"
    and "leftmost_engine re starts" "pattern_is_anchor_free (re_as_str re) \<longrightarrow> line_local starts"
    and "\<not> multiline opts \<or> invert_match opts" "replace opts = None \<or> \<not> report_replacements opts"
  shows "find_in_file memchr_iter parse content (Standard re dotall) opts = Inr (found_by_line re starts opts I)"
proof (cases "max_count opts = Some 0")
  case True
  then show ?thesis by (simp add: find_in_file_def found_by_line_def selected_lines_def at_most_def assms(2))
next
  case False
  show ?thesis using collect_hits_selects [OF assms(1-4) False, of dotall] False assms(2,5,6)
    by (auto simp: find_in_file_def find_by_line_def found_by_line_def selected_lines_def spans_of_line_def Let_def split: option.split)
qed

lemma found_by_line_simps [simp]:
  "fm_index (found_by_line re starts opts I) = I" "fm_blocks (found_by_line re starts opts I) = []"
  "fm_replacements (found_by_line re starts opts I) = []"
  "map hit_idx (fm_hits (found_by_line re starts opts I)) = selected_lines starts opts I"
  "fm_hits (found_by_line re starts opts I) =
     map (\<lambda>li. \<lparr>hit_idx = li, hit_spans = spans_of_line re opts I li\<rparr>) (selected_lines starts opts I)"
  by (simp_all add: found_by_line_def Let_def comp_def)

lemma found_by_line_wf: "hits_wf I (fm_hits (found_by_line re starts opts I))"
  using line_run_wf unfolding selected_lines_def by (auto simp: hits_wf_def comp_def selected_lines_def)

lemma found_by_line_counts:
  assumes "leftmost_engine re starts"
  shows "matched_lines (found_by_line re starts opts I) = length (selected_lines starts opts I)"
    "match_count (found_by_line re starts opts I) =
      (if invert_match opts then length (selected_lines starts opts I)
       else (\<Sum>li\<leftarrow>selected_lines starts opts I. length (spans_of_line re opts I li)))"
proof -
  have "spans_of_line re opts I li \<noteq> []" if "li \<in> set (selected_lines starts opts I)" "\<not> invert_match opts" for li
    using line_run_wf(2) [OF that(1) [unfolded selected_lines_def]] that(2) line_spans_found [OF assms]
    by (simp add: line_selected_def spans_of_line_def)
  then have "(\<Sum>li\<leftarrow>selected_lines starts opts I. length (spans_of_line re opts I li)) = 0 \<longleftrightarrow>
      invert_match opts \<or> selected_lines starts opts I = []"
    by (cases "invert_match opts") (auto simp: spans_of_line_def)
  then show "match_count (found_by_line re starts opts I) =
      (if invert_match opts then length (selected_lines starts opts I)
       else (\<Sum>li\<leftarrow>selected_lines starts opts I. length (spans_of_line re opts I li)))"
    by (auto simp: match_count_def found_by_line_def Let_def comp_def)
  show "matched_lines (found_by_line re starts opts I) = length (selected_lines starts opts I)"
    by (simp add: matched_lines_def)
qed

text \<open>C21. A search by lines keeps exactly the lines the pattern selects, in order: no more than
  \<^verbatim>\<open>--max-count\<close> of them, with \<^verbatim>\<open>--stop-on-nonmatch\<close> only the first run, under \<^verbatim>\<open>-v\<close> the
  lines without a match; its counts are theirs.\<close>

theorem search_selects_its_lines:
  assumes "finds_all memchr_iter" "I = line_index_new memchr_iter content"
    and "leftmost_engine re starts" "pattern_is_anchor_free (re_as_str re) \<longrightarrow> line_local starts"
    and "\<not> multiline opts \<or> invert_match opts" "replace opts = None \<or> \<not> report_replacements opts"
  shows "\<exists>fm. find_in_file memchr_iter parse content (Standard re dotall) opts = Inr fm \<and>
    map hit_idx (fm_hits fm) = at_most (max_count opts) (line_run (stop_on_nonmatch opts) False
      (\<lambda>li. line_selected starts opts (line_text I li)) [0..<line_count I]) \<and>
    (\<forall>h\<in>set (fm_hits fm). hit_spans h =
       (if invert_match opts then [] else line_spans re (all_spans opts) (line_text I (hit_idx h)))) \<and>
    matched_lines fm = length (fm_hits fm) \<and>
    match_count fm = (if invert_match opts then length (fm_hits fm) else (\<Sum>h\<leftarrow>fm_hits fm. length (hit_spans h)))"
proof -
  let ?fm = "found_by_line re starts opts I"
  have "find_in_file memchr_iter parse content (Standard re dotall) opts = Inr ?fm"
    by (rule find_in_file_by_line [OF assms])
  then show ?thesis using found_by_line_counts [OF assms(3), of opts I]
    by (intro exI [of _ ?fm] conjI) (auto simp: comp_def selected_lines_def spans_of_line_def matched_lines_def)
qed

theorem search_selects_its_lines_witness:
  "\<exists>fm. find_in_file all_bytes (\<lambda>pattern dotall. None) [0x61, 0x0A, 0x62] (Standard (byte_engine 0x62) False)
      (match_options_default\<lparr>invert_match := True\<rparr>) = Inr fm \<and> map hit_idx (fm_hits fm) = [0]"
proof -
  let ?I = "line_index_new all_bytes [0x61, 0x0A, 0x62]" and ?opts = "match_options_default\<lparr>invert_match := True\<rparr>"
  have starts: "li_starts ?I = [0, 2]" "li_content ?I = [0x61, 0x0A, 0x62]" by code_simp+
  have "line_text ?I 0 = [0x61]" "line_text ?I 1 = [0x62]" "line_count ?I = 2"
    by (simp_all add: line_text_def line_end_def line_start_def starts slice_def Let_def line_count_def)
  moreover have "all_bytes 0x62 [0x61] = []" "all_bytes 0x62 [0x62] = [0]" by (simp_all add: all_bytes_def)
  ultimately have "at_most (max_count ?opts) (line_run (stop_on_nonmatch ?opts) False
      (\<lambda>li. line_selected (\<lambda>hay. set (all_bytes 0x62 hay)) ?opts (line_text ?I li)) [0..<line_count ?I]) = [0]"
    by (simp add: at_most_def line_run_def line_selected_def match_options_default_def numeral_2_eq_2)
  moreover have "\<not> multiline ?opts \<or> invert_match ?opts" "replace ?opts = None \<or> \<not> report_replacements ?opts"
    by (simp_all add: match_options_default_def)
  ultimately show ?thesis
    using search_selects_its_lines [where opts = ?opts and content = "[0x61, 0x0A, 0x62]" and dotall = False
        and parse = "\<lambda>pattern dotall. None", OF all_bytes_finds_all refl byte_engine_leftmost [where b = "0x62"]] byte_engine_local by auto
qed

section \<open>What is printed is the window\<close>

definition in_window :: "match_options \<Rightarrow> line_hit list \<Rightarrow> nat \<Rightarrow> bool" where
  "in_window opts hits li \<longleftrightarrow>
     passthru opts \<or> (\<exists>h\<in>set hits. hit_idx h \<le> li + before_context opts \<and> li \<le> hit_idx h + after_context opts)"

lemma hit_on_hits:
  assumes "hits_wf I hits"
  shows "hit_on hits li = Some h \<longleftrightarrow> h \<in> set hits \<and> hit_idx h = li"
proof -
  have "distinct (map fst (map (\<lambda>h. (hit_idx h, h)) (rev hits)))"
    using ascending_distinct [of "map hit_idx hits"] assms by (simp add: hits_wf_def comp_def rev_map [symmetric])
  then show ?thesis by (auto simp: hit_on_def)
qed

lemma each_map: "each body (map f xs) = each (\<lambda>x. body (f x)) xs"
proof
  show "each body (map f xs) s = each (\<lambda>x. body (f x)) xs s" for s
    by (induction xs arbitrary: s) (auto split: prod.split option.split)
qed

lemma each_cong [fundef_cong]:
  "xs = ys \<Longrightarrow> (\<And>x. x \<in> set ys \<Longrightarrow> f x = g x) \<Longrightarrow> each f xs = each g ys"
proof -
  have "(\<And>x. x \<in> set ys \<Longrightarrow> f x = g x) \<Longrightarrow> each f ys s = each g ys s" for s
    by (induction ys arbitrary: s) (auto split: prod.split option.split)
  then show "xs = ys \<Longrightarrow> (\<And>x. x \<in> set ys \<Longrightarrow> f x = g x) \<Longrightarrow> each f xs = each g ys" by blast
qed

lemma emit_hits_as_lines:
  assumes "hits_wf I (fm_hits fm)"
  shows "each (emit_hit from_error fm opts matcher on_emit) (fm_hits fm) =
    each (emit_line from_error fm opts matcher on_emit) (map hit_idx (fm_hits fm))"
  unfolding each_map by (rule each_cong) (auto simp: emit_line_def hit_on_hits [OF assms, THEN iffD2])

lemma for_each_window:
  assumes hits: "hits_wf (fm_index fm) (fm_hits fm)" and blocks: "fm_blocks fm = []"
    and small: "line_count (fm_index fm) + after_context opts < 2 ^ 64"
  shows "for_each memchr from_error fm opts matcher on_emit =
    each (emit_line from_error fm opts matcher on_emit)
      (filter (in_window opts (fm_hits fm)) [0..<line_count (fm_index fm)])"
proof (cases "passthru opts")
  case True
  then show ?thesis by (simp add: for_each_def blocks in_window_def)
next
  case False
  have lines: "hit_idx h < line_count (fm_index fm)" if "h \<in> set (fm_hits fm)" for h using hits that by (simp add: hits_wf_def)
  have asc: "ascending (map hit_idx (fm_hits fm))" using hits by (simp add: hits_wf_def)
  show ?thesis
  proof (cases "before_context opts = 0 \<and> after_context opts = 0")
    case True
    have "map hit_idx (fm_hits fm) = filter (in_window opts (fm_hits fm)) [0..<line_count (fm_index fm)]"
      by (rule ascending_eqI [OF asc]) (use True False lines in \<open>auto simp: in_window_def\<close>)
    then show ?thesis using True False by (simp add: for_each_def blocks emit_hits_as_lines [OF hits])
  next
    case windowed: False
    have small': "\<forall>mi\<in>set (map hit_idx (fm_hits fm)). mi + after_context opts + 1 < 2 ^ 64"
    proof
      fix mi assume "mi \<in> set (map hit_idx (fm_hits fm))"
      then have "mi < line_count (fm_index fm)" using lines by auto
      then show "mi + after_context opts + 1 < 2 ^ 64" using small by linarith
    qed
    note w = context_window [OF small', of "line_count (fm_index fm)" "before_context opts"]
    have "expand_context_window (map hit_idx (fm_hits fm)) (line_count (fm_index fm)) (before_context opts) (after_context opts) =
        filter (in_window opts (fm_hits fm)) [0..<line_count (fm_index fm)]"
      by (rule ascending_eqI [OF w(1)]) (use False in \<open>auto simp: w(2) in_window_def\<close>)
    then show ?thesis using windowed False by (auto simp: for_each_def blocks)
  qed
qed

lemma line_count_le:
  assumes "lines_wf I"
  shows "line_count I \<le> length (li_content I)"
proof -
  have "li \<le> line_start I li" if "li \<le> line_count I" for li
    using that
  proof (induction li)
    case (Suc li)
    then show ?case using line_start_less(1) [OF assms, of li] by simp
  qed simp
  from this [of "line_count I"] show ?thesis using line_start_count [OF assms, of "line_count I"] by simp
qed

lemma found_without_replace:
  assumes none: "replace opts = None" and found: "find_in_file memchr_iter parse content matcher opts = Inr fm"
  shows "fm_blocks fm = [] \<and> fm_replacements fm = []"
proof -
  let ?I = "line_index_new memchr_iter content"
  consider "max_count opts = Some 0" | "find_multiline parse ?I content matcher opts = Inr fm" | "find_by_line ?I content matcher opts = Inr fm"
    using found by (auto simp: find_in_file_def Let_def split: if_splits)
  then show ?thesis
  proof cases
    case 1
    then show ?thesis using found by (auto simp: find_in_file_def)
  next
    case 2
    then obtain spans where "find_spans matcher content = Inr spans" by (auto simp: find_multiline_def)
    then show ?thesis using 2 none by (cases "vimgrep opts") (auto simp: find_multiline_def Let_def)
  next
    case 3
    then obtain hits where "collect_hits content ?I matcher opts = Inr hits" by (auto simp: find_by_line_def)
    then show ?thesis using 3 none by (auto simp: find_by_line_def Let_def)
  qed
qed

lemma plain_hit_rows:
  "fm_replacements fm = [] \<Longrightarrow> replace opts = None \<Longrightarrow> \<not> only_matching opts \<Longrightarrow>
   hit_rows fm opts matcher hit =
     Inr [whole_line_row (fm_index fm) hit (line_text (fm_index fm) (hit_idx hit)) (hit_spans hit) [] None]"
  by (simp add: hit_rows_def replacements_of_def Let_def)

lemma each_single: "each body [x] = body x"
proof
  show "each body [x] s = body x s" for s by (simp split: prod.split option.split)
qed

text \<open>C20. What is printed is the window: the walk hands out, in order and until the callback fails, the rows of exactly
  the lines within reach of a hit, or of all lines under \<^verbatim>\<open>--passthru\<close>; without replacement
  every such line is one row with its number, text and place, marked a match when it is a hit.\<close>

theorem window_is_printed:
  assumes "finds_all memchr_iter" "I = line_index_new memchr_iter content" "content \<noteq> []"
    and "leftmost_engine re starts" "pattern_is_anchor_free (re_as_str re) \<longrightarrow> line_local starts" "ordered_captures re"
    and "find_in_file memchr_iter parse content (Standard re dotall) opts = Inr fm" "fm_blocks fm = []"
    and "length content + after_context opts < 2 ^ 64" "printed = filter (in_window opts (fm_hits fm)) [0..<line_count I]"
  shows "for_each memchr from_error fm opts (Standard re dotall) on_emit =
      each (emit_line from_error fm opts (Standard re dotall) on_emit) printed \<and>
    (\<forall>li h. hit_on (fm_hits fm) li = Some h \<longleftrightarrow> h \<in> set (fm_hits fm) \<and> hit_idx h = li) \<and>
    (replace opts = None \<longrightarrow> \<not> only_matching opts \<longrightarrow>
      for_each memchr from_error fm opts (Standard re dotall) on_emit =
        each on_emit (map (\<lambda>li. case hit_on (fm_hits fm) li of
          Some h \<Rightarrow> whole_line_row I h (line_text I li) (hit_spans h) [] None
        | None \<Rightarrow> context_line I li) printed))"
proof -
  note f = found_matches_wf [OF assms(1,3-7), folded assms(2)]
  have "line_count I \<le> length content" using line_count_le line_index_new_wf [OF assms(1)] assms(2) by fastforce
  then have walk: "for_each memchr from_error fm opts (Standard re dotall) on_emit =
      each (emit_line from_error fm opts (Standard re dotall) on_emit) printed"
    unfolding assms(10) using for_each_window [OF f(2) assms(8)] f(1) assms(9)
    by (metis add_le_mono1 le_less_trans)
  note hits = hit_on_hits [OF f(2)]
  have "emit_line from_error fm opts (Standard re dotall) on_emit li = on_emit (case hit_on (fm_hits fm) li of
      Some h \<Rightarrow> whole_line_row I h (line_text I li) (hit_spans h) [] None | None \<Rightarrow> context_line I li)"
    if "replace opts = None" "\<not> only_matching opts" for li
  proof (cases "hit_on (fm_hits fm) li")
    case None
    then show ?thesis using f(1) by (simp add: emit_line_def)
  next
    case (Some h)
    then have "hit_idx h = li" using hits by blast
    then show ?thesis using Some plain_hit_rows [OF _ that] found_without_replace [OF that(1) assms(7)] f(1)
      by (simp add: emit_line_def emit_hit_def each_single)
  qed
  then have "each (emit_line from_error fm opts (Standard re dotall) on_emit) printed =
      each on_emit (map (\<lambda>li. case hit_on (fm_hits fm) li of
        Some h \<Rightarrow> whole_line_row I h (line_text I li) (hit_spans h) [] None | None \<Rightarrow> context_line I li) printed)"
    if "replace opts = None" "\<not> only_matching opts"
    unfolding each_map using that by (intro each_cong) auto
  then show ?thesis using walk hits by simp
qed

lemma singles_in_order:
  "ascending xs \<Longrightarrow> \<forall>x\<in>set xs. pos \<le> x \<and> x < n \<Longrightarrow> pos \<le> n \<Longrightarrow> in_order n pos (map (\<lambda>i. ((i, i + 1), rep)) xs)"
proof (induction xs arbitrary: pos)
  case (Cons x xs)
  have "in_order n (x + 1) (map (\<lambda>i. ((i, i + 1), rep)) xs)"
    by (rule Cons.IH) (use Cons.prems in \<open>auto simp: Suc_le_eq\<close>)
  then show ?case using Cons.prems(2) by simp
qed simp

lemma byte_engine_captures: "ordered_captures (byte_engine b)"
  unfolding ordered_captures_def
proof (intro allI)
  fix hay rep
  have "in_order (length hay) 0 (map (\<lambda>i. ((i, i + 1), rep)) (all_bytes b hay))"
    by (rule singles_in_order) (auto simp: all_bytes_def sorted_wrt_filter)
  then show "in_order (length hay) 0 (map (\<lambda>(m, expand). (m, expand rep)) (re_captures_iter (byte_engine b) hay))"
    by (simp add: byte_engine_def comp_def)
qed

theorem window_is_printed_witness:
  "\<exists>fm. find_in_file all_bytes (\<lambda>pattern dotall. None) [0x61, 0x0A, 0x62, 0x0A, 0x63] (Standard (byte_engine 0x62) False)
      (match_options_default\<lparr>after_context := 1\<rparr>) = Inr fm \<and>
    for_each (\<lambda>b bytes. None) id fm (match_options_default\<lparr>after_context := 1\<rparr>) (Standard (byte_engine 0x62) False)
      (\<lambda>row rows. (rows @ [row], None)) [] =
    ([whole_line_row (fm_index fm) \<lparr>hit_idx = 1, hit_spans = [(0, 1)]\<rparr> [0x62] [(0, 1)] [] None,
      context_line (fm_index fm) 2], None)"
proof -
  let ?content = "[0x61, 0x0A, 0x62, 0x0A, 0x63] :: byte list" and ?opts = "match_options_default\<lparr>after_context := 1\<rparr>"
  let ?I = "line_index_new all_bytes ?content" and ?hit = "\<lparr>hit_idx = 1, hit_spans = [(0, 1)]\<rparr>"
  let ?fm = "\<lparr>fm_index = ?I, fm_hits = [?hit], fm_match_totals = (1, 1), fm_blocks = [], fm_replacements = []\<rparr>"
  let ?on_emit = "\<lambda>row rows. (rows @ [row], None)"
  have found: "find_in_file all_bytes (\<lambda>pattern dotall. None) ?content (Standard (byte_engine 0x62) False) ?opts = Inr ?fm"
    by code_simp
  have lines: "line_count ?I = 3" "line_text ?I 1 = [0x62]" by code_simp+
  have printed: "filter (in_window ?opts (fm_hits ?fm)) [0..<line_count ?I] = [1, 2]"
    by (simp add: lines in_window_def match_options_default_def numeral_3_eq_3)
  have on: "hit_on (fm_hits ?fm) 1 = Some ?hit" "hit_on (fm_hits ?fm) 2 = None" by (simp_all add: hit_on_def)
  have opts: "?content \<noteq> []" "fm_blocks ?fm = []" "replace ?opts = None" "\<not> only_matching ?opts"
    "length ?content + after_context ?opts < 2 ^ 64"
    "pattern_is_anchor_free (re_as_str (byte_engine 0x62)) \<longrightarrow> line_local (\<lambda>hay. set (all_bytes 0x62 hay))"
    using byte_engine_local by (simp_all add: match_options_default_def)
  have "for_each (\<lambda>b bytes. None) id ?fm ?opts (Standard (byte_engine 0x62) False) ?on_emit =
      each ?on_emit (map (\<lambda>li. case hit_on (fm_hits ?fm) li of
          Some h \<Rightarrow> whole_line_row ?I h (line_text ?I li) (hit_spans h) [] None
        | None \<Rightarrow> context_line ?I li) [1, 2])"
    using window_is_printed [OF all_bytes_finds_all refl opts(1) byte_engine_leftmost opts(6) byte_engine_captures found
        opts(2,5) printed [symmetric]] opts(3,4) by blast
  then show ?thesis using found lines(2) on by (intro exI [of _ ?fm]) simp
qed

section \<open>A multiline replacement prints the rewritten file\<close>

definition row_content :: "emit \<Rightarrow> byte list" where
  "row_content row = (case row of EmitMatch r \<Rightarrow> m_content r | EmitContext r \<Rightarrow> c_content r)"

definition row_terminator_len :: "emit \<Rightarrow> nat" where
  "row_terminator_len row = (case row of EmitMatch r \<Rightarrow> m_terminator_len r | EmitContext r \<Rightarrow> c_terminator_len r)"

definition terminators :: "byte list set" where
  "terminators = {[], [0x0A], [0x0D, 0x0A], [0x0D]}"

text \<open>Rows print a text when it is their contents, each behind it a line terminator of the length the row states.\<close>

fun prints :: "emit list \<Rightarrow> byte list \<Rightarrow> bool" where
  "prints [] txt \<longleftrightarrow> txt = []"
| "prints (row # rows) txt \<longleftrightarrow>
     (let n = length (row_content row); stop = n + row_terminator_len row
      in stop \<le> length txt \<and> take n txt = row_content row \<and> slice txt n stop \<in> terminators \<and> prints rows (drop stop txt))"

lemma prints_Cons:
  "row_content row = c \<Longrightarrow> row_terminator_len row = length t \<Longrightarrow> t \<in> terminators \<Longrightarrow> prints rows txt \<Longrightarrow>
   prints (row # rows) (c @ t @ txt)"
  by (simp add: Let_def slice_def)

lemma prints_append: "prints rows a \<Longrightarrow> prints rows' b \<Longrightarrow> prints (rows @ rows') (a @ b)"
proof (induction rows a rule: prints.induct)
  case (2 row rows a)
  then show ?case by (auto simp: Let_def slice_def)
qed simp

lemma prints_single:
  "a \<le> e \<Longrightarrow> e \<le> stop \<Longrightarrow> stop \<le> length bytes \<Longrightarrow> row_content row = slice bytes a e \<Longrightarrow> row_terminator_len row = stop - e \<Longrightarrow>
   slice bytes e stop \<in> terminators \<Longrightarrow> prints [row] (slice bytes a stop)"
  using prints_Cons [of row "slice bytes a e" "slice bytes e stop" "[]" "[]"] by (simp add: slice_append length_slice)

lemma terminator_ends:
  assumes "pos < stop" "stop \<le> length bytes"
    and "e1 = (if bytes ! (stop - 1) = 0x0A then stop - 1 else stop)"
    and "e2 = (if e1 > pos \<and> bytes ! (e1 - 1) = 0x0D then e1 - 1 else e1)"
  shows "pos \<le> e2 \<and> e2 \<le> stop \<and> slice bytes e2 stop \<in> terminators"
proof -
  have nl: "slice bytes (stop - 1) stop = [bytes ! (stop - 1)]" using slice_one [of stop bytes] assms(1,2) by simp
  have two: "slice bytes (stop - 2) stop = [bytes ! (stop - 2), bytes ! (stop - 1)]" if "pos < stop - 1"
    using slice_two [of stop bytes] that assms(2) by simp
  have nil: "slice bytes stop stop = []" by (simp add: slice_def)
  show ?thesis using assms nl two nil by (auto simp: terminators_def numeral_2_eq_2)
qed

lemma plain_rows_print:
  assumes "finds_first memchr" "bytes = rb_text block"
  shows "prints (plain_rows block column (lines_from memchr bytes pos) k c) (drop pos bytes)"
proof (induction "length bytes - pos" arbitrary: pos k c rule: less_induct)
  case less
  show ?case
  proof (cases "pos < length bytes")
    case True
    let ?stop = "case memchr 0x0A (drop pos bytes) of Some i \<Rightarrow> pos + i + 1 | None \<Rightarrow> length bytes"
    let ?e1 = "if bytes ! (?stop - 1) = 0x0A then ?stop - 1 else ?stop"
    let ?e2 = "if ?e1 > pos \<and> bytes ! (?e1 - 1) = 0x0D then ?e1 - 1 else ?e1"
    have stop: "pos < ?stop" "?stop \<le> length bytes"
    proof -
      have "i < length (drop pos bytes)" if "memchr 0x0A (drop pos bytes) = Some i" for i
        using assms(1) [unfolded finds_first_def, rule_format, of "0x0A" "drop pos bytes"] that by simp
      then show "pos < ?stop" "?stop \<le> length bytes" using True
        by (auto split: option.split simp: less_diff_conv Suc_le_eq add.commute)
    qed
    have lines: "lines_from memchr bytes pos = (pos, ?e2, ?stop) # lines_from memchr bytes ?stop"
      using True stop(1) by (subst lines_from.simps) (simp add: Let_def)
    note e = terminator_ends [OF stop refl refl]
    obtain src c' where c: "source_cursor_at block c pos = (src, c')" by (rule prod.exhaust)
    have "prints (plain_rows block column [(pos, ?e2, ?stop)] k c) (slice bytes pos ?stop)"
      unfolding plain_rows.simps c prod.case
      by (rule prints_single [OF _ _ stop(2)]) (use e assms(2) in \<open>auto simp: row_content_def row_terminator_len_def\<close>)
    moreover have "prints (plain_rows block column (lines_from memchr bytes ?stop) (k + 1) c') (drop ?stop bytes)"
      using less(1) stop True by simp
    moreover have "slice bytes pos ?stop @ drop ?stop bytes = drop pos bytes"
      using slice_append [of pos ?stop "length bytes" bytes] stop by (simp add: slice_def)
    ultimately have "prints (plain_rows block column [(pos, ?e2, ?stop)] k c @
        plain_rows block column (lines_from memchr bytes ?stop) (k + 1) c') (drop pos bytes)"
      using prints_append by metis
    then show ?thesis unfolding lines by (simp add: c)
  next
    case False
    then show ?thesis by (simp add: lines_from.simps)
  qed
qed

lemma block_rows_print:
  assumes "finds_first memchr" "\<not> only_matching opts" "\<not> vimgrep opts"
  shows "prints (block_rows memchr block opts) (rb_text block)"
proof -
  let ?rows = "plain_rows block (case rb_reps block of [] \<Rightarrow> 1 | rep # reps \<Rightarrow> fst (p_src rep) - rb_start block + 1)
      (block_lines memchr block) 0 (0, 0)"
  have "prints ?rows (rb_text block)"
    using plain_rows_print [OF assms(1) refl, of block _ 0] by (simp add: block_lines_def)
  moreover from this have "prints [hidden_row block] (rb_text block)" if "?rows = []"
    using that by (simp add: hidden_row_def row_content_def row_terminator_len_def terminators_def slice_def)
  ultimately show ?thesis using assms(2,3) by (auto simp: block_rows_def Let_def)
qed

lemma context_rows_print:
  assumes "lines_wf I" "a \<le> b" "b \<le> line_count I"
  shows "prints (map (context_line I) [a..<b]) (slice (li_content I) (line_start I a) (line_start I b))"
  using assms(2,3)
proof (induction rule: dec_induct)
  case (step n)
  then have n: "n < line_count I" by simp
  note b = line_end_bounds [OF assms(1), of n]
  have "prints [context_line I n] (slice (li_content I) (line_start I n) (line_start I (n + 1)))"
  proof (rule prints_single [OF b(1,2) line_start_less(3) [OF assms(1) n]])
    show "slice (li_content I) (line_end I n) (line_start I (n + 1)) \<in> terminators"
      using line_end_cases [OF assms(1) n] by (auto simp: terminators_def line_terminator_def)
    show "row_terminator_len (context_line I n) = line_start I (n + 1) - line_end I n"
      by (simp add: row_terminator_len_def context_line_def line_terminator_len_def line_start_def)
  qed (simp add: row_content_def context_line_def line_text_def)
  with step.IH have "prints (map (context_line I) [a..<n] @ [context_line I n])
      (slice (li_content I) (line_start I a) (line_start I n) @ slice (li_content I) (line_start I n) (line_start I (n + 1)))"
    using n by (intro prints_append) auto
  moreover have "line_start I a \<le> line_start I n" "line_start I n \<le> line_start I (n + 1)"
    using line_start_mono [OF assms(1)] step.hyps by simp_all
  ultimately show ?case using step.hyps by (simp add: slice_append)
qed (simp add: slice_def)

lemma each_append: "each body (xs @ ys) = and_then (each body xs) (each body ys)"
proof
  show "each body (xs @ ys) s = and_then (each body xs) (each body ys) s" for s
    by (induction xs arbitrary: s) (auto simp: and_then_def split: prod.split option.split)
qed

fun passthru_rows :: "memchr \<Rightarrow> line_index \<Rightarrow> match_options \<Rightarrow> nat \<Rightarrow> replace_block list \<Rightarrow> emit list" where
  "passthru_rows memchr I opts li [] = map (context_line I) [li..<line_count I]"
| "passthru_rows memchr I opts li (b # bs) =
     map (context_line I) [li..<rb_first b] @ block_rows memchr b opts @ passthru_rows memchr I opts (rb_last b + 1) bs"

lemma passthru_blocks_rows:
  "passthru_blocks memchr fm opts on_emit li bs = each on_emit (passthru_rows memchr (fm_index fm) opts li bs)"
  by (induction bs arbitrary: li) (simp_all add: each_append each_map emit_block_def)

lemma passthru_rows_print:
  assumes "lines_wf I" "finds_first memchr" "\<not> only_matching opts" "\<not> vimgrep opts"
  shows "sorted_wrt (\<lambda>a b. rb_last a + 1 < rb_first b) bs \<Longrightarrow>
    \<forall>b\<in>set bs. rb_start b = line_start I (rb_first b) \<and> rb_first b \<le> rb_last b \<and> rb_last b < line_count I \<Longrightarrow>
    li \<le> line_count I \<Longrightarrow> \<forall>b\<in>set bs. li \<le> rb_first b \<Longrightarrow>
    prints (passthru_rows memchr I opts li bs) (spliced I (li_content I) (line_start I li) bs)"
proof (induction bs arbitrary: li)
  case Nil
  then show ?case using context_rows_print [OF assms(1), of li "line_count I"] line_start_count [OF assms(1), of "line_count I"] by simp
next
  case (Cons b bs)
  have b: "rb_start b = line_start I (rb_first b)" "li \<le> rb_first b" "rb_first b \<le> line_count I" "rb_last b + 1 \<le> line_count I"
    using Cons.prems(2,4) by (auto simp: less_imp_le)
  have "prints (passthru_rows memchr I opts (rb_last b + 1) bs) (spliced I (li_content I) (line_start I (rb_last b + 1)) bs)"
    by (rule Cons.IH) (use Cons.prems b(4) in \<open>auto simp: less_imp_le\<close>)
  then show ?case using context_rows_print [OF assms(1) b(2,3)] block_rows_print [OF assms(2-4), of b]
    by (simp add: b(1) prints_append)
qed

text \<open>With every range kept, the first replacements are those of the ranges.\<close>

lemma find_replaces_blocks:
  assumes "find_multiline parse I content (Standard re dotall) opts = Inr fm"
    and "replace opts = Some rep" "\<not> report_replacements opts" "replace_blocks opts" "can_match_newline parse (Standard re dotall)"
    and "map fst (re_captures_iter re content) = re_find_iter re content" "\<not> vimgrep opts"
    and "reps = take (fst (fm_match_totals fm)) (map (\<lambda>(m, expand). (m, expand rep)) (re_captures_iter re content))"
  shows "fm_index fm = I" "reps \<noteq> [] \<and> fm_blocks fm = build_blocks I content reps \<or> reps = [] \<and> fm_blocks fm = [] \<and> fm_hits fm = []"
proof -
  let ?spans = "limit_to_line_blocks I (drop_eof_match content (re_find_iter re content)) (max_count opts)"
  have spans: "find_spans (Standard re dotall) content = Inr (re_find_iter re content)" by (simp add: find_spans_def)
  have "fm_index fm = I \<and> (reps \<noteq> [] \<and> fm_blocks fm = build_blocks I content reps \<or> reps = [] \<and> fm_blocks fm = [] \<and> fm_hits fm = [])"
  proof (cases "?spans = []")
    case True
    moreover have "group_spans_by_line I [] = []"
      by (simp add: group_spans_by_line_def spans_by_line_def Mapping.ordered_keys_def keys_empty)
    ultimately show ?thesis using assms by (auto simp: find_multiline_def spans Let_def)
  next
    case False
    have "expansions_upto (Standard re dotall) content rep (length ?spans) =
        Inr (take (length ?spans) (map (\<lambda>(m, expand). (m, expand rep)) (re_captures_iter re content)))"
      by (simp add: expansions_upto_def take_map)
    moreover have "re_find_iter re content \<noteq> []"
      using False limit_prefix [of I "drop_eof_match content (re_find_iter re content)" "max_count opts"]
      by (auto simp: drop_eof_match_def split: if_splits)
    then have "re_captures_iter re content \<noteq> []" unfolding assms(6) [symmetric] by simp
    ultimately show ?thesis using assms(1-5,8) False by (auto simp: find_multiline_def spans Let_def)
  qed
  then show "fm_index fm = I" "reps \<noteq> [] \<and> fm_blocks fm = build_blocks I content reps \<or> reps = [] \<and> fm_blocks fm = [] \<and> fm_hits fm = []"
    by simp_all
qed

text \<open>C19. A multiline replacement with \<^verbatim>\<open>--passthru\<close> prints the rewritten file: the rows, put together with
  their line terminators, are the file in which every match the search counted stands replaced, however
  many lines a match spans or its replacement adds; a failing callback sees a prefix of them.\<close>

theorem passthru_prints_the_rewrite:
  fixes from_error :: "string \<Rightarrow> 'e"
  assumes "finds_all memchr_iter" "finds_first memchr" "content \<noteq> []"
    and "ordered_captures re" "map fst (re_captures_iter re content) = re_find_iter re content"
    and "multiline opts" "\<not> invert_match opts" "passthru opts" "\<not> only_matching opts" "\<not> vimgrep opts"
    and "replace opts = Some rep" "\<not> report_replacements opts" "replace_blocks opts" "can_match_newline parse (Standard re dotall)"
    and "find_in_file memchr_iter parse content (Standard re dotall) opts = Inr fm"
    and "reps = take (fst (fm_match_totals fm)) (map (\<lambda>(m, expand). (m, expand rep)) (re_captures_iter re content))"
  shows "\<exists>rows. prints rows (rewrite content (length content) reps 0) \<and>
    (\<forall>on_emit :: emit \<Rightarrow> ('s, 'e) action. for_each memchr from_error fm opts (Standard re dotall) on_emit = each on_emit rows)"
proof -
  let ?I = "line_index_new memchr_iter content"
  have wf: "lines_wf ?I" and content: "li_content ?I = content" using line_index_new_wf [OF assms(1)] by simp_all
  have "in_order (length content) 0 (map (\<lambda>(m, expand). (m, expand rep)) (re_captures_iter re content))"
    using assms(4) by (simp add: ordered_captures_def)
  then have ordered: "in_order (length content) 0 reps" unfolding assms(16) by (rule in_order_take)
  note built = built_blocks [OF assms(1) refl assms(3) ordered]
  have found: "fm_index fm = ?I \<and> (reps \<noteq> [] \<and> fm_blocks fm = build_blocks ?I content reps \<or> reps = [] \<and> fm_blocks fm = [] \<and> fm_hits fm = [])"
  proof (cases "max_count opts = Some 0")
    case True
    then show ?thesis using assms(15,16) by (auto simp: find_in_file_def)
  next
    case False
    then have "find_multiline parse ?I content (Standard re dotall) opts = Inr fm"
      using assms(6,7,15) by (simp add: find_in_file_def)
    from find_replaces_blocks [OF this assms(11-14) assms(5,10,16)] show ?thesis by simp
  qed
  have blocks: "fm_blocks fm = build_blocks ?I content reps" using found built(4) by auto
  show ?thesis
  proof (cases "reps = []")
    case True
    then have "fm_hits fm = []" using found by simp
    then have "for_each memchr from_error fm opts (Standard re dotall) on_emit =
        each on_emit (map (context_line ?I) [0..<line_count ?I])" for on_emit :: "emit \<Rightarrow> ('s, 'e) action"
    proof -
      have "emit_line from_error fm opts (Standard re dotall) on_emit = (\<lambda>li. on_emit (context_line ?I li))"
        using \<open>fm_hits fm = []\<close> found by (auto simp: emit_line_def hit_on_def)
      then show ?thesis using True blocks built(4) found assms(8) by (simp add: for_each_def each_map)
    qed
    moreover have "prints (map (context_line ?I) [0..<line_count ?I]) (rewrite content (length content) reps 0)"
      using context_rows_print [OF wf le0 order_refl] line_start_count [OF wf order_refl] True
      by (simp add: line_start_0 [OF wf] content)
    ultimately show ?thesis by blast
  next
    case False
    then have "for_each memchr from_error fm opts (Standard re dotall) on_emit =
        each on_emit (passthru_rows memchr ?I opts 0 (build_blocks ?I content reps))" for on_emit :: "emit \<Rightarrow> ('s, 'e) action"
      using blocks built(4) found assms(8) by (simp add: for_each_def for_each_block_def passthru_blocks_rows)
    moreover have "prints (passthru_rows memchr ?I opts 0 (build_blocks ?I content reps)) (rewrite content (length content) reps 0)"
      using passthru_rows_print [OF wf assms(2,9,10) built(2,3), of 0] built(1) by (simp add: line_start_0 [OF wf] content)
    ultimately show ?thesis by blast
  qed
qed

theorem passthru_prints_the_rewrite_witness:
  "\<exists>fm rows. find_in_file all_bytes (\<lambda>pattern dotall. None) [0x61, 0x0A, 0x62] (Standard (byte_engine 0x0A) False)
      (match_options_default\<lparr>multiline := True, passthru := True, replace := Some [0x2C], replace_blocks := True\<rparr>) = Inr fm \<and>
    for_each first_byte id fm
      (match_options_default\<lparr>multiline := True, passthru := True, replace := Some [0x2C], replace_blocks := True\<rparr>)
      (Standard (byte_engine 0x0A) False) (\<lambda>row rows. (rows @ [row], None)) [] = (rows, None) \<and>
    prints rows [0x61, 0x2C, 0x62]"
proof -
  let ?content = "[0x61, 0x0A, 0x62] :: byte list" and ?M = "Standard (byte_engine 0x0A) False"
  let ?opts = "match_options_default\<lparr>multiline := True, passthru := True, replace := Some [0x2C], replace_blocks := True\<rparr>"
  let ?block = "\<lparr>rb_first = 0, rb_last = 0, rb_start = 0, rb_text = [0x61, 0x2C], rb_reps = [\<lparr>p_src = (1, 2), p_dst = (1, 2)\<rparr>]\<rparr>"
  let ?fm = "\<lparr>fm_index = line_index_new all_bytes ?content, fm_hits = [\<lparr>hit_idx = 0, hit_spans = [(1, 1)]\<rparr>],
    fm_match_totals = (1, 1), fm_blocks = [?block], fm_replacements = []\<rparr>"
  let ?on_emit = "\<lambda>row rows. (rows @ [row], None) :: emit list \<times> string option"
  have found: "find_in_file all_bytes (\<lambda>pattern dotall. None) ?content ?M ?opts = Inr ?fm" by code_simp
  have caps: "re_captures_iter (byte_engine 0x0A) ?content = [((1, 2), \<lambda>replacement. replacement)]"
    by (simp add: byte_engine_def all_bytes_def)
  have opts: "multiline ?opts" "\<not> invert_match ?opts" "passthru ?opts" "\<not> only_matching ?opts" "\<not> vimgrep ?opts"
    "replace ?opts = Some [0x2C]" "\<not> report_replacements ?opts" "replace_blocks ?opts"
    "can_match_newline (\<lambda>pattern dotall. None) ?M" "?content \<noteq> []"
    "map fst (re_captures_iter (byte_engine 0x0A) ?content) = re_find_iter (byte_engine 0x0A) ?content"
    by (simp_all add: match_options_default_def can_match_newline_def byte_engine_def comp_def)
  obtain rows where rows: "prints rows [0x61, 0x2C, 0x62]"
    "\<forall>on_emit :: emit \<Rightarrow> (emit list, string) action. for_each first_byte id ?fm ?opts ?M on_emit = each on_emit rows"
    using passthru_prints_the_rewrite [OF all_bytes_finds_all first_byte_finds_first opts(10) byte_engine_captures opts(11)
        opts(1-9) found refl, where from_error = id and ?'s = "emit list"] by (auto simp: caps slice_def)
  have "each ?on_emit rows acc = (acc @ rows, None)" for rows acc by (induction rows arbitrary: acc) simp_all
  then have "for_each first_byte id ?fm ?opts ?M ?on_emit [] = (rows, None)" using rows(2) by simp
  then show ?thesis using found rows(1) by blast
qed

end
