(* ===== verification/Encoding.thy ===== *)
theory Encoding
  imports Trigram Utf8
begin

text \<open>
  Text decoding (\<^verbatim>\<open>tgrep-core/src/encoding.rs\<close>): the choice of an encoding, the
  repair of invalid UTF-8 with the record of what was replaced, and the maps from decoded text
  back to the file.  The tables of \<^verbatim>\<open>encoding_rs\<close> are a record of functions: byte order
  marks, labels, names and the decoders.  Heap accounting and the permit of the controlled
  decoder are left out.
\<close>

section \<open>Modes\<close>

record 'e encodings =
  for_bom :: "byte list \<Rightarrow> ('e \<times> nat) option"
  for_label :: "byte list \<Rightarrow> 'e option"
  encoding_name :: "'e \<Rightarrow> string"
  UTF_8 :: 'e
  decode_without_bom :: "'e \<Rightarrow> byte list \<Rightarrow> byte list"

datatype 'e encoding_mode = Auto | Raw | Explicit 'e

definition may_differ_from_index :: "'e encoding_mode \<Rightarrow> bool" where
  "may_differ_from_index self = (self \<noteq> Auto)"

definition mode_label :: "'e encodings \<Rightarrow> 'e encoding_mode \<Rightarrow> string" where
  "mode_label E self =
     (case self of Auto \<Rightarrow> ''auto'' | Raw \<Rightarrow> ''none'' | Explicit enc \<Rightarrow> encoding_name E enc)"

text \<open>\<^verbatim>\<open>char::is_whitespace\<close>, and a string as its characters.\<close>

definition is_whitespace :: "u32 \<Rightarrow> bool" where
  "is_whitespace c =
     (9 \<le> c \<and> c \<le> 13 \<or> c \<in> {0x20, 0x85, 0xA0, 0x1680, 0x2028, 0x2029, 0x202F, 0x205F, 0x3000}
       \<or> 0x2000 \<le> c \<and> c \<le> 0x200A)"

definition trim :: "u32 list \<Rightarrow> u32 list" where
  "trim s = rev (dropWhile is_whitespace (rev (dropWhile is_whitespace s)))"

definition chars :: "string \<Rightarrow> u32 list" where
  "chars s = map (\<lambda>c. of_char c) s"

definition parse_encoding :: "'e encodings \<Rightarrow> u32 list \<Rightarrow> 'e encoding_mode result" where
  "parse_encoding E label =
     (let label = trim label
      in if label = [] \<or> label = chars ''auto'' then Inr Auto
         else if label = chars ''none'' then Inr Raw
         else case for_label E (concat (map encode_utf8 label)) of
                Some enc \<Rightarrow> Inr (Explicit enc)
              | None \<Rightarrow> Inl (Io ''unsupported encoding''))"

section \<open>Decoding\<close>

datatype cow = Borrowed "byte list" | Owned "byte list"

fun cow_bytes :: "cow \<Rightarrow> byte list" where
  "cow_bytes (Borrowed bs) = bs"
| "cow_bytes (Owned bs) = bs"

definition transcode :: "'e encodings \<Rightarrow> 'e \<Rightarrow> byte list \<Rightarrow> byte list" where
  "transcode E enc bytes = decode_without_bom E enc bytes"

definition decode_body :: "'e encodings \<Rightarrow> 'e \<Rightarrow> byte list \<Rightarrow> cow" where
  "decode_body E enc body = (if enc = UTF_8 E then Borrowed body else Owned (transcode E enc body))"

definition decode_bytes :: "'e encodings \<Rightarrow> byte list \<Rightarrow> 'e encoding_mode \<Rightarrow> cow" where
  "decode_bytes E bytes mode =
     (case mode of
        Raw \<Rightarrow> Borrowed bytes
      | Auto \<Rightarrow> (case for_bom E bytes of
            Some (enc, bom_len) \<Rightarrow> decode_body E enc (drop bom_len bytes)
          | None \<Rightarrow> Borrowed bytes)
      | Explicit enc \<Rightarrow> (case for_bom E bytes of
            Some (bom_enc, bom_len) \<Rightarrow> decode_body E bom_enc (drop bom_len bytes)
          | None \<Rightarrow> decode_body E enc bytes))"

definition borrows_whole_input :: "'e encodings \<Rightarrow> byte list \<Rightarrow> 'e encoding_mode \<Rightarrow> bool" where
  "borrows_whole_input E bytes mode =
     (case mode of
        Raw \<Rightarrow> True
      | Auto \<Rightarrow> for_bom E bytes = None
      | Explicit enc \<Rightarrow> for_bom E bytes = None \<and> enc = UTF_8 E)"

section \<open>Repairing invalid UTF-8\<close>

definition REPLACEMENT_CHARACTER :: "byte list" where
  "REPLACEMENT_CHARACTER = [0xEF, 0xBF, 0xBD]"

definition REPLACEMENT_LEN :: nat where
  "REPLACEMENT_LEN = 3"

record lossy_fixups =
  shifts :: "(nat \<times> nat) list"
  replaced_bytes :: "byte list"

definition no_fixups :: lossy_fixups where
  "no_fixups = \<lparr>shifts = [], replaced_bytes = []\<rparr>"

definition fixups_is_empty :: "lossy_fixups \<Rightarrow> bool" where
  "fixups_is_empty self = (shifts self = [])"

text \<open>The length of the sequence one replacement stands for.\<close>

definition replaced_len :: "byte list \<Rightarrow> nat \<Rightarrow> nat option \<Rightarrow> nat" where
  "replaced_len rest valid error_len = (case error_len of Some n \<Rightarrow> n | None \<Rightarrow> length rest - valid)"

definition record_fixup ::
  "byte list \<Rightarrow> nat \<Rightarrow> nat \<Rightarrow> byte list \<Rightarrow> nat \<Rightarrow> lossy_fixups option \<Rightarrow> nat \<times> lossy_fixups option"
where
  "record_fixup rest valid replaced out gained fixups =
     (case fixups of
        None \<Rightarrow> (gained, None)
      | Some f \<Rightarrow>
          let gained = gained + (REPLACEMENT_LEN - min replaced REPLACEMENT_LEN)
          in (gained, Some (f\<lparr>shifts := shifts f @ [(length out, gained)],
                replaced_bytes := replaced_bytes f @ take (min replaced REPLACEMENT_LEN) (drop valid rest)\<rparr>)))"

lemma repair_progress:
  assumes "from_utf8_error rest = Some (valid, Some n)"
  shows "length (drop (valid + n) rest) < length rest" "length rest - (valid + n) < length rest"
proof -
  have "valid < length rest" "utf8_next (drop valid rest) = Inl (Some n)"
    using from_utf8_error_bounds [OF assms] by blast+
  moreover from this have "1 \<le> n" using utf8_next_Inl_bounds by blast
  ultimately show "length (drop (valid + n) rest) < length rest" "length rest - (valid + n) < length rest" by simp_all
qed

function repair_loop ::
  "byte list \<Rightarrow> byte list \<Rightarrow> nat \<Rightarrow> lossy_fixups option \<Rightarrow> byte list \<times> lossy_fixups option"
where
  "repair_loop rest out gained fixups =
     (case from_utf8_error rest of
        None \<Rightarrow> (out @ rest, fixups)
      | Some (valid, error_len) \<Rightarrow>
          let out = out @ (if valid_utf8 (take valid rest) then take valid rest else []);
              replaced = replaced_len rest valid error_len;
              (gained, fixups) = record_fixup rest valid replaced out gained fixups;
              out = out @ REPLACEMENT_CHARACTER
          in case error_len of
               Some n \<Rightarrow> repair_loop (drop (valid + n) rest) out gained fixups
             | None \<Rightarrow> (out, fixups))"
  by pat_completeness auto
termination
  by (relation "measure (\<lambda>(rest, _). length rest)") (auto dest: repair_progress)

declare repair_loop.simps [simp del]

definition lossy_utf8_into :: "byte list \<Rightarrow> lossy_fixups option \<Rightarrow> byte list \<times> lossy_fixups option" where
  "lossy_utf8_into bytes fixups = (if valid_utf8 bytes then (bytes, fixups) else repair_loop bytes [] 0 fixups)"

definition lossy_utf8 :: "byte list \<Rightarrow> byte list \<times> lossy_fixups" where
  "lossy_utf8 bytes =
     (case lossy_utf8_into bytes (Some no_fixups) of (out, fixups) \<Rightarrow> (out, the fixups))"

function shape_loop :: "byte list \<Rightarrow> nat \<Rightarrow> nat \<Rightarrow> nat \<times> nat" where
  "shape_loop rest len repairs =
     (case from_utf8_error rest of
        None \<Rightarrow> (len + length rest, repairs)
      | Some (valid, error_len) \<Rightarrow>
          let len = len + valid + REPLACEMENT_LEN; repairs = repairs + 1
          in case error_len of
               Some n \<Rightarrow> shape_loop (drop (valid + n) rest) len repairs
             | None \<Rightarrow> (len, repairs))"
  by pat_completeness auto
termination
  by (relation "measure (\<lambda>(rest, _). length rest)") (auto dest: repair_progress)

declare shape_loop.simps [simp del]

definition lossy_utf8_shape :: "byte list \<Rightarrow> nat \<times> nat" where
  "lossy_utf8_shape bytes = shape_loop bytes 0 0"

definition decode_with_fixups :: "'e encodings \<Rightarrow> byte list \<Rightarrow> 'e encoding_mode \<Rightarrow> byte list \<times> lossy_fixups" where
  "decode_with_fixups E bytes mode =
     (case decode_bytes E bytes mode of
        Borrowed body \<Rightarrow> lossy_utf8 body
      | Owned body \<Rightarrow> (if valid_utf8 body then body else fst (lossy_utf8 body), no_fixups))"

definition decode_text :: "'e encodings \<Rightarrow> byte list \<Rightarrow> 'e encoding_mode \<Rightarrow> byte list" where
  "decode_text E bytes mode = fst (decode_with_fixups E bytes mode)"

definition decode_owned_with_fixups ::
  "'e encodings \<Rightarrow> byte list \<Rightarrow> 'e encoding_mode \<Rightarrow> byte list \<times> lossy_fixups"
where
  "decode_owned_with_fixups E bytes mode =
     (if \<not> borrows_whole_input E bytes mode then decode_with_fixups E bytes mode
      else if valid_utf8 bytes then (bytes, no_fixups)
      else lossy_utf8 bytes)"

definition decode_for_index :: "'e encodings \<Rightarrow> byte list \<Rightarrow> cow" where
  "decode_for_index E bytes =
     (case decode_bytes E bytes Auto of
        Owned body \<Rightarrow> Owned body
      | Borrowed body \<Rightarrow>
          if valid_utf8 body then Borrowed body
          else if is_binary body then Borrowed body
          else Owned (fst (lossy_utf8_into body None)))"

section \<open>From the text back to the file\<close>

text \<open>\<^verbatim>\<open>str::get\<close> of a range: only whole characters inside the text.\<close>

definition is_char_boundary :: "byte list \<Rightarrow> nat \<Rightarrow> bool" where
  "is_char_boundary text i = (i = 0 \<or> i = length text \<or> i < length text \<and> \<not> is_cont (text ! i))"

definition str_get :: "byte list \<Rightarrow> nat \<Rightarrow> nat \<Rightarrow> byte list option" where
  "str_get text a b =
     (if a \<le> b \<and> b \<le> length text \<and> is_char_boundary text a \<and> is_char_boundary text b
      then Some (slice text a b) else None)"

definition slice_get :: "byte list \<Rightarrow> nat \<Rightarrow> nat \<Rightarrow> byte list option" where
  "slice_get bs a b = (if a \<le> b \<and> b \<le> length bs then Some (slice bs a b) else None)"

definition gained_before :: "lossy_fixups \<Rightarrow> nat \<Rightarrow> nat" where
  "gained_before self i = (if i = 0 then 0 else snd (shifts self ! (i - 1)))"

fun source_loop ::
  "lossy_fixups \<Rightarrow> byte list \<Rightarrow> nat list \<Rightarrow> nat \<Rightarrow> byte list \<Rightarrow> (nat \<times> byte list) option"
where
  "source_loop self text [] pos out = Some (pos, out)"
| "source_loop self text (i # is) pos out =
     (let (at, gained) = shifts self ! i;
          start = REPLACEMENT_LEN * i - gained_before self i;
          len = REPLACEMENT_LEN - (gained - gained_before self i)
      in Option.bind (str_get text pos at) (\<lambda>piece.
         Option.bind (slice_get (replaced_bytes self) start (start + len)) (\<lambda>replaced.
           source_loop self text is (at + REPLACEMENT_LEN) (out @ piece @ replaced))))"

definition source_bytes :: "lossy_fixups \<Rightarrow> byte list \<Rightarrow> nat \<Rightarrow> nat \<Rightarrow> byte list option" where
  "source_bytes self text start stop =
     (let first = partition_point (\<lambda>(at, _). at < start) (shifts self);
          last = partition_point (\<lambda>(at, _). at < stop) (shifts self)
      in if first = last then None
         else Option.bind (source_loop self text [first..<last] start []) (\<lambda>(pos, out).
              Option.bind (str_get text pos stop) (\<lambda>piece. Some (out @ piece))))"

definition to_source_offset :: "lossy_fixups \<Rightarrow> nat \<Rightarrow> nat" where
  "to_source_offset self decoded =
     (if shifts self = [] then decoded
      else
        let i = partition_point (\<lambda>(at, _). at < decoded) (shifts self)
        in if i = 0 then decoded
           else
             let (at, gained) = shifts self ! (i - 1);
                 gained_before = (if i \<ge> 2 then snd (shifts self ! (i - 2)) else 0)
             in if decoded < at + REPLACEMENT_LEN then at - gained_before
                else decoded - gained)"

section \<open>The repairs of a file\<close>

text \<open>A file is valid text and invalid sequences in turn, and valid text at the end.\<close>

function repairs_of :: "byte list \<Rightarrow> (byte list \<times> byte list) list \<times> byte list" where
  "repairs_of rest =
     (case from_utf8_error rest of
        None \<Rightarrow> ([], rest)
      | Some (valid, Some n) \<Rightarrow>
          (let (ps, tail) = repairs_of (drop (valid + n) rest)
           in ((take valid rest, take n (drop valid rest)) # ps, tail))
      | Some (valid, None) \<Rightarrow> ([(take valid rest, drop valid rest)], []))"
  by pat_completeness auto
termination
  by (relation "measure length") (auto dest: repair_progress)

declare repairs_of.simps [simp del]

definition source_of :: "(byte list \<times> byte list) list \<Rightarrow> byte list" where
  "source_of ps = concat (map (\<lambda>(v, b). v @ b) ps)"

definition text_of :: "(byte list \<times> byte list) list \<Rightarrow> byte list" where
  "text_of ps = concat (map (\<lambda>(v, b). v @ REPLACEMENT_CHARACTER) ps)"

definition repair_ok :: "byte list \<times> byte list \<Rightarrow> bool" where
  "repair_ok p \<longleftrightarrow> valid_utf8 (fst p) \<and> 1 \<le> length (snd p) \<and> length (snd p) \<le> REPLACEMENT_LEN"

fun shifts_of :: "(byte list \<times> byte list) list \<Rightarrow> nat \<Rightarrow> nat \<Rightarrow> (nat \<times> nat) list" where
  "shifts_of [] pos gained = []"
| "shifts_of ((v, b) # ps) pos gained =
     (pos + length v, gained + (REPLACEMENT_LEN - length b))
       # shifts_of ps (pos + length v + REPLACEMENT_LEN) (gained + (REPLACEMENT_LEN - length b))"

lemma repairs_cases:
  obtains (valid) "from_utf8_error rest = None" "repairs_of rest = ([], rest)"
  | (more) v b ps tail where "from_utf8_error rest = Some (length v, Some (length b))" "rest = v @ b @ drop (length v + length b) rest"
      "repairs_of (drop (length v + length b) rest) = (ps, tail)" "repairs_of rest = ((v, b) # ps, tail)" "repair_ok (v, b)"
  | (incomplete) v b where "from_utf8_error rest = Some (length v, None)" "rest = v @ b" "repairs_of rest = ([(v, b)], [])"
      "repair_ok (v, b)"
proof (cases "from_utf8_error rest")
  case None
  then show ?thesis using valid by (simp add: repairs_of.simps [of rest])
next
  case (Some p)
  obtain k e where p: "p = (k, e)" by (cases p)
  note err = Some [unfolded p]
  have k: "k < length rest" "utf8_next (drop k rest) = Inl e" using from_utf8_error_bounds [OF err] by blast+
  have ok: "valid_utf8 (take k rest)" by (rule valid_utf8_take_error [OF err])
  show ?thesis
  proof (cases e)
    case (Some n)
    then have n: "1 \<le> n" "n \<le> 3" "n \<le> length rest - k" using utf8_next_Inl_bounds [of "drop k rest" n] k by auto
    obtain ps tail where rec: "repairs_of (drop (k + n) rest) = (ps, tail)" by force
    have len: "length (take k rest) = k" "length (take n (drop k rest)) = n" using k n by simp_all
    show ?thesis
    proof (rule more [of "take k rest" "take n (drop k rest)" ps tail])
      show "from_utf8_error rest = Some (length (take k rest), Some (length (take n (drop k rest))))"
        by (simp only: len err Some)
      show "rest = take k rest @ take n (drop k rest) @ drop (length (take k rest) + length (take n (drop k rest))) rest"
        by (simp only: len) (metis add.commute append_take_drop_id drop_drop)
      show "repairs_of (drop (length (take k rest) + length (take n (drop k rest))) rest) = (ps, tail)"
        by (simp only: len rec)
      show "repairs_of rest = ((take k rest, take n (drop k rest)) # ps, tail)"
        using err Some rec by (simp add: repairs_of.simps [of rest])
      show "repair_ok (take k rest, take n (drop k rest))"
        unfolding repair_ok_def fst_conv snd_conv len REPLACEMENT_LEN_def using ok n by blast
    qed
  next
    case None
    have "length (drop k rest) \<le> 3" using utf8_next_incomplete k(2) None by blast
    with k ok err None show ?thesis
      by (intro incomplete [of "take k rest" "drop k rest"])
        (simp_all add: repairs_of.simps [of rest] repair_ok_def REPLACEMENT_LEN_def)
  qed
qed

lemma repairs_induct [case_names valid more incomplete]:
  assumes "\<And>rest. from_utf8_error rest = None \<Longrightarrow> repairs_of rest = ([], rest) \<Longrightarrow> P rest [] rest"
    and "\<And>v b rest ps tail. from_utf8_error (v @ b @ rest) = Some (length v, Some (length b)) \<Longrightarrow> repair_ok (v, b) \<Longrightarrow>
      P rest ps tail \<Longrightarrow> P (v @ b @ rest) ((v, b) # ps) tail"
    and "\<And>v b. from_utf8_error (v @ b) = Some (length v, None) \<Longrightarrow> repair_ok (v, b) \<Longrightarrow> P (v @ b) [(v, b)] []"
  shows "P rest (fst (repairs_of rest)) (snd (repairs_of rest))"
proof (induction "length rest" arbitrary: rest rule: less_induct)
  case less
  show ?case
  proof (cases rule: repairs_cases [of rest])
    case valid
    then show ?thesis using assms(1) by simp
  next
    case (more v b ps tail)
    let ?rest = "drop (length v + length b) rest"
    have "length ?rest < length rest" by (rule repair_progress [OF more(1)])
    then have "P ?rest (fst (repairs_of ?rest)) (snd (repairs_of ?rest))" by (rule less)
    then have "P ?rest ps tail" using more(3) by simp
    moreover have "from_utf8_error (v @ b @ ?rest) = Some (length v, Some (length b))"
      using more(1,2) by metis
    ultimately have "P (v @ b @ ?rest) ((v, b) # ps) tail" using assms(2) more(5) by blast
    then show ?thesis using more(2,4) by (metis fst_conv snd_conv)
  next
    case (incomplete v b)
    then show ?thesis using assms(3) [of v b] by simp
  qed
qed

lemma repairs_split: "source_of (fst (repairs_of bs)) @ snd (repairs_of bs) = bs"
  by (induction bs rule: repairs_induct) (simp_all add: source_of_def)

lemma repairs_ok: "(\<forall>p\<in>set (fst (repairs_of bs)). repair_ok p) \<and> valid_utf8 (snd (repairs_of bs))"
proof (induction bs rule: repairs_induct)
  case (valid rest)
  then show ?case by (simp add: valid_utf8_def)
qed simp_all

lemma repairs_none: "fst (repairs_of bs) = [] \<longleftrightarrow> valid_utf8 bs"
  by (cases bs rule: repairs_cases) (simp_all add: valid_utf8_def)

lemma repair_ok_valid: "repair_ok (v, b) \<Longrightarrow> valid_utf8 v"
  by (simp add: repair_ok_def)

lemma repair_ok_min: "repair_ok (v, b) \<Longrightarrow> min (length b) REPLACEMENT_LEN = length b"
  by (simp add: repair_ok_def)

lemma length_REPLACEMENT [simp]: "length REPLACEMENT_CHARACTER = REPLACEMENT_LEN"
  by (simp add: REPLACEMENT_CHARACTER_def REPLACEMENT_LEN_def)

lemma repair_loop_repairs:
  "\<forall>out gained. repair_loop bs out gained (Some f) =
     (out @ text_of (fst (repairs_of bs)) @ snd (repairs_of bs),
      Some \<lparr>shifts = shifts f @ shifts_of (fst (repairs_of bs)) (length out) gained,
            replaced_bytes = replaced_bytes f @ concat (map snd (fst (repairs_of bs)))\<rparr>)"
proof (induction bs arbitrary: f rule: repairs_induct)
  case (valid rest)
  then show ?case by (simp add: repair_loop.simps [of rest] text_of_def)
next
  case (more v b rest ps tail)
  have len: "length b \<le> REPLACEMENT_LEN" using more(2) by (simp add: repair_ok_def)
  show ?case
    using more(1,3) len by (simp add: repair_loop.simps [of "v @ b @ rest"] repair_ok_valid [OF more(2)]
        repair_ok_min [OF more(2)] record_fixup_def replaced_len_def Let_def text_of_def add.assoc)
next
  case (incomplete v b)
  have len: "length b \<le> REPLACEMENT_LEN" using incomplete(2) by (simp add: repair_ok_def)
  show ?case
    using incomplete(1) len by (cases f) (simp add: repair_loop.simps [of "v @ b"] repair_ok_valid [OF incomplete(2)]
        repair_ok_min [OF incomplete(2)] record_fixup_def replaced_len_def Let_def text_of_def)
qed

lemma repair_loop_plain:
  "\<forall>out gained. repair_loop bs out gained None = (out @ text_of (fst (repairs_of bs)) @ snd (repairs_of bs), None)"
proof (induction bs rule: repairs_induct)
  case (valid rest)
  then show ?case by (simp add: repair_loop.simps [of rest] text_of_def)
next
  case (more v b rest ps tail)
  then show ?case
    by (simp add: repair_loop.simps [of "v @ b @ rest"] repair_ok_valid [OF more(2)] record_fixup_def Let_def text_of_def)
next
  case (incomplete v b)
  then show ?case
    by (simp add: repair_loop.simps [of "v @ b"] repair_ok_valid [OF incomplete(2)] record_fixup_def Let_def text_of_def)
qed

text \<open>What is decoded, and the fixups, in terms of the repairs.\<close>

lemma lossy_utf8_repairs:
  "lossy_utf8 bs =
     (text_of (fst (repairs_of bs)) @ snd (repairs_of bs),
      \<lparr>shifts = shifts_of (fst (repairs_of bs)) 0 0, replaced_bytes = concat (map snd (fst (repairs_of bs)))\<rparr>)"
proof (cases "valid_utf8 bs")
  case True
  then have "repairs_of bs = ([], bs)" by (simp add: repairs_of.simps [of bs] valid_utf8_def)
  with True show ?thesis by (simp add: lossy_utf8_def lossy_utf8_into_def text_of_def no_fixups_def)
next
  case False
  then show ?thesis
    by (simp add: lossy_utf8_def lossy_utf8_into_def repair_loop_repairs no_fixups_def)
qed

lemma lossy_utf8_into_plain: "fst (lossy_utf8_into bs None) = fst (lossy_utf8 bs)"
proof (cases "valid_utf8 bs")
  case True
  then show ?thesis by (simp add: lossy_utf8_def lossy_utf8_into_def)
next
  case False
  then show ?thesis unfolding lossy_utf8_repairs by (simp add: lossy_utf8_into_def repair_loop_plain)
qed

lemma shape_loop_repairs:
  "\<forall>len repairs. shape_loop bs len repairs =
     (len + length (text_of (fst (repairs_of bs)) @ snd (repairs_of bs)), repairs + length (fst (repairs_of bs)))"
proof (induction bs rule: repairs_induct)
  case (valid rest)
  then show ?case by (simp add: shape_loop.simps [of rest] text_of_def)
next
  case (more v b rest ps tail)
  then show ?case
    by (simp add: shape_loop.simps [of "v @ b @ rest"] Let_def text_of_def)
next
  case (incomplete v b)
  then show ?case
    by (simp add: shape_loop.simps [of "v @ b"] Let_def text_of_def)
qed

section \<open>Offsets\<close>

text \<open>A repaired file: its pieces, the text and the file they make, and the recorded fixups.\<close>

definition repaired :: "(byte list \<times> byte list) list \<Rightarrow> byte list \<Rightarrow> lossy_fixups \<Rightarrow> byte list \<Rightarrow> byte list \<Rightarrow> bool" where
  "repaired ps tail f text bytes \<longleftrightarrow>
     (\<forall>p\<in>set ps. repair_ok p) \<and> valid_utf8 tail \<and>
     f = \<lparr>shifts = shifts_of ps 0 0, replaced_bytes = concat (map snd ps)\<rparr> \<and>
     text = text_of ps @ tail \<and> bytes = source_of ps @ tail"

lemma lossy_utf8_repaired:
  "lossy_utf8 bs = (text, f) \<Longrightarrow> repaired (fst (repairs_of bs)) (snd (repairs_of bs)) f text bs"
  using repairs_ok [of bs] repairs_split [of bs] by (auto simp: repaired_def lossy_utf8_repairs)

text \<open>The valid text of a piece, the last piece being the tail.\<close>

definition valid_part :: "(byte list \<times> byte list) list \<Rightarrow> byte list \<Rightarrow> nat \<Rightarrow> byte list" where
  "valid_part ps tail i = (if i < length ps then fst (ps ! i) else tail)"

definition text_pos :: "(byte list \<times> byte list) list \<Rightarrow> nat \<Rightarrow> nat" where
  "text_pos ps i = length (text_of (take i ps))"

definition source_pos :: "(byte list \<times> byte list) list \<Rightarrow> nat \<Rightarrow> nat" where
  "source_pos ps i = length (source_of (take i ps))"

lemma text_of_append [simp]: "text_of (ps @ qs) = text_of ps @ text_of qs"
  and source_of_append [simp]: "source_of (ps @ qs) = source_of ps @ source_of qs"
  by (simp_all add: text_of_def source_of_def)

lemma text_pos_0 [simp]: "text_pos ps 0 = 0" "source_pos ps 0 = 0"
  by (simp_all add: text_pos_def source_pos_def text_of_def source_of_def)

lemma text_pos_Suc:
  "i < length ps \<Longrightarrow> text_pos ps (Suc i) = text_pos ps i + length (fst (ps ! i)) + REPLACEMENT_LEN"
  "i < length ps \<Longrightarrow> source_pos ps (Suc i) = source_pos ps i + length (fst (ps ! i)) + length (snd (ps ! i))"
  by (simp_all add: text_pos_def source_pos_def take_Suc_conv_app_nth text_of_def source_of_def split: prod.split)

lemma length_shifts_of [simp]: "length (shifts_of ps pos gained) = length ps"
  by (induction ps pos gained rule: shifts_of.induct) simp_all

lemma source_pos_le:
  assumes "\<forall>p\<in>set ps. repair_ok p" "i \<le> length ps"
  shows "source_pos ps i \<le> text_pos ps i"
  using assms(2)
proof (induction i)
  case (Suc i)
  then have "length (snd (ps ! i)) \<le> REPLACEMENT_LEN" using assms(1) by (simp add: repair_ok_def)
  then show ?case using Suc by (simp add: text_pos_Suc)
qed simp

lemma nth_shifts_of:
  assumes "\<forall>p\<in>set ps. repair_ok p" "i < length ps"
  shows "shifts_of ps pos gained ! i =
    (pos + text_pos ps i + length (fst (ps ! i)), gained + (text_pos ps (Suc i) - source_pos ps (Suc i)))"
  using assms
proof (induction ps pos gained arbitrary: i rule: shifts_of.induct)
  case (2 v b ps pos gained)
  have b: "length b \<le> REPLACEMENT_LEN" using "2.prems"(1) by (simp add: repair_ok_def)
  show ?case
  proof (cases i)
    case 0
    then show ?thesis using b by (simp add: text_pos_def source_pos_def text_of_def source_of_def)
  next
    case (Suc j)
    then have j: "j < length ps" using "2.prems"(2) by simp
    have "source_pos ps (Suc j) \<le> text_pos ps (Suc j)" using "2.prems"(1) j by (intro source_pos_le) simp_all
    moreover have "text_pos ((v, b) # ps) (Suc k) = length v + REPLACEMENT_LEN + text_pos ps k"
      "source_pos ((v, b) # ps) (Suc k) = length v + length b + source_pos ps k" for k
      by (simp_all add: text_pos_def source_pos_def text_of_def source_of_def)
    moreover have "shifts_of ps (pos + length v + REPLACEMENT_LEN) (gained + (REPLACEMENT_LEN - length b)) ! j =
        (pos + length v + REPLACEMENT_LEN + text_pos ps j + length (fst (ps ! j)),
         gained + (REPLACEMENT_LEN - length b) + (text_pos ps (Suc j) - source_pos ps (Suc j)))"
      using "2.IH" "2.prems"(1) j by simp
    ultimately show ?thesis using b by (simp add: Suc)
  qed
qed simp

text \<open>The recorded fixups of a repaired file.\<close>

lemma repaired_shift:
  assumes "repaired ps tail f text bytes" "i < length ps"
  shows "shifts f ! i = (text_pos ps i + length (fst (ps ! i)), text_pos ps (Suc i) - source_pos ps (Suc i))"
  using assms nth_shifts_of [of ps i 0 0] by (simp add: repaired_def)

lemma repaired_gained_before:
  assumes "repaired ps tail f text bytes" "i \<le> length ps"
  shows "gained_before f i = text_pos ps i - source_pos ps i"
  using repaired_shift [OF assms(1), of "i - 1"] assms(2) by (cases i) (simp_all add: gained_before_def)

lemma text_pos_mono: "i \<le> j \<Longrightarrow> j \<le> length ps \<Longrightarrow> text_pos ps i \<le> text_pos ps j"
  by (induction j) (auto simp: le_Suc_eq text_pos_Suc)

text \<open>Which piece an offset of the text falls into, and the offset in the file.\<close>

definition piece_of :: "lossy_fixups \<Rightarrow> nat \<Rightarrow> nat" where
  "piece_of f d = partition_point (\<lambda>(at, _). at < d) (shifts f)"

lemma piece_of_bounds:
  assumes "repaired ps tail f text bytes"
  shows "piece_of f d \<le> length ps" "piece_of f d < length ps \<Longrightarrow> d \<le> text_pos ps (piece_of f d) + length (fst (ps ! piece_of f d))"
    "piece_of f d \<noteq> 0 \<Longrightarrow> text_pos ps (piece_of f d - 1) + length (fst (ps ! (piece_of f d - 1))) < d"
proof -
  let ?i = "piece_of f d" and ?P = "\<lambda>s :: nat \<times> nat. fst s < d"
  have len: "length (shifts f) = length ps" using assms by (simp add: repaired_def)
  have i: "?i = length (takeWhile ?P (shifts f))" by (simp add: piece_of_def partition_point_def case_prod_unfold)
  then show le: "?i \<le> length ps" using length_takeWhile_le [of ?P "shifts f"] len by simp
  show "d \<le> text_pos ps ?i + length (fst (ps ! ?i))" if "?i < length ps"
    using nth_length_takeWhile [of ?P "shifts f"] that len repaired_shift [OF assms that] by (simp add: i [symmetric])
  show "text_pos ps (?i - 1) + length (fst (ps ! (?i - 1))) < d" if "?i \<noteq> 0"
  proof -
    have "?i - 1 < length (takeWhile ?P (shifts f))" using that i by simp
    then have "?P (shifts f ! (?i - 1))" using set_takeWhileD [of _ ?P "shifts f"] by (metis nth_mem takeWhile_nth)
    then show ?thesis using repaired_shift [OF assms, of "?i - 1"] that le by simp
  qed
qed

lemma text_pieces:
  assumes "repaired ps tail f text bytes" "i < length ps"
  shows "\<exists>r. text = text_of (take i ps) @ fst (ps ! i) @ REPLACEMENT_CHARACTER @ r"
    "\<exists>r. bytes = source_of (take i ps) @ fst (ps ! i) @ snd (ps ! i) @ r"
proof -
  have "ps = take i ps @ ps ! i # drop (Suc i) ps" using assms(2) by (rule id_take_nth_drop)
  then have "text_of ps = text_of (take i ps) @ fst (ps ! i) @ REPLACEMENT_CHARACTER @ text_of (drop (Suc i) ps)"
    "source_of ps = source_of (take i ps) @ fst (ps ! i) @ snd (ps ! i) @ source_of (drop (Suc i) ps)"
    unfolding text_of_def source_of_def
    by (metis (no_types, lifting) append_assoc case_prod_beta concat.simps(2) concat_append list.simps(9) map_append)+
  then show "\<exists>r. text = text_of (take i ps) @ fst (ps ! i) @ REPLACEMENT_CHARACTER @ r"
    "\<exists>r. bytes = source_of (take i ps) @ fst (ps ! i) @ snd (ps ! i) @ r"
    using assms(1) by (auto simp: repaired_def)
qed

lemma last_piece:
  assumes "repaired ps tail f text bytes"
  shows "text = text_of (take (length ps) ps) @ tail" "bytes = source_of (take (length ps) ps) @ tail"
  using assms by (simp_all add: repaired_def)

lemma valid_first: "valid_utf8 (b # bs) \<Longrightarrow> \<not> is_cont b"
proof
  assume "valid_utf8 (b # bs)" "is_cont b"
  then have "\<not> b < 0x80" "\<not> (0xC2 \<le> b \<and> b \<le> 0xDF)" "\<not> (0xE0 \<le> b \<and> b \<le> 0xEF)" "\<not> (0xF0 \<le> b \<and> b \<le> 0xF4)"
    by (simp_all add: is_cont_def word_le_nat_alt word_less_nat_alt)
  then have "utf8_next (b # bs) = Inl (Some 1)" by (simp only: utf8_next_def list.case if_False)
  with \<open>valid_utf8 (b # bs)\<close> show False by (simp add: valid_utf8_def from_utf8_error.simps [of "b # bs"])
qed

lemma replacement_conts [simp]: "\<not> is_cont 0xEF" "is_cont 0xBF" "is_cont 0xBD"
  by (simp_all add: is_cont_def)

lemma replacement_boundary:
  assumes "repaired ps tail f text bytes" "i < length ps"
  shows "is_char_boundary text (text_pos ps i + length (fst (ps ! i)))"
    and "text_pos ps i + length (fst (ps ! i)) < d \<Longrightarrow> d < text_pos ps (Suc i) \<Longrightarrow> \<not> is_char_boundary text d"
proof -
  obtain r where t: "text = text_of (take i ps) @ fst (ps ! i) @ [0xEF, 0xBF, 0xBD] @ r"
    using text_pieces(1) [OF assms] by (auto simp: REPLACEMENT_CHARACTER_def)
  let ?at = "text_pos ps i + length (fst (ps ! i))"
  have n: "text ! ?at = 0xEF" "text ! Suc ?at = 0xBF" "text ! Suc (Suc ?at) = 0xBD" "Suc (Suc ?at) < length text"
    by (simp_all add: t text_pos_def nth_append)
  then show "is_char_boundary text ?at" by (simp add: is_char_boundary_def)
  assume "?at < d" "d < text_pos ps (Suc i)"
  then have "d = Suc ?at \<or> d = Suc (Suc ?at)" by (auto simp: text_pos_Suc assms(2) REPLACEMENT_LEN_def)
  then show "\<not> is_char_boundary text d" using n by (auto simp: is_char_boundary_def)
qed

lemma piece_boundary:
  assumes "repaired ps tail f text bytes" "i \<le> length ps"
  shows "is_char_boundary text (text_pos ps i)"
proof (cases "valid_part ps tail i")
  case Nil
  show ?thesis
  proof (cases "i < length ps")
    case True
    then show ?thesis using replacement_boundary(1) [OF assms(1) True] Nil by (simp add: valid_part_def)
  next
    case False
    then show ?thesis using last_piece(1) [OF assms(1)] Nil assms(2) by (simp add: valid_part_def is_char_boundary_def text_pos_def)
  qed
next
  case (Cons b bs)
  have v: "valid_utf8 (b # bs)"
  proof (cases "i < length ps")
    case True
    then have "repair_ok (ps ! i)" using assms(1) by (simp add: repaired_def)
    then show ?thesis using True Cons by (simp add: repair_ok_def valid_part_def)
  next
    case False
    then show ?thesis using assms(1) Cons by (simp add: repaired_def valid_part_def)
  qed
  obtain r where "text = text_of (take i ps) @ (b # bs) @ r"
  proof (cases "i < length ps")
    case True
    then show ?thesis using text_pieces(1) [OF assms(1) True] Cons that by (auto simp: valid_part_def)
  next
    case False
    then show ?thesis using last_piece(1) [OF assms(1)] Cons assms(2) that [of "[]"] by (simp add: valid_part_def)
  qed
  then have "text ! text_pos ps i = b" "text_pos ps i < length text" by (simp_all add: text_pos_def nth_append)
  then show ?thesis using valid_first [OF v] by (simp add: is_char_boundary_def)
qed

lemma boundary_in_piece:
  assumes r: "repaired ps tail f text bytes" and d: "is_char_boundary text d" "d \<le> length text"
  shows "text_pos ps (piece_of f d) \<le> d"
    and "d \<le> text_pos ps (piece_of f d) + length (valid_part ps tail (piece_of f d))"
proof -
  let ?i = "piece_of f d"
  note b = piece_of_bounds [OF r, of d]
  show "text_pos ps ?i \<le> d"
  proof (rule ccontr)
    assume low: "\<not> text_pos ps ?i \<le> d"
    then have "?i \<noteq> 0" by (intro notI) simp
    then obtain j where j: "?i = Suc j" by (cases ?i) auto
    then have "\<not> is_char_boundary text d"
      using b low by (intro replacement_boundary(2) [OF r, of j]) (simp_all add: j)
    with d(1) show False by simp
  qed
  show "d \<le> text_pos ps ?i + length (valid_part ps tail ?i)"
  proof (cases "?i < length ps")
    case True
    then show ?thesis using b(2) by (simp add: valid_part_def)
  next
    case False
    then have "?i = length ps" using b(1) by simp
    then show ?thesis using d(2) last_piece(1) [OF r] by (simp add: valid_part_def text_pos_def)
  qed
qed

lemma to_source_offset_boundary:
  assumes r: "repaired ps tail f text bytes" and d: "is_char_boundary text d" "d \<le> length text"
  shows "to_source_offset f d = source_pos ps (piece_of f d) + (d - text_pos ps (piece_of f d))"
proof -
  let ?i = "piece_of f d"
  note b = piece_of_bounds [OF r, of d] and low = boundary_in_piece(1) [OF r d]
  have shifts: "shifts f = [] \<longleftrightarrow> ps = []" using r by (cases ps) (auto simp: repaired_def)
  show ?thesis
  proof (cases ?i)
    case 0
    then show ?thesis by (simp add: to_source_offset_def piece_of_def [symmetric] Let_def)
  next
    case (Suc j)
    then have j: "j < length ps" using b(1) by simp
    have "source_pos ps (Suc j) \<le> text_pos ps (Suc j)" using r j by (intro source_pos_le) (simp_all add: repaired_def)
    moreover have "text_pos ps (Suc j) \<le> d" using low by (simp add: Suc)
    moreover have "shifts f ! (?i - 1) = (text_pos ps j + length (fst (ps ! j)), text_pos ps (Suc j) - source_pos ps (Suc j))"
      using repaired_shift [OF r j] by (simp add: Suc)
    moreover have "shifts f \<noteq> []" using shifts j by auto
    ultimately show ?thesis
      using text_pos_Suc(1) [OF j] by (simp add: to_source_offset_def piece_of_def [symmetric] Suc)
  qed
qed

text \<open>An offset within a replacement leads to the start of what it replaced.\<close>

lemma to_source_offset_inside:
  assumes r: "repaired ps tail f text bytes" and i: "i < length ps"
    and d: "text_pos ps i + length (fst (ps ! i)) < d" "d < text_pos ps (Suc i)" "piece_of f d = Suc i"
  shows "to_source_offset f d = source_pos ps i + length (fst (ps ! i))"
proof -
  have "source_pos ps i \<le> text_pos ps i" using r i by (intro source_pos_le) (simp_all add: repaired_def)
  moreover have "gained_before f i = text_pos ps i - source_pos ps i" using repaired_gained_before [OF r] i by simp
  moreover have "shifts f \<noteq> []" using r i by (cases ps) (auto simp: repaired_def)
  ultimately show ?thesis
    using d text_pos_Suc(1) [OF i] repaired_shift [OF r i]
    by (cases i) (simp_all add: to_source_offset_def piece_of_def [symmetric] gained_before_def)
qed

lemma slice_middle: "slice (xs @ ys @ zs) (length xs + k) (length xs + m) = drop k (take m (ys @ zs))"
  by (simp add: slice_def)

lemma replaced_before:
  assumes "\<forall>p\<in>set ps. repair_ok p" "i \<le> length ps"
  shows "length (concat (map snd (take i ps))) + text_pos ps i = source_pos ps i + REPLACEMENT_LEN * i"
  using assms(2)
proof (induction i)
  case (Suc i)
  then show ?case by (simp add: text_pos_Suc take_Suc_conv_app_nth)
qed simp

lemma source_loop_slices:
  assumes r: "repaired ps tail f text bytes"
  shows "i \<le> l \<Longrightarrow> l \<le> length ps \<Longrightarrow> k \<le> length (valid_part ps tail i) \<Longrightarrow>
    is_char_boundary text (text_pos ps i + k) \<Longrightarrow>
    source_loop f text [i..<l] (text_pos ps i + k) out =
      Some (if i = l then text_pos ps i + k else text_pos ps l,
            out @ slice bytes (source_pos ps i + k) (if i = l then source_pos ps i + k else source_pos ps l))"
proof (induction "l - i" arbitrary: i k out)
  case 0
  then show ?case by (simp add: slice_def)
next
  case (Suc n)
  then have i: "i < l" "i < length ps" by simp_all
  then have k: "k \<le> length (fst (ps ! i))" using Suc.prems(3) by (simp add: valid_part_def)
  note b = bspec [OF conjunct1 [OF r [unfolded repaired_def]] nth_mem [OF i(2)]]
  let ?at = "text_pos ps i + length (fst (ps ! i))"
  have le: "source_pos ps i \<le> text_pos ps i" "source_pos ps (Suc i) \<le> text_pos ps (Suc i)"
    using r i(2) by (intro source_pos_le; simp add: repaired_def)+
  obtain q where t: "text = text_of (take i ps) @ fst (ps ! i) @ REPLACEMENT_CHARACTER @ q"
    using text_pieces(1) [OF r i(2)] by blast
  obtain q' where s: "bytes = source_of (take i ps) @ fst (ps ! i) @ snd (ps ! i) @ q'"
    using text_pieces(2) [OF r i(2)] by blast
  have piece: "str_get text (text_pos ps i + k) ?at = Some (drop k (fst (ps ! i)))"
    using Suc.prems(4) replacement_boundary(1) [OF r i(2)] k
    by (simp add: str_get_def t text_pos_def slice_def)
  let ?c = "concat (map snd (take i ps))"
  have start: "REPLACEMENT_LEN * i - gained_before f i = length ?c"
    using replaced_before [of ps i] repaired_gained_before [OF r, of i] r i(2) le(1) by (simp add: repaired_def)
  have len: "REPLACEMENT_LEN - (text_pos ps (Suc i) - source_pos ps (Suc i) - gained_before f i) = length (snd (ps ! i))"
    using repaired_gained_before [OF r, of i] i(2) le b by (simp add: text_pos_Suc repair_ok_def)
  have "replaced_bytes f = ?c @ snd (ps ! i) @ concat (map snd (drop (Suc i) ps))"
    using r arg_cong [OF id_take_nth_drop [OF i(2)], of "\<lambda>ps. concat (map snd ps)"] by (simp add: repaired_def)
  then have replaced: "slice_get (replaced_bytes f) (length ?c) (length ?c + length (snd (ps ! i))) = Some (snd (ps ! i))"
    by (simp add: slice_get_def slice_def)
  have whole: "drop k (fst (ps ! i)) @ snd (ps ! i) = slice bytes (source_pos ps i + k) (source_pos ps (Suc i))"
    using k by (simp add: s slice_def source_pos_def text_pos_Suc [unfolded source_pos_def] i(2))
  have step: "source_loop f text [i..<l] (text_pos ps i + k) out =
      source_loop f text [Suc i..<l] (text_pos ps (Suc i)) (out @ slice bytes (source_pos ps i + k) (source_pos ps (Suc i)))"
    using i(1) piece replaced start len repaired_shift [OF r i(2)] whole text_pos_Suc(1) [OF i(2)]
    by (simp add: upt_conv_Cons Let_def)
  have "source_loop f text [Suc i..<l] (text_pos ps (Suc i) + 0) (out @ slice bytes (source_pos ps i + k) (source_pos ps (Suc i))) =
      Some (if Suc i = l then text_pos ps (Suc i) + 0 else text_pos ps l,
            (out @ slice bytes (source_pos ps i + k) (source_pos ps (Suc i))) @
              slice bytes (source_pos ps (Suc i) + 0) (if Suc i = l then source_pos ps (Suc i) + 0 else source_pos ps l))"
    using Suc.hyps(2) Suc.prems(2) i piece_boundary [OF r, of "Suc i"] by (intro Suc.hyps(1)) simp_all
  moreover have "source_pos ps i + k \<le> source_pos ps (Suc i)" using k i(2) by (simp add: text_pos_Suc)
  moreover have "source_pos ps (Suc i) \<le> source_pos ps l"
    using i(1) Suc.prems(2) by (induction l) (auto simp: le_Suc_eq less_Suc_eq text_pos_Suc)
  ultimately show ?case using i(1) by (auto simp: step slice_append)
qed

lemma piece_of_mono: "a \<le> b \<Longrightarrow> piece_of f a \<le> piece_of f b"
proof -
  assume "a \<le> b"
  have "length (takeWhile (\<lambda>s. fst s < a) xs) \<le> length (takeWhile (\<lambda>s. fst s < b) xs)" for xs :: "(nat \<times> nat) list"
    using \<open>a \<le> b\<close> by (induction xs) auto
  then show ?thesis by (simp add: piece_of_def partition_point_def case_prod_unfold)
qed

lemma slice_in_piece:
  assumes r: "repaired ps tail f text bytes" and i: "i \<le> length ps"
    and k: "k \<le> m" "m \<le> length (valid_part ps tail i)"
  shows "slice text (text_pos ps i + k) (text_pos ps i + m) = drop k (take m (valid_part ps tail i))"
    "slice bytes (source_pos ps i + k) (source_pos ps i + m) = drop k (take m (valid_part ps tail i))"
proof -
  have "\<exists>x. text = text_of (take i ps) @ valid_part ps tail i @ x"
    using text_pieces(1) [OF r, of i] last_piece(1) [OF r] i by (cases "i < length ps") (auto simp: valid_part_def)
  then show "slice text (text_pos ps i + k) (text_pos ps i + m) = drop k (take m (valid_part ps tail i))"
    using k by (auto simp: text_pos_def slice_def)
  have "\<exists>x. bytes = source_of (take i ps) @ valid_part ps tail i @ x"
    using text_pieces(2) [OF r, of i] last_piece(2) [OF r] i by (cases "i < length ps") (auto simp: valid_part_def)
  then show "slice bytes (source_pos ps i + k) (source_pos ps i + m) = drop k (take m (valid_part ps tail i))"
    using k by (auto simp: source_pos_def slice_def)
qed

lemma source_bytes_repaired:
  assumes r: "repaired ps tail f text bytes" and ab: "a \<le> b" "b \<le> length text"
    and bd: "is_char_boundary text a" "is_char_boundary text b"
  shows "(case source_bytes f text a b of Some xs \<Rightarrow> xs | None \<Rightarrow> slice text a b) =
    slice bytes (to_source_offset f a) (to_source_offset f b)"
proof -
  let ?i = "piece_of f a" and ?l = "piece_of f b"
  have il: "?i \<le> ?l" "?l \<le> length ps" using piece_of_mono [OF ab(1)] piece_of_bounds(1) [OF r] by blast+
  have "a \<le> length text" using ab by simp
  note ba = boundary_in_piece [OF r bd(1) this] and bb = boundary_in_piece [OF r bd(2) ab(2)]
  note ta = to_source_offset_boundary [OF r bd(1) \<open>a \<le> length text\<close>] and tb = to_source_offset_boundary [OF r bd(2) ab(2)]
  define k where "k = a - text_pos ps ?i"
  define m where "m = b - text_pos ps ?l"
  have a: "a = text_pos ps ?i + k" "k \<le> length (valid_part ps tail ?i)" using ba by (simp_all add: k_def)
  have b: "b = text_pos ps ?l + m" "m \<le> length (valid_part ps tail ?l)" using bb by (simp_all add: m_def)
  have first: "partition_point (\<lambda>(at, _). at < a) (shifts f) = ?i" "partition_point (\<lambda>(at, _). at < b) (shifts f) = ?l"
    by (simp_all add: piece_of_def)
  show ?thesis
  proof (cases "?i = ?l")
    case True
    then have "k \<le> m" using ab(1) by (simp add: k_def m_def)
    note s = slice_in_piece [OF r il(2) this b(2)]
    have "source_bytes f text a b = None" using True by (simp only: source_bytes_def first Let_def) simp
    moreover have "slice text a b = slice bytes (to_source_offset f a) (to_source_offset f b)"
      unfolding ta tb True k_def [symmetric, unfolded True] m_def [symmetric] using s a(1) b(1) True by simp
    ultimately show ?thesis by simp
  next
    case False
    have ba': "is_char_boundary text (text_pos ps ?i + k)" using bd(1) a(1) by simp
    have loop: "source_loop f text [?i..<?l] a [] =
        Some (text_pos ps ?l, slice bytes (source_pos ps ?i + k) (source_pos ps ?l))"
      using source_loop_slices [OF r il a(2) ba', of "[]"] False by (simp add: a(1) [symmetric])
    have piece: "str_get text (text_pos ps ?l) b = Some (slice bytes (source_pos ps ?l) (source_pos ps ?l + m))"
      using slice_in_piece [OF r il(2) le0 b(2)] piece_boundary [OF r il(2)] bd(2) ab(2) b(1)
      by (simp add: str_get_def)
    have "source_pos ps ?i + k \<le> source_pos ps ?l"
    proof -
      have "?i < length ps" using False il by simp
      then have "source_pos ps ?i + k \<le> source_pos ps (Suc ?i)" using a(2) by (simp add: text_pos_Suc valid_part_def)
      moreover have "source_pos ps (Suc ?i) \<le> source_pos ps j" if "Suc ?i \<le> j" "j \<le> length ps" for j
        using that by (induction j) (auto simp: le_Suc_eq text_pos_Suc)
      ultimately show ?thesis using False il by (metis Suc_leI le_trans order_le_imp_less_or_eq)
    qed
    then have "source_bytes f text a b = Some (slice bytes (source_pos ps ?i + k) (source_pos ps ?l + m))"
      using False loop piece by (simp add: source_bytes_def first Let_def slice_append)
    then show ?thesis by (simp add: ta tb k_def m_def)
  qed
qed

section \<open>Valid text\<close>

lemma from_utf8_error_append:
  "valid_utf8 a \<Longrightarrow> from_utf8_error (a @ b) = map_option (\<lambda>(v, e). (length a + v, e)) (from_utf8_error b)"
proof (induction a rule: from_utf8_error.induct)
  case (1 a)
  show ?case
  proof (cases "a = []")
    case True
    then show ?thesis by (simp add: option.map_ident case_prod_unfold)
  next
    case False
    then obtain n where n: "utf8_next a = Inr n" "from_utf8_error (drop n a) = None"
      using "1.prems" by (cases "utf8_next a") (auto simp: valid_utf8_def from_utf8_error.simps [of a])
    have le: "n \<le> length a" using utf8_next_Inr_bounds n(1) by blast
    have "utf8_next (take n a @ (drop n a @ b)) = Inr n" by (rule utf8_next_append [OF n(1)])
    then have nx: "utf8_next (a @ b) = Inr n" by (metis append_assoc append_take_drop_id)
    have "from_utf8_error (drop n a @ b) = map_option (\<lambda>(v, e). (length (drop n a) + v, e)) (from_utf8_error b)"
      using "1.IH" [OF False n(1)] n(2) by (simp add: valid_utf8_def)
    then show ?thesis
      using False nx le by (simp add: from_utf8_error.simps [of "a @ b"] option.map_comp comp_def case_prod_unfold)
  qed
qed

lemma valid_utf8_append: "valid_utf8 a \<Longrightarrow> valid_utf8 (a @ b) \<longleftrightarrow> valid_utf8 b"
  by (simp add: valid_utf8_def from_utf8_error_append)

lemma valid_replacement: "valid_utf8 REPLACEMENT_CHARACTER"
  by (simp add: valid_utf8_def REPLACEMENT_CHARACTER_def from_utf8_error.simps utf8_next_def second_of_three_def is_cont_def)

lemma lossy_utf8_valid: "valid_utf8 (fst (lossy_utf8 bs))"
proof -
  have "valid_utf8 (text_of ps @ tail)" if "\<forall>p\<in>set ps. repair_ok p" "valid_utf8 tail" for ps tail
    using that by (induction ps) (auto simp: text_of_def valid_utf8_append valid_replacement repair_ok_def)
  then show ?thesis using repairs_ok [of bs] by (simp add: lossy_utf8_repairs)
qed

lemma lossy_utf8_of_valid: "valid_utf8 bs \<Longrightarrow> lossy_utf8 bs = (bs, no_fixups)"
  by (simp add: lossy_utf8_def lossy_utf8_into_def)

section \<open>Properties\<close>

lemma demo_repairs: "lossy_utf8 [0x61, 0xFF, 0x62] =
    ([0x61, 0xEF, 0xBF, 0xBD, 0x62], \<lparr>shifts = [(1, 2)], replaced_bytes = [0xFF]\<rparr>)"
proof -
  have e: "from_utf8_error [0x61, 0xFF, 0x62] = Some (1, Some 1)" "from_utf8_error [0x62] = None"
    by (simp_all add: from_utf8_error.simps utf8_next_def)
  have "repairs_of [0x61, 0xFF, 0x62] = ([([0x61], [0xFF])], [0x62])"
    by (simp add: repairs_of.simps [of "[0x61, 0xFF, 0x62]"] repairs_of.simps [of "[0x62]"] e)
  then show ?thesis by (simp add: lossy_utf8_repairs text_of_def REPLACEMENT_CHARACTER_def REPLACEMENT_LEN_def)
qed

text \<open>C36. Text and file agree through the fixups: for any range of the repaired text between two
  characters, the source bytes (the text itself where nothing was repaired) are the bytes of the
  file between the two mapped offsets.  In particular the lookups into the recorded bytes never
  fail, and the whole text gives back the whole file.\<close>

theorem repaired_text_maps_back:
  assumes "lossy_utf8 bytes = (text, f)" "a \<le> b" "b \<le> length text"
    and "is_char_boundary text a" "is_char_boundary text b"
  shows "(case source_bytes f text a b of Some xs \<Rightarrow> xs | None \<Rightarrow> slice text a b) =
    slice bytes (to_source_offset f a) (to_source_offset f b)"
  by (rule source_bytes_repaired [OF lossy_utf8_repaired [OF assms(1)] assms(2-5)])

theorem repaired_text_maps_back_witness:
  "(case source_bytes \<lparr>shifts = [(1, 2)], replaced_bytes = [0xFF]\<rparr> [0x61, 0xEF, 0xBF, 0xBD, 0x62] 1 5 of
      Some xs \<Rightarrow> xs | None \<Rightarrow> slice [0x61, 0xEF, 0xBF, 0xBD, 0x62] 1 5) = slice [0x61, 0xFF, 0x62] 1 3"
  using repaired_text_maps_back [OF demo_repairs, of 1 5]
  by (simp add: is_char_boundary_def to_source_offset_def partition_point_def REPLACEMENT_LEN_def)

text \<open>C37. Indexing reads the text that searching reads: unless a file is rejected as binary, the bytes
  whose trigrams are indexed are the decoded text a default search matches against.\<close>

theorem index_reads_what_search_reads:
  assumes "\<forall>enc bs. enc \<noteq> UTF_8 E \<longrightarrow> valid_utf8 (decode_without_bom E enc bs)"
    and "\<not> is_binary (cow_bytes (decode_for_index E bytes))"
  shows "cow_bytes (decode_for_index E bytes) = decode_text E bytes Auto"
proof (cases "decode_bytes E bytes Auto")
  case (Borrowed body)
  then show ?thesis
    using assms(2) lossy_utf8_of_valid [of body]
    by (auto simp: decode_for_index_def decode_text_def decode_with_fixups_def lossy_utf8_into_plain split: if_splits)
next
  case (Owned body)
  then have "valid_utf8 body"
    using assms(1) by (auto simp: decode_bytes_def decode_body_def transcode_def split: option.splits if_splits)
  with Owned show ?thesis by (simp add: decode_for_index_def decode_text_def decode_with_fixups_def)
qed

definition demo_encodings :: "nat encodings" where
  "demo_encodings =
     \<lparr>for_bom = (\<lambda>bs. if take 3 bs = [0xEF, 0xBB, 0xBF] then Some (0, 3) else if take 2 bs = [0xFF, 0xFE] then Some (1, 2) else None),
      for_label = (\<lambda>_. None), encoding_name = (\<lambda>_. ''ascii''), UTF_8 = 0,
      decode_without_bom = (\<lambda>_ bs. map (\<lambda>b. if b < 0x80 then b else 0x3F) bs)\<rparr>"

theorem index_reads_what_search_reads_witness:
  "cow_bytes (decode_for_index demo_encodings [0xEF, 0xBB, 0xBF, 0x61, 0xFF, 0x62]) = [0x61, 0xEF, 0xBF, 0xBD, 0x62] \<and>
   decode_text demo_encodings [0xEF, 0xBB, 0xBF, 0x61, 0xFF, 0x62] Auto = [0x61, 0xEF, 0xBF, 0xBD, 0x62]"
proof -
  let ?bs = "[0xEF, 0xBB, 0xBF, 0x61, 0xFF, 0x62] :: byte list"
  have body: "decode_bytes demo_encodings ?bs Auto = Borrowed [0x61, 0xFF, 0x62]"
    by (simp add: decode_bytes_def decode_body_def demo_encodings_def)
  have "\<not> valid_utf8 [0x61, 0xFF, 0x62]"
    by (simp add: valid_utf8_def from_utf8_error.simps utf8_next_def)
  then have idx: "cow_bytes (decode_for_index demo_encodings ?bs) = [0x61, 0xEF, 0xBF, 0xBD, 0x62]"
    by (simp add: decode_for_index_def body is_binary_def lossy_utf8_into_plain demo_repairs)
  have "\<forall>enc bs. enc \<noteq> UTF_8 demo_encodings \<longrightarrow> valid_utf8 (decode_without_bom demo_encodings enc bs)"
    by (auto simp: demo_encodings_def intro!: ascii_valid)
  from index_reads_what_search_reads [OF this, of ?bs] show ?thesis
    unfolding idx by (simp add: is_binary_def)
qed

text \<open>Decoding produces valid UTF-8 whatever the file holds, the pass that measures it first
  announces its length and the number of replacements exactly, and decoding a buffer in place is
  decoding a copy of it.\<close>

theorem lossy_decoding_is_measured:
  "valid_utf8 (decode_text E bytes mode) \<and>
   lossy_utf8_shape bytes = (length (fst (lossy_utf8 bytes)), length (shifts (snd (lossy_utf8 bytes)))) \<and>
   decode_owned_with_fixups E bytes mode = decode_with_fixups E bytes mode"
proof (intro conjI)
  show "valid_utf8 (decode_text E bytes mode)"
    by (simp add: decode_text_def decode_with_fixups_def lossy_utf8_valid split: cow.split)
  show "lossy_utf8_shape bytes = (length (fst (lossy_utf8 bytes)), length (shifts (snd (lossy_utf8 bytes))))"
    by (simp add: lossy_utf8_shape_def shape_loop_repairs lossy_utf8_repairs)
  show "decode_owned_with_fixups E bytes mode = decode_with_fixups E bytes mode"
    by (auto simp: decode_owned_with_fixups_def decode_with_fixups_def borrows_whole_input_def decode_bytes_def
        decode_body_def lossy_utf8_of_valid split: encoding_mode.splits)
qed

end
