(* ===== verification/Base64.thy ===== *)
theory Base64
  imports Prelude
begin

text \<open>
  Text literals and base64 (\<^verbatim>\<open>tgrep-cli/src/output.rs\<close>): the encoding of bytes that are
  not UTF-8 in JSON messages, its decoder, and the proof that decoding gives the bytes back.
\<close>

definition ascii :: "string \<Rightarrow> byte list" where
  "ascii s = map of_char s"

section \<open>Base64\<close>

definition BASE64 :: "byte list" where
  "BASE64 = ascii ''ABCDEFGHIJKLMNOPQRSTUVWXYZabcdefghijklmnopqrstuvwxyz0123456789+/''"

fun chunk_bits :: "byte list \<Rightarrow> nat \<Rightarrow> u32 \<Rightarrow> u32" where
  "chunk_bits [] i n = n"
| "chunk_bits (b # bs) i n = chunk_bits bs (i + 1) (n OR push_bit (16 - 8 * i) (ucast b))"

definition chunk_text :: "byte list \<Rightarrow> byte list" where
  "chunk_text chunk =
     (let n = chunk_bits chunk 0 0
      in map (\<lambda>i. if i \<le> length chunk then BASE64 ! unat (drop_bit (18 - 6 * i) n AND 63) else 0x3D) [0..<4])"

fun base64_encode :: "byte list \<Rightarrow> byte list" where
  "base64_encode [] = []"
| "base64_encode (a # b # c # bs) = chunk_text [a, b, c] @ base64_encode bs"
| "base64_encode [a, b] = chunk_text [a, b]"
| "base64_encode [a] = chunk_text [a]"

definition base64_value :: "byte \<Rightarrow> nat option" where
  "base64_value c =
     (let i = length (takeWhile (\<lambda>b. b \<noteq> c) BASE64) in if i < length BASE64 then Some i else None)"

fun chunk_values :: "byte list \<Rightarrow> nat \<Rightarrow> u32 \<Rightarrow> u32 option" where
  "chunk_values [] i n = Some n"
| "chunk_values (c # cs) i n =
     Option.bind (base64_value c) (\<lambda>v. chunk_values cs (i + 1) (n OR push_bit (18 - 6 * i) (of_nat v)))"

text \<open>Chunks of four; padding is allowed in the last one, whose number is \<open>count - 1\<close>.\<close>

fun decode_chunks :: "byte list \<Rightarrow> nat \<Rightarrow> nat \<Rightarrow> byte list \<Rightarrow> byte list option" where
  "decode_chunks (a # b # c # d # rest) index count out =
     (let chunk = [a, b, c, d]; pad = length (takeWhile (\<lambda>c. c = 0x3D) (rev chunk))
      in if pad > 2 \<or> (pad > 0 \<and> index + 1 \<noteq> count) then None
         else Option.bind (chunk_values (take (4 - pad) chunk) 0 0) (\<lambda>n.
           decode_chunks rest (index + 1) count (out @ slice (rev (le_bytes 4 n)) 1 (4 - pad))))"
| "decode_chunks bs index count out = Some out"

definition base64_decode :: "byte list \<Rightarrow> byte list option" where
  "base64_decode text =
     (if length text mod 4 \<noteq> 0 then None else decode_chunks text 0 (length text div 4) [])"

section \<open>Base64 reads back\<close>

lemma of_char_byte [simp]: "(of_char c :: byte) = of_char d \<longleftrightarrow> c = d"
proof -
  have "unat (of_char c :: byte) = of_char c" for c
  proof -
    have "(of_char c :: byte) = of_nat (of_char c)" by (rule of_nat_of_char [symmetric])
    then have "unat (of_char c :: byte) = take_bit 8 (of_char c)" by (simp add: unsigned_of_nat)
    moreover have "(of_char c :: nat) < 2 ^ LENGTH(8)" using of_char_mod_256 [of c] mod_less_divisor [of 256 "of_char c :: nat"] by simp
    ultimately show ?thesis by (simp add: take_bit_nat_eq_self)
  qed
  then show ?thesis by (metis of_char_eq_iff)
qed

lemma BASE64_distinct: "distinct BASE64" "length BASE64 = 64" "0x3D \<notin> set BASE64"
proof -
  let ?s = "''ABCDEFGHIJKLMNOPQRSTUVWXYZabcdefghijklmnopqrstuvwxyz0123456789+/''"
  have "distinct ?s" "CHR 0x3D \<notin> set ?s" by simp_all
  then show "distinct BASE64" "0x3D \<notin> set BASE64"
    using of_char_byte [of "CHR 0x3D"] by (auto simp: BASE64_def ascii_def distinct_map inj_on_def)
  show "length BASE64 = 64" by (simp add: BASE64_def ascii_def)
qed

lemma BASE64_values:
  assumes "i < 64"
  shows "base64_value (BASE64 ! i) = Some i \<and> BASE64 ! i \<noteq> 0x3D"
proof -
  have "takeWhile (\<lambda>b. b \<noteq> BASE64 ! i) BASE64 = take i BASE64"
    using assms BASE64_distinct(1,2) by (intro takeWhile_eq_take_P_nth) (auto simp: nth_eq_iff_index_eq)
  then show ?thesis using assms BASE64_distinct(2,3) nth_mem [of i BASE64] by (auto simp: base64_value_def simp del: nth_mem)
qed

lemma six_bits: "unat ((x :: u32) AND 63) < 64"
proof -
  have "x AND 63 = take_bit 6 x" by (simp add: take_bit_eq_mask mask_eq_decr_exp)
  then show ?thesis using take_bit_nat_less_exp [of 6 "unat x"] by (simp add: unsigned_take_bit_eq)
qed

lemma decode_digit:
  "base64_value (BASE64 ! unat ((x :: u32) AND 63)) = Some (unat (x AND 63))" "BASE64 ! unat ((x :: u32) AND 63) \<noteq> 0x3D"
  using BASE64_values [OF six_bits [of x]] by simp_all

lemma le_bytes_32: "le_bytes 4 (n :: u32) = [ucast n, ucast (drop_bit 8 n), ucast (drop_bit 16 n), ucast (drop_bit 24 n)]"
  by (simp add: le_bytes_def upt_rec)

text \<open>The bits of up to three bytes and of their digits.\<close>

lemma digit_bits:
  fixes n :: u32
  assumes "take_bit 24 n = n"
  shows "push_bit 18 (drop_bit 18 n AND 63) OR push_bit 12 (drop_bit 12 n AND 63) OR
    push_bit 6 (drop_bit 6 n AND 63) OR (n AND 63) = n"
    "drop_bit 6 n AND 63 = 0 \<Longrightarrow> n AND 63 = 0 \<Longrightarrow>
      push_bit 18 (drop_bit 18 n AND 63) OR push_bit 12 (drop_bit 12 n AND 63) = n"
    "n AND 63 = 0 \<Longrightarrow>
      push_bit 18 (drop_bit 18 n AND 63) OR push_bit 12 (drop_bit 12 n AND 63) OR push_bit 6 (drop_bit 6 n AND 63) = n"
proof -
  have m: "(63 :: u32) = mask 6" by (simp add: mask_eq_decr_exp)
  have high: "\<not> bit n i" if "24 \<le> i" for i
    using that by (subst assms [symmetric]) (simp add: bit_take_bit_iff)
  show whole: "push_bit 18 (drop_bit 18 n AND 63) OR push_bit 12 (drop_bit 12 n AND 63) OR
    push_bit 6 (drop_bit 6 n AND 63) OR (n AND 63) = n"
    unfolding m
  proof (rule bit_word_eqI)
    fix i assume "i < LENGTH(32)"
    consider "i < 6" | "6 \<le> i" "i < 12" | "12 \<le> i" "i < 18" | "18 \<le> i" "i < 24" | "24 \<le> i" by linarith
    then show "bit (push_bit 18 (drop_bit 18 n AND mask 6) OR push_bit 12 (drop_bit 12 n AND mask 6) OR
        push_bit 6 (drop_bit 6 n AND mask 6) OR (n AND mask 6)) i = bit n i"
      using high [of i] \<open>i < LENGTH(32)\<close>
      by cases (simp_all add: bit_or_iff bit_and_iff bit_push_bit_iff bit_drop_bit_eq bit_mask_iff less_diff_conv2)
  qed
  then show "drop_bit 6 n AND 63 = 0 \<Longrightarrow> n AND 63 = 0 \<Longrightarrow>
      push_bit 18 (drop_bit 18 n AND 63) OR push_bit 12 (drop_bit 12 n AND 63) = n"
    "n AND 63 = 0 \<Longrightarrow>
      push_bit 18 (drop_bit 18 n AND 63) OR push_bit 12 (drop_bit 12 n AND 63) OR push_bit 6 (drop_bit 6 n AND 63) = n"
    by simp_all
qed

lemma chunk_of_bytes:
  fixes a b c :: byte
  defines "n \<equiv> push_bit 16 (ucast a) OR push_bit 8 (ucast b) OR ucast c :: u32"
  shows "take_bit 24 n = n" "slice (rev (le_bytes 4 n)) 1 4 = [a, b, c]"
proof -
  have bits: "bit n i \<longleftrightarrow> i < 32 \<and> (16 \<le> i \<and> bit a (i - 16) \<or> 8 \<le> i \<and> bit b (i - 8) \<or> bit c i)" for i
    by (auto simp: n_def bit_or_iff bit_push_bit_iff bit_ucast_iff)
  have small: "\<not> bit (x :: byte) i" if "8 \<le> i" for x i using that bit_imp_le_length [of x i] by auto
  show "take_bit 24 n = n"
  proof (rule bit_word_eqI)
    fix i
    have "i < 24" if "bit n i"
    proof (rule ccontr)
      assume "\<not> i < 24"
      then show False using that small by (simp add: bits)
    qed
    then show "bit (take_bit 24 n) i = bit n i" by (auto simp: bit_take_bit_iff)
  qed
  have "ucast (drop_bit 16 n) = a" "ucast (drop_bit 8 n) = b" "ucast n = c"
    by (rule bit_word_eqI; use small in \<open>auto simp: bit_ucast_iff bit_drop_bit_eq bits\<close>)+
  then show "slice (rev (le_bytes 4 n)) 1 4 = [a, b, c]" by (simp add: le_bytes_32 slice_def)
qed

lemma slice_shorter: "slice xs 1 4 = [a, b, c] \<Longrightarrow> slice xs 1 3 = [a, b] \<and> slice xs 1 2 = [a]"
proof -
  assume s: "slice xs 1 4 = [a, b, c]"
  have "slice xs 1 3 = take 2 (slice xs 1 4)" "slice xs 1 2 = take 1 (slice xs 1 4)" by (simp_all add: slice_def drop_take)
  then show ?thesis unfolding s by simp
qed

lemma decode_chunk_text:
  assumes "chunk \<noteq> []" "length chunk \<le> 3" "length chunk = 3 \<or> index + 1 = count"
  shows "decode_chunks (chunk_text chunk @ rest) index count out = decode_chunks rest (index + 1) count (out @ chunk)"
proof -
  consider a b c where "chunk = [a, b, c]" | a b where "chunk = [a, b]" | a where "chunk = [a]"
    using assms(1,2) by (cases chunk; cases "tl chunk"; cases "tl (tl chunk)") auto
  then show ?thesis
  proof cases
    case (1 a b c)
    let ?n = "push_bit 16 (ucast a) OR push_bit 8 (ucast b) OR ucast c :: u32"
    note n = chunk_of_bytes [of a b c]
    have "chunk_bits chunk 0 0 = ?n" by (simp add: 1 or.assoc)
    then have "chunk_text chunk = [BASE64 ! unat (drop_bit 18 ?n AND 63), BASE64 ! unat (drop_bit 12 ?n AND 63),
        BASE64 ! unat (drop_bit 6 ?n AND 63), BASE64 ! unat (?n AND 63)]"
      by (simp add: chunk_text_def 1 upt_rec Let_def)
    then show ?thesis using digit_bits(1) [OF n(1)] n(2) 1
      by (simp add: decode_digit Let_def or.assoc)
  next
    case (2 a b)
    let ?n = "push_bit 16 (ucast a) OR push_bit 8 (ucast b) :: u32"
    have n: "take_bit 24 ?n = ?n" "slice (rev (le_bytes 4 ?n)) 1 4 = [a, b, 0]" using chunk_of_bytes [of a b 0] by simp_all
    have m: "(63 :: u32) = mask 6" by (simp add: mask_eq_decr_exp)
    have "?n AND 63 = 0" unfolding m
      by (rule bit_word_eqI) (auto simp: bit_and_iff bit_or_iff bit_push_bit_iff bit_mask_iff)
    have "chunk_bits chunk 0 0 = ?n" by (simp add: 2)
    then have "chunk_text chunk = [BASE64 ! unat (drop_bit 18 ?n AND 63), BASE64 ! unat (drop_bit 12 ?n AND 63),
        BASE64 ! unat (drop_bit 6 ?n AND 63), 0x3D]"
      by (simp add: chunk_text_def 2 upt_rec Let_def)
    then show ?thesis using digit_bits(3) [OF n(1) \<open>?n AND 63 = 0\<close>] slice_shorter [OF n(2)] 2 assms(3)
      by (simp add: decode_digit Let_def or.assoc)
  next
    case (3 a)
    let ?n = "push_bit 16 (ucast a) :: u32"
    have n: "take_bit 24 ?n = ?n" "slice (rev (le_bytes 4 ?n)) 1 4 = [a, 0, 0]" using chunk_of_bytes [of a 0 0] by simp_all
    have m: "(63 :: u32) = mask 6" by (simp add: mask_eq_decr_exp)
    have z: "?n AND 63 = 0" "drop_bit 6 ?n AND 63 = 0" unfolding m
      by (rule bit_word_eqI; auto simp: bit_and_iff bit_push_bit_iff bit_mask_iff bit_drop_bit_eq)+
    have "chunk_bits chunk 0 0 = ?n" by (simp add: 3)
    then have "chunk_text chunk = [BASE64 ! unat (drop_bit 18 ?n AND 63), BASE64 ! unat (drop_bit 12 ?n AND 63), 0x3D, 0x3D]"
      by (simp add: chunk_text_def 3 upt_rec Let_def)
    then show ?thesis using digit_bits(2) [OF n(1) z(2,1)] slice_shorter [OF n(2)] 3 assms(3)
      by (simp add: decode_digit Let_def or.assoc)
  qed
qed

lemma length_chunk_text [simp]: "length (chunk_text chunk) = 4"
  by (simp add: chunk_text_def Let_def)

lemma length_base64: "length (base64_encode bs) = 4 * ((length bs + 2) div 3)"
proof (induction bs rule: base64_encode.induct)
  case (2 a b c bs)
  have "(length (a # b # c # bs) + 2) div 3 = (length bs + 2) div 3 + 1" by (simp add: div_add_self2 [of 3 "length bs + 2", symmetric] del: div_add_self2)
  then show ?case using 2 by simp
qed simp_all

lemma decode_chunks_encode:
  "index + (length bs + 2) div 3 = count \<Longrightarrow> decode_chunks (base64_encode bs) index count out = Some (out @ bs)"
proof (induction bs arbitrary: index out rule: base64_encode.induct)
  case (2 a b c bs)
  then show ?case using decode_chunk_text [of "[a, b, c]" index count "base64_encode bs" out] by simp
next
  case (3 v w)
  then show ?case using decode_chunk_text [of "[v, w]" index count "[]" out] by simp
next
  case (4 v)
  then show ?case using decode_chunk_text [of "[v]" index count "[]" out] by simp
qed simp

text \<open>Base64 reads back: what the JSON output writes for bytes that are not UTF-8 decodes to these bytes, and its
  length is four characters for every three bytes begun.\<close>

theorem base64_round_trip:
  "base64_decode (base64_encode bytes) = Some bytes \<and> length (base64_encode bytes) = 4 * ((length bytes + 2) div 3)"
  using decode_chunks_encode [of 0 bytes] by (simp add: base64_decode_def length_base64)

text \<open>The decoder does not look at the bits beyond the last byte, so two texts can stand for the same bytes.\<close>

lemma noncanonical_text_decodes:
  "base64_decode [0x5A, 0x68, 0x3D, 0x3D] = Some [0x66] \<and> base64_encode [0x66] = [0x5A, 0x67, 0x3D, 0x3D]"
  by code_simp

end
