(* ===== verification/Printer.thy ===== *)
theory Printer
  imports Encoding Base64
begin

text \<open>
  Printing results (\<^verbatim>\<open>tgrep-cli/src/output.rs\<close>): the state of the writer, the text
  formats with their prefixes, separators, headings, colours and line limits, and the messages of
  the JSON format.  Standard output is the bytes written to it, so flushing has no effect, and a
  write that fails, which ends the command, is left out.  Whether standard output is a terminal, the
  text of a JSON value and the elapsed time of a message are arguments.  The host is Unix.
\<close>

section \<open>Rows and configuration\<close>

text \<open>A number in decimal digits.\<close>

fun decimal :: "nat \<Rightarrow> byte list" where
  "decimal n = (if n < 10 then [0x30 + of_nat n] else decimal (n div 10) @ [0x30 + of_nat (n mod 10)])"

declare decimal.simps [simp del]

record raw_line =
  raw_bytes :: "byte list"
  raw_spans :: "(nat \<times> nat) list"

record match_result =
  r_file :: path
  r_line_number :: nat
  r_content :: "byte list"
  r_columns :: "nat list"
  r_spans :: "(nat \<times> nat) list"
  r_absolute_offset :: nat
  r_terminator_len :: nat
  r_block :: "(nat \<times> nat) option"
  r_hidden :: bool
  r_replacements :: "byte list list option"
  r_raw :: "raw_line option"

definition match_column :: "match_result \<Rightarrow> nat option" where
  "match_column self = (case r_columns self of [] \<Rightarrow> None | c # cs \<Rightarrow> Some c)"

record context_result =
  x_file :: path
  x_line_number :: nat
  x_content :: "byte list"
  x_absolute_offset :: nat
  x_terminator_len :: nat
  x_raw :: "byte list option"

definition MATCH_COLOR :: "byte list" where
  "MATCH_COLOR = 0x1B # ascii ''[1;31m''"

definition COLOR_RESET :: "byte list" where
  "COLOR_RESET = 0x1B # ascii ''[0m''"

datatype color_mode = ColorAuto | ColorAlways | ColorNever

definition color_is_enabled :: "bool \<Rightarrow> color_mode \<Rightarrow> bool" where
  "color_is_enabled tty self = (case self of ColorAuto \<Rightarrow> tty | ColorAlways \<Rightarrow> True | ColorNever \<Rightarrow> False)"

definition color_from_str_opt :: "string \<Rightarrow> color_mode option" where
  "color_from_str_opt s =
     (if s = ''auto'' then Some ColorAuto else if s = ''always'' then Some ColorAlways
      else if s = ''never'' then Some ColorNever else None)"

datatype output_format = Heading | Flat | Json | Vimgrep | FilesOnly | Count

datatype path_display = Bare | Prefix "byte list" | Exact "byte list"

record output_config =
  format :: output_format
  color :: color_mode
  heading :: "bool option"
  null :: bool
  trim_lines :: bool
  no_filename :: bool
  no_line_number :: bool
  shows_context :: bool
  column :: bool
  byte_offset :: bool
  max_columns :: "nat option"
  max_columns_preview :: bool
  context_separator :: "byte list option"
  eager_file_separator :: bool
  field_match_separator :: "byte list"
  field_context_separator :: "byte list"
  path_separator :: "byte list option"
  path_displayed :: path_display
  line_buffered :: bool

definition output_config_default :: output_config where
  "output_config_default =
     \<lparr>format = Heading, color = ColorAuto, heading = None, null = False, trim_lines = False, no_filename = False,
      no_line_number = False, shows_context = False, column = False, byte_offset = False, max_columns = None,
      max_columns_preview = False, context_separator = Some (ascii ''--''), eager_file_separator = False,
      field_match_separator = ascii '':'', field_context_separator = ascii ''-'', path_separator = None,
      path_displayed = Bare, line_buffered = False\<rparr>"

definition is_count :: "output_config \<Rightarrow> bool" where
  "is_count self = (format self = Count)"

section \<open>JSON values\<close>

datatype json = JNull | JNumber nat | JText "byte list" | JArray "json list" | JObject "(string \<times> json) list"

record stats =
  searches :: nat
  searches_with_match :: nat
  bytes_searched :: nat
  bytes_printed :: nat
  stat_matched_lines :: nat
  stat_matches :: nat

definition stats_default :: stats where
  "stats_default = \<lparr>searches = 0, searches_with_match = 0, bytes_searched = 0, bytes_printed = 0,
     stat_matched_lines = 0, stat_matches = 0\<rparr>"

definition stats_add :: "stats \<Rightarrow> stats \<Rightarrow> stats" where
  "stats_add self other =
     \<lparr>searches = searches self + searches other,
      searches_with_match = searches_with_match self + searches_with_match other,
      bytes_searched = bytes_searched self + bytes_searched other,
      bytes_printed = bytes_printed self + bytes_printed other,
      stat_matched_lines = stat_matched_lines self + stat_matched_lines other,
      stat_matches = stat_matches self + stat_matches other\<rparr>"

definition stats_to_json :: "json \<Rightarrow> stats \<Rightarrow> json" where
  "stats_to_json elapsed self = JObject
     [(''elapsed'', elapsed), (''searches'', JNumber (searches self)),
      (''searches_with_match'', JNumber (searches_with_match self)),
      (''bytes_searched'', JNumber (bytes_searched self)), (''bytes_printed'', JNumber (bytes_printed self)),
      (''matched_lines'', JNumber (stat_matched_lines self)), (''matches'', JNumber (stat_matches self))]"

section \<open>The writer\<close>

record output_writer =
  config :: output_config
  stdout :: "byte list"
  current_file :: "path option"
  use_color :: bool
  use_heading :: bool
  last_printed_line :: "(path \<times> nat) option"
  printed_any :: bool
  pending_file_separator :: bool
  file_stats :: stats
  last_json_match_line :: "nat option"
  total_stats :: stats
  pending_bytes_searched :: nat
  current_binary_offset :: "nat option"
  all_bytes_searched :: nat
  all_searches :: nat
  total_matches :: nat
  total_matched_lines :: nat

definition writer_new :: "bool \<Rightarrow> output_config \<Rightarrow> output_writer" where
  "writer_new is_tty cfg =
     \<lparr>config = cfg, stdout = [], current_file = None, use_color = color_is_enabled is_tty (color cfg),
      use_heading = (case heading cfg of Some h \<Rightarrow> h | None \<Rightarrow> is_tty \<and> format cfg \<noteq> Flat \<and> format cfg \<noteq> Vimgrep),
      last_printed_line = None, printed_any = False, pending_file_separator = False,
      file_stats = stats_default, last_json_match_line = None, total_stats = stats_default,
      pending_bytes_searched = 0, current_binary_offset = None, all_bytes_searched = 0, all_searches = 0,
      total_matches = 0, total_matched_lines = 0\<rparr>"

definition put :: "byte list \<Rightarrow> output_writer \<Rightarrow> output_writer" where
  "put bytes self = self\<lparr>stdout := stdout self @ bytes\<rparr>"

definition put_line :: "byte list \<Rightarrow> output_writer \<Rightarrow> output_writer" where
  "put_line bytes = put (bytes @ [0x0A])"

definition writer_match_totals :: "output_writer \<Rightarrow> nat \<times> nat" where
  "writer_match_totals self = (total_matches self, total_matched_lines self)"

definition reset_match_totals :: "output_writer \<Rightarrow> output_writer" where
  "reset_match_totals self = self\<lparr>total_matches := 0, total_matched_lines := 0\<rparr>"

definition note_matches :: "nat \<Rightarrow> nat \<Rightarrow> output_writer \<Rightarrow> output_writer" where
  "note_matches matches matched self =
     self\<lparr>total_matches := total_matches self + matches, total_matched_lines := total_matched_lines self + matched\<rparr>"

definition is_json :: "output_writer \<Rightarrow> bool" where
  "is_json self = (format (config self) = Json)"

definition set_path_display :: "path_display \<Rightarrow> output_writer \<Rightarrow> output_writer" where
  "set_path_display p self = self\<lparr>config := (config self)\<lparr>path_displayed := p\<rparr>\<rparr>"

definition set_file_bytes_searched :: "nat \<Rightarrow> output_writer \<Rightarrow> output_writer" where
  "set_file_bytes_searched bytes self = self\<lparr>pending_bytes_searched := bytes\<rparr>"

definition note_bytes_searched :: "nat \<Rightarrow> output_writer \<Rightarrow> output_writer" where
  "note_bytes_searched bytes self =
     (let self = set_file_bytes_searched bytes self
      in self\<lparr>all_bytes_searched := all_bytes_searched self + bytes, all_searches := all_searches self + 1\<rparr>)"

section \<open>Paths, prefixes and lines\<close>

definition display_path :: "output_writer \<Rightarrow> path \<Rightarrow> byte list" where
  "display_path self file =
     (let joined = (case path_displayed (config self) of Exact p \<Rightarrow> p | Prefix p \<Rightarrow> p @ file | Bare \<Rightarrow> file)
      in case path_separator (config self) of
           Some sep \<Rightarrow> concat (map (\<lambda>b. if b = 0x2F \<or> b = 0x5C then sep else [b]) joined)
         | None \<Rightarrow> joined)"

fun floor_loop :: "byte list \<Rightarrow> nat \<Rightarrow> nat" where
  "floor_loop s 0 = 0"
| "floor_loop s (Suc i) = (if \<not> is_char_boundary s (Suc i) then floor_loop s i else Suc i)"

definition floor_boundary :: "byte list \<Rightarrow> nat \<Rightarrow> nat" where
  "floor_boundary s i = floor_loop s (min i (length s))"

definition apply_max_columns :: "output_writer \<Rightarrow> byte list \<Rightarrow> nat \<Rightarrow> bool \<Rightarrow> byte list" where
  "apply_max_columns self content terminator_len is_match =
     (case max_columns (config self) of
        None \<Rightarrow> content
      | Some limit \<Rightarrow>
          if length content + terminator_len \<le> limit then content
          else if max_columns_preview (config self) then
            take (floor_boundary content limit) content @ ascii '' [... omitted end of long line]''
          else if is_match then ascii ''[Omitted long matching line]''
          else ascii ''[Omitted long context line]'')"

definition field_prefix :: "output_writer \<Rightarrow> path \<Rightarrow> nat \<Rightarrow> nat option \<Rightarrow> nat \<Rightarrow> bool \<Rightarrow> byte list" where
  "field_prefix self file line_number col offset is_match =
     (let cfg = config self;
          sep = (if is_match then field_match_separator cfg else field_context_separator cfg);
          heading_active = (use_heading self \<and> \<not> no_filename cfg)
      in (if \<not> heading_active \<and> \<not> no_filename cfg
          then display_path self file @ (if null cfg then [0x00] else sep) else []) @
         (if \<not> no_line_number cfg
          then (if use_color self then 0x1B # ascii ''[32m'' @ decimal line_number @ 0x1B # ascii ''[0m''
                else decimal line_number) @ sep else []) @
         (if column cfg \<and> is_match then decimal (case col of Some c \<Rightarrow> c | None \<Rightarrow> 1) @ sep else []) @
         (if byte_offset cfg then decimal offset @ sep else []))"

fun highlight_loop :: "byte list \<Rightarrow> (nat \<times> nat) list \<Rightarrow> nat \<Rightarrow> byte list \<Rightarrow> byte list" where
  "highlight_loop content [] pos out = out @ drop pos content"
| "highlight_loop content ((start, stop) # spans) pos out =
     (let start = max (floor_boundary content start) pos;
          stop = max (floor_boundary content stop) start;
          out = (if start > pos then out @ slice content pos start else out);
          out = (if stop > start then out @ MATCH_COLOR @ slice content start stop @ COLOR_RESET else out)
      in highlight_loop content spans stop out)"

definition highlight :: "output_writer \<Rightarrow> byte list \<Rightarrow> (nat \<times> nat) list \<Rightarrow> byte list" where
  "highlight self content spans =
     (if \<not> use_color self \<or> spans = [] then content else highlight_loop content spans 0 [])"

definition leading_ascii_whitespace :: "byte list \<Rightarrow> nat" where
  "leading_ascii_whitespace s = length (takeWhile (\<lambda>b. b = 0x09 \<or> b = 0x0B \<or> b = 0x0C \<or> b = 0x0D \<or> b = 0x20) s)"

definition trims :: "output_writer \<Rightarrow> bool" where
  "trims self = (trim_lines (config self) \<and> \<not> is_json self)"

definition trim_adjust_indexed ::
  "output_writer \<Rightarrow> byte list \<Rightarrow> (nat \<times> nat) list \<Rightarrow> byte list \<times> (nat \<times> nat \<times> nat) list"
where
  "trim_adjust_indexed self s spans =
     (if \<not> trims self then (s, zip [0..<length spans] spans)
      else let delta = leading_ascii_whitespace s; trimmed = drop delta s
           in (trimmed, List.map_filter (\<lambda>(i, a, b).
                let a = min (a - delta) (length trimmed); b = min (b - delta) (length trimmed)
                in if b > a then Some (i, a, b) else None) (zip [0..<length spans] spans)))"

definition trim_adjust :: "output_writer \<Rightarrow> byte list \<Rightarrow> (nat \<times> nat) list \<Rightarrow> byte list \<times> (nat \<times> nat) list" where
  "trim_adjust self s spans = (case trim_adjust_indexed self s spans of (content, kept) \<Rightarrow> (content, map snd kept))"

definition trim_raw ::
  "output_writer \<Rightarrow> byte list \<Rightarrow> byte list \<Rightarrow> (nat \<times> nat) list \<Rightarrow> nat list \<Rightarrow> byte list \<times> (nat \<times> nat) list"
where
  "trim_raw self content raw spans kept =
     (let lead = (if trims self then min (leading_ascii_whitespace content) (length raw) else 0);
          bytes = drop lead raw
      in (bytes, map (\<lambda>i. case (if i < length spans then spans ! i else (0, 0)) of (a, b) \<Rightarrow>
            (min (a - lead) (length bytes), min (b - lead) (length bytes))) kept))"

section \<open>Separators and headings\<close>

definition write_pending_file_separator :: "output_writer \<Rightarrow> output_writer" where
  "write_pending_file_separator self =
     (let pending = pending_file_separator self; self = self\<lparr>pending_file_separator := False\<rparr>
      in case context_separator (config self) of
           Some sep \<Rightarrow> if pending then put_line sep self else self
         | None \<Rightarrow> self)"

definition write_context_separator :: "path \<Rightarrow> nat \<Rightarrow> output_writer \<Rightarrow> output_writer" where
  "write_context_separator file line_num self =
     (if is_json self \<or> \<not> shows_context (config self) then self
      else case context_separator (config self) of
          None \<Rightarrow> self
        | Some sep \<Rightarrow>
            (case last_printed_line self of
               None \<Rightarrow> self
             | Some (last_file, last_line) \<Rightarrow>
                 let gap_within_file = (last_file = file \<and> line_num > last_line + 1);
                     new_file = (last_file \<noteq> file \<and> \<not> use_heading self \<and> printed_any self)
                 in if new_file \<and> \<not> eager_file_separator (config self) then self\<lparr>pending_file_separator := True\<rparr>
                    else if gap_within_file \<or> new_file
                    then (put_line sep (write_pending_file_separator self))\<lparr>printed_any := True\<rparr>
                    else self))"

definition ensure_heading :: "path \<Rightarrow> output_writer \<Rightarrow> output_writer" where
  "ensure_heading file self =
     (if \<not> use_heading self then self
      else if current_file self \<noteq> Some file then
        let self = (if current_file self \<noteq> None then put_line [] self else self);
            shown = display_path self file;
            ending = (if null (config self) then [0x00] else [0x0A]);
            self = (if use_color self then put (0x1B # ascii ''[35m'' @ shown @ 0x1B # ascii ''[0m'' @ ending) self
                    else put (shown @ ending) self)
        in self\<lparr>printed_any := True, current_file := Some file, last_printed_line := None\<rparr>
      else self)"

section \<open>JSON messages\<close>

text \<open>How \<^verbatim>\<open>serde_json\<close> writes a value.\<close>

type_synonym renderer = "json \<Rightarrow> byte list"

definition message :: "string \<Rightarrow> (string \<times> json) list \<Rightarrow> json" where
  "message kind data = JObject [(''type'', JText (ascii kind)), (''data'', JObject data)]"

definition json_text :: "byte list \<Rightarrow> json" where
  "json_text t = JObject [(''text'', JText t)]"

text \<open>The text is None for bytes that are not UTF-8.\<close>

definition json_data :: "byte list option \<Rightarrow> byte list \<Rightarrow> json" where
  "json_data text bytes =
     (case text of Some t \<Rightarrow> json_text t | None \<Rightarrow> JObject [(''bytes'', JText (base64_encode bytes))])"

definition from_utf8_ok :: "byte list \<Rightarrow> byte list option" where
  "from_utf8_ok bytes = (if valid_utf8 bytes then Some bytes else None)"

definition json_line :: "byte list \<Rightarrow> byte list option \<Rightarrow> nat \<Rightarrow> json" where
  "json_line content raw terminator_len =
     (let terminator = (if terminator_len = 0 then [] else if terminator_len = 2 then [0x0D, 0x0A] else [0x0A])
      in case raw of
           Some raw \<Rightarrow> (let bytes = raw @ terminator in json_data (from_utf8_ok bytes) bytes)
         | None \<Rightarrow> json_text (content @ terminator))"

text \<open>A message that counts towards the bytes printed for the file.\<close>

definition put_counted :: "renderer \<Rightarrow> json \<Rightarrow> output_writer \<Rightarrow> output_writer" where
  "put_counted render msg self =
     (let line = render msg @ [0x0A]; stats = file_stats self
      in put line (self\<lparr>file_stats := stats\<lparr>bytes_printed := bytes_printed stats + length line\<rparr>\<rparr>))"

definition finish_json_file :: "renderer \<Rightarrow> json \<Rightarrow> output_writer \<Rightarrow> output_writer" where
  "finish_json_file render elapsed self =
     (case current_file self of
        None \<Rightarrow> self
      | Some file \<Rightarrow>
          let self = self\<lparr>current_file := None\<rparr>;
              stats = file_stats self;
              stats = (if stat_matched_lines stats > 0 then stats\<lparr>searches_with_match := 1\<rparr> else stats);
              offset = (case current_binary_offset self of Some off \<Rightarrow> JNumber off | None \<Rightarrow> JNull);
              msg = message ''end''
                [(''path'', json_text (display_path self file)), (''binary_offset'', offset),
                 (''stats'', stats_to_json elapsed stats)]
          in (put_line (render msg) self)\<lparr>current_binary_offset := None,
                total_stats := stats_add (total_stats self) stats, file_stats := stats_default,
                last_json_match_line := None\<rparr>)"

definition ensure_json_begin :: "renderer \<Rightarrow> json \<Rightarrow> path \<Rightarrow> output_writer \<Rightarrow> output_writer" where
  "ensure_json_begin render elapsed file self =
     (if current_file self = Some file then self
      else
        let self = finish_json_file render elapsed self;
            msg = message ''begin'' [(''path'', json_text (display_path self file))];
            stats = file_stats self;
            self = self\<lparr>file_stats := stats\<lparr>searches := 1, bytes_searched := pending_bytes_searched self\<rparr>\<rparr>
        in (put_counted render msg self)\<lparr>current_file := Some file, last_printed_line := None,
             last_json_match_line := None\<rparr>)"

section \<open>Writing results\<close>

definition write_binary_note :: "renderer \<Rightarrow> json \<Rightarrow> path \<Rightarrow> nat \<Rightarrow> output_writer \<Rightarrow> output_writer" where
  "write_binary_note render elapsed file offset self =
     (if is_json self then (ensure_json_begin render elapsed file self)\<lparr>current_binary_offset := Some offset\<rparr>
      else
        let note = ascii ''binary file matches (found '' @ [0x22, 0x5C, 0x30, 0x22] @ ascii '' byte around offset ''
              @ decimal offset @ ascii '')''
        in if no_filename (config self) then put_line note self
           else put_line (display_path self file @ ascii '': '' @ note) self)"

definition write_context_line :: "renderer \<Rightarrow> json \<Rightarrow> context_result \<Rightarrow> output_writer \<Rightarrow> output_writer" where
  "write_context_line render elapsed ctx self =
     (if is_json self then
        let self = ensure_json_begin render elapsed (x_file ctx) self;
            content = fst (trim_adjust self (x_content ctx) []);
            raw = map_option (\<lambda>raw. fst (trim_raw self (x_content ctx) raw [] [])) (x_raw ctx);
            msg = message ''context''
              [(''path'', json_text (display_path self (x_file ctx))),
               (''lines'', json_line content raw (x_terminator_len ctx)),
               (''line_number'', JNumber (x_line_number ctx)),
               (''absolute_offset'', JNumber (x_absolute_offset ctx)), (''submatches'', JArray [])]
        in (put_counted render msg self)\<lparr>last_printed_line := Some (x_file ctx, x_line_number ctx)\<rparr>
      else
        let self = write_pending_file_separator self;
            self = (if \<not> no_filename (config self) then ensure_heading (x_file ctx) self else self);
            content = fst (trim_adjust self (x_content ctx) []);
            content = apply_max_columns self content (x_terminator_len ctx) False;
            prefix = field_prefix self (x_file ctx) (x_line_number ctx) None (x_absolute_offset ctx) False
        in (put_line (prefix @ content) self)\<lparr>printed_any := True,
             last_printed_line := Some (x_file ctx, x_line_number ctx)\<rparr>)"

text \<open>One submatch; its number counts the ranges that trimming kept, its index all ranges.\<close>

definition submatch_json ::
  "match_result \<Rightarrow> byte list \<Rightarrow> (byte list \<times> (nat \<times> nat) list) option \<Rightarrow> nat \<Rightarrow> nat \<times> nat \<times> nat \<Rightarrow> json"
where
  "submatch_json m content raw k = (\<lambda>(i, s, e).
     let (matched, s, e) =
           (case raw of
              Some (bytes, spans) \<Rightarrow>
                let (s, e) = (if k < length spans then spans ! k else (s, e));
                    bytes = (case slice_get bytes s e of Some b \<Rightarrow> b | None \<Rightarrow> [])
                in (json_data (from_utf8_ok bytes) bytes, s, e)
            | None \<Rightarrow> (json_text (slice content s e), s, e));
         fields = [(''match'', matched), (''start'', JNumber s), (''end'', JNumber e)]
     in JObject (case r_replacements m of
          Some texts \<Rightarrow> fields @ [(''replacement'', json_text (if i < length texts then texts ! i else []))]
        | None \<Rightarrow> fields))"

definition write_json_match ::
  "renderer \<Rightarrow> json \<Rightarrow> match_result \<Rightarrow> byte list \<Rightarrow> (nat \<times> nat \<times> nat) list \<Rightarrow> output_writer \<Rightarrow> output_writer"
where
  "write_json_match render elapsed m content kept self =
     (let self = ensure_json_begin render elapsed (r_file m) self;
          raw = map_option (\<lambda>raw. trim_raw self (r_content m) (raw_bytes raw) (raw_spans raw) (map fst kept)) (r_raw m);
          submatches = map (\<lambda>(k, span). submatch_json m content raw k span) (zip [0..<length kept] kept);
          stats = file_stats self;
          stats = (if last_json_match_line self \<noteq> Some (r_line_number m)
                   then stats\<lparr>stat_matched_lines := stat_matched_lines stats + 1\<rparr> else stats);
          stats = stats\<lparr>stat_matches := stat_matches stats + length submatches\<rparr>;
          self = self\<lparr>last_json_match_line := Some (r_line_number m), file_stats := stats\<rparr>;
          msg = message ''match''
            [(''path'', json_text (display_path self (r_file m))),
             (''lines'', json_line content (map_option fst raw) (r_terminator_len m)),
             (''line_number'', JNumber (r_line_number m)), (''absolute_offset'', JNumber (r_absolute_offset m)),
             (''submatches'', JArray submatches)]
      in put_counted render msg self)"

definition write_text_match :: "match_result \<Rightarrow> byte list \<Rightarrow> (nat \<times> nat) list \<Rightarrow> output_writer \<Rightarrow> output_writer" where
  "write_text_match m content spans self =
     (let self = (if \<not> no_filename (config self) then ensure_heading (r_file m) self else self);
          clipped = apply_max_columns self content (r_terminator_len m) True;
          rendered = (if length clipped = length content then highlight self content spans else clipped);
          prefix = field_prefix self (r_file m) (r_line_number m) (match_column m) (r_absolute_offset m) True
      in put_line (prefix @ rendered) self)"

definition write_vimgrep_match :: "match_result \<Rightarrow> byte list \<Rightarrow> (nat \<times> nat) list \<Rightarrow> output_writer \<Rightarrow> output_writer" where
  "write_vimgrep_match m content spans self =
     (let rendered = highlight self content spans;
          sep = (if null (config self) then [0x00] else ascii '':'');
          row = (\<lambda>col. display_path self (r_file m) @ sep @ decimal (r_line_number m) @ ascii '':'' @ decimal col
            @ ascii '':'' @ rendered)
      in if r_columns m = [] then put_line (row 1) self
         else fold (\<lambda>col. put_line (row col)) (r_columns m) self)"

definition write_match :: "renderer \<Rightarrow> json \<Rightarrow> match_result \<Rightarrow> output_writer \<Rightarrow> output_writer" where
  "write_match render elapsed m self =
     (let last_line = (case r_block m of Some (first, final) \<Rightarrow> final | None \<Rightarrow> r_line_number m)
      in if r_hidden m then
           (if format (config self) \<in> {Heading, Flat} \<and> \<not> no_filename (config self)
            then ensure_heading (r_file m) self else self)\<lparr>last_printed_line := Some (r_file m, last_line)\<rparr>
         else
           let self = write_pending_file_separator self;
               (content, kept) = trim_adjust_indexed self (r_content m) (r_spans m);
               spans = map snd kept;
               self = (case format (config self) of
                   Heading \<Rightarrow> write_text_match m content spans self
                 | Flat \<Rightarrow> write_text_match m content spans self
                 | Vimgrep \<Rightarrow> write_vimgrep_match m content spans self
                 | Json \<Rightarrow> write_json_match render elapsed m content kept self
                 | FilesOnly \<Rightarrow> self
                 | Count \<Rightarrow> self)
           in self\<lparr>printed_any := True, last_printed_line := Some (r_file m, last_line)\<rparr>)"

definition write_file :: "path \<Rightarrow> output_writer \<Rightarrow> output_writer" where
  "write_file file self =
     (let file = display_path self file
      in if null (config self) then put (file @ [0x00]) self else put_line file self)"

definition write_count :: "path \<Rightarrow> nat \<Rightarrow> output_writer \<Rightarrow> output_writer" where
  "write_count file n self =
     (if no_filename (config self) then put_line (decimal n) self
      else
        let file = display_path self file;
            sep = (if null (config self) then [0x00] else field_match_separator (config self))
        in put_line (file @ sep @ decimal n) self)"

definition writer_flush :: "renderer \<Rightarrow> json \<Rightarrow> output_writer \<Rightarrow> output_writer" where
  "writer_flush render elapsed self = (if is_json self then finish_json_file render elapsed self else self)"

definition writer_finish :: "renderer \<Rightarrow> json \<Rightarrow> json \<Rightarrow> output_writer \<Rightarrow> output_writer" where
  "writer_finish render elapsed whole self =
     (if is_json self then
        let self = finish_json_file render elapsed self;
            self = self\<lparr>total_stats := (total_stats self)
              \<lparr>searches := all_searches self, bytes_searched := all_bytes_searched self\<rparr>\<rparr>;
            msg = message ''summary''
              [(''elapsed_total'', whole), (''stats'', stats_to_json whole (total_stats self))]
        in put_line (render msg) self
      else self)"

section \<open>Highlighting and the limit on columns\<close>

text \<open>Pieces of a line, each with whether it is coloured.\<close>

definition painted :: "(bool \<times> byte list) list \<Rightarrow> byte list" where
  "painted segs = concat (map (\<lambda>(c, s). if c then MATCH_COLOR @ s @ COLOR_RESET else s) segs)"

fun coloured :: "(bool \<times> byte list) list \<Rightarrow> nat \<Rightarrow> bool" where
  "coloured [] i = False"
| "coloured ((c, s) # segs) i = (if i < length s then c else coloured segs (i - length s))"

lemma floor_boundary_self: "i \<le> length s \<Longrightarrow> is_char_boundary s i \<Longrightarrow> floor_boundary s i = i"
  by (cases i) (simp_all add: floor_boundary_def min_def)

lemma floor_boundary_spec:
  "floor_boundary s i \<le> i" "floor_boundary s i \<le> length s" "is_char_boundary s (floor_boundary s i)"
proof -
  have loop: "floor_loop s k \<le> k \<and> is_char_boundary s (floor_loop s k)" for k
    by (induction k) (auto simp: is_char_boundary_def)
  show "floor_boundary s i \<le> i" "floor_boundary s i \<le> length s" "is_char_boundary s (floor_boundary s i)"
    using loop [of "min i (length s)"] by (auto simp: floor_boundary_def)
qed

lemma coloured_step:
  assumes "length a = s - pos" "length b = e - s" "pos \<le> s" "s \<le> e"
    and segs: "\<forall>i. coloured segs i \<longleftrightarrow> (\<exists>sp\<in>set spans. fst sp \<le> e + i \<and> e + i < snd sp)"
    and far: "\<forall>sp\<in>set spans. e \<le> fst sp"
  shows "coloured ((False, a) # (True, b) # segs) i \<longleftrightarrow> (\<exists>sp\<in>set ((s, e) # spans). fst sp \<le> pos + i \<and> pos + i < snd sp)"
proof -
  consider "pos + i < s" | "s \<le> pos + i" "pos + i < e" | "e \<le> pos + i" by linarith
  then show ?thesis
  proof cases
    case 1
    then have "\<not> (\<exists>sp\<in>set spans. fst sp \<le> pos + i)" using far assms(4) by fastforce
    then show ?thesis using 1 assms(1-4) by auto
  next
    case 2
    then have "\<not> (\<exists>sp\<in>set spans. fst sp \<le> pos + i)" using far by fastforce
    then show ?thesis using 2 assms(1-4) by auto
  next
    case 3
    then have "coloured ((False, a) # (True, b) # segs) i \<longleftrightarrow> coloured segs (pos + i - e)"
      using assms(1-4) by (auto simp: add.commute)
    moreover have "coloured segs (pos + i - e) \<longleftrightarrow> (\<exists>sp\<in>set spans. fst sp \<le> pos + i \<and> pos + i < snd sp)"
      using 3 segs by simp
    ultimately show ?thesis using 3 by auto
  qed
qed

lemma highlight_loop_segments:
  "pos \<le> length content \<Longrightarrow>
   \<exists>segs. highlight_loop content spans pos out = out @ painted segs \<and> concat (map snd segs) = drop pos content \<and>
     ((\<forall>sp\<in>set spans. pos \<le> fst sp \<and> fst sp \<le> snd sp \<and> snd sp \<le> length content \<and>
         is_char_boundary content (fst sp) \<and> is_char_boundary content (snd sp)) \<longrightarrow>
      sorted_wrt (\<lambda>a b. snd a \<le> fst b) spans \<longrightarrow>
      (\<forall>i. coloured segs i \<longleftrightarrow> (\<exists>sp\<in>set spans. fst sp \<le> pos + i \<and> pos + i < snd sp)))"
proof (induction content spans pos out rule: highlight_loop.induct)
  case (1 content pos out)
  then show ?case by (intro exI [of _ "[(False, drop pos content)]"]) (simp add: painted_def)
next
  case (2 content s e spans pos out)
  let ?s = "max (floor_boundary content s) pos"
  let ?e = "max (floor_boundary content e) ?s"
  let ?out = "if ?s > pos then out @ slice content pos ?s else out"
  let ?out' = "if ?e > ?s then ?out @ MATCH_COLOR @ slice content ?s ?e @ COLOR_RESET else ?out"
  have le: "?e \<le> length content" "pos \<le> ?s" "?s \<le> ?e" using 2(2) floor_boundary_spec(2) by auto
  obtain segs where segs: "highlight_loop content spans ?e ?out' = ?out' @ painted segs" "concat (map snd segs) = drop ?e content"
    "(\<forall>sp\<in>set spans. ?e \<le> fst sp \<and> fst sp \<le> snd sp \<and> snd sp \<le> length content \<and>
         is_char_boundary content (fst sp) \<and> is_char_boundary content (snd sp)) \<longrightarrow>
      sorted_wrt (\<lambda>a b. snd a \<le> fst b) spans \<longrightarrow>
      (\<forall>i. coloured segs i \<longleftrightarrow> (\<exists>sp\<in>set spans. fst sp \<le> ?e + i \<and> ?e + i < snd sp))"
    using 2(1) [OF refl refl refl refl le(1)] by auto
  let ?segs = "(False, slice content pos ?s) # (True, slice content ?s ?e) # segs"
  have lens: "length (slice content pos ?s) = ?s - pos" "length (slice content ?s ?e) = ?e - ?s"
    using le by (simp_all add: length_slice)
  show ?case
  proof (cases "?e > ?s")
    case True
    show ?thesis
    proof (intro exI [of _ ?segs] conjI impI allI)
      show "highlight_loop content ((s, e) # spans) pos out = out @ painted ?segs"
        using True segs(1) le(2) by (auto simp: Let_def painted_def slice_def)
      have "slice content pos ?s @ slice content ?s ?e @ slice content ?e (length content) = drop pos content"
        using le by (simp add: slice_append) (simp add: slice_def)
      then show "concat (map snd ?segs) = drop pos content" by (simp add: segs(2) slice_def)
    next
      fix i
      assume b: "\<forall>sp\<in>set ((s, e) # spans). pos \<le> fst sp \<and> fst sp \<le> snd sp \<and> snd sp \<le> length content \<and>
         is_char_boundary content (fst sp) \<and> is_char_boundary content (snd sp)"
        and srt: "sorted_wrt (\<lambda>a b. snd a \<le> fst b) ((s, e) # spans)"
      then have se: "floor_boundary content s = s" "floor_boundary content e = e" "max s pos = s" "max e s = e"
        by (auto simp: floor_boundary_self)
      have segs_spans: "\<forall>i. coloured segs i \<longleftrightarrow> (\<exists>sp\<in>set spans. fst sp \<le> e + i \<and> e + i < snd sp)"
        using segs(3) b srt unfolding se by auto
      show "coloured ?segs i \<longleftrightarrow> (\<exists>sp\<in>set ((s, e) # spans). fst sp \<le> pos + i \<and> pos + i < snd sp)"
        using coloured_step [OF _ _ _ _ segs_spans] lens le(2,3) srt unfolding se by auto
    qed
  next
    case False
    have e: "?e = ?s" by (rule antisym [OF leI [OF False] le(3)])
    show ?thesis
    proof (intro exI [of _ "(False, slice content pos ?s) # segs"] conjI impI allI)
      show "highlight_loop content ((s, e) # spans) pos out = out @ painted ((False, slice content pos ?s) # segs)"
        using False segs(1) le(2) by (auto simp: Let_def painted_def slice_def)
      have "slice content pos ?s @ slice content ?s (length content) = drop pos content"
        using le e by (simp add: slice_append) (simp add: slice_def)
      then show "concat (map snd ((False, slice content pos ?s) # segs)) = drop pos content" using e by (simp add: segs(2) slice_def)
    next
      fix i
      assume b: "\<forall>sp\<in>set ((s, e) # spans). pos \<le> fst sp \<and> fst sp \<le> snd sp \<and> snd sp \<le> length content \<and>
         is_char_boundary content (fst sp) \<and> is_char_boundary content (snd sp)"
        and srt: "sorted_wrt (\<lambda>a b. snd a \<le> fst b) ((s, e) # spans)"
      then have se: "floor_boundary content s = s" "floor_boundary content e = e" "max s pos = s" "max e s = e"
        by (auto simp: floor_boundary_self)
      have segs_spans: "\<forall>i. coloured segs i \<longleftrightarrow> (\<exists>sp\<in>set spans. fst sp \<le> e + i \<and> e + i < snd sp)"
        using segs(3) b srt unfolding se by auto
      show "coloured ((False, slice content pos ?s) # segs) i \<longleftrightarrow> (\<exists>sp\<in>set ((s, e) # spans). fst sp \<le> pos + i \<and> pos + i < snd sp)"
        using coloured_step [OF _ _ _ _ segs_spans, of "slice content pos s" s pos "[]" i] lens le(2,3) e srt unfolding se by auto
    qed
  qed
qed

text \<open>C25. Highlighting only adds colour: whatever the ranges, the printed line is the line with colour codes put around
  some of its pieces; and for separate ranges between characters exactly the bytes of the matches are coloured.\<close>

theorem highlight_adds_only_colour:
  "\<exists>segs. highlight w content spans = painted segs \<and> concat (map snd segs) = content \<and>
     (use_color w \<longrightarrow> sorted_wrt (\<lambda>a b. snd a \<le> fst b) spans \<longrightarrow>
      (\<forall>sp\<in>set spans. fst sp \<le> snd sp \<and> snd sp \<le> length content \<and>
         is_char_boundary content (fst sp) \<and> is_char_boundary content (snd sp)) \<longrightarrow>
      (\<forall>i. coloured segs i \<longleftrightarrow> (\<exists>sp\<in>set spans. fst sp \<le> i \<and> i < snd sp)))"
proof (cases "\<not> use_color w \<or> spans = []")
  case True
  then show ?thesis by (intro exI [of _ "[(False, content)]"]) (auto simp: highlight_def painted_def)
next
  case False
  then show ?thesis using highlight_loop_segments [of 0 content spans "[]"] by (simp add: highlight_def) blast
qed

theorem highlight_adds_only_colour_witness:
  "\<exists>segs. highlight (writer_new True output_config_default) [0x61, 0x62, 0x63] [(1, 2)] = painted segs \<and>
     concat (map snd segs) = [0x61, 0x62, 0x63] \<and> \<not> coloured segs 0 \<and> coloured segs 1 \<and> \<not> coloured segs 2"
proof -
  have "use_color (writer_new True output_config_default)"
    by (simp add: writer_new_def color_is_enabled_def output_config_default_def)
  moreover have "is_char_boundary [0x61, 0x62, 0x63] 1" "is_char_boundary [0x61, 0x62, 0x63] 2"
    by (simp_all add: is_char_boundary_def is_cont_def)
  ultimately show ?thesis
    using highlight_adds_only_colour [of "writer_new True output_config_default" "[0x61, 0x62, 0x63]" "[(1, 2)]"] by auto
qed

lemma second_is_cont: "second_of_three b0 b1 \<Longrightarrow> is_cont b1" "second_of_four b0 b1 \<Longrightarrow> is_cont b1"
  by (auto simp: second_of_three_def second_of_four_def is_cont_def word_le_nat_alt split: if_splits)

lemma utf8_inner_cont: "utf8_next bs = Inr n \<Longrightarrow> 0 < i \<Longrightarrow> i < n \<Longrightarrow> is_cont (bs ! i)"
proof (cases bs rule: upto_four_cases)
  case (5 b0 b1 b2 b3 r)
  assume "utf8_next bs = Inr n" "0 < i" "i < n"
  moreover from this have "i = 1 \<or> i = 2 \<or> i = 3" using utf8_next_Inr_bounds [of bs n] by auto
  ultimately show ?thesis
    by (auto simp: 5 utf8_next_def dest: second_is_cont split: if_splits)
qed (auto simp: utf8_next_def less_Suc_eq nth_Cons' dest: second_is_cont split: if_splits)

lemma valid_utf8_step:
  assumes "valid_utf8 bs" "bs \<noteq> []"
  obtains n where "utf8_next bs = Inr n" "valid_utf8 (drop n bs)" "1 \<le> n" "n \<le> 4" "n \<le> length bs"
proof -
  obtain n where n: "utf8_next bs = Inr n" using assms by (cases "utf8_next bs") (auto simp: valid_utf8_def from_utf8_error.simps [of bs])
  then have "valid_utf8 (drop n bs)" using assms by (auto simp: valid_utf8_def from_utf8_error.simps [of bs])
  then show thesis using that n utf8_next_Inr_bounds [OF n] by blast
qed

text \<open>A text can be cut between any two characters, and there is such a place within four bytes.\<close>

lemma valid_utf8_cut:
  "valid_utf8 bs \<Longrightarrow> k \<le> length bs \<Longrightarrow> is_char_boundary bs k \<Longrightarrow> valid_utf8 (take k bs)"
proof (induction "length bs" arbitrary: bs k rule: less_induct)
  case less
  show ?case
  proof (cases "bs = [] \<or> k = 0")
    case False
    then obtain n where n: "utf8_next bs = Inr n" "valid_utf8 (drop n bs)" "1 \<le> n" "n \<le> length bs"
      using valid_utf8_step [OF less(2)] by metis
    have "\<not> k < n"
    proof
      assume "k < n"
      then have "is_cont (bs ! k)" using utf8_inner_cont [OF n(1), of k] False by simp
      then show False using less(4) \<open>k < n\<close> n(4) False by (simp add: is_char_boundary_def)
    qed
    moreover have "is_char_boundary (drop n bs) (k - n)"
      using less(3,4) n(4) \<open>\<not> k < n\<close> False by (auto simp: is_char_boundary_def)
    ultimately have "valid_utf8 (take (k - n) (drop n bs))"
      using less(1) [of "drop n bs" "k - n"] n less(3) False by auto
    moreover have "utf8_next (take k bs) = Inr n" using utf8_next_take [OF n(1)] \<open>\<not> k < n\<close> by simp
    ultimately show ?thesis using \<open>\<not> k < n\<close>
      by (simp add: valid_utf8_def from_utf8_error.simps [of "take k bs"] drop_take)
  qed (auto simp: from_utf8_error.simps)
qed

lemma boundary_within_four:
  "valid_utf8 bs \<Longrightarrow> i \<le> length bs \<Longrightarrow> \<exists>k \<le> i. i < k + 4 \<and> is_char_boundary bs k"
proof (induction "length bs" arbitrary: bs i rule: less_induct)
  case less
  show ?case
  proof (cases "i < 4")
    case False
    then have "bs \<noteq> []" using less(3) by auto
    then obtain n where n: "valid_utf8 (drop n bs)" "1 \<le> n" "n \<le> 4" "n \<le> length bs"
      using valid_utf8_step [OF less(2)] by metis
    have "length (drop n bs) < length bs" "i - n \<le> length (drop n bs)"
      using n \<open>bs \<noteq> []\<close> less(3) by (auto simp: diff_le_mono)
    then obtain k where k: "k \<le> i - n" "i - n < k + 4" "is_char_boundary (drop n bs) k"
      using less(1) n(1) by blast
    have "is_char_boundary bs (n + k)"
    proof (cases "k = 0 \<and> n < length bs")
      case True
      then have "drop n bs = bs ! n # drop (Suc n) bs" by (simp add: Cons_nth_drop_Suc)
      then show ?thesis using valid_first [of "bs ! n" "drop (Suc n) bs"] n(1) True by (simp add: is_char_boundary_def)
    next
      case False
      then show ?thesis using k(3) n(4) by (auto simp: is_char_boundary_def)
    qed
    then show ?thesis using k n(3) False by (intro exI [of _ "n + k"]) auto
  qed (auto simp: is_char_boundary_def)
qed

lemma floor_boundary_near: "valid_utf8 s \<Longrightarrow> min i (length s) < floor_boundary s i + 4"
proof -
  assume "valid_utf8 s"
  then obtain k where k: "k \<le> min i (length s)" "min i (length s) < k + 4" "is_char_boundary s k"
    using boundary_within_four [of s "min i (length s)"] by auto
  have "k \<le> floor_loop s j" if "k \<le> j" for j using that k(3) by (induction j) (auto simp: le_Suc_eq)
  then show ?thesis using k(1,2) by (fastforce simp: floor_boundary_def)
qed

lemma valid_ascii_text: "valid_utf8 a \<Longrightarrow> list_all (\<lambda>b. b < 0x80) t \<Longrightarrow> valid_utf8 (a @ t)"
  using ascii_valid [of t] by (simp add: valid_utf8_append list_all_iff)

text \<open>C26. A line over the limit is cut between characters: whatever is printed for valid text is valid text, a line that
  fits is unchanged, a preview keeps the longest prefix of whole characters within the limit, fewer than four bytes short of
  it, and a note replaces anything else.\<close>

theorem long_lines_are_cut_between_characters:
  assumes "valid_utf8 content"
  shows "valid_utf8 (apply_max_columns w content term matched) \<and>
    (case max_columns (config w) of
       None \<Rightarrow> apply_max_columns w content term matched = content
     | Some limit \<Rightarrow>
         if length content + term \<le> limit then apply_max_columns w content term matched = content
         else if max_columns_preview (config w) then
           (\<exists>k \<le> limit. min limit (length content) < k + 4 \<and> is_char_boundary content k \<and>
             apply_max_columns w content term matched = take k content @ ascii '' [... omitted end of long line]'')
         else apply_max_columns w content term matched =
           (if matched then ascii ''[Omitted long matching line]'' else ascii ''[Omitted long context line]''))"
proof -
  have omitted: "list_all (\<lambda>b. b < 0x80) (ascii '' [... omitted end of long line]'')"
    "list_all (\<lambda>b. b < 0x80) (ascii ''[Omitted long matching line]'')"
    "list_all (\<lambda>b. b < 0x80) (ascii ''[Omitted long context line]'')" by code_simp+
  have cut: "valid_utf8 (take (floor_boundary content k) content)" for k
    by (rule valid_utf8_cut [OF assms floor_boundary_spec(2,3)])
  have "\<exists>k \<le> limit. min limit (length content) < k + 4 \<and> is_char_boundary content k \<and>
      take (floor_boundary content limit) content = take k content" for limit
    using floor_boundary_near [OF assms] floor_boundary_spec(1,3) by blast
  then show ?thesis
    using valid_ascii_text [OF cut omitted(1)] valid_ascii_text [OF valid_utf8_Nil omitted(2)] valid_ascii_text [OF valid_utf8_Nil omitted(3)] assms
    by (auto simp: apply_max_columns_def split: option.split)
qed

theorem long_lines_are_cut_between_characters_witness:
  "valid_utf8 (apply_max_columns
     (writer_new False (output_config_default\<lparr>max_columns := Some 2, max_columns_preview := True\<rparr>)) [0x61, 0xC3, 0xA9, 0x62] 1 True)"
proof -
  have "valid_utf8 [0x61, 0xC3, 0xA9, 0x62]" by code_simp
  from long_lines_are_cut_between_characters [OF this] show ?thesis by simp
qed

end
