(* ===== verification/Search_Options.thy ===== *)
theory Search_Options
  imports File_Matches Printer
begin

text \<open>
  The options of a search (\<^verbatim>\<open>SearchOptions\<close> of \<^verbatim>\<open>tgrep-cli/src/search.rs\<close>) and what
  is derived from them: the options of the matcher, the settings its compilation reads, the configuration
  of the writer, the limit on files, and which indexes may answer.  The number of processors, the content
  of pattern files and the analysis of a pattern for smart case are arguments.
\<close>

datatype pattern_source = SourceRegexp "byte list" | SourceFile path

datatype sort_key = SortPath | SortModified | SortAccessed | SortCreated

record sort_mode =
  sm_key :: sort_key
  sm_reverse :: bool

definition sort_key_from_str_opt :: "string \<Rightarrow> sort_key option" where
  "sort_key_from_str_opt s =
     (if s = ''path'' then Some SortPath else if s = ''modified'' then Some SortModified
      else if s = ''accessed'' then Some SortAccessed else if s = ''created'' then Some SortCreated else None)"

datatype type_op = TypeAdd "byte list" | TypeClear "byte list" | TypeSelect "byte list" | TypeNegate "byte list"

datatype content_eligibility = ExtensionAndContent | ContentOnly

datatype regex_engine = EngineAuto | EngineDefault | EnginePcre2

record 'e search_options =
  so_pattern :: "byte list"
  so_pattern_sources :: "pattern_source list"
  so_case_insensitive :: bool
  so_case_sensitive :: bool
  so_smart_case :: bool
  so_fixed_string :: bool
  so_files_only :: bool
  so_files_without_match :: bool
  so_count :: bool
  so_word_boundary :: bool
  so_max_count :: "nat option"
  so_json :: bool
  so_vimgrep :: bool
  so_stats :: bool
  so_no_index :: bool
  so_shared :: bool
  so_glob :: "byte list list"
  so_iglob :: "byte list list"
  so_glob_case_insensitive :: bool
  so_type_ops :: "type_op list"
  so_invert_match :: bool
  so_only_matching :: bool
  so_after_context :: "nat option"
  so_before_context :: "nat option"
  so_context :: "nat option"
  so_heading :: "bool option"
  so_color :: color_mode
  so_null :: bool
  so_trim :: bool
  so_multiline :: bool
  so_multiline_dotall :: bool
  so_no_ignore :: bool
  so_hidden :: bool
  so_quiet :: bool
  so_no_filename :: bool
  so_no_line_number :: bool
  so_text :: bool
  so_binary :: bool
  so_content_eligibility :: content_eligibility
  so_path_display :: path_display
  so_max_filesize :: "nat option"
  so_max_filesize_requested :: bool
  so_encoding :: "'e encoding_mode"
  so_follow :: bool
  so_no_messages :: bool
  so_no_ignore_messages :: bool
  so_line_regexp :: bool
  so_no_unicode :: bool
  so_engine :: regex_engine
  so_regex_size_limit :: "nat option"
  so_dfa_size_limit :: "nat option"
  so_replace :: "byte list option"
  so_passthru :: bool
  so_stop_on_nonmatch :: bool
  so_column :: bool
  so_byte_offset :: bool
  so_max_columns :: "nat option"
  so_max_columns_preview :: bool
  so_count_matches :: bool
  so_include_zero :: bool
  so_context_separator :: "byte list option"
  so_field_match_separator :: "byte list"
  so_field_context_separator :: "byte list"
  so_path_separator :: "byte list option"
  so_sort :: "sort_mode option"
  so_max_depth :: "nat option"
  so_one_file_system :: bool
  so_ignore_files :: "path list"
  so_ignore_file_case_insensitive :: bool
  so_no_ignore_dot :: bool
  so_no_ignore_exclude :: bool
  so_no_ignore_global :: bool
  so_no_ignore_parent :: bool
  so_no_ignore_vcs :: bool
  so_no_require_git :: bool
  so_threads :: "nat option"
  so_line_buffered :: bool

section \<open>Patterns\<close>

text \<open>The lines of a pattern file, or the error of reading it.\<close>

fun pattern_lines :: "(path \<Rightarrow> string + byte list list) \<Rightarrow> pattern_source list \<Rightarrow> byte list list \<Rightarrow> string + byte list list" where
  "pattern_lines read_lines [] patterns = Inr patterns"
| "pattern_lines read_lines (SourceRegexp pattern # sources) patterns = pattern_lines read_lines sources (patterns @ [pattern])"
| "pattern_lines read_lines (SourceFile path # sources) patterns =
     rbind (read_lines path) (\<lambda>content. pattern_lines read_lines sources (patterns @ content))"

definition all_patterns :: "(path \<Rightarrow> string + byte list list) \<Rightarrow> 'e search_options \<Rightarrow> string + byte list list" where
  "all_patterns read_lines self =
     (if so_pattern_sources self = [] then Inr [so_pattern self]
      else pattern_lines read_lines (so_pattern_sources self) [])"

definition NEVER_MATCH_PATTERN :: "byte list" where
  "NEVER_MATCH_PATTERN = ascii ''[a&&b]''"

definition resolve_patterns :: "(path \<Rightarrow> string + byte list list) \<Rightarrow> 'e search_options \<Rightarrow> string + bool \<times> 'e search_options" where
  "resolve_patterns read_lines self =
     rbind (all_patterns read_lines self) (\<lambda>patterns.
       let self = self\<lparr>so_pattern := [], so_pattern_sources := map SourceRegexp patterns\<rparr>
       in if so_pattern_sources self = []
          then Inr (False, self\<lparr>so_pattern := NEVER_MATCH_PATTERN, so_fixed_string := False\<rparr>)
          else Inr (True, self))"

section \<open>What is derived\<close>

definition effective_case_insensitive ::
  "(byte list list \<Rightarrow> bool \<Rightarrow> string + bool) \<Rightarrow> (path \<Rightarrow> string + byte list list) \<Rightarrow> 'e search_options \<Rightarrow> string + bool"
where
  "effective_case_insensitive smart_case_insensitive read_lines self =
     (if so_case_insensitive self then Inr True
      else if so_case_sensitive self then Inr False
      else if so_smart_case self then
        rbind (all_patterns read_lines self) (\<lambda>patterns. smart_case_insensitive patterns (so_fixed_string self))
      else Inr False)"

definition dotall :: "'e search_options \<Rightarrow> bool" where
  "dotall self = so_multiline_dotall self"

definition content_only :: "'e search_options \<Rightarrow> bool" where
  "content_only self = (so_content_eligibility self = ContentOnly)"

definition selects_types :: "'e search_options \<Rightarrow> bool" where
  "selects_types self = list_ex (\<lambda>t. case t of TypeSelect n \<Rightarrow> True | TypeNegate n \<Rightarrow> True | _ \<Rightarrow> False) (so_type_ops self)"

record matcher_settings =
  ms_case_insensitive :: bool
  ms_fixed_string :: bool
  ms_word_boundary :: bool
  ms_line_regexp :: bool
  ms_multiline :: bool
  ms_dotall :: bool
  ms_no_unicode :: bool
  ms_engine :: regex_engine
  ms_regex_size_limit :: "nat option"
  ms_dfa_size_limit :: "nat option"

definition matcher_config :: "'e search_options \<Rightarrow> bool \<Rightarrow> matcher_settings" where
  "matcher_config self ci =
     \<lparr>ms_case_insensitive = ci, ms_fixed_string = so_fixed_string self, ms_word_boundary = so_word_boundary self,
      ms_line_regexp = so_line_regexp self, ms_multiline = so_multiline self, ms_dotall = dotall self,
      ms_no_unicode = so_no_unicode self, ms_engine = so_engine self,
      ms_regex_size_limit = so_regex_size_limit self, ms_dfa_size_limit = so_dfa_size_limit self\<rparr>"

definition after_ctx :: "'e search_options \<Rightarrow> nat" where
  "after_ctx self =
     (case (case so_after_context self of Some n \<Rightarrow> Some n | None \<Rightarrow> so_context self) of Some n \<Rightarrow> n | None \<Rightarrow> 0)"

definition before_ctx :: "'e search_options \<Rightarrow> nat" where
  "before_ctx self =
     (case (case so_before_context self of Some n \<Rightarrow> Some n | None \<Rightarrow> so_context self) of Some n \<Rightarrow> n | None \<Rightarrow> 0)"

text \<open>\<^verbatim>\<open>tty\<close> says whether standard output is a terminal.\<close>

definition wants_match_detail :: "bool \<Rightarrow> 'e search_options \<Rightarrow> bool" where
  "wants_match_detail tty self =
     (color_is_enabled tty (so_color self) \<or> so_json self \<or> so_vimgrep self \<or> so_column self \<or> so_count_matches self \<or>
      so_only_matching self \<or> so_replace self \<noteq> None \<or> so_stats self)"

definition wants_position_detail :: "'e search_options \<Rightarrow> bool" where
  "wants_position_detail self = (so_json self \<or> so_byte_offset self \<or> so_max_columns self \<noteq> None)"

definition effective_only_matching :: "'e search_options \<Rightarrow> bool" where
  "effective_only_matching self = (so_only_matching self \<and> \<not> so_json self)"

definition prints_text_lines :: "'e search_options \<Rightarrow> bool" where
  "prints_text_lines self =
     (\<not> (so_json self \<or> so_count self \<or> so_count_matches self \<or> so_files_only self \<or> so_files_without_match self \<or> so_quiet self))"

definition wants_replace_blocks :: "'e search_options \<Rightarrow> bool" where
  "wants_replace_blocks self =
     (so_multiline self \<and> so_replace self \<noteq> None \<and> \<not> so_invert_match self \<and> prints_text_lines self \<and> so_max_count self \<noteq> Some 0)"

text \<open>The compiled matcher is an argument, None for patterns that do not compile.\<close>

definition needs_replace_blocks ::
  "(byte list \<Rightarrow> bool \<Rightarrow> hir option) \<Rightarrow> search_matcher option \<Rightarrow> 'e search_options \<Rightarrow> bool"
where
  "needs_replace_blocks parse matcher self =
     (wants_replace_blocks self \<and> (case matcher of None \<Rightarrow> True | Some m \<Rightarrow> can_match_newline parse m))"

definition wants_replacements_reported :: "'e search_options \<Rightarrow> bool" where
  "wants_replacements_reported self =
     (so_json self \<and> so_replace self \<noteq> None \<and> \<not> so_invert_match self \<and> \<not> so_quiet self \<and> so_max_count self \<noteq> Some 0)"

definition effective_passthru :: "'e search_options \<Rightarrow> bool" where
  "effective_passthru self =
     (so_passthru self \<and> so_max_count self \<noteq> Some 0 \<and> \<not> so_files_only self \<and> \<not> so_files_without_match self \<and>
      \<not> so_count self \<and> \<not> so_count_matches self \<and> \<not> so_quiet self)"

definition match_options_of :: "bool \<Rightarrow> 'e search_options \<Rightarrow> match_options" where
  "match_options_of tty self =
     \<lparr>invert_match = so_invert_match self, multiline = so_multiline self,
      only_matching = effective_only_matching self, before_context = before_ctx self,
      after_context = after_ctx self,
      max_count = (if so_quiet self \<or> so_files_without_match self then Some 1 else so_max_count self),
      passthru = effective_passthru self, replace = so_replace self,
      stop_on_nonmatch = so_stop_on_nonmatch self, vimgrep = so_vimgrep self,
      all_spans = wants_match_detail tty self, replace_blocks = wants_replace_blocks self,
      report_replacements = wants_replacements_reported self\<rparr>"

definition ripgrep_would_search_sequentially :: "nat \<Rightarrow> 'e search_options \<Rightarrow> bool" where
  "ripgrep_would_search_sequentially processors self =
     (so_sort self \<noteq> None \<or>
      (case so_threads self of None \<Rightarrow> processors = 1 | Some n \<Rightarrow> if n = 0 then processors = 1 else n = 1))"

definition make_output_config :: "nat \<Rightarrow> 'e search_options \<Rightarrow> output_config" where
  "make_output_config processors self =
     \<lparr>format = (if so_json self then Json else if so_files_only self then FilesOnly
                else if so_count self \<or> so_count_matches self then Count
                else if so_vimgrep self then Vimgrep else Heading),
      color = so_color self, heading = so_heading self, null = so_null self, trim_lines = so_trim self,
      no_filename = so_no_filename self, no_line_number = so_no_line_number self,
      shows_context = (after_ctx self > 0 \<or> before_ctx self > 0), column = so_column self,
      byte_offset = so_byte_offset self, max_columns = so_max_columns self,
      max_columns_preview = so_max_columns_preview self, context_separator = so_context_separator self,
      eager_file_separator = ripgrep_would_search_sequentially processors self,
      field_match_separator = so_field_match_separator self,
      field_context_separator = so_field_context_separator self, path_separator = so_path_separator self,
      path_displayed = so_path_display self, line_buffered = so_line_buffered self\<rparr>"

definition new_writer :: "bool \<Rightarrow> nat \<Rightarrow> 'e search_options \<Rightarrow> output_writer" where
  "new_writer tty processors opts = writer_new tty (make_output_config processors opts)"

section \<open>Limits and indexes\<close>

definition read_size_limit :: "'e search_options \<Rightarrow> bool \<Rightarrow> nat option" where
  "read_size_limit opts explicit = (if explicit \<and> \<not> so_max_filesize_requested opts then None else so_max_filesize opts)"

definition filename_index_compatible :: "'e search_options \<Rightarrow> bool" where
  "filename_index_compatible opts =
     (\<not> so_no_index opts \<and> \<not> so_no_ignore opts \<and> \<not> so_no_ignore_dot opts \<and> \<not> so_no_ignore_exclude opts \<and>
      \<not> so_no_ignore_global opts \<and> \<not> so_no_ignore_parent opts \<and> \<not> so_no_ignore_vcs opts \<and>
      \<not> so_no_require_git opts \<and> \<not> so_follow opts \<and> \<not> so_one_file_system opts \<and> so_ignore_files opts = [] \<and>
      \<not> so_ignore_file_case_insensitive opts \<and> \<not> so_max_filesize_requested opts)"

definition shared_compatible :: "'e search_options \<Rightarrow> bool" where
  "shared_compatible opts =
     (\<not> so_no_ignore opts \<and> \<not> so_no_ignore_dot opts \<and> \<not> so_no_ignore_exclude opts \<and> \<not> so_no_ignore_global opts \<and>
      \<not> so_no_ignore_parent opts \<and> \<not> so_no_ignore_vcs opts \<and> \<not> so_no_require_git opts \<and> \<not> so_follow opts \<and>
      \<not> so_one_file_system opts \<and> so_ignore_files opts = [] \<and> \<not> so_ignore_file_case_insensitive opts \<and>
      \<not> may_differ_from_index (so_encoding opts) \<and> \<not> so_text opts \<and> \<not> so_binary opts \<and>
      so_max_filesize opts = Some (64 * 1024 * 1024))"

section \<open>Facts about the options\<close>

lemma pattern_lines_regexps: "pattern_lines read_lines (map SourceRegexp ps) patterns = Inr (patterns @ ps)"
  by (induction ps arbitrary: patterns) auto

text \<open>Once resolved, the patterns no longer depend on the pattern files; without any pattern the one that never
  matches takes their place.\<close>

lemma resolved_patterns_are_final:
  assumes "resolve_patterns read_lines self = Inr (supplied, opts)"
  shows "all_patterns read_again opts = (if supplied then all_patterns read_lines self else Inr [NEVER_MATCH_PATTERN])"
    and "\<not> supplied \<longleftrightarrow> all_patterns read_lines self = Inr []"
proof -
  obtain ps where ps: "all_patterns read_lines self = Inr ps"
    using assms by (cases "all_patterns read_lines self") (auto simp: resolve_patterns_def)
  show "all_patterns read_again opts = (if supplied then all_patterns read_lines self else Inr [NEVER_MATCH_PATTERN])"
    using assms ps pattern_lines_regexps [of read_again ps "[]"]
    by (cases "ps = []") (auto simp: resolve_patterns_def all_patterns_def [of read_again] Let_def)
  show "\<not> supplied \<longleftrightarrow> all_patterns read_lines self = Inr []"
    using assms ps by (cases "ps = []") (auto simp: resolve_patterns_def Let_def)
qed

text \<open>
  A limit of no lines is overridden by the modes that need only the first hit: under \<^verbatim>\<open>-q\<close> and
  \<^verbatim>\<open>--files-without-match\<close> a search with \<^verbatim>\<open>-m 0\<close> still looks for one line, while in
  every other mode it selects none.
\<close>

lemma first_hit_modes_override_zero:
  assumes "so_max_count opts = Some 0"
  shows "max_count (match_options_of tty opts) = (if so_quiet opts \<or> so_files_without_match opts then Some 1 else Some 0)"
  using assms by (simp add: match_options_of_def)

end
