(* ===== verification/File_Text.thy ===== *)
theory File_Text
  imports Encoding
begin

text \<open>
  Reading a file to search it (\<^verbatim>\<open>tgrep-cli/src/search.rs\<close>): a memory map of a large file that
  is already UTF-8, or a read with decoding and repair, and the offset of the first NUL byte found on the
  way.  What the calls on the open file return is an argument; the crate \<^verbatim>\<open>memchr\<close> too.
\<close>

section \<open>Validation in chunks\<close>

definition CHUNK :: nat where
  "CHUNK = 2 ^ 20"

text \<open>How much of a chunk that ends at \<open>stop\<close> is validated, None for text that is not UTF-8.\<close>

definition chunk_valid_len :: "byte list \<Rightarrow> bool \<Rightarrow> nat option" where
  "chunk_valid_len chunk goes_on =
     (case from_utf8_error chunk of
        None \<Rightarrow> Some (length chunk)
      | Some (valid_up_to, error_len) \<Rightarrow> if error_len = None \<and> goes_on then Some valid_up_to else None)"

lemma chunk_valid_len_le: "chunk_valid_len chunk goes_on = Some n \<Longrightarrow> n \<le> length chunk"
  by (auto simp: chunk_valid_len_def dest!: from_utf8_error_bounds split: option.splits if_splits)

function validate_loop :: "memchr \<Rightarrow> nat \<Rightarrow> byte list \<Rightarrow> nat \<Rightarrow> nat option \<Rightarrow> nat option option" where
  "validate_loop memchr size_of_chunk bytes pos first_nul =
     (if pos < length bytes then
        let stop = min (pos + size_of_chunk) (length bytes); chunk = slice bytes pos stop
        in case chunk_valid_len chunk (stop < length bytes) of
             None \<Rightarrow> None
           | Some valid_len \<Rightarrow>
               if valid_len = 0 then None
               else validate_loop memchr size_of_chunk bytes (pos + valid_len)
                      (if first_nul = None then map_option (\<lambda>i. pos + i) (memchr 0 (take valid_len chunk)) else first_nul)
      else Some first_nul)"
  by pat_completeness auto
termination
  by (relation "measure (\<lambda>(_, _, bytes, pos, _). length bytes - pos)") auto

declare validate_loop.simps [simp del]

definition validate_utf8_and_find_nul :: "memchr \<Rightarrow> byte list \<Rightarrow> nat option option" where
  "validate_utf8_and_find_nul memchr bytes = validate_loop memchr CHUNK bytes 0 None"

section \<open>Mapping and reading\<close>

definition MMAP_MIN_BYTES :: nat where
  "MMAP_MIN_BYTES = 1024 * 1024"

datatype file_text = OwnedText "byte list" | MappedText "byte list"

fun file_text_as_str :: "file_text \<Rightarrow> byte list" where
  "file_text_as_str (OwnedText text) = text"
| "file_text_as_str (MappedText mapped) = mapped"

record file_read =
  fr_text :: file_text
  fr_fixups :: lossy_fixups
  fr_first_nul :: "nat option"

text \<open>
  What an open file answers: its length before and after the read, a map of its first bytes, which can
  fail, and its content as a stream, the bytes delivered and the error, if any, that ends them.
\<close>

record 'x open_file =
  of_len :: "'x + nat"
  of_map :: "nat \<Rightarrow> byte list option"
  of_stream :: "byte list \<times> 'x option"
  of_len_after :: "'x + nat"

definition try_map_text ::
  "memchr \<Rightarrow> 'e encodings \<Rightarrow> 'x open_file \<Rightarrow> 'e encoding_mode \<Rightarrow> nat \<Rightarrow> (file_text \<times> nat option) option"
where
  "try_map_text memchr E file encoding approved_len =
     (if approved_len < MMAP_MIN_BYTES then None
      else Option.bind (of_map file approved_len) (\<lambda>mapped.
        if \<not> borrows_whole_input E mapped encoding then None
        else Option.bind (validate_utf8_and_find_nul memchr mapped) (\<lambda>first_nul. Some (MappedText mapped, first_nul))))"

definition read_to_end :: "byte list \<times> 'x option \<Rightarrow> 'x + byte list" where
  "read_to_end stream = (case stream of (bytes, None) \<Rightarrow> Inr bytes | (bytes, Some e) \<Rightarrow> Inl e)"

text \<open>A reader of at most \<open>n\<close> bytes does not look behind them.\<close>

definition take_stream :: "nat \<Rightarrow> byte list \<times> 'x option \<Rightarrow> byte list \<times> 'x option" where
  "take_stream n stream = (case stream of (bytes, e) \<Rightarrow> if n \<le> length bytes then (take n bytes, None) else (bytes, e))"

definition read_bytes_with_limit :: "byte list \<times> 'x option \<Rightarrow> nat option \<Rightarrow> 'x + byte list option" where
  "read_bytes_with_limit reader limit =
     (case limit of
        Some limit \<Rightarrow> rbind (read_to_end (take_stream (min (limit + 1) (2 ^ 64 - 1)) reader)) (\<lambda>bytes.
          Inr (if length bytes > limit then None else Some bytes))
      | None \<Rightarrow> rbind (read_to_end reader) (\<lambda>bytes. Inr (Some bytes)))"

text \<open>The check of the length behind a read, made only under a limit.\<close>

definition grew_beyond :: "'x open_file \<Rightarrow> nat option \<Rightarrow> 'x + bool" where
  "grew_beyond file limit =
     (case limit of None \<Rightarrow> Inr False | Some limit \<Rightarrow> rbind (of_len_after file) (\<lambda>len. Inr (len > limit)))"

definition read_open_text_lossy ::
  "memchr \<Rightarrow> 'e encodings \<Rightarrow> 'x open_file \<Rightarrow> 'e encoding_mode \<Rightarrow> nat option \<Rightarrow> 'x + file_read option"
where
  "read_open_text_lossy memchr E file encoding limit =
     rbind (of_len file) (\<lambda>len.
       if (case limit of Some limit \<Rightarrow> len > limit | None \<Rightarrow> False) then Inr None
       else case try_map_text memchr E file encoding len of
         Some (text, first_nul) \<Rightarrow> rbind (grew_beyond file limit) (\<lambda>grew.
           Inr (if grew then None else Some \<lparr>fr_text = text, fr_fixups = no_fixups, fr_first_nul = first_nul\<rparr>))
       | None \<Rightarrow> rbind (read_bytes_with_limit (of_stream file) limit) (\<lambda>bytes.
           case bytes of
             None \<Rightarrow> Inr None
           | Some bytes \<Rightarrow> rbind (grew_beyond file limit) (\<lambda>grew.
               if grew then Inr None
               else case decode_owned_with_fixups E bytes encoding of (text, fixups) \<Rightarrow>
                 Inr (Some \<lparr>fr_text = OwnedText text, fr_fixups = fixups, fr_first_nul = memchr 0 text\<rparr>))))"

definition read_text_lossy ::
  "memchr \<Rightarrow> 'e encodings \<Rightarrow> 'x + 'x open_file \<Rightarrow> 'e encoding_mode \<Rightarrow> nat option \<Rightarrow> 'x + file_read option"
where
  "read_text_lossy memchr E opened encoding limit =
     rbind opened (\<lambda>file. read_open_text_lossy memchr E file encoding limit)"

section \<open>One traversal answers both questions\<close>

lemma invalid_next_append: "utf8_next bs = Inl (Some n) \<Longrightarrow> utf8_next (bs @ r) = Inl (Some n)"
  by (cases bs rule: upto_four_cases) (auto simp: utf8_next_def split: if_splits list.splits)

lemma invalid_chunk:
  assumes "from_utf8_error chunk = Some (v, Some n)"
  shows "\<not> valid_utf8 (chunk @ r)"
proof -
  have v: "v < length chunk" "utf8_next (drop v chunk) = Inl (Some n)" using from_utf8_error_bounds [OF assms] by auto
  have "valid_utf8 (take v chunk)" using valid_utf8_take_error [OF assms] .
  then have "valid_utf8 (take v chunk @ (drop v chunk @ r)) \<longleftrightarrow> valid_utf8 (drop v chunk @ r)" by (rule valid_utf8_append)
  moreover have "\<not> valid_utf8 (drop v chunk @ r)"
    using invalid_next_append [OF v(2)] v(1) by (simp add: valid_utf8_def from_utf8_error.simps [of "drop v chunk @ r"])
  ultimately show ?thesis by (metis append_assoc append_take_drop_id)
qed

lemma chunk_valid_len_spec:
  assumes cut: "bytes = chunk @ rest" and on: "goes_on \<longleftrightarrow> rest \<noteq> []" and long: "rest \<noteq> [] \<longrightarrow> 4 \<le> length chunk" "chunk \<noteq> []"
  shows "case chunk_valid_len chunk goes_on of
      None \<Rightarrow> \<not> valid_utf8 bytes
    | Some n \<Rightarrow> 0 < n \<and> n \<le> length chunk \<and> (valid_utf8 bytes \<longleftrightarrow> valid_utf8 (drop n bytes))"
proof (cases "from_utf8_error chunk")
  case None
  then show ?thesis using long(2) by (simp add: chunk_valid_len_def cut valid_utf8_append valid_utf8_def [of chunk])
next
  case (Some ve)
  obtain v e where ve: "ve = (v, e)" by (cases ve)
  have v: "v < length chunk" "utf8_next (drop v chunk) = Inl e" using from_utf8_error_bounds Some ve by auto
  show ?thesis
  proof (cases e)
    case (Some n)
    then show ?thesis using invalid_chunk [of chunk v n rest] \<open>from_utf8_error chunk = Some ve\<close> ve
      by (simp add: chunk_valid_len_def cut)
  next
    case None
    show ?thesis
    proof (cases goes_on)
      case False
      then show ?thesis using Some ve None on by (simp add: chunk_valid_len_def cut valid_utf8_def)
    next
      case True
      have "0 < v" using v(2) None utf8_next_incomplete [of "drop v chunk"] long(1) on True by (cases v) auto
      moreover have "valid_utf8 (take v chunk)" using valid_utf8_take_error Some ve by simp
      from valid_utf8_append [OF this, of "drop v chunk @ rest"] have "valid_utf8 bytes \<longleftrightarrow> valid_utf8 (drop v bytes)"
        using v(1) by (simp add: cut append_assoc [symmetric] del: append_assoc)
      ultimately show ?thesis using Some ve None True v(1) by (simp add: chunk_valid_len_def)
    qed
  qed
qed

lemma memchr_none:
  assumes "finds_first memchr" "b \<notin> set bs"
  shows "memchr b bs = None"
proof (cases "memchr b bs")
  case (Some n)
  have "case memchr b bs of None \<Rightarrow> b \<notin> set bs | Some n \<Rightarrow> n < length bs \<and> bs ! n = b \<and> b \<notin> set (take n bs)"
    using assms(1) unfolding finds_first_def by blast
  then show ?thesis using Some assms(2) nth_mem [of n bs] by auto
qed

lemma first_nul_step:
  assumes "finds_first memchr" "pos + n \<le> length bytes"
  shows "(case memchr 0 (slice bytes pos (pos + n)) of
      Some i \<Rightarrow> Some (pos + i) | None \<Rightarrow> map_option (\<lambda>i. pos + n + i) (memchr 0 (drop (pos + n) bytes))) =
    map_option (\<lambda>i. pos + i) (memchr 0 (drop pos bytes))"
proof -
  have split: "drop pos bytes = slice bytes pos (pos + n) @ drop (pos + n) bytes"
    using slice_append [of pos "pos + n" "length bytes" bytes] assms(2) by (simp add: slice_def)
  show ?thesis
  proof (cases "0 \<in> set (slice bytes pos (pos + n))")
    case True
    then obtain p r where "slice bytes pos (pos + n) = p @ 0 # r" "0 \<notin> set p" by (auto dest: split_list_first)
    then show ?thesis using memchr_first [OF assms(1), of 0 p] by (simp add: split)
  next
    case False
    then have none: "memchr 0 (slice bytes pos (pos + n)) = None"
      by (rule memchr_none [OF assms(1)])
    show ?thesis
    proof (cases "0 \<in> set (drop (pos + n) bytes)")
      case True
      then obtain p r where p: "drop (pos + n) bytes = p @ 0 # r" "0 \<notin> set p" by (auto dest: split_list_first)
      have "memchr 0 ((slice bytes pos (pos + n) @ p) @ 0 # r) = Some (length (slice bytes pos (pos + n) @ p))"
        using p(2) False by (intro memchr_first [OF assms(1)]) simp
      then show ?thesis using memchr_first [OF assms(1) p(2), of r] none assms(2) by (simp add: split p(1) length_slice)
    next
      case False': False
      then show ?thesis using False none memchr_none [OF assms(1)] by (simp add: split)
    qed
  qed
qed

lemma validate_loop_spec:
  assumes memchr: "finds_first memchr" and size: "4 \<le> size_of_chunk"
  shows "pos \<le> length bytes \<Longrightarrow> validate_loop memchr size_of_chunk bytes pos first_nul =
    (if valid_utf8 (drop pos bytes)
     then Some (if first_nul = None then map_option (\<lambda>i. pos + i) (memchr 0 (drop pos bytes)) else first_nul) else None)"
proof (induction "length bytes - pos" arbitrary: pos first_nul rule: less_induct)
  case less
  show ?case
  proof (cases "pos < length bytes")
    case False
    have "memchr 0 [] = None" by (rule memchr_none [OF memchr]) simp
    then show ?thesis using False less.prems by (cases first_nul) (simp_all add: validate_loop.simps [of memchr size_of_chunk bytes "length bytes"])
  next
    case True
    let ?stop = "min (pos + size_of_chunk) (length bytes)"
    let ?chunk = "slice bytes pos ?stop"
    have cut: "drop pos bytes = ?chunk @ drop ?stop bytes"
      using slice_append [of pos ?stop "length bytes" bytes] less.prems by (simp add: slice_def)
    have "length ?chunk = ?stop - pos" using less.prems by (simp add: length_slice)
    then have chunk: "drop ?stop bytes \<noteq> [] \<longrightarrow> 4 \<le> length ?chunk" "?chunk \<noteq> []" "pos + length ?chunk = ?stop"
      using size True by (auto simp: min_def)
    have more: "?stop < length bytes \<longleftrightarrow> drop ?stop bytes \<noteq> []" by auto
    note spec = chunk_valid_len_spec [OF cut more chunk(1,2)]
    show ?thesis
    proof (cases "chunk_valid_len ?chunk (?stop < length bytes)")
      case None
      then show ?thesis using spec True by (simp add: validate_loop.simps [of memchr size_of_chunk bytes pos] Let_def)
    next
      case (Some n)
      then have n: "0 < n" "n \<le> length ?chunk" "valid_utf8 (drop pos bytes) \<longleftrightarrow> valid_utf8 (drop (pos + n) bytes)"
        using spec by (simp_all add: add.commute)
      then have le: "pos + n \<le> length bytes" using chunk(3) by linarith
      have piece: "take n ?chunk = slice bytes pos (pos + n)"
        using n(2) chunk(3) by (simp add: slice_def take_drop min_def add.commute)
      let ?first = "if first_nul = None then map_option (\<lambda>i. pos + i) (memchr 0 (take n ?chunk)) else first_nul"
      have "validate_loop memchr size_of_chunk bytes pos first_nul = validate_loop memchr size_of_chunk bytes (pos + n) ?first"
        using True Some n(1) by (simp add: validate_loop.simps [of memchr size_of_chunk bytes pos] Let_def)
      also have "\<dots> = (if valid_utf8 (drop (pos + n) bytes)
          then Some (if ?first = None then map_option (\<lambda>i. pos + n + i) (memchr 0 (drop (pos + n) bytes)) else ?first) else None)"
        by (rule less.hyps) (use n(1) le True in auto)
      also have "(if ?first = None then map_option (\<lambda>i. pos + n + i) (memchr 0 (drop (pos + n) bytes)) else ?first) =
          (if first_nul = None then map_option (\<lambda>i. pos + i) (memchr 0 (drop pos bytes)) else first_nul)"
        using first_nul_step [OF memchr le] unfolding piece
        by (cases "memchr 0 (slice bytes pos (pos + n))") auto
      finally show ?thesis by (simp only: n(3))
    qed
  qed
qed

lemma validate_spec:
  assumes "finds_first memchr"
  shows "validate_utf8_and_find_nul memchr bytes = (if valid_utf8 bytes then Some (memchr 0 bytes) else None)"
proof -
  have "map_option ((+) 0) (memchr 0 bytes) = memchr 0 bytes" by (cases "memchr 0 bytes") simp_all
  then show ?thesis using validate_loop_spec [OF assms, of CHUNK 0 bytes None]
    by (simp add: validate_utf8_and_find_nul_def CHUNK_def)
qed

text \<open>Asking both questions in one traversal changes neither answer: the scan in chunks accepts a file exactly when
  all of it is UTF-8, however its characters straddle the chunks, and reports its first NUL byte.\<close>

theorem one_traversal_validates_and_finds:
  assumes "finds_first memchr"
  shows "validate_utf8_and_find_nul memchr bytes = (if valid_utf8 bytes then Some (memchr 0 bytes) else None)"
  by (rule validate_spec [OF assms])

theorem one_traversal_validates_and_finds_witness:
  "validate_utf8_and_find_nul first_byte [0x61, 0xC3, 0xA9, 0x00] = Some (Some 3)"
proof -
  have "valid_utf8 [0x61, 0xC3, 0xA9, 0x00]" by code_simp
  then show ?thesis
    using one_traversal_validates_and_finds [OF first_byte_finds_first, of "[0x61, 0xC3, 0xA9, 0x00]"] by (simp add: first_byte_def)
qed

section \<open>Mapping changes nothing\<close>

text \<open>A file that does not change while it is read; mapping may fail.\<close>

definition still_file :: "byte list \<Rightarrow> 'x open_file \<Rightarrow> bool" where
  "still_file bytes file \<longleftrightarrow> of_len file = Inr (length bytes) \<and> of_map file (length bytes) \<in> {None, Some bytes} \<and>
     of_stream file = (bytes, None) \<and> of_len_after file = Inr (length bytes)"

lemma borrowed_input: "borrows_whole_input E bytes mode \<Longrightarrow> decode_bytes E bytes mode = Borrowed bytes"
  by (auto simp: borrows_whole_input_def decode_bytes_def decode_body_def split: encoding_mode.splits)

lemma decode_owned_is_decode: "decode_owned_with_fixups E bytes mode = decode_with_fixups E bytes mode"
  by (auto simp: decode_owned_with_fixups_def decode_with_fixups_def borrowed_input lossy_utf8_of_valid)

lemma mapped_text:
  assumes "finds_first memchr" "try_map_text memchr E file mode n = Some (t, first_nul)" "of_map file n \<in> {None, Some bytes}"
  shows "decode_with_fixups E bytes mode = (bytes, no_fixups) \<and> file_text_as_str t = bytes \<and> first_nul = memchr 0 bytes"
proof -
  have "of_map file n = Some bytes" using assms(2,3) by (auto simp: try_map_text_def split: if_splits)
  then have b: "borrows_whole_input E bytes mode" "validate_utf8_and_find_nul memchr bytes = Some first_nul" "t = MappedText bytes"
    using assms(2) by (auto simp: try_map_text_def bind_eq_Some_conv split: if_splits)
  have "validate_utf8_and_find_nul memchr bytes = (if valid_utf8 bytes then Some (memchr 0 bytes) else None)"
    by (rule validate_spec [OF assms(1)])
  then have "valid_utf8 bytes" "first_nul = memchr 0 bytes" using b(2) by (auto split: if_splits)
  then show ?thesis using b(1,3) by (simp add: decode_with_fixups_def borrowed_input lossy_utf8_of_valid)
qed

lemma read_still_file:
  fixes opened :: "'x open_file"
  assumes "finds_first memchr" "still_file bytes opened" "length bytes < 2 ^ 64 - 1"
  shows "\<exists>text. file_text_as_str text = fst (decode_with_fixups E bytes mode) \<and>
    read_open_text_lossy memchr E opened mode limit =
      Inr (if limit \<noteq> None \<and> length bytes > the limit then None
           else Some \<lparr>fr_text = text, fr_fixups = snd (decode_with_fixups E bytes mode),
                  fr_first_nul = memchr 0 (fst (decode_with_fixups E bytes mode))\<rparr>)"
proof (cases "limit \<noteq> None \<and> length bytes > the limit")
  case True
  then show ?thesis using assms(2)
    by (intro exI [of _ "OwnedText (fst (decode_with_fixups E bytes mode))"])
      (auto simp: read_open_text_lossy_def still_file_def)
next
  case False
  have short: "(case limit of Some limit \<Rightarrow> length bytes > limit | None \<Rightarrow> False) = False" "grew_beyond opened limit = Inr False"
    using False assms(2) by (auto simp: grew_beyond_def still_file_def split: option.split)
  show ?thesis
  proof (cases "try_map_text memchr E opened mode (length bytes)")
    case (Some r)
    obtain t first_nul where r: "r = (t, first_nul)" by (cases r)
    then have m: "decode_with_fixups E bytes mode = (bytes, no_fixups)" "file_text_as_str t = bytes" "first_nul = memchr 0 bytes"
      using mapped_text [OF assms(1)] Some assms(2) unfolding still_file_def by blast+
    show ?thesis
      by (rule exI [of _ t]) (use m False short Some r assms(2) in \<open>simp add: read_open_text_lossy_def still_file_def\<close>)
  next
    case None
    have "read_bytes_with_limit (bytes, None :: 'x option) limit = Inr (Some bytes)"
      using False assms(3) by (auto simp: read_bytes_with_limit_def take_stream_def read_to_end_def split: option.split)
    then show ?thesis using False short None assms(2)
      by (intro exI [of _ "OwnedText (fst (decode_with_fixups E bytes mode))"])
        (simp add: read_open_text_lossy_def still_file_def decode_owned_is_decode case_prod_unfold)
  qed
qed

text \<open>C30. Searching a map or a copy is the same: whatever way a file is read, the text to be searched is the file
  decoded in its encoding and repaired, with the record of the repairs and the first NUL byte of the text; a file is
  left out exactly when it is longer than the limit.\<close>

theorem reading_is_decoding:
  fixes opened :: "'x open_file"
  assumes "finds_first memchr" "still_file bytes opened" "length bytes < 2 ^ 64 - 1"
  shows "\<exists>text. file_text_as_str text = fst (decode_with_fixups E bytes mode) \<and>
    read_open_text_lossy memchr E opened mode limit =
      Inr (if limit \<noteq> None \<and> length bytes > the limit then None
           else Some \<lparr>fr_text = text, fr_fixups = snd (decode_with_fixups E bytes mode),
                  fr_first_nul = memchr 0 (fst (decode_with_fixups E bytes mode))\<rparr>)"
  by (rule read_still_file [OF assms])

theorem reading_is_decoding_witness:
  "\<exists>text. file_text_as_str text = [0x61, 0xEF, 0xBF, 0xBD, 0x62] \<and>
     read_open_text_lossy first_byte demo_encodings
       \<lparr>of_len = Inr 3, of_map = (\<lambda>n. None), of_stream = ([0x61, 0xFF, 0x62], None), of_len_after = Inr 3\<rparr> Raw (Some 3) =
     Inr (Some \<lparr>fr_text = text, fr_fixups = \<lparr>shifts = [(1, 2)], replaced_bytes = [0xFF]\<rparr>, fr_first_nul = None\<rparr>)"
proof -
  let ?file = "\<lparr>of_len = Inr 3, of_map = (\<lambda>n. None), of_stream = ([0x61, 0xFF, 0x62], None), of_len_after = Inr 3\<rparr>"
  have "still_file [0x61, 0xFF, 0x62] ?file" by (simp add: still_file_def)
  moreover have "decode_with_fixups demo_encodings [0x61, 0xFF, 0x62] Raw =
      ([0x61, 0xEF, 0xBF, 0xBD, 0x62], \<lparr>shifts = [(1, 2)], replaced_bytes = [0xFF]\<rparr>)"
    by (simp add: decode_with_fixups_def decode_bytes_def demo_repairs)
  ultimately show ?thesis
    using reading_is_decoding [OF first_byte_finds_first, of "[0x61, 0xFF, 0x62]" ?file demo_encodings Raw "Some 3"]
    by (simp add: first_byte_def)
qed

end
