(* ===== verification/Search_File.thy ===== *)
theory Search_File
  imports Search_Options File_Text
begin

text \<open>
  Searching one file (\<^verbatim>\<open>search_decoded_file\<close> of \<^verbatim>\<open>tgrep-cli/src/search.rs\<close>): what
  is skipped, counted and printed, with every position mapped back from the decoded text to the file.
  The callback of the walk writes to the output, which is the state it threads.
\<close>

section \<open>Positions in the file\<close>

definition saturating_add_signed :: "nat \<Rightarrow> int \<Rightarrow> nat" where
  "saturating_add_signed n d = nat (min (2 ^ 64 - 1) (int n + d))"

definition to_source_columns :: "nat list \<Rightarrow> nat \<Rightarrow> lossy_fixups \<Rightarrow> nat list" where
  "to_source_columns columns line_offset fixups =
     (if fixups_is_empty fixups then columns
      else let line = to_source_offset fixups line_offset
           in map (\<lambda>c. to_source_offset fixups (line_offset + c - 1) - line + 1) columns)"

text \<open>Columns without a shift stay where they are.\<close>

fun shift_columns :: "nat list \<Rightarrow> int list \<Rightarrow> nat list" where
  "shift_columns (col # cols) (shift # moves) = max (saturating_add_signed col shift) 1 # shift_columns cols moves"
| "shift_columns cols moves = cols"

definition to_source_positions ::
  "nat list \<Rightarrow> int list \<Rightarrow> nat \<Rightarrow> int \<Rightarrow> nat \<Rightarrow> lossy_fixups \<Rightarrow> nat list \<times> nat"
where
  "to_source_positions columns column_shifts absolute_offset offset_shift line_offset fixups =
     (shift_columns (to_source_columns columns line_offset fixups) column_shifts,
      saturating_add_signed (to_source_offset fixups absolute_offset) offset_shift)"

definition raw_line_of :: "byte list \<Rightarrow> lossy_fixups \<Rightarrow> byte list \<Rightarrow> nat \<Rightarrow> span list \<Rightarrow> raw_line option" where
  "raw_line_of content fixups line absolute_offset spans =
     (if fixups_is_empty fixups then None
      else
        let stop = absolute_offset + length line
        in if stop \<ge> 2 ^ 64 \<or> str_get content absolute_offset stop \<noteq> Some line then None
           else Option.bind (source_bytes fixups content absolute_offset stop) (\<lambda>bytes.
             let first = to_source_offset fixups absolute_offset;
                 source = (\<lambda>i. to_source_offset fixups (absolute_offset + i) - first)
             in Some \<lparr>raw_bytes = bytes, raw_spans = map (\<lambda>(s, e). (source s, source e)) spans\<rparr>))"

section \<open>One file\<close>

datatype file_outcome = OutcomeMatched | OutcomeNoMatch | OutcomeSkipped

text \<open>The row of a match or of context, as the callback writes it.\<close>

definition match_of_row :: "bool \<Rightarrow> file_read \<Rightarrow> path \<Rightarrow> match_row \<Rightarrow> match_result" where
  "match_of_row json read rel_path row =
     (let content = file_text_as_str (fr_text read);
          raw = (if json then raw_line_of content (fr_fixups read) (m_content row) (m_absolute_offset row) (m_spans row) else None);
          (columns, absolute_offset) = to_source_positions (m_columns row) (m_column_shifts row) (m_absolute_offset row)
            (m_offset_shift row) (m_line_offset row) (fr_fixups read)
      in \<lparr>r_file = rel_path, r_line_number = m_line_number row, r_content = m_content row, r_columns = columns,
          r_spans = m_spans row, r_absolute_offset = absolute_offset, r_terminator_len = m_terminator_len row,
          r_block = m_block row, r_hidden = m_hidden row, r_replacements = m_replacements row, r_raw = raw\<rparr>)"

definition context_of_row :: "bool \<Rightarrow> file_read \<Rightarrow> path \<Rightarrow> context_row \<Rightarrow> context_result" where
  "context_of_row json read rel_path row =
     (let content = file_text_as_str (fr_text read);
          raw = (if json then raw_line_of content (fr_fixups read) (c_content row) (c_absolute_offset row) [] else None)
      in \<lparr>x_file = rel_path, x_line_number = c_line_number row, x_content = c_content row,
          x_absolute_offset = to_source_offset (fr_fixups read) (c_absolute_offset row),
          x_terminator_len = c_terminator_len row, x_raw = map_option raw_bytes raw\<rparr>)"

definition write_row :: "renderer \<Rightarrow> json \<Rightarrow> file_read \<Rightarrow> path \<Rightarrow> emit \<Rightarrow> (output_writer, string) action" where
  "write_row render elapsed read rel_path row writer =
     (case row of
        EmitMatch m \<Rightarrow>
          let writer = write_context_separator rel_path
                (case m_block m of Some b \<Rightarrow> fst b | None \<Rightarrow> m_line_number m) writer
          in (write_match render elapsed (match_of_row (is_json writer) read rel_path m) writer, None)
      | EmitContext c \<Rightarrow>
          let writer = write_context_separator rel_path (c_line_number c) writer
          in (write_context_line render elapsed (context_of_row (is_json writer) read rel_path c) writer, None))"

text \<open>
  What third-party code and the environment give: the searches of \<^verbatim>\<open>memchr\<close>, the syntax tree of a
  pattern, the text of a JSON value, the elapsed time reported when a file is closed, and whether
  standard output is a terminal.
\<close>

record host =
  h_memchr :: memchr
  h_memchr_iter :: memchr_iter
  h_parse :: "byte list \<Rightarrow> bool \<Rightarrow> hir option"
  h_render :: renderer
  h_elapsed :: json
  h_tty :: bool

definition binary_offset_of :: "'e search_options \<Rightarrow> file_read \<Rightarrow> nat option" where
  "binary_offset_of opts read =
     (if so_text opts then None else map_option (to_source_offset (fr_fixups read)) (fr_first_nul read))"

text \<open>Behind the search of the text: the mode of output decides what is written for the file.\<close>

definition report_file ::
  "host \<Rightarrow> 'e search_options \<Rightarrow> search_matcher \<Rightarrow> path \<Rightarrow> file_read \<Rightarrow> file_matches \<Rightarrow>
   output_writer \<Rightarrow> output_writer \<times> (string + file_outcome)"
where
  "report_file H opts matcher rel_path read found writer =
     (let binary_offset = binary_offset_of opts read; match_opts = match_options_of (h_tty H) opts;
          has_matches = (\<not> fm_is_empty found);
          writer = (if \<not> has_matches \<and> so_include_zero opts \<and> (so_count opts \<or> so_count_matches opts) \<and> \<not> so_quiet opts
                    then write_count rel_path 0 writer else writer)
      in if \<not> has_matches \<and> (\<not> passthru match_opts \<or> binary_offset \<noteq> None) then (writer, Inr OutcomeNoMatch)
         else if so_quiet opts \<or> so_files_without_match opts then (writer, Inr OutcomeMatched)
         else if so_files_only opts then (write_file rel_path writer, Inr OutcomeMatched)
         else if so_count opts \<or> so_count_matches opts then
           (write_count rel_path (if so_count_matches opts then match_count found else matched_lines found) writer,
            Inr OutcomeMatched)
         else
           let writer = (case binary_offset of
                 Some off \<Rightarrow> write_binary_note (h_render H) (h_elapsed H) rel_path off writer | None \<Rightarrow> writer)
           in if binary_offset \<noteq> None \<and> \<not> is_json writer then (writer, Inr OutcomeMatched)
              else case for_each (h_memchr H) id found match_opts matcher
                          (write_row (h_render H) (h_elapsed H) read rel_path) writer of
                (writer, Some e) \<Rightarrow> (writer, Inl e)
              | (writer, None) \<Rightarrow> (writer, Inr (if has_matches then OutcomeMatched else OutcomeNoMatch)))"

definition search_decoded_file ::
  "host \<Rightarrow> file_read \<Rightarrow> search_matcher \<Rightarrow> path \<Rightarrow> 'e search_options \<Rightarrow> bool \<Rightarrow>
   output_writer \<Rightarrow> output_writer \<times> (string + file_outcome)"
where
  "search_decoded_file H read matcher rel_path opts explicit writer =
     (let content = file_text_as_str (fr_text read); binary_offset = binary_offset_of opts read
      in if binary_offset \<noteq> None \<and> \<not> explicit \<and> \<not> so_binary opts then (writer, Inr OutcomeSkipped)
         else
           let writer = note_bytes_searched
                 (case binary_offset of Some off \<Rightarrow> off | None \<Rightarrow> to_source_offset (fr_fixups read) (length content)) writer
           in case find_in_file (h_memchr_iter H) (h_parse H) content matcher (match_options_of (h_tty H) opts) of
                Inl e \<Rightarrow> (writer, Inl e)
              | Inr found \<Rightarrow>
                  let writer = (if so_stats opts
                        then note_matches (fst (fm_match_totals found)) (snd (fm_match_totals found)) writer else writer)
                  in report_file H opts matcher rel_path read found writer)"

definition search_file ::
  "host \<Rightarrow> file_read \<Rightarrow> search_matcher \<Rightarrow> path \<Rightarrow> 'e search_options \<Rightarrow> bool \<Rightarrow>
   output_writer \<Rightarrow> output_writer \<times> (string + bool)"
where
  "search_file H read matcher rel_path opts explicit writer =
     (case search_decoded_file H read matcher rel_path opts explicit writer of
        (writer, Inl e) \<Rightarrow> (writer, Inl e)
      | (writer, Inr OutcomeMatched) \<Rightarrow> (writer, Inr (\<not> so_files_without_match opts))
      | (writer, Inr OutcomeNoMatch) \<Rightarrow>
          if so_files_without_match opts
          then (if \<not> so_quiet opts then write_file rel_path writer else writer, Inr True)
          else (writer, Inr False)
      | (writer, Inr OutcomeSkipped) \<Rightarrow> (writer, Inr False))"

section \<open>Modes that print no lines\<close>

text \<open>The bytes of a count and of a file name.\<close>

definition count_bytes :: "output_writer \<Rightarrow> path \<Rightarrow> nat \<Rightarrow> byte list" where
  "count_bytes w file n =
     (if no_filename (config w) then decimal n
      else display_path w file @ (if null (config w) then [0x00] else field_match_separator (config w)) @ decimal n) @ [0x0A]"

definition name_bytes :: "output_writer \<Rightarrow> path \<Rightarrow> byte list" where
  "name_bytes w file = display_path w file @ (if null (config w) then [0x00] else [0x0A])"

definition note_bytes :: "output_writer \<Rightarrow> path \<Rightarrow> nat \<Rightarrow> byte list" where
  "note_bytes w file off =
     (if no_filename (config w) then [] else display_path w file @ ascii '': '') @
     ascii ''binary file matches (found '' @ [0x22, 0x5C, 0x30, 0x22] @ ascii '' byte around offset '' @ decimal off @ ascii '')'' @ [0x0A]"

lemma write_count_put: "write_count file n w = put (count_bytes w file n) w"
  by (simp add: write_count_def count_bytes_def put_line_def Let_def)

lemma write_file_put: "write_file file w = put (name_bytes w file) w"
  by (simp add: write_file_def name_bytes_def put_line_def Let_def)

lemma write_binary_note_put: "\<not> is_json w \<Longrightarrow> write_binary_note render e file off w = put (note_bytes w file off) w"
  by (simp add: write_binary_note_def note_bytes_def put_line_def Let_def)

text \<open>Bytes depend on the configuration only, which counters and output leave alone.\<close>

lemma config_bytes:
  assumes "config v = config w"
  shows "display_path v = display_path w" "count_bytes v = count_bytes w" "name_bytes v = name_bytes w" "note_bytes v = note_bytes w"
    "is_json v = is_json w"
  using assms by (auto simp: fun_eq_iff display_path_def count_bytes_def name_bytes_def note_bytes_def is_json_def)

lemma put_config_simps [simp]:
  "config (put bs w) = config w" "stdout (put bs w) = stdout w @ bs" "count_bytes (put bs w) = count_bytes w"
  "name_bytes (put bs w) = name_bytes w" "is_json (put bs w) = is_json w"
proof -
  show config: "config (put bs w) = config w" by (simp add: put_def)
  show "stdout (put bs w) = stdout w @ bs" by (simp add: put_def)
  show "count_bytes (put bs w) = count_bytes w" "name_bytes (put bs w) = name_bytes w" "is_json (put bs w) = is_json w"
    by (rule config_bytes [OF config])+
qed

lemma counter_simps [simp]:
  "config (note_bytes_searched n w) = config w" "stdout (note_bytes_searched n w) = stdout w"
  "config (note_matches a b w) = config w" "stdout (note_matches a b w) = stdout w"
  by (simp_all add: note_bytes_searched_def set_file_bytes_searched_def note_matches_def)

text \<open>What the search does between the check for binary files and the report.\<close>

definition noted :: "host \<Rightarrow> 'e search_options \<Rightarrow> file_read \<Rightarrow> file_matches \<Rightarrow> output_writer \<Rightarrow> output_writer" where
  "noted H opts read found w =
     (let w = note_bytes_searched (case binary_offset_of opts read of Some off \<Rightarrow> off
            | None \<Rightarrow> to_source_offset (fr_fixups read) (length (file_text_as_str (fr_text read)))) w
      in if so_stats opts then note_matches (fst (fm_match_totals found)) (snd (fm_match_totals found)) w else w)"

lemma noted_simps [simp]: "config (noted H opts read found w) = config w" "stdout (noted H opts read found w) = stdout w"
  by (simp_all add: noted_def Let_def)

lemma search_decoded_report:
  assumes "find_in_file (h_memchr_iter H) (h_parse H) (file_text_as_str (fr_text read)) matcher (match_options_of (h_tty H) opts) = Inr found"
    and "binary_offset_of opts read = None \<or> explicit \<or> so_binary opts"
  shows "search_decoded_file H read matcher rel opts explicit w =
    report_file H opts matcher rel read found (noted H opts read found w)"
  using assms by (auto simp: search_decoded_file_def noted_def Let_def)

lemma match_options_simps [simp]:
  "multiline (match_options_of tty opts) = so_multiline opts" "invert_match (match_options_of tty opts) = so_invert_match opts"
  "replace (match_options_of tty opts) = so_replace opts" "passthru (match_options_of tty opts) = effective_passthru opts"
  "only_matching (match_options_of tty opts) = effective_only_matching opts" "vimgrep (match_options_of tty opts) = so_vimgrep opts"
  "before_context (match_options_of tty opts) = before_ctx opts" "after_context (match_options_of tty opts) = after_ctx opts"
  by (simp_all add: match_options_of_def)

text \<open>The options of a search for one letter.\<close>

definition letter_options :: "nat search_options" where
  "letter_options =
     \<lparr>so_pattern = [0x62], so_pattern_sources = [], so_case_insensitive = False, so_case_sensitive = False,
      so_smart_case = False, so_fixed_string = False, so_files_only = False, so_files_without_match = False,
      so_count = False, so_word_boundary = False, so_max_count = None, so_json = False, so_vimgrep = False,
      so_stats = False, so_no_index = False, so_shared = False, so_glob = [], so_iglob = [],
      so_glob_case_insensitive = False, so_type_ops = [], so_invert_match = False, so_only_matching = False,
      so_after_context = None, so_before_context = None, so_context = None, so_heading = Some False,
      so_color = ColorNever, so_null = False, so_trim = False, so_multiline = False,
      so_multiline_dotall = False, so_no_ignore = False, so_hidden = False, so_quiet = False,
      so_no_filename = False, so_no_line_number = False, so_text = False, so_binary = False,
      so_content_eligibility = ExtensionAndContent, so_path_display = Bare, so_max_filesize = None,
      so_max_filesize_requested = False, so_encoding = Auto, so_follow = False, so_no_messages = False,
      so_no_ignore_messages = False, so_line_regexp = False, so_no_unicode = False, so_engine = EngineAuto,
      so_regex_size_limit = None, so_dfa_size_limit = None, so_replace = None, so_passthru = False,
      so_stop_on_nonmatch = False, so_column = False, so_byte_offset = False, so_max_columns = None,
      so_max_columns_preview = False, so_count_matches = False, so_include_zero = False,
      so_context_separator = Some (ascii ''--''), so_field_match_separator = ascii '':'',
      so_field_context_separator = ascii ''-'', so_path_separator = None, so_sort = None, so_max_depth = None,
      so_one_file_system = False, so_ignore_files = [], so_ignore_file_case_insensitive = False,
      so_no_ignore_dot = False, so_no_ignore_exclude = False, so_no_ignore_global = False,
      so_no_ignore_parent = False, so_no_ignore_vcs = False, so_no_require_git = False, so_threads = None,
      so_line_buffered = False\<rparr>"

definition demo_host :: host where
  "demo_host = \<lparr>h_memchr = first_byte, h_memchr_iter = all_bytes, h_parse = (\<lambda>pattern dot_all. None), h_render = (\<lambda>m. []),
     h_elapsed = JNull, h_tty = False\<rparr>"

definition demo_read :: file_read where
  "demo_read = \<lparr>fr_text = OwnedText [0x61, 0x0A, 0x62, 0x0A, 0x63], fr_fixups = no_fixups, fr_first_nul = None\<rparr>"

lemma demo_simps [simp]:
  "h_memchr_iter demo_host = all_bytes" "h_tty demo_host = False"
  "fr_text demo_read = OwnedText [0x61, 0x0A, 0x62, 0x0A, 0x63]" "fr_fixups demo_read = no_fixups" "fr_first_nul demo_read = None"
  by (simp_all add: demo_host_def demo_read_def)

lemma demo_lines:
  fixes I :: line_index
  defines "I \<equiv> line_index_new all_bytes [0x61, 0x0A, 0x62, 0x0A, 0x63]"
  shows "line_count I = 3" "line_text I 0 = [0x61]" "line_text I 1 = [0x62]" "line_text I 2 = [0x63]" "line_start I 1 = 2"
proof -
  show "line_count I = 3" "line_text I 0 = [0x61]" "line_text I 1 = [0x62]" "line_text I 2 = [0x63]" "line_start I 1 = 2"
    unfolding I_def by code_simp+
qed

lemma demo_selected:
  assumes "\<not> invert_match mo" "max_count mo = None" "\<not> stop_on_nonmatch mo"
  shows "selected_lines (\<lambda>hay. set (all_bytes 0x62 hay)) mo (line_index_new all_bytes [0x61, 0x0A, 0x62, 0x0A, 0x63]) = [1]"
proof -
  have bytes: "all_bytes 0x62 [0x61] = []" "all_bytes 0x62 [0x62] = [0]" "all_bytes 0x62 [0x63] = []" by (simp_all add: all_bytes_def)
  have "[0..<3] = [0, 1, 2 :: nat]" by (simp add: upt_rec)
  then show ?thesis using assms demo_lines bytes
    by (simp add: selected_lines_def at_most_def line_run_def line_selected_def)
qed

text \<open>C29. The modes that print no lines report the selection: without output for \<^verbatim>\<open>-q\<close>, the name of a file with
  a selected line for \<^verbatim>\<open>-l\<close> and without one for \<^verbatim>\<open>--files-without-match\<close>, and for \<^verbatim>\<open>-c\<close>
  the number of selected lines, of a file without any under \<^verbatim>\<open>--include-zero\<close> only; the file satisfies the
  search accordingly.\<close>

theorem file_modes_report_the_selection:
  assumes "finds_all (h_memchr_iter H)" "I = line_index_new (h_memchr_iter H) (file_text_as_str (fr_text read))"
    and "leftmost_engine re starts" "pattern_is_anchor_free (re_as_str re) \<longrightarrow> line_local starts"
    and "\<not> so_multiline opts \<or> so_invert_match opts" "so_replace opts = None" "binary_offset_of opts read = None"
    and "\<not> prints_text_lines opts" "\<not> so_json opts" "\<not> so_count_matches opts"
    and "sel = selected_lines starts (match_options_of (h_tty H) opts) I"
  shows "\<exists>w'. search_file H read (Standard re dot_all) rel opts explicit w = (w', Inr ((sel \<noteq> []) \<noteq> so_files_without_match opts)) \<and>
    stdout w' = stdout w @
      (if so_quiet opts then []
       else (if sel = [] \<and> so_count opts \<and> so_include_zero opts then count_bytes w rel 0 else []) @
         (if so_files_without_match opts then if sel = [] then name_bytes w rel else []
          else if sel = [] then []
          else if so_files_only opts then name_bytes w rel
          else count_bytes w rel (length sel)))"
proof -
  let ?mo = "match_options_of (h_tty H) opts"
  let ?fm = "found_by_line re starts ?mo I"
  let ?w = "noted H opts read ?fm w"
  have "find_in_file (h_memchr_iter H) (h_parse H) (file_text_as_str (fr_text read)) (Standard re dot_all) ?mo = Inr ?fm"
    by (rule find_in_file_by_line [OF assms(1-4)]) (use assms(5,6) in auto)
  then have report: "search_decoded_file H read (Standard re dot_all) rel opts explicit w =
      report_file H opts (Standard re dot_all) rel read ?fm ?w"
    by (rule search_decoded_report) (simp add: assms(7))
  have found: "fm_is_empty ?fm \<longleftrightarrow> sel = []" "matched_lines ?fm = length sel"
    by (simp_all add: fm_is_empty_def matched_lines_def assms(11))
  have bytes: "count_bytes ?w = count_bytes w" "name_bytes ?w = name_bytes w" by (rule config_bytes; simp)+
  have mode: "\<not> effective_passthru opts" "so_quiet opts \<or> so_files_without_match opts \<or> so_files_only opts \<or> so_count opts"
    using assms(8-10) by (auto simp: effective_passthru_def prints_text_lines_def)
  show ?thesis
  proof (cases "sel = []")
    case True
    then show ?thesis using mode(1) assms(7,10) bytes
      by (simp add: search_file_def report report_file_def found Let_def write_count_put write_file_put)
  next
    case False
    then show ?thesis using mode(1) assms(7,10) bytes
      by (simp add: search_file_def report report_file_def found Let_def write_count_put write_file_put) (use mode(2) in blast)
  qed
qed

theorem file_modes_report_the_selection_witness:
  "\<exists>w'. search_file demo_host demo_read (Standard (byte_engine 0x62) False) (ascii ''f'') (letter_options\<lparr>so_count := True\<rparr>) False
      (new_writer False 4 (letter_options\<lparr>so_count := True\<rparr>)) = (w', Inr True) \<and>
    stdout w' = ascii ''f:1'' @ [0x0A]"
proof -
  let ?opts = "letter_options\<lparr>so_count := True\<rparr>"
  let ?w = "new_writer False 4 ?opts"
  have opts: "\<not> so_multiline ?opts \<or> so_invert_match ?opts" "so_replace ?opts = None" "binary_offset_of ?opts demo_read = None"
    "\<not> prints_text_lines ?opts" "\<not> so_json ?opts" "\<not> so_count_matches ?opts"
    by (simp_all add: letter_options_def binary_offset_of_def prints_text_lines_def)
  have local: "pattern_is_anchor_free (re_as_str (byte_engine 0x62)) \<longrightarrow> line_local (\<lambda>hay. set (all_bytes 0x62 hay))"
    using byte_engine_local by simp
  have sel: "selected_lines (\<lambda>hay. set (all_bytes 0x62 hay)) (match_options_of (h_tty demo_host) ?opts)
      (line_index_new all_bytes [0x61, 0x0A, 0x62, 0x0A, 0x63]) = [1]"
    by (rule demo_selected) (simp_all add: match_options_of_def letter_options_def)
  have bytes: "count_bytes ?w (ascii ''f'') 1 = ascii ''f:1'' @ [0x0A]"
    by (simp add: count_bytes_def new_writer_def writer_new_def make_output_config_def letter_options_def display_path_def
        decimal.simps ascii_def)
  have more: "stdout ?w = []" "\<not> so_quiet ?opts" "\<not> so_files_without_match ?opts" "\<not> so_files_only ?opts"
    by (simp_all add: new_writer_def writer_new_def letter_options_def)
  show ?thesis
    using file_modes_report_the_selection [where H = demo_host and read = demo_read and w = ?w and rel = "ascii ''f''" and explicit = False
        and dot_all = False and opts = ?opts,
      OF _ refl byte_engine_leftmost local opts(1-6) refl] all_bytes_finds_all sel bytes more by auto
qed

lemma report_binary_file:
  assumes "binary_offset_of opts read = Some off" "\<not> is_json w"
  shows "report_file H opts matcher rel read found w =
    (if fm_is_empty found
     then (if so_include_zero opts \<and> (so_count opts \<or> so_count_matches opts) \<and> \<not> so_quiet opts
           then put (count_bytes w rel 0) w else w, Inr OutcomeNoMatch)
     else (if so_quiet opts \<or> so_files_without_match opts then w
           else if so_files_only opts then put (name_bytes w rel) w
           else if so_count opts \<or> so_count_matches opts
           then put (count_bytes w rel (if so_count_matches opts then match_count found else matched_lines found)) w
           else put (note_bytes w rel off) w, Inr OutcomeMatched))"
  using assms by (simp add: report_file_def Let_def write_count_put write_file_put write_binary_note_put)

text \<open>C28. Binary content is never printed as text: a file with a NUL byte that was neither named nor asked for with
  \<^verbatim>\<open>--binary\<close> leaves no trace and satisfies no search; for any other one at most the note, the name or a count
  is written, whatever the pattern and the options other than \<^verbatim>\<open>--text\<close> and \<^verbatim>\<open>--json\<close>.\<close>

theorem binary_content_is_never_printed:
  assumes "\<not> so_text opts" "fr_first_nul read = Some off" "\<not> is_json w"
    and "search_file H read matcher rel opts explicit w = (w', r)"
  shows "(\<not> explicit \<and> \<not> so_binary opts \<longrightarrow> w' = w \<and> r = Inr False) \<and>
    (\<exists>printed. stdout w' = stdout w @ concat printed \<and> length printed \<le> 2 \<and>
       (\<forall>p\<in>set printed. p = name_bytes w rel \<or> p = note_bytes w rel (to_source_offset (fr_fixups read) off) \<or>
          (\<exists>n. p = count_bytes w rel n)))"
proof (cases "\<not> explicit \<and> \<not> so_binary opts")
  case True
  then have "search_file H read matcher rel opts explicit w = (w, Inr False)"
    using assms(1,2) by (simp add: search_file_def search_decoded_file_def binary_offset_of_def)
  then show ?thesis using assms(4) by (auto intro: exI [of _ "[]"])
next
  case shown: False
  let ?off = "to_source_offset (fr_fixups read) off"
  have off: "binary_offset_of opts read = Some ?off" using assms(1,2) by (simp add: binary_offset_of_def)
  show ?thesis
  proof (cases "find_in_file (h_memchr_iter H) (h_parse H) (file_text_as_str (fr_text read)) matcher (match_options_of (h_tty H) opts)")
    case (Inl e)
    then have "stdout w' = stdout w"
      using assms(4) shown off by (auto simp: search_file_def search_decoded_file_def Let_def)
    then show ?thesis using shown by (auto intro: exI [of _ "[]"])
  next
    case (Inr found)
    let ?w = "noted H opts read found w"
    have report: "search_decoded_file H read matcher rel opts explicit w = report_file H opts matcher rel read found ?w"
      by (rule search_decoded_report [OF Inr]) (use shown in auto)
    have bytes: "count_bytes ?w = count_bytes w" "name_bytes ?w = name_bytes w" "note_bytes ?w = note_bytes w" "\<not> is_json ?w"
      using config_bytes [of ?w w] assms(3) by simp_all
    note report = report [unfolded report_binary_file [OF off bytes(4)]]
    have "stdout w' = stdout w \<or> stdout w' = stdout w @ name_bytes w rel \<or> stdout w' = stdout w @ note_bytes w rel ?off \<or>
        (\<exists>n. stdout w' = stdout w @ count_bytes w rel n) \<or> stdout w' = stdout w @ count_bytes w rel 0 @ name_bytes w rel"
    proof (cases "fm_is_empty found")
      case True
      then show ?thesis using assms(4) bytes
        by (cases "so_include_zero opts \<and> (so_count opts \<or> so_count_matches opts) \<and> \<not> so_quiet opts"; cases "so_files_without_match opts")
          (simp_all add: search_file_def report write_file_put, auto simp: write_file_put)
    next
      case False
      then show ?thesis using assms(4) bytes by (auto simp: search_file_def report)
    qed
    then consider "stdout w' = stdout w" | "stdout w' = stdout w @ name_bytes w rel"
      | "stdout w' = stdout w @ note_bytes w rel ?off" | n where "stdout w' = stdout w @ count_bytes w rel n"
      | "stdout w' = stdout w @ count_bytes w rel 0 @ name_bytes w rel" by blast
    then show ?thesis
    proof cases
      case 1
      then show ?thesis using shown by (auto intro: exI [of _ "[]"])
    next
      case 2
      then show ?thesis using shown by (auto intro!: exI [of _ "[name_bytes w rel]"])
    next
      case 3
      then show ?thesis using shown by (auto intro!: exI [of _ "[note_bytes w rel ?off]"])
    next
      case (4 n)
      then show ?thesis using shown by (auto intro!: exI [of _ "[count_bytes w rel n]"])
    next
      case 5
      then show ?thesis using shown by (auto intro!: exI [of _ "[count_bytes w rel 0, name_bytes w rel]"])
    qed
  qed
qed

theorem binary_content_is_never_printed_witness:
  "search_file demo_host (demo_read\<lparr>fr_first_nul := Some 3\<rparr>) (Standard (byte_engine 0x62) False) (ascii ''f'') letter_options False
     (new_writer False 4 letter_options) = (new_writer False 4 letter_options, Inr False)"
proof -
  let ?read = "demo_read\<lparr>fr_first_nul := Some 3\<rparr>" and ?w = "new_writer False 4 letter_options"
  have "\<not> so_text letter_options" "\<not> so_binary letter_options" "fr_first_nul ?read = Some 3" "\<not> is_json ?w"
    by (simp_all add: letter_options_def is_json_def new_writer_def writer_new_def make_output_config_def)
  then show ?thesis
    using binary_content_is_never_printed [of letter_options ?read 3 ?w demo_host "Standard (byte_engine 0x62) False" "ascii ''f''" False]
    by (metis surj_pair)
qed

section \<open>The printed lines\<close>

text \<open>How a line looks: its prefix, and for a selected line its matches highlighted.\<close>

definition line_look :: "output_writer \<Rightarrow> path \<Rightarrow> line_index \<Rightarrow> (nat \<Rightarrow> span list option) \<Rightarrow> nat \<Rightarrow> byte list" where
  "line_look w rel I spans li =
     (case spans li of
        Some ss \<Rightarrow> field_prefix w rel (li + 1) (case ss of [] \<Rightarrow> None | s # _ \<Rightarrow> Some (fst s + 1)) (line_start I li) True @
          highlight w (line_text I li) ss
      | None \<Rightarrow> field_prefix w rel (li + 1) None (line_start I li) False @ line_text I li) @ [0x0A]"

text \<open>Lines with context that do not follow one another are separated.\<close>

definition gap_look :: "output_writer \<Rightarrow> nat option \<Rightarrow> nat \<Rightarrow> byte list" where
  "gap_look w prev li =
     (case (prev, context_separator (config w)) of
        (Some p, Some sep) \<Rightarrow> if shows_context (config w) \<and> li > p + 1 then sep @ [0x0A] else []
      | _ \<Rightarrow> [])"

fun lines_look ::
  "output_writer \<Rightarrow> path \<Rightarrow> line_index \<Rightarrow> (nat \<Rightarrow> span list option) \<Rightarrow> nat option \<Rightarrow> nat list \<Rightarrow> byte list"
where
  "lines_look w rel I spans prev [] = []"
| "lines_look w rel I spans prev (li # lis) =
     gap_look w prev li @ line_look w rel I spans li @ lines_look w rel I spans (Some li) lis"

text \<open>A writer that prints lines of a file without headings.\<close>

definition printing :: "output_writer \<Rightarrow> path \<Rightarrow> nat option \<Rightarrow> output_writer \<Rightarrow> bool" where
  "printing w0 rel prev w \<longleftrightarrow> config w = config w0 \<and> use_color w = use_color w0 \<and> use_heading w = use_heading w0 \<and>
     \<not> use_heading w0 \<and> \<not> pending_file_separator w \<and> last_printed_line w = map_option (\<lambda>p. (rel, p + 1)) prev"

definition plain_config :: "output_config \<Rightarrow> bool" where
  "plain_config cfg \<longleftrightarrow> format cfg = Heading \<and> \<not> trim_lines cfg \<and> max_columns cfg = None"

definition plain_row :: "line_index \<Rightarrow> (nat \<Rightarrow> span list option) \<Rightarrow> nat \<Rightarrow> emit" where
  "plain_row I spans li =
     (case spans li of
        Some ss \<Rightarrow> whole_line_row I \<lparr>hit_idx = li, hit_spans = ss\<rparr> (line_text I li) ss [] None
      | None \<Rightarrow> context_line I li)"

lemma writer_look:
  assumes "config w = config w0" "use_color w = use_color w0" "use_heading w = use_heading w0"
  shows "field_prefix w = field_prefix w0" "highlight w = highlight w0" "gap_look w = gap_look w0"
  by (intro ext; simp only: field_prefix_def highlight_def gap_look_def assms config_bytes(1) [OF assms(1)])+

lemma no_pending_separator: "\<not> pending_file_separator w \<Longrightarrow> write_pending_file_separator w = w"
  by (cases w) (simp add: write_pending_file_separator_def Let_def split: option.split)

lemma put_printing [simp]:
  "pending_file_separator (put bs w) = pending_file_separator w" "use_color (put bs w) = use_color w"
  "use_heading (put bs w) = use_heading w" "last_printed_line (put bs w) = last_printed_line w"
  by (simp_all add: put_def)

lemma separator_gap:
  assumes "printing w0 rel prev w" "plain_config (config w0)"
  shows "printing w0 rel prev (write_context_separator rel (li + 1) w) \<and>
    stdout (write_context_separator rel (li + 1) w) = stdout w @ gap_look w0 prev li"
proof -
  have w: "config w = config w0" "\<not> pending_file_separator w" "\<not> is_json w"
    and printed: "last_printed_line w = map_option (\<lambda>p. (rel, p + 1)) prev"
    using assms by (auto simp: printing_def plain_config_def is_json_def)
  note sep = no_pending_separator [OF w(2)]
  show ?thesis using assms(1) w sep printed
    by (cases prev) (auto simp: write_context_separator_def gap_look_def printing_def put_line_def split: option.split)
qed

lemma untrimmed [simp]:
  "\<not> trim_lines (config w) \<Longrightarrow> trim_adjust_indexed w s spans = (s, zip [0..<length spans] spans)"
  "\<not> trim_lines (config w) \<Longrightarrow> trim_adjust w s spans = (s, spans)"
  by (simp_all add: trim_adjust_def trim_adjust_indexed_def trims_def)

lemma unlimited [simp]: "max_columns (config w) = None \<Longrightarrow> apply_max_columns w s n m = s"
  by (simp add: apply_max_columns_def)

lemma saturating_add_0 [simp]: "n < 2 ^ 64 \<Longrightarrow> saturating_add_signed n 0 = n"
  by (simp add: saturating_add_signed_def)

lemma no_fixups_offset [simp]: "to_source_offset no_fixups n = n" "fixups_is_empty no_fixups"
  by (simp_all add: to_source_offset_def no_fixups_def fixups_is_empty_def)

lemma plain_row_written:
  assumes printing: "printing w0 rel prev w" and cfg: "plain_config (config w0)"
    and fixups: "fr_fixups read = no_fixups" and small: "line_start I li < 2 ^ 64"
  shows "\<exists>w'. write_row render e read rel (plain_row I spans li) w = (w', None) \<and> printing w0 rel (Some li) w' \<and>
    stdout w' = stdout w @ gap_look w0 prev li @ line_look w0 rel I spans li"
proof -
  let ?w = "write_context_separator rel (li + 1) w"
  have sep: "printing w0 rel prev ?w" "stdout ?w = stdout w @ gap_look w0 prev li"
    using separator_gap [OF printing cfg] by simp_all
  then have w: "config ?w = config w0" "use_color ?w = use_color w0" "use_heading ?w = use_heading w0"
    "\<not> use_heading w0" "\<not> pending_file_separator ?w" by (simp_all add: printing_def)
  have plain: "format (config w0) = Heading" "\<not> trim_lines (config w0)" "max_columns (config w0) = None" "\<not> is_json ?w"
    using cfg w(1) by (auto simp: plain_config_def is_json_def)
  note look = writer_look [OF w(1-3)]
  note pending = no_pending_separator [OF w(5)]
  have heading: "ensure_heading f ?w = ?w" for f using w(3,4) by (simp add: ensure_heading_def)
  show ?thesis
  proof (cases "spans li")
    case None
    then show ?thesis using sep w plain look pending heading fixups
      by (simp add: plain_row_def write_row_def context_line_def context_of_row_def write_context_line_def
          printing_def line_look_def put_line_def Let_def)
  next
    case (Some ss)
    have column: "match_column \<lparr>r_file = f, r_line_number = n, r_content = c, r_columns = columns_of ss, r_spans = ss', r_absolute_offset = a,
        r_terminator_len = t, r_block = b, r_hidden = h, r_replacements = rs, r_raw = raw\<rparr> =
        (case ss of [] \<Rightarrow> None | s # _ \<Rightarrow> Some (fst s + 1))" for f n c ss' a t b h rs raw
      by (simp add: match_column_def columns_of_def split: list.split)
    show ?thesis using Some sep w plain look pending heading fixups small
      by (simp add: plain_row_def write_row_def whole_line_row_def match_of_row_def to_source_positions_def to_source_columns_def
          write_match_def write_text_match_def column printing_def line_look_def put_line_def Let_def)
  qed
qed

lemma plain_rows_written:
  assumes "plain_config (config w0)" "fr_fixups read = no_fixups" "\<forall>li\<in>set lis. line_start I li < 2 ^ 64" "printing w0 rel prev w"
  shows "\<exists>w'. each (write_row render e read rel) (map (plain_row I spans) lis) w = (w', None) \<and>
    stdout w' = stdout w @ lines_look w0 rel I spans prev lis"
  using assms(3,4)
proof (induction lis arbitrary: prev w)
  case (Cons li lis)
  have "line_start I li < 2 ^ 64" using Cons.prems(1) by simp
  then obtain w1 where w1: "write_row render e read rel (plain_row I spans li) w = (w1, None)" "printing w0 rel (Some li) w1"
    "stdout w1 = stdout w @ gap_look w0 prev li @ line_look w0 rel I spans li"
    using plain_row_written [OF Cons.prems(2) assms(1,2)] by blast
  then show ?case using Cons.IH [OF _ w1(2)] Cons.prems(1) by auto
qed simp

lemma found_walk:
  assumes "replace opts = None" "\<not> only_matching opts" "line_count I + after_context opts < 2 ^ 64"
  shows "for_each memchr from_error (found_by_line re starts opts I) opts (Standard re dot_all) on_emit =
    each on_emit (map (plain_row I (\<lambda>li. if li \<in> set (selected_lines starts opts I) then Some (spans_of_line re opts I li) else None))
      (filter (\<lambda>li. passthru opts \<or> (\<exists>s\<in>set (selected_lines starts opts I). s \<le> li + before_context opts \<and> li \<le> s + after_context opts))
        [0..<line_count I]))"
proof -
  let ?fm = "found_by_line re starts opts I"
  let ?spans = "\<lambda>li. if li \<in> set (selected_lines starts opts I) then Some (spans_of_line re opts I li) else None"
  have wf: "hits_wf (fm_index ?fm) (fm_hits ?fm)" using found_by_line_wf by simp
  have line: "emit_line from_error ?fm opts (Standard re dot_all) on_emit = (\<lambda>li. on_emit (plain_row I ?spans li))"
  proof
    fix li
    show "emit_line from_error ?fm opts (Standard re dot_all) on_emit li = on_emit (plain_row I ?spans li)"
    proof (cases "li \<in> set (selected_lines starts opts I)")
      case True
      then have "hit_on (fm_hits ?fm) li = Some \<lparr>hit_idx = li, hit_spans = spans_of_line re opts I li\<rparr>"
        using hit_on_hits [OF wf] by auto
      then show ?thesis using True plain_hit_rows [of ?fm opts] assms(1,2)
        by (simp add: emit_line_def emit_hit_def each_single plain_row_def)
    next
      case False
      then have "hit_on (fm_hits ?fm) li = None" using hit_on_hits [OF wf, of li] by (cases "hit_on (fm_hits ?fm) li") auto
      then show ?thesis using False by (simp add: emit_line_def plain_row_def)
    qed
  qed
  have window: "in_window opts (fm_hits ?fm) =
      (\<lambda>li. passthru opts \<or> (\<exists>s\<in>set (selected_lines starts opts I). s \<le> li + before_context opts \<and> li \<le> s + after_context opts))"
    by (auto simp: fun_eq_iff in_window_def)
  have "for_each memchr from_error ?fm opts (Standard re dot_all) on_emit =
      each (emit_line from_error ?fm opts (Standard re dot_all) on_emit) (filter (in_window opts (fm_hits ?fm)) [0..<line_count (fm_index ?fm)])"
    by (rule for_each_window [OF wf]) (use assms(3) in simp_all)
  then show ?thesis unfolding line window by (simp add: each_map)
qed

text \<open>C27. A search prints its lines: searching a text file with a writer that has printed nothing, without headings, adds
  for every line within reach of a selected one, in order, its prefix and its text with the matches highlighted, with the
  separator where lines with context do not follow one another, and nothing else; the file satisfies the search exactly
  when a line is selected.\<close>

theorem search_prints_its_lines:
  assumes "finds_all (h_memchr_iter H)" "I = line_index_new (h_memchr_iter H) (file_text_as_str (fr_text read))"
    and "leftmost_engine re starts" "pattern_is_anchor_free (re_as_str re) \<longrightarrow> line_local starts"
    and "\<not> so_multiline opts \<or> so_invert_match opts" "so_replace opts = None" "\<not> so_only_matching opts"
    and "binary_offset_of opts read = None" "fr_fixups read = no_fixups"
    and "prints_text_lines opts" "\<not> so_vimgrep opts" "\<not> so_trim opts" "so_max_columns opts = None"
    and "w = new_writer (h_tty H) processors opts" "\<not> use_heading w"
    and "length (file_text_as_str (fr_text read)) + after_ctx opts < 2 ^ 64"
    and "mo = match_options_of (h_tty H) opts" "sel = selected_lines starts mo I"
    and "lis = filter (\<lambda>li. effective_passthru opts \<or> (\<exists>s\<in>set sel. s \<le> li + before_ctx opts \<and> li \<le> s + after_ctx opts)) [0..<line_count I]"
  shows "\<exists>w'. search_file H read (Standard re dot_all) rel opts explicit w = (w', Inr (sel \<noteq> [])) \<and>
    stdout w' = lines_look w rel I (\<lambda>li. if li \<in> set sel then Some (spans_of_line re mo I li) else None) None lis"
proof -
  let ?content = "file_text_as_str (fr_text read)"
  let ?fm = "found_by_line re starts mo I"
  let ?w = "noted H opts read ?fm w"
  let ?spans = "\<lambda>li. if li \<in> set sel then Some (spans_of_line re mo I li) else None"
  have wf: "lines_wf I" "li_content I = ?content" using line_index_new_wf [OF assms(1)] assms(2) by simp_all
  have small: "line_count I + after_context mo < 2 ^ 64"
    using line_count_le [OF wf(1)] wf(2) assms(16,17) by simp
  have starts: "\<forall>li\<in>set lis. line_start I li < 2 ^ 64"
  proof
    fix li assume "li \<in> set lis"
    then have "line_start I li \<le> length ?content"
      using line_start_less(1) [OF wf(1), of li] line_start_less(2) [OF wf(1), of li] wf(2) assms(19) by auto
    then show "line_start I li < 2 ^ 64" using assms(16) by simp
  qed
  have "find_in_file (h_memchr_iter H) (h_parse H) ?content (Standard re dot_all) mo = Inr ?fm"
    by (rule find_in_file_by_line [OF assms(1-4)]) (use assms(5,6,17) in auto)
  then have report: "search_decoded_file H read (Standard re dot_all) rel opts explicit w =
      report_file H opts (Standard re dot_all) rel read ?fm ?w"
    unfolding assms(17) by (rule search_decoded_report) (simp add: assms(8))
  have modes: "\<not> so_quiet opts" "\<not> so_files_without_match opts" "\<not> so_files_only opts" "\<not> so_count opts" "\<not> so_count_matches opts"
    "\<not> so_json opts"
    using assms(10) by (auto simp: prints_text_lines_def)
  have plain: "plain_config (config w)"
    using modes assms(11-13) by (simp add: plain_config_def assms(14) new_writer_def writer_new_def make_output_config_def)
  have printing: "printing w rel None ?w"
    using assms(15) by (simp add: printing_def noted_def Let_def note_bytes_searched_def set_file_bytes_searched_def note_matches_def
        assms(14) new_writer_def writer_new_def)
  have empty: "fm_is_empty ?fm \<longleftrightarrow> sel = []" by (simp add: fm_is_empty_def assms(18))
  let ?emit = "write_row (h_render H) (h_elapsed H) read rel"
  have walk: "for_each (h_memchr H) id ?fm mo (Standard re dot_all) ?emit = each ?emit (map (plain_row I ?spans) lis)"
    using found_walk [OF _ _ small, of "h_memchr H" id re starts dot_all ?emit] assms(6,7,17,18,19)
    by (simp add: effective_only_matching_def)
  obtain w' where w': "each ?emit (map (plain_row I ?spans) lis) ?w = (w', None)"
    "stdout w' = stdout ?w @ lines_look w rel I ?spans None lis"
    using plain_rows_written [OF plain assms(9) starts printing] by blast
  have new: "stdout w = []" by (simp add: assms(14) new_writer_def writer_new_def)
  show ?thesis
  proof (cases "sel = [] \<and> \<not> effective_passthru opts")
    case True
    then have "lis = []" by (simp add: assms(19))
    then show ?thesis using True modes assms(8) new empty unfolding assms(17)
      by (simp add: search_file_def report [unfolded assms(17)] report_file_def Let_def)
  next
    case False
    then show ?thesis using modes assms(8) w' new walk unfolding assms(17)
      by (auto simp: search_file_def report [unfolded assms(17)] report_file_def empty [unfolded assms(17)] Let_def)
  qed
qed

theorem search_prints_its_lines_witness:
  "\<exists>w'. search_file demo_host demo_read (Standard (byte_engine 0x62) False) (ascii ''f'') letter_options False
      (new_writer False 4 letter_options) = (w', Inr True) \<and> stdout w' = ascii ''f:2:b'' @ [0x0A]"
proof -
  let ?w = "new_writer False 4 letter_options" and ?mo = "match_options_of (h_tty demo_host) letter_options"
  let ?I = "line_index_new all_bytes [0x61, 0x0A, 0x62, 0x0A, 0x63]"
  have opts: "\<not> so_multiline letter_options \<or> so_invert_match letter_options" "so_replace letter_options = None"
    "\<not> so_only_matching letter_options" "binary_offset_of letter_options demo_read = None" "fr_fixups demo_read = no_fixups"
    "prints_text_lines letter_options" "\<not> so_vimgrep letter_options" "\<not> so_trim letter_options" "so_max_columns letter_options = None"
    by (simp_all add: letter_options_def binary_offset_of_def prints_text_lines_def)
  have heading: "\<not> use_heading ?w"
    by (simp add: letter_options_def new_writer_def writer_new_def make_output_config_def)
  have ctx: "after_ctx letter_options = 0" "before_ctx letter_options = 0" "\<not> effective_passthru letter_options"
    by (simp_all add: letter_options_def after_ctx_def before_ctx_def effective_passthru_def)
  have local: "pattern_is_anchor_free (re_as_str (byte_engine 0x62)) \<longrightarrow> line_local (\<lambda>hay. set (all_bytes 0x62 hay))"
    using byte_engine_local by simp
  have sel: "selected_lines (\<lambda>hay. set (all_bytes 0x62 hay)) ?mo ?I = [1]"
    by (rule demo_selected) (simp_all add: match_options_of_def letter_options_def)
  have lis: "filter (\<lambda>li. effective_passthru letter_options \<or>
      (\<exists>s\<in>set [1]. s \<le> li + before_ctx letter_options \<and> li \<le> s + after_ctx letter_options)) [0..<line_count ?I] = [1]"
    by (simp add: ctx demo_lines(1) numeral_3_eq_3)
  have plain: "\<not> use_color ?w" "\<not> no_filename (config ?w)" "\<not> null (config ?w)" "\<not> no_line_number (config ?w)"
    "\<not> column (config ?w)" "\<not> byte_offset (config ?w)" "field_match_separator (config ?w) = ascii '':''"
    "path_displayed (config ?w) = Bare" "path_separator (config ?w) = None"
    by (simp_all add: new_writer_def writer_new_def make_output_config_def letter_options_def color_is_enabled_def)
  have look: "lines_look ?w (ascii ''f'') ?I (\<lambda>li. if li \<in> set [1] then Some (spans_of_line (byte_engine 0x62) ?mo ?I li) else None) None [1] =
      ascii ''f:2:b'' @ [0x0A]"
    using plain heading
    by (simp add: gap_look_def line_look_def highlight_def field_prefix_def display_path_def
        demo_lines demo_lines [unfolded One_nat_def] Let_def decimal.simps ascii_def)
  show ?thesis
    using search_prints_its_lines [where H = demo_host and read = demo_read and rel = "ascii ''f''" and explicit = False
        and dot_all = False and I = ?I and processors = 4, OF _ _ byte_engine_leftmost local opts refl _ _ refl refl refl] all_bytes_finds_all heading
      sel lis look by (auto simp: ctx)
qed

end
