(* ===== verification/Relax.thy ===== *)
theory Relax
  imports Query_Plan
begin

text \<open>
  Patterns for the engine with lookaround (\<^verbatim>\<open>relax_for_indexing\<close> of
  \<^verbatim>\<open>tgrep-core/src/query.rs\<close>): the scanner that widens such a pattern to one the planner can
  parse, and the plan of several of them.  A pattern is the list of its characters.
\<close>

section \<open>Characters\<close>

text \<open>\<^verbatim>\<open>str::chars\<close>: the bytes of a character give its scalar value.\<close>

definition char_value :: "byte list \<Rightarrow> rchar" where
  "char_value bytes =
     (case bytes of
        [] \<Rightarrow> 0
      | b # bs \<Rightarrow> foldl (\<lambda>v c. push_bit 6 v OR (ucast c AND 0x3F))
          (if bs = [] then ucast b else if length bs = 1 then ucast b AND 0x1F
           else if length bs = 2 then ucast b AND 0x0F else ucast b AND 0x07) bs)"

function str_chars :: "byte list \<Rightarrow> rchar list" where
  "str_chars bytes =
     (case utf8_next bytes of
        Inr n \<Rightarrow> if n = 0 then [] else char_value (take n bytes) # str_chars (drop n bytes)
      | Inl e \<Rightarrow> [])"
  by pat_completeness auto
termination
  by (relation "measure length") (auto simp: utf8_next_def split: list.splits)

declare str_chars.simps [simp del]

section \<open>The scanner\<close>

definition char_at :: "rchar list \<Rightarrow> nat \<Rightarrow> rchar option" where
  "char_at cs i = (if i < length cs then Some (cs ! i) else None)"

text \<open>The end of a class: an escaped character is passed over, brackets nest.\<close>

function skip_class_loop :: "rchar list \<Rightarrow> nat \<Rightarrow> nat \<Rightarrow> nat option" where
  "skip_class_loop cs i depth =
     (if i < length cs then
        if cs ! i = 0x5C then skip_class_loop cs (i + 2) depth
        else if cs ! i = 0x5B then skip_class_loop cs (i + 1) (depth + 1)
        else if cs ! i = 0x5D then (if depth - 1 = 0 then Some (i + 1) else skip_class_loop cs (i + 1) (depth - 1))
        else skip_class_loop cs (i + 1) depth
      else None)"
  by pat_completeness auto
termination
  by (relation "measure (\<lambda>(cs, i, _). length cs - i)") auto

declare skip_class_loop.simps [simp del]

definition skip_class :: "rchar list \<Rightarrow> nat \<Rightarrow> nat option" where
  "skip_class cs open_at =
     (let i = open_at + 1;
          i = (if char_at cs i = Some 0x5E then i + 1 else i);
          i = (if char_at cs i = Some 0x5D then i + 1 else i)
      in skip_class_loop cs i 1)"

definition is_digit :: "rchar \<Rightarrow> bool" where
  "is_digit c \<longleftrightarrow> 0x30 \<le> c \<and> c \<le> 0x39"

definition skip_digits :: "rchar list \<Rightarrow> nat \<Rightarrow> nat" where
  "skip_digits cs i = i + length (takeWhile is_digit (drop i cs))"

definition repetition_end :: "rchar list \<Rightarrow> nat \<Rightarrow> nat option" where
  "repetition_end cs open_at =
     (let i = open_at + 1; j = skip_digits cs i
      in if j = i then None
         else
           let j = (if char_at cs j = Some 0x2C then skip_digits cs (j + 1) else j)
           in if char_at cs j = Some 0x7D then Some (j + 1) else None)"

text \<open>Flag letters up to a colon or the end of the group; \<open>x\<close> must not be negated.\<close>

fun extended_flags :: "rchar list \<Rightarrow> bool \<Rightarrow> bool \<Rightarrow> bool" where
  "extended_flags [] negated extended = False"
| "extended_flags (c # cs) negated extended =
     (if c = 0x2D then extended_flags cs True extended
      else if c = 0x78 \<and> \<not> negated then extended_flags cs negated True
      else if c \<in> {0x69, 0x6D, 0x73, 0x75, 0x55, 0x52, 0x78} then extended_flags cs negated extended
      else if c = 0x3A \<or> c = 0x29 then extended
      else False)"

definition enables_extended_mode :: "rchar list \<Rightarrow> nat \<Rightarrow> bool" where
  "enables_extended_mode cs start = extended_flags (drop start cs) False False"

datatype group_kind = Lookaround | Atomic | Unsupported | Plain

definition group_kind_at :: "rchar list \<Rightarrow> nat \<Rightarrow> group_kind" where
  "group_kind_at cs open_at =
     (let third = char_at cs (open_at + 2); fourth = char_at cs (open_at + 3)
      in if char_at cs (open_at + 1) \<noteq> Some 0x3F then Plain
         else if third = Some 0x3D \<or> third = Some 0x21 then Lookaround
         else if third = Some 0x3C then (if fourth = Some 0x3D \<or> fourth = Some 0x21 then Lookaround else Plain)
         else if third = Some 0x3E then Atomic
         else if third = Some 0x28 then Unsupported
         else if third = Some 0x50 \<and> fourth = Some 0x3D then Unsupported
         else if third = Some 0x23 then Unsupported
         else if enables_extended_mode cs (open_at + 2) then Unsupported
         else Plain)"

lemma skip_class_loop_bounds: "skip_class_loop cs i depth = Some e \<Longrightarrow> i < e \<and> e \<le> length cs"
proof (induction cs i depth rule: skip_class_loop.induct)
  case (1 cs i depth)
  note step = "1.prems" [unfolded skip_class_loop.simps [of cs i depth]]
  have i: "i < length cs" using step by (cases "i < length cs") simp_all
  consider "cs ! i = 0x5C" | "cs ! i \<noteq> 0x5C" "cs ! i = 0x5B" | "cs ! i \<noteq> 0x5C" "cs ! i \<noteq> 0x5B" "cs ! i = 0x5D"
    | "cs ! i \<noteq> 0x5C" "cs ! i \<noteq> 0x5B" "cs ! i \<noteq> 0x5D" by blast
  then show ?case
  proof cases
    case 1
    with step i "1.IH"(1) show ?thesis by simp
  next
    case 2
    with step i "1.IH"(2) show ?thesis by simp
  next
    case 3
    with step i "1.IH"(3) show ?thesis by (cases "depth - 1 = 0") auto
  next
    case 4
    with step i "1.IH"(4) show ?thesis by simp
  qed
qed

lemma skip_class_bounds: "skip_class cs i = Some e \<Longrightarrow> i < e \<and> e \<le> length cs"
  by (auto simp: skip_class_def Let_def dest!: skip_class_loop_bounds split: if_splits)

text \<open>The end of a group; classes are skipped as a unit.\<close>

function skip_group_loop :: "rchar list \<Rightarrow> nat \<Rightarrow> nat \<Rightarrow> nat option" where
  "skip_group_loop cs i depth =
     (if i < length cs then
        if cs ! i = 0x5C then skip_group_loop cs (i + 2) depth
        else if cs ! i = 0x5B then
          (case skip_class cs i of None \<Rightarrow> None | Some e \<Rightarrow> skip_group_loop cs e depth)
        else if cs ! i = 0x28 then skip_group_loop cs (i + 1) (depth + 1)
        else if cs ! i = 0x29 then (if depth - 1 = 0 then Some (i + 1) else skip_group_loop cs (i + 1) (depth - 1))
        else skip_group_loop cs (i + 1) depth
      else None)"
  by pat_completeness auto
termination
  by (relation "measure (\<lambda>(cs, i, _). length cs - i)") (auto dest: skip_class_bounds)

declare skip_group_loop.simps [simp del]

definition skip_group :: "rchar list \<Rightarrow> nat \<Rightarrow> nat option" where
  "skip_group cs open_at = skip_group_loop cs open_at 0"

lemma skip_group_loop_bounds: "skip_group_loop cs i depth = Some e \<Longrightarrow> i < e \<and> e \<le> length cs"
proof (induction cs i depth rule: skip_group_loop.induct)
  case (1 cs i depth)
  note step = "1.prems" [unfolded skip_group_loop.simps [of cs i depth]]
  have i: "i < length cs" using step by (cases "i < length cs") simp_all
  consider "cs ! i = 0x5C" | "cs ! i \<noteq> 0x5C" "cs ! i = 0x5B"
    | "cs ! i \<noteq> 0x5C" "cs ! i \<noteq> 0x5B" "cs ! i = 0x28" | "cs ! i \<noteq> 0x5C" "cs ! i \<noteq> 0x5B" "cs ! i \<noteq> 0x28" "cs ! i = 0x29"
    | "cs ! i \<noteq> 0x5C" "cs ! i \<noteq> 0x5B" "cs ! i \<noteq> 0x28" "cs ! i \<noteq> 0x29" by blast
  then show ?case
  proof cases
    case 1
    with step i "1.IH"(1) show ?thesis by simp
  next
    case 2
    then obtain c where c: "skip_class cs i = Some c" "skip_group_loop cs c depth = Some e"
      using step i by (cases "skip_class cs i") simp_all
    have "c < e \<and> e \<le> length cs" by (rule "1.IH"(2) [OF i 2 c])
    then show ?thesis using skip_class_bounds [OF c(1)] by simp
  next
    case 3
    with step i "1.IH"(3) show ?thesis by simp
  next
    case 4
    with step i "1.IH"(4) show ?thesis by (cases "depth - 1 = 0") auto
  next
    case 5
    with step i "1.IH"(5) show ?thesis by simp
  qed
qed

lemma repetition_end_bounds: "repetition_end cs i = Some e \<Longrightarrow> i < e \<and> e \<le> length cs"
  by (auto simp: repetition_end_def Let_def char_at_def skip_digits_def split: if_splits)

definition unrelaxable_escape :: "rchar \<Rightarrow> bool" where
  "unrelaxable_escape c = (is_digit c \<or> c \<in> {0x6B, 0x67, 0x4B, 0x47})"

function relax_loop :: "rchar list \<Rightarrow> nat \<Rightarrow> bool \<Rightarrow> rchar list \<Rightarrow> rchar list option" where
  "relax_loop cs i after_quantifier out =
     (if i < length cs then
        let c = cs ! i
        in if c = 0x5C then
             (case char_at cs (i + 1) of
                None \<Rightarrow> None
              | Some n \<Rightarrow> if unrelaxable_escape n then None else relax_loop cs (i + 2) False (out @ [c, n]))
           else if c = 0x5B then
             (case skip_class cs i of None \<Rightarrow> None | Some e \<Rightarrow> relax_loop cs e False (out @ slice cs i e))
           else if c = 0x28 then
             (case group_kind_at cs i of
                Lookaround \<Rightarrow>
                  (case skip_group cs i of None \<Rightarrow> None | Some e \<Rightarrow> relax_loop cs e False (out @ [0x28, 0x3F, 0x3A, 0x29]))
              | Atomic \<Rightarrow> relax_loop cs (i + 3) False (out @ [0x28, 0x3F, 0x3A])
              | Unsupported \<Rightarrow> None
              | Plain \<Rightarrow> relax_loop cs (i + 1) False (out @ [c]))
           else if c = 0x7B then
             (case repetition_end cs i of
                Some e \<Rightarrow> relax_loop cs e True (out @ slice cs i e)
              | None \<Rightarrow> relax_loop cs (i + 1) False (out @ [c]))
           else if c = 0x2B \<and> after_quantifier then None
           else relax_loop cs (i + 1) (c \<in> {0x2A, 0x2B, 0x3F}) (out @ [c])
      else Some out)"
  by pat_completeness auto
termination
  by (relation "measure (\<lambda>(cs, i, _). length cs - i)")
    (auto simp: skip_group_def dest: skip_class_bounds skip_group_loop_bounds repetition_end_bounds)

declare relax_loop.simps [simp del]

definition relax_for_indexing :: "rchar list \<Rightarrow> rchar list option" where
  "relax_for_indexing cs = relax_loop cs 0 False []"

text \<open>A pattern that cannot be relaxed or parsed makes the whole plan a scan.\<close>

fun relaxed_plan_loop :: "(rchar list \<Rightarrow> bool \<Rightarrow> string + hir) \<Rightarrow> bool \<Rightarrow> rchar list list \<Rightarrow> query_plan list \<Rightarrow> query_plan" where
  "relaxed_plan_loop parse ci [] plans = combine_plans plans"
| "relaxed_plan_loop parse ci (pattern # patterns) plans =
     (case Option.bind (relax_for_indexing pattern)
             (\<lambda>relaxed. case build_query_plan parse relaxed ci of Inr plan \<Rightarrow> Some plan | Inl e \<Rightarrow> None) of
        Some plan \<Rightarrow> if is_match_all plan then MatchAll else relaxed_plan_loop parse ci patterns (plans @ [plan])
      | None \<Rightarrow> MatchAll)"

definition build_relaxed_multi_pattern_plan :: "(rchar list \<Rightarrow> bool \<Rightarrow> string + hir) \<Rightarrow> rchar list list \<Rightarrow> bool \<Rightarrow> query_plan" where
  "build_relaxed_multi_pattern_plan parse patterns ci = relaxed_plan_loop parse ci patterns []"

end
