(* ===== verification/Codec.thy ===== *)
theory Codec
  imports Prelude
begin

text \<open>
  The interface of an encoding of fixed width, as the tables of the index use it: a table is
  the encodings of its entries one after the other, and an entry is found by its number.
  The lemmas about tables are proved here from the laws alone; \<^verbatim>\<open>Ondisk\<close>
  provides the two encodings of the index, a posting entry and a lookup entry.
\<close>

locale fixed_codec =
  fixes width :: nat
    and enc :: "'a \<Rightarrow> byte list"
    and dec :: "byte list \<Rightarrow> 'a"
  assumes width_pos: "0 < width"
    and length_enc: "length (enc x) = width"
    and dec_enc: "dec (enc x) = x"
begin

lemma length_table: "length (concat (map enc xs)) = length xs * width"
  by (induction xs) (simp_all add: length_enc)

lemma drop_table: "drop (i * width) (concat (map enc xs)) = concat (map enc (drop i xs))"
proof (induction xs arbitrary: i)
  case (Cons x xs)
  then show ?case by (cases i) (simp_all add: length_enc)
qed simp

lemma take_table: "take (k * width) (concat (map enc xs)) = concat (map enc (take k xs))"
proof (induction xs arbitrary: k)
  case (Cons x xs)
  then show ?case by (cases k) (simp_all add: length_enc)
qed simp

lemma slice_table:
  "take (k * width) (drop (i * width) (concat (map enc xs))) =
     concat (map enc (take k (drop i xs)))"
  by (simp only: drop_table take_table)

lemma entry_of_table:
  assumes "i < length xs"
  shows "take width (drop (i * width) (concat (map enc xs))) = enc (xs ! i)"
proof -
  have "take 1 (drop i xs) = [xs ! i]" using assms by (simp add: take_Suc hd_drop_conv_nth)
  then show ?thesis using slice_table [of 1 i xs] by simp
qed

lemma dec_entry_of_table:
  "i < length xs \<Longrightarrow> dec (take width (drop (i * width) (concat (map enc xs)))) = xs ! i"
  by (simp only: entry_of_table dec_enc)

lemma chunks_table: "chunks width (concat (map enc xs)) = map enc xs"
proof (induction xs)
  case (Cons x xs)
  have "enc x \<noteq> []" using width_pos length_enc [of x] by auto
  with Cons show ?case
    using width_pos by (simp add: chunks.simps [of width "enc x @ concat (map enc xs)"] length_enc)
qed simp

lemma dec_table: "map dec (chunks width (concat (map enc xs))) = xs"
  by (simp add: chunks_table comp_def dec_enc)

lemma table_inject: "concat (map enc xs) = concat (map enc ys) \<longleftrightarrow> xs = ys"
  using dec_table by metis

end

end
