(* ===== verification/Ondisk.thy ===== *)
theory Ondisk
  imports Trigram Utf8 Codec
begin

text \<open>
  The binary layout of an index (\<^verbatim>\<open>tgrep-core/src/ondisk.rs\<close>) and the validation
  of stored paths (\<^verbatim>\<open>validate_index_path\<close> of \<^verbatim>\<open>rooted.rs\<close>).  A file is its
  list of bytes; a writer appends to it.  Failing writes of the operating system are not
  modelled, every check of the code on the data is.
\<close>

section \<open>Constants\<close>

definition LOOKUP_ENTRY_SIZE :: nat where "LOOKUP_ENTRY_SIZE = 16"
definition POSTING_ENTRY_SIZE :: nat where "POSTING_ENTRY_SIZE = 6"
definition POSTING_WRITE_CHUNK_ENTRIES :: nat where "POSTING_WRITE_CHUNK_ENTRIES = 8192"
definition LOOKUP_WRITE_CHUNK_ENTRIES :: nat where "LOOKUP_WRITE_CHUNK_ENTRIES = 4096"
definition INDEX_FORMAT_VERSION :: u32 where "INDEX_FORMAT_VERSION = 3"
definition MANAGED_FILE_TABLE_VERSION :: u32 where "MANAGED_FILE_TABLE_VERSION = 0x4d320001"

datatype index_layout = Legacy | ManagedLayout

definition layout_files :: "index_layout \<Rightarrow> string" where
  "layout_files l = (case l of Legacy \<Rightarrow> ''files.bin'' | ManagedLayout \<Rightarrow> ''paths.tgm'')"

definition layout_lookup :: "index_layout \<Rightarrow> string" where
  "layout_lookup l = (case l of Legacy \<Rightarrow> ''lookup.bin'' | ManagedLayout \<Rightarrow> ''lookup.tgm'')"

definition layout_postings :: "index_layout \<Rightarrow> string" where
  "layout_postings l = (case l of Legacy \<Rightarrow> ''index.bin'' | ManagedLayout \<Rightarrow> ''postings.tgm'')"

definition layout_meta :: "index_layout \<Rightarrow> string" where
  "layout_meta l = (case l of Legacy \<Rightarrow> ''meta.json'' | ManagedLayout \<Rightarrow> ''meta.tgm'')"

section \<open>The header of the file table\<close>

definition FILE_TABLE_MAGIC :: "byte list" where
  "FILE_TABLE_MAGIC = [0xFF, 0xFF, 0xFF, 0xFF, 0, 0, 0xFF, 0xFF, 0xFF, 0xFF, 0, 0]"

definition FILE_TABLE_HEADER_LEN :: nat where
  "FILE_TABLE_HEADER_LEN = length FILE_TABLE_MAGIC + 4"

definition layout_version :: "index_layout \<Rightarrow> u32" where
  "layout_version l =
     (case l of Legacy \<Rightarrow> INDEX_FORMAT_VERSION | ManagedLayout \<Rightarrow> MANAGED_FILE_TABLE_VERSION)"

definition write_file_table_header_for :: "byte list \<Rightarrow> index_layout \<Rightarrow> byte list" where
  "write_file_table_header_for writer layout =
     writer @ FILE_TABLE_MAGIC @ le_bytes 4 (layout_version layout)"

definition write_file_table_header :: "byte list \<Rightarrow> byte list" where
  "write_file_table_header writer = write_file_table_header_for writer Legacy"

definition file_table_body_for :: "byte list \<Rightarrow> index_layout \<Rightarrow> byte list result" where
  "file_table_body_for data layout =
     (if take (length FILE_TABLE_MAGIC) data \<noteq> FILE_TABLE_MAGIC then
        (if layout = Legacy then Inr data
         else Inl (IndexCorrupted ''managed file table header is missing''))
      else if length data < FILE_TABLE_HEADER_LEN then
        Inl (IndexCorrupted ''files.bin header is truncated'')
      else
        let version = (from_le (take 4 (drop (length FILE_TABLE_MAGIC) data)) :: u32)
        in if version \<noteq> layout_version layout
           then Inl (IndexCorrupted ''unsupported files.bin format version'')
           else Inr (drop FILE_TABLE_HEADER_LEN data))"

definition file_table_body :: "byte list \<Rightarrow> byte list result" where
  "file_table_body data = file_table_body_for data Legacy"

section \<open>Entries of fixed size\<close>

record lookup_entry =
  le_trigram :: u32
  le_offset :: u64
  le_length :: u32

text \<open>A posting entry is a file's masks for a trigram, with the file.\<close>

record posting_entry = trigram_masks +
  file_id :: u32

definition posting_encode :: "posting_entry \<Rightarrow> byte list" where
  "posting_encode e = le_bytes 4 (file_id e) @ [loc_mask e, next_mask e]"

definition posting_decode :: "byte list \<Rightarrow> posting_entry" where
  "posting_decode buf =
     \<lparr>loc_mask = buf ! 4, next_mask = buf ! 5, file_id = from_le (take 4 buf)\<rparr>"

definition lookup_encode :: "lookup_entry \<Rightarrow> byte list" where
  "lookup_encode e =
     le_bytes 4 (le_trigram e) @ le_bytes 8 (le_offset e) @ le_bytes 4 (le_length e)"

definition lookup_decode :: "byte list \<Rightarrow> lookup_entry" where
  "lookup_decode buf =
     \<lparr>le_trigram = from_le (take 4 buf), le_offset = from_le (take 8 (drop 4 buf)),
      le_length = from_le (take 4 (drop 12 buf))\<rparr>"

definition write_posting_entries :: "byte list \<Rightarrow> posting_entry list \<Rightarrow> byte list" where
  "write_posting_entries writer entries =
     fold (\<lambda>chunk writer.
         let scratch = fold (\<lambda>e s. s @ le_bytes 4 (file_id e) @ [loc_mask e] @ [next_mask e]) chunk []
         in writer @ scratch)
       (chunks POSTING_WRITE_CHUNK_ENTRIES entries) writer"

text \<open>The scratch buffer of the lookup table has a fixed capacity.\<close>

definition flush_lookup_entries :: "byte list \<times> byte list \<Rightarrow> byte list \<times> byte list" where
  "flush_lookup_entries ws =
     (case ws of (writer, scratch) \<Rightarrow>
        if scratch \<noteq> [] then (writer @ scratch, []) else (writer, scratch))"

definition write_lookup_entry ::
  "nat \<Rightarrow> lookup_entry \<Rightarrow> byte list \<times> byte list \<Rightarrow> byte list \<times> byte list"
where
  "write_lookup_entry capacity entry ws =
     (let (writer, scratch) = (if length (snd ws) = capacity then flush_lookup_entries ws else ws)
      in (writer, scratch @ le_bytes 4 (le_trigram entry) @ le_bytes 8 (le_offset entry)
            @ le_bytes 4 (le_length entry)))"

section \<open>Paths\<close>

fun split_on :: "byte \<Rightarrow> byte list \<Rightarrow> byte list list" where
  "split_on sep [] = [[]]"
| "split_on sep (b # bs) =
     (if b = sep then [] # split_on sep bs
      else case split_on sep bs of part # parts \<Rightarrow> (b # part) # parts | [] \<Rightarrow> [[b]])"

text \<open>
  \<^verbatim>\<open>Path::components\<close> on a Unix host: a leading separator is the root, empty parts
  and inner \<^verbatim>\<open>.\<close> parts are skipped.
\<close>

datatype component = RootDir | CurDir | ParentDir | Normal "byte list"

definition part_components :: "bool \<Rightarrow> byte list \<Rightarrow> component list" where
  "part_components first part =
     (if part = [] then []
      else if part = [0x2E] then (if first then [CurDir] else [])
      else if part = [0x2E, 0x2E] then [ParentDir]
      else [Normal part])"

definition path_components :: "path \<Rightarrow> component list" where
  "path_components path =
     (let parts = split_on 0x2F path
      in (if path \<noteq> [] \<and> hd path = 0x2F then [RootDir] else [])
         @ concat (map (\<lambda>(i, p). part_components (i = 0) p) (enumerate 0 parts)))"

definition is_normal :: "component \<Rightarrow> bool" where
  "is_normal c = (case c of Normal _ \<Rightarrow> True | _ \<Rightarrow> False)"

definition validate_index_path :: "path \<Rightarrow> unit result" where
  "validate_index_path path =
     (if list_ex (\<lambda>b. b = 0x5C \<or> b = 0) path
         \<or> list_ex (\<lambda>part. part = [] \<or> part = [0x2E] \<or> part = [0x2E, 0x2E]) (split_on 0x2F path)
         \<or> list_ex (\<lambda>c. \<not> is_normal c) (path_components path)
      then Inl (Io ''index path must be a normalized root-relative path'')
      else Inr ())"

section \<open>The records of the file table\<close>

definition MAX_PATH_LEN :: nat where "MAX_PATH_LEN = 65535"

definition validate_file_path_len :: "path \<Rightarrow> byte list result" where
  "validate_file_path_len path =
     (if length path > MAX_PATH_LEN then Inl (IndexCorrupted ''path too long for index'')
      else Inr path)"

definition encode_file_entry :: "u32 \<Rightarrow> path \<Rightarrow> byte list result" where
  "encode_file_entry fid path =
     rbind (validate_file_path_len path) (\<lambda>path_bytes.
       Inr (le_bytes 4 fid @ le_bytes 2 (of_nat (length path_bytes) :: u16) @ path_bytes))"

definition write_file_entry :: "byte list \<Rightarrow> u32 \<Rightarrow> path \<Rightarrow> byte list result" where
  "write_file_entry writer fid path =
     rbind (validate_file_path_len path) (\<lambda>path_bytes.
       Inr (writer @ le_bytes 4 fid @ le_bytes 2 (of_nat (length path_bytes) :: u16) @ path_bytes))"

text \<open>
  The decoder, over the bytes from the current position on.  The permit of a controlled
  call is an argument, a check that may stop the loop with an error of its own; as the bytes
  left shrink in every round, a function of them can answer differently in each.
\<close>

function decode_file_entries_controlled ::
  "(byte list \<Rightarrow> unit result) \<Rightarrow> byte list \<Rightarrow> (u32 \<times> path) list result"
where
  "decode_file_entries_controlled permit data =
     (if data = [] then Inr []
      else rbind (permit data) (\<lambda>_.
        if length data < 6 then Inl (IndexCorrupted ''files.bin truncated: short header'')
        else
          let fid = (from_le (take 4 data) :: u32);
              path_len = unat (from_le (take 2 (drop 4 data)) :: u16);
              rest = drop 6 data
          in if length rest < path_len
             then Inl (IndexCorrupted ''files.bin truncated: declared path_len'')
             else
               let path = take path_len rest
               in if \<not> valid_utf8 path then Inl (IndexCorrupted ''files.bin non-UTF-8 path'')
                  else rbind (case validate_index_path path of
                       Inl _ \<Rightarrow> Inl (IndexCorrupted ''files.bin invalid path'') | Inr u \<Rightarrow> Inr u)
                    (\<lambda>_. rbind (decode_file_entries_controlled permit (drop path_len rest))
                      (\<lambda>entries. Inr ((fid, path) # entries)))))"
  by pat_completeness auto
termination
  by (relation "measure (\<lambda>(permit, data). length data)") auto

declare decode_file_entries_controlled.simps [simp del]

definition decode_file_entries :: "byte list \<Rightarrow> (u32 \<times> path) list result" where
  "decode_file_entries data = decode_file_entries_controlled (\<lambda>_. Inr ()) data"


section \<open>The codecs of the tables\<close>

lemma posting_decode_encode [simp, codec_simps]: "posting_decode (posting_encode e) = e"
  by (simp add: posting_decode_def posting_encode_def nth_append)

lemma lookup_decode_encode [simp, codec_simps]: "lookup_decode (lookup_encode e) = e"
  by (simp add: lookup_decode_def lookup_encode_def)

interpretation posting: fixed_codec POSTING_ENTRY_SIZE posting_encode posting_decode
  by unfold_locales (simp_all add: POSTING_ENTRY_SIZE_def posting_encode_def posting_decode_def nth_append)

interpretation lookup: fixed_codec LOOKUP_ENTRY_SIZE lookup_encode lookup_decode
  by unfold_locales (simp_all add: LOOKUP_ENTRY_SIZE_def lookup_encode_def lookup_decode_def)

lemma posting_encode_decode:
  assumes "length buf = POSTING_ENTRY_SIZE"
  shows "posting_encode (posting_decode buf) = buf"
proof -
  have "le_bytes 4 (from_le (take 4 buf) :: u32) = take 4 buf"
    using assms by (intro le_bytes_from_le) (simp_all add: POSTING_ENTRY_SIZE_def)
  moreover have "drop 4 buf = [buf ! 4, buf ! 5]"
    using assms by (simp add: POSTING_ENTRY_SIZE_def list_eq_iff_nth_eq less_2_cases_iff all_conj_distrib imp_disjL)
  ultimately show ?thesis
    by (metis append_take_drop_id posting_decode_def posting_encode_def posting_entry.select_convs(1)
        trigram_masks.select_convs(1,2))
qed

section \<open>What the writers append\<close>

lemma write_posting_chunk:
  "fold (\<lambda>e s. s @ le_bytes 4 (file_id e) @ [loc_mask e] @ [next_mask e]) chunk scratch =
     scratch @ concat (map posting_encode chunk)"
  by (induction chunk arbitrary: scratch) (simp_all add: posting_encode_def)

lemma write_posting_entries_eq [codec_simps]:
  "write_posting_entries writer entries = writer @ concat (map posting_encode entries)"
proof -
  have *: "fold (\<lambda>chunk writer. writer @ concat (map posting_encode chunk)) css w =
      w @ concat (map posting_encode (concat css))" for css w
    by (induction css arbitrary: w) simp_all
  show ?thesis
    unfolding write_posting_entries_def Let_def write_posting_chunk append_Nil *
    by (simp add: POSTING_WRITE_CHUNK_ENTRIES_def)
qed

text \<open>The bytes of a buffered writer: what it has written and what it still holds.\<close>

definition buffered :: "byte list \<times> byte list \<Rightarrow> byte list" where
  "buffered ws = fst ws @ snd ws"

lemma buffered_write_lookup_entry [simp]:
  "buffered (write_lookup_entry capacity entry ws) = buffered ws @ lookup_encode entry"
  by (cases ws) (simp add: buffered_def write_lookup_entry_def flush_lookup_entries_def
      lookup_encode_def)

lemma buffered_flush [simp]: "buffered (flush_lookup_entries ws) = buffered ws"
  by (cases ws) (simp add: buffered_def flush_lookup_entries_def)

lemma flush_empties [simp]: "snd (flush_lookup_entries ws) = []"
  by (cases ws) (simp add: flush_lookup_entries_def)

lemma buffered_fold_write [simp]:
  "buffered (fold (write_lookup_entry capacity) entries ws) =
     buffered ws @ concat (map lookup_encode entries)"
  by (induction entries arbitrary: ws) simp_all

lemma flush_lookup_table:
  "fst (flush_lookup_entries (fold (write_lookup_entry capacity) entries ([], []))) =
     concat (map lookup_encode entries)"
proof -
  let ?ws = "flush_lookup_entries (fold (write_lookup_entry capacity) entries ([], []))"
  have "buffered ?ws = concat (map lookup_encode entries)" by (simp add: buffered_def [of "([], [])"])
  then show ?thesis by (simp add: buffered_def)
qed

text \<open>The scratch buffer never outgrows its capacity, so it is never reallocated.\<close>

lemma write_lookup_entry_capacity:
  assumes "16 \<le> capacity" "16 dvd capacity"
    and "length (snd ws) \<le> capacity" "16 dvd length (snd ws)"
  shows "length (snd (write_lookup_entry capacity entry ws)) \<le> capacity
       \<and> 16 dvd length (snd (write_lookup_entry capacity entry ws))"
proof (cases "length (snd ws) = capacity")
  case True
  then show ?thesis
    using assms(1) by (simp add: write_lookup_entry_def split_beta)
next
  case False
  obtain k where k: "capacity = 16 * k" using assms(2) by (elim dvdE)
  obtain j where j: "length (snd ws) = 16 * j" using assms(4) by (elim dvdE)
  have "j < k" using False assms(3) k j by simp
  then have "16 * j + 16 \<le> 16 * k" by simp
  with False show ?thesis using k j by (simp add: write_lookup_entry_def split_beta)
qed

section \<open>The header\<close>

lemma length_magic [simp]: "length FILE_TABLE_MAGIC = 12"
  by (simp add: FILE_TABLE_MAGIC_def)

lemma header_len [simp]: "FILE_TABLE_HEADER_LEN = 16"
  by (simp add: FILE_TABLE_HEADER_LEN_def)

lemma layout_version_inject [simp]: "layout_version a = layout_version b \<longleftrightarrow> a = b"
  by (cases a; cases b)
    (simp_all add: layout_version_def INDEX_FORMAT_VERSION_def MANAGED_FILE_TABLE_VERSION_def)

lemma file_table_body_for_written [codec_simps]:
  "file_table_body_for (write_file_table_header_for [] l' @ body) l =
     (if l = l' then Inr body else Inl (IndexCorrupted ''unsupported files.bin format version''))"
  by (auto simp: file_table_body_for_def write_file_table_header_for_def)

lemma file_table_body_for_short:
  assumes "take 12 data = FILE_TABLE_MAGIC" "length data < 16"
  shows "file_table_body_for data l = Inl (IndexCorrupted ''files.bin header is truncated'')"
  using assms by (simp add: file_table_body_for_def)

lemma file_table_body_for_no_magic:
  "take 12 data \<noteq> FILE_TABLE_MAGIC \<Longrightarrow>
     file_table_body_for data l =
       (if l = Legacy then Inr data
        else Inl (IndexCorrupted ''managed file table header is missing''))"
  by (simp add: file_table_body_for_def)

section \<open>The records of the file table, both ways\<close>

definition file_entry_bytes :: "u32 \<times> path \<Rightarrow> byte list" where
  "file_entry_bytes e =
     le_bytes 4 (fst e) @ le_bytes 2 (of_nat (length (snd e)) :: u16) @ snd e"

text \<open>The paths a table may hold.\<close>

definition stored_path :: "path \<Rightarrow> bool" where
  "stored_path p = (valid_utf8 p \<and> length p \<le> MAX_PATH_LEN \<and> validate_index_path p = Inr ())"

lemma encode_file_entry_eq:
  "encode_file_entry fid p =
     (if length p \<le> MAX_PATH_LEN then Inr (file_entry_bytes (fid, p))
      else Inl (IndexCorrupted ''path too long for index''))"
  by (simp add: encode_file_entry_def validate_file_path_len_def file_entry_bytes_def)

lemma write_file_entry_encode:
  "write_file_entry writer fid p = rbind (encode_file_entry fid p) (\<lambda>bs. Inr (writer @ bs))"
  by (simp add: write_file_entry_def encode_file_entry_def validate_file_path_len_def)

lemma length_file_entry_bytes [simp]:
  "length (file_entry_bytes e) = 6 + length (snd e)"
  by (simp add: file_entry_bytes_def)

lemma u16_of_length: "n \<le> MAX_PATH_LEN \<Longrightarrow> unat (of_nat n :: u16) = n"
  by (simp add: unat_of_nat MAX_PATH_LEN_def)

lemma decode_one [codec_simps]:
  assumes "stored_path p"
  shows "decode_file_entries (file_entry_bytes (fid, p) @ rest) =
           rbind (decode_file_entries rest) (\<lambda>entries. Inr ((fid, p) # entries))"
proof -
  let ?data = "file_entry_bytes (fid, p) @ rest"
  have len: "length p \<le> MAX_PATH_LEN" and ok: "valid_utf8 p" "validate_index_path p = Inr ()"
    using assms by (simp_all add: stored_path_def)
  have parts: "take 4 ?data = le_bytes 4 fid" "take 2 (drop 4 ?data) = le_bytes 2 (of_nat (length p) :: u16)"
    "drop 6 ?data = p @ rest"
    by (simp_all add: file_entry_bytes_def)
  have "6 \<le> length ?data" by simp
  then have ne: "?data \<noteq> []" "\<not> length ?data < 6" by (auto simp del: length_append)
  show ?thesis
    unfolding decode_file_entries_def
    by (simp only: decode_file_entries_controlled.simps [of "\<lambda>_. Inr ()" ?data] ne parts Let_def
        if_False rbind_Inr) (simp add: u16_of_length [OF len] ok)
qed

lemma decode_encoded [codec_simps]:
  "\<forall>e\<in>set es. stored_path (snd e) \<Longrightarrow>
     decode_file_entries (concat (map file_entry_bytes es)) = Inr es"
proof (induction es)
  case Nil
  then show ?case
    by (simp add: decode_file_entries_def decode_file_entries_controlled.simps)
next
  case (Cons e es)
  then show ?case by (cases e) (simp add: decode_one)
qed

lemma decode_controlled_Inr:
  "decode_file_entries_controlled permit data = Inr es \<Longrightarrow>
     data = concat (map file_entry_bytes es) \<and> (\<forall>e\<in>set es. stored_path (snd e))"
proof (induction permit data arbitrary: es rule: decode_file_entries_controlled.induct)
  case (1 permit data)
  show ?case
  proof (cases "data = []")
    case True
    with "1.prems" show ?thesis by (simp add: decode_file_entries_controlled.simps)
  next
    case False
    define fid where "fid = (from_le (take 4 data) :: u32)"
    define n where "n = unat (from_le (take 2 (drop 4 data)) :: u16)"
    define p where "p = take n (drop 6 data)"
    from "1.prems" False obtain es' where len: "6 \<le> length data"
      and n: "n \<le> length (drop 6 data)" and ok: "valid_utf8 p" "validate_index_path p = Inr ()"
      and rest: "decode_file_entries_controlled permit (drop n (drop 6 data)) = Inr es'"
      and es: "es = (fid, p) # es'" and permit: "permit data = Inr ()"
      by (auto simp: decode_file_entries_controlled.simps [of permit data] Let_def n_def [symmetric]
          p_def [symmetric] fid_def [symmetric] split: if_splits sum.splits)
    have IH: "drop n (drop 6 data) = concat (map file_entry_bytes es') \<and>
      (\<forall>e\<in>set es'. stored_path (snd e))"
      using "1.IH" [of "()" fid n "drop 6 data" p "()" es'] False permit len n ok rest
      by (simp add: fid_def n_def p_def)
    have lp: "length p = n" using n by (simp add: p_def)
    have "n < 2 ^ 16" unfolding n_def by (rule order.strict_trans2 [OF unsigned_less]) simp
    then have "stored_path p" using ok by (simp add: stored_path_def MAX_PATH_LEN_def lp)
    moreover have "data = file_entry_bytes (fid, p) @ drop n (drop 6 data)"
    proof -
      have a: "le_bytes 4 fid = take 4 data"
        unfolding fid_def using len by (intro le_bytes_from_le) simp_all
      have b: "le_bytes 2 (of_nat (length p) :: u16) = take 2 (drop 4 data)"
        unfolding lp n_def using len by (simp add: le_bytes_from_le)
      have d6: "drop 6 data = drop 2 (drop 4 data)" by simp
      have "data = take 4 data @ take 2 (drop 4 data) @ drop 6 data"
        by (metis append_take_drop_id d6)
      then have "data = take 4 data @ take 2 (drop 4 data) @ p @ drop n (drop 6 data)"
        by (simp only: p_def append_take_drop_id)
      then show ?thesis unfolding file_entry_bytes_def fst_conv snd_conv a b append_assoc .
    qed
    ultimately show ?thesis using IH es by simp
  qed
qed

section \<open>Which paths an index accepts\<close>

lemma split_on_not_Nil [simp]: "split_on sep bs \<noteq> []"
  by (cases bs) (auto split: list.splits)

lemma part_components_normal:
  "part \<noteq> [] \<Longrightarrow> part \<noteq> [0x2E] \<Longrightarrow> part \<noteq> [0x2E, 0x2E] \<Longrightarrow>
     part_components first part = [Normal part]"
  by (simp add: part_components_def)

lemma validate_index_path_iff:
  "validate_index_path p = Inr () \<longleftrightarrow>
     0x5C \<notin> set p \<and> 0 \<notin> set p \<and>
     (\<forall>part\<in>set (split_on 0x2F p). part \<noteq> [] \<and> part \<noteq> [0x2E] \<and> part \<noteq> [0x2E, 0x2E])"
  (is "_ \<longleftrightarrow> ?bytes \<and> ?bytes' \<and> ?parts")
proof -
  have "\<forall>c\<in>set (path_components p). is_normal c" if ?parts
  proof -
    have root: "\<not> (p \<noteq> [] \<and> hd p = 0x2F)"
    proof
      assume "p \<noteq> [] \<and> hd p = 0x2F"
      then have "[] \<in> set (split_on 0x2F p)" by (cases p) auto
      with that show False by auto
    qed
    have "is_normal c"
      if "(i, q) \<in> set (enumerate 0 (split_on 0x2F p))" "c \<in> set (part_components (i = 0) q)"
      for i q c
    proof -
      have "q \<in> set (split_on 0x2F p)" using that(1) by (auto simp: in_set_enumerate_eq)
      with \<open>?parts\<close> that(2) show ?thesis by (simp add: part_components_normal is_normal_def)
    qed
    then show ?thesis using root by (auto simp: path_components_def simp del: enumerate_Suc_eq)
  qed
  then show ?thesis
    unfolding validate_index_path_def by (auto simp: list_ex_iff)
qed

lemma concat_split_on:
  "p = hd (split_on sep p) @ concat (map (\<lambda>q. sep # q) (tl (split_on sep p)))"
proof (induction p)
  case (Cons b bs)
  then show ?case by (cases "split_on sep bs") auto
qed simp

section \<open>Properties\<close>

text \<open>C34. The decoder of the file table accepts exactly the bytes the encoder produces of files
  with valid paths: it returns a list of files if and only if every path is valid UTF-8, at
  most 65535 bytes long and a normalised relative path, and the bytes are the encodings one
  after the other.  So every truncated, padded or otherwise malformed table is an error.\<close>

theorem file_table_decodes_exactly:
  "decode_file_entries data = Inr es \<longleftrightarrow>
     (\<forall>e\<in>set es. stored_path (snd e)) \<and>
     data = concat (map (\<lambda>e. case encode_file_entry (fst e) (snd e) of Inr bs \<Rightarrow> bs) es)"
proof -
  have enc: "concat (map (\<lambda>e. case encode_file_entry (fst e) (snd e) of Inr bs \<Rightarrow> bs) es) =
      concat (map file_entry_bytes es)" if "\<forall>e\<in>set es. stored_path (snd e)"
    using that by (induction es) (simp_all add: encode_file_entry_eq stored_path_def)
  show ?thesis
  proof
    assume "decode_file_entries data = Inr es"
    then have "data = concat (map file_entry_bytes es) \<and> (\<forall>e\<in>set es. stored_path (snd e))"
      unfolding decode_file_entries_def by (rule decode_controlled_Inr)
    with enc show "(\<forall>e\<in>set es. stored_path (snd e)) \<and>
      data = concat (map (\<lambda>e. case encode_file_entry (fst e) (snd e) of Inr bs \<Rightarrow> bs) es)"
      by simp
  qed (use enc decode_encoded in auto)
qed

theorem file_table_decodes_exactly_witness:
  "decode_file_entries [7, 0, 0, 0, 3, 0, 0x61, 0x2F, 0x62] = Inr [(7, [0x61, 0x2F, 0x62])]"
proof -
  have "stored_path [0x61, 0x2F, 0x62]"
    by (simp add: stored_path_def MAX_PATH_LEN_def validate_index_path_iff)
  moreover have "encode_file_entry 7 [0x61, 0x2F, 0x62] = Inr [7, 0, 0, 0, 3, 0, 0x61, 0x2F, 0x62]"
    by (simp add: encode_file_entry_eq file_entry_bytes_def MAX_PATH_LEN_def le_bytes_def upt_rec)
  ultimately show ?thesis by (simp add: file_table_decodes_exactly)
qed

text \<open>A path passes the validation exactly if it has no backslash and no zero byte and
  none of its parts between slashes is empty, a dot or a double dot; so a stored path cannot
  be absolute and cannot leave the root.\<close>

theorem validate_index_path_exact:
  "(validate_index_path p = Inr () \<longleftrightarrow>
      0x5C \<notin> set p \<and> 0 \<notin> set p \<and>
      (\<forall>part\<in>set (split_on 0x2F p). part \<noteq> [] \<and> part \<noteq> [0x2E] \<and> part \<noteq> [0x2E, 0x2E])) \<and>
   (p = [] \<or> hd p = 0x2F \<longrightarrow> validate_index_path p \<noteq> Inr ())"
proof
  show iff: "validate_index_path p = Inr () \<longleftrightarrow>
      0x5C \<notin> set p \<and> 0 \<notin> set p \<and>
      (\<forall>part\<in>set (split_on 0x2F p). part \<noteq> [] \<and> part \<noteq> [0x2E] \<and> part \<noteq> [0x2E, 0x2E])"
    by (rule validate_index_path_iff)
  have "[] \<in> set (split_on 0x2F p)" if "p = [] \<or> hd p = 0x2F"
    using that by (cases p) auto
  then show "p = [] \<or> hd p = 0x2F \<longrightarrow> validate_index_path p \<noteq> Inr ()"
    using iff by blast
qed

theorem validate_index_path_exact_witness:
  "validate_index_path [0x2F, 0x61] \<noteq> Inr () \<and> validate_index_path [0x61, 0x2F, 0x62] = Inr ()"
  using validate_index_path_exact [of "[0x2F, 0x61]"] validate_index_path_exact [of "[0x61, 0x2F, 0x62]"]
  by simp

text \<open>The header written for a layout is accepted by a reader of that layout and rejected
  by a reader of the other; a table without the magic is a legacy table and is never accepted
  as a managed one.\<close>

theorem file_table_header_round_trip:
  "file_table_body_for (write_file_table_header_for [] l' @ body) l =
     (if l = l' then Inr body else Inl (IndexCorrupted ''unsupported files.bin format version'')) \<and>
   (take 12 data \<noteq> FILE_TABLE_MAGIC \<longrightarrow>
      file_table_body_for data Legacy = Inr data \<and>
      file_table_body_for data ManagedLayout =
        Inl (IndexCorrupted ''managed file table header is missing''))"
  by (simp add: file_table_body_for_written file_table_body_for_no_magic)

theorem file_table_header_round_trip_witness:
  "file_table_body_for (write_file_table_header_for [] Legacy @ [7]) Legacy = Inr [7] \<and>
   file_table_body_for [1, 2, 3] Legacy = Inr [1, 2, 3]"
  using file_table_header_round_trip [of Legacy "[7]" Legacy "[1, 2, 3]"]
  by (simp add: FILE_TABLE_MAGIC_def)

text \<open>The bounded buffers of the writers do not show in the files: posting lists written in
  chunks, and lookup entries through a scratch buffer of any capacity followed by a flush, are
  the encodings one after the other, and entry i of either table decodes to what was written.\<close>

theorem buffered_tables_round_trip:
  "fst (flush_lookup_entries (fold (write_lookup_entry capacity) les ([], []))) =
     concat (map lookup_encode les) \<and>
   write_posting_entries writer pes = writer @ concat (map posting_encode pes) \<and>
   map lookup_decode (chunks LOOKUP_ENTRY_SIZE
      (fst (flush_lookup_entries (fold (write_lookup_entry capacity) les ([], []))))) = les \<and>
   map posting_decode (chunks POSTING_ENTRY_SIZE (write_posting_entries [] pes)) = pes"
  by (simp add: flush_lookup_table write_posting_entries_eq lookup.dec_table posting.dec_table)

text \<open>A posting entry is any six bytes: decoding and encoding are inverse.\<close>

theorem posting_codec_bijective:
  assumes "length buf = POSTING_ENTRY_SIZE"
  shows "posting_encode (posting_decode buf) = buf \<and> posting_decode (posting_encode e) = e"
  using posting_encode_decode [OF assms] by simp

theorem posting_codec_bijective_witness:
  "posting_encode (posting_decode [1, 2, 3, 4, 5, 6]) = [1, 2, 3, 4, 5, 6]"
  using posting_codec_bijective [of "[1, 2, 3, 4, 5, 6]"] by (simp add: POSTING_ENTRY_SIZE_def)

end
