(* ===== verification/Plan_Exec.thy ===== *)
theory Plan_Exec
  imports Query_Plan Ondisk
begin

text \<open>
  The execution of a query plan against posting lists (\<^verbatim>\<open>execute_plan\<close>,
  \<^verbatim>\<open>execute_plan_with_masks\<close> and the list routines below them, at the end of
  \<^verbatim>\<open>tgrep-core/src/query.rs\<close>).  The posting lists are an argument, as in the code;
  the laws a provider keeps are the locales \<open>posting_source\<close> and
  \<open>exact_posting_source\<close>.
\<close>

section \<open>Sorted lists of identifiers\<close>

fun intersect_sorted :: "u32 list \<Rightarrow> u32 list \<Rightarrow> u32 list" where
  "intersect_sorted (a # as) (b # bs) =
     (if a = b then a # intersect_sorted as bs
      else if a < b then intersect_sorted as (b # bs)
      else intersect_sorted (a # as) bs)"
| "intersect_sorted _ _ = []"

fun union_sorted :: "u32 list \<Rightarrow> u32 list \<Rightarrow> u32 list" where
  "union_sorted (a # as) (b # bs) =
     (if a = b then a # union_sorted as bs
      else if a < b then a # union_sorted as (b # bs)
      else b # union_sorted (a # as) bs)"
| "union_sorted as [] = as"
| "union_sorted [] bs = bs"

fun union_pairs :: "u32 list list \<Rightarrow> u32 list list" where
  "union_pairs (left # right # rest) = union_sorted left right # union_pairs rest"
| "union_pairs [left] = [left]"
| "union_pairs [] = []"

lemma length_union_pairs [simp]: "length (union_pairs ls) = (length ls + 1) div 2"
  by (induction ls rule: union_pairs.induct) auto

function union_many_sorted_balanced :: "u32 list list \<Rightarrow> u32 list" where
  "union_many_sorted_balanced ls =
     (if length ls > 1 then union_many_sorted_balanced (union_pairs ls)
      else case ls of [] \<Rightarrow> [] | l # _ \<Rightarrow> l)"
  by pat_completeness auto
termination
  by (relation "measure length") auto

declare union_many_sorted_balanced.simps [simp del]

fun union_many_loop :: "u32 list \<Rightarrow> u32 list list \<Rightarrow> u32 list" where
  "union_many_loop result [] = result"
| "union_many_loop result (list # iter) =
     (let previous_len = length result;
          list_len = length list;
          result = union_sorted result list;
          added = length result - previous_len
      in if added > list_len div 2 then union_many_sorted_balanced (result # iter)
         else union_many_loop result iter)"

definition union_many_sorted :: "u32 list list \<Rightarrow> u32 list" where
  "union_many_sorted ls =
     (case filter (\<lambda>list. list \<noteq> []) ls of
        [] \<Rightarrow> []
      | result # iter \<Rightarrow> union_many_loop result iter)"

section \<open>Execution on identifiers alone\<close>

fun and_loop :: "u32 list \<Rightarrow> u32 list list \<Rightarrow> u32 list" where
  "and_loop result [] = result"
| "and_loop result (list # ls) =
     (let result = intersect_sorted result (dedup_key id (sort list))
      in if result = [] then result else and_loop result ls)"

fun execute_plan :: "query_plan \<Rightarrow> (u32 \<Rightarrow> u32 list) \<Rightarrow> u32 list" where
  "execute_plan (And queries) lookup =
     (if queries = [] then []
      else let ls = sort_key length (map (\<lambda>q. lookup (q_hash q)) queries)
           in and_loop (dedup_key id (sort (hd ls))) (tl ls))"
| "execute_plan (Or plans) lookup =
     union_many_sorted (map (\<lambda>sub. execute_plan sub lookup) plans)"
| "execute_plan MatchAll lookup = []"

section \<open>Execution with the masks\<close>

definition sort_dedup_postings_by_file_id :: "posting_entry list \<Rightarrow> posting_entry list" where
  "sort_dedup_postings_by_file_id entries =
     (if list_all (\<lambda>i. file_id (entries ! i) < file_id (entries ! Suc i)) [0..<length entries - 1]
      then entries
      else dedup_key file_id (sort_key file_id entries))"

definition query_passes :: "trigram_query \<Rightarrow> byte \<Rightarrow> bool" where
  "query_passes query nm =
     (case expected_next query of Some nb \<Rightarrow> nm AND bloom_hash nb \<noteq> 0 | None \<Rightarrow> True)"

fun intersect_masks ::
  "trigram_query \<Rightarrow> (u32 \<times> byte \<times> byte) list \<Rightarrow> posting_entry list \<Rightarrow> (u32 \<times> byte \<times> byte) list"
where
  "intersect_masks query ((fid, lm, nm) # candidates) (e # list) =
     (if fid = file_id e then
        (if query_passes query (next_mask e)
         then (fid, loc_mask e, next_mask e) # intersect_masks query candidates list
         else intersect_masks query candidates list)
      else if fid < file_id e then intersect_masks query candidates (e # list)
      else intersect_masks query ((fid, lm, nm) # candidates) list)"
| "intersect_masks query _ _ = []"

fun and_mask_loop ::
  "(u32 \<times> byte \<times> byte) list \<Rightarrow> (trigram_query \<times> posting_entry list) list \<Rightarrow> (u32 \<times> byte \<times> byte) list"
where
  "and_mask_loop candidates [] = candidates"
| "and_mask_loop candidates ((query, list) # ls) =
     (let candidates = intersect_masks query candidates (sort_dedup_postings_by_file_id list)
      in if candidates = [] then candidates else and_mask_loop candidates ls)"

fun execute_plan_with_masks :: "query_plan \<Rightarrow> (u32 \<Rightarrow> posting_entry list) \<Rightarrow> u32 list" where
  "execute_plan_with_masks (And queries) lookup =
     (if queries = [] then []
      else
        let ls = sort_key (\<lambda>(_, l). length l) (map (\<lambda>q. (q, lookup (q_hash q))) queries);
            (first_query, first_list) = hd ls;
            candidates = map (\<lambda>e. (file_id e, loc_mask e, next_mask e))
              (sort_dedup_postings_by_file_id first_list);
            candidates =
              (case expected_next first_query of
                 Some next_byte \<Rightarrow> filter (\<lambda>(_, _, nm). nm AND bloom_hash next_byte \<noteq> 0) candidates
               | None \<Rightarrow> candidates)
        in map fst (and_mask_loop candidates (tl ls)))"
| "execute_plan_with_masks (Or plans) lookup =
     union_many_sorted (map (\<lambda>sub. execute_plan_with_masks sub lookup) plans)"
| "execute_plan_with_masks MatchAll lookup = []"

section \<open>The list routines\<close>

lemma set_intersect_sorted [simp]:
  "ascending as \<Longrightarrow> ascending bs \<Longrightarrow> set (intersect_sorted as bs) = set as \<inter> set bs"
  by (induction as bs rule: intersect_sorted.induct) auto

lemma set_intersect_subset: "set (intersect_sorted as bs) \<subseteq> set as"
  by (induction as bs rule: intersect_sorted.induct) auto

lemma ascending_intersect_sorted [simp, sorted_ids]:
  "ascending as \<Longrightarrow> ascending (intersect_sorted as bs)"
  by (induction as bs rule: intersect_sorted.induct) (auto dest: subsetD [OF set_intersect_subset])

lemma set_union_sorted [simp]: "set (union_sorted as bs) = set as \<union> set bs"
  by (induction as bs rule: union_sorted.induct) auto

lemma ascending_union_sorted [simp, sorted_ids]:
  "ascending as \<Longrightarrow> ascending bs \<Longrightarrow> ascending (union_sorted as bs)"
  by (induction as bs rule: union_sorted.induct) (auto intro: order.strict_trans)

text \<open>The subtraction that measures what a list added does not wrap.\<close>

lemma length_union_sorted: "length as \<le> length (union_sorted as bs)"
  by (induction as bs rule: union_sorted.induct) auto

lemma set_union_pairs [simp]: "(\<Union>l\<in>set (union_pairs ls). set l) = (\<Union>l\<in>set ls. set l)"
  by (induction ls rule: union_pairs.induct) auto

lemma ascending_union_pairs:
  "\<forall>l\<in>set ls. ascending l \<Longrightarrow> l \<in> set (union_pairs ls) \<Longrightarrow> ascending l"
  by (induction ls rule: union_pairs.induct) auto

lemma union_balanced_short:
  "union_many_sorted_balanced [] = []" "union_many_sorted_balanced [l] = l"
  by (simp_all add: union_many_sorted_balanced.simps)

lemma union_balanced:
  "set (union_many_sorted_balanced ls) = (\<Union>l\<in>set ls. set l)"
  "\<forall>l\<in>set ls. ascending l \<Longrightarrow> ascending (union_many_sorted_balanced ls)"
proof (induction ls rule: union_many_sorted_balanced.induct)
  case (1 ls)
  case 1
  show ?case
  proof (cases "length ls > 1")
    case True
    then show ?thesis
      using "1.IH"(1) by (simp add: union_many_sorted_balanced.simps [of ls])
  next
    case False
    then show ?thesis by (cases ls) (simp_all add: union_balanced_short)
  qed
next
  case (1 ls)
  case 2
  show ?case
  proof (cases "length ls > 1")
    case True
    have "\<forall>l\<in>set (union_pairs ls). ascending l" using 2 ascending_union_pairs by blast
    with True show ?thesis
      using "1.IH"(2) by (simp add: union_many_sorted_balanced.simps [of ls])
  next
    case False
    then show ?thesis using 2 by (cases ls) (simp_all add: union_balanced_short)
  qed
qed

lemma union_many_loop:
  "set (union_many_loop result ls) = set result \<union> (\<Union>l\<in>set ls. set l)"
  "ascending result \<Longrightarrow> \<forall>l\<in>set ls. ascending l \<Longrightarrow> ascending (union_many_loop result ls)"
  by (induction result ls rule: union_many_loop.induct)
    (auto simp: Let_def union_balanced Un_assoc)

lemma set_union_many_sorted [simp]: "set (union_many_sorted ls) = (\<Union>l\<in>set ls. set l)"
proof -
  have "(\<Union>l\<in>set ls. set l) = (\<Union>l\<in>set (filter (\<lambda>l. l \<noteq> []) ls). set l)" by auto
  then show ?thesis
    by (cases "filter (\<lambda>l. l \<noteq> []) ls") (simp_all add: union_many_sorted_def union_many_loop(1))
qed

lemma ascending_union_many_sorted [simp, sorted_ids]:
  assumes "\<forall>l\<in>set ls. ascending l"
  shows "ascending (union_many_sorted ls)"
proof (cases "filter (\<lambda>l. l \<noteq> []) ls")
  case Nil
  then show ?thesis by (simp add: union_many_sorted_def)
next
  case (Cons l rest)
  then have "set (l # rest) \<subseteq> set ls" by (metis filter_is_subset)
  then have "ascending l" "\<forall>l\<in>set rest. ascending l" using assms by auto
  then show ?thesis using union_many_loop(2) by (simp add: union_many_sorted_def Cons)
qed

section \<open>Which identifiers execution returns\<close>

lemma ascending_and_loop: "ascending result \<Longrightarrow> ascending (and_loop result ls)"
  by (induction result ls rule: and_loop.induct) (simp_all add: Let_def)

lemma set_and_loop:
  "ascending result \<Longrightarrow> set (and_loop result ls) = set result \<inter> (\<Inter>l\<in>set ls. set l)"
proof (induction result ls rule: and_loop.induct)
  case (2 result l ls)
  have asc: "ascending (dedup_key id (sort l))"
    using ascending_dedup_key [of id "sort l"] by simp
  have keys: "set (dedup_key id (sort l)) = set l"
    using keys_dedup_key [of id "sort l"] by simp
  let ?r = "intersect_sorted result (dedup_key id (sort l))"
  have set_r: "set ?r = set result \<inter> set l" using "2.prems" asc keys by simp
  show ?case
  proof (cases "?r = []")
    case True
    then show ?thesis using set_r by (auto simp: Let_def)
  next
    case False
    have "set (and_loop ?r ls) = set ?r \<inter> (\<Inter>l\<in>set ls. set l)"
      by (rule "2.IH") (use False "2.prems" in simp_all)
    with False set_r show ?thesis by (auto simp: Let_def)
  qed
qed simp

fun plan_ids :: "(u32 \<Rightarrow> u32 list) \<Rightarrow> query_plan \<Rightarrow> u32 set" where
  "plan_ids lookup (And queries) =
     (if queries = [] then {} else \<Inter>q\<in>set queries. set (lookup (q_hash q)))"
| "plan_ids lookup (Or plans) = (\<Union>p\<in>set plans. plan_ids lookup p)"
| "plan_ids lookup MatchAll = {}"

lemma sort_key_Cons:
  assumes "xs \<noteq> []"
  obtains y ys where "sort_key f xs = y # ys" "set xs = insert y (set ys)"
proof (cases "sort_key f xs")
  case Nil
  then have "set xs = {}" by (metis set_empty set_sort)
  with assms show ?thesis by simp
next
  case (Cons y ys)
  then have "set xs = insert y (set ys)" by (metis list.simps(15) set_sort)
  with Cons show ?thesis by (rule that)
qed

lemma execute_plan_ids:
  "set (execute_plan p lookup) = plan_ids lookup p \<and> ascending (execute_plan p lookup)"
proof (induction p lookup rule: execute_plan.induct)
  case (1 queries lookup)
  show ?case
  proof (cases "queries = []")
    case False
    let ?ls = "map (\<lambda>q. lookup (q_hash q)) queries"
    obtain l ls where sorted: "sort_key length ?ls = l # ls" and sets: "set ?ls = insert l (set ls)"
      using sort_key_Cons [of ?ls length] False by auto
    have asc: "ascending (dedup_key id (sort l))"
      using ascending_dedup_key [of id "sort l"] by simp
    have keys: "set (dedup_key id (sort l)) = set l"
      using keys_dedup_key [of id "sort l"] by simp
    have "execute_plan (And queries) lookup = and_loop (dedup_key id (sort l)) ls"
      using False sorted by simp
    moreover have "set l \<inter> (\<Inter>l\<in>set ls. set l) = (\<Inter>q\<in>set queries. set (lookup (q_hash q)))"
    proof -
      have "(\<Inter>l\<in>insert l (set ls). set l) = (\<Inter>q\<in>set queries. set (lookup (q_hash q)))"
        unfolding sets [symmetric] by auto
      then show ?thesis by simp
    qed
    ultimately show ?thesis
      using False set_and_loop [OF asc, of ls] ascending_and_loop [OF asc] keys by simp
  qed simp
next
  case (2 plans lookup)
  then show ?case by simp
qed simp

text \<open>The entry of a file in a posting list: the first one, where a list holds several.\<close>

definition entry_for :: "u32 \<Rightarrow> posting_entry list \<Rightarrow> posting_entry option" where
  "entry_for fid entries = find (\<lambda>e. file_id e = fid) entries"

lemma adjacent_ascending:
  "list_all (\<lambda>i. file_id (es ! i) < file_id (es ! Suc i)) [0..<length es - 1] \<longleftrightarrow>
     ascending (map file_id es)"
  by (auto simp: list_all_iff sorted_wrt_iff_nth_Suc_transp)

lemma ascending_sort_dedup [simp, sorted_ids]:
  "ascending (map file_id (sort_dedup_postings_by_file_id es))"
  unfolding sort_dedup_postings_by_file_id_def adjacent_ascending by simp

lemma entry_for_sort_dedup [simp]:
  "entry_for fid (sort_dedup_postings_by_file_id es) = entry_for fid es"
  by (simp add: sort_dedup_postings_by_file_id_def entry_for_def find_sort_key find_dedup_key)

lemma entry_for_ascending:
  assumes "ascending (map file_id es)"
  shows "entry_for fid es = Some e \<longleftrightarrow> e \<in> set es \<and> file_id e = fid"
  using assms
proof (induction es)
  case (Cons a es)
  then show ?case by (auto simp: entry_for_def)
qed (simp add: entry_for_def)

lemma entry_in_sorted:
  "(\<exists>e\<in>set (sort_dedup_postings_by_file_id l). file_id e = fid \<and> P e) \<longleftrightarrow>
     (\<exists>e. entry_for fid l = Some e \<and> P e)"
  using entry_for_ascending [OF ascending_sort_dedup, of fid l] by auto

lemma set_intersect_masks:
  assumes "ascending (map fst cs)" "ascending (map file_id es)"
  shows "fst ` set (intersect_masks q cs es) =
           {fid \<in> fst ` set cs. \<exists>e\<in>set es. file_id e = fid \<and> query_passes q (next_mask e)}"
  using assms by (induction q cs es rule: intersect_masks.induct) (auto split: if_splits)

lemma fst_intersect_masks: "c \<in> set (intersect_masks q cs es) \<Longrightarrow> fst c \<in> fst ` set cs"
  by (induction q cs es rule: intersect_masks.induct) (auto split: if_splits)

lemma ascending_intersect_masks [simp, sorted_ids]:
  "ascending (map fst cs) \<Longrightarrow> ascending (map fst (intersect_masks q cs es))"
  by (induction q cs es rule: intersect_masks.induct)
    (auto dest!: fst_intersect_masks)

lemma and_mask_loop_ids:
  assumes "ascending (map fst cs)"
  shows "ascending (map fst (and_mask_loop cs qls)) \<and>
    fst ` set (and_mask_loop cs qls) =
      {fid \<in> fst ` set cs. \<forall>(q, l)\<in>set qls.
         \<exists>e. entry_for fid l = Some e \<and> query_passes q (next_mask e)}"
  using assms
proof (induction cs qls rule: and_mask_loop.induct)
  case (2 cs q l qls)
  let ?c = "intersect_masks q cs (sort_dedup_postings_by_file_id l)"
  have "fst ` set ?c =
      {fid \<in> fst ` set cs. \<exists>e\<in>set (sort_dedup_postings_by_file_id l).
         file_id e = fid \<and> query_passes q (next_mask e)}"
    by (rule set_intersect_masks) (simp_all add: "2.prems")
  then have ids: "fst ` set ?c =
      {fid \<in> fst ` set cs. \<exists>e. entry_for fid l = Some e \<and> query_passes q (next_mask e)}"
    by (simp only: entry_in_sorted)
  show ?case
  proof (cases "?c = []")
    case True
    with ids show ?thesis by (auto simp: Let_def)
  next
    case False
    have "ascending (map fst ?c)" using "2.prems" by simp
    note IH = "2.IH" [OF refl False this]
    show ?thesis
      using IH False by (simp add: Let_def ids)
  qed
qed simp

fun plan_hits :: "(u32 \<Rightarrow> posting_entry list) \<Rightarrow> u32 \<Rightarrow> query_plan \<Rightarrow> bool" where
  "plan_hits lookup fid (And queries) \<longleftrightarrow>
     queries \<noteq> [] \<and>
     (\<forall>q\<in>set queries. \<exists>e. entry_for fid (lookup (q_hash q)) = Some e \<and>
        query_passes q (next_mask e))"
| "plan_hits lookup fid (Or plans) \<longleftrightarrow> (\<exists>p\<in>set plans. plan_hits lookup fid p)"
| "plan_hits lookup fid MatchAll \<longleftrightarrow> False"

lemma execute_plan_with_masks_hits:
  "set (execute_plan_with_masks p lookup) = {fid. plan_hits lookup fid p} \<and>
   ascending (execute_plan_with_masks p lookup)"
proof (induction p lookup rule: execute_plan_with_masks.induct)
  case (1 queries lookup)
  show ?case
  proof (cases "queries = []")
    case False
    let ?qls = "map (\<lambda>q. (q, lookup (q_hash q))) queries"
    obtain ql qls where sorted: "sort_key (\<lambda>(_, l). length l) ?qls = ql # qls"
      and sets: "set ?qls = insert ql (set qls)"
      using sort_key_Cons [of ?qls "\<lambda>(_, l). length l"] False by blast
    obtain q l where ql: "ql = (q, l)" by (cases ql)
    let ?l = "sort_dedup_postings_by_file_id l"
    define cs where "cs =
      (case expected_next q of
         Some next_byte \<Rightarrow> filter (\<lambda>(_, _, nm). nm AND bloom_hash next_byte \<noteq> 0)
           (map (\<lambda>e. (file_id e, loc_mask e, next_mask e)) ?l)
       | None \<Rightarrow> map (\<lambda>e. (file_id e, loc_mask e, next_mask e)) ?l)"
    have cs: "cs = map (\<lambda>e. (file_id e, loc_mask e, next_mask e))
        (filter (\<lambda>e. query_passes q (next_mask e)) ?l)"
      by (auto simp: cs_def query_passes_def filter_map comp_def split: option.split)
    have fst_cs: "map fst cs = map file_id (filter (\<lambda>e. query_passes q (next_mask e)) ?l)"
      by (simp add: cs comp_def)
    have asc: "ascending (map fst cs)"
      unfolding fst_cs using ascending_sort_dedup [of l] by (simp add: sorted_wrt_map sorted_wrt_filter)
    have run: "execute_plan_with_masks (And queries) lookup = map fst (and_mask_loop cs qls)"
      using False by (simp add: sorted ql cs_def Let_def)
    have "fst ` set cs = {fid. \<exists>e. entry_for fid l = Some e \<and> query_passes q (next_mask e)}"
    proof -
      have "fst ` set cs = set (map fst cs)" by simp
      also have "\<dots> = {fid. \<exists>e\<in>set ?l. file_id e = fid \<and> query_passes q (next_mask e)}"
        unfolding fst_cs by auto
      also have "\<dots> = {fid. \<exists>e. entry_for fid l = Some e \<and> query_passes q (next_mask e)}"
        by (simp only: entry_in_sorted)
      finally show ?thesis .
    qed
    then have "fst ` set (and_mask_loop cs qls) =
        {fid. \<forall>(q, l)\<in>insert ql (set qls).
           \<exists>e. entry_for fid l = Some e \<and> query_passes q (next_mask e)}"
      using and_mask_loop_ids [OF asc, of qls] ql by auto
    also have "\<dots> = {fid. plan_hits lookup fid (And queries)}"
      unfolding sets [symmetric] using False by simp
    finally show ?thesis
      using and_mask_loop_ids [OF asc, of qls] by (simp add: run del: execute_plan_with_masks.simps)
  qed simp
next
  case (2 plans lookup)
  then show ?case by auto
qed simp

section \<open>The interface of a provider of posting lists\<close>

text \<open>What a plan demands of one file, over any table of the file's masks.\<close>

definition query_accepts :: "(u32 \<Rightarrow> trigram_masks option) \<Rightarrow> trigram_query \<Rightarrow> bool" where
  "query_accepts table q \<longleftrightarrow>
     (\<exists>m. table (q_hash q) = Some m \<and>
        (\<forall>b. expected_next q = Some b \<longrightarrow> check_next_byte m b))"

fun plan_accepts :: "(u32 \<Rightarrow> trigram_masks option) \<Rightarrow> query_plan \<Rightarrow> bool" where
  "plan_accepts table (And queries) \<longleftrightarrow> (\<forall>q\<in>set queries. query_accepts table q)"
| "plan_accepts table (Or plans) \<longleftrightarrow> (\<exists>p\<in>set plans. plan_accepts table p)"
| "plan_accepts table MatchAll \<longleftrightarrow> True"

lemma plan_satisfied_accepts: "plan_satisfied m p = plan_accepts (Mapping.lookup m) p"
  by (induction p) (simp_all add: query_satisfied_def query_accepts_def)

definition posting_of :: "u32 \<Rightarrow> trigram_masks \<Rightarrow> posting_entry" where
  "posting_of fid m = \<lparr>loc_mask = loc_mask m, next_mask = next_mask m, file_id = fid\<rparr>"

text \<open>
  A provider holds a table of masks for each file.  Of a \<open>posting_source\<close> the client needs
  completeness only: what a table has of a trigram is found in the list of the trigram, with a
  successor mask that has at least the bits of the table's.
\<close>

locale posting_source =
  fixes lookup :: "u32 \<Rightarrow> posting_entry list"
    and tables :: "u32 \<Rightarrow> u32 \<Rightarrow> trigram_masks option"
  assumes covers: "tables fid h = Some m \<Longrightarrow>
      \<exists>e. entry_for fid (lookup h) = Some e \<and> next_mask m AND next_mask e = next_mask m"
begin

lemma query_covered:
  assumes "query_accepts (tables fid) q"
  shows "\<exists>e. entry_for fid (lookup (q_hash q)) = Some e \<and> query_passes q (next_mask e)"
proof -
  obtain m where m: "tables fid (q_hash q) = Some m"
    and nb: "\<forall>b. expected_next q = Some b \<longrightarrow> check_next_byte m b"
    using assms by (auto simp: query_accepts_def)
  obtain e where e: "entry_for fid (lookup (q_hash q)) = Some e"
    and sub: "next_mask m AND next_mask e = next_mask m"
    using covers [OF m] by blast
  have "next_mask e AND next_bit b \<noteq> 0" if "next_mask m AND next_bit b \<noteq> 0" for b
  proof
    assume "next_mask e AND next_bit b = 0"
    then have "(next_mask m AND next_mask e) AND next_bit b = 0" by (simp add: and.assoc)
    with that show False by (simp add: sub)
  qed
  then have "query_passes q (next_mask e)"
    using nb by (auto simp: query_passes_def check_next_byte_def bloom_hash_def split: option.split)
  with e show ?thesis by blast
qed

lemma accepted_hits: "narrows p \<Longrightarrow> plan_accepts (tables fid) p \<Longrightarrow> plan_hits lookup fid p"
proof (induction p)
  case (And queries)
  then show ?case using query_covered by simp
next
  case (Or plans)
  then show ?case by auto
qed simp

lemma candidates_complete:
  assumes "narrows p" "plan_accepts (tables fid) p"
  shows "fid \<in> set (execute_plan_with_masks p lookup)"
  using accepted_hits [OF assms] by (simp add: execute_plan_with_masks_hits)

end

text \<open>An exact provider answers with the masks of its tables and with nothing else.\<close>

locale exact_posting_source =
  fixes lookup :: "u32 \<Rightarrow> posting_entry list"
    and tables :: "u32 \<Rightarrow> u32 \<Rightarrow> trigram_masks option"
  assumes exact: "entry_for fid (lookup h) = map_option (posting_of fid) (tables fid h)"
begin

sublocale posting_source lookup tables
  by unfold_locales (simp add: exact posting_of_def)

lemma query_exact:
  "(\<exists>e. entry_for fid (lookup (q_hash q)) = Some e \<and> query_passes q (next_mask e)) \<longleftrightarrow>
    query_accepts (tables fid) q"
  by (auto simp: exact query_accepts_def query_passes_def posting_of_def
      check_next_byte_def bloom_hash_def split: option.splits)

lemma hits_exact: "narrows p \<Longrightarrow> plan_hits lookup fid p \<longleftrightarrow> plan_accepts (tables fid) p"
proof (induction p)
  case (And queries)
  then show ?case using query_exact by simp
qed auto

lemma candidates_exact:
  assumes "narrows p"
  shows "set (execute_plan_with_masks p lookup) = {fid. plan_accepts (tables fid) p}"
  using hits_exact [OF assms] by (simp add: execute_plan_with_masks_hits)

end

section \<open>Properties\<close>

text \<open>C33. Executing a plan with masks returns, in strictly ascending order, exactly the files
  whose entry in the posting list of every queried trigram passes the query's check of the
  next byte, over the branches of the plan; where a list holds a file twice its first entry
  counts.  The order in which the lists are intersected does not show.\<close>

theorem execute_plan_with_masks_refines:
  "execute_plan_with_masks p lookup = sorted_list_of_set {fid. plan_hits lookup fid p}"
proof (rule ascending_eqI)
  show "ascending (sorted_list_of_set {fid. plan_hits lookup fid p})" by simp
  have "finite {fid. plan_hits lookup fid p}" by (rule finite)
  then show "set (execute_plan_with_masks p lookup) =
      set (sorted_list_of_set {fid. plan_hits lookup fid p})"
    using execute_plan_with_masks_hits [of p lookup] by simp
qed (use execute_plan_with_masks_hits in blast)

text \<open>Executing a plan on identifiers alone returns, in strictly ascending order, the
  intersection of the lists of each conjunction and the union over the branches.\<close>

theorem execute_plan_refines:
  "execute_plan p lookup = sorted_list_of_set (plan_ids lookup p)"
  using execute_plan_ids [of p lookup] by (intro ascending_eqI) simp_all

text \<open>The adaptive union of ascending lists is the ascending list of their union, whether it
  folds to the end or switches to the balanced merge.\<close>

theorem union_many_sorted_is_union:
  assumes "\<forall>l\<in>set ls. ascending l"
  shows "union_many_sorted ls = sorted_list_of_set (\<Union>l\<in>set ls. set l)"
  using ascending_union_many_sorted [OF assms] by (intro ascending_eqI) simp_all

theorem union_many_sorted_is_union_witness:
  "union_many_sorted [[1, 5], [], [2, 3, 4], [3, 9], [7]] = [1, 2, 3, 4, 5, 7, 9]"
proof -
  have "union_many_sorted [[1, 5], [], [2, 3, 4], [3, 9], [7]] =
      sorted_list_of_set (\<Union>l\<in>set [[1, 5], [], [2, 3, 4], [3, 9], [7]]. set (l :: u32 list))"
    by (rule union_many_sorted_is_union) simp
  also have "\<dots> = sorted_list_of_set (set [1, 2, 3, 4, 5, 7, 9 :: u32])"
    by (rule arg_cong [where f = sorted_list_of_set]) auto
  also have "\<dots> = [1, 2, 3, 4, 5, 7, 9]" by (subst sorted_list_of_set_sort_remdups) simp
  finally show ?thesis .
qed

end
