(* ===== verification/Live.thy ===== *)
theory Live
  imports Plan_Exec
begin

text \<open>
  The mutable overlay (\<^verbatim>\<open>tgrep-core/src/live.rs\<close>): which files changed since the
  index on disk was built.  Hash maps are mappings, hash sets are sets.  Where the code
  iterates over a hash table into a list, the order is not specified: the definitions take the
  iteration \<open>iter\<close> of a set as an argument, and the theorems hold for every one.  The
  memory accounting beside the tables (\<open>posting_allocations\<close>, \<open>allocations\<close>) and the
  admission checks of the controlled variants do not change what the tables hold and are left
  out.
\<close>

section \<open>The state\<close>

definition OVERLAY_BIT :: u32 where
  "OVERLAY_BIT = push_bit 31 1"

record live_index =
  inverted :: "(u32, u32 set) mapping"
  masks :: "(u32 \<times> u32, trigram_masks) mapping"
  file_paths :: "(u32, path) mapping"
  path_to_id :: "(path, u32) mapping"
  deleted_paths :: "path set"
  next_id :: u32
  dirty_count :: u32

definition live_new :: live_index where
  "live_new =
     \<lparr>inverted = Mapping.empty, masks = Mapping.empty, file_paths = Mapping.empty,
      path_to_id = Mapping.empty, deleted_paths = {}, next_id = 0, dirty_count = 0\<rparr>"

definition is_overlay_id :: "u32 \<Rightarrow> bool" where
  "is_overlay_id fid = (fid AND OVERLAY_BIT \<noteq> 0)"

definition no_filter :: trigram_masks where
  "no_filter = \<lparr>loc_mask = 0xFF, next_mask = 0xFF\<rparr>"

section \<open>Changes\<close>

definition remove_file_by_id :: "u32 \<Rightarrow> live_index \<Rightarrow> live_index" where
  "remove_file_by_id fid self =
     (let self = self\<lparr>inverted := Mapping.filter (\<lambda>_ ids. ids \<noteq> {})
                         (Mapping.map_values (\<lambda>_ ids. ids - {fid}) (inverted self))\<rparr>;
          self = self\<lparr>masks := Mapping.filter (\<lambda>(_, f) _. f \<noteq> fid) (masks self)\<rparr>
      in case Mapping.lookup (file_paths self) fid of
           Some path \<Rightarrow>
             self\<lparr>file_paths := Mapping.delete fid (file_paths self),
                  path_to_id := Mapping.delete path (path_to_id self)\<rparr>
         | None \<Rightarrow> self)"

definition remove_overlay_entry :: "path \<Rightarrow> live_index \<Rightarrow> live_index" where
  "remove_overlay_entry path self =
     (case Mapping.lookup (path_to_id self) path of
        Some fid \<Rightarrow> remove_file_by_id fid self
      | None \<Rightarrow> self)"

text \<open>\<^verbatim>\<open>self.inverted.entry(tri).or_default().insert(file_id)\<close>\<close>

definition insert_posting :: "u32 \<Rightarrow> u32 \<Rightarrow> (u32, u32 set) mapping \<Rightarrow> (u32, u32 set) mapping" where
  "insert_posting fid tri postings =
     Mapping.update tri
       (insert fid (case Mapping.lookup postings tri of Some ids \<Rightarrow> ids | None \<Rightarrow> {})) postings"

text \<open>The last steps of both ways to insert a file.\<close>

definition register_path :: "path \<Rightarrow> u32 \<Rightarrow> live_index \<Rightarrow> live_index" where
  "register_path rel_path fid self =
     self\<lparr>file_paths := Mapping.update fid rel_path (file_paths self),
          path_to_id := Mapping.update rel_path fid (path_to_id self),
          deleted_paths := deleted_paths self - {rel_path},
          dirty_count := dirty_count self + 1\<rparr>"

definition commit_upsert :: "path \<Rightarrow> mask_map \<Rightarrow> live_index \<Rightarrow> live_index" where
  "commit_upsert rel_path per_tri self =
     (let self = (case Mapping.lookup (path_to_id self) rel_path of
            Some old_id \<Rightarrow> remove_file_by_id old_id self
          | None \<Rightarrow> self);
          raw_id = next_id self;
          self = self\<lparr>next_id := raw_id + 1\<rparr>;
          fid = raw_id OR OVERLAY_BIT;
          self = fold (\<lambda>tri self. self\<lparr>
                     inverted := insert_posting fid tri (inverted self),
                     masks := Mapping.update (tri, fid) (the (Mapping.lookup per_tri tri)) (masks self)\<rparr>)
                   (Mapping.ordered_keys per_tri) self
      in register_path rel_path fid self)"

definition upsert_file :: "path \<Rightarrow> byte list \<Rightarrow> live_index \<Rightarrow> live_index" where
  "upsert_file rel_path content self = commit_upsert rel_path (extract_merged_masks content) self"

definition upsert_file_with_trigrams :: "path \<Rightarrow> u32 list \<Rightarrow> live_index \<Rightarrow> live_index" where
  "upsert_file_with_trigrams rel_path trigrams self =
     (let self = (case Mapping.lookup (path_to_id self) rel_path of
            Some old_id \<Rightarrow> remove_file_by_id old_id self
          | None \<Rightarrow> self);
          raw_id = next_id self;
          self = self\<lparr>next_id := raw_id + 1\<rparr>;
          fid = raw_id OR OVERLAY_BIT;
          self = fold (\<lambda>tri self. self\<lparr>inverted := insert_posting fid tri (inverted self)\<rparr>)
                   trigrams self
      in register_path rel_path fid self)"

definition delete_file :: "path \<Rightarrow> live_index \<Rightarrow> live_index" where
  "delete_file rel_path self =
     (let self = (case Mapping.lookup (path_to_id self) rel_path of
            Some fid \<Rightarrow> remove_file_by_id fid self
          | None \<Rightarrow> self)
      in self\<lparr>deleted_paths := insert rel_path (deleted_paths self),
              dirty_count := dirty_count self + 1\<rparr>)"

text \<open>The loop that resolves the paths to remove and unregisters them.\<close>

fun unregister_loop :: "path list \<Rightarrow> live_index \<Rightarrow> u32 set \<Rightarrow> live_index \<times> u32 set" where
  "unregister_loop [] self ids = (self, ids)"
| "unregister_loop (p # paths) self ids =
     (case Mapping.lookup (path_to_id self) p of
        Some fid \<Rightarrow>
          unregister_loop paths
            (self\<lparr>path_to_id := Mapping.delete p (path_to_id self),
                  file_paths := Mapping.delete fid (file_paths self)\<rparr>)
            (insert fid ids)
      | None \<Rightarrow> unregister_loop paths self ids)"

definition batch_remove_overlay_entries :: "path list \<Rightarrow> live_index \<Rightarrow> live_index" where
  "batch_remove_overlay_entries paths self =
     (if paths = [] then self
      else case unregister_loop paths self {} of
        (self, ids) \<Rightarrow>
          if ids = {} then self
          else if Mapping.is_empty (path_to_id self) then
            self\<lparr>inverted := Mapping.empty, masks := Mapping.empty\<rparr>
          else
            self\<lparr>inverted := Mapping.filter (\<lambda>_ ids'. ids' \<noteq> {})
                   (Mapping.map_values (\<lambda>_ ids'. ids' - ids) (inverted self)),
                 masks := Mapping.filter (\<lambda>(_, fid) _. fid \<notin> ids) (masks self)\<rparr>)"

definition clear_reconciled_paths :: "path list \<Rightarrow> live_index \<Rightarrow> live_index" where
  "clear_reconciled_paths paths self =
     fold (\<lambda>path self. self\<lparr>deleted_paths := deleted_paths self - {path}\<rparr>) paths
       (batch_remove_overlay_entries paths self)"

definition try_drop_all_persisted :: "path set \<Rightarrow> live_index \<Rightarrow> bool \<times> live_index" where
  "try_drop_all_persisted reader_paths self =
     (if \<not> (\<forall>p\<in>Mapping.keys (path_to_id self). p \<in> reader_paths) then (False, self)
      else if \<exists>p\<in>deleted_paths self. p \<in> reader_paths then (False, self)
      else (True, self\<lparr>inverted := Mapping.empty, masks := Mapping.empty,
              file_paths := Mapping.empty, path_to_id := Mapping.empty, deleted_paths := {}\<rparr>))"

definition reset_dirty_count :: "live_index \<Rightarrow> live_index" where
  "reset_dirty_count self = self\<lparr>dirty_count := 0\<rparr>"

section \<open>Queries\<close>

definition live_lookup_trigram :: "(u32 set \<Rightarrow> u32 list) \<Rightarrow> live_index \<Rightarrow> u32 \<Rightarrow> u32 list" where
  "live_lookup_trigram iter self trigram =
     (case Mapping.lookup (inverted self) trigram of Some ids \<Rightarrow> iter ids | None \<Rightarrow> [])"

definition get_masks :: "live_index \<Rightarrow> u32 \<Rightarrow> u32 \<Rightarrow> trigram_masks" where
  "get_masks self trigram fid =
     (case Mapping.lookup (masks self) (trigram, fid) of Some m \<Rightarrow> m | None \<Rightarrow> no_filter)"

definition live_lookup_trigram_with_masks ::
  "(u32 set \<Rightarrow> u32 list) \<Rightarrow> live_index \<Rightarrow> u32 \<Rightarrow> posting_entry list"
where
  "live_lookup_trigram_with_masks iter self trigram =
     (case Mapping.lookup (inverted self) trigram of
        Some ids \<Rightarrow>
          map (\<lambda>fid.
              let m = (case Mapping.lookup (masks self) (trigram, fid) of
                         Some m \<Rightarrow> m | None \<Rightarrow> no_filter)
              in \<lparr>loc_mask = loc_mask m, next_mask = next_mask m, file_id = fid\<rparr>)
            (iter ids)
      | None \<Rightarrow> [])"

definition live_file_path :: "live_index \<Rightarrow> u32 \<Rightarrow> path option" where
  "live_file_path self fid = Mapping.lookup (file_paths self) fid"

definition is_deleted :: "live_index \<Rightarrow> path \<Rightarrow> bool" where
  "is_deleted self path = (path \<in> deleted_paths self)"

definition has_path :: "live_index \<Rightarrow> path \<Rightarrow> bool" where
  "has_path self path = (Mapping.lookup (path_to_id self) path \<noteq> None)"

definition file_id_for_path :: "live_index \<Rightarrow> path \<Rightarrow> u32 option" where
  "file_id_for_path self path = Mapping.lookup (path_to_id self) path"

definition live_has_descendant_path :: "live_index \<Rightarrow> path \<Rightarrow> bool" where
  "live_has_descendant_path self directory =
     (if directory = [] then \<not> Mapping.is_empty (path_to_id self)
      else \<exists>p\<in>Mapping.keys (path_to_id self).
        case strip_prefix directory p of
          Some rest \<Rightarrow> take 1 rest = [0x2F] | None \<Rightarrow> False)"

definition live_num_files :: "live_index \<Rightarrow> nat" where
  "live_num_files self = Mapping.size (file_paths self)"

definition live_num_trigrams :: "live_index \<Rightarrow> nat" where
  "live_num_trigrams self = Mapping.size (inverted self)"

definition has_pending_changes :: "live_index \<Rightarrow> bool" where
  "has_pending_changes self = (\<not> Mapping.is_empty (path_to_id self) \<or> deleted_paths self \<noteq> {})"

definition shadowed_paths :: "live_index \<Rightarrow> path set" where
  "shadowed_paths self = Mapping.keys (path_to_id self) \<union> deleted_paths self"

definition live_all_file_ids :: "(u32 set \<Rightarrow> u32 list) \<Rightarrow> live_index \<Rightarrow> u32 list" where
  "live_all_file_ids iter self = iter (Mapping.keys (file_paths self))"

text \<open>\<^verbatim>\<open>id & !OVERLAY_BIT\<close>: the number of the insertion.\<close>

definition raw_of :: "u32 \<Rightarrow> u32" where
  "raw_of fid = fid AND NOT OVERLAY_BIT"

definition ordered_pairs :: "(u32 set \<Rightarrow> u32 list) \<Rightarrow> (u32, path) mapping \<Rightarrow> (u32 \<times> path) list" where
  "ordered_pairs iter fps =
     sort_key (\<lambda>(fid, _). raw_of fid)
       (map (\<lambda>fid. (fid, the (Mapping.lookup fps fid))) (iter (Mapping.keys fps)))"

definition all_paths_ordered :: "(u32 set \<Rightarrow> u32 list) \<Rightarrow> live_index \<Rightarrow> path list" where
  "all_paths_ordered iter self = map snd (ordered_pairs iter (file_paths self))"

definition remap_snapshot ::
  "(u32 set \<Rightarrow> u32 list) \<Rightarrow> (u32, u32 set) mapping \<Rightarrow> (u32, path) mapping \<Rightarrow>
   path list \<times> (u32, u32 list) mapping"
where
  "remap_snapshot iter postings fps =
     (let paths = map snd (ordered_pairs iter fps);
          path_to_new_id = fold (\<lambda>(new_id, p) m. Mapping.update p (of_nat new_id :: u32) m)
            (enumerate 0 paths) Mapping.empty;
          remapped = Mapping.map_values (\<lambda>_ ids.
            sort (List.map_filter (\<lambda>fid.
              case Mapping.lookup fps fid of
                Some p \<Rightarrow> Mapping.lookup path_to_new_id p
              | None \<Rightarrow> None) (iter ids))) postings
      in (paths, Mapping.filter (\<lambda>_ posting. posting \<noteq> []) remapped))"

definition snapshot_for_disk ::
  "(u32 set \<Rightarrow> u32 list) \<Rightarrow> live_index \<Rightarrow> path list \<times> (u32, u32 list) mapping"
where
  "snapshot_for_disk iter self = remap_snapshot iter (inverted self) (file_paths self)"

section \<open>The invariant and the abstract overlay\<close>

definition ids_of :: "live_index \<Rightarrow> u32 \<Rightarrow> u32 set" where
  "ids_of L tri = (case Mapping.lookup (inverted L) tri of Some ids \<Rightarrow> ids | None \<Rightarrow> {})"

text \<open>
  The two path tables are inverse to each other, every posting and every mask belongs to a
  registered file, no posting set is empty, no path is both active and deleted, and every
  identifier is an overlay identifier below the counter.
\<close>

definition live_inv :: "live_index \<Rightarrow> bool" where
  "live_inv L \<longleftrightarrow>
     (\<forall>fid p. Mapping.lookup (file_paths L) fid = Some p \<longleftrightarrow> Mapping.lookup (path_to_id L) p = Some fid) \<and>
     (\<forall>tri fid. fid \<in> ids_of L tri \<longrightarrow> Mapping.lookup (file_paths L) fid \<noteq> None) \<and>
     (\<forall>tri. Mapping.lookup (inverted L) tri \<noteq> Some {}) \<and>
     (\<forall>tri fid. Mapping.lookup (masks L) (tri, fid) \<noteq> None \<longrightarrow> fid \<in> ids_of L tri) \<and>
     (\<forall>p. p \<in> deleted_paths L \<longrightarrow> Mapping.lookup (path_to_id L) p = None) \<and>
     (\<forall>fid. Mapping.lookup (file_paths L) fid \<noteq> None \<longrightarrow>
        is_overlay_id fid \<and> raw_of fid < next_id L) \<and>
     next_id L \<le> 0x80000000"

lemma live_invD:
  assumes "live_inv L"
  shows "Mapping.lookup (file_paths L) fid = Some p \<longleftrightarrow> Mapping.lookup (path_to_id L) p = Some fid"
    and "fid \<in> ids_of L tri \<Longrightarrow> Mapping.lookup (file_paths L) fid \<noteq> None"
    and "Mapping.lookup (inverted L) tri \<noteq> Some {}"
    and "Mapping.lookup (masks L) (tri, fid) \<noteq> None \<Longrightarrow> fid \<in> ids_of L tri"
    and "p \<in> deleted_paths L \<Longrightarrow> Mapping.lookup (path_to_id L) p = None"
    and "Mapping.lookup (file_paths L) fid \<noteq> None \<Longrightarrow> is_overlay_id fid"
    and "Mapping.lookup (file_paths L) fid \<noteq> None \<Longrightarrow> raw_of fid < next_id L"
    and "next_id L \<le> 0x80000000"
  using assms by (auto simp: live_inv_def)

text \<open>What the overlay says of a path: nothing, that it is gone, or its current trigrams.\<close>

datatype overlay = Untouched | Tombstone | Active "u32 \<Rightarrow> trigram_masks option"

definition entry_masks :: "live_index \<Rightarrow> u32 \<Rightarrow> u32 \<Rightarrow> trigram_masks option" where
  "entry_masks L fid tri = (if fid \<in> ids_of L tri then Some (get_masks L tri fid) else None)"

definition overlay_of :: "live_index \<Rightarrow> path \<Rightarrow> overlay" where
  "overlay_of L p =
     (case Mapping.lookup (path_to_id L) p of
        Some fid \<Rightarrow> Active (entry_masks L fid)
      | None \<Rightarrow> if p \<in> deleted_paths L then Tombstone else Untouched)"

lemma entry_masks_update [simp]:
  "entry_masks (L\<lparr>deleted_paths := D\<rparr>) = entry_masks L"
  "entry_masks (L\<lparr>dirty_count := n\<rparr>) = entry_masks L"
  by (simp_all add: entry_masks_def ids_of_def get_masks_def fun_eq_iff)

lemma live_inv_dirty_count [simp]: "live_inv (L\<lparr>dirty_count := n\<rparr>) = live_inv L"
  by (simp add: live_inv_def ids_of_def)

lemma live_inv_new [inv_intros]: "live_inv live_new"
  by (simp add: live_inv_def live_new_def ids_of_def)

lemma overlay_of_new [simp]: "overlay_of live_new p = Untouched"
  by (simp add: overlay_of_def live_new_def)

subsection \<open>Dropping entries\<close>

text \<open>\<open>L'\<close> is \<open>L\<close> without the entries of the identifiers \<open>R\<close>.\<close>

definition dropped :: "u32 set \<Rightarrow> live_index \<Rightarrow> live_index \<Rightarrow> bool" where
  "dropped R L L' \<longleftrightarrow>
     (\<forall>fid. Mapping.lookup (file_paths L') fid =
        (if fid \<in> R then None else Mapping.lookup (file_paths L) fid)) \<and>
     (\<forall>p. Mapping.lookup (path_to_id L') p =
        (case Mapping.lookup (path_to_id L) p of
           Some fid \<Rightarrow> if fid \<in> R then None else Some fid | None \<Rightarrow> None)) \<and>
     (\<forall>tri. ids_of L' tri = ids_of L tri - R) \<and>
     (\<forall>tri. Mapping.lookup (inverted L') tri \<noteq> Some {}) \<and>
     (\<forall>tri fid. Mapping.lookup (masks L') (tri, fid) =
        (if fid \<in> R then None else Mapping.lookup (masks L) (tri, fid))) \<and>
     deleted_paths L' = deleted_paths L \<and> next_id L' = next_id L"

lemma droppedD:
  assumes "dropped R L L'"
  shows "Mapping.lookup (file_paths L') fid =
      (if fid \<in> R then None else Mapping.lookup (file_paths L) fid)"
    and "Mapping.lookup (path_to_id L') p =
      (case Mapping.lookup (path_to_id L) p of
         Some fid \<Rightarrow> if fid \<in> R then None else Some fid | None \<Rightarrow> None)"
    and "ids_of L' tri = ids_of L tri - R"
    and "Mapping.lookup (inverted L') tri \<noteq> Some {}"
    and "Mapping.lookup (masks L') (tri, fid) =
      (if fid \<in> R then None else Mapping.lookup (masks L) (tri, fid))"
    and "deleted_paths L' = deleted_paths L" and "next_id L' = next_id L"
  using assms unfolding dropped_def by blast+

lemma dropped_inv:
  assumes inv: "live_inv L" and d: "dropped R L L'"
  shows "live_inv L'"
  unfolding live_inv_def droppedD(1,3,5,6,7) [OF d] droppedD(2) [OF d]
  using live_invD [OF inv] droppedD(4) [OF d] by (auto split: option.splits if_splits)

lemma dropped_overlay:
  assumes d: "dropped R L L'"
  shows "overlay_of L' p =
    (case Mapping.lookup (path_to_id L) p of
       Some fid \<Rightarrow> if fid \<in> R then (if p \<in> deleted_paths L then Tombstone else Untouched)
                   else overlay_of L p
     | None \<Rightarrow> overlay_of L p)"
proof -
  have "entry_masks L' fid = entry_masks L fid" if "fid \<notin> R" for fid
    using that by (auto simp: entry_masks_def get_masks_def droppedD [OF d])
  then show ?thesis
    by (auto simp: overlay_of_def droppedD(2,6) [OF d] split: option.splits)
qed

lemma ids_of_retain [simp]:
  "ids_of (L\<lparr>inverted := Mapping.filter (\<lambda>_ ids. ids \<noteq> {}) (Mapping.map_values (\<lambda>_ ids. f ids) (inverted L))\<rparr>) tri =
     (case Mapping.lookup (inverted L) tri of Some ids \<Rightarrow> f ids | None \<Rightarrow> {})"
  by (auto simp: ids_of_def lookup_filter lookup_map_values split: option.split)

lemma dropped_remove_file_by_id:
  assumes inv: "live_inv L" and fid: "Mapping.lookup (file_paths L) fid = Some p"
  shows "dropped {fid} L (remove_file_by_id fid L)"
proof -
  have "Mapping.lookup (path_to_id L) q = Some fid \<longleftrightarrow> q = p" for q
    using live_invD(1) [OF inv, of fid q] fid by auto
  then have key: "Mapping.lookup (path_to_id L) q = Some fid \<Longrightarrow> q = p" for q by blast
  have p: "Mapping.lookup (path_to_id L) p = Some fid" using live_invD(1) [OF inv] fid by blast
  let ?L = "remove_file_by_id fid L"
  have tab: "file_paths ?L = Mapping.delete fid (file_paths L)"
    "path_to_id ?L = Mapping.delete p (path_to_id L)"
    "inverted ?L = Mapping.filter (\<lambda>_ ids. ids \<noteq> {})
       (Mapping.map_values (\<lambda>_ ids. ids - {fid}) (inverted L))"
    "masks ?L = Mapping.filter (\<lambda>(_, f) _. f \<noteq> fid) (masks L)"
    "deleted_paths ?L = deleted_paths L" "next_id ?L = next_id L"
    by (simp_all add: remove_file_by_id_def fid)
  have "Mapping.lookup (path_to_id ?L) q = (case Mapping.lookup (path_to_id L) q of
      Some f \<Rightarrow> if f \<in> {fid} then None else Some f | None \<Rightarrow> None)" for q
    using key [of q] p by (cases "q = p") (auto simp: tab lookup_delete_if split: option.split)
  moreover have "ids_of ?L tri = ids_of L tri - {fid}" for tri
    by (auto simp: ids_of_def tab lookup_filter lookup_map_values split: option.split)
  moreover have "Mapping.lookup (inverted ?L) tri \<noteq> Some {}" for tri
    by (auto simp: tab lookup_filter lookup_map_values split: option.split)
  moreover have "Mapping.lookup (masks ?L) (tri, f) =
      (if f \<in> {fid} then None else Mapping.lookup (masks L) (tri, f))" for tri f
    by (auto simp: tab lookup_filter split: option.split)
  moreover have "Mapping.lookup (file_paths ?L) f =
      (if f \<in> {fid} then None else Mapping.lookup (file_paths L) f)" for f
    by (simp add: tab lookup_delete_if)
  ultimately show ?thesis unfolding dropped_def tab(5,6) by blast
qed

text \<open>Removing the entry of a path, the first step of every replacement and deletion.\<close>

lemma drop_old:
  fixes p :: path
  assumes inv: "live_inv L"
  defines "L' \<equiv> remove_overlay_entry p L"
  shows "live_inv L'" "Mapping.lookup (path_to_id L') p = None"
    "overlay_of L' q = (if q = p \<and> overlay_of L p \<noteq> Tombstone then Untouched else overlay_of L q)"
    "next_id L' = next_id L" "deleted_paths L' = deleted_paths L"
proof -
  have "live_inv L' \<and> Mapping.lookup (path_to_id L') p = None \<and>
    overlay_of L' q = (if q = p \<and> overlay_of L p \<noteq> Tombstone then Untouched else overlay_of L q) \<and>
    next_id L' = next_id L \<and> deleted_paths L' = deleted_paths L"
  proof (cases "Mapping.lookup (path_to_id L) p")
    case None
    then show ?thesis by (auto simp: L'_def remove_overlay_entry_def inv overlay_of_def)
  next
    case (Some fid)
    then have "Mapping.lookup (file_paths L) fid = Some p" using live_invD(1) [OF inv] by simp
    then have d: "dropped {fid} L L'"
      using dropped_remove_file_by_id [OF inv] Some by (simp add: L'_def remove_overlay_entry_def)
    have "p \<notin> deleted_paths L" using live_invD(5) [OF inv, of p] Some by auto
    moreover have "q = p" if "Mapping.lookup (path_to_id L) q = Some fid"
      using that \<open>Mapping.lookup (file_paths L) fid = Some p\<close> live_invD(1) [OF inv, of fid q] by simp
    ultimately have not_del: "p \<notin> deleted_paths L"
      and key: "Mapping.lookup (path_to_id L) q = Some fid \<Longrightarrow> q = p" by blast+
    have "overlay_of L' q =
        (if q = p \<and> overlay_of L p \<noteq> Tombstone then Untouched else overlay_of L q)"
    proof (cases "q = p")
      case True
      have "overlay_of L p \<noteq> Tombstone" by (simp add: overlay_of_def Some)
      with True show ?thesis by (simp add: dropped_overlay [OF d] Some not_del)
    next
      case False
      then show ?thesis
        using key by (simp add: dropped_overlay [OF d] split: option.split) blast
    qed
    moreover have "Mapping.lookup (path_to_id L') p = None" by (simp add: droppedD(2) [OF d] Some)
    ultimately show ?thesis using dropped_inv [OF inv d] droppedD(6,7) [OF d] by blast
  qed
  then show "live_inv L'" "Mapping.lookup (path_to_id L') p = None"
    "overlay_of L' q = (if q = p \<and> overlay_of L p \<noteq> Tombstone then Untouched else overlay_of L q)"
    "next_id L' = next_id L" "deleted_paths L' = deleted_paths L" by blast+
qed

subsection \<open>Inserting entries\<close>

text \<open>
  \<open>L'\<close> is \<open>L\<close> with a new file of the trigrams \<open>K\<close>, the masks of which are \<open>per\<close> where stored.
\<close>

definition inserted ::
  "path \<Rightarrow> u32 \<Rightarrow> u32 set \<Rightarrow> (u32 \<Rightarrow> trigram_masks option) \<Rightarrow> live_index \<Rightarrow> live_index \<Rightarrow> bool"
where
  "inserted p fid K per L L' \<longleftrightarrow>
     file_paths L' = Mapping.update fid p (file_paths L) \<and>
     path_to_id L' = Mapping.update p fid (path_to_id L) \<and>
     (\<forall>tri. ids_of L' tri = (if tri \<in> K then insert fid (ids_of L tri) else ids_of L tri)) \<and>
     (\<forall>tri. Mapping.lookup (inverted L') tri \<noteq> Some {}) \<and>
     (\<forall>tri f. Mapping.lookup (masks L') (tri, f) =
        (if f = fid \<and> tri \<in> K \<and> per tri \<noteq> None then per tri
         else Mapping.lookup (masks L) (tri, f))) \<and>
     deleted_paths L' = deleted_paths L - {p} \<and> next_id L' = next_id L + 1"

lemma bit_OVERLAY_BIT [simp]: "bit OVERLAY_BIT k \<longleftrightarrow> k = 31"
  unfolding OVERLAY_BIT_def bit_push_bit_iff by (auto simp: bit_1_iff)

lemma fresh_id:
  assumes inv: "live_inv L" and room: "next_id L < 0x80000000"
  defines "fid \<equiv> next_id L OR OVERLAY_BIT"
  shows "is_overlay_id fid" "raw_of fid = next_id L" "Mapping.lookup (file_paths L) fid = None"
proof -
  show "is_overlay_id fid"
  proof -
    have "bit (fid AND OVERLAY_BIT) 31"
      by (simp add: fid_def bit_and_iff bit_or_iff)
    then show ?thesis unfolding is_overlay_id_def by auto
  qed
  have "\<not> bit (next_id L) 31"
  proof
    assume "bit (next_id L) 31"
    moreover have "unat (next_id L) < 2 ^ 31" using room by (simp add: word_less_nat_alt)
    then have "take_bit 31 (unat (next_id L)) = unat (next_id L)" by (rule take_bit_nat_eq_self)
    moreover have "bit (unat (next_id L)) 31 \<longleftrightarrow> bit (next_id L) 31"
      by (simp add: bit_unsigned_iff)
    ultimately show False by (metis bit_take_bit_iff less_irrefl)
  qed
  then show raw: "raw_of fid = next_id L"
    unfolding raw_of_def fid_def
    by (intro bit_word_eqI) (auto simp: bit_and_iff bit_or_iff bit_not_iff)
  show "Mapping.lookup (file_paths L) fid = None"
    using live_invD(7) [OF inv, of fid] raw by force
qed

lemma inserted_inv:
  assumes inv: "live_inv L" and room: "next_id L < 0x80000000"
    and new: "Mapping.lookup (path_to_id L) p = None"
    and ins: "inserted p (next_id L OR OVERLAY_BIT) K per L L'"
  shows "live_inv L'"
    and "overlay_of L' = (overlay_of L)
      (p := Active (\<lambda>tri. if tri \<in> K then Some (case per tri of Some m \<Rightarrow> m | None \<Rightarrow> no_filter) else None))"
proof -
  let ?fid = "next_id L OR OVERLAY_BIT"
  note fresh = fresh_id [OF inv room]
  have no_ids: "?fid \<notin> ids_of L tri" for tri using live_invD(2) [OF inv] fresh(3) by blast
  have no_masks: "Mapping.lookup (masks L) (tri, ?fid) = None" for tri
    using live_invD(4) [OF inv, of tri ?fid] no_ids by blast
  have tab: "file_paths L' = Mapping.update ?fid p (file_paths L)"
    "path_to_id L' = Mapping.update p ?fid (path_to_id L)"
    "ids_of L' tri = (if tri \<in> K then insert ?fid (ids_of L tri) else ids_of L tri)"
    "Mapping.lookup (inverted L') tri \<noteq> Some {}"
    "Mapping.lookup (masks L') (tri, f) =
        (if f = ?fid \<and> tri \<in> K \<and> per tri \<noteq> None then per tri
         else Mapping.lookup (masks L) (tri, f))"
    "deleted_paths L' = deleted_paths L - {p}" "next_id L' = next_id L + 1" for tri f
    using ins unfolding inserted_def by blast+
  have next_le: "next_id L + 1 \<le> 0x80000000" using room by (rule inc_le)
  have "unat (next_id L + 1) = unat (next_id L) + 1"
    using room by (simp add: unat_word_ariths word_less_nat_alt)
  then have next_less: "next_id L < next_id L + 1" by (simp add: word_less_nat_alt)
  show "live_inv L'"
    unfolding live_inv_def
  proof (intro conjI allI impI)
    fix fid q
    show "Mapping.lookup (file_paths L') fid = Some q \<longleftrightarrow> Mapping.lookup (path_to_id L') q = Some fid"
      using live_invD(1) [OF inv, of fid q] new fresh(3) live_invD(1) [OF inv, of ?fid q]
        live_invD(1) [OF inv, of fid p]
      by (auto simp: tab lookup_update')
  next
    fix tri fid
    assume "fid \<in> ids_of L' tri"
    then show "Mapping.lookup (file_paths L') fid \<noteq> None"
      using live_invD(2) [OF inv, of fid tri] by (auto simp: tab lookup_update' split: if_splits)
  next
    fix tri
    show "Mapping.lookup (inverted L') tri \<noteq> Some {}" by (rule tab)
  next
    fix tri fid
    assume "Mapping.lookup (masks L') (tri, fid) \<noteq> None"
    then show "fid \<in> ids_of L' tri"
      using live_invD(4) [OF inv, of tri fid] by (auto simp: tab split: if_splits)
  next
    fix q
    assume "q \<in> deleted_paths L'"
    then show "Mapping.lookup (path_to_id L') q = None"
      using live_invD(5) [OF inv, of q] by (auto simp: tab lookup_update')
  next
    fix fid
    assume "Mapping.lookup (file_paths L') fid \<noteq> None"
    then have "fid = ?fid \<or> Mapping.lookup (file_paths L) fid \<noteq> None"
      by (auto simp: tab lookup_update' split: if_splits)
    then show "is_overlay_id fid" "raw_of fid < next_id L'"
      using fresh live_invD(6,7) [OF inv, of fid] next_less
      by (auto simp: tab intro: order.strict_trans)
  qed (simp add: tab next_le)
  have "entry_masks L' ?fid = (\<lambda>tri. if tri \<in> K then Some (case per tri of Some m \<Rightarrow> m | None \<Rightarrow> no_filter) else None)"
    using no_ids no_masks by (auto simp: entry_masks_def get_masks_def tab fun_eq_iff split: option.split)
  moreover have "entry_masks L' fid = entry_masks L fid" if "fid \<noteq> ?fid" for fid
    using that by (auto simp: entry_masks_def get_masks_def tab fun_eq_iff)
  moreover have "fid \<noteq> ?fid" if "Mapping.lookup (path_to_id L) q = Some fid" for q fid
    using that live_invD(1) [OF inv, of fid q] fresh(3) by auto
  ultimately show "overlay_of L' = (overlay_of L)
      (p := Active (\<lambda>tri. if tri \<in> K then Some (case per tri of Some m \<Rightarrow> m | None \<Rightarrow> no_filter) else None))"
    by (auto simp: overlay_of_def tab lookup_update' fun_eq_iff split: option.split)
qed

lemma insert_posting_lookup:
  "Mapping.lookup (insert_posting fid tri m) t =
     (if t = tri then Some (insert fid (case Mapping.lookup m tri of Some ids \<Rightarrow> ids | None \<Rightarrow> {}))
      else Mapping.lookup m t)"
  by (simp add: insert_posting_def lookup_update')

lemma fold_insert_masks:
  fixes L :: live_index and per :: mask_map and fid :: u32
  defines "step \<equiv> (\<lambda>tri self. self\<lparr>
      inverted := insert_posting fid tri (inverted self),
      masks := Mapping.update (tri, fid) (the (Mapping.lookup per tri)) (masks self)\<rparr>)"
  shows "ids_of (fold step ks L) t = (if t \<in> set ks then insert fid (ids_of L t) else ids_of L t)
    \<and> (Mapping.lookup (inverted L) t \<noteq> Some {} \<longrightarrow> Mapping.lookup (inverted (fold step ks L)) t \<noteq> Some {})
    \<and> Mapping.lookup (masks (fold step ks L)) (t, f) =
       (if f = fid \<and> t \<in> set ks then Some (the (Mapping.lookup per t)) else Mapping.lookup (masks L) (t, f))
    \<and> file_paths (fold step ks L) = file_paths L \<and> path_to_id (fold step ks L) = path_to_id L
    \<and> deleted_paths (fold step ks L) = deleted_paths L \<and> next_id (fold step ks L) = next_id L
    \<and> dirty_count (fold step ks L) = dirty_count L"
proof (induction ks arbitrary: L)
  case (Cons k ks)
  have "ids_of (step k L) t = (if t = k then insert fid (ids_of L t) else ids_of L t)"
    by (simp add: ids_of_def step_def insert_posting_lookup)
  moreover have "Mapping.lookup (inverted L) t \<noteq> Some {} \<longrightarrow>
      Mapping.lookup (inverted (step k L)) t \<noteq> Some {}"
    by (simp add: step_def insert_posting_lookup)
  moreover have "Mapping.lookup (masks (step k L)) (t, f) =
      (if f = fid \<and> t = k then Some (the (Mapping.lookup per k)) else Mapping.lookup (masks L) (t, f))"
    by (auto simp: step_def lookup_update')
  moreover have "file_paths (step k L) = file_paths L" "path_to_id (step k L) = path_to_id L"
    "deleted_paths (step k L) = deleted_paths L" "next_id (step k L) = next_id L"
    "dirty_count (step k L) = dirty_count L"
    by (simp_all add: step_def)
  ultimately show ?case
    using Cons.IH [of "step k L"] by (cases "t = k"; cases "t \<in> set ks"; simp)
qed simp

lemma fold_insert_postings:
  fixes L :: live_index and fid :: u32
  defines "step \<equiv> (\<lambda>tri self. self\<lparr>inverted := insert_posting fid tri (inverted self)\<rparr>)"
  shows "ids_of (fold step ks L) t = (if t \<in> set ks then insert fid (ids_of L t) else ids_of L t)
    \<and> (Mapping.lookup (inverted L) t \<noteq> Some {} \<longrightarrow> Mapping.lookup (inverted (fold step ks L)) t \<noteq> Some {})
    \<and> masks (fold step ks L) = masks L
    \<and> file_paths (fold step ks L) = file_paths L \<and> path_to_id (fold step ks L) = path_to_id L
    \<and> deleted_paths (fold step ks L) = deleted_paths L \<and> next_id (fold step ks L) = next_id L"
proof (induction ks arbitrary: L)
  case (Cons k ks)
  have "ids_of (step k L) t = (if t = k then insert fid (ids_of L t) else ids_of L t)"
    by (simp add: ids_of_def step_def insert_posting_lookup)
  moreover have "Mapping.lookup (inverted L) t \<noteq> Some {} \<longrightarrow>
      Mapping.lookup (inverted (step k L)) t \<noteq> Some {}"
    by (simp add: step_def insert_posting_lookup)
  moreover have "file_paths (step k L) = file_paths L" "path_to_id (step k L) = path_to_id L"
    "deleted_paths (step k L) = deleted_paths L" "next_id (step k L) = next_id L"
    "masks (step k L) = masks L"
    by (simp_all add: step_def)
  ultimately show ?case
    using Cons.IH [of "step k L"] by (cases "t = k"; cases "t \<in> set ks"; simp)
qed simp

subsection \<open>The operations keep the invariant and update the abstract overlay\<close>

lemma ordered_keys_mask_map [simp]: "set (Mapping.ordered_keys (m :: mask_map)) = Mapping.keys m"
  by (simp add: Mapping.ordered_keys_def)

lemma commit_upsert_inserted:
  assumes inv: "live_inv L"
  shows "inserted p (next_id L OR OVERLAY_BIT) (Mapping.keys per_tri) (Mapping.lookup per_tri)
    (remove_overlay_entry p L) (commit_upsert p per_tri L)"
proof -
  let ?base = "remove_overlay_entry p L"
  have next0: "next_id ?base = next_id L" by (rule drop_old(4) [OF inv])
  have inv0: "live_inv ?base" by (rule drop_old(1) [OF inv])
  let ?fid = "next_id L OR OVERLAY_BIT"
  let ?L = "?base\<lparr>next_id := next_id L + 1\<rparr>"
  define F where "F = fold (\<lambda>tri self. self\<lparr>inverted := insert_posting ?fid tri (inverted self),
      masks := Mapping.update (tri, ?fid) (the (Mapping.lookup per_tri tri)) (masks self)\<rparr>)
      (Mapping.ordered_keys per_tri) ?L"
  have eq: "commit_upsert p per_tri L = register_path p ?fid F"
    unfolding commit_upsert_def remove_overlay_entry_def [symmetric] Let_def next0 F_def ..
  note F = fold_insert_masks [of ?fid per_tri "Mapping.ordered_keys per_tri" ?L, folded F_def]
  have ids: "ids_of (commit_upsert p per_tri L) tri =
      (if tri \<in> Mapping.keys per_tri then insert ?fid (ids_of ?base tri) else ids_of ?base tri)" for tri
    using F [of tri] by (simp add: eq register_path_def ids_of_def)
  have ne: "Mapping.lookup (inverted (commit_upsert p per_tri L)) tri \<noteq> Some {}" for tri
    using F [of tri] live_invD(3) [OF inv0, of tri] by (simp add: eq register_path_def)
  have ms: "Mapping.lookup (masks (commit_upsert p per_tri L)) (tri, f) =
      (if f = ?fid \<and> tri \<in> Mapping.keys per_tri \<and> Mapping.lookup per_tri tri \<noteq> None
       then Mapping.lookup per_tri tri else Mapping.lookup (masks ?base) (tri, f))" for tri f
    using F [of tri f] by (auto simp: eq register_path_def keys_dom_lookup)
  have F': "file_paths F = file_paths ?base" "path_to_id F = path_to_id ?base"
    "deleted_paths F = deleted_paths ?base" "next_id F = next_id ?base + 1"
    using F [of 0 0] next0 by simp_all
  have "file_paths (commit_upsert p per_tri L) = Mapping.update ?fid p (file_paths ?base)"
    by (simp add: eq register_path_def F')
  moreover have "path_to_id (commit_upsert p per_tri L) = Mapping.update p ?fid (path_to_id ?base)"
    by (simp add: eq register_path_def F')
  moreover have "deleted_paths (commit_upsert p per_tri L) = deleted_paths ?base - {p}"
    by (simp add: eq register_path_def F')
  moreover have "next_id (commit_upsert p per_tri L) = next_id ?base + 1"
    by (simp add: eq register_path_def F')
  ultimately show ?thesis unfolding inserted_def using ids ne ms by blast
qed

lemma upsert_with_trigrams_inserted:
  assumes inv: "live_inv L"
  shows "inserted p (next_id L OR OVERLAY_BIT) (set trigrams) (\<lambda>_. None)
    (remove_overlay_entry p L) (upsert_file_with_trigrams p trigrams L)"
proof -
  let ?base = "remove_overlay_entry p L"
  have next0: "next_id ?base = next_id L" by (rule drop_old(4) [OF inv])
  have inv0: "live_inv ?base" by (rule drop_old(1) [OF inv])
  let ?fid = "next_id L OR OVERLAY_BIT"
  let ?step = "?base\<lparr>next_id := next_id L + 1\<rparr>"
  define F where "F = fold (\<lambda>tri self. self\<lparr>inverted := insert_posting ?fid tri (inverted self)\<rparr>)
      trigrams ?step"
  have eq: "upsert_file_with_trigrams p trigrams L = register_path p ?fid F"
    unfolding upsert_file_with_trigrams_def remove_overlay_entry_def [symmetric] Let_def next0 F_def ..
  note F = fold_insert_postings [of ?fid trigrams ?step, folded F_def]
  have "ids_of (register_path p ?fid F) tri =
      (if tri \<in> set trigrams then insert ?fid (ids_of ?base tri) else ids_of ?base tri)" for tri
    using F [of tri] by (simp add: register_path_def ids_of_def)
  moreover have "Mapping.lookup (inverted (register_path p ?fid F)) tri \<noteq> Some {}" for tri
    using F [of tri] live_invD(3) [OF inv0, of tri] by (simp add: register_path_def)
  ultimately show ?thesis
    unfolding inserted_def eq using F [of 0] by (simp add: register_path_def next0)
qed

lemma commit_upsert_overlay:
  assumes inv: "live_inv L" and room: "next_id L < 0x80000000"
  shows "live_inv (commit_upsert p per_tri L)"
    and "overlay_of (commit_upsert p per_tri L) =
      (overlay_of L)(p := Active (Mapping.lookup per_tri))"
    and "next_id (commit_upsert p per_tri L) = next_id L + 1"
proof -
  let ?base = "remove_overlay_entry p L"
  note b = drop_old [OF inv, of p]
  have ins: "inserted p (next_id ?base OR OVERLAY_BIT) (Mapping.keys per_tri) (Mapping.lookup per_tri)
    ?base (commit_upsert p per_tri L)"
    using commit_upsert_inserted [OF inv] by (simp add: b(4))
  have room': "next_id ?base < 0x80000000" using room by (simp add: b(4))
  show "live_inv (commit_upsert p per_tri L)" by (rule inserted_inv(1) [OF b(1) room' b(2) ins])
  have "overlay_of (commit_upsert p per_tri L) = (overlay_of ?base)(p := Active (\<lambda>tri.
      if tri \<in> Mapping.keys per_tri
      then Some (case Mapping.lookup per_tri tri of Some m \<Rightarrow> m | None \<Rightarrow> no_filter) else None))"
    by (rule inserted_inv(2) [OF b(1) room' b(2) ins])
  also have "\<dots> = (overlay_of L)(p := Active (Mapping.lookup per_tri))"
  proof -
    have "(\<lambda>tri. if tri \<in> Mapping.keys per_tri
      then Some (case Mapping.lookup per_tri tri of Some m \<Rightarrow> m | None \<Rightarrow> no_filter) else None) =
      Mapping.lookup per_tri"
      by (auto simp: keys_dom_lookup fun_eq_iff split: option.split)
    then show ?thesis by (auto simp: b(3) fun_eq_iff)
  qed
  finally show "overlay_of (commit_upsert p per_tri L) =
      (overlay_of L)(p := Active (Mapping.lookup per_tri))" .
  show "next_id (commit_upsert p per_tri L) = next_id L + 1"
    using ins by (simp add: inserted_def b(4))
qed

lemma upsert_with_trigrams_overlay:
  assumes inv: "live_inv L" and room: "next_id L < 0x80000000"
  shows "live_inv (upsert_file_with_trigrams p trigrams L)"
    and "overlay_of (upsert_file_with_trigrams p trigrams L) =
      (overlay_of L)(p := Active (\<lambda>tri. if tri \<in> set trigrams then Some no_filter else None))"
    and "next_id (upsert_file_with_trigrams p trigrams L) = next_id L + 1"
proof -
  let ?base = "remove_overlay_entry p L"
  note b = drop_old [OF inv, of p]
  have ins: "inserted p (next_id ?base OR OVERLAY_BIT) (set trigrams) (\<lambda>_. None)
    ?base (upsert_file_with_trigrams p trigrams L)"
    using upsert_with_trigrams_inserted [OF inv] by (simp add: b(4))
  have room': "next_id ?base < 0x80000000" using room by (simp add: b(4))
  show "live_inv (upsert_file_with_trigrams p trigrams L)"
    by (rule inserted_inv(1) [OF b(1) room' b(2) ins])
  show "overlay_of (upsert_file_with_trigrams p trigrams L) =
      (overlay_of L)(p := Active (\<lambda>tri. if tri \<in> set trigrams then Some no_filter else None))"
    using inserted_inv(2) [OF b(1) room' b(2) ins] by (auto simp: b(3) fun_eq_iff)
  show "next_id (upsert_file_with_trigrams p trigrams L) = next_id L + 1"
    using ins by (simp add: inserted_def b(4))
qed

lemma delete_file_overlay:
  assumes inv: "live_inv L"
  shows "live_inv (delete_file p L)"
    and "overlay_of (delete_file p L) = (overlay_of L)(p := Tombstone)"
proof -
  let ?base = "remove_overlay_entry p L"
  note b = drop_old [OF inv, of p]
  have eq: "delete_file p L = ?base\<lparr>deleted_paths := insert p (deleted_paths ?base),
      dirty_count := dirty_count ?base + 1\<rparr>"
    by (simp add: delete_file_def remove_overlay_entry_def Let_def)
  show "live_inv (delete_file p L)"
    using b(1,2) by (auto simp: eq live_inv_def ids_of_def)
  have "overlay_of (delete_file p L) q = ((overlay_of L)(p := Tombstone)) q" for q
  proof (cases "q = p")
    case True
    then show ?thesis by (simp add: eq overlay_of_def b(2))
  next
    case False
    then have "overlay_of (delete_file p L) q = overlay_of ?base q"
      by (simp add: eq overlay_of_def split: option.split)
    with False show ?thesis by (simp add: b(3))
  qed
  then show "overlay_of (delete_file p L) = (overlay_of L)(p := Tombstone)" by blast
qed

lemma remove_overlay_entry_overlay:
  assumes inv: "live_inv L"
  shows "live_inv (remove_overlay_entry p L)"
    and "overlay_of (remove_overlay_entry p L) q =
      (if q = p \<and> overlay_of L p \<noteq> Tombstone then Untouched else overlay_of L q)"
  by (rule drop_old [OF inv])+

subsection \<open>Removing many entries\<close>

definition ids_of_paths :: "path list \<Rightarrow> live_index \<Rightarrow> u32 set" where
  "ids_of_paths paths L = {fid. \<exists>p\<in>set paths. Mapping.lookup (path_to_id L) p = Some fid}"

lemma unregister_loop_result:
  assumes "unregister_loop paths L ids = (L', ids')"
  shows "ids' = ids \<union> ids_of_paths paths L"
    and "Mapping.lookup (path_to_id L') q =
      (if q \<in> set paths then None else Mapping.lookup (path_to_id L) q)"
    and "Mapping.lookup (file_paths L') fid =
      (if fid \<in> ids_of_paths paths L then None else Mapping.lookup (file_paths L) fid)"
    and "inverted L' = inverted L \<and> masks L' = masks L \<and> deleted_paths L' = deleted_paths L
      \<and> next_id L' = next_id L \<and> dirty_count L' = dirty_count L"
proof -
  have "ids' = ids \<union> ids_of_paths paths L \<and>
    (\<forall>q. Mapping.lookup (path_to_id L') q =
      (if q \<in> set paths then None else Mapping.lookup (path_to_id L) q)) \<and>
    (\<forall>fid. Mapping.lookup (file_paths L') fid =
      (if fid \<in> ids_of_paths paths L then None else Mapping.lookup (file_paths L) fid)) \<and>
    inverted L' = inverted L \<and> masks L' = masks L \<and> deleted_paths L' = deleted_paths L
      \<and> next_id L' = next_id L \<and> dirty_count L' = dirty_count L"
    using assms
  proof (induction paths L ids arbitrary: L' ids' rule: unregister_loop.induct)
    case (1 self ids)
    then show ?case by (simp add: ids_of_paths_def)
  next
    case (2 p paths self ids)
    show ?case
    proof (cases "Mapping.lookup (path_to_id self) p")
      case None
      then have ids: "ids_of_paths (p # paths) self = ids_of_paths paths self"
        by (auto simp: ids_of_paths_def)
      have drop: "(if q \<in> set (p # paths) then None else Mapping.lookup (path_to_id self) q) =
          (if q \<in> set paths then None else Mapping.lookup (path_to_id self) q)" for q
        using None by auto
      have "unregister_loop paths self ids = (L', ids')" using "2.prems" None by simp
      then show ?thesis unfolding ids drop by (rule "2.IH"(1) [OF None])
    next
      case (Some fid)
      let ?self = "self\<lparr>path_to_id := Mapping.delete p (path_to_id self),
        file_paths := Mapping.delete fid (file_paths self)\<rparr>"
      have ids: "insert fid (ids_of_paths paths ?self) = ids_of_paths (p # paths) self"
        using Some by (auto simp: ids_of_paths_def lookup_delete_if split: if_splits)
          (metis option.inject)
      have "unregister_loop paths ?self (insert fid ids) = (L', ids')"
        using "2.prems" Some by simp
      note IH = "2.IH"(2) [OF Some this]
      have 1: "ids' = insert fid ids \<union> ids_of_paths paths ?self" using IH by blast
      have 2: "Mapping.lookup (path_to_id L') q =
        (if q \<in> set paths then None else Mapping.lookup (Mapping.delete p (path_to_id self)) q)" for q
        using IH by simp
      have 3: "Mapping.lookup (file_paths L') f =
        (if f \<in> ids_of_paths paths ?self then None
         else Mapping.lookup (Mapping.delete fid (file_paths self)) f)" for f
        using IH by simp
      have 4: "inverted L' = inverted self \<and> masks L' = masks self \<and>
        deleted_paths L' = deleted_paths self \<and> next_id L' = next_id self \<and>
        dirty_count L' = dirty_count self"
        using IH by simp
      show ?thesis unfolding ids [symmetric] 1 2 3 lookup_delete_if
        by (intro conjI allI 4) (simp_all add: 4)
    qed
  qed
  then show "ids' = ids \<union> ids_of_paths paths L"
    and "Mapping.lookup (path_to_id L') q =
      (if q \<in> set paths then None else Mapping.lookup (path_to_id L) q)"
    and "Mapping.lookup (file_paths L') fid =
      (if fid \<in> ids_of_paths paths L then None else Mapping.lookup (file_paths L) fid)"
    and "inverted L' = inverted L \<and> masks L' = masks L \<and> deleted_paths L' = deleted_paths L
      \<and> next_id L' = next_id L \<and> dirty_count L' = dirty_count L"
    by blast+
qed

lemma mapping_is_empty_iff: "Mapping.is_empty m \<longleftrightarrow> (\<forall>k. Mapping.lookup m k = None)"
  by (auto simp: Mapping.is_empty_def keys_dom_lookup)

lemma batch_remove_dropped:
  assumes inv: "live_inv L"
  shows "dropped (ids_of_paths paths L) L (batch_remove_overlay_entries paths L)"
proof -
  obtain L' ids where run: "unregister_loop paths L {} = (L', ids)" by fastforce
  note r = unregister_loop_result [OF run]
  let ?R = "ids_of_paths paths L"
  have ids: "ids = ?R" using r(1) by simp
  have registered: "fid \<in> ids_of L tri \<Longrightarrow> \<exists>p. Mapping.lookup (path_to_id L) p = Some fid" for fid tri
    using live_invD(1,2) [OF inv, of fid] by blast
  have paths: "Mapping.lookup (path_to_id L') p = (case Mapping.lookup (path_to_id L) p of
      Some fid \<Rightarrow> if fid \<in> ?R then None else Some fid | None \<Rightarrow> None)" for p
  proof (cases "Mapping.lookup (path_to_id L) p")
    case (Some fid)
    have "fid \<in> ?R \<longleftrightarrow> p \<in> set paths"
      using Some live_invD(1) [OF inv, of fid] by (auto simp: ids_of_paths_def) (metis option.sel)
    with Some show ?thesis by (simp add: r(2))
  qed (simp add: r(2))
  have fin: "dropped ?R L B"
    if "path_to_id B = path_to_id L'" "file_paths B = file_paths L'"
      "deleted_paths B = deleted_paths L'" "next_id B = next_id L'"
      "\<And>tri. ids_of B tri = ids_of L tri - ?R"
      "\<And>tri. Mapping.lookup (inverted B) tri \<noteq> Some {}"
      "\<And>tri fid. Mapping.lookup (masks B) (tri, fid) =
        (if fid \<in> ?R then None else Mapping.lookup (masks L) (tri, fid))"
    for B :: live_index
    unfolding dropped_def that(1-4) using that(5-7) r(4) by (simp add: paths r(3))
  show ?thesis
  proof (cases "paths = [] \<or> ids = {}")
    case True
    then have R: "?R = {}" using ids by (auto simp: ids_of_paths_def)
    have "batch_remove_overlay_entries paths L = (if paths = [] then L else L')"
      using True run by (auto simp: batch_remove_overlay_entries_def)
    then show ?thesis
      using r(4) live_invD(3) [OF inv] r(3) paths
      by (auto simp: dropped_def R ids_of_def split: option.split)
  next
    case False
    note eq = batch_remove_overlay_entries_def [of paths L]
    show ?thesis
    proof (cases "Mapping.is_empty (path_to_id L')")
      case True
      have all: "fid \<in> ?R" if "fid \<in> ids_of L tri" for fid tri
      proof -
        obtain p where p: "Mapping.lookup (path_to_id L) p = Some fid"
          using registered \<open>fid \<in> ids_of L tri\<close> by blast
        have "Mapping.lookup (path_to_id L') p = None"
          using True by (simp add: mapping_is_empty_iff)
        with paths [of p] p show ?thesis by (simp split: if_splits)
      qed
      have "batch_remove_overlay_entries paths L =
          L'\<lparr>inverted := Mapping.empty, masks := Mapping.empty\<rparr>"
        using False True run by (simp add: eq)
      moreover have "Mapping.lookup (masks L) (tri, fid) = None" if "fid \<notin> ?R" for tri fid
        using that all live_invD(4) [OF inv] by blast
      moreover have "ids_of L tri - ?R = {}" for tri using all by blast
      ultimately show ?thesis
        by (intro fin) (simp_all add: ids_of_def [of "_ \<lparr>inverted := _, masks := _\<rparr>"])
    next
      case ne: False
      let ?B = "L'\<lparr>inverted := Mapping.filter (\<lambda>_ ids'. ids' \<noteq> {})
               (Mapping.map_values (\<lambda>_ ids'. ids' - ids) (inverted L')),
             masks := Mapping.filter (\<lambda>(_, fid) _. fid \<notin> ids) (masks L')\<rparr>"
      have "batch_remove_overlay_entries paths L = ?B"
        using False ne run by (simp add: eq)
      moreover have "ids_of ?B tri = ids_of L tri - ?R" for tri
        using r(4) by (auto simp: ids_of_def lookup_filter lookup_map_values ids split: option.split)
      moreover have "Mapping.lookup (inverted ?B) tri \<noteq> Some {}" for tri
        by (auto simp: lookup_filter lookup_map_values split: option.split)
      moreover have "Mapping.lookup (masks ?B) (tri, fid) =
          (if fid \<in> ?R then None else Mapping.lookup (masks L) (tri, fid))" for tri fid
        using r(4) by (auto simp: lookup_filter ids split: option.split)
      ultimately show ?thesis by (intro fin) simp_all
    qed
  qed
qed

lemma batch_remove_overlay:
  assumes inv: "live_inv L"
  shows "live_inv (batch_remove_overlay_entries paths L)"
    and "overlay_of (batch_remove_overlay_entries paths L) p =
      (if p \<in> set paths \<and> overlay_of L p \<noteq> Tombstone then Untouched else overlay_of L p)"
proof -
  note d = batch_remove_dropped [OF inv, of paths]
  show "live_inv (batch_remove_overlay_entries paths L)" by (rule dropped_inv [OF inv d])
  show "overlay_of (batch_remove_overlay_entries paths L) p =
      (if p \<in> set paths \<and> overlay_of L p \<noteq> Tombstone then Untouched else overlay_of L p)"
  proof (cases "Mapping.lookup (path_to_id L) p")
    case None
    then show ?thesis by (simp add: dropped_overlay [OF d]) (simp add: overlay_of_def)
  next
    case (Some fid)
    have "q = p" if "Mapping.lookup (path_to_id L) q = Some fid" for q
      using that Some live_invD(1) [OF inv, of fid q] live_invD(1) [OF inv, of fid p] by simp
    then have "fid \<in> ids_of_paths paths L \<longleftrightarrow> p \<in> set paths"
      using Some unfolding ids_of_paths_def by blast
    moreover have "p \<notin> deleted_paths L" using live_invD(5) [OF inv, of p] Some by auto
    ultimately show ?thesis
      by (simp add: dropped_overlay [OF d] Some) (simp add: overlay_of_def Some)
  qed
qed

lemma fold_forget:
  "fold (\<lambda>path self. self\<lparr>deleted_paths := deleted_paths self - {path}\<rparr>) paths L =
     L\<lparr>deleted_paths := deleted_paths L - set paths\<rparr>"
proof (induction paths arbitrary: L)
  case (Cons p paths)
  have "D - {p} - set paths = D - insert p (set paths)" for D :: "path set" by auto
  then show ?case by (simp add: Cons.IH)
qed simp

lemma clear_reconciled_overlay:
  assumes inv: "live_inv L"
  shows "live_inv (clear_reconciled_paths paths L)"
    and "overlay_of (clear_reconciled_paths paths L) p =
      (if p \<in> set paths then Untouched else overlay_of L p)"
proof -
  let ?B = "batch_remove_overlay_entries paths L"
  note b = batch_remove_overlay [OF inv, of paths]
  have eq: "clear_reconciled_paths paths L = ?B\<lparr>deleted_paths := deleted_paths ?B - set paths\<rparr>"
    by (simp add: clear_reconciled_paths_def fold_forget)
  show "live_inv (clear_reconciled_paths paths L)"
    using b(1) by (auto simp: eq live_inv_def ids_of_def)
  have "overlay_of (clear_reconciled_paths paths L) p =
      (if p \<in> set paths \<and> overlay_of ?B p = Tombstone then Untouched else overlay_of ?B p)"
    by (simp add: eq overlay_of_def split: option.split)
  then show "overlay_of (clear_reconciled_paths paths L) p =
      (if p \<in> set paths then Untouched else overlay_of L p)"
    by (auto simp: b(2))
qed

lemma active_iff: "(\<exists>t. overlay_of L p = Active t) \<longleftrightarrow> Mapping.lookup (path_to_id L) p \<noteq> None"
  by (auto simp: overlay_of_def split: option.split)

lemma try_drop_overlay:
  assumes inv: "live_inv L"
  shows "live_inv (snd (try_drop_all_persisted reader_paths L))"
    and "fst (try_drop_all_persisted reader_paths L) \<longleftrightarrow>
      (\<forall>p. (\<forall>t. overlay_of L p = Active t \<longrightarrow> p \<in> reader_paths) \<and>
           (overlay_of L p = Tombstone \<longrightarrow> p \<notin> reader_paths))"
    and "overlay_of (snd (try_drop_all_persisted reader_paths L)) p =
      (if fst (try_drop_all_persisted reader_paths L) then Untouched else overlay_of L p)"
proof -
  show "live_inv (snd (try_drop_all_persisted reader_paths L))"
    using inv by (auto simp: try_drop_all_persisted_def live_inv_def ids_of_def)
  have act: "p \<in> Mapping.keys (path_to_id L) \<longleftrightarrow> (\<exists>t. overlay_of L p = Active t)" for p
    by (simp add: active_iff keys_dom_lookup) blast
  have tomb: "p \<in> deleted_paths L \<longleftrightarrow> overlay_of L p = Tombstone" for p
    using live_invD(5) [OF inv, of p] by (auto simp: overlay_of_def split: option.split)
  show "fst (try_drop_all_persisted reader_paths L) \<longleftrightarrow>
      (\<forall>p. (\<forall>t. overlay_of L p = Active t \<longrightarrow> p \<in> reader_paths) \<and>
           (overlay_of L p = Tombstone \<longrightarrow> p \<notin> reader_paths))"
    using act tomb by (auto simp: try_drop_all_persisted_def)
  show "overlay_of (snd (try_drop_all_persisted reader_paths L)) p =
      (if fst (try_drop_all_persisted reader_paths L) then Untouched else overlay_of L p)"
    by (simp add: try_drop_all_persisted_def) (simp add: overlay_of_def)
qed

section \<open>The overlay as a provider of posting lists\<close>

lemma find_map_key: "find (\<lambda>e. file_id e = fid) (map f xs) =
    (if fid \<in> set xs then Some (f fid) else None)"
  if "\<And>x. file_id (f x) = x"
  using that by (induction xs) auto

lemma entry_for_live:
  assumes "iteration iter"
  shows "entry_for fid (live_lookup_trigram_with_masks iter L h) =
    map_option (posting_of fid) (entry_masks L fid h)"
proof (cases "Mapping.lookup (inverted L) h")
  case None
  then show ?thesis
    by (simp add: live_lookup_trigram_with_masks_def entry_for_def entry_masks_def ids_of_def)
next
  case (Some ids)
  then show ?thesis
    by (simp add: live_lookup_trigram_with_masks_def entry_for_def entry_masks_def ids_of_def
        find_map_key set_iteration [OF assms] get_masks_def posting_of_def Let_def)
qed

interpretation live_postings:
  exact_posting_source "live_lookup_trigram_with_masks (order_of iter) L" "entry_masks L"
  for iter L
  by unfold_locales (rule entry_for_live, simp)

section \<open>The snapshot for the disk\<close>

lemma overlay_ids_raw_inject:
  assumes "is_overlay_id f" "is_overlay_id g" "raw_of f = raw_of g"
  shows "f = g"
proof (rule bit_word_eqI)
  fix k
  assume k: "k < LENGTH(32)"
  have set31: "bit h 31" if "is_overlay_id h" for h
  proof (rule ccontr)
    assume "\<not> bit h 31"
    then have "h AND OVERLAY_BIT = 0" by (intro bit_word_eqI) (auto simp: bit_and_iff)
    with that show False by (simp add: is_overlay_id_def)
  qed
  have "bit (raw_of f) k \<longleftrightarrow> bit (raw_of g) k" using assms(3) by simp
  then show "bit f k \<longleftrightarrow> bit g k"
    using set31 assms(1,2) k by (cases "k = 31") (auto simp: raw_of_def bit_and_iff bit_not_iff)
qed

text \<open>The identifiers of the snapshot, in the order of their insertion.\<close>

definition snapshot_ids :: "(u32 set \<Rightarrow> u32 list) \<Rightarrow> live_index \<Rightarrow> u32 list" where
  "snapshot_ids iter L = sort_key raw_of (iter (Mapping.keys (file_paths L)))"

lemma ordered_pairs_ids:
  "ordered_pairs iter (file_paths L) =
     map (\<lambda>fid. (fid, the (Mapping.lookup (file_paths L) fid))) (snapshot_ids iter L)"
  by (simp add: ordered_pairs_def snapshot_ids_def sort_key_map)

lemma all_paths_ordered_ids:
  "all_paths_ordered iter L =
     map (\<lambda>fid. the (Mapping.lookup (file_paths L) fid)) (snapshot_ids iter L)"
  by (simp add: all_paths_ordered_def ordered_pairs_ids comp_def)

lemma snapshot_ids:
  assumes inv: "live_inv L" and iter: "iteration iter"
  shows "set (snapshot_ids iter L) = Mapping.keys (file_paths L)"
    and "ascending (map raw_of (snapshot_ids iter L))"
    and "distinct (all_paths_ordered iter L)"
    and "set (all_paths_ordered iter L) = Mapping.keys (path_to_id L)"
proof -
  let ?ids = "snapshot_ids iter L"
  show set: "set ?ids = Mapping.keys (file_paths L)"
    by (simp add: snapshot_ids_def set_iteration [OF iter])
  have dist: "distinct ?ids" by (simp add: snapshot_ids_def distinct_iteration [OF iter])
  have reg: "Mapping.lookup (file_paths L) f \<noteq> None" if "f \<in> set ?ids" for f
    using that by (auto simp: set keys_dom_lookup)
  have "inj_on raw_of (set ?ids)"
    using reg live_invD(6) [OF inv] overlay_ids_raw_inject by (intro inj_onI) blast
  then have "distinct (map raw_of ?ids)" using dist by (simp add: distinct_map)
  moreover have "sorted (map raw_of ?ids)" by (simp add: snapshot_ids_def)
  ultimately show "ascending (map raw_of ?ids)" by (simp add: strict_sorted_iff)
  have path: "Mapping.lookup (file_paths L) f = Some p \<longleftrightarrow> Mapping.lookup (path_to_id L) p = Some f" for f p
    by (rule live_invD(1) [OF inv])
  have "inj_on (\<lambda>fid. the (Mapping.lookup (file_paths L) fid)) (set ?ids)"
  proof (rule inj_onI)
    fix f g
    assume f: "f \<in> set ?ids" and g: "g \<in> set ?ids"
      and eq: "the (Mapping.lookup (file_paths L) f) = the (Mapping.lookup (file_paths L) g)"
    from reg [OF f] reg [OF g] eq obtain p where "Mapping.lookup (file_paths L) f = Some p"
      "Mapping.lookup (file_paths L) g = Some p" by auto
    then show "f = g" using path [of f p] path [of g p] by simp
  qed
  then show "distinct (all_paths_ordered iter L)"
    using dist by (simp add: all_paths_ordered_ids distinct_map)
  show "set (all_paths_ordered iter L) = Mapping.keys (path_to_id L)"
  proof (intro set_eqI iffI)
    fix p
    assume "p \<in> set (all_paths_ordered iter L)"
    then obtain f where "f \<in> set ?ids" "p = the (Mapping.lookup (file_paths L) f)"
      by (auto simp: all_paths_ordered_ids)
    with reg have "Mapping.lookup (file_paths L) f = Some p" by auto
    then show "p \<in> Mapping.keys (path_to_id L)" using path by (auto simp: keys_dom_lookup)
  next
    fix p
    assume "p \<in> Mapping.keys (path_to_id L)"
    then obtain f where "Mapping.lookup (path_to_id L) p = Some f" by (auto simp: keys_dom_lookup)
    then have f: "Mapping.lookup (file_paths L) f = Some p" by (simp add: path)
    then have "f \<in> set ?ids" by (auto simp: set keys_dom_lookup)
    then show "p \<in> set (all_paths_ordered iter L)" using f by (force simp: all_paths_ordered_ids)
  qed
qed

lemma fold_enumerate_lookup:
  assumes "distinct ps"
  shows "Mapping.lookup (fold (\<lambda>(i, p) m. Mapping.update p (of_nat i :: u32) m) (enumerate k ps) m) q =
    (if q \<in> set ps then Some (of_nat (k + (THE i. i < length ps \<and> ps ! i = q))) else Mapping.lookup m q)"
  using assms
proof (induction ps arbitrary: k m)
  case (Cons p ps)
  show ?case
  proof (cases "q = p")
    case True
    then have "q \<notin> set ps" using Cons.prems by simp
    moreover have "(THE i. i < length (p # ps) \<and> (p # ps) ! i = q) = 0"
      by (rule the_equality) (use True \<open>q \<notin> set ps\<close> in \<open>auto simp: nth_Cons split: nat.splits\<close>)
    ultimately show ?thesis using Cons True by simp
  next
    case False
    have "(THE i. i < length (p # ps) \<and> (p # ps) ! i = q) = Suc (THE i. i < length ps \<and> ps ! i = q)"
      if "q \<in> set ps"
    proof -
      obtain i where i: "i < length ps" "ps ! i = q" using \<open>q \<in> set ps\<close> by (auto simp: in_set_conv_nth)
      then have "(THE i. i < length ps \<and> ps ! i = q) = i"
        using Cons.prems by (intro the_equality) (auto simp: nth_eq_iff_index_eq)
      moreover have "(THE i. i < length (p # ps) \<and> (p # ps) ! i = q) = Suc i"
        using i Cons.prems False
        by (intro the_equality) (auto simp: nth_Cons nth_eq_iff_index_eq split: nat.splits)
      ultimately show ?thesis by simp
    qed
    with False Cons show ?thesis by (auto simp: lookup_update')
  qed
qed simp

lemma new_id_lookup:
  assumes "distinct ps" "n < length ps"
  shows "Mapping.lookup (fold (\<lambda>(i, p) m. Mapping.update p (of_nat i :: u32) m) (enumerate 0 ps) Mapping.empty) (ps ! n)
    = Some (of_nat n)"
proof -
  have "(THE i. i < length ps \<and> ps ! i = ps ! n) = n"
    using assms by (intro the_equality) (auto simp: nth_eq_iff_index_eq)
  then show ?thesis using assms by (simp add: fold_enumerate_lookup)
qed

lemma new_id_bound:
  assumes inv: "live_inv L" and iter: "iteration iter"
  shows "length (all_paths_ordered iter L) \<le> 2 ^ 32"
proof -
  have "distinct (snapshot_ids iter L)"
    using ascending_distinct [OF snapshot_ids(2) [OF inv iter]] by (simp add: distinct_map)
  then have "length (snapshot_ids iter L) = card (set (snapshot_ids iter L))"
    by (simp add: distinct_card)
  also have "\<dots> \<le> card (UNIV :: u32 set)" by (intro card_mono) simp_all
  finally show ?thesis by (simp add: all_paths_ordered_ids card_word)
qed

lemma snapshot_posting:
  assumes inv: "live_inv L" and iter: "iteration iter"
    and snap: "snapshot_for_disk iter L = (paths, postings)"
  shows "paths = all_paths_ordered iter L"
    and "(case Mapping.lookup postings tri of Some posting \<Rightarrow> posting | None \<Rightarrow> []) =
      sorted_list_of_set {of_nat n | n. n < length paths \<and>
        (\<exists>t. overlay_of L (paths ! n) = Active t \<and> t tri \<noteq> None)}" (is "?P = sorted_list_of_set ?S")
    and "Mapping.lookup postings tri \<noteq> Some []"
proof -
  show paths: "paths = all_paths_ordered iter L"
    using snap by (auto simp: snapshot_for_disk_def remap_snapshot_def all_paths_ordered_def Let_def)
  define new where "new = fold (\<lambda>(i, p) m. Mapping.update p (of_nat i :: u32) m) (enumerate 0 paths) Mapping.empty"
  define sel where "sel = (\<lambda>fid. case Mapping.lookup (file_paths L) fid of
    Some p \<Rightarrow> Mapping.lookup new p | None \<Rightarrow> None)"
  have postings: "postings = Mapping.filter (\<lambda>_ posting. posting \<noteq> [])
      (Mapping.map_values (\<lambda>_ ids. sort (List.map_filter sel (iter ids))) (inverted L))"
    using snap unfolding sel_def new_def paths all_paths_ordered_def
    by (simp add: snapshot_for_disk_def remap_snapshot_def Let_def)
  show "Mapping.lookup postings tri \<noteq> Some []"
    by (auto simp: postings lookup_filter split: option.split)
  let ?ids = "snapshot_ids iter L"
  note ids = snapshot_ids [OF inv iter]
  have len: "length paths = length ?ids" by (simp add: paths all_paths_ordered_ids)
  have nth: "Mapping.lookup (file_paths L) (?ids ! n) = Some (paths ! n)" if "n < length paths" for n
  proof -
    have "?ids ! n \<in> Mapping.keys (file_paths L)" using that len ids(1) by (metis nth_mem)
    then show ?thesis
      using that by (auto simp: paths all_paths_ordered_ids keys_dom_lookup)
  qed
  have sel_nth: "sel (?ids ! n) = Some (of_nat n)" if "n < length paths" for n
    using that ids(3) by (simp add: sel_def nth new_id_lookup new_def paths)
  have bound: "length paths \<le> 2 ^ 32" using new_id_bound [OF inv iter] by (simp add: paths)
  have inj: "inj_on sel (set ?ids)"
  proof (rule inj_onI)
    fix f g
    assume "f \<in> set ?ids" "g \<in> set ?ids" "sel f = sel g"
    then obtain i j where ij: "i < length paths" "j < length paths" "f = ?ids ! i" "g = ?ids ! j"
      using len by (metis in_set_conv_nth)
    with \<open>sel f = sel g\<close> have "(of_nat i :: u32) = of_nat j" by (simp add: sel_nth)
    moreover have "i < 2 ^ 32" "j < 2 ^ 32" using ij bound by auto
    ultimately have "i = j" by (simp add: word_of_nat_eq_iff take_bit_nat_eq_self)
    with ij show "f = g" by simp
  qed
  define posting where "posting = List.map_filter sel (iter (ids_of L tri))"
  have sub: "ids_of L tri \<subseteq> set ?ids"
    using live_invD(2) [OF inv, of _ tri] by (auto simp: ids(1) keys_dom_lookup)
  have some: "sel f \<noteq> None" if "f \<in> set ?ids" for f
    using that sel_nth len by (metis in_set_conv_nth option.distinct(1))
  have "distinct posting"
  proof -
    have "posting = map (\<lambda>f. the (sel f)) (filter (\<lambda>f. sel f \<noteq> None) (iter (ids_of L tri)))"
      by (simp add: posting_def List.map_filter_def comp_def)
    moreover have "inj_on (\<lambda>f. the (sel f)) (set ?ids)"
    proof (rule inj_onI)
      fix f g
      assume fg: "f \<in> set ?ids" "g \<in> set ?ids" "the (sel f) = the (sel g)"
      then have "sel f = sel g" using some option.expand by metis
      then show "f = g" using inj fg by (simp add: inj_on_eq_iff)
    qed
    moreover have "set (filter (\<lambda>f. sel f \<noteq> None) (iter (ids_of L tri))) \<subseteq> set ?ids"
      using sub by (auto simp: set_iteration [OF iter])
    ultimately show ?thesis
      using distinct_iteration [OF iter, of "ids_of L tri"] by (simp add: distinct_map inj_on_subset)
  qed
  moreover have "set posting = ?S"
  proof -
    have "set posting = {n. \<exists>f\<in>ids_of L tri. sel f = Some n}"
      by (force simp: posting_def List.map_filter_def set_iteration [OF iter])
    also have "\<dots> = {of_nat n | n. n < length paths \<and> ?ids ! n \<in> ids_of L tri}" (is "?A = ?B")
    proof (intro set_eqI iffI)
      fix x
      assume "x \<in> ?A"
      then obtain f where f: "f \<in> ids_of L tri" "sel f = Some x" by blast
      then obtain n where "n < length ?ids" "?ids ! n = f" using sub by (metis in_set_conv_nth subsetD)
      with f sel_nth [of n] len show "x \<in> ?B" by auto
    next
      fix x
      assume "x \<in> ?B"
      then show "x \<in> ?A" using sel_nth by blast
    qed
    also have "\<dots> = ?S"
    proof -
      have "?ids ! n \<in> ids_of L tri \<longleftrightarrow> (\<exists>t. overlay_of L (paths ! n) = Active t \<and> t tri \<noteq> None)"
        if "n < length paths" for n
        using nth [OF that] live_invD(1) [OF inv, of "?ids ! n" "paths ! n"]
        by (simp add: overlay_of_def entry_masks_def)
      then show ?thesis by blast
    qed
    finally show ?thesis .
  qed
  ultimately have "sort posting = sorted_list_of_set ?S"
    by (metis sorted_list_of_set_sort_remdups remdups_id_iff_distinct)
  moreover have "?P = sort posting"
    by (auto simp: postings lookup_filter lookup_map_values posting_def ids_of_def split: option.split)
      (use set_iteration [OF iter, of "{}"] in \<open>simp_all add: List.map_filter_def\<close>)
  ultimately show "?P = sorted_list_of_set ?S" by simp
qed

section \<open>Runs of operations against the abstract overlay\<close>

datatype live_op =
    Upsert path "byte list"
  | UpsertTrigrams path "u32 list"
  | Delete path
  | RemoveEntry path
  | BatchRemove "path list"
  | ClearReconciled "path list"
  | TryDrop "path set"
  | ResetDirty

fun apply_op :: "live_op \<Rightarrow> live_index \<Rightarrow> live_index" where
  "apply_op (Upsert p content) L = upsert_file p content L"
| "apply_op (UpsertTrigrams p trigrams) L = upsert_file_with_trigrams p trigrams L"
| "apply_op (Delete p) L = delete_file p L"
| "apply_op (RemoveEntry p) L = remove_overlay_entry p L"
| "apply_op (BatchRemove ps) L = batch_remove_overlay_entries ps L"
| "apply_op (ClearReconciled ps) L = clear_reconciled_paths ps L"
| "apply_op (TryDrop reader_paths) L = snd (try_drop_all_persisted reader_paths L)"
| "apply_op ResetDirty L = reset_dirty_count L"

text \<open>What each operation means for what the overlay says of the paths.\<close>

fun spec_op :: "live_op \<Rightarrow> (path \<Rightarrow> overlay) \<Rightarrow> path \<Rightarrow> overlay" where
  "spec_op (Upsert p content) V = V(p := Active (Mapping.lookup (extract_merged_masks content)))"
| "spec_op (UpsertTrigrams p trigrams) V =
     V(p := Active (\<lambda>tri. if tri \<in> set trigrams then Some no_filter else None))"
| "spec_op (Delete p) V = V(p := Tombstone)"
| "spec_op (RemoveEntry p) V = (\<lambda>q. if q = p \<and> V q \<noteq> Tombstone then Untouched else V q)"
| "spec_op (BatchRemove ps) V = (\<lambda>q. if q \<in> set ps \<and> V q \<noteq> Tombstone then Untouched else V q)"
| "spec_op (ClearReconciled ps) V = (\<lambda>q. if q \<in> set ps then Untouched else V q)"
| "spec_op (TryDrop reader_paths) V =
     (if \<forall>p. (\<forall>t. V p = Active t \<longrightarrow> p \<in> reader_paths) \<and> (V p = Tombstone \<longrightarrow> p \<notin> reader_paths)
      then (\<lambda>_. Untouched) else V)"
| "spec_op ResetDirty V = V"

lemma drop_next_id:
  "next_id (remove_file_by_id fid L) = next_id L"
  "next_id (remove_overlay_entry p L) = next_id L"
  by (simp_all add: remove_file_by_id_def remove_overlay_entry_def Let_def split: option.split)

lemma batch_next_id: "next_id (batch_remove_overlay_entries ps L) = next_id L"
proof -
  obtain L' ids where "unregister_loop ps L {} = (L', ids)" by fastforce
  with unregister_loop_result(4) [OF this] show ?thesis
    by (simp add: batch_remove_overlay_entries_def)
qed

lemma apply_op_refines:
  assumes inv: "live_inv L" and room: "next_id L < 0x80000000"
  shows "live_inv (apply_op op L)"
    and "overlay_of (apply_op op L) = spec_op op (overlay_of L)"
    and "next_id (apply_op op L) = next_id L \<or> next_id (apply_op op L) = next_id L + 1"
proof -
  have "live_inv (apply_op op L) \<and> overlay_of (apply_op op L) = spec_op op (overlay_of L) \<and>
    (next_id (apply_op op L) = next_id L \<or> next_id (apply_op op L) = next_id L + 1)"
  proof (cases op)
    case (Upsert p content)
    then show ?thesis using commit_upsert_overlay [OF inv room] by (simp add: upsert_file_def)
  next
    case (UpsertTrigrams p trigrams)
    then show ?thesis using upsert_with_trigrams_overlay [OF inv room] by simp
  next
    case (Delete p)
    then show ?thesis
      using delete_file_overlay [OF inv] drop_next_id
      by (simp add: delete_file_def Let_def split: option.split)
  next
    case (RemoveEntry p)
    then show ?thesis using remove_overlay_entry_overlay [OF inv] by (auto simp: drop_next_id)
  next
    case (BatchRemove ps)
    then show ?thesis using batch_remove_overlay [OF inv] by (auto simp: batch_next_id)
  next
    case (ClearReconciled ps)
    then show ?thesis
      using clear_reconciled_overlay [OF inv]
      by (auto simp: clear_reconciled_paths_def fold_forget batch_next_id)
  next
    case (TryDrop R)
    have "next_id (snd (try_drop_all_persisted R L)) = next_id L"
      by (simp add: try_drop_all_persisted_def)
    moreover have "overlay_of (snd (try_drop_all_persisted R L)) = spec_op (TryDrop R) (overlay_of L)"
      using try_drop_overlay(2,3) [OF inv, of R] by (auto simp: fun_eq_iff)
    ultimately show ?thesis using TryDrop try_drop_overlay(1) [OF inv] by simp
  next
    case ResetDirty
    have "live_inv (L\<lparr>dirty_count := 0\<rparr>)"
      using inv by simp
    moreover have "overlay_of (L\<lparr>dirty_count := 0\<rparr>) = overlay_of L"
      by (simp add: overlay_of_def fun_eq_iff split: option.split)
    ultimately show ?thesis using ResetDirty by (simp add: reset_dirty_count_def)
  qed
  then show "live_inv (apply_op op L)"
    and "overlay_of (apply_op op L) = spec_op op (overlay_of L)"
    and "next_id (apply_op op L) = next_id L \<or> next_id (apply_op op L) = next_id L + 1" by blast+
qed

lemma run_refines:
  assumes "live_inv L" "unat (next_id L) + length ops \<le> 2 ^ 31"
  shows "live_inv (fold apply_op ops L) \<and>
    overlay_of (fold apply_op ops L) = fold spec_op ops (overlay_of L)"
  using assms
proof (induction ops arbitrary: L)
  case (Cons op ops)
  have room: "next_id L < 0x80000000" using Cons.prems(2) by (simp add: word_less_nat_alt)
  note step = apply_op_refines [OF Cons.prems(1) room, of op]
  have "unat (next_id L + 1) = unat (next_id L) + 1"
    using room by (simp add: unat_word_ariths word_less_nat_alt)
  then have "unat (next_id (apply_op op L)) + length ops \<le> 2 ^ 31"
    using step(3) Cons.prems(2) by auto
  from Cons.IH [OF step(1) this] show ?case by (simp add: step(2))
qed simp

section \<open>Properties\<close>

text \<open>C40. Any sequence of overlay operations from the empty overlay keeps the invariant of its
  tables, and what the overlay then says of every path is what the abstract specification of
  the operations says: the last upsert of a path and its masks, a tombstone, or nothing.  The
  bound is the range of the identifiers below the overlay bit.\<close>

theorem overlay_runs_refine_specification:
  assumes "length ops \<le> 2 ^ 31"
  shows "live_inv (fold apply_op ops live_new) \<and>
    overlay_of (fold apply_op ops live_new) = fold spec_op ops (\<lambda>_. Untouched)"
proof -
  have "overlay_of live_new = (\<lambda>_. Untouched)" by (simp add: fun_eq_iff)
  then show ?thesis
    using run_refines [OF live_inv_new, of ops] assms by (simp add: live_new_def)
qed

theorem overlay_runs_refine_specification_witness:
  "overlay_of (fold apply_op
     [Upsert [0x61] [1, 2, 3], Upsert [0x62] [4, 5, 6], Delete [0x63], Delete [0x61],
      BatchRemove [[0x62], [0x63]]] live_new) [0x61] = Tombstone"
proof -
  let ?ops = "[Upsert [0x61] [1, 2, 3], Upsert [0x62] [4, 5, 6], Delete [0x63], Delete [0x61],
      BatchRemove [[0x62], [0x63]]]"
  have "overlay_of (fold apply_op ?ops live_new) = fold spec_op ?ops (\<lambda>_. Untouched)"
    using overlay_runs_refine_specification [of ?ops] by simp
  then show ?thesis by simp
qed

text \<open>Executing a plan on the overlay alone returns exactly the overlay files whose own
  table of masks accepts the plan, whatever the iteration order of the hash sets: also a file
  inserted without masks, which every check of a next byte lets through.\<close>

theorem overlay_candidates_exact:
  assumes "iteration iter" "narrows p"
  shows "set (execute_plan_with_masks p (live_lookup_trigram_with_masks iter L)) =
    {fid. plan_accepts (entry_masks L fid) p}"
  using live_postings.candidates_exact [OF assms(2), of iter L] assms(1)
  by (simp add: order_of_iteration)

theorem overlay_candidates_exact_witness:
  "\<exists>fid. fid \<in> set (execute_plan_with_masks (And [\<lparr>q_hash = 0x010203, expected_next = Some 9\<rparr>])
      (live_lookup_trigram_with_masks sorted_list_of_set
        (upsert_file_with_trigrams [0x61] [0x010203] live_new)))"
proof -
  let ?L = "upsert_file_with_trigrams [0x61] [0x010203] live_new"
  let ?p = "And [\<lparr>q_hash = 0x010203, expected_next = Some 9\<rparr>]"
  have "overlay_of ?L = (overlay_of live_new)
      ([0x61] := Active (\<lambda>tri. if tri \<in> set [0x010203] then Some no_filter else None))"
    by (rule upsert_with_trigrams_overlay(2) [OF live_inv_new]) (simp add: live_new_def)
  then have "overlay_of ?L [0x61] = Active (\<lambda>tri. if tri = 0x010203 then Some no_filter else None)"
    by simp
  then obtain fid where "entry_masks ?L fid = (\<lambda>tri. if tri = 0x010203 then Some no_filter else None)"
    by (auto simp: overlay_of_def [of ?L "[0x61]"] split: option.splits if_splits)
  then have "plan_accepts (entry_masks ?L fid) ?p"
    by (simp add: query_accepts_def check_next_byte_def no_filter_def next_bit_def)
  then show ?thesis
    using overlay_candidates_exact [of sorted_list_of_set ?p ?L] by (intro exI [of _ fid]) simp
qed

text \<open>The snapshot written to disk lists every active path once, in the order of insertion,
  and the posting list of a trigram is the ascending list of the new identifiers of exactly the
  files that contain it; no empty list is written.\<close>

theorem snapshot_is_renumbered_overlay:
  assumes "live_inv L" "iteration iter" "snapshot_for_disk iter L = (paths, postings)"
  shows "distinct paths \<and> (\<forall>p. p \<in> set paths \<longleftrightarrow> (\<exists>t. overlay_of L p = Active t)) \<and>
    (case Mapping.lookup postings tri of Some posting \<Rightarrow> posting | None \<Rightarrow> []) =
      sorted_list_of_set {of_nat n | n. n < length paths \<and>
        (\<exists>t. overlay_of L (paths ! n) = Active t \<and> t tri \<noteq> None)} \<and>
    Mapping.lookup postings tri \<noteq> Some []"
  using snapshot_posting [OF assms] snapshot_ids(3,4) [OF assms(1,2)]
  by (auto simp: active_iff keys_dom_lookup)

theorem snapshot_is_renumbered_overlay_witness:
  "\<exists>paths postings.
     snapshot_for_disk sorted_list_of_set
       (upsert_file_with_trigrams [0x62] [7] (upsert_file_with_trigrams [0x61] [7, 8] live_new))
       = (paths, postings) \<and> distinct paths \<and> set paths = {[0x61], [0x62]}"
proof -
  let ?L = "fold apply_op [UpsertTrigrams [0x61] [7, 8], UpsertTrigrams [0x62] [7]] live_new"
  have run: "live_inv ?L \<and> overlay_of ?L =
      fold spec_op [UpsertTrigrams [0x61] [7, 8], UpsertTrigrams [0x62] [7]] (overlay_of live_new)"
    by (rule run_refines [OF live_inv_new]) (simp add: live_new_def)
  obtain paths postings where snap: "snapshot_for_disk sorted_list_of_set ?L = (paths, postings)"
    by fastforce
  note snapshot_is_renumbered_overlay [OF conjunct1 [OF run] iteration_sorted_list_of_set snap]
  then have "distinct paths" "set paths = {p. \<exists>t. overlay_of ?L p = Active t}" by blast+
  moreover have "overlay_of ?L p = ((\<lambda>_. Untouched)
      ([0x61] := Active (\<lambda>tri. if tri \<in> set [7, 8] then Some no_filter else None),
       [0x62] := Active (\<lambda>tri. if tri \<in> set [7] then Some no_filter else None))) p" for p
    using conjunct2 [OF run] by simp
  then have "{p. \<exists>t. overlay_of ?L p = Active t} = {[0x61], [0x62]}" by auto
  ultimately show ?thesis using snap by auto
qed

end
