(* ===== verification/Reader.thy ===== *)
theory Reader
  imports Plan_Exec "HOL-Library.Sublist"
begin

text \<open>
  The read-only index (\<^verbatim>\<open>tgrep-core/src/reader.rs\<close>): opening the three files of an
  index with every check, the binary search of the lookup table, the decoding of posting lists
  from untrusted offsets, and the path queries.  A mapped file is its bytes.  The host has
  64-bit \<^verbatim>\<open>usize\<close>, so narrowing a \<^verbatim>\<open>u64\<close> never fails.  The fingerprint of
  the file table, admission limits, permits and the guard of managed storage are left out.
\<close>

section \<open>The state\<close>

record index_reader =
  lookup_map :: "byte list option"
  postings_map :: "byte list option"
  reader_paths :: "path list"
  path_order :: "nat list"
  snapshot_file_has_postings :: "bool list"
  num_entries :: nat

definition reader_empty :: index_reader where
  "reader_empty =
     \<lparr>lookup_map = None, postings_map = None, reader_paths = [], path_order = [],
      snapshot_file_has_postings = [], num_entries = 0\<rparr>"

definition reader_close :: "index_reader \<Rightarrow> index_reader" where
  "reader_close self =
     self\<lparr>lookup_map := None, postings_map := None, reader_paths := [], path_order := [],
          snapshot_file_has_postings := [], num_entries := 0\<rparr>"

section \<open>Opening\<close>

text \<open>The file identifiers must be dense and without duplicates.\<close>

fun check_dense :: "nat \<Rightarrow> (u32 \<times> path) list \<Rightarrow> bool list \<Rightarrow> unit result" where
  "check_dense n [] seen = Inr ()"
| "check_dense n ((fid, p) # entries) seen =
     (let idx = unat fid
      in if idx \<ge> n then Inl (IndexCorrupted ''files.bin contains out-of-range file_id'')
         else if seen ! idx then Inl (IndexCorrupted ''files.bin contains duplicate file_id'')
         else check_dense n entries (seen[idx := True]))"

definition place_paths :: "(u32 \<times> path) list \<Rightarrow> path list" where
  "place_paths entries =
     fold (\<lambda>(fid, p) paths. paths[unat fid := p]) entries (replicate (length entries) [])"

definition order_paths :: "path list \<Rightarrow> nat list" where
  "order_paths paths = sort_key (\<lambda>i. paths ! i) [0..<length paths]"

definition open_sections ::
  "byte list \<Rightarrow> byte list \<Rightarrow> bool \<Rightarrow> (byte list option \<times> byte list option \<times> nat) result"
where
  "open_sections lk pk require_complete =
     (if require_complete \<and> ((length lk = 0) \<noteq> (length pk = 0)) then
        Inl (IndexCorrupted ''shared base has mismatched empty sections'')
      else if length lk = 0 \<or> length pk = 0 then Inr (None, None, 0)
      else if \<not> LOOKUP_ENTRY_SIZE dvd length lk then
        Inl (IndexCorrupted ''lookup.bin size is not a multiple of the entry size'')
      else Inr (Some lk, Some pk, length lk div LOOKUP_ENTRY_SIZE))"

definition open_impl ::
  "(string \<Rightarrow> byte list option) \<Rightarrow> bool \<Rightarrow> index_layout \<Rightarrow> bool \<Rightarrow> index_reader result"
where
  "open_impl dir require_complete layout guarded =
     (if \<not> guarded \<and>
         (dir (layout_lookup layout) = None \<or> dir (layout_postings layout) = None
           \<or> dir (layout_files layout) = None)
      then Inl (IndexNotFound ''index directory'')
      else
        let open_file = (\<lambda>name. case dir name of Some bs \<Rightarrow> Inr bs | None \<Rightarrow> Inl (Io ''open''))
        in rbind (open_file (layout_lookup layout)) (\<lambda>lk.
           rbind (open_file (layout_postings layout)) (\<lambda>pk.
           rbind (open_sections lk pk require_complete) (\<lambda>(lookup, postings, n).
           rbind (open_file (layout_files layout)) (\<lambda>files_data.
           rbind (file_table_body_for files_data layout) (\<lambda>body.
           rbind (decode_file_entries body) (\<lambda>entries.
           rbind (check_dense (length entries) entries (replicate (length entries) False)) (\<lambda>_.
             let file_paths = place_paths entries
             in Inr \<lparr>lookup_map = lookup, postings_map = postings, reader_paths = file_paths,
                     path_order = order_paths file_paths, snapshot_file_has_postings = [],
                     num_entries = n\<rparr>))))))))"

definition reader_open :: "(string \<Rightarrow> byte list option) \<Rightarrow> index_reader result" where
  "reader_open dir = open_impl dir False Legacy False"

section \<open>The lookup table and the posting lists\<close>

definition read_lookup_entry :: "index_reader \<Rightarrow> nat \<Rightarrow> lookup_entry" where
  "read_lookup_entry self index =
     (let start = index * LOOKUP_ENTRY_SIZE
      in lookup_decode (take LOOKUP_ENTRY_SIZE (drop start (the (lookup_map self)))))"

function binary_search_loop :: "index_reader \<Rightarrow> u32 \<Rightarrow> nat \<Rightarrow> nat \<Rightarrow> nat option" where
  "binary_search_loop self trigram lo hi =
     (if lo < hi then
        let mid = lo + (hi - lo) div 2;
            entry = read_lookup_entry self mid
        in if le_trigram entry = trigram then Some mid
           else if le_trigram entry < trigram then binary_search_loop self trigram (mid + 1) hi
           else binary_search_loop self trigram lo mid
      else None)"
  by pat_completeness auto
termination
  by (relation "measure (\<lambda>(_, _, lo, hi). hi - lo)") auto

declare binary_search_loop.simps [simp del]

definition reader_binary_search :: "index_reader \<Rightarrow> u32 \<Rightarrow> nat option" where
  "reader_binary_search self trigram = binary_search_loop self trigram 0 (num_entries self)"

definition read_posting_entries :: "index_reader \<Rightarrow> u64 \<Rightarrow> u32 \<Rightarrow> posting_entry list" where
  "read_posting_entries self offset len =
     (case postings_map self of
        None \<Rightarrow> []
      | Some postings \<Rightarrow>
          let start = unat offset
          in if length postings < start then []
             else
               let remaining = length postings - start;
                   count = min (unat len) (remaining div POSTING_ENTRY_SIZE)
               in map (\<lambda>i. posting_decode
                    (take POSTING_ENTRY_SIZE (drop (start + i * POSTING_ENTRY_SIZE) postings)))
                    [0..<count])"

definition reader_lookup_trigram_with_masks :: "index_reader \<Rightarrow> u32 \<Rightarrow> posting_entry list" where
  "reader_lookup_trigram_with_masks self trigram =
     (if lookup_map self = None then []
      else case reader_binary_search self trigram of
        Some i \<Rightarrow>
          let entry = read_lookup_entry self i
          in read_posting_entries self (le_offset entry) (le_length entry)
      | None \<Rightarrow> [])"

definition reader_lookup_trigram :: "index_reader \<Rightarrow> u32 \<Rightarrow> u32 list" where
  "reader_lookup_trigram self trigram = map file_id (reader_lookup_trigram_with_masks self trigram)"

definition trigram_posting_at :: "index_reader \<Rightarrow> nat \<Rightarrow> u32 \<times> posting_entry list" where
  "trigram_posting_at self i =
     (let entry = read_lookup_entry self i
      in (le_trigram entry, read_posting_entries self (le_offset entry) (le_length entry)))"

definition all_trigram_postings_with_masks :: "index_reader \<Rightarrow> (u32 \<times> posting_entry list) list" where
  "all_trigram_postings_with_masks self = map (trigram_posting_at self) [0..<num_entries self]"

definition all_trigram_postings :: "index_reader \<Rightarrow> (u32 \<times> u32 list) list" where
  "all_trigram_postings self =
     map (\<lambda>i. let entry = read_lookup_entry self i
               in (le_trigram entry,
                   map file_id (read_posting_entries self (le_offset entry) (le_length entry))))
       [0..<num_entries self]"

text \<open>\<^verbatim>\<open>checked_mul\<close> and \<^verbatim>\<open>checked_add\<close> of a \<^verbatim>\<open>u64\<close>.\<close>

definition checked_u64 :: "nat \<Rightarrow> nat option" where
  "checked_u64 n = (if n < 2 ^ 64 then Some n else None)"

text \<open>The end of a posting range, or \<open>None\<close> on overflow.\<close>

definition range_end :: "lookup_entry \<Rightarrow> nat option" where
  "range_end entry =
     Option.bind (checked_u64 (unat (le_length entry) * POSTING_ENTRY_SIZE)) (\<lambda>byte_len.
       checked_u64 (unat (le_offset entry) + byte_len))"

definition nth_trigram_raw :: "index_reader \<Rightarrow> nat \<Rightarrow> (u32 \<times> byte list) option" where
  "nth_trigram_raw self i =
     (if i \<ge> num_entries self then None
      else
        let entry = read_lookup_entry self i
        in Option.bind (postings_map self) (\<lambda>postings.
             Option.bind (range_end entry) (\<lambda>range_stop.
               let start = unat (le_offset entry)
               in if start > length postings \<or> range_stop > length postings then None
                  else Some (le_trigram entry, take (range_stop - start) (drop start postings)))))"

section \<open>Validation\<close>

fun validate_lookup_loop :: "index_reader \<Rightarrow> nat list \<Rightarrow> u32 option \<Rightarrow> unit result" where
  "validate_lookup_loop self [] prev_trigram = Inr ()"
| "validate_lookup_loop self (i # is) prev_trigram =
     (let entry = read_lookup_entry self i
      in if (case prev_trigram of Some prev \<Rightarrow> le_trigram entry \<le> prev | None \<Rightarrow> False)
         then Inl (IndexCorrupted ''lookup.bin not sorted'')
         else
           let postings_len = (case postings_map self of Some p \<Rightarrow> length p | None \<Rightarrow> 0)
           in case range_end entry of
                Some e \<Rightarrow>
                  if e \<le> postings_len
                  then validate_lookup_loop self is (Some (le_trigram entry))
                  else Inl (IndexCorrupted ''posting range exceeds index.bin length'')
              | None \<Rightarrow> Inl (IndexCorrupted ''posting range exceeds index.bin length''))"

definition validate_lookup :: "index_reader \<Rightarrow> unit result" where
  "validate_lookup self =
     (if lookup_map self = None then Inr ()
      else validate_lookup_loop self [0..<num_entries self] None)"

text \<open>One posting list of a snapshot: known files, ascending, each with a location.\<close>

fun validate_posting_loop ::
  "index_reader \<Rightarrow> posting_entry list \<Rightarrow> u32 option \<Rightarrow> bool list \<Rightarrow> bool list result"
where
  "validate_posting_loop self [] previous file_has_postings = Inr file_has_postings"
| "validate_posting_loop self (posting # rest) previous file_has_postings =
     (if unat (file_id posting) \<ge> length (reader_paths self) then
        Inl (IndexCorrupted ''shared base references out-of-range file_id'')
      else if (case previous of Some p \<Rightarrow> file_id posting \<le> p | None \<Rightarrow> False) then
        Inl (IndexCorrupted ''shared base has non-increasing posting file IDs'')
      else if loc_mask posting = 0 then
        Inl (IndexCorrupted ''shared base has a zero location mask'')
      else validate_posting_loop self rest (Some (file_id posting))
             (file_has_postings[unat (file_id posting) := True]))"

fun validate_snapshot_loop ::
  "index_reader \<Rightarrow> nat list \<Rightarrow> nat \<Rightarrow> bool list \<Rightarrow> (nat \<times> bool list) result"
where
  "validate_snapshot_loop self [] expected_offset file_has_postings =
     Inr (expected_offset, file_has_postings)"
| "validate_snapshot_loop self (i # is) expected_offset file_has_postings =
     (let entry = read_lookup_entry self i
      in if le_trigram entry > 0x00ffffff then
           Inl (IndexCorrupted ''shared base lookup entry has an invalid trigram'')
         else if unat (le_offset entry) \<noteq> expected_offset then
           Inl (IndexCorrupted ''shared base lookup entry has an unexpected posting offset'')
         else case nth_trigram_raw self i of
             None \<Rightarrow> Inl (IndexCorrupted ''shared base lookup entry has an invalid posting range'')
           | Some (_, raw) \<Rightarrow>
               rbind (validate_posting_loop self (map posting_decode (chunks POSTING_ENTRY_SIZE raw))
                        None file_has_postings)
                 (validate_snapshot_loop self is (expected_offset + length raw)))"

definition validate_snapshot_postings :: "index_reader \<Rightarrow> bool list result" where
  "validate_snapshot_postings self =
     rbind (validate_snapshot_loop self [0..<num_entries self] 0
              (replicate (length (reader_paths self)) False))
       (\<lambda>(expected_offset, file_has_postings).
          if expected_offset \<noteq> (case postings_map self of Some p \<Rightarrow> length p | None \<Rightarrow> 0)
          then Inl (IndexCorrupted ''shared base index.bin contains unreferenced posting bytes'')
          else Inr file_has_postings)"

definition open_snapshot ::
  "(string \<Rightarrow> byte list option) \<Rightarrow> index_layout \<Rightarrow> bool \<Rightarrow> index_reader result"
where
  "open_snapshot dir layout guarded =
     rbind (open_impl dir True layout guarded) (\<lambda>reader.
     rbind (validate_lookup reader) (\<lambda>_.
     rbind (validate_snapshot_postings reader) (\<lambda>file_has_postings.
       Inr (reader\<lparr>snapshot_file_has_postings := file_has_postings\<rparr>))))"

definition is_degenerate :: "index_reader \<Rightarrow> bool" where
  "is_degenerate self =
     (num_entries self = 0 \<and>
       ((case lookup_map self of Some m \<Rightarrow> m \<noteq> [] | None \<Rightarrow> False)
        \<or> (case postings_map self of Some m \<Rightarrow> m \<noteq> [] | None \<Rightarrow> False)))"

section \<open>Paths\<close>

definition reader_file_path :: "index_reader \<Rightarrow> u32 \<Rightarrow> path option" where
  "reader_file_path self fid =
     (if unat fid < length (reader_paths self) then Some (reader_paths self ! unat fid) else None)"

text \<open>
  \<^verbatim>\<open>binary_search_by\<close> on a slice sorted by the key: the position of an element with the
  key, if there is one.
\<close>

definition slice_binary_search :: "('a \<Rightarrow> 'k::linorder) \<Rightarrow> 'a list \<Rightarrow> 'k \<Rightarrow> nat option" where
  "slice_binary_search key xs k =
     (let i = partition_point (\<lambda>x. key x < k) xs
      in if i < length xs \<and> key (xs ! i) = k then Some i else None)"

definition contains_path :: "index_reader \<Rightarrow> path \<Rightarrow> bool" where
  "contains_path self path =
     (slice_binary_search (\<lambda>i. reader_paths self ! i) (path_order self) path \<noteq> None)"

definition file_ids_with_prefix :: "index_reader \<Rightarrow> path \<Rightarrow> u32 list" where
  "file_ids_with_prefix self pre =
     (let lower = partition_point (\<lambda>i. reader_paths self ! i < pre) (path_order self)
      in map of_nat (takeWhile (\<lambda>i. prefix pre (reader_paths self ! i))
           (drop lower (path_order self))))"

definition snapshot_path_has_postings :: "index_reader \<Rightarrow> path \<Rightarrow> bool option" where
  "snapshot_path_has_postings self path =
     (case slice_binary_search (\<lambda>i. reader_paths self ! i) (path_order self) path of
        None \<Rightarrow> None
      | Some index \<Rightarrow>
          let i = path_order self ! index
          in if i < length (snapshot_file_has_postings self)
             then Some (snapshot_file_has_postings self ! i) else None)"

definition reader_has_descendant_path :: "index_reader \<Rightarrow> path \<Rightarrow> bool" where
  "reader_has_descendant_path self directory =
     (if directory = [] then path_order self \<noteq> []
      else
        let lower = partition_point (\<lambda>i. reader_paths self ! i < directory @ [0x2F]) (path_order self)
        in lower < length (path_order self) \<and>
           (case strip_prefix directory (reader_paths self ! (path_order self ! lower)) of
              Some rest \<Rightarrow> take 1 rest = [0x2F] | None \<Rightarrow> False))"

definition reader_num_files :: "index_reader \<Rightarrow> nat" where
  "reader_num_files self = length (reader_paths self)"

definition reader_all_file_ids :: "index_reader \<Rightarrow> u32 list" where
  "reader_all_file_ids self = map of_nat [0..<unat (of_nat (length (reader_paths self)) :: u32)]"

section \<open>What opening establishes\<close>

text \<open>
  An opened reader maps both sections or none, its table has whole entries, its paths are
  valid, and its path order sorts them.
\<close>

definition wf_reader :: "index_reader \<Rightarrow> bool" where
  "wf_reader R \<longleftrightarrow>
     (case lookup_map R of
        None \<Rightarrow> postings_map R = None \<and> num_entries R = 0
      | Some lk \<Rightarrow> postings_map R \<noteq> None \<and> length lk = num_entries R * LOOKUP_ENTRY_SIZE) \<and>
     path_order R = order_paths (reader_paths R) \<and>
     (\<forall>p\<in>set (reader_paths R). stored_path p) \<and>
     length (reader_paths R) \<le> 2 ^ 32"

lemma check_dense_ok:
  assumes "check_dense n entries seen = Inr ()" "length seen = n"
  shows "distinct (map fst entries) \<and> (\<forall>e\<in>set entries. unat (fst e) < n \<and> \<not> seen ! unat (fst e))"
  using assms
proof (induction n entries seen rule: check_dense.induct)
  case (2 n fid p entries seen)
  then have fid: "unat fid < n" "\<not> seen ! unat fid"
    and rest: "check_dense n entries (seen[unat fid := True]) = Inr ()"
    by (auto simp: Let_def split: if_splits)
  then have IH: "distinct (map fst entries) \<and>
      (\<forall>e\<in>set entries. unat (fst e) < n \<and> \<not> (seen[unat fid := True]) ! unat (fst e))"
    using "2.IH" "2.prems"(2) by (simp add: linorder_not_le)
  then have "unat (fst e) \<noteq> unat fid \<and> \<not> seen ! unat (fst e)" if "e \<in> set entries" for e
    using that fid "2.prems"(2) by (auto simp: nth_list_update split: if_splits)
  then show ?case using IH fid by auto
qed simp

lemma check_dense_complete:
  assumes "distinct (map fst entries)" "\<forall>e\<in>set entries. unat (fst e) < n \<and> \<not> seen ! unat (fst e)"
    and "length seen = n"
  shows "check_dense n entries seen = Inr ()"
  using assms
proof (induction n entries seen rule: check_dense.induct)
  case (2 n fid p entries seen)
  have "check_dense n entries (seen[unat fid := True]) = Inr ()"
  proof (rule "2.IH" [OF refl])
    show "\<not> n \<le> unat fid" "\<not> seen ! unat fid" using "2.prems"(2) by auto
    show "\<forall>e\<in>set entries. unat (fst e) < n \<and> \<not> (seen[unat fid := True]) ! unat (fst e)"
      using "2.prems" by (auto simp: nth_list_update image_iff)
  qed (use "2.prems" in simp_all)
  then show ?case using "2.prems"(2) by (simp add: Let_def linorder_not_le [symmetric])
qed simp

lemma fold_place:
  assumes "distinct (map fst entries)" "\<forall>e\<in>set entries. unat (fst e) < length ps"
  shows "length (fold (\<lambda>(fid, p) paths. paths[unat fid := p]) entries ps) = length ps \<and>
    (\<forall>fid p. (fid, p) \<in> set entries \<longrightarrow>
       fold (\<lambda>(fid, p) paths. paths[unat fid := p]) entries ps ! unat fid = p) \<and>
    (\<forall>i. i \<notin> (\<lambda>e. unat (fst e)) ` set entries \<longrightarrow>
       fold (\<lambda>(fid, p) paths. paths[unat fid := p]) entries ps ! i = ps ! i)"
  using assms
proof (induction entries arbitrary: ps)
  case (Cons e entries)
  obtain fid p where e: "e = (fid, p)" by (cases e)
  let ?ps = "ps[unat fid := p]"
  have IH: "length (fold (\<lambda>(fid, p) paths. paths[unat fid := p]) entries ?ps) = length ?ps \<and>
    (\<forall>fid p. (fid, p) \<in> set entries \<longrightarrow>
       fold (\<lambda>(fid, p) paths. paths[unat fid := p]) entries ?ps ! unat fid = p) \<and>
    (\<forall>i. i \<notin> (\<lambda>e. unat (fst e)) ` set entries \<longrightarrow>
       fold (\<lambda>(fid, p) paths. paths[unat fid := p]) entries ?ps ! i = ?ps ! i)"
    by (rule Cons.IH) (use Cons.prems in auto)
  have new: "unat fid \<notin> (\<lambda>e. unat (fst e)) ` set entries"
    using Cons.prems(1) e by (force simp: image_iff)
  have "unat fid < length ps" using Cons.prems(2) e by simp
  then show ?case using IH new by (auto simp: e)
qed simp

lemma place_paths:
  assumes "check_dense (length entries) entries (replicate (length entries) False) = Inr ()"
  shows "length (place_paths entries) = length entries"
    and "(fid, p) \<in> set entries \<Longrightarrow> unat fid < length entries \<and> place_paths entries ! unat fid = p"
    and "i < length entries \<Longrightarrow> (of_nat i, place_paths entries ! i) \<in> set entries \<and> i < 2 ^ 32"
proof -
  note ok = check_dense_ok [OF assms, simplified]
  have bound: "\<forall>e\<in>set entries. unat (fst e) < length (replicate (length entries) ([] :: path))"
    using ok by simp
  note placed = fold_place [OF conjunct1 [OF ok] bound, folded place_paths_def]
  show len: "length (place_paths entries) = length entries" using placed by simp
  show el: "(fid, p) \<in> set entries \<Longrightarrow> unat fid < length entries \<and> place_paths entries ! unat fid = p"
    for fid p using placed ok by auto
  assume i: "i < length entries"
  let ?I = "(\<lambda>e. unat (fst e)) ` set entries"
  have "card ?I = length entries"
  proof -
    have "distinct (map (\<lambda>e. unat (fst e)) entries)"
      using ok by (simp add: distinct_map inj_on_def)
    then have "card (set (map (\<lambda>e. unat (fst e)) entries)) = length entries"
      using distinct_card by fastforce
    then show ?thesis by simp
  qed
  moreover have "?I \<subseteq> {..<length entries}" using ok by auto
  ultimately have "?I = {..<length entries}" by (simp add: card_subset_eq)
  then obtain e where e: "e \<in> set entries" "unat (fst e) = i" using i by (metis imageE lessThan_iff)
  then have "place_paths entries ! i = snd e" using el [of "fst e" "snd e"] by simp
  moreover have "of_nat i = fst e" unfolding e(2) [symmetric] by simp
  moreover have unat_fst: "unat (fst e) < 2 ^ 32"
    by (rule order.strict_trans2 [OF unsigned_less]) simp
  ultimately show "(of_nat i, place_paths entries ! i) \<in> set entries \<and> i < 2 ^ 32"
    using e unat_fst by simp
qed

lemma open_impl_wf:
  assumes "open_impl dir require layout guarded = Inr R"
  shows "wf_reader R"
proof -
  obtain lk pk lookup postings n files_data body entries where
    sections: "open_sections lk pk require = Inr (lookup, postings, n)"
    and entries: "decode_file_entries body = Inr entries"
    and dense: "check_dense (length entries) entries (replicate (length entries) False) = Inr ()"
    and R: "R = \<lparr>lookup_map = lookup, postings_map = postings, reader_paths = place_paths entries,
        path_order = order_paths (place_paths entries), snapshot_file_has_postings = [],
        num_entries = n\<rparr>"
    using assms by (auto simp: open_impl_def Let_def split: if_splits option.splits)
  have "case lookup of None \<Rightarrow> postings = None \<and> n = 0
      | Some lk \<Rightarrow> postings \<noteq> None \<and> length lk = n * LOOKUP_ENTRY_SIZE"
    using sections by (auto simp: open_sections_def split: if_splits)
  moreover have "stored_path p" if "p \<in> set (place_paths entries)" for p
  proof -
    from that obtain i where "i < length (place_paths entries)" "place_paths entries ! i = p"
      by (auto simp: in_set_conv_nth)
    then have "i < length entries" "place_paths entries ! i = p"
      by (simp_all add: place_paths(1) [OF dense])
    then have mem: "(of_nat i, p) \<in> set entries" using place_paths(3) [OF dense, of i] by simp
    have "\<forall>e\<in>set entries. stored_path (snd e)"
      using decode_controlled_Inr [OF entries [unfolded decode_file_entries_def]] by (rule conjunct2)
    from bspec [OF this mem] show ?thesis by simp
  qed
  moreover have "length (place_paths entries) \<le> 2 ^ 32"
  proof (rule ccontr)
    assume "\<not> ?thesis"
    then have "2 ^ 32 < length entries" by (simp add: place_paths(1) [OF dense])
    from place_paths(3) [OF dense this] show False by simp
  qed
  ultimately show ?thesis unfolding wf_reader_def R index_reader.simps by blast
qed

section \<open>The table and its lists\<close>

definition reader_entries :: "index_reader \<Rightarrow> lookup_entry list" where
  "reader_entries R = map (read_lookup_entry R) [0..<num_entries R]"

lemma length_reader_entries [simp]: "length (reader_entries R) = num_entries R"
  by (simp add: reader_entries_def)

lemma nth_reader_entries [simp]:
  "i < num_entries R \<Longrightarrow> reader_entries R ! i = read_lookup_entry R i"
  by (simp add: reader_entries_def)

lemma binary_search_loop_correct:
  assumes asc: "ascending (map le_trigram (reader_entries R))"
  shows "hi \<le> num_entries R \<Longrightarrow>
    (case binary_search_loop R t lo hi of
       Some i \<Rightarrow> lo \<le> i \<and> i < hi \<and> le_trigram (read_lookup_entry R i) = t
     | None \<Rightarrow> \<forall>j. lo \<le> j \<and> j < hi \<longrightarrow> le_trigram (read_lookup_entry R j) \<noteq> t)"
proof (induction "hi - lo" arbitrary: lo hi rule: less_induct)
  case less
  let ?T = "\<lambda>i. le_trigram (read_lookup_entry R i)"
  have mono: "?T i < ?T j" if "i < j" "j < num_entries R" for i j
    using asc that by (simp add: sorted_wrt_iff_nth_less)
  show ?case
  proof (cases "lo < hi")
    case False
    then show ?thesis by (auto simp: binary_search_loop.simps [of R t lo hi])
  next
    case True
    define mid where "mid = lo + (hi - lo) div 2"
    have mid: "lo \<le> mid" "mid < hi" using True by (auto simp: mid_def)
    consider "?T mid = t" | "?T mid < t" | "t < ?T mid" by fastforce
    then show ?thesis
    proof cases
      case 1
      then show ?thesis using True mid by (simp add: binary_search_loop.simps [of R t lo hi] mid_def Let_def)
    next
      case 2
      then have step: "binary_search_loop R t lo hi = binary_search_loop R t (mid + 1) hi"
        using True by (auto simp add: binary_search_loop.simps [of R t lo hi] mid_def Let_def)
      have low: "?T j \<noteq> t" if "lo \<le> j" "j \<le> mid" for j
        using mono [of j mid] 2 that mid less.prems by (cases "j = mid") auto
      from less.hyps [of hi "mid + 1"] less.prems mid
      show ?thesis unfolding step using low by (force split: option.splits simp: not_less_eq_eq)
    next
      case 3
      then have step: "binary_search_loop R t lo hi = binary_search_loop R t lo mid"
        using True by (auto simp add: binary_search_loop.simps [of R t lo hi] mid_def Let_def)
      have high: "?T j \<noteq> t" if "mid \<le> j" "j < hi" for j
        using mono [of mid j] 3 that mid less.prems by (cases "j = mid") auto
      from less.hyps [of mid lo] less.prems mid
      show ?thesis unfolding step using high by (force split: option.splits simp: not_le)
    qed
  qed
qed

text \<open>The binary search finds a trigram exactly if the table has it.\<close>

lemma reader_binary_search_iff:
  assumes "ascending (map le_trigram (reader_entries R))"
  shows "reader_binary_search R t = Some i \<longleftrightarrow>
    i < num_entries R \<and> le_trigram (read_lookup_entry R i) = t"
proof -
  have mono: "le_trigram (read_lookup_entry R i) < le_trigram (read_lookup_entry R j)"
    if "i < j" "j < num_entries R" for i j
    using assms that by (simp add: sorted_wrt_iff_nth_less)
  have unique: "i = j" if "i < num_entries R" "j < num_entries R"
    "le_trigram (read_lookup_entry R i) = le_trigram (read_lookup_entry R j)" for i j
    using mono [of i j] mono [of j i] that by (cases i j rule: linorder_cases) auto
  show ?thesis
    using binary_search_loop_correct [OF assms, where hi = "num_entries R" and t = t and lo = 0] unique
    by (force simp: reader_binary_search_def split: option.splits)
qed

lemma reader_lookup_map_of:
  assumes "ascending (map le_trigram (reader_entries R))" "wf_reader R"
  shows "reader_lookup_trigram_with_masks R t =
    (case map_of (all_trigram_postings_with_masks R) t of Some l \<Rightarrow> l | None \<Rightarrow> [])"
proof -
  have keys: "map fst (all_trigram_postings_with_masks R) = map le_trigram (reader_entries R)"
    by (simp add: all_trigram_postings_with_masks_def trigram_posting_at_def reader_entries_def Let_def)
  have dist: "distinct (map fst (all_trigram_postings_with_masks R))"
    unfolding keys by (rule ascending_distinct [OF assms(1)])
  show ?thesis
  proof (cases "reader_binary_search R t")
    case None
    have "le_trigram (read_lookup_entry R i) \<noteq> t" if "i < num_entries R" for i
      using reader_binary_search_iff [OF assms(1), of t i] None that by simp
    then have "t \<notin> fst ` set (all_trigram_postings_with_masks R)"
      unfolding all_trigram_postings_with_masks_def trigram_posting_at_def Let_def by force
    then have "map_of (all_trigram_postings_with_masks R) t = None" by (simp add: map_of_eq_None_iff)
    with None show ?thesis by (simp add: reader_lookup_trigram_with_masks_def)
  next
    case (Some i)
    then have i: "i < num_entries R" "le_trigram (read_lookup_entry R i) = t"
      using reader_binary_search_iff [OF assms(1)] by blast+
    then have "(t, read_posting_entries R (le_offset (read_lookup_entry R i)) (le_length (read_lookup_entry R i)))
        \<in> set (all_trigram_postings_with_masks R)"
      by (auto simp: all_trigram_postings_with_masks_def trigram_posting_at_def Let_def)
    with dist have "map_of (all_trigram_postings_with_masks R) t =
        Some (read_posting_entries R (le_offset (read_lookup_entry R i)) (le_length (read_lookup_entry R i)))"
      by (rule map_of_is_SomeI)
    moreover have "lookup_map R \<noteq> None" using assms(2) i(1) by (auto simp: wf_reader_def split: option.splits)
    ultimately show ?thesis using Some by (auto simp: reader_lookup_trigram_with_masks_def Let_def)
  qed
qed

section \<open>Validation of the lookup table\<close>

definition postings_len :: "index_reader \<Rightarrow> nat" where
  "postings_len R = (case postings_map R of Some p \<Rightarrow> length p | None \<Rightarrow> 0)"

definition range_ok :: "index_reader \<Rightarrow> lookup_entry \<Rightarrow> bool" where
  "range_ok R e \<longleftrightarrow>
     unat (le_offset e) + unat (le_length e) * POSTING_ENTRY_SIZE \<le> postings_len R \<and>
     unat (le_offset e) + unat (le_length e) * POSTING_ENTRY_SIZE < 2 ^ 64"

lemma range_end_Some:
  "range_end e = Some n \<longleftrightarrow>
     n = unat (le_offset e) + unat (le_length e) * POSTING_ENTRY_SIZE \<and> n < 2 ^ 64"
  by (auto simp: range_end_def checked_u64_def bind_eq_Some_conv)

lemma ascending_Cons2: "ascending (x # y # xs) \<longleftrightarrow> x < y \<and> ascending (y # xs)"
  for x :: "'a::linorder"
  by (auto intro: order.strict_trans)

lemma validate_lookup_loop_iff:
  "validate_lookup_loop R is prev = Inr () \<longleftrightarrow>
     ascending ((case prev of Some p \<Rightarrow> [p] | None \<Rightarrow> []) @ map (\<lambda>i. le_trigram (read_lookup_entry R i)) is)
     \<and> (\<forall>i\<in>set is. range_ok R (read_lookup_entry R i))"
proof (induction R "is" prev rule: validate_lookup_loop.induct)
  case (1 R prev)
  then show ?case by (simp split: option.split)
next
  case (2 R i "is" prev)
  let ?e = "read_lookup_entry R i"
  have len: "(case postings_map R of Some p \<Rightarrow> length p | None \<Rightarrow> 0) = postings_len R"
    by (simp add: postings_len_def)
  show ?case
  proof (cases "range_end ?e")
    case None
    then have "\<not> range_ok R ?e" using range_end_Some [of ?e] by (auto simp: range_ok_def)
    with None show ?thesis by (auto simp: Let_def)
  next
    case (Some e)
    then have e: "range_ok R ?e \<longleftrightarrow> e \<le> postings_len R" by (simp add: range_ok_def range_end_Some)
    show ?thesis
    proof (cases "(case prev of Some p \<Rightarrow> le_trigram ?e \<le> p | None \<Rightarrow> False) \<or> \<not> e \<le> postings_len R")
      case True
      with Some e show ?thesis by (auto simp: Let_def len split: option.splits if_splits)
    next
      case False
      then have "validate_lookup_loop R (i # is) prev = validate_lookup_loop R is (Some (le_trigram ?e))"
        using Some by (simp add: Let_def len)
      also have "\<dots> = Inr () \<longleftrightarrow> ascending (le_trigram ?e # map (\<lambda>i. le_trigram (read_lookup_entry R i)) is)
          \<and> (\<forall>i\<in>set is. range_ok R (read_lookup_entry R i))"
        using "2.IH" [OF refl _ refl Some] False len by auto
      finally have loop: "validate_lookup_loop R (i # is) prev = Inr () \<longleftrightarrow>
          ascending (le_trigram ?e # map (\<lambda>i. le_trigram (read_lookup_entry R i)) is)
          \<and> (\<forall>i\<in>set is. range_ok R (read_lookup_entry R i))" .
      have ok: "range_ok R ?e" using False e by simp
      show ?thesis
        unfolding loop using False ok
        by (cases prev) (simp_all only: option.case append_Cons append_Nil list.map
            ascending_Cons2 list.set ball_simps not_le simp_thms de_Morgan_disj)
    qed
  qed
qed

lemma validate_lookup_iff:
  assumes "wf_reader R"
  shows "validate_lookup R = Inr () \<longleftrightarrow>
    ascending (map le_trigram (reader_entries R)) \<and> (\<forall>e\<in>set (reader_entries R). range_ok R e)"
proof (cases "lookup_map R")
  case None
  with assms show ?thesis by (simp add: validate_lookup_def wf_reader_def reader_entries_def)
next
  case (Some lk)
  then show ?thesis
    by (simp add: validate_lookup_def validate_lookup_loop_iff reader_entries_def comp_def)
qed

section \<open>Posting lists from untrusted offsets\<close>

lemma length_read_posting_entries:
  "length (read_posting_entries R offset len) =
     min (unat len) ((postings_len R - unat offset) div POSTING_ENTRY_SIZE)"
  by (simp add: read_posting_entries_def postings_len_def Let_def POSTING_ENTRY_SIZE_def
      split: option.split)

text \<open>Every entry is decoded from six bytes inside the mapping.\<close>

lemma read_posting_entries_nth:
  assumes "i < length (read_posting_entries R offset len)"
  obtains postings where "postings_map R = Some postings"
    "unat offset + i * POSTING_ENTRY_SIZE + POSTING_ENTRY_SIZE \<le> length postings"
    "read_posting_entries R offset len ! i =
       posting_decode (take POSTING_ENTRY_SIZE (drop (unat offset + i * POSTING_ENTRY_SIZE) postings))"
proof (cases "postings_map R")
  case None
  with assms show ?thesis by (simp add: read_posting_entries_def)
next
  case (Some postings)
  have start: "\<not> length postings < unat offset"
    using assms Some by (auto simp: read_posting_entries_def)
  then have i: "i < (length postings - unat offset) div POSTING_ENTRY_SIZE"
    using assms Some by (simp add: length_read_posting_entries postings_len_def)
  then have "(i + 1) * POSTING_ENTRY_SIZE \<le> length postings - unat offset"
    by (simp add: POSTING_ENTRY_SIZE_def less_eq_div_iff_mult_less_eq [symmetric] Suc_le_eq)
  with start have "unat offset + i * POSTING_ENTRY_SIZE + POSTING_ENTRY_SIZE \<le> length postings"
    by (simp add: POSTING_ENTRY_SIZE_def)
  with assms Some start show ?thesis
    by (intro that) (simp_all add: read_posting_entries_def Let_def)
qed

lemma read_posting_entries_table:
  assumes "postings_map R = Some (pre @ concat (map posting_encode es) @ post)"
    and "unat offset = length pre" "unat len = length es"
  shows "read_posting_entries R offset len = es"
proof -
  let ?table = "concat (map posting_encode es)"
  have total: "length (pre @ ?table @ post) = length pre + length es * POSTING_ENTRY_SIZE + length post"
    by (simp add: posting.length_table)
  have div: "(length es * POSTING_ENTRY_SIZE + length post) div POSTING_ENTRY_SIZE \<ge> length es"
    by (simp add: POSTING_ENTRY_SIZE_def)
  then have count: "length (read_posting_entries R offset len) = length es"
    by (simp add: length_read_posting_entries postings_len_def assms posting.length_table)
  show ?thesis
  proof (rule nth_equalityI)
    fix i
    assume "i < length (read_posting_entries R offset len)"
    then have i: "i < length es" by (simp add: count)
    have "read_posting_entries R offset len ! i =
        posting_decode (take POSTING_ENTRY_SIZE (drop (length pre + i * POSTING_ENTRY_SIZE)
          (pre @ ?table @ post)))"
      using i div assms
      by (simp add: read_posting_entries_def Let_def posting.length_table)
    also have "drop (length pre + i * POSTING_ENTRY_SIZE) (pre @ ?table @ post) =
        drop (i * POSTING_ENTRY_SIZE) ?table @ post"
      using i by (simp add: posting.length_table POSTING_ENTRY_SIZE_def)
    also have "take POSTING_ENTRY_SIZE (drop (i * POSTING_ENTRY_SIZE) ?table @ post) =
        take POSTING_ENTRY_SIZE (drop (i * POSTING_ENTRY_SIZE) ?table)"
      using i by (simp add: posting.length_table POSTING_ENTRY_SIZE_def)
    finally show "read_posting_entries R offset len ! i = es ! i"
      using posting.dec_entry_of_table [OF i] by simp
  qed (rule count)
qed

text \<open>
  Strict reading agrees with the lenient one where the range is in bounds: the raw bytes of
  entry \<open>i\<close> decode to its posting list.
\<close>

lemma nth_trigram_raw_decodes:
  assumes "nth_trigram_raw R i = Some (t, raw)"
  shows "map posting_decode (chunks POSTING_ENTRY_SIZE raw) = snd (trigram_posting_at R i)"
    and "t = le_trigram (read_lookup_entry R i)"
    and "i < num_entries R \<and> length raw = unat (le_length (read_lookup_entry R i)) * POSTING_ENTRY_SIZE"
    and "\<exists>pre post. postings_map R = Some (pre @ raw @ post) \<and>
      length pre = unat (le_offset (read_lookup_entry R i))"
proof -
  let ?e = "read_lookup_entry R i"
  obtain ps where ps: "postings_map R = Some ps" and i: "i < num_entries R"
    and stop: "range_end ?e = Some (unat (le_offset ?e) + unat (le_length ?e) * POSTING_ENTRY_SIZE)"
    and bound: "unat (le_offset ?e) + unat (le_length ?e) * POSTING_ENTRY_SIZE \<le> length ps"
    and t: "t = le_trigram ?e"
    and raw: "raw = take (unat (le_length ?e) * POSTING_ENTRY_SIZE) (drop (unat (le_offset ?e)) ps)"
    using assms by (auto simp: nth_trigram_raw_def Let_def bind_eq_Some_conv range_end_Some
        split: if_splits)
  show "t = le_trigram ?e" by (rule t)
  show len: "i < num_entries R \<and> length raw = unat (le_length ?e) * POSTING_ENTRY_SIZE"
    using bound by (simp add: raw i)
  define pre where "pre = take (unat (le_offset ?e)) ps"
  define post where "post = drop (unat (le_length ?e) * POSTING_ENTRY_SIZE) (drop (unat (le_offset ?e)) ps)"
  have split: "ps = pre @ raw @ post" by (simp only: pre_def post_def raw append_take_drop_id)
  have "length pre = unat (le_offset ?e)" using bound by (simp add: pre_def)
  then show "\<exists>pre post. postings_map R = Some (pre @ raw @ post) \<and> length pre = unat (le_offset ?e)"
    using ps split by blast
  define es where "es = map posting_decode (chunks POSTING_ENTRY_SIZE raw)"
  have six: "length c = POSTING_ENTRY_SIZE" if "c \<in> set (chunks POSTING_ENTRY_SIZE raw)" for c
    using that len chunks_exact_length by blast
  have "map posting_encode es = chunks POSTING_ENTRY_SIZE raw"
    using six by (auto simp: es_def posting_encode_decode intro!: map_idI)
  then have "raw = concat (map posting_encode es)" by (simp add: POSTING_ENTRY_SIZE_def)
  moreover have "length es = unat (le_length ?e)"
    using len \<open>raw = concat (map posting_encode es)\<close>
    by (metis posting.length_table mult_right_cancel posting.width_pos less_numeral_extra(3))
  ultimately have "read_posting_entries R (le_offset ?e) (le_length ?e) = es"
    using ps split \<open>length pre = unat (le_offset ?e)\<close> [symmetric]
    by (intro read_posting_entries_table [of R pre es post]) simp_all
  then show "map posting_decode (chunks POSTING_ENTRY_SIZE raw) = snd (trigram_posting_at R i)"
    by (simp add: trigram_posting_at_def Let_def es_def)
qed

section \<open>Strict validation\<close>

definition posting_list_ok :: "index_reader \<Rightarrow> posting_entry list \<Rightarrow> bool" where
  "posting_list_ok R es \<longleftrightarrow>
     ascending (map file_id es) \<and>
     (\<forall>e\<in>set es. unat (file_id e) < length (reader_paths R) \<and> loc_mask e \<noteq> 0)"

lemma validate_posting_loop_Inr:
  assumes "validate_posting_loop R es prev fl = Inr fl'" "length fl = length (reader_paths R)"
  shows "ascending ((case prev of Some p \<Rightarrow> [p] | None \<Rightarrow> []) @ map file_id es)
    \<and> (\<forall>e\<in>set es. unat (file_id e) < length (reader_paths R) \<and> loc_mask e \<noteq> 0)
    \<and> length fl' = length fl
    \<and> (\<forall>j<length fl. fl' ! j \<longleftrightarrow> fl ! j \<or> (\<exists>e\<in>set es. unat (file_id e) = j))"
  using assms
proof (induction R es prev fl rule: validate_posting_loop.induct)
  case (1 R prev fl)
  then show ?case by (simp split: option.split)
next
  case (2 R e es prev fl)
  let ?fl = "fl[unat (file_id e) := True]"
  from "2.prems" have range: "unat (file_id e) < length (reader_paths R)" and loc: "loc_mask e \<noteq> 0"
    and prev: "case prev of Some p \<Rightarrow> p < file_id e | None \<Rightarrow> True"
    and rest: "validate_posting_loop R es (Some (file_id e)) ?fl = Inr fl'"
    by (auto split: if_splits option.splits)
  have IH: "ascending (file_id e # map file_id es)
    \<and> (\<forall>e\<in>set es. unat (file_id e) < length (reader_paths R) \<and> loc_mask e \<noteq> 0)
    \<and> length fl' = length fl
    \<and> (\<forall>j<length fl. fl' ! j \<longleftrightarrow> ?fl ! j \<or> (\<exists>e\<in>set es. unat (file_id e) = j))"
    using "2.IH" [OF _ _ _ rest] range loc prev "2.prems"(2)
    by (auto split: option.splits simp: not_le)
  have "ascending ((case prev of Some p \<Rightarrow> [p] | None \<Rightarrow> []) @ map file_id (e # es))"
    using IH prev by (cases prev) (simp_all only: option.case append_Cons append_Nil list.map
        ascending_Cons2 simp_thms)
  with IH range loc "2.prems"(2) show ?case by (auto simp: nth_list_update)
qed

definition postings_bytes :: "index_reader \<Rightarrow> byte list" where
  "postings_bytes R = (case postings_map R of Some p \<Rightarrow> p | None \<Rightarrow> [])"

lemma length_postings_bytes [simp]: "length (postings_bytes R) = postings_len R"
  by (simp add: postings_bytes_def postings_len_def split: option.split)

definition nth_list :: "index_reader \<Rightarrow> nat \<Rightarrow> posting_entry list" where
  "nth_list R i = snd (trigram_posting_at R i)"

lemma raw_encodes:
  assumes "nth_trigram_raw R i = Some (t, raw)"
  shows "raw = concat (map posting_encode (nth_list R i))"
proof -
  have len: "length raw = unat (le_length (read_lookup_entry R i)) * POSTING_ENTRY_SIZE"
    using nth_trigram_raw_decodes(3) [OF assms] by blast
  have "map posting_encode (nth_list R i) = chunks POSTING_ENTRY_SIZE raw"
    unfolding nth_list_def nth_trigram_raw_decodes(1) [OF assms, symmetric]
    using chunks_exact_length [OF len] by (auto simp: posting_encode_decode intro!: map_idI)
  then show ?thesis by (simp add: POSTING_ENTRY_SIZE_def)
qed

lemma validate_snapshot_loop_Inr:
  assumes "validate_snapshot_loop R is off fl = Inr (off', fl')"
    and "length fl = length (reader_paths R)" "off \<le> postings_len R"
  shows "(\<forall>i\<in>set is. le_trigram (read_lookup_entry R i) \<le> 0x00ffffff \<and> posting_list_ok R (nth_list R i))
    \<and> off \<le> off' \<and> off' \<le> postings_len R
    \<and> take (off' - off) (drop off (postings_bytes R)) =
        concat (map (\<lambda>i. concat (map posting_encode (nth_list R i))) is)
    \<and> length fl' = length fl
    \<and> (\<forall>j<length fl. fl' ! j \<longleftrightarrow> fl ! j \<or> (\<exists>i\<in>set is. \<exists>e\<in>set (nth_list R i). unat (file_id e) = j))"
  using assms
proof (induction R "is" off fl arbitrary: off' fl' rule: validate_snapshot_loop.induct)
  case (1 R off fl)
  then show ?case by simp
next
  case (2 R i "is" off fl)
  let ?e = "read_lookup_entry R i"
  let ?bytes = "postings_bytes R"
  from "2.prems"(1) obtain t raw fl1 where tri: "\<not> le_trigram ?e > 0x00ffffff"
    and off: "\<not> unat (le_offset ?e) \<noteq> off"
    and raw: "nth_trigram_raw R i = Some (t, raw)"
    and list: "validate_posting_loop R (nth_list R i) None fl = Inr fl1"
    and rest: "validate_snapshot_loop R is (off + length raw) fl1 = Inr (off', fl')"
    by (auto simp: Let_def nth_list_def nth_trigram_raw_decodes(1) split: if_splits option.splits)
  note L = validate_posting_loop_Inr [OF list "2.prems"(2)]
  obtain pre post where split: "postings_map R = Some (pre @ raw @ post)" "length pre = off"
    using nth_trigram_raw_decodes(4) [OF raw] off by auto
  have list': "validate_posting_loop R (map posting_decode (chunks POSTING_ENTRY_SIZE raw)) None fl = Inr fl1"
    using list by (simp add: nth_list_def nth_trigram_raw_decodes(1) [OF raw])
  have len1: "length fl1 = length (reader_paths R)" using L "2.prems"(2) by simp
  have stop: "off + length raw \<le> postings_len R" using split by (simp add: postings_len_def)
  have IH: "(\<forall>i\<in>set is. le_trigram (read_lookup_entry R i) \<le> 0x00ffffff \<and> posting_list_ok R (nth_list R i))
    \<and> off + length raw \<le> off' \<and> off' \<le> postings_len R
    \<and> take (off' - (off + length raw)) (drop (off + length raw) ?bytes) =
        concat (map (\<lambda>i. concat (map posting_encode (nth_list R i))) is)
    \<and> length fl' = length fl1
    \<and> (\<forall>j<length fl1. fl' ! j \<longleftrightarrow> fl1 ! j \<or> (\<exists>i\<in>set is. \<exists>e\<in>set (nth_list R i). unat (file_id e) = j))"
    by (rule "2.IH" [OF refl tri off raw refl list' rest len1 stop])
  have "off + length raw \<le> off'" using IH by blast
  then have "length raw \<le> off' - off" by linarith
  then have "take (off' - off) (drop off ?bytes) =
      raw @ take (off' - (off + length raw)) (drop (off + length raw) ?bytes)"
    using split by (simp add: postings_bytes_def take_append diff_diff_left)
  then have bytes: "take (off' - off) (drop off ?bytes) =
      concat (map (\<lambda>i. concat (map posting_encode (nth_list R i))) (i # is))"
    using IH raw_encodes [OF raw] by simp
  have "posting_list_ok R (nth_list R i)" using L by (simp add: posting_list_ok_def)
  moreover have "off \<le> off'" using IH by simp
  moreover have "length fl' = length fl" using IH L by simp
  moreover have "fl' ! j \<longleftrightarrow> fl ! j \<or> (\<exists>i\<in>set (i # is). \<exists>e\<in>set (nth_list R i). unat (file_id e) = j)"
    if "j < length fl" for j
    using IH L that by auto
  ultimately show ?case using IH bytes tri by (simp add: not_less)
qed

lemma validate_snapshot_postings_Inr:
  assumes "validate_snapshot_postings R = Inr fl"
  shows "(\<forall>i<num_entries R. le_trigram (read_lookup_entry R i) \<le> 0x00ffffff \<and> posting_list_ok R (nth_list R i))
    \<and> postings_bytes R =
        concat (map (\<lambda>i. concat (map posting_encode (nth_list R i))) [0..<num_entries R])
    \<and> length fl = length (reader_paths R)
    \<and> (\<forall>j<length (reader_paths R). fl ! j \<longleftrightarrow>
         (\<exists>i<num_entries R. \<exists>e\<in>set (nth_list R i). unat (file_id e) = j))"
proof -
  let ?fl = "replicate (length (reader_paths R)) False"
  from assms obtain off' where
    loop: "validate_snapshot_loop R [0..<num_entries R] 0 ?fl = Inr (off', fl)"
    and off: "off' = postings_len R"
    by (auto simp: validate_snapshot_postings_def postings_len_def split: if_splits)
  note L = validate_snapshot_loop_Inr [OF loop, simplified]
  have "take off' (postings_bytes R) = postings_bytes R" using off by simp
  with L show ?thesis by (auto simp: nth_list_def)
qed

section \<open>Paths by binary search\<close>

lemma order_paths:
  "set (order_paths ps) = {..<length ps}" "distinct (order_paths ps)"
  "sorted (map (\<lambda>i. ps ! i) (order_paths ps))" "length (order_paths ps) = length ps"
  by (auto simp: order_paths_def)

lemma slice_binary_search_iff:
  assumes "sorted (map key xs)"
  shows "slice_binary_search key xs k \<noteq> None \<longleftrightarrow> (\<exists>x\<in>set xs. key x = k)"
    and "slice_binary_search key xs k = Some i \<Longrightarrow> i < length xs \<and> key (xs ! i) = k"
proof -
  let ?i = "partition_point (\<lambda>x. key x < k) xs"
  show some: "slice_binary_search key xs k = Some i \<Longrightarrow> i < length xs \<and> key (xs ! i) = k" for i
    by (auto simp: slice_binary_search_def Let_def split: if_splits)
  have "?i < length xs \<and> key (xs ! ?i) = k" if "x \<in> set xs" "key x = k" for x
  proof -
    have "x \<notin> set (take ?i xs)" using partition_point_split(1) [OF assms, of x k] that by auto
    then have x: "x \<in> set (drop ?i xs)" using that by (metis Un_iff append_take_drop_id set_append)
    then have i: "?i < length xs" by (metis drop_all empty_iff linorder_not_le list.set(1))
    then have hd: "drop ?i xs = xs ! ?i # drop (Suc ?i) xs" by (simp only: Cons_nth_drop_Suc)
    have "sorted (map key (drop ?i xs))" using assms by (metis drop_map sorted_wrt_drop)
    then have "key (xs ! ?i) \<le> key x" using x unfolding hd by auto
    moreover have "k \<le> key (xs ! ?i)"
      by (rule partition_point_split(2) [OF assms]) (simp only: hd list.set_intros)
    ultimately show ?thesis using i that by simp
  qed
  then have "slice_binary_search key xs k = Some ?i" if "\<exists>x\<in>set xs. key x = k"
    using that by (auto simp: slice_binary_search_def Let_def)
  then show "slice_binary_search key xs k \<noteq> None \<longleftrightarrow> (\<exists>x\<in>set xs. key x = k)"
    using some by (metis not_None_eq nth_mem)
qed

lemma contains_path_iff:
  assumes "wf_reader R"
  shows "contains_path R p \<longleftrightarrow> p \<in> set (reader_paths R)"
proof -
  have order: "path_order R = order_paths (reader_paths R)" using assms by (simp add: wf_reader_def)
  show ?thesis
    unfolding contains_path_def order slice_binary_search_iff(1) [OF order_paths(3)]
    by (auto simp: order_paths(1) in_set_conv_nth)
qed

subsection \<open>Prefixes in the order of strings\<close>

lemma takeWhile_prefix:
  assumes "sorted (map key ys)" "\<forall>y\<in>set ys. pre \<le> key y"
  shows "set (takeWhile (\<lambda>y. prefix pre (key y)) ys) = {y \<in> set ys. prefix pre (key y :: 'a::linorder list)}"
  using assms
proof (induction ys)
  case (Cons y ys)
  have "\<not> prefix pre (key z)" if "\<not> prefix pre (key y)" "z \<in> set ys" for z
    using that Cons.prems prefix_interval [of pre "key y" "key z"] by auto
  with Cons show ?case by auto
qed simp

lemma prefixed_slice:
  fixes key :: "'b \<Rightarrow> 'a::linorder list"
  assumes "sorted (map key xs)"
  shows "set (takeWhile (\<lambda>x. prefix pre (key x)) (drop (partition_point (\<lambda>x. key x < pre) xs) xs)) =
    {x \<in> set xs. prefix pre (key x)}"
proof -
  let ?i = "partition_point (\<lambda>x. key x < pre) xs"
  have "sorted (map key (drop ?i xs))" using assms by (metis drop_map sorted_wrt_drop)
  moreover have "\<forall>y\<in>set (drop ?i xs). pre \<le> key y" using partition_point_split(2) [OF assms] by blast
  ultimately have "set (takeWhile (\<lambda>x. prefix pre (key x)) (drop ?i xs)) =
      {x \<in> set (drop ?i xs). prefix pre (key x)}" by (rule takeWhile_prefix)
  also have "\<dots> = {x \<in> set xs. prefix pre (key x)}"
  proof -
    have "\<not> prefix pre (key x)" if "x \<in> set (take ?i xs)" for x
      using partition_point_split(1) [OF assms that] prefix_le [of pre "key x"] by force
    moreover have "set xs = set (take ?i xs) \<union> set (drop ?i xs)"
      by (metis append_take_drop_id set_append)
    ultimately show ?thesis by blast
  qed
  finally show ?thesis .
qed

lemma set_file_ids_with_prefix:
  assumes "wf_reader R"
  shows "set (file_ids_with_prefix R pre) =
    {of_nat i | i. i < length (reader_paths R) \<and> prefix pre (reader_paths R ! i)}"
proof -
  have order: "path_order R = order_paths (reader_paths R)" using assms by (simp add: wf_reader_def)
  show ?thesis
    unfolding file_ids_with_prefix_def order Let_def set_map prefixed_slice [OF order_paths(3)]
    by (auto simp: order_paths(1))
qed

lemma reader_has_descendant_iff:
  assumes "wf_reader R"
  shows "reader_has_descendant_path R directory \<longleftrightarrow>
    (if directory = [] then reader_paths R \<noteq> [] else \<exists>p\<in>set (reader_paths R). below directory p)"
proof (cases "directory = []")
  case True
  have "path_order R = order_paths (reader_paths R)" using assms by (simp add: wf_reader_def)
  then have "length (path_order R) = length (reader_paths R)" by (simp add: order_paths(4))
  with True show ?thesis by (auto simp: reader_has_descendant_path_def)
next
  case False
  let ?key = "\<lambda>i. reader_paths R ! i" and ?pre = "directory @ [0x2F]"
  let ?i = "partition_point (\<lambda>i. ?key i < ?pre) (path_order R)"
  have order: "path_order R = order_paths (reader_paths R)" using assms by (simp add: wf_reader_def)
  have below: "below directory p \<longleftrightarrow> prefix ?pre p" for p by (auto simp: below_def prefix_def)
  have slice: "set (takeWhile (\<lambda>i. prefix ?pre (?key i)) (drop ?i (path_order R))) =
      {i. i < length (reader_paths R) \<and> prefix ?pre (?key i)}"
    unfolding order prefixed_slice [OF order_paths(3)] by (auto simp: order_paths(1))
  have "reader_has_descendant_path R directory \<longleftrightarrow>
      ?i < length (path_order R) \<and> prefix ?pre (?key (path_order R ! ?i))"
    using False by (simp add: reader_has_descendant_path_def Let_def strip_prefix_below below [symmetric])
  also have "\<dots> \<longleftrightarrow> takeWhile (\<lambda>i. prefix ?pre (?key i)) (drop ?i (path_order R)) \<noteq> []"
  proof (cases "?i < length (path_order R)")
    case True
    then have "drop ?i (path_order R) = path_order R ! ?i # drop (Suc ?i) (path_order R)"
      by (simp only: Cons_nth_drop_Suc)
    with True show ?thesis by simp
  qed simp
  also have "\<dots> \<longleftrightarrow> {i. i < length (reader_paths R) \<and> prefix ?pre (?key i)} \<noteq> {}"
    unfolding slice [symmetric] by simp
  also have "\<dots> \<longleftrightarrow> (\<exists>p\<in>set (reader_paths R). below directory p)"
    unfolding below by (force simp: set_conv_nth)
  finally show ?thesis using False by simp
qed

section \<open>Properties\<close>

text \<open>A small index, one file with one trigram, on which the properties are applied.\<close>

definition demo_dir :: "string \<Rightarrow> byte list option" where
  "demo_dir name =
     (if name = ''lookup.bin''
      then Some (lookup_encode \<lparr>le_trigram = 7, le_offset = 0, le_length = 1\<rparr>)
      else if name = ''index.bin''
      then Some (posting_encode \<lparr>loc_mask = 1, next_mask = 2, file_id = 0\<rparr>)
      else if name = ''files.bin''
      then Some (write_file_table_header [] @ file_entry_bytes (0, [0x61]))
      else None)"

definition demo_reader :: index_reader where
  "demo_reader =
     \<lparr>lookup_map = Some (lookup_encode \<lparr>le_trigram = 7, le_offset = 0, le_length = 1\<rparr>),
      postings_map = Some (posting_encode \<lparr>loc_mask = 1, next_mask = 2, file_id = 0\<rparr>),
      reader_paths = [[0x61]], path_order = [0], snapshot_file_has_postings = [],
      num_entries = 1\<rparr>"

lemma demo_stored: "stored_path [0x61]"
  by (simp add: stored_path_def MAX_PATH_LEN_def validate_index_path_iff)

lemma length_encodings [simp]: "length (lookup_encode l) = 16" "length (posting_encode e) = 6"
  using lookup.length_table [of "[l]"] posting.length_table [of "[e]"]
  by (simp_all add: LOOKUP_ENTRY_SIZE_def POSTING_ENTRY_SIZE_def)

lemma encodings_nonempty [simp]: "lookup_encode l \<noteq> []" "posting_encode e \<noteq> []"
  by (metis length_encodings list.size(3) zero_neq_numeral)+

lemma demo_open: "open_impl demo_dir require Legacy guarded = Inr demo_reader"
proof -
  have "decode_file_entries (file_entry_bytes (0, [0x61])) = Inr [(0, [0x61])]"
    using decode_encoded [of "[(0, [0x61])]"] demo_stored by simp
  moreover have "file_table_body_for (write_file_table_header [] @ file_entry_bytes (0, [0x61])) Legacy =
      Inr (file_entry_bytes (0, [0x61]))"
    by (simp add: write_file_table_header_def file_table_body_for_written)
  ultimately show ?thesis
    by (simp add: open_impl_def demo_dir_def demo_reader_def layout_lookup_def layout_postings_def
        layout_files_def open_sections_def LOOKUP_ENTRY_SIZE_def place_paths_def order_paths_def)
qed

lemma demo_fields:
  "lookup_map demo_reader = Some (lookup_encode \<lparr>le_trigram = 7, le_offset = 0, le_length = 1\<rparr>)"
  "postings_map demo_reader = Some (posting_encode \<lparr>loc_mask = 1, next_mask = 2, file_id = 0\<rparr>)"
  "reader_paths demo_reader = [[0x61]]" "num_entries demo_reader = 1" "postings_len demo_reader = 6"
  by (simp_all add: demo_reader_def postings_len_def)

lemma demo_entry:
  "read_lookup_entry demo_reader 0 = \<lparr>le_trigram = 7, le_offset = 0, le_length = 1\<rparr>"
  using lookup.dec_entry_of_table [of 0 "[\<lparr>le_trigram = 7, le_offset = 0, le_length = 1\<rparr>]"]
  by (simp add: read_lookup_entry_def demo_reader_def)

lemma demo_list:
  "read_posting_entries demo_reader 0 1 = [\<lparr>loc_mask = 1, next_mask = 2, file_id = 0\<rparr>]"
  by (rule read_posting_entries_table [of _ "[]" _ "[]"]) (simp_all add: demo_reader_def)

lemma demo_valid: "validate_lookup demo_reader = Inr ()"
proof -
  have "wf_reader demo_reader" using demo_open by (rule open_impl_wf)
  moreover have "reader_entries demo_reader = [\<lparr>le_trigram = 7, le_offset = 0, le_length = 1\<rparr>]"
    by (simp add: reader_entries_def demo_entry demo_fields)
  ultimately show ?thesis
    by (simp add: validate_lookup_iff range_ok_def demo_fields POSTING_ENTRY_SIZE_def)
qed

text \<open>On an opened index whose lookup table passes validation, looking a trigram up answers
  with the posting list the table gives it and with the empty list for any other trigram: the
  binary search finds every entry.\<close>

theorem reader_lookup_is_table:
  assumes "open_impl dir require layout guarded = Inr R" "validate_lookup R = Inr ()"
  shows "reader_lookup_trigram_with_masks R t =
    (case map_of (all_trigram_postings_with_masks R) t of Some l \<Rightarrow> l | None \<Rightarrow> [])"
proof -
  have wf: "wf_reader R" by (rule open_impl_wf [OF assms(1)])
  show ?thesis
    using validate_lookup_iff [OF wf] assms(2) by (intro reader_lookup_map_of [OF _ wf]) blast
qed

theorem reader_lookup_is_table_witness:
  "reader_lookup_trigram_with_masks demo_reader 7 = [\<lparr>loc_mask = 1, next_mask = 2, file_id = 0\<rparr>] \<and>
   reader_lookup_trigram_with_masks demo_reader 8 = []"
proof -
  have "all_trigram_postings_with_masks demo_reader =
      [(7, [\<lparr>loc_mask = 1, next_mask = 2, file_id = 0\<rparr>])]"
  proof -
    have "num_entries demo_reader = 1" by (simp add: demo_reader_def)
    then show ?thesis
      by (simp add: all_trigram_postings_with_masks_def trigram_posting_at_def demo_entry demo_list)
  qed
  then show ?thesis
    using reader_lookup_is_table [OF demo_open [of False False] demo_valid, of 7]
      reader_lookup_is_table [OF demo_open [of False False] demo_valid, of 8] by simp
qed

text \<open>For any offset and length a corrupted table may hold, decoding a posting list reads
  only whole entries inside the mapped file, at most as many as the file holds.\<close>

theorem posting_reads_stay_in_bounds:
  "length (read_posting_entries R offset len) \<le> postings_len R div POSTING_ENTRY_SIZE \<and>
   (i < length (read_posting_entries R offset len) \<longrightarrow>
      (\<exists>postings. postings_map R = Some postings \<and>
         unat offset + i * POSTING_ENTRY_SIZE + POSTING_ENTRY_SIZE \<le> length postings \<and>
         read_posting_entries R offset len ! i =
           posting_decode (take POSTING_ENTRY_SIZE (drop (unat offset + i * POSTING_ENTRY_SIZE) postings))))"
proof
  show "length (read_posting_entries R offset len) \<le> postings_len R div POSTING_ENTRY_SIZE"
    by (simp add: length_read_posting_entries POSTING_ENTRY_SIZE_def min.coboundedI2 div_le_mono)
qed (blast elim: read_posting_entries_nth)

theorem posting_reads_stay_in_bounds_witness:
  "length (read_posting_entries demo_reader (- 1) (- 1)) \<le> 1 \<and>
   read_posting_entries demo_reader 0 1 ! 0 = \<lparr>loc_mask = 1, next_mask = 2, file_id = 0\<rparr>"
proof
  show "length (read_posting_entries demo_reader (- 1) (- 1)) \<le> 1"
    using posting_reads_stay_in_bounds [of demo_reader "- 1" "- 1" 0, THEN conjunct1]
    by (simp add: demo_fields POSTING_ENTRY_SIZE_def)
  show "read_posting_entries demo_reader 0 1 ! 0 = \<lparr>loc_mask = 1, next_mask = 2, file_id = 0\<rparr>"
    by (simp add: demo_list)
qed

text \<open>The validation of a lookup table accepts exactly the tables with strictly ascending
  trigrams whose posting ranges all lie in the postings file.\<close>

theorem validate_lookup_exact:
  assumes "open_impl dir require layout guarded = Inr R"
  shows "validate_lookup R = Inr () \<longleftrightarrow>
    ascending (map le_trigram (reader_entries R)) \<and> (\<forall>e\<in>set (reader_entries R). range_ok R e)"
  by (rule validate_lookup_iff [OF open_impl_wf [OF assms]])

theorem validate_lookup_exact_witness: "ascending (map le_trigram (reader_entries demo_reader))"
  using validate_lookup_exact [OF demo_open [of False False]] demo_valid by simp

text \<open>A strictly opened snapshot is fully described by its lists: trigrams are 24 bits and
  ascending, every list names known files in ascending order with a location, the postings file
  is exactly the lists one after the other with no byte unreferenced, and the recorded flags
  say which files have a posting.\<close>

theorem snapshot_is_its_lists:
  assumes "open_snapshot dir layout guarded = Inr R"
  shows "ascending (map fst (all_trigram_postings_with_masks R)) \<and>
    (\<forall>(t, es)\<in>set (all_trigram_postings_with_masks R). t \<le> 0x00ffffff \<and> posting_list_ok R es) \<and>
    postings_bytes R =
      concat (map (\<lambda>(t, es). concat (map posting_encode es)) (all_trigram_postings_with_masks R)) \<and>
    (\<forall>j<length (reader_paths R). snapshot_file_has_postings R ! j \<longleftrightarrow>
       (\<exists>(t, es)\<in>set (all_trigram_postings_with_masks R). \<exists>e\<in>set es. unat (file_id e) = j))"
proof -
  obtain S fl where S: "open_impl dir True layout guarded = Inr S" "validate_lookup S = Inr ()"
    "validate_snapshot_postings S = Inr fl" and R: "R = S\<lparr>snapshot_file_has_postings := fl\<rparr>"
    using assms by (auto simp: open_snapshot_def)
  have same: "read_lookup_entry R = read_lookup_entry S" "nth_list R = nth_list S"
    "num_entries R = num_entries S" "reader_paths R = reader_paths S" "postings_bytes R = postings_bytes S"
    "snapshot_file_has_postings R = fl" "posting_list_ok R = posting_list_ok S"
    by (simp_all add: R read_lookup_entry_def nth_list_def trigram_posting_at_def read_posting_entries_def
        postings_bytes_def posting_list_ok_def fun_eq_iff)
  have all: "all_trigram_postings_with_masks R =
      map (\<lambda>i. (le_trigram (read_lookup_entry S i), nth_list S i)) [0..<num_entries S]"
    unfolding same(1-3) [symmetric]
    by (simp add: all_trigram_postings_with_masks_def nth_list_def trigram_posting_at_def Let_def)
  have asc: "ascending (map le_trigram (reader_entries S))"
    using validate_lookup_iff [OF open_impl_wf [OF S(1)]] S(2) by blast
  note V = validate_snapshot_postings_Inr [OF S(3)]
  show ?thesis
    unfolding all same
    using V asc by (auto simp: reader_entries_def comp_def)
qed

theorem snapshot_is_its_lists_witness:
  "\<exists>R. open_snapshot demo_dir Legacy False = Inr R \<and> snapshot_file_has_postings R ! 0"
proof -
  have raw: "nth_trigram_raw demo_reader 0 =
      Some (7, posting_encode \<lparr>loc_mask = 1, next_mask = 2, file_id = 0\<rparr>)"
    by (simp add: nth_trigram_raw_def demo_entry Let_def range_end_def checked_u64_def
        POSTING_ENTRY_SIZE_def) (simp add: demo_reader_def posting_encode_def)
  have "num_entries demo_reader = 1" "reader_paths demo_reader = [[0x61]]"
    "postings_map demo_reader = Some (posting_encode \<lparr>loc_mask = 1, next_mask = 2, file_id = 0\<rparr>)"
    by (simp_all add: demo_reader_def)
  moreover have "map posting_decode (chunks POSTING_ENTRY_SIZE (posting_encode e)) = [e]" for e
    using posting.dec_table [of "[e]"] by simp
  moreover have "length (posting_encode e) = 6" for e
    using posting.length_table [of "[e]"] by (simp add: POSTING_ENTRY_SIZE_def)
  ultimately have "validate_snapshot_postings demo_reader = Inr [True]"
    by (simp add: validate_snapshot_postings_def demo_entry raw Let_def)
  then have opened: "open_snapshot demo_dir Legacy False =
      Inr (demo_reader\<lparr>snapshot_file_has_postings := [True]\<rparr>)"
    by (simp add: open_snapshot_def demo_open demo_valid)
  from snapshot_is_its_lists [OF opened] show ?thesis using opened by auto
qed

text \<open>The binary searches over the path order answer as a scan of all paths would:
  membership, the files under a prefix, and whether a directory has a file below it.\<close>

theorem path_queries_are_scans:
  assumes "open_impl dir require layout guarded = Inr R"
  shows "(contains_path R p \<longleftrightarrow> p \<in> set (reader_paths R)) \<and>
    set (file_ids_with_prefix R pre) =
      {of_nat i | i. i < length (reader_paths R) \<and> prefix pre (reader_paths R ! i)} \<and>
    (reader_has_descendant_path R directory \<longleftrightarrow>
      (if directory = [] then reader_paths R \<noteq> [] else \<exists>p\<in>set (reader_paths R). below directory p))"
  using contains_path_iff set_file_ids_with_prefix reader_has_descendant_iff open_impl_wf [OF assms]
  by blast

theorem path_queries_are_scans_witness:
  "contains_path demo_reader [0x61] \<and> \<not> reader_has_descendant_path demo_reader [0x61]"
proof -
  have "reader_paths demo_reader = [[0x61]]" by (simp add: demo_reader_def)
  then show ?thesis
    using path_queries_are_scans [OF demo_open [of False False], of "[0x61]" "[]" "[0x61]"]
    by (simp add: below_def)
qed

end
