(* ===== verification/Hybrid.thy ===== *)
theory Hybrid
  imports Live Reader
begin

text \<open>
  The hybrid index (\<^verbatim>\<open>tgrep-core/src/hybrid.rs\<close>): the read-only index of the last
  flush with the live overlay on top.  The lock around the reader and its reference count are
  the field \<open>hreader\<close>: a query takes one reader and uses it to the end, so the functions
  that take a snapshot of the reader have it as an argument.  As in the overlay, \<open>iter\<close> is
  the iteration order of the hash sets of identifiers, \<open>piter\<close> that of the path tables and
  \<open>titer\<close> that of the trigram table.
\<close>

section \<open>The state\<close>

record hybrid_index =
  hreader :: index_reader
  hlive :: live_index
  root :: path

definition from_reader :: "index_reader \<Rightarrow> path \<Rightarrow> hybrid_index" where
  "from_reader reader rt = \<lparr>hreader = reader, hlive = live_new, root = rt\<rparr>"

definition open_reader :: "(string \<Rightarrow> byte list option) \<Rightarrow> index_reader result" where
  "open_reader dir =
     rbind (reader_open dir) (\<lambda>reader.
       if is_degenerate reader then
         Inl (IndexCorrupted ''degenerate reader: mmap sections non-empty but num_entries is 0'')
       else rbind (validate_lookup reader) (\<lambda>_. Inr reader))"

definition hybrid_open :: "(string \<Rightarrow> byte list option) \<Rightarrow> path \<Rightarrow> hybrid_index result" where
  "hybrid_open dir rt = rbind (open_reader dir) (\<lambda>reader. Inr (from_reader reader rt))"

definition swap_reader :: "index_reader \<Rightarrow> hybrid_index \<Rightarrow> hybrid_index" where
  "swap_reader new_reader self = self\<lparr>hreader := new_reader\<rparr>"

definition drop_reader :: "hybrid_index \<Rightarrow> hybrid_index" where
  "drop_reader self = swap_reader reader_empty self"

definition reopen_reader :: "(string \<Rightarrow> byte list option) \<Rightarrow> hybrid_index \<Rightarrow> hybrid_index result" where
  "reopen_reader dir self = rbind (reader_open dir) (\<lambda>new_reader. Inr (swap_reader new_reader self))"

section \<open>The scope of a query\<close>

record reader_scope =
  scope_files :: nat
  scope_words :: "u64 list option"

definition mark_id :: "u32 \<Rightarrow> u64 list \<Rightarrow> u64 list" where
  "mark_id fid words =
     (let k = unat fid in words[k div 64 := words ! (k div 64) OR push_bit (k mod 64) 1])"

definition reader_scope_new :: "index_reader \<Rightarrow> path \<Rightarrow> reader_scope" where
  "reader_scope_new reader pre =
     (let files = reader_num_files reader;
          words = (if pre = [] then None
                   else Some (fold mark_id (file_ids_with_prefix reader pre)
                                (replicate ((files + 63) div 64) 0)))
      in \<lparr>scope_files = files, scope_words = words\<rparr>)"

definition scope_contains :: "reader_scope \<Rightarrow> u32 \<Rightarrow> bool" where
  "scope_contains self fid =
     (let k = unat fid
      in k < scope_files self \<and>
         (case scope_words self of
            None \<Rightarrow> True
          | Some words \<Rightarrow> words ! (k div 64) AND push_bit (k mod 64) 1 \<noteq> 0))"

section \<open>Queries\<close>

definition reader_entry_active :: "hybrid_index \<Rightarrow> index_reader \<Rightarrow> u32 \<Rightarrow> bool" where
  "reader_entry_active self reader fid =
     (case reader_file_path reader fid of
        Some path \<Rightarrow> \<not> is_deleted (hlive self) path \<and> \<not> has_path (hlive self) path
      | None \<Rightarrow> False)"

definition resolve_path :: "hybrid_index \<Rightarrow> u32 \<Rightarrow> index_reader \<Rightarrow> path option" where
  "resolve_path self fid reader =
     (if is_overlay_id fid then live_file_path (hlive self) fid else reader_file_path reader fid)"

definition hybrid_file_path :: "hybrid_index \<Rightarrow> u32 \<Rightarrow> path option" where
  "hybrid_file_path self fid =
     (if is_overlay_id fid then live_file_path (hlive self) fid
      else reader_file_path (hreader self) fid)"

text \<open>\<^verbatim>\<open>Path::join\<close> on Unix, where the separator needs no replacement.\<close>

definition join_path :: "path \<Rightarrow> path \<Rightarrow> path" where
  "join_path base rel =
     (if take 1 rel = [0x2F] then rel
      else if base = [] \<or> last base = 0x2F then base @ rel
      else base @ [0x2F] @ rel)"

definition resolve_full_path :: "hybrid_index \<Rightarrow> u32 \<Rightarrow> index_reader \<Rightarrow> path option" where
  "resolve_full_path self fid reader = map_option (join_path (root self)) (resolve_path self fid reader)"

definition lookup_trigram_using_reader ::
  "(u32 set \<Rightarrow> u32 list) \<Rightarrow> hybrid_index \<Rightarrow> u32 \<Rightarrow> index_reader \<Rightarrow> u32 list"
where
  "lookup_trigram_using_reader iter self trigram reader =
     filter (reader_entry_active self reader) (reader_lookup_trigram reader trigram)
       @ live_lookup_trigram iter (hlive self) trigram"

definition lookup_trigram_with_masks_using_reader ::
  "(u32 set \<Rightarrow> u32 list) \<Rightarrow> hybrid_index \<Rightarrow> u32 \<Rightarrow> index_reader \<Rightarrow> posting_entry list"
where
  "lookup_trigram_with_masks_using_reader iter self trigram reader =
     filter (\<lambda>e. reader_entry_active self reader (file_id e))
       (reader_lookup_trigram_with_masks reader trigram)
       @ live_lookup_trigram_with_masks iter (hlive self) trigram"

definition live_in_scope :: "live_index \<Rightarrow> path \<Rightarrow> u32 \<Rightarrow> bool" where
  "live_in_scope live pre fid =
     (pre = [] \<or> (case live_file_path live fid of Some path \<Rightarrow> prefix pre path | None \<Rightarrow> False))"

text \<open>The list of a trigram that a scoped query works on.\<close>

definition scoped_lookup ::
  "(u32 set \<Rightarrow> u32 list) \<Rightarrow> index_reader \<Rightarrow> live_index \<Rightarrow> path \<Rightarrow> u32 \<Rightarrow> posting_entry list"
where
  "scoped_lookup iter reader live pre tri =
     (let scope = reader_scope_new reader pre;
          entries = filter (\<lambda>e. scope_contains scope (file_id e))
            (reader_lookup_trigram_with_masks reader tri);
          live_entries = filter (\<lambda>e. live_in_scope live pre (file_id e))
            (live_lookup_trigram_with_masks iter live tri)
      in entries @ sort_key file_id live_entries)"

text \<open>The identifiers a query without a condition selects.\<close>

definition scoped_all_ids ::
  "(u32 set \<Rightarrow> u32 list) \<Rightarrow> index_reader \<Rightarrow> live_index \<Rightarrow> path \<Rightarrow> u32 list"
where
  "scoped_all_ids iter reader live pre =
     (if pre = [] then reader_all_file_ids reader else sort (file_ids_with_prefix reader pre))
       @ sort (filter (live_in_scope live pre) (live_all_file_ids iter live))"

definition execute_query_with_masks_in ::
  "(u32 set \<Rightarrow> u32 list) \<Rightarrow> hybrid_index \<Rightarrow> query_plan \<Rightarrow> path \<Rightarrow> u32 list \<times> index_reader"
where
  "execute_query_with_masks_in iter self plan pre =
     (let reader = hreader self;
          ids = (if is_match_all plan then scoped_all_ids iter reader (hlive self) pre
                 else execute_plan_with_masks plan (scoped_lookup iter reader (hlive self) pre))
      in (filter (\<lambda>fid. is_overlay_id fid \<or> reader_entry_active self reader fid) ids, reader))"

definition execute_query_with_masks ::
  "(u32 set \<Rightarrow> u32 list) \<Rightarrow> hybrid_index \<Rightarrow> query_plan \<Rightarrow> u32 list \<times> index_reader"
where
  "execute_query_with_masks iter self plan = execute_query_with_masks_in iter self plan []"

definition hybrid_all_file_ids :: "(u32 set \<Rightarrow> u32 list) \<Rightarrow> hybrid_index \<Rightarrow> u32 list" where
  "hybrid_all_file_ids iter self = fst (execute_query_with_masks iter self MatchAll)"

definition execute_query :: "(u32 set \<Rightarrow> u32 list) \<Rightarrow> hybrid_index \<Rightarrow> query_plan \<Rightarrow> u32 list" where
  "execute_query iter self plan =
     (if is_match_all plan then hybrid_all_file_ids iter self
      else execute_plan plan (\<lambda>tri. lookup_trigram_using_reader iter self tri (hreader self)))"

definition hybrid_all_paths :: "(u32 set \<Rightarrow> u32 list) \<Rightarrow> hybrid_index \<Rightarrow> path list" where
  "hybrid_all_paths iter self =
     (let reader = hreader self
      in map snd (filter (\<lambda>(i, _). reader_entry_active self reader (of_nat i))
           (enumerate 0 (reader_paths reader)))
         @ all_paths_ordered iter (hlive self))"

definition has_active_path :: "hybrid_index \<Rightarrow> path \<Rightarrow> bool" where
  "has_active_path self path =
     (if has_path (hlive self) path then True
      else if is_deleted (hlive self) path then False
      else contains_path (hreader self) path)"

text \<open>The subtraction of machine integers: \<open>None\<close> where it would overflow.\<close>

definition num_files_using :: "hybrid_index \<Rightarrow> index_reader \<Rightarrow> nat option" where
  "num_files_using self reader =
     (let shadowed = card {p \<in> Mapping.keys (path_to_id (hlive self)). contains_path reader p}
                   + card {p \<in> deleted_paths (hlive self). contains_path reader p}
      in if shadowed \<le> reader_num_files reader
         then Some (reader_num_files reader - shadowed + live_num_files (hlive self)) else None)"

definition hybrid_num_trigrams :: "hybrid_index \<Rightarrow> nat" where
  "hybrid_num_trigrams self =
     (let reader_count = num_entries (hreader self); live_count = live_num_trigrams (hlive self)
      in if reader_count = 0 then live_count
         else if live_count = 0 then reader_count
         else max reader_count live_count)"

definition reader_paths_matching :: "hybrid_index \<Rightarrow> (path \<Rightarrow> bool) \<Rightarrow> path list" where
  "reader_paths_matching self keep = filter keep (reader_paths (hreader self))"

section \<open>After a flush\<close>

definition prune_persisted_entries_except ::
  "(path set \<Rightarrow> path list) \<Rightarrow> path set \<Rightarrow> hybrid_index \<Rightarrow> hybrid_index"
where
  "prune_persisted_entries_except piter preserved self =
     (let persisted = set (reader_paths (hreader self)) - preserved
      in case try_drop_all_persisted persisted (hlive self) of
           (True, live) \<Rightarrow> self\<lparr>hlive := live\<rparr>
         | (False, live) \<Rightarrow>
             let to_remove = filter (\<lambda>p. p \<in> persisted) (piter (Mapping.keys (path_to_id live)))
             in self\<lparr>hlive := batch_remove_overlay_entries to_remove live\<rparr>)"

definition prune_persisted_entries :: "(path set \<Rightarrow> path list) \<Rightarrow> hybrid_index \<Rightarrow> hybrid_index" where
  "prune_persisted_entries piter self = prune_persisted_entries_except piter {} self"

text \<open>The new number of each reader file and the list of kept paths.\<close>

definition DROPPED :: u32 where
  "DROPPED = - 1"

fun number_reader_paths ::
  "live_index \<Rightarrow> path list \<Rightarrow> u32 list \<Rightarrow> path list \<Rightarrow> u32 list \<times> path list"
where
  "number_reader_paths live [] id_map paths = (id_map, paths)"
| "number_reader_paths live (p # ps) id_map paths =
     (if is_deleted live p \<or> has_path live p
      then number_reader_paths live ps (id_map @ [DROPPED]) paths
      else number_reader_paths live ps (id_map @ [of_nat (length paths)]) (paths @ [p]))"

fun number_overlay_paths ::
  "path list \<Rightarrow> (path, u32) mapping \<Rightarrow> path list \<Rightarrow> (path, u32) mapping \<times> path list"
where
  "number_overlay_paths [] new_id paths = (new_id, paths)"
| "number_overlay_paths (p # ps) new_id paths =
     number_overlay_paths ps (Mapping.update p (of_nat (length paths)) new_id) (paths @ [p])"

definition remap_reader_posting :: "u32 list \<Rightarrow> posting_entry list \<Rightarrow> posting_entry list" where
  "remap_reader_posting id_map posting =
     List.map_filter (\<lambda>e.
         if unat (file_id e) < length id_map \<and> id_map ! unat (file_id e) \<noteq> DROPPED
         then Some (e\<lparr>file_id := id_map ! unat (file_id e)\<rparr>) else None) posting"

definition remap_overlay_posting ::
  "live_index \<Rightarrow> (path, u32) mapping \<Rightarrow> u32 \<Rightarrow> u32 list \<Rightarrow> posting_entry list"
where
  "remap_overlay_posting live new_id trigram ids =
     List.map_filter (\<lambda>fid. Option.bind (live_file_path live fid) (\<lambda>p.
         map_option (\<lambda>n. posting_of n (get_masks live trigram fid)) (Mapping.lookup new_id p))) ids"

definition full_snapshot ::
  "(u32 set \<Rightarrow> u32 list) \<Rightarrow> (u32 set \<Rightarrow> u32 list) \<Rightarrow> hybrid_index \<Rightarrow>
   path list \<times> (u32, posting_entry list) mapping"
where
  "full_snapshot iter titer self =
     (let reader = hreader self; live = hlive self;
          (id_map, paths) = number_reader_paths live (reader_paths reader) [] [];
          (new_id, paths) = number_overlay_paths (all_paths_ordered iter live) Mapping.empty paths;
          inv0 = fold (\<lambda>i m.
              let (trigram, posting) = trigram_posting_at reader i;
                  remapped = remap_reader_posting id_map posting
              in if remapped = [] then m else Mapping.update trigram remapped m)
            [0..<num_entries reader] Mapping.empty;
          inv1 = fold (\<lambda>trigram m.
              let remapped = remap_overlay_posting live new_id trigram
                    (iter (the (Mapping.lookup (inverted live) trigram)))
              in if remapped = [] then m
                 else Mapping.update trigram
                   ((case Mapping.lookup m trigram of Some l \<Rightarrow> l | None \<Rightarrow> []) @ remapped) m)
            (titer (Mapping.keys (inverted live))) inv0
      in (paths, Mapping.map_values (\<lambda>_ posting. sort_key file_id posting) inv1))"

lemma unat_of_nat_u32: "n < 2 ^ 32 \<Longrightarrow> unat (of_nat n :: u32) = n"
  by (simp add: unat_of_nat)

section \<open>The scope is the files under the prefix\<close>

lemma length_mark_id [simp]: "length (mark_id fid words) = length words"
  by (simp add: mark_id_def Let_def)

lemma length_fold_mark [simp]: "length (fold mark_id ids words) = length words"
  by (induction ids arbitrary: words) simp_all

lemma bit_mark_id:
  assumes "i < length words" "j < 64"
  shows "bit (mark_id fid words ! i) j \<longleftrightarrow>
    bit (words ! i) j \<or> i = unat fid div 64 \<and> j = unat fid mod 64"
  using assms by (cases "i = unat fid div 64") (auto simp: mark_id_def Let_def bit_or_iff bit_push_bit_iff bit_exp_iff)

lemma bit_fold_mark:
  assumes "i < length words" "j < 64"
  shows "bit (fold mark_id ids words ! i) j \<longleftrightarrow>
    bit (words ! i) j \<or> (\<exists>fid\<in>set ids. i = unat fid div 64 \<and> j = unat fid mod 64)"
  using assms by (induction ids arbitrary: words) (auto simp: bit_mark_id)

lemma scope_contains_iff:
  assumes wf: "wf_reader R"
  shows "scope_contains (reader_scope_new R pre) fid \<longleftrightarrow>
    unat fid < length (reader_paths R) \<and> prefix pre (reader_paths R ! unat fid)"
proof (cases "pre = []")
  case True
  then show ?thesis by (simp add: scope_contains_def reader_scope_new_def Let_def reader_num_files_def)
next
  case False
  let ?n = "length (reader_paths R)" and ?k = "unat fid" and ?ids = "file_ids_with_prefix R pre"
  have words: "scope_contains (reader_scope_new R pre) fid \<longleftrightarrow> ?k < ?n \<and>
      bit (fold mark_id ?ids (replicate ((?n + 63) div 64) 0) ! (?k div 64)) (?k mod 64)"
    using False by (simp add: scope_contains_def reader_scope_new_def Let_def reader_num_files_def
        bit_iff_and_push_bit_not_eq_0)
  have "bit (fold mark_id ?ids (replicate ((?n + 63) div 64) 0) ! (?k div 64)) (?k mod 64) \<longleftrightarrow>
      fid \<in> set ?ids" if k: "?k < ?n"
  proof -
    have "?k div 64 < (?n + 63) div 64" using k by linarith
    then have "bit (fold mark_id ?ids (replicate ((?n + 63) div 64) 0) ! (?k div 64)) (?k mod 64) \<longleftrightarrow>
        (\<exists>f\<in>set ?ids. ?k div 64 = unat f div 64 \<and> ?k mod 64 = unat f mod 64)"
      by (subst bit_fold_mark) simp_all
    also have "\<dots> \<longleftrightarrow> (\<exists>f\<in>set ?ids. ?k = unat f)"
      by (metis div_mult_mod_eq)
    finally show ?thesis by (simp add: Bex_def)
  qed
  moreover have "fid \<in> set ?ids \<longleftrightarrow> ?k < ?n \<and> prefix pre (reader_paths R ! ?k)"
  proof -
    have bound: "?n \<le> 2 ^ 32" using wf by (simp add: wf_reader_def)
    have "unat (of_nat i :: u32) = i" if "i < ?n" for i
      using that bound by (intro unat_of_nat_u32) simp
    then show ?thesis unfolding set_file_ids_with_prefix [OF wf] by force
  qed
  ultimately show ?thesis using words by blast
qed

section \<open>The hybrid index as a provider of posting lists\<close>

text \<open>What the reader says of a file: the masks of each trigram.\<close>

definition reader_table :: "index_reader \<Rightarrow> u32 \<Rightarrow> u32 \<Rightarrow> trigram_masks option" where
  "reader_table R fid h =
     map_option (\<lambda>e. \<lparr>loc_mask = loc_mask e, next_mask = next_mask e\<rparr>)
       (entry_for fid (reader_lookup_trigram_with_masks R h))"

lemma entry_for_file_id: "entry_for fid es = Some e \<Longrightarrow> file_id e = fid \<and> e \<in> set es"
  by (auto simp: entry_for_def find_Some_iff)

lemma entry_for_reader:
  "entry_for fid (reader_lookup_trigram_with_masks R h) = map_option (posting_of fid) (reader_table R fid h)"
  by (cases "entry_for fid (reader_lookup_trigram_with_masks R h)")
    (auto simp: reader_table_def posting_of_def dest!: entry_for_file_id)

interpretation reader_postings:
  exact_posting_source "reader_lookup_trigram_with_masks R" "reader_table R" for R
  by unfold_locales (rule entry_for_reader)

lemma entry_for_append:
  "entry_for fid (xs @ ys) =
     (case entry_for fid xs of Some e \<Rightarrow> Some e | None \<Rightarrow> entry_for fid ys)"
  by (induction xs) (simp_all add: entry_for_def)

lemma entry_for_filter:
  "entry_for fid (filter (\<lambda>e. P (file_id e)) xs) = (if P fid then entry_for fid xs else None)"
  by (induction xs) (auto simp: entry_for_def)

lemma entry_for_sort [simp]: "entry_for fid (sort_key file_id xs) = entry_for fid xs"
  by (simp add: entry_for_def find_sort_key)

definition scoped_table :: "index_reader \<Rightarrow> live_index \<Rightarrow> path \<Rightarrow> u32 \<Rightarrow> u32 \<Rightarrow> trigram_masks option" where
  "scoped_table R L pre fid h =
     (let overlay = (if live_in_scope L pre fid then entry_masks L fid h else None)
      in if scope_contains (reader_scope_new R pre) fid
         then (case reader_table R fid h of Some m \<Rightarrow> Some m | None \<Rightarrow> overlay) else overlay)"

interpretation scoped_postings:
  exact_posting_source "scoped_lookup (order_of iter) R L pre" "scoped_table R L pre"
  for iter R L pre
proof unfold_locales
  fix fid h
  show "entry_for fid (scoped_lookup (order_of iter) R L pre h) =
      map_option (posting_of fid) (scoped_table R L pre fid h)"
    by (auto simp: scoped_lookup_def scoped_table_def Let_def entry_for_append entry_for_filter
        entry_for_reader entry_for_live split: option.split)
qed

section \<open>The merged view\<close>

text \<open>
  What the index as a whole says of a path: the overlay decides where it knows the path, the
  reader elsewhere.  A reader that lists a path twice has two tables for it.
\<close>

definition path_tables :: "hybrid_index \<Rightarrow> path \<Rightarrow> (u32 \<Rightarrow> trigram_masks option) set" where
  "path_tables H p =
     (case overlay_of (hlive H) p of
        Active t \<Rightarrow> {t}
      | Tombstone \<Rightarrow> {}
      | Untouched \<Rightarrow> {reader_table (hreader H) (of_nat i) | i.
          i < length (reader_paths (hreader H)) \<and> reader_paths (hreader H) ! i = p})"

definition hybrid_inv :: "hybrid_index \<Rightarrow> bool" where
  "hybrid_inv H \<longleftrightarrow> wf_reader (hreader H) \<and> live_inv (hlive H) \<and>
     length (reader_paths (hreader H)) \<le> 2 ^ 31"

lemma is_overlay_id_iff: "is_overlay_id fid \<longleftrightarrow> 2 ^ 31 \<le> unat fid"
proof -
  have "is_overlay_id fid \<longleftrightarrow> bit fid 31"
    by (simp add: is_overlay_id_def OVERLAY_BIT_def bit_iff_and_push_bit_not_eq_0)
  also have "\<dots> \<longleftrightarrow> odd (unat fid div 2 ^ 31)"
    using bit_unsigned_iff [of fid 31, where ?'a = nat] by (simp add: bit_iff_odd)
  also have "\<dots> \<longleftrightarrow> 2 ^ 31 \<le> unat fid"
  proof
    assume "2 ^ 31 \<le> unat fid"
    moreover have "unat fid < 2 ^ 32" using unsigned_less [of fid] by simp
    ultimately have "unat fid div 2 ^ 31 = 1" by (intro div_nat_eqI) simp_all
    then show "odd (unat fid div 2 ^ 31)" by simp
  qed (use linorder_not_less in fastforce)
  finally show ?thesis .
qed

lemma overlay_untouched_iff:
  "overlay_of L p = Untouched \<longleftrightarrow> \<not> is_deleted L p \<and> \<not> has_path L p"
  by (auto simp: overlay_of_def is_deleted_def has_path_def split: option.split)

lemma reader_entry_active_iff:
  "reader_entry_active H R fid \<longleftrightarrow>
     (\<exists>p. reader_file_path R fid = Some p \<and> overlay_of (hlive H) p = Untouched)"
  by (auto simp: reader_entry_active_def overlay_untouched_iff split: option.split)

lemma narrows_table:
  "narrows plan \<Longrightarrow> plan_accepts t plan \<Longrightarrow> plan \<noteq> Or [] \<Longrightarrow> \<exists>h. t h \<noteq> None"
proof (induction plan)
  case (And queries)
  then obtain q where "q \<in> set queries" by (cases queries) auto
  then obtain m where "t (q_hash q) = Some m" using And by (auto simp: query_accepts_def)
  then show ?case by (intro exI [of _ "q_hash q"]) simp
next
  case (Or plans)
  then obtain p where p: "p \<in> set plans" "plan_accepts t p" by auto
  moreover have "p \<noteq> Or []" using p by auto
  ultimately show ?case using Or by auto
qed simp

lemma narrows_no_table: "narrows plan \<Longrightarrow> \<not> plan_accepts (\<lambda>_. None) plan"
  using narrows_table [of plan "\<lambda>_. None"] by (cases "plan = Or []") auto

lemma entry_masks_registered:
  assumes "live_inv L" "entry_masks L fid h = Some m"
  shows "\<exists>p. Mapping.lookup (file_paths L) fid = Some p" "is_overlay_id fid"
  using live_invD(2) [OF assms(1), of fid h] live_invD(6) [OF assms(1), of fid] assms(2)
  by (auto simp: entry_masks_def split: if_splits)

lemma scoped_table_overlay:
  assumes "hybrid_inv H" "is_overlay_id fid"
  shows "scoped_table (hreader H) (hlive H) pre fid =
    (if live_in_scope (hlive H) pre fid then entry_masks (hlive H) fid else (\<lambda>_. None))"
proof -
  have "\<not> scope_contains (reader_scope_new (hreader H) pre) fid"
    using assms by (auto simp: hybrid_inv_def scope_contains_iff is_overlay_id_iff)
  then show ?thesis by (auto simp: scoped_table_def Let_def fun_eq_iff)
qed

lemma scoped_table_reader:
  assumes "hybrid_inv H" "\<not> is_overlay_id fid"
  shows "scoped_table (hreader H) (hlive H) pre fid =
    (if scope_contains (reader_scope_new (hreader H) pre) fid then reader_table (hreader H) fid
     else (\<lambda>_. None))"
proof -
  have "entry_masks (hlive H) fid h = None" for h
    using assms entry_masks_registered(2) [of "hlive H" fid h]
    by (cases "entry_masks (hlive H) fid h") (auto simp: hybrid_inv_def)
  then show ?thesis by (auto simp: scoped_table_def Let_def fun_eq_iff split: option.split)
qed

text \<open>What a query selects, by identifier.\<close>

definition id_accepted :: "hybrid_index \<Rightarrow> query_plan \<Rightarrow> path \<Rightarrow> u32 \<Rightarrow> bool" where
  "id_accepted H plan pre fid \<longleftrightarrow>
     (\<exists>p. resolve_path H fid (hreader H) = Some p \<and> prefix pre p \<and>
        (if is_overlay_id fid then plan_accepts (entry_masks (hlive H) fid) plan
         else overlay_of (hlive H) p = Untouched \<and> plan_accepts (reader_table (hreader H) fid) plan))"

lemma candidates_narrow:
  assumes inv: "hybrid_inv H" and iter: "iteration iter" and plan: "narrows plan"
  shows "set (fst (execute_query_with_masks_in iter H plan pre)) = {fid. id_accepted H plan pre fid}"
proof -
  let ?L = "hlive H" and ?R = "hreader H"
  have wf: "wf_reader ?R" and linv: "live_inv ?L" using inv by (simp_all add: hybrid_inv_def)
  have "plan \<noteq> MatchAll" using plan by auto
  then have "set (fst (execute_query_with_masks_in iter H plan pre)) =
      {fid. plan_accepts (scoped_table ?R ?L pre fid) plan \<and>
        (is_overlay_id fid \<or> reader_entry_active H ?R fid)}"
    using scoped_postings.candidates_exact [OF plan, of iter ?R ?L pre]
    by (auto simp: execute_query_with_masks_in_def Let_def order_of_iteration [OF iter])
  also have "\<dots> = {fid. id_accepted H plan pre fid}"
  proof (rule Collect_cong)
    fix fid
    show "plan_accepts (scoped_table ?R ?L pre fid) plan \<and>
        (is_overlay_id fid \<or> reader_entry_active H ?R fid) \<longleftrightarrow> id_accepted H plan pre fid"
    proof (cases "is_overlay_id fid")
      case True
      have "plan_accepts (entry_masks ?L fid) plan \<Longrightarrow>
          \<exists>p. Mapping.lookup (file_paths ?L) fid = Some p"
        using narrows_table [OF plan, of "entry_masks ?L fid"] entry_masks_registered(1) [OF linv] plan
        by (cases "plan = Or []") auto
      with True show ?thesis
        using narrows_no_table [OF plan]
        by (auto simp: scoped_table_overlay [OF inv True] id_accepted_def resolve_path_def
            live_in_scope_def live_file_path_def split: option.splits)
    next
      case False
      then show ?thesis
        using narrows_no_table [OF plan]
        by (auto simp: scoped_table_reader [OF inv False] id_accepted_def resolve_path_def
            scope_contains_iff [OF wf] reader_entry_active_iff reader_file_path_def)
    qed
  qed
  finally show ?thesis .
qed

subsection \<open>Queries without a condition\<close>

lemma unat_of_nat_reader:
  assumes "hybrid_inv H" "i < length (reader_paths (hreader H))"
  shows "unat (of_nat i :: u32) = i"
  using assms by (intro unat_of_nat_u32) (simp add: hybrid_inv_def)

lemma scoped_reader_ids:
  fixes pre :: path
  assumes inv: "hybrid_inv H"
  defines "ids \<equiv> (if pre = [] then reader_all_file_ids (hreader H)
                  else sort (file_ids_with_prefix (hreader H) pre))"
  shows "set ids = {fid. \<exists>p. reader_file_path (hreader H) fid = Some p \<and> prefix pre p}"
    and "ascending ids"
proof -
  let ?R = "hreader H" and ?n = "length (reader_paths (hreader H))"
  note small = unat_of_nat_reader [OF inv]
  have wf: "wf_reader ?R" and n: "?n \<le> 2 ^ 31" using inv by (simp_all add: hybrid_inv_def)
  have all: "reader_all_file_ids ?R = map of_nat [0..<?n]"
    using n by (simp add: reader_all_file_ids_def reader_num_files_def unat_of_nat)
  have ex: "(\<exists>i. fid = of_nat i \<and> i < ?n \<and> P i) \<longleftrightarrow> unat fid < ?n \<and> P (unat fid)" for fid :: u32 and P
    using small by (auto intro: exI [of _ "unat fid"])
  have "set (map of_nat [0..<?n]) = {fid :: u32. \<exists>i. fid = of_nat i \<and> i < ?n}" by auto
  then have "set (map of_nat [0..<?n]) = {fid :: u32. unat fid < ?n}"
    using ex [where P = "\<lambda>_. True"] by simp
  then show "set ids = {fid. \<exists>p. reader_file_path ?R fid = Some p \<and> prefix pre p}"
    using ex by (auto simp: ids_def all set_file_ids_with_prefix [OF wf] reader_file_path_def)
  have inj: "inj_on (of_nat :: nat \<Rightarrow> u32) {..<?n}"
    by (rule inj_on_inverseI [of _ unat]) (simp add: small)
  have "ascending (map (of_nat :: nat \<Rightarrow> u32) [0..<?n])"
    by (auto simp: sorted_wrt_iff_nth_less word_less_nat_alt small)
  moreover have "distinct (file_ids_with_prefix ?R pre)"
  proof -
    have "path_order ?R = order_paths (reader_paths ?R)" using wf by (simp add: wf_reader_def)
    then have "distinct (path_order ?R)" "set (path_order ?R) = {..<?n}"
      by (simp_all add: order_paths(1,2))
    then show ?thesis
      unfolding file_ids_with_prefix_def Let_def distinct_map
      by (auto intro!: distinct_takeWhile inj_on_subset [OF inj] dest: set_takeWhileD in_set_dropD)
  qed
  ultimately show "ascending ids" by (auto simp: ids_def all strict_sorted_iff)
qed

lemma scoped_live_ids:
  fixes pre :: path
  assumes inv: "hybrid_inv H" and iter: "iteration iter"
  defines "ids \<equiv> sort (filter (live_in_scope (hlive H) pre) (live_all_file_ids iter (hlive H)))"
  shows "set ids = {fid. \<exists>p. live_file_path (hlive H) fid = Some p \<and> prefix pre p}"
    and "ascending ids"
proof -
  show "set ids = {fid. \<exists>p. live_file_path (hlive H) fid = Some p \<and> prefix pre p}"
    by (auto simp: ids_def live_all_file_ids_def set_iteration [OF iter] live_in_scope_def
        live_file_path_def keys_dom_lookup split: option.splits)
  show "ascending ids"
    by (simp add: ids_def live_all_file_ids_def strict_sorted_iff distinct_iteration [OF iter])
qed

lemma candidates_all:
  assumes inv: "hybrid_inv H" and iter: "iteration iter"
  shows "set (fst (execute_query_with_masks_in iter H MatchAll pre)) = {fid. id_accepted H MatchAll pre fid}"
    and "ascending (fst (execute_query_with_masks_in iter H MatchAll pre))"
proof -
  let ?L = "hlive H" and ?R = "hreader H"
  define r where "r = (if pre = [] then reader_all_file_ids ?R else sort (file_ids_with_prefix ?R pre))"
  define l where "l = sort (filter (live_in_scope ?L pre) (live_all_file_ids iter ?L))"
  note r = scoped_reader_ids [OF inv, of pre, folded r_def]
  note l = scoped_live_ids [OF inv iter, of pre, folded l_def]
  have ids: "scoped_all_ids iter ?R ?L pre = r @ l"
    by (simp add: scoped_all_ids_def r_def l_def)
  have over: "is_overlay_id fid" if "live_file_path ?L fid = Some p" for fid p
    using that inv live_invD(6) [of ?L fid] by (simp add: hybrid_inv_def live_file_path_def)
  have under: "\<not> is_overlay_id fid" if "reader_file_path ?R fid = Some p" for fid p
    using that inv by (auto simp: is_overlay_id_iff reader_file_path_def hybrid_inv_def split: if_splits)
  have "\<forall>x\<in>set r. \<forall>y\<in>set l. x < y"
    using over under by (force simp: r(1) l(1) is_overlay_id_iff word_less_nat_alt)
  then have "ascending (r @ l)" using r(2) l(2) by (simp add: sorted_wrt_append)
  then show "ascending (fst (execute_query_with_masks_in iter H MatchAll pre))"
    by (simp add: execute_query_with_masks_in_def Let_def ids del: filter_append)
  show "set (fst (execute_query_with_masks_in iter H MatchAll pre)) = {fid. id_accepted H MatchAll pre fid}"
    using over under
    by (auto simp: execute_query_with_masks_in_def Let_def ids r(1) l(1) id_accepted_def
        resolve_path_def reader_entry_active_iff)
qed

lemma candidates:
  assumes "hybrid_inv H" "iteration iter" "well_formed_plan plan"
  shows "set (fst (execute_query_with_masks_in iter H plan pre)) = {fid. id_accepted H plan pre fid}"
    and "ascending (fst (execute_query_with_masks_in iter H plan pre))"
proof -
  have "ascending (fst (execute_query_with_masks_in iter H plan pre))" if "plan \<noteq> MatchAll"
    using that execute_plan_with_masks_hits by (simp add: execute_query_with_masks_in_def Let_def)
  then show "ascending (fst (execute_query_with_masks_in iter H plan pre))"
    using candidates_all(2) [OF assms(1,2)] by (cases "plan = MatchAll") simp_all
  show "set (fst (execute_query_with_masks_in iter H plan pre)) = {fid. id_accepted H plan pre fid}"
    using assms(3) candidates_all(1) [OF assms(1,2)] candidates_narrow [OF assms(1,2)]
    unfolding well_formed_plan_def by blast
qed

section \<open>The view by path\<close>

lemma reader_file_path_Some:
  assumes "hybrid_inv H"
  shows "(\<exists>fid. reader_file_path (hreader H) fid = Some p \<and> P fid) \<longleftrightarrow>
    (\<exists>i. i < length (reader_paths (hreader H)) \<and> reader_paths (hreader H) ! i = p \<and> P (of_nat i))"
proof
  assume "\<exists>fid. reader_file_path (hreader H) fid = Some p \<and> P fid"
  then obtain fid where "reader_file_path (hreader H) fid = Some p" "P fid" by blast
  then show "\<exists>i. i < length (reader_paths (hreader H)) \<and> reader_paths (hreader H) ! i = p \<and> P (of_nat i)"
    by (intro exI [of _ "unat fid"]) (auto simp: reader_file_path_def split: if_splits)
next
  assume "\<exists>i. i < length (reader_paths (hreader H)) \<and> reader_paths (hreader H) ! i = p \<and> P (of_nat i)"
  then obtain i where "i < length (reader_paths (hreader H))" "reader_paths (hreader H) ! i = p" "P (of_nat i)"
    by blast
  then show "\<exists>fid. reader_file_path (hreader H) fid = Some p \<and> P fid"
    using unat_of_nat_reader [OF assms, of i] by (intro exI [of _ "of_nat i"]) (simp add: reader_file_path_def)
qed

lemma reader_id_small:
  "hybrid_inv H \<Longrightarrow> reader_file_path (hreader H) fid = Some p \<Longrightarrow> \<not> is_overlay_id fid"
  by (auto simp: is_overlay_id_iff reader_file_path_def hybrid_inv_def split: if_splits)

lemma live_id_big:
  "hybrid_inv H \<Longrightarrow> live_file_path (hlive H) fid = Some p \<Longrightarrow> is_overlay_id fid"
  using live_invD(6) [of "hlive H" fid] by (simp add: hybrid_inv_def live_file_path_def)

lemma accepted_paths:
  assumes inv: "hybrid_inv H"
  shows "(\<exists>fid. id_accepted H plan pre fid \<and> resolve_path H fid (hreader H) = Some p) \<longleftrightarrow>
    prefix pre p \<and> (\<exists>t\<in>path_tables H p. plan_accepts t plan)"
proof -
  let ?L = "hlive H" and ?R = "hreader H"
  have linv: "live_inv ?L" using inv by (simp add: hybrid_inv_def)
  have "(\<exists>fid. id_accepted H plan pre fid \<and> resolve_path H fid ?R = Some p) \<longleftrightarrow>
      prefix pre p \<and>
      ((\<exists>fid. live_file_path ?L fid = Some p \<and> plan_accepts (entry_masks ?L fid) plan) \<or>
       overlay_of ?L p = Untouched \<and>
         (\<exists>fid. reader_file_path ?R fid = Some p \<and> plan_accepts (reader_table ?R fid) plan))"
    using reader_id_small [OF inv] live_id_big [OF inv] unfolding id_accepted_def resolve_path_def
    by (smt (verit, ccfv_threshold) option.inject)
  also have "(\<exists>fid. reader_file_path ?R fid = Some p \<and> plan_accepts (reader_table ?R fid) plan) \<longleftrightarrow>
      (\<exists>i. i < length (reader_paths ?R) \<and> reader_paths ?R ! i = p \<and>
        plan_accepts (reader_table ?R (of_nat i)) plan)"
    by (rule reader_file_path_Some [OF inv])
  also have "(\<exists>fid. live_file_path ?L fid = Some p \<and> plan_accepts (entry_masks ?L fid) plan) \<longleftrightarrow>
      (\<exists>t. overlay_of ?L p = Active t \<and> plan_accepts t plan)"
    by (auto simp: overlay_of_def live_file_path_def live_invD(1) [OF linv] split: option.split)
  finally show ?thesis
    by (cases "overlay_of ?L p") (auto simp: path_tables_def)
qed

lemma has_active_path_iff:
  assumes "hybrid_inv H"
  shows "has_active_path H p \<longleftrightarrow> path_tables H p \<noteq> {}"
proof -
  have "contains_path (hreader H) p \<longleftrightarrow>
      (\<exists>i<length (reader_paths (hreader H)). reader_paths (hreader H) ! i = p)"
    using assms contains_path_iff [of "hreader H" p] by (simp add: hybrid_inv_def in_set_conv_nth)
  then show ?thesis
    by (auto simp: has_active_path_def path_tables_def overlay_of_def has_path_def is_deleted_def
        split: option.split)
qed

lemma hybrid_all_paths_set:
  assumes inv: "hybrid_inv H" and iter: "iteration iter"
  shows "set (hybrid_all_paths iter H) = {p. path_tables H p \<noteq> {}}"
proof -
  let ?L = "hlive H" and ?R = "hreader H"
  have linv: "live_inv ?L" using inv by (simp add: hybrid_inv_def)
  have "set (all_paths_ordered iter ?L) = {p. \<exists>t. overlay_of ?L p = Active t}"
    by (auto simp: snapshot_ids(4) [OF linv iter] active_iff keys_dom_lookup)
  note live = this
  have reader: "set (map snd (filter (\<lambda>(i, _). reader_entry_active H ?R (of_nat i))
      (enumerate 0 (reader_paths ?R)))) =
    {p. overlay_of ?L p = Untouched \<and> (\<exists>i<length (reader_paths ?R). reader_paths ?R ! i = p)}"
    (is "?A = ?B")
  proof -
    have act: "reader_entry_active H ?R (of_nat i) \<longleftrightarrow> overlay_of ?L (reader_paths ?R ! i) = Untouched"
      if "i < length (reader_paths ?R)" for i
      using that by (simp add: reader_entry_active_iff reader_file_path_def unat_of_nat_reader [OF inv that])
    have "?A = {reader_paths ?R ! i | i. i < length (reader_paths ?R) \<and> reader_entry_active H ?R (of_nat i)}"
      by (force simp: set_zip enumerate_eq_zip)
    also have "\<dots> = ?B" using act by blast
    finally show ?thesis .
  qed
  show ?thesis
  proof (rule set_eqI)
    fix p
    show "p \<in> set (hybrid_all_paths iter H) \<longleftrightarrow> p \<in> {p. path_tables H p \<noteq> {}}"
      unfolding hybrid_all_paths_def Let_def set_append live reader
      by (cases "overlay_of ?L p") (auto simp: path_tables_def)
  qed
qed

section \<open>The number of files\<close>

lemma hybrid_count:
  assumes inv: "hybrid_inv H" and iter: "iteration iter" and dist: "distinct (reader_paths (hreader H))"
  shows "num_files_using H (hreader H) = Some (length (hybrid_all_file_ids iter H))"
proof -
  let ?L = "hlive H" and ?R = "hreader H"
  let ?n = "length (reader_paths ?R)" and ?paths = "reader_paths ?R"
  have linv: "live_inv ?L" and wf: "wf_reader ?R" using inv by (simp_all add: hybrid_inv_def)
  let ?act = "\<lambda>p. overlay_of ?L p = Untouched"
  define sh where "sh = {p \<in> set ?paths. \<not> ?act p}"
  have split: "{p \<in> Mapping.keys (path_to_id ?L). contains_path ?R p} \<union>
      {p \<in> deleted_paths ?L. contains_path ?R p} = sh"
    by (auto simp: sh_def contains_path_iff [OF wf] overlay_of_def keys_dom_lookup split: option.splits)
  have "{p \<in> Mapping.keys (path_to_id ?L). contains_path ?R p} \<inter>
      {p \<in> deleted_paths ?L. contains_path ?R p} = {}"
    using live_invD(5) [OF linv] by (auto simp: keys_dom_lookup)
  moreover have "finite sh" by (simp add: sh_def)
  ultimately have shadowed: "card {p \<in> Mapping.keys (path_to_id ?L). contains_path ?R p} +
      card {p \<in> deleted_paths ?L. contains_path ?R p} = card sh"
    unfolding split [symmetric] by (subst card_Un_disjoint) auto
  have "card (set ?paths) = ?n" using dist by (rule distinct_card)
  moreover have "{p \<in> set ?paths. ?act p} = set ?paths - sh" "sh \<subseteq> set ?paths" by (auto simp: sh_def)
  ultimately have act: "card {p \<in> set ?paths. ?act p} = ?n - card sh" "card sh \<le> ?n"
    using card_Diff_subset [OF \<open>finite sh\<close>, of "set ?paths"] card_mono [of "set ?paths" sh] by simp_all
  define ids where "ids = hybrid_all_file_ids iter H"
  have ids: "set ids = {fid. id_accepted H MatchAll [] fid}" "distinct ids"
    using candidates_all [OF inv iter, of "[]"] ascending_distinct
    by (auto simp: ids_def hybrid_all_file_ids_def execute_query_with_masks_def)
  define r where "r = {fid. \<exists>p. reader_file_path ?R fid = Some p \<and> ?act p}"
  have "{fid. id_accepted H MatchAll [] fid} = r \<union> Mapping.keys (file_paths ?L)"
    "r \<inter> Mapping.keys (file_paths ?L) = {}"
    using reader_id_small [OF inv] live_id_big [OF inv]
    by (auto simp: id_accepted_def resolve_path_def r_def keys_dom_lookup live_file_path_def)
  then have "length ids = card r + card (Mapping.keys (file_paths ?L))"
    using ids by (simp add: distinct_card [symmetric] card_Un_disjoint)
  moreover have "bij_betw (\<lambda>fid. ?paths ! unat fid) r {p \<in> set ?paths. ?act p}"
  proof (rule bij_betwI')
    fix x y
    assume "x \<in> r" "y \<in> r"
    then show "(?paths ! unat x = ?paths ! unat y) = (x = y)"
      using dist by (auto simp: r_def reader_file_path_def nth_eq_iff_index_eq split: if_splits)
  next
    fix x
    assume "x \<in> r"
    then show "?paths ! unat x \<in> {p \<in> set ?paths. ?act p}"
      by (auto simp: r_def reader_file_path_def split: if_splits)
  next
    fix p
    assume "p \<in> {p \<in> set ?paths. ?act p}"
    then obtain i where "i < ?n" "?paths ! i = p" "?act p" by (auto simp: in_set_conv_nth)
    then show "\<exists>fid\<in>r. p = ?paths ! unat fid"
      using unat_of_nat_reader [OF inv]
      by (intro bexI [of _ "of_nat i"]) (auto simp: r_def reader_file_path_def)
  qed
  then have "card r = card {p \<in> set ?paths. ?act p}" by (rule bij_betw_same_card)
  ultimately show ?thesis
    using act shadowed
    by (simp add: num_files_using_def Let_def reader_num_files_def live_num_files_def
        Mapping.size_def ids_def)
qed

section \<open>Pruning after a flush\<close>

text \<open>Whether the whole overlay is dropped at once.\<close>

definition all_persisted :: "path set \<Rightarrow> live_index \<Rightarrow> bool" where
  "all_persisted persisted L \<longleftrightarrow>
     (\<forall>p. (\<forall>t. overlay_of L p = Active t \<longrightarrow> p \<in> persisted) \<and>
          (overlay_of L p = Tombstone \<longrightarrow> p \<notin> persisted))"

lemma finite_active_paths:
  assumes inv: "live_inv L"
  shows "finite (Mapping.keys (path_to_id L))"
proof (rule finite_subset)
  show "Mapping.keys (path_to_id L) \<subseteq>
      (\<lambda>fid. the (Mapping.lookup (file_paths L) fid)) ` UNIV"
  proof
    fix p
    assume "p \<in> Mapping.keys (path_to_id L)"
    then obtain fid where "Mapping.lookup (path_to_id L) p = Some fid" by (auto simp: keys_dom_lookup)
    then have "Mapping.lookup (file_paths L) fid = Some p" by (simp add: live_invD(1) [OF inv])
    then show "p \<in> (\<lambda>fid. the (Mapping.lookup (file_paths L) fid)) ` UNIV"
      by (intro image_eqI [of _ _ fid]) simp_all
  qed
qed simp

lemma prune_overlay:
  fixes preserved :: "path set"
  assumes inv: "live_inv (hlive H)" and iter: "path_iteration piter"
  defines "H' \<equiv> prune_persisted_entries_except piter preserved H"
    and "persisted \<equiv> set (reader_paths (hreader H)) - preserved"
  shows "live_inv (hlive H')" "hreader H' = hreader H"
    and "overlay_of (hlive H') p =
      (if all_persisted persisted (hlive H) \<or> p \<in> persisted \<and> (\<exists>t. overlay_of (hlive H) p = Active t)
       then Untouched else overlay_of (hlive H) p)"
proof -
  let ?L = "hlive H"
  note drop = try_drop_overlay [OF inv, of persisted]
  have "live_inv (hlive H') \<and> hreader H' = hreader H \<and> overlay_of (hlive H') p =
      (if all_persisted persisted ?L \<or> p \<in> persisted \<and> (\<exists>t. overlay_of ?L p = Active t)
       then Untouched else overlay_of ?L p)"
  proof (cases "fst (try_drop_all_persisted persisted ?L)")
    case True
    then obtain live where live: "try_drop_all_persisted persisted ?L = (True, live)"
      by (metis prod.collapse)
    then have "H' = H\<lparr>hlive := live\<rparr>"
      by (simp add: H'_def prune_persisted_entries_except_def persisted_def [symmetric])
    then show ?thesis using drop live by (simp add: all_persisted_def)
  next
    case False
    then obtain live where live: "try_drop_all_persisted persisted ?L = (False, live)"
      by (metis prod.collapse)
    then have "live = ?L" by (auto simp: try_drop_all_persisted_def split: if_splits)
    let ?rm = "filter (\<lambda>p. p \<in> persisted) (piter (Mapping.keys (path_to_id ?L)))"
    have H': "H' = H\<lparr>hlive := batch_remove_overlay_entries ?rm ?L\<rparr>"
      using live by (simp add: H'_def prune_persisted_entries_except_def persisted_def [symmetric]
          \<open>live = ?L\<close> Let_def)
    have "p \<in> set ?rm \<longleftrightarrow> p \<in> persisted \<and> (\<exists>t. overlay_of ?L p = Active t)"
      using iter finite_active_paths [OF inv]
      by (auto simp: path_iteration_def active_iff keys_dom_lookup)
    moreover have "\<not> all_persisted persisted ?L" using drop(2) live by (simp add: all_persisted_def)
    ultimately show ?thesis using batch_remove_overlay [OF inv, of ?rm] by (auto simp: H')
  qed
  then show "live_inv (hlive H')" "hreader H' = hreader H"
    "overlay_of (hlive H') p =
      (if all_persisted persisted ?L \<or> p \<in> persisted \<and> (\<exists>t. overlay_of ?L p = Active t)
       then Untouched else overlay_of ?L p)" by blast+
qed

section \<open>The snapshot of both layers\<close>

definition mapped_list :: "('k, 'v list) mapping \<Rightarrow> 'k \<Rightarrow> 'v list" where
  "mapped_list m k = (case Mapping.lookup m k of Some l \<Rightarrow> l | None \<Rightarrow> [])"

lemma mapped_list_empty [simp]: "mapped_list Mapping.empty k = []"
  by (simp add: mapped_list_def)

lemma mapped_list_update [simp]:
  "mapped_list (Mapping.update k l m) k' = (if k = k' then l else mapped_list m k')"
  by (simp add: mapped_list_def lookup_update')

lemma mapped_list_fold_update:
  assumes "distinct (map key ks)"
  shows "mapped_list (fold (\<lambda>i m. if f i = [] then m else Mapping.update (key i) (f i) m) ks m) t =
    (case find (\<lambda>i. key i  = t) ks of
       Some i \<Rightarrow> if f i = [] then mapped_list m t else f i | None \<Rightarrow> mapped_list m t)"
  using assms
proof (induction ks arbitrary: m)
  case (Cons i ks)
  then have key: "key i \<notin> key ` set ks" and dist: "distinct (map key ks)" by simp_all
  have none: "find (\<lambda>j. key j = t) ks = None" if "key i = t"
    unfolding find_None_iff using that key by (metis image_eqI)
  show ?case
  proof (cases "key i = t")
    case True
    then show ?thesis using none [OF True] by (simp add: Cons.IH [OF dist])
  next
    case False
    then show ?thesis by (simp add: Cons.IH [OF dist] split: option.split)
  qed
qed simp

lemma mapped_list_fold_extend:
  assumes "distinct ts"
  shows "mapped_list (fold (\<lambda>t m. if g t = [] then m
            else Mapping.update t ((case Mapping.lookup m t of Some l \<Rightarrow> l | None \<Rightarrow> []) @ g t) m) ts m) t =
    mapped_list m t @ (if t \<in> set ts then g t else [])"
  using assms unfolding mapped_list_def [symmetric]
  by (induction ts arbitrary: m) auto

lemma number_reader_paths:
  defines "act \<equiv> \<lambda>L p. overlay_of L p = Untouched"
  shows "number_reader_paths L ps id_map paths =
    (id_map @ map (\<lambda>j. if act L (ps ! j) then of_nat (length paths + length (filter (act L) (take j ps)))
                       else DROPPED) [0..<length ps],
     paths @ filter (act L) ps)"
proof (induction ps arbitrary: id_map paths)
  case (Cons p ps)
  have "[0..<length (p # ps)] = 0 # map Suc [0..<length ps]"
    by (simp add: map_Suc_upt upt_conv_Cons del: upt_Suc)
  then show ?case
    by (simp add: Cons.IH comp_def act_def overlay_untouched_iff)
qed simp

lemma number_overlay_paths:
  "number_overlay_paths ps m paths =
     (fold (\<lambda>(i, p) m. Mapping.update p (of_nat i) m) (enumerate (length paths) ps) m, paths @ ps)"
  by (induction ps arbitrary: m paths) simp_all

lemma new_id_offset:
  assumes "distinct ps" "i < length ps"
  shows "Mapping.lookup (fold (\<lambda>(i, p) m. Mapping.update p (of_nat i :: u32) m) (enumerate k ps) Mapping.empty)
    (ps ! i) = Some (of_nat (k + i))"
proof -
  have "(THE j. j < length ps \<and> ps ! j = ps ! i) = i"
    using assms by (intro the_equality) (auto simp: nth_eq_iff_index_eq)
  then show ?thesis using assms by (simp add: fold_enumerate_lookup)
qed

lemma filter_position:
  assumes "n < length (filter P xs)"
  shows "\<exists>j<length xs. P (xs ! j) \<and> length (filter P (take j xs)) = n \<and> filter P xs ! n = xs ! j"
  using assms
proof (induction xs arbitrary: n)
  case (Cons x xs)
  show ?case
  proof (cases "P x \<and> n = 0")
    case True
    then show ?thesis by (intro exI [of _ 0]) simp
  next
    case False
    define m where "m = (if P x then n - 1 else n)"
    then have "m < length (filter P xs)" using Cons.prems False by (auto split: if_splits)
    from Cons.IH [OF this] obtain j where "j < length xs" "P (xs ! j)"
      "length (filter P (take j xs)) = m" "filter P xs ! m = xs ! j" by blast
    then show ?thesis using False
      by (intro exI [of _ "Suc j"]) (auto simp: m_def nth_Cons split: nat.splits if_splits)
  qed
qed simp

lemma filter_take_less:
  assumes "j < j'" "j < length xs" "P (xs ! j)"
  shows "length (filter P (take j xs)) < length (filter P (take j' xs))"
proof -
  have "take j' xs = take j xs @ xs ! j # take (j' - Suc j) (drop (Suc j) xs)"
    using assms by (metis Cons_nth_drop_Suc Suc_diff_Suc append_take_drop_id le_add_diff_inverse
        less_or_eq_imp_le take_Suc_Cons take_add)
  with assms show ?thesis by simp
qed

lemma filter_take_inject:
  assumes "j < length xs" "j' < length xs" "P (xs ! j)" "P (xs ! j')"
    and "length (filter P (take j xs)) = length (filter P (take j' xs))"
  shows "j = j'"
  using filter_take_less [of j j' xs P] filter_take_less [of j' j xs P] assms
  by (metis linorder_neqE_nat nat_neq_iff)

lemma map_of_map_find:
  "map_of (map g xs) t = map_option (\<lambda>i. snd (g i)) (find (\<lambda>i. fst (g i) = t) xs)"
  by (induction xs) (auto simp: prod_eq_iff split: prod.splits)

lemma mapped_list_map_values [simp]:
  "mapped_list (Mapping.map_values (\<lambda>_ l. sort_key f l) m) t = sort_key f (mapped_list m t)"
  by (auto simp: mapped_list_def lookup_map_values split: option.split)

text \<open>The tables of the snapshot: the kept reader lists, then the overlay's, renumbered.\<close>

definition kept_paths :: "hybrid_index \<Rightarrow> path list" where
  "kept_paths H = filter (\<lambda>p. overlay_of (hlive H) p = Untouched) (reader_paths (hreader H))"

definition kept_id :: "hybrid_index \<Rightarrow> nat \<Rightarrow> u32" where
  "kept_id H j =
     (if overlay_of (hlive H) (reader_paths (hreader H) ! j) = Untouched
      then of_nat (length (filter (\<lambda>p. overlay_of (hlive H) p = Untouched) (take j (reader_paths (hreader H)))))
      else DROPPED)"

definition kept_ids :: "hybrid_index \<Rightarrow> u32 list" where
  "kept_ids H = map (kept_id H) [0..<length (reader_paths (hreader H))]"

definition overlay_new_ids :: "(u32 set \<Rightarrow> u32 list) \<Rightarrow> hybrid_index \<Rightarrow> (path, u32) mapping" where
  "overlay_new_ids iter H =
     fold (\<lambda>(i, p) m. Mapping.update p (of_nat i) m)
       (enumerate (length (kept_paths H)) (all_paths_ordered iter (hlive H))) Mapping.empty"

lemma remap_Nil [simp]:
  "remap_reader_posting id_map [] = []" "remap_overlay_posting L new_id t [] = []"
  by (simp_all add: remap_reader_posting_def remap_overlay_posting_def List.map_filter_simps)

lemma full_snapshot_parts:
  assumes wf: "wf_reader (hreader H)" and asc: "ascending (map le_trigram (reader_entries (hreader H)))"
    and iter: "iteration iter" and titer: "iteration titer"
    and snap: "full_snapshot iter titer H = (paths, postings)"
  shows "paths = kept_paths H @ all_paths_ordered iter (hlive H)"
    and "mapped_list postings t = sort_key file_id
      (remap_reader_posting (kept_ids H) (reader_lookup_trigram_with_masks (hreader H) t) @
       remap_overlay_posting (hlive H) (overlay_new_ids iter H) t (iter (ids_of (hlive H) t)))"
proof -
  let ?L = "hlive H" and ?R = "hreader H"
  define f where "f = (\<lambda>i. remap_reader_posting (kept_ids H) (snd (trigram_posting_at ?R i)))"
  define g where "g = (\<lambda>t. remap_overlay_posting ?L (overlay_new_ids iter H) t
    (iter (the (Mapping.lookup (inverted ?L) t))))"
  have num: "number_reader_paths ?L (reader_paths ?R) [] [] = (kept_ids H, kept_paths H)"
    by (simp add: number_reader_paths kept_ids_def kept_id_def [abs_def] kept_paths_def)
  have num2: "number_overlay_paths (all_paths_ordered iter ?L) Mapping.empty (kept_paths H) =
      (overlay_new_ids iter H, kept_paths H @ all_paths_ordered iter ?L)"
    by (simp add: number_overlay_paths overlay_new_ids_def)
  define inv0 where "inv0 = fold (\<lambda>i m. if f i = [] then m
      else Mapping.update (fst (trigram_posting_at ?R i)) (f i) m) [0..<num_entries ?R] Mapping.empty"
  define inv1 where "inv1 = fold (\<lambda>t m. if g t = [] then m else Mapping.update t
      ((case Mapping.lookup m t of Some l \<Rightarrow> l | None \<Rightarrow> []) @ g t) m)
      (titer (Mapping.keys (inverted ?L))) inv0"
  have res: "paths = kept_paths H @ all_paths_ordered iter ?L"
    "postings = Mapping.map_values (\<lambda>_ posting. sort_key file_id posting) inv1"
    using snap unfolding full_snapshot_def Let_def num num2 prod.case inv1_def inv0_def f_def g_def
    by (simp_all add: case_prod_beta)
  show "paths = kept_paths H @ all_paths_ordered iter ?L" by (rule res)
  have "map (\<lambda>i. fst (trigram_posting_at ?R i)) [0..<num_entries ?R] = map le_trigram (reader_entries ?R)"
    by (simp add: trigram_posting_at_def Let_def reader_entries_def)
  then have "distinct (map (\<lambda>i. fst (trigram_posting_at ?R i)) [0..<num_entries ?R])"
    using ascending_distinct [OF asc] by simp
  from mapped_list_fold_update [OF this, of f Mapping.empty t]
  have "mapped_list inv0 t = (case find (\<lambda>i. fst (trigram_posting_at ?R i) = t) [0..<num_entries ?R] of
      Some i \<Rightarrow> f i | None \<Rightarrow> [])"
    unfolding inv0_def by (auto split: option.split)
  also have "\<dots> = remap_reader_posting (kept_ids H) (reader_lookup_trigram_with_masks ?R t)"
    unfolding reader_lookup_map_of [OF asc wf] all_trigram_postings_with_masks_def map_of_map_find f_def
    by (auto split: option.split)
  finally have inv0: "mapped_list inv0 t =
      remap_reader_posting (kept_ids H) (reader_lookup_trigram_with_masks ?R t)" .
  have "(if t \<in> set (titer (Mapping.keys (inverted ?L))) then g t else []) =
      remap_overlay_posting ?L (overlay_new_ids iter H) t (iter (ids_of ?L t))"
    using set_iteration [OF iter, of "{}"]
    by (auto simp: set_iteration [OF titer] g_def ids_of_def keys_dom_lookup split: option.split)
  then have "mapped_list inv1 t = remap_reader_posting (kept_ids H) (reader_lookup_trigram_with_masks ?R t) @
      remap_overlay_posting ?L (overlay_new_ids iter H) t (iter (ids_of ?L t))"
    using mapped_list_fold_extend [OF distinct_iteration [OF titer], of g "Mapping.keys (inverted ?L)" inv0 t]
    unfolding inv1_def inv0 by simp
  then show "mapped_list postings t = sort_key file_id
      (remap_reader_posting (kept_ids H) (reader_lookup_trigram_with_masks ?R t) @
       remap_overlay_posting ?L (overlay_new_ids iter H) t (iter (ids_of ?L t)))"
    by (simp add: res(2))
qed

lemma entry_for_remap_reader:
  assumes "j < length id_map" "id_map ! j = n" "n \<noteq> DROPPED" "unat (of_nat j :: u32) = j"
    and uniq: "\<And>k. k < length id_map \<Longrightarrow> id_map ! k = n \<Longrightarrow> k = j"
  shows "entry_for n (remap_reader_posting id_map l) =
    map_option (\<lambda>e. e\<lparr>file_id := n\<rparr>) (entry_for (of_nat j) l)"
proof (induction l)
  case (Cons e l)
  show ?case
  proof (cases "file_id e = of_nat j")
    case True
    then show ?thesis
      using assms(1-3) by (simp add: remap_reader_posting_def List.map_filter_simps entry_for_def assms(4))
  next
    case False
    then have ne: "unat (file_id e) \<noteq> j" using of_nat_unat [of "file_id e", where ?'a = 32] by auto
    have other: "id_map ! unat (file_id e) \<noteq> n" if "unat (file_id e) < length id_map"
      using uniq [OF that] ne by blast
    show ?thesis
    proof (cases "unat (file_id e) < length id_map \<and> id_map ! unat (file_id e) \<noteq> DROPPED")
      case True
      then show ?thesis using False other Cons.IH
        by (simp add: remap_reader_posting_def List.map_filter_simps entry_for_def)
    next
      case dropped: False
      then show ?thesis using False Cons.IH
        by (auto simp: remap_reader_posting_def List.map_filter_simps entry_for_def)
    qed
  qed
qed (simp add: entry_for_def)

lemma entry_for_remap_reader_None:
  assumes "\<And>k. k < length id_map \<Longrightarrow> id_map ! k \<noteq> DROPPED \<Longrightarrow> id_map ! k \<noteq> n"
  shows "entry_for n (remap_reader_posting id_map l) = None"
  using assms by (induction l) (auto simp: remap_reader_posting_def List.map_filter_simps entry_for_def)

lemma entry_for_remap_overlay:
  assumes f: "Mapping.lookup (file_paths L) f = Some p" "Mapping.lookup new_id p = Some n"
    and uniq: "\<And>g q. g \<in> set ids \<Longrightarrow> Mapping.lookup (file_paths L) g = Some q \<Longrightarrow>
      Mapping.lookup new_id q = Some n \<Longrightarrow> g = f"
  shows "entry_for n (remap_overlay_posting L new_id t ids) =
    (if f \<in> set ids then Some (posting_of n (get_masks L t f)) else None)"
  using uniq
proof (induction ids)
  case (Cons g ids)
  then have IH: "entry_for n (remap_overlay_posting L new_id t ids) =
      (if f \<in> set ids then Some (posting_of n (get_masks L t f)) else None)"
    by (metis list.set_intros(2))
  show ?case
  proof (cases "g = f")
    case True
    then show ?thesis using f
      by (simp add: remap_overlay_posting_def List.map_filter_simps entry_for_def live_file_path_def posting_of_def)
  next
    case False
    then have "\<And>q. Mapping.lookup (file_paths L) g = Some q \<Longrightarrow> Mapping.lookup new_id q \<noteq> Some n"
      using Cons.prems [of g] by auto
    with False IH show ?thesis
      by (auto simp: remap_overlay_posting_def List.map_filter_simps entry_for_def live_file_path_def
          posting_of_def split: option.splits bind_splits)
  qed
qed (simp add: entry_for_def)

lemma entry_for_remap_overlay_None:
  assumes "\<And>g q. g \<in> set ids \<Longrightarrow> Mapping.lookup (file_paths L) g = Some q \<Longrightarrow> Mapping.lookup new_id q \<noteq> Some n"
  shows "entry_for n (remap_overlay_posting L new_id t ids) = None"
  using assms
proof (induction ids)
  case (Cons g ids)
  then have IH: "entry_for n (remap_overlay_posting L new_id t ids) = None" by (metis list.set_intros(2))
  have "\<And>q. Mapping.lookup (file_paths L) g = Some q \<Longrightarrow> Mapping.lookup new_id q \<noteq> Some n"
    using Cons.prems [of g] by auto
  with IH show ?case
    by (auto simp: remap_overlay_posting_def List.map_filter_simps entry_for_def live_file_path_def
        posting_of_def split: option.splits bind_splits)
qed (simp add: entry_for_def)

lemma kept_bounds:
  assumes "hybrid_inv H"
  shows "length (kept_paths H) \<le> 2 ^ 31"
  using assms length_filter_le [of "\<lambda>p. overlay_of (hlive H) p = Untouched" "reader_paths (hreader H)"]
  unfolding kept_paths_def hybrid_inv_def by linarith

lemma kept_id_less:
  assumes "j < length (reader_paths (hreader H))" "overlay_of (hlive H) (reader_paths (hreader H) ! j) = Untouched"
  shows "length (filter (\<lambda>p. overlay_of (hlive H) p = Untouched) (take j (reader_paths (hreader H)))) <
    length (kept_paths H)"
  using filter_take_less [of j "length (reader_paths (hreader H))" "reader_paths (hreader H)"
      "\<lambda>p. overlay_of (hlive H) p = Untouched"] assms
  by (simp add: kept_paths_def)

lemma overlay_count:
  assumes inv: "live_inv L" and iter: "iteration iter"
  shows "length (all_paths_ordered iter L) \<le> 2 ^ 31"
proof -
  let ?ids = "snapshot_ids iter L"
  have "unat (raw_of f) < 2 ^ 31" if "f \<in> set ?ids" for f
  proof -
    have "raw_of f < next_id L" "next_id L \<le> 0x80000000"
      using that live_invD(7,8) [OF inv] snapshot_ids(1) [OF inv iter] by (auto simp: keys_dom_lookup)
    then have "unat (raw_of f) < unat (0x80000000 :: u32)" by (simp only: word_less_nat_alt word_le_nat_alt)
    then show ?thesis by simp
  qed
  then have "unat ` set (map raw_of ?ids) \<subseteq> {..<2 ^ 31}" by auto
  then have "card (unat ` set (map raw_of ?ids)) \<le> 2 ^ 31"
    using card_mono [of "{..<2 ^ 31 :: nat}"] by fastforce
  moreover have "card (unat ` set (map raw_of ?ids)) = length ?ids"
    using distinct_card [OF ascending_distinct [OF snapshot_ids(2) [OF inv iter]]]
    by (subst card_image) (auto simp: inj_on_def simp del: set_map)
  ultimately show ?thesis by (simp add: all_paths_ordered_ids)
qed

text \<open>A kept reader file and an overlay file of the snapshot, by their new number.\<close>

lemma snapshot_reader_entry:
  assumes inv: "hybrid_inv H" and iter: "iteration iter" and n: "n < length (kept_paths H)"
  obtains j where "j < length (reader_paths (hreader H))" "reader_paths (hreader H) ! j = kept_paths H ! n"
    "overlay_of (hlive H) (kept_paths H ! n) = Untouched"
    "\<And>l. entry_for (of_nat n) (remap_reader_posting (kept_ids H) l) =
       map_option (\<lambda>e. e\<lparr>file_id := of_nat n\<rparr>) (entry_for (of_nat j) l)"
    "\<And>t ids. entry_for (of_nat n) (remap_overlay_posting (hlive H) (overlay_new_ids iter H) t ids) = None"
proof -
  let ?act = "\<lambda>p. overlay_of (hlive H) p = Untouched" and ?ps = "reader_paths (hreader H)"
  have linv: "live_inv (hlive H)" using inv by (simp add: hybrid_inv_def)
  obtain j where j: "j < length ?ps" "?act (?ps ! j)" "length (filter ?act (take j ?ps)) = n"
    "kept_paths H ! n = ?ps ! j"
    using filter_position [OF n [unfolded kept_paths_def]] by (auto simp: kept_paths_def)
  have small: "n < 2 ^ 31" using n kept_bounds [OF inv] by simp
  have un: "unat (of_nat n :: u32) = n" using small by (intro unat_of_nat_u32) simp
  have drop: "unat DROPPED = 2 ^ 32 - 1" by (simp add: DROPPED_def unsigned_minus_1_eq_mask mask_eq_exp_minus_1)
  then have nd: "(of_nat n :: u32) \<noteq> DROPPED" using un small by fastforce
  have id: "kept_ids H ! k = kept_id H k" if "k < length ?ps" for k using that by (simp add: kept_ids_def)
  have uniq: "k = j" if k: "k < length (kept_ids H)" "kept_ids H ! k = of_nat n" for k
  proof -
    have k': "k < length ?ps" using k by (simp add: kept_ids_def)
    then have act: "?act (?ps ! k)" using k nd by (auto simp: id kept_id_def split: if_splits)
    then have "(of_nat (length (filter ?act (take k ?ps))) :: u32) = of_nat n"
      using k by (simp add: id k' kept_id_def)
    moreover have "length (filter ?act (take k ?ps)) < 2 ^ 32"
      using kept_id_less [OF k' act] kept_bounds [OF inv] by simp
    ultimately have "length (filter ?act (take k ?ps)) = n"
      using un unat_of_nat_u32 [of "length (filter ?act (take k ?ps))"] by simp
    then show "k = j" using filter_take_inject [OF k' j(1), of ?act] act j by simp
  qed
  have idj: "kept_ids H ! j = of_nat n" using j by (simp add: id kept_id_def)
  have len: "j < length (kept_ids H)" using j(1) by (simp add: kept_ids_def)
  have reader: "entry_for (of_nat n) (remap_reader_posting (kept_ids H) l) =
      map_option (\<lambda>e. e\<lparr>file_id := of_nat n\<rparr>) (entry_for (of_nat j) l)" for l
    by (rule entry_for_remap_reader [OF len idj nd unat_of_nat_reader [OF inv j(1)] uniq])
  have "Mapping.lookup (overlay_new_ids iter H) q \<noteq> Some (of_nat n)" for q
  proof
    assume q: "Mapping.lookup (overlay_new_ids iter H) q = Some (of_nat n)"
    note d = snapshot_ids(3) [OF linv iter]
    have "q \<in> set (all_paths_ordered iter (hlive H))"
      using q by (auto simp: overlay_new_ids_def fold_enumerate_lookup [OF d] split: if_splits)
    then obtain i where i: "i < length (all_paths_ordered iter (hlive H))" "all_paths_ordered iter (hlive H) ! i = q"
      by (auto simp: in_set_conv_nth)
    then have "(of_nat (length (kept_paths H) + i) :: u32) = of_nat n"
      using q new_id_offset [OF d i(1), of "length (kept_paths H)"] by (simp add: overlay_new_ids_def)
    moreover have "length (kept_paths H) + i < 2 ^ 32"
      using i overlay_count [OF linv iter] kept_bounds [OF inv] by simp
    ultimately have "length (kept_paths H) + i = n"
      using un unat_of_nat_u32 [of "length (kept_paths H) + i"] by (simp only:)
    then show False using n by simp
  qed
  then have "entry_for (of_nat n) (remap_overlay_posting (hlive H) (overlay_new_ids iter H) t ids) = None" for t ids
    by (intro entry_for_remap_overlay_None) blast
  then show thesis using that [OF j(1) j(4) [symmetric] _ reader] j(2,4) by simp
qed

lemma snapshot_overlay_entry:
  assumes inv: "hybrid_inv H" and iter: "iteration iter" and i: "i < length (all_paths_ordered iter (hlive H))"
  defines "n \<equiv> of_nat (length (kept_paths H) + i) :: u32"
  obtains f where
    "overlay_of (hlive H) (all_paths_ordered iter (hlive H) ! i) = Active (entry_masks (hlive H) f)"
    "\<And>l. entry_for n (remap_reader_posting (kept_ids H) l) = None"
    "\<And>t. entry_for n (remap_overlay_posting (hlive H) (overlay_new_ids iter H) t (iter (ids_of (hlive H) t))) =
       map_option (posting_of n) (entry_masks (hlive H) f t)"
proof -
  let ?L = "hlive H" and ?ov = "all_paths_ordered iter (hlive H)" and ?k = "length (kept_paths H)"
  have linv: "live_inv ?L" using inv by (simp add: hybrid_inv_def)
  note d = snapshot_ids(3) [OF linv iter]
  have small: "?k + m < 2 ^ 32" if "m < length ?ov" for m
    using that overlay_count [OF linv iter] kept_bounds [OF inv] by simp
  have un: "unat (of_nat (?k + m) :: u32) = ?k + m" if "m < length ?ov" for m
    by (rule unat_of_nat_u32 [OF small [OF that]])
  let ?p = "?ov ! i"
  have "?p \<in> Mapping.keys (path_to_id ?L)" using i snapshot_ids(4) [OF linv iter] by (metis nth_mem)
  then obtain f where f: "Mapping.lookup (path_to_id ?L) ?p = Some f" by (auto simp: keys_dom_lookup)
  then have fp: "Mapping.lookup (file_paths ?L) f = Some ?p" by (simp add: live_invD(1) [OF linv])
  have "kept_ids H ! k \<noteq> n" if k: "k < length (kept_ids H)" "kept_ids H ! k \<noteq> DROPPED" for k
  proof
    assume eq: "kept_ids H ! k = n"
    have k': "k < length (reader_paths (hreader H))" using k by (simp add: kept_ids_def)
    let ?m = "length (filter (\<lambda>p. overlay_of ?L p = Untouched) (take k (reader_paths (hreader H))))"
    have act: "overlay_of ?L (reader_paths (hreader H) ! k) = Untouched"
      using k k' by (auto simp: kept_ids_def kept_id_def split: if_splits)
    then have "(of_nat ?m :: u32) = of_nat (?k + i)" using eq k' by (simp add: kept_ids_def kept_id_def n_def)
    moreover have m: "?m < ?k" by (rule kept_id_less [OF k' act])
    ultimately have "?m = ?k + i"
      using un [OF i] kept_bounds [OF inv] unat_of_nat_u32 [of ?m] by simp
    with m show False by simp
  qed
  then have reader: "entry_for n (remap_reader_posting (kept_ids H) l) = None" for l
    by (rule entry_for_remap_reader_None)
  have new: "Mapping.lookup (overlay_new_ids iter H) (?ov ! m) = Some (of_nat (?k + m))" if "m < length ?ov" for m
    using new_id_offset [OF d that] by (simp add: overlay_new_ids_def)
  have uniq: "g = f" if g: "Mapping.lookup (file_paths ?L) g = Some q"
    "Mapping.lookup (overlay_new_ids iter H) q = Some n" for g q
  proof -
    have "q \<in> set ?ov"
      using g(1) live_invD(1) [OF linv, of g q] snapshot_ids(4) [OF linv iter] by (auto simp: keys_dom_lookup)
    then obtain m where m: "m < length ?ov" "?ov ! m = q" by (auto simp: in_set_conv_nth)
    with new [OF m(1)] g(2) have "(of_nat (?k + m) :: u32) = of_nat (?k + i)" by (simp add: n_def)
    then have "m = i" using un [OF m(1)] un [OF i] by simp
    with m g(1) fp f show "g = f" using live_invD(1) [OF linv, of g q] by simp
  qed
  have "entry_for n (remap_overlay_posting ?L (overlay_new_ids iter H) t (iter (ids_of ?L t))) =
      map_option (posting_of n) (entry_masks ?L f t)" for t
    using entry_for_remap_overlay [OF fp, of "overlay_new_ids iter H" n "iter (ids_of ?L t)" t] new [OF i] uniq
    by (simp add: n_def set_iteration [OF iter] entry_masks_def)
  moreover have "overlay_of ?L ?p = Active (entry_masks ?L f)" by (simp add: overlay_of_def f)
  ultimately show thesis using reader by (intro that [of f])
qed

section \<open>Masks and identifiers\<close>

lemma hits_in_ids:
  assumes "\<And>h fid. entry_for fid (lookup h) \<noteq> None \<Longrightarrow> fid \<in> set (ids h) \<or> \<not> P fid"
  shows "plan_hits lookup fid plan \<Longrightarrow> P fid \<Longrightarrow> fid \<in> plan_ids ids plan"
proof (induction plan)
  case (And queries)
  then show ?case using assms by (force split: if_splits)
qed auto

lemma entry_for_mem: "entry_for fid es \<noteq> None \<longleftrightarrow> fid \<in> file_id ` set es"
  by (auto simp: entry_for_def find_None_iff)

section \<open>Properties\<close>

text \<open>An index whose file was changed and whose overlay has one more file and a deletion.\<close>

definition demo_hybrid :: hybrid_index where
  "demo_hybrid =
     \<lparr>hreader = demo_reader, hlive = upsert_file_with_trigrams [0x62] [9] live_new, root = [0x2F]\<rparr>"

lemma demo_hybrid_overlay:
  "live_inv (hlive demo_hybrid)"
  "overlay_of (hlive demo_hybrid) p =
     (if p = [0x62] then Active (\<lambda>tri. if tri = 9 then Some no_filter else None) else Untouched)"
proof -
  have "next_id live_new < 0x80000000" by (simp add: live_new_def)
  note u = upsert_with_trigrams_overlay [OF live_inv_new this, of "[0x62]" "[9]"]
  show "live_inv (hlive demo_hybrid)" using u(1) by (simp add: demo_hybrid_def)
  show "overlay_of (hlive demo_hybrid) p =
     (if p = [0x62] then Active (\<lambda>tri. if tri = 9 then Some no_filter else None) else Untouched)"
    using u(2) by (simp add: demo_hybrid_def)
qed

lemma demo_hybrid_inv: "hybrid_inv demo_hybrid"
  using open_impl_wf [OF demo_open [of False False]] demo_hybrid_overlay(1)
  by (simp add: hybrid_inv_def demo_hybrid_def demo_fields)

text \<open>C15. The candidates of a scoped query are, in strictly ascending order of identifiers,
  the files below the prefix that the plan accepts in the merged view: a path that the overlay
  knows is judged by the overlay alone, any other path by the reader's posting lists.  No
  stale reader entry is returned and no changed file is lost.\<close>

theorem search_candidates_exact:
  assumes "hybrid_inv H" "iteration iter" "well_formed_plan plan"
    and "execute_query_with_masks_in iter H plan pre = (ids, reader)"
  shows "reader = hreader H \<and> ascending ids \<and>
    {p. \<exists>fid\<in>set ids. resolve_path H fid reader = Some p} =
      {p. prefix pre p \<and> (\<exists>t\<in>path_tables H p. plan_accepts t plan)}"
proof -
  have "reader = hreader H" using assms(4) by (simp add: execute_query_with_masks_in_def Let_def)
  moreover have "set ids = {fid. id_accepted H plan pre fid}" "ascending ids"
    using candidates [OF assms(1-3), of pre] assms(4) by simp_all
  ultimately show ?thesis using accepted_paths [OF assms(1), of plan pre] by simp
qed

theorem search_candidates_exact_witness:
  "\<exists>ids. execute_query_with_masks_in sorted_list_of_set demo_hybrid
       (And [\<lparr>q_hash = 9, expected_next = Some 1\<rparr>]) [] = (ids, demo_reader) \<and>
     (\<exists>fid\<in>set ids. resolve_path demo_hybrid fid demo_reader = Some [0x62]) \<and>
     \<not> (\<exists>fid\<in>set ids. resolve_path demo_hybrid fid demo_reader = Some [0x61])"
proof -
  let ?plan = "And [\<lparr>q_hash = 9, expected_next = Some 1\<rparr>]"
  obtain ids reader where q: "execute_query_with_masks_in sorted_list_of_set demo_hybrid ?plan [] = (ids, reader)"
    by fastforce
  have "reader_lookup_trigram_with_masks demo_reader 9 = []"
    by (simp add: reader_lookup_trigram_with_masks_def reader_binary_search_def binary_search_loop.simps
        demo_fields demo_entry Let_def)
  then have "path_tables demo_hybrid [0x61] \<subseteq> {t. t 9 = None}"
    by (auto simp: path_tables_def demo_hybrid_overlay(2) reader_table_def entry_for_def) (simp_all add: demo_hybrid_def)
  then have "\<not> (\<exists>t\<in>path_tables demo_hybrid [0x61]. plan_accepts t ?plan)"
    by (auto simp: query_accepts_def)
  moreover have "\<exists>t\<in>path_tables demo_hybrid [0x62]. plan_accepts t ?plan"
    by (simp add: path_tables_def demo_hybrid_overlay(2) query_accepts_def check_next_byte_def
        no_filter_def next_bit_def)
  moreover have "well_formed_plan ?plan" by (simp add: well_formed_plan_def)
  note search_candidates_exact [OF demo_hybrid_inv iteration_sorted_list_of_set this q]
  ultimately show ?thesis using q by (auto simp: demo_hybrid_def)
qed

text \<open>C16. The snapshot of both layers that a flush writes is the merged view: it lists every
  active path, and under the new number of a file the posting list of each trigram holds exactly
  the masks that the view has for the path, the reader's for an unchanged file and the overlay's
  for a changed one.\<close>

theorem full_snapshot_is_the_view:
  assumes "hybrid_inv H" "validate_lookup (hreader H) = Inr ()" "iteration iter" "iteration titer"
    and "full_snapshot iter titer H = (paths, postings)"
  shows "set paths = {p. path_tables H p \<noteq> {}} \<and>
    (\<forall>n<length paths. \<exists>table\<in>path_tables H (paths ! n). \<forall>t.
       entry_for (of_nat n) (mapped_list postings t) = map_option (posting_of (of_nat n)) (table t))"
proof -
  let ?L = "hlive H" and ?R = "hreader H"
  have wf: "wf_reader ?R" and linv: "live_inv ?L" using assms(1) by (simp_all add: hybrid_inv_def)
  have "ascending (map le_trigram (reader_entries ?R))" using validate_lookup_iff [OF wf] assms(2) by blast
  note parts = full_snapshot_parts [OF wf this assms(3-5)]
  have "set paths = {p. path_tables H p \<noteq> {}}"
  proof (rule set_eqI)
    fix p
    show "p \<in> set paths \<longleftrightarrow> p \<in> {p. path_tables H p \<noteq> {}}"
      unfolding parts(1) set_append snapshot_ids(4) [OF linv assms(3)]
      by (cases "overlay_of ?L p")
        (auto simp: path_tables_def kept_paths_def in_set_conv_nth keys_dom_lookup overlay_of_def
          split: option.splits if_splits)
  qed
  moreover have "\<exists>table\<in>path_tables H (paths ! n). \<forall>t. entry_for (of_nat n) (mapped_list postings t) =
      map_option (posting_of (of_nat n)) (table t)" if n: "n < length paths" for n
  proof (cases "n < length (kept_paths H)")
    case True
    obtain j where j: "j < length (reader_paths ?R)" "reader_paths ?R ! j = kept_paths H ! n"
      "overlay_of ?L (kept_paths H ! n) = Untouched"
      and e: "\<And>l. entry_for (of_nat n) (remap_reader_posting (kept_ids H) l) =
        map_option (\<lambda>e. e\<lparr>file_id := of_nat n\<rparr>) (entry_for (of_nat j) l)"
      "\<And>t ids. entry_for (of_nat n) (remap_overlay_posting ?L (overlay_new_ids iter H) t ids) = None"
      by (rule snapshot_reader_entry [OF assms(1,3) True]) (rule that; assumption)
    have "reader_table ?R (of_nat j) \<in> path_tables H (paths ! n)"
      using j True by (auto simp: path_tables_def parts(1) nth_append)
    then show ?thesis
      by (rule bexI [rotated]) (simp add: parts(2) entry_for_append e entry_for_reader option.map_comp
          comp_def posting_of_def split: option.split)
  next
    case False
    define i where "i = n - length (kept_paths H)"
    have i: "i < length (all_paths_ordered iter ?L)" "n = length (kept_paths H) + i"
      using n False by (auto simp: parts(1) i_def)
    obtain f where f: "overlay_of ?L (all_paths_ordered iter ?L ! i) = Active (entry_masks ?L f)"
      and e: "\<And>l. entry_for (of_nat n) (remap_reader_posting (kept_ids H) l) = None"
      "\<And>t. entry_for (of_nat n) (remap_overlay_posting ?L (overlay_new_ids iter H) t (iter (ids_of ?L t))) =
         map_option (posting_of (of_nat n)) (entry_masks ?L f t)"
      by (rule snapshot_overlay_entry [OF assms(1,3) i(1), folded i(2)]) (rule that; assumption)
    have "entry_masks ?L f \<in> path_tables H (paths ! n)"
      by (simp add: parts(1) i(2) path_tables_def f nth_append)
    then show ?thesis by (rule bexI [rotated]) (simp add: parts(2) entry_for_append e)
  qed
  ultimately show ?thesis by blast
qed

theorem full_snapshot_is_the_view_witness:
  "\<exists>paths postings. full_snapshot sorted_list_of_set sorted_list_of_set demo_hybrid = (paths, postings) \<and>
     [0x62] \<in> set paths"
proof -
  obtain paths postings where
    s: "full_snapshot sorted_list_of_set sorted_list_of_set demo_hybrid = (paths, postings)" by fastforce
  have "validate_lookup (hreader demo_hybrid) = Inr ()" by (simp add: demo_hybrid_def demo_valid)
  note full_snapshot_is_the_view [OF demo_hybrid_inv this iteration_sorted_list_of_set
      iteration_sorted_list_of_set s]
  moreover have "path_tables demo_hybrid [0x62] \<noteq> {}" by (simp add: path_tables_def demo_hybrid_overlay(2))
  ultimately show ?thesis using s by blast
qed

text \<open>C17. Pruning the overlay after a flush, with no path held back: a path whose changed
  content the new reader has is from then on answered by the reader, and what the view says of
  every other path, active, deleted or unknown, stays as it was.\<close>

theorem prune_keeps_the_view:
  assumes "hybrid_inv H" "path_iteration piter"
  shows "hybrid_inv (prune_persisted_entries piter H) \<and>
    path_tables (prune_persisted_entries piter H) p =
      (if p \<in> set (reader_paths (hreader H)) \<and> (\<exists>t. overlay_of (hlive H) p = Active t)
       then {reader_table (hreader H) (of_nat i) | i.
              i < length (reader_paths (hreader H)) \<and> reader_paths (hreader H) ! i = p}
       else path_tables H p)"
proof -
  let ?L = "hlive H" and ?R = "hreader H" and ?H = "prune_persisted_entries piter H"
  have linv: "live_inv ?L" using assms(1) by (simp add: hybrid_inv_def)
  note p = prune_overlay [OF linv assms(2), of "{}", folded prune_persisted_entries_def]
  have "{i. i < length (reader_paths ?R) \<and> reader_paths ?R ! i = p} = {}" if "p \<notin> set (reader_paths ?R)"
    using that by auto
  then have none: "{reader_table ?R (of_nat i) | i. i < length (reader_paths ?R) \<and> reader_paths ?R ! i = p} = {}"
    if "p \<notin> set (reader_paths ?R)" using that by blast
  have "path_tables ?H p =
      (if p \<in> set (reader_paths ?R) \<and> (\<exists>t. overlay_of ?L p = Active t)
       then {reader_table ?R (of_nat i) | i. i < length (reader_paths ?R) \<and> reader_paths ?R ! i = p}
       else path_tables H p)"
  proof (cases "p \<in> set (reader_paths ?R)")
    case True
    then show ?thesis
      by (cases "overlay_of ?L p") (auto simp: path_tables_def p(2,3) all_persisted_def)
  next
    case False
    then have "\<not> (all_persisted (set (reader_paths ?R)) ?L \<and> (\<exists>t. overlay_of ?L p = Active t))"
      by (auto simp: all_persisted_def)
    with False show ?thesis
      by (cases "overlay_of ?L p") (simp_all add: path_tables_def p(2,3) none)
  qed
  then show ?thesis using assms(1) p(1,2) by (simp add: hybrid_inv_def)
qed

theorem prune_keeps_the_view_witness:
  "path_tables (prune_persisted_entries sorted_list_of_set demo_hybrid) [0x62] \<noteq> {}"
proof -
  have "[0x62] \<notin> set (reader_paths (hreader demo_hybrid))" by (simp add: demo_hybrid_def demo_fields)
  then show ?thesis
    using prune_keeps_the_view [OF demo_hybrid_inv path_iteration_sorted, of "[0x62]"]
    by (simp add: path_tables_def [of demo_hybrid] demo_hybrid_overlay(2))
qed

text \<open>C18. Holding a path back protects its tombstone only while something else keeps the overlay: a deleted path that is
  held back and in the new reader stays deleted through the pruning if and only if some active path of
  the overlay is not in the reader or is held back too, or some deleted path that is not held back is in the
  reader; otherwise the whole overlay is dropped and the deleted file is active again.\<close>

theorem held_back_tombstone_is_dropped:
  assumes "hybrid_inv H" "path_iteration piter"
    and "p \<in> preserved" "p \<in> set (reader_paths (hreader H))" "overlay_of (hlive H) p = Tombstone"
  shows "\<not> has_active_path H p \<and>
    (\<not> has_active_path (prune_persisted_entries_except piter preserved H) p \<longleftrightarrow>
      (\<exists>q t. overlay_of (hlive H) q = Active t \<and> (q \<notin> set (reader_paths (hreader H)) \<or> q \<in> preserved)) \<or>
      (\<exists>q. overlay_of (hlive H) q = Tombstone \<and> q \<in> set (reader_paths (hreader H)) \<and> q \<notin> preserved))"
proof -
  have linv: "live_inv (hlive H)" using assms(1) by (simp add: hybrid_inv_def)
  let ?H = "prune_persisted_entries_except piter preserved H"
  let ?dropped = "all_persisted (set (reader_paths (hreader H)) - preserved) (hlive H)"
  note pruned = prune_overlay [OF linv assms(2), of preserved]
  have inv: "hybrid_inv ?H" using assms(1) pruned(1,2) by (simp add: hybrid_inv_def)
  have known: "{reader_table (hreader H) (of_nat i) | i. i < length (reader_paths (hreader H)) \<and> reader_paths (hreader H) ! i = p} \<noteq> {}"
    using assms(4) by (auto simp: in_set_conv_nth)
  have "has_active_path ?H p \<longleftrightarrow> ?dropped"
    using known assms(5) by (auto simp: has_active_path_iff [OF inv] path_tables_def pruned(2) pruned(3) [of p])
  moreover have "\<not> has_active_path H p" using assms(5) by (simp add: has_active_path_iff [OF assms(1)] path_tables_def)
  ultimately show ?thesis unfolding all_persisted_def by blast
qed

theorem held_back_tombstone_is_dropped_witness:
  "has_active_path (prune_persisted_entries_except sorted_list_of_set {[0x61]} (demo_hybrid\<lparr>hlive := delete_file [0x61] live_new\<rparr>)) [0x61] \<and>
   \<not> has_active_path (demo_hybrid\<lparr>hlive := delete_file [0x61] live_new\<rparr>) [0x61]"
proof -
  let ?H = "demo_hybrid\<lparr>hlive := delete_file [0x61] live_new\<rparr>"
  have over: "overlay_of (hlive ?H) p = (if p = [0x61] then Tombstone else Untouched)" for p
    by (simp add: overlay_of_def delete_file_def live_new_def)
  have "live_inv (hlive ?H)" by (simp add: live_inv_def delete_file_def live_new_def ids_of_def)
  then have inv: "hybrid_inv ?H" using demo_hybrid_inv by (simp add: hybrid_inv_def)
  have "[0x61] \<in> set (reader_paths (hreader ?H))" by (simp add: demo_hybrid_def demo_fields)
  from held_back_tombstone_is_dropped [OF inv path_iteration_sorted _ this, of "{[0x61]}"] over show ?thesis
    by (simp add: over split: if_splits)
qed

text \<open>Counting the active files without walking them agrees with the number of files a
  query without a condition selects, and its subtraction does not overflow.\<close>

theorem num_files_counts_candidates:
  assumes "hybrid_inv H" "iteration iter" "distinct (reader_paths (hreader H))"
  shows "num_files_using H (hreader H) = Some (length (hybrid_all_file_ids iter H))"
  by (rule hybrid_count [OF assms])

theorem num_files_counts_candidates_witness:
  "num_files_using demo_hybrid demo_reader = Some (length (hybrid_all_file_ids sorted_list_of_set demo_hybrid))"
  using num_files_counts_candidates [OF demo_hybrid_inv iteration_sorted_list_of_set]
  by (simp add: demo_hybrid_def demo_fields)

text \<open>Membership of a path, the list of all paths and the merged view agree: a path is
  active when some table answers for it.\<close>

theorem path_membership_agrees:
  assumes "hybrid_inv H" "iteration iter"
  shows "(has_active_path H p \<longleftrightarrow> path_tables H p \<noteq> {}) \<and>
    (p \<in> set (hybrid_all_paths iter H) \<longleftrightarrow> path_tables H p \<noteq> {})"
  using has_active_path_iff [OF assms(1)] hybrid_all_paths_set [OF assms] by simp

theorem path_membership_agrees_witness:
  "has_active_path demo_hybrid [0x62] \<and> [0x62] \<in> set (hybrid_all_paths sorted_list_of_set demo_hybrid)"
  using path_membership_agrees [OF demo_hybrid_inv iteration_sorted_list_of_set, of "[0x62]"]
  by (simp add: path_tables_def demo_hybrid_overlay(2))

text \<open>The masks only narrow the search: every file that mask-aware execution returns is also
  returned by execution on identifiers alone.\<close>

theorem masks_only_narrow:
  assumes inv: "hybrid_inv H" and iter: "iteration iter"
  shows "set (fst (execute_query_with_masks iter H plan)) \<subseteq> set (execute_query iter H plan)"
proof (cases "plan = MatchAll")
  case True
  then show ?thesis by (simp add: execute_query_def hybrid_all_file_ids_def)
next
  case False
  let ?L = "hlive H" and ?R = "hreader H"
  let ?ids = "\<lambda>h. lookup_trigram_using_reader iter H h ?R"
  let ?P = "\<lambda>fid. is_overlay_id fid \<or> reader_entry_active H ?R fid"
  have wf: "wf_reader ?R" using inv by (simp add: hybrid_inv_def)
  have ids: "fid \<in> set (?ids h) \<or> \<not> ?P fid"
    if "entry_for fid (scoped_lookup iter ?R ?L [] h) \<noteq> None" for fid h
  proof -
    have "fid \<in> set (live_lookup_trigram iter ?L h) \<or>
        fid \<in> set (reader_lookup_trigram ?R h) \<and> unat fid < length (reader_paths ?R)"
      using that unfolding entry_for_mem
      by (auto simp: scoped_lookup_def Let_def scope_contains_iff [OF wf] reader_lookup_trigram_def
          live_lookup_trigram_with_masks_def live_lookup_trigram_def split: option.splits)
    moreover have "\<not> is_overlay_id fid" if "unat fid < length (reader_paths ?R)"
      using that inv by (auto simp: hybrid_inv_def is_overlay_id_iff)
    ultimately show ?thesis by (auto simp: lookup_trigram_using_reader_def)
  qed
  show ?thesis
    using False hits_in_ids [where P = ?P, OF ids] execute_plan_with_masks_hits [of plan] execute_plan_ids
    by (auto simp: execute_query_with_masks_def execute_query_with_masks_in_def execute_query_def Let_def)
qed

theorem masks_only_narrow_witness:
  "set (fst (execute_query_with_masks sorted_list_of_set demo_hybrid MatchAll)) \<subseteq>
     set (execute_query sorted_list_of_set demo_hybrid MatchAll)"
  by (rule masks_only_narrow [OF demo_hybrid_inv iteration_sorted_list_of_set])

end
