(* ===== verification/Path_Index.thy ===== *)
theory Path_Index
  imports Ondisk
begin

text \<open>
  Which indexed paths a search shows (\<^verbatim>\<open>tgrep-core/src/visibility.rs\<close>), the metadata of
  an index (\<^verbatim>\<open>tgrep-core/src/meta.rs\<close>) and the sidecar of paths that are listed but not
  indexed (\<^verbatim>\<open>tgrep-core/src/path_index.rs\<close>).  The matcher of ignore files is an
  argument: whether it whitelists a path.  The JSON text of the visibility is written and read by
  \<^verbatim>\<open>serde_json\<close>, which is a pair of functions here; the clock is an argument.  The model is
  that of a Unix host, where only the name makes an entry hidden.
\<close>

section \<open>Visibility\<close>

text \<open>The hidden entries, each with whether it is a directory.\<close>

record path_visibility =
  hidden :: "(path, bool) mapping"

definition visibility_default :: path_visibility where
  "visibility_default = \<lparr>hidden = Mapping.empty\<rparr>"

definition visibility_is_empty :: "path_visibility \<Rightarrow> bool" where
  "visibility_is_empty self = Mapping.is_empty (hidden self)"

definition records_hidden :: "path_visibility \<Rightarrow> path \<Rightarrow> bool" where
  "records_hidden self relative = (Mapping.lookup (hidden self) relative \<noteq> None)"

text \<open>\<^verbatim>\<open>Path::file_name\<close>: the last component, when it is a normal one.\<close>

definition file_name :: "path \<Rightarrow> byte list option" where
  "file_name path =
     (case rev (path_components path) of Normal name # _ \<Rightarrow> Some name | _ \<Rightarrow> None)"

definition is_hidden :: "path \<Rightarrow> bool" where
  "is_hidden path = (case file_name path of Some (b # _) \<Rightarrow> b = 0x2E | _ \<Rightarrow> False)"

type_synonym whitelist = "path \<Rightarrow> bool \<Rightarrow> bool"

definition is_whitelisted :: "whitelist option \<Rightarrow> path \<Rightarrow> bool \<Rightarrow> bool" where
  "is_whitelisted ignore path is_dir = (case ignore of Some matcher \<Rightarrow> matcher path is_dir | None \<Rightarrow> False)"

text \<open>The result says whether the record changed.\<close>

definition visibility_record ::
  "path_visibility \<Rightarrow> path \<Rightarrow> bool \<Rightarrow> whitelist option \<Rightarrow> path_visibility \<times> bool"
where
  "visibility_record self relative is_dir ignore =
     (if relative = [] then (self, False)
      else if is_hidden relative \<and> \<not> is_whitelisted ignore relative is_dir
        then (self\<lparr>hidden := Mapping.update relative is_dir (hidden self)\<rparr>,
              Mapping.lookup (hidden self) relative \<noteq> Some is_dir)
        else (self\<lparr>hidden := Mapping.delete relative (hidden self)\<rparr>,
              Mapping.lookup (hidden self) relative \<noteq> None))"

definition apply_ignore_rules :: "path_visibility \<Rightarrow> whitelist option \<Rightarrow> path_visibility" where
  "apply_ignore_rules self ignore =
     (case ignore of
        None \<Rightarrow> self
      | Some matcher \<Rightarrow> self\<lparr>hidden := Mapping.filter (\<lambda>path is_dir. \<not> matcher path is_dir) (hidden self)\<rparr>)"

text \<open>The controlled variant returns the files it admits, in the order of the table.\<close>

definition admit_step :: "whitelist \<Rightarrow> path \<times> bool \<Rightarrow> (path, bool) mapping \<times> path list \<Rightarrow> (path, bool) mapping \<times> path list" where
  "admit_step matcher = (\<lambda>(path, is_dir) (h, whitelisted).
     if \<not> matcher path is_dir then (Mapping.update path is_dir h, whitelisted)
     else if \<not> is_dir then (h, whitelisted @ [path])
     else (h, whitelisted))"

definition apply_ignore_rules_controlled ::
  "path_visibility \<Rightarrow> whitelist option \<Rightarrow> path_visibility \<times> path list"
where
  "apply_ignore_rules_controlled self ignore =
     (case ignore of
        None \<Rightarrow> (self, [])
      | Some matcher \<Rightarrow>
          let entries = map (\<lambda>path. (path, the (Mapping.lookup (hidden self) path)))
                (sorted_list_of_set (Mapping.keys (hidden self)));
              (h, whitelisted) = fold (admit_step matcher) entries (Mapping.empty, [])
          in (self\<lparr>hidden := h\<rparr>, whitelisted))"

definition separators :: "path \<Rightarrow> nat list" where
  "separators relative = map fst (filter (\<lambda>(i, b). b = 0x2F) (enumerate 0 relative))"

definition is_visible :: "path_visibility \<Rightarrow> path \<Rightarrow> path \<Rightarrow> bool \<Rightarrow> bool" where
  "is_visible self indexed pre include_hidden =
     (case strip_prefix pre indexed of
        None \<Rightarrow> False
      | Some relative \<Rightarrow>
          if include_hidden then True
          else list_all (\<lambda>stop. \<not> records_hidden self (take stop indexed))
                 (map (\<lambda>offset. length pre + offset) (separators relative) @ [length indexed]))"

section \<open>The metadata of an index\<close>

type_synonym file_table_id = "byte list"

record index_meta =
  version :: u32
  num_files :: u64
  num_trigrams :: u64
  created_at :: u64
  updated_at :: u64
  root_path :: path
  complete :: bool
  hidden_complete :: bool
  visibility :: path_visibility
  meta_table_id :: "file_table_id option"

definition meta_new :: "u64 \<Rightarrow> path \<Rightarrow> u64 \<Rightarrow> u64 \<Rightarrow> index_meta" where
  "meta_new now root files trigrams =
     \<lparr>version = INDEX_FORMAT_VERSION, num_files = files, num_trigrams = trigrams, created_at = now,
      updated_at = now, root_path = root, complete = True, hidden_complete = False,
      visibility = visibility_default, meta_table_id = None\<rparr>"

section \<open>The filename sidecar\<close>

definition EXTRA_MAGIC :: "byte list" where
  "EXTRA_MAGIC = [0x54, 0x47, 0x52, 0x50, 0x58, 0x50, 0x30, 0x31]"

definition VISIBILITY_MAGIC :: "byte list" where
  "VISIBILITY_MAGIC = [0x54, 0x47, 0x52, 0x50, 0x58, 0x50, 0x30, 0x32]"

definition HEADER_LEN :: nat where "HEADER_LEN = length EXTRA_MAGIC + 8"
definition PATH_LEN_SIZE :: nat where "PATH_LEN_SIZE = 4"

record filename_visibility =
  fv_paths :: path_visibility
  fv_table_id :: file_table_id
  fv_hidden_complete :: bool

record filename_index =
  fi_paths :: "path list"
  fi_visibility :: "filename_visibility option"

definition covers_index :: "filename_visibility \<Rightarrow> index_meta \<Rightarrow> file_table_id \<Rightarrow> bool" where
  "covers_index self meta table_id =
     (complete meta \<and> hidden_complete meta \<and> version meta = INDEX_FORMAT_VERSION
      \<and> meta_table_id meta = Some table_id \<and> fv_hidden_complete self \<and> fv_table_id self = table_id)"

fun write_path_records :: "path list \<Rightarrow> byte list \<Rightarrow> byte list result" where
  "write_path_records [] writer = Inr writer"
| "write_path_records (p # ps) writer =
     (if length p \<ge> 2 ^ 32 then Inl (IndexCorrupted ''path is too long for files-extra.bin'')
      else write_path_records ps (writer @ le_bytes 4 (of_nat (length p) :: u32) @ p))"

definition write_paths ::
  "(filename_visibility \<Rightarrow> byte list) \<Rightarrow> path list \<Rightarrow> filename_visibility option \<Rightarrow> byte list result"
where
  "write_paths to_json paths vis =
     (let writer = (if vis \<noteq> None then VISIBILITY_MAGIC else EXTRA_MAGIC);
          writer = writer @ le_bytes 8 (of_nat (length paths) :: u64);
          writer = (case vis of
              Some v \<Rightarrow> let data = to_json v in writer @ le_bytes 8 (of_nat (length data) :: u64) @ data
            | None \<Rightarrow> writer)
      in write_path_records paths writer)"

definition write_extra_paths :: "(filename_visibility \<Rightarrow> byte list) \<Rightarrow> path list \<Rightarrow> byte list result" where
  "write_extra_paths to_json paths = write_paths to_json paths None"

definition write_extra_paths_with_visibility ::
  "(filename_visibility \<Rightarrow> byte list) \<Rightarrow> path list \<Rightarrow> path_visibility \<Rightarrow> file_table_id \<Rightarrow> bool \<Rightarrow> byte list result"
where
  "write_extra_paths_with_visibility to_json paths vis table_id covered =
     write_paths to_json paths
       (Some \<lparr>fv_paths = vis, fv_table_id = table_id, fv_hidden_complete = covered\<rparr>)"

definition extra_corrupted :: "string \<Rightarrow> error" where
  "extra_corrupted message = IndexCorrupted message"

text \<open>The loop over the declared records: the bytes from the position on, and the paths read.\<close>

fun read_path_records :: "nat \<Rightarrow> byte list \<Rightarrow> (path list \<times> byte list) result" where
  "read_path_records 0 data = Inr ([], data)"
| "read_path_records (Suc n) data =
     (if PATH_LEN_SIZE > length data then Inl (extra_corrupted ''path has a truncated length'')
      else
        let len = unat (from_le (take PATH_LEN_SIZE data) :: u32); rest = drop PATH_LEN_SIZE data
        in if len > length rest then Inl (extra_corrupted ''path exceeds the file bounds'')
           else
             let path = take len rest
             in if \<not> valid_utf8 path then Inl (extra_corrupted ''path is not valid UTF-8'')
                else rbind (case validate_index_path path of
                       Inl _ \<Rightarrow> Inl (extra_corrupted ''path'') | Inr u \<Rightarrow> Inr u) (\<lambda>_.
                     rbind (read_path_records n (drop len rest)) (\<lambda>(paths, left).
                       Inr (path # paths, left))))"

text \<open>The visibility section, and what follows it.\<close>

definition read_visibility ::
  "(byte list \<Rightarrow> filename_visibility option) \<Rightarrow> byte list \<Rightarrow> (filename_visibility \<times> byte list) result"
where
  "read_visibility from_json data =
     (if length data < 8 then Inl (extra_corrupted ''visibility length is truncated'')
      else
        let len = unat (from_le (take 8 data) :: u64); rest = drop 8 data
        in if len > length rest then Inl (extra_corrupted ''visibility exceeds the file bounds'')
           else case from_json (take len rest) of
                  None \<Rightarrow> Inl (Json ''visibility'')
                | Some v \<Rightarrow> Inr (v, drop len rest))"

definition read_filename_index ::
  "(byte list \<Rightarrow> filename_visibility option) \<Rightarrow> byte list option \<Rightarrow> filename_index option result"
where
  "read_filename_index from_json file =
     (case file of
        None \<Rightarrow> Inr None
      | Some data \<Rightarrow>
          if length data < HEADER_LEN then Inl (extra_corrupted ''header is truncated'')
          else
            let magic = take (length EXTRA_MAGIC) data; has_visibility = (magic = VISIBILITY_MAGIC)
            in if \<not> has_visibility \<and> magic \<noteq> EXTRA_MAGIC then Inl (extra_corrupted ''invalid header'')
               else
                 let count = (from_le (take 8 (drop (length EXTRA_MAGIC) data)) :: u64); rest = drop HEADER_LEN data
                 in rbind (if has_visibility
                           then rbind (read_visibility from_json rest) (\<lambda>(v, rest). Inr (Some v, rest))
                           else Inr (None, rest)) (\<lambda>(vis, rest).
                    if unat count > length rest div PATH_LEN_SIZE
                    then Inl (extra_corrupted ''declares more paths than the file can contain'')
                    else rbind (read_path_records (unat count) rest) (\<lambda>(paths, left).
                         if left \<noteq> [] then Inl (extra_corrupted ''trailing bytes after the declared path set'')
                         else Inr (Some \<lparr>fi_paths = paths, fi_visibility = vis\<rparr>))))"

definition read_extra_paths ::
  "(byte list \<Rightarrow> filename_visibility option) \<Rightarrow> byte list option \<Rightarrow> path list option result"
where
  "read_extra_paths from_json file =
     rbind (read_filename_index from_json file) (\<lambda>index. Inr (map_option fi_paths index))"

section \<open>The records of the sidecar\<close>

definition path_record :: "path \<Rightarrow> byte list" where
  "path_record p = le_bytes 4 (of_nat (length p) :: u32) @ p"

definition extra_ok :: "path \<Rightarrow> bool" where
  "extra_ok p \<longleftrightarrow> length p < 2 ^ 32 \<and> valid_utf8 p \<and> validate_index_path p = Inr ()"

lemma write_path_records_eq:
  "write_path_records ps writer = Inr bytes \<longleftrightarrow>
     (\<forall>p\<in>set ps. length p < 2 ^ 32) \<and> bytes = writer @ concat (map path_record ps)"
  by (induction ps arbitrary: writer) (auto simp: path_record_def)

lemma read_one_record:
  assumes "extra_ok p"
  shows "read_path_records (Suc n) (path_record p @ r) = rbind (read_path_records n r) (\<lambda>(ps, left). Inr (p # ps, left))"
  using assms by (simp add: path_record_def PATH_LEN_SIZE_def extra_ok_def unat_of_nat Let_def)

lemma read_path_records_written:
  "\<forall>p\<in>set ps. extra_ok p \<Longrightarrow> read_path_records (length ps) (concat (map path_record ps) @ r) = Inr (ps, r)"
  by (induction ps) (simp_all add: read_one_record del: read_path_records.simps(2))

lemma read_path_records_Inr:
  "read_path_records n data = Inr (ps, left) \<Longrightarrow>
     data = concat (map path_record ps) @ left \<and> length ps = n \<and> (\<forall>p\<in>set ps. extra_ok p)"
proof (induction n arbitrary: data ps)
  case (Suc n)
  let ?len = "unat (from_le (take PATH_LEN_SIZE data) :: u32)" and ?rest = "drop PATH_LEN_SIZE data"
  have b: "PATH_LEN_SIZE \<le> length data" "?len \<le> length ?rest" "valid_utf8 (take ?len ?rest)"
    "validate_index_path (take ?len ?rest) = Inr ()"
    using Suc.prems by (auto simp: Let_def split: if_splits sum.splits)
  then obtain qs where q: "read_path_records n (drop ?len ?rest) = Inr (qs, left)" "ps = take ?len ?rest # qs"
    using Suc.prems by (auto simp: Let_def split: if_splits)
  note IH = Suc.IH [OF q(1)]
  have lt: "?len < 2 ^ 32" using unsigned_less [of "from_le (take PATH_LEN_SIZE data) :: u32"] by simp
  have "(of_nat ?len :: u32) = from_le (take PATH_LEN_SIZE data)" by simp
  moreover have "le_bytes 4 (from_le (take PATH_LEN_SIZE data) :: u32) = take PATH_LEN_SIZE data"
    using b(1) by (intro le_bytes_from_le) (simp_all add: PATH_LEN_SIZE_def)
  moreover have "length (take ?len ?rest) = ?len" using b(2) by simp
  ultimately have "path_record (take ?len ?rest) = take PATH_LEN_SIZE data @ take ?len ?rest"
    by (simp only: path_record_def)
  then have data: "data = path_record (take ?len ?rest) @ drop ?len ?rest"
    by (simp only: append_assoc append_take_drop_id)
  have ok: "extra_ok (take ?len ?rest)" using b lt by (simp add: extra_ok_def)
  have d: "data = concat (map path_record ps) @ left"
    using data IH by (simp only: q(2) list.map concat.simps append_assoc)
  have l: "length ps = Suc n" using IH by (simp add: q(2))
  have "\<forall>p\<in>set qs. extra_ok p" using IH by blast
  with ok have "\<forall>p\<in>set ps. extra_ok p" unfolding q(2) by simp
  with d l show ?case by (intro conjI)
qed simp

definition visibility_section :: "(filename_visibility \<Rightarrow> byte list) \<Rightarrow> filename_visibility option \<Rightarrow> byte list" where
  "visibility_section to_json vis =
     (case vis of Some v \<Rightarrow> le_bytes 8 (of_nat (length (to_json v)) :: u64) @ to_json v | None \<Rightarrow> [])"

lemma write_paths_eq:
  "write_paths to_json paths vis = Inr file \<longleftrightarrow>
     (\<forall>p\<in>set paths. length p < 2 ^ 32) \<and>
     file = (if vis \<noteq> None then VISIBILITY_MAGIC else EXTRA_MAGIC) @ le_bytes 8 (of_nat (length paths) :: u64)
       @ visibility_section to_json vis @ concat (map path_record paths)"
  by (auto simp: write_paths_def Let_def write_path_records_eq visibility_section_def split: option.split)

lemma magics: "length EXTRA_MAGIC = 8" "length VISIBILITY_MAGIC = 8" "EXTRA_MAGIC \<noteq> VISIBILITY_MAGIC" "HEADER_LEN = 16"
  by (simp_all add: EXTRA_MAGIC_def VISIBILITY_MAGIC_def HEADER_LEN_def)

lemma path_records_length: "length ps \<le> length (concat (map path_record ps)) div PATH_LEN_SIZE"
proof -
  have "length ps * PATH_LEN_SIZE \<le> length (concat (map path_record ps))"
    by (induction ps) (auto simp: path_record_def PATH_LEN_SIZE_def)
  then show ?thesis by (simp add: PATH_LEN_SIZE_def less_eq_div_iff_mult_less_eq)
qed

lemma read_written_index:
  assumes "\<forall>v. vis = Some v \<longrightarrow> from_json (to_json v) = Some v \<and> length (to_json v) < 2 ^ 64"
    and "length paths < 2 ^ 64" "\<forall>p\<in>set paths. extra_ok p" and "write_paths to_json paths vis = Inr file"
  shows "read_filename_index from_json (Some file) = Inr (Some \<lparr>fi_paths = paths, fi_visibility = vis\<rparr>)"
proof -
  let ?magic = "if vis \<noteq> None then VISIBILITY_MAGIC else EXTRA_MAGIC"
  let ?records = "concat (map path_record paths)"
  define rest where "rest = visibility_section to_json vis @ ?records"
  have content: "file = ?magic @ le_bytes 8 (of_nat (length paths) :: u64) @ rest"
    using assms(4) by (simp add: write_paths_eq rest_def)
  have head: "take 8 file = ?magic" "take 8 (drop 8 file) = le_bytes 8 (of_nat (length paths) :: u64)"
    "drop 16 file = rest" "\<not> length file < 16"
    by (simp_all add: content magics)
  have count: "unat (of_nat (length paths) :: u64) = length paths" using assms(2) by (simp add: unat_of_nat)
  have vis: "(if vis \<noteq> None then rbind (read_visibility from_json rest) (\<lambda>(v, rest). Inr (Some v, rest)) else Inr (None, rest)) =
      Inr (vis, ?records)"
    using assms(1)
    by (cases vis) (simp_all add: rest_def visibility_section_def read_visibility_def unat_of_nat Let_def)
  have few: "\<not> length paths > length ?records div PATH_LEN_SIZE" using path_records_length [of paths] by simp
  note records = read_path_records_written [OF assms(3), of "[]", unfolded append_Nil2]
  show ?thesis
  proof (cases vis)
    case None
    then show ?thesis using head count vis few records magics
      by (simp add: read_filename_index_def Let_def)
  next
    case (Some v)
    then obtain r where "read_visibility from_json rest = Inr r" "r = (v, ?records)" using vis by auto
    then show ?thesis using head count few records magics Some
      by (simp add: read_filename_index_def Let_def)
  qed
qed

text \<open>Any accepted file, by the text of its visibility section.\<close>

definition section_of :: "byte list option \<Rightarrow> byte list" where
  "section_of json = (case json of Some data \<Rightarrow> le_bytes 8 (of_nat (length data) :: u64) @ data | None \<Rightarrow> [])"

lemma read_visibility_Inr:
  assumes "read_visibility from_json data = Inr (v, rest)"
  shows "\<exists>json. from_json json = Some v \<and> length json < 2 ^ 64 \<and> data = section_of (Some json) @ rest"
proof -
  let ?len = "from_le (take 8 data) :: u64"
  have m: "8 \<le> length data" "unat ?len \<le> length (drop 8 data)" "from_json (take (unat ?len) (drop 8 data)) = Some v"
    "rest = drop (unat ?len) (drop 8 data)"
    using assms by (auto simp: read_visibility_def Let_def split: if_splits option.splits)
  have "le_bytes 8 ?len = take 8 data" using m(1) by (intro le_bytes_from_le) simp_all
  moreover have "length (take (unat ?len) (drop 8 data)) = unat ?len" using m(2) by simp
  moreover have "unat ?len < 2 ^ 64" using unsigned_less [of ?len] by simp
  moreover have "data = take 8 data @ take (unat ?len) (drop 8 data) @ rest" by (simp only: m(4) append_take_drop_id)
  ultimately show ?thesis using m(3)
    by (intro exI [of _ "take (unat ?len) (drop 8 data)"]) (simp add: section_of_def)
qed

definition section_reads :: "(byte list \<Rightarrow> filename_visibility option) \<Rightarrow> filename_visibility option \<Rightarrow> byte list option \<Rightarrow> bool" where
  "section_reads from_json vis json \<longleftrightarrow>
     (case json of Some data \<Rightarrow> vis \<noteq> None \<and> from_json data = vis \<and> length data < 2 ^ 64 | None \<Rightarrow> vis = None)"

lemma read_accepted_index:
  assumes "read_filename_index from_json (Some file) = Inr (Some \<lparr>fi_paths = ps, fi_visibility = vis\<rparr>)"
  shows "\<exists>json. section_reads from_json vis json \<and> length ps < 2 ^ 64 \<and> (\<forall>p\<in>set ps. extra_ok p) \<and>
    file = (if vis = None then EXTRA_MAGIC else VISIBILITY_MAGIC) @ le_bytes 8 (of_nat (length ps) :: u64) @
      section_of json @ concat (map path_record ps)"
proof -
  let ?count = "from_le (take 8 (drop 8 file)) :: u64" and ?magic = "if vis = None then EXTRA_MAGIC else VISIBILITY_MAGIC"
  have long: "16 \<le> length file"
    using assms by (auto simp: read_filename_index_def magics split: if_splits)
  have count: "le_bytes 8 ?count = take 8 (drop 8 file)" using long by (intro le_bytes_from_le) simp_all
  have "drop 8 (drop 8 file) = drop 16 file" by simp
  then have whole: "take 8 file @ le_bytes 8 ?count @ drop 16 file = file" unfolding count by (metis append_take_drop_id)
  have "\<exists>json rest. take 8 file = ?magic \<and> section_reads from_json vis json \<and> drop 16 file = section_of json @ rest \<and>
      read_path_records (unat ?count) rest = Inr (ps, [])"
  proof (cases "take 8 file = VISIBILITY_MAGIC")
    case True
    then obtain v rest where v: "read_visibility from_json (drop 16 file) = Inr (v, rest)" "vis = Some v"
      "read_path_records (unat ?count) rest = Inr (ps, [])"
      using assms long by (auto simp: read_filename_index_def magics Let_def split: if_splits)
    obtain json where "section_reads from_json vis (Some json)" "drop 16 file = section_of (Some json) @ rest"
      using read_visibility_Inr [OF v(1)] v(2) by (auto simp: section_reads_def)
    then show ?thesis using v(2,3) True by (intro exI conjI) simp_all
  next
    case False
    then have "take 8 file = EXTRA_MAGIC" "vis = None" "read_path_records (unat ?count) (drop 16 file) = Inr (ps, [])"
      using assms long by (auto simp: read_filename_index_def magics Let_def split: if_splits)
    then show ?thesis by (intro exI [of _ None]) (simp add: section_of_def section_reads_def)
  qed
  then obtain json rest where json: "take 8 file = ?magic" "section_reads from_json vis json" "drop 16 file = section_of json @ rest"
    and r: "read_path_records (unat ?count) rest = Inr (ps, [])" by (elim exE conjE) (rule that)
  note records = read_path_records_Inr [OF r]
  have "(of_nat (length ps) :: u64) = ?count" using records by simp
  then have "file = ?magic @ le_bytes 8 (of_nat (length ps) :: u64) @ section_of json @ concat (map path_record ps)"
    using whole records unfolding json(1,3) by simp
  moreover have "length ps < 2 ^ 64" using records unsigned_less [of ?count] by simp
  ultimately show ?thesis using json(2) records by (intro exI [of _ json] conjI) simp_all
qed

section \<open>Ignore rules\<close>

lemma admit_steps:
  "fold (admit_step matcher) entries (h, ps) =
     (fold (\<lambda>(p, d). Mapping.update p d) (filter (\<lambda>(p, d). \<not> matcher p d) entries) h,
      ps @ map fst (filter (\<lambda>(p, d). matcher p d \<and> \<not> d) entries))"
  by (induction entries arbitrary: h ps) (auto simp: admit_step_def)

lemma lookup_fold_update:
  "distinct (map fst entries) \<Longrightarrow>
     Mapping.lookup (fold (\<lambda>(p, d). Mapping.update p d) entries h) q =
       (case map_of entries q of Some d \<Rightarrow> Some d | None \<Rightarrow> Mapping.lookup h q)"
proof (induction entries arbitrary: h)
  case (Cons e entries)
  obtain p d where e: "e = (p, d)" by (cases e)
  have "map_of entries p = None" using Cons.prems by (simp add: e map_of_eq_None_iff)
  then show ?case using Cons by (auto simp: e lookup_update' split: option.split)
qed simp

section \<open>Properties\<close>

text \<open>A search shows a path of the index exactly when it lies below the prefix of the search root and,
  unless hidden files were asked for, neither the path nor any directory on the way from the
  root of the search to it is recorded as hidden; directories above the search root do not count.\<close>

theorem visible_iff_no_hidden_barrier:
  "is_visible self indexed pre include_hidden \<longleftrightarrow>
     (\<exists>relative. indexed = pre @ relative) \<and>
     (include_hidden \<or>
       (\<forall>q. records_hidden self q \<longrightarrow>
          q \<noteq> indexed \<and> (length pre \<le> length q \<longrightarrow> (\<forall>r. indexed \<noteq> q @ 0x2F # r))))"
proof (cases "strip_prefix pre indexed")
  case None
  then show ?thesis using strip_prefix_Some [of pre indexed] by (auto simp: is_visible_def)
next
  case (Some rel)
  then have ind: "indexed = pre @ rel" by (simp add: strip_prefix_Some)
  have seps: "set (separators rel) = {i. i < length rel \<and> rel ! i = 0x2F}"
    by (force simp: separators_def in_set_enumerate_eq image_iff)
  have "(\<forall>i\<in>set (separators rel). \<not> records_hidden self (take (length pre + i) indexed)) \<longleftrightarrow>
      (\<forall>q. records_hidden self q \<longrightarrow> length pre \<le> length q \<longrightarrow> (\<forall>r. indexed \<noteq> q @ 0x2F # r))"
  proof (intro iffI allI impI notI ballI)
    fix q r
    assume all: "\<forall>i\<in>set (separators rel). \<not> records_hidden self (take (length pre + i) indexed)"
      and q: "records_hidden self q" "length pre \<le> length q" "indexed = q @ 0x2F # r"
    define i where "i = length q - length pre"
    have len: "length q = length pre + i" using q(2) by (simp add: i_def)
    then have "rel ! i = indexed ! length q" by (simp add: ind nth_append)
    moreover have "i < length rel" using arg_cong [OF q(3), of length] len by (simp add: ind)
    ultimately have "i \<in> set (separators rel)" using q(3) by (simp add: seps)
    moreover have "take (length pre + i) indexed = q" using q(3) by (simp flip: len)
    ultimately show False using all q(1) by auto
  next
    fix i
    assume all: "\<forall>q. records_hidden self q \<longrightarrow> length pre \<le> length q \<longrightarrow> (\<forall>r. indexed \<noteq> q @ 0x2F # r)"
      and i: "i \<in> set (separators rel)" "records_hidden self (take (length pre + i) indexed)"
    then have "i < length rel" "rel ! i = 0x2F" by (simp_all add: seps)
    then have "indexed = take (length pre + i) indexed @ 0x2F # drop (Suc (length pre + i)) indexed"
      using id_take_nth_drop [of "length pre + i" indexed] by (simp add: ind)
    moreover have "length pre \<le> length (take (length pre + i) indexed)" using \<open>i < length rel\<close> by (simp add: ind)
    ultimately show False using all i(2) by blast
  qed
  then show ?thesis
    using Some by (auto simp: is_visible_def list_all_iff ind)
qed

theorem visible_iff_no_hidden_barrier_witness:
  "is_visible \<lparr>hidden = Mapping.update [0x2E, 0x61] False Mapping.empty\<rparr> [0x62, 0x2F, 0x63] [] False \<and>
   \<not> is_visible \<lparr>hidden = Mapping.update [0x2E, 0x61] False Mapping.empty\<rparr> [0x2E, 0x61, 0x2F, 0x63] [] False"
proof -
  let ?v = "\<lparr>hidden = Mapping.update [0x2E, 0x61] False Mapping.empty\<rparr> :: path_visibility"
  have h: "records_hidden ?v q \<longleftrightarrow> q = [0x2E, 0x61]" for q by (auto simp: records_hidden_def lookup_update')
  show ?thesis
    unfolding visible_iff_no_hidden_barrier [of ?v] h by simp
qed

text \<open>Applying ignore rules under a permit leaves the hidden entries that the plain form leaves, and returns,
  in order, exactly the files it made visible.\<close>

theorem controlled_ignore_rules_agree:
  assumes "finite (Mapping.keys (hidden self))"
  shows "fst (apply_ignore_rules_controlled self (Some matcher)) = apply_ignore_rules self (Some matcher) \<and>
    sorted (snd (apply_ignore_rules_controlled self (Some matcher))) \<and>
    set (snd (apply_ignore_rules_controlled self (Some matcher))) =
      {path. Mapping.lookup (hidden self) path = Some False \<and> matcher path False}"
proof -
  define keys where "keys = sorted_list_of_set (Mapping.keys (hidden self))"
  define entries where "entries = map (\<lambda>path. (path, the (Mapping.lookup (hidden self) path))) keys"
  have keys: "set keys = Mapping.keys (hidden self)" "distinct keys" "sorted keys" using assms by (simp_all add: keys_def)
  have fst: "map fst entries = keys" by (simp add: entries_def comp_def)
  have entry: "(p, d) \<in> set entries \<longleftrightarrow> Mapping.lookup (hidden self) p = Some d" for p d
    using keys(1) by (auto simp: entries_def keys_dom_lookup domIff image_iff)
  let ?left = "filter (\<lambda>(p, d). \<not> matcher p d) entries"
  have dist: "distinct (map fst ?left)" using keys(2) by (simp add: fst [symmetric] distinct_map_filter)
  have "map_of ?left q = (case Mapping.lookup (hidden self) q of Some d \<Rightarrow> if matcher q d then None else Some d | None \<Rightarrow> None)" for q
  proof (cases "map_of ?left q")
    case None
    then have "(q, d) \<notin> set ?left" for d by (auto simp: map_of_eq_None_iff image_iff)
    then show ?thesis using None entry by (auto split: option.split)
  next
    case (Some d)
    then have "(q, d) \<in> set ?left" by (rule map_of_SomeD)
    then show ?thesis using Some entry by auto
  qed
  then have table: "fold (\<lambda>(p, d). Mapping.update p d) ?left Mapping.empty =
      Mapping.filter (\<lambda>path is_dir. \<not> matcher path is_dir) (hidden self)"
    by (intro mapping_eqI) (simp add: lookup_fold_update [OF dist] lookup_filter split: option.split)
  have res: "apply_ignore_rules_controlled self (Some matcher) =
      (self\<lparr>hidden := Mapping.filter (\<lambda>path is_dir. \<not> matcher path is_dir) (hidden self)\<rparr>,
       map fst (filter (\<lambda>(p, d). matcher p d \<and> \<not> d) entries))"
    by (simp add: apply_ignore_rules_controlled_def Let_def admit_steps entries_def [symmetric] keys_def [symmetric] table)
  have "sorted (map fst (filter (\<lambda>(p, d). matcher p d \<and> \<not> d) entries))"
    using keys(3) by (simp add: sorted_filter fst)
  then show ?thesis using entry by (force simp: res apply_ignore_rules_def image_iff)
qed

definition demo_hidden :: path_visibility where
  "demo_hidden = \<lparr>hidden = Mapping.update [0x2E, 0x61] False Mapping.empty\<rparr>"

theorem controlled_ignore_rules_agree_witness:
  "set (snd (apply_ignore_rules_controlled demo_hidden (Some (\<lambda>_ _. True)))) = {[0x2E, 0x61]}"
proof -
  have "finite (Mapping.keys (hidden demo_hidden))" by (simp add: demo_hidden_def)
  from controlled_ignore_rules_agree [OF this, of "\<lambda>_ _. True"] show ?thesis
    by (auto simp: demo_hidden_def lookup_update')
qed

text \<open>C39. The sidecar of paths that are not indexed: reading it back gives the paths and the visibility that were
  written, and nothing else is accepted.  A file is accepted, with or without a visibility section, if and only if it
  is what the writer produces for its paths, all of them safe, and for a JSON text that reads as its visibility;
  so every truncation, padding, wrong count or length, foreign header or unsafe path is an error.\<close>

theorem sidecar_round_trip:
  "read_filename_index from_json (Some file) = Inr (Some \<lparr>fi_paths = paths, fi_visibility = vis\<rparr>) \<longleftrightarrow>
     length paths < 2 ^ 64 \<and> (\<forall>p\<in>set paths. extra_ok p) \<and>
     (\<exists>to_json. write_paths to_json paths vis = Inr file \<and>
        (\<forall>v. vis = Some v \<longrightarrow> from_json (to_json v) = Some v \<and> length (to_json v) < 2 ^ 64))"
proof
  assume "read_filename_index from_json (Some file) = Inr (Some \<lparr>fi_paths = paths, fi_visibility = vis\<rparr>)"
  from read_accepted_index [OF this] obtain json where json: "section_reads from_json vis json"
    and ok: "length paths < 2 ^ 64" "\<forall>p\<in>set paths. extra_ok p"
    and whole: "file = (if vis = None then EXTRA_MAGIC else VISIBILITY_MAGIC) @ le_bytes 8 (of_nat (length paths) :: u64) @
      section_of json @ concat (map path_record paths)" by (elim exE conjE) (rule that)
  have "write_paths (\<lambda>v. the json) paths vis = Inr file"
    unfolding write_paths_eq whole using ok(2) json
    by (cases vis; cases json) (simp_all add: section_reads_def visibility_section_def section_of_def extra_ok_def)
  moreover have "\<forall>v. vis = Some v \<longrightarrow> from_json (the json) = Some v \<and> length (the json) < 2 ^ 64"
    using json by (cases json) (auto simp: section_reads_def)
  ultimately show "length paths < 2 ^ 64 \<and> (\<forall>p\<in>set paths. extra_ok p) \<and> (\<exists>to_json. write_paths to_json paths vis = Inr file \<and>
      (\<forall>v. vis = Some v \<longrightarrow> from_json (to_json v) = Some v \<and> length (to_json v) < 2 ^ 64))" using ok by blast
qed (use read_written_index in blast)

definition demo_json :: "filename_visibility \<Rightarrow> byte list" where
  "demo_json v = [if fv_hidden_complete v then 1 else 0]"

theorem sidecar_round_trip_witness:
  "\<exists>file. write_paths demo_json [[0x61]] (Some \<lparr>fv_paths = visibility_default, fv_table_id = [], fv_hidden_complete = True\<rparr>) = Inr file \<and>
     read_filename_index (\<lambda>data. if data = [1] then Some \<lparr>fv_paths = visibility_default, fv_table_id = [], fv_hidden_complete = True\<rparr> else None)
       (Some file) = Inr (Some \<lparr>fi_paths = [[0x61]], fi_visibility = Some \<lparr>fv_paths = visibility_default, fv_table_id = [], fv_hidden_complete = True\<rparr>\<rparr>)"
proof -
  let ?v = "\<lparr>fv_paths = visibility_default, fv_table_id = [], fv_hidden_complete = True\<rparr>"
  obtain bs where f: "write_paths demo_json [[0x61]] (Some ?v) = Inr bs"
    by (simp add: write_paths_def Let_def)
  have ok: "extra_ok [0x61]" by (simp add: extra_ok_def validate_index_path_iff)
  show ?thesis unfolding sidecar_round_trip using ok f by (fastforce simp: demo_json_def)
qed

end
