(* ===== verification/Evidence.thy ===== *)
theory Evidence
  imports Path_Index
begin

text \<open>
  What an index remembers of the files it has read (\<^verbatim>\<open>tgrep-core/src/meta.rs\<close>): stamps,
  full-resolution versions and content identifiers, the operations on them and the file
  \<^verbatim>\<open>filestamps.json\<close>.  A time is the number of nanoseconds since the epoch, whose seconds
  are an \<^verbatim>\<open>i64\<close>; sizes and seconds of stamps are natural numbers.  The model is that of a
  Unix host.  The digest, the name of the platform, the JSON library and the order in which a
  hash table is walked are arguments.
\<close>

section \<open>Stamps and versions\<close>

definition NANOS :: int where
  "NANOS = 1000000000"

definition time_ok :: "int \<Rightarrow> bool" where
  "time_ok t \<longleftrightarrow> - (2 ^ 63) \<le> t div NANOS \<and> t div NANOS < 2 ^ 63"

text \<open>What a stat gives (\<^verbatim>\<open>std::fs::Metadata\<close>).\<close>

record file_metadata =
  md_modified :: "int option"
  md_created :: "int option"
  md_len :: nat
  md_device :: u64
  md_inode :: u64
  md_change_seconds :: int
  md_change_nanos :: int

record file_stamp =
  stamp_mtime :: nat
  stamp_size :: nat

record file_version =
  fv_stamp :: file_stamp
  fv_modified :: "int option"
  fv_created :: "int option"
  fv_device :: u64
  fv_inode :: u64
  fv_change_seconds :: int
  fv_change_nanos :: int

definition seconds_since_epoch :: "int \<Rightarrow> nat option" where
  "seconds_since_epoch t = (if t \<ge> 0 then Some (nat (t div NANOS)) else None)"

definition file_stamp_of :: "file_metadata \<Rightarrow> file_stamp" where
  "file_stamp_of metadata =
     \<lparr>stamp_mtime = (case Option.bind (md_modified metadata) seconds_since_epoch of Some s \<Rightarrow> s | None \<Rightarrow> 0),
      stamp_size = md_len metadata\<rparr>"

definition file_version_of :: "file_metadata \<Rightarrow> file_version" where
  "file_version_of metadata =
     \<lparr>fv_stamp = file_stamp_of metadata, fv_modified = md_modified metadata, fv_created = md_created metadata,
      fv_device = md_device metadata, fv_inode = md_inode metadata,
      fv_change_seconds = md_change_seconds metadata, fv_change_nanos = md_change_nanos metadata\<rparr>"

definition is_trusted :: "file_version \<Rightarrow> bool" where
  "is_trusted self =
     (if fv_modified self = None then False else 0 \<le> fv_change_nanos self \<and> fv_change_nanos self < 1000000000)"

section \<open>The persisted form of a version\<close>

record version_time =
  before_epoch :: bool
  vt_seconds :: nat
  vt_nanos :: nat

definition version_time_of :: "int \<Rightarrow> version_time" where
  "version_time_of t =
     (if t \<ge> 0 then \<lparr>before_epoch = False, vt_seconds = nat (t div NANOS), vt_nanos = nat (t mod NANOS)\<rparr>
      else \<lparr>before_epoch = True, vt_seconds = nat ((- t) div NANOS), vt_nanos = nat ((- t) mod NANOS)\<rparr>)"

definition version_time_decode :: "version_time \<Rightarrow> int option" where
  "version_time_decode self =
     (if vt_nanos self \<ge> 1000000000 then None
      else let duration = int (vt_seconds self) * NANOS + int (vt_nanos self);
               time = (if before_epoch self then - duration else duration)
           in if time_ok time then Some time else None)"

record unix_version =
  uv_device :: u64
  uv_inode :: u64
  uv_change_seconds :: int
  uv_change_nanos :: int

record persisted_version =
  pv_schema :: u32
  pv_platform :: string
  pv_size :: nat
  pv_modified :: version_time
  pv_created :: "version_time option"
  pv_unix :: "unix_version option"

definition persisted :: "string \<Rightarrow> file_version \<Rightarrow> persisted_version option" where
  "persisted os self =
     (if \<not> is_trusted self then None
      else Option.bind (fv_modified self) (\<lambda>modified.
        Some \<lparr>pv_schema = 1, pv_platform = os, pv_size = stamp_size (fv_stamp self),
              pv_modified = version_time_of modified, pv_created = map_option version_time_of (fv_created self),
              pv_unix = Some \<lparr>uv_device = fv_device self, uv_inode = fv_inode self,
                uv_change_seconds = fv_change_seconds self, uv_change_nanos = fv_change_nanos self\<rparr>\<rparr>))"

definition decode_created :: "version_time option \<Rightarrow> int option option" where
  "decode_created created =
     (case created of Some time \<Rightarrow> map_option Some (version_time_decode time) | None \<Rightarrow> Some None)"

definition persisted_decode :: "string \<Rightarrow> persisted_version \<Rightarrow> file_stamp \<Rightarrow> file_version option" where
  "persisted_decode os self stamp =
     (if pv_schema self \<noteq> 1 \<or> pv_platform self \<noteq> os \<or> pv_size self \<noteq> stamp_size stamp then None
      else Option.bind (version_time_decode (pv_modified self)) (\<lambda>modified.
        if (case seconds_since_epoch modified of Some s \<Rightarrow> s | None \<Rightarrow> 0) \<noteq> stamp_mtime stamp then None
        else Option.bind (decode_created (pv_created self)) (\<lambda>created.
             Option.bind (pv_unix self) (\<lambda>unix.
               let ver = \<lparr>fv_stamp = stamp, fv_modified = Some modified, fv_created = created,
                     fv_device = uv_device unix, fv_inode = uv_inode unix,
                     fv_change_seconds = uv_change_seconds unix, fv_change_nanos = uv_change_nanos unix\<rparr>
               in if is_trusted ver then Some ver else None))))"

section \<open>Content identifiers\<close>

definition CONTENT_ID_DOMAIN :: "byte list" where
  "CONTENT_ID_DOMAIN = map (\<lambda>c. of_nat (of_char c))
     (''tgrep/content-id/v1'' @ [CHR 0x00] @ ''decode_for_index-output'' @ [CHR 0x00]
      @ ''binary-and-posting-semantics-v2'')"

text \<open>Sixteen bytes.\<close>

type_synonym content_id = "byte list"

definition content_id_of :: "(byte list \<Rightarrow> byte list) \<Rightarrow> byte list \<Rightarrow> content_id" where
  "content_id_of blake3 bytes = take 16 (blake3 (CONTENT_ID_DOMAIN @ bytes))"

definition HEX :: "byte list" where
  "HEX = map (\<lambda>c. of_nat (of_char c)) ''0123456789abcdef''"

definition hex_digit :: "byte \<Rightarrow> byte option" where
  "hex_digit digit =
     (if 0x30 \<le> digit \<and> digit \<le> 0x39 then Some (digit - 0x30)
      else if 0x61 \<le> digit \<and> digit \<le> 0x66 then Some (digit - 0x61 + 10)
      else None)"

fun hex_bytes :: "byte list \<Rightarrow> byte list option" where
  "hex_bytes (a # b # rest) =
     Option.bind (hex_digit a) (\<lambda>high. Option.bind (hex_digit b) (\<lambda>low.
       map_option ((#) (push_bit 4 high OR low)) (hex_bytes rest)))"
| "hex_bytes _ = Some []"

definition from_hex :: "byte list \<Rightarrow> content_id option" where
  "from_hex value = (if length value \<noteq> 32 then None else hex_bytes value)"

definition to_hex :: "content_id \<Rightarrow> byte list" where
  "to_hex self = concat (map (\<lambda>b. [HEX ! unat (drop_bit 4 b), HEX ! unat (b AND 0xf)]) self)"

section \<open>Evidence\<close>

record file_evidence =
  stamps :: "(path, file_stamp) mapping"
  content_ids :: "(path, content_id) mapping"
  versions :: "(path, file_version) mapping"

definition evidence_default :: file_evidence where
  "evidence_default = \<lparr>stamps = Mapping.empty, content_ids = Mapping.empty, versions = Mapping.empty\<rparr>"

definition from_stamps :: "(path, file_stamp) mapping \<Rightarrow> file_evidence" where
  "from_stamps st = \<lparr>stamps = st, content_ids = Mapping.empty, versions = Mapping.empty\<rparr>"

definition evidence_stamp :: "file_evidence \<Rightarrow> path \<Rightarrow> file_stamp option" where
  "evidence_stamp self path = Mapping.lookup (stamps self) path"

definition evidence_content_id :: "file_evidence \<Rightarrow> path \<Rightarrow> content_id option" where
  "evidence_content_id self path = Mapping.lookup (content_ids self) path"

definition evidence_version :: "file_evidence \<Rightarrow> path \<Rightarrow> file_version option" where
  "evidence_version self path =
     (case Mapping.lookup (versions self) path of
        Some v \<Rightarrow> if is_trusted v \<and> evidence_stamp self path = Some (fv_stamp v) then Some v else None
      | None \<Rightarrow> None)"

definition insert_verified ::
  "path \<Rightarrow> file_stamp \<Rightarrow> content_id option \<Rightarrow> file_version option \<Rightarrow> file_evidence \<Rightarrow> file_evidence"
where
  "insert_verified path stamp content ver self =
     (let self = (case ver of
            Some v \<Rightarrow>
              if is_trusted v \<and> fv_stamp v = stamp then self\<lparr>versions := Mapping.update path v (versions self)\<rparr>
              else self\<lparr>versions := Mapping.delete path (versions self)\<rparr>
          | None \<Rightarrow> self\<lparr>versions := Mapping.delete path (versions self)\<rparr>);
          self = (case content of
            Some c \<Rightarrow> self\<lparr>content_ids := Mapping.update path c (content_ids self)\<rparr>
          | None \<Rightarrow> self\<lparr>content_ids := Mapping.delete path (content_ids self)\<rparr>)
      in self\<lparr>stamps := Mapping.update path stamp (stamps self)\<rparr>)"

definition evidence_insert :: "path \<Rightarrow> file_stamp \<Rightarrow> content_id option \<Rightarrow> file_evidence \<Rightarrow> file_evidence" where
  "evidence_insert path stamp content self = insert_verified path stamp content None self"

definition evidence_remove :: "path \<Rightarrow> file_evidence \<Rightarrow> file_evidence \<times> file_stamp option" where
  "evidence_remove path self =
     (\<lparr>stamps = Mapping.delete path (stamps self), content_ids = Mapping.delete path (content_ids self),
       versions = Mapping.delete path (versions self)\<rparr>, Mapping.lookup (stamps self) path)"

definition evidence_clear :: "file_evidence \<Rightarrow> file_evidence" where
  "evidence_clear self = \<lparr>stamps = Mapping.empty, content_ids = Mapping.empty, versions = Mapping.empty\<rparr>"

definition evidence_retain :: "(path \<Rightarrow> file_stamp \<Rightarrow> bool) \<Rightarrow> file_evidence \<Rightarrow> file_evidence" where
  "evidence_retain keep self =
     (let self = self\<lparr>stamps := Mapping.filter keep (stamps self)\<rparr>;
          self = self\<lparr>content_ids := Mapping.filter (\<lambda>path _. Mapping.lookup (stamps self) path \<noteq> None) (content_ids self)\<rparr>
      in self\<lparr>versions := Mapping.filter (\<lambda>path v. Mapping.lookup (stamps self) path = Some (fv_stamp v)) (versions self)\<rparr>)"

section \<open>The file\<close>

record entry_ref =
  ref_mtime :: nat
  ref_size :: nat
  ref_c :: "byte list option"
  ref_v :: "persisted_version option"

record 'json evidence_entry =
  ee_mtime :: nat
  ee_size :: nat
  ee_c :: "'json option"
  ee_v :: "'json option"

definition evidence_entries :: "string \<Rightarrow> file_evidence \<Rightarrow> (path, entry_ref) mapping" where
  "evidence_entries os evidence =
     (let encoded_ids = Mapping.map_values (\<lambda>_. to_hex)
            (Mapping.filter (\<lambda>path _. Mapping.lookup (stamps evidence) path \<noteq> None) (content_ids evidence))
      in Mapping.map_values (\<lambda>path stamp.
           \<lparr>ref_mtime = stamp_mtime stamp, ref_size = stamp_size stamp,
            ref_c = Mapping.lookup encoded_ids path,
            ref_v = Option.bind (evidence_version evidence path) (persisted os)\<rparr>) (stamps evidence))"

definition write_file_evidence ::
  "((path, entry_ref) mapping \<Rightarrow> byte list) \<Rightarrow> string \<Rightarrow> file_evidence \<Rightarrow> byte list"
where
  "write_file_evidence to_json os evidence = to_json (evidence_entries os evidence)"

record 'json json_reader =
  from_json :: "byte list \<Rightarrow> (path, 'json evidence_entry) mapping result"
  as_str :: "'json \<Rightarrow> byte list option"
  from_value :: "'json \<Rightarrow> persisted_version option"

definition read_entry :: "'json json_reader \<Rightarrow> string \<Rightarrow> path \<Rightarrow> 'json evidence_entry \<Rightarrow> file_evidence \<Rightarrow> file_evidence" where
  "read_entry J os path entry evidence =
     (let content = Option.bind (Option.bind (ee_c entry) (as_str J)) from_hex;
          stamp = \<lparr>stamp_mtime = ee_mtime entry, stamp_size = ee_size entry\<rparr>;
          ver = Option.bind (Option.bind (ee_v entry) (from_value J)) (\<lambda>v. persisted_decode os v stamp)
      in insert_verified path stamp content ver evidence)"

definition read_file_evidence ::
  "'json json_reader \<Rightarrow> (path set \<Rightarrow> path list) \<Rightarrow> string \<Rightarrow> byte list option \<Rightarrow> file_evidence result"
where
  "read_file_evidence J piter os data =
     (case data of
        None \<Rightarrow> Inr evidence_default
      | Some json \<Rightarrow>
          rbind (from_json J json) (\<lambda>entries.
            Inr (fold (\<lambda>path. read_entry J os path (the (Mapping.lookup entries path)))
              (piter (Mapping.keys entries)) evidence_default)))"

section \<open>Consistent evidence\<close>

text \<open>
  A version is trusted and belongs to the stamp of its path, and only a path with a stamp has a
  content identifier.
\<close>

definition evidence_ok :: "file_evidence \<Rightarrow> bool" where
  "evidence_ok e \<longleftrightarrow>
     (\<forall>p v. Mapping.lookup (versions e) p = Some v \<longrightarrow> is_trusted v \<and> Mapping.lookup (stamps e) p = Some (fv_stamp v)) \<and>
     (\<forall>p. Mapping.lookup (content_ids e) p \<noteq> None \<longrightarrow> Mapping.lookup (stamps e) p \<noteq> None)"

lemma lookup_insert_verified:
  "Mapping.lookup (stamps (insert_verified p st c v e)) q = (if q = p then Some st else Mapping.lookup (stamps e) q)"
  "Mapping.lookup (content_ids (insert_verified p st c v e)) q = (if q = p then c else Mapping.lookup (content_ids e) q)"
  "Mapping.lookup (versions (insert_verified p st c v e)) q =
     (if q = p then Option.bind v (\<lambda>v. if is_trusted v \<and> fv_stamp v = st then Some v else None)
      else Mapping.lookup (versions e) q)"
  by (auto simp: insert_verified_def Let_def lookup_update' lookup_delete_if split: option.split)

lemma evidence_ok_insert: "evidence_ok e \<Longrightarrow> evidence_ok (insert_verified p st c v e)"
  by (auto simp: evidence_ok_def lookup_insert_verified bind_eq_Some_conv split: if_splits)

lemma evidence_ok_default [simp]: "evidence_ok evidence_default" "evidence_ok (from_stamps st)" "evidence_ok (evidence_clear e)"
  by (simp_all add: evidence_ok_def evidence_default_def from_stamps_def evidence_clear_def)

lemma evidence_ok_remove: "evidence_ok e \<Longrightarrow> evidence_ok (fst (evidence_remove p e))"
  by (auto simp: evidence_ok_def evidence_remove_def lookup_delete_if split: if_splits)

lemma evidence_ok_retain: "evidence_ok e \<Longrightarrow> evidence_ok (evidence_retain keep e)"
  by (auto simp: evidence_ok_def evidence_retain_def Let_def lookup_filter split: option.splits if_splits)

lemma evidence_ok_read:
  assumes "read_file_evidence J piter os data = Inr e"
  shows "evidence_ok e"
proof -
  have "evidence_ok (fold (\<lambda>path. read_entry J os path (f path)) ps e0)" if "evidence_ok e0" for f ps e0
    using that by (induction ps arbitrary: e0) (simp_all add: read_entry_def Let_def evidence_ok_insert)
  then show ?thesis using assms by (auto simp: read_file_evidence_def split: option.splits)
qed

text \<open>The evidence a program can hold: read from a file, made of stamps, or changed by the operations.\<close>

inductive evidence_built :: "'json json_reader \<Rightarrow> file_evidence \<Rightarrow> bool" for J :: "'json json_reader" where
  built_default: "evidence_built J evidence_default"
| built_stamps: "evidence_built J (from_stamps st)"
| built_read: "read_file_evidence J piter os data = Inr e \<Longrightarrow> evidence_built J e"
| built_insert: "evidence_built J e \<Longrightarrow> evidence_built J (evidence_insert p st c e)"
| built_verified: "evidence_built J e \<Longrightarrow> evidence_built J (insert_verified p st c v e)"
| built_remove: "evidence_built J e \<Longrightarrow> evidence_built J (fst (evidence_remove p e))"
| built_clear: "evidence_built J e \<Longrightarrow> evidence_built J (evidence_clear e)"
| built_retain: "evidence_built J e \<Longrightarrow> evidence_built J (evidence_retain keep e)"

lemma evidence_built_ok: "evidence_built J e \<Longrightarrow> evidence_ok e"
  by (induction rule: evidence_built.induct)
    (simp_all add: evidence_ok_insert evidence_insert_def evidence_ok_remove evidence_ok_retain evidence_ok_read)

section \<open>Round trips\<close>

lemma version_time_round_trip: "time_ok t \<Longrightarrow> version_time_decode (version_time_of t) = Some t"
proof -
  assume "time_ok t"
  moreover have "nat (u mod NANOS) < 1000000000" for u by (simp add: NANOS_def nat_less_iff)
  moreover have "- (- t div 1000000000 * 1000000000) - - t mod 1000000000 = t"
    using div_mult_mod_eq [of "- t" 1000000000] by linarith
  ultimately show ?thesis
    by (auto simp: version_time_decode_def version_time_of_def Let_def not_le NANOS_def pos_imp_zdiv_nonneg_iff)
qed

text \<open>A version whose stamp has the seconds of its modification time, as every version of a stat has.\<close>

definition version_consistent :: "file_version \<Rightarrow> bool" where
  "version_consistent v \<longleftrightarrow>
     (\<forall>t. fv_modified v = Some t \<longrightarrow> time_ok t \<and>
        stamp_mtime (fv_stamp v) = (case seconds_since_epoch t of Some s \<Rightarrow> s | None \<Rightarrow> 0)) \<and>
     (\<forall>t. fv_created v = Some t \<longrightarrow> time_ok t)"

lemma version_consistent_of:
  "\<forall>t. md_modified m = Some t \<or> md_created m = Some t \<longrightarrow> time_ok t \<Longrightarrow> version_consistent (file_version_of m)"
  by (simp add: version_consistent_def file_version_of_def file_stamp_of_def)

lemma version_round_trip:
  assumes "version_consistent v" "persisted os v = Some pv"
  shows "persisted_decode os pv (fv_stamp v) = Some v"
proof -
  obtain t where t: "fv_modified v = Some t" "is_trusted v"
    and pv: "pv = \<lparr>pv_schema = 1, pv_platform = os, pv_size = stamp_size (fv_stamp v),
        pv_modified = version_time_of t, pv_created = map_option version_time_of (fv_created v),
        pv_unix = Some \<lparr>uv_device = fv_device v, uv_inode = fv_inode v,
          uv_change_seconds = fv_change_seconds v, uv_change_nanos = fv_change_nanos v\<rparr>\<rparr>"
    using assms(2) by (auto simp: persisted_def bind_eq_Some_conv split: if_splits)
  have created: "decode_created (map_option version_time_of (fv_created v)) = Some (fv_created v)"
    using assms(1) by (auto simp: decode_created_def version_consistent_def version_time_round_trip split: option.split)
  have same: "\<lparr>fv_stamp = fv_stamp v, fv_modified = Some t, fv_created = fv_created v,
      fv_device = fv_device v, fv_inode = fv_inode v, fv_change_seconds = fv_change_seconds v,
      fv_change_nanos = fv_change_nanos v\<rparr> = v"
    using t(1) by simp
  have mod: "version_time_decode (version_time_of t) = Some t"
    "stamp_mtime (fv_stamp v) = (case seconds_since_epoch t of Some s \<Rightarrow> s | None \<Rightarrow> 0)"
    using assms(1) t(1) by (auto simp: version_consistent_def version_time_round_trip)
  show ?thesis
    unfolding persisted_decode_def pv using t(2) by (simp add: mod created Let_def same)
qed

lemma hex_digit_HEX: "n < 16 \<Longrightarrow> hex_digit (HEX ! n) = Some (of_nat n)"
proof -
  have "\<forall>n\<in>set [0..<16]. hex_digit (HEX ! n) = Some (of_nat n)" by code_simp
  then show "n < 16 \<Longrightarrow> hex_digit (HEX ! n) = Some (of_nat n)" by simp
qed

lemma hex_pair: "push_bit 4 (drop_bit 4 b) OR (b AND 0xf) = (b :: byte)"
proof (rule bit_word_eqI)
  fix n
  have "bit (0xf :: byte) n \<longleftrightarrow> n < 4"
    using bit_mask_iff [of 4 n, where ?'a = byte] by (auto simp: mask_eq_exp_minus_1)
  then show "bit (push_bit 4 (drop_bit 4 b) OR (b AND 0xf)) n = bit b n"
    by (cases "n < 8") (auto simp: bit_simps dest: bit_imp_le_length)
qed

lemma hex_bytes_to_hex: "hex_bytes (to_hex c) = Some c"
proof (induction c)
  case (Cons b c)
  have n: "unat (drop_bit 4 b) < 16" "unat (b AND 0xf) < 16"
    using word_and_le1 [of b "0xf"] unsigned_less [where w = b and ?'a = nat]
    by (simp_all add: word_le_nat_alt unat_drop_bit_eq drop_bit_eq_div unat_div)
  have "to_hex (b # c) = HEX ! unat (drop_bit 4 b) # HEX ! unat (b AND 0xf) # to_hex c" by (simp add: to_hex_def)
  then show ?case using Cons hex_digit_HEX [OF n(1)] hex_digit_HEX [OF n(2)] by (simp add: hex_pair)
qed (simp add: to_hex_def)

lemma hex_round_trip: "length c = 16 \<Longrightarrow> from_hex (to_hex c) = Some c"
  by (simp add: from_hex_def hex_bytes_to_hex) (simp add: to_hex_def length_concat comp_def sum_list_triv)

section \<open>Properties\<close>

text \<open>C7. Whatever \<^verbatim>\<open>filestamps.json\<close> holds and whatever operations follow, the evidence a program
  holds is consistent: every version is trusted and carries the stamp of its path, so that the
  lookup of a version is the table itself, and no content identifier outlives its stamp.\<close>

theorem evidence_stays_consistent:
  assumes "evidence_built J e"
  shows "evidence_version e p = Mapping.lookup (versions e) p \<and>
    (\<forall>v. Mapping.lookup (versions e) p = Some v \<longrightarrow> is_trusted v \<and> evidence_stamp e p = Some (fv_stamp v)) \<and>
    (evidence_stamp e p = None \<longrightarrow> evidence_content_id e p = None)"
proof -
  have ok: "evidence_ok e" using assms by (rule evidence_built_ok)
  then have v: "is_trusted v \<and> Mapping.lookup (stamps e) p = Some (fv_stamp v)"
    if "Mapping.lookup (versions e) p = Some v" for v
    using that by (simp add: evidence_ok_def)
  have "evidence_content_id e p = None" if "evidence_stamp e p = None"
    using ok that by (auto simp: evidence_ok_def evidence_stamp_def evidence_content_id_def)
  with v show ?thesis by (auto simp: evidence_version_def evidence_stamp_def split: option.split)
qed

definition demo_version :: file_version where
  "demo_version = file_version_of
     \<lparr>md_modified = Some (- 1), md_created = None, md_len = 5, md_device = 1, md_inode = 2,
      md_change_seconds = 7, md_change_nanos = 8\<rparr>"

lemma demo_version_ok: "is_trusted demo_version" "version_consistent demo_version"
  "fv_stamp demo_version = \<lparr>stamp_mtime = 0, stamp_size = 5\<rparr>"
proof -
  show "is_trusted demo_version" by (simp add: is_trusted_def demo_version_def file_version_of_def)
  show "version_consistent demo_version"
    unfolding demo_version_def by (rule version_consistent_of) (simp add: time_ok_def NANOS_def)
  show "fv_stamp demo_version = \<lparr>stamp_mtime = 0, stamp_size = 5\<rparr>"
    by (simp add: demo_version_def file_version_of_def file_stamp_of_def seconds_since_epoch_def)
qed

theorem evidence_stays_consistent_witness:
  "evidence_version (evidence_insert [0x61] \<lparr>stamp_mtime = 1, stamp_size = 5\<rparr> None
     (insert_verified [0x61] (fv_stamp demo_version) None (Some demo_version) evidence_default)) [0x61] = None"
proof -
  let ?e = "evidence_insert [0x61] \<lparr>stamp_mtime = 1, stamp_size = 5\<rparr> None
     (insert_verified [0x61] (fv_stamp demo_version) None (Some demo_version) evidence_default)"
  have "evidence_built undefined ?e" by (intro built_insert built_verified built_default)
  from conjunct1 [OF evidence_stays_consistent [OF this, of "[0x61]"]] show ?thesis
    by (simp add: evidence_insert_def lookup_insert_verified)
qed

text \<open>The JSON library gives back a table that it wrote: the numbers, the strings and the versions.\<close>

definition json_faithful ::
  "((path, entry_ref) mapping \<Rightarrow> byte list) \<Rightarrow> 'json json_reader \<Rightarrow> (path, entry_ref) mapping \<Rightarrow> bool"
where
  "json_faithful to_json J es \<longleftrightarrow>
     (\<exists>str val. (\<forall>s. as_str J (str s) = Some s) \<and> (\<forall>v. from_value J (val v) = Some v) \<and>
       from_json J (to_json es) =
         Inr (Mapping.map_values (\<lambda>_ r. \<lparr>ee_mtime = ref_mtime r, ee_size = ref_size r,
                ee_c = map_option str (ref_c r), ee_v = map_option val (ref_v r)\<rparr>) es))"

lemma read_written_entries:
  assumes "distinct ps"
  shows "Mapping.lookup (stamps (fold (\<lambda>p. insert_verified p (st p) (c p) (v p)) ps e)) q =
      (if q \<in> set ps then Some (st q) else Mapping.lookup (stamps e) q)"
    "Mapping.lookup (content_ids (fold (\<lambda>p. insert_verified p (st p) (c p) (v p)) ps e)) q =
      (if q \<in> set ps then c q else Mapping.lookup (content_ids e) q)"
    "Mapping.lookup (versions (fold (\<lambda>p. insert_verified p (st p) (c p) (v p)) ps e)) q =
      (if q \<in> set ps then Option.bind (v q) (\<lambda>w. if is_trusted w \<and> fv_stamp w = st q then Some w else None)
       else Mapping.lookup (versions e) q)"
  using assms by (induction ps arbitrary: e) (auto simp: lookup_insert_verified)

text \<open>C8. Writing the evidence and reading it back gives the same stamps, content identifiers and
  versions, for consistent evidence whose versions come from a stat, in whatever order the
  tables are walked.\<close>

theorem evidence_round_trip:
  assumes json: "json_faithful to_json J (evidence_entries os e)" and iter: "path_iteration piter"
    and ok: "evidence_built J' e" "finite (Mapping.keys (stamps e))"
    and ids: "\<forall>p c. Mapping.lookup (content_ids e) p = Some c \<longrightarrow> length c = 16"
    and vers: "\<forall>p v. Mapping.lookup (versions e) p = Some v \<longrightarrow> version_consistent v"
  shows "read_file_evidence J piter os (Some (write_file_evidence to_json os e)) = Inr e"
proof -
  have ev: "evidence_ok e" using ok(1) by (rule evidence_built_ok)
  obtain str val where j: "\<And>s. as_str J (str s) = Some s" "\<And>v. from_value J (val v) = Some v"
    "from_json J (to_json (evidence_entries os e)) = Inr (Mapping.map_values (\<lambda>_ r. \<lparr>ee_mtime = ref_mtime r,
        ee_size = ref_size r, ee_c = map_option str (ref_c r), ee_v = map_option val (ref_v r)\<rparr>) (evidence_entries os e))"
    using json unfolding json_faithful_def by blast
  let ?es = "Mapping.map_values (\<lambda>_ r. \<lparr>ee_mtime = ref_mtime r, ee_size = ref_size r,
      ee_c = map_option str (ref_c r), ee_v = map_option val (ref_v r)\<rparr>) (evidence_entries os e)"
  define ps where "ps = piter (Mapping.keys (stamps e))"
  let ?st = "\<lambda>p. the (Mapping.lookup (stamps e) p)"
  have keys: "Mapping.keys (evidence_entries os e) = Mapping.keys (stamps e)" by (simp add: evidence_entries_def Let_def)
  have "set ps = Mapping.keys (stamps e)" and dist: "distinct ps"
    using iter ok(2) by (simp_all add: path_iteration_def ps_def)
  then have mem: "p \<in> set ps \<longleftrightarrow> Mapping.lookup (stamps e) p \<noteq> None" for p by (auto simp: keys_dom_lookup)
  have entry: "read_entry J os p (the (Mapping.lookup ?es p)) =
      insert_verified p (?st p) (Mapping.lookup (content_ids e) p) (evidence_version e p)"
    if p: "p \<in> set ps" for p
  proof -
    obtain st where st: "Mapping.lookup (stamps e) p = Some st" using p by (auto simp: mem)
    have content: "Option.bind (Option.bind (map_option str (map_option to_hex (Mapping.lookup (content_ids e) p))) (as_str J)) from_hex
        = Mapping.lookup (content_ids e) p"
      using ids by (cases "Mapping.lookup (content_ids e) p") (simp_all add: j hex_round_trip)
    have ver: "Option.bind (Option.bind (map_option val (Option.bind (evidence_version e p) (persisted os))) (from_value J))
        (\<lambda>v. persisted_decode os v st) = evidence_version e p"
    proof (cases "evidence_version e p")
      case (Some v)
      then have v: "is_trusted v" "fv_stamp v = st" "version_consistent v"
        using vers st by (auto simp: evidence_version_def evidence_stamp_def split: option.splits if_splits)
      then obtain pv where pv: "persisted os v = Some pv"
        by (auto simp: persisted_def is_trusted_def split: if_splits)
      show ?thesis using version_round_trip [OF v(3) pv] by (simp add: Some pv j v(2))
    qed simp
    have same: "(\<lparr>stamp_mtime = stamp_mtime st, stamp_size = stamp_size st\<rparr> :: file_stamp) = st" by simp
    have fields: "the (Mapping.lookup ?es p) = \<lparr>ee_mtime = stamp_mtime st, ee_size = stamp_size st,
        ee_c = map_option str (map_option to_hex (Mapping.lookup (content_ids e) p)),
        ee_v = map_option val (Option.bind (evidence_version e p) (persisted os))\<rparr>"
      by (cases "Mapping.lookup (content_ids e) p")
        (simp_all add: evidence_entries_def Let_def lookup_map_values lookup_filter st)
    show ?thesis
      unfolding read_entry_def fields Let_def evidence_entry.simps content same ver st option.sel by (rule refl)
  qed
  have "fold (\<lambda>p. read_entry J os p (the (Mapping.lookup ?es p))) ps evidence_default =
      fold (\<lambda>p. insert_verified p (?st p) (Mapping.lookup (content_ids e) p) (evidence_version e p)) ps evidence_default"
    (is "_ = ?read")
    by (rule fold_cong) (simp_all add: entry)
  moreover have "?read = e"
  proof -
    note l = read_written_entries [OF dist, of ?st "Mapping.lookup (content_ids e)" "evidence_version e" evidence_default]
    have none: "Mapping.lookup (stamps evidence_default) q = None" "Mapping.lookup (content_ids evidence_default) q = None"
      "Mapping.lookup (versions evidence_default) q = None" for q by (simp_all add: evidence_default_def)
    have "stamps ?read = stamps e"
      by (rule mapping_eqI) (auto simp: l mem none)
    moreover have "content_ids ?read = content_ids e"
    proof (rule mapping_eqI)
      fix q
      show "Mapping.lookup (content_ids ?read) q = Mapping.lookup (content_ids e) q"
        using ev by (cases "Mapping.lookup (content_ids e) q") (auto simp: l mem none evidence_ok_def)
    qed
    moreover have "versions ?read = versions e"
    proof (rule mapping_eqI)
      fix q
      have "evidence_version e q = Mapping.lookup (versions e) q"
        using ev by (auto simp: evidence_version_def evidence_stamp_def evidence_ok_def split: option.split)
      then show "Mapping.lookup (versions ?read) q = Mapping.lookup (versions e) q"
        using ev by (cases "Mapping.lookup (versions e) q") (auto simp: l mem none evidence_ok_def)
    qed
    ultimately show ?thesis by simp
  qed
  ultimately show ?thesis
    by (simp add: read_file_evidence_def write_file_evidence_def j(3) keys ps_def)
qed

definition demo_evidence :: file_evidence where
  "demo_evidence = insert_verified [0x61] (fv_stamp demo_version) (Some (replicate 16 0xAB)) (Some demo_version) evidence_default"

definition demo_json_reader :: "(byte list + persisted_version) json_reader" where
  "demo_json_reader =
     \<lparr>from_json = \<lambda>_. Inr (Mapping.map_values (\<lambda>_ r. \<lparr>ee_mtime = ref_mtime r, ee_size = ref_size r,
         ee_c = map_option Inl (ref_c r), ee_v = map_option Inr (ref_v r)\<rparr>) (evidence_entries ''linux'' demo_evidence)),
      as_str = (\<lambda>j. case j of Inl s \<Rightarrow> Some s | Inr _ \<Rightarrow> None),
      from_value = (\<lambda>j. case j of Inl _ \<Rightarrow> None | Inr v \<Rightarrow> Some v)\<rparr>"

theorem evidence_round_trip_witness:
  "read_file_evidence demo_json_reader sorted_list_of_set ''linux''
     (Some (write_file_evidence (\<lambda>_. []) ''linux'' demo_evidence)) = Inr demo_evidence"
proof (rule evidence_round_trip)
  show "json_faithful (\<lambda>_. []) demo_json_reader (evidence_entries ''linux'' demo_evidence)"
    unfolding json_faithful_def demo_json_reader_def by (intro exI [of _ Inl] exI [of _ Inr]) simp
  show "evidence_built demo_json_reader demo_evidence"
    unfolding demo_evidence_def by (intro built_verified built_default)
  have st: "Mapping.lookup (stamps demo_evidence) p = (if p = [0x61] then Some (fv_stamp demo_version) else None)"
    and ct: "Mapping.lookup (content_ids demo_evidence) p = (if p = [0x61] then Some (replicate 16 0xAB) else None)"
    and vt: "Mapping.lookup (versions demo_evidence) p = (if p = [0x61] then Some demo_version else None)" for p
    using demo_version_ok(1) unfolding demo_evidence_def lookup_insert_verified by (simp_all add: evidence_default_def)
  have "Mapping.keys (stamps demo_evidence) = {[0x61]}" by (auto simp: keys_dom_lookup st split: if_splits)
  then show "finite (Mapping.keys (stamps demo_evidence))" by simp
  show "\<forall>p c. Mapping.lookup (content_ids demo_evidence) p = Some c \<longrightarrow> length c = 16" by (auto simp: ct)
  show "\<forall>p v. Mapping.lookup (versions demo_evidence) p = Some v \<longrightarrow> version_consistent v"
    using demo_version_ok(2) by (auto simp: vt)
qed simp

end
