(* ===== verification/Batches.thy ===== *)
theory Batches
  imports Prelude Trigram
begin

text \<open>
  What the index builder does before it reads a file (\<^verbatim>\<open>tgrep-core/src/builder.rs\<close>):
  the check of the disk space and the division of the files into batches.  Sums of bytes are
  \<^verbatim>\<open>u64\<close>: checked sums give an error on overflow, saturating ones stay at the largest
  value.  The free space and the sizes of the files are arguments.
\<close>

section \<open>Disk space\<close>

definition BUILD_DISK_HEADROOM_BYTES :: nat where
  "BUILD_DISK_HEADROOM_BYTES = 64 * 1024 * 1024"

definition BUILD_DISK_BYTES_PER_PATH :: nat where
  "BUILD_DISK_BYTES_PER_PATH = 1024"

definition u64_checked :: "nat \<Rightarrow> nat option" where
  "u64_checked n = (if n < 2 ^ 64 then Some n else None)"

definition disk_preflight_error :: "string \<Rightarrow> error" where
  "disk_preflight_error message = Io message"

definition checked_disk_bytes :: "nat option \<Rightarrow> nat result" where
  "checked_disk_bytes bytes =
     (case bytes of
        Some n \<Rightarrow> Inr n
      | None \<Rightarrow> Inl (disk_preflight_error ''index build disk-space estimate exceeds u64 bytes''))"

text \<open>The free space is a failed probe or a number of bytes.\<close>

definition check_disk_space :: "(error + nat) \<Rightarrow> nat \<Rightarrow> nat \<Rightarrow> unit result" where
  "check_disk_space available_disk_bytes payload_bytes paths =
     rbind (checked_disk_bytes (u64_checked (paths * BUILD_DISK_BYTES_PER_PATH))) (\<lambda>path_bytes.
     rbind (checked_disk_bytes (Option.bind (u64_checked (payload_bytes + path_bytes)) (\<lambda>bytes.
         u64_checked (bytes + BUILD_DISK_HEADROOM_BYTES)))) (\<lambda>required.
     case available_disk_bytes of
       Inl e \<Rightarrow> Inl (disk_preflight_error ''cannot check available disk space'')
     | Inr available \<Rightarrow>
         if available < required then Inl (disk_preflight_error ''insufficient free disk space'')
         else Inr ()))"

datatype index_strategy = InMemory | External

fun sum_sizes :: "nat list \<Rightarrow> nat \<Rightarrow> nat result" where
  "sum_sizes [] acc = Inr acc"
| "sum_sizes (n # sizes) acc =
     rbind (checked_disk_bytes (u64_checked (acc + n))) (sum_sizes sizes)"

definition strategy_copies :: "index_strategy \<Rightarrow> nat" where
  "strategy_copies strategy = (case strategy of External \<Rightarrow> 3 | InMemory \<Rightarrow> 2)"

definition check_build_disk_space_for_sizes ::
  "(error + nat) \<Rightarrow> nat list \<Rightarrow> nat \<Rightarrow> index_strategy \<Rightarrow> unit result"
where
  "check_build_disk_space_for_sizes available sizes paths strategy =
     rbind (sum_sizes sizes 0) (\<lambda>source_bytes.
     rbind (checked_disk_bytes (u64_checked (source_bytes * strategy_copies strategy))) (\<lambda>payload.
       check_disk_space available payload paths))"

definition INDEX_BUILD_BATCH_BYTES :: nat where
  "INDEX_BUILD_BATCH_BYTES = 64 * 1024 * 1024"

text \<open>The metadata of a file is its size, when it can be read.\<close>

definition check_build_disk_space ::
  "(error + nat) \<Rightarrow> nat option list \<Rightarrow> index_strategy \<Rightarrow> unit result"
where
  "check_build_disk_space available metadata strategy =
     check_build_disk_space_for_sizes available
       (map (\<lambda>m. case m of Some n \<Rightarrow> n | None \<Rightarrow> INDEX_BUILD_BATCH_BYTES) metadata)
       (length metadata) strategy"

section \<open>Batches\<close>

definition INDEX_BUILD_BATCH_SIZE :: nat where "INDEX_BUILD_BATCH_SIZE = 1024"
definition MAPPED_BATCH_CHARGE :: nat where "MAPPED_BATCH_CHARGE = 2 * 1024 * 1024"
definition MAPPED_BATCH_BYTES :: nat where "MAPPED_BATCH_BYTES = 256 * 1024 * 1024"
definition MMAP_MIN_BYTES :: nat where "MMAP_MIN_BYTES = 1024 * 1024"

record batch_charge =
  charge_heap :: nat
  charge_mapped :: nat

definition batch_charge_of :: "nat \<Rightarrow> batch_charge" where
  "batch_charge_of n =
     (if n \<ge> MMAP_MIN_BYTES
      then \<lparr>charge_heap = min n MAPPED_BATCH_CHARGE, charge_mapped = n\<rparr>
      else \<lparr>charge_heap = n, charge_mapped = 0\<rparr>)"

definition UNKNOWN_SIZE_CHARGE :: batch_charge where
  "UNKNOWN_SIZE_CHARGE = \<lparr>charge_heap = INDEX_BUILD_BATCH_BYTES, charge_mapped = MAPPED_BATCH_BYTES\<rparr>"

definition saturating_add :: "nat \<Rightarrow> nat \<Rightarrow> nat" where
  "saturating_add a b = min (a + b) (2 ^ 64 - 1)"

definition batch_full :: "nat \<Rightarrow> nat \<Rightarrow> nat \<Rightarrow> nat \<Rightarrow> nat \<Rightarrow> batch_charge \<Rightarrow> bool" where
  "batch_full budget i start heap mapped charge =
     (i - start \<ge> INDEX_BUILD_BATCH_SIZE
      \<or> saturating_add heap (charge_heap charge) > budget
      \<or> saturating_add mapped (charge_mapped charge) > MAPPED_BATCH_BYTES)"

fun batch_loop ::
  "nat \<Rightarrow> batch_charge list \<Rightarrow> nat \<Rightarrow> (nat \<times> nat) list \<Rightarrow> nat \<Rightarrow> nat \<Rightarrow> nat \<Rightarrow> (nat \<times> nat) list \<times> nat"
where
  "batch_loop budget [] i ranges start heap mapped = (ranges, start)"
| "batch_loop budget (charge # charges) i ranges start heap mapped =
     (let full = batch_full budget i start heap mapped charge;
          (ranges, start, heap, mapped) =
            (if i > start \<and> full then (ranges @ [(start, i)], i, 0, 0) else (ranges, start, heap, mapped))
      in batch_loop budget charges (i + 1) ranges start
           (saturating_add heap (charge_heap charge)) (saturating_add mapped (charge_mapped charge)))"

definition batch_ranges :: "batch_charge list \<Rightarrow> nat \<Rightarrow> (nat \<times> nat) list" where
  "batch_ranges charges budget =
     (let (ranges, start) = batch_loop budget charges 0 [] 0 0 0
      in if start < length charges then ranges @ [(start, length charges)] else ranges)"

definition batch_sizes_and_charges :: "nat option list \<Rightarrow> nat list \<times> batch_charge list" where
  "batch_sizes_and_charges metadata =
     (map (\<lambda>m. case m of Some n \<Rightarrow> n | None \<Rightarrow> INDEX_BUILD_BATCH_BYTES) metadata,
      map (\<lambda>m. case m of Some n \<Rightarrow> batch_charge_of n | None \<Rightarrow> UNKNOWN_SIZE_CHARGE) metadata)"

text \<open>Directories that are never indexed, with ignore rules on.\<close>

definition index_exclude_dirs :: "string list \<Rightarrow> bool \<Rightarrow> string list" where
  "index_exclude_dirs exclude_dirs no_ignore =
     (if \<not> no_ignore \<and> ''.git'' \<notin> set exclude_dirs then exclude_dirs @ [''.git''] else exclude_dirs)"

section \<open>The division\<close>

definition heap_of :: "batch_charge list \<Rightarrow> nat \<Rightarrow> nat \<Rightarrow> nat" where
  "heap_of cs a b = (\<Sum>c\<leftarrow>take (b - a) (drop a cs). charge_heap c)"

definition mapped_of :: "batch_charge list \<Rightarrow> nat \<Rightarrow> nat \<Rightarrow> nat" where
  "mapped_of cs a b = (\<Sum>c\<leftarrow>take (b - a) (drop a cs). charge_mapped c)"

definition batch_ok :: "batch_charge list \<Rightarrow> nat \<Rightarrow> nat \<times> nat \<Rightarrow> bool" where
  "batch_ok cs budget r \<longleftrightarrow>
     fst r < snd r \<and> snd r - fst r \<le> INDEX_BUILD_BATCH_SIZE \<and>
     (snd r = fst r + 1 \<or> heap_of cs (fst r) (snd r) \<le> budget \<and> mapped_of cs (fst r) (snd r) \<le> MAPPED_BATCH_BYTES)"

definition covers :: "(nat \<times> nat) list \<Rightarrow> nat \<Rightarrow> bool" where
  "covers ranges n \<longleftrightarrow> concat (map (\<lambda>(a, b). [a..<b]) ranges) = [0..<n]"

lemma take_extend: "b < length cs \<Longrightarrow> a \<le> b \<Longrightarrow> take (Suc b - a) (drop a cs) = take (b - a) (drop a cs) @ [cs ! b]"
  by (simp add: Suc_diff_le take_Suc_conv_app_nth)

lemma heap_of_extend:
  "b < length cs \<Longrightarrow> a \<le> b \<Longrightarrow> heap_of cs a (Suc b) = heap_of cs a b + charge_heap (cs ! b)"
  "b < length cs \<Longrightarrow> a \<le> b \<Longrightarrow> mapped_of cs a (Suc b) = mapped_of cs a b + charge_mapped (cs ! b)"
  by (simp_all add: heap_of_def mapped_of_def take_extend del: take_append)

lemma saturating_min: "saturating_add (min x 18446744073709551615) y = min (x + y) 18446744073709551615"
  by (auto simp: saturating_add_def min_def)

lemma batch_loop_divides:
  assumes "budget < 2 ^ 64 - 1"
    and "cs = drop i charges" "i \<le> length charges" "start \<le> i" "start < i \<or> i = 0"
    and "covers ranges start" "\<forall>r\<in>set ranges. batch_ok charges budget r"
    and "start < i \<Longrightarrow> batch_ok charges budget (start, i)"
    and "heap = min (heap_of charges start i) (2 ^ 64 - 1)" "mapped = min (mapped_of charges start i) (2 ^ 64 - 1)"
    and "batch_loop budget cs i ranges start heap mapped = (ranges', start')"
  shows "covers ranges' start' \<and> (\<forall>r\<in>set ranges'. batch_ok charges budget r) \<and> start' \<le> length charges \<and>
    (start' < length charges \<longrightarrow> batch_ok charges budget (start', length charges))"
  using assms(2-)
proof (induction cs arbitrary: i ranges start heap mapped)
  case Nil
  then have "i = length charges" by simp
  with Nil show ?case by auto
next
  case (Cons c cs)
  have i: "i < length charges" "c = charges ! i" "cs = drop (Suc i) charges"
    using Cons.prems(1,2) by (metis drop_eq_Nil leI list.distinct(1), metis nth_via_drop, metis drop_Suc list.sel(3) tl_drop)
  let ?full = "batch_full budget i start heap mapped c"
  have single: "batch_ok charges budget (i, Suc i)" by (simp add: batch_ok_def INDEX_BUILD_BATCH_SIZE_def)
  have zero: "heap_of charges i i = 0" "mapped_of charges i i = 0" by (simp_all add: heap_of_def mapped_of_def)
  show ?case
  proof (cases "i > start \<and> ?full")
    case True
    show ?thesis
    proof (rule Cons.IH [of "Suc i" i "ranges @ [(start, i)]"])
      show "covers (ranges @ [(start, i)]) i"
        using Cons.prems(3,5) upt_add_eq_append [of 0 start "i - start"] by (simp add: covers_def)
      show "\<forall>r\<in>set (ranges @ [(start, i)]). batch_ok charges budget r" using Cons.prems(6,7) True by simp
      show "saturating_add 0 (charge_heap c) = min (heap_of charges i (Suc i)) (2 ^ 64 - 1)"
        "saturating_add 0 (charge_mapped c) = min (mapped_of charges i (Suc i)) (2 ^ 64 - 1)"
        using i by (simp_all add: saturating_add_def heap_of_extend zero)
      show "batch_loop budget cs (Suc i) (ranges @ [(start, i)]) i (saturating_add 0 (charge_heap c))
          (saturating_add 0 (charge_mapped c)) = (ranges', start')"
        using Cons.prems(10) True by (simp add: Let_def)
    qed (use i single in auto)
  next
    case False
    have sum: "saturating_add heap (charge_heap c) = min (heap_of charges start (Suc i)) (2 ^ 64 - 1)"
      "saturating_add mapped (charge_mapped c) = min (mapped_of charges start (Suc i)) (2 ^ 64 - 1)"
      using i Cons.prems(3,8,9) by (simp_all add: saturating_min heap_of_extend)
    have fits: "batch_ok charges budget (start, Suc i)"
    proof (cases "start < i")
      case True
      then have "\<not> ?full" using False by simp
      then have "i - start < INDEX_BUILD_BATCH_SIZE" "min (heap_of charges start (Suc i)) (2 ^ 64 - 1) \<le> budget"
        "min (mapped_of charges start (Suc i)) (2 ^ 64 - 1) \<le> MAPPED_BATCH_BYTES"
        by (auto simp: batch_full_def sum)
      then show ?thesis using assms(1) True by (simp add: batch_ok_def MAPPED_BATCH_BYTES_def Suc_diff_le min_def split: if_splits)
    next
      case False
      then have "start = i" using Cons.prems(3) by simp
      with single show ?thesis by simp
    qed
    show ?thesis
    proof (rule Cons.IH [of "Suc i" start ranges])
      show "batch_loop budget cs (Suc i) ranges start (saturating_add heap (charge_heap c))
          (saturating_add mapped (charge_mapped c)) = (ranges', start')"
        using Cons.prems(10) False by (auto simp: Let_def split: if_splits)
    qed (use i Cons.prems sum fits in auto)
  qed
qed

lemma batch_ranges_divide:
  assumes "budget < 2 ^ 64 - 1"
  shows "covers (batch_ranges charges budget) (length charges) \<and>
    (\<forall>r\<in>set (batch_ranges charges budget). batch_ok charges budget r)"
proof -
  obtain ranges start where l: "batch_loop budget charges 0 [] 0 0 0 = (ranges, start)" by force
  have zero: "heap_of charges 0 0 = 0" "mapped_of charges 0 0 = 0" by (simp_all add: heap_of_def mapped_of_def)
  have d: "covers ranges start" "\<forall>r\<in>set ranges. batch_ok charges budget r" "start \<le> length charges"
    "start < length charges \<Longrightarrow> batch_ok charges budget (start, length charges)"
    using batch_loop_divides [OF assms _ _ _ _ _ _ _ _ _ l, of charges] by (simp_all add: zero covers_def)
  show ?thesis
    using d upt_add_eq_append [of 0 start "length charges - start"]
    by (cases "start < length charges") (auto simp: batch_ranges_def l covers_def)
qed

text \<open>C38. The batches are the files, in order and each once; none is empty or longer than 1024 files,
  and a batch of more than one file stays within both budgets of bytes, for any budget below
  the largest 64-bit value, at which the saturating sum could no longer exceed it.\<close>

theorem batches_partition_the_files:
  assumes "budget < 2 ^ 64 - 1"
  shows "concat (map (\<lambda>(a, b). [a..<b]) (batch_ranges charges budget)) = [0..<length charges] \<and>
    (\<forall>(a, b)\<in>set (batch_ranges charges budget).
       a < b \<and> b - a \<le> INDEX_BUILD_BATCH_SIZE \<and>
       (b = a + 1 \<or>
         (\<Sum>c\<leftarrow>take (b - a) (drop a charges). charge_heap c) \<le> budget \<and>
         (\<Sum>c\<leftarrow>take (b - a) (drop a charges). charge_mapped c) \<le> MAPPED_BATCH_BYTES))"
  using batch_ranges_divide [OF assms, of charges]
  by (auto simp: covers_def batch_ok_def heap_of_def mapped_of_def)

theorem batches_partition_the_files_witness:
  "concat (map (\<lambda>(a, b). [a..<b]) (batch_ranges [\<lparr>charge_heap = 5, charge_mapped = 0\<rparr>, \<lparr>charge_heap = 9, charge_mapped = 0\<rparr>] 8)) = [0, 1]"
proof -
  let ?cs = "[\<lparr>charge_heap = 5, charge_mapped = 0\<rparr>, \<lparr>charge_heap = 9, charge_mapped = 0\<rparr>]"
  have "(8 :: nat) < 2 ^ 64 - 1" by simp
  from conjunct1 [OF batches_partition_the_files [OF this, of ?cs]]
  have "concat (map (\<lambda>(a, b). [a..<b]) (batch_ranges ?cs 8)) = [0..<length ?cs]" .
  also have "[0..<length ?cs] = [0, 1]" by (simp add: upt_rec)
  finally show ?thesis .
qed

lemma checked_iff: "checked_disk_bytes (u64_checked n) = Inr m \<longleftrightarrow> m = n \<and> n < 2 ^ 64"
  by (auto simp: checked_disk_bytes_def u64_checked_def)

lemma checked_two_iff:
  "checked_disk_bytes (Option.bind (u64_checked a) (\<lambda>x. u64_checked (x + b))) = Inr m \<longleftrightarrow> m = a + b \<and> a + b < 2 ^ 64"
  by (auto simp: checked_disk_bytes_def u64_checked_def)

lemma sum_sizes_eq: "sum_sizes sizes acc = Inr n \<longleftrightarrow> n = acc + sum_list sizes \<and> (sizes = [] \<or> n < 2 ^ 64)"
proof (induction sizes arbitrary: acc)
  case (Cons a sizes)
  have "sum_sizes (a # sizes) acc = Inr n \<longleftrightarrow> acc + a < 2 ^ 64 \<and> sum_sizes sizes (acc + a) = Inr n"
    by (simp only: sum_sizes.simps rbind_eq_Inr checked_iff) blast
  also have "\<dots> \<longleftrightarrow> n = acc + sum_list (a # sizes) \<and> n < 2 ^ 64"
    unfolding Cons.IH sum_list.Cons add.assoc by (cases "sizes = []") (auto intro: le_less_trans [rotated])
  finally show ?case by simp
qed (simp add: eq_commute)

lemma check_disk_space_iff:
  "check_disk_space available payload paths = Inr () \<longleftrightarrow>
     payload + paths * BUILD_DISK_BYTES_PER_PATH + BUILD_DISK_HEADROOM_BYTES < 2 ^ 64 \<and>
     (\<exists>free. available = Inr free \<and> payload + paths * BUILD_DISK_BYTES_PER_PATH + BUILD_DISK_HEADROOM_BYTES \<le> free)"
  unfolding check_disk_space_def rbind_eq_Inr checked_iff checked_two_iff
  by (cases available) auto

text \<open>The check before a build passes exactly when the free space is known and covers three copies of
  the sources (two when sorting in memory), a kilobyte for each path and the headroom, and none of the sums
  leaves the 64 bits.\<close>

theorem disk_check_exact:
  "check_build_disk_space_for_sizes available sizes paths strategy = Inr () \<longleftrightarrow>
     (let required = sum_list sizes * strategy_copies strategy + paths * BUILD_DISK_BYTES_PER_PATH
            + BUILD_DISK_HEADROOM_BYTES
      in required < 2 ^ 64 \<and> (\<exists>free. available = Inr free \<and> required \<le> free))"
proof -
  have "strategy_copies strategy \<noteq> 0" by (simp add: strategy_copies_def split: index_strategy.split)
  then have "sum_list sizes \<le> sum_list sizes * strategy_copies strategy" by simp
  then have "sizes = [] \<or> sum_list sizes < 2 ^ 64" if "sum_list sizes * strategy_copies strategy < 2 ^ 64"
    using that by linarith
  then have "check_build_disk_space_for_sizes available sizes paths strategy = Inr () \<longleftrightarrow>
      sum_list sizes * strategy_copies strategy < 2 ^ 64 \<and>
      check_disk_space available (sum_list sizes * strategy_copies strategy) paths = Inr ()"
    unfolding check_build_disk_space_for_sizes_def rbind_eq_Inr checked_iff sum_sizes_eq by auto
  then show ?thesis by (auto simp: check_disk_space_iff Let_def)
qed

end
