(* ===== verification/Read_Budget.thy ===== *)
theory Read_Budget
  imports Evidence Batches
begin

text \<open>
  Reading a file for indexing (\<^verbatim>\<open>tgrep-core/src/builder.rs\<close>): large files are mapped, the
  others are read under a budget of bytes that the workers of a batch share.  What an open of the
  file sees is an argument, one observation for each open, because the file may change between
  them.  A read is the outcome and the sequence of claims on the budget; the workers are a
  transition relation over the claims that are left to each.
\<close>

section \<open>The shared budget\<close>

text \<open>
  \<^verbatim>\<open>OwnedReadBudget::acquire\<close> claims bytes, waiting until they are available; dropping the
  permit gives them back.
\<close>

datatype budget_op = Acquire nat | Release

record read_worker =
  permit :: "nat option"
  todo :: "budget_op list"

record read_budget =
  budget_capacity :: nat
  available :: nat
  workers :: "read_worker list"

definition budget_new :: "nat \<Rightarrow> budget_op list list \<Rightarrow> read_budget" where
  "budget_new bytes programs =
     \<lparr>budget_capacity = bytes, available = bytes, workers = map (\<lambda>p. \<lparr>permit = None, todo = p\<rparr>) programs\<rparr>"

inductive budget_step :: "read_budget \<Rightarrow> read_budget \<Rightarrow> bool" where
  acquire: "i < length (workers B) \<Longrightarrow> workers B ! i = \<lparr>permit = None, todo = Acquire n # ops\<rparr> \<Longrightarrow>
    charged = min n (budget_capacity B) \<Longrightarrow> \<not> available B < charged \<Longrightarrow>
    budget_step B (B\<lparr>available := available B - charged,
      workers := (workers B)[i := \<lparr>permit = Some charged, todo = ops\<rparr>]\<rparr>)"
| release: "i < length (workers B) \<Longrightarrow> workers B ! i = \<lparr>permit = Some n, todo = Release # ops\<rparr> \<Longrightarrow>
    budget_step B (B\<lparr>available := available B + n, workers := (workers B)[i := \<lparr>permit = None, todo = ops\<rparr>]\<rparr>)"

section \<open>Reading a file\<close>

datatype io_kind = InvalidData | WouldBlock | OtherKind

text \<open>What one open of the file sees: its metadata, a mapping, its bytes, and its metadata at the end.\<close>

record file_handle =
  fh_version :: "file_version option"
  fh_map :: "io_kind + byte list"
  fh_bytes :: "io_kind + byte list"
  fh_after :: "file_version option"

datatype file_bytes = Read "byte list" | Mapped "byte list"

fun bytes_of :: "file_bytes \<Rightarrow> byte list" where
  "bytes_of (Read bs) = bs"
| "bytes_of (Mapped bs) = bs"

record index_read =
  ir_bytes :: file_bytes
  ir_version :: "file_version option"
  ir_after :: "file_version option"

definition open_read ::
  "(io_kind + file_handle) \<Rightarrow> (file_handle \<Rightarrow> io_kind + file_bytes) \<Rightarrow> io_kind + index_read"
where
  "open_read opened read =
     rbind opened (\<lambda>file. rbind (read file) (\<lambda>bytes.
       Inr \<lparr>ir_bytes = bytes, ir_version = fh_version file, ir_after = fh_after file\<rparr>))"

definition verified_version :: "index_read \<Rightarrow> file_version option" where
  "verified_version self =
     (case ir_version self of
        None \<Rightarrow> None
      | Some v \<Rightarrow>
          if \<not> is_trusted v then None
          else if length (bytes_of (ir_bytes self)) = stamp_size (fv_stamp v) \<and> ir_after self = Some v then Some v
          else None)"

definition read_owned_for_index :: "nat \<Rightarrow> nat \<Rightarrow> file_handle \<Rightarrow> io_kind + file_bytes" where
  "read_owned_for_index len owned_limit file =
     (if len > owned_limit then Inl InvalidData
      else rbind (fh_bytes file) (\<lambda>content.
             let bytes = take len content; extra = take 1 (drop len content)
             in if extra \<noteq> [] then Inl WouldBlock else Inr (Read bytes)))"

definition read_owned_unbounded :: "file_handle \<Rightarrow> io_kind + file_bytes" where
  "read_owned_unbounded file = rbind (fh_bytes file) (\<lambda>content. Inr (Read content))"

definition U64_MAX :: nat where
  "U64_MAX = 2 ^ 64 - 1"

text \<open>The owned read, with the retry after the file grew; a claim is given back before the next.\<close>

definition read_owned ::
  "(nat \<Rightarrow> io_kind + file_handle) \<Rightarrow> nat \<Rightarrow> nat \<Rightarrow> nat option \<Rightarrow> (io_kind + index_read) \<times> budget_op list"
where
  "read_owned opens k len configured_limit =
     (let owned_limit = (case configured_limit of Some l \<Rightarrow> l | None \<Rightarrow> U64_MAX)
      in case open_read (opens k) (read_owned_for_index len owned_limit) of
           Inr data \<Rightarrow> (Inr data, [Acquire len, Release])
         | Inl WouldBlock \<Rightarrow>
             (case configured_limit of
                Some limit \<Rightarrow>
                  (case open_read (opens (k + 1)) (read_owned_for_index limit limit) of
                     Inl WouldBlock \<Rightarrow> Inl InvalidData
                   | r \<Rightarrow> r, [Acquire len, Release, Acquire limit, Release])
              | None \<Rightarrow>
                  (open_read (opens (k + 1)) read_owned_unbounded, [Acquire len, Release, Acquire U64_MAX, Release]))
         | Inl e \<Rightarrow> (Inl e, [Acquire len, Release]))"

definition read_for_index ::
  "(nat \<Rightarrow> io_kind + file_handle) \<Rightarrow> nat \<Rightarrow> nat option \<Rightarrow> (io_kind + index_read) \<times> budget_op list"
where
  "read_for_index opens len configured_limit =
     (let owned_limit = (case configured_limit of Some l \<Rightarrow> l | None \<Rightarrow> U64_MAX)
      in if len > owned_limit then (Inl InvalidData, [])
         else if len \<ge> MMAP_MIN_BYTES then
           (case open_read (opens 0) (\<lambda>file. map_sum id Mapped (fh_map file)) of
              Inr data \<Rightarrow>
                if length (bytes_of (ir_bytes data)) \<le> owned_limit then (Inr data, [])
                else read_owned opens 1 len configured_limit
            | Inl e \<Rightarrow> read_owned opens 1 len configured_limit)
         else read_owned opens 0 len configured_limit)"

section \<open>A reader holds one claim at a time\<close>

fun alternating :: "bool \<Rightarrow> budget_op list \<Rightarrow> bool" where
  "alternating held [] \<longleftrightarrow> \<not> held"
| "alternating held (Acquire n # ops) \<longleftrightarrow> \<not> held \<and> alternating True ops"
| "alternating held (Release # ops) \<longleftrightarrow> held \<and> alternating False ops"

lemma alternating_head:
  "alternating True ops \<Longrightarrow> \<exists>rest. ops = Release # rest"
  "alternating False ops \<Longrightarrow> ops \<noteq> [] \<Longrightarrow> \<exists>n rest. ops = Acquire n # rest"
  by (cases "(True, ops)" rule: alternating.cases; simp) (cases "(False, ops)" rule: alternating.cases; simp)

text \<open>A read claims nothing, once, or twice.\<close>

lemma read_for_index_claims:
  "\<exists>a b. snd (read_for_index opens len limit) \<in> {[], [Acquire a, Release], [Acquire a, Release, Acquire b, Release]}"
proof -
  have owned: "\<exists>a b. snd (read_owned opens k len limit) \<in> {[Acquire a, Release], [Acquire a, Release, Acquire b, Release]}" for k
    unfolding read_owned_def Let_def by (simp split: sum.split option.split io_kind.split)
  show ?thesis
    unfolding read_for_index_def Let_def using owned [of 0] owned [of 1] by (auto split: sum.split)
qed

lemma read_for_index_alternating: "alternating False (snd (read_for_index opens len limit))"
  using read_for_index_claims [of opens len limit] by auto

lemma read_for_index_within:
  assumes "fst (read_for_index opens len (Some limit)) = Inr data"
  shows "length (bytes_of (ir_bytes data)) \<le> limit"
proof -
  have owned: "length (bytes_of (ir_bytes data)) \<le> limit"
    if "open_read opened (read_owned_for_index n limit) = Inr data" for opened n data
    using that by (auto simp: open_read_def read_owned_for_index_def Let_def split: if_splits)
  have "length (bytes_of (ir_bytes data)) \<le> limit" if "fst (read_owned opens k len (Some limit)) = Inr data" for k
    using that owned by (auto simp: read_owned_def Let_def split: sum.splits io_kind.splits)
  then show ?thesis using assms by (auto simp: read_for_index_def Let_def split: sum.splits if_splits)
qed

section \<open>The invariant of the budget\<close>

definition held :: "read_worker \<Rightarrow> nat" where
  "held w = (case permit w of Some n \<Rightarrow> n | None \<Rightarrow> 0)"

definition budget_inv :: "read_budget \<Rightarrow> bool" where
  "budget_inv B \<longleftrightarrow>
     available B + (\<Sum>w\<leftarrow>workers B. held w) = budget_capacity B \<and>
     (\<forall>w\<in>set (workers B). alternating (permit w \<noteq> None) (todo w))"

definition todo_left :: "read_budget \<Rightarrow> nat" where
  "todo_left B = (\<Sum>w\<leftarrow>workers B. length (todo w))"

lemma sum_list_nth_update:
  "i < length ws \<Longrightarrow> sum_list (map f (ws[i := w])) + f (ws ! i) = sum_list (map f ws) + (f w :: nat)"
  by (induction ws arbitrary: i) (auto simp: nth_Cons split: nat.splits)

text \<open>One worker changes; the sums over the workers change with it.\<close>

lemma budget_update:
  assumes inv: "budget_inv B" and i: "i < length (workers B)" and w: "alternating (permit w \<noteq> None) (todo w)"
    and amount: "available' + held w = available B + held (workers B ! i)"
    and left: "length (todo (workers B ! i)) = Suc (length (todo w))"
  defines "B' \<equiv> B\<lparr>available := available', workers := (workers B)[i := w]\<rparr>"
  shows "budget_inv B' \<and> budget_capacity B' = budget_capacity B \<and> todo_left B = Suc (todo_left B')"
proof (intro conjI)
  note s = sum_list_nth_update [OF i, of held w] sum_list_nth_update [OF i, of "\<lambda>w. length (todo w)" w]
  have sum: "available B + (\<Sum>w\<leftarrow>workers B. held w) = budget_capacity B"
    and all: "\<forall>w\<in>set (workers B). alternating (permit w \<noteq> None) (todo w)"
    using inv by (simp_all add: budget_inv_def)
  have "available' + (\<Sum>w\<leftarrow>(workers B)[i := w]. held w) = budget_capacity B" using s(1) sum amount by linarith
  moreover have "\<forall>v\<in>set ((workers B)[i := w]). alternating (permit v \<noteq> None) (todo v)"
    using all w set_update_subset_insert [of "workers B" i w] by blast
  ultimately show "budget_inv B'" by (simp add: budget_inv_def B'_def)
  show "budget_capacity B' = budget_capacity B" by (simp add: B'_def)
  show "todo_left B = Suc (todo_left B')" using s(2) left by (simp add: todo_left_def B'_def)
qed

lemma budget_step_inv:
  assumes "budget_step B B'" "budget_inv B"
  shows "budget_inv B' \<and> budget_capacity B' = budget_capacity B \<and> todo_left B = Suc (todo_left B')"
  using assms(1)
proof cases
  case (acquire i n ops charged)
  have "alternating False (Acquire n # ops)"
    using assms(2) nth_mem [OF acquire(2)] acquire(3) by (fastforce simp: budget_inv_def)
  then show ?thesis
    unfolding acquire(1) using acquire(3,5)
    by (intro budget_update [OF assms(2) acquire(2)]) (simp_all add: held_def)
next
  case (release i n ops)
  have "alternating True (Release # ops)"
    using assms(2) nth_mem [OF release(2)] release(3) by (fastforce simp: budget_inv_def)
  then show ?thesis
    unfolding release(1) using release(3)
    by (intro budget_update [OF assms(2) release(2)]) (simp_all add: held_def)
qed

lemma budget_new_inv:
  assumes "\<forall>p\<in>set programs. alternating False p"
  shows "budget_inv (budget_new bytes programs)"
proof -
  have "(\<Sum>w\<leftarrow>map (\<lambda>p. \<lparr>permit = None, todo = p\<rparr>) programs. held w) = 0"
    by (induction programs) (simp_all add: held_def)
  then show ?thesis using assms by (simp add: budget_inv_def budget_new_def)
qed

lemma budget_progress:
  assumes inv: "budget_inv B" and w: "w \<in> set (workers B)" "todo w \<noteq> []"
  shows "\<exists>B'. budget_step B B'"
proof (cases "\<exists>v\<in>set (workers B). permit v \<noteq> None")
  case True
  then obtain v n where v: "v \<in> set (workers B)" "permit v = Some n" by blast
  then have "alternating True (todo v)" using inv by (fastforce simp: budget_inv_def)
  then obtain ops where ops: "todo v = Release # ops" using alternating_head(1) by blast
  obtain i where "i < length (workers B)" "workers B ! i = v" using v(1) by (auto simp: in_set_conv_nth)
  then show ?thesis using release [of i B n ops] v(2) ops by (metis (full_types) read_worker.surjective old.unit.exhaust)
next
  case False
  then have none: "\<forall>v\<in>set (workers B). held v = 0" by (auto simp: held_def)
  have "(\<Sum>v\<leftarrow>workers B. held v) = 0" using none by (simp add: sum_list_eq_0_iff)
  then moreover have "available B + (\<Sum>v\<leftarrow>workers B. held v) = budget_capacity B" using inv by (simp add: budget_inv_def)
  ultimately have all: "available B = budget_capacity B" by (simp only: add_0_right)
  have "alternating False (todo w)" using inv w(1) False by (fastforce simp: budget_inv_def)
  then obtain n ops where ops: "todo w = Acquire n # ops" using alternating_head(2) w(2) by blast
  obtain i where i: "i < length (workers B)" "workers B ! i = w" using w(1) by (auto simp: in_set_conv_nth)
  have "w = \<lparr>permit = None, todo = Acquire n # ops\<rparr>" using False w(1) ops by (cases w) auto
  then show ?thesis using acquire [OF i(1) _ refl, of n ops] i(2) all by fastforce
qed

lemma budget_steps_inv:
  assumes "(budget_step ^^ n) B B'" "budget_inv B"
  shows "budget_inv B' \<and> budget_capacity B' = budget_capacity B \<and> todo_left B = n + todo_left B'"
  using assms(1)
proof (induction n arbitrary: B')
  case 0
  then show ?case using assms(2) by simp
next
  case (Suc n)
  then obtain C where C: "(budget_step ^^ n) B C" "budget_step C B'" by auto
  from Suc.IH [OF C(1)] budget_step_inv [OF C(2)] show ?case by simp
qed

text \<open>Where no worker can go on, all are through and nothing is held; and every run gets there.\<close>

lemma budget_through:
  assumes inv: "budget_inv B" and stuck: "\<not> (\<exists>C. budget_step B C)"
  shows "(\<forall>w\<in>set (workers B). todo w = [] \<and> permit w = None) \<and> available B = budget_capacity B"
proof -
  have empty: "\<forall>w\<in>set (workers B). todo w = []" using budget_progress [OF inv] stuck by blast
  then have free: "\<forall>w\<in>set (workers B). permit w = None" using inv by (auto simp: budget_inv_def)
  then have "(\<Sum>w\<leftarrow>workers B. held w) = 0" by (simp add: held_def sum_list_eq_0_iff)
  moreover have "available B + (\<Sum>w\<leftarrow>workers B. held w) = budget_capacity B" using inv by (simp add: budget_inv_def)
  ultimately have "available B = budget_capacity B" by (simp only: add_0_right)
  then show ?thesis using empty free by blast
qed

lemma budget_run_ends:
  "budget_inv B \<Longrightarrow> \<exists>C. budget_step\<^sup>*\<^sup>* B C \<and> \<not> (\<exists>D. budget_step C D)"
proof (induction "todo_left B" arbitrary: B rule: less_induct)
  case less
  show ?case
  proof (cases "\<exists>C. budget_step B C")
    case True
    then obtain C where C: "budget_step B C" by blast
    from less.hyps [of C] budget_step_inv [OF C less.prems] obtain D where "budget_step\<^sup>*\<^sup>* C D" "\<not> (\<exists>E. budget_step D E)"
      by auto
    then show ?thesis using converse_rtranclp_into_rtranclp [of budget_step, OF C] by blast
  qed blast
qed

lemma budget_steps_workers: "(budget_step ^^ n) B C \<Longrightarrow> length (workers C) = length (workers B)"
  by (induction n arbitrary: C) (fastforce elim: budget_step.cases)+

section \<open>Properties\<close>

text \<open>C5. Workers that read their files under one budget never block each other for good: in every state they
  can reach either some worker can go on, or all are through and the whole budget is back; and
  what they hold never exceeds the budget.\<close>

theorem concurrent_reads_never_deadlock:
  assumes "\<forall>p\<in>set programs. \<exists>opens len limit. p = snd (read_for_index opens len limit)"
    and "budget_step\<^sup>*\<^sup>* (budget_new bytes programs) B"
  shows "(\<Sum>w\<leftarrow>workers B. held w) \<le> bytes \<and>
    ((\<exists>B'. budget_step B B') \<or> ((\<forall>w\<in>set (workers B). todo w = []) \<and> available B = bytes))"
proof -
  have "\<forall>p\<in>set programs. alternating False p" using assms(1) by (metis read_for_index_alternating)
  then have init: "budget_inv (budget_new bytes programs)" by (rule budget_new_inv)
  obtain n where "(budget_step ^^ n) (budget_new bytes programs) B" using assms(2) by (blast dest: rtranclp_imp_relpowp)
  from budget_steps_inv [OF this init] have inv: "budget_inv B" "budget_capacity B = bytes" by (simp_all add: budget_new_def)
  then have sum: "available B + (\<Sum>w\<leftarrow>workers B. held w) = bytes" by (simp add: budget_inv_def)
  have "available B = bytes" if through: "\<forall>w\<in>set (workers B). todo w = []"
  proof -
    have "\<forall>w\<in>set (workers B). permit w = None" using through inv(1) by (auto simp: budget_inv_def)
    then have "\<forall>w\<in>set (workers B). held w = 0" by (simp add: held_def)
    then have "(\<Sum>w\<leftarrow>workers B. held w) = 0" by (simp add: sum_list_eq_0_iff)
    with sum show ?thesis by (simp only: add_0_right)
  qed
  then show ?thesis using budget_progress [OF inv(1)] sum by fastforce
qed

text \<open>A file that can be read at once, and one that grows while it is read.\<close>

definition demo_handle :: "byte list \<Rightarrow> file_handle" where
  "demo_handle bs = \<lparr>fh_version = None, fh_map = Inl OtherKind, fh_bytes = Inr bs, fh_after = None\<rparr>"

lemma demo_reads:
  "read_for_index (\<lambda>_. Inr (demo_handle [1])) 1 None =
     (Inr \<lparr>ir_bytes = Read [1], ir_version = None, ir_after = None\<rparr>, [Acquire 1, Release])"
  "read_for_index (\<lambda>_. Inr (demo_handle [1, 2])) 1 (Some 2) =
     (Inr \<lparr>ir_bytes = Read [1, 2], ir_version = None, ir_after = None\<rparr>, [Acquire 1, Release, Acquire 2, Release])"
  "read_for_index (\<lambda>_. Inr (demo_handle [1, 2, 3])) 1 (Some 2) = (Inl InvalidData, [Acquire 1, Release, Acquire 2, Release])"
  by (simp_all add: read_for_index_def read_owned_def open_read_def read_owned_for_index_def demo_handle_def
      MMAP_MIN_BYTES_def U64_MAX_def Let_def)

theorem concurrent_reads_never_deadlock_witness:
  "\<exists>B'. budget_step (budget_new 1 [[Acquire 1, Release], [Acquire 1, Release, Acquire 2, Release]]) B'"
proof -
  let ?ps = "[[Acquire 1, Release], [Acquire 1, Release, Acquire 2, Release]]"
  have "\<forall>p\<in>set ?ps. \<exists>opens len limit. p = snd (read_for_index opens len limit)"
    using demo_reads(1,2) by (metis (no_types, lifting) empty_iff list.set(1) set_ConsD snd_conv)
  from concurrent_reads_never_deadlock [OF this rtranclp.rtrancl_refl, of 1] show ?thesis
    by (simp add: budget_new_def)
qed

text \<open>C6. The reads of a batch terminate with every claim given back: whatever the order in which the workers take turns, a
  run makes at most four steps for each file, every run can be carried on to its end, and where no worker can
  take another step all of them have read their files, none holds a claim and the whole budget is available.\<close>

theorem concurrent_reads_terminate:
  assumes "\<forall>p\<in>set programs. \<exists>opens len limit. p = snd (read_for_index opens len limit)"
    and "(budget_step ^^ n) (budget_new bytes programs) B"
  shows "n \<le> 4 * length programs \<and> (\<exists>C. budget_step\<^sup>*\<^sup>* B C \<and> \<not> (\<exists>D. budget_step C D)) \<and>
    (\<not> (\<exists>C. budget_step B C) \<longrightarrow>
      (\<forall>w\<in>set (workers B). todo w = [] \<and> permit w = None) \<and> available B = bytes \<and> length (workers B) = length programs)"
proof -
  have short: "length (snd (read_for_index opens len limit)) \<le> 4" for opens len limit
    using read_for_index_claims [of opens len limit] by auto
  have "todo_left (budget_new bytes programs) \<le> 4 * length programs"
    using assms(1)
  proof (induction programs)
    case (Cons p programs)
    then have "length p \<le> 4" using short by fastforce
    with Cons show ?case by (simp add: todo_left_def budget_new_def)
  qed (simp add: todo_left_def budget_new_def)
  moreover have "\<forall>p\<in>set programs. alternating False p" using assms(1) by (metis read_for_index_alternating)
  note run = budget_steps_inv [OF assms(2) budget_new_inv [OF this]]
  moreover have "budget_capacity B = bytes" using run by (simp add: budget_new_def)
  ultimately show ?thesis
    using run budget_run_ends [of B] budget_through [of B] budget_steps_workers [OF assms(2)] by (auto simp: budget_new_def)
qed

theorem concurrent_reads_terminate_witness:
  "\<not> (\<exists>B. (budget_step ^^ 5) (budget_new 1 [[Acquire 1, Release]]) B) \<and>
   (\<exists>C. budget_step\<^sup>*\<^sup>* (budget_new 1 [[Acquire 1, Release]]) C \<and> \<not> (\<exists>D. budget_step C D))"
proof -
  have "\<forall>p\<in>set [[Acquire 1, Release]]. \<exists>opens len limit. p = snd (read_for_index opens len limit)"
    using demo_reads(1) by (metis (no_types, lifting) empty_iff list.set(1) set_ConsD snd_conv)
  note ends = concurrent_reads_terminate [OF this]
  show ?thesis using ends [of 5 1] ends [of 0 1 "budget_new 1 [[Acquire 1, Release]]"] by auto
qed

text \<open>A read under a configured limit never returns more bytes than the limit, also when the file grows
  between the walk, the mapping and the read, and it never reports the growth itself: that is
  an error of a file that is too large.\<close>

theorem limited_read_stays_within:
  "(fst (read_for_index opens len (Some limit)) = Inr data \<longrightarrow> length (bytes_of (ir_bytes data)) \<le> limit) \<and>
   fst (read_for_index opens len (Some limit)) \<noteq> Inl WouldBlock \<and>
   (len > limit \<longrightarrow> fst (read_for_index opens len (Some limit)) = Inl InvalidData)"
proof -
  have "fst (read_owned opens k len (Some limit)) \<noteq> Inl WouldBlock" for k
    by (auto simp: read_owned_def Let_def split: sum.split io_kind.split)
  then have "fst (read_for_index opens len (Some limit)) \<noteq> Inl WouldBlock"
    by (auto simp: read_for_index_def Let_def split: sum.split)
  then show ?thesis using read_for_index_within [of opens len limit data] by (simp add: read_for_index_def)
qed

theorem limited_read_stays_within_witness:
  "length (bytes_of (ir_bytes \<lparr>ir_bytes = Read [1, 2], ir_version = None, ir_after = None\<rparr>)) \<le> 2"
  using limited_read_stays_within [of "\<lambda>_. Inr (demo_handle [1, 2])" 1 2
      "\<lparr>ir_bytes = Read [1, 2], ir_version = None, ir_after = None\<rparr>"] demo_reads(2) by simp

end
