(* ===== verification/Segment.thy ===== *)
theory Segment
  imports Ondisk
begin

text \<open>
  The spill segments of the external sorter (\<^verbatim>\<open>tgrep-core/src/external.rs\<close>): variable
  length integers, the encoding of a sorted arena, the buffered source that reads a segment back
  and the cursor over its groups.  How many bytes one read of a file delivers is up to the
  system: it is the argument \<open>amount\<close>, of the space in the buffer and the bytes left in
  the file, and every theorem holds for all of its values.  The checks of a work permit and the
  charges for memory are left out.
\<close>

section \<open>Writing a segment\<close>

record trigram_posting =
  tp_trigram :: u32
  tp_entry :: posting_entry

function write_varint :: "u64 \<Rightarrow> byte list" where
  "write_varint v =
     (if v \<ge> 0x80 then (ucast v OR 0x80) # write_varint (drop_bit 7 v) else [ucast v])"
  by pat_completeness auto
termination
proof (relation "measure unat", simp_all)
  fix v :: u64
  assume "0x80 \<le> v"
  then have "0 < unat v" by (simp add: word_le_nat_alt)
  then show "unat (drop_bit 7 v) < unat v" by (simp add: drop_bit_eq_div unat_div)
qed

declare write_varint.simps [simp del]

fun spill_entries :: "posting_entry list \<Rightarrow> u32 \<Rightarrow> byte list" where
  "spill_entries [] prev_file_id = []"
| "spill_entries (e # es) prev_file_id =
     write_varint (ucast (file_id e - prev_file_id)) @ [loc_mask e] @ [next_mask e]
       @ spill_entries es (file_id e)"

definition SPILL_SCRATCH_FLUSH_BYTES :: nat where
  "SPILL_SCRATCH_FLUSH_BYTES = 128 * 1024"

text \<open>The loop over the groups of the arena: what is written, then what the buffer holds.\<close>

function spill_groups :: "trigram_posting list \<Rightarrow> u32 \<Rightarrow> byte list \<Rightarrow> byte list \<Rightarrow> byte list" where
  "spill_groups [] prev_trigram written scratch = (if scratch \<noteq> [] then written @ scratch else written)"
| "spill_groups (p # rest) prev_trigram written scratch =
     (let trigram = tp_trigram p;
          group = p # takeWhile (\<lambda>q. tp_trigram q = trigram) rest;
          scratch = scratch @ write_varint (ucast (trigram - prev_trigram));
          scratch = scratch @ write_varint (of_nat (length group));
          scratch = scratch @ spill_entries (map tp_entry group) 0;
          next_groups = dropWhile (\<lambda>q. tp_trigram q = trigram) rest
      in if length scratch \<ge> SPILL_SCRATCH_FLUSH_BYTES
         then spill_groups next_groups trigram (written @ scratch) []
         else spill_groups next_groups trigram written scratch)"
  by pat_completeness auto
termination
  by (relation "measure (\<lambda>(ps, _, _, _). length ps)") (auto simp: le_imp_less_Suc length_dropWhile_le)

definition segment_bytes :: "trigram_posting list \<Rightarrow> byte list" where
  "segment_bytes arena = spill_groups arena 0 [] []"

section \<open>Reading a segment\<close>

definition MAX_VARINT_LEN :: nat where
  "MAX_VARINT_LEN = 10"

text \<open>The buffer from its position to its fill mark, and what the file still has.\<close>

record byte_source =
  window :: "byte list"
  unread :: "byte list"
  buf_len :: nat

definition source_open :: "byte list \<Rightarrow> nat \<Rightarrow> byte_source" where
  "source_open file capacity = \<lparr>window = [], unread = file, buf_len = max capacity MAX_VARINT_LEN\<rparr>"

type_synonym reads = "nat \<Rightarrow> nat \<Rightarrow> nat"

text \<open>A read delivers at least one byte when there is space and the file has one.\<close>

definition read_amount :: "reads \<Rightarrow> nat \<Rightarrow> nat \<Rightarrow> nat" where
  "read_amount amount space left =
     (let n = amount space left in if 1 \<le> n \<and> n \<le> min space left then n else min space left)"

function ensure :: "reads \<Rightarrow> nat \<Rightarrow> byte_source \<Rightarrow> byte_source" where
  "ensure amount wanted src =
     (if length (window src) \<ge> wanted then src
      else
        let n = read_amount amount (buf_len src - length (window src)) (length (unread src))
        in if n = 0 then src
           else ensure amount wanted
             (src\<lparr>window := window src @ take n (unread src), unread := drop n (unread src)\<rparr>))"
  by pat_completeness auto
termination
  by (relation "measure (\<lambda>(_, _, src). length (unread src))")
    (auto simp: read_amount_def Let_def split: if_splits)

declare ensure.simps [simp del]

fun varint_loop :: "byte list \<Rightarrow> u64 \<Rightarrow> nat \<Rightarrow> (u64 \<times> byte list) result" where
  "varint_loop [] value shift = Inl (IndexCorrupted ''spill segment truncated mid-varint'')"
| "varint_loop (b # rest) value shift =
     (let value = value OR push_bit shift (ucast (b AND 0x7F))
      in if b AND 0x80 = 0 then Inr (value, rest)
         else if shift + 7 \<ge> 64 then Inl (IndexCorrupted ''spill segment contains an overlong varint'')
         else varint_loop rest value (shift + 7))"

definition read_varint :: "reads \<Rightarrow> byte_source \<Rightarrow> (u64 option \<times> byte_source) result" where
  "read_varint amount src =
     (let src = ensure amount MAX_VARINT_LEN src
      in if window src = [] then Inr (None, src)
         else rbind (varint_loop (window src) 0 0) (\<lambda>(value, rest).
                Inr (Some value, src\<lparr>window := rest\<rparr>)))"

definition read_u8 :: "reads \<Rightarrow> byte_source \<Rightarrow> (byte \<times> byte_source) result" where
  "read_u8 amount src =
     (let src = ensure amount 1 src
      in case window src of
           [] \<Rightarrow> Inl (IndexCorrupted ''spill segment truncated mid-posting'')
         | b # rest \<Rightarrow> Inr (b, src\<lparr>window := rest\<rparr>))"

record segment_cursor =
  cur_src :: byte_source
  prev_trigram :: u32
  pending_count :: nat

definition cursor_open :: "byte list \<Rightarrow> nat \<Rightarrow> segment_cursor" where
  "cursor_open file buffer_bytes =
     \<lparr>cur_src = source_open file buffer_bytes, prev_trigram = 0, pending_count = 0\<rparr>"

text \<open>\<^verbatim>\<open>u32::try_from\<close> of a 64-bit sum; the sum itself wraps.\<close>

definition narrow_sum :: "u32 \<Rightarrow> u64 \<Rightarrow> u32 option" where
  "narrow_sum a d = (let s = ucast a + d in if unat s < 2 ^ 32 then Some (ucast s) else None)"

definition advance :: "reads \<Rightarrow> segment_cursor \<Rightarrow> (u32 option \<times> segment_cursor) result" where
  "advance amount self =
     rbind (read_varint amount (cur_src self)) (\<lambda>(delta, src).
       case delta of
         None \<Rightarrow> Inr (None, self\<lparr>cur_src := src\<rparr>)
       | Some delta \<Rightarrow>
           (case narrow_sum (prev_trigram self) delta of
              None \<Rightarrow> Inl (IndexCorrupted ''spill segment trigram delta overflow'')
            | Some trigram \<Rightarrow>
                rbind (read_varint amount src) (\<lambda>(count, src).
                  case count of
                    None \<Rightarrow> Inl (IndexCorrupted ''spill segment missing group count'')
                  | Some count \<Rightarrow>
                      Inr (Some trigram,
                        \<lparr>cur_src = src, prev_trigram = trigram, pending_count = unat count\<rparr>))))"

fun take_loop ::
  "reads \<Rightarrow> nat \<Rightarrow> u32 \<Rightarrow> byte_source \<Rightarrow> posting_entry list \<Rightarrow> (byte_source \<times> posting_entry list) result"
where
  "take_loop amount 0 prev_file_id src out = Inr (src, out)"
| "take_loop amount (Suc n) prev_file_id src out =
     rbind (read_varint amount src) (\<lambda>(delta, src).
       case delta of
         None \<Rightarrow> Inl (IndexCorrupted ''spill segment truncated in group'')
       | Some delta \<Rightarrow>
           (case narrow_sum prev_file_id delta of
              None \<Rightarrow> Inl (IndexCorrupted ''spill segment file id overflow'')
            | Some fid \<Rightarrow>
                rbind (read_u8 amount src) (\<lambda>(loc, src).
                rbind (read_u8 amount src) (\<lambda>(nxt, src).
                  take_loop amount n fid src
                    (out @ [\<lparr>loc_mask = loc, next_mask = nxt, file_id = fid\<rparr>])))))"

definition take_group ::
  "reads \<Rightarrow> segment_cursor \<Rightarrow> posting_entry list \<Rightarrow> (segment_cursor \<times> posting_entry list) result"
where
  "take_group amount self out =
     rbind (take_loop amount (pending_count self) 0 (cur_src self) out) (\<lambda>(src, out).
       Inr (self\<lparr>cur_src := src, pending_count := 0\<rparr>, out))"

section \<open>What a source still holds\<close>

definition contents :: "byte_source \<Rightarrow> byte list" where
  "contents src = window src @ unread src"

text \<open>A source whose buffer can hold the longest integer.\<close>

definition source_ok :: "byte_source \<Rightarrow> bool" where
  "source_ok src \<longleftrightarrow> MAX_VARINT_LEN \<le> buf_len src"

lemma ensure_contents [simp]:
  "contents (ensure amount wanted src) = contents src"
  "buf_len (ensure amount wanted src) = buf_len src"
  by (induction amount wanted src rule: ensure.induct)
    (subst ensure.simps, auto simp: Let_def contents_def)+

lemma source_ok_ensure [simp]: "source_ok (ensure amount wanted src) = source_ok src"
  by (simp add: source_ok_def)

lemma read_amount_0: "read_amount amount s l = 0 \<longleftrightarrow> s = 0 \<or> l = 0"
  by (auto simp: read_amount_def Let_def)

lemma ensure_window:
  "wanted \<le> buf_len src \<Longrightarrow> min wanted (length (contents src)) \<le> length (window (ensure amount wanted src))"
proof (induction amount wanted src rule: ensure.induct)
  case (1 amount wanted src)
  let ?n = "read_amount amount (buf_len src - length (window src)) (length (unread src))"
  show ?case
  proof (cases "wanted \<le> length (window src) \<or> ?n = 0")
    case True
    then show ?thesis using "1.prems"
      by (subst ensure.simps) (auto simp: Let_def read_amount_0 contents_def)
  next
    case False
    let ?src = "src\<lparr>window := window src @ take ?n (unread src), unread := drop ?n (unread src)\<rparr>"
    have "min wanted (length (contents ?src)) \<le> length (window (ensure amount wanted ?src))"
      by (rule "1.IH") (use False "1.prems" in auto)
    moreover have "contents ?src = contents src" by (simp add: contents_def)
    moreover have "ensure amount wanted src = ensure amount wanted ?src"
      using False by (subst ensure.simps) (simp add: Let_def)
    ultimately show ?thesis by simp
  qed
qed

lemma ensure_some:
  assumes "1 \<le> wanted" "wanted \<le> buf_len src"
  shows "window (ensure amount wanted src) = [] \<longleftrightarrow> contents src = []"
proof
  assume "window (ensure amount wanted src) = []"
  then have "min wanted (length (contents src)) = 0" using ensure_window [OF assms(2), of amount] by simp
  then show "contents src = []" using assms(1) by (simp add: min_def split: if_splits)
next
  assume "contents src = []"
  then have "contents (ensure amount wanted src) = []" by simp
  then show "window (ensure amount wanted src) = []" by (simp add: contents_def)
qed

section \<open>Integers\<close>

lemma write_varint_nonempty [simp]: "write_varint v \<noteq> []"
  by (subst write_varint.simps) simp

lemma low_byte: "(ucast v :: byte) AND 0x7F = ucast (take_bit 7 (v :: u64))"
proof -
  have "(0x7F :: byte) = mask 7" by (simp add: mask_eq_exp_minus_1)
  then have "(ucast v :: byte) AND 0x7F = take_bit 7 (ucast v)" by (simp add: take_bit_eq_mask)
  also have "\<dots> = ucast (take_bit 7 v)" by (rule bit_word_eqI) (auto simp: bit_simps)
  finally show ?thesis .
qed

lemma more_byte:
  "(b OR 0x80) AND 0x7F = b AND (0x7F :: byte)" "(b OR 0x80) AND 0x80 \<noteq> (0 :: byte)"
proof -
  show "(b OR 0x80) AND 0x7F = b AND (0x7F :: byte)" by (simp add: bit.conj_disj_distrib2)
  have "bit ((b OR 0x80) AND 0x80) 7" by (simp add: bit_simps)
  moreover have "\<not> bit (0 :: byte) 7" by simp
  ultimately show "(b OR 0x80) AND 0x80 \<noteq> (0 :: byte)" by metis
qed

lemma widen_low: "(ucast (ucast (take_bit 7 v) :: byte) :: u64) = take_bit 7 v"
  by (rule bit_word_eqI) (auto simp: bit_simps)

lemma split_septet:
  fixes v :: u64
  shows "push_bit s (take_bit 7 v) OR push_bit (s + 7) (drop_bit 7 v) = push_bit s v"
proof -
  have "take_bit 7 v OR push_bit 7 (drop_bit 7 v) = v"
  proof (rule bit_word_eqI)
    fix n :: nat
    have "7 + (n - 7) = n" if "\<not> n < 7" using that by simp
    then show "n < LENGTH(64) \<Longrightarrow> bit (take_bit 7 v OR push_bit 7 (drop_bit 7 v)) n \<longleftrightarrow> bit v n"
      by (cases "n < 7") (simp_all add: bit_take_bit_iff bit_or_iff bit_push_bit_iff bit_drop_bit_eq)
  qed
  then have "push_bit s v = push_bit s (take_bit 7 v OR push_bit 7 (drop_bit 7 v))" by simp
  also have "\<dots> = push_bit s (take_bit 7 v) OR push_bit (s + 7) (drop_bit 7 v)"
    by (simp only: push_bit_or push_bit_push_bit)
  finally show ?thesis by (rule sym)
qed

lemma last_byte:
  assumes "take_bit 7 v = (v :: u64)"
  shows "(ucast v :: byte) AND 0x80 = 0"
proof -
  have "(ucast (take_bit 7 v) :: byte) AND push_bit 7 1 = 0"
    by (rule bit_word_eqI)
      (auto simp only: bit_and_iff bit_push_bit_iff bit_take_bit_iff bit_ucast_iff bit_0_eq bot_apply bot_bool_def)
  then show ?thesis by (simp only: assms) simp
qed

lemma septets_left: "(v :: u64) \<ge> 0x80 \<Longrightarrow> 0 < drop_bit 7 v"
  by (simp add: drop_bit_eq_div word_less_nat_alt word_le_nat_alt unat_div)

lemma varint_loop_write:
  assumes "drop_bit (64 - s) v = 0" "s < 64"
  shows "varint_loop (write_varint v @ rest) acc s = Inr (acc OR push_bit s v, rest)"
  using assms
proof (induction v arbitrary: acc s rule: write_varint.induct)
  case (1 v)
  show ?case
  proof (cases "v \<ge> 0x80")
    case True
    have s: "s + 7 < 64"
    proof (rule ccontr)
      assume "\<not> s + 7 < 64"
      then have "64 - s \<le> 7" by simp
      then have "drop_bit 7 v = drop_bit (7 - (64 - s)) (drop_bit (64 - s) v)"
        by (simp only: drop_bit_drop_bit le_add_diff_inverse2)
      then have "drop_bit 7 v = 0" by (simp only: "1.prems"(1) drop_bit_of_0)
      with septets_left [OF True] show False by simp
    qed
    have "64 - (s + 7) + 7 = 64 - s" using s by simp
    then have "drop_bit (64 - (s + 7)) (drop_bit 7 v) = 0" using "1.prems"(1) by (simp only: drop_bit_drop_bit)
    note IH = "1.IH" [OF True this s]
    have "write_varint v = (ucast v OR 0x80) # write_varint (drop_bit 7 v)"
      using True by (subst write_varint.simps) (simp only: if_True)
    moreover have "\<not> 64 \<le> s + 7" using s by simp
    ultimately show ?thesis
      by (simp only: append_Cons varint_loop.simps Let_def more_byte low_byte widen_low if_False IH
          or.assoc split_septet)
  next
    case False
    then have "unat v < 128" by (simp add: word_less_nat_alt not_le)
    then have "unat (take_bit 7 v) = unat v"
      by (simp only: unsigned_take_bit_eq) (simp add: take_bit_nat_eq_self)
    then have tb: "take_bit 7 v = v" by (simp only: unat_inject)
    have "write_varint v = [ucast v]" using False by (subst write_varint.simps) (simp only: if_False)
    moreover have "(ucast ((ucast v :: byte) AND 0x7F) :: u64) = v"
      using widen_low [of v] by (simp only: low_byte tb)
    ultimately show ?thesis
      by (simp only: append_Cons append_Nil varint_loop.simps Let_def last_byte [OF tb] simp_thms if_True)
  qed
qed

lemma length_write_varint: "length (write_varint v) \<le> 10"
proof -
  have "drop_bit (7 * n) v = 0 \<Longrightarrow> 1 \<le> n \<Longrightarrow> length (write_varint v) \<le> n" for n
  proof (induction n arbitrary: v)
    case (Suc n)
    show ?case
    proof (cases "v \<ge> 0x80")
      case True
      have "n \<noteq> 0"
      proof
        assume "n = 0"
        then have "drop_bit 7 v = 0" using Suc.prems by simp
        with septets_left [OF True] show False by simp
      qed
      moreover have "drop_bit (7 * n) (drop_bit 7 v) = 0" using Suc.prems(1) by (simp add: drop_bit_drop_bit add.commute)
      ultimately show ?thesis using Suc.IH True by (subst write_varint.simps) simp
    next
      case False
      then show ?thesis by (subst write_varint.simps) simp
    qed
  qed simp
  moreover have "drop_bit (7 * 10) v = 0"
    by (rule bit_word_eqI) (auto simp: bit_drop_bit_eq dest: bit_imp_le_length)
  ultimately show ?thesis by (metis one_le_numeral)
qed

text \<open>Reading depends on what the source holds only, not on how the reads were divided.\<close>

lemma read_varint_write:
  assumes "source_ok src" "contents src = write_varint v @ rest"
  shows "\<exists>src'. read_varint amount src = Inr (Some v, src') \<and> contents src' = rest \<and> source_ok src'"
proof -
  let ?src = "ensure amount MAX_VARINT_LEN src"
  have "min MAX_VARINT_LEN (length (contents src)) \<le> length (window ?src)"
    using assms(1) by (intro ensure_window) (simp add: source_ok_def)
  moreover have "length (write_varint v) \<le> min MAX_VARINT_LEN (length (contents src))"
    using assms(2) length_write_varint [of v] by (simp add: MAX_VARINT_LEN_def)
  ultimately have len: "length (write_varint v) \<le> length (window ?src)" by linarith
  have "contents ?src = write_varint v @ rest" using assms(2) by simp
  then have c: "window ?src @ unread ?src = write_varint v @ rest" by (simp only: contents_def)
  define w where "w = drop (length (write_varint v)) (window ?src)"
  have "take (length (write_varint v)) (window ?src) = write_varint v"
    using arg_cong [OF c, of "take (length (write_varint v))"] len by simp
  then have w1: "window ?src = write_varint v @ w" unfolding w_def by (metis append_take_drop_id)
  have w2: "w @ unread ?src = rest" using c w1 by simp
  note w = w1 w2
  have "drop_bit 64 v = 0" by (rule bit_word_eqI) (auto simp: bit_drop_bit_eq dest: bit_imp_le_length)
  then have "varint_loop (window ?src) 0 0 = Inr (v, w)"
    using varint_loop_write [of 0 v w 0] by (simp only: w diff_zero or.left_neutral push_bit_0_id id_apply)
  then show ?thesis
    using w assms(1) by (auto simp: read_varint_def Let_def contents_def source_ok_def)
qed

lemma read_varint_end:
  assumes "source_ok src" "contents src = []"
  shows "\<exists>src'. read_varint amount src = Inr (None, src') \<and> contents src' = [] \<and> source_ok src'"
  using assms ensure_some [of MAX_VARINT_LEN src amount]
  by (auto simp: read_varint_def Let_def source_ok_def MAX_VARINT_LEN_def)

lemma read_u8_cons:
  assumes "source_ok src" "contents src = b # rest"
  shows "\<exists>src'. read_u8 amount src = Inr (b, src') \<and> contents src' = rest \<and> source_ok src'"
proof -
  have "1 \<le> buf_len src" using assms(1) by (simp add: source_ok_def MAX_VARINT_LEN_def)
  then have "window (ensure amount 1 src) \<noteq> []" using ensure_some [of 1 src amount] assms(2) by simp
  then obtain c w where w: "window (ensure amount 1 src) = c # w"
    by (cases "window (ensure amount 1 src)") auto
  moreover have "contents (ensure amount 1 src) = b # rest" using assms(2) by simp
  ultimately show ?thesis
    using assms(1) by (auto simp: read_u8_def Let_def contents_def source_ok_def)
qed

lemma varint_loop_length: "varint_loop w v s = Inr (x, w') \<Longrightarrow> length w' < length w"
  by (induction w v s rule: varint_loop.induct) (auto simp: Let_def split: if_splits)

lemma read_varint_length:
  assumes "read_varint amount src = Inr (d, src')"
  shows "length (contents src') + (if d = None then 0 else 1) \<le> length (contents src)"
proof -
  let ?src = "ensure amount MAX_VARINT_LEN src"
  have "contents ?src = contents src" by simp
  then have "length (window ?src) + length (unread ?src) = length (contents src)"
    by (metis contents_def length_append)
  then show ?thesis
    using assms varint_loop_length [of "window ?src" 0 0]
    by (fastforce simp: read_varint_def Let_def contents_def split: if_splits)
qed

lemma read_u8_length:
  assumes "read_u8 amount src = Inr (b, src')"
  shows "length (contents src') \<le> length (contents src)"
proof -
  have "contents (ensure amount 1 src) = contents src" by simp
  then have "length (window (ensure amount 1 src)) + length (unread (ensure amount 1 src)) = length (contents src)"
    by (metis contents_def length_append)
  then show ?thesis
    using assms by (auto simp: read_u8_def Let_def contents_def split: list.splits)
qed

section \<open>Groups\<close>

lemma unat_widen [simp]: "unat (ucast (a :: u32) :: u64) = unat a"
proof -
  have "unat a < 2 ^ 64" using order.strict_trans2 [OF unsigned_less [of a], of "2 ^ 64"] by simp
  then show ?thesis by (simp add: unsigned_ucast_eq take_bit_nat_eq_self)
qed

lemma narrow_sum_diff: "a \<le> b \<Longrightarrow> narrow_sum a (ucast (b - a)) = Some b"
proof -
  assume "a \<le> b"
  then have "unat a + unat (b - a) = unat b" by (simp add: unat_sub word_le_nat_alt)
  moreover have b: "unat b < 2 ^ 32" using unsigned_less [of b] by simp
  ultimately have "unat (ucast a + ucast (b - a) :: u64) = unat (ucast b :: u64)"
    by (simp add: unat_word_ariths)
  then have "(ucast a + ucast (b - a) :: u64) = ucast b" by (simp only: unat_inject)
  moreover have "ucast (ucast b :: u64) = b" by (rule bit_word_eqI) (simp add: bit_simps)
  ultimately show ?thesis using b by (simp add: narrow_sum_def Let_def)
qed

lemma take_loop_spilled:
  assumes "source_ok src" "contents src = spill_entries es prev @ rest" "sorted (map file_id es)"
    and "es \<noteq> [] \<longrightarrow> prev \<le> file_id (hd es)"
  shows "\<exists>src'. take_loop amount (length es) prev src out = Inr (src', out @ es) \<and>
    contents src' = rest \<and> source_ok src'"
  using assms
proof (induction es arbitrary: prev src out)
  case (Cons e es)
  have "contents src = write_varint (ucast (file_id e - prev)) @
      loc_mask e # next_mask e # spill_entries es (file_id e) @ rest" using Cons.prems(2) by simp
  from read_varint_write [OF Cons.prems(1) this, of amount] obtain s1 where
    s1: "read_varint amount src = Inr (Some (ucast (file_id e - prev)), s1)" "source_ok s1"
      "contents s1 = loc_mask e # next_mask e # spill_entries es (file_id e) @ rest" by auto
  from read_u8_cons [OF s1(2,3), of amount] obtain s2 where
    s2: "read_u8 amount s1 = Inr (loc_mask e, s2)" "source_ok s2"
      "contents s2 = next_mask e # spill_entries es (file_id e) @ rest" by auto
  from read_u8_cons [OF s2(2,3), of amount] obtain s3 where
    s3: "read_u8 amount s2 = Inr (next_mask e, s3)" "source_ok s3"
      "contents s3 = spill_entries es (file_id e) @ rest" by auto
  have "narrow_sum prev (ucast (file_id e - prev)) = Some (file_id e)"
    using Cons.prems(4) by (simp add: narrow_sum_diff)
  moreover have "\<exists>src'. take_loop amount (length es) (file_id e) s3 (out @ [e]) = Inr (src', (out @ [e]) @ es) \<and>
      contents src' = rest \<and> source_ok src'"
    by (rule Cons.IH [OF s3(2,3)]) (use Cons.prems(3) in \<open>auto simp: hd_map dest: hd_in_set\<close>)
  moreover have e: "\<lparr>loc_mask = loc_mask e, next_mask = next_mask e, file_id = file_id e\<rparr> = e" by simp
  ultimately show ?case using s1 s2 s3 by (simp add: e)
qed simp

lemma take_loop_length:
  "take_loop amount n prev src out = Inr (src', out') \<Longrightarrow> length (contents src') \<le> length (contents src)"
proof (induction n arbitrary: prev src out)
  case (Suc n)
  from Suc.prems obtain d s1 where v: "read_varint amount src = Inr (d, s1)" by auto
  with Suc.prems obtain delta where d: "d = Some delta" by (cases d) auto
  with v Suc.prems obtain fid where "narrow_sum prev delta = Some fid"
    by (cases "narrow_sum prev delta") auto
  with v d Suc.prems obtain loc s2 nxt s3 out2 where
    "read_u8 amount s1 = Inr (loc, s2)" "read_u8 amount s2 = Inr (nxt, s3)"
    "take_loop amount n fid s3 out2 = Inr (src', out')" by auto
  with v d Suc.IH [of fid s3 out2] read_varint_length [of amount src "Some delta" s1]
    read_u8_length [of amount s1 loc s2] read_u8_length [of amount s2 nxt s3]
  show ?case by simp
qed simp

text \<open>The groups of a list sorted by trigram, and what a segment is made of.\<close>

function groups_of :: "trigram_posting list \<Rightarrow> (u32 \<times> posting_entry list) list" where
  "groups_of [] = []"
| "groups_of (p # rest) =
     (tp_trigram p, map tp_entry (p # takeWhile (\<lambda>q. tp_trigram q = tp_trigram p) rest))
       # groups_of (dropWhile (\<lambda>q. tp_trigram q = tp_trigram p) rest)"
  by pat_completeness auto
termination
  by (relation "measure length") (auto simp: le_imp_less_Suc length_dropWhile_le)

fun encode_groups :: "(u32 \<times> posting_entry list) list \<Rightarrow> u32 \<Rightarrow> byte list" where
  "encode_groups [] prev = []"
| "encode_groups ((t, es) # gs) prev =
     write_varint (ucast (t - prev)) @ write_varint (of_nat (length es)) @ spill_entries es 0
       @ encode_groups gs t"

lemma spill_groups_encode:
  "spill_groups ps prev written scratch = written @ scratch @ encode_groups (groups_of ps) prev"
  by (induction ps prev written scratch rule: spill_groups.induct) (simp_all add: Let_def)

lemma segment_bytes_encode: "segment_bytes arena = encode_groups (groups_of arena) 0"
  by (simp add: segment_bytes_def spill_groups_encode)

definition group_ok :: "u32 \<times> posting_entry list \<Rightarrow> bool" where
  "group_ok g \<longleftrightarrow> snd g \<noteq> [] \<and> sorted (map file_id (snd g)) \<and> length (snd g) < 2 ^ 32"

text \<open>A cursor between two groups, and a cursor that has read the header of its next group.\<close>

definition cursor_at :: "segment_cursor \<Rightarrow> (u32 \<times> posting_entry list) list \<Rightarrow> bool" where
  "cursor_at cur gs \<longleftrightarrow>
     source_ok (cur_src cur) \<and> contents (cur_src cur) = encode_groups gs (prev_trigram cur) \<and>
     ascending (map fst gs) \<and> (\<forall>g\<in>set gs. prev_trigram cur \<le> fst g \<and> group_ok g)"

definition cursor_in :: "segment_cursor \<Rightarrow> (u32 \<times> posting_entry list) list \<Rightarrow> bool" where
  "cursor_in cur gs \<longleftrightarrow>
     source_ok (cur_src cur) \<and>
     (case gs of
        [] \<Rightarrow> contents (cur_src cur) = []
      | (t, es) # rest \<Rightarrow>
          prev_trigram cur = t \<and> pending_count cur = length es \<and>
          contents (cur_src cur) = spill_entries es 0 @ encode_groups rest t) \<and>
     ascending (map fst gs) \<and> (\<forall>g\<in>set gs. group_ok g)"

lemma advance_at:
  assumes "cursor_at cur gs"
  shows "\<exists>cur'. advance amount cur = Inr (map_option fst (if gs = [] then None else Some (hd gs)), cur') \<and>
    cursor_in cur' gs"
proof (cases gs)
  case Nil
  then have "contents (cur_src cur) = []" using assms by (simp add: cursor_at_def)
  with read_varint_end [of "cur_src cur" amount] assms Nil show ?thesis
    by (auto simp: advance_def cursor_at_def cursor_in_def)
next
  case (Cons g rest)
  obtain t es where g: "g = (t, es)" by (cases g)
  let ?prev = "prev_trigram cur"
  have ok: "?prev \<le> t" "group_ok (t, es)" "source_ok (cur_src cur)"
    using assms Cons g by (auto simp: cursor_at_def)
  have "contents (cur_src cur) = write_varint (ucast (t - ?prev)) @
      write_varint (of_nat (length es)) @ spill_entries es 0 @ encode_groups rest t"
    using assms Cons g by (simp add: cursor_at_def)
  from read_varint_write [OF ok(3) this, of amount] obtain s1 where
    s1: "read_varint amount (cur_src cur) = Inr (Some (ucast (t - ?prev)), s1)" "source_ok s1"
      "contents s1 = write_varint (of_nat (length es)) @ spill_entries es 0 @ encode_groups rest t" by auto
  from read_varint_write [OF s1(2,3), of amount] obtain s2 where
    s2: "read_varint amount s1 = Inr (Some (of_nat (length es)), s2)" "source_ok s2"
      "contents s2 = spill_entries es 0 @ encode_groups rest t" by auto
  have "length es < 2 ^ 64" using ok(2) by (simp add: group_ok_def)
  then have "unat (of_nat (length es) :: u64) = length es" by (simp add: unat_of_nat)
  with s1 s2 ok assms Cons g show ?thesis
    by (simp add: advance_def narrow_sum_diff cursor_in_def cursor_at_def)
qed

lemma take_group_in:
  assumes "cursor_in cur ((t, es) # gs)"
  shows "\<exists>cur'. take_group amount cur out = Inr (cur', out @ es) \<and> cursor_at cur' gs"
proof -
  have c: "source_ok (cur_src cur)" "contents (cur_src cur) = spill_entries es 0 @ encode_groups gs t"
    "pending_count cur = length es" "prev_trigram cur = t" "sorted (map file_id es)"
    "ascending (t # map fst gs)" "\<forall>g\<in>set gs. group_ok g"
    using assms by (auto simp: cursor_in_def group_ok_def)
  from take_loop_spilled [OF c(1,2,5), of amount out] obtain src' where
    "take_loop amount (length es) 0 (cur_src cur) out = Inr (src', out @ es)"
    "contents src' = encode_groups gs t" "source_ok src'" by auto
  then show ?thesis using c by (auto simp: take_group_def cursor_at_def)
qed

lemma cursor_at_open:
  assumes "ascending (map fst (groups_of arena))" "\<forall>g\<in>set (groups_of arena). group_ok g"
  shows "cursor_at (cursor_open (segment_bytes arena) n) (groups_of arena)"
  using assms
  by (auto simp: cursor_at_def cursor_open_def source_open_def source_ok_def contents_def segment_bytes_encode)

text \<open>Reading a header and reading a group use up bytes of the segment.\<close>

lemma advance_length:
  assumes "advance amount cur = Inr (t, cur')"
  shows "length (contents (cur_src cur')) + (if t = None then 0 else 1) \<le> length (contents (cur_src cur))"
proof -
  from assms obtain d s1 where v: "read_varint amount (cur_src cur) = Inr (d, s1)" by (auto simp: advance_def)
  show ?thesis
  proof (cases d)
    case None
    with v assms read_varint_length [OF v] show ?thesis by (auto simp: advance_def)
  next
    case (Some delta)
    with v assms obtain tri where n: "narrow_sum (prev_trigram cur) delta = Some tri"
      by (cases "narrow_sum (prev_trigram cur) delta") (auto simp: advance_def)
    with v assms Some obtain c s2 where c: "read_varint amount s1 = Inr (c, s2)" by (auto simp: advance_def)
    with v assms Some n obtain k where "c = Some k" by (cases c) (auto simp: advance_def)
    with v assms Some n c read_varint_length [OF v] read_varint_length [OF c] show ?thesis
      by (auto simp: advance_def)
  qed
qed

lemma take_group_length:
  assumes "take_group amount cur out = Inr (cur', out')"
  shows "length (contents (cur_src cur')) \<le> length (contents (cur_src cur))"
  using assms take_loop_length by (auto simp: take_group_def)

end
