(* ===== verification/External.thy ===== *)
theory External
  imports Segment "HOL-Library.Multiset" "HOL-Library.Product_Lexorder"
begin

text \<open>
  The external merge sort that builds an index within a memory budget
  (\<^verbatim>\<open>tgrep-core/src/external.rs\<close>): the arena that spills sorted segments, the
  k-way merge of the segments and the writer of the posting and lookup files.  A file is its
  bytes; the spill directory is the list of its segments.  A binary heap of values that differ
  is the ascending list of its values, so that popping takes the head.  Sorting by a key is
  stable here; the code's sort is not, which is why the results are stated for postings with
  different keys.  The 64-bit addition for the offset wraps, an index beyond a vector is an error.
\<close>

section \<open>Sorting\<close>

definition SORT_CHUNK :: nat where
  "SORT_CHUNK = 4096"

definition remaining :: "'k \<times> nat \<times> nat \<Rightarrow> nat" where
  "remaining = (\<lambda>(_, index, stop). Suc (stop - index))"

lemma sum_insort: "sum_list (map f (insort x xs)) = (f x + sum_list (map f xs) :: nat)"
  by (induction xs) auto

text \<open>The merge of sorted chunks: a heap entry is the key at an index and the end of its chunk.\<close>

function heap_merge ::
  "('a \<Rightarrow> 'k::linorder) \<Rightarrow> 'a list \<Rightarrow> ('k \<times> nat \<times> nat) list \<Rightarrow> 'a list \<Rightarrow> 'a list"
where
  "heap_merge key values [] ordered = ordered"
| "heap_merge key values ((k, index, stop) # heap) ordered =
     (let ordered = ordered @ [values ! index]; next_index = index + 1
      in if next_index < stop
         then heap_merge key values (insort (key (values ! next_index), next_index, stop) heap) ordered
         else heap_merge key values heap ordered)"
  by pat_completeness auto
termination
  by (relation "measure (\<lambda>(_, _, heap, _). sum_list (map remaining heap))") (auto simp: sum_insort remaining_def)

definition chunk_starts :: "nat \<Rightarrow> nat list" where
  "chunk_starts n = map (\<lambda>k. k * SORT_CHUNK) [0..<(n + SORT_CHUNK - 1) div SORT_CHUNK]"

definition sort_controlled :: "bool \<Rightarrow> ('a \<Rightarrow> 'k::linorder) \<Rightarrow> 'a list \<Rightarrow> 'a list" where
  "sort_controlled controlled key values =
     (if \<not> controlled then sort_key key values
      else
        let values = concat (map (sort_key key) (chunks SORT_CHUNK values))
        in if length values \<le> SORT_CHUNK then values
           else
             let heap = fold (\<lambda>start heap.
                   insort (key (values ! start), start, min (start + SORT_CHUNK) (length values)) heap)
                 (chunk_starts (length values)) []
             in heap_merge key values heap [])"

section \<open>The index writer\<close>

record index_writer =
  iw_postings :: "byte list"
  iw_lookup :: "byte list \<times> byte list"
  iw_offset :: u64
  iw_count :: nat

definition writer_create :: index_writer where
  "writer_create = \<lparr>iw_postings = [], iw_lookup = ([], []), iw_offset = 0, iw_count = 0\<rparr>"

definition write_group :: "u32 \<Rightarrow> posting_entry list \<Rightarrow> index_writer \<Rightarrow> index_writer result" where
  "write_group trigram entries self =
     (if entries = [] then Inr self
      else if length entries \<ge> 2 ^ 32 then
        Inl (IndexCorrupted ''posting list exceeds the u32 length limit'')
      else
        let len = of_nat (length entries) :: u32
        in Inr (self\<lparr>
             iw_lookup := write_lookup_entry (LOOKUP_WRITE_CHUNK_ENTRIES * LOOKUP_ENTRY_SIZE)
               \<lparr>le_trigram = trigram, le_offset = iw_offset self, le_length = len\<rparr> (iw_lookup self),
             iw_postings := write_posting_entries (iw_postings self) entries,
             iw_offset := iw_offset self + ucast len * of_nat POSTING_ENTRY_SIZE,
             iw_count := iw_count self + 1\<rparr>))"

text \<open>The two files and the number of trigrams.\<close>

record index_files =
  lookup_bytes :: "byte list"
  posting_bytes :: "byte list"
  trigram_count :: nat

definition writer_finish :: "index_writer \<Rightarrow> index_files" where
  "writer_finish self =
     \<lparr>lookup_bytes = fst (flush_lookup_entries (iw_lookup self)), posting_bytes = iw_postings self,
      trigram_count = iw_count self\<rparr>"

function sorted_loop :: "trigram_posting list \<Rightarrow> index_writer \<Rightarrow> index_writer result" where
  "sorted_loop [] writer = Inr writer"
| "sorted_loop (p # rest) writer =
     (let trigram = tp_trigram p;
          group = p # takeWhile (\<lambda>q. tp_trigram q = trigram) rest
      in rbind (write_group trigram (map tp_entry group) writer)
           (sorted_loop (dropWhile (\<lambda>q. tp_trigram q = trigram) rest)))"
  by pat_completeness auto
termination
  by (relation "measure (\<lambda>(ps, _). length ps)") (auto simp: le_imp_less_Suc length_dropWhile_le)

definition write_sorted_arena :: "trigram_posting list \<Rightarrow> index_files result" where
  "write_sorted_arena arena = rbind (sorted_loop arena writer_create) (\<lambda>w. Inr (writer_finish w))"

section \<open>Merging the segments\<close>

definition SEGMENT_BUFFER_BYTES :: nat where "SEGMENT_BUFFER_BYTES = 256 * 1024"
definition MIN_SEGMENT_BUFFER_BYTES :: nat where "MIN_SEGMENT_BUFFER_BYTES = 4 * 1024"

definition segment_buffer_bytes :: "nat \<Rightarrow> nat \<Rightarrow> nat" where
  "segment_buffer_bytes read_budget_bytes segments =
     max MIN_SEGMENT_BUFFER_BYTES (min SEGMENT_BUFFER_BYTES (read_budget_bytes div max segments 1))"

type_synonym merge_heap = "(u32 \<times> nat) list"

definition push_next :: "u32 option \<Rightarrow> nat \<Rightarrow> merge_heap \<Rightarrow> merge_heap" where
  "push_next t idx heap = (case t of Some trigram \<Rightarrow> insort (trigram, idx) heap | None \<Rightarrow> heap)"

fun open_cursors ::
  "(nat \<Rightarrow> reads) \<Rightarrow> nat \<Rightarrow> byte list list \<Rightarrow> segment_cursor list \<Rightarrow> merge_heap \<Rightarrow>
   (segment_cursor list \<times> merge_heap) result"
where
  "open_cursors amount per_segment [] cursors heap = Inr (cursors, heap)"
| "open_cursors amount per_segment (file # files) cursors heap =
     (let idx = length cursors
      in rbind (advance (amount idx) (cursor_open file per_segment)) (\<lambda>(t, cursor).
           open_cursors amount per_segment files (cursors @ [cursor]) (push_next t idx heap)))"

definition merge_size :: "segment_cursor list \<Rightarrow> merge_heap \<Rightarrow> nat" where
  "merge_size cursors heap = (\<Sum>c\<leftarrow>cursors. length (contents (cur_src c))) + length heap"

lemma merge_size_update:
  assumes "idx < length cursors"
    and "length (contents (cur_src c)) + (if t = None then 0 else 1) \<le> length (contents (cur_src (cursors ! idx)))"
  shows "merge_size (cursors[idx := c]) (push_next t idx heap) < merge_size cursors (h # heap)"
proof -
  have "(\<Sum>c\<leftarrow>cursors[idx := c]. length (contents (cur_src c))) + length (contents (cur_src (cursors ! idx))) =
      (\<Sum>c\<leftarrow>cursors. length (contents (cur_src c))) + length (contents (cur_src c))"
    using assms(1) by (induction cursors arbitrary: idx) (auto simp: nth_Cons split: nat.splits)
  moreover have "length (push_next t idx heap) = length heap + (if t = None then 0 else 1)"
    by (cases t) (simp_all add: push_next_def)
  ultimately show ?thesis using assms(2) by (simp add: merge_size_def split: if_splits)
qed

lemma merge_size_step:
  assumes "idx < length cursors" "take_group amount (cursors ! idx) out = Inr (c, out')"
    and "advance amount c = Inr (t, c')"
  shows "merge_size (cursors[idx := c']) (push_next t idx heap) < merge_size cursors (h # heap)"
  using take_group_length [OF assms(2)] advance_length [OF assms(3)] assms(1)
  by (intro merge_size_update) linarith+

text \<open>The inner loop: append the groups of one trigram, segment by segment.\<close>

function collect_group ::
  "(nat \<Rightarrow> reads) \<Rightarrow> u32 \<Rightarrow> segment_cursor list \<Rightarrow> merge_heap \<Rightarrow> posting_entry list \<Rightarrow> bool \<Rightarrow> u32 option \<Rightarrow>
   (segment_cursor list \<times> merge_heap \<times> posting_entry list \<times> bool) result"
where
  "collect_group amount trigram cursors [] out needs_sort last_file_id =
     Inr (cursors, [], out, needs_sort)"
| "collect_group amount trigram cursors ((next_trigram, idx) # heap) out needs_sort last_file_id =
     (if next_trigram \<noteq> trigram then Inr (cursors, (next_trigram, idx) # heap, out, needs_sort)
      else if length cursors \<le> idx then Inl (Io ''index out of bounds'')
      else
        let before = length out
        in rbind (take_group (amount idx) (cursors ! idx) out) (\<lambda>(cursor, out).
             let needs_sort = (needs_sort \<or>
                   (case last_file_id of
                      Some prev \<Rightarrow> before < length out \<and> file_id (out ! before) \<le> prev
                    | None \<Rightarrow> False));
                 last_file_id = (if out = [] then None else Some (file_id (last out)))
             in rbind (advance (amount idx) cursor) (\<lambda>(t, cursor).
                  collect_group amount trigram (cursors[idx := cursor]) (push_next t idx heap)
                    out needs_sort last_file_id)))"
  by pat_completeness auto
termination
  by (relation "measure (\<lambda>(_, _, cursors, heap, _). merge_size cursors heap)")
    (auto simp: not_le intro: merge_size_step)

lemma collect_group_size:
  assumes "collect_group amount trigram cursors heap out needs_sort last_file_id = Inr (cursors', heap', r)"
  shows "merge_size cursors' heap' \<le> merge_size cursors heap"
    and "heap \<noteq> [] \<Longrightarrow> fst (hd heap) = trigram \<Longrightarrow> merge_size cursors' heap' < merge_size cursors heap"
proof -
  have "merge_size cursors' heap' \<le> merge_size cursors heap \<and>
      (heap \<noteq> [] \<longrightarrow> fst (hd heap) = trigram \<longrightarrow> merge_size cursors' heap' < merge_size cursors heap)"
    using assms
  proof (induction amount trigram cursors heap out needs_sort last_file_id rule: collect_group.induct)
    case (2 amount trigram cursors next_trigram idx heap out needs_sort last_file_id)
    show ?case
    proof (cases "next_trigram = trigram \<and> idx < length cursors")
      case False
      then show ?thesis using "2.prems" by (auto split: if_splits)
    next
      case True
      obtain c out' where g: "take_group (amount idx) (cursors ! idx) out = Inr (c, out')"
        using True "2.prems" by (auto simp: Let_def)
      obtain t c' where a: "advance (amount idx) c = Inr (t, c')"
        using True "2.prems" g by (auto simp: Let_def)
      let ?cs = "cursors[idx := c']" and ?heap = "push_next t idx heap"
      have "merge_size ?cs ?heap < merge_size cursors ((next_trigram, idx) # heap)"
        using True merge_size_step [OF _ g a] by blast
      moreover have "merge_size cursors' heap' \<le> merge_size ?cs ?heap"
        using "2.IH" [OF _ _ refl g refl refl refl a refl] True "2.prems" g a by (simp add: Let_def)
      ultimately show ?thesis by linarith
    qed
  qed simp
  then show "merge_size cursors' heap' \<le> merge_size cursors heap"
    "heap \<noteq> [] \<Longrightarrow> fst (hd heap) = trigram \<Longrightarrow> merge_size cursors' heap' < merge_size cursors heap"
    by blast+
qed

function merge_loop ::
  "(nat \<Rightarrow> reads) \<Rightarrow> bool \<Rightarrow> segment_cursor list \<Rightarrow> merge_heap \<Rightarrow> index_writer \<Rightarrow> index_writer result"
where
  "merge_loop amount controlled cursors [] writer = Inr writer"
| "merge_loop amount controlled cursors ((trigram, i) # rest) writer =
     rbind (collect_group amount trigram cursors ((trigram, i) # rest) [] False None)
       (\<lambda>(cursors, heap, out, needs_sort).
          rbind (write_group trigram (if needs_sort then sort_controlled controlled file_id out else out) writer)
            (merge_loop amount controlled cursors heap))"
  by pat_completeness auto
termination
  by (relation "measure (\<lambda>(_, _, cursors, heap, _). merge_size cursors heap)")
    (auto dest: collect_group_size(2) simp del: collect_group.simps)

definition merge_segments ::
  "(nat \<Rightarrow> reads) \<Rightarrow> bool \<Rightarrow> byte list list \<Rightarrow> nat \<Rightarrow> index_files result"
where
  "merge_segments amount controlled segments read_budget_bytes =
     (let per_segment = segment_buffer_bytes read_budget_bytes (length segments)
      in rbind (open_cursors amount per_segment segments [] []) (\<lambda>(cursors, heap).
         rbind (merge_loop amount controlled cursors heap writer_create) (\<lambda>w. Inr (writer_finish w))))"

section \<open>The sorter\<close>

record external_sorter =
  arena :: "trigram_posting list"
  capacity :: nat
  budget_bytes :: nat
  segments :: "byte list list"
  is_controlled :: bool

definition TRIGRAM_POSTING_SIZE :: nat where "TRIGRAM_POSTING_SIZE = 12"

definition sorter_new :: "nat \<Rightarrow> bool \<Rightarrow> external_sorter" where
  "sorter_new budget controlled =
     \<lparr>arena = [], capacity = max (budget div TRIGRAM_POSTING_SIZE) 1024, budget_bytes = budget,
      segments = [], is_controlled = controlled\<rparr>"

definition posting_key :: "trigram_posting \<Rightarrow> u32 \<times> u32" where
  "posting_key p = (tp_trigram p, file_id (tp_entry p))"

definition sort_arena :: "external_sorter \<Rightarrow> external_sorter" where
  "sort_arena self = self\<lparr>arena := sort_controlled (is_controlled self) posting_key (arena self)\<rparr>"

definition spill_arena :: "external_sorter \<Rightarrow> external_sorter" where
  "spill_arena self =
     (if arena self = [] then self
      else let self = sort_arena self
           in self\<lparr>segments := segments self @ [segment_bytes (arena self)], arena := []\<rparr>)"

definition sorter_push :: "trigram_posting \<Rightarrow> external_sorter \<Rightarrow> external_sorter" where
  "sorter_push posting self =
     (let self = (if length (arena self) \<ge> capacity self then spill_arena self else self)
      in self\<lparr>arena := arena self @ [posting]\<rparr>)"

definition push_file :: "u32 \<Rightarrow> (u32 \<times> trigram_masks) list \<Rightarrow> external_sorter \<Rightarrow> external_sorter" where
  "push_file fid per_trigram self =
     fold (\<lambda>(trigram, m). sorter_push \<lparr>tp_trigram = trigram,
         tp_entry = \<lparr>loc_mask = loc_mask m, next_mask = next_mask m, file_id = fid\<rparr>\<rparr>) per_trigram self"

definition write_postings :: "(nat \<Rightarrow> reads) \<Rightarrow> external_sorter \<Rightarrow> (index_files \<times> nat) result" where
  "write_postings amount self =
     (if segments self = [] then
        rbind (write_sorted_arena (arena (sort_arena self))) (\<lambda>files. Inr (files, 0))
      else
        let self = spill_arena self
        in rbind (merge_segments amount (is_controlled self) (segments self) (budget_bytes self)) (\<lambda>files.
             Inr (files, length (segments self))))"

section \<open>The controlled sort sorts\<close>

definition entry_of :: "('a \<Rightarrow> 'k) \<Rightarrow> 'a list \<Rightarrow> nat \<Rightarrow> nat \<Rightarrow> 'k \<times> nat \<times> nat" where
  "entry_of key vs i stop = (key (vs ! i), i, stop)"

text \<open>The values a heap still stands for.\<close>

definition pending_values :: "'a list \<Rightarrow> ('k \<times> nat \<times> nat) list \<Rightarrow> 'a list" where
  "pending_values vs heap = concat (map (\<lambda>(_, i, stop). map ((!) vs) [i..<stop]) heap)"

definition heap_ok :: "('a \<Rightarrow> 'k::linorder) \<Rightarrow> 'a list \<Rightarrow> ('k \<times> nat \<times> nat) list \<Rightarrow> bool" where
  "heap_ok key vs heap \<longleftrightarrow> sorted heap \<and>
     (\<forall>(k, i, stop)\<in>set heap. k = key (vs ! i) \<and> i < stop \<and> sorted (map (\<lambda>j. key (vs ! j)) [i..<stop]))"

lemma pending_insort: "mset (pending_values vs (insort h heap)) = mset (pending_values vs (h # heap))"
  unfolding pending_values_def by (induction heap) (simp_all add: mset_concat del: mset_map mset_upt)

lemma set_pending_insort: "set (pending_values vs (insort h heap)) = set (pending_values vs (h # heap))"
  using pending_insort by (rule mset_eq_setD)

lemma pending_Cons:
  "pending_values vs ((k, i, stop) # heap) = map ((!) vs) [i..<stop] @ pending_values vs heap"
  by (simp add: pending_values_def)

lemma mem_pending:
  assumes "v \<in> set (pending_values vs heap)"
  shows "\<exists>k i stop j. (k, i, stop) \<in> set heap \<and> i \<le> j \<and> j < stop \<and> v = vs ! j"
proof -
  from assms obtain h where h: "h \<in> set heap" "v \<in> set (case h of (_, i, stop) \<Rightarrow> map ((!) vs) [i..<stop])"
    by (auto simp: pending_values_def)
  obtain k i stop where t: "h = (k, i, stop)" by (cases h)
  with h obtain j where "i \<le> j" "j < stop" "v = vs ! j" by auto
  with h t show ?thesis by blast
qed

lemma pending_low:
  assumes "heap_ok key vs ((k, i, stop) # heap)" "v \<in> set (pending_values vs ((k, i, stop) # heap))"
  shows "k \<le> key v"
proof -
  from assms(2) obtain k' i' stop' j where h: "(k', i', stop') \<in> set ((k, i, stop) # heap)"
    and j: "i' \<le> j" "j < stop'" "v = vs ! j"
    using mem_pending [OF assms(2)] by blast
  have "k' = key (vs ! i')" "sorted (map (\<lambda>j. key (vs ! j)) [i'..<stop'])"
    using assms(1) h unfolding heap_ok_def by blast+
  moreover from this(2) have "key (vs ! i') \<le> key (vs ! j)"
    using sorted_nth_mono [of "map (\<lambda>j. key (vs ! j)) [i'..<stop']" 0 "j - i'"] j by simp
  moreover have "k \<le> k'" using assms(1) h by (auto simp: heap_ok_def less_eq_prod_def)
  ultimately show ?thesis using j by simp
qed

lemma heap_merge_sorts:
  assumes "heap_ok key vs heap" "sorted (map key ordered)"
    and "\<forall>a\<in>set ordered. \<forall>v\<in>set (pending_values vs heap). key a \<le> key v"
  shows "sorted (map key (heap_merge key vs heap ordered)) \<and>
    mset (heap_merge key vs heap ordered) = mset (ordered @ pending_values vs heap)"
  using assms
proof (induction key vs heap ordered rule: heap_merge.induct)
  case (2 key vs k i stop heap ordered)
  let ?o = "ordered @ [vs ! i]"
  have k: "k = key (vs ! i)" "i < stop" "sorted (map (\<lambda>j. key (vs ! j)) [i..<stop])"
    using "2.prems"(1) by (auto simp: heap_ok_def)
  have vals: "[i..<stop] = i # [Suc i..<stop]" using k(2) by (simp add: upt_conv_Cons)
  have first: "pending_values vs ((k, i, stop) # heap) =
      vs ! i # map ((!) vs) [Suc i..<stop] @ pending_values vs heap"
    by (simp add: pending_Cons vals)
  have sorted: "sorted (map key ?o)"
    using "2.prems"(2,3) by (auto simp: sorted_append first)
  have low: "\<forall>a\<in>set ?o. \<forall>v\<in>set (map ((!) vs) [Suc i..<stop] @ pending_values vs heap). key a \<le> key v"
    using "2.prems"(3) [unfolded first] pending_low [OF "2.prems"(1), unfolded first] k(1) by auto
  show ?case
  proof (cases "Suc i < stop")
    case True
    let ?heap = "insort (key (vs ! Suc i), Suc i, stop) heap"
    have ok: "heap_ok key vs ?heap"
      using "2.prems"(1) k(3) True by (auto simp: heap_ok_def vals sorted_insort set_insort_key)
    have pend: "mset (pending_values vs ?heap) = mset (map ((!) vs) [Suc i..<stop] @ pending_values vs heap)"
      unfolding pending_insort pending_Cons ..
    have "\<forall>a\<in>set ?o. \<forall>v\<in>set (pending_values vs ?heap). key a \<le> key v"
      using low unfolding mset_eq_setD [OF pend] .
    then have "sorted (map key (heap_merge key vs ?heap ?o)) \<and>
        mset (heap_merge key vs ?heap ?o) = mset (?o @ pending_values vs ?heap)"
      using "2.IH"(1) [of ?o "Suc i"] True ok sorted by simp
    then show ?thesis
      unfolding first using True pend by (simp add: Let_def del: mset_map mset_upt)
  next
    case False
    then have none: "[Suc i..<stop] = []" by simp
    have ok: "heap_ok key vs heap" using "2.prems"(1) by (auto simp: heap_ok_def)
    have "sorted (map key (heap_merge key vs heap ?o)) \<and>
        mset (heap_merge key vs heap ?o) = mset (?o @ pending_values vs heap)"
      using "2.IH"(2) [of ?o "Suc i"] False ok sorted low by (simp add: none)
    then show ?thesis using False by (simp add: Let_def none first)
  qed
qed (simp add: pending_values_def)

lemma mset_sorted_chunks:
  "n \<noteq> 0 \<Longrightarrow> mset (concat (map (sort_key key) (chunks n xs))) = mset xs"
proof -
  assume "n \<noteq> 0"
  have "mset (concat (map (sort_key key) css)) = mset (concat css)" for css
    by (induction css) simp_all
  then show ?thesis using concat_chunks [OF \<open>n \<noteq> 0\<close>, of xs] by simp
qed

lemma sorted_slice:
  "n \<noteq> 0 \<Longrightarrow> sorted (map key (take n (drop (k * n) (concat (map (sort_key key) (chunks n xs))))))"
proof (induction n xs arbitrary: k rule: chunks.induct)
  case (1 n xs)
  show ?case
  proof (cases "xs = []")
    case False
    with 1 have chunks: "chunks n xs = take n xs # chunks n (drop n xs)" by (subst chunks.simps) simp
    show ?thesis
    proof (cases "length xs < n")
      case True
      then have "concat (map (sort_key key) (chunks n xs)) = sort_key key xs" unfolding chunks by simp
      then show ?thesis using True by (cases k) simp_all
    next
      case long: False
      then have len: "length (sort_key key (take n xs)) = n" by simp
      show ?thesis
      proof (cases k)
        case 0
        then show ?thesis unfolding chunks using len by simp
      next
        case (Suc k')
        have "drop (k * n) (concat (map (sort_key key) (chunks n xs))) =
            drop (k' * n) (concat (map (sort_key key) (chunks n (drop n xs))))"
          unfolding chunks Suc using len by simp
        then show ?thesis using "1.IH" [of k'] "1.prems" False by simp
      qed
    qed
  qed simp
qed

lemma slice_nth: "map ((!) vs) [s..<min (s + n) (length vs)] = take n (drop s vs)"
proof (rule nth_equalityI)
  fix i
  assume "i < length (map ((!) vs) [s..<min (s + n) (length vs)])"
  then have "i < min (s + n) (length vs) - s" by simp
  then have "s + i < min (s + n) (length vs)" by linarith
  then have "[s..<min (s + n) (length vs)] ! i = s + i" by (rule nth_upt)
  moreover have "i < length [s..<min (s + n) (length vs)]"
    using \<open>i < min (s + n) (length vs) - s\<close> by simp
  ultimately show "map ((!) vs) [s..<min (s + n) (length vs)] ! i = take n (drop s vs) ! i"
    using \<open>s + i < min (s + n) (length vs)\<close> by (simp only: nth_map) simp
qed auto

lemma concat_slices:
  "concat (map (\<lambda>k. take n (drop (k * n) vs)) [0..<m]) = take (m * n) vs"
proof (induction m)
  case (Suc m)
  have "Suc m * n = m * n + n" by simp
  then show ?case using Suc by (simp only: take_add) simp
qed simp

lemma initial_heap:
  fixes key :: "'a \<Rightarrow> 'k::linorder"
  defines "heap \<equiv> \<lambda>vs starts. fold (\<lambda>start heap. insort (key (vs ! start), start, min (start + SORT_CHUNK) (length vs)) heap) starts []"
  shows "sorted (heap vs starts)"
    and "set (heap vs starts) = (\<lambda>start. (key (vs ! start), start, min (start + SORT_CHUNK) (length vs))) ` set starts"
    and "mset (pending_values vs (heap vs starts)) = mset (concat (map (\<lambda>s. take SORT_CHUNK (drop s vs)) starts))"
proof -
  let ?f = "\<lambda>start. (key (vs ! start), start, min (start + SORT_CHUNK) (length vs))"
  have "sorted h0 \<Longrightarrow> sorted (fold (\<lambda>start heap. insort (?f start) heap) starts h0) \<and>
      set (fold (\<lambda>start heap. insort (?f start) heap) starts h0) = ?f ` set starts \<union> set h0 \<and>
      mset (pending_values vs (fold (\<lambda>start heap. insort (?f start) heap) starts h0)) =
        mset (concat (map (\<lambda>s. take SORT_CHUNK (drop s vs)) starts)) + mset (pending_values vs h0)" for h0
  proof (induction starts arbitrary: h0)
    case (Cons s starts)
    have "mset (pending_values vs (insort (?f s) h0)) = mset (take SORT_CHUNK (drop s vs)) + mset (pending_values vs h0)"
      unfolding pending_insort pending_Cons slice_nth by simp
    then show ?case using Cons.IH [of "insort (?f s) h0"] Cons.prems
      by (auto simp: sorted_insort set_insort_key add_ac)
  qed simp
  from this [of "[]"] show "sorted (heap vs starts)"
    "set (heap vs starts) = ?f ` set starts"
    "mset (pending_values vs (heap vs starts)) = mset (concat (map (\<lambda>s. take SORT_CHUNK (drop s vs)) starts))"
    by (simp_all add: heap_def pending_values_def)
qed

lemma sort_controlled_sorts:
  fixes key :: "'a \<Rightarrow> 'k::linorder"
  shows "sorted (map key (sort_controlled controlled key xs)) \<and> mset (sort_controlled controlled key xs) = mset xs"
proof (cases controlled)
  case False
  then show ?thesis by (simp add: sort_controlled_def)
next
  case True
  have pos: "SORT_CHUNK \<noteq> 0" by (simp add: SORT_CHUNK_def)
  define vs where "vs = concat (map (sort_key key) (chunks SORT_CHUNK xs))"
  have perm: "mset vs = mset xs" unfolding vs_def by (rule mset_sorted_chunks [OF pos])
  have slice: "sorted (map key (take SORT_CHUNK (drop (k * SORT_CHUNK) vs)))" for k
    unfolding vs_def by (rule sorted_slice [OF pos])
  show ?thesis
  proof (cases "length vs \<le> SORT_CHUNK")
    case True
    then have "sort_controlled controlled key xs = vs"
      using \<open>controlled\<close> by (simp add: sort_controlled_def Let_def vs_def)
    moreover have "take SORT_CHUNK (drop (0 * SORT_CHUNK) vs) = vs" using True by simp
    ultimately show ?thesis using slice [of 0] perm by simp
  next
    case False
    define heap where "heap = fold (\<lambda>start heap. insort (key (vs ! start), start,
        min (start + SORT_CHUNK) (length vs)) heap) (chunk_starts (length vs)) []"
    have run: "sort_controlled controlled key xs = heap_merge key vs heap []"
      using \<open>controlled\<close> False by (simp add: sort_controlled_def Let_def vs_def heap_def)
    note h = initial_heap [where key = key and vs = vs and starts = "chunk_starts (length vs)", folded heap_def]
    let ?m = "(length vs + SORT_CHUNK - 1) div SORT_CHUNK"
    have bound: "k * SORT_CHUNK < length vs \<longleftrightarrow> k < ?m" for k
      unfolding SORT_CHUNK_def by linarith
    have "heap_ok key vs heap"
      unfolding heap_ok_def
    proof (intro conjI ballI)
      fix e
      assume "e \<in> set heap"
      then obtain k where k: "k < ?m" and e: "e = (key (vs ! (k * SORT_CHUNK)), k * SORT_CHUNK,
          min (k * SORT_CHUNK + SORT_CHUNK) (length vs))"
        by (auto simp: h(2) chunk_starts_def)
      have "map (\<lambda>j. key (vs ! j)) [k * SORT_CHUNK..<min (k * SORT_CHUNK + SORT_CHUNK) (length vs)] =
          map key (take SORT_CHUNK (drop (k * SORT_CHUNK) vs))"
        unfolding slice_nth [symmetric] by simp
      then show "case e of (k, i, stop) \<Rightarrow> k = key (vs ! i) \<and> i < stop \<and> sorted (map (\<lambda>j. key (vs ! j)) [i..<stop])"
        using slice [of k] k pos unfolding e bound [symmetric] by simp
    qed (rule h(1))
    moreover have "mset (pending_values vs heap) = mset vs"
    proof -
      have "length vs \<le> ?m * SORT_CHUNK" by (simp add: SORT_CHUNK_def)
      then have "concat (map (\<lambda>s. take SORT_CHUNK (drop s vs)) (chunk_starts (length vs))) = vs"
        using concat_slices [of SORT_CHUNK vs ?m] by (simp add: chunk_starts_def comp_def)
      then show ?thesis by (simp only: h(3))
    qed
    ultimately show ?thesis using heap_merge_sorts [of key vs heap "[]"] perm by (simp add: run)
  qed
qed

lemma sort_controlled_unique:
  assumes "inj_on key (set xs)"
  shows "sort_controlled controlled key xs = sort_key key xs"
  using sort_key_inj_key_eq [of xs "sort_controlled controlled key xs" key] sort_controlled_sorts [of key controlled xs] assms
  by simp

section \<open>Groups by trigram\<close>

definition entries_of :: "u32 \<Rightarrow> trigram_posting list \<Rightarrow> posting_entry list" where
  "entries_of t ps = map tp_entry (filter (\<lambda>p. tp_trigram p = t) ps)"

text \<open>The index of a list of postings: for each trigram its entries by file.\<close>

definition index_groups :: "trigram_posting list \<Rightarrow> (u32 \<times> posting_entry list) list" where
  "index_groups ps =
     map (\<lambda>t. (t, sort_key file_id (entries_of t ps))) (sorted_list_of_set (tp_trigram ` set ps))"

lemma sorted_run:
  assumes "sorted (map f (p # rest))"
  shows "takeWhile (\<lambda>q. f q = f p) rest = filter (\<lambda>q. f q = (f p :: 'b::linorder)) rest"
    and "dropWhile (\<lambda>q. f q = f p) rest = filter (\<lambda>q. f q \<noteq> f p) rest"
proof -
  have "takeWhile (\<lambda>q. f q = f p) rest = filter (\<lambda>q. f q = f p) rest \<and>
      dropWhile (\<lambda>q. f q = f p) rest = filter (\<lambda>q. f q \<noteq> f p) rest"
    using assms
  proof (induction rest)
    case (Cons q rest)
    show ?case
    proof (cases "f q = f p")
      case False
      then have "f p < f q" using Cons.prems by (auto simp: less_le)
      moreover have "\<forall>r\<in>set rest. f q \<le> f r" using Cons.prems by simp
      ultimately have "\<forall>r\<in>set (q # rest). f r \<noteq> f p" by auto
      then have "filter (\<lambda>r. f r = f p) (q # rest) = []" "filter (\<lambda>r. f r \<noteq> f p) (q # rest) = q # rest"
        unfolding filter_empty_conv filter_id_conv by blast+
      with False show ?thesis by simp
    qed (use Cons in simp)
  qed simp
  then show "takeWhile (\<lambda>q. f q = f p) rest = filter (\<lambda>q. f q = f p) rest"
    "dropWhile (\<lambda>q. f q = f p) rest = filter (\<lambda>q. f q \<noteq> f p) rest" by blast+
qed

lemma groups_of_sorted:
  assumes "sorted (map tp_trigram ps)"
  shows "ascending (map fst (groups_of ps)) \<and> set (map fst (groups_of ps)) = tp_trigram ` set ps \<and>
    (\<forall>g\<in>set (groups_of ps). snd g = entries_of (fst g) ps)"
  using assms
proof (induction ps rule: groups_of.induct)
  case (2 p rest)
  let ?t = "tp_trigram p" and ?rest = "filter (\<lambda>q. tp_trigram q \<noteq> tp_trigram p) rest"
  note run = sorted_run [OF "2.prems"]
  have "sorted (map tp_trigram ?rest)" using "2.prems" by (simp add: sorted_filter)
  then have IH: "ascending (map fst (groups_of ?rest))" "set (map fst (groups_of ?rest)) = tp_trigram ` set ?rest"
    "\<forall>g\<in>set (groups_of ?rest). snd g = entries_of (fst g) ?rest"
    using "2.IH" unfolding run by blast+
  have later: "?t < t" if "t \<in> set (map fst (groups_of ?rest))" for t
    using that "2.prems" unfolding IH(2) by (auto simp: less_le)
  have "entries_of t ?rest = entries_of t (p # rest)" if "t \<noteq> ?t" for t
    using that by (auto simp: entries_of_def intro!: arg_cong [where f = "map tp_entry"] filter_cong)
  then have "\<forall>g\<in>set (groups_of ?rest). snd g = entries_of (fst g) (p # rest)"
    using IH(3) later by fastforce
  moreover have "map tp_entry (p # takeWhile (\<lambda>q. tp_trigram q = ?t) rest) = entries_of ?t (p # rest)"
    unfolding run by (simp add: entries_of_def)
  moreover have "insert ?t (tp_trigram ` set ?rest) = tp_trigram ` set (p # rest)" by auto
  ultimately show ?case
    using IH(1,2) later unfolding groups_of.simps run by simp
qed simp

lemma inj_on_entries_of:
  assumes "inj_on posting_key (set ps)"
  shows "inj_on file_id (set (entries_of t ps))"
proof (rule inj_onI)
  fix x y
  assume "x \<in> set (entries_of t ps)" "y \<in> set (entries_of t ps)" "file_id x = file_id y"
  then obtain p q where "p \<in> set ps" "q \<in> set ps" "x = tp_entry p" "y = tp_entry q" "posting_key p = posting_key q"
    by (auto simp: entries_of_def posting_key_def)
  then show "x = y" using assms by (auto dest: inj_onD)
qed

lemma entries_of_sorted:
  assumes inj: "inj_on posting_key (set ps)" and perm: "mset qs = mset ps" and sorted: "sorted (map posting_key qs)"
  shows "entries_of t qs = sort_key file_id (entries_of t ps)"
proof (rule sort_key_inj_key_eq [symmetric])
  show "mset (entries_of t ps) = mset (entries_of t qs)"
    using perm by (simp add: entries_of_def mset_filter)
  show "inj_on file_id (set (entries_of t ps))" using inj by (rule inj_on_entries_of)
  have "sorted (map posting_key (filter (\<lambda>p. tp_trigram p = t) qs))" using sorted by (rule sorted_filter)
  then show "sorted (map file_id (entries_of t qs))"
    unfolding entries_of_def by (induction qs) (auto simp: posting_key_def less_eq_prod_def split: if_splits)
qed

lemma trigram_sorted: "sorted (map posting_key ps) \<Longrightarrow> sorted (map tp_trigram ps)"
  by (induction ps) (auto simp: posting_key_def less_eq_prod_def)

lemma groups_of_arena:
  assumes "inj_on posting_key (set ps)" "mset qs = mset ps" "sorted (map posting_key qs)"
  shows "groups_of qs = index_groups ps"
proof -
  note g = groups_of_sorted [OF trigram_sorted [OF assms(3)]]
  have "map fst (groups_of qs) = sorted_list_of_set (tp_trigram ` set ps)"
    using g mset_eq_setD [OF assms(2)] by (intro ascending_eqI) simp_all
  moreover have "groups_of qs = map (\<lambda>t. (t, entries_of t qs)) (map fst (groups_of qs))"
    using g by (auto simp: comp_def intro!: map_idI [symmetric] prod_eqI)
  ultimately show ?thesis using entries_of_sorted [OF assms] by (simp add: index_groups_def)
qed

fun write_all :: "(u32 \<times> posting_entry list) list \<Rightarrow> index_writer \<Rightarrow> index_writer result" where
  "write_all [] w = Inr w"
| "write_all ((t, es) # gs) w = rbind (write_group t es w) (write_all gs)"

lemma sorted_loop_groups: "sorted_loop ps w = write_all (groups_of ps) w"
proof (induction ps w rule: sorted_loop.induct)
  case (2 p rest w)
  show ?case
    by (cases "write_group (tp_trigram p) (map tp_entry (p # takeWhile (\<lambda>q. tp_trigram q = tp_trigram p) rest)) w")
      (use 2 in \<open>simp_all add: Let_def\<close>)
qed simp

end
