(* ===== verification/Merge.thy ===== *)
theory Merge
  imports External
begin

text \<open>
  The k-way merge of the spill segments of \<^verbatim>\<open>tgrep-core/src/external.rs\<close> and the external
  sorter as a whole: the files written after any number of spills, through any split of the reads
  and in either mode of sorting, are those of one sort of all the postings in memory.
\<close>

section \<open>The heap of the merge\<close>

definition group_at :: "u32 \<Rightarrow> (u32 \<times> posting_entry list) list \<Rightarrow> posting_entry list" where
  "group_at t gs = (case map_of gs t of Some es \<Rightarrow> es | None \<Rightarrow> [])"

definition heads :: "(u32 \<times> posting_entry list) list list \<Rightarrow> (u32 \<times> nat) set" where
  "heads Gs = {(fst (hd (Gs ! i)), i) | i. i < length Gs \<and> Gs ! i \<noteq> []}"

text \<open>Each cursor has read the header of the first group it still holds, and the heap holds these.\<close>

definition merge_inv :: "segment_cursor list \<Rightarrow> merge_heap \<Rightarrow> (u32 \<times> posting_entry list) list list \<Rightarrow> bool" where
  "merge_inv cursors heap Gs \<longleftrightarrow>
     length cursors = length Gs \<and> (\<forall>i<length Gs. cursor_in (cursors ! i) (Gs ! i)) \<and>
     heap = sorted_list_of_set (heads Gs)"

lemma finite_heads [simp]: "finite (heads Gs)"
proof -
  have "heads Gs \<subseteq> (\<lambda>i. (fst (hd (Gs ! i)), i)) ` {..<length Gs}" by (auto simp: heads_def)
  then show ?thesis by (rule finite_subset) simp
qed

lemma heads_iff: "(u, i) \<in> heads Gs \<longleftrightarrow> i < length Gs \<and> Gs ! i \<noteq> [] \<and> u = fst (hd (Gs ! i))"
  by (auto simp: heads_def)

lemma heads_update:
  assumes "i < length Gs" "Gs ! i = g # gs"
  shows "heads (Gs[i := gs]) = heads Gs - {(fst g, i)} \<union> (if gs = [] then {} else {(fst (hd gs), i)})"
proof (rule set_eqI)
  fix x :: "u32 \<times> nat"
  obtain u j where x: "x = (u, j)" by (cases x)
  show "x \<in> heads (Gs[i := gs]) \<longleftrightarrow> x \<in> heads Gs - {(fst g, i)} \<union> (if gs = [] then {} else {(fst (hd gs), i)})"
    using assms unfolding x by (cases "j = i") (auto simp: heads_iff)
qed

lemma push_next_heads:
  assumes "i < length Gs" "Gs ! i = g # gs"
  shows "push_next (map_option fst (if gs = [] then None else Some (hd gs))) i
      (sorted_list_of_set (heads Gs - {(fst g, i)})) = sorted_list_of_set (heads (Gs[i := gs]))"
proof (cases "gs = []")
  case True
  then show ?thesis unfolding heads_update [OF assms] by (simp add: push_next_def)
next
  case False
  have "(fst (hd gs), i) \<notin> heads Gs - {(fst g, i)}" using assms by (auto simp: heads_iff)
  then show ?thesis using False unfolding heads_update [OF assms]
    by (simp add: push_next_def sorted_list_of_set.sorted_key_list_of_set_insert)
qed

lemma group_at_above: "\<forall>g\<in>set gs. t < fst g \<Longrightarrow> group_at t gs = []"
  by (auto simp: group_at_def dest!: map_of_SomeD split: option.split)

lemma group_at_not_head:
  assumes "ascending (map fst gs)" "gs \<noteq> [] \<longrightarrow> t < fst (hd gs)"
  shows "group_at t gs = []" "filter (\<lambda>g. fst g \<noteq> t) gs = gs"
proof -
  have "\<forall>g\<in>set gs. t < fst g" using assms by (cases gs) auto
  then show "group_at t gs = []" "filter (\<lambda>g. fst g \<noteq> t) gs = gs"
    by (auto intro!: group_at_above simp: filter_id_conv)
qed

definition sorted_so_far :: "bool \<Rightarrow> posting_entry list \<Rightarrow> bool" where
  "sorted_so_far needs_sort out \<longleftrightarrow> needs_sort \<or> sorted (map file_id out)"

definition last_id :: "posting_entry list \<Rightarrow> u32 option" where
  "last_id out = (if out = [] then None else Some (file_id (last out)))"

lemma sorted_last: "sorted xs \<Longrightarrow> x \<in> set xs \<Longrightarrow> x \<le> last xs"
  by (induction xs) auto

lemma sorted_append_run:
  assumes "sorted_so_far needs out" "sorted (map file_id es)"
  shows "sorted_so_far (needs \<or> (case last_id out of
      Some prev \<Rightarrow> length out < length (out @ es) \<and> file_id ((out @ es) ! length out) \<le> prev
    | None \<Rightarrow> False)) (out @ es)"
proof (cases "needs \<or> out = [] \<or> es = []")
  case True
  then show ?thesis using assms by (auto simp: sorted_so_far_def last_id_def)
next
  case False
  then obtain e es' where es: "es = e # es'" by (cases es) auto
  have out: "sorted (map file_id out)" using assms(1) False by (simp add: sorted_so_far_def)
  have "sorted (map file_id (out @ es))" if "file_id (last out) < file_id e"
  proof -
    have "x \<le> y" if "x \<in> set (map file_id out)" "y \<in> set (map file_id es)" for x y
    proof -
      have "x \<le> file_id (last out)" using sorted_last [OF out that(1)] False by (simp add: last_map)
      also have "\<dots> \<le> file_id e" using \<open>file_id (last out) < file_id e\<close> by simp
      also have "\<dots> \<le> y" using that(2) assms(2) es by auto
      finally show ?thesis .
    qed
    then show ?thesis using out assms(2) by (simp add: sorted_append)
  qed
  then show ?thesis using False
    by (cases "file_id (last out) < file_id e") (auto simp: sorted_so_far_def last_id_def es nth_append)
qed

lemma ascending_hd: "ascending (map fst (g # gs)) \<Longrightarrow> gs \<noteq> [] \<Longrightarrow> fst g < fst (hd gs)"
  by (cases gs) simp_all

lemma mset_concat_update:
  assumes "i < length xs"
  shows "mset (concat (map f (xs[i := y]))) + mset (f (xs ! i)) = mset (concat (map f xs)) + mset (f y)"
  using assms
proof (induction xs arbitrary: i)
  case (Cons x xs)
  show ?case
  proof (cases i)
    case (Suc j)
    then show ?thesis using Cons.IH [of j] Cons.prems by (simp add: add_ac)
  qed simp
qed simp

lemma sorted_list_of_set_Cons:
  fixes S :: "'a::linorder set"
  assumes "sorted_list_of_set S = x # xs" "finite S"
  shows "x \<in> S" "\<forall>y\<in>S. x \<le> y" "xs = sorted_list_of_set (S - {x})"
proof -
  have S: "set (x # xs) = S" "sorted (x # xs)" "distinct (x # xs)"
    using assms by (simp_all flip: assms(1))
  then show "x \<in> S" "\<forall>y\<in>S. x \<le> y" by auto
  have "S - {x} = set xs" using S by auto
  then show "xs = sorted_list_of_set (S - {x})" using S by (simp add: sorted_list_of_set.idem_if_sorted_distinct)
qed

text \<open>The inner loop takes the groups of the least trigram, each segment's once.\<close>

lemma collect_group_takes:
  assumes "merge_inv cursors heap Gs" "sorted_so_far needs out" "\<forall>h\<in>heads Gs. t \<le> fst h"
  shows "\<exists>cursors' heap' out' needs'.
    collect_group amount t cursors heap out needs (last_id out) = Inr (cursors', heap', out', needs') \<and>
    merge_inv cursors' heap' (map (filter (\<lambda>g. fst g \<noteq> t)) Gs) \<and> sorted_so_far needs' out' \<and>
    mset out' = mset out + mset (concat (map (group_at t) Gs))"
  using assms
proof (induction "sum_list (map length Gs)" arbitrary: cursors heap Gs out needs rule: less_induct)
  case less
  note cin = less.prems(1) [unfolded merge_inv_def]
  have asc: "ascending (map fst G)" if "G \<in> set Gs" for G
    using that cin by (auto simp: in_set_conv_nth cursor_in_def)
  show ?case
  proof (cases "heap \<noteq> [] \<and> fst (hd heap) = t")
    case False
    have "fst h \<noteq> t" if "h \<in> heads Gs" for h
    proof
      assume "fst h = t"
      have hs: "set heap = heads Gs" "sorted heap" using cin by simp_all
      have "heap \<noteq> []"
      proof
        assume "heap = []"
        then have "heads Gs = {}" using hs(1) by simp
        with that show False by blast
      qed
      then obtain x xs where x: "heap = x # xs" by (cases heap) auto
      then have "x \<in> heads Gs" "x \<le> h" using that hs by auto
      then have "t \<le> fst x" "fst x \<le> fst h" using less.prems(3) by (auto simp: less_eq_prod_def)
      then have "fst x = t" using \<open>fst h = t\<close> by simp
      with x False show False by simp
    qed
    then have above: "t < fst h" if "h \<in> heads Gs" for h
      using that less.prems(3) by (simp add: less_le eq_commute)
    have above: "G \<noteq> [] \<longrightarrow> t < fst (hd G)" if "G \<in> set Gs" for G
    proof
      assume "G \<noteq> []"
      obtain i where "i < length Gs" "Gs ! i = G" using \<open>G \<in> set Gs\<close> by (auto simp: in_set_conv_nth)
      then have "(fst (hd G), i) \<in> heads Gs" using \<open>G \<noteq> []\<close> by (simp add: heads_iff)
      from above [OF this] show "t < fst (hd G)" by simp
    qed
    have "map (filter (\<lambda>g. fst g \<noteq> t)) Gs = Gs" "concat (map (group_at t) Gs) = []"
      using group_at_not_head [OF asc above] by (simp_all add: map_idI)
    moreover have "collect_group amount t cursors heap out needs (last_id out) = Inr (cursors, heap, out, needs)"
      using False by (cases heap) auto
    ultimately show ?thesis using less.prems by simp
  next
    case True
    then obtain i rest where heap: "heap = (t, i) # rest" by (cases heap) auto
    have srt: "sorted_list_of_set (heads Gs) = (t, i) # rest" using cin heap by simp
    note h = sorted_list_of_set_Cons [OF srt finite_heads]
    then obtain g gs where i: "i < length Gs" "Gs ! i = g # gs" "t = fst g"
      by (cases "Gs ! i") (auto simp: heads_iff)
    define es where "es = snd g"
    have g: "g = (t, es)" by (simp add: i es_def)
    have cur: "cursor_in (cursors ! i) ((t, es) # gs)"
    proof -
      have "cursor_in (cursors ! i) (Gs ! i)" using cin i(1) by blast
      then show ?thesis by (simp only: i(2) g)
    qed
    from take_group_in [OF cur] obtain c1 where
      c1: "take_group (amount i) (cursors ! i) out = Inr (c1, out @ es)" "cursor_at c1 gs" by blast
    from advance_at [OF c1(2)] obtain c2 where
      c2: "advance (amount i) c1 = Inr (map_option fst (if gs = [] then None else Some (hd gs)), c2)" "cursor_in c2 gs"
      by blast
    let ?needs = "needs \<or> (case last_id out of
      Some prev \<Rightarrow> length out < length (out @ es) \<and> file_id ((out @ es) ! length out) \<le> prev | None \<Rightarrow> False)"
    let ?heap = "push_next (map_option fst (if gs = [] then None else Some (hd gs))) i rest"
    have step: "collect_group amount t cursors heap out needs (last_id out) =
        collect_group amount t (cursors[i := c2]) ?heap (out @ es) ?needs (last_id (out @ es))"
    proof -
      have "\<not> length cursors \<le> i" using cin i(1) by simp
      then show ?thesis using c1(1) c2(1) unfolding heap collect_group.simps(2)
        by (simp del: collect_group.simps add: last_id_def Let_def)
    qed
    have heap': "?heap = sorted_list_of_set (heads (Gs[i := gs]))"
      using push_next_heads [OF i(1,2)] h(3) i(3) by simp
    have inv': "merge_inv (cursors[i := c2]) ?heap (Gs[i := gs])"
      using cin c2(2) i(1) by (auto simp: merge_inv_def nth_list_update heap')
    have asc_i: "ascending (map fst (g # gs))" using asc [of "Gs ! i"] nth_mem [OF i(1)] by (simp only: i(2))
    have "\<forall>h\<in>heads (Gs[i := gs]). t \<le> fst h"
      using less.prems(3) ascending_hd [OF asc_i] i(3) by (auto simp: heads_update [OF i(1,2)])
    moreover have "sum_list (map length (Gs[i := gs])) < sum_list (map length Gs)"
      using i(1,2) by (induction Gs arbitrary: i) (auto simp: nth_Cons split: nat.splits)
    moreover have "sorted (map file_id es)" using cur by (auto simp: cursor_in_def group_ok_def)
    ultimately obtain cursors' heap' out' needs' where IH:
      "collect_group amount t (cursors[i := c2]) ?heap (out @ es) ?needs (last_id (out @ es)) = Inr (cursors', heap', out', needs')"
      "merge_inv cursors' heap' (map (filter (\<lambda>g. fst g \<noteq> t)) (Gs[i := gs]))" "sorted_so_far needs' out'"
      "mset out' = mset (out @ es) + mset (concat (map (group_at t) (Gs[i := gs])))"
      using less.hyps [OF _ inv' sorted_append_run [OF less.prems(2)]] by blast
    have tail: "group_at t gs = []" "filter (\<lambda>g. fst g \<noteq> t) gs = gs"
      using asc_i ascending_hd [OF asc_i] by (auto intro!: group_at_not_head simp: i(3))
    have "map (filter (\<lambda>g. fst g \<noteq> t)) (Gs[i := gs]) = map (filter (\<lambda>g. fst g \<noteq> t)) Gs"
      using i(1) tail(2) by (simp add: map_update list_update_same_conv i(2) g)
    moreover have "mset (concat (map (group_at t) (Gs[i := gs]))) + mset es = mset (concat (map (group_at t) Gs))"
      using mset_concat_update [OF i(1), of "group_at t" gs] tail(1) by (simp add: i(2) g group_at_def)
    ultimately show ?thesis using IH unfolding step by (auto simp: add_ac)
  qed
qed

definition trigrams_in :: "(u32 \<times> posting_entry list) list list \<Rightarrow> u32 set" where
  "trigrams_in Gs = (\<Union>G\<in>set Gs. fst ` set G)"

definition merged :: "(u32 \<times> posting_entry list) list list \<Rightarrow> (u32 \<times> posting_entry list) list" where
  "merged Gs = map (\<lambda>t. (t, sort_key file_id (concat (map (group_at t) Gs)))) (sorted_list_of_set (trigrams_in Gs))"

lemma group_at_filter: "u \<noteq> t \<Longrightarrow> group_at u (filter (\<lambda>g. fst g \<noteq> t) gs) = group_at u gs"
  by (induction gs) (auto simp: group_at_def)

lemma finite_trigrams_in [simp]: "finite (trigrams_in Gs)"
  by (simp add: trigrams_in_def)

lemma merge_head:
  assumes "merge_inv cursors ((t, i) # rest) Gs"
  shows "\<forall>h\<in>heads Gs. t \<le> fst h" "t \<in> trigrams_in Gs" "\<forall>u\<in>trigrams_in Gs. t \<le> u"
proof -
  have srt: "sorted_list_of_set (heads Gs) = (t, i) # rest" using assms by (simp add: merge_inv_def)
  note h = sorted_list_of_set_Cons [OF srt finite_heads]
  from h(2) show least: "\<forall>h\<in>heads Gs. t \<le> fst h" by (auto simp: less_eq_prod_def)
  from h(1) have "i < length Gs" "Gs ! i \<noteq> []" "t = fst (hd (Gs ! i))" by (simp_all add: heads_iff)
  then show "t \<in> trigrams_in Gs" unfolding trigrams_in_def
    by (intro UN_I [of "Gs ! i"] image_eqI [of _ _ "hd (Gs ! i)"]) simp_all
  show "\<forall>u\<in>trigrams_in Gs. t \<le> u"
  proof
    fix u
    assume "u \<in> trigrams_in Gs"
    then obtain G g where "G \<in> set Gs" and G: "g \<in> set G" "u = fst g" by (auto simp: trigrams_in_def)
    then obtain j where "j < length Gs" "Gs ! j = G" by (auto simp: in_set_conv_nth)
    with G have j: "j < length Gs" "g \<in> set (Gs ! j)" "u = fst g" by simp_all
    then obtain g0 gs where G: "Gs ! j = g0 # gs" by (cases "Gs ! j") auto
    have "cursor_in (cursors ! j) (Gs ! j)" using assms j(1) by (simp add: merge_inv_def)
    then have "ascending (map fst (g0 # gs))" by (simp add: cursor_in_def G)
    then have "fst g0 \<le> u" using j(2,3) by (auto simp: G less_imp_le)
    moreover have "(fst g0, j) \<in> heads Gs" using j(1) by (simp add: heads_iff G)
    with least have "t \<le> fst g0" by auto
    ultimately show "t \<le> u" by simp
  qed
qed

lemma merged_step:
  assumes "t \<in> trigrams_in Gs" "\<forall>u\<in>trigrams_in Gs. t \<le> u"
  shows "merged Gs = (t, sort_key file_id (concat (map (group_at t) Gs))) # merged (map (filter (\<lambda>g. fst g \<noteq> t)) Gs)"
proof -
  have set: "trigrams_in (map (filter (\<lambda>g. fst g \<noteq> t)) Gs) = trigrams_in Gs - {t}"
    by (auto simp: trigrams_in_def)
  have "sorted_list_of_set (trigrams_in Gs) = t # sorted_list_of_set (trigrams_in Gs - {t})"
    using assms sorted_list_of_set_nonempty [OF finite_trigrams_in, of Gs] Min_eqI [OF finite_trigrams_in, of Gs t]
    by auto
  moreover have "concat (map (group_at u) (map (filter (\<lambda>g. fst g \<noteq> t)) Gs)) = concat (map (group_at u) Gs)"
    if "u \<noteq> t" for u
    using group_at_filter [OF that] by (simp add: comp_def)
  ultimately show ?thesis
    by (simp add: merged_def set del: map_map)
qed

lemma merge_loop_writes:
  assumes "merge_inv cursors heap Gs" "\<forall>t. inj_on file_id (set (concat (map (group_at t) Gs)))"
  shows "merge_loop amount controlled cursors heap w = write_all (merged Gs) w"
  using assms
proof (induction "card (trigrams_in Gs)" arbitrary: cursors heap Gs w rule: less_induct)
  case less
  show ?case
  proof (cases heap)
    case Nil
    then have "set (sorted_list_of_set (heads Gs)) = {}" using less.prems(1) by (simp add: merge_inv_def)
    then have "heads Gs = {}" by (simp only: set_sorted_list_of_set finite_heads)
    then have "\<forall>i<length Gs. Gs ! i = []" by (auto simp: heads_def)
    then have "trigrams_in Gs = {}" by (auto simp: trigrams_in_def in_set_conv_nth)
    then show ?thesis using Nil by (simp add: merged_def)
  next
    case (Cons e rest)
    obtain t i where e: "e = (t, i)" by (cases e)
    let ?Gs = "map (filter (\<lambda>g. fst g \<noteq> t)) Gs"
    note inv = less.prems(1) [unfolded Cons e]
    note head = merge_head [OF inv]
    have "sorted_so_far False []" "last_id [] = None" by (simp_all add: sorted_so_far_def last_id_def)
    with collect_group_takes [OF inv, of False "[]" t amount] head(1) obtain cursors' heap' out needs where
      c: "collect_group amount t cursors ((t, i) # rest) [] False None = Inr (cursors', heap', out, needs)"
      "merge_inv cursors' heap' ?Gs" "sorted_so_far needs out" "mset out = mset (concat (map (group_at t) Gs))"
      by auto
    have inj: "inj_on file_id (set out)" using less.prems(2) mset_eq_setD [OF c(4)] by simp
    have "(if needs then sort_controlled controlled file_id out else out) = sort_key file_id (concat (map (group_at t) Gs))"
    proof (rule sort_key_inj_key_eq [symmetric])
      show "inj_on file_id (set (concat (map (group_at t) Gs)))" using less.prems(2) by blast
      show "mset (concat (map (group_at t) Gs)) = mset (if needs then sort_controlled controlled file_id out else out)"
        using c(4) sort_controlled_sorts [of file_id controlled out] by simp
      show "sorted (map file_id (if needs then sort_controlled controlled file_id out else out))"
        using c(3) sort_controlled_sorts [of file_id controlled out] by (auto simp: sorted_so_far_def)
    qed
    moreover have "merge_loop amount controlled cursors' heap' = write_all (merged ?Gs)"
    proof (rule ext, rule less.hyps [OF _ c(2)])
      have "trigrams_in ?Gs = trigrams_in Gs - {t}" by (auto simp: trigrams_in_def)
      then show "card (trigrams_in ?Gs) < card (trigrams_in Gs)"
        using head(2) by (simp only: card_Diff1_less finite_trigrams_in)
      show "\<forall>u. inj_on file_id (set (concat (map (group_at u) ?Gs)))"
      proof
        fix u
        have "group_at t (filter (\<lambda>g. fst g \<noteq> t) gs) = []" for gs
          by (induction gs) (auto simp: group_at_def)
        then show "inj_on file_id (set (concat (map (group_at u) ?Gs)))"
          using less.prems(2) by (cases "u = t") (auto simp: comp_def group_at_filter inj_on_def)
      qed
    qed
    ultimately show ?thesis
      by (simp add: Cons e c(1) merged_step [OF head(2,3)] del: collect_group.simps)
  qed
qed

lemma heads_snoc: "heads (Gs @ [G]) = heads Gs \<union> (if G = [] then {} else {(fst (hd G), length Gs)})"
proof (rule set_eqI)
  fix x :: "u32 \<times> nat"
  obtain u j where x: "x = (u, j)" by (cases x)
  show "x \<in> heads (Gs @ [G]) \<longleftrightarrow> x \<in> heads Gs \<union> (if G = [] then {} else {(fst (hd G), length Gs)})"
    unfolding x by (auto simp: heads_iff nth_append less_Suc_eq)
qed

lemma open_cursors_inv:
  assumes "merge_inv cursors heap Gs"
    and "\<forall>part\<in>set parts. ascending (map fst (groups_of part)) \<and> (\<forall>g\<in>set (groups_of part). group_ok g)"
  shows "\<exists>cursors' heap'. open_cursors amount n (map segment_bytes parts) cursors heap = Inr (cursors', heap') \<and>
    merge_inv cursors' heap' (Gs @ map groups_of parts)"
  using assms
proof (induction parts arbitrary: cursors heap Gs)
  case (Cons part parts)
  let ?G = "groups_of part" and ?i = "length cursors"
  have "cursor_at (cursor_open (segment_bytes part) n) ?G" using Cons.prems(2) by (intro cursor_at_open) simp_all
  from advance_at [OF this, of "amount ?i"] obtain c where
    c: "advance (amount ?i) (cursor_open (segment_bytes part) n) =
        Inr (map_option fst (if ?G = [] then None else Some (hd ?G)), c)" "cursor_in c ?G" by blast
  let ?heap = "push_next (map_option fst (if ?G = [] then None else Some (hd ?G))) ?i heap"
  have len: "?i = length Gs" and heap: "heap = sorted_list_of_set (heads Gs)"
    and cur: "\<forall>i<length Gs. cursor_in (cursors ! i) (Gs ! i)"
    using Cons.prems(1) by (simp_all add: merge_inv_def)
  have "(fst (hd ?G), length Gs) \<notin> heads Gs" by (simp add: heads_iff)
  then have "?heap = sorted_list_of_set (heads (Gs @ [?G]))"
    by (simp add: push_next_def heads_snoc len heap sorted_list_of_set.sorted_key_list_of_set_insert)
  moreover have "\<forall>i<length (Gs @ [?G]). cursor_in ((cursors @ [c]) ! i) ((Gs @ [?G]) ! i)"
    using cur c(2) len by (auto simp: nth_append less_Suc_eq)
  ultimately have "merge_inv (cursors @ [c]) ?heap (Gs @ [?G])"
    using len by (simp add: merge_inv_def)
  from Cons.IH [OF this] Cons.prems(2) c(1) show ?case by (simp add: Let_def)
qed simp

section \<open>The sorter holds what was pushed\<close>

definition sorter_holds :: "external_sorter \<Rightarrow> trigram_posting list \<Rightarrow> bool" where
  "sorter_holds self ps \<longleftrightarrow>
     (\<exists>parts. segments self = map segment_bytes parts \<and> (\<forall>p\<in>set parts. sorted (map posting_key p)) \<and>
       mset (concat parts) + mset (arena self) = mset ps)"

lemma sorter_holds_spill: "sorter_holds self ps \<Longrightarrow> sorter_holds (spill_arena self) ps"
proof -
  assume "sorter_holds self ps"
  then obtain parts where p: "segments self = map segment_bytes parts" "\<forall>p\<in>set parts. sorted (map posting_key p)"
    "mset (concat parts) + mset (arena self) = mset ps" by (auto simp: sorter_holds_def)
  let ?part = "sort_controlled (is_controlled self) posting_key (arena self)"
  have "sorted (map posting_key ?part)" "mset ?part = mset (arena self)"
    using sort_controlled_sorts [of posting_key "is_controlled self" "arena self"] by simp_all
  then have "segments (spill_arena self) = map segment_bytes (parts @ [?part]) \<and>
      (\<forall>p\<in>set (parts @ [?part]). sorted (map posting_key p)) \<and>
      mset (concat (parts @ [?part])) + mset (arena (spill_arena self)) = mset ps" if "arena self \<noteq> []"
    using that p by (simp add: spill_arena_def sort_arena_def Let_def)
  then have "sorter_holds (spill_arena self) ps" if "arena self \<noteq> []"
    unfolding sorter_holds_def using that by blast
  then show ?thesis
    using \<open>sorter_holds self ps\<close> by (cases "arena self = []") (simp_all add: spill_arena_def)
qed

lemma sorter_holds_push: "sorter_holds self ps \<Longrightarrow> sorter_holds (sorter_push p self) (ps @ [p])"
proof -
  assume h: "sorter_holds self ps"
  have "sorter_holds (s\<lparr>arena := arena s @ [p]\<rparr>) (ps @ [p])" if "sorter_holds s ps" for s :: external_sorter
    using that by (auto simp: sorter_holds_def)
  then show ?thesis using h sorter_holds_spill [OF h] by (simp add: sorter_push_def Let_def)
qed

lemma sorter_holds_pushes: "sorter_holds (fold sorter_push ps (sorter_new budget controlled)) ps"
proof (induction ps rule: rev_induct)
  case Nil
  then show ?case by (simp add: sorter_holds_def sorter_new_def)
next
  case (snoc p ps)
  from sorter_holds_push [OF this, of p] show ?case by simp
qed

lemma spilled_arena_empty [simp]: "arena (spill_arena self) = []"
  by (simp add: spill_arena_def Let_def)

lemma groups_of_entries:
  assumes "sorted (map posting_key ps)"
  shows "group_at t (groups_of ps) = entries_of t ps"
proof -
  note g = groups_of_sorted [OF trigram_sorted [OF assms]]
  show ?thesis
  proof (cases "t \<in> tp_trigram ` set ps")
    case True
    then obtain es where es: "(t, es) \<in> set (groups_of ps)" using g by (metis (no_types, lifting) imageE prod.collapse set_map)
    moreover have "distinct (map fst (groups_of ps))" using g ascending_distinct by blast
    ultimately have "map_of (groups_of ps) t = Some es" by simp
    then show ?thesis using g es by (auto simp: group_at_def)
  next
    case False
    then have "map_of (groups_of ps) t = None" using g by (simp add: map_of_eq_None_iff)
    moreover have "entries_of t ps = []" using False by (auto simp: entries_of_def filter_empty_conv)
    ultimately show ?thesis by (simp add: group_at_def)
  qed
qed

lemma group_ok_groups_of:
  assumes "sorted (map posting_key ps)" "length ps < 2 ^ 32" "g \<in> set (groups_of ps)"
  shows "group_ok g"
proof -
  note g = groups_of_sorted [OF trigram_sorted [OF assms(1)]]
  have snd: "snd g = entries_of (fst g) ps" using g assms(3) by blast
  have "fst g \<in> tp_trigram ` set ps" using g assms(3) by (metis image_eqI set_map)
  then have "snd g \<noteq> []" by (auto simp: snd entries_of_def filter_empty_conv)
  moreover have "sorted (map posting_key (filter (\<lambda>p. tp_trigram p = fst g) ps))"
    using assms(1) by (rule sorted_filter)
  then have "sorted (map file_id (snd g))"
    unfolding snd entries_of_def by (induction ps) (auto simp: posting_key_def less_eq_prod_def split: if_splits)
  moreover have "length (snd g) < 2 ^ 32"
    using order.strict_trans1 [OF length_filter_le assms(2)] by (simp add: snd entries_of_def)
  ultimately show ?thesis by (simp add: group_ok_def)
qed

lemma entries_of_concat: "entries_of t (concat parts) = concat (map (entries_of t) parts)"
  by (induction parts) (simp_all add: entries_of_def)

lemma mset_entries_of: "mset ps = mset qs \<Longrightarrow> mset (entries_of t ps) = mset (entries_of t qs)"
  by (simp add: entries_of_def mset_filter)

lemma sort_entries_of:
  assumes "inj_on posting_key (set ps)" "mset qs = mset ps"
  shows "sort_key file_id (entries_of t qs) = sort_key file_id (entries_of t ps)"
  using mset_entries_of [OF assms(2)] mset_eq_setD [OF mset_entries_of [OF assms(2)]] inj_on_entries_of [OF assms(1)]
  by (intro sort_key_inj_key_eq) simp_all

lemma merged_parts:
  assumes "inj_on posting_key (set ps)" "mset (concat parts) = mset ps" "\<forall>p\<in>set parts. sorted (map posting_key p)"
  shows "merged (map groups_of parts) = index_groups ps"
    and "inj_on file_id (set (concat (map (group_at t) (map groups_of parts))))"
proof -
  have conc: "concat (map (group_at u) (map groups_of parts)) = entries_of u (concat parts)" for u
    using assms(3) groups_of_entries by (simp add: entries_of_concat comp_def cong: map_cong)
  have "trigrams_in (map groups_of parts) = tp_trigram ` set (concat parts)"
    using groups_of_sorted [OF trigram_sorted] assms(3) by (fastforce simp: trigrams_in_def)
  then have "trigrams_in (map groups_of parts) = tp_trigram ` set ps" by (simp only: mset_eq_setD [OF assms(2)])
  then show "merged (map groups_of parts) = index_groups ps"
    by (simp only: merged_def index_groups_def conc sort_entries_of [OF assms(1,2)])
  show "inj_on file_id (set (concat (map (group_at t) (map groups_of parts))))"
    using inj_on_entries_of [OF assms(1), of t] mset_eq_setD [OF mset_entries_of [OF assms(2), of t]]
    by (simp only: conc)
qed

lemma write_postings_result:
  assumes "sorter_holds self ps" "inj_on posting_key (set ps)" "length ps < 2 ^ 32"
  shows "\<exists>n. write_postings amount self = rbind (write_all (index_groups ps) writer_create) (\<lambda>w. Inr (writer_finish w, n))"
proof (cases "segments self = []")
  case True
  then have perm: "mset (arena self) = mset ps" using assms(1) by (auto simp: sorter_holds_def)
  have "groups_of (arena (sort_arena self)) = index_groups ps"
    using sort_controlled_sorts [of posting_key "is_controlled self" "arena self"] perm
    by (intro groups_of_arena [OF assms(2)]) (simp_all add: sort_arena_def)
  then show ?thesis using True
    by (cases "write_all (index_groups ps) writer_create")
      (auto simp: write_postings_def write_sorted_arena_def sorted_loop_groups)
next
  case False
  let ?self = "spill_arena self"
  obtain parts where parts: "segments ?self = map segment_bytes parts"
    "\<forall>p\<in>set parts. sorted (map posting_key p)" "mset (concat parts) = mset ps"
    using sorter_holds_spill [OF assms(1)] by (auto simp: sorter_holds_def)
  have len: "length (concat parts) = length ps" using parts(3) by (metis size_mset)
  have short: "length p < 2 ^ 32" if "p \<in> set parts" for p
  proof -
    have "length p \<le> length (concat parts)"
      using member_le_sum_list [of "length p" "map length parts"] that by (simp add: length_concat)
    then show ?thesis using assms(3) len by simp
  qed
  have "\<forall>p\<in>set parts. ascending (map fst (groups_of p)) \<and> (\<forall>g\<in>set (groups_of p). group_ok g)"
    using parts(2) short groups_of_sorted [OF trigram_sorted] group_ok_groups_of by blast
  moreover have "merge_inv [] [] []" by (simp add: merge_inv_def heads_def)
  moreover define n where "n = segment_buffer_bytes (budget_bytes ?self) (length parts)"
  ultimately obtain cursors heap where o:
    "open_cursors amount n (map segment_bytes parts) [] [] = Inr (cursors, heap)"
    "merge_inv cursors heap (map groups_of parts)"
    using open_cursors_inv [of "[]" "[]" "[]" parts amount n] by auto
  have "merge_loop amount c cursors heap w = write_all (index_groups ps) w" for c w
    using merge_loop_writes [OF o(2)] merged_parts [OF assms(2) parts(3,2)] by simp
  then show ?thesis using False o(1)
    by (cases "write_all (index_groups ps) writer_create")
      (auto simp: write_postings_def merge_segments_def Let_def parts(1) n_def)
qed

section \<open>Properties\<close>

lemma capacity_push [simp]: "capacity (sorter_push p s) = capacity s"
  by (simp add: sorter_push_def spill_arena_def sort_arena_def Let_def)

lemma push_unspilled:
  assumes "segments (sorter_push p s) = []" "capacity s \<noteq> 0"
  shows "segments s = [] \<and> length (arena s) < capacity s \<and> arena (sorter_push p s) = arena s @ [p]"
proof -
  have "segments (spill_arena s) \<noteq> []" if "capacity s \<le> length (arena s)"
    using that assms(2) by (auto simp: spill_arena_def Let_def)
  then have "\<not> capacity s \<le> length (arena s)" using assms(1) by (auto simp: sorter_push_def Let_def)
  then show ?thesis using assms(1) by (simp add: sorter_push_def Let_def)
qed

lemma sorter_unspilled:
  "segments (fold sorter_push ps s) = [] \<Longrightarrow> capacity s \<noteq> 0 \<Longrightarrow> length (arena s) \<le> capacity s \<Longrightarrow>
     length (arena s) + length ps \<le> capacity s"
proof (induction ps arbitrary: s)
  case (Cons p ps)
  have spilled: "segments s \<noteq> [] \<Longrightarrow> segments (fold sorter_push ps s) \<noteq> []" for s
    by (induction ps arbitrary: s) (auto simp: sorter_push_def spill_arena_def sort_arena_def Let_def)
  have "segments (sorter_push p s) = []" using Cons.prems(1) spilled by auto
  then have "length (arena s) < capacity s" "arena (sorter_push p s) = arena s @ [p]"
    using push_unspilled Cons.prems(2) by blast+
  then show ?case using Cons.IH [of "sorter_push p s"] Cons.prems by simp
qed simp

definition demo_postings :: "nat \<Rightarrow> trigram_posting list" where
  "demo_postings n = map (\<lambda>i. \<lparr>tp_trigram = of_nat (i mod 3), tp_entry = \<lparr>loc_mask = 1, next_mask = 2, file_id = of_nat i\<rparr>\<rparr>)
     [0..<n]"

lemma demo_postings_keys:
  assumes "n < 2 ^ 32"
  shows "distinct (map posting_key (demo_postings n))" "length (demo_postings n) = n"
  using assms by (auto simp: demo_postings_def posting_key_def distinct_map inj_on_def word_of_nat_eq_iff
      take_bit_nat_eq_self)

text \<open>C35. The budget of memory does not show in the index: pushing postings of different keys, spilling
  whenever the arena is full, and merging the segments writes the files that one sort of all the
  postings in memory writes, for every budget, every way the reads of the segments are divided and
  either way of sorting.\<close>

theorem external_sort_is_in_memory_sort:
  assumes "distinct (map posting_key ps)" "length ps < 2 ^ 32"
  shows "rbind (write_postings amount (fold sorter_push ps (sorter_new budget controlled))) (\<lambda>(files, n). Inr files) =
    write_sorted_arena (sort_key posting_key ps)"
proof -
  have inj: "inj_on posting_key (set ps)" using assms(1) by (simp add: distinct_map)
  have "groups_of (sort_key posting_key ps) = index_groups ps" by (rule groups_of_arena [OF inj]) simp_all
  moreover obtain n where "write_postings amount (fold sorter_push ps (sorter_new budget controlled)) =
      rbind (write_all (index_groups ps) writer_create) (\<lambda>w. Inr (writer_finish w, n))"
    using write_postings_result [OF sorter_holds_pushes inj assms(2)] by blast
  ultimately show ?thesis
    by (cases "write_all (index_groups ps) writer_create") (simp_all add: write_sorted_arena_def sorted_loop_groups)
qed

theorem external_sort_is_in_memory_sort_witness:
  "segments (fold sorter_push (demo_postings 1025) (sorter_new 0 True)) \<noteq> [] \<and>
   rbind (write_postings (\<lambda>_ _ _. 1) (fold sorter_push (demo_postings 1025) (sorter_new 0 True))) (\<lambda>(files, n). Inr files) =
     write_sorted_arena (sort_key posting_key (demo_postings 1025))"
proof
  show "segments (fold sorter_push (demo_postings 1025) (sorter_new 0 True)) \<noteq> []"
    using sorter_unspilled [of "demo_postings 1025" "sorter_new 0 True"] demo_postings_keys [of 1025]
    by (auto simp: sorter_new_def)
  show "rbind (write_postings (\<lambda>_ _ _. 1) (fold sorter_push (demo_postings 1025) (sorter_new 0 True))) (\<lambda>(files, n). Inr files) =
      write_sorted_arena (sort_key posting_key (demo_postings 1025))"
    using demo_postings_keys [of 1025] by (intro external_sort_is_in_memory_sort) simp_all
qed

end
