(* ===== verification/Tables.thy ===== *)
theory Tables
  imports Reader
begin

text \<open>
  What every writer of an index is to produce: the lookup file and the postings file of a list of
  posting lists by trigram.  A reader opened on the two files gives the list back.  The writers of
  \<^verbatim>\<open>tgrep-core/src/external.rs\<close> and \<^verbatim>\<open>tgrep-core/src/builder.rs\<close> are
  proved against this specification.
\<close>

section \<open>The two files of a list of groups\<close>

type_synonym groups = "(u32 \<times> posting_entry list) list"

fun lookup_rows :: "groups \<Rightarrow> nat \<Rightarrow> lookup_entry list" where
  "lookup_rows [] off = []"
| "lookup_rows ((t, es) # gs) off =
     \<lparr>le_trigram = t, le_offset = of_nat off, le_length = of_nat (length es)\<rparr>
       # lookup_rows gs (off + length es * POSTING_ENTRY_SIZE)"

definition lookup_file :: "groups \<Rightarrow> byte list" where
  "lookup_file gs = concat (map lookup_encode (lookup_rows gs 0))"

definition postings_file :: "groups \<Rightarrow> byte list" where
  "postings_file gs = concat (map posting_encode (concat (map snd gs)))"

definition tables_ok :: "groups \<Rightarrow> bool" where
  "tables_ok gs \<longleftrightarrow>
     ascending (map fst gs) \<and> (\<forall>g\<in>set gs. snd g \<noteq> [] \<and> length (snd g) < 2 ^ 32) \<and>
     length (postings_file gs) < 2 ^ 64"

lemma length_postings_file: "length (postings_file gs) = length (concat (map snd gs)) * POSTING_ENTRY_SIZE"
  by (simp only: postings_file_def posting.length_table)

lemma lookup_rows_append:
  "lookup_rows (gs @ hs) off = lookup_rows gs off @ lookup_rows hs (off + length (postings_file gs))"
  by (induction gs off rule: lookup_rows.induct) (simp_all add: postings_file_def add_ac posting.length_table add_mult_distrib)

lemma trigrams_of_rows [simp]: "map le_trigram (lookup_rows gs off) = map fst gs"
  by (induction gs off rule: lookup_rows.induct) simp_all

lemma length_lookup_rows [simp]: "length (lookup_rows gs off) = length gs"
  by (induction gs off rule: lookup_rows.induct) simp_all

lemma nth_lookup_rows:
  "i < length gs \<Longrightarrow> lookup_rows gs off ! i =
     \<lparr>le_trigram = fst (gs ! i), le_offset = of_nat (off + length (postings_file (take i gs))),
      le_length = of_nat (length (snd (gs ! i)))\<rparr>"
proof (induction gs off arbitrary: i rule: lookup_rows.induct)
  case (2 t es gs off)
  show ?case
  proof (cases i)
    case (Suc j)
    then have "lookup_rows gs (off + length es * POSTING_ENTRY_SIZE) ! j =
        \<lparr>le_trigram = fst (gs ! j),
         le_offset = of_nat (off + length es * POSTING_ENTRY_SIZE + length (postings_file (take j gs))),
         le_length = of_nat (length (snd (gs ! j)))\<rparr>"
      using 2 by simp
    moreover have "length (postings_file (take i ((t, es) # gs))) =
        length es * POSTING_ENTRY_SIZE + length (postings_file (take j gs))"
      by (simp add: Suc length_postings_file add_mult_distrib)
    ultimately show ?thesis by (simp add: Suc add_ac)
  qed (simp add: postings_file_def)
qed simp

text \<open>The state of a writer that has written some groups: the buffered lookup file, the postings and the offset.\<close>

definition has_written :: "byte list \<times> byte list \<Rightarrow> byte list \<Rightarrow> u64 \<Rightarrow> groups \<Rightarrow> bool" where
  "has_written ws postings offset gs \<longleftrightarrow>
     buffered ws = lookup_file gs \<and> postings = postings_file gs \<and> offset = of_nat (length (postings_file gs))"

lemma has_written_start [simp]: "has_written ([], []) [] 0 []"
  by (simp add: has_written_def buffered_def lookup_file_def postings_file_def)

lemma has_written_group:
  assumes "has_written ws postings offset gs"
  shows "has_written
      (write_lookup_entry cap \<lparr>le_trigram = t, le_offset = offset, le_length = of_nat (length es)\<rparr> ws)
      (postings @ concat (map posting_encode es))
      (offset + of_nat (length es * POSTING_ENTRY_SIZE)) (gs @ [(t, es)])"
  using assms
  by (simp add: has_written_def lookup_file_def lookup_rows_append postings_file_def posting.length_table
      add_mult_distrib)

lemma has_written_files:
  assumes "has_written ws postings offset gs"
  shows "fst (flush_lookup_entries ws) = lookup_file gs" "postings = postings_file gs"
proof -
  have "fst (flush_lookup_entries ws) = buffered (flush_lookup_entries ws)"
    by (simp only: buffered_def flush_empties append_Nil2)
  then show "fst (flush_lookup_entries ws) = lookup_file gs" using assms by (simp add: has_written_def)
qed (use assms in \<open>simp add: has_written_def\<close>)

lemma widen_length: "n < 2 ^ 32 \<Longrightarrow> ucast (of_nat n :: u32) * of_nat POSTING_ENTRY_SIZE = (of_nat (n * POSTING_ENTRY_SIZE) :: u64)"
proof -
  assume "n < 2 ^ 32"
  then have "unat (of_nat n :: u32) = n" by (simp add: unat_of_nat)
  then have "ucast (of_nat n :: u32) = (of_nat n :: u64)" by (metis of_nat_unat)
  then show ?thesis by simp
qed

section \<open>Reading the files back\<close>

lemma files_of_groups:
  assumes "tables_ok gs"
  shows "postings_file gs = [] \<longleftrightarrow> gs = []" "lookup_file gs = [] \<longleftrightarrow> gs = []"
    "length (lookup_file gs) = length gs * LOOKUP_ENTRY_SIZE"
proof -
  show "postings_file gs = [] \<longleftrightarrow> gs = []"
    using assms by (cases gs) (auto simp: tables_ok_def postings_file_def)
  show len: "length (lookup_file gs) = length gs * LOOKUP_ENTRY_SIZE"
    by (simp only: lookup_file_def lookup.length_table length_lookup_rows)
  show "lookup_file gs = [] \<longleftrightarrow> gs = []"
    using len by (cases gs) (auto simp: LOOKUP_ENTRY_SIZE_def simp flip: length_0_conv)
qed

lemma opened_tables:
  assumes ok: "tables_ok gs"
    and opened: "open_impl dir require layout guarded = Inr R"
    and files: "dir (layout_lookup layout) = Some (lookup_file gs)" "dir (layout_postings layout) = Some (postings_file gs)"
  shows "reader_entries R = lookup_rows gs 0" "gs \<noteq> [] \<longrightarrow> postings_map R = Some (postings_file gs)"
    "num_entries R = length gs"
proof -
  note f = files_of_groups [OF ok]
  have "open_sections (lookup_file gs) (postings_file gs) require = Inr (lookup_map R, postings_map R, num_entries R)"
    using opened files by (auto simp: open_impl_def Let_def split: if_splits option.splits)
  then have s: "num_entries R = length gs" "gs \<noteq> [] \<longrightarrow> postings_map R = Some (postings_file gs)"
    "gs \<noteq> [] \<longrightarrow> lookup_map R = Some (lookup_file gs)"
    using f by (auto simp: open_sections_def LOOKUP_ENTRY_SIZE_def split: if_splits)
  then show "num_entries R = length gs" "gs \<noteq> [] \<longrightarrow> postings_map R = Some (postings_file gs)" by blast+
  have "read_lookup_entry R i = lookup_rows gs 0 ! i" if "i < length gs" for i
    using that s(3) lookup.dec_entry_of_table [of i "lookup_rows gs 0"]
    by (auto simp: read_lookup_entry_def lookup_file_def)
  then show "reader_entries R = lookup_rows gs 0"
    by (intro nth_equalityI) (simp_all add: s(1))
qed

lemma opened_row:
  assumes ok: "tables_ok gs" and i: "i < length gs"
    and rows: "reader_entries R = lookup_rows gs 0" "num_entries R = length gs"
  shows "read_lookup_entry R i = lookup_rows gs 0 ! i"
    and "unat (le_offset (lookup_rows gs 0 ! i)) = length (postings_file (take i gs))"
    and "unat (le_length (lookup_rows gs 0 ! i)) = length (snd (gs ! i))"
    and "postings_file gs =
      postings_file (take i gs) @ concat (map posting_encode (snd (gs ! i))) @ postings_file (drop (Suc i) gs)"
proof -
  show "read_lookup_entry R i = lookup_rows gs 0 ! i" using rows i by (metis nth_reader_entries)
  have "gs = take i gs @ gs ! i # drop (Suc i) gs" using i by (rule id_take_nth_drop)
  then show split: "postings_file gs =
      postings_file (take i gs) @ concat (map posting_encode (snd (gs ! i))) @ postings_file (drop (Suc i) gs)"
    unfolding postings_file_def by (metis (no_types, lifting) concat.simps(2) concat_append list.simps(9) map_append)
  then have "length (postings_file (take i gs)) < 2 ^ 64" using ok by (simp add: tables_ok_def)
  then show "unat (le_offset (lookup_rows gs 0 ! i)) = length (postings_file (take i gs))"
    by (simp add: nth_lookup_rows i unat_of_nat)
  have "length (snd (gs ! i)) < 2 ^ 32" using ok i by (auto simp: tables_ok_def)
  then show "unat (le_length (lookup_rows gs 0 ! i)) = length (snd (gs ! i))"
    by (simp add: nth_lookup_rows i unat_of_nat)
qed

text \<open>The reader of the two files validates them and gives the list of groups.\<close>

lemma read_back:
  assumes ok: "tables_ok gs"
    and opened: "open_impl dir require layout guarded = Inr R"
    and files: "dir (layout_lookup layout) = Some (lookup_file gs)" "dir (layout_postings layout) = Some (postings_file gs)"
  shows "validate_lookup R = Inr ()" "all_trigram_postings_with_masks R = gs"
    "reader_lookup_trigram_with_masks R t = (case map_of gs t of Some l \<Rightarrow> l | None \<Rightarrow> [])"
proof -
  note o = opened_tables [OF ok opened files]
  have wf: "wf_reader R" by (rule open_impl_wf [OF opened])
  have asc: "ascending (map le_trigram (reader_entries R))" using ok by (simp add: o(1) tables_ok_def)
  have row: "trigram_posting_at R i = gs ! i \<and> range_ok R (lookup_rows gs 0 ! i)" if i: "i < length gs" for i
  proof -
    note r = opened_row [OF ok i o(1,3)]
    have map: "postings_map R = Some (postings_file gs)" using o(2) i by auto
    have "range_ok R (lookup_rows gs 0 ! i)"
      unfolding range_ok_def postings_len_def map r(2,3)
      using r(4) ok by (simp add: posting.length_table tables_ok_def)
    moreover have "read_posting_entries R (le_offset (lookup_rows gs 0 ! i)) (le_length (lookup_rows gs 0 ! i)) = snd (gs ! i)"
      using map r(2-4) by (intro read_posting_entries_table) simp_all
    ultimately show ?thesis by (simp add: trigram_posting_at_def Let_def r(1) nth_lookup_rows i)
  qed
  then have "\<forall>e\<in>set (reader_entries R). range_ok R e" by (auto simp: o(1) in_set_conv_nth)
  with asc show "validate_lookup R = Inr ()" by (simp add: validate_lookup_iff [OF wf])
  show all: "all_trigram_postings_with_masks R = gs"
    using row by (intro nth_equalityI) (simp_all add: all_trigram_postings_with_masks_def o(3))
  show "reader_lookup_trigram_with_masks R t = (case map_of gs t of Some l \<Rightarrow> l | None \<Rightarrow> [])"
    by (simp only: reader_lookup_map_of [OF asc wf] all)
qed

end
