(* ===== verification/Writers.thy ===== *)
theory Writers
  imports Merge Tables Path_Index Batches
begin

text \<open>
  The writers of a whole index (\<^verbatim>\<open>tgrep-core/src/builder.rs\<close>): the lookup and postings
  files from a sorted arena or from an inverted map, the file table and the metadata.  The digest
  of the file table (blake3), the clock and the free space are arguments; the files of the
  directory are the fields of a record.  Iterating over the keys of a map and sorting them is
  the ascending list of the keys.
\<close>

section \<open>The file table and the metadata\<close>

record build_env =
  blake3 :: "byte list \<Rightarrow> byte list"
  now :: u64
  free_space :: "error + nat"

record index_output =
  out_lookup :: "byte list"
  out_postings :: "byte list"
  out_table :: "byte list"
  out_meta :: index_meta

fun write_entries :: "nat \<Rightarrow> path list \<Rightarrow> byte list \<Rightarrow> byte list result" where
  "write_entries fid [] writer = Inr writer"
| "write_entries fid (p # ps) writer =
     rbind (write_file_entry writer (of_nat fid) p) (write_entries (fid + 1) ps)"

definition write_files_and_meta_to ::
  "build_env \<Rightarrow> index_layout \<Rightarrow> path \<Rightarrow> nat \<Rightarrow> path list \<Rightarrow> nat \<Rightarrow> bool option \<Rightarrow> bool \<Rightarrow> (byte list \<times> index_meta) result"
where
  "write_files_and_meta_to env layout root path_count paths trigrams completed hidden_done =
     rbind (write_entries 0 paths (write_file_table_header_for [] layout)) (\<lambda>table.
       let meta = meta_new (now env) root (of_nat path_count) (of_nat trigrams);
           meta = (case completed of Some c \<Rightarrow> meta\<lparr>complete := c\<rparr> | None \<Rightarrow> meta);
           meta = meta\<lparr>hidden_complete := hidden_done\<rparr>;
           meta = meta\<lparr>meta_table_id := Some (blake3 env table)\<rparr>
       in Inr (table, meta))"

definition write_files_and_meta ::
  "build_env \<Rightarrow> path \<Rightarrow> nat \<Rightarrow> path list \<Rightarrow> nat \<Rightarrow> bool option \<Rightarrow> (byte list \<times> index_meta) result"
where
  "write_files_and_meta env root path_count paths trigrams completed =
     write_files_and_meta_to env Legacy root path_count paths trigrams completed False"

text \<open>Prepend the current header to a table that has none; \<open>None\<close> is a table that has one.\<close>

definition stage_file_table_upgrade :: "build_env \<Rightarrow> byte list \<Rightarrow> byte list option result" where
  "stage_file_table_upgrade env source =
     (let header = take FILE_TABLE_HEADER_LEN source
      in rbind (file_table_body header) (\<lambda>body.
         if length body \<noteq> length header then Inr None
         else rbind (checked_disk_bytes (u64_checked (length source + FILE_TABLE_HEADER_LEN))) (\<lambda>bytes.
              rbind (check_disk_space (free_space env) bytes 0) (\<lambda>_.
                Inr (Some (write_file_table_header [] @ source))))))"

section \<open>From postings\<close>

definition index_payload_disk_bytes :: "nat \<Rightarrow> nat \<Rightarrow> nat result" where
  "index_payload_disk_bytes postings trigrams =
     rbind (checked_disk_bytes (u64_checked (postings * POSTING_ENTRY_SIZE))) (\<lambda>postings.
     rbind (checked_disk_bytes (u64_checked (trigrams * LOOKUP_ENTRY_SIZE))) (\<lambda>lookup.
       checked_disk_bytes (u64_checked (postings + lookup))))"

definition LOOKUP_CAPACITY :: nat where
  "LOOKUP_CAPACITY = LOOKUP_WRITE_CHUNK_ENTRIES * LOOKUP_ENTRY_SIZE"

definition write_flat_posting_entries :: "byte list \<Rightarrow> trigram_posting list \<Rightarrow> byte list" where
  "write_flat_posting_entries writer postings =
     fold (\<lambda>chunk writer.
         let scratch = fold (\<lambda>p s. s @ le_bytes 4 (file_id (tp_entry p)) @ [loc_mask (tp_entry p)]
               @ [next_mask (tp_entry p)]) chunk []
         in writer @ scratch)
       (chunks POSTING_WRITE_CHUNK_ENTRIES postings) writer"

text \<open>The files under construction: the buffered lookup file, the postings and the offset.\<close>

type_synonym tables = "(byte list \<times> byte list) \<times> byte list \<times> u64"

function flat_loop :: "trigram_posting list \<Rightarrow> tables \<Rightarrow> tables" where
  "flat_loop [] state = state"
| "flat_loop (p # rest) (lookup, postings, offset) =
     (let trigram = tp_trigram p;
          group = p # takeWhile (\<lambda>q. tp_trigram q = trigram) rest;
          len = of_nat (length group) :: u32;
          lookup = write_lookup_entry LOOKUP_CAPACITY
            \<lparr>le_trigram = trigram, le_offset = offset, le_length = len\<rparr> lookup;
          postings = write_flat_posting_entries postings group
      in flat_loop (dropWhile (\<lambda>q. tp_trigram q = trigram) rest)
           (lookup, postings, offset + ucast len * of_nat POSTING_ENTRY_SIZE))"
  by pat_completeness auto
termination
  by (relation "measure (\<lambda>(ps, _). length ps)") (auto simp: le_imp_less_Suc length_dropWhile_le)

definition no_tables :: tables where
  "no_tables = (([], []), [], 0)"

definition finish_index ::
  "build_env \<Rightarrow> path \<Rightarrow> nat \<Rightarrow> path list \<Rightarrow> nat \<Rightarrow> bool option \<Rightarrow> tables \<Rightarrow> index_output result"
where
  "finish_index env root path_count paths trigrams completed state =
     (case state of (lookup, postings, offset) \<Rightarrow>
        rbind (write_files_and_meta env root path_count paths trigrams completed) (\<lambda>(table, meta).
          Inr \<lparr>out_lookup = fst (flush_lookup_entries lookup), out_postings = postings,
               out_table = table, out_meta = meta\<rparr>))"

definition write_index_files_from_postings ::
  "build_env \<Rightarrow> path \<Rightarrow> nat \<Rightarrow> path list \<Rightarrow> trigram_posting list \<Rightarrow> nat \<Rightarrow> bool option \<Rightarrow> index_output result"
where
  "write_index_files_from_postings env root path_count paths postings trigrams completed =
     rbind (index_payload_disk_bytes (length postings) trigrams) (\<lambda>payload.
     rbind (check_disk_space (free_space env) payload path_count) (\<lambda>_.
       finish_index env root path_count paths trigrams completed (flat_loop postings no_tables)))"

fun count_loop :: "trigram_posting list \<Rightarrow> u32 option \<Rightarrow> nat \<Rightarrow> nat" where
  "count_loop [] previous n = n"
| "count_loop (p # ps) previous n =
     (if previous \<noteq> Some (tp_trigram p) then count_loop ps (Some (tp_trigram p)) (n + 1)
      else count_loop ps previous n)"

definition count_sorted_trigrams :: "trigram_posting list \<Rightarrow> nat" where
  "count_sorted_trigrams postings = count_loop postings None 0"

definition write_index_v2_from_postings ::
  "build_env \<Rightarrow> path \<Rightarrow> (u32 \<times> path) list \<Rightarrow> trigram_posting list \<Rightarrow> index_output result"
where
  "write_index_v2_from_postings env root file_id_map postings =
     (let postings = sort_key posting_key postings; trigrams = count_sorted_trigrams postings
      in write_index_files_from_postings env root (length file_id_map) (map snd file_id_map) postings trigrams None)"

section \<open>From an inverted map\<close>

definition write_list :: "(u32, posting_entry list) mapping \<Rightarrow> u32 \<Rightarrow> tables \<Rightarrow> tables" where
  "write_list inverted tri = (\<lambda>(lookup, postings, offset).
     let posting_list = the (Mapping.lookup inverted tri);
         len = of_nat (length posting_list) :: u32
     in (write_lookup_entry LOOKUP_CAPACITY \<lparr>le_trigram = tri, le_offset = offset, le_length = len\<rparr> lookup,
         write_posting_entries postings posting_list,
         offset + ucast len * of_nat POSTING_ENTRY_SIZE))"

definition write_index_files ::
  "build_env \<Rightarrow> path \<Rightarrow> nat \<Rightarrow> path list \<Rightarrow> (u32, posting_entry list) mapping \<Rightarrow> bool option \<Rightarrow> index_output result"
where
  "write_index_files env root path_count paths inverted completed =
     (let sorted_trigrams = sorted_list_of_set (Mapping.keys inverted)
      in rbind (sum_sizes (map (\<lambda>t. length (the (Mapping.lookup inverted t))) sorted_trigrams) 0) (\<lambda>posting_count.
         rbind (index_payload_disk_bytes posting_count (length sorted_trigrams)) (\<lambda>payload.
         rbind (check_disk_space (free_space env) payload path_count) (\<lambda>_.
           finish_index env root path_count paths (length sorted_trigrams) completed
             (fold (write_list inverted) sorted_trigrams no_tables)))))"

definition write_index_from_snapshot ::
  "build_env \<Rightarrow> path \<Rightarrow> path list \<Rightarrow> (u32, posting_entry list) mapping \<Rightarrow> bool \<Rightarrow> index_output result"
where
  "write_index_from_snapshot env root paths inverted completed =
     write_index_files env root (length paths) paths inverted (Some completed)"

section \<open>What the writers produce\<close>

lemma write_flat_posting_entries_eq:
  "write_flat_posting_entries writer ps = writer @ concat (map posting_encode (map tp_entry ps))"
proof -
  have chunk: "fold (\<lambda>p s. s @ le_bytes 4 (file_id (tp_entry p)) @ [loc_mask (tp_entry p)] @ [next_mask (tp_entry p)]) c s =
      s @ concat (map posting_encode (map tp_entry c))" for c s
    by (induction c arbitrary: s) (simp_all add: posting_encode_def)
  have all: "fold (\<lambda>c w. w @ concat (map posting_encode (map tp_entry c))) css w =
      w @ concat (map posting_encode (map tp_entry (concat css)))" for css w
    by (induction css arbitrary: w) simp_all
  show ?thesis
    unfolding write_flat_posting_entries_def Let_def chunk append_Nil all
    by (simp add: POSTING_WRITE_CHUNK_ENTRIES_def)
qed

definition tables_written :: "tables \<Rightarrow> groups \<Rightarrow> bool" where
  "tables_written state gs \<longleftrightarrow> (case state of (lookup, postings, offset) \<Rightarrow> has_written lookup postings offset gs)"

lemma tables_written_none [simp]: "tables_written no_tables []"
  by (simp add: tables_written_def no_tables_def)

lemma tables_written_group:
  assumes "tables_written (lookup, postings, offset) gs" "length es < 2 ^ 32"
  shows "tables_written
      (write_lookup_entry LOOKUP_CAPACITY \<lparr>le_trigram = t, le_offset = offset, le_length = of_nat (length es)\<rparr> lookup,
       postings @ concat (map posting_encode es), offset + ucast (of_nat (length es) :: u32) * of_nat POSTING_ENTRY_SIZE)
      (gs @ [(t, es)])"
  using has_written_group [of lookup postings offset gs LOOKUP_CAPACITY t es] assms
  unfolding tables_written_def widen_length [OF assms(2)] by simp

lemma flat_loop_written:
  "tables_written state gs \<Longrightarrow> length ps < 2 ^ 32 \<Longrightarrow> tables_written (flat_loop ps state) (gs @ groups_of ps)"
proof (induction ps state arbitrary: gs rule: flat_loop.induct)
  case (2 p rest lookup postings offset)
  let ?group = "p # takeWhile (\<lambda>q. tp_trigram q = tp_trigram p) rest"
  let ?rest = "dropWhile (\<lambda>q. tp_trigram q = tp_trigram p) rest"
  have len: "length (map tp_entry ?group) < 2 ^ 32" "length ?rest < 2 ^ 32"
    using "2.prems"(2) length_takeWhile_le [of "\<lambda>q. tp_trigram q = tp_trigram p" rest]
      length_dropWhile_le [of "\<lambda>q. tp_trigram q = tp_trigram p" rest] by simp_all
  note step = tables_written_group [OF "2.prems"(1) len(1), of "tp_trigram p"]
  show ?case
    using "2.IH" [OF refl refl refl refl refl, of "gs @ [(tp_trigram p, map tp_entry ?group)]"] step len(2)
    by (simp add: Let_def write_flat_posting_entries_eq)
qed simp

lemma write_list_written:
  assumes "tables_written state gs" "length (the (Mapping.lookup inverted t)) < 2 ^ 32"
  shows "tables_written (write_list inverted t state) (gs @ [(t, the (Mapping.lookup inverted t))])"
  using tables_written_group [OF _ assms(2)] assms(1)
  by (cases state) (simp add: write_list_def Let_def write_posting_entries_eq)

lemma write_lists_written:
  "tables_written state gs \<Longrightarrow> \<forall>t\<in>set ts. length (the (Mapping.lookup inverted t)) < 2 ^ 32 \<Longrightarrow>
     tables_written (fold (write_list inverted) ts state) (gs @ map (\<lambda>t. (t, the (Mapping.lookup inverted t))) ts)"
proof (induction ts arbitrary: state gs)
  case (Cons t ts)
  have "tables_written (write_list inverted t state) (gs @ [(t, the (Mapping.lookup inverted t))])"
    using Cons.prems by (intro write_list_written) simp_all
  from Cons.IH [OF this] Cons.prems(2) show ?case by simp
qed simp

lemma count_loop_groups:
  "count_loop ps prev n =
     n + length (groups_of (case prev of Some t \<Rightarrow> dropWhile (\<lambda>q. tp_trigram q = t) ps | None \<Rightarrow> ps))"
proof (induction ps prev n rule: count_loop.induct)
  case (2 p ps prev n)
  then show ?case by (cases prev) auto
qed (simp split: option.split)

lemma count_sorted_trigrams_groups: "count_sorted_trigrams ps = length (groups_of ps)"
  by (simp add: count_sorted_trigrams_def count_loop_groups)

lemma write_entries_eq:
  "write_entries fid ps writer = Inr bytes \<longleftrightarrow>
     (\<forall>p\<in>set ps. length p \<le> MAX_PATH_LEN) \<and>
     bytes = writer @ concat (map file_entry_bytes (zip (map of_nat [fid..<fid + length ps]) ps))"
proof (induction ps arbitrary: fid writer)
  case (Cons p ps)
  have "[fid..<fid + length (p # ps)] = fid # [fid + 1..<fid + 1 + length ps]" by (simp add: upt_conv_Cons del: upt_Suc)
  then show ?case by (auto simp: Cons.IH write_file_entry_encode encode_file_entry_eq)
qed auto

section \<open>Opening what was written\<close>

definition table_entries :: "path list \<Rightarrow> (u32 \<times> path) list" where
  "table_entries paths = zip (map of_nat [0..<length paths]) paths"

definition index_dir :: "index_output \<Rightarrow> string \<Rightarrow> byte list option" where
  "index_dir out name =
     (if name = ''lookup.bin'' then Some (out_lookup out)
      else if name = ''index.bin'' then Some (out_postings out)
      else if name = ''files.bin'' then Some (out_table out)
      else None)"

definition is_index :: "index_output \<Rightarrow> groups \<Rightarrow> path list \<Rightarrow> bool" where
  "is_index out gs paths \<longleftrightarrow>
     out_lookup out = lookup_file gs \<and> out_postings out = postings_file gs \<and>
     out_table out = write_file_table_header [] @ concat (map file_entry_bytes (table_entries paths)) \<and>
     meta_table_id (out_meta out) \<noteq> None \<and> num_files (out_meta out) = of_nat (length paths)"

lemma finish_index_written:
  assumes "finish_index env root (length paths) paths n completed state = Inr out" "tables_written state gs"
  shows "is_index out gs paths"
proof -
  obtain lookup postings offset where s: "state = (lookup, postings, offset)" by (cases state)
  have w: "has_written lookup postings offset gs" using assms(2) by (simp add: tables_written_def s)
  show ?thesis
    using assms(1) has_written_files [OF w]
    by (auto simp: finish_index_def s write_files_and_meta_def write_files_and_meta_to_def Let_def write_entries_eq
        is_index_def table_entries_def write_file_table_header_def meta_new_def split: option.splits)
qed

lemma opened_index:
  assumes "is_index out gs paths" "tables_ok gs" "\<forall>p\<in>set paths. stored_path p" "length paths \<le> 2 ^ 32"
  shows "\<exists>R. open_impl (index_dir out) require Legacy guarded = Inr R \<and> reader_paths R = paths \<and>
    validate_lookup R = Inr () \<and> all_trigram_postings_with_masks R = gs \<and>
    (\<forall>t. reader_lookup_trigram_with_masks R t = (case map_of gs t of Some l \<Rightarrow> l | None \<Rightarrow> []))"
proof -
  let ?es = "table_entries paths"
  have len: "length ?es = length paths" by (simp add: table_entries_def)
  have nth: "?es ! i = (of_nat i, paths ! i)" if "i < length paths" for i using that by (simp add: table_entries_def)
  have un: "unat (of_nat i :: u32) = i" if "i < length paths" for i
    using that assms(4) by (simp add: unat_of_nat)
  have fst: "map fst ?es = map of_nat [0..<length paths]" by (simp add: table_entries_def)
  have "distinct (map fst ?es)"
    unfolding fst by (auto simp: distinct_map intro!: inj_onI) (metis un)
  moreover have "\<forall>e\<in>set ?es. unat (fst e) < length ?es \<and> \<not> replicate (length ?es) False ! unat (fst e)"
  proof
    fix e
    assume "e \<in> set ?es"
    then obtain i where i: "i < length paths" "e = (of_nat i, paths ! i)" by (metis in_set_conv_nth len nth)
    then show "unat (fst e) < length ?es \<and> \<not> replicate (length ?es) False ! unat (fst e)" using un len by simp
  qed
  ultimately have dense: "check_dense (length ?es) ?es (replicate (length ?es) False) = Inr ()"
    by (intro check_dense_complete) simp_all
  have placed: "place_paths ?es = paths"
  proof (rule nth_equalityI)
    show "length (place_paths ?es) = length paths" using place_paths(1) [OF dense] len by simp
    fix i
    assume "i < length (place_paths ?es)"
    then have i: "i < length paths" using place_paths(1) [OF dense] len by simp
    then have "(of_nat i, paths ! i) \<in> set ?es" using nth_mem [of i ?es] nth len by metis
    from place_paths(2) [OF dense this] show "place_paths ?es ! i = paths ! i" using un [OF i] by simp
  qed
  have "\<forall>e\<in>set ?es. stored_path (snd e)" using assms(3) by (auto simp: table_entries_def dest: set_zip_rightD)
  then have decoded: "decode_file_entries (concat (map file_entry_bytes ?es)) = Inr ?es" by (rule decode_encoded)
  have body: "file_table_body_for (out_table out) Legacy = Inr (concat (map file_entry_bytes ?es))"
    using assms(1) by (simp add: is_index_def write_file_table_header_def file_table_body_for_written)
  have sections: "\<exists>x. open_sections (lookup_file gs) (postings_file gs) require = Inr x"
    using files_of_groups [OF assms(2)] by (auto simp: open_sections_def)
  then obtain a b n where s: "open_sections (out_lookup out) (out_postings out) require = Inr (a, b, n)"
    using assms(1) by (auto simp: is_index_def)
  then obtain R where R: "open_impl (index_dir out) require Legacy guarded = Inr R" "reader_paths R = paths"
    using body decoded dense placed len
    by (simp add: open_impl_def index_dir_def layout_lookup_def layout_postings_def layout_files_def Let_def)
  have files: "index_dir out (layout_lookup Legacy) = Some (lookup_file gs)"
    "index_dir out (layout_postings Legacy) = Some (postings_file gs)"
    using assms(1) by (simp_all add: index_dir_def layout_lookup_def layout_postings_def is_index_def)
  from R read_back [OF assms(2) R(1) files] show ?thesis by blast
qed

end
