(* ===== verification/Delta_Merge.thy ===== *)
theory Delta_Merge
  imports Writers
begin

text \<open>
  Merging changes into an index on disk (\<^verbatim>\<open>append_overlay_to_index\<close> and
  \<^verbatim>\<open>merge_index_with_delta\<close> of \<^verbatim>\<open>tgrep-core/src/builder.rs\<close>): two tables in
  ascending order of the trigrams are merged, the posting lists are copied byte by byte with
  their file identifiers renumbered.  Both loops have the same shape, which is the function
  \<open>two_way\<close>: how the next entry of either side is read and what is written for a trigram
  are its arguments.
\<close>

section \<open>The two-way merge\<close>

text \<open>The next entry of one side: none past the end, an error when it cannot be read.\<close>

definition fetch :: "(nat \<Rightarrow> (u32 \<times> 'a) option) \<Rightarrow> nat \<Rightarrow> nat \<Rightarrow> string \<Rightarrow> (u32 \<times> 'a) option result" where
  "fetch entry n i message =
     (if i < n then (case entry i of Some e \<Rightarrow> Inr (Some e) | None \<Rightarrow> Inl (IndexCorrupted message))
      else Inr None)"

function two_way ::
  "(nat \<Rightarrow> (u32 \<times> 'a) option) \<Rightarrow> nat \<Rightarrow> (nat \<Rightarrow> (u32 \<times> 'b) option) \<Rightarrow> nat \<Rightarrow>
   (u32 \<Rightarrow> 'a option \<Rightarrow> 'b option \<Rightarrow> 's \<Rightarrow> 's result) \<Rightarrow> nat \<Rightarrow> nat \<Rightarrow> 's \<Rightarrow> 's result"
where
  "two_way read_a an read_b bn step ai bi s =
     (if ai < an \<or> bi < bn then
        rbind (fetch read_a an ai ''reader trigram entry has unreadable postings'') (\<lambda>a.
        rbind (fetch read_b bn bi ''delta trigram entry has unreadable postings'') (\<lambda>b.
          case (a, b) of
            (Some (ta, va), Some (tb, vb)) \<Rightarrow>
              if ta < tb then rbind (step ta (Some va) None s) (two_way read_a an read_b bn step (ai + 1) bi)
              else if tb < ta then rbind (step tb None (Some vb) s) (two_way read_a an read_b bn step ai (bi + 1))
              else rbind (step ta (Some va) (Some vb) s) (two_way read_a an read_b bn step (ai + 1) (bi + 1))
          | (Some (ta, va), None) \<Rightarrow> rbind (step ta (Some va) None s) (two_way read_a an read_b bn step (ai + 1) bi)
          | (None, Some (tb, vb)) \<Rightarrow> rbind (step tb None (Some vb) s) (two_way read_a an read_b bn step ai (bi + 1))
          | (None, None) \<Rightarrow> Inr s))
      else Inr s)"
  by pat_completeness auto
termination
  by (relation "measure (\<lambda>(_, an, _, bn, _, ai, bi, _). (an - ai) + (bn - bi))")
    (auto simp: fetch_def split: if_splits option.splits)

declare two_way.simps [simp del]

text \<open>The state of the writing: the tables and the number of trigrams.\<close>

type_synonym merge_state = "tables \<times> nat"

definition list_length :: "nat \<Rightarrow> nat \<Rightarrow> nat result" where
  "list_length a b =
     (if a + b \<ge> 2 ^ 32 then Inl (IndexCorrupted ''posting list exceeds the u32 length limit'') else Inr (a + b))"

definition put_lookup :: "u32 \<Rightarrow> nat \<Rightarrow> merge_state \<Rightarrow> merge_state" where
  "put_lookup trigram n = (\<lambda>((lookup, postings, offset), k).
     let len = of_nat n :: u32
     in ((write_lookup_entry LOOKUP_CAPACITY \<lparr>le_trigram = trigram, le_offset = offset, le_length = len\<rparr> lookup,
          postings, offset + ucast len * of_nat POSTING_ENTRY_SIZE), k + 1))"

definition put_postings :: "byte list \<Rightarrow> merge_state \<Rightarrow> merge_state" where
  "put_postings bytes = (\<lambda>((lookup, postings, offset), k). ((lookup, postings @ bytes, offset), k))"

section \<open>Appending the overlay\<close>

definition checked_add_u32 :: "u32 \<Rightarrow> u32 \<Rightarrow> u32 option" where
  "checked_add_u32 a b = (if unat a + unat b < 2 ^ 32 then Some (a + b) else None)"

fun encode_overlay :: "u32 \<Rightarrow> u32 list \<Rightarrow> byte list \<Rightarrow> byte list result" where
  "encode_overlay base [] scratch = Inr scratch"
| "encode_overlay base (k # ks) scratch =
     (case checked_add_u32 base k of
        None \<Rightarrow> Inl (IndexCorrupted ''overlay file id overflow beyond u32'')
      | Some fid \<Rightarrow>
          encode_overlay base ks
            (scratch @ posting_encode \<lparr>loc_mask = - 1, next_mask = - 1, file_id = fid\<rparr>))"

fun write_overlay_chunks :: "u32 \<Rightarrow> u32 list list \<Rightarrow> merge_state \<Rightarrow> merge_state result" where
  "write_overlay_chunks base [] s = Inr s"
| "write_overlay_chunks base (chunk # cs) s =
     rbind (encode_overlay base chunk []) (\<lambda>scratch. write_overlay_chunks base cs (put_postings scratch s))"

definition overlay_step ::
  "u32 \<Rightarrow> u32 \<Rightarrow> byte list option \<Rightarrow> u32 list option \<Rightarrow> merge_state \<Rightarrow> merge_state result"
where
  "overlay_step base trigram reader_bytes overlay_seq s =
     (let reader_len = (case reader_bytes of Some b \<Rightarrow> length b div POSTING_ENTRY_SIZE | None \<Rightarrow> 0);
          overlay_len = (case overlay_seq of Some v \<Rightarrow> length v | None \<Rightarrow> 0)
      in rbind (list_length reader_len overlay_len) (\<lambda>n.
         if n = 0 then Inr s
         else
           let s = put_lookup trigram n s;
               s = (case reader_bytes of Some b \<Rightarrow> put_postings b s | None \<Rightarrow> s)
           in case overlay_seq of
                Some ks \<Rightarrow> write_overlay_chunks base (chunks POSTING_WRITE_CHUNK_ENTRIES ks) s
              | None \<Rightarrow> Inr s))"

definition mapped_bytes :: "index_reader \<Rightarrow> nat" where
  "mapped_bytes R =
     (case lookup_map R of Some b \<Rightarrow> length b | None \<Rightarrow> 0) + (case postings_map R of Some b \<Rightarrow> length b | None \<Rightarrow> 0)"

definition files_limit :: "nat \<Rightarrow> nat result" where
  "files_limit n = (if n \<ge> 2 ^ 32 then Inl (IndexCorrupted ''file count exceeds the u32 file-id limit'') else Inr n)"

definition append_overlay_to_index ::
  "build_env \<Rightarrow> path \<Rightarrow> index_reader \<Rightarrow> path list \<Rightarrow> (u32, u32 list) mapping \<Rightarrow> bool \<Rightarrow> index_output result"
where
  "append_overlay_to_index env root R overlay_paths overlay_inverted completed =
     (let overlay_trigrams = sorted_list_of_set (Mapping.keys overlay_inverted)
      in rbind (sum_sizes (map (\<lambda>t. length (the (Mapping.lookup overlay_inverted t))) overlay_trigrams) 0) (\<lambda>postings.
         rbind (index_payload_disk_bytes postings (length overlay_trigrams)) (\<lambda>overlay_bytes.
         rbind (checked_disk_bytes (u64_checked (mapped_bytes R + overlay_bytes))) (\<lambda>bytes.
         rbind (check_disk_space (free_space env) bytes (length (reader_paths R) + length overlay_paths)) (\<lambda>_.
         rbind (files_limit (length (reader_paths R))) (\<lambda>n.
         let base = of_nat n :: u32
         in rbind (two_way (nth_trigram_raw R) (num_entries R)
                (\<lambda>i. Some (overlay_trigrams ! i, the (Mapping.lookup overlay_inverted (overlay_trigrams ! i))))
                (length overlay_trigrams) (overlay_step base) 0 0 (no_tables, 0)) (\<lambda>(state, trigrams).
              finish_index env root (unat base + length overlay_paths) (reader_paths R @ overlay_paths) trigrams
                (Some completed) state)))))))"

section \<open>Merging a delta\<close>

definition DROPPED_ID :: u32 where
  "DROPPED_ID = - 1"

fun reader_id_map :: "path list \<Rightarrow> path set \<Rightarrow> u32 \<Rightarrow> (u32 list \<times> u32) result" where
  "reader_id_map [] removed next_id = Inr ([], next_id)"
| "reader_id_map (p # ps) removed next_id =
     (if p \<in> removed then rbind (reader_id_map ps removed next_id) (\<lambda>(ids, n). Inr (DROPPED_ID # ids, n))
      else case checked_add_u32 next_id 1 of
             None \<Rightarrow> Inl (IndexCorrupted ''file count exceeds the u32 file-id limit'')
           | Some n \<Rightarrow> rbind (reader_id_map ps removed n) (\<lambda>(ids, m). Inr (next_id # ids, m)))"

text \<open>\<^verbatim>\<open>as_chunks\<close>: the whole entries of a slice.\<close>

definition raw_entries :: "byte list \<Rightarrow> byte list list" where
  "raw_entries bytes = filter (\<lambda>c. length c = POSTING_ENTRY_SIZE) (chunks POSTING_ENTRY_SIZE bytes)"

definition raw_id :: "byte list \<Rightarrow> u32" where
  "raw_id raw = from_le (take 4 raw)"

fun count_kept :: "u32 list \<Rightarrow> byte list list \<Rightarrow> nat \<Rightarrow> nat result" where
  "count_kept ids [] n = Inr n"
| "count_kept ids (raw # raws) n =
     (if unat (raw_id raw) \<ge> length ids then Inl (IndexCorrupted ''posting references missing file id'')
      else count_kept ids raws (n + (if ids ! unat (raw_id raw) \<noteq> DROPPED_ID then 1 else 0)))"

fun remap_chunk :: "u32 list \<Rightarrow> byte list list \<Rightarrow> byte list \<Rightarrow> byte list" where
  "remap_chunk ids [] scratch = scratch"
| "remap_chunk ids (raw # raws) scratch =
     (let new_id = ids ! unat (raw_id raw)
      in if new_id \<noteq> DROPPED_ID then remap_chunk ids raws (scratch @ le_bytes 4 new_id @ drop 4 raw)
         else remap_chunk ids raws scratch)"

definition write_remapped :: "u32 list \<Rightarrow> byte list \<Rightarrow> merge_state \<Rightarrow> merge_state" where
  "write_remapped ids bytes s =
     fold (\<lambda>chunk s. put_postings (remap_chunk ids (raw_entries chunk) []) s)
       (chunks (POSTING_WRITE_CHUNK_ENTRIES * POSTING_ENTRY_SIZE) bytes) s"

fun shift_chunk :: "nat \<Rightarrow> u32 \<Rightarrow> byte list list \<Rightarrow> byte list \<Rightarrow> byte list result" where
  "shift_chunk delta_files base [] scratch = Inr scratch"
| "shift_chunk delta_files base (raw # raws) scratch =
     (if unat (raw_id raw) \<ge> delta_files then Inl (IndexCorrupted ''delta posting references missing file id'')
      else case checked_add_u32 base (raw_id raw) of
             None \<Rightarrow> Inl (IndexCorrupted ''delta file id overflow beyond u32'')
           | Some fid \<Rightarrow> shift_chunk delta_files base raws (scratch @ le_bytes 4 fid @ drop 4 raw))"

fun write_shifted :: "nat \<Rightarrow> u32 \<Rightarrow> byte list list \<Rightarrow> merge_state \<Rightarrow> merge_state result" where
  "write_shifted delta_files base [] s = Inr s"
| "write_shifted delta_files base (chunk # cs) s =
     rbind (shift_chunk delta_files base (raw_entries chunk) []) (\<lambda>scratch.
       write_shifted delta_files base cs (put_postings scratch s))"

definition delta_step ::
  "bool \<Rightarrow> u32 list \<Rightarrow> nat \<Rightarrow> u32 \<Rightarrow> u32 \<Rightarrow> byte list option \<Rightarrow> byte list option \<Rightarrow> merge_state \<Rightarrow> merge_state result"
where
  "delta_step append_only ids delta_files base trigram reader_bytes delta_bytes s =
     rbind (case reader_bytes of
              None \<Rightarrow> Inr 0
            | Some bytes \<Rightarrow>
                if append_only then Inr (length bytes div POSTING_ENTRY_SIZE) else count_kept ids (raw_entries bytes) 0)
       (\<lambda>reader_len.
     let delta_len = (case delta_bytes of Some bytes \<Rightarrow> length bytes div POSTING_ENTRY_SIZE | None \<Rightarrow> 0)
     in rbind (list_length reader_len delta_len) (\<lambda>n.
        if n = 0 then Inr s
        else
          let s = put_lookup trigram n s;
              s = (case reader_bytes of
                     Some bytes \<Rightarrow> if append_only then put_postings bytes s else write_remapped ids bytes s
                   | None \<Rightarrow> s)
          in case delta_bytes of
               Some bytes \<Rightarrow>
                 write_shifted delta_files base (chunks (POSTING_WRITE_CHUNK_ENTRIES * POSTING_ENTRY_SIZE) bytes) s
             | None \<Rightarrow> Inr s))"

definition merge_index_with_delta ::
  "build_env \<Rightarrow> path \<Rightarrow> index_reader \<Rightarrow> index_reader \<Rightarrow> path set \<Rightarrow> bool \<Rightarrow> index_output result"
where
  "merge_index_with_delta env root R D removed_paths completed =
     (let append_only = (removed_paths = {})
      in rbind (reader_id_map (reader_paths R) removed_paths 0) (\<lambda>(ids, delta_base).
         let all_files = unat delta_base + length (reader_paths D)
         in rbind (files_limit all_files) (\<lambda>_.
            rbind (checked_disk_bytes (u64_checked (mapped_bytes R + mapped_bytes D))) (\<lambda>bytes.
            rbind (check_disk_space (free_space env) bytes all_files) (\<lambda>_.
            rbind (two_way (nth_trigram_raw R) (num_entries R) (nth_trigram_raw D) (num_entries D)
                (delta_step append_only ids (length (reader_paths D)) delta_base) 0 0 (no_tables, 0))
              (\<lambda>(state, trigrams).
                 finish_index env root all_files
                   (filter (\<lambda>p. p \<notin> removed_paths) (reader_paths R) @ reader_paths D) trigrams (Some completed) state))))))"

section \<open>The merge as a list\<close>

fun merge_keyed :: "(u32 \<times> 'a) list \<Rightarrow> (u32 \<times> 'b) list \<Rightarrow> (u32 \<times> 'a option \<times> 'b option) list" where
  "merge_keyed [] [] = []"
| "merge_keyed ((t, a) # as) [] = (t, Some a, None) # merge_keyed as []"
| "merge_keyed [] ((t, b) # bs) = (t, None, Some b) # merge_keyed [] bs"
| "merge_keyed ((ta, a) # as) ((tb, b) # bs) =
     (if ta < tb then (ta, Some a, None) # merge_keyed as ((tb, b) # bs)
      else if tb < ta then (tb, None, Some b) # merge_keyed ((ta, a) # as) bs
      else (ta, Some a, Some b) # merge_keyed as bs)"

fun steps :: "(u32 \<Rightarrow> 'a option \<Rightarrow> 'b option \<Rightarrow> 's \<Rightarrow> 's result) \<Rightarrow> (u32 \<times> 'a option \<times> 'b option) list \<Rightarrow> 's \<Rightarrow> 's result" where
  "steps step [] s = Inr s"
| "steps step ((t, a, b) # xs) s = rbind (step t a b s) (steps step xs)"

lemma fetch_list:
  assumes "\<forall>i<length xs. entry i = Some (xs ! i)"
  shows "fetch entry (length xs) i message = Inr (if i < length xs then Some (xs ! i) else None)"
  using assms by (simp add: fetch_def)

lemma two_way_steps:
  assumes "\<forall>i<length as. read_a i = Some (as ! i)" "\<forall>i<length bs. read_b i = Some (bs ! i)"
  shows "two_way read_a (length as) read_b (length bs) step ai bi s = steps step (merge_keyed (drop ai as) (drop bi bs)) s"
proof (induction "(length as - ai) + (length bs - bi)" arbitrary: ai bi s rule: less_induct)
  case less
  note f = fetch_list [OF assms(1)] fetch_list [OF assms(2)]
  have IH: "two_way read_a (length as) read_b (length bs) step (ai + 1) bi = steps step (merge_keyed (drop (ai + 1) as) (drop bi bs))"
    if "ai < length as"
    using that by (intro ext less) simp
  have IH': "two_way read_a (length as) read_b (length bs) step ai (bi + 1) = steps step (merge_keyed (drop ai as) (drop (bi + 1) bs))"
    if "bi < length bs"
    using that by (intro ext less) simp
  have IH2: "two_way read_a (length as) read_b (length bs) step (ai + 1) (bi + 1) =
      steps step (merge_keyed (drop (ai + 1) as) (drop (bi + 1) bs))"
    if "ai < length as"
    using that by (intro ext less) simp
  have da: "drop ai as = as ! ai # drop (ai + 1) as" if "ai < length as" using that by (simp add: Cons_nth_drop_Suc)
  have db: "drop bi bs = bs ! bi # drop (bi + 1) bs" if "bi < length bs" using that by (simp add: Cons_nth_drop_Suc)
  obtain ta a tb b where ab: "as ! ai = (ta, a)" "bs ! bi = (tb, b)" by (cases "as ! ai"; cases "bs ! bi") blast
  show ?case
  proof (cases "ai < length as")
    case True
    show ?thesis
    proof (cases "bi < length bs")
      case True
      with \<open>ai < length as\<close> show ?thesis
        unfolding two_way.simps [of read_a "length as" read_b "length bs" step ai bi s] f da [OF \<open>ai < length as\<close>] db [OF True]
        by (simp add: ab IH [OF \<open>ai < length as\<close>] IH' IH2 [OF \<open>ai < length as\<close>] da db del: One_nat_def add_Suc_right Suc_eq_plus1)
    next
      case False
      with \<open>ai < length as\<close> show ?thesis
        unfolding two_way.simps [of read_a "length as" read_b "length bs" step ai bi s] f
        by (simp add: da ab IH del: One_nat_def add_Suc_right)
    qed
  next
    case False
    show ?thesis
    proof (cases "bi < length bs")
      case True
      with False show ?thesis
        unfolding two_way.simps [of read_a "length as" read_b "length bs" step ai bi s] f
        by (simp add: db ab IH' del: One_nat_def add_Suc_right)
    next
      case no: False
      with False show ?thesis by (simp add: two_way.simps [of read_a "length as" read_b "length bs" step ai bi s])
    qed
  qed
qed

lemma merge_keyed_right: "merge_keyed [] bs = map (\<lambda>(t, b). (t, None, Some b)) bs"
  by (induction bs) auto

lemma merge_keyed_left: "merge_keyed as [] = map (\<lambda>(t, a). (t, Some a, None)) as"
  by (induction as) auto

lemma merge_keyed_front:
  assumes "ascending (map fst xs) \<and> set (map fst xs) = S \<and> (\<forall>(t, x, y)\<in>set xs. x = f t \<and> y = g t)"
    and gt: "\<forall>t\<in>S. k < t" and "f' k = x" "g' k = y" "\<And>t. k < t \<Longrightarrow> f' t = f t \<and> g' t = g t"
  shows "ascending (map fst ((k, x, y) # xs)) \<and> set (map fst ((k, x, y) # xs)) = insert k S \<and>
    (\<forall>(t, x, y)\<in>set ((k, x, y) # xs). x = f' t \<and> y = g' t)"
proof -
  have tail: "u = f' t \<and> v = g' t" if e: "(t, u, v) \<in> set xs" for t u v
  proof -
    have "t \<in> set (map fst xs)" using e by force
    then have "k < t" using assms(1) gt by blast
    then show ?thesis using assms(1,5) e by auto
  qed
  have "\<forall>(t, x, y)\<in>set ((k, x, y) # xs). x = f' t \<and> y = g' t"
  proof (intro ballI)
    fix e
    assume "e \<in> set ((k, x, y) # xs)"
    then show "case e of (t, x, y) \<Rightarrow> x = f' t \<and> y = g' t" using tail assms(3,4) by (cases e) auto
  qed
  then show ?thesis using assms(1) gt by simp
qed

lemma map_of_before: "\<forall>y\<in>set (map fst ys). t < y \<Longrightarrow> map_of ys t = None" for t :: u32
  by (force simp: map_of_eq_None_iff)

lemma merge_keyed_spec:
  assumes "ascending (map fst as)" "ascending (map fst bs)"
  shows "ascending (map fst (merge_keyed as bs)) \<and>
    set (map fst (merge_keyed as bs)) = fst ` set as \<union> fst ` set bs \<and>
    (\<forall>(t, a, b)\<in>set (merge_keyed as bs). a = map_of as t \<and> b = map_of bs t)"
  using assms
proof (induction as bs rule: merge_keyed.induct)
  case (2 t a as)
  then show ?case by (force simp: merge_keyed_left dest: map_of_is_SomeI [OF ascending_distinct])
next
  case (3 t b bs)
  then show ?case by (force simp: merge_keyed_right dest: map_of_is_SomeI [OF ascending_distinct])
next
  case (4 ta a as tb b bs)
  have a: "ascending (map fst as)" "\<forall>t\<in>fst ` set as. ta < t" and b: "ascending (map fst bs)" "\<forall>t\<in>fst ` set bs. tb < t"
    using "4.prems" by auto
  have none: "map_of as ta = None" "map_of bs tb = None" using a b by (auto intro!: map_of_before)
  consider "ta < tb" | "tb < ta" | "ta = tb" by fastforce
  then show ?case
  proof cases
    case 1
    have "map_of ((tb, b) # bs) ta = None" using b 1 by (intro map_of_before) auto
    then have "ascending (map fst ((ta, Some a, None) # merge_keyed as ((tb, b) # bs))) \<and>
      set (map fst ((ta, Some a, None) # merge_keyed as ((tb, b) # bs))) = insert ta (fst ` set as \<union> fst ` set ((tb, b) # bs)) \<and>
      (\<forall>(t, x, y)\<in>set ((ta, Some a, None) # merge_keyed as ((tb, b) # bs)).
         x = map_of ((ta, a) # as) t \<and> y = map_of ((tb, b) # bs) t)"
      using 1 a b by (intro merge_keyed_front [OF "4.IH"(1) [OF 1 a(1) "4.prems"(2)]]) auto
    with 1 show ?thesis by (simp add: insert_commute)
  next
    case 2
    have none': "map_of ((ta, a) # as) tb = None" using a 2 by (intro map_of_before) auto
    have "ascending (map fst ((tb, None, Some b) # merge_keyed ((ta, a) # as) bs)) \<and>
      set (map fst ((tb, None, Some b) # merge_keyed ((ta, a) # as) bs)) = insert tb (fst ` set ((ta, a) # as) \<union> fst ` set bs) \<and>
      (\<forall>(t, x, y)\<in>set ((tb, None, Some b) # merge_keyed ((ta, a) # as) bs).
         x = map_of ((ta, a) # as) t \<and> y = map_of ((tb, b) # bs) t)"
      using 2 a b by (intro merge_keyed_front [OF "4.IH"(2) [OF _ 2 "4.prems"(1) b(1)]]) (use none' in auto)
    moreover have "\<not> ta < tb" using 2 by simp
    ultimately show ?thesis using 2 by (simp add: insert_commute)
  next
    case 3
    then have e: "tb = ta" by simp
    have "ascending (map fst ((ta, Some a, Some b) # merge_keyed as bs)) \<and>
      set (map fst ((ta, Some a, Some b) # merge_keyed as bs)) = insert ta (fst ` set as \<union> fst ` set bs) \<and>
      (\<forall>(t, x, y)\<in>set ((ta, Some a, Some b) # merge_keyed as bs). x = map_of ((ta, a) # as) t \<and> y = map_of ((ta, b) # bs) t)"
    proof (rule merge_keyed_front)
      show "ascending (map fst (merge_keyed as bs)) \<and> set (map fst (merge_keyed as bs)) = fst ` set as \<union> fst ` set bs \<and>
        (\<forall>(t, x, y)\<in>set (merge_keyed as bs). x = map_of as t \<and> y = map_of bs t)"
        by (rule "4.IH"(3) [OF _ _ a(1) b(1)]) (simp_all add: e)
      show "\<forall>t\<in>fst ` set as \<union> fst ` set bs. ta < t" using a(2) b(2) by (auto simp: e)
      show "map_of ((ta, a) # as) ta = Some a" by simp
      show "map_of ((ta, b) # bs) ta = Some b" by simp
      show "map_of ((ta, a) # as) t = map_of as t \<and> map_of ((ta, b) # bs) t = map_of bs t" if "ta < t" for t
        using order.strict_implies_not_eq [OF that] by (simp add: eq_commute)
    qed
    then show ?thesis by (simp add: e)
  qed
qed simp

section \<open>What a step writes\<close>

definition written :: "merge_state \<Rightarrow> groups \<Rightarrow> bool" where
  "written s gs \<longleftrightarrow> tables_written (fst s) gs \<and> snd s = length gs"

definition nonempty_groups :: "groups \<Rightarrow> groups" where
  "nonempty_groups gs = filter (\<lambda>g. snd g \<noteq> []) gs"

lemma put_postings_twice: "put_postings b2 (put_postings b1 s) = put_postings (b1 @ b2) s"
  by (simp add: put_postings_def case_prod_unfold)

lemma put_postings_none [simp]: "put_postings [] s = s"
  by (simp add: put_postings_def case_prod_unfold)

lemma put_group:
  assumes "written s gs" "length es < 2 ^ 32"
  shows "written (put_postings (concat (map posting_encode es)) (put_lookup t (length es) s)) (gs @ [(t, es)])"
proof -
  obtain lookup postings offset k where s: "s = ((lookup, postings, offset), k)" by (metis prod.collapse)
  have w: "tables_written (lookup, postings, offset) gs" using assms(1) by (simp add: written_def s)
  from tables_written_group [OF w assms(2), of t] assms(1) show ?thesis
    by (simp add: written_def s put_postings_def put_lookup_def Let_def)
qed

text \<open>A step writes the entries a function gives for the two sides, or nothing when there are none.\<close>

definition writes ::
  "(u32 \<Rightarrow> 'a option \<Rightarrow> 'b option \<Rightarrow> merge_state \<Rightarrow> merge_state result) \<Rightarrow>
   ('a option \<Rightarrow> 'b option \<Rightarrow> posting_entry list) \<Rightarrow> 'a option \<Rightarrow> 'b option \<Rightarrow> bool"
where
  "writes step es a b \<longleftrightarrow> length (es a b) < 2 ^ 32 \<and>
     (\<forall>t s. step t a b s =
        Inr (if es a b = [] then s
             else put_postings (concat (map posting_encode (es a b))) (put_lookup t (length (es a b)) s)))"

lemma steps_written:
  assumes "\<forall>(t, a, b)\<in>set xs. writes step es a b" "written s gs"
  shows "\<exists>s'. steps step xs s = Inr s' \<and> written s' (gs @ nonempty_groups (map (\<lambda>(t, a, b). (t, es a b)) xs))"
  using assms
proof (induction xs arbitrary: s gs)
  case (Cons x xs)
  obtain t a b where x: "x = (t, a, b)" by (cases x)
  let ?s = "if es a b = [] then s else put_postings (concat (map posting_encode (es a b))) (put_lookup t (length (es a b)) s)"
  have writes: "writes step es a b" and rest: "\<forall>(t, a, b)\<in>set xs. writes step es a b"
    using Cons.prems(1) by (simp_all add: x)
  have step: "step t a b s = Inr ?s" and len: "length (es a b) < 2 ^ 32"
    using writes unfolding writes_def by blast+
  have "written ?s (gs @ nonempty_groups [(t, es a b)])"
    using put_group [OF Cons.prems(2) len, of t] Cons.prems(2) by (cases "es a b = []") (simp_all add: nonempty_groups_def)
  from Cons.IH [OF rest this] obtain s' where
    s': "steps step xs ?s = Inr s'"
      "written s' ((gs @ nonempty_groups [(t, es a b)]) @ nonempty_groups (map (\<lambda>(t, a, b). (t, es a b)) xs))" by blast
  have "steps step (x # xs) s = Inr s'" unfolding x steps.simps step using s'(1) by simp
  moreover have "written s' (gs @ nonempty_groups (map (\<lambda>(t, a, b). (t, es a b)) (x # xs)))"
    using s'(2) by (cases "es a b = []") (simp_all add: x nonempty_groups_def)
  ultimately show ?case by blast
qed (simp add: nonempty_groups_def)

section \<open>Copying entries\<close>

context fixed_codec
begin

lemma chunks_blocks:
  assumes "0 < k"
  shows "chunks (k * width) (concat (map enc xs)) = map (\<lambda>ys. concat (map enc ys)) (chunks k xs)"
proof (induction "length xs" arbitrary: xs rule: less_induct)
  case less
  show ?case
  proof (cases "xs = []")
    case False
    have ne: "concat (map enc xs) \<noteq> []"
      using False width_pos length_table [of xs] by (metis length_0_conv length_greater_0_conv less_not_refl mult_is_0)
    have "chunks (k * width) (concat (map enc xs)) =
        take (k * width) (concat (map enc xs)) # chunks (k * width) (drop (k * width) (concat (map enc xs)))"
      using ne assms width_pos by (subst chunks.simps) simp
    also have "\<dots> = concat (map enc (take k xs)) # chunks (k * width) (concat (map enc (drop k xs)))"
      by (simp only: take_table drop_table)
    also have "\<dots> = concat (map enc (take k xs)) # map (\<lambda>ys. concat (map enc ys)) (chunks k (drop k xs))"
      using less [of "drop k xs"] False assms by simp
    also have "\<dots> = map (\<lambda>ys. concat (map enc ys)) (chunks k xs)"
      using False assms by (subst chunks.simps [of k xs]) simp
    finally show ?thesis .
  qed simp
qed

end

lemma raw_entries_table: "raw_entries (concat (map posting_encode es)) = map posting_encode es"
  unfolding raw_entries_def posting.chunks_table
  by (rule filter_True) (auto simp: POSTING_ENTRY_SIZE_def)

lemma raw_posting [simp]:
  "raw_id (posting_encode e) = file_id e" "drop 4 (posting_encode e) = [loc_mask e, next_mask e]"
  by (simp_all add: raw_id_def posting_encode_def)

definition remap_entries :: "u32 list \<Rightarrow> posting_entry list \<Rightarrow> posting_entry list" where
  "remap_entries ids es =
     map (\<lambda>e. e\<lparr>file_id := ids ! unat (file_id e)\<rparr>) (filter (\<lambda>e. ids ! unat (file_id e) \<noteq> DROPPED_ID) es)"

lemma remap_entries_simps:
  "remap_entries ids [] = []"
  "remap_entries ids (e # es) =
     (if ids ! unat (file_id e) \<noteq> DROPPED_ID then [e\<lparr>file_id := ids ! unat (file_id e)\<rparr>] else []) @ remap_entries ids es"
  "remap_entries ids (es @ fs) = remap_entries ids es @ remap_entries ids fs"
  by (simp_all add: remap_entries_def)

lemma encode_renumbered:
  "posting_encode (e\<lparr>file_id := n\<rparr>) = le_bytes 4 n @ [loc_mask e, next_mask e]"
  by (simp add: posting_encode_def)

lemma remap_chunk_entries:
  "remap_chunk ids (map posting_encode es) scratch = scratch @ concat (map posting_encode (remap_entries ids es))"
  by (induction es arbitrary: scratch) (simp_all add: remap_entries_simps encode_renumbered Let_def)

lemma count_kept_entries:
  "\<forall>e\<in>set es. unat (file_id e) < length ids \<Longrightarrow>
     count_kept ids (map posting_encode es) n = Inr (n + length (remap_entries ids es))"
  by (induction es arbitrary: n) (simp_all add: remap_entries_simps)

lemma write_remapped_entries:
  "write_remapped ids (concat (map posting_encode es)) s =
     put_postings (concat (map posting_encode (remap_entries ids es))) s"
proof -
  have "fold (\<lambda>c s. put_postings (remap_chunk ids (raw_entries (concat (map posting_encode c))) []) s) css s =
      put_postings (concat (map posting_encode (remap_entries ids (concat css)))) s" for css s
    by (induction css arbitrary: s)
      (simp_all add: raw_entries_table remap_chunk_entries remap_entries_simps put_postings_twice)
  then show ?thesis
    using posting.chunks_blocks [of POSTING_WRITE_CHUNK_ENTRIES es]
    by (simp add: write_remapped_def fold_map comp_def POSTING_WRITE_CHUNK_ENTRIES_def)
qed

definition shift_entries :: "u32 \<Rightarrow> posting_entry list \<Rightarrow> posting_entry list" where
  "shift_entries base es = map (\<lambda>e. e\<lparr>file_id := base + file_id e\<rparr>) es"

lemma shift_chunk_entries:
  "\<forall>e\<in>set es. unat (file_id e) < n \<and> unat base + unat (file_id e) < 2 ^ 32 \<Longrightarrow>
     shift_chunk n base (map posting_encode es) scratch =
       Inr (scratch @ concat (map posting_encode (shift_entries base es)))"
  by (induction es arbitrary: scratch) (simp_all add: shift_entries_def checked_add_u32_def encode_renumbered not_le)

lemma shift_entries_append: "shift_entries base (es @ fs) = shift_entries base es @ shift_entries base fs"
  by (simp add: shift_entries_def)

lemma write_shifted_entries:
  assumes "\<forall>e\<in>set es. unat (file_id e) < n \<and> unat base + unat (file_id e) < 2 ^ 32"
  shows "write_shifted n base (chunks (POSTING_WRITE_CHUNK_ENTRIES * POSTING_ENTRY_SIZE) (concat (map posting_encode es))) s =
    Inr (put_postings (concat (map posting_encode (shift_entries base es))) s)"
proof -
  have "write_shifted n base (map (\<lambda>c. concat (map posting_encode c)) css) s =
      Inr (put_postings (concat (map posting_encode (shift_entries base (concat css)))) s)"
    if "\<forall>e\<in>set (concat css). unat (file_id e) < n \<and> unat base + unat (file_id e) < 2 ^ 32" for css
    using that
  proof (induction css arbitrary: s)
    case (Cons c css)
    have c: "shift_chunk n base (map posting_encode c) [] = Inr (concat (map posting_encode (shift_entries base c)))"
      using Cons.prems by (subst shift_chunk_entries) auto
    have "\<forall>e\<in>set (concat css). unat (file_id e) < n \<and> unat base + unat (file_id e) < 2 ^ 32" using Cons.prems by auto
    from Cons.IH [OF this] show ?case
      by (simp only: list.map write_shifted.simps raw_entries_table c rbind_Inr put_postings_twice
          concat.simps shift_entries_append map_append concat_append)
  qed (simp add: shift_entries_def)
  from this [of "chunks POSTING_WRITE_CHUNK_ENTRIES es"] assms show ?thesis
    using posting.chunks_blocks [of POSTING_WRITE_CHUNK_ENTRIES es] by (simp add: POSTING_WRITE_CHUNK_ENTRIES_def)
qed

end
