(* ===== verification/Delta_Spec.thy ===== *)
theory Delta_Spec
  imports Delta_Merge
begin

text \<open>
  What \<^verbatim>\<open>append_overlay_to_index\<close> and \<^verbatim>\<open>merge_index_with_delta\<close> of
  \<^verbatim>\<open>tgrep-core/src/builder.rs\<close> promise: the files they write, once opened, name for
  every trigram the files the two inputs name, without the removed ones.
\<close>

section \<open>Readers whose lists can be merged\<close>

definition sound_reader :: "index_reader \<Rightarrow> bool" where
  "sound_reader R \<longleftrightarrow> wf_reader R \<and> validate_lookup R = Inr () \<and>
     (\<forall>g\<in>set (all_trigram_postings_with_masks R). \<forall>e\<in>set (snd g). unat (file_id e) < length (reader_paths R))"

definition posting_total :: "index_reader \<Rightarrow> nat" where
  "posting_total R = length (concat (map snd (all_trigram_postings_with_masks R)))"

definition name_entries :: "path list \<Rightarrow> posting_entry list \<Rightarrow> (path \<times> byte \<times> byte) list" where
  "name_entries paths es = map (\<lambda>e. (paths ! unat (file_id e), loc_mask e, next_mask e)) es"

text \<open>The files a reader names for a trigram.\<close>

definition named :: "index_reader \<Rightarrow> u32 \<Rightarrow> (path \<times> byte \<times> byte) list" where
  "named R t = name_entries (reader_paths R) (reader_lookup_trigram_with_masks R t)"

definition raw_lists :: "groups \<Rightarrow> (u32 \<times> byte list) list" where
  "raw_lists gs = map (\<lambda>g. (fst g, concat (map posting_encode (snd g)))) gs"

lemma raw_lists_simps [simp]: "map fst (raw_lists gs) = map fst gs" "length (raw_lists gs) = length gs"
  by (simp_all add: raw_lists_def)

lemma map_of_raw_lists: "map_of (raw_lists gs) t = map_option (\<lambda>es. concat (map posting_encode es)) (map_of gs t)"
  by (induction gs) (auto simp: raw_lists_def)

lemma sound_ascending:
  assumes "sound_reader R"
  shows "ascending (map fst (all_trigram_postings_with_masks R))"
    "reader_lookup_trigram_with_masks R t = (case map_of (all_trigram_postings_with_masks R) t of Some l \<Rightarrow> l | None \<Rightarrow> [])"
proof -
  have wf: "wf_reader R" and asc: "ascending (map le_trigram (reader_entries R))"
    using assms validate_lookup_iff [of R] by (auto simp: sound_reader_def)
  show "reader_lookup_trigram_with_masks R t = (case map_of (all_trigram_postings_with_masks R) t of Some l \<Rightarrow> l | None \<Rightarrow> [])"
    by (rule reader_lookup_map_of [OF asc wf])
  have "map fst (all_trigram_postings_with_masks R) = map le_trigram (reader_entries R)"
    by (simp add: all_trigram_postings_with_masks_def trigram_posting_at_def reader_entries_def Let_def)
  with asc show "ascending (map fst (all_trigram_postings_with_masks R))" by simp
qed

text \<open>Every list of a sound reader is read without an error.\<close>

lemma sound_raw:
  assumes "sound_reader R" "i < length (raw_lists (all_trigram_postings_with_masks R))"
  shows "nth_trigram_raw R i = Some (raw_lists (all_trigram_postings_with_masks R) ! i)"
proof -
  let ?e = "read_lookup_entry R i"
  have i: "i < num_entries R" using assms(2) by (simp add: all_trigram_postings_with_masks_def)
  have wf: "wf_reader R" and valid: "validate_lookup R = Inr ()" using assms(1) by (simp_all add: sound_reader_def)
  have "?e \<in> set (reader_entries R)" using i by (simp add: reader_entries_def)
  then have range: "range_ok R ?e" using valid by (simp add: validate_lookup_iff [OF wf])
  obtain ps where ps: "postings_map R = Some ps"
    using wf i by (auto simp: wf_reader_def split: option.splits)
  obtain t raw where raw: "nth_trigram_raw R i = Some (t, raw)"
    using range ps i by (auto simp: nth_trigram_raw_def range_ok_def postings_len_def range_end_def checked_u64_def Let_def)
  have "raw_lists (all_trigram_postings_with_masks R) ! i = (t, raw)"
    using i raw_encodes [OF raw] nth_trigram_raw_decodes(2) [OF raw]
    by (simp add: raw_lists_def all_trigram_postings_with_masks_def nth_list_def trigram_posting_at_def Let_def)
  with raw show ?thesis by simp
qed

section \<open>The lists of a merge\<close>

definition merge_groups ::
  "('a option \<Rightarrow> 'b option \<Rightarrow> posting_entry list) \<Rightarrow> (u32 \<times> 'a) list \<Rightarrow> (u32 \<times> 'b) list \<Rightarrow> groups"
where
  "merge_groups es as bs = nonempty_groups (map (\<lambda>(t, a, b). (t, es a b)) (merge_keyed as bs))"

lemma merge_keyed_sorted:
  assumes "ascending (map fst as)" "ascending (map fst bs)"
  shows "ascending (map fst (merge_keyed as bs))"
    "\<And>t. t \<in> set (map fst (merge_keyed as bs)) \<longleftrightarrow> map_of as t \<noteq> None \<or> map_of bs t \<noteq> None"
    "\<And>t a b. (t, a, b) \<in> set (merge_keyed as bs) \<Longrightarrow> a = map_of as t \<and> b = map_of bs t"
proof -
  note spec = merge_keyed_spec [OF assms]
  show "ascending (map fst (merge_keyed as bs))" by (rule conjunct1 [OF spec])
  show "t \<in> set (map fst (merge_keyed as bs)) \<longleftrightarrow> map_of as t \<noteq> None \<or> map_of bs t \<noteq> None" for t
    unfolding conjunct1 [OF conjunct2 [OF spec]] by (auto simp: map_of_eq_None_iff)
  show "a = map_of as t \<and> b = map_of bs t" if "(t, a, b) \<in> set (merge_keyed as bs)" for t a b
    using bspec [OF conjunct2 [OF conjunct2 [OF spec]] that] by simp
qed

lemma merge_groups_ascending:
  assumes "ascending (map fst as)" "ascending (map fst bs)"
  shows "ascending (map fst (merge_groups es as bs))"
proof -
  have "ascending (map fst (map (\<lambda>(t, a, b). (t, es a b)) (merge_keyed as bs)))"
    using merge_keyed_sorted(1) [OF assms] by (simp add: comp_def case_prod_unfold)
  then show ?thesis
    unfolding merge_groups_def nonempty_groups_def
    by (metis (no_types, lifting) sorted_wrt_filter sorted_wrt_map)
qed

lemma merge_groups_lookup:
  assumes "ascending (map fst as)" "ascending (map fst bs)" "es None None = []"
  shows "(case map_of (merge_groups es as bs) t of Some l \<Rightarrow> l | None \<Rightarrow> []) = es (map_of as t) (map_of bs t)"
proof -
  note keyed = merge_keyed_sorted [OF assms(1,2)]
  let ?gs = "merge_groups es as bs"
  have dist: "distinct (map fst ?gs)" by (rule ascending_distinct [OF merge_groups_ascending [OF assms(1,2)]])
  have mem: "(t, l) \<in> set ?gs \<longleftrightarrow> l \<noteq> [] \<and> l = es (map_of as t) (map_of bs t)" for l
  proof
    assume "(t, l) \<in> set ?gs"
    then obtain a b where ab: "(t, a, b) \<in> set (merge_keyed as bs)" and l: "l = es a b" "l \<noteq> []"
      by (auto simp: merge_groups_def nonempty_groups_def)
    from keyed(3) [OF ab] l show "l \<noteq> [] \<and> l = es (map_of as t) (map_of bs t)" by simp
  next
    assume l: "l \<noteq> [] \<and> l = es (map_of as t) (map_of bs t)"
    then have "map_of as t \<noteq> None \<or> map_of bs t \<noteq> None" using assms(3) by metis
    then have "t \<in> set (map fst (merge_keyed as bs))" by (simp only: keyed(2))
    then obtain a b where ab: "(t, a, b) \<in> set (merge_keyed as bs)" by auto
    have "l = es a b" using keyed(3) [OF ab] l by simp
    with ab l show "(t, l) \<in> set ?gs" by (force simp: merge_groups_def nonempty_groups_def)
  qed
  show ?thesis
  proof (cases "map_of ?gs t")
    case None
    then have "(t, es (map_of as t) (map_of bs t)) \<notin> set ?gs" by (force simp: map_of_eq_None_iff)
    then show ?thesis unfolding mem None by simp
  next
    case (Some l)
    then have "(t, l) \<in> set ?gs" by (rule map_of_SomeD)
    then show ?thesis unfolding mem Some by simp
  qed
qed

lemma merge_groups_total:
  assumes "\<forall>a b. length (es a b) \<le> (case a of Some x \<Rightarrow> la x | None \<Rightarrow> 0) + (case b of Some x \<Rightarrow> lb x | None \<Rightarrow> 0)"
  shows "length (concat (map snd (merge_groups es as bs))) \<le> sum_list (map (la \<circ> snd) as) + sum_list (map (lb \<circ> snd) bs)"
proof -
  have keep: "length (concat (map snd (nonempty_groups gs))) = length (concat (map snd gs))" for gs
    by (induction gs) (auto simp: nonempty_groups_def)
  have bound: "length (es (Some x) None) \<le> la x" "length (es None (Some y)) \<le> lb y"
    "length (es (Some x) (Some y)) \<le> la x + lb y" for x y
    using assms [rule_format, of "Some x" None] assms [rule_format, of None "Some y"]
      assms [rule_format, of "Some x" "Some y"] by simp_all
  have "length (concat (map (\<lambda>(t, a, b). es a b) (merge_keyed as bs))) \<le> sum_list (map (la \<circ> snd) as) + sum_list (map (lb \<circ> snd) bs)"
  proof (induction as bs rule: merge_keyed.induct)
    case (2 t a as)
    then show ?case using bound(1) [of a] by simp
  next
    case (3 t b bs)
    then show ?case using bound(2) [of b] by simp
  next
    case (4 ta a as tb b bs)
    then show ?case using bound(1) [of a] bound(2) [of b] bound(3) [of a b] by (auto simp: not_less)
  qed simp
  then show ?thesis
    unfolding merge_groups_def keep by (simp add: comp_def case_prod_unfold)
qed

text \<open>The tables of a merge, written and opened again.\<close>

lemma merge_written:
  assumes asc: "ascending (map fst as)" "ascending (map fst bs)"
    and reads: "\<forall>i<length as. read_a i = Some (as ! i)" "\<forall>i<length bs. read_b i = Some (bs ! i)"
    and writes: "\<And>t. map_of as t \<noteq> None \<or> map_of bs t \<noteq> None \<Longrightarrow> writes step es (map_of as t) (map_of bs t)"
  shows "\<exists>state. two_way read_a (length as) read_b (length bs) step 0 0 (no_tables, 0) = Inr (state, length (merge_groups es as bs))
    \<and> tables_written state (merge_groups es as bs)"
proof -
  note keyed = merge_keyed_sorted [OF asc]
  have "\<forall>(t, a, b)\<in>set (merge_keyed as bs). writes step es a b"
  proof (intro ballI)
    fix x
    assume x: "x \<in> set (merge_keyed as bs)"
    obtain t a b where e: "x = (t, a, b)" by (cases x)
    have ab: "a = map_of as t \<and> b = map_of bs t" using keyed(3) x e by blast
    have "t \<in> set (map fst (merge_keyed as bs))" using x by (force simp: e)
    from writes [OF this [unfolded keyed(2)]] ab show "case x of (t, a, b) \<Rightarrow> writes step es a b" by (simp add: e)
  qed
  from steps_written [OF this, of "(no_tables, 0)" "[]"] obtain s where
    s: "steps step (merge_keyed as bs) (no_tables, 0) = Inr s"
      "written s ([] @ nonempty_groups (map (\<lambda>(t, a, b). (t, es a b)) (merge_keyed as bs)))"
    by (auto simp: written_def)
  obtain state n where "s = (state, n)" by (cases s)
  with s show ?thesis
    by (simp add: two_way_steps [OF reads] written_def merge_groups_def)
qed

section \<open>Merging a delta\<close>

definition decoded :: "byte list \<Rightarrow> posting_entry list" where
  "decoded bytes = map posting_decode (chunks POSTING_ENTRY_SIZE bytes)"

lemma decoded_table [simp]: "decoded (concat (map posting_encode es)) = es"
  by (simp only: decoded_def posting.dec_table)

definition delta_entries :: "u32 list \<Rightarrow> u32 \<Rightarrow> byte list option \<Rightarrow> byte list option \<Rightarrow> posting_entry list" where
  "delta_entries ids base a b =
     (case a of Some x \<Rightarrow> remap_entries ids (decoded x) | None \<Rightarrow> []) @
     (case b of Some x \<Rightarrow> shift_entries base (decoded x) | None \<Rightarrow> [])"

definition ids_below :: "nat \<Rightarrow> posting_entry list option \<Rightarrow> bool" where
  "ids_below n es \<longleftrightarrow> (case es of Some es \<Rightarrow> \<forall>e\<in>set es. unat (file_id e) < n | None \<Rightarrow> True)"

abbreviation table_bytes :: "posting_entry list option \<Rightarrow> byte list option" where
  "table_bytes \<equiv> map_option (\<lambda>es. concat (map posting_encode es))"

lemma table_entries_length: "length (concat (map posting_encode es)) div POSTING_ENTRY_SIZE = length es"
  by (simp add: posting.length_table POSTING_ENTRY_SIZE_def)

lemma delta_writes:
  assumes a: "ids_below (length ids) a" and b: "ids_below n b" and range: "unat base + n < 2 ^ 32"
    and all: "append_only \<Longrightarrow> \<forall>es. a = Some es \<longrightarrow> remap_entries ids es = es"
    and len: "length (delta_entries ids base (table_bytes a) (table_bytes b)) < 2 ^ 32"
  shows "writes (delta_step append_only ids n base) (delta_entries ids base) (table_bytes a) (table_bytes b)"
proof -
  define ra where "ra = (case a of Some es \<Rightarrow> remap_entries ids es | None \<Rightarrow> [])"
  define sb where "sb = (case b of Some es \<Rightarrow> shift_entries base es | None \<Rightarrow> [])"
  have es: "delta_entries ids base (table_bytes a) (table_bytes b) = ra @ sb"
    by (simp add: delta_entries_def ra_def sb_def split: option.split)
  have reader_len: "(case table_bytes a of None \<Rightarrow> Inr 0
      | Some bytes \<Rightarrow> if append_only then Inr (length bytes div POSTING_ENTRY_SIZE) else count_kept ids (raw_entries bytes) 0)
      = (Inr (length ra) :: nat result)"
    using a all by (auto simp: ra_def ids_below_def raw_entries_table count_kept_entries table_entries_length split: option.split)
  have delta_len: "(case table_bytes b of Some bytes \<Rightarrow> length bytes div POSTING_ENTRY_SIZE | None \<Rightarrow> 0) = length sb"
    by (simp add: sb_def table_entries_length shift_entries_def split: option.split)
  have reader: "(case table_bytes a of
        Some bytes \<Rightarrow> if append_only then put_postings bytes s else write_remapped ids bytes s
      | None \<Rightarrow> s) = put_postings (concat (map posting_encode ra)) s" for s
    using all by (auto simp: ra_def write_remapped_entries split: option.split)
  have delta: "(case table_bytes b of
        Some bytes \<Rightarrow> write_shifted n base (chunks (POSTING_WRITE_CHUNK_ENTRIES * POSTING_ENTRY_SIZE) bytes) s
      | None \<Rightarrow> Inr s) = (Inr (put_postings (concat (map posting_encode sb)) s) :: merge_state result)" for s
  proof (cases b)
    case (Some es)
    then have "\<forall>e\<in>set es. unat (file_id e) < n \<and> unat base + unat (file_id e) < 2 ^ 32"
      using b range by (auto simp: ids_below_def)
    from write_shifted_entries [OF this] Some show ?thesis by (simp add: sb_def)
  qed (simp add: sb_def)
  have "delta_step append_only ids n base t (table_bytes a) (table_bytes b) s =
      Inr (if ra @ sb = [] then s
           else put_postings (concat (map posting_encode (ra @ sb))) (put_lookup t (length (ra @ sb)) s))" for t s
    using len unfolding es delta_step_def reader_len delta_len reader delta Let_def rbind_Inr
    by (simp add: list_length_def put_postings_twice)
  then show ?thesis unfolding writes_def es using len es by simp
qed

text \<open>The identifiers of the files that stay are their positions among them.\<close>

lemma reader_id_map_spec:
  assumes "unat n + length (filter (\<lambda>p. p \<notin> removed) ps) < 2 ^ 32"
  shows "reader_id_map ps removed n =
    Inr (map (\<lambda>i. if ps ! i \<in> removed then DROPPED_ID
                  else n + of_nat (length (filter (\<lambda>p. p \<notin> removed) (take i ps)))) [0..<length ps],
         n + of_nat (length (filter (\<lambda>p. p \<notin> removed) ps)))"
  using assms
proof (induction ps arbitrary: n)
  case (Cons p ps)
  have up: "map f [0..<length (p # ps)] = f 0 # map (\<lambda>i. f (Suc i)) [0..<length ps]" for f :: "nat \<Rightarrow> u32"
    by (simp add: upt_conv_Cons map_Suc_upt [symmetric] comp_def del: upt_Suc)
  show ?case
  proof (cases "p \<in> removed")
    case True
    with Cons show ?thesis unfolding up by simp
  next
    case False
    then have small: "unat n + 1 < 2 ^ 32" "unat (n + 1) + length (filter (\<lambda>p. p \<notin> removed) ps) < 2 ^ 32"
      using Cons.prems by (simp_all add: unat_word_ariths)
    have "checked_add_u32 n 1 = Some (n + 1)" using small(1) by (simp add: checked_add_u32_def)
    then show ?thesis
      using False Cons.IH [OF small(2)] unfolding up by (simp add: add.assoc [symmetric] add.commute)
  qed
qed simp

lemma kept_nth:
  assumes "i < length ps" "ps ! i \<notin> removed"
  shows "length (filter (\<lambda>p. p \<notin> removed) (take i ps)) < length (filter (\<lambda>p. p \<notin> removed) ps)"
    "filter (\<lambda>p. p \<notin> removed) ps ! length (filter (\<lambda>p. p \<notin> removed) (take i ps)) = ps ! i"
proof -
  have "ps = take i ps @ ps ! i # drop (Suc i) ps" using assms(1) by (rule id_take_nth_drop)
  then have "filter (\<lambda>p. p \<notin> removed) ps =
      filter (\<lambda>p. p \<notin> removed) (take i ps) @ ps ! i # filter (\<lambda>p. p \<notin> removed) (drop (Suc i) ps)"
    using assms(2) by (metis (no_types, lifting) filter.simps(2) filter_append)
  then show "length (filter (\<lambda>p. p \<notin> removed) (take i ps)) < length (filter (\<lambda>p. p \<notin> removed) ps)"
    "filter (\<lambda>p. p \<notin> removed) ps ! length (filter (\<lambda>p. p \<notin> removed) (take i ps)) = ps ! i"
    by (simp_all add: nth_append)
qed

definition kept_ids :: "path list \<Rightarrow> path set \<Rightarrow> u32 list" where
  "kept_ids ps removed = map (\<lambda>i. if ps ! i \<in> removed then DROPPED_ID
      else of_nat (length (filter (\<lambda>p. p \<notin> removed) (take i ps)))) [0..<length ps]"

lemma kept_id:
  assumes small: "length (filter (\<lambda>p. p \<notin> removed) ps) < 2 ^ 32" and i: "i < length ps"
  shows "kept_ids ps removed ! i = DROPPED_ID \<longleftrightarrow> ps ! i \<in> removed"
    "ps ! i \<notin> removed \<Longrightarrow> unat (kept_ids ps removed ! i) = length (filter (\<lambda>p. p \<notin> removed) (take i ps))"
proof -
  have max: "unat DROPPED_ID = 2 ^ 32 - 1" by (simp add: DROPPED_ID_def unsigned_minus_1_eq_mask mask_eq_exp_minus_1)
  show un: "unat (kept_ids ps removed ! i) = length (filter (\<lambda>p. p \<notin> removed) (take i ps))" if "ps ! i \<notin> removed"
    using that i small kept_nth(1) [OF i that] by (simp add: kept_ids_def unat_of_nat)
  have "kept_ids ps removed ! i \<noteq> DROPPED_ID" if "ps ! i \<notin> removed"
  proof
    assume "kept_ids ps removed ! i = DROPPED_ID"
    then have "length (filter (\<lambda>p. p \<notin> removed) (take i ps)) = 2 ^ 32 - 1" using un [OF that] max by simp
    then show False using kept_nth(1) [OF i that] small by simp
  qed
  then show "kept_ids ps removed ! i = DROPPED_ID \<longleftrightarrow> ps ! i \<in> removed"
    using i by (auto simp: kept_ids_def)
qed

lemma name_remapped:
  assumes small: "length (filter (\<lambda>p. p \<notin> removed) ps) < 2 ^ 32" and "\<forall>e\<in>set es. unat (file_id e) < length ps"
  shows "name_entries (filter (\<lambda>p. p \<notin> removed) ps @ qs) (remap_entries (kept_ids ps removed) es) =
    filter (\<lambda>x. fst x \<notin> removed) (name_entries ps es)"
  using assms(2)
proof (induction es)
  case (Cons e es)
  then have e: "unat (file_id e) < length ps" by simp
  show ?case
    using Cons.IH Cons.prems kept_id [OF small e] kept_nth [OF e]
    by (auto simp: remap_entries_simps name_entries_def nth_append)
qed (simp add: remap_entries_simps name_entries_def)

lemma remap_everything:
  assumes small: "length ps < 2 ^ 32" and "\<forall>e\<in>set es. unat (file_id e) < length ps"
  shows "remap_entries (kept_ids ps {}) es = es"
  using assms(2)
proof (induction es)
  case (Cons e es)
  then have e: "unat (file_id e) < length ps" by simp
  have "kept_ids ps {} ! unat (file_id e) \<noteq> DROPPED_ID" using kept_id(1) [of "{}" ps "unat (file_id e)"] small e by simp
  moreover have "kept_ids ps {} ! unat (file_id e) = file_id e" using e by (simp add: kept_ids_def)
  ultimately show ?case using Cons by (simp add: remap_entries_simps)
qed (simp add: remap_entries_simps)

lemma name_shifted:
  assumes "length ps + length qs < 2 ^ 32" "\<forall>e\<in>set es. unat (file_id e) < length qs"
  shows "name_entries (ps @ qs) (shift_entries (of_nat (length ps)) es) = name_entries qs es"
proof -
  have "unat (of_nat (length ps) + file_id e) = length ps + unat (file_id e)" if "e \<in> set es" for e
    using assms(1) bspec [OF assms(2) that] by (simp add: unat_word_ariths unat_of_nat)
  then show ?thesis by (simp add: name_entries_def shift_entries_def)
qed

lemma length_remap: "length (remap_entries ids es) \<le> length es"
  by (simp add: remap_entries_def)

lemma sum_raw_lists: "sum_list (map ((\<lambda>x. length (decoded x)) \<circ> snd) (raw_lists gs)) = length (concat (map snd gs))"
  by (induction gs) (simp_all add: raw_lists_def)

lemma map_of_in: "map_of gs t = Some es \<Longrightarrow> \<exists>g\<in>set gs. snd g = es"
  by (meson map_of_SomeD snd_conv)

lemma sound_ids_below: "sound_reader R \<Longrightarrow> ids_below (length (reader_paths R)) (map_of (all_trigram_postings_with_masks R) t)"
  by (auto simp: ids_below_def sound_reader_def dest!: map_of_in split: option.split)

lemma finish_index_returns:
  assumes "\<forall>p\<in>set paths. stored_path p"
  shows "\<exists>out. finish_index env root n paths trigrams completed state = Inr out"
proof -
  have "\<exists>bytes. write_entries 0 paths (write_file_table_header_for [] Legacy) = Inr bytes"
    using assms by (auto simp: write_entries_eq stored_path_def)
  then show ?thesis
    by (auto simp: finish_index_def write_files_and_meta_def write_files_and_meta_to_def Let_def split: prod.split)
qed

lemma disk_checked:
  assumes "check_disk_space available bytes n = Inr ()"
  shows "checked_disk_bytes (u64_checked bytes) = Inr bytes"
proof -
  have "bytes < 2 ^ 64"
    using assms by (auto simp: check_disk_space_def checked_disk_bytes_def u64_checked_def split: if_splits option.splits bind_splits)
  then show ?thesis by (simp add: checked_disk_bytes_def u64_checked_def)
qed

text \<open>Opening what a two-way merge has written.\<close>

lemma merged_index:
  assumes asc: "ascending (map fst as)" "ascending (map fst bs)" and none: "es None None = []"
    and len: "\<And>t. length (es (map_of as t) (map_of bs t)) < 2 ^ 32"
    and each: "\<forall>a b. length (es a b) \<le> (case a of Some x \<Rightarrow> la x | None \<Rightarrow> 0) + (case b of Some x \<Rightarrow> lb x | None \<Rightarrow> 0)"
    and total: "sum_list (map (la \<circ> snd) as) + sum_list (map (lb \<circ> snd) bs) < 2 ^ 61"
    and stored: "\<forall>p\<in>set paths. stored_path p" "length paths < 2 ^ 32"
    and finish: "finish_index env root (length paths) paths n completed state = Inr out"
    and state: "tables_written state (merge_groups es as bs)"
  shows "\<exists>S. open_impl (index_dir out) require Legacy guarded = Inr S \<and> reader_paths S = paths \<and>
    validate_lookup S = Inr () \<and> (\<forall>t. reader_lookup_trigram_with_masks S t = es (map_of as t) (map_of bs t))"
proof -
  let ?gs = "merge_groups es as bs"
  have "tables_ok ?gs"
    unfolding tables_ok_def
  proof (intro conjI ballI)
    show asc': "ascending (map fst ?gs)" by (rule merge_groups_ascending [OF asc])
    show "length (postings_file ?gs) < 2 ^ 64"
      using merge_groups_total [OF each, of as bs] total by (simp add: length_postings_file POSTING_ENTRY_SIZE_def)
    fix g
    assume g: "g \<in> set ?gs"
    then show "snd g \<noteq> []" by (simp add: merge_groups_def nonempty_groups_def)
    have "map_of ?gs (fst g) = Some (snd g)" using g ascending_distinct [OF asc'] by simp
    then have "snd g = es (map_of as (fst g)) (map_of bs (fst g))"
      using merge_groups_lookup [where es = es, OF asc none, of "fst g"] by simp
    then show "length (snd g) < 2 ^ 32" using len by simp
  qed
  from opened_index [OF finish_index_written [OF finish state] this stored(1), of require guarded] stored(2) show ?thesis
    unfolding merge_groups_lookup [where es = es, OF asc none] by auto
qed

text \<open>C9. Merging a delta into an index gives an index that opens and validates, has the files
  that stay followed by those of the delta, and names for every trigram the files the index named
  without the removed ones, then those the delta named, each with its masks.\<close>

theorem delta_merge_names:
  assumes sound: "sound_reader R" "sound_reader D"
    and files: "length (filter (\<lambda>p. p \<notin> removed) (reader_paths R)) + length (reader_paths D) < 2 ^ 32"
    and disk: "check_disk_space (free_space env) (mapped_bytes R + mapped_bytes D)
      (length (filter (\<lambda>p. p \<notin> removed) (reader_paths R)) + length (reader_paths D)) = Inr ()"
    and lists: "\<forall>t. length (reader_lookup_trigram_with_masks R t) + length (reader_lookup_trigram_with_masks D t) < 2 ^ 32"
    and total: "posting_total R + posting_total D < 2 ^ 61"
  shows "\<exists>out S. merge_index_with_delta env root R D removed completed = Inr out \<and>
    open_impl (index_dir out) require Legacy guarded = Inr S \<and> validate_lookup S = Inr () \<and>
    reader_paths S = filter (\<lambda>p. p \<notin> removed) (reader_paths R) @ reader_paths D \<and>
    (\<forall>t. named S t = filter (\<lambda>x. fst x \<notin> removed) (named R t) @ named D t)"
proof -
  let ?kept = "filter (\<lambda>p. p \<notin> removed) (reader_paths R)" and ?qs = "reader_paths D"
  let ?ids = "kept_ids (reader_paths R) removed" and ?base = "of_nat (length ?kept) :: u32"
  let ?gr = "all_trigram_postings_with_masks R" and ?gd = "all_trigram_postings_with_masks D"
  let ?es = "delta_entries ?ids ?base" and ?paths = "?kept @ ?qs"
  let ?n = "length (merge_groups ?es (raw_lists ?gr) (raw_lists ?gd))"
  let ?step = "delta_step (removed = {}) ?ids (length ?qs) ?base"
  have kept: "length ?kept < 2 ^ 32" using files by simp
  then have base: "unat ?base = length ?kept" by (simp add: unat_of_nat)
  have ids: "reader_id_map (reader_paths R) removed 0 = Inr (?ids, ?base)"
    using reader_id_map_spec [of 0 removed "reader_paths R"] kept by (simp add: kept_ids_def cong: if_cong)
  have asc: "ascending (map fst (raw_lists ?gr))" "ascending (map fst (raw_lists ?gd))"
    using sound by (simp_all add: sound_ascending)
  have count: "length (raw_lists ?gr) = num_entries R" "length (raw_lists ?gd) = num_entries D"
    by (simp_all add: all_trigram_postings_with_masks_def)
  have look: "reader_lookup_trigram_with_masks R t = (case map_of ?gr t of Some l \<Rightarrow> l | None \<Rightarrow> [])"
    "reader_lookup_trigram_with_masks D t = (case map_of ?gd t of Some l \<Rightarrow> l | None \<Rightarrow> [])" for t
    using sound by (simp_all add: sound_ascending)
  have entries: "?es (map_of (raw_lists ?gr) t) (map_of (raw_lists ?gd) t) =
      remap_entries ?ids (reader_lookup_trigram_with_masks R t) @
      shift_entries ?base (reader_lookup_trigram_with_masks D t)" for t
    by (simp add: map_of_raw_lists delta_entries_def look shift_entries_def remap_entries_simps split: option.split)
  have len: "length (?es (map_of (raw_lists ?gr) t) (map_of (raw_lists ?gd) t)) < 2 ^ 32" for t
    using lists [rule_format, of t] length_remap [of ?ids "reader_lookup_trigram_with_masks R t"]
    by (simp add: entries shift_entries_def)
  have step: "writes ?step ?es (map_of (raw_lists ?gr) t) (map_of (raw_lists ?gd) t)" for t
    unfolding map_of_raw_lists
  proof (rule delta_writes)
    show "ids_below (length ?ids) (map_of ?gr t)" "ids_below (length ?qs) (map_of ?gd t)"
      using sound_ids_below [OF sound(1)] sound_ids_below [OF sound(2)] by (simp_all add: kept_ids_def)
    show "unat ?base + length ?qs < 2 ^ 32" using files base by simp
    show "length (?es (table_bytes (map_of ?gr t)) (table_bytes (map_of ?gd t))) < 2 ^ 32"
      using len [of t] by (simp add: map_of_raw_lists)
    show "\<forall>es. map_of ?gr t = Some es \<longrightarrow> remap_entries ?ids es = es" if "removed = {}"
      using sound_ids_below [OF sound(1), of t] remap_everything [of "reader_paths R"] kept that by (auto simp: ids_below_def)
  qed
  obtain state where state: "two_way (nth_trigram_raw R) (num_entries R) (nth_trigram_raw D) (num_entries D) ?step 0 0 (no_tables, 0) =
      Inr (state, ?n)" "tables_written state (merge_groups ?es (raw_lists ?gr) (raw_lists ?gd))"
    using merge_written [OF asc, of "nth_trigram_raw R" "nth_trigram_raw D" ?step ?es] sound_raw [OF sound(1)] sound_raw [OF sound(2)] step
    unfolding count by blast
  have stored: "\<forall>p\<in>set ?paths. stored_path p" using sound by (auto simp: sound_reader_def wf_reader_def)
  obtain out where out: "finish_index env root (length ?paths) ?paths ?n (Some completed) state = Inr out"
    using finish_index_returns [OF stored] by blast
  have merged: "merge_index_with_delta env root R D removed completed = Inr out"
    using out state(1) disk files disk_checked [OF disk]
    by (simp add: merge_index_with_delta_def Let_def ids base files_limit_def)
  have each: "\<forall>a b. length (?es a b) \<le>
      (case a of Some x \<Rightarrow> length (decoded x) | None \<Rightarrow> 0) + (case b of Some x \<Rightarrow> length (decoded x) | None \<Rightarrow> 0)"
    by (auto simp: delta_entries_def shift_entries_def length_remap split: option.split)
  have "sum_list (map ((\<lambda>x. length (decoded x)) \<circ> snd) (raw_lists ?gr)) +
      sum_list (map ((\<lambda>x. length (decoded x)) \<circ> snd) (raw_lists ?gd)) < 2 ^ 61"
    using total by (simp add: sum_raw_lists posting_total_def)
  from merged_index [OF asc _ len each this stored _ out state(2), of require guarded] obtain S where
    S: "open_impl (index_dir out) require Legacy guarded = Inr S" "reader_paths S = ?paths" "validate_lookup S = Inr ()"
      "\<forall>t. reader_lookup_trigram_with_masks S t = ?es (map_of (raw_lists ?gr) t) (map_of (raw_lists ?gd) t)"
    using files unfolding length_append by (auto simp: delta_entries_def [of _ _ None None])
  have ids_ok: "\<forall>e\<in>set (reader_lookup_trigram_with_masks X t). unat (file_id e) < length (reader_paths X)"
    if "sound_reader X" for X t
    using sound_ids_below [OF that, of t] sound_ascending(2) [OF that, of t] by (simp add: ids_below_def split: option.splits)
  have "named S t = filter (\<lambda>x. fst x \<notin> removed) (named R t) @ named D t" for t
  proof -
    have "named S t = name_entries ?paths (remap_entries ?ids (reader_lookup_trigram_with_masks R t)) @
        name_entries ?paths (shift_entries ?base (reader_lookup_trigram_with_masks D t))"
      by (simp add: named_def S entries) (simp add: name_entries_def)
    then show ?thesis
      using name_remapped [OF kept ids_ok [OF sound(1)]] name_shifted [OF files ids_ok [OF sound(2)]] by (simp add: named_def)
  qed
  with merged S show ?thesis by blast
qed

text \<open>The small index as both inputs.\<close>

definition demo_env :: build_env where
  "demo_env = \<lparr>blake3 = \<lambda>_. [], now = 0, free_space = Inr (2 ^ 40)\<rparr>"

lemma demo_lists: "all_trigram_postings_with_masks demo_reader = [(7, [\<lparr>loc_mask = 1, next_mask = 2, file_id = 0\<rparr>])]"
  by (simp add: all_trigram_postings_with_masks_def trigram_posting_at_def demo_entry demo_list demo_fields)

lemma demo_sound: "sound_reader demo_reader"
  unfolding sound_reader_def demo_lists demo_fields
  using open_impl_wf [OF demo_open [of False False]] demo_valid by simp

lemma demo_lookup:
  "reader_lookup_trigram_with_masks demo_reader t = (if t = 7 then [\<lparr>loc_mask = 1, next_mask = 2, file_id = 0\<rparr>] else [])"
  by (simp add: sound_ascending(2) [OF demo_sound] demo_lists)

lemma demo_named: "named demo_reader 7 = [([0x61], 1, 2)]"
  by (simp add: named_def demo_lookup demo_fields name_entries_def)

lemma demo_space: "check_disk_space (free_space demo_env) n k = Inr ()" if "n < 2 ^ 20" "k < 2 ^ 20"
  using that by (simp add: check_disk_space_iff demo_env_def BUILD_DISK_BYTES_PER_PATH_def BUILD_DISK_HEADROOM_BYTES_def)

theorem delta_merge_names_witness:
  "\<exists>out S. merge_index_with_delta demo_env [] demo_reader demo_reader {[0x61]} True = Inr out \<and>
     open_impl (index_dir out) False Legacy False = Inr S \<and> reader_paths S = [[0x61]] \<and> named S 7 = [([0x61], 1, 2)]"
proof -
  have "check_disk_space (free_space demo_env) (mapped_bytes demo_reader + mapped_bytes demo_reader)
      (length (filter (\<lambda>p. p \<notin> {[0x61]}) (reader_paths demo_reader)) + length (reader_paths demo_reader)) = Inr ()"
    by (rule demo_space) (simp_all add: mapped_bytes_def demo_fields)
  moreover have "\<forall>t. length (reader_lookup_trigram_with_masks demo_reader t) +
      length (reader_lookup_trigram_with_masks demo_reader t) < 2 ^ 32" by (simp add: demo_lookup)
  ultimately obtain out S where
    m: "merge_index_with_delta demo_env [] demo_reader demo_reader {[0x61]} True = Inr out"
      "open_impl (index_dir out) False Legacy False = Inr S"
      "reader_paths S = filter (\<lambda>p. p \<notin> {[0x61]}) (reader_paths demo_reader) @ reader_paths demo_reader"
      "\<forall>t. named S t = filter (\<lambda>x. fst x \<notin> {[0x61]}) (named demo_reader t) @ named demo_reader t"
    using delta_merge_names [OF demo_sound demo_sound, of "{[0x61]}" demo_env "[]" True False False]
    by (auto simp: posting_total_def demo_lists demo_fields)
  have "reader_paths S = [[0x61]]" "named S 7 = [([0x61], 1, 2)]"
    using m(3) spec [OF m(4), of 7] by (simp_all add: demo_fields demo_named)
  with m(1,2) show ?thesis by blast
qed

section \<open>Appending an overlay\<close>

definition overlay_entries :: "u32 \<Rightarrow> byte list option \<Rightarrow> u32 list option \<Rightarrow> posting_entry list" where
  "overlay_entries base a b =
     (case a of Some x \<Rightarrow> decoded x | None \<Rightarrow> []) @
     (case b of Some ks \<Rightarrow> map (\<lambda>k. \<lparr>loc_mask = - 1, next_mask = - 1, file_id = base + k\<rparr>) ks | None \<Rightarrow> [])"

lemma encode_overlay_entries:
  "\<forall>k\<in>set ks. unat base + unat k < 2 ^ 32 \<Longrightarrow>
     encode_overlay base ks scratch =
       Inr (scratch @ concat (map posting_encode (map (\<lambda>k. \<lparr>loc_mask = - 1, next_mask = - 1, file_id = base + k\<rparr>) ks)))"
  by (induction ks arbitrary: scratch) (simp_all add: checked_add_u32_def)

lemma write_overlay_entries:
  assumes "\<forall>k\<in>set ks. unat base + unat k < 2 ^ 32"
  shows "write_overlay_chunks base (chunks POSTING_WRITE_CHUNK_ENTRIES ks) s =
    Inr (put_postings (concat (map posting_encode (map (\<lambda>k. \<lparr>loc_mask = - 1, next_mask = - 1, file_id = base + k\<rparr>) ks))) s)"
proof -
  have "write_overlay_chunks base css s =
      Inr (put_postings (concat (map posting_encode (map (\<lambda>k. \<lparr>loc_mask = - 1, next_mask = - 1, file_id = base + k\<rparr>) (concat css)))) s)"
    if "\<forall>k\<in>set (concat css). unat base + unat k < 2 ^ 32" for css
    using that
  proof (induction css arbitrary: s)
    case (Cons c css)
    have "encode_overlay base c [] =
        Inr (concat (map posting_encode (map (\<lambda>k. \<lparr>loc_mask = - 1, next_mask = - 1, file_id = base + k\<rparr>) c)))"
      using Cons.prems by (subst encode_overlay_entries) auto
    moreover have "\<forall>k\<in>set (concat css). unat base + unat k < 2 ^ 32" using Cons.prems by auto
    note Cons.IH [OF this]
    ultimately show ?case by (simp add: put_postings_twice)
  qed simp
  from this [of "chunks POSTING_WRITE_CHUNK_ENTRIES ks"] assms show ?thesis by (simp add: POSTING_WRITE_CHUNK_ENTRIES_def)
qed

lemma overlay_writes:
  assumes b: "\<forall>ks. b = Some ks \<longrightarrow> (\<forall>k\<in>set ks. unat base + unat k < 2 ^ 32)"
    and len: "length (overlay_entries base (table_bytes a) b) < 2 ^ 32"
  shows "writes (overlay_step base) (overlay_entries base) (table_bytes a) b"
proof -
  define ra where "ra = (case a of Some es \<Rightarrow> es | None \<Rightarrow> [])"
  define ob where "ob = (case b of Some ks \<Rightarrow> map (\<lambda>k. \<lparr>loc_mask = - 1, next_mask = - 1, file_id = base + k\<rparr>) ks | None \<Rightarrow> [])"
  have es: "overlay_entries base (table_bytes a) b = ra @ ob"
    by (simp add: overlay_entries_def ra_def ob_def split: option.split)
  have reader_len: "(case table_bytes a of Some b \<Rightarrow> length b div POSTING_ENTRY_SIZE | None \<Rightarrow> 0) = length ra"
    by (simp add: ra_def table_entries_length split: option.split)
  have overlay_len: "(case b of Some v \<Rightarrow> length v | None \<Rightarrow> 0) = length ob"
    by (simp add: ob_def split: option.split)
  have reader: "(case table_bytes a of Some b \<Rightarrow> put_postings b s | None \<Rightarrow> s) =
      put_postings (concat (map posting_encode ra)) s" for s
    by (simp add: ra_def split: option.split)
  have overlay: "(case b of Some ks \<Rightarrow> write_overlay_chunks base (chunks POSTING_WRITE_CHUNK_ENTRIES ks) s | None \<Rightarrow> Inr s) =
      Inr (put_postings (concat (map posting_encode ob)) s)" for s
    using b write_overlay_entries by (simp add: ob_def split: option.split)
  have "overlay_step base t (table_bytes a) b s =
      Inr (if ra @ ob = [] then s
           else put_postings (concat (map posting_encode (ra @ ob))) (put_lookup t (length (ra @ ob)) s))" for t s
    using len unfolding es overlay_step_def reader_len overlay_len Let_def reader overlay
    by (simp add: list_length_def put_postings_twice)
  then show ?thesis unfolding writes_def es using len es by simp
qed

text \<open>The lists of the overlay, in ascending order of the trigrams.\<close>

definition overlay_lists :: "(u32, u32 list) mapping \<Rightarrow> (u32 \<times> u32 list) list" where
  "overlay_lists inverted = map (\<lambda>t. (t, the (Mapping.lookup inverted t))) (sorted_list_of_set (Mapping.keys inverted))"

lemma overlay_lists_lookup: "map_of (overlay_lists inverted) t = Mapping.lookup inverted t"
proof -
  have keys: "finite (Mapping.keys inverted)" by (rule finite_subset [OF subset_UNIV]) simp
  have "map_of (map (\<lambda>t. (t, the (Mapping.lookup inverted t))) ts) t =
      (if t \<in> set ts then Some (the (Mapping.lookup inverted t)) else None)" for ts
    by (induction ts) auto
  then show ?thesis using keys by (cases "Mapping.lookup inverted t") (simp_all add: overlay_lists_def keys_dom_lookup dom_def)
qed

lemma overlay_lists_ascending [simp]: "ascending (map fst (overlay_lists inverted))"
  by (simp add: overlay_lists_def comp_def strict_sorted_list_of_set)

definition overlay_total :: "(u32, u32 list) mapping \<Rightarrow> nat" where
  "overlay_total inverted = sum_list (map (length \<circ> snd) (overlay_lists inverted))"

text \<open>C10. Flushing an overlay into an index gives an index that opens and validates, has the files of
  the index followed by those of the overlay, and names for every trigram the files the index
  named, then those of the overlay with the masks that exclude nothing.\<close>

theorem appended_overlay_names:
  assumes sound: "sound_reader R"
    and overlay: "\<forall>t ks. Mapping.lookup inverted t = Some ks \<longrightarrow> (\<forall>k\<in>set ks. unat k < length paths)"
    and stored: "\<forall>p\<in>set paths. stored_path p"
    and files: "length (reader_paths R) + length paths < 2 ^ 32"
    and disk: "check_disk_space (free_space env)
      (mapped_bytes R + (overlay_total inverted * POSTING_ENTRY_SIZE + length (overlay_lists inverted) * LOOKUP_ENTRY_SIZE))
      (length (reader_paths R) + length paths) = Inr ()"
    and lists: "\<forall>t. length (reader_lookup_trigram_with_masks R t) +
      (case Mapping.lookup inverted t of Some ks \<Rightarrow> length ks | None \<Rightarrow> 0) < 2 ^ 32"
    and total: "posting_total R + overlay_total inverted < 2 ^ 61"
  shows "\<exists>out S. append_overlay_to_index env root R paths inverted completed = Inr out \<and>
    open_impl (index_dir out) require Legacy guarded = Inr S \<and> validate_lookup S = Inr () \<and>
    reader_paths S = reader_paths R @ paths \<and>
    (\<forall>t. named S t = named R t @
       (case Mapping.lookup inverted t of Some ks \<Rightarrow> map (\<lambda>k. (paths ! unat k, - 1, - 1)) ks | None \<Rightarrow> []))"
proof -
  let ?base = "of_nat (length (reader_paths R)) :: u32" and ?bs = "overlay_lists inverted"
  let ?gr = "all_trigram_postings_with_masks R" and ?paths = "reader_paths R @ paths"
  let ?es = "overlay_entries ?base"
  let ?n = "length (merge_groups ?es (raw_lists ?gr) ?bs)"
  have base: "unat ?base = length (reader_paths R)" using files by (simp add: unat_of_nat)
  have asc: "ascending (map fst (raw_lists ?gr))" "ascending (map fst ?bs)" using sound by (simp_all add: sound_ascending)
  have count: "length (raw_lists ?gr) = num_entries R" by (simp add: all_trigram_postings_with_masks_def)
  have look: "reader_lookup_trigram_with_masks R t = (case map_of ?gr t of Some l \<Rightarrow> l | None \<Rightarrow> [])" for t
    using sound by (simp add: sound_ascending)
  have entries: "?es (map_of (raw_lists ?gr) t) (map_of ?bs t) =
      reader_lookup_trigram_with_masks R t @
      (case Mapping.lookup inverted t of
         Some ks \<Rightarrow> map (\<lambda>k. \<lparr>loc_mask = - 1, next_mask = - 1, file_id = ?base + k\<rparr>) ks | None \<Rightarrow> [])" for t
    by (simp add: map_of_raw_lists overlay_lists_lookup overlay_entries_def look split: option.split)
  have len: "length (?es (map_of (raw_lists ?gr) t) (map_of ?bs t)) < 2 ^ 32" for t
    using lists [rule_format, of t] by (simp add: entries split: option.splits)
  have step: "writes (overlay_step ?base) ?es (map_of (raw_lists ?gr) t) (map_of ?bs t)" for t
    unfolding map_of_raw_lists
  proof (rule overlay_writes)
    show "\<forall>ks. map_of ?bs t = Some ks \<longrightarrow> (\<forall>k\<in>set ks. unat ?base + unat k < 2 ^ 32)"
      using overlay files base by (fastforce simp: overlay_lists_lookup)
    show "length (?es (table_bytes (map_of ?gr t)) (map_of ?bs t)) < 2 ^ 32"
      using len [of t] by (simp add: map_of_raw_lists)
  qed
  let ?read = "\<lambda>i. Some (sorted_list_of_set (Mapping.keys inverted) ! i,
      the (Mapping.lookup inverted (sorted_list_of_set (Mapping.keys inverted) ! i)))"
  have read: "\<forall>i<length ?bs. ?read i = Some (?bs ! i)" by (simp add: overlay_lists_def)
  have keys: "length (sorted_list_of_set (Mapping.keys inverted)) = length ?bs" by (simp add: overlay_lists_def)
  obtain state where state: "two_way (nth_trigram_raw R) (num_entries R) ?read (length ?bs) (overlay_step ?base) 0 0 (no_tables, 0) =
      Inr (state, ?n)" "tables_written state (merge_groups ?es (raw_lists ?gr) ?bs)"
    using merge_written [OF asc, of "nth_trigram_raw R" ?read "overlay_step ?base" ?es] sound_raw [OF sound] read step
    unfolding count by blast
  have stored': "\<forall>p\<in>set ?paths. stored_path p" using sound stored by (auto simp: sound_reader_def wf_reader_def)
  obtain out where out: "finish_index env root (length ?paths) ?paths ?n (Some completed) state = Inr out"
    using finish_index_returns [OF stored'] by blast
  have sizes: "sum_list (map (\<lambda>t. length (the (Mapping.lookup inverted t))) (sorted_list_of_set (Mapping.keys inverted))) =
      overlay_total inverted"
    by (simp add: overlay_total_def overlay_lists_def comp_def)
  have fits: "mapped_bytes R + (overlay_total inverted * POSTING_ENTRY_SIZE + length ?bs * LOOKUP_ENTRY_SIZE) < 2 ^ 64"
    using disk by (simp add: check_disk_space_iff)
  have summed: "sum_sizes (map (\<lambda>t. length (the (Mapping.lookup inverted t))) (sorted_list_of_set (Mapping.keys inverted))) 0 =
      Inr (overlay_total inverted)"
    using total by (simp add: sum_sizes_eq sizes)
  have payload: "index_payload_disk_bytes (overlay_total inverted) (length ?bs) =
      Inr (overlay_total inverted * POSTING_ENTRY_SIZE + length ?bs * LOOKUP_ENTRY_SIZE)"
    using fits by (simp add: index_payload_disk_bytes_def checked_disk_bytes_def u64_checked_def)
  have merged: "append_overlay_to_index env root R paths inverted completed = Inr out"
    unfolding append_overlay_to_index_def Let_def summed rbind_Inr keys payload disk_checked [OF disk] disk
    using out state(1) files base by (simp add: files_limit_def)
  have each: "\<forall>a b. length (?es a b) \<le>
      (case a of Some x \<Rightarrow> length (decoded x) | None \<Rightarrow> 0) + (case b of Some x \<Rightarrow> length x | None \<Rightarrow> 0)"
    by (auto simp: overlay_entries_def split: option.split)
  have "sum_list (map ((\<lambda>x. length (decoded x)) \<circ> snd) (raw_lists ?gr)) + sum_list (map (length \<circ> snd) ?bs) < 2 ^ 61"
    using total by (simp add: sum_raw_lists posting_total_def overlay_total_def)
  from merged_index [OF asc _ len each this stored' _ out state(2), of require guarded] obtain S where
    S: "open_impl (index_dir out) require Legacy guarded = Inr S" "reader_paths S = ?paths" "validate_lookup S = Inr ()"
      "\<forall>t. reader_lookup_trigram_with_masks S t = ?es (map_of (raw_lists ?gr) t) (map_of ?bs t)"
    using files unfolding length_append by (auto simp: overlay_entries_def [of _ None None])
  have "named S t = named R t @
      (case Mapping.lookup inverted t of Some ks \<Rightarrow> map (\<lambda>k. (paths ! unat k, - 1, - 1)) ks | None \<Rightarrow> [])" for t
  proof -
    have "unat (file_id e) < length (reader_paths R)" if "e \<in> set (reader_lookup_trigram_with_masks R t)" for e
      using sound_ids_below [OF sound, of t] that by (simp add: ids_below_def look split: option.splits)
    moreover have "unat (?base + k) = length (reader_paths R) + unat k \<and> unat k < length paths"
      if "Mapping.lookup inverted t = Some ks" "k \<in> set ks" for k ks
      using overlay that files base by (fastforce simp: unat_word_ariths)
    ultimately show ?thesis
      by (simp add: named_def name_entries_def S entries nth_append split: option.split)
  qed
  with merged S show ?thesis by blast
qed

theorem appended_overlay_names_witness:
  "\<exists>out S. append_overlay_to_index demo_env [] demo_reader [[0x62]] (Mapping.update 7 [0] Mapping.empty) True = Inr out \<and>
     open_impl (index_dir out) False Legacy False = Inr S \<and> named S 7 = [([0x61], 1, 2), ([0x62], - 1, - 1)]"
proof -
  let ?inverted = "Mapping.update 7 [0] Mapping.empty :: (u32, u32 list) mapping"
  have lists: "overlay_lists ?inverted = [(7, [0])]" by (simp add: overlay_lists_def)
  have "stored_path [0x62]" by (simp add: stored_path_def MAX_PATH_LEN_def validate_index_path_iff)
  moreover have "check_disk_space (free_space demo_env)
      (mapped_bytes demo_reader + (overlay_total ?inverted * POSTING_ENTRY_SIZE + length (overlay_lists ?inverted) * LOOKUP_ENTRY_SIZE))
      (length (reader_paths demo_reader) + length [[0x62 :: byte]]) = Inr ()"
    by (rule demo_space) (simp_all add: mapped_bytes_def demo_fields overlay_total_def lists POSTING_ENTRY_SIZE_def LOOKUP_ENTRY_SIZE_def)
  moreover have "\<forall>t. length (reader_lookup_trigram_with_masks demo_reader t) +
      (case Mapping.lookup ?inverted t of Some ks \<Rightarrow> length ks | None \<Rightarrow> 0) < 2 ^ 32"
    by (simp add: demo_lookup lookup_update')
  moreover have "\<forall>t ks. Mapping.lookup ?inverted t = Some ks \<longrightarrow> (\<forall>k\<in>set ks. unat k < length [[0x62 :: byte]])"
    by (simp add: lookup_update')
  ultimately obtain out S where m: "append_overlay_to_index demo_env [] demo_reader [[0x62]] ?inverted True = Inr out"
      "open_impl (index_dir out) False Legacy False = Inr S"
      "\<forall>t. named S t = named demo_reader t @
         (case Mapping.lookup ?inverted t of Some ks \<Rightarrow> map (\<lambda>k. ([[0x62]] ! unat k, - 1, - 1)) ks | None \<Rightarrow> [])"
    using appended_overlay_names [OF demo_sound, of ?inverted "[[0x62]]" demo_env "[]" True False False]
    by (auto simp: posting_total_def demo_lists demo_fields overlay_total_def lists)
  have "named S 7 = [([0x61], 1, 2), ([0x62], - 1, - 1)]"
    using spec [OF m(3), of 7] by (simp add: demo_named lookup_update')
  with m(1,2) show ?thesis by blast
qed

end
