(* ===== verification/Build.thy ===== *)
theory Build
  imports Read_Budget Encoding Delta_Spec
begin

text \<open>
  Building an index from files (\<^verbatim>\<open>tgrep-core/src/builder.rs\<close>): extracting one file, the
  two destinations of the postings, and the build of a delta for a list of files, batch by batch.
  The file system is a record of functions on the files: the size a stat gives, what each open
  sees, and the path below the root (\<^verbatim>\<open>Path::strip_prefix\<close>).  The decoders, the digest, the
  order in which the table of a file is walked and the way segments are read are arguments.  The
  wrapping of errors in \<^verbatim>\<open>BuildOutputError\<close> changes only their message and is left out.
\<close>

section \<open>One file\<close>

record extracted_file =
  ef_path :: path
  ef_trigrams :: "mask_map option"
  ef_content_id :: "content_id option"
  ef_version :: "file_version option"

definition is_mapped :: "file_bytes \<Rightarrow> bool" where
  "is_mapped b = (case b of Mapped _ \<Rightarrow> True | Read _ \<Rightarrow> False)"

definition extract_indexed_file ::
  "'e encodings \<Rightarrow> (byte list \<Rightarrow> byte list) \<Rightarrow> path \<Rightarrow> index_read \<Rightarrow> extracted_file"
where
  "extract_indexed_file E digest path data =
     (let text = cow_bytes (decode_for_index E (bytes_of (ir_bytes data)));
          (trigrams, content_id) =
            (if is_binary text then (None, None)
             else (Some (extract_merged_masks text), Some (content_id_of digest text)));
          ver = verified_version data;
          content_id = (if ver = None \<and> is_mapped (ir_bytes data) then None else content_id)
      in \<lparr>ef_path = path, ef_trigrams = trigrams, ef_content_id = content_id, ef_version = ver\<rparr>)"

text \<open>\<^verbatim>\<open>walker::index_key\<close> on a Unix host.\<close>

definition index_key :: "byte list \<Rightarrow> path option" where
  "index_key relative =
     (if \<not> valid_utf8 relative then None else if 0x5C \<in> set relative then None else Some relative)"

record 'f file_system =
  file_len :: "'f \<Rightarrow> nat option"
  file_opens :: "'f \<Rightarrow> nat \<Rightarrow> io_kind + file_handle"
  below_root :: "'f \<Rightarrow> byte list option"

section \<open>Destinations of the postings\<close>

datatype posting_sink = SinkMemory "trigram_posting list" | SinkExternal external_sorter

definition sink_new :: "index_strategy \<Rightarrow> nat \<Rightarrow> posting_sink" where
  "sink_new strategy buffer_bytes =
     (case strategy of InMemory \<Rightarrow> SinkMemory [] | External \<Rightarrow> SinkExternal (sorter_new buffer_bytes False))"

definition sink_push_file :: "u32 \<Rightarrow> (u32 \<times> trigram_masks) list \<Rightarrow> posting_sink \<Rightarrow> posting_sink" where
  "sink_push_file fid per_trigram sink =
     (case sink of
        SinkMemory postings \<Rightarrow>
          SinkMemory (postings @ map (\<lambda>(trigram, m). \<lparr>tp_trigram = trigram,
            tp_entry = \<lparr>loc_mask = loc_mask m, next_mask = next_mask m, file_id = fid\<rparr>\<rparr>) per_trigram)
      | SinkExternal sorter \<Rightarrow> SinkExternal (push_file fid per_trigram sorter))"

definition write_sorted_index ::
  "build_env \<Rightarrow> path \<Rightarrow> (u32 \<times> path) list \<Rightarrow> bool option \<Rightarrow> (nat \<Rightarrow> reads) \<Rightarrow> external_sorter \<Rightarrow> index_output result"
where
  "write_sorted_index env root files completed amount sorter =
     rbind (write_postings amount sorter) (\<lambda>(tables, _).
     rbind (write_files_and_meta env root (length files) (map snd files) (trigram_count tables) completed)
       (\<lambda>(table, meta).
          Inr \<lparr>out_lookup = lookup_bytes tables, out_postings = posting_bytes tables,
               out_table = table, out_meta = meta\<rparr>))"

definition sink_finish ::
  "build_env \<Rightarrow> path \<Rightarrow> (u32 \<times> path) list \<Rightarrow> (nat \<Rightarrow> reads) \<Rightarrow> posting_sink \<Rightarrow> index_output result"
where
  "sink_finish env root files amount sink =
     (case sink of
        SinkMemory postings \<Rightarrow> write_index_v2_from_postings env root files postings
      | SinkExternal sorter \<Rightarrow> write_sorted_index env root files None amount sorter)"

section \<open>A delta for a list of files\<close>

record 'f file_delta =
  fd_ids :: "(u32 \<times> path) list"
  fd_sorter :: external_sorter
  fd_unreadable :: "'f list"
  fd_content_ids :: "(path, content_id) mapping"
  fd_versions :: "(path, file_version) mapping"

text \<open>The closure over a file and its size: nothing for a name no index holds, the file when it
  could not be read at a verified version.\<close>

definition index_one ::
  "'e encodings \<Rightarrow> (byte list \<Rightarrow> byte list) \<Rightarrow> 'f file_system \<Rightarrow> 'f \<times> nat \<Rightarrow> ('f + extracted_file) option"
where
  "index_one E digest FS = (\<lambda>(f, len).
     case Option.bind (below_root FS f) index_key of
       None \<Rightarrow> None
     | Some rel \<Rightarrow>
         (case fst (read_for_index (file_opens FS f) len None) of
            Inl e \<Rightarrow> Some (Inl f)
          | Inr data \<Rightarrow>
              let extracted = extract_indexed_file E digest rel data
              in if ef_version extracted = None then Some (Inl f) else Some (Inr extracted)))"

text \<open>The table of a file, as a list in the order it is walked.\<close>

definition per_trigram :: "(u32 set \<Rightarrow> u32 list) \<Rightarrow> mask_map \<Rightarrow> (u32 \<times> trigram_masks) list" where
  "per_trigram iter m = map (\<lambda>t. (t, the (Mapping.lookup m t))) (iter (Mapping.keys m))"

definition absorb :: "(u32 set \<Rightarrow> u32 list) \<Rightarrow> 'f + extracted_file \<Rightarrow> 'f file_delta \<Rightarrow> 'f file_delta result" where
  "absorb iter entry s =
     (case entry of
        Inl skipped \<Rightarrow> Inr (s\<lparr>fd_unreadable := fd_unreadable s @ [skipped]\<rparr>)
      | Inr extracted \<Rightarrow>
          let path = ef_path extracted;
              s = (case ef_version extracted of
                Some v \<Rightarrow> s\<lparr>fd_versions := Mapping.update path v (fd_versions s)\<rparr>
              | None \<Rightarrow> s)
          in case ef_trigrams extracted of
               None \<Rightarrow> Inr s
             | Some per_tri \<Rightarrow>
                 if length (fd_ids s) \<ge> 2 ^ 32 then Inl (IndexCorrupted ''file count exceeds the u32 file-id limit'')
                 else
                   let fid = of_nat (length (fd_ids s)) :: u32;
                       s = (case ef_content_id extracted of
                         Some c \<Rightarrow> s\<lparr>fd_content_ids := Mapping.update path c (fd_content_ids s)\<rparr>
                       | None \<Rightarrow> s);
                       s = s\<lparr>fd_ids := fd_ids s @ [(fid, path)]\<rparr>
                   in Inr (s\<lparr>fd_sorter := push_file fid (per_trigram iter per_tri) (fd_sorter s)\<rparr>))"

fun absorb_all :: "(u32 set \<Rightarrow> u32 list) \<Rightarrow> ('f + extracted_file) list \<Rightarrow> 'f file_delta \<Rightarrow> 'f file_delta result" where
  "absorb_all iter [] s = Inr s"
| "absorb_all iter (entry # batch_data) s = rbind (absorb iter entry s) (absorb_all iter batch_data)"

fun absorb_batches ::
  "(u32 set \<Rightarrow> u32 list) \<Rightarrow> ('f \<times> nat \<Rightarrow> ('f + extracted_file) option) \<Rightarrow> 'f list \<Rightarrow> nat list \<Rightarrow> (nat \<times> nat) list \<Rightarrow>
   'f file_delta \<Rightarrow> 'f file_delta result"
where
  "absorb_batches iter one files sizes [] s = Inr s"
| "absorb_batches iter one files sizes ((a, b) # ranges) s =
     (let batch = take (b - a) (drop a files);
          batch_sizes = take (b - a) (drop a sizes);
          batch_data = List.map_filter one (zip batch batch_sizes)
      in rbind (absorb_all iter batch_data s) (absorb_batches iter one files sizes ranges))"

record 'f file_delta_outcome =
  fo_indexed :: nat
  fo_unreadable :: "'f list"
  fo_content_ids :: "(path, content_id) mapping"
  fo_versions :: "(path, file_version) mapping"

definition file_delta_new :: "nat \<Rightarrow> 'f file_delta" where
  "file_delta_new buffer_bytes =
     \<lparr>fd_ids = [], fd_sorter = sorter_new buffer_bytes False, fd_unreadable = [],
      fd_content_ids = Mapping.empty, fd_versions = Mapping.empty\<rparr>"

definition build_index_for_files ::
  "build_env \<Rightarrow> 'e encodings \<Rightarrow> (u32 set \<Rightarrow> u32 list) \<Rightarrow> (nat \<Rightarrow> reads) \<Rightarrow> 'f file_system \<Rightarrow> path \<Rightarrow> 'f list \<Rightarrow> nat \<Rightarrow>
   (index_output \<times> 'f file_delta_outcome) result"
where
  "build_index_for_files env E iter amount FS root files buffer_bytes =
     (let (sizes, charges) = batch_sizes_and_charges (map (file_len FS) files)
      in rbind (check_build_disk_space_for_sizes (free_space env) sizes (length files) External) (\<lambda>_.
         rbind (absorb_batches iter (index_one E (blake3 env) FS) files sizes
             (batch_ranges charges INDEX_BUILD_BATCH_BYTES) (file_delta_new buffer_bytes)) (\<lambda>s.
         rbind (write_sorted_index env root (fd_ids s) (Some True) amount (fd_sorter s)) (\<lambda>out.
           Inr (out, \<lparr>fo_indexed = length (fd_ids s), fo_unreadable = fd_unreadable s,
                      fo_content_ids = fd_content_ids s, fo_versions = fd_versions s\<rparr>)))))"

section \<open>The index of a sorter\<close>

lemma write_all_written:
  assumes "has_written (iw_lookup w) (iw_postings w) (iw_offset w) gs"
    and "\<forall>g\<in>set hs. snd g \<noteq> [] \<and> length (snd g) < 2 ^ 32"
  shows "\<exists>w'. write_all hs w = Inr w' \<and> has_written (iw_lookup w') (iw_postings w') (iw_offset w') (gs @ hs) \<and>
    iw_count w' = iw_count w + length hs"
  using assms
proof (induction hs arbitrary: w gs)
  case (Cons g hs)
  obtain t es where g: "g = (t, es)" by (cases g)
  then have es: "es \<noteq> []" "length es < 2 ^ 32" using Cons.prems(2) by simp_all
  have "has_written
      (write_lookup_entry (LOOKUP_WRITE_CHUNK_ENTRIES * LOOKUP_ENTRY_SIZE)
        \<lparr>le_trigram = t, le_offset = iw_offset w, le_length = of_nat (length es)\<rparr> (iw_lookup w))
      (iw_postings w @ concat (map posting_encode es))
      (iw_offset w + ucast (of_nat (length es) :: u32) * of_nat POSTING_ENTRY_SIZE) (gs @ [(t, es)])"
    using has_written_group [OF Cons.prems(1)] unfolding widen_length [OF es(2)] .
  then obtain v where v: "write_group t es w = Inr v" "iw_count v = iw_count w + 1"
    "has_written (iw_lookup v) (iw_postings v) (iw_offset v) (gs @ [(t, es)])"
    using es by (simp add: write_group_def Let_def write_posting_entries_eq not_le)
  from Cons.IH [OF v(3)] Cons.prems(2) v(1,2) show ?case by (auto simp: g)
qed simp

lemma entries_total:
  "distinct ts \<Longrightarrow> sum_list (map (\<lambda>t. length (entries_of t ps)) ts) \<le> length ps"
proof (induction ps)
  case (Cons p ps)
  have "sum_list (map (\<lambda>t. length (entries_of t (p # ps))) ts) =
      sum_list (map (\<lambda>t. length (entries_of t ps)) ts) + (if tp_trigram p \<in> set ts then 1 else 0)"
    using Cons.prems by (induction ts) (auto simp: entries_of_def)
  with Cons show ?case by simp
qed (simp add: entries_of_def)

lemma index_groups_ok:
  assumes "length ps < 2 ^ 32"
  shows "tables_ok (index_groups ps)"
  unfolding tables_ok_def
proof (intro conjI ballI)
  let ?ts = "sorted_list_of_set (tp_trigram ` set ps)"
  have keys: "map fst (index_groups ps) = ?ts" by (simp add: index_groups_def comp_def)
  show "ascending (map fst (index_groups ps))" unfolding keys by (rule strict_sorted_list_of_set)
  fix g
  assume "g \<in> set (index_groups ps)"
  then have "g \<in> (\<lambda>t. (t, sort_key file_id (entries_of t ps))) ` tp_trigram ` set ps" by (simp add: index_groups_def)
  then obtain t where t: "t \<in> tp_trigram ` set ps" "snd g = sort_key file_id (entries_of t ps)" by force
  then have "entries_of t ps \<noteq> []" by (auto simp: entries_of_def filter_empty_conv)
  then show "snd g \<noteq> []" using t(2) by (metis length_0_conv length_sort)
  have "length (entries_of t ps) \<le> length ps" by (simp add: entries_of_def)
  then show "length (snd g) < 2 ^ 32" using t(2) assms by simp
next
  let ?ts = "sorted_list_of_set (tp_trigram ` set ps)"
  have "length (concat (map snd (index_groups ps))) = sum_list (map (\<lambda>t. length (entries_of t ps)) ?ts)"
    by (simp add: index_groups_def length_concat comp_def)
  also have "\<dots> \<le> length ps" by (rule entries_total) simp
  finally show "length (postings_file (index_groups ps)) < 2 ^ 64"
    using assms by (simp add: length_postings_file POSTING_ENTRY_SIZE_def)
qed

lemma index_groups_lookup:
  "(case map_of (index_groups ps) t of Some l \<Rightarrow> l | None \<Rightarrow> []) = sort_key file_id (entries_of t ps)"
proof (cases "t \<in> tp_trigram ` set ps")
  case True
  have "map_of (map (\<lambda>t. (t, f t)) ts) t = Some (f t)" if "t \<in> set ts" for f :: "u32 \<Rightarrow> posting_entry list" and ts
    using that by (induction ts) auto
  then show ?thesis using True by (simp add: index_groups_def)
next
  case False
  then have "map_of (index_groups ps) t = None" by (simp add: index_groups_def map_of_eq_None_iff image_comp comp_def)
  moreover have "entries_of t ps = []" using False by (auto simp: entries_of_def filter_empty_conv)
  ultimately show ?thesis by simp
qed

lemma write_postings_tables:
  assumes "sorter_holds sorter ps" "inj_on posting_key (set ps)" "length ps < 2 ^ 32"
  shows "\<exists>tables n. write_postings amount sorter = Inr (tables, n) \<and> lookup_bytes tables = lookup_file (index_groups ps) \<and>
    posting_bytes tables = postings_file (index_groups ps) \<and> trigram_count tables = length (index_groups ps)"
proof -
  have "has_written (iw_lookup writer_create) (iw_postings writer_create) (iw_offset writer_create) []"
    by (simp add: writer_create_def)
  from write_all_written [OF this, of "index_groups ps"] index_groups_ok [OF assms(3)] obtain w where
    w: "write_all (index_groups ps) writer_create = Inr w"
      "has_written (iw_lookup w) (iw_postings w) (iw_offset w) (index_groups ps)" "iw_count w = length (index_groups ps)"
    by (auto simp: tables_ok_def writer_create_def)
  from write_postings_result [OF assms, of amount] obtain n where "write_postings amount sorter = Inr (writer_finish w, n)"
    using w(1) by auto
  then show ?thesis using has_written_files [OF w(2)] w(3) by (simp add: writer_finish_def)
qed

lemma sorted_index_written:
  assumes "sorter_holds sorter ps" "inj_on posting_key (set ps)" "length ps < 2 ^ 32"
    and "\<forall>p\<in>set (map snd files). stored_path p"
  shows "\<exists>out. write_sorted_index env root files completed amount sorter = Inr out \<and> is_index out (index_groups ps) (map snd files)"
proof -
  obtain tables n where t: "write_postings amount sorter = Inr (tables, n)" "lookup_bytes tables = lookup_file (index_groups ps)"
    "posting_bytes tables = postings_file (index_groups ps)"
    using write_postings_tables [OF assms(1-3), of amount] by blast
  obtain out where out: "finish_index env root (length files) (map snd files) (trigram_count tables) completed no_tables = Inr out"
    using finish_index_returns [OF assms(4)] by blast
  then obtain table meta where m: "write_files_and_meta env root (length files) (map snd files) (trigram_count tables) completed = Inr (table, meta)"
    "out_table out = table" "out_meta out = meta"
    by (auto simp: finish_index_def no_tables_def)
  have "is_index out [] (map snd files)"
    using finish_index_written [of env root "map snd files" "trigram_count tables" completed no_tables out "[]"] out by simp
  then have "is_index \<lparr>out_lookup = lookup_bytes tables, out_postings = posting_bytes tables, out_table = table, out_meta = meta\<rparr>
      (index_groups ps) (map snd files)"
    using m(2,3) t(2,3) by (simp add: is_index_def)
  then show ?thesis using t(1) m(1) by (simp add: write_sorted_index_def)
qed

section \<open>Both destinations give the same index\<close>

type_synonym pushes = "(u32 \<times> (u32 \<times> trigram_masks) list) list"

definition pushed :: "pushes \<Rightarrow> trigram_posting list" where
  "pushed fs = concat (map (\<lambda>(fid, l). map (\<lambda>(t, m). \<lparr>tp_trigram = t,
     tp_entry = \<lparr>loc_mask = loc_mask m, next_mask = next_mask m, file_id = fid\<rparr>\<rparr>) l) fs)"

definition push_files :: "pushes \<Rightarrow> posting_sink \<Rightarrow> posting_sink" where
  "push_files fs sink = fold (\<lambda>(fid, l). sink_push_file fid l) fs sink"

lemma push_file_pushed: "push_file fid l s = fold sorter_push (pushed [(fid, l)]) s"
  by (simp add: push_file_def pushed_def fold_map comp_def case_prod_unfold)

lemma pushed_append: "pushed (fs @ gs) = pushed fs @ pushed gs"
  by (simp add: pushed_def)

lemma push_files_memory: "push_files fs (SinkMemory ps) = SinkMemory (ps @ pushed fs)"
  by (induction fs arbitrary: ps) (auto simp: push_files_def sink_push_file_def pushed_def)

lemma push_files_external: "push_files fs (SinkExternal s) = SinkExternal (fold sorter_push (pushed fs) s)"
  by (induction fs arbitrary: s)
    (auto simp: push_files_def sink_push_file_def push_file_pushed pushed_def)

text \<open>C4. The destination of the postings does not show in the index: sorting in memory and spilling to segments
  under any budget write the same four files, or fail with the same error, when the disk has room
  for the payload.\<close>

theorem strategies_write_the_same_index:
  assumes keys: "distinct (map posting_key (pushed fs))" "length (pushed fs) < 2 ^ 32"
    and disk: "check_disk_space (free_space env)
      (length (pushed fs) * (POSTING_ENTRY_SIZE + LOOKUP_ENTRY_SIZE)) (length files) = Inr ()"
  shows "sink_finish env root files amount (push_files fs (sink_new External buffer_bytes)) =
    sink_finish env root files amount' (push_files fs (sink_new InMemory buffer_bytes'))"
proof -
  let ?ps = "pushed fs" and ?gs = "index_groups (pushed fs)"
  have inj: "inj_on posting_key (set ?ps)" using keys(1) by (simp add: distinct_map)
  obtain tables n where t: "write_postings amount (fold sorter_push ?ps (sorter_new buffer_bytes False)) = Inr (tables, n)"
    "lookup_bytes tables = lookup_file ?gs" "posting_bytes tables = postings_file ?gs" "trigram_count tables = length ?gs"
    using write_postings_tables [OF sorter_holds_pushes inj keys(2), of amount] by blast
  let ?sorted = "sort_key posting_key ?ps"
  have groups: "groups_of ?sorted = ?gs" by (rule groups_of_arena [OF inj]) simp_all
  have count: "count_sorted_trigrams ?sorted = length ?gs" by (simp add: count_sorted_trigrams_groups groups)
  have "length ?gs = card (tp_trigram ` set ?ps)" by (simp add: index_groups_def)
  then have few: "length ?gs \<le> length ?ps" by (metis card_image_le card_length finite_set le_trans)
  have written: "tables_written (flat_loop ?sorted no_tables) ([] @ groups_of ?sorted)"
    using keys(2) by (intro flat_loop_written) simp_all
  obtain lookup postings offset where f: "flat_loop ?sorted no_tables = (lookup, postings, offset)" by (cases "flat_loop ?sorted no_tables")
  have files: "fst (flush_lookup_entries lookup) = lookup_file ?gs" "postings = postings_file ?gs"
    using has_written_files [of lookup postings offset ?gs] written by (simp_all add: f groups tables_written_def)
  have room: "check_disk_space (free_space env) (length ?ps * POSTING_ENTRY_SIZE + length ?gs * LOOKUP_ENTRY_SIZE) (length files) = Inr ()"
    using disk few by (auto simp: check_disk_space_iff POSTING_ENTRY_SIZE_def LOOKUP_ENTRY_SIZE_def)
  then have "length ?ps * POSTING_ENTRY_SIZE + length ?gs * LOOKUP_ENTRY_SIZE < 2 ^ 64" by (simp add: check_disk_space_iff)
  then have payload: "index_payload_disk_bytes (length ?ps) (length ?gs) =
      Inr (length ?ps * POSTING_ENTRY_SIZE + length ?gs * LOOKUP_ENTRY_SIZE)"
    by (simp add: index_payload_disk_bytes_def checked_disk_bytes_def u64_checked_def)
  have memory: "sink_finish env root files amount' (push_files fs (sink_new InMemory buffer_bytes')) =
      finish_index env root (length files) (map snd files) (length ?gs) None (flat_loop ?sorted no_tables)"
    by (simp add: sink_new_def push_files_memory sink_finish_def write_index_v2_from_postings_def Let_def count
        write_index_files_from_postings_def payload room)
  have "sink_finish env root files amount (push_files fs (sink_new External buffer_bytes)) =
      rbind (write_files_and_meta env root (length files) (map snd files) (length ?gs) None)
        (\<lambda>(table, meta). Inr \<lparr>out_lookup = lookup_file ?gs, out_postings = postings_file ?gs, out_table = table, out_meta = meta\<rparr>)"
    by (simp add: sink_new_def push_files_external sink_finish_def write_sorted_index_def t)
  also have "\<dots> = finish_index env root (length files) (map snd files) (length ?gs) None (flat_loop ?sorted no_tables)"
    by (simp add: finish_index_def f files)
  finally show ?thesis by (simp only: memory)
qed

definition demo_pushes :: pushes where
  "demo_pushes = [(0, [(7, \<lparr>loc_mask = 1, next_mask = 2\<rparr>), (9, \<lparr>loc_mask = 3, next_mask = 4\<rparr>)])]"

theorem strategies_write_the_same_index_witness:
  "sink_finish demo_env [] [(0, [0x61])] (\<lambda>_ _ _. 1) (push_files demo_pushes (sink_new External 0)) =
   sink_finish demo_env [] [(0, [0x61])] (\<lambda>_ _ _. 0) (push_files demo_pushes (sink_new InMemory 0))"
proof (rule strategies_write_the_same_index)
  show "distinct (map posting_key (pushed demo_pushes))" "length (pushed demo_pushes) < 2 ^ 32"
    by (simp_all add: demo_pushes_def pushed_def posting_key_def)
  show "check_disk_space (free_space demo_env)
      (length (pushed demo_pushes) * (POSTING_ENTRY_SIZE + LOOKUP_ENTRY_SIZE)) (length [(0 :: u32, [0x61 :: byte])]) = Inr ()"
    by (rule demo_space) (simp_all add: demo_pushes_def pushed_def POSTING_ENTRY_SIZE_def LOOKUP_ENTRY_SIZE_def)
qed

section \<open>What the batches add up to\<close>

lemma absorb_all_append:
  "absorb_all iter (xs @ ys) s = rbind (absorb_all iter xs s) (absorb_all iter ys)"
proof (induction xs arbitrary: s)
  case (Cons x xs)
  then show ?case by (cases "absorb iter x s") simp_all
qed simp

lemma map_filter_append: "List.map_filter f (xs @ ys) = List.map_filter f xs @ List.map_filter f ys"
  by (simp add: List.map_filter_def)

lemma absorb_batches_all:
  assumes "concat (map (\<lambda>(a, b). [a..<b]) ranges) = [k..<length files]" "\<forall>(a, b)\<in>set ranges. a < b"
    and "length sizes = length files" "k \<le> length files"
  shows "absorb_batches iter one files sizes ranges s =
    absorb_all iter (List.map_filter one (drop k (zip files sizes))) s"
  using assms(1,2,4)
proof (induction ranges arbitrary: k s)
  case Nil
  have "[k..<length files] = []" using Nil(1) by simp
  then have "length files \<le> k" using Nil(3) by auto
  then show ?case using assms(3) by (simp add: List.map_filter_def)
next
  case (Cons r ranges)
  obtain a b where r: "r = (a, b)" by (cases r)
  have ab: "a < b" using Cons.prems(2) by (simp add: r)
  have cat: "[a..<b] @ concat (map (\<lambda>(a, b). [a..<b]) ranges) = [k..<length files]" using Cons.prems(1) by (simp add: r)
  have k: "k < length files" using cat ab by (cases "k < length files") auto
  have "hd ([a..<b] @ concat (map (\<lambda>(a, b). [a..<b]) ranges)) = a" using ab by (simp add: upt_conv_Cons)
  then have ka: "k = a" using cat k by (simp add: upt_conv_Cons)
  have lenle: "length [a..<b] \<le> length [k..<length files]" unfolding cat [symmetric] by simp
  then have b: "b \<le> length files" using ab ka by simp
  have "[k..<length files] = [a..<b] @ [b..<length files]" using b ab ka upt_add_eq_append [of a b "length files - b"] by simp
  then have rest: "concat (map (\<lambda>(a, b). [a..<b]) ranges) = [b..<length files]" using cat by simp
  have zip: "zip (take (b - a) (drop a files)) (take (b - a) (drop a sizes)) = take (b - a) (drop a (zip files sizes))"
    by (simp add: drop_zip take_zip)
  have split: "drop k (zip files sizes) = take (b - a) (drop a (zip files sizes)) @ drop b (zip files sizes)"
    using ka ab by (metis append_take_drop_id drop_drop le_add_diff_inverse2 less_imp_le)
  have "absorb_batches iter one files sizes ranges s' =
      absorb_all iter (List.map_filter one (drop b (zip files sizes))) s'" for s'
    using Cons.IH [OF rest _ b] Cons.prems(2) by simp
  then have later: "absorb_batches iter one files sizes ranges = absorb_all iter (List.map_filter one (drop b (zip files sizes)))"
    by (rule ext)
  show ?case
    unfolding split map_filter_append absorb_all_append r by (simp add: Let_def zip later)
qed

text \<open>The text files among the entries, with the table of each.\<close>

definition text_files :: "('f + extracted_file) list \<Rightarrow> (path \<times> mask_map) list" where
  "text_files = List.map_filter (\<lambda>entry. case entry of
     Inr x \<Rightarrow> map_option (Pair (ef_path x)) (ef_trigrams x) | Inl _ \<Rightarrow> None)"

fun number_from :: "(u32 set \<Rightarrow> u32 list) \<Rightarrow> nat \<Rightarrow> (path \<times> mask_map) list \<Rightarrow> pushes" where
  "number_from iter n [] = []"
| "number_from iter n ((p, m) # xs) = (of_nat n, per_trigram iter m) # number_from iter (n + 1) xs"

lemma text_files_simps [simp]:
  "text_files [] = []"
  "text_files (Inl f # es) = text_files es"
  "text_files (Inr x # es) = (case ef_trigrams x of Some m \<Rightarrow> [(ef_path x, m)] | None \<Rightarrow> []) @ text_files es"
  by (simp_all add: text_files_def List.map_filter_def split: option.split)

lemma sorter_holds_file:
  assumes "sorter_holds s ps"
  shows "sorter_holds (push_file fid l s) (ps @ pushed [(fid, l)])"
proof -
  have "sorter_holds (fold sorter_push qs s) (ps @ qs)" for qs
  proof (induction qs rule: rev_induct)
    case (snoc q qs)
    from sorter_holds_push [OF this, of q] show ?case by simp
  qed (simp add: assms)
  then show ?thesis by (simp only: push_file_pushed)
qed

lemma absorb_all_result:
  assumes "sorter_holds (fd_sorter s) ps" "length (fd_ids s) + length (text_files es) \<le> 2 ^ 32"
  shows "\<exists>s'. absorb_all iter es s = Inr s' \<and>
    map snd (fd_ids s') = map snd (fd_ids s) @ map fst (text_files es) \<and>
    sorter_holds (fd_sorter s') (ps @ pushed (number_from iter (length (fd_ids s)) (text_files es))) \<and>
    fd_unreadable s' = fd_unreadable s @ List.map_filter (\<lambda>e. case e of Inl f \<Rightarrow> Some f | Inr _ \<Rightarrow> None) es"
  using assms
proof (induction es arbitrary: s ps)
  case Nil
  then show ?case by (simp add: pushed_def List.map_filter_def)
next
  case (Cons e es)
  show ?case
  proof (cases e)
    case (Inl f)
    let ?s = "s\<lparr>fd_unreadable := fd_unreadable s @ [f]\<rparr>"
    have "sorter_holds (fd_sorter ?s) ps" "length (fd_ids ?s) + length (text_files es) \<le> 2 ^ 32" using Cons.prems Inl by simp_all
    from Cons.IH [OF this] show ?thesis by (simp add: Inl absorb_def List.map_filter_def)
  next
    case (Inr x)
    define v where "v = (case ef_version x of
        Some v \<Rightarrow> s\<lparr>fd_versions := Mapping.update (ef_path x) v (fd_versions s)\<rparr> | None \<Rightarrow> s)"
    have vs: "fd_sorter v = fd_sorter s" "fd_ids v = fd_ids s" "fd_unreadable v = fd_unreadable s"
      by (simp_all add: v_def split: option.split)
    show ?thesis
    proof (cases "ef_trigrams x")
      case None
      have "sorter_holds (fd_sorter v) ps" "length (fd_ids v) + length (text_files es) \<le> 2 ^ 32"
        using Cons.prems by (simp_all add: vs Inr None)
      moreover have "absorb iter e s = Inr v" by (simp add: absorb_def Inr None v_def Let_def)
      ultimately show ?thesis using Cons.IH [of v ps] by (simp add: Inr None vs List.map_filter_def)
    next
      case (Some m)
      let ?fid = "of_nat (length (fd_ids s)) :: u32"
      define c where "c = (case ef_content_id x of
          Some c \<Rightarrow> v\<lparr>fd_content_ids := Mapping.update (ef_path x) c (fd_content_ids v)\<rparr> | None \<Rightarrow> v)"
      have cs: "fd_sorter c = fd_sorter s" "fd_ids c = fd_ids s" "fd_unreadable c = fd_unreadable s"
        by (simp_all add: c_def vs split: option.split)
      let ?s = "c\<lparr>fd_ids := fd_ids c @ [(?fid, ef_path x)], fd_sorter := push_file ?fid (per_trigram iter m) (fd_sorter c)\<rparr>"
      have "length (fd_ids s) < 2 ^ 32" using Cons.prems(2) by (simp add: Inr Some)
      then have step: "absorb iter e s = Inr ?s"
        by (cases "ef_version x"; cases "ef_content_id x")
          (simp_all add: absorb_def Inr Some v_def c_def Let_def not_le)
      have "sorter_holds (fd_sorter ?s) (ps @ pushed [(?fid, per_trigram iter m)])"
        using sorter_holds_file [OF Cons.prems(1)] by (simp add: cs)
      moreover have "length (fd_ids ?s) + length (text_files es) \<le> 2 ^ 32" using Cons.prems(2) by (simp add: cs Inr Some)
      ultimately obtain s' where s': "absorb_all iter es ?s = Inr s'"
        "map snd (fd_ids s') = map snd (fd_ids ?s) @ map fst (text_files es)"
        "sorter_holds (fd_sorter s') ((ps @ pushed [(?fid, per_trigram iter m)]) @ pushed (number_from iter (length (fd_ids ?s)) (text_files es)))"
        "fd_unreadable s' = fd_unreadable ?s @ List.map_filter (\<lambda>e. case e of Inl f \<Rightarrow> Some f | Inr _ \<Rightarrow> None) es"
        using Cons.IH by blast
      have "pushed (number_from iter (length (fd_ids s)) (text_files (e # es))) =
          pushed [(?fid, per_trigram iter m)] @ pushed (number_from iter (length (fd_ids ?s)) (text_files es))"
        by (simp add: Inr Some cs pushed_def)
      then show ?thesis using s' step by (simp add: cs Inr Some List.map_filter_def)
    qed
  qed
qed

section \<open>The entries of the text files\<close>

fun file_entries :: "u32 \<Rightarrow> nat \<Rightarrow> (path \<times> mask_map) list \<Rightarrow> posting_entry list" where
  "file_entries t n [] = []"
| "file_entries t n ((p, m) # xs) =
     (case Mapping.lookup m t of
        Some v \<Rightarrow> [\<lparr>loc_mask = loc_mask v, next_mask = next_mask v, file_id = of_nat n\<rparr>]
      | None \<Rightarrow> []) @ file_entries t (n + 1) xs"

lemma entries_of_file:
  assumes "iteration iter"
  shows "entries_of t (pushed [(fid, per_trigram iter m)]) =
    (case Mapping.lookup m t of
       Some v \<Rightarrow> [\<lparr>loc_mask = loc_mask v, next_mask = next_mask v, file_id = fid\<rparr>] | None \<Rightarrow> [])"
proof -
  have i: "set (iter (Mapping.keys m)) = Mapping.keys m" "distinct (iter (Mapping.keys m))"
    using assms by (simp_all add: iteration_def)
  have mem: "t \<in> Mapping.keys m \<longleftrightarrow> Mapping.lookup m t \<noteq> None" by (auto simp: keys_dom_lookup)
  have "entries_of t (pushed [(fid, per_trigram iter m)]) =
      map (\<lambda>t. \<lparr>loc_mask = loc_mask (the (Mapping.lookup m t)), next_mask = next_mask (the (Mapping.lookup m t)), file_id = fid\<rparr>)
        (filter (\<lambda>x. x = t) (iter (Mapping.keys m)))"
    by (simp add: entries_of_def pushed_def per_trigram_def filter_map comp_def)
  also have "\<dots> = (case Mapping.lookup m t of
       Some v \<Rightarrow> [\<lparr>loc_mask = loc_mask v, next_mask = next_mask v, file_id = fid\<rparr>] | None \<Rightarrow> [])"
    by (simp add: filter_eq_distinct [OF i(2)] i(1) mem split: option.split)
  finally show ?thesis .
qed

lemma entries_of_append: "entries_of t (ps @ qs) = entries_of t ps @ entries_of t qs"
  by (simp add: entries_of_def)

lemma entries_of_numbered:
  assumes "iteration iter"
  shows "entries_of t (pushed (number_from iter n xs)) = file_entries t n xs"
proof (induction xs arbitrary: n)
  case Nil
  show ?case by (simp add: pushed_def entries_of_def)
next
  case (Cons x xs)
  obtain p m where x: "x = (p, m)" by (cases x)
  have "pushed (number_from iter n (x # xs)) = pushed [(of_nat n, per_trigram iter m)] @ pushed (number_from iter (n + 1) xs)"
    by (simp add: x pushed_def)
  then show ?case by (simp only: x entries_of_append entries_of_file [OF assms] Cons.IH file_entries.simps)
qed

lemma file_entries_ids:
  "e \<in> set (file_entries t n xs) \<Longrightarrow> \<exists>i. n \<le> i \<and> i < n + length xs \<and> file_id e = of_nat i"
proof (induction xs arbitrary: n)
  case (Cons x xs)
  obtain p m where x: "x = (p, m)" by (cases x)
  from Cons.prems consider "file_id e = of_nat n" | "e \<in> set (file_entries t (n + 1) xs)"
    by (auto simp: x split: option.splits)
  then show ?case
  proof cases
    case 2
    from Cons.IH [OF this] obtain i where "n + 1 \<le> i" "i < n + 1 + length xs" "file_id e = of_nat i" by blast
    then show ?thesis by (intro exI [of _ i]) simp
  qed auto
qed simp

lemma file_entries_sorted:
  "n + length xs \<le> 2 ^ 32 \<Longrightarrow> sorted (map file_id (file_entries t n xs))"
proof (induction xs arbitrary: n)
  case (Cons x xs)
  obtain p m where x: "x = (p, m)" by (cases x)
  have "of_nat n \<le> file_id e" if e: "e \<in> set (file_entries t (n + 1) xs)" for e
  proof -
    from file_entries_ids [OF e] obtain i where i: "n + 1 \<le> i" "i < n + 1 + length xs" "file_id e = of_nat i" by blast
    have "unat (of_nat n :: u32) = n" "unat (of_nat i :: u32) = i" using i Cons.prems by (simp_all add: unat_of_nat)
    then show ?thesis using i by (simp add: word_le_nat_alt)
  qed
  then show ?case using Cons.IH [of "n + 1"] Cons.prems by (auto simp: x split: option.split)
qed simp

lemma name_file_entries:
  assumes "length pre + length xs \<le> 2 ^ 32"
  shows "name_entries (pre @ map fst xs) (file_entries t (length pre) xs) =
    concat (map (\<lambda>(p, m). case Mapping.lookup m t of Some v \<Rightarrow> [(p, loc_mask v, next_mask v)] | None \<Rightarrow> []) xs)"
  using assms
proof (induction xs arbitrary: pre)
  case (Cons x xs)
  obtain p m where x: "x = (p, m)" by (cases x)
  have "unat (of_nat (length pre) :: u32) = length pre" using Cons.prems by (simp add: unat_of_nat)
  moreover have "name_entries ((pre @ [p]) @ map fst xs) (file_entries t (length (pre @ [p])) xs) =
      concat (map (\<lambda>(p, m). case Mapping.lookup m t of Some v \<Rightarrow> [(p, loc_mask v, next_mask v)] | None \<Rightarrow> []) xs)"
    by (rule Cons.IH) (use Cons.prems in simp)
  ultimately show ?case by (simp add: x name_entries_def nth_append split: option.split)
qed (simp add: name_entries_def)

lemma pushed_member:
  assumes "iteration iter" "q \<in> set (pushed (number_from iter n xs))"
  shows "\<exists>i v. i < length xs \<and> Mapping.lookup (snd (xs ! i)) (tp_trigram q) = Some v \<and>
    tp_entry q = \<lparr>loc_mask = loc_mask v, next_mask = next_mask v, file_id = of_nat (n + i)\<rparr>"
  using assms(2)
proof (induction xs arbitrary: n)
  case Nil
  then show ?case by (simp add: pushed_def)
next
  case (Cons x xs)
  obtain p m where x: "x = (p, m)" by (cases x)
  have "pushed (number_from iter n (x # xs)) = pushed [(of_nat n, per_trigram iter m)] @ pushed (number_from iter (n + 1) xs)"
    by (simp add: x pushed_def)
  then consider "q \<in> set (pushed [(of_nat n, per_trigram iter m)])" | "q \<in> set (pushed (number_from iter (n + 1) xs))"
    using Cons.prems by (metis Un_iff set_append)
  then show ?case
  proof cases
    case 1
    have "set (iter (Mapping.keys m)) = Mapping.keys m" using assms(1) by (simp add: iteration_def)
    with 1 show ?thesis
      by (intro exI [of _ 0]) (auto simp: x pushed_def per_trigram_def keys_dom_lookup)
  next
    case 2
    from Cons.IH [OF this] obtain i v where "i < length xs" "Mapping.lookup (snd (xs ! i)) (tp_trigram q) = Some v"
      "tp_entry q = \<lparr>loc_mask = loc_mask v, next_mask = next_mask v, file_id = of_nat (n + 1 + i)\<rparr>" by blast
    then show ?thesis by (intro exI [of _ "Suc i"] exI [of _ v]) (simp add: x add_ac)
  qed
qed

lemma pushed_keys_distinct:
  assumes "iteration iter" "n + length xs \<le> 2 ^ 32"
  shows "inj_on posting_key (set (pushed (number_from iter n xs)))"
proof (rule inj_onI)
  fix q r
  assume q: "q \<in> set (pushed (number_from iter n xs))" and r: "r \<in> set (pushed (number_from iter n xs))"
    and k: "posting_key q = posting_key r"
  obtain i v where i: "i < length xs" "Mapping.lookup (snd (xs ! i)) (tp_trigram q) = Some v"
    "tp_entry q = \<lparr>loc_mask = loc_mask v, next_mask = next_mask v, file_id = of_nat (n + i)\<rparr>"
    using pushed_member [OF assms(1) q] by blast
  obtain j w where j: "j < length xs" "Mapping.lookup (snd (xs ! j)) (tp_trigram r) = Some w"
    "tp_entry r = \<lparr>loc_mask = loc_mask w, next_mask = next_mask w, file_id = of_nat (n + j)\<rparr>"
    using pushed_member [OF assms(1) r] by blast
  have t: "tp_trigram q = tp_trigram r" and f: "(of_nat (n + i) :: u32) = of_nat (n + j)"
    using k i(3) j(3) by (simp_all add: posting_key_def)
  have un: "unat (of_nat k :: u32) = k" if "k < 2 ^ 32" for k using that by (simp add: unat_of_nat)
  have "unat (of_nat (n + i) :: u32) = n + i" "unat (of_nat (n + j) :: u32) = n + j"
    using assms(2) i(1) j(1) by (auto intro!: un simp del: of_nat_add)
  then have "i = j" using f by (metis add_left_cancel)
  then show "q = r" using t i j by simp
qed

lemma length_pushed_numbered:
  assumes "iteration iter"
  shows "length (pushed (number_from iter n xs)) = sum_list (map (\<lambda>(p, m). card (Mapping.keys m)) xs)"
proof (induction xs arbitrary: n)
  case (Cons x xs)
  obtain p m where x: "x = (p, m)" by (cases x)
  have "length (iter (Mapping.keys m)) = card (Mapping.keys m)"
    using assms distinct_card [of "iter (Mapping.keys m)"] by (simp add: iteration_def)
  then show ?case using Cons.IH [of "n + 1"] by (simp add: x pushed_def per_trigram_def)
qed (simp add: pushed_def)

section \<open>The index of a list of files\<close>

text \<open>What the closure makes of the files, in their order.\<close>

definition files_read :: "'e encodings \<Rightarrow> (byte list \<Rightarrow> byte list) \<Rightarrow> 'f file_system \<Rightarrow> 'f list \<Rightarrow> ('f + extracted_file) list" where
  "files_read E digest FS files = List.map_filter (index_one E digest FS)
     (zip files (fst (batch_sizes_and_charges (map (file_len FS) files))))"

lemma absorb_all_batches:
  assumes "batch_sizes_and_charges (map (file_len FS) files) = (sizes, charges)"
  shows "absorb_batches iter (index_one E digest FS) files sizes (batch_ranges charges INDEX_BUILD_BATCH_BYTES) s =
    absorb_all iter (files_read E digest FS files) s"
proof -
  have len: "length charges = length files" "length sizes = length files"
    using assms by (auto simp: batch_sizes_and_charges_def)
  have "INDEX_BUILD_BATCH_BYTES < 2 ^ 64 - 1" by (simp add: INDEX_BUILD_BATCH_BYTES_def)
  from batch_ranges_divide [OF this, of charges]
  have "concat (map (\<lambda>(a, b). [a..<b]) (batch_ranges charges INDEX_BUILD_BATCH_BYTES)) = [0..<length files]"
    "\<forall>(a, b)\<in>set (batch_ranges charges INDEX_BUILD_BATCH_BYTES). a < b"
    by (auto simp: covers_def batch_ok_def len)
  from absorb_batches_all [OF this len(2), of iter "index_one E digest FS" s] show ?thesis
    by (simp add: files_read_def assms)
qed

lemma index_of_texts:
  assumes "iteration iter" "sorter_holds sorter (pushed (number_from iter 0 texts))"
    and "length texts \<le> 2 ^ 32" "sum_list (map (\<lambda>(p, m). card (Mapping.keys m)) texts) < 2 ^ 32"
    and "map snd ids = map fst texts" "\<forall>p\<in>set (map fst texts). stored_path p"
  shows "\<exists>out R. write_sorted_index env root ids completed amount sorter = Inr out \<and>
    open_impl (index_dir out) require Legacy guarded = Inr R \<and> validate_lookup R = Inr () \<and>
    reader_paths R = map fst texts \<and>
    (\<forall>t. reader_lookup_trigram_with_masks R t = file_entries t 0 texts) \<and>
    (\<forall>t. named R t = concat (map (\<lambda>(p, m). case Mapping.lookup m t of
       Some v \<Rightarrow> [(p, loc_mask v, next_mask v)] | None \<Rightarrow> []) texts))"
proof -
  let ?ps = "pushed (number_from iter 0 texts)"
  have short: "length ?ps < 2 ^ 32" using assms(4) by (simp only: length_pushed_numbered [OF assms(1)])
  have inj: "inj_on posting_key (set ?ps)" using pushed_keys_distinct [OF assms(1), of 0] assms(3) by simp
  have stored: "\<forall>p\<in>set (map snd ids). stored_path p" using assms(5,6) by simp
  obtain out where out: "write_sorted_index env root ids completed amount sorter = Inr out"
    "is_index out (index_groups ?ps) (map snd ids)"
    using sorted_index_written [OF assms(2) inj short stored] by blast
  have len: "length (map snd ids) \<le> 2 ^ 32" using assms(3,5) by simp
  obtain R where R: "open_impl (index_dir out) require Legacy guarded = Inr R" "reader_paths R = map snd ids"
    "validate_lookup R = Inr ()"
    "\<forall>t. reader_lookup_trigram_with_masks R t = (case map_of (index_groups ?ps) t of Some l \<Rightarrow> l | None \<Rightarrow> [])"
    using opened_index [OF out(2) index_groups_ok [OF short] stored len, of require guarded] by blast
  have sorted: "sorted (map file_id (file_entries t 0 texts))" for t using file_entries_sorted [of 0 texts t] assms(3) by simp
  have look: "reader_lookup_trigram_with_masks R t = file_entries t 0 texts" for t
    using spec [OF R(4), of t]
    by (simp add: index_groups_lookup entries_of_numbered [OF assms(1)] sort_key_id_if_sorted [OF sorted])
  have "named R t = concat (map (\<lambda>(p, m). case Mapping.lookup m t of
       Some v \<Rightarrow> [(p, loc_mask v, next_mask v)] | None \<Rightarrow> []) texts)" for t
    using name_file_entries [of "[]" texts t] assms(3) by (simp add: named_def look R(2) assms(5))
  with out(1) R look show ?thesis by (auto simp: assms(5))
qed

lemma built_for_files:
  assumes iter: "iteration iter"
    and texts: "texts = text_files (files_read E (blake3 env) FS files)"
    and bounds: "length texts \<le> 2 ^ 32" "sum_list (map (\<lambda>(p, m). card (Mapping.keys m)) texts) < 2 ^ 32"
    and stored: "\<forall>p\<in>set (map fst texts). stored_path p"
    and disk: "check_build_disk_space_for_sizes (free_space env)
      (fst (batch_sizes_and_charges (map (file_len FS) files))) (length files) External = Inr ()"
  shows "\<exists>out R outcome. build_index_for_files env E iter amount FS root files buffer_bytes = Inr (out, outcome) \<and>
    fo_indexed outcome = length texts \<and>
    fo_unreadable outcome = List.map_filter (\<lambda>e. case e of Inl f \<Rightarrow> Some f | Inr _ \<Rightarrow> None) (files_read E (blake3 env) FS files) \<and>
    open_impl (index_dir out) require Legacy guarded = Inr R \<and> validate_lookup R = Inr () \<and>
    reader_paths R = map fst texts \<and>
    (\<forall>t. reader_lookup_trigram_with_masks R t = file_entries t 0 texts) \<and>
    (\<forall>t. named R t = concat (map (\<lambda>(p, m). case Mapping.lookup m t of
       Some v \<Rightarrow> [(p, loc_mask v, next_mask v)] | None \<Rightarrow> []) texts))"
proof -
  obtain sizes charges where sc: "batch_sizes_and_charges (map (file_len FS) files) = (sizes, charges)" by force
  let ?es = "files_read E (blake3 env) FS files" and ?s = "file_delta_new buffer_bytes :: 'a file_delta"
  have "sorter_holds (fd_sorter ?s) []"
    using sorter_holds_pushes [of "[]" buffer_bytes False] by (simp add: file_delta_new_def)
  moreover have "length (fd_ids ?s) + length (text_files ?es) \<le> 2 ^ 32"
    using bounds(1) by (simp add: texts file_delta_new_def)
  ultimately obtain s where s: "absorb_all iter ?es ?s = Inr s"
    "map snd (fd_ids s) = map snd (fd_ids ?s) @ map fst (text_files ?es)"
    "sorter_holds (fd_sorter s) ([] @ pushed (number_from iter (length (fd_ids ?s)) (text_files ?es)))"
    "fd_unreadable s = fd_unreadable ?s @ List.map_filter (\<lambda>e. case e of Inl f \<Rightarrow> Some f | Inr _ \<Rightarrow> None) ?es"
    using absorb_all_result [of ?s "[]" ?es iter] by blast
  have ids: "map snd (fd_ids s) = map fst texts" using s(2) by (simp add: file_delta_new_def texts)
  have holds: "sorter_holds (fd_sorter s) (pushed (number_from iter 0 texts))" using s(3) by (simp add: file_delta_new_def texts)
  obtain out R where out: "write_sorted_index env root (fd_ids s) (Some True) amount (fd_sorter s) = Inr out"
    "open_impl (index_dir out) require Legacy guarded = Inr R" "validate_lookup R = Inr ()" "reader_paths R = map fst texts"
    "\<forall>t. reader_lookup_trigram_with_masks R t = file_entries t 0 texts"
    "\<forall>t. named R t = concat (map (\<lambda>(p, m). case Mapping.lookup m t of
       Some v \<Rightarrow> [(p, loc_mask v, next_mask v)] | None \<Rightarrow> []) texts)"
    using index_of_texts [OF iter holds bounds ids stored, of env root "Some True" amount require guarded] by blast
  have n: "length (fd_ids s) = length texts" using arg_cong [OF ids, of length] by simp
  have "build_index_for_files env E iter amount FS root files buffer_bytes =
      Inr (out, \<lparr>fo_indexed = length (fd_ids s), fo_unreadable = fd_unreadable s,
        fo_content_ids = fd_content_ids s, fo_versions = fd_versions s\<rparr>)"
    using disk by (simp add: build_index_for_files_def sc absorb_all_batches [OF sc] s(1) out(1))
  with out(2-) n s(4) show ?thesis by (auto simp: file_delta_new_def)
qed

text \<open>C3. Building a delta for a list of files, in batches and through the external sorter, writes an index that
  opens, passes the lookup check, lists the files that were read as text in their order, and names
  for every trigram exactly those whose table has it, with their masks; the files that could not be
  read at a verified version are reported.\<close>

theorem build_index_for_files_indexes:
  assumes iter: "iteration iter"
    and texts: "texts = text_files (files_read E (blake3 env) FS files)"
    and bounds: "length texts \<le> 2 ^ 32" "sum_list (map (\<lambda>(p, m). card (Mapping.keys m)) texts) < 2 ^ 32"
    and stored: "\<forall>p\<in>set (map fst texts). stored_path p"
    and disk: "check_build_disk_space_for_sizes (free_space env)
      (fst (batch_sizes_and_charges (map (file_len FS) files))) (length files) External = Inr ()"
  shows "\<exists>out R outcome. build_index_for_files env E iter amount FS root files buffer_bytes = Inr (out, outcome) \<and>
    fo_indexed outcome = length texts \<and>
    fo_unreadable outcome = List.map_filter (\<lambda>e. case e of Inl f \<Rightarrow> Some f | Inr _ \<Rightarrow> None) (files_read E (blake3 env) FS files) \<and>
    open_impl (index_dir out) require Legacy guarded = Inr R \<and> validate_lookup R = Inr () \<and>
    reader_paths R = map fst texts \<and>
    (\<forall>t. named R t = concat (map (\<lambda>(p, m). case Mapping.lookup m t of
       Some v \<Rightarrow> [(p, loc_mask v, next_mask v)] | None \<Rightarrow> []) texts))"
  using built_for_files [OF assms, of amount root buffer_bytes require guarded] by blast

text \<open>A file of three bytes.\<close>

definition three_bytes :: "byte list" where
  "three_bytes = [0x61, 0x62, 0x63]"

definition three_version :: file_version where
  "three_version = file_version_of \<lparr>md_modified = Some 5, md_created = None, md_len = 3, md_device = 0, md_inode = 0,
     md_change_seconds = 0, md_change_nanos = 0\<rparr>"

definition demo_files :: "nat file_system" where
  "demo_files = \<lparr>file_len = \<lambda>_. Some 3,
     file_opens = \<lambda>_ _. Inr \<lparr>fh_version = Some three_version, fh_map = Inr three_bytes, fh_bytes = Inr three_bytes,
       fh_after = Some three_version\<rparr>,
     below_root = \<lambda>_. Some [0x61]\<rparr>"

lemma demo_text:
  "cow_bytes (decode_for_index demo_encodings three_bytes) = three_bytes" "\<not> is_binary three_bytes"
  "index_key [0x61] = Some [0x61]" "below_root demo_files 0 = Some [0x61]"
  "fst (batch_sizes_and_charges (map (file_len demo_files) [0])) = [3]"
  "fst (read_for_index (file_opens demo_files 0) 3 None) =
     Inr \<lparr>ir_bytes = Read three_bytes, ir_version = Some three_version, ir_after = Some three_version\<rparr>"
  "verified_version \<lparr>ir_bytes = Read three_bytes, ir_version = Some three_version, ir_after = Some three_version\<rparr> = Some three_version"
proof -
  have "decode_bytes demo_encodings three_bytes Auto = Borrowed three_bytes"
    by (simp add: decode_bytes_def decode_body_def demo_encodings_def three_bytes_def)
  moreover have "valid_utf8 three_bytes" unfolding three_bytes_def by (rule ascii_valid) simp
  ultimately show "cow_bytes (decode_for_index demo_encodings three_bytes) = three_bytes" by (simp add: decode_for_index_def)
  show "\<not> is_binary three_bytes" by (simp add: is_binary_def three_bytes_def)
  show "index_key [0x61] = Some [0x61]" by (simp add: index_key_def ascii_valid)
  show "below_root demo_files 0 = Some [0x61]" by (simp add: demo_files_def)
  show "fst (batch_sizes_and_charges (map (file_len demo_files) [0])) = [3]"
    by (simp add: batch_sizes_and_charges_def demo_files_def)
  show "fst (read_for_index (file_opens demo_files 0) 3 None) =
      Inr \<lparr>ir_bytes = Read three_bytes, ir_version = Some three_version, ir_after = Some three_version\<rparr>"
    by (simp add: read_for_index_def read_owned_def open_read_def read_owned_for_index_def demo_files_def three_bytes_def
        U64_MAX_def MMAP_MIN_BYTES_def)
  show "verified_version \<lparr>ir_bytes = Read three_bytes, ir_version = Some three_version, ir_after = Some three_version\<rparr> = Some three_version"
    by (simp add: verified_version_def three_bytes_def is_trusted_def three_version_def file_version_of_def file_stamp_of_def)
qed

lemma demo_files_read:
  "text_files (files_read demo_encodings digest demo_files [0]) = [([0x61], extract_merged_masks three_bytes)]"
proof -
  have "extract_indexed_file demo_encodings digest [0x61]
        \<lparr>ir_bytes = Read three_bytes, ir_version = Some three_version, ir_after = Some three_version\<rparr> =
      \<lparr>ef_path = [0x61], ef_trigrams = Some (extract_merged_masks three_bytes),
        ef_content_id = Some (content_id_of digest three_bytes), ef_version = Some three_version\<rparr>"
    using demo_text by (simp add: extract_indexed_file_def is_mapped_def Let_def)
  then have "index_one demo_encodings digest demo_files (0, 3) =
      Some (Inr \<lparr>ef_path = [0x61], ef_trigrams = Some (extract_merged_masks three_bytes),
        ef_content_id = Some (content_id_of digest three_bytes), ef_version = Some three_version\<rparr>)"
    using demo_text by (simp add: index_one_def)
  moreover have "files_read demo_encodings digest demo_files [0] = List.map_filter (index_one demo_encodings digest demo_files) [(0, 3)]"
    using demo_text(5) by (simp add: files_read_def)
  ultimately show ?thesis by (simp add: List.map_filter_def)
qed

lemma three_bytes_keys: "card (Mapping.keys (extract_merged_masks three_bytes)) = 1"
proof -
  have lower: "map to_ascii_lowercase three_bytes = three_bytes" by (simp add: three_bytes_def to_ascii_lowercase_def is_ascii_uppercase_def)
  have "Mapping.keys (extract_merged_masks three_bytes) = {trigram_at three_bytes 0}"
    unfolding keys_extract_merged_masks covered_text_def lower by (auto simp: occurs_def three_bytes_def)
  then show ?thesis by simp
qed

lemma demo_files_space:
  "check_build_disk_space_for_sizes (free_space demo_env)
     (fst (batch_sizes_and_charges (map (file_len demo_files) [0]))) (length [0 :: nat]) External = Inr ()"
proof -
  have "check_disk_space (free_space demo_env) (3 * strategy_copies External) 1 = Inr ()"
    by (rule demo_space) (simp_all add: strategy_copies_def)
  then show ?thesis
    by (simp add: check_build_disk_space_for_sizes_def batch_sizes_and_charges_def demo_files_def sum_sizes_eq
        checked_disk_bytes_def u64_checked_def strategy_copies_def)
qed

theorem build_index_for_files_indexes_witness:
  "\<exists>out R outcome. build_index_for_files demo_env demo_encodings sorted_list_of_set (\<lambda>_ _ _. 1) demo_files [] [0] 0 = Inr (out, outcome) \<and>
     fo_indexed outcome = 1 \<and> open_impl (index_dir out) False Legacy False = Inr R \<and> reader_paths R = [[0x61]]"
proof -
  have iter: "iteration (sorted_list_of_set :: u32 set \<Rightarrow> u32 list)" by (simp add: iteration_def)
  let ?texts = "[([0x61], extract_merged_masks three_bytes)]"
  have stored: "\<forall>p\<in>set (map fst ?texts). stored_path p"
    by (simp add: stored_path_def MAX_PATH_LEN_def validate_index_path_iff ascii_valid)
  have bounds: "length ?texts \<le> 2 ^ 32" "sum_list (map (\<lambda>(p, m). card (Mapping.keys m)) ?texts) < 2 ^ 32"
    by (simp_all add: three_bytes_keys)
  show ?thesis
    using build_index_for_files_indexes [OF iter demo_files_read [symmetric] bounds stored demo_files_space,
        of "\<lambda>_ _ _. 1" "[]" 0 False False]
    by auto
qed

end
