(* ===== verification/Local_Search.thy ===== *)
theory Local_Search
  imports Search_File Relax Hybrid Path_Index Build "HOL-Library.Option_ord" "HOL-Library.Product_Lexorder"
begin

text \<open>
  Searching a directory (\<^verbatim>\<open>tgrep-cli/src/search.rs\<close>): with the index on disk, and without it by
  a walk.  What the two observe of the environment is a record: the files of the index, its metadata and
  sidecar, the walk, and what opening each file answers.  Warnings and statistics go to standard error,
  which is left out; the flag of failed reads is part of the state.
\<close>

section \<open>What the environment answers\<close>

text \<open>The kinds of error the search tells apart, and the number of the system's error.\<close>

datatype error_kind = NotFound | InvalidInput | NotADirectory | Unsupported | OtherError

record io_error =
  io_kind :: error_kind
  raw_os_error :: "int option"

definition ELOOP :: int where "ELOOP = 40"
definition EMLINK :: int where "EMLINK = 31"

datatype glob_decision = GlobInclude | GlobExclude | GlobUnmatched

record 'e search_tree =
  t_root :: path
  t_is_file :: bool
  t_display :: path
  t_open :: "path \<Rightarrow> io_error + io_error open_file"
  t_rooted :: "string + (path \<Rightarrow> io_error + io_error open_file)"
  t_walk :: "string + path list"
  t_times :: "sort_key \<Rightarrow> path \<Rightarrow> nat option"
  t_rooted_times :: "string + (sort_key \<Rightarrow> path \<Rightarrow> nat option)"
  t_meta :: "string + index_meta"
  t_index :: "string \<Rightarrow> byte list option"
  t_table_digest :: "byte list \<Rightarrow> file_table_id"
  t_sidecar :: "byte list option"
  t_from_json :: "byte list \<Rightarrow> filename_visibility option"
  t_canonicalize :: "path \<Rightarrow> path option"
  t_globs :: "string + (path \<Rightarrow> glob_decision)"
  t_types :: "string + (path \<Rightarrow> bool)"
  t_matcher :: "string + search_matcher"
  t_read_lines :: "path \<Rightarrow> string + byte list list"
  t_parse :: "byte list \<Rightarrow> bool \<Rightarrow> string + hir"
  t_parse_chars :: "rchar list \<Rightarrow> bool \<Rightarrow> string + hir"
  t_escape :: "byte list \<Rightarrow> byte list"
  t_encodings :: "'e encodings"

section \<open>Scopes and paths\<close>

text \<open>\<^verbatim>\<open>Path::strip_prefix\<close> on paths in canonical form.\<close>

definition path_below :: "path \<Rightarrow> path \<Rightarrow> path option" where
  "path_below base p = (if p = base then Some [] else strip_prefix (if base = [0x2F] then base else base @ [0x2F]) p)"

datatype index_scope = ScopeWhole | ScopeSubtree path | ScopeFile path

fun scope_prefix :: "index_scope \<Rightarrow> path" where
  "scope_prefix (ScopeSubtree pre) = pre"
| "scope_prefix ScopeWhole = []"
| "scope_prefix (ScopeFile f) = []"

definition scope_resolve :: "bool \<Rightarrow> path \<Rightarrow> path \<Rightarrow> index_scope option" where
  "scope_resolve is_file index_root search_root =
     Option.bind (Option.bind (path_below index_root search_root) index_key) (\<lambda>rel.
       Some (if rel = [] then ScopeWhole else if is_file then ScopeFile rel else ScopeSubtree (rel @ [0x2F])))"

fun relativize :: "index_scope \<Rightarrow> path \<Rightarrow> path \<Rightarrow> path option" where
  "relativize ScopeWhole indexed display = Some indexed"
| "relativize (ScopeSubtree pre) indexed display = strip_prefix pre indexed"
| "relativize (ScopeFile f) indexed display = (if f = indexed then Some display else None)"

fun indexed_path :: "index_scope \<Rightarrow> path \<Rightarrow> path" where
  "indexed_path ScopeWhole rel = rel"
| "indexed_path (ScopeSubtree pre) rel = pre @ rel"
| "indexed_path (ScopeFile f) rel = f"

definition resolve_scope :: "'e search_tree \<Rightarrow> (path \<times> index_scope) option" where
  "resolve_scope T =
     (case t_meta T of
        Inl e \<Rightarrow> None
      | Inr meta \<Rightarrow>
          if take 1 (root_path meta) \<noteq> [0x2F] then None
          else Option.bind (t_canonicalize T (root_path meta)) (\<lambda>index_root.
                 Option.bind (scope_resolve (t_is_file T) index_root (t_root T)) (\<lambda>scope. Some (index_root, scope))))"

definition is_skipped_indexed_read :: "io_error \<Rightarrow> bool" where
  "is_skipped_indexed_read e \<longleftrightarrow>
     io_kind e \<in> {NotFound, InvalidInput, NotADirectory, Unsupported} \<or> raw_os_error e \<in> {Some ELOOP, Some EMLINK}"

definition within_max_depth :: "path \<Rightarrow> 'e search_options \<Rightarrow> bool" where
  "within_max_depth rel opts = (case so_max_depth opts of Some m \<Rightarrow> length (filter (\<lambda>b. b = 0x2F) rel) < m | None \<Rightarrow> True)"

definition passes_filters :: "path \<Rightarrow> (path \<Rightarrow> glob_decision) \<Rightarrow> (path \<Rightarrow> bool) \<Rightarrow> bool \<Rightarrow> bool" where
  "passes_filters rel_path globs types glob_precedence =
     (case globs rel_path of
        GlobExclude \<Rightarrow> False
      | GlobInclude \<Rightarrow> if glob_precedence then True else types rel_path
      | GlobUnmatched \<Rightarrow> types rel_path)"

definition display_relative :: "path \<Rightarrow> path" where
  "display_relative relative = fst (lossy_utf8 relative)"

section \<open>Sorting\<close>

text \<open>Paths in canonical form compare by their parts.\<close>

definition path_key :: "path \<Rightarrow> byte list list" where
  "path_key p = split_on 0x2F p"

definition sort_apply :: "sort_mode \<Rightarrow> (sort_key \<Rightarrow> path \<Rightarrow> nat option) \<Rightarrow> path list \<Rightarrow> path list" where
  "sort_apply self time_of paths =
     (let paths = (if sm_key self = SortPath then sort_key path_key paths
                   else sort_key (\<lambda>p. (time_of (sm_key self) p, path_key p)) paths)
      in if sm_reverse self then rev paths else paths)"

text \<open>The entries of an index, by the times of the files they stand for.\<close>

definition sort_apply_indexed ::
  "sort_mode \<Rightarrow> string + (sort_key \<Rightarrow> path \<Rightarrow> nat option) \<Rightarrow> index_scope \<Rightarrow> path list \<Rightarrow> string + path list"
where
  "sort_apply_indexed self rooted scope entries =
     rbind (if sm_key self = SortPath then Inr (\<lambda>rel. None)
            else rbind rooted (\<lambda>time_of. Inr (\<lambda>rel. time_of (sm_key self) (indexed_path scope rel)))) (\<lambda>time.
       let entries = sort_key (\<lambda>rel. (time rel, path_key rel)) entries
       in Inr (if sm_reverse self then rev entries else entries))"

section \<open>The loop over the candidates\<close>

text \<open>
  The state is the writer and the flag of failed reads.  Each candidate comes with the answer of reading it;
  \<open>passed_over\<close> says which errors do not make the search fail.
\<close>

type_synonym run = "output_writer \<times> bool"

fun search_candidates ::
  "host \<Rightarrow> search_matcher \<Rightarrow> 'e search_options \<Rightarrow> bool \<Rightarrow> (io_error \<Rightarrow> bool) \<Rightarrow>
   (path \<times> (io_error + file_read option)) list \<Rightarrow> bool \<Rightarrow> run \<Rightarrow> run \<times> (string + bool)"
where
  "search_candidates H matcher opts explicit passed_over [] had_matches run = (run, Inr had_matches)"
| "search_candidates H matcher opts explicit passed_over ((rel_path, read) # candidates) had_matches (writer, errored) =
     (case read of
        Inr None \<Rightarrow> search_candidates H matcher opts explicit passed_over candidates had_matches (writer, errored)
      | Inl error \<Rightarrow>
          search_candidates H matcher opts explicit passed_over candidates had_matches (writer, errored \<or> \<not> passed_over error)
      | Inr (Some read) \<Rightarrow>
          (case search_file H read matcher rel_path opts explicit writer of
             (writer, Inl e) \<Rightarrow> ((writer, errored), Inl e)
           | (writer, Inr True) \<Rightarrow>
               if so_quiet opts then ((writer, errored), Inr True)
               else search_candidates H matcher opts explicit passed_over candidates True (writer, errored)
           | (writer, Inr False) \<Rightarrow>
               search_candidates H matcher opts explicit passed_over candidates had_matches (writer, errored)))"

text \<open>What follows every search of a directory or file: the writer is flushed.\<close>

definition flushed :: "host \<Rightarrow> run \<times> (string + bool) \<Rightarrow> run \<times> (string + bool)" where
  "flushed H outcome =
     (case outcome of
        (run, Inl e) \<Rightarrow> (run, Inl e)
      | ((writer, errored), Inr had_matches) \<Rightarrow> ((writer_flush (h_render H) (h_elapsed H) writer, errored), Inr had_matches))"

section \<open>Without the index\<close>

definition brute_force_search :: "host \<Rightarrow> 'e search_tree \<Rightarrow> 'e search_options \<Rightarrow> run \<Rightarrow> run \<times> (string + bool)" where
  "brute_force_search H T opts run =
     (case rbind (t_globs T) (\<lambda>globs. rbind (t_types T) (\<lambda>types. rbind (t_matcher T) (\<lambda>matcher. Inr (globs, types, matcher)))) of
        Inl e \<Rightarrow> (run, Inl e)
      | Inr (globs, types, matcher) \<Rightarrow>
          if t_is_file T then
            (case read_text_lossy (h_memchr H) (t_encodings T) (t_open T (t_root T)) (so_encoding opts) (read_size_limit opts True) of
               Inl e \<Rightarrow> (run, Inl ''cannot read file'')
             | Inr None \<Rightarrow> flushed H (run, Inr False)
             | Inr (Some read) \<Rightarrow>
                 (case run of (writer, errored) \<Rightarrow>
                    case search_file H read matcher (t_display T) opts True writer of
                      (writer, had_matches) \<Rightarrow> flushed H ((writer, errored), had_matches)))
          else
            (case t_walk T of
               Inl e \<Rightarrow> (run, Inl e)
             | Inr walked \<Rightarrow>
                 let walked = (case so_sort opts of Some mode \<Rightarrow> sort_apply mode (t_times T) walked | None \<Rightarrow> walked);
                     shown = (\<lambda>path. display_relative (case path_below (t_root T) path of Some rel \<Rightarrow> rel | None \<Rightarrow> path));
                     candidates = map (\<lambda>path. (shown path,
                         read_text_lossy (h_memchr H) (t_encodings T) (t_open T path) (so_encoding opts) (so_max_filesize opts)))
                       (filter (\<lambda>path. passes_filters (shown path) globs types True) walked)
                 in flushed H (search_candidates H matcher opts False (\<lambda>e. False) candidates False run)))"

section \<open>With the index\<close>

text \<open>The plan of the patterns, or the error of a pattern that does not parse.\<close>

definition search_plan :: "'e search_tree \<Rightarrow> search_matcher \<Rightarrow> bool \<Rightarrow> 'e search_options \<Rightarrow> string + query_plan" where
  "search_plan T matcher ci opts =
     (if effective_passthru opts \<or> may_differ_from_index (so_encoding opts) then Inr MatchAll
      else if is_standard matcher \<or> so_fixed_string opts then
        rbind (all_patterns (t_read_lines T) opts) (\<lambda>patterns.
          build_multi_pattern_plan (t_parse T) (t_escape T) id patterns (so_fixed_string opts) ci)
      else rbind (all_patterns (t_read_lines T) opts) (\<lambda>patterns.
          Inr (build_relaxed_multi_pattern_plan (t_parse_chars T) (map str_chars patterns) ci)))"

definition candidate_ids :: "index_reader \<Rightarrow> query_plan \<Rightarrow> 'e search_options \<Rightarrow> u32 list" where
  "candidate_ids reader plan opts =
     (if is_match_all plan \<or> so_files_without_match opts \<or> so_invert_match opts \<or> so_include_zero opts
      then reader_all_file_ids reader
      else execute_plan_with_masks plan (reader_lookup_trigram_with_masks reader))"

text \<open>The path to print for an entry of the index, when it is to be searched.\<close>

definition admitted ::
  "'e search_tree \<Rightarrow> 'e search_options \<Rightarrow> path_visibility \<Rightarrow> index_scope \<Rightarrow> (path \<Rightarrow> glob_decision) \<Rightarrow> (path \<Rightarrow> bool) \<Rightarrow>
   path \<Rightarrow> path option"
where
  "admitted T opts vis scope globs types indexed =
     (if \<not> is_visible vis indexed (scope_prefix scope) (so_hidden opts) then None
      else Option.bind (relativize scope indexed (t_display T)) (\<lambda>rel.
        if \<not> within_max_depth rel opts then None
        else if (case scope of ScopeFile f \<Rightarrow> True | _ \<Rightarrow> False) \<or> passes_filters rel globs types True then Some rel
        else None))"

definition search_local_index :: "host \<Rightarrow> 'e search_tree \<Rightarrow> 'e search_options \<Rightarrow> bool \<Rightarrow> run \<Rightarrow> run \<times> (string + bool)" where
  "search_local_index H T opts ci run =
     (case t_meta T of
        Inl e \<Rightarrow> brute_force_search H T opts run
      | Inr meta \<Rightarrow>
          if \<not> complete meta \<or> \<not> hidden_complete meta \<or> version meta \<noteq> INDEX_FORMAT_VERSION
          then brute_force_search H T opts run
          else case reader_open (t_index T) of
            Inl e \<Rightarrow> (run, Inl ''index'')
          | Inr reader \<Rightarrow>
              case (case read_filename_index (t_from_json T) (t_sidecar T) of
                  Inr (Some index) \<Rightarrow> fi_visibility index | Inr None \<Rightarrow> None | Inl e \<Rightarrow> None) of
                None \<Rightarrow> brute_force_search H T opts run
              | Some filename_visibility \<Rightarrow>
                  if \<not> covers_index filename_visibility meta (t_table_digest T (the (t_index T (layout_files Legacy))))
                  then brute_force_search H T opts run
                  else case resolve_scope T of
                    None \<Rightarrow> brute_force_search H T opts run
                  | Some (index_root, scope) \<Rightarrow>
                      case rbind (t_rooted T) (\<lambda>rooted. rbind (t_globs T) (\<lambda>globs. rbind (t_types T) (\<lambda>types.
                           rbind (t_matcher T) (\<lambda>matcher. rbind (search_plan T matcher ci opts) (\<lambda>plan.
                           let vis = fv_paths filename_visibility;
                               rels = List.map_filter (\<lambda>fid. Option.bind (reader_file_path reader fid)
                                 (admitted T opts vis scope globs types)) (candidate_ids reader plan opts)
                           in rbind (case so_sort opts of Some mode \<Rightarrow> sort_apply_indexed mode (t_rooted_times T) scope rels
                                     | None \<Rightarrow> Inr rels) (\<lambda>rels. Inr (rooted, matcher, rels))))))) of
                        Inl e \<Rightarrow> (run, Inl e)
                      | Inr (rooted, matcher, rels) \<Rightarrow>
                          let explicit = (case scope of ScopeFile f \<Rightarrow> True | _ \<Rightarrow> False);
                              candidates = map (\<lambda>rel_path. (rel_path,
                                read_text_lossy (h_memchr H) (t_encodings T) (rooted rel_path) (so_encoding opts)
                                  (read_size_limit opts explicit))) rels
                          in flushed H (search_candidates H matcher opts explicit is_skipped_indexed_read candidates False run))"

section \<open>The search without a server\<close>

definition bypass_index :: "bool \<Rightarrow> 'e search_options \<Rightarrow> bool" where
  "bypass_index root_is_file opts \<longleftrightarrow>
     root_is_file \<or> may_differ_from_index (so_encoding opts) \<or> so_text opts \<or> so_binary opts \<or> content_only opts \<or>
     so_no_ignore opts \<or> so_no_ignore_dot opts \<or> so_no_ignore_exclude opts \<or> so_no_ignore_global opts \<or>
     so_no_ignore_parent opts \<or> so_no_ignore_vcs opts"

definition search_locally :: "host \<Rightarrow> 'e search_tree \<Rightarrow> 'e search_options \<Rightarrow> bool \<Rightarrow> run \<Rightarrow> run \<times> (string + bool)" where
  "search_locally H T opts ci run =
     (if so_no_index opts \<or> bypass_index (t_is_file T) opts then brute_force_search H T opts run
      else if t_index T (layout_lookup Legacy) = None then brute_force_search H T opts run
      else search_local_index H T opts ci run)"

end
