(* ===== verification/Source_Tree.thy ===== *)
theory Source_Tree
  imports Local_Search
begin

text \<open>
  The files of a tree, as an index and a walk of one of its directories see them.  A file is the list of the names
  that lead to it from the root of the index.  The part of the tree that a search is to see is stated over
  names; the filters of \<^verbatim>\<open>search_local_index\<close>, which work on the bytes of indexed paths, are shown
  to select exactly that part.
\<close>

section \<open>Names and paths\<close>

fun joined :: "byte list list \<Rightarrow> path" where
  "joined [] = []"
| "joined [c] = c"
| "joined (c # d # cs) = c @ 0x2F # joined (d # cs)"

text \<open>Names that have a key in an index.\<close>

definition named :: "byte list list \<Rightarrow> bool" where
  "named cs \<longleftrightarrow> (\<forall>c\<in>set cs. c \<noteq> [] \<and> 0x2F \<notin> set c \<and> index_key c = Some c)"

lemma named_simps [simp]:
  "named []" "named (c # cs) \<longleftrightarrow> (c \<noteq> [] \<and> 0x2F \<notin> set c \<and> index_key c = Some c) \<and> named cs"
  "named (cs @ ds) \<longleftrightarrow> named cs \<and> named ds"
  by (auto simp: named_def)

lemma named_take [simp]: "named cs \<Longrightarrow> named (take k cs)"
  and named_drop [simp]: "named cs \<Longrightarrow> named (drop k cs)"
  by (auto simp: named_def dest: in_set_takeD in_set_dropD)

lemma index_key_Some: "index_key c = Some d \<longleftrightarrow> d = c \<and> valid_utf8 c \<and> 0x5C \<notin> set c"
  by (auto simp: index_key_def)

lemma joined_Cons: "cs \<noteq> [] \<Longrightarrow> joined (c # cs) = c @ 0x2F # joined cs"
  by (cases cs) simp_all

lemma joined_append: "cs \<noteq> [] \<Longrightarrow> ds \<noteq> [] \<Longrightarrow> joined (cs @ ds) = joined cs @ 0x2F # joined ds"
  by (induction cs rule: joined.induct) (simp_all add: joined_Cons)

lemma joined_utf8: "named cs \<Longrightarrow> valid_utf8 (joined cs)"
proof (induction cs rule: joined.induct)
  case (3 c d cs)
  have "valid_utf8 ([0x2F] @ joined (d # cs))" using 3 ascii_valid [of "[0x2F]"] by (subst valid_utf8_append) simp_all
  then show ?case using 3 by (simp add: index_key_Some valid_utf8_append)
qed (simp_all add: index_key_Some ascii_valid)

lemma split_on_append: "split_on sep (a @ sep # b) = split_on sep a @ split_on sep b"
  by (induction a) (auto split: list.split)

lemma split_on_name: "sep \<notin> set c \<Longrightarrow> split_on sep c = [c]"
  by (induction c) auto

lemma split_on_joined: "named cs \<Longrightarrow> cs \<noteq> [] \<Longrightarrow> split_on 0x2F (joined cs) = cs"
  by (induction cs rule: joined.induct) (simp_all add: split_on_name split_on_append)

lemma joined_split_on [simp]: "joined (split_on 0x2F s) = s"
proof (induction s)
  case (Cons b s)
  then show ?case by (cases "split_on 0x2F s" rule: joined.cases) auto
qed simp

text \<open>The prefix that a scope takes off: the path of the directory and a separator.\<close>

definition pre_of :: "byte list list \<Rightarrow> path" where
  "pre_of dir = (if dir = [] then [] else joined dir @ [0x2F])"

lemma strip_pre_of:
  assumes "named dir" "named f" "f \<noteq> []"
  shows "strip_prefix (pre_of dir) (joined f) =
    (if take (length dir) f = dir \<and> length dir < length f then Some (joined (drop (length dir) f)) else None)"
proof (cases "take (length dir) f = dir \<and> length dir < length f")
  case True
  then have "f = dir @ drop (length dir) f" "drop (length dir) f \<noteq> []" by (metis append_take_drop_id, simp)
  then have "joined f = pre_of dir @ joined (drop (length dir) f)"
    using joined_append [of dir "drop (length dir) f"] by (cases "dir = []") (simp_all add: pre_of_def)
  then show ?thesis using True by (simp add: strip_prefix_Some)
next
  case False
  have "strip_prefix (pre_of dir) (joined f) = None"
  proof (rule ccontr)
    assume "strip_prefix (pre_of dir) (joined f) \<noteq> None"
    then obtain s where s: "joined f = pre_of dir @ s" by (auto simp: strip_prefix_Some)
    have "f = dir @ split_on 0x2F s"
    proof (cases "dir = []")
      case True
      then show ?thesis using s split_on_joined [OF assms(2,3)] by (simp add: pre_of_def)
    next
      case dir: False
      then have "f = split_on 0x2F (joined dir @ 0x2F # s)" using s split_on_joined [OF assms(2,3)] by (simp add: pre_of_def)
      then show ?thesis using split_on_joined [OF assms(1) dir] by (simp only: split_on_append)
    qed
    moreover have "split_on 0x2F s \<noteq> []" by simp
    ultimately show False using False by auto
  qed
  with False show ?thesis by simp
qed

text \<open>The separators of a path lie behind its directories.\<close>

lemma separators_append: "separators (xs @ ys) = separators xs @ map (\<lambda>i. length xs + i) (separators ys)"
proof -
  have "enumerate (length xs) ys = map (\<lambda>(i, b). (length xs + i, b)) (enumerate 0 ys)"
    by (rule nth_equalityI) (simp_all add: nth_enumerate_eq)
  then show ?thesis by (simp add: separators_def enumerate_append_eq filter_map comp_def split_def)
qed

lemma separators_name: "0x2F \<notin> set c \<Longrightarrow> separators c = []"
  by (auto simp: separators_def filter_empty_conv enumerate_eq_zip dest: set_zip_rightD)

lemma separators_joined: "named cs \<Longrightarrow> separators (joined cs) = map (\<lambda>k. length (joined (take k cs))) [1..<length cs]"
proof (induction cs rule: joined.induct)
  case (3 c d cs)
  have one: "separators (0x2F # s) = 0 # map Suc (separators s)" for s
    using separators_append [of "[0x2F]" s] by (simp add: separators_def)
  have "[1..<length (c # d # cs)] = 1 # map Suc [1..<length (d # cs)]" unfolding map_Suc_upt by (simp add: upt_conv_Cons del: upt_Suc)
  moreover have "length (joined (take (Suc k) (c # d # cs))) = length c + Suc (length (joined (take k (d # cs))))"
    if "k \<in> set [1..<length (d # cs)]" for k
  proof -
    have "k \<noteq> 0" using that by (simp del: upt_Suc)
    then show ?thesis by (cases k) simp_all
  qed
  then have "map (\<lambda>k. length (joined (take (Suc k) (c # d # cs)))) [1..<length (d # cs)] =
      map (\<lambda>k. length c + Suc (length (joined (take k (d # cs))))) [1..<length (d # cs)]" by (rule map_cong [OF refl])
  moreover have "separators (joined (c # d # cs)) = length c # map (\<lambda>i. length c + Suc i) (separators (joined (d # cs)))"
    using 3(2) by (simp add: separators_append separators_name one comp_def)
  ultimately show ?case using 3 by (simp only: list.map map_map comp_def named_simps) simp
qed (simp add: separators_def, simp add: separators_name)

lemma joined_depth: "named cs \<Longrightarrow> length (filter (\<lambda>b. b = 0x2F) (joined cs)) = length cs - 1"
  by (induction cs rule: joined.induct) (auto simp: filter_empty_conv)

section \<open>What a search is to see\<close>

text \<open>
  The directory searched, the names hidden on the way, and the depth: without \<^verbatim>\<open>--hidden\<close> no hidden name
  below the directory leads to the file, and with \<^verbatim>\<open>--max-depth\<close> at most so many names do.
\<close>

definition below :: "byte list list \<Rightarrow> byte list list \<Rightarrow> bool" where
  "below dir f \<longleftrightarrow> length dir < length f \<and> take (length dir) f = dir"

definition uncovered :: "(byte list list \<Rightarrow> bool) \<Rightarrow> byte list list \<Rightarrow> byte list list \<Rightarrow> bool" where
  "uncovered hid dir f \<longleftrightarrow> (\<forall>k\<in>{length dir<..length f}. \<not> hid (take k f))"

definition in_view :: "'e search_options \<Rightarrow> (byte list list \<Rightarrow> bool) \<Rightarrow> byte list list \<Rightarrow> byte list list \<Rightarrow> bool" where
  "in_view opts hid dir f \<longleftrightarrow> below dir f \<and> (so_hidden opts \<or> uncovered hid dir f) \<and>
     (case so_max_depth opts of Some m \<Rightarrow> length f - length dir \<le> m | None \<Rightarrow> True)"

text \<open>The path of a file from the directory searched.\<close>

definition seen_as :: "byte list list \<Rightarrow> byte list list \<Rightarrow> path" where
  "seen_as dir f = joined (drop (length dir) f)"

lemma visible_joined:
  assumes names: "named dir" "named f" "below dir f" and records: "\<forall>k\<in>{1..length f}. records_hidden vis (joined (take k f)) = hid (take k f)"
  shows "is_visible vis (joined f) (pre_of dir) include_hidden \<longleftrightarrow> include_hidden \<or> uncovered hid dir f"
proof -
  let ?r = "drop (length dir) f" and ?n = "length dir"
  have f: "f = dir @ ?r" "?r \<noteq> []" "length f = ?n + length ?r" "f \<noteq> []"
    using names(3) by (auto simp: below_def) (metis append_take_drop_id)
  have strip: "strip_prefix (pre_of dir) (joined f) = Some (joined ?r)"
    using strip_pre_of [OF names(1,2) f(4)] names(3) by (simp add: below_def)
  then have whole: "joined f = pre_of dir @ joined ?r" by (simp add: strip_prefix_Some)
  have stop: "take (length (pre_of dir) + length (joined (take k ?r))) (joined f) = joined (take (?n + k) f)" if "1 \<le> k" "k \<le> length ?r" for k
  proof -
    have taken: "take (?n + k) f = dir @ take k ?r" using f(1) by (metis take_add append_take_drop_id append_eq_append_conv length_append_singleton
          names(3) below_def)
    have "take k ?r \<noteq> []" using that f(2) by auto
    then have "joined (take (?n + k) f) = pre_of dir @ joined (take k ?r)"
      unfolding taken using joined_append [of dir "take k ?r"] by (cases "dir = []") (simp_all add: pre_of_def)
    moreover have "take (length (joined (take k ?r))) (joined ?r) = joined (take k ?r)"
    proof (cases "drop k ?r = []")
      case False
      then have "joined ?r = joined (take k ?r) @ 0x2F # joined (drop k ?r)"
        using joined_append [OF \<open>take k ?r \<noteq> []\<close> False] by (simp only: append_take_drop_id)
      then show ?thesis by simp
    qed simp
    ultimately show ?thesis unfolding whole by simp
  qed
  have seps: "separators (joined ?r) = map (\<lambda>k. length (joined (take k ?r))) [1..<length ?r]"
    by (rule separators_joined) (use names(2) in simp)
  have last_stop: "take (length (joined f)) (joined f) = joined (take (?n + length ?r) f)" by (simp add: f(3) [symmetric])
  have "list_all (\<lambda>stop. \<not> records_hidden vis (take stop (joined f)))
      (map (\<lambda>offset. length (pre_of dir) + offset) (separators (joined ?r)) @ [length (joined f)]) \<longleftrightarrow>
    (\<forall>k\<in>{1..<length ?r}. \<not> records_hidden vis (joined (take (?n + k) f))) \<and> \<not> records_hidden vis (joined (take (?n + length ?r) f))"
    unfolding seps list_all_iff using stop last_stop by (simp add: conj_commute del: length_drop drop_drop)
  also have "\<dots> \<longleftrightarrow> (\<forall>k\<in>{1..length ?r}. \<not> records_hidden vis (joined (take (?n + k) f)))"
  proof -
    have "{1..length ?r} = insert (length ?r) {1..<length ?r}" using f(2) by (cases ?r) auto
    then show ?thesis by (simp add: conj_commute del: length_drop)
  qed
  also have "\<dots> \<longleftrightarrow> (\<forall>k\<in>{1..length ?r}. \<not> hid (take (?n + k) f))"
  proof -
    have "records_hidden vis (joined (take (?n + k) f)) = hid (take (?n + k) f)" if "k \<in> {1..length ?r}" for k
      using that records by auto
    then show ?thesis by blast
  qed
  also have "\<dots> \<longleftrightarrow> uncovered hid dir f"
  proof -
    have "{n<..m} = (\<lambda>k. n + k) ` {1..m - n}" for n m :: nat
      by (auto intro!: image_eqI [where x = "_ - n"])
    then show ?thesis unfolding uncovered_def by (simp only: ball_simps(9) length_drop)
  qed
  finally show ?thesis by (simp add: is_visible_def strip)
qed

text \<open>The filters on an entry of the index admit what is in view, under the path from the directory searched.\<close>

definition scope_of :: "byte list list \<Rightarrow> index_scope" where
  "scope_of dir = (if dir = [] then ScopeWhole else ScopeSubtree (pre_of dir))"

lemma admitted_joined:
  assumes names: "named dir" "named f" "f \<noteq> []"
    and records: "\<forall>k\<in>{1..length f}. records_hidden vis (joined (take k f)) = hid (take k f)"
  shows "admitted T opts vis (scope_of dir) globs types (joined f) =
    (if in_view opts hid dir f \<and> passes_filters (seen_as dir f) globs types True then Some (seen_as dir f) else None)"
proof (cases "below dir f")
  case True
  have rel: "relativize (scope_of dir) (joined f) (t_display T) = Some (seen_as dir f)" and pre: "scope_prefix (scope_of dir) = pre_of dir"
    using strip_pre_of [OF names] True by (auto simp: scope_of_def below_def seen_as_def pre_of_def)
  have "length (drop (length dir) f) = length f - length dir" "length dir < length f" using True by (simp_all add: below_def)
  then have "within_max_depth (seen_as dir f) opts \<longleftrightarrow> (case so_max_depth opts of Some m \<Rightarrow> length f - length dir \<le> m | None \<Rightarrow> True)"
    using joined_depth [of "drop (length dir) f"] names(2) by (auto simp: within_max_depth_def seen_as_def split: option.split)
  then show ?thesis
    unfolding admitted_def pre visible_joined [OF names(1,2) True records] rel in_view_def
    using True by (simp add: scope_of_def)
next
  case False
  then have "strip_prefix (pre_of dir) (joined f) = None" using strip_pre_of [OF names] by (auto simp: below_def)
  moreover have "scope_prefix (scope_of dir) = pre_of dir" by (simp add: scope_of_def pre_of_def)
  ultimately show ?thesis using False by (simp add: admitted_def is_visible_def in_view_def)
qed

end
