(* ===== verification/Counters.thy ===== *)
theory Counters
  imports Search_File
begin

text \<open>
  The counters of the writer are for statistics: outside the JSON format nothing that is printed depends on
  them.  Two writers that differ in counters only print the same for the same search, and a file in
  which nothing is found changes counters only.
\<close>

section \<open>Actions that keep a relation\<close>

definition keeps :: "('s \<Rightarrow> 's \<Rightarrow> bool) \<Rightarrow> ('s, 'e) action \<Rightarrow> bool" where
  "keeps R f \<longleftrightarrow> (\<forall>s t. R s t \<longrightarrow> R (fst (f s)) (fst (f t)) \<and> snd (f s) = snd (f t))"

lemma keepsI: "(\<And>s t. R s t \<Longrightarrow> R (fst (f s)) (fst (f t)) \<and> snd (f s) = snd (f t)) \<Longrightarrow> keeps R f"
  by (simp add: keeps_def)

lemma keepsD: "keeps R f \<Longrightarrow> R s t \<Longrightarrow> R (fst (f s)) (fst (f t)) \<and> snd (f s) = snd (f t)"
  by (simp add: keeps_def)

lemma keeps_return [intro]: "keeps R (\<lambda>s. (s, x))"
  by (simp add: keeps_def)

lemma keeps_and_then [intro]: "keeps R a \<Longrightarrow> keeps R b \<Longrightarrow> keeps R (and_then a b)"
  by (fastforce simp: keeps_def and_then_def split: prod.split option.split)

lemma keeps_each [intro]: "(\<And>x. keeps R (body x)) \<Longrightarrow> keeps R (each body xs)"
proof (induction xs)
  case Nil
  then show ?case by (simp add: keeps_def)
next
  case (Cons x xs)
  have "each body (x # xs) = and_then (body x) (each body xs)"
    by (simp add: fun_eq_iff and_then_def split: prod.split option.split)
  then show ?case using Cons by auto
qed

text \<open>A callback that keeps a relation: then so does every walk over a file.\<close>

locale kept_callback =
  fixes R :: "'s \<Rightarrow> 's \<Rightarrow> bool" and on_emit :: "emit \<Rightarrow> ('s, 'e) action"
  assumes callback: "keeps R (on_emit e)"
begin

lemma keeps_emit_hit: "keeps R (emit_hit from_error self opts matcher on_emit hit)"
  by (auto simp: emit_hit_def callback split: sum.split)

lemma keeps_emit_line: "keeps R (emit_line from_error self opts matcher on_emit li)"
  by (auto simp: emit_line_def callback keeps_emit_hit split: option.split)

lemma keeps_emit_block: "keeps R (emit_block memchr opts on_emit block)"
  by (auto simp: emit_block_def callback)

lemma keeps_passthru_blocks: "keeps R (passthru_blocks memchr self opts on_emit li blocks)"
  by (induction blocks arbitrary: li) (auto simp: callback simp del: add_0 intro!: keeps_and_then keeps_each keeps_emit_block)

lemma keeps_window_blocks: "keeps R (window_blocks memchr self opts on_emit lis blocks inside_until)"
proof (induction lis arbitrary: blocks inside_until)
  case (Cons li lis)
  then show ?case by (auto simp: callback keeps_emit_block)
qed auto

lemma keeps_for_each: "keeps R (for_each memchr from_error self opts matcher on_emit)"
  by (auto simp: for_each_def for_each_block_def keeps_emit_hit keeps_emit_line keeps_emit_block keeps_passthru_blocks keeps_window_blocks)

end

section \<open>Writers that differ in counters only\<close>

definition uncounted :: "output_writer \<Rightarrow> output_writer" where
  "uncounted w = w\<lparr>pending_bytes_searched := 0, all_bytes_searched := 0, all_searches := 0, total_matches := 0,
     total_matched_lines := 0\<rparr>"

definition same_text :: "output_writer \<Rightarrow> output_writer \<Rightarrow> bool" where
  "same_text v w \<longleftrightarrow> \<not> is_json v \<and> uncounted v = uncounted w"

lemma uncounted_simps [simp]:
  "config (uncounted w) = config w" "stdout (uncounted w) = stdout w" "current_file (uncounted w) = current_file w"
  "use_color (uncounted w) = use_color w" "use_heading (uncounted w) = use_heading w"
  "last_printed_line (uncounted w) = last_printed_line w" "printed_any (uncounted w) = printed_any w"
  "pending_file_separator (uncounted w) = pending_file_separator w" "is_json (uncounted w) = is_json w"
  by (simp_all add: uncounted_def is_json_def)

lemma uncounted_updates [simp]:
  "uncounted (put bs w) = put bs (uncounted w)"
  "uncounted (put_line bs w) = put_line bs (uncounted w)"
  "uncounted (w\<lparr>current_file := c\<rparr>) = uncounted w\<lparr>current_file := c\<rparr>"
  "uncounted (w\<lparr>last_printed_line := l\<rparr>) = uncounted w\<lparr>last_printed_line := l\<rparr>"
  "uncounted (w\<lparr>printed_any := b\<rparr>) = uncounted w\<lparr>printed_any := b\<rparr>"
  "uncounted (w\<lparr>pending_file_separator := b\<rparr>) = uncounted w\<lparr>pending_file_separator := b\<rparr>"
  by (simp_all add: uncounted_def put_def put_line_def)

lemma uncounted_counters [simp]:
  "uncounted (note_bytes_searched n w) = uncounted w" "uncounted (note_matches a b w) = uncounted w"
  by (simp_all add: uncounted_def note_bytes_searched_def set_file_bytes_searched_def note_matches_def)

lemma uncounted_reads [simp]:
  "display_path (uncounted w) = display_path w" "field_prefix (uncounted w) = field_prefix w" "highlight (uncounted w) = highlight w"
  "trims (uncounted w) = trims w" "trim_adjust_indexed (uncounted w) = trim_adjust_indexed w"
  "trim_adjust (uncounted w) = trim_adjust w" "apply_max_columns (uncounted w) = apply_max_columns w"
proof -
  show "display_path (uncounted w) = display_path w" by (rule config_bytes) simp
  show "field_prefix (uncounted w) = field_prefix w" "highlight (uncounted w) = highlight w" by (rule writer_look; simp)+
  show trims: "trims (uncounted w) = trims w" by (simp only: trims_def uncounted_simps)
  show indexed: "trim_adjust_indexed (uncounted w) = trim_adjust_indexed w"
    by (intro ext) (simp only: trim_adjust_indexed_def trims)
  show "trim_adjust (uncounted w) = trim_adjust w" by (intro ext) (simp only: trim_adjust_def indexed)
  show "apply_max_columns (uncounted w) = apply_max_columns w" by (intro ext) (simp only: apply_max_columns_def uncounted_simps)
qed

lemma put_reads [simp]:
  "display_path (put_line bs w) = display_path w" "config (put_line bs w) = config w" "use_color (put_line bs w) = use_color w"
  "printed_any (put_line bs w) = printed_any w" "use_heading (put_line bs w) = use_heading w"
proof -
  show "config (put_line bs w) = config w" by (simp add: put_line_def)
  then show "display_path (put_line bs w) = display_path w" by (rule config_bytes)
  show "use_color (put_line bs w) = use_color w" "printed_any (put_line bs w) = printed_any w" "use_heading (put_line bs w) = use_heading w"
    by (simp_all add: put_line_def put_def)
qed

lemma write_uncounted:
  "write_file file (uncounted w) = uncounted (write_file file w)"
  "write_count file n (uncounted w) = uncounted (write_count file n w)"
  "write_pending_file_separator (uncounted w) = uncounted (write_pending_file_separator w)"
  "ensure_heading file (uncounted w) = uncounted (ensure_heading file w)"
  by (simp_all add: write_file_def write_count_def write_pending_file_separator_def ensure_heading_def Let_def split: option.split)

lemma write_separator_uncounted:
  "write_context_separator file n (uncounted w) = uncounted (write_context_separator file n w)"
  by (auto simp: write_context_separator_def write_uncounted Let_def split: option.split)

lemma write_note_uncounted:
  "\<not> is_json w \<Longrightarrow> write_binary_note render e file off (uncounted w) = uncounted (write_binary_note render e file off w)"
  by (simp add: write_binary_note_def Let_def)

lemma write_line_uncounted:
  "\<not> is_json w \<Longrightarrow> write_context_line render e ctx (uncounted w) = uncounted (write_context_line render e ctx w)"
  by (simp add: write_context_line_def write_uncounted Let_def)

lemma fold_uncounted: "(\<And>x w. f x (uncounted w) = uncounted (f x w)) \<Longrightarrow> fold f xs (uncounted w) = uncounted (fold f xs w)"
  by (induction xs arbitrary: w) simp_all

lemma write_row_uncounted:
  "write_text_match m content spans (uncounted w) = uncounted (write_text_match m content spans w)"
  "write_vimgrep_match m content spans (uncounted w) = uncounted (write_vimgrep_match m content spans w)"
  by (simp_all add: write_text_match_def write_vimgrep_match_def write_uncounted fold_uncounted Let_def)

lemma write_match_uncounted:
  assumes "\<not> is_json w"
  shows "write_match render e m (uncounted w) = uncounted (write_match render e m w)"
proof -
  have kept: "config (write_pending_file_separator w) = config w"
    by (simp add: write_pending_file_separator_def Let_def split: option.split)
  have "format (config w) \<noteq> Json" using assms by (simp add: is_json_def)
  then show ?thesis
    by (cases "format (config w)") (simp_all add: write_match_def write_uncounted write_row_uncounted kept Let_def case_prod_unfold)
qed


text \<open>Writing leaves the configuration alone.\<close>

lemma written_config:
  "config (put_line bs w) = config w" "config (write_file file w) = config w" "config (write_count file n w) = config w"
  "config (write_pending_file_separator w) = config w" "config (ensure_heading file w) = config w"
  "config (write_context_separator file n w) = config w"
  by (auto simp: put_line_def write_file_def write_count_def write_pending_file_separator_def ensure_heading_def
      write_context_separator_def Let_def split: option.split)

lemma fold_config: "(\<And>x w. config (f x w) = config w) \<Longrightarrow> config (fold f xs w) = config w"
  by (induction xs arbitrary: w) simp_all

lemma written_rows_config:
  assumes "\<not> is_json w"
  shows "config (write_binary_note render e file off w) = config w" "config (write_context_line render e ctx w) = config w"
    "config (write_match render e m w) = config w"
proof -
  have "format (config w) \<noteq> Json" using assms by (simp add: is_json_def)
  then show "config (write_match render e m w) = config w"
    by (cases "format (config w)")
      (simp_all add: write_match_def write_text_match_def write_vimgrep_match_def written_config fold_config Let_def case_prod_unfold)
qed (use assms in \<open>simp_all add: write_binary_note_def write_context_line_def written_config Let_def\<close>)

lemma same_text_written:
  assumes "same_text v w"
    and "\<And>w. \<not> is_json w \<Longrightarrow> op (uncounted w) = uncounted (op w)" "\<And>w. \<not> is_json w \<Longrightarrow> config (op w) = config w"
  shows "same_text (op v) (op w)"
proof -
  have w: "\<not> is_json v" "\<not> is_json w" "uncounted v = uncounted w"
    using assms(1) uncounted_simps(9) by (auto simp: same_text_def) (metis uncounted_simps(9))
  have "uncounted (op v) = uncounted (op w)" using assms(2) [OF w(1)] assms(2) [OF w(2)] w(3) by simp
  then show ?thesis using w(1) assms(3) [OF w(1)] by (simp add: same_text_def is_json_def)
qed

lemma same_text_simps:
  assumes "same_text v w"
  shows "\<not> is_json v" "\<not> is_json w" "stdout v = stdout w" "config v = config w"
  using assms uncounted_simps unfolding same_text_def by metis+

lemma same_text_noted: "same_text v w \<Longrightarrow> same_text (noted H opts read found v) (noted H opts read found w)"
  by (simp add: same_text_def noted_def Let_def is_json_def)

interpretation text_rows: kept_callback same_text "write_row render e read rel" for render e read rel
proof unfold_locales
  fix row
  show "keeps same_text (write_row render e read rel row)"
  proof (rule keepsI)
    fix v w
    assume vw: "same_text v w"
    have sep: "same_text (write_context_separator rel n v) (write_context_separator rel n w)" for n
      by (rule same_text_written [OF vw]) (simp_all add: write_separator_uncounted written_config)
    show "same_text (fst (write_row render e read rel row v)) (fst (write_row render e read rel row w)) \<and>
        snd (write_row render e read rel row v) = snd (write_row render e read rel row w)"
    proof (cases row)
      case (EmitMatch m)
      let ?n = "case m_block m of Some b \<Rightarrow> fst b | None \<Rightarrow> m_line_number m"
      have "same_text (write_match render e (match_of_row False read rel m) (write_context_separator rel ?n v))
          (write_match render e (match_of_row False read rel m) (write_context_separator rel ?n w))"
        by (rule same_text_written [OF sep]) (simp_all add: write_match_uncounted written_rows_config)
      then show ?thesis using same_text_simps(1,2) [OF sep, of ?n] by (simp add: EmitMatch write_row_def Let_def)
    next
      case (EmitContext c)
      have "same_text (write_context_line render e (context_of_row False read rel c) (write_context_separator rel (c_line_number c) v))
          (write_context_line render e (context_of_row False read rel c) (write_context_separator rel (c_line_number c) w))"
        by (rule same_text_written [OF sep]) (simp_all add: write_line_uncounted written_rows_config)
      then show ?thesis using same_text_simps(1,2) [OF sep, of "c_line_number c"] by (simp add: EmitContext write_row_def Let_def)
    qed
  qed
qed

section \<open>A search with other counters\<close>

lemma same_text_writes:
  assumes "same_text v w"
  shows "same_text (write_file rel v) (write_file rel w)" "same_text (write_count rel n v) (write_count rel n w)"
    "same_text (write_binary_note render e rel off v) (write_binary_note render e rel off w)"
  using same_text_written [OF assms, of "write_file rel"] same_text_written [OF assms, of "write_count rel n"]
    same_text_written [OF assms, of "write_binary_note render e rel off"]
  by (simp_all add: write_uncounted write_note_uncounted written_config written_rows_config)

lemma report_same_text:
  assumes "same_text v w"
  shows "same_text (fst (report_file H opts matcher rel read found v)) (fst (report_file H opts matcher rel read found w)) \<and>
    snd (report_file H opts matcher rel read found v) = snd (report_file H opts matcher rel read found w)"
proof -
  define zero where "zero = (\<lambda>w. if fm_is_empty found \<and> so_include_zero opts \<and> (so_count opts \<or> so_count_matches opts) \<and> \<not> so_quiet opts
    then write_count rel 0 w else w)"
  let ?report = "report_file H opts matcher rel read found"
  let ?walk = "for_each (h_memchr H) id found (match_options_of (h_tty H) opts) matcher (write_row (h_render H) (h_elapsed H) read rel)"
  let ?n = "if so_count_matches opts then match_count found else matched_lines found"
  have kept: "same_text (zero v) (zero w)" using same_text_writes(2) [OF assms] assms unfolding zero_def by auto
  note written = same_text_writes [OF kept]
  have walk: "same_text (fst (?walk (zero v))) (fst (?walk (zero w))) \<and> snd (?walk (zero v)) = snd (?walk (zero w))"
    by (rule keepsD [OF text_rows.keeps_for_each kept])
  let ?none = "fm_is_empty found \<and> (\<not> effective_passthru opts \<or> binary_offset_of opts read \<noteq> None)"
  have report: "?report u =
      (if ?none then (zero u, Inr OutcomeNoMatch)
       else if so_quiet opts \<or> so_files_without_match opts then (zero u, Inr OutcomeMatched)
       else if so_files_only opts then (write_file rel (zero u), Inr OutcomeMatched)
       else if so_count opts \<or> so_count_matches opts then (write_count rel ?n (zero u), Inr OutcomeMatched)
       else case binary_offset_of opts read of
           Some off \<Rightarrow> (write_binary_note (h_render H) (h_elapsed H) rel off (zero u), Inr OutcomeMatched)
         | None \<Rightarrow> (case ?walk (zero u) of (w, Some e) \<Rightarrow> (w, Inl e)
             | (w, None) \<Rightarrow> (w, Inr (if \<not> fm_is_empty found then OutcomeMatched else OutcomeNoMatch))))"
    if "\<not> is_json u" for u
  proof -
    have plain: "\<not> is_json (write_binary_note (h_render H) (h_elapsed H) rel off x)" if "\<not> is_json x" for x off
      using that written_rows_config(1) [OF that] by (simp add: is_json_def)
    have "\<not> is_json (write_count rel 0 u)" using that by (simp add: is_json_def written_config)
    then show ?thesis unfolding report_file_def Let_def match_options_simps zero_def [symmetric]
      using that plain by (cases "binary_offset_of opts read") (simp_all add: zero_def)
  qed
  have outcome: "same_text (fst (case ?walk (zero v) of (w, Some e) \<Rightarrow> (w, Inl e) | (w, None) \<Rightarrow> (w, Inr r)))
      (fst (case ?walk (zero w) of (w, Some e) \<Rightarrow> (w, Inl e) | (w, None) \<Rightarrow> (w, Inr r))) \<and>
    snd (case ?walk (zero v) of (w, Some e) \<Rightarrow> (w, Inl e) | (w, None) \<Rightarrow> (w, Inr r)) =
      snd (case ?walk (zero w) of (w, Some e) \<Rightarrow> (w, Inl e) | (w, None) \<Rightarrow> (w, Inr r))" for r :: file_outcome
    using walk by (auto split: prod.split option.split)
  show ?thesis
    unfolding report [OF same_text_simps(1) [OF assms]] report [OF same_text_simps(2) [OF assms]]
    using kept written outcome by (cases "binary_offset_of opts read") simp_all
qed

lemma search_decoded_same_text:
  assumes "same_text v w"
  shows "same_text (fst (search_decoded_file H read matcher rel opts explicit v)) (fst (search_decoded_file H read matcher rel opts explicit w)) \<and>
    snd (search_decoded_file H read matcher rel opts explicit v) = snd (search_decoded_file H read matcher rel opts explicit w)"
proof (cases "binary_offset_of opts read = None \<or> explicit \<or> so_binary opts")
  case False
  then show ?thesis using assms by (auto simp: search_decoded_file_def)
next
  case shown: True
  show ?thesis
  proof (cases "find_in_file (h_memchr_iter H) (h_parse H) (file_text_as_str (fr_text read)) matcher (match_options_of (h_tty H) opts)")
    case (Inl e)
    have "same_text (note_bytes_searched n v) (note_bytes_searched n w)" for n
      using assms by (simp add: same_text_def is_json_def)
    then show ?thesis using shown Inl by (auto simp: search_decoded_file_def Let_def)
  next
    case (Inr found)
    show ?thesis unfolding search_decoded_report [OF Inr shown] by (rule report_same_text [OF same_text_noted [OF assms]])
  qed
qed

lemma search_file_same_text:
  assumes "same_text v w"
  shows "same_text (fst (search_file H read matcher rel opts explicit v)) (fst (search_file H read matcher rel opts explicit w)) \<and>
    snd (search_file H read matcher rel opts explicit v) = snd (search_file H read matcher rel opts explicit w)"
proof -
  obtain v' r where v': "search_decoded_file H read matcher rel opts explicit v = (v', r)" by force
  obtain w' where w': "search_decoded_file H read matcher rel opts explicit w = (w', r)" "same_text v' w'"
    using search_decoded_same_text [OF assms, of H read matcher rel opts explicit] v' by (metis eq_fst_iff snd_conv)
  have name: "same_text (write_file rel v') (write_file rel w')" by (rule same_text_writes [OF w'(2)])
  show ?thesis using w' name by (simp add: search_file_def v' split: sum.split file_outcome.split)
qed

section \<open>Files without a match\<close>

text \<open>A search that reports every file, or every line, or what is not there.\<close>

definition reports_unmatched :: "'e search_options \<Rightarrow> bool" where
  "reports_unmatched opts \<longleftrightarrow> effective_passthru opts \<or> so_files_without_match opts \<or> so_include_zero opts"

lemma skipped_file:
  "binary_offset_of opts read \<noteq> None \<Longrightarrow> \<not> explicit \<Longrightarrow> \<not> so_binary opts \<Longrightarrow>
   search_file H read matcher rel opts explicit w = (w, Inr False)"
  by (simp add: search_file_def search_decoded_file_def)

lemma unmatched_file:
  assumes "find_in_file (h_memchr_iter H) (h_parse H) (file_text_as_str (fr_text read)) matcher (match_options_of (h_tty H) opts) = Inr found"
    and "fm_is_empty found" "\<not> reports_unmatched opts" "\<not> is_json w"
  shows "\<exists>v. search_file H read matcher rel opts explicit w = (v, Inr False) \<and> same_text v w"
proof (cases "binary_offset_of opts read = None \<or> explicit \<or> so_binary opts")
  case False
  then have "search_file H read matcher rel opts explicit w = (w, Inr False)" by (intro skipped_file) auto
  then show ?thesis using assms(4) by (auto simp: same_text_def)
next
  case True
  have "search_file H read matcher rel opts explicit w = (noted H opts read found w, Inr False)"
    using assms(2,3) by (simp add: search_file_def search_decoded_report [OF assms(1) True] report_file_def reports_unmatched_def Let_def)
  moreover have "same_text (noted H opts read found w) w" using assms(4) by (simp add: same_text_def noted_def Let_def is_json_def)
  ultimately show ?thesis by blast
qed

text \<open>An engine that matches nowhere in a text finds nothing in it.\<close>

lemma line_run_none: "\<forall>x\<in>set xs. \<not> P x \<Longrightarrow> line_run stop False P xs = []"
  by (simp add: line_run_def filter_empty_conv dropWhile_eq_Nil_conv [THEN iffD2])

lemma nothing_by_line:
  assumes "finds_all memchr_iter" "leftmost_engine re starts" "pattern_is_anchor_free (re_as_str re) \<longrightarrow> line_local starts"
    and "\<not> invert_match mo" "\<not> report_replacements mo"
    and "\<forall>li<line_count (line_index_new memchr_iter content). starts (line_text (line_index_new memchr_iter content) li) = {}"
    and "\<not> multiline mo"
  shows "\<exists>found. find_in_file memchr_iter parse content (Standard re dot_all) mo = Inr found \<and> fm_is_empty found"
proof -
  let ?I = "line_index_new memchr_iter content"
  have "line_run (stop_on_nonmatch mo) False (\<lambda>li. line_selected starts mo (line_text ?I li)) [0..<line_count ?I] = []"
    by (rule line_run_none) (simp add: line_selected_def assms(4,6))
  then have "selected_lines starts mo ?I = []" by (simp add: selected_lines_def at_most_def split: option.split)
  then show ?thesis
    using find_in_file_by_line [OF assms(1) refl assms(2,3), of mo _ content dot_all] assms(5,7) by (auto simp: fm_is_empty_def)
qed

lemma no_spans [simp]:
  "drop_eof_match content [] = []" "limit_to_line_blocks I [] m = []" "clip_spans_to_start_line I [] = []" "group_spans_by_line I [] = []"
  by (simp_all add: drop_eof_match_def limit_to_line_blocks_def clip_spans_to_start_line_def group_spans_by_line_def spans_by_line_def
      split: option.split)

lemma nothing_multiline:
  assumes "leftmost_engine re starts" "starts content = {}" "multiline mo" "\<not> invert_match mo" "\<not> report_replacements mo"
  shows "\<exists>found. find_in_file memchr_iter parse content (Standard re dot_all) mo = Inr found \<and> fm_is_empty found"
proof -
  have "leftmost_spans (starts content) None (re_find_iter re content)" using assms(1) by (simp add: leftmost_engine_def)
  then have "re_find_iter re content = []" using assms(2) by (cases "re_find_iter re content") auto
  then show ?thesis using assms(3-5)
    by (auto simp: find_in_file_def find_multiline_def find_spans_def fm_is_empty_def Let_def split: option.split)
qed

end
