(* ===== verification/Search_Agreement.thy ===== *)
theory Search_Agreement
  imports Source_Tree Counters
begin

text \<open>
  The index changes no output: a search without a server prints the same, byte for byte, whether it takes its
  candidates from the index or from a walk.  The index and the walk are each related to one tree of files; what is in
  view of the search is stated over names (\<open>Source_Tree\<close>).  The candidates of the plan are the listed files
  whose tables it accepts; those left out are searched by the walk without leaving a trace; both ways of reading
  a file give the same text, or fail both; and both sort alike.
\<close>

section \<open>Sorting\<close>

lemma insort_key_cong_le:
  "(\<And>y. y \<in> set xs \<Longrightarrow> (f x \<le> f y) = (g x \<le> g y)) \<Longrightarrow> insort_key f x xs = insort_key g x xs"
  by (induction xs) auto

lemma sort_key_cong_le:
  "(\<And>x y. x \<in> set xs \<Longrightarrow> y \<in> set xs \<Longrightarrow> (f x \<le> f y) = (g x \<le> g y)) \<Longrightarrow> sort_key f xs = sort_key g xs"
proof (induction xs)
  case (Cons x xs)
  then have "sort_key f xs = sort_key g xs" by simp
  then show ?case using Cons.prems insort_key_cong_le [of "sort_key g xs" f x g] by simp
qed simp

lemma split_on_inj: "split_on sep a = split_on sep b \<Longrightarrow> a = b"
proof (induction a arbitrary: b)
  case Nil
  then show ?case by (cases b) (auto split: if_splits list.splits dest: sym)
next
  case (Cons x a)
  then obtain y b' where b: "b = y # b'" by (cases b) (auto split: if_splits list.splits)
  obtain p ps q qs where parts: "split_on sep a = p # ps" "split_on sep b' = q # qs"
    by (metis list.exhaust split_on_not_Nil)
  show ?case using Cons.prems Cons.IH [of b'] by (auto simp: b parts split: if_splits)
qed

lemma path_key_inj: "inj_on path_key A"
  by (auto simp: inj_on_def path_key_def dest: split_on_inj)

lemma append_le_append: "((p @ a :: 'a::linorder list) \<le> p @ b) = (a \<le> b)"
  by (induction p) auto

text \<open>A file below a directory, by the path that leads to it.\<close>

definition child_path :: "path \<Rightarrow> path \<Rightarrow> path" where
  "child_path base rel = (if base = [0x2F] then base @ rel else base @ 0x2F # rel)"

lemma path_below_child_path [simp]: "path_below base (child_path base rel) = Some rel"
  by (auto simp: path_below_def child_path_def strip_prefix_def)

lemma path_key_child_path: "(path_key (child_path base a) \<le> path_key (child_path base b)) = (path_key a \<le> path_key b)"
  by (simp add: child_path_def path_key_def split_on_append append_le_append)

text \<open>Sorting the walk and sorting the index give the same order.\<close>

lemma sort_apply_child_path:
  assumes "\<forall>rel\<in>set rels. time_of (sm_key mode) (child_path base rel) = time rel \<or> sm_key mode = SortPath"
  shows "sort_apply mode time_of (map (child_path base) rels) =
    map (child_path base) (let sorted = sort_key (\<lambda>rel. (if sm_key mode = SortPath then None else time rel, path_key rel)) rels
      in if sm_reverse mode then rev sorted else sorted)"
proof -
  have "sort_key (\<lambda>rel. path_key (child_path base rel)) rels = sort_key (\<lambda>rel. (None :: nat option, path_key rel)) rels"
    by (rule sort_key_cong_le) (simp add: path_key_child_path)
  moreover have "sort_key (\<lambda>rel. (time_of (sm_key mode) (child_path base rel), path_key (child_path base rel))) rels =
      sort_key (\<lambda>rel. (time rel, path_key rel)) rels" if "sm_key mode \<noteq> SortPath"
    by (rule sort_key_cong_le) (use assms that in \<open>auto simp: path_key_child_path\<close>)
  ultimately show ?thesis by (simp add: sort_apply_def sort_key_map Let_def rev_map)
qed

lemma rev_filter_sort:
  "mset xs = mset (filter P ys) \<Longrightarrow>
   (let sorted = sort_key (\<lambda>rel. (t rel, path_key rel)) xs in if b then rev sorted else sorted) =
   filter P (let sorted = sort_key (\<lambda>rel. (t rel, path_key rel)) ys in if b then rev sorted else sorted)"
proof -
  assume m: "mset xs = mset (filter P ys)"
  have "inj_on (\<lambda>rel. (t rel, path_key rel)) (set xs)" by (auto simp: inj_on_def path_key_def dest: split_on_inj)
  then have "sort_key (\<lambda>rel. (t rel, path_key rel)) xs = sort_key (\<lambda>rel. (t rel, path_key rel)) (filter P ys)"
    by (intro sort_key_inj_key_eq) (simp_all add: m)
  then show ?thesis by (simp add: filter_sort rev_filter [symmetric] Let_def)
qed


section \<open>Candidates that add nothing\<close>

text \<open>Reads that agree in all but whether the text is mapped.\<close>

definition read_alike :: "file_read \<Rightarrow> file_read \<Rightarrow> bool" where
  "read_alike r r' \<longleftrightarrow> file_text_as_str (fr_text r) = file_text_as_str (fr_text r') \<and> fr_fixups r = fr_fixups r' \<and>
     fr_first_nul r = fr_first_nul r'"

lemma search_file_alike:
  assumes "read_alike r r'"
  shows "search_file H r matcher rel opts explicit = search_file H r' matcher rel opts explicit"
proof -
  have r: "file_text_as_str (fr_text r) = file_text_as_str (fr_text r')" "fr_fixups r = fr_fixups r'" "fr_first_nul r = fr_first_nul r'"
    using assms by (simp_all add: read_alike_def)
  have binary: "binary_offset_of opts r = binary_offset_of opts r'" by (simp only: binary_offset_of_def r)
  have row: "write_row render e r rel = write_row render e r' rel" for render e
    by (intro ext) (simp only: write_row_def match_of_row_def context_of_row_def r)
  have report: "report_file H opts matcher rel r = report_file H opts matcher rel r'"
    by (intro ext) (simp only: report_file_def binary row)
  show ?thesis by (intro ext) (simp only: search_file_def search_decoded_file_def binary report r)
qed

text \<open>A candidate that leaves no trace but in the counters.\<close>

definition silent :: "host \<Rightarrow> search_matcher \<Rightarrow> 'e search_options \<Rightarrow> bool \<Rightarrow> path \<times> (io_error + file_read option) \<Rightarrow> bool" where
  "silent H matcher opts explicit c \<longleftrightarrow> snd c = Inr None \<or>
     (\<exists>r. snd c = Inr (Some r) \<and> (\<forall>w. \<not> is_json w \<longrightarrow>
        (\<exists>v. search_file H r matcher (fst c) opts explicit w = (v, Inr False) \<and> same_text v w)))"

text \<open>Runs that print the same; the flag of failed reads of the first implies that of the second.\<close>

definition same_run :: "run \<Rightarrow> run \<Rightarrow> bool" where
  "same_run s t \<longleftrightarrow> same_text (fst s) (fst t) \<and> (snd s \<longrightarrow> snd t)"

fun reads_alike :: "io_error + file_read option \<Rightarrow> io_error + file_read option \<Rightarrow> bool" where
  "reads_alike (Inl e) (Inl e') \<longleftrightarrow> True"
| "reads_alike (Inr None) (Inr None) \<longleftrightarrow> True"
| "reads_alike (Inr (Some r)) (Inr (Some r')) \<longleftrightarrow> read_alike r r'"
| "reads_alike a b \<longleftrightarrow> False"

lemma same_text_trans: "same_text u v \<Longrightarrow> same_text v w \<Longrightarrow> same_text u w"
  by (simp add: same_text_def)

lemma same_text_sym: "same_text v w \<Longrightarrow> same_text w v"
  by (auto simp: same_text_def) (metis uncounted_simps(9))

lemma same_run_simps: "same_run (v, e) (w, e') \<longleftrightarrow> same_text v w \<and> (e \<longrightarrow> e')"
  by (simp add: same_run_def)

text \<open>One candidate that both runs search.\<close>

lemma search_one_alike:
  assumes "read_alike r' r" "same_text v w" "e \<longrightarrow> e'"
  shows "(\<exists>x y err. search_file H r' matcher rel opts explicit v = (x, Inl err) \<and> search_file H r matcher rel opts explicit w = (y, Inl err) \<and>
      same_run (x, e) (y, e')) \<or>
    (\<exists>x y b. search_file H r' matcher rel opts explicit v = (x, Inr b) \<and> search_file H r matcher rel opts explicit w = (y, Inr b) \<and>
      same_run (x, e) (y, e'))"
proof -
  obtain x out where x: "search_file H r' matcher rel opts explicit v = (x, out)" by force
  obtain y where y: "search_file H r matcher rel opts explicit w = (y, out)" "same_text x y"
    using search_file_same_text [OF assms(2), of H r matcher rel opts explicit] x
    unfolding search_file_alike [OF assms(1)] by (metis fst_conv snd_conv surj_pair)
  show ?thesis using x y assms(3) by (cases out) (simp_all add: same_run_simps)
qed

text \<open>
  A run over some of the candidates, which may pass over errors, against a run over all of them, which does not:
  what the first leaves out is silent or cannot be read.
\<close>

lemma search_candidates_simulated:
  assumes "\<forall>c\<in>set cs. if keep c then reads_alike (reads (fst c)) (snd c) else silent H matcher opts explicit c \<or> isl (snd c)"
    and "same_run s t"
  shows "same_run
      (fst (search_candidates H matcher opts explicit po (map (\<lambda>c. (fst c, reads (fst c))) (filter keep cs)) had s))
      (fst (search_candidates H matcher opts explicit (\<lambda>e. False) cs had t)) \<and>
    snd (search_candidates H matcher opts explicit po (map (\<lambda>c. (fst c, reads (fst c))) (filter keep cs)) had s) =
    snd (search_candidates H matcher opts explicit (\<lambda>e. False) cs had t)"
  using assms
proof (induction cs arbitrary: had s t)
  case (Cons c cs)
  obtain rel read where c: "c = (rel, read)" by (cases c)
  obtain v e w e' where st: "s = (v, e)" "t = (w, e')" "same_text v w" "e \<longrightarrow> e'"
    using Cons.prems(2) by (cases s; cases t) (auto simp: same_run_def)
  have rest: "\<forall>c\<in>set cs. if keep c then reads_alike (reads (fst c)) (snd c) else silent H matcher opts explicit c \<or> isl (snd c)"
    using Cons.prems(1) by simp
  note IH = Cons.IH [OF rest]
  show ?case
  proof (cases "keep c")
    case True
    then have "reads_alike (reads rel) read" using Cons.prems(1) by (simp add: c)
    then consider err err' where "reads rel = Inl err" "read = Inl err'" | "reads rel = Inr None" "read = Inr None"
      | r' r where "reads rel = Inr (Some r')" "read = Inr (Some r)" "read_alike r' r"
      by (cases "(reads rel, read)" rule: reads_alike.cases) auto
    then show ?thesis
    proof cases
      case (1 err err')
      then show ?thesis using True IH [of "(v, e \<or> \<not> po err)" "(w, True)" had] st by (simp add: c same_run_simps)
    next
      case 2
      then show ?thesis using True IH [OF Cons.prems(2), of had] st by (simp add: c)
    next
      case (3 r' r)
      from search_one_alike [OF 3(3) st(3,4), of H matcher rel opts explicit]
      show ?thesis
      proof (elim disjE exE conjE)
        fix x y err
        assume "search_file H r' matcher rel opts explicit v = (x, Inl err)" "search_file H r matcher rel opts explicit w = (y, Inl err)"
          "same_run (x, e) (y, e')"
        then show ?thesis using True 3 st by (simp add: c)
      next
        fix x y b
        assume "search_file H r' matcher rel opts explicit v = (x, Inr b)" "search_file H r matcher rel opts explicit w = (y, Inr b)"
          and same: "same_run (x, e) (y, e')"
        then show ?thesis using True 3 st IH [OF same, of True] IH [OF same, of had]
          by (cases b; cases "so_quiet opts") (simp_all add: c)
      qed
    qed
  next
    case False
    then consider "read = Inr None" | err where "read = Inl err" | r where "read = Inr (Some r)" "\<forall>w. \<not> is_json w \<longrightarrow>
        (\<exists>v. search_file H r matcher rel opts explicit w = (v, Inr False) \<and> same_text v w)"
      using Cons.prems(1) by (auto simp: silent_def c isl_def)
    then show ?thesis
    proof cases
      case 1
      then show ?thesis using False IH [OF Cons.prems(2), of had] st by (simp add: c)
    next
      case (2 err)
      then show ?thesis using False IH [of s "(w, True)" had] st by (simp add: c same_run_simps)
    next
      case (3 r)
      then obtain u where u: "search_file H r matcher rel opts explicit w = (u, Inr False)" "same_text u w"
        using same_text_simps(2) [OF st(3)] by blast
      have "same_run s (u, e')" using st same_text_trans [OF st(3) same_text_sym [OF u(2)]] by (simp add: same_run_simps)
      then show ?thesis using False 3(1) u(1) IH [of s "(u, e')" had] st by (simp add: c)
    qed
  qed
qed simp

text \<open>A file that is not read at all is as if it were not there, and the flag is raised by errors only.\<close>

lemma search_candidates_unread:
  assumes "\<forall>c\<in>set cs. \<not> keep c \<longrightarrow> snd c = Inr None"
  shows "search_candidates H matcher opts explicit po (filter keep cs) had s = search_candidates H matcher opts explicit po cs had s"
  using assms
proof (induction cs arbitrary: had s)
  case (Cons c cs)
  obtain rel read v e where c: "c = (rel, read)" "s = (v, e)" by (cases c; cases s)
  show ?case
  proof (cases "keep c")
    case True
    then show ?thesis using Cons by (simp add: c split: sum.split option.split prod.split bool.split)
  next
    case False
    then show ?thesis using Cons by (simp add: c)
  qed
qed simp

lemma search_candidates_flag:
  assumes "\<forall>c\<in>set cs. \<not> isl (snd c)"
  shows "snd (fst (search_candidates H matcher opts explicit po cs had s)) = snd s"
  using assms
proof (induction cs arbitrary: had s)
  case (Cons c cs)
  obtain rel read v e where c: "c = (rel, read)" "s = (v, e)" by (cases c; cases s)
  show ?case using Cons by (auto simp: c isl_def split: sum.split option.split prod.split bool.split)
qed simp


section \<open>The candidates of the plan\<close>

lemma map_filter_conv: "List.map_filter f xs = concat (map (\<lambda>x. case f x of Some y \<Rightarrow> [y] | None \<Rightarrow> []) xs)"
  by (induction xs) (simp_all add: List.map_filter_def split: option.split)

lemma map_filter_filter:
  assumes "\<And>x. x \<in> set xs \<Longrightarrow> \<not> P x \<Longrightarrow> f x = None"
  shows "List.map_filter f (filter P xs) = List.map_filter f xs"
  using assms by (induction xs) (auto simp: map_filter_conv split: option.split)

lemma map_filter_keep:
  assumes "\<And>x y. x \<in> set xs \<Longrightarrow> f x = Some y \<Longrightarrow> P x = Q y"
  shows "List.map_filter f (filter P xs) = filter Q (List.map_filter f xs)"
  using assms by (induction xs) (auto simp: map_filter_conv split: option.split)

lemma all_ids_ascending: "length (reader_paths R) < 2 ^ 32 \<Longrightarrow> ascending (reader_all_file_ids R)"
  by (auto simp: reader_all_file_ids_def sorted_wrt_map sorted_wrt_iff_nth_less word_less_nat_alt unat_of_nat)

lemma set_all_ids:
  assumes "length (reader_paths R) < 2 ^ 32"
  shows "set (reader_all_file_ids R) = {fid. reader_file_path R fid \<noteq> None}"
proof -
  have n: "unat (of_nat (length (reader_paths R)) :: u32) = length (reader_paths R)" using assms by (simp add: unat_of_nat)
  have "fid \<in> of_nat ` {0..<length (reader_paths R)} \<longleftrightarrow> unat fid < length (reader_paths R)" for fid :: u32
    using assms by (auto simp: unat_of_nat intro!: image_eqI [of _ _ "unat fid"])
  then show ?thesis by (auto simp: reader_all_file_ids_def n reader_file_path_def)
qed

lemma all_ids_paths:
  assumes "length (reader_paths R) < 2 ^ 32"
  shows "List.map_filter (\<lambda>fid. Option.bind (reader_file_path R fid) g) (reader_all_file_ids R) = List.map_filter g (reader_paths R)"
proof -
  have n: "unat (of_nat i :: u32) = i" if "i \<le> length (reader_paths R)" for i using assms that by (simp add: unat_of_nat)
  have "map (\<lambda>i. case Option.bind (reader_file_path R (of_nat i)) g of Some y \<Rightarrow> [y] | None \<Rightarrow> []) [0..<length (reader_paths R)] =
      map (\<lambda>p. case g p of Some y \<Rightarrow> [y] | None \<Rightarrow> []) (reader_paths R)"
    by (rule nth_equalityI) (simp_all add: reader_file_path_def n)
  then show ?thesis by (simp add: map_filter_conv reader_all_file_ids_def n comp_def)
qed

lemma plan_ids_listed:
  assumes "length (reader_paths R) < 2 ^ 32" "narrows plan"
  shows "filter (\<lambda>fid. reader_file_path R fid \<noteq> None) (execute_plan_with_masks plan (reader_lookup_trigram_with_masks R)) =
    filter (\<lambda>fid. plan_accepts (reader_table R fid) plan) (reader_all_file_ids R)"
proof (rule strict_sorted_equal [symmetric])
  show "ascending (filter (\<lambda>fid. reader_file_path R fid \<noteq> None) (execute_plan_with_masks plan (reader_lookup_trigram_with_masks R)))"
    using execute_plan_with_masks_hits by (intro sorted_wrt_filter) blast
  show "ascending (filter (\<lambda>fid. plan_accepts (reader_table R fid) plan) (reader_all_file_ids R))"
    by (intro sorted_wrt_filter all_ids_ascending assms(1))
  show "set (filter (\<lambda>fid. plan_accepts (reader_table R fid) plan) (reader_all_file_ids R)) =
      set (filter (\<lambda>fid. reader_file_path R fid \<noteq> None) (execute_plan_with_masks plan (reader_lookup_trigram_with_masks R)))"
    using reader_postings.candidates_exact [OF assms(2)] set_all_ids [OF assms(1)] by auto
qed

text \<open>The paths behind the candidates are the listed ones whose tables the plan accepts.\<close>

lemma candidate_paths:
  assumes "length (reader_paths R) < 2 ^ 32" "well_formed_plan plan"
    and "\<forall>i<length (reader_paths R). \<forall>rel. g (reader_paths R ! i) = Some rel \<longrightarrow> reader_table R (of_nat i) = tab rel"
  shows "List.map_filter (\<lambda>fid. Option.bind (reader_file_path R fid) g) (candidate_ids R plan opts) =
    filter (\<lambda>rel. so_files_without_match opts \<or> so_invert_match opts \<or> so_include_zero opts \<or> plan_accepts (tab rel) plan)
      (List.map_filter g (reader_paths R))"
proof (cases "plan = MatchAll \<or> so_files_without_match opts \<or> so_invert_match opts \<or> so_include_zero opts")
  case True
  then have "candidate_ids R plan opts = reader_all_file_ids R" by (auto simp: candidate_ids_def is_match_all_def)
  then show ?thesis using all_ids_paths [OF assms(1), of g] True by auto
next
  case False
  then have narrows: "narrows plan" using assms(2) by (simp add: well_formed_plan_def)
  let ?f = "\<lambda>fid. Option.bind (reader_file_path R fid) g"
  let ?ids = "execute_plan_with_masks plan (reader_lookup_trigram_with_masks R)"
  have "candidate_ids R plan opts = ?ids" using False by (cases plan) (simp_all add: candidate_ids_def is_match_all_def)
  moreover have "List.map_filter ?f ?ids = List.map_filter ?f (filter (\<lambda>fid. reader_file_path R fid \<noteq> None) ?ids)"
    by (rule map_filter_filter [symmetric]) simp
  moreover have "List.map_filter ?f (filter (\<lambda>fid. plan_accepts (reader_table R fid) plan) (reader_all_file_ids R)) =
      filter (\<lambda>rel. plan_accepts (tab rel) plan) (List.map_filter ?f (reader_all_file_ids R))"
  proof (rule map_filter_keep)
    fix fid rel
    assume "fid \<in> set (reader_all_file_ids R)" "?f fid = Some rel"
    then have fid: "unat fid < length (reader_paths R)" "g (reader_paths R ! unat fid) = Some rel"
      by (auto simp: bind_eq_Some_conv reader_file_path_def split: if_splits)
    then have "reader_table R (of_nat (unat fid)) = tab rel" using assms(3) by blast
    then show "plan_accepts (reader_table R fid) plan = plan_accepts (tab rel) plan" by simp
  qed
  ultimately show ?thesis using False unfolding plan_ids_listed [OF assms(1) narrows] all_ids_paths [OF assms(1)] by simp
qed


section \<open>What the index leaves out\<close>

lemma slice_within: "xs = take (min a b) xs @ slice xs a b @ drop b xs"
proof (cases "a \<le> b")
  case True
  then have "take (min a b) xs @ slice xs a b = take b xs"
    using append_take_drop_id [of a "take b xs"] by (simp add: slice_def min_def)
  then show ?thesis by (metis append_assoc append_take_drop_id)
qed (simp add: slice_def min_def)

lemma unmatched_silent:
  assumes "finds_all (h_memchr_iter H)" "leftmost_engine re starts" "pattern_is_anchor_free (re_as_str re) \<longrightarrow> line_local starts"
    and "\<not> so_json opts" "\<not> so_invert_match opts" "\<not> reports_unmatched opts"
    and "\<And>pre hay post. file_text_as_str (fr_text r) = pre @ hay @ post \<Longrightarrow> starts hay = {}"
  shows "silent H (Standard re dot_all) opts explicit (rel, Inr (Some r))"
proof -
  let ?content = "file_text_as_str (fr_text r)"
  let ?I = "line_index_new (h_memchr_iter H) ?content"
  let ?mo = "match_options_of (h_tty H) opts"
  have mo: "\<not> invert_match ?mo" "\<not> report_replacements ?mo"
    using assms(4,5) by (simp_all add: match_options_of_def wants_replacements_reported_def)
  have "\<exists>found. find_in_file (h_memchr_iter H) (h_parse H) ?content (Standard re dot_all) ?mo = Inr found \<and> fm_is_empty found"
  proof (cases "multiline ?mo")
    case True
    have "starts ?content = {}" using assms(7) [of "[]" ?content "[]"] by simp
    then show ?thesis by (rule nothing_multiline [OF assms(2) _ True mo])
  next
    case False
    have "starts (line_text ?I li) = {}" for li
    proof (rule assms(7))
      show "?content = take (min (line_start ?I li) (line_end ?I li)) ?content @ line_text ?I li @ drop (line_end ?I li) ?content"
        using slice_within [of ?content "line_start ?I li" "line_end ?I li"] line_index_new_wf(2) [OF assms(1), of ?content]
        by (simp only: line_text_def)
    qed
    then show ?thesis by (intro nothing_by_line [OF assms(1-3) mo _ False]) simp
  qed
  then obtain found where "find_in_file (h_memchr_iter H) (h_parse H) ?content (Standard re dot_all) ?mo = Inr found" "fm_is_empty found"
    by blast
  then have "\<exists>v. search_file H r (Standard re dot_all) rel opts explicit w = (v, Inr False) \<and> same_text v w" if "\<not> is_json w" for w
    by (rule unmatched_file [OF _ _ assms(6) that])
  then show ?thesis by (simp add: silent_def)
qed

lemma binary_silent:
  assumes "fr_first_nul r \<noteq> None" "\<not> so_text opts" "\<not> so_binary opts"
  shows "silent H matcher opts False (rel, Inr (Some r))"
proof -
  have "binary_offset_of opts r \<noteq> None" using assms(1,2) by (simp add: binary_offset_of_def)
  then have "search_file H r matcher rel opts False w = (w, Inr False)" for w by (rule skipped_file) (use assms(3) in simp_all)
  then show ?thesis by (simp add: silent_def same_text_def)
qed

text \<open>Every engine of the patterns: it matches only where one of them does.\<close>

definition engine_of ::
  "(hir \<Rightarrow> byte list \<Rightarrow> bool) \<Rightarrow> 'e search_tree \<Rightarrow> byte list list \<Rightarrow> bool \<Rightarrow> bool \<Rightarrow> (byte list \<Rightarrow> nat set) \<Rightarrow> bool"
where
  "engine_of accepts T patterns fixed ci starts \<longleftrightarrow> (\<forall>hay. starts hay \<noteq> {} \<longrightarrow> (\<exists>pat\<in>set patterns. \<exists>pre s post.
     hay = pre @ s @ post \<and> pattern_matches accepts (t_parse T) (t_escape T) id fixed ci pat s))"

text \<open>A text without the trigrams of the plan matches nowhere.\<close>

lemma unsatisfied_matches_nowhere:
  assumes "hir_semantics accepts" "all_patterns (t_read_lines T) opts = Inr patterns"
    and "engine_of accepts T patterns (so_fixed_string opts) ci starts"
    and "search_plan T (Standard re dot_all) ci opts = Inr plan" "\<not> plan_satisfied (extract_merged_masks content) plan"
    and "content = pre @ hay @ post"
  shows "starts hay = {}"
proof (rule ccontr)
  assume "starts hay \<noteq> {}"
  then obtain pat a s b where pat: "pat \<in> set patterns" "hay = a @ s @ b"
    "pattern_matches accepts (t_parse T) (t_escape T) id (so_fixed_string opts) ci pat s"
    using assms(3) unfolding engine_of_def by blast
  have "plan \<noteq> MatchAll" using assms(5) by auto
  then have plan: "build_multi_pattern_plan (t_parse T) (t_escape T) id patterns (so_fixed_string opts) ci = Inr plan"
    using assms(4) by (auto simp: search_plan_def assms(2) is_standard_def split: if_splits)
  have "content = (pre @ a) @ s @ (b @ post)" using assms(6) pat(2) by simp
  from build_multi_pattern_plan_satisfied [OF assms(1) plan pat(1,3) this] show False using assms(5) by blast
qed


section \<open>The index agrees with the walk\<close>

text \<open>The text of a file as it is searched without an explicit encoding.\<close>

definition decoded_text :: "'e search_tree \<Rightarrow> ('f \<Rightarrow> byte list) \<Rightarrow> 'f \<Rightarrow> byte list" where
  "decoded_text T content f = fst (decode_with_fixups (t_encodings T) (content f) Auto)"

definition too_large :: "'e search_options \<Rightarrow> byte list \<Rightarrow> bool" where
  "too_large opts bytes = (case so_max_filesize opts of Some limit \<Rightarrow> limit < length bytes | None \<Rightarrow> False)"

text \<open>A file that either can be read both ways and does not change, or can be opened neither way.\<close>

definition read_agrees ::
  "'e search_tree \<Rightarrow> 'e search_options \<Rightarrow> (path \<Rightarrow> io_error + io_error open_file) \<Rightarrow> bool \<Rightarrow> byte list \<Rightarrow> path \<Rightarrow> bool"
where
  "read_agrees T opts rooted fails bytes rel \<longleftrightarrow>
     (if fails then (\<exists>e. t_open T (child_path (t_root T) rel) = Inl e) \<and> (\<exists>e. rooted rel = Inl e) \<and> \<not> too_large opts bytes
      else length bytes < 2 ^ 64 - 1 \<and> (\<exists>f. t_open T (child_path (t_root T) rel) = Inr f \<and> still_file bytes f) \<and>
        (\<exists>f. rooted rel = Inr f \<and> still_file bytes f))"

text \<open>What the two searches are to look at, by paths from the directory searched: the files of the walk,
  and those of the index, which lists a readable file if it is text and then holds the table of its text.\<close>

definition walk_lists :: "'e search_options \<Rightarrow> (path \<Rightarrow> glob_decision) \<Rightarrow> (path \<Rightarrow> byte list) \<Rightarrow> path list \<Rightarrow> path list \<Rightarrow> bool" where
  "walk_lists opts globs content rels walked \<longleftrightarrow>
     (let wanted = filter (\<lambda>rel. globs rel \<noteq> GlobExclude \<and> \<not> too_large opts (content rel)) rels
      in mset walked = mset wanted \<and> (so_sort opts = None \<longrightarrow> walked = wanted))"

definition index_lists ::
  "'e search_tree \<Rightarrow> 'e search_options \<Rightarrow> index_reader \<Rightarrow> path_visibility \<Rightarrow> index_scope \<Rightarrow> (path \<Rightarrow> glob_decision) \<Rightarrow> (path \<Rightarrow> bool) \<Rightarrow>
   (path \<Rightarrow> byte list) \<Rightarrow> (path \<Rightarrow> bool) \<Rightarrow> (path \<Rightarrow> bool) \<Rightarrow> (path \<Rightarrow> u32 \<Rightarrow> trigram_masks option) \<Rightarrow> path list \<Rightarrow> bool"
where
  "index_lists T opts R vis scope globs types content fails listed tab rels \<longleftrightarrow>
     (let entry = admitted T opts vis scope globs types
      in length (reader_paths R) < 2 ^ 32 \<and>
         List.map_filter entry (reader_paths R) = filter (\<lambda>rel. passes_filters rel globs types True \<and> listed rel) rels \<and>
         (\<forall>i<length (reader_paths R). \<forall>rel. entry (reader_paths R ! i) = Some rel \<longrightarrow> reader_table R (of_nat i) = tab rel) \<and>
         (\<forall>rel\<in>set rels. \<not> fails rel \<longrightarrow> listed rel = (\<not> is_binary (decoded_text T content rel)) \<and>
            tab rel = Mapping.lookup (extract_merged_masks (decoded_text T content rel))))"

text \<open>Both ways to a file give the time it is sorted by.\<close>

definition times_agree :: "'e search_tree \<Rightarrow> 'e search_options \<Rightarrow> index_scope \<Rightarrow> path list \<Rightarrow> bool" where
  "times_agree T opts scope rels \<longleftrightarrow> (\<forall>mode. so_sort opts = Some mode \<longrightarrow> sm_key mode \<noteq> SortPath \<longrightarrow>
     (\<exists>time_of. t_rooted_times T = Inr time_of \<and>
        (\<forall>rel\<in>set rels. t_times T (sm_key mode) (child_path (t_root T) rel) = time_of (sm_key mode) (indexed_path scope rel))))"

definition sorted_rels :: "'e search_tree \<Rightarrow> 'e search_options \<Rightarrow> index_scope \<Rightarrow> path list \<Rightarrow> path list" where
  "sorted_rels T opts scope rels =
     (case so_sort opts of
        None \<Rightarrow> rels
      | Some mode \<Rightarrow>
          let sorted = sort_key (\<lambda>rel. (if sm_key mode = SortPath then None
                else projr (t_rooted_times T) (sm_key mode) (indexed_path scope rel), path_key rel)) rels
          in if sm_reverse mode then rev sorted else sorted)"

lemma set_sorted_rels [simp]: "set (sorted_rels T opts scope rels) = set rels"
  by (simp add: sorted_rels_def Let_def split: option.split)

lemma sorted_rels_filter:
  "mset xs = mset (filter P ys) \<Longrightarrow> (so_sort opts = None \<longrightarrow> xs = filter P ys) \<Longrightarrow>
   sorted_rels T opts scope xs = filter P (sorted_rels T opts scope ys)"
  using rev_filter_sort [of xs P ys "\<lambda>rel. if sm_key mode = SortPath then None
      else projr (t_rooted_times T) (sm_key mode) (indexed_path scope rel)" "sm_reverse mode" for mode]
  by (cases "so_sort opts") (simp_all add: sorted_rels_def)

lemma walk_sorted:
  assumes "times_agree T opts scope rels"
  shows "(case so_sort opts of Some mode \<Rightarrow> sort_apply mode (t_times T) (map (child_path (t_root T)) rels) | None \<Rightarrow> map (child_path (t_root T)) rels) =
    map (child_path (t_root T)) (sorted_rels T opts scope rels)"
proof (cases "so_sort opts")
  case None
  then show ?thesis by (simp add: sorted_rels_def)
next
  case (Some mode)
  have "\<forall>rel\<in>set rels. t_times T (sm_key mode) (child_path (t_root T) rel) =
      projr (t_rooted_times T) (sm_key mode) (indexed_path scope rel) \<or> sm_key mode = SortPath"
    using assms Some unfolding times_agree_def by force
  from sort_apply_child_path [where time_of = "t_times T" and mode = mode and base = "t_root T" and rels = rels
      and time = "\<lambda>rel. projr (t_rooted_times T) (sm_key mode) (indexed_path scope rel)", OF this] show ?thesis by (simp add: Some sorted_rels_def Let_def)
qed

lemma index_sorted:
  assumes "times_agree T opts scope rels"
  shows "(case so_sort opts of Some mode \<Rightarrow> sort_apply_indexed mode (t_rooted_times T) scope xs | None \<Rightarrow> Inr xs) =
    Inr (sorted_rels T opts scope xs)"
proof (cases "so_sort opts")
  case None
  then show ?thesis by (simp add: sorted_rels_def)
next
  case (Some mode)
  then have "sm_key mode \<noteq> SortPath \<longrightarrow> (\<exists>time_of. t_rooted_times T = Inr time_of)" using assms unfolding times_agree_def by blast
  then show ?thesis using Some by (auto simp: sorted_rels_def sort_apply_indexed_def Let_def)
qed

lemma display_utf8 [simp]: "valid_utf8 rel \<Longrightarrow> display_relative rel = rel"
  by (simp add: display_relative_def lossy_utf8_of_valid)


lemma map_displayed:
  assumes "\<forall>x\<in>set xs. shown (child x) = x"
  shows "map (\<lambda>p. (shown p, f p)) (filter (\<lambda>p. P (shown p)) (map child xs)) = map (\<lambda>x. (x, f (child x))) (filter P xs)"
  using assms by (induction xs) simp_all

lemma brute_force_candidates:
  assumes "\<not> t_is_file T" "t_walk T = Inr (map (child_path (t_root T)) rels)" "times_agree T opts scope rels"
    and "t_globs T = Inr globs" "t_types T = Inr types" "t_matcher T = Inr matcher" "\<forall>rel\<in>set rels. valid_utf8 rel"
  shows "brute_force_search H T opts run = flushed H (search_candidates H matcher opts False (\<lambda>e. False)
    (map (\<lambda>rel. (rel, read_text_lossy (h_memchr H) (t_encodings T) (t_open T (child_path (t_root T) rel)) (so_encoding opts) (so_max_filesize opts)))
      (filter (\<lambda>rel. passes_filters rel globs types True) (sorted_rels T opts scope rels))) False run)"
proof -
  let ?L = "sorted_rels T opts scope rels"
  let ?shown = "\<lambda>path. display_relative (case path_below (t_root T) path of Some rel \<Rightarrow> rel | None \<Rightarrow> path)"
  let ?read = "\<lambda>path. read_text_lossy (h_memchr H) (t_encodings T) (t_open T path) (so_encoding opts) (so_max_filesize opts)"
  have "brute_force_search H T opts run = flushed H (search_candidates H matcher opts False (\<lambda>e. False)
      (map (\<lambda>path. (?shown path, ?read path)) (filter (\<lambda>path. passes_filters (?shown path) globs types True) (map (child_path (t_root T)) ?L)))
      False run)"
    by (simp add: brute_force_search_def assms(1,2,4-6) walk_sorted [OF assms(3)] Let_def)
  moreover have "\<forall>rel\<in>set ?L. ?shown (child_path (t_root T) rel) = rel" using assms(7) by simp
  note map_displayed [where shown = ?shown and child = "child_path (t_root T)", OF this, of ?read "\<lambda>rel. passes_filters rel globs types True"]
  ultimately show ?thesis by (simp only:)
qed

lemma same_run_flushed:
  assumes "same_run (fst a) (fst b)" "snd a = snd b"
  shows "same_run (fst (flushed H a)) (fst (flushed H b)) \<and> snd (flushed H a) = snd (flushed H b)"
proof -
  obtain v e w e' r where ab: "a = ((v, e), r)" "b = ((w, e'), r)" "same_text v w" "e \<longrightarrow> e'"
    using assms by (cases a; cases b) (auto simp: same_run_def)
  then show ?thesis using same_text_simps(1,2) [OF ab(3)] by (cases r) (simp_all add: flushed_def writer_flush_def same_run_def)
qed

lemma flushed_flag: "snd (fst (flushed H a)) = snd (fst a)"
  by (simp add: flushed_def split: prod.split sum.split)

text \<open>Reading a file either way: an error both ways, nothing of a file over the limit, or the same text.\<close>

lemma agreeing_reads:
  assumes "finds_first (h_memchr H)" "so_encoding opts = Auto" "read_agrees T opts rooted (fails rel) (content rel) rel"
  defines "walk_read \<equiv> read_text_lossy (h_memchr H) (t_encodings T) (t_open T (child_path (t_root T) rel)) (so_encoding opts) (so_max_filesize opts)"
    and "index_read \<equiv> read_text_lossy (h_memchr H) (t_encodings T) (rooted rel) (so_encoding opts) (so_max_filesize opts)"
  shows "reads_alike index_read walk_read" "isl walk_read = fails rel" "isl index_read = fails rel"
    and "too_large opts (content rel) \<Longrightarrow> walk_read = Inr None"
    and "walk_read = Inr (Some r) \<Longrightarrow>
      file_text_as_str (fr_text r) = decoded_text T content rel \<and> fr_first_nul r = h_memchr H 0 (decoded_text T content rel)"
proof -
  have "reads_alike index_read walk_read \<and> isl walk_read = fails rel \<and> isl index_read = fails rel \<and>
    (too_large opts (content rel) \<longrightarrow> walk_read = Inr None) \<and> (walk_read = Inr (Some r) \<longrightarrow>
      file_text_as_str (fr_text r) = decoded_text T content rel \<and> fr_first_nul r = h_memchr H 0 (decoded_text T content rel))" for r
  proof (cases "fails rel")
    case True
    then show ?thesis using assms(3) by (auto simp: walk_read_def index_read_def read_agrees_def read_text_lossy_def)
  next
    case False
    then obtain f g where f: "t_open T (child_path (t_root T) rel) = Inr f" "still_file (content rel) f"
      and g: "rooted rel = Inr g" "still_file (content rel) g" and short: "length (content rel) < 2 ^ 64 - 1"
      using assms(3) unfolding read_agrees_def by auto
    note still = read_still_file [OF assms(1) f(2) short, of "t_encodings T" Auto "so_max_filesize opts"]
      read_still_file [OF assms(1) g(2) short, of "t_encodings T" Auto "so_max_filesize opts"]
    show ?thesis
    proof (cases "too_large opts (content rel)")
      case True
      then have "so_max_filesize opts \<noteq> None \<and> the (so_max_filesize opts) < length (content rel)"
        by (auto simp: too_large_def split: option.splits)
      then show ?thesis using still False by (simp add: walk_read_def index_read_def read_text_lossy_def f(1) g(1) assms(2))
    next
      case small: False
      then have "\<not> (so_max_filesize opts \<noteq> None \<and> the (so_max_filesize opts) < length (content rel))"
        by (auto simp: too_large_def)
      then show ?thesis using still False small
        by (auto simp: walk_read_def index_read_def read_text_lossy_def f(1) g(1) assms(2) decoded_text_def read_alike_def)
    qed
  qed
  then show "reads_alike index_read walk_read" "isl walk_read = fails rel" "isl index_read = fails rel"
    "too_large opts (content rel) \<Longrightarrow> walk_read = Inr None"
    "walk_read = Inr (Some r) \<Longrightarrow>
      file_text_as_str (fr_text r) = decoded_text T content rel \<and> fr_first_nul r = h_memchr H 0 (decoded_text T content rel)" by blast+
qed

text \<open>The candidates of the index: what it lists and the plan accepts.\<close>

definition kept_by_index ::
  "'e search_options \<Rightarrow> query_plan \<Rightarrow> (path \<Rightarrow> bool) \<Rightarrow> (path \<Rightarrow> u32 \<Rightarrow> trigram_masks option) \<Rightarrow> path \<Rightarrow> bool"
where
  "kept_by_index opts plan listed tab rel \<longleftrightarrow> listed rel \<and>
     (so_files_without_match opts \<or> so_invert_match opts \<or> so_include_zero opts \<or> plan_accepts (tab rel) plan)"

text \<open>A readable file that the index leaves out leaves no trace.\<close>

lemma left_out_silent:
  assumes "finds_all (h_memchr_iter H)" "finds_first (h_memchr H)"
    and "leftmost_engine re starts" "pattern_is_anchor_free (re_as_str re) \<longrightarrow> line_local starts"
    and "hir_semantics accepts" "all_patterns (t_read_lines T) opts = Inr patterns"
    and "engine_of accepts T patterns (so_fixed_string opts) ci starts"
    and "search_plan T (Standard re dot_all) ci opts = Inr plan"
    and "\<not> so_json opts" "\<not> so_text opts" "\<not> so_binary opts"
    and "file_text_as_str (fr_text r) = decoded_text T content rel \<and> fr_first_nul r = h_memchr H 0 (decoded_text T content rel)"
    and "listed rel = (\<not> is_binary (decoded_text T content rel)) \<and> tab rel = Mapping.lookup (extract_merged_masks (decoded_text T content rel))"
    and "\<not> kept_by_index opts plan listed tab rel"
  shows "silent H (Standard re dot_all) opts False (rel, Inr (Some r))"
proof (cases "is_binary (decoded_text T content rel)")
  case True
  then have "0 \<in> set (decoded_text T content rel)" by (auto simp: is_binary_def dest: in_set_takeD)
  moreover have "case h_memchr H 0 (decoded_text T content rel) of None \<Rightarrow> 0 \<notin> set (decoded_text T content rel)
      | Some n \<Rightarrow> n < length (decoded_text T content rel) \<and> decoded_text T content rel ! n = 0 \<and> 0 \<notin> set (take n (decoded_text T content rel))"
    using assms(2) unfolding finds_first_def by blast
  ultimately have "fr_first_nul r \<noteq> None" by (cases "h_memchr H 0 (decoded_text T content rel)") (simp_all add: assms(12))
  then show ?thesis by (rule binary_silent [OF _ assms(10,11)])
next
  case False
  then have plan: "\<not> plan_satisfied (extract_merged_masks (decoded_text T content rel)) plan" "\<not> so_invert_match opts"
    and quiet: "\<not> so_files_without_match opts" "\<not> so_include_zero opts"
    using assms(13,14) by (auto simp: kept_by_index_def plan_satisfied_accepts)
  have "plan \<noteq> MatchAll" using plan(1) by auto
  then have "\<not> effective_passthru opts" using assms(8) by (auto simp: search_plan_def)
  then have "\<not> reports_unmatched opts" using quiet by (simp add: reports_unmatched_def)
  moreover have "starts hay = {}" if "file_text_as_str (fr_text r) = pre @ hay @ post" for pre hay post
    by (rule unsatisfied_matches_nowhere [OF assms(5-8) plan(1)]) (use that assms(12) in simp)
  ultimately show ?thesis by (intro unmatched_silent [OF assms(1,3,4,9) plan(2)])
qed

lemma search_plan_well_formed:
  assumes "search_plan T (Standard re dot_all) ci opts = Inr plan"
  shows "well_formed_plan plan"
proof (cases "plan = MatchAll")
  case False
  then obtain patterns where
    "build_multi_pattern_plan (t_parse T) (t_escape T) id patterns (so_fixed_string opts) ci = Inr plan"
    using assms by (cases "all_patterns (t_read_lines T) opts") (auto simp: search_plan_def is_standard_def split: if_splits)
  then show ?thesis by (rule build_multi_pattern_plan_well_formed)
qed (simp add: well_formed_plan_def)

text \<open>The walk searches the files within the limit, the index the listed ones whose tables the plan accepts, in one order.\<close>

lemma walk_candidates:
  assumes "walk_lists opts globs content rels walked"
  shows "filter (\<lambda>rel. passes_filters rel globs types True) (sorted_rels T opts scope walked) =
    filter (\<lambda>rel. \<not> too_large opts (content rel)) (filter (\<lambda>rel. passes_filters rel globs types True) (sorted_rels T opts scope rels))"
proof -
  have "sorted_rels T opts scope walked =
      filter (\<lambda>rel. globs rel \<noteq> GlobExclude \<and> \<not> too_large opts (content rel)) (sorted_rels T opts scope rels)"
    by (rule sorted_rels_filter) (use assms in \<open>simp_all add: walk_lists_def Let_def\<close>)
  moreover have "globs rel \<noteq> GlobExclude" if "passes_filters rel globs types True" for rel
    using that by (auto simp: passes_filters_def)
  ultimately show ?thesis by (auto intro: filter_cong)
qed

lemma index_candidates:
  assumes "index_lists T opts R vis scope globs types content fails listed tab rels" "well_formed_plan plan"
  shows "sorted_rels T opts scope (List.map_filter (\<lambda>fid. Option.bind (reader_file_path R fid) (admitted T opts vis scope globs types))
      (candidate_ids R plan opts)) =
    filter (kept_by_index opts plan listed tab) (filter (\<lambda>rel. passes_filters rel globs types True) (sorted_rels T opts scope rels))"
proof -
  let ?entry = "admitted T opts vis scope globs types"
  have index: "length (reader_paths R) < 2 ^ 32"
    "List.map_filter ?entry (reader_paths R) = filter (\<lambda>rel. passes_filters rel globs types True \<and> listed rel) rels"
    "\<forall>i<length (reader_paths R). \<forall>rel. ?entry (reader_paths R ! i) = Some rel \<longrightarrow> reader_table R (of_nat i) = tab rel"
    using assms(1) unfolding index_lists_def Let_def by blast+
  have paths: "List.map_filter (\<lambda>fid. Option.bind (reader_file_path R fid) ?entry) (candidate_ids R plan opts) =
      filter (\<lambda>rel. passes_filters rel globs types True \<and> kept_by_index opts plan listed tab rel) rels"
    unfolding candidate_paths [OF index(1) assms(2) index(3)] index(2) filter_filter
    by (rule filter_cong) (auto simp: kept_by_index_def)
  have "sorted_rels T opts scope (filter (\<lambda>rel. passes_filters rel globs types True \<and> kept_by_index opts plan listed tab rel) rels) =
      filter (\<lambda>rel. passes_filters rel globs types True \<and> kept_by_index opts plan listed tab rel) (sorted_rels T opts scope rels)"
    by (rule sorted_rels_filter) simp_all
  then show ?thesis unfolding paths by (simp add: conj_commute)
qed


lemma resolved_directory:
  assumes "resolve_scope T = Some (index_root, scope)" "\<not> t_is_file T"
  shows "(case scope of ScopeFile f \<Rightarrow> True | _ \<Rightarrow> False) = False"
  using assms by (auto simp: resolve_scope_def scope_resolve_def bind_eq_Some_conv split: sum.splits if_splits)

text \<open>Outcomes that agree: the bytes printed, what was found, and the flag as far as failed reads are seen at all.\<close>

definition agree :: "bool \<Rightarrow> run \<times> (string + bool) \<Rightarrow> run \<times> (string + bool) \<Rightarrow> bool" where
  "agree readable a b \<longleftrightarrow> stdout (fst (fst a)) = stdout (fst (fst b)) \<and> snd a = snd b \<and>
     (snd (fst a) \<longrightarrow> snd (fst b)) \<and> (readable \<longrightarrow> snd (fst a) = snd (fst b))"

lemma agree_refl: "agree readable a a"
  by (simp add: agree_def)

lemma agree_flushed:
  assumes "same_run (fst a) (fst b) \<and> snd a = snd b" "readable \<Longrightarrow> snd (fst a) = snd (fst b)"
  shows "agree readable (flushed H a) (flushed H b)"
proof -
  have "same_run (fst (flushed H a)) (fst (flushed H b))" "snd (flushed H a) = snd (flushed H b)"
    using same_run_flushed [of a b H] assms(1) by simp_all
  then show ?thesis using assms same_text_simps(3) unfolding agree_def same_run_def flushed_flag by blast
qed

text \<open>The two loops over the candidates.\<close>

lemma candidate_loops_agree:
  assumes engine: "finds_all (h_memchr_iter H)" "finds_first (h_memchr H)" "leftmost_engine re starts"
      "pattern_is_anchor_free (re_as_str re) \<longrightarrow> line_local starts"
    and patterns: "hir_semantics accepts" "all_patterns (t_read_lines T) opts = Inr patterns"
      "engine_of accepts T patterns (so_fixed_string opts) ci starts" "search_plan T (Standard re dot_all) ci opts = Inr plan"
    and format: "\<not> so_json opts" "\<not> is_json (fst run)" "so_encoding opts = Auto" "\<not> so_text opts" "\<not> so_binary opts"
    and reads: "\<forall>rel\<in>set rels. read_agrees T opts rooted (fails rel) (content rel) rel"
    and lists: "\<forall>rel\<in>set rels. \<not> fails rel \<longrightarrow> listed rel = (\<not> is_binary (decoded_text T content rel)) \<and>
      tab rel = Mapping.lookup (extract_merged_masks (decoded_text T content rel))"
  defines "walk_read \<equiv> \<lambda>rel. read_text_lossy (h_memchr H) (t_encodings T) (t_open T (child_path (t_root T) rel)) (so_encoding opts) (so_max_filesize opts)"
    and "index_read \<equiv> \<lambda>rel. read_text_lossy (h_memchr H) (t_encodings T) (rooted rel) (so_encoding opts) (so_max_filesize opts)"
  shows "agree (\<forall>rel\<in>set rels. \<not> fails rel)
    (flushed H (search_candidates H (Standard re dot_all) opts False po
      (map (\<lambda>rel. (rel, index_read rel)) (filter (kept_by_index opts plan listed tab) rels)) False run))
    (flushed H (search_candidates H (Standard re dot_all) opts False (\<lambda>e. False)
      (map (\<lambda>rel. (rel, walk_read rel)) (filter (\<lambda>rel. \<not> too_large opts (content rel)) rels)) False run))"
proof -
  let ?loop = "search_candidates H (Standard re dot_all) opts False"
  let ?all = "map (\<lambda>rel. (rel, walk_read rel)) rels" and ?kept = "kept_by_index opts plan listed tab"
  have read: "reads_alike (index_read rel) (walk_read rel)" "isl (walk_read rel) = fails rel" "isl (index_read rel) = fails rel"
      "too_large opts (content rel) \<Longrightarrow> walk_read rel = Inr None" "walk_read rel = Inr (Some r) \<Longrightarrow>
        file_text_as_str (fr_text r) = decoded_text T content rel \<and> fr_first_nul r = h_memchr H 0 (decoded_text T content rel)"
    if "rel \<in> set rels" for rel r
    using agreeing_reads [where rel = rel and fails = fails and content = content, OF engine(2) format(3) bspec [OF reads that]]
    unfolding walk_read_def index_read_def by blast+
  have small: "map (\<lambda>rel. (rel, walk_read rel)) (filter (\<lambda>rel. \<not> too_large opts (content rel)) rels) =
      filter (\<lambda>c. \<not> too_large opts (content (fst c))) ?all"
    by (simp add: filter_map comp_def)
  have "?loop (\<lambda>e. False) (filter (\<lambda>c. \<not> too_large opts (content (fst c))) ?all) False run = ?loop (\<lambda>e. False) ?all False run"
    by (rule search_candidates_unread) (use read(4) in auto)
  note walk = this [folded small]
  have kept: "map (\<lambda>rel. (rel, index_read rel)) (filter ?kept rels) =
      map (\<lambda>c. (fst c, index_read (fst c))) (filter (\<lambda>c. ?kept (fst c)) ?all)"
    by (simp add: filter_map comp_def)
  have "if ?kept (fst c) then reads_alike (index_read (fst c)) (snd c) else silent H (Standard re dot_all) opts False c \<or> isl (snd c)"
    if mem: "c \<in> set ?all" for c
  proof -
    obtain rel where rel: "c = (rel, walk_read rel)" "rel \<in> set rels" using mem by auto
    have "silent H (Standard re dot_all) opts False c" if "\<not> ?kept rel" "\<not> isl (walk_read rel)"
    proof (cases "walk_read rel")
      case (Inr r)
      show ?thesis
      proof (cases r)
        case (Some r)
        have "\<not> fails rel" using that(2) read(2) [OF rel(2)] by simp
        with lists rel(2) have listed: "listed rel = (\<not> is_binary (decoded_text T content rel)) \<and>
            tab rel = Mapping.lookup (extract_merged_masks (decoded_text T content rel))" by blast
        have "walk_read rel = Inr (Some r)" using Inr Some by simp
        from left_out_silent [OF engine(1-4) patterns format(1,4,5) read(5) [OF rel(2) this] listed that(1)]
        show ?thesis using \<open>walk_read rel = Inr (Some r)\<close> by (simp only: rel(1))
      qed (simp add: rel(1) Inr silent_def)
    qed (use that(2) in simp)
    then show ?thesis using rel read(1) by auto
  qed
  moreover have "same_run run run" using format(2) by (cases run) (simp add: same_run_def same_text_def)
  ultimately have same: "same_run (fst (?loop po (map (\<lambda>rel. (rel, index_read rel)) (filter ?kept rels)) False run)) (fst (?loop (\<lambda>e. False) ?all False run)) \<and>
      snd (?loop po (map (\<lambda>rel. (rel, index_read rel)) (filter ?kept rels)) False run) = snd (?loop (\<lambda>e. False) ?all False run)"
    unfolding kept by (intro search_candidates_simulated) blast+
  have flags: "snd (fst (?loop po (map (\<lambda>rel. (rel, index_read rel)) (filter ?kept rels)) False run)) = snd run"
    "snd (fst (?loop (\<lambda>e. False) ?all False run)) = snd run" if "\<forall>rel\<in>set rels. \<not> fails rel"
  proof -
    show "snd (fst (?loop po (map (\<lambda>rel. (rel, index_read rel)) (filter ?kept rels)) False run)) = snd run"
      by (rule search_candidates_flag) (use that read(3) in auto)
    show "snd (fst (?loop (\<lambda>e. False) ?all False run)) = snd run"
      by (rule search_candidates_flag) (use that read(2) in auto)
  qed
  show ?thesis unfolding walk using same flags by (intro agree_flushed) auto
qed

lemma search_local_index_agrees:
  assumes engine: "finds_all (h_memchr_iter H)" "finds_first (h_memchr H)" "t_matcher T = Inr (Standard re dot_all)"
      "leftmost_engine re starts" "pattern_is_anchor_free (re_as_str re) \<longrightarrow> line_local starts"
    and patterns: "hir_semantics accepts" "all_patterns (t_read_lines T) opts = Inr patterns"
      "engine_of accepts T patterns (so_fixed_string opts) ci starts" "search_plan T (Standard re dot_all) ci opts = Inr plan"
    and index: "reader_open (t_index T) = Inr R" "read_filename_index (t_from_json T) (t_sidecar T) = Inr (Some names)"
      "fi_visibility names = Some fv" "resolve_scope T = Some (index_root, scope)"
    and tree: "t_globs T = Inr globs" "t_types T = Inr types" "t_walk T = Inr (map (child_path (t_root T)) walked)" "t_rooted T = Inr rooted"
    and current: "walk_lists opts globs content rels walked" "times_agree T opts scope rels" "\<forall>rel\<in>set rels. valid_utf8 rel"
      "index_lists T opts R (fv_paths fv) scope globs types content fails listed tab rels"
      "\<forall>rel\<in>set rels. read_agrees T opts rooted (fails rel) (content rel) rel"
    and format: "\<not> so_json opts" "\<not> is_json (fst run)" "so_encoding opts = Auto" "\<not> so_text opts" "\<not> so_binary opts" "\<not> t_is_file T"
  shows "agree (\<forall>rel\<in>set rels. \<not> fails rel) (search_local_index H T opts ci run) (brute_force_search H T opts run)"
proof (cases "\<exists>meta. t_meta T = Inr meta \<and> complete meta \<and> hidden_complete meta \<and> version meta = INDEX_FORMAT_VERSION \<and>
    covers_index fv meta (t_table_digest T (the (t_index T (layout_files Legacy))))")
  case False
  then have "search_local_index H T opts ci run = brute_force_search H T opts run"
    by (auto simp: search_local_index_def index split: sum.split)
  then show ?thesis by (simp add: agree_refl)
next
  case True
  then obtain meta where meta: "t_meta T = Inr meta" "complete meta" "hidden_complete meta" "version meta = INDEX_FORMAT_VERSION"
    "covers_index fv meta (t_table_digest T (the (t_index T (layout_files Legacy))))" by blast
  let ?M = "Standard re dot_all"
  let ?read = "\<lambda>opened. read_text_lossy (h_memchr H) (t_encodings T) opened (so_encoding opts) (so_max_filesize opts)"
  let ?L = "filter (\<lambda>rel. passes_filters rel globs types True) (sorted_rels T opts scope rels)"
  have "set walked \<subseteq> set rels"
    using mset_eq_setD [of walked "filter (\<lambda>rel. globs rel \<noteq> GlobExclude \<and> \<not> too_large opts (content rel)) rels"] current(1)
    by (auto simp: walk_lists_def Let_def)
  then have "times_agree T opts scope walked" "\<forall>rel\<in>set walked. valid_utf8 rel"
    using current(2,3) unfolding times_agree_def by blast+
  from brute_force_candidates [OF format(6) tree(3) this(1) tree(1,2) engine(3) this(2)]
  have brute: "brute_force_search H T opts run = flushed H (search_candidates H ?M opts False (\<lambda>e. False)
      (map (\<lambda>rel. (rel, ?read (t_open T (child_path (t_root T) rel)))) (filter (\<lambda>rel. \<not> too_large opts (content rel)) ?L)) False run)"
    unfolding walk_candidates [OF current(1)] .
  have rels: "sorted_rels T opts scope (List.map_filter (\<lambda>fid. Option.bind (reader_file_path R fid)
      (admitted T opts (fv_paths fv) scope globs types)) (candidate_ids R plan opts)) = filter (kept_by_index opts plan listed tab) ?L"
    by (rule index_candidates [OF current(4) search_plan_well_formed [OF patterns(4)]])
  have dir: "(case scope of ScopeFile f \<Rightarrow> True | _ \<Rightarrow> False) = False" by (rule resolved_directory [OF index(4) format(6)])
  have limit: "read_size_limit opts False = so_max_filesize opts" by (simp add: read_size_limit_def)
  have indexed: "search_local_index H T opts ci run = flushed H (search_candidates H ?M opts False is_skipped_indexed_read
      (map (\<lambda>rel. (rel, ?read (rooted rel))) (filter (kept_by_index opts plan listed tab) ?L)) False run)"
    by (simp add: search_local_index_def meta index tree(1,2,4) engine(3) patterns(4)
        index_sorted [OF current(2)] rels dir limit Let_def)
  have "agree (\<forall>rel\<in>set ?L. \<not> fails rel) (search_local_index H T opts ci run) (brute_force_search H T opts run)"
    unfolding brute indexed
    by (rule candidate_loops_agree [OF engine(1,2,4,5) patterns format(1-5)])
      (use current(4,5) in \<open>auto simp: index_lists_def Let_def\<close>)
  then show ?thesis by (auto simp: agree_def)
qed


section \<open>The tree that both searches see\<close>

text \<open>
  The files of the tree, those that ignore rules leave out, the names that are hidden, and the bytes of each file.  The
  index lists the readable files that are text and not ignored, with the tables of their texts, and records the hidden names.
\<close>

definition index_of_tree ::
  "'e search_tree \<Rightarrow> index_reader \<Rightarrow> path_visibility \<Rightarrow> byte list list list \<Rightarrow> (byte list list \<Rightarrow> bool) \<Rightarrow> (byte list list \<Rightarrow> bool) \<Rightarrow>
   (byte list list \<Rightarrow> byte list) \<Rightarrow> (byte list list \<Rightarrow> bool) \<Rightarrow> bool"
where
  "index_of_tree T R vis files ign hid content fails \<longleftrightarrow> length (reader_paths R) < 2 ^ 32 \<and>
     (\<exists>listed tab. reader_paths R = map joined (filter (\<lambda>f. \<not> ign f \<and> listed f) files) \<and>
        (\<forall>i<length (reader_paths R). reader_table R (of_nat i) = tab (filter (\<lambda>f. \<not> ign f \<and> listed f) files ! i)) \<and>
        (\<forall>f\<in>set files. \<not> fails f \<longrightarrow> listed f = (\<not> is_binary (decoded_text T content f)) \<and>
           tab f = Mapping.lookup (extract_merged_masks (decoded_text T content f)))) \<and>
     (\<forall>f\<in>set files. \<not> ign f \<longrightarrow> (\<forall>k\<in>{1..length f}. records_hidden vis (joined (take k f)) = hid (take k f)))"

text \<open>
  The walk of a directory visits the files in view that are not ignored, that no glob excludes and that are within the
  limit; the order matters where the results are not sorted.
\<close>

definition walk_of_tree ::
  "'e search_tree \<Rightarrow> 'e search_options \<Rightarrow> (path \<Rightarrow> glob_decision) \<Rightarrow> byte list list list \<Rightarrow> (byte list list \<Rightarrow> bool) \<Rightarrow>
   (byte list list \<Rightarrow> bool) \<Rightarrow> (byte list list \<Rightarrow> byte list) \<Rightarrow> byte list list \<Rightarrow> bool"
where
  "walk_of_tree T opts globs files ign hid content dir \<longleftrightarrow>
     (\<exists>walked. t_walk T = Inr (map (\<lambda>f. child_path (t_root T) (seen_as dir f)) walked) \<and>
        (let wanted = filter (\<lambda>f. \<not> ign f \<and> in_view opts hid dir f \<and> globs (seen_as dir f) \<noteq> GlobExclude \<and>
           \<not> too_large opts (content f)) files
         in mset walked = mset wanted \<and> (so_sort opts = None \<longrightarrow> walked = wanted)))"

text \<open>
  The options under which the walk follows the rules the index was built by.  Searches in the index do not apply
  \<^verbatim>\<open>--follow\<close>, \<^verbatim>\<open>--one-file-system\<close>, \<^verbatim>\<open>--ignore-file\<close> and its
  case, and positive globs do not bring back ignored or hidden files; \<^verbatim>\<open>--no-require-git\<close> is to be
  as when the index was built, here not given.
\<close>

definition rules_of_index ::
  "'e search_options \<Rightarrow> (path \<Rightarrow> glob_decision) \<Rightarrow> byte list list list \<Rightarrow> (byte list list \<Rightarrow> bool) \<Rightarrow> (byte list list \<Rightarrow> bool) \<Rightarrow>
   byte list list \<Rightarrow> bool"
where
  "rules_of_index opts globs files ign hid dir \<longleftrightarrow>
     \<not> so_follow opts \<and> \<not> so_one_file_system opts \<and> so_ignore_files opts = [] \<and> \<not> so_ignore_file_case_insensitive opts \<and>
     \<not> so_no_require_git opts \<and>
     (\<forall>f\<in>set files. below dir f \<and> globs (seen_as dir f) = GlobInclude \<longrightarrow> \<not> ign f \<and> (so_hidden opts \<or> uncovered hid dir f))"

lemma seen_back:
  assumes "named f" "below dir f"
  shows "dir @ split_on 0x2F (seen_as dir f) = f"
proof -
  have "drop (length dir) f \<noteq> []" "take (length dir) f = dir" using assms(2) by (auto simp: below_def)
  then show ?thesis using split_on_joined [of "drop (length dir) f"] assms(1) by (metis append_take_drop_id named_drop seen_as_def)
qed

lemma resolved_scope:
  assumes "resolve_scope T = Some (index_root, scope)" "\<not> t_is_file T" "path_below index_root (t_root T) = Some (joined dir)" "named dir"
  shows "scope = scope_of dir"
proof -
  have "(joined dir = []) = (dir = [])" using assms(4) by (cases dir rule: joined.cases) auto
  moreover have "index_key (joined dir) = Some rel \<Longrightarrow> rel = joined dir" for rel by (simp add: index_key_Some)
  ultimately show ?thesis
    using assms(1-3) by (auto simp: resolve_scope_def scope_resolve_def scope_of_def pre_of_def bind_eq_Some_conv split: sum.splits if_splits)
qed

lemma map_filter_map:
  assumes "\<forall>x\<in>set xs. f (g x) = (if P x then Some (h x) else None)"
  shows "List.map_filter f (map g xs) = map h (filter P xs)"
  using assms by (induction xs) (simp_all add: map_filter_conv)

lemma tree_walk_lists:
  assumes "walk_of_tree T opts globs files ign hid content dir" "\<forall>f\<in>set files. named f"
  shows "\<exists>walked. t_walk T = Inr (map (child_path (t_root T)) walked) \<and>
    walk_lists opts globs (\<lambda>rel. content (dir @ split_on 0x2F rel))
      (map (seen_as dir) (filter (\<lambda>f. \<not> ign f \<and> in_view opts hid dir f) files)) walked"
proof -
  let ?wanted = "filter (\<lambda>f. \<not> ign f \<and> in_view opts hid dir f \<and> globs (seen_as dir f) \<noteq> GlobExclude \<and> \<not> too_large opts (content f)) files"
  obtain walked where w: "t_walk T = Inr (map (\<lambda>f. child_path (t_root T) (seen_as dir f)) walked)" "mset walked = mset ?wanted"
    "so_sort opts = None \<longrightarrow> walked = ?wanted"
    using assms(1) unfolding walk_of_tree_def Let_def by (elim exE conjE) (rule that)
  have "dir @ split_on 0x2F (seen_as dir f) = f" if "f \<in> set files" "in_view opts hid dir f" for f
    using that assms(2) by (intro seen_back) (auto simp: in_view_def)
  then have "filter (\<lambda>rel. globs rel \<noteq> GlobExclude \<and> \<not> too_large opts (content (dir @ split_on 0x2F rel)))
      (map (seen_as dir) (filter (\<lambda>f. \<not> ign f \<and> in_view opts hid dir f) files)) = map (seen_as dir) ?wanted"
    by (auto simp: filter_map comp_def intro!: arg_cong [where f = "map (seen_as dir)"] filter_cong)
  then have "walk_lists opts globs (\<lambda>rel. content (dir @ split_on 0x2F rel))
      (map (seen_as dir) (filter (\<lambda>f. \<not> ign f \<and> in_view opts hid dir f) files)) (map (seen_as dir) walked)"
    using w(2,3) by (simp add: walk_lists_def)
  then show ?thesis using w(1) by (intro exI [of _ "map (seen_as dir) walked"]) (simp add: comp_def)
qed

lemma tree_index_lists:
  assumes "index_of_tree T R vis files ign hid content fails" "\<forall>f\<in>set files. f \<noteq> [] \<and> named f" "named dir"
  shows "\<exists>listed tab. index_lists T opts R vis (scope_of dir) globs types (\<lambda>rel. content (dir @ split_on 0x2F rel))
    (\<lambda>rel. fails (dir @ split_on 0x2F rel)) listed tab (map (seen_as dir) (filter (\<lambda>f. \<not> ign f \<and> in_view opts hid dir f) files))"
proof -
  let ?V = "filter (\<lambda>f. \<not> ign f \<and> in_view opts hid dir f) files" and ?home = "\<lambda>rel. dir @ split_on 0x2F rel"
  from assms(1) obtain listed tab where few: "length (reader_paths R) < 2 ^ 32"
    and paths: "reader_paths R = map joined (filter (\<lambda>f. \<not> ign f \<and> listed f) files)"
    and tables: "\<forall>i<length (reader_paths R). reader_table R (of_nat i) = tab (filter (\<lambda>f. \<not> ign f \<and> listed f) files ! i)"
    and texts: "\<forall>f\<in>set files. \<not> fails f \<longrightarrow> listed f = (\<not> is_binary (decoded_text T content f)) \<and>
      tab f = Mapping.lookup (extract_merged_masks (decoded_text T content f))"
    and hidden: "\<forall>f\<in>set files. \<not> ign f \<longrightarrow> (\<forall>k\<in>{1..length f}. records_hidden vis (joined (take k f)) = hid (take k f))"
    unfolding index_of_tree_def by (elim exE conjE) (rule that)
  let ?L = "filter (\<lambda>f. \<not> ign f \<and> listed f) files" and ?entry = "admitted T opts vis (scope_of dir) globs types"
  have entry: "?entry (joined f) = (if in_view opts hid dir f \<and> passes_filters (seen_as dir f) globs types True then Some (seen_as dir f) else None)"
    if "f \<in> set ?L" for f
    by (rule admitted_joined) (use that assms(2,3) hidden in auto)
  have home: "?home (seen_as dir f) = f" if "f \<in> set files" "in_view opts hid dir f" for f
    using that assms(2) by (intro seen_back) (auto simp: in_view_def)
  have "List.map_filter ?entry (reader_paths R) =
      map (seen_as dir) (filter (\<lambda>f. in_view opts hid dir f \<and> passes_filters (seen_as dir f) globs types True) ?L)"
    unfolding paths by (rule map_filter_map) (use entry in blast)
  also have "\<dots> = filter (\<lambda>rel. passes_filters rel globs types True \<and> listed (?home rel)) (map (seen_as dir) ?V)"
    using home by (auto simp: filter_map comp_def intro!: arg_cong [where f = "map (seen_as dir)"] filter_cong)
  finally have lists: "List.map_filter ?entry (reader_paths R) = \<dots>" .
  have "reader_table R (of_nat i) = tab (?home rel)" if i: "i < length (reader_paths R)" and rel: "?entry (reader_paths R ! i) = Some rel" for i rel
  proof -
    have short: "i < length ?L" using i unfolding paths by simp
    have f: "?L ! i \<in> set ?L" by (rule nth_mem [OF short])
    have "reader_paths R ! i = joined (?L ! i)" unfolding paths using short by simp
    then have "in_view opts hid dir (?L ! i)" "rel = seen_as dir (?L ! i)" using rel entry [OF f] by (auto split: if_splits)
    then show ?thesis using tables i home f by auto
  qed
  moreover have "listed (?home rel) = (\<not> is_binary (decoded_text T (\<lambda>rel. content (?home rel)) rel)) \<and>
      tab (?home rel) = Mapping.lookup (extract_merged_masks (decoded_text T (\<lambda>rel. content (?home rel)) rel))"
    if "rel \<in> set (map (seen_as dir) ?V)" "\<not> fails (?home rel)" for rel
    using that texts home by (auto simp: decoded_text_def)
  ultimately have "index_lists T opts R vis (scope_of dir) globs types (\<lambda>rel. content (?home rel)) (\<lambda>rel. fails (?home rel))
      (\<lambda>rel. listed (?home rel)) (\<lambda>rel. tab (?home rel)) (map (seen_as dir) ?V)"
    unfolding index_lists_def Let_def using few lists by blast
  then show ?thesis by blast
qed


section \<open>A search in a built index\<close>

text \<open>The tables of a built index are those of the texts.\<close>

lemma entry_for_file_entries:
  assumes "i < length xs" "n + length xs \<le> 2 ^ 32"
  shows "entry_for (of_nat (n + i)) (file_entries t n xs) =
    map_option (\<lambda>v. \<lparr>loc_mask = loc_mask v, next_mask = next_mask v, file_id = of_nat (n + i)\<rparr>) (Mapping.lookup (snd (xs ! i)) t)"
  using assms
proof (induction xs arbitrary: n i)
  case (Cons x xs)
  obtain p m where x: "x = (p, m)" by (cases x)
  have un: "unat (of_nat k :: u32) = k" if "k < 2 ^ 32" for k using that by (simp add: unat_of_nat)
  show ?case
  proof (cases i)
    case 0
    have "entry_for (of_nat n) (file_entries t (n + 1) xs) = None"
    proof (rule ccontr)
      assume "entry_for (of_nat n) (file_entries t (n + 1) xs) \<noteq> None"
      then obtain e where "file_id e = of_nat n" "e \<in> set (file_entries t (n + 1) xs)"
        using entry_for_file_id by fastforce
      then obtain j where "n + 1 \<le> j" "j < n + 1 + length xs" "(of_nat n :: u32) = of_nat j"
        using file_entries_ids [of e t "n + 1" xs] by metis
      then show False using un [of n] un [of j] Cons.prems(2) by simp
    qed
    then show ?thesis by (simp add: 0 x entry_for_def split: option.split)
  next
    case (Suc j)
    have "unat (of_nat (n + i) :: u32) = n + i" "unat (of_nat n :: u32) = n"
      by (rule un, use Cons.prems in simp)+
    then have "(of_nat (n + i) :: u32) \<noteq> of_nat n" by (metis Suc add_cancel_left_right nat.distinct(1))
    then have "entry_for (of_nat (n + i)) (file_entries t n (x # xs)) =
        entry_for (of_nat (n + 1 + j)) (file_entries t (n + 1) xs)"
      by (simp add: Suc x entry_for_def split: option.split)
    then show ?thesis using Cons.IH [of j "n + 1"] Cons.prems by (simp add: Suc)
  qed
qed simp

lemma built_tables:
  assumes "\<forall>t. reader_lookup_trigram_with_masks R t = file_entries t 0 texts" "length texts \<le> 2 ^ 32" "i < length texts"
  shows "reader_table R (of_nat i) = Mapping.lookup (snd (texts ! i))"
proof -
  have fields: "(\<lambda>v :: trigram_masks. \<lparr>loc_mask = loc_mask v, next_mask = next_mask v\<rparr>) = id" by (simp add: fun_eq_iff)
  show ?thesis
    using entry_for_file_entries [OF assms(3), of 0] assms(2)
    by (simp add: fun_eq_iff reader_table_def assms(1) option.map_comp comp_def fields option.map_id)
qed

text \<open>An engine for a literal: of its occurrences the leftmost that do not overlap.\<close>

fun apart :: "nat \<Rightarrow> nat option \<Rightarrow> nat list \<Rightarrow> span list" where
  "apart n prev [] = []"
| "apart n prev (p # ps) =
     (if (case prev of None \<Rightarrow> True | Some q \<Rightarrow> q \<le> p) then (p, p + n) # apart n (Some (p + n)) ps else apart n prev ps)"

definition occurrences :: "byte list \<Rightarrow> byte list \<Rightarrow> nat list" where
  "occurrences lit hay = filter (\<lambda>p. take (length lit) (drop p hay) = lit) [0..<length hay]"

definition literal_engine :: "byte list \<Rightarrow> std_regex" where
  "literal_engine lit =
     \<lparr>re_as_str = lit, re_is_match = (\<lambda>hay. occurrences lit hay \<noteq> []),
      re_find = (\<lambda>hay. case apart (length lit) None (occurrences lit hay) of [] \<Rightarrow> None | m # ms \<Rightarrow> Some m),
      re_find_iter = (\<lambda>hay. apart (length lit) None (occurrences lit hay)),
      re_captures_iter = (\<lambda>hay. map (\<lambda>m. (m, \<lambda>replacement. replacement)) (apart (length lit) None (occurrences lit hay)))\<rparr>"

lemma leftmost_apart:
  assumes "ascending ps" "set ps \<subseteq> S" "\<forall>p\<in>S. p \<in> set ps \<or> \<not> later prev p"
  shows "leftmost_spans S prev (apart n prev ps)"
  using assms
proof (induction ps arbitrary: prev)
  case (Cons p ps)
  show ?case
  proof (cases "case prev of None \<Rightarrow> True | Some q \<Rightarrow> q \<le> p")
    case True
    have "leftmost_spans S (Some (p + n)) (apart n (Some (p + n)) ps)"
    proof (rule Cons.IH)
      show "\<forall>q\<in>S. q \<in> set ps \<or> \<not> later (Some (p + n)) q"
        using Cons.prems(3) True by (fastforce simp: later_def split: option.splits)
    qed (use Cons.prems in auto)
    moreover have "p \<le> q" if "q \<in> S" "later prev q" for q
      using Cons.prems(1,3) that by fastforce
    ultimately show ?thesis using True Cons.prems(2) by simp
  next
    case False
    then have "leftmost_spans S prev (apart n prev ps)"
      using Cons.prems by (intro Cons.IH) (auto simp: later_def split: option.splits)
    then show ?thesis using False by simp
  qed
qed (auto)

lemma literal_engine_leftmost: "leftmost_engine (literal_engine lit) (\<lambda>hay. set (occurrences lit hay))"
proof -
  have "leftmost_spans (set (occurrences lit hay)) None (apart (length lit) None (occurrences lit hay))" for hay
    by (rule leftmost_apart) (auto simp: occurrences_def sorted_wrt_filter)
  then show ?thesis by (simp add: leftmost_engine_def literal_engine_def)
qed

lemma literal_engine_local:
  assumes "lit \<noteq> []"
  shows "line_local (\<lambda>hay. set (occurrences lit hay))"
proof -
  have "p + length lit \<le> length line" if "take (length lit) (drop p line) = lit" for p line
  proof -
    have "length lit \<le> length line - p" using that by (metis length_drop length_take min.cobounded1)
    then show ?thesis using assms by (cases lit) auto
  qed
  then show ?thesis using assms by (fastforce simp: line_local_def occurrences_def)
qed


text \<open>Two files of three bytes, of which a search for the first one's text reads only the first.\<close>

definition two_texts :: "nat \<Rightarrow> byte list" where
  "two_texts f = (if f = 0 then three_bytes else [0x78, 0x79, 0x7A])"

definition two_files :: "nat file_system" where
  "two_files = \<lparr>file_len = \<lambda>_. Some 3,
     file_opens = \<lambda>f _. Inr \<lparr>fh_version = Some three_version, fh_map = Inr (two_texts f), fh_bytes = Inr (two_texts f),
       fh_after = Some three_version\<rparr>,
     below_root = \<lambda>f. Some [if f = 0 then 0x61 else 0x62]\<rparr>"

lemma two_texts_facts:
  "length (two_texts f) = 3" "\<forall>b\<in>set (two_texts f). b < 0x80" "valid_utf8 (two_texts f)" "\<not> is_binary (two_texts f)"
  "decode_with_fixups demo_encodings (two_texts f) Auto = (two_texts f, no_fixups)"
  "cow_bytes (decode_for_index demo_encodings (two_texts f)) = two_texts f"
proof -
  show len: "length (two_texts f) = 3" and ascii: "\<forall>b\<in>set (two_texts f). b < 0x80" and "\<not> is_binary (two_texts f)"
    by (simp_all add: two_texts_def three_bytes_def is_binary_def)
  show valid: "valid_utf8 (two_texts f)" by (rule ascii_valid [OF ascii])
  have bytes: "decode_bytes demo_encodings (two_texts f) Auto = Borrowed (two_texts f)"
    by (simp add: decode_bytes_def decode_body_def demo_encodings_def two_texts_def three_bytes_def)
  then show "decode_with_fixups demo_encodings (two_texts f) Auto = (two_texts f, no_fixups)"
    by (simp add: decode_with_fixups_def lossy_utf8_of_valid [OF valid])
  show "cow_bytes (decode_for_index demo_encodings (two_texts f)) = two_texts f" by (simp add: decode_for_index_def bytes valid)
qed

lemma two_files_read:
  "text_files (files_read demo_encodings digest two_files [0, 1]) =
     [([0x61], extract_merged_masks (two_texts 0)), ([0x62], extract_merged_masks (two_texts 1))]"
proof -
  let ?name = "\<lambda>f :: nat. [if f = 0 then 0x61 else 0x62 :: byte]"
  have one: "index_one demo_encodings digest two_files (f, 3) =
      Some (Inr \<lparr>ef_path = ?name f, ef_trigrams = Some (extract_merged_masks (two_texts f)),
        ef_content_id = Some (content_id_of digest (two_texts f)), ef_version = Some three_version\<rparr>)" for f
  proof -
    let ?data = "\<lparr>ir_bytes = Read (two_texts f), ir_version = Some three_version, ir_after = Some three_version\<rparr>"
    have "fst (read_for_index (file_opens two_files f) 3 None) = Inr ?data"
      by (simp add: read_for_index_def read_owned_def open_read_def read_owned_for_index_def two_files_def two_texts_facts
          U64_MAX_def Batches.MMAP_MIN_BYTES_def)
    moreover have "verified_version ?data = Some three_version"
      by (simp add: verified_version_def two_texts_facts is_trusted_def three_version_def file_version_of_def file_stamp_of_def)
    moreover have "index_key (?name f) = Some (?name f)" by (simp add: index_key_def ascii_valid)
    ultimately show ?thesis
      by (simp add: index_one_def two_files_def extract_indexed_file_def is_mapped_def two_texts_facts Let_def)
  qed
  have "fst (batch_sizes_and_charges (map (file_len two_files) [0, 1])) = [3, 3]"
    by (simp add: batch_sizes_and_charges_def two_files_def)
  then show ?thesis by (simp add: files_read_def List.map_filter_def one)
qed

lemma two_texts_keys: "card (Mapping.keys (extract_merged_masks (two_texts f))) = 1"
proof -
  have lower: "map to_ascii_lowercase (two_texts f) = two_texts f"
    by (simp add: two_texts_def three_bytes_def to_ascii_lowercase_def is_ascii_uppercase_def)
  have "Mapping.keys (extract_merged_masks (two_texts f)) = {trigram_at (two_texts f) 0}"
    unfolding keys_extract_merged_masks covered_text_def lower by (auto simp: occurs_def two_texts_facts)
  then show ?thesis by simp
qed

lemma two_files_space:
  "check_build_disk_space_for_sizes (free_space demo_env)
     (fst (batch_sizes_and_charges (map (file_len two_files) [0, 1]))) (length [0, 1 :: nat]) External = Inr ()"
proof -
  have "check_disk_space (free_space demo_env) (6 * strategy_copies External) (Suc (Suc 0)) = Inr ()"
    by (rule demo_space) (simp_all add: strategy_copies_def)
  then show ?thesis
    by (simp add: check_build_disk_space_for_sizes_def batch_sizes_and_charges_def two_files_def sum_sizes_eq
        checked_disk_bytes_def u64_checked_def strategy_copies_def)
qed

text \<open>The directory of the two files, with the index at \<open>dir\<close>.\<close>

definition demo_opened :: "nat \<Rightarrow> io_error open_file" where
  "demo_opened f = \<lparr>of_len = Inr 3, of_map = (\<lambda>_. None), of_stream = (two_texts f, None), of_len_after = Inr 3\<rparr>"

definition demo_meta :: index_meta where
  "demo_meta = \<lparr>version = INDEX_FORMAT_VERSION, num_files = 2, num_trigrams = 2, created_at = 0, updated_at = 0,
     root_path = [0x2F], complete = True, hidden_complete = True, visibility = visibility_default, meta_table_id = Some []\<rparr>"

definition demo_tree :: "(string \<Rightarrow> byte list option) \<Rightarrow> nat search_tree" where
  "demo_tree dir =
     \<lparr>t_root = [0x2F], t_is_file = False, t_display = [], t_open = (\<lambda>p. Inr (demo_opened (if p = [0x2F, 0x61] then 0 else 1))),
      t_rooted = Inr (\<lambda>rel. Inr (demo_opened (if rel = [0x61] then 0 else 1))),
      t_walk = Inr [[0x2F, 0x61], [0x2F, 0x62]], t_times = (\<lambda>_ _. None), t_rooted_times = Inr (\<lambda>_ _. None), t_meta = Inr demo_meta,
      t_index = dir, t_table_digest = (\<lambda>_. []), t_sidecar = Some (VISIBILITY_MAGIC @ replicate 16 0),
      t_from_json = (\<lambda>_. Some \<lparr>fv_paths = visibility_default, fv_table_id = [], fv_hidden_complete = True\<rparr>),
      t_canonicalize = Some, t_globs = Inr (\<lambda>_. GlobUnmatched), t_types = Inr (\<lambda>_. True),
      t_matcher = Inr (Standard (literal_engine three_bytes) False), t_read_lines = (\<lambda>_. Inr []), t_parse = demo_parse,
      t_parse_chars = (\<lambda>_ _. Inl ''none''), t_escape = id, t_encodings = demo_encodings\<rparr>"

definition demo_search :: "nat search_options" where
  "demo_search = letter_options\<lparr>so_pattern := three_bytes, so_fixed_string := True, so_max_depth := Some 1\<rparr>"

lemma demo_sidecar:
  "read_filename_index (t_from_json (demo_tree dir)) (t_sidecar (demo_tree dir)) =
     Inr (Some \<lparr>fi_paths = [], fi_visibility = Some \<lparr>fv_paths = visibility_default, fv_table_id = [], fv_hidden_complete = True\<rparr>\<rparr>)"
  by (simp add: demo_tree_def read_filename_index_def read_visibility_def VISIBILITY_MAGIC_def EXTRA_MAGIC_def HEADER_LEN_def
      from_le_def eval_nat_numeral Let_def)

lemma demo_reads_agree:
  "read_agrees (demo_tree dir) demo_search (\<lambda>rel. Inr (demo_opened (if rel = [0x61] then 0 else 1))) False
     (two_texts (if f = [[0x61]] then 0 else 1)) (seen_as [] f)" if "f \<in> {[[0x61]], [[0x62]]}"
  using that by (auto simp: read_agrees_def demo_tree_def demo_opened_def still_file_def two_texts_facts child_path_def seen_as_def)

lemma demo_index:
  assumes "reader_paths R = [[0x61], [0x62]]"
    and "\<forall>i<2. reader_table R (of_nat i) = Mapping.lookup (extract_merged_masks (two_texts i))"
  shows "index_of_tree (demo_tree dir) R visibility_default [[[0x61]], [[0x62]]] (\<lambda>_. False) (\<lambda>_. False)
    (\<lambda>f. two_texts (if f = [[0x61]] then 0 else 1)) (\<lambda>_. False)"
proof -
  have shown: "decoded_text (demo_tree dir) (\<lambda>f. two_texts (if f = [[0x61]] then 0 else 1)) f = two_texts (if f = [[0x61]] then 0 else 1)" for f
    by (simp add: decoded_text_def demo_tree_def two_texts_facts)
  have tables: "reader_table R 0 = Mapping.lookup (extract_merged_masks (two_texts 0))"
    "reader_table R 1 = Mapping.lookup (extract_merged_masks (two_texts 1))"
    using assms(2) [rule_format, of 0] assms(2) [rule_format, of 1] by simp_all
  show ?thesis unfolding index_of_tree_def shown
    by (intro conjI exI [of _ "\<lambda>_. True"] exI [of _ "\<lambda>f. Mapping.lookup (extract_merged_masks (two_texts (if f = [[0x61]] then 0 else 1)))"])
      (auto simp: assms(1) two_texts_facts tables less_Suc_eq records_hidden_def visibility_default_def lookup_empty)
qed

lemma demo_walk:
  "walk_of_tree (demo_tree dir) demo_search (\<lambda>_. GlobUnmatched) [[[0x61]], [[0x62]]] (\<lambda>_. False) (\<lambda>_. False)
     (\<lambda>f. two_texts (if f = [[0x61]] then 0 else 1)) []"
  unfolding walk_of_tree_def
  by (intro exI [of _ "[[[0x61]], [[0x62]]]"])
    (simp add: demo_tree_def child_path_def seen_as_def in_view_def below_def uncovered_def too_large_def demo_search_def letter_options_def)


end
