(* ===== verification/Git_Index.thy ===== *)
theory Git_Index
  imports Ondisk "HOL-Library.Monad_Syntax" "HOL-Library.Multiset"
begin

text \<open>
  The files a repository tracks (\<^verbatim>\<open>tgrep-core/src/git_index.rs\<close>): reading
  \<^verbatim>\<open>.git/index\<close> in its versions 2 to 4, the shared half of a split index with its EWAH
  bitmaps, and the membership queries of an ignore walk.  A slice that is read past its end is
  None, as \<^verbatim>\<open>get\<close> and the \<^verbatim>\<open>?\<close> operator have it; \<^verbatim>\<open>usize\<close> has 64 bits.  The
  file system, the permit and the memory charge of the controlled variant are left out.
\<close>

section \<open>Slices and integers of the file\<close>

text \<open>\<^verbatim>\<open>bytes.get(a..b)\<close>.\<close>

definition get_range :: "byte list \<Rightarrow> nat \<Rightarrow> nat \<Rightarrow> byte list option" where
  "get_range bytes a b = (if a \<le> b \<and> b \<le> length bytes then Some (take (b - a) (drop a bytes)) else None)"

definition from_be :: "byte list \<Rightarrow> 'a::len word" where
  "from_be bytes = from_le (rev bytes)"

definition usize_checked :: "nat \<Rightarrow> nat option" where
  "usize_checked n = (if n < 2 ^ 64 then Some n else None)"

section \<open>The tracked files\<close>

record tracked_files =
  tracked_paths :: "path set"
  tracked_ordered :: "path set option"

definition tracked_unordered :: "path set \<Rightarrow> tracked_files" where
  "tracked_unordered paths = \<lparr>tracked_paths = paths, tracked_ordered = None\<rparr>"

definition trim_slashes :: "byte list \<Rightarrow> byte list" where
  "trim_slashes s = rev (dropWhile (\<lambda>b. b = 0x2F) (rev (dropWhile (\<lambda>b. b = 0x2F) s)))"

definition normalise :: "byte list \<Rightarrow> path" where
  "normalise p = map to_ascii_lowercase (trim_slashes (map (\<lambda>b. if b = 0x5C then 0x2F else b) p))"

definition tracked_contains :: "tracked_files \<Rightarrow> byte list \<Rightarrow> bool" where
  "tracked_contains self rel_path = (normalise rel_path \<in> tracked_paths self)"

text \<open>The range of an ordered set from a key on begins with its least member that is not below the key.\<close>

definition first_from :: "path \<Rightarrow> path set \<Rightarrow> path option" where
  "first_from key paths = find (\<lambda>p. key \<le> p) (sorted_list_of_set paths)"

definition contains_any_under :: "tracked_files \<Rightarrow> byte list \<Rightarrow> bool" where
  "contains_any_under self rel_dir =
     (let pre = normalise rel_dir
      in if pre = [] then tracked_paths self \<noteq> {}
         else
           let pre = pre @ [0x2F]
           in case tracked_ordered self of
                Some paths \<Rightarrow> (case first_from pre paths of Some p \<Rightarrow> prefix pre p | None \<Rightarrow> False)
              | None \<Rightarrow> (\<exists>p\<in>tracked_paths self. prefix pre p))"

definition membership_hash :: "path \<Rightarrow> u64" where
  "membership_hash p = fold (\<lambda>b hash. (hash XOR ucast b) * 0x100000001b3) p 0xcbf29ce484222325"

text \<open>The fingerprint over the paths in the order they are walked.\<close>

definition fingerprint_matching :: "path list \<Rightarrow> (path \<Rightarrow> bool) \<Rightarrow> nat \<times> u64 \<times> u64" where
  "fingerprint_matching paths incl =
     fold (\<lambda>p (count, xor, sum). if \<not> incl p then (count, xor, sum)
         else (count + 1, xor XOR membership_hash p, sum + membership_hash p)) paths (0, 0, 0)"

definition fingerprint_controlled :: "path list \<Rightarrow> nat \<times> u64 \<times> u64" where
  "fingerprint_controlled paths =
     (let (xor, sum) = fold (\<lambda>p (xor, sum). (xor XOR membership_hash p, sum + membership_hash p)) paths (0, 0)
      in (length paths, xor, sum))"

section \<open>Entries\<close>

definition ENTRY_HEADER :: nat where "ENTRY_HEADER = 62"
definition MIN_TRAILER :: nat where "MIN_TRAILER = 20"

definition DIRC :: "byte list" where "DIRC = [0x44, 0x49, 0x52, 0x43]"

definition index_header :: "byte list \<Rightarrow> (nat \<times> nat) option" where
  "index_header bytes =
     (if length bytes < 12 \<or> take 4 bytes \<noteq> DIRC then None
      else
        let ver = unat (from_be (take 4 (drop 4 bytes)) :: u32)
        in if \<not> (2 \<le> ver \<and> ver \<le> 4) then None
           else Some (ver, unat (from_be (take 4 (drop 8 bytes)) :: u32)))"

definition entry_capacity :: "byte list \<Rightarrow> nat \<Rightarrow> nat" where
  "entry_capacity bytes n = min n ((length bytes - 12) div (ENTRY_HEADER + 1))"

definition insert_path :: "byte list \<Rightarrow> path set \<Rightarrow> path set" where
  "insert_path p paths = (if valid_utf8 p then insert (normalise p) paths else paths)"

text \<open>The offset-encoded integer of version 4; \<^verbatim>\<open>checked_shl\<close> checks the distance of the shift only.\<close>

function varint_more :: "byte list \<Rightarrow> byte \<Rightarrow> nat \<Rightarrow> nat \<Rightarrow> (nat \<times> nat) option" where
  "varint_more bytes byte value pos =
     (if byte AND 0x80 = 0 then Some (value, pos)
      else do {
        value \<leftarrow> usize_checked (value + 1);
        let value = value * 2 ^ 7 mod 2 ^ 64;
        if pos < length bytes then do {
          let byte = bytes ! pos;
          value \<leftarrow> usize_checked (value + unat (byte AND 0x7F));
          varint_more bytes byte value (pos + 1)
        } else None
      })"
  by pat_completeness auto
termination
  by (relation "measure (\<lambda>(bytes, _, _, pos). length bytes - pos)") auto

declare varint_more.simps [simp del]

definition index_varint :: "byte list \<Rightarrow> nat \<Rightarrow> (nat \<times> nat) option" where
  "index_varint bytes pos =
     (if pos < length bytes then varint_more bytes (bytes ! pos) (unat (bytes ! pos AND 0x7F)) (pos + 1) else None)"

text \<open>The path of an entry from its position on, and the position behind the entry.\<close>

definition entry_path :: "memchr \<Rightarrow> byte list \<Rightarrow> nat \<Rightarrow> u16 \<Rightarrow> nat \<Rightarrow> nat \<Rightarrow> byte list \<Rightarrow> (byte list \<times> nat) option" where
  "entry_path memchr bytes ver flags entry_start pos previous =
     (if ver \<ge> 4 then do {
        (strip, pos) \<leftarrow> index_varint bytes pos;
        keep \<leftarrow> (if strip \<le> length previous then Some (length previous - strip) else None);
        rest \<leftarrow> get_range bytes pos (length bytes);
        n \<leftarrow> memchr 0 rest;
        let stop = n + pos;
        Some (take keep previous @ take (stop - pos) (drop pos bytes), stop + 1)
      }
      else do {
        let named = unat (flags AND 0x0FFF);
        stop \<leftarrow> (if named < 0x0FFF then do {
            stop \<leftarrow> usize_checked (pos + named);
            if stop < length bytes \<and> bytes ! stop = 0 then Some stop else None
          }
          else do {
            rest \<leftarrow> get_range bytes pos (length bytes);
            n \<leftarrow> memchr 0 rest;
            Some (n + pos)
          });
        p \<leftarrow> get_range bytes pos stop;
        let unpadded = stop + 1 - entry_start;
        Some (p, entry_start + (unpadded + 7) div 8 * 8)
      })"

text \<open>The entries that are visited, with their positions in the file's order.\<close>

fun walk_loop :: "memchr \<Rightarrow> byte list \<Rightarrow> nat \<Rightarrow> nat \<Rightarrow> nat \<Rightarrow> nat \<Rightarrow> byte list \<Rightarrow> ((nat \<times> byte list) list \<times> nat) option" where
  "walk_loop memchr bytes ver 0 entry pos previous = Some ([], pos)"
| "walk_loop memchr bytes ver (Suc n) entry pos previous =
     (if pos + ENTRY_HEADER > length bytes then None
      else do {
        let flags = (from_be (take 2 (drop (pos + 60) bytes)) :: u16);
        let start = pos;
        let pos = pos + ENTRY_HEADER;
        pos \<leftarrow> (if ver \<ge> 3 \<and> flags AND 0x4000 \<noteq> 0
               then (if pos + 2 > length bytes then None else Some (pos + 2))
               else Some pos);
        (p, pos) \<leftarrow> entry_path memchr bytes ver flags start pos previous;
        (visits, stop) \<leftarrow> walk_loop memchr bytes ver n (entry + 1) pos (if ver \<ge> 4 then p else previous);
        Some ((entry, p) # visits, stop)
      })"

definition walk_entries :: "memchr \<Rightarrow> byte list \<Rightarrow> ((nat \<times> byte list) list \<times> nat) option" where
  "walk_entries memchr bytes = do {
     (ver, n) \<leftarrow> index_header bytes;
     walk_loop memchr bytes ver n 0 12 []
   }"

section \<open>Extensions and bitmaps\<close>

text \<open>The data of the first extension with a signature, before the trailing checksum.\<close>

function extension :: "byte list \<Rightarrow> nat \<Rightarrow> byte list \<Rightarrow> byte list option" where
  "extension bytes pos signature = do {
     header_end \<leftarrow> usize_checked (pos + 8);
     header \<leftarrow> get_range bytes pos header_end;
     let size = unat (from_be (drop 4 header) :: u32);
     let start = pos + 8;
     stop \<leftarrow> usize_checked (start + size);
     limit \<leftarrow> usize_checked (stop + MIN_TRAILER);
     if limit > length bytes then None
     else if take 4 header = signature then Some (take (stop - start) (drop start bytes))
     else extension bytes stop signature
   }"
  by pat_completeness auto
termination
  by (relation "measure (\<lambda>(bytes, pos, _). length bytes - pos)")
    (auto simp: usize_checked_def MIN_TRAILER_def split: if_splits)

declare extension.simps [simp del]

definition LINK :: "byte list" where "LINK = [0x6C, 0x69, 0x6E, 0x6B]"

record split_link =
  base :: "byte list"
  delete_bits :: "byte list"
  replace_bits :: "byte list"

definition ewah_len :: "byte list \<Rightarrow> nat option" where
  "ewah_len bytes = do {
     field \<leftarrow> get_range bytes 4 8;
     words \<leftarrow> usize_checked (unat (from_be field :: u32) * 8);
     n \<leftarrow> usize_checked (words + 12);
     if n \<le> length bytes then Some n else None
   }"

definition link_parse :: "byte list \<Rightarrow> nat \<Rightarrow> split_link option" where
  "link_parse data hash_len = do {
     b \<leftarrow> get_range data 0 hash_len;
     let rest = drop hash_len data;
     if rest = [] then Some \<lparr>base = b, delete_bits = [], replace_bits = []\<rparr>
     else do {
       delete_len \<leftarrow> ewah_len rest;
       replace_len \<leftarrow> ewah_len (drop delete_len rest);
       if delete_len + replace_len \<noteq> length rest then None
       else Some \<lparr>base = b, delete_bits = take delete_len rest, replace_bits = drop delete_len rest\<rparr>
     }
   }"

text \<open>A visit changes the state of the visitor, or stops the walk.\<close>

fun visit_bits :: "(nat \<Rightarrow> 's \<Rightarrow> 's option) \<Rightarrow> nat list \<Rightarrow> 's \<Rightarrow> 's option" where
  "visit_bits visit [] s = Some s"
| "visit_bits visit (k # ks) s = Option.bind (visit k s) (visit_bits visit ks)"

definition trailing_zeros :: "u64 \<Rightarrow> nat" where
  "trailing_zeros w = length (takeWhile (\<lambda>n. \<not> bit w n) [0..<64])"

lemma clear_lowest: "w \<noteq> 0 \<Longrightarrow> unat (w AND (w - 1)) < unat (w :: u64)"
proof -
  assume "w \<noteq> 0"
  then have "unat (w - 1) < unat w" by (simp add: measure_unat)
  moreover have "w AND (w - 1) \<le> w - 1" by (rule word_and_le1)
  ultimately show ?thesis by (simp add: word_le_nat_alt)
qed

function literal_loop :: "nat \<Rightarrow> (nat \<Rightarrow> 's \<Rightarrow> 's option) \<Rightarrow> nat \<Rightarrow> u64 \<Rightarrow> 's \<Rightarrow> 's option" where
  "literal_loop limit visit position literal s =
     (if literal = 0 then Some s
      else do {
        k \<leftarrow> usize_checked (position + trailing_zeros literal);
        if k \<ge> limit then None
        else do {
          s \<leftarrow> visit k s;
          literal_loop limit visit position (literal AND (literal - 1)) s
        }
      })"
  by pat_completeness auto
termination
  by (relation "measure (\<lambda>(_, _, _, literal, _). unat literal)") (auto intro: clear_lowest)

declare literal_loop.simps [simp del]

definition ewah_word :: "byte list \<Rightarrow> nat \<Rightarrow> u64 option" where
  "ewah_word bytes index = map_option from_be (get_range bytes (8 + index * 8) (8 + index * 8 + 8))"

text \<open>The literal words a marker announces.\<close>

fun literal_words ::
  "byte list \<Rightarrow> nat \<Rightarrow> nat \<Rightarrow> (nat \<Rightarrow> 's \<Rightarrow> 's option) \<Rightarrow> nat \<Rightarrow> nat \<Rightarrow> nat \<Rightarrow> 's \<Rightarrow> (nat \<times> nat \<times> 's) option"
where
  "literal_words bytes words limit visit 0 index position s = Some (index, position, s)"
| "literal_words bytes words limit visit (Suc n) index position s =
     (if index \<ge> words then None
      else do {
        literal \<leftarrow> ewah_word bytes index;
        s \<leftarrow> literal_loop limit visit position literal s;
        position \<leftarrow> usize_checked (position + 64);
        literal_words bytes words limit visit n (index + 1) position s
      })"

lemma literal_words_index:
  "literal_words bytes words limit visit n index position s = Some (index', position', s') \<Longrightarrow> index \<le> index'"
  by (induction n arbitrary: index position s)
    (auto simp: bind_eq_Some_conv split: if_splits, fastforce dest: Suc_leD)

function ewah_loop ::
  "byte list \<Rightarrow> nat \<Rightarrow> nat \<Rightarrow> (nat \<Rightarrow> 's \<Rightarrow> 's option) \<Rightarrow> nat \<Rightarrow> nat \<Rightarrow> 's \<Rightarrow> 's option"
where
  "ewah_loop bytes words limit visit index position s =
     (if index < words then do {
        marker \<leftarrow> ewah_word bytes index;
        run \<leftarrow> usize_checked (unat (drop_bit 1 marker AND 0xFFFFFFFF) * 64);
        stop \<leftarrow> usize_checked (position + run);
        s \<leftarrow> (if marker AND 1 \<noteq> 0
             then (if stop > limit then None else visit_bits visit [position..<stop] s)
             else Some s);
        (index, position, s) \<leftarrow>
          literal_words bytes words limit visit (unat (drop_bit 33 marker)) (index + 1) stop s;
        ewah_loop bytes words limit visit index position s
      } else Some s)"
  by pat_completeness auto
termination
  by (relation "measure (\<lambda>(_, words, _, _, index, _, _). words - index)")
    (auto dest!: literal_words_index)

declare ewah_loop.simps [simp del]

definition read_ewah :: "byte list \<Rightarrow> nat \<Rightarrow> (nat \<Rightarrow> 's \<Rightarrow> 's option) \<Rightarrow> 's \<Rightarrow> 's option" where
  "read_ewah bytes limit visit s =
     (if bytes = [] then Some s
      else do {
        n \<leftarrow> ewah_len bytes;
        ewah_loop bytes ((n - 12) div 8) limit visit 0 0 s
      })"

section \<open>The index as a whole\<close>

text \<open>Lower-case hexadecimal, two digits for each byte.\<close>

definition hex_nibble :: "byte \<Rightarrow> byte" where
  "hex_nibble n = (if n < 10 then 0x30 + n else 0x57 + n)"

definition hex :: "byte list \<Rightarrow> byte list" where
  "hex bytes = concat (map (\<lambda>b. [hex_nibble (drop_bit 4 b), hex_nibble (b AND 0x0F)]) bytes)"

definition merge_split :: "memchr \<Rightarrow> byte list \<Rightarrow> byte list \<Rightarrow> split_link \<Rightarrow> tracked_files option" where
  "merge_split memchr split shared link =
     (if length shared < length (base link) \<or> drop (length shared - length (base link)) shared \<noteq> base link then None
      else do {
        (_, base_count) \<leftarrow> index_header shared;
        let base_count = min base_count (entry_capacity shared base_count);
        deleted \<leftarrow> read_ewah (delete_bits link) base_count
          (\<lambda>position deleted. Some (deleted[position := True])) (replicate base_count False);
        replaced \<leftarrow> read_ewah (replace_bits link) base_count
          (\<lambda>position replaced. if \<not> deleted ! position then Some (replaced + 1) else None) (0 :: nat);
        (_, split_count) \<leftarrow> index_header split;
        if replaced > split_count then None
        else do {
          (base_entries, base_end) \<leftarrow> walk_entries memchr shared;
          let paths = fold (\<lambda>(entry, p) paths.
                if entry < length deleted \<and> \<not> deleted ! entry then insert_path p paths else paths) base_entries {};
          if extension shared base_end LINK \<noteq> None then None
          else do {
            (split_entries, _) \<leftarrow> walk_entries memchr split;
            Some (tracked_unordered (fold (\<lambda>(entry, p) paths.
                if entry \<ge> replaced then insert_path p paths else paths) split_entries paths))
          }
        }
      })"

text \<open>A link is read with either length of a hash; the shared index is found by its name.\<close>

fun link_loop ::
  "memchr \<Rightarrow> byte list \<Rightarrow> (byte list \<Rightarrow> byte list option) \<Rightarrow> byte list \<Rightarrow> path set \<Rightarrow> nat list \<Rightarrow> tracked_files option"
where
  "link_loop memchr bytes shared link paths [] = None"
| "link_loop memchr bytes shared link paths (hash_len # hash_lens) =
     (case link_parse link hash_len of
        None \<Rightarrow> link_loop memchr bytes shared link paths hash_lens
      | Some l \<Rightarrow>
          if \<forall>b\<in>set (base l). b = 0 then Some (tracked_unordered paths)
          else (case shared (hex (base l)) of
                  None \<Rightarrow> link_loop memchr bytes shared link paths hash_lens
                | Some b \<Rightarrow> merge_split memchr bytes b l))"

definition parse_index_with :: "memchr \<Rightarrow> byte list \<Rightarrow> (byte list \<Rightarrow> byte list option) \<Rightarrow> tracked_files option" where
  "parse_index_with memchr bytes shared = do {
     (_, n) \<leftarrow> index_header bytes;
     (entries, stop) \<leftarrow> walk_entries memchr bytes;
     let paths = fold (\<lambda>(_, p). insert_path p) entries {};
     case extension bytes stop LINK of
       None \<Rightarrow> Some (tracked_unordered paths)
     | Some link \<Rightarrow> link_loop memchr bytes shared link paths [20, 32]
   }"

section \<open>An index as Git writes it\<close>

definition to_be :: "nat \<Rightarrow> 'a::len word \<Rightarrow> byte list" where
  "to_be n w = rev (le_bytes n w)"

lemma length_to_be [simp]: "length (to_be n w) = n"
  by (simp add: to_be_def)

lemma from_be_to_be [simp]: "LENGTH('a) \<le> 8 * n \<Longrightarrow> from_be (to_be n w) = (w :: 'a::len word)"
  by (simp add: from_be_def to_be_def)

text \<open>Integers of version 4: the last byte has seven bits, each byte before it stands for one more.\<close>

function varint_prefix :: "nat \<Rightarrow> byte list" where
  "varint_prefix w = (if w < 128 then [of_nat (128 + w)] else varint_prefix (w div 128 - 1) @ [of_nat (128 + w mod 128)])"
  by pat_completeness auto
termination by (relation "measure id") auto

declare varint_prefix.simps [simp del]

definition encode_varint :: "nat \<Rightarrow> byte list" where
  "encode_varint v = (if v < 128 then [of_nat v] else varint_prefix (v div 128 - 1) @ [of_nat (v mod 128)])"

lemma low_bits: "unat (b AND 0x7F :: byte) = unat b mod 128"
proof -
  have "(0x7F :: byte) = mask 7" by (simp add: mask_eq_exp_minus_1)
  then have "b AND 0x7F = take_bit 7 b" by (simp add: take_bit_eq_mask)
  then have "unat (b AND 0x7F) = take_bit 7 (unat b)" by (simp only: unsigned_take_bit_eq)
  then show ?thesis by (simp add: take_bit_eq_mod)
qed

lemma high_bit: "b AND 0x80 = 0 \<longleftrightarrow> unat (b :: byte) < 128"
proof -
  have "(0x80 :: byte) = push_bit 7 1" by simp
  then have "b AND 0x80 = 0 \<longleftrightarrow> \<not> bit b 7" by (metis bit_iff_and_push_bit_not_eq_0)
  also have "\<dots> \<longleftrightarrow> even (unat b div 128)"
    using bit_unsigned_iff [of b 7, where ?'a = nat] by (simp add: bit_iff_odd)
  also have "\<dots> \<longleftrightarrow> unat b < 128"
  proof -
    have "unat b < 256" using unsigned_less [where w = b and ?'a = nat] by simp
    then have "unat b div 128 = 0 \<or> unat b div 128 = 1" by auto
    then show ?thesis by (auto simp: div_eq_0_iff)
  qed
  finally show ?thesis .
qed

lemma byte_of_nat: "n < 256 \<Longrightarrow> unat (of_nat n :: byte) = n"
  by (simp add: unat_of_nat)

lemma varint_more_step:
  assumes "\<not> unat b < 128" "pos < length bytes" "(v + 1) * 2 ^ 7 + unat (bytes ! pos) mod 128 < 2 ^ 64"
  shows "varint_more bytes b v pos = varint_more bytes (bytes ! pos) ((v + 1) * 2 ^ 7 + unat (bytes ! pos) mod 128) (pos + 1)"
proof -
  have bound: "(v + 1) * 2 ^ 7 < 2 ^ 64" using assms(3) by linarith
  moreover have "v + 1 \<le> (v + 1) * 2 ^ 7" by simp
  ultimately have "v + 1 < 2 ^ 64" by (rule le_less_trans [rotated])
  with bound assms show ?thesis
    by (subst varint_more.simps) (simp add: high_bit low_bits usize_checked_def Let_def)
qed

lemma nth_of_take: "take n (drop pos bytes) = xs \<Longrightarrow> i < n \<Longrightarrow> pos + n \<le> length bytes \<Longrightarrow> bytes ! (pos + i) = xs ! i"
  by auto

lemma varint_prefix_read:
  assumes "w < 2 ^ 64" "take (length (varint_prefix w)) (drop pos bytes) = varint_prefix w"
    "pos + length (varint_prefix w) \<le> length bytes"
  shows "\<exists>b. \<not> unat b < 128 \<and> index_varint bytes pos = varint_more bytes b w (pos + length (varint_prefix w))"
  using assms
proof (induction w rule: varint_prefix.induct)
  case (1 w)
  show ?case
  proof (cases "w < 128")
    case True
    then have p: "varint_prefix w = [of_nat (128 + w)]" by (simp add: varint_prefix.simps)
    have "bytes ! pos = of_nat (128 + w)" "pos < length bytes"
      using 1(3,4) unfolding p by (auto simp: take_Suc hd_drop_conv_nth split: if_splits)
    then show ?thesis using True p byte_of_nat [of "128 + w"]
      by (intro exI [of _ "of_nat (128 + w)"]) (simp add: index_varint_def low_bits)
  next
    case False
    let ?w = "w div 128 - 1" and ?d = "of_nat (128 + w mod 128) :: byte"
    have p: "varint_prefix w = varint_prefix ?w @ [?d]" using False by (subst varint_prefix.simps) simp
    have "take (length (varint_prefix ?w)) (take (length (varint_prefix ?w @ [?d])) (drop pos bytes)) = varint_prefix ?w"
      using 1(3) unfolding p by simp
    then have t: "take (length (varint_prefix ?w)) (drop pos bytes) = varint_prefix ?w" by (simp add: min_def)
    have less: "?w < 2 ^ 64" using 1(2) by (metis diff_le_self div_le_dividend le_less_trans le_trans)
    obtain b where b: "\<not> unat b < 128" "index_varint bytes pos = varint_more bytes b ?w (pos + length (varint_prefix ?w))"
      using 1(1) [OF False less t] 1(4) unfolding p by auto
    have inside: "pos + length (varint_prefix ?w) < length bytes" using 1(4) unfolding p by simp
    have d: "bytes ! (pos + length (varint_prefix ?w)) = ?d"
      using nth_of_take [OF 1(3), of "length (varint_prefix ?w)"] 1(4) unfolding p by simp
    have u: "unat ?d = 128 + w mod 128" by (rule byte_of_nat) simp
    have total: "(?w + 1) * 2 ^ 7 + unat ?d mod 128 = w" unfolding u using False by simp
    have "varint_more bytes b ?w (pos + length (varint_prefix ?w)) = varint_more bytes ?d w (pos + length (varint_prefix ?w) + 1)"
      using varint_more_step [OF b(1) inside, of ?w] unfolding d total using 1(2) by simp
    then show ?thesis using b(2) u unfolding p by (intro exI [of _ ?d]) (simp add: add.assoc)
  qed
qed

lemma index_varint_encoded:
  assumes "v < 2 ^ 64" "take (length (encode_varint v)) (drop pos bytes) = encode_varint v"
    "pos + length (encode_varint v) \<le> length bytes"
  shows "index_varint bytes pos = Some (v, pos + length (encode_varint v))"
proof (cases "v < 128")
  case True
  then have e: "encode_varint v = [of_nat v]" by (simp add: encode_varint_def)
  have b: "bytes ! pos = of_nat v" "pos < length bytes"
    using nth_of_take [OF assms(2), of 0] assms(3) unfolding e by simp_all
  have u: "unat (of_nat v :: byte) = v" using True by (intro byte_of_nat) simp
  show ?thesis unfolding e using b True u
    by (simp add: index_varint_def) (subst varint_more.simps, simp add: high_bit low_bits)
next
  case False
  let ?w = "v div 128 - 1" and ?d = "of_nat (v mod 128) :: byte"
  have e: "encode_varint v = varint_prefix ?w @ [?d]" using False by (simp add: encode_varint_def)
  have less: "?w < 2 ^ 64" using assms(1) by (metis diff_le_self div_le_dividend le_less_trans le_trans)
  have "take (length (varint_prefix ?w)) (take (length (varint_prefix ?w @ [?d])) (drop pos bytes)) = varint_prefix ?w"
    using assms(2) unfolding e by simp
  then have t: "take (length (varint_prefix ?w)) (drop pos bytes) = varint_prefix ?w" by (simp add: min_def)
  obtain b where b: "\<not> unat b < 128" "index_varint bytes pos = varint_more bytes b ?w (pos + length (varint_prefix ?w))"
    using varint_prefix_read [OF less t] assms(3) unfolding e by auto
  have inside: "pos + length (varint_prefix ?w) < length bytes" using assms(3) unfolding e by simp
  have d: "bytes ! (pos + length (varint_prefix ?w)) = ?d"
    using nth_of_take [OF assms(2), of "length (varint_prefix ?w)"] assms(3) unfolding e by simp
  have "v mod 128 < 128" by simp
  then have u: "unat ?d = v mod 128" by (intro byte_of_nat) simp
  have total: "(?w + 1) * 2 ^ 7 + unat ?d mod 128 = v" unfolding u using False by simp
  have "varint_more bytes b ?w (pos + length (varint_prefix ?w)) = varint_more bytes ?d v (pos + length (varint_prefix ?w) + 1)"
    using varint_more_step [OF b(1) inside, of ?w] unfolding d total using assms(1) by simp
  also have "\<dots> = Some (v, pos + length (varint_prefix ?w) + 1)"
    by (subst varint_more.simps) (simp add: high_bit u)
  finally show ?thesis using b(2) unfolding e by (simp add: add.assoc)
qed

text \<open>
  A prefix whose value leaves the 64 bits is shifted out, so that a number can have a second, longer
  encoding.
\<close>

lemma varint_alias:
  assumes "unat b < 128"
  shows "\<exists>bytes. bytes \<noteq> [b] \<and> index_varint bytes 0 = Some (unat b, length bytes) \<and> index_varint [b] 0 = Some (unat b, 1)"
proof -
  let ?p = "varint_prefix (2 ^ 57 - 1)"
  obtain c where c: "\<not> unat c < 128" "index_varint (?p @ [b]) 0 = varint_more (?p @ [b]) c (2 ^ 57 - 1) (length ?p)"
    using varint_prefix_read [of "2 ^ 57 - 1" 0 "?p @ [b]"] by auto
  have b: "(?p @ [b]) ! length ?p = b" "length ?p < length (?p @ [b])" by simp_all
  have stop: "varint_more bytes b v pos = Some (v, pos)" for bytes v pos
    using assms by (subst varint_more.simps) (simp add: high_bit)
  have "varint_more (?p @ [b]) c (2 ^ 57 - 1) (length ?p) = Some (unat b, length (?p @ [b]))"
    using c(1) assms by (subst varint_more.simps) (simp add: high_bit low_bits usize_checked_def Let_def stop)
  moreover have "?p \<noteq> []" by (subst varint_prefix.simps) simp
  ultimately have "?p @ [b] \<noteq> [b] \<and> index_varint (?p @ [b]) 0 = Some (unat b, length (?p @ [b]))" using c(2) by simp
  moreover have "index_varint [b] 0 = Some (unat b, 1)" using assms by (simp add: index_varint_def stop low_bits)
  ultimately show ?thesis by blast
qed

text \<open>An entry: the stat data and the object id, the flags, the second flag word, and the path.\<close>

record git_entry =
  ge_stat :: "byte list"
  ge_flags :: u16
  ge_second :: "byte list"
  ge_path :: "byte list"

definition has_second :: "nat \<Rightarrow> git_entry \<Rightarrow> bool" where
  "has_second ver e \<longleftrightarrow> ver \<ge> 3 \<and> ge_flags e AND 0x4000 \<noteq> 0"

definition entry_ok :: "nat \<Rightarrow> git_entry \<Rightarrow> bool" where
  "entry_ok ver e \<longleftrightarrow> length (ge_stat e) = 60 \<and> length (ge_second e) = (if has_second ver e then 2 else 0) \<and>
     unat (ge_flags e AND 0x0FFF) = min (length (ge_path e)) 0x0FFF \<and> 0 \<notin> set (ge_path e)"

definition entry_head :: "git_entry \<Rightarrow> byte list" where
  "entry_head e = ge_stat e @ to_be 2 (ge_flags e) @ ge_second e"

definition padded :: "byte list \<Rightarrow> byte list" where
  "padded body = body @ replicate (8 - length body mod 8) 0"

definition entry_bytes :: "nat \<Rightarrow> byte list \<Rightarrow> git_entry \<Rightarrow> byte list" where
  "entry_bytes ver previous e =
     (if ver \<ge> 4 then
        let kept = longest_common_prefix previous (ge_path e)
        in entry_head e @ encode_varint (length previous - length kept) @ drop (length kept) (ge_path e) @ [0]
      else padded (entry_head e @ ge_path e))"

fun entries_bytes :: "nat \<Rightarrow> byte list \<Rightarrow> git_entry list \<Rightarrow> byte list" where
  "entries_bytes ver previous [] = []"
| "entries_bytes ver previous (e # es) = entry_bytes ver previous e @ entries_bytes ver (if ver \<ge> 4 then ge_path e else previous) es"

definition index_bytes :: "nat \<Rightarrow> git_entry list \<Rightarrow> byte list" where
  "index_bytes ver es = DIRC @ to_be 4 (of_nat ver :: u32) @ to_be 4 (of_nat (length es) :: u32) @ entries_bytes ver [] es"

lemma padded_length: "length (padded body) = (length body + 8) div 8 * 8"
proof -
  have "(length body + 8) div 8 = length body div 8 + 1" by simp
  moreover have "length body div 8 * 8 + length body mod 8 = length body" by simp
  moreover have "length body mod 8 < 8" by simp
  ultimately show ?thesis unfolding padded_def length_append length_replicate by linarith
qed

lemma get_range_end: "pos \<le> length bytes \<Longrightarrow> get_range bytes pos (length bytes) = Some (drop pos bytes)"
  by (simp add: get_range_def)

lemma kept_prefix:
  "take (length (longest_common_prefix xs ys)) xs @ drop (length (longest_common_prefix xs ys)) ys = ys"
  "length (longest_common_prefix xs ys) \<le> length xs"
proof -
  let ?p = "longest_common_prefix xs ys"
  have p: "prefix ?p xs" "prefix ?p ys" by (rule longest_common_prefix_prefix1, rule longest_common_prefix_prefix2)
  then show "length ?p \<le> length xs" by (simp add: prefix_length_le)
  from p have "take (length ?p) xs = ?p" "take (length ?p) ys = ?p" by (metis append_eq_conv_conj prefixE)+
  then have "take (length ?p) xs = take (length ?p) ys" by simp
  then show "take (length ?p) xs @ drop (length ?p) ys = ys" by simp
qed

text \<open>The path of one entry is read where it was written.\<close>

lemma entry_path_four:
  assumes "ver \<ge> 4" "0 \<notin> set p" "length previous < 2 ^ 64" "pos \<le> length bytes"
    and "drop pos bytes = encode_varint (length previous - length (longest_common_prefix previous p)) @
      drop (length (longest_common_prefix previous p)) p @ [0] @ rest" and memchr: "finds_first memchr"
  shows "entry_path memchr bytes ver flags entry_start pos previous =
    Some (p, pos + length (encode_varint (length previous - length (longest_common_prefix previous p))) +
      length (drop (length (longest_common_prefix previous p)) p) + 1)"
proof -
  define k where "k = length (longest_common_prefix previous p)"
  define v where "v = encode_varint (length previous - k)"
  have d: "drop pos bytes = v @ drop k p @ [0] @ rest" using assms(5) by (simp add: k_def v_def)
  have k: "k \<le> length previous" "take k previous @ drop k p = p" unfolding k_def by (rule kept_prefix)+
  have "length (drop pos bytes) = length v + (length (drop k p) + 1 + length rest)" unfolding d by simp
  then have len: "pos + length v \<le> length bytes" by (simp add: assms(4))
  have d': "drop (pos + length v) bytes = drop k p @ 0 # rest" using d by (metis append_Cons append_Nil append_eq_conv_conj drop_drop add.commute)
  have iv: "index_varint bytes pos = Some (length previous - k, pos + length v)"
    unfolding v_def
  proof (rule index_varint_encoded)
    show "length previous - k < 2 ^ 64" using assms(3) by simp
    show "take (length (encode_varint (length previous - k))) (drop pos bytes) = encode_varint (length previous - k)"
      unfolding d v_def by simp
    show "pos + length (encode_varint (length previous - k)) \<le> length bytes" using len by (simp add: v_def)
  qed
  have "0 \<notin> set (drop k p)" using assms(2) by (meson in_set_dropD)
  from memchr_first [OF memchr this] have m: "memchr 0 (drop k p @ 0 # rest) = Some (length (drop k p))" .
  show ?thesis
    using assms(1) k unfolding k_def [symmetric] v_def [symmetric]
    by (simp add: entry_path_def iv get_range_end [OF len] m Let_def d')
qed

lemma entry_path_two:
  assumes "ver < 4" "0 \<notin> set p" "unat (flags AND 0x0FFF) = min (length p) 0x0FFF" "pos \<le> length bytes" "length bytes < 2 ^ 64"
    and "drop pos bytes = p @ 0 # rest" and memchr: "finds_first memchr"
  shows "entry_path memchr bytes ver flags entry_start pos previous =
    Some (p, entry_start + (pos + length p + 1 - entry_start + 7) div 8 * 8)"
proof -
  have "length (drop pos bytes) = length p + (1 + length rest)" unfolding assms(6) by simp
  then have len: "pos + length p < length bytes" using assms(4) by simp
  have zero: "bytes ! (pos + length p) = 0"
    using nth_drop [OF assms(4), of "length p"] unfolding assms(6) by simp
  have range: "get_range bytes pos (pos + length p) = Some p" using len by (simp add: get_range_def assms(6))
  have m: "memchr 0 (p @ 0 # rest) = Some (length p)" by (rule memchr_first [OF memchr assms(2)])
  show ?thesis
  proof (cases "length p < 0x0FFF")
    case True
    then have "unat (flags AND 0x0FFF) = length p" using assms(3) by simp
    moreover have "usize_checked (pos + length p) = Some (pos + length p)" using len assms(5) by (simp add: usize_checked_def)
    ultimately show ?thesis using True assms(1) len zero range by (simp add: entry_path_def Let_def)
  next
    case False
    then have "unat (flags AND 0x0FFF) = 0x0FFF" using assms(3) by simp
    then show ?thesis
      using assms(1) range by (simp add: entry_path_def Let_def get_range_end [OF assms(4)] assms(6) m add.commute [of "length p"])
  qed
qed

lemma walk_entry:
  assumes e: "entry_ok ver e" and d: "drop pos bytes = entry_bytes ver previous e @ rest" and len: "length bytes < 2 ^ 64"
    and prev: "length previous < 2 ^ 64" and memchr: "finds_first memchr"
  shows "walk_loop memchr bytes ver (Suc n) entry pos previous =
    Option.bind (walk_loop memchr bytes ver n (entry + 1) (pos + length (entry_bytes ver previous e)) (if ver \<ge> 4 then ge_path e else previous))
      (\<lambda>(visits, stop). Some ((entry, ge_path e) # visits, stop))"
proof -
  define tail where "tail = (if ver \<ge> 4
      then encode_varint (length previous - length (longest_common_prefix previous (ge_path e))) @
        drop (length (longest_common_prefix previous (ge_path e))) (ge_path e) @ [0]
      else ge_path e @ replicate (8 - length (entry_head e @ ge_path e) mod 8) 0)"
  have split: "entry_bytes ver previous e = entry_head e @ tail"
    by (simp add: entry_bytes_def padded_def Let_def tail_def)
  have head: "length (entry_head e) = 62 + (if has_second ver e then 2 else 0)"
    using e by (simp add: entry_head_def entry_ok_def)
  have d': "drop pos bytes = entry_head e @ tail @ rest" using d by (simp only: split append_assoc)
  have "length (drop pos bytes) = length (entry_head e) + (length tail + length rest)" unfolding d' by simp
  then have inside: "pos + length (entry_head e) \<le> length bytes" using head by simp
  have "drop (pos + 60) bytes = drop 60 (drop pos bytes)" by (simp add: add.commute)
  also have "\<dots> = to_be 2 (ge_flags e) @ ge_second e @ tail @ rest"
    using e unfolding d' by (simp add: entry_head_def entry_ok_def)
  finally have flags: "from_be (take 2 (drop (pos + 60) bytes)) = ge_flags e" by simp
  have rest: "drop (pos + length (entry_head e)) bytes = tail @ rest"
    using d' by (metis append_eq_conv_conj drop_drop add.commute)
  have path: "entry_path memchr bytes ver (ge_flags e) pos (pos + length (entry_head e)) previous =
      Some (ge_path e, pos + length (entry_bytes ver previous e))"
  proof (cases "ver \<ge> 4")
    case True
    then show ?thesis
      using entry_path_four [OF True _ prev inside _ memchr, of "ge_path e" rest "ge_flags e" pos] rest e
      by (simp add: tail_def entry_ok_def split add.assoc)
  next
    case False
    let ?pad = "8 - length (entry_head e @ ge_path e) mod 8"
    have "?pad = Suc (?pad - 1)" by (metis Suc_diff_1 mod_less_divisor zero_less_diff zero_less_numeral)
    then have "replicate ?pad (0 :: byte) = 0 # replicate (?pad - 1) 0" by (metis replicate_Suc)
    then have "tail @ rest = ge_path e @ 0 # (replicate (?pad - 1) 0 @ rest)" using False by (simp add: tail_def)
    then have t: "drop (pos + length (entry_head e)) bytes = ge_path e @ 0 # (replicate (?pad - 1) 0 @ rest)" using rest by simp
    have body: "length (entry_bytes ver previous e) = (length (entry_head e @ ge_path e) + 8) div 8 * 8"
      using False padded_length [of "entry_head e @ ge_path e"] by (simp add: entry_bytes_def)
    have at_end: "pos + length (entry_head e) + length (ge_path e) + 1 - pos + 7 = length (entry_head e @ ge_path e) + 8" by simp
    have ok: "0 \<notin> set (ge_path e)" "unat (ge_flags e AND 0x0FFF) = min (length (ge_path e)) 0x0FFF" "ver < 4"
      using e False by (simp_all add: entry_ok_def)
    show ?thesis
      using entry_path_two [OF ok(3,1,2) inside len t memchr, of pos previous] unfolding body at_end .
  qed
  show ?thesis
    using inside head path path [unfolded add.commute [of pos "length (entry_head e)"]]
    by (cases "has_second ver e")
      (auto simp: ENTRY_HEADER_def flags Let_def has_second_def case_prod_unfold add.assoc)
qed

text \<open>All entries, and what follows them.\<close>

definition entries_ok :: "nat \<Rightarrow> git_entry list \<Rightarrow> bool" where
  "entries_ok ver es \<longleftrightarrow> 2 \<le> ver \<and> ver \<le> 4 \<and> length es < 2 ^ 32 \<and>
     (\<forall>e\<in>set es. entry_ok ver e \<and> length (ge_path e) < 2 ^ 64)"

lemma walk_written:
  assumes "\<forall>e\<in>set es. entry_ok ver e \<and> length (ge_path e) < 2 ^ 64"
    and "drop pos bytes = entries_bytes ver previous es @ rest" "length bytes < 2 ^ 64" "length previous < 2 ^ 64"
    and memchr: "finds_first memchr"
  shows "walk_loop memchr bytes ver (length es) entry pos previous =
    Some (zip [entry..<entry + length es] (map ge_path es), pos + length (entries_bytes ver previous es))"
  using assms(1,2,4)
proof (induction es arbitrary: entry pos previous)
  case (Cons e es)
  let ?next = "if ver \<ge> 4 then ge_path e else previous"
  have d: "drop pos bytes = entry_bytes ver previous e @ (entries_bytes ver ?next es @ rest)"
    using Cons.prems(2) by simp
  have later: "walk_loop memchr bytes ver (length es) (entry + 1) (pos + length (entry_bytes ver previous e)) ?next =
      Some (zip [entry + 1..<entry + 1 + length es] (map ge_path es),
        pos + length (entry_bytes ver previous e) + length (entries_bytes ver ?next es))"
  proof (rule Cons.IH)
    show "drop (pos + length (entry_bytes ver previous e)) bytes = entries_bytes ver ?next es @ rest"
      using d by (metis append_eq_conv_conj drop_drop add.commute)
  qed (use Cons.prems in auto)
  have ok: "entry_ok ver e" using Cons.prems(1) by simp
  have "walk_loop memchr bytes ver (Suc (length es)) entry pos previous =
      Some ((entry, ge_path e) # zip [entry + 1..<entry + 1 + length es] (map ge_path es),
        pos + length (entry_bytes ver previous e) + length (entries_bytes ver ?next es))"
    unfolding walk_entry [OF ok d assms(3) Cons.prems(3) memchr] later by simp
  moreover have "[entry..<entry + Suc (length es)] = entry # [entry + 1..<entry + 1 + length es]"
    by (simp add: upt_conv_Cons del: upt_Suc)
  ultimately show ?case by simp
qed simp

lemma index_bytes_header:
  assumes "entries_ok ver es"
  shows "index_header (index_bytes ver es @ rest) = Some (ver, length es)"
proof -
  have "unat (of_nat ver :: u32) = ver" "unat (of_nat (length es) :: u32) = length es"
    using assms by (simp_all add: entries_ok_def unat_of_nat)
  then show ?thesis using assms
    by (simp add: index_header_def index_bytes_def entries_ok_def DIRC_def)
qed

lemma walk_entries_written:
  assumes "entries_ok ver es" "length (index_bytes ver es @ rest) < 2 ^ 64" and memchr: "finds_first memchr"
  shows "walk_entries memchr (index_bytes ver es @ rest) =
    Some (zip [0..<length es] (map ge_path es), length (index_bytes ver es))"
proof -
  have d: "drop 12 (index_bytes ver es @ rest) = entries_bytes ver [] es @ rest" by (simp add: index_bytes_def DIRC_def)
  have ok: "\<forall>e\<in>set es. entry_ok ver e \<and> length (ge_path e) < 2 ^ 64" using assms(1) by (simp add: entries_ok_def)
  have "length (index_bytes ver es) = 12 + length (entries_bytes ver [] es)" by (simp add: index_bytes_def DIRC_def)
  then show ?thesis
    using walk_written [OF ok d assms(2) _ memchr, of 0] by (simp add: walk_entries_def index_bytes_header [OF assms(1)])
qed

section \<open>A bitmap as Git writes it\<close>

type_synonym ewah_segment = "bool \<times> nat \<times> u64 list"

definition ewah_marker :: "bool \<Rightarrow> nat \<Rightarrow> nat \<Rightarrow> u64" where
  "ewah_marker b run literals = of_nat (of_bool b + 2 * run + 2 ^ 33 * literals)"

definition ewah_words :: "ewah_segment list \<Rightarrow> u64 list" where
  "ewah_words segs = concat (map (\<lambda>(b, run, ls). ewah_marker b run (length ls) # ls) segs)"

definition ewah_bytes :: "u32 \<Rightarrow> ewah_segment list \<Rightarrow> u32 \<Rightarrow> byte list" where
  "ewah_bytes bits segs marker_at =
     to_be 4 bits @ to_be 4 (of_nat (length (ewah_words segs)) :: u32) @ concat (map (to_be 8) (ewah_words segs)) @ to_be 4 marker_at"

definition segment_ok :: "ewah_segment \<Rightarrow> bool" where
  "segment_ok = (\<lambda>(b, run, ls). run < 2 ^ 32 \<and> length ls < 2 ^ 31 \<and> (b \<longrightarrow> 0 < run))"

text \<open>The positions of the bits that are set, ascending.\<close>

fun literal_bits :: "nat \<Rightarrow> u64 list \<Rightarrow> nat list" where
  "literal_bits position [] = []"
| "literal_bits position (l # ls) = map ((+) position) (filter (bit l) [0..<64]) @ literal_bits (position + 64) ls"

fun segment_bits :: "nat \<Rightarrow> ewah_segment list \<Rightarrow> nat list" where
  "segment_bits position [] = []"
| "segment_bits position ((b, run, ls) # segs) =
     (if b then [position..<position + run * 64] else []) @ literal_bits (position + run * 64) ls @
     segment_bits (position + run * 64 + 64 * length ls) segs"

definition segments_length :: "ewah_segment list \<Rightarrow> nat" where
  "segments_length segs = sum_list (map (\<lambda>(b, run, ls). run * 64 + 64 * length ls) segs)"

lemma visit_bits_append: "visit_bits visit (xs @ ys) s = Option.bind (visit_bits visit xs s) (visit_bits visit ys)"
proof (induction xs arbitrary: s)
  case (Cons x xs)
  then show ?case by (cases "visit x s") simp_all
qed simp

text \<open>Visits below a limit; a bit above it, or a visit that stops, is no result.\<close>

definition visit_below :: "nat \<Rightarrow> (nat \<Rightarrow> 's \<Rightarrow> 's option) \<Rightarrow> nat list \<Rightarrow> 's \<Rightarrow> 's option" where
  "visit_below limit visit ks s = (if \<forall>k\<in>set ks. k < limit then visit_bits visit ks s else None)"

lemma visit_below_append:
  "visit_below limit visit (xs @ ys) s = Option.bind (visit_below limit visit xs s) (visit_below limit visit ys)"
  by (cases "visit_bits visit xs s") (auto simp: visit_below_def visit_bits_append)

lemma trailing_zeros_bit:
  assumes "w \<noteq> 0"
  shows "bit w (trailing_zeros w)" "trailing_zeros w < 64" "k < trailing_zeros w \<Longrightarrow> \<not> bit w k"
proof -
  let ?xs = "takeWhile (\<lambda>n. \<not> bit w n) [0..<64]"
  obtain n where n: "bit w n" using assms by (metis bit_eq_iff bit_0_eq bot_apply bot_bool_def)
  then have "n < 64" using bit_imp_le_length by fastforce
  then have "?xs \<noteq> [0..<64]" using n by (auto simp: takeWhile_eq_all_conv)
  then have short: "length ?xs < length [0..<64]"
    by (metis length_takeWhile_le nat_less_le takeWhile_eq_take take_all order_refl)
  then show "trailing_zeros w < 64" by (simp add: trailing_zeros_def)
  from nth_length_takeWhile [OF short] short show "bit w (trailing_zeros w)" by (simp add: trailing_zeros_def)
  show "\<not> bit w k" if "k < trailing_zeros w"
  proof -
    have "?xs ! k = k" using that short takeWhile_nth [of k "\<lambda>n. \<not> bit w n" "[0..<64]"] by (simp add: trailing_zeros_def)
    then have "k \<in> set ?xs" using that nth_mem [of k ?xs] by (simp add: trailing_zeros_def)
    then show ?thesis by (auto dest: set_takeWhileD)
  qed
qed

lemma clear_lowest_bit:
  assumes "w \<noteq> 0"
  shows "bit (w AND (w - 1)) k \<longleftrightarrow> bit w k \<and> k \<noteq> trailing_zeros w"
proof -
  let ?t = "trailing_zeros w" and ?u = "unset_bit (trailing_zeros w) w"
  note t = trailing_zeros_bit [OF assms]
  have "?u AND 2 ^ ?t = 0" by (rule bit_eqI) (auto simp: bit_simps)
  then have "?u + 2 ^ ?t = ?u OR 2 ^ ?t" by (rule disjunctive_add_eq_or)
  also have "\<dots> = w" using t(1) by (intro bit_eqI) (auto simp: bit_simps)
  finally have "w - 1 = ?u + (2 ^ ?t - 1)" by (metis add_diff_eq)
  also have "\<dots> = ?u + mask ?t" by (simp add: mask_eq_exp_minus_1)
  also have "\<dots> = ?u OR mask ?t"
  proof (rule disjunctive_add_eq_or)
    show "?u AND mask ?t = 0" by (rule bit_eqI) (use t(3) in \<open>auto simp: bit_simps\<close>)
  qed
  finally have "w - 1 = ?u OR mask ?t" .
  then show ?thesis using t by (auto simp: bit_simps)
qed

lemma lowest_bit_first:
  assumes "w \<noteq> 0"
  shows "filter (bit w) [0..<64] = trailing_zeros w # filter (bit (w AND (w - 1))) [0..<64]"
proof -
  let ?t = "trailing_zeros w" and ?v = "w AND (w - 1)"
  note t = trailing_zeros_bit [OF assms] and v = clear_lowest_bit [OF assms]
  have "[0..<64] = [0..<?t] @ [?t..<64]" using t(2) upt_add_eq_append [of 0 ?t "64 - ?t"] by simp
  also have "[?t..<64] = ?t # [Suc ?t..<64]" using t(2) by (simp add: upt_conv_Cons del: upt_Suc)
  finally have u: "[0..<64] = [0..<?t] @ ?t # [Suc ?t..<64]" .
  have low: "filter (bit w) [0..<?t] = []" "filter (bit ?v) [0..<?t] = []" using t(3) v by (auto simp: filter_empty_conv)
  have high: "filter (bit ?v) [Suc ?t..<64] = filter (bit w) [Suc ?t..<64]" by (rule filter_cong) (auto simp: v)
  have "bit w ?t" "\<not> bit ?v ?t" using t(1) v by simp_all
  then show ?thesis unfolding u filter_append low by (simp add: high del: upt_Suc)
qed

lemma literal_loop_visits:
  assumes "position + 64 \<le> 2 ^ 64"
  shows "literal_loop limit visit position literal s =
    visit_below limit visit (map ((+) position) (filter (bit literal) [0..<64])) s"
  using assms
proof (induction limit visit position literal s rule: literal_loop.induct)
  case (1 limit visit position literal s)
  show ?case
  proof (cases "literal = 0")
    case True
    then show ?thesis by (simp add: literal_loop.simps [of _ _ _ 0] visit_below_def)
  next
    case False
    let ?k = "position + trailing_zeros literal" and ?v = "literal AND (literal - 1)"
    have k: "usize_checked ?k = Some ?k" using trailing_zeros_bit(2) [OF False] 1(2) by (simp add: usize_checked_def)
    have IH: "literal_loop limit visit position ?v s' = visit_below limit visit (map ((+) position) (filter (bit ?v) [0..<64])) s'"
      if "\<not> limit \<le> ?k" "visit ?k s = Some s'" for s'
      using 1(1) [OF False k that] 1(2) by simp
    have "literal_loop limit visit position literal s =
        (if limit \<le> ?k then None else Option.bind (visit ?k s) (literal_loop limit visit position ?v))"
      using False by (subst literal_loop.simps) (simp add: k)
    also have "\<dots> = visit_below limit visit (?k # map ((+) position) (filter (bit ?v) [0..<64])) s"
      using IH by (cases "visit ?k s") (auto simp: visit_below_def)
    finally show ?thesis by (simp only: lowest_bit_first [OF False] list.map)
  qed
qed

lemma ewah_word_at:
  assumes "i < length words" "length pre = 8"
  shows "ewah_word (pre @ concat (map (to_be 8) words) @ rest) i = Some (words ! i)"
proof -
  have concat: "length (concat (map (to_be 8) ws)) = 8 * length ws" for ws :: "u64 list" by (induction ws) simp_all
  have "words = take i words @ words ! i # drop (Suc i) words" using assms(1) by (rule id_take_nth_drop)
  then have "concat (map (to_be 8) words) = concat (map (to_be 8) (take i words)) @ to_be 8 (words ! i) @ concat (map (to_be 8) (drop (Suc i) words))"
    by (metis append_Cons concat.simps(2) concat_append list.map(2) map_append)
  then have d: "drop (8 + i * 8) (pre @ concat (map (to_be 8) words) @ rest) =
      to_be 8 (words ! i) @ concat (map (to_be 8) (drop (Suc i) words)) @ rest"
    using assms by (simp add: concat min_absorb2)
  have "8 + i * 8 + 8 \<le> length (pre @ concat (map (to_be 8) words) @ rest)" using assms by (simp add: concat)
  then show ?thesis by (simp add: ewah_word_def get_range_def d del: drop_append)
qed

lemma literal_words_visits:
  assumes "\<forall>i<length ls. ewah_word bytes (index + i) = Some (ls ! i)" "index + length ls \<le> words"
    and "position + 64 * length ls < 2 ^ 64"
  shows "literal_words bytes words limit visit (length ls) index position s =
    map_option (\<lambda>s. (index + length ls, position + 64 * length ls, s)) (visit_below limit visit (literal_bits position ls) s)"
  using assms
proof (induction ls arbitrary: index position s)
  case (Cons l ls)
  have word: "ewah_word bytes index = Some l" using Cons.prems(1) by (metis add_0_right length_greater_0_conv list.discI nth_Cons_0)
  have later: "\<forall>i<length ls. ewah_word bytes (index + 1 + i) = Some (ls ! i)"
    using Cons.prems(1) by (metis Suc_less_eq add.assoc add.commute length_Cons nth_Cons_Suc plus_1_eq_Suc)
  have pos: "usize_checked (position + 64) = Some (position + 64)" using Cons.prems(3) by (simp add: usize_checked_def)
  have IH: "literal_words bytes words limit visit (length ls) (index + 1) (position + 64) s' =
      map_option (\<lambda>s. (index + 1 + length ls, position + 64 + 64 * length ls, s)) (visit_below limit visit (literal_bits (position + 64) ls) s')" for s'
    by (rule Cons.IH [OF later]) (use Cons.prems in simp_all)
  have "index < words" "position + 64 \<le> 2 ^ 64" using Cons.prems by simp_all
  then show ?case
    using IH by (cases "visit_below limit visit (map ((+) position) (filter (bit l) [0..<64])) s")
      (simp_all add: word pos literal_loop_visits visit_below_append add.assoc)
qed (simp add: visit_below_def)

lemma marker_fields:
  assumes "segment_ok (b, run, ls)"
  shows "(ewah_marker b run (length ls) AND 1 \<noteq> 0) = b"
    "unat (drop_bit 1 (ewah_marker b run (length ls)) AND 0xFFFFFFFF) = run"
    "unat (drop_bit 33 (ewah_marker b run (length ls))) = length ls"
proof -
  let ?n = "of_bool b + 2 * run + 2 ^ 33 * length ls" and ?m = "ewah_marker b run (length ls)"
  have ok: "run < 2 ^ 32" "length ls < 2 ^ 31" using assms by (simp_all add: segment_ok_def)
  then have bound: "?n < 2 ^ 64" by (simp add: of_bool_def)
  have "unat (of_nat k :: u64) = k" if "k < 2 ^ 64" for k using that by (simp add: unat_of_nat)
  from this [OF bound] have m: "unat ?m = ?n" unfolding ewah_marker_def .
  have "?m AND 1 \<noteq> 0 \<longleftrightarrow> bit ?m 0" by (simp add: and_one_eq bit_0 mod2_eq_if)
  also have "\<dots> \<longleftrightarrow> odd (unat ?m)" using bit_unsigned_iff [of ?m 0, where ?'a = nat] by (simp add: bit_0)
  finally have "?m AND 1 \<noteq> 0 \<longleftrightarrow> odd (unat ?m)" .
  then show "(?m AND 1 \<noteq> 0) = b" unfolding m by simp
  have half: "?n div 2 = run + 2 ^ 32 * length ls" by (cases b) simp_all
  have "(0xFFFFFFFF :: u64) = mask 32" by (simp add: mask_eq_exp_minus_1)
  then have "drop_bit 1 ?m AND 0xFFFFFFFF = take_bit 32 (drop_bit 1 ?m)" by (simp add: take_bit_eq_mask)
  then have "unat (drop_bit 1 ?m AND 0xFFFFFFFF) = take_bit 32 (drop_bit 1 (unat ?m))"
    by (simp only: unsigned_take_bit_eq unat_drop_bit_eq)
  then show "unat (drop_bit 1 ?m AND 0xFFFFFFFF) = run"
    using ok unfolding m by (simp add: take_bit_eq_mod drop_bit_eq_div half)
  have "unat (drop_bit 33 ?m) = drop_bit 33 (unat ?m)" by (rule unat_drop_bit_eq)
  also have "\<dots> = ?n div 2 ^ 33" unfolding m by (rule drop_bit_eq_div)
  finally have "unat (drop_bit 33 ?m) = ?n div 2 ^ 33" .
  then show "unat (drop_bit 33 ?m) = length ls" using ok by (cases b) simp_all
qed

lemma ewah_loop_visits:
  assumes "\<forall>i<length (ewah_words segs). ewah_word bytes (index + i) = Some (ewah_words segs ! i)"
    and "words = index + length (ewah_words segs)" "list_all segment_ok segs" "position + segments_length segs < 2 ^ 64"
  shows "ewah_loop bytes words limit visit index position s = visit_below limit visit (segment_bits position segs) s"
  using assms
proof (induction segs arbitrary: index position s)
  case Nil
  then show ?case by (simp add: ewah_loop.simps ewah_words_def visit_below_def)
next
  case (Cons seg segs)
  obtain b run ls where seg: "seg = (b, run, ls)" by (metis prod_cases3)
  let ?m = "ewah_marker b run (length ls)" and ?stop = "position + run * 64"
  have ok: "segment_ok (b, run, ls)" using Cons.prems(3) by (simp add: seg)
  note m = marker_fields [OF ok]
  have words: "ewah_words (seg # segs) = ?m # ls @ ewah_words segs" by (simp add: ewah_words_def seg)
  have at_index: "ewah_word bytes index = Some ?m" using Cons.prems(1) unfolding words by force
  have lits: "\<forall>i<length ls. ewah_word bytes (index + 1 + i) = Some (ls ! i)"
  proof (intro allI impI)
    fix i
    assume "i < length ls"
    then show "ewah_word bytes (index + 1 + i) = Some (ls ! i)"
      using spec [OF Cons.prems(1), of "Suc i"] unfolding words by (simp add: nth_append)
  qed
  have more: "\<forall>i<length (ewah_words segs). ewah_word bytes (index + 1 + length ls + i) = Some (ewah_words segs ! i)"
  proof (intro allI impI)
    fix i
    assume "i < length (ewah_words segs)"
    then show "ewah_word bytes (index + 1 + length ls + i) = Some (ewah_words segs ! i)"
      using spec [OF Cons.prems(1), of "Suc (length ls + i)"] unfolding words by (simp add: nth_append add.assoc)
  qed
  have len: "?stop + 64 * length ls + segments_length segs < 2 ^ 64"
    using Cons.prems(4) by (simp add: segments_length_def seg)
  then have run: "usize_checked (run * 64) = Some (run * 64)" "usize_checked ?stop = Some ?stop"
    by (simp_all add: usize_checked_def)
  let ?ones = "if b then [position..<?stop] else []"
  have ones: "(if b then if limit < ?stop then None else visit_bits visit [position..<?stop] s else Some s) =
      visit_below limit visit ?ones s"
  proof (cases "b \<and> limit < ?stop")
    case True
    then have "?stop - 1 \<in> set [position..<?stop]" "limit \<le> ?stop - 1" using ok by (auto simp: segment_ok_def)
    then have "\<not> (\<forall>k\<in>set [position..<?stop]. k < limit)" by (meson not_le)
    then show ?thesis using True by (auto simp: visit_below_def)
  qed (auto simp: visit_below_def)
  have words_eq: "words = index + 1 + length ls + length (ewah_words segs)" using Cons.prems(2) unfolding words by simp
  have IH: "ewah_loop bytes words limit visit (index + 1 + length ls) (?stop + 64 * length ls) s' =
      visit_below limit visit (segment_bits (?stop + 64 * length ls) segs) s'" for s'
    by (rule Cons.IH [OF more words_eq]) (use Cons.prems(3) len in simp_all)
  have lw: "literal_words bytes words limit visit (length ls) (index + 1) ?stop s' =
      map_option (\<lambda>s. (index + 1 + length ls, ?stop + 64 * length ls, s)) (visit_below limit visit (literal_bits ?stop ls) s')" for s'
    by (rule literal_words_visits [OF lits]) (use words_eq len in simp_all)
  have "ewah_loop bytes words limit visit index position s =
      Option.bind (visit_below limit visit ?ones s) (\<lambda>s. Option.bind (literal_words bytes words limit visit (length ls) (index + 1) ?stop s)
        (\<lambda>(index, position, s). ewah_loop bytes words limit visit index position s))"
    using words_eq by (subst ewah_loop.simps) (simp only: at_index m run ones Let_def bind.bind_lunit if_True, simp add: at_index m run ones [symmetric])
  also have "\<dots> = visit_below limit visit (segment_bits position (seg # segs)) s"
    unfolding lw seg segment_bits.simps visit_below_append
    by (cases "visit_below limit visit ?ones s"; simp)
      (auto simp: IH [simplified] bind_map_option comp_def split: bind_split)
  finally show ?case .
qed

lemma ewah_len_written:
  assumes "length (ewah_words segs) < 2 ^ 32"
  shows "ewah_len (ewah_bytes bits segs marker_at @ rest) = Some (length (ewah_bytes bits segs marker_at))"
    "length (ewah_bytes bits segs marker_at) = 12 + 8 * length (ewah_words segs)"
proof -
  have concat: "length (concat (map (to_be 8) ws)) = 8 * length ws" for ws :: "u64 list" by (induction ws) simp_all
  show len: "length (ewah_bytes bits segs marker_at) = 12 + 8 * length (ewah_words segs)"
    by (simp add: ewah_bytes_def concat)
  have "get_range (ewah_bytes bits segs marker_at @ rest) 4 8 = Some (to_be 4 (of_nat (length (ewah_words segs)) :: u32))"
    by (simp add: get_range_def ewah_bytes_def)
  moreover have "unat (of_nat (length (ewah_words segs)) :: u32) = length (ewah_words segs)"
    using assms by (simp add: unat_of_nat)
  ultimately show "ewah_len (ewah_bytes bits segs marker_at @ rest) = Some (length (ewah_bytes bits segs marker_at))"
    using assms by (simp add: ewah_len_def usize_checked_def len Let_def)
qed

definition bitmap_ok :: "ewah_segment list \<Rightarrow> bool" where
  "bitmap_ok segs \<longleftrightarrow> list_all segment_ok segs \<and> length (ewah_words segs) < 2 ^ 32 \<and> segments_length segs < 2 ^ 64"

lemma read_ewah_written:
  assumes "bitmap_ok segs"
  shows "read_ewah (ewah_bytes bits segs marker_at) limit visit s = visit_below limit visit (segment_bits 0 segs) s"
proof -
  have ok: "list_all segment_ok segs" "length (ewah_words segs) < 2 ^ 32" "segments_length segs < 2 ^ 64"
    using assms by (simp_all add: bitmap_ok_def)
  let ?bytes = "ewah_bytes bits segs marker_at"
  have len: "ewah_len ?bytes = Some (12 + 8 * length (ewah_words segs))"
    using ewah_len_written(1) [OF ok(2), of bits marker_at "[]"] ewah_len_written(2) [OF ok(2), of bits marker_at] by simp
  have "?bytes \<noteq> []" using ewah_len_written(2) [OF ok(2), of bits marker_at] by auto
  moreover have "ewah_word ?bytes (0 + i) = Some (ewah_words segs ! i)" if "i < length (ewah_words segs)" for i
    using ewah_word_at [OF that, of "to_be 4 bits @ to_be 4 (of_nat (length (ewah_words segs)) :: u32)" "to_be 4 marker_at"]
    by (simp add: ewah_bytes_def)
  ultimately show ?thesis
    using ewah_loop_visits [of segs ?bytes 0 "length (ewah_words segs)" 0 limit visit s] ok len by (simp add: read_ewah_def)
qed

section \<open>Extensions behind the entries\<close>

definition extension_bytes :: "byte list \<times> byte list \<Rightarrow> byte list" where
  "extension_bytes = (\<lambda>(signature, data). signature @ to_be 4 (of_nat (length data) :: u32) @ data)"

definition other_extension :: "byte list \<times> byte list \<Rightarrow> bool" where
  "other_extension = (\<lambda>(signature, data). length signature = 4 \<and> signature \<noteq> LINK \<and> length data < 2 ^ 32)"

lemma extension_step:
  assumes "drop pos bytes = extension_bytes (sig, data) @ rest" "length sig = 4" "length data < 2 ^ 32"
    and "20 \<le> length rest" "length bytes < 2 ^ 64"
  shows "extension bytes pos signature =
    (if sig = signature then Some data else extension bytes (pos + length (extension_bytes (sig, data))) signature)"
proof -
  have d: "drop pos bytes = sig @ to_be 4 (of_nat (length data) :: u32) @ data @ rest"
    using assms(1) by (simp add: extension_bytes_def)
  have "length (drop pos bytes) = 8 + length data + length rest" unfolding d using assms(2) by simp
  then have len: "length bytes = pos + 8 + length data + length rest" by simp
  have header: "get_range bytes pos (pos + 8) = Some (sig @ to_be 4 (of_nat (length data) :: u32))"
    using assms(2) by (simp add: get_range_def len d)
  have size: "unat (of_nat (length data) :: u32) = length data" using assms(3) by (simp add: unat_of_nat)
  have "drop (pos + 8) bytes = drop 8 (drop pos bytes)" by (simp add: add.commute)
  then have body: "drop (pos + 8) bytes = data @ rest" unfolding d using assms(2) by simp
  have l: "length (extension_bytes (sig, data)) = 8 + length data" using assms(2) by (simp add: extension_bytes_def)
  have checked: "usize_checked (pos + 8) = Some (pos + 8)" "usize_checked (pos + 8 + length data) = Some (pos + 8 + length data)"
    "usize_checked (28 + pos + length data) = Some (28 + pos + length data)"
    using len assms(4,5) by (simp_all add: usize_checked_def)
  show ?thesis
    unfolding l using assms(2,4) len
    by (subst extension.simps) (simp add: checked header size Let_def MIN_TRAILER_def body add.assoc [symmetric])
qed

lemma extensions_skipped:
  assumes "drop pos bytes = concat (map extension_bytes exts) @ rest" "list_all other_extension exts"
    and "20 \<le> length rest" "length bytes < 2 ^ 64"
  shows "extension bytes pos LINK = extension bytes (pos + length (concat (map extension_bytes exts))) LINK"
  using assms(1,2)
proof (induction exts arbitrary: pos)
  case (Cons ext exts)
  obtain sig data where ext: "ext = (sig, data)" by (cases ext)
  have d: "drop pos bytes = extension_bytes (sig, data) @ (concat (map extension_bytes exts) @ rest)"
    using Cons.prems(1) by (simp add: ext)
  have ok: "length sig = 4" "sig \<noteq> LINK" "length data < 2 ^ 32" using Cons.prems(2) by (simp_all add: ext other_extension_def)
  have "extension bytes pos LINK = extension bytes (pos + length (extension_bytes (sig, data))) LINK"
    using extension_step [OF d ok(1,3) _ assms(4), of LINK] ok(2) assms(3) by simp
  also have "\<dots> = extension bytes (pos + length (extension_bytes (sig, data)) + length (concat (map extension_bytes exts))) LINK"
  proof (rule Cons.IH)
    show "drop (pos + length (extension_bytes (sig, data))) bytes = concat (map extension_bytes exts) @ rest"
      using d by (metis append_eq_conv_conj drop_drop add.commute)
  qed (use Cons.prems(2) in simp)
  finally show ?case by (simp add: ext add.assoc)
qed simp

lemma extension_trailer:
  assumes "length bytes < pos + 28" "length bytes < 2 ^ 62"
  shows "extension bytes pos signature = None"
proof (cases "get_range bytes pos (pos + 8)")
  case (Some header)
  then have "pos + 8 \<le> length bytes" by (simp add: get_range_def split: if_splits)
  then show ?thesis using assms
    by (subst extension.simps) (auto simp: usize_checked_def MIN_TRAILER_def Let_def bind_eq_None_conv split: bind_split)
next
  case None
  then show ?thesis
    by (subst extension.simps) (auto simp: usize_checked_def split: bind_split)
qed

section \<open>The tracked paths of a written index\<close>

definition indexed_paths :: "(nat \<Rightarrow> bool) \<Rightarrow> git_entry list \<Rightarrow> path set" where
  "indexed_paths keep es = {normalise (ge_path (es ! i)) | i. i < length es \<and> keep i \<and> valid_utf8 (ge_path (es ! i))}"

lemma Collect_less_Suc:
  "{f i | i. i < Suc m \<and> Q i} = (if Q 0 then {f 0} else {}) \<union> {f (Suc i) | i. i < m \<and> Q (Suc i)}"
  by (auto simp: less_Suc_eq_0_disj; blast)

lemma fold_insert_paths:
  "fold (\<lambda>(entry, p) paths. if keep entry then insert_path p paths else paths) (zip [n..<n + length es] (map ge_path es)) paths =
     paths \<union> {normalise (ge_path (es ! i)) | i. i < length es \<and> keep (n + i) \<and> valid_utf8 (ge_path (es ! i))}"
proof (induction es arbitrary: n paths)
  case (Cons e es)
  have "[n..<n + length (e # es)] = n # [n + 1..<n + 1 + length es]" by (simp add: upt_conv_Cons del: upt_Suc)
  then have "fold (\<lambda>(entry, p) paths. if keep entry then insert_path p paths else paths)
        (zip [n..<n + length (e # es)] (map ge_path (e # es))) paths =
      (if keep n then insert_path (ge_path e) paths else paths) \<union>
        {normalise (ge_path (es ! i)) | i. i < length es \<and> keep (n + 1 + i) \<and> valid_utf8 (ge_path (es ! i))}"
    by (simp only: list.map zip_Cons_Cons fold_Cons comp_apply prod.case Cons.IH)
  also have "\<dots> = paths \<union> {normalise (ge_path ((e # es) ! i)) | i. i < length (e # es) \<and> keep (n + i) \<and> valid_utf8 (ge_path ((e # es) ! i))}"
    using Collect_less_Suc [of "\<lambda>i. normalise (ge_path ((e # es) ! i))" "length es" "\<lambda>i. keep (n + i) \<and> valid_utf8 (ge_path ((e # es) ! i))"]
    by (simp add: insert_path_def)
  finally show ?case .
qed simp

lemma fold_all_paths:
  "fold (\<lambda>(_, p). insert_path p) (zip [0..<length es] (map ge_path es)) {} = indexed_paths (\<lambda>_. True) es"
  using fold_insert_paths [of "\<lambda>_. True" 0 es "{}"] by (simp add: indexed_paths_def case_prod_unfold)

lemma whole_index_read:
  assumes "entries_ok ver es" "list_all other_extension exts" "20 \<le> length trailer" "length trailer < 28"
    and "file = index_bytes ver es @ concat (map extension_bytes exts) @ trailer" "length file < 2 ^ 62"
    and memchr: "finds_first memchr"
  shows "walk_entries memchr file = Some (zip [0..<length es] (map ge_path es), length (index_bytes ver es))"
    "extension file (length (index_bytes ver es)) LINK = None" "index_header file = Some (ver, length es)"
proof -
  let ?rest = "concat (map extension_bytes exts) @ trailer"
  have len: "length (index_bytes ver es @ ?rest) < 2 ^ 64" using assms(5,6) by simp
  show "walk_entries memchr file = Some (zip [0..<length es] (map ge_path es), length (index_bytes ver es))"
    using walk_entries_written [OF assms(1) len memchr] by (simp add: assms(5))
  have d: "drop (length (index_bytes ver es)) file = concat (map extension_bytes exts) @ trailer" by (simp add: assms(5))
  have len64: "length file < 2 ^ 64" using assms(6) by simp
  have "extension file (length (index_bytes ver es)) LINK =
      extension file (length (index_bytes ver es) + length (concat (map extension_bytes exts))) LINK"
    by (rule extensions_skipped [OF d assms(2,3) len64])
  also have "\<dots> = None" by (rule extension_trailer [OF _ assms(6)]) (use assms(4,5) in simp)
  finally show "extension file (length (index_bytes ver es)) LINK = None" .
  show "index_header file = Some (ver, length es)" using index_bytes_header [OF assms(1), of ?rest] by (simp add: assms(5))
qed

text \<open>C11. An index that Git writes in any of the versions 2 to 4, with any extensions but a link, is read back
  exactly: the tracked paths are its entries, normalised, but those that are not UTF-8.\<close>

theorem git_index_reads_back:
  assumes "entries_ok ver es" "list_all other_extension exts" "20 \<le> length trailer" "length trailer < 28"
    and "file = index_bytes ver es @ concat (map extension_bytes exts) @ trailer" "length file < 2 ^ 62"
    and memchr: "finds_first memchr"
  shows "parse_index_with memchr file shared = Some (tracked_unordered (indexed_paths (\<lambda>_. True) es))"
  using whole_index_read [OF assms] by (simp add: parse_index_with_def fold_all_paths)

section \<open>A split index\<close>

text \<open>A bitmap as Git writes it: the number of its bits, its words, and the position of its last marker.\<close>

record written_bitmap =
  wb_bits :: u32
  wb_segments :: "ewah_segment list"
  wb_marker :: u32

definition bitmap_bytes :: "written_bitmap \<Rightarrow> byte list" where
  "bitmap_bytes b = ewah_bytes (wb_bits b) (wb_segments b) (wb_marker b)"

definition bits_of :: "written_bitmap \<Rightarrow> nat list" where
  "bits_of b = segment_bits 0 (wb_segments b)"

definition link_data :: "byte list \<Rightarrow> written_bitmap \<Rightarrow> written_bitmap \<Rightarrow> byte list" where
  "link_data name deletes replaces = name @ bitmap_bytes deletes @ bitmap_bytes replaces"

lemma link_parse_written:
  assumes "bitmap_ok (wb_segments deletes)" "bitmap_ok (wb_segments replaces)" "length name = 20"
  shows "link_parse (link_data name deletes replaces) 20 =
    Some \<lparr>base = name, delete_bits = bitmap_bytes deletes, replace_bits = bitmap_bytes replaces\<rparr>"
proof -
  have w: "length (ewah_words (wb_segments deletes)) < 2 ^ 32" "length (ewah_words (wb_segments replaces)) < 2 ^ 32"
    using assms by (simp_all add: bitmap_ok_def)
  have base: "get_range (link_data name deletes replaces) 0 20 = Some name" using assms(3) by (simp add: get_range_def link_data_def)
  have rest: "drop 20 (link_data name deletes replaces) = bitmap_bytes deletes @ bitmap_bytes replaces"
    using assms(3) by (simp add: link_data_def)
  have "bitmap_bytes deletes \<noteq> []"
    using ewah_len_written(2) [OF w(1), of "wb_bits deletes" "wb_marker deletes"] by (auto simp: bitmap_bytes_def)
  moreover have "ewah_len (bitmap_bytes replaces) = Some (length (bitmap_bytes replaces))"
    using ewah_len_written(1) [OF w(2), of _ _ "[]"] by (simp add: bitmap_bytes_def)
  moreover have "ewah_len (bitmap_bytes deletes @ bitmap_bytes replaces) = Some (length (bitmap_bytes deletes))"
    using ewah_len_written(1) [OF w(1)] by (simp add: bitmap_bytes_def)
  ultimately show ?thesis by (simp add: link_parse_def base rest Let_def)
qed

lemma bitmap_read:
  "bitmap_ok (wb_segments b) \<Longrightarrow> read_ewah (bitmap_bytes b) limit visit s = visit_below limit visit (bits_of b) s"
  by (simp add: bitmap_bytes_def bits_of_def read_ewah_written)

lemma visit_deletes:
  "visit_bits (\<lambda>position deleted. Some (deleted[position := True])) ks ds = Some (fold (\<lambda>k ds. ds[k := True]) ks ds)"
  by (induction ks arbitrary: ds) simp_all

lemma fold_deletes:
  "length (fold (\<lambda>k ds. ds[k := True]) ks ds) = length ds"
  "i < length ds \<Longrightarrow> fold (\<lambda>k ds. ds[k := True]) ks ds ! i \<longleftrightarrow> ds ! i \<or> i \<in> set ks"
proof (induction ks arbitrary: ds)
  case (Cons k ks)
  {
    case 1
    show ?case using Cons.IH by simp
  next
    case 2
    then show ?case using Cons.IH(2) [of "ds[k := True]"] by (cases "k < length ds") (auto simp: nth_list_update list_update_beyond)
  }
qed simp_all

lemma visit_replaces:
  "\<forall>k\<in>set ks. \<not> ds ! k \<Longrightarrow>
    visit_bits (\<lambda>position replaced. if \<not> ds ! position then Some (replaced + 1) else None) ks n = Some (n + length ks)"
  by (induction ks arbitrary: n) simp_all

lemma entry_long: "entry_ok ver e \<Longrightarrow> 63 \<le> length (entry_bytes ver previous e)"
proof -
  assume "entry_ok ver e"
  then have h: "62 \<le> length (entry_head e)" by (simp add: entry_head_def entry_ok_def)
  then show ?thesis
  proof (cases "ver \<ge> 4")
    case False
    have "length (padded (entry_head e @ ge_path e)) = length (entry_head e @ ge_path e) + (8 - length (entry_head e @ ge_path e) mod 8)"
      by (simp add: padded_def)
    moreover have "length (entry_head e @ ge_path e) mod 8 < 8" by simp
    ultimately have "length (padded (entry_head e @ ge_path e)) > length (entry_head e @ ge_path e)" by linarith
    then show ?thesis using h False by (simp add: entry_bytes_def)
  qed (simp add: entry_bytes_def Let_def)
qed

lemma entries_long:
  "\<forall>e\<in>set es. entry_ok ver e \<Longrightarrow> 63 * length es \<le> length (entries_bytes ver previous es)"
proof (induction es arbitrary: previous)
  case (Cons e es)
  have "63 \<le> length (entry_bytes ver previous e)" using Cons.prems by (intro entry_long) simp
  with Cons show ?case by (simp add: add_mono)
qed simp

lemma capacity_written:
  assumes "entries_ok ver es"
  shows "min (length es) (entry_capacity (index_bytes ver es @ rest) (length es)) = length es"
proof -
  have "63 * length es \<le> length (entries_bytes ver [] es)" using assms by (intro entries_long) (simp add: entries_ok_def)
  then have "63 * length es \<le> length (index_bytes ver es @ rest) - 12" by (simp add: index_bytes_def DIRC_def)
  then have "length es \<le> (length (index_bytes ver es @ rest) - 12) div 63" by (simp add: less_eq_div_iff_mult_less_eq mult.commute)
  then show ?thesis by (simp add: entry_capacity_def ENTRY_HEADER_def)
qed

text \<open>C12. A split index and its shared index, as Git writes them, are merged as Git does: the tracked paths are the
  entries of the shared index that the delete bitmap keeps, and the entries of the split index
  behind those that only replace an entry of the shared one.  The bitmaps may be any runs and literal words, with
  any number of bits and any position of the last marker recorded in them.\<close>

theorem split_index_merges:
  assumes shared_index: "entries_ok v1 es1" "list_all other_extension exts1" "length name = 20"
      "shared_file = index_bytes v1 es1 @ concat (map extension_bytes exts1) @ name" "length shared_file < 2 ^ 62"
    and split_index: "entries_ok v2 es2" "list_all other_extension exts2" "20 \<le> length rest"
      "split_file = index_bytes v2 es2 @ concat (map extension_bytes exts2) @
         extension_bytes (LINK, link_data name deletes replaces) @ rest" "length split_file < 2 ^ 62"
    and bitmaps: "bitmap_ok (wb_segments deletes)" "bitmap_ok (wb_segments replaces)" "length (link_data name deletes replaces) < 2 ^ 32"
      "\<forall>k\<in>set (bits_of deletes) \<union> set (bits_of replaces). k < length es1"
      "set (bits_of deletes) \<inter> set (bits_of replaces) = {}"
      "length (bits_of replaces) \<le> length es2"
    and found: "\<exists>b\<in>set name. b \<noteq> 0" "shared (hex name) = Some shared_file" and memchr: "finds_first memchr"
  shows "parse_index_with memchr split_file shared = Some (tracked_unordered
    (indexed_paths (\<lambda>i. i \<notin> set (bits_of deletes)) es1 \<union>
     indexed_paths (\<lambda>i. length (bits_of replaces) \<le> i) es2))"
proof -
  let ?link = "\<lparr>base = name, delete_bits = bitmap_bytes deletes, replace_bits = bitmap_bytes replaces\<rparr>"
  let ?n = "length es1" and ?D = "bits_of deletes" and ?R = "bits_of replaces"
  have name: "20 \<le> length name" "length name < 28" using shared_index(3) by simp_all
  note sh = whole_index_read [OF shared_index(1,2) name shared_index(4,5) memchr]
  have len: "length split_file < 2 ^ 64" using split_index(5) by simp
  have split_walk: "walk_entries memchr split_file = Some (zip [0..<length es2] (map ge_path es2), length (index_bytes v2 es2))"
    using walk_entries_written [OF split_index(1) _ memchr, of "drop (length (index_bytes v2 es2)) split_file"] len by (simp add: split_index(4))
  have split_header: "index_header split_file = Some (v2, length es2)"
    using index_bytes_header [OF split_index(1)] by (simp only: split_index(4))
  let ?pos = "length (index_bytes v2 es2)" and ?skip = "length (concat (map extension_bytes exts2))"
  have d: "drop ?pos split_file = concat (map extension_bytes exts2) @ (extension_bytes (LINK, link_data name deletes replaces) @ rest)"
    by (simp add: split_index(4))
  have "20 \<le> length (extension_bytes (LINK, link_data name deletes replaces) @ rest)" using split_index(3) by simp
  from extensions_skipped [OF d split_index(2) this len]
  have "extension split_file ?pos LINK = extension split_file (?pos + ?skip) LINK" .
  also have "\<dots> = Some (link_data name deletes replaces)"
  proof -
    have d': "drop (?pos + ?skip) split_file = extension_bytes (LINK, link_data name deletes replaces) @ rest"
      by (simp add: split_index(4))
    have "length LINK = 4" by (simp add: LINK_def)
    from extension_step [OF d' this bitmaps(3) split_index(3) len, of LINK] show ?thesis by simp
  qed
  finally have link: "extension split_file ?pos LINK = Some (link_data name deletes replaces)" .
  have cap: "min ?n (entry_capacity shared_file ?n) = ?n"
    unfolding shared_index(4) by (rule capacity_written [OF shared_index(1)])
  define deleted where "deleted = fold (\<lambda>k ds. ds[k := True]) ?D (replicate ?n False)"
  have del: "length deleted = ?n" "i < ?n \<Longrightarrow> deleted ! i \<longleftrightarrow> i \<in> set ?D" for i
    using fold_deletes(1) [where ks = ?D and ds = "replicate ?n False"]
      fold_deletes(2) [where i = i and ks = ?D and ds = "replicate ?n False"] by (simp_all add: deleted_def)
  have read_deletes: "read_ewah (bitmap_bytes deletes) ?n (\<lambda>position deleted. Some (deleted[position := True])) (replicate ?n False) = Some deleted"
    using bitmaps(4) by (simp add: bitmap_read [OF bitmaps(1)] visit_below_def visit_deletes deleted_def)
  have "\<forall>k\<in>set ?R. \<not> deleted ! k" using bitmaps(4,5) del by blast
  then have read_replaces: "read_ewah (bitmap_bytes replaces) ?n
      (\<lambda>position replaced. if \<not> deleted ! position then Some (replaced + 1) else None) (0 :: nat) = Some (length ?R)"
    using bitmaps(4) visit_replaces [of ?R deleted 0] by (simp add: bitmap_read [OF bitmaps(2)] visit_below_def)
  have kept: "{normalise (ge_path (es1 ! i)) | i. i < ?n \<and> (0 + i < length deleted \<and> \<not> deleted ! (0 + i)) \<and> valid_utf8 (ge_path (es1 ! i))} =
      indexed_paths (\<lambda>i. i \<notin> set ?D) es1"
    using del by (auto simp: indexed_paths_def)
  have merged: "merge_split memchr split_file shared_file ?link = Some (tracked_unordered
      (indexed_paths (\<lambda>i. i \<notin> set ?D) es1 \<union> indexed_paths (\<lambda>i. length ?R \<le> i) es2))"
    using bitmaps(6) fold_insert_paths [of "\<lambda>entry. entry < length deleted \<and> \<not> deleted ! entry" 0 es1 "{}"]
      fold_insert_paths [of "\<lambda>entry. length ?R \<le> entry" 0 es2 "indexed_paths (\<lambda>i. i \<notin> set ?D) es1"]
    unfolding kept
    by (simp add: merge_split_def shared_index(3) sh split_walk split_header Let_def cap read_deletes read_replaces
        indexed_paths_def [of "\<lambda>i. length ?R \<le> i"]) (simp add: shared_index(3,4))
  have "link_loop memchr split_file shared (link_data name deletes replaces) paths [20, 32] =
      merge_split memchr split_file shared_file ?link" for paths
    using found(1) by (auto simp: link_parse_written [OF bitmaps(1,2) shared_index(3)] found(2))
  then show ?thesis by (simp add: parse_index_with_def split_walk split_header link merged)
qed

text \<open>Small indices of version 2.\<close>

definition demo_entry :: "byte list \<Rightarrow> git_entry" where
  "demo_entry p = \<lparr>ge_stat = replicate 60 0, ge_flags = of_nat (length p), ge_second = [], ge_path = p\<rparr>"

lemma demo_entries_ok: "\<forall>p\<in>set ps. length p < 2 \<and> 0 \<notin> set p \<Longrightarrow> length ps < 3 \<Longrightarrow> entries_ok 2 (map demo_entry ps)"
proof -
  assume ps: "\<forall>p\<in>set ps. length p < 2 \<and> 0 \<notin> set p" "length ps < 3"
  have "unat ((of_nat (length p) :: u16) AND 0x0FFF) = length p" if "p \<in> set ps" for p
  proof -
    have "length p < 2" using ps(1) that by blast
    then have "length p = 0 \<or> length p = 1" by linarith
    then show ?thesis by auto
  qed
  moreover have "length p < 2" if "p \<in> set ps" for p using ps(1) that by blast
  ultimately show ?thesis using ps by (fastforce simp: entries_ok_def entry_ok_def demo_entry_def has_second_def)
qed

theorem git_index_reads_back_witness:
  "parse_index_with first_byte (index_bytes 2 [demo_entry [0x41]] @ replicate 20 0) (\<lambda>_. None) =
     Some (tracked_unordered (indexed_paths (\<lambda>_. True) [demo_entry [0x41]]))"
proof (rule git_index_reads_back)
  show "finds_first first_byte" by (rule first_byte_finds_first)
  show "entries_ok 2 [demo_entry [0x41]]" using demo_entries_ok [of "[[0x41]]"] by simp
  show "list_all other_extension []" "20 \<le> length (replicate 20 (0 :: byte))" "length (replicate 20 (0 :: byte)) < 28" by simp_all
  show "index_bytes 2 [demo_entry [0x41]] @ replicate 20 0 = index_bytes 2 [demo_entry [0x41]] @ concat (map extension_bytes []) @ replicate 20 0"
    by simp
  show "length (index_bytes 2 [demo_entry [0x41]] @ replicate 20 0) < 2 ^ 62"
    by (simp add: index_bytes_def DIRC_def entry_bytes_def padded_def entry_head_def demo_entry_def)
qed

definition one_bit :: "nat \<Rightarrow> written_bitmap" where
  "one_bit k = \<lparr>wb_bits = 64, wb_segments = [(False, 0, [push_bit k 1])], wb_marker = 0\<rparr>"

lemma one_bit_set: "bits_of (one_bit 0) = [0]" "bits_of (one_bit 1) = [1]"
  "bitmap_ok (wb_segments (one_bit k))" "length (ewah_words (wb_segments (one_bit k))) = 2"
proof -
  have "trailing_zeros 1 = 0" "trailing_zeros 2 = 1" by (simp_all add: trailing_zeros_def upt_rec)
  then show "bits_of (one_bit 0) = [0]" "bits_of (one_bit 1) = [1]"
    using lowest_bit_first [of 1] lowest_bit_first [of 2] by (simp_all add: one_bit_def bits_of_def)
  show "bitmap_ok (wb_segments (one_bit k))" "length (ewah_words (wb_segments (one_bit k))) = 2"
    by (simp_all add: one_bit_def bitmap_ok_def segment_ok_def ewah_words_def segments_length_def)
qed

theorem split_index_merges_witness:
  "parse_index_with first_byte (index_bytes 2 (map demo_entry [[], [0x43]]) @
       extension_bytes (LINK, link_data (replicate 20 1) (one_bit 0) (one_bit 1)) @ replicate 20 0)
     (\<lambda>_. Some (index_bytes 2 (map demo_entry [[0x41], [0x42]]) @ replicate 20 1)) =
   Some (tracked_unordered {[0x62], [0x63]})"
proof -
  let ?shared = "index_bytes 2 (map demo_entry [[0x41], [0x42]]) @ replicate 20 1"
  let ?link = "link_data (replicate 20 1) (one_bit 0) (one_bit 1)"
  have ok: "entries_ok 2 (map demo_entry [[0x41], [0x42]])" "entries_ok 2 (map demo_entry [[], [0x43]])"
    by (rule demo_entries_ok; simp)+
  have "length (bitmap_bytes (one_bit k)) = 28" for k
    using one_bit_set(4) [of k] ewah_len_written(2) [of "wb_segments (one_bit k)"] by (simp add: bitmap_bytes_def)
  then have link: "length ?link = 76" by (simp add: link_data_def)
  have sizes: "length (index_bytes 2 (map demo_entry [[0x41], [0x42]])) < 1000" "length (index_bytes 2 (map demo_entry [[], [0x43]])) < 1000"
    by (simp_all add: index_bytes_def DIRC_def entry_bytes_def padded_def entry_head_def demo_entry_def)
  have shared: "length ?shared < 2 ^ 62" using sizes by simp
  have split: "length (index_bytes 2 (map demo_entry [[], [0x43]]) @ concat (map extension_bytes []) @ extension_bytes (LINK, ?link) @ replicate 20 0) < 2 ^ 62"
    using sizes link by (simp add: extension_bytes_def LINK_def)
  have ascii: "normalise [0x42] = [0x62]" "normalise [0x43] = [0x63]" "valid_utf8 [0x42]" "valid_utf8 [0x43]"
    by (simp_all add: normalise_def trim_slashes_def to_ascii_lowercase_def is_ascii_uppercase_def ascii_valid)
  have paths: "indexed_paths (\<lambda>i. i \<notin> set [0]) (map demo_entry [[0x41], [0x42]]) = {[0x62]}"
    "indexed_paths (\<lambda>i. length [1 :: nat] \<le> i) (map demo_entry [[], [0x43]]) = {[0x63]}"
    unfolding indexed_paths_def using ascii by (simp_all add: Collect_less_Suc demo_entry_def)
  have "parse_index_with first_byte (index_bytes 2 (map demo_entry [[], [0x43]]) @ extension_bytes (LINK, ?link) @ replicate 20 0) (\<lambda>_. Some ?shared) =
      Some (tracked_unordered (indexed_paths (\<lambda>i. i \<notin> set (bits_of (one_bit 0))) (map demo_entry [[0x41], [0x42]]) \<union>
        indexed_paths (\<lambda>i. length (bits_of (one_bit 1)) \<le> i) (map demo_entry [[], [0x43]])))"
  proof (rule split_index_merges [where name = "replicate 20 1" and deletes = "one_bit 0" and replaces = "one_bit 1"])
    show "entries_ok 2 (map demo_entry [[0x41], [0x42]])" "entries_ok 2 (map demo_entry [[], [0x43]])" by (fact ok)+
    show "?shared = index_bytes 2 (map demo_entry [[0x41], [0x42]]) @ concat (map extension_bytes []) @ replicate 20 1" by simp
    show "index_bytes 2 (map demo_entry [[], [0x43]]) @ extension_bytes (LINK, ?link) @ replicate 20 0 =
        index_bytes 2 (map demo_entry [[], [0x43]]) @ concat (map extension_bytes []) @ extension_bytes (LINK, ?link) @ replicate 20 0" by simp
    show "length ?shared < 2 ^ 62" by (fact shared)
    show "length (index_bytes 2 (map demo_entry [[], [0x43]]) @ extension_bytes (LINK, ?link) @ replicate 20 0) < 2 ^ 62"
      using split by simp
    show "bitmap_ok (wb_segments (one_bit 0))" "bitmap_ok (wb_segments (one_bit 1))" by (rule one_bit_set(3))+
    show "length ?link < 2 ^ 32" using link by simp
    show "\<forall>k\<in>set (bits_of (one_bit 0)) \<union> set (bits_of (one_bit 1)). k < length (map demo_entry [[0x41], [0x42]])"
      "set (bits_of (one_bit 0)) \<inter> set (bits_of (one_bit 1)) = {}"
      "length (bits_of (one_bit 1)) \<le> length (map demo_entry [[], [0x43]])"
      by (simp_all only: one_bit_set) simp_all
  qed (simp_all add: first_byte_finds_first)
  then show ?thesis unfolding one_bit_set paths by (simp add: insert_commute)
qed

section \<open>Membership queries\<close>

lemma first_from_least:
  assumes "finite paths" "q \<in> paths" "key \<le> q"
  shows "\<exists>p\<in>paths. first_from key paths = Some p \<and> key \<le> p \<and> p \<le> q"
proof -
  have set: "set (sorted_list_of_set paths) = paths" using assms(1) by simp
  then have "find (\<lambda>p. key \<le> p) (sorted_list_of_set paths) \<noteq> None" using assms(2,3) by (auto simp: find_None_iff)
  then obtain p where p: "find (\<lambda>p. key \<le> p) (sorted_list_of_set paths) = Some p" by blast
  then obtain i where i: "i < length (sorted_list_of_set paths)" "key \<le> sorted_list_of_set paths ! i"
    "p = sorted_list_of_set paths ! i" "\<forall>j<i. \<not> key \<le> sorted_list_of_set paths ! j"
    using find_Some_iff [THEN iffD1, OF p] by blast
  obtain j where j: "j < length (sorted_list_of_set paths)" "sorted_list_of_set paths ! j = q"
    using assms(2) set by (metis in_set_conv_nth)
  have "i \<le> j" using i(4) j(2) assms(3) by (meson not_le)
  then have "p \<le> q" using sorted_nth_mono [OF sorted_sorted_list_of_set] i(3) j by blast
  moreover have "p \<in> paths" using i(1,3) set by (metis nth_mem)
  ultimately show ?thesis using i(2,3) p by (intro bexI [of _ p]) (simp_all add: first_from_def)
qed

text \<open>The search of the ordered set for a directory answers as a scan of all tracked paths.\<close>

lemma contains_any_under_iff:
  assumes "finite (tracked_paths T)" "tracked_ordered T \<in> {None, Some (tracked_paths T)}"
  shows "contains_any_under T dir \<longleftrightarrow>
    (if normalise dir = [] then tracked_paths T \<noteq> {} else \<exists>p\<in>tracked_paths T. prefix (normalise dir @ [0x2F]) p)"
proof (cases "tracked_ordered T")
  case None
  then show ?thesis by (simp add: contains_any_under_def Let_def)
next
  case (Some paths)
  then have o: "paths = tracked_paths T" using assms(2) by simp
  let ?pre = "normalise dir @ [0x2F]"
  have "(case first_from ?pre paths of Some p \<Rightarrow> prefix ?pre p | None \<Rightarrow> False) \<longleftrightarrow> (\<exists>p\<in>paths. prefix ?pre p)"
  proof
    assume "\<exists>p\<in>paths. prefix ?pre p"
    then obtain q where q: "q \<in> paths" "prefix ?pre q" by blast
    obtain p where "first_from ?pre paths = Some p" "?pre \<le> p" "p \<le> q"
      using first_from_least [of paths q ?pre] assms(1) q prefix_le [OF q(2)] o by blast
    then show "case first_from ?pre paths of Some p \<Rightarrow> prefix ?pre p | None \<Rightarrow> False"
      using prefix_interval [OF _ _ q(2)] by simp
  next
    assume "case first_from ?pre paths of Some p \<Rightarrow> prefix ?pre p | None \<Rightarrow> False"
    then obtain p where p: "first_from ?pre paths = Some p" "prefix ?pre p" by (cases "first_from ?pre paths") auto
    have "p \<in> set (sorted_list_of_set paths)"
      using find_Some_iff [THEN iffD1, OF p(1) [unfolded first_from_def]] by auto
    then have "p \<in> paths" using assms(1) o by simp
    with p(2) show "\<exists>p\<in>paths. prefix ?pre p" by blast
  qed
  then show ?thesis by (simp add: contains_any_under_def Let_def Some o)
qed

text \<open>The fingerprint of a set does not depend on the order in which a hash set is walked.\<close>

lemma fold_xor:
  "fold (\<lambda>p. (XOR) (membership_hash p)) qs y = y XOR fold (\<lambda>p. (XOR) (membership_hash p)) qs 0"
proof (induction qs arbitrary: y)
  case (Cons q qs)
  show ?case using Cons.IH [of "membership_hash q XOR y"] Cons.IH [of "membership_hash q"]
    by (simp add: xor.assoc xor.left_commute)
qed simp

lemma fold_fingerprint:
  "fold (\<lambda>p (count, xor, sum). if \<not> incl p then (count, xor, sum)
      else (count + 1, xor XOR membership_hash p, sum + membership_hash p)) ps (c, x, s) =
   (c + length (filter incl ps), x XOR fold (\<lambda>p. (XOR) (membership_hash p)) (filter incl ps) 0,
    s + sum_list (map membership_hash (filter incl ps)))"
proof (induction ps arbitrary: c x s)
  case (Cons p ps)
  show ?case using fold_xor [of "filter incl ps" "membership_hash p"] by (simp add: Cons.IH xor.assoc add.assoc)
qed simp

lemma fingerprint_order:
  assumes "distinct ps" "distinct qs" "set ps = set qs"
  shows "fingerprint_matching ps incl = fingerprint_matching qs incl"
    "fingerprint_controlled ps = fingerprint_matching qs (\<lambda>_. True)"
proof -
  have m: "mset ps = mset qs" using assms by (simp add: set_eq_iff_mset_eq_distinct)
  have comm: "fold (\<lambda>p. (XOR) (membership_hash p)) (filter keep ps) 0 = fold (\<lambda>p. (XOR) (membership_hash p)) (filter keep qs) 0" for keep
    by (rule fold_permuted_eq) (auto simp: m comp_def xor.left_commute fun_eq_iff)
  have sums: "sum_list (map membership_hash (filter keep ps)) = sum_list (map membership_hash (filter keep qs))"
    "length (filter keep ps) = length (filter keep qs)" for keep
    using m by (metis mset_filter mset_map sum_mset_sum_list, metis mset_filter size_mset)
  show "fingerprint_matching ps incl = fingerprint_matching qs incl"
    unfolding fingerprint_matching_def fold_fingerprint using comm sums by simp
  have controlled: "fingerprint_controlled xs = fingerprint_matching xs (\<lambda>_. True)" for xs
  proof -
    have "fold (\<lambda>p (xor, sum). (xor XOR membership_hash p, sum + membership_hash p)) xs (x, s) =
        (x XOR fold (\<lambda>p. (XOR) (membership_hash p)) xs 0, s + sum_list (map membership_hash xs))" for x s
    proof (induction xs arbitrary: x s)
      case (Cons p xs)
      show ?case using fold_xor [of xs "membership_hash p"] by (simp add: Cons.IH xor.assoc add.assoc)
    qed simp
    then show ?thesis unfolding fingerprint_matching_def fold_fingerprint by (simp add: fingerprint_controlled_def)
  qed
  show "fingerprint_controlled ps = fingerprint_matching qs (\<lambda>_. True)"
    unfolding controlled fingerprint_matching_def fold_fingerprint by (simp only: comm sums)
qed

end
