(* ===== verification/Shared.thy ===== *)
theory Shared
  imports Hybrid Path_Index "HOL-Library.Product_Lexorder" "HOL-Library.Multiset"
begin

text \<open>
  Shared bases with a content overlay for each worktree (\<^verbatim>\<open>tgrep-core/src/shared.rs\<close>): the
  validation of a base, the checkpoint of an overlay and its restoration.  The digest, the
  canonical form of a root and the iteration orders of the hash tables are arguments; opening the
  files, the JSON text of a checkpoint, its atomic replacement on disk and the permit of the
  controlled variants are left out.
\<close>

section \<open>Bases\<close>

record shared_base =
  base_id :: "byte list"
  base_reader :: index_reader

definition invalid :: "string \<Rightarrow> 'a result" where
  "invalid message = Inl (IndexCorrupted message)"

definition shared_validate_path :: "path \<Rightarrow> unit result" where
  "shared_validate_path p =
     (case validate_index_path p of
        Inl _ \<Rightarrow> invalid ''index path must be a normalized root-relative path''
      | Inr _ \<Rightarrow> Inr ())"

definition validate_trigram :: "u32 \<Rightarrow> byte \<Rightarrow> unit result" where
  "validate_trigram trigram loc =
     (if trigram > 0x00ffffff \<or> loc = 0 then invalid ''invalid trigram or location mask in worktree overlay''
      else Inr ())"

text \<open>The digest covers the path table, the lookup table and the postings.\<close>

definition digest_section :: "byte list option \<Rightarrow> byte list" where
  "digest_section bytes =
     (let bytes = (case bytes of Some b \<Rightarrow> b | None \<Rightarrow> [])
      in le_bytes 8 (of_nat (length bytes) :: u64) @ bytes)"

definition SHARED_BASE_DOMAIN :: "byte list" where
  "SHARED_BASE_DOMAIN = map (\<lambda>c. of_nat (of_char c)) (''tgrep/shared-base/v1'' @ [CHR 0x00])"

definition snapshot_id :: "(byte list \<Rightarrow> byte list) \<Rightarrow> file_table_id \<Rightarrow> index_reader \<Rightarrow> byte list" where
  "snapshot_id digest table_id reader =
     digest (SHARED_BASE_DOMAIN @ table_id @ digest_section (lookup_map reader) @ digest_section (postings_map reader))"

fun validate_paths :: "path list \<Rightarrow> path set \<Rightarrow> unit result" where
  "validate_paths [] seen = Inr ()"
| "validate_paths (p # ps) seen =
     rbind (shared_validate_path p) (\<lambda>_.
       if p \<in> seen then invalid ''shared base contains duplicate paths''
       else validate_paths ps (insert p seen))"

definition shared_validate ::
  "(byte list \<Rightarrow> byte list) \<Rightarrow> file_table_id \<Rightarrow> index_reader \<Rightarrow> index_meta \<Rightarrow> shared_base result"
where
  "shared_validate digest table_id reader meta =
     (if version meta \<noteq> INDEX_FORMAT_VERSION \<or> \<not> complete meta \<or> \<not> hidden_complete meta
          \<or> meta_table_id meta \<noteq> Some table_id then
        invalid ''shared base requires a complete current-format index with matching coverage metadata''
      else if num_files meta \<noteq> of_nat (length (reader_paths reader)) \<or> num_trigrams meta \<noteq> of_nat (num_entries reader) then
        invalid ''shared base metadata counts do not match its index sections''
      else if length (reader_paths reader) \<ge> unat OVERLAY_BIT then
        invalid ''shared base file IDs overlap the live-index ID range''
      else rbind (validate_paths (reader_paths reader) {}) (\<lambda>_.
        Inr \<lparr>base_id = snapshot_id digest table_id reader, base_reader = reader\<rparr>))"

section \<open>Roots of worktrees\<close>

datatype native_root = UnixBytes "byte list" | WindowsWide "u16 list"

datatype checkpoint_root = Unicode "byte list" | Native native_root

definition root_from_path :: "byte list \<Rightarrow> checkpoint_root" where
  "root_from_path p = (if valid_utf8 p then Unicode p else Native (UnixBytes p))"

fun root_to_path :: "checkpoint_root \<Rightarrow> byte list result" where
  "root_to_path (Unicode p) = Inr p"
| "root_to_path (Native (UnixBytes p)) = Inr p"
| "root_to_path (Native (WindowsWide units)) = invalid ''native path encoding belongs to another platform''"

section \<open>The data of an overlay\<close>

record overlay_file =
  of_path :: path
  of_trigrams :: "(u32 \<times> byte \<times> byte) list"

record overlay_data =
  od_files :: "overlay_file list"
  od_deleted :: "path list"

type_synonym captured = "(path, (u32 \<times> byte \<times> byte) list) mapping"

fun capture_paths :: "path list \<Rightarrow> captured \<Rightarrow> captured result" where
  "capture_paths [] files = Inr files"
| "capture_paths (p # ps) files =
     rbind (shared_validate_path p) (\<lambda>_. capture_paths ps (Mapping.update p [] files))"

fun capture_postings :: "live_index \<Rightarrow> (u32 \<times> u32) list \<Rightarrow> captured \<Rightarrow> captured result" where
  "capture_postings live [] files = Inr files"
| "capture_postings live ((trigram, fid) # postings) files =
     (case live_file_path live fid of
        None \<Rightarrow> invalid ''overlay posting has no file path''
      | Some p \<Rightarrow>
          let m = get_masks live trigram fid
          in rbind (validate_trigram trigram (loc_mask m)) (\<lambda>_.
               case Mapping.lookup files p of
                 None \<Rightarrow> invalid ''overlay posting has no active file''
               | Some ts \<Rightarrow> capture_postings live postings
                   (Mapping.update p (ts @ [(trigram, loc_mask m, next_mask m)]) files)))"

fun validate_deleted :: "path list \<Rightarrow> unit result" where
  "validate_deleted [] = Inr ()"
| "validate_deleted (p # ps) = rbind (shared_validate_path p) (\<lambda>_. validate_deleted ps)"

text \<open>The postings in the order in which the table and its sets are walked.\<close>

definition overlay_postings :: "(u32 set \<Rightarrow> u32 list) \<Rightarrow> (u32 set \<Rightarrow> u32 list) \<Rightarrow> live_index \<Rightarrow> (u32 \<times> u32) list" where
  "overlay_postings titer iter live =
     concat (map (\<lambda>t. map (Pair t) (iter (ids_of live t))) (titer (Mapping.keys (inverted live))))"

definition capture ::
  "(path set \<Rightarrow> path list) \<Rightarrow> (u32 set \<Rightarrow> u32 list) \<Rightarrow> (u32 set \<Rightarrow> u32 list) \<Rightarrow> live_index \<Rightarrow> overlay_data result"
where
  "capture piter titer iter live =
     rbind (capture_paths (piter (Mapping.keys (path_to_id live))) Mapping.empty) (\<lambda>files.
     rbind (capture_postings live (overlay_postings titer iter live) files) (\<lambda>files.
     rbind (validate_deleted (piter (deleted_paths live))) (\<lambda>_.
       Inr \<lparr>od_files = map (\<lambda>p. \<lparr>of_path = p, of_trigrams = sort (the (Mapping.lookup files p))\<rparr>)
              (sorted_list_of_set (Mapping.keys files)),
            od_deleted = sorted_list_of_set (deleted_paths live)\<rparr>)))"

fun restore_trigrams :: "(u32 \<times> byte \<times> byte) list \<Rightarrow> mask_map \<Rightarrow> mask_map result" where
  "restore_trigrams [] trigrams = Inr trigrams"
| "restore_trigrams ((trigram, l, n) # ts) trigrams =
     rbind (validate_trigram trigram l) (\<lambda>_.
       if Mapping.lookup trigrams trigram \<noteq> None then invalid ''duplicate trigram in worktree overlay''
       else restore_trigrams ts (Mapping.update trigram \<lparr>loc_mask = l, next_mask = n\<rparr> trigrams))"

fun restore_files :: "overlay_file list \<Rightarrow> path set \<Rightarrow> live_index \<Rightarrow> (path set \<times> live_index) result" where
  "restore_files [] paths live = Inr (paths, live)"
| "restore_files (f # fs) paths live =
     rbind (shared_validate_path (of_path f)) (\<lambda>_.
       if of_path f \<in> paths then invalid ''duplicate path in worktree overlay''
       else rbind (restore_trigrams (of_trigrams f) Mapping.empty) (\<lambda>trigrams.
         restore_files fs (insert (of_path f) paths) (commit_upsert (of_path f) trigrams live)))"

fun restore_deleted :: "path list \<Rightarrow> path set \<Rightarrow> live_index \<Rightarrow> live_index result" where
  "restore_deleted [] paths live = Inr live"
| "restore_deleted (p # ps) paths live =
     rbind (shared_validate_path p) (\<lambda>_.
       if p \<in> paths then invalid ''duplicate or conflicting tombstone in worktree overlay''
       else restore_deleted ps (insert p paths) (delete_file p live))"

definition into_live :: "overlay_data \<Rightarrow> live_index result" where
  "into_live self =
     (if length (od_files self) \<ge> unat OVERLAY_BIT then invalid ''too many files in worktree overlay''
      else rbind (restore_files (od_files self) {} live_new) (\<lambda>(paths, live).
           rbind (restore_deleted (od_deleted self) paths live) (\<lambda>live. Inr (reset_dirty_count live))))"

section \<open>Checkpoints\<close>

definition OVERLAY_VERSION :: u32 where "OVERLAY_VERSION = 1"

record 'g overlay_checkpoint =
  oc_version :: u32
  oc_base_id :: "byte list"
  oc_root :: checkpoint_root
  oc_overlay :: overlay_data
  oc_generation :: "'g option"

text \<open>Whether the worktree still uses the reader of the base is a comparison of references.\<close>

definition capture_checkpoint ::
  "(path set \<Rightarrow> path list) \<Rightarrow> (u32 set \<Rightarrow> u32 list) \<Rightarrow> (u32 set \<Rightarrow> u32 list) \<Rightarrow> (byte list \<Rightarrow> byte list result) \<Rightarrow>
   shared_base \<Rightarrow> hybrid_index \<Rightarrow> bool \<Rightarrow> 'g option \<Rightarrow> 'g overlay_checkpoint result"
where
  "capture_checkpoint piter titer iter canonical_root self worktree same_reader generation =
     (if \<not> same_reader then invalid ''worktree no longer uses this shared base''
      else rbind (canonical_root (root worktree)) (\<lambda>rt.
           rbind (capture piter titer iter (hlive worktree)) (\<lambda>data.
             Inr \<lparr>oc_version = OVERLAY_VERSION, oc_base_id = base_id self, oc_root = root_from_path rt,
                  oc_overlay = data, oc_generation = generation\<rparr>)))"

definition restore_checkpoint ::
  "(byte list \<Rightarrow> byte list result) \<Rightarrow> shared_base \<Rightarrow> byte list \<Rightarrow> 'g overlay_checkpoint \<Rightarrow> 'g option \<Rightarrow> hybrid_index result"
where
  "restore_checkpoint canonical_root self rt checkpoint generation =
     (if oc_version checkpoint \<noteq> OVERLAY_VERSION then invalid ''unsupported worktree overlay version''
      else if oc_base_id checkpoint \<noteq> base_id self then invalid ''worktree overlay belongs to a different base snapshot''
      else if generation \<noteq> None \<and> oc_generation checkpoint \<noteq> generation then
        invalid ''worktree overlay belongs to a different generation''
      else rbind (canonical_root rt) (\<lambda>rt.
        if oc_root checkpoint \<noteq> root_from_path rt then invalid ''worktree overlay belongs to a different root''
        else rbind (into_live (oc_overlay checkpoint)) (\<lambda>live.
          Inr ((from_reader (base_reader self) rt)\<lparr>hlive := live\<rparr>))))"

definition create_worktree :: "(byte list \<Rightarrow> byte list result) \<Rightarrow> shared_base \<Rightarrow> byte list \<Rightarrow> hybrid_index result" where
  "create_worktree canonical_root self rt =
     rbind (canonical_root rt) (\<lambda>rt. Inr (from_reader (base_reader self) rt))"

section \<open>What a capture holds\<close>

lemma OVERLAY_BIT_nat: "unat OVERLAY_BIT = 2 ^ 31"
  by (simp add: OVERLAY_BIT_def)

lemma shared_validate_path_iff: "shared_validate_path p = Inr () \<longleftrightarrow> validate_index_path p = Inr ()"
  by (auto simp: shared_validate_path_def invalid_def split: sum.split)

lemma validate_trigram_ok: "t \<le> 0x00ffffff \<Longrightarrow> l \<noteq> 0 \<Longrightarrow> validate_trigram t l = Inr ()"
  by (auto simp: validate_trigram_def dest: leD)

lemma capture_paths_result:
  assumes "\<forall>p\<in>set ps. shared_validate_path p = Inr ()"
  shows "\<exists>files'. capture_paths ps files = Inr files' \<and>
    (\<forall>q. Mapping.lookup files' q = (if q \<in> set ps then Some [] else Mapping.lookup files q))"
  using assms
proof (induction ps arbitrary: files)
  case (Cons p ps)
  then obtain files' where "capture_paths ps (Mapping.update p [] files) = Inr files'"
    "\<forall>q. Mapping.lookup files' q = (if q \<in> set ps then Some [] else Mapping.lookup (Mapping.update p [] files) q)"
    by force
  then show ?case using Cons.prems by (auto simp: lookup_update')
qed simp

definition entry_of :: "live_index \<Rightarrow> u32 \<times> u32 \<Rightarrow> u32 \<times> byte \<times> byte" where
  "entry_of L = (\<lambda>(t, fid). (t, loc_mask (get_masks L t fid), next_mask (get_masks L t fid)))"

lemma capture_postings_result:
  assumes "\<forall>(t, fid)\<in>set ps. \<exists>p. live_file_path L fid = Some p \<and> Mapping.lookup files p \<noteq> None \<and>
      validate_trigram t (loc_mask (get_masks L t fid)) = Inr ()"
  shows "\<exists>files'. capture_postings L ps files = Inr files' \<and>
    (\<forall>q. Mapping.lookup files' q = map_option (\<lambda>ts. ts @ map (entry_of L) (filter (\<lambda>(t, fid). live_file_path L fid = Some q) ps))
       (Mapping.lookup files q))"
  using assms
proof (induction ps arbitrary: files)
  case Nil
  then show ?case by (simp add: option.map_ident)
next
  case (Cons x ps)
  obtain t fid where x: "x = (t, fid)" by (cases x)
  obtain p ts where p: "live_file_path L fid = Some p" "Mapping.lookup files p = Some ts"
    "validate_trigram t (loc_mask (get_masks L t fid)) = Inr ()"
    using Cons.prems by (auto simp: x)
  let ?files = "Mapping.update p (ts @ [entry_of L (t, fid)]) files"
  have "\<forall>(t, fid)\<in>set ps. \<exists>p. live_file_path L fid = Some p \<and> Mapping.lookup ?files p \<noteq> None \<and>
      validate_trigram t (loc_mask (get_masks L t fid)) = Inr ()"
    using Cons.prems by (fastforce simp: lookup_update')
  from Cons.IH [OF this] obtain files' where files': "capture_postings L ps ?files = Inr files'"
    "\<forall>q. Mapping.lookup files' q = map_option (\<lambda>ts. ts @ map (entry_of L) (filter (\<lambda>(t, fid). live_file_path L fid = Some q) ps))
       (Mapping.lookup ?files q)" by blast
  have "capture_postings L (x # ps) files = Inr files'" using p files'(1) by (simp add: x Let_def entry_of_def)
  moreover have "Mapping.lookup files' q = map_option (\<lambda>ts. ts @ map (entry_of L) (filter (\<lambda>(t, fid). live_file_path L fid = Some q) (x # ps)))
       (Mapping.lookup files q)" for q
    using p files'(2) by (auto simp: x lookup_update')
  ultimately show ?case by blast
qed

lemma validate_deleted_result: "\<forall>p\<in>set ps. shared_validate_path p = Inr () \<Longrightarrow> validate_deleted ps = Inr ()"
  by (induction ps) simp_all

text \<open>The postings of one file, in the order of the trigrams.\<close>

lemma postings_of_file:
  assumes "iteration iter"
  shows "filter (\<lambda>(t, f). f = fid) (concat (map (\<lambda>t. map (Pair t) (iter (ids t))) ts)) =
    map (\<lambda>t. (t, fid)) (filter (\<lambda>t. fid \<in> ids t) ts)"
proof (induction ts)
  case (Cons t ts)
  have "filter (\<lambda>f. f = fid) (iter (ids t)) = (if fid \<in> ids t then [fid] else [])"
    using filter_eq_distinct [OF distinct_iteration [OF assms], of fid "ids t"] by (simp add: set_iteration [OF assms])
  then have "filter (\<lambda>(t, f). f = fid) (map (Pair t) (iter (ids t))) = (if fid \<in> ids t then [(t, fid)] else [])"
    by (simp add: filter_map comp_def)
  with Cons show ?case by simp
qed simp

definition file_entries_of :: "(u32 set \<Rightarrow> u32 list) \<Rightarrow> live_index \<Rightarrow> u32 \<Rightarrow> (u32 \<times> byte \<times> byte) list" where
  "file_entries_of titer L fid = map (\<lambda>t. entry_of L (t, fid)) (filter (\<lambda>t. fid \<in> ids_of L t) (titer (Mapping.keys (inverted L))))"

text \<open>What the operations keep: paths that can be stored, trigrams and masks of a text.\<close>

definition storable_overlay :: "(path \<Rightarrow> overlay) \<Rightarrow> bool" where
  "storable_overlay V \<longleftrightarrow> (\<forall>p. V p \<noteq> Untouched \<longrightarrow> validate_index_path p = Inr ()) \<and>
     (\<forall>p table t m. V p = Active table \<longrightarrow> table t = Some m \<longrightarrow> t \<le> 0x00ffffff \<and> loc_mask m \<noteq> 0)"

lemma captured_data:
  assumes inv: "live_inv L" and iters: "path_iteration piter" "iteration titer" "iteration iter"
    and fin: "finite (deleted_paths L)" and ok: "storable_overlay (overlay_of L)"
  shows "capture piter titer iter L = Inr
    \<lparr>od_files = map (\<lambda>p. \<lparr>of_path = p, of_trigrams = sort (file_entries_of titer L (the (Mapping.lookup (path_to_id L) p)))\<rparr>)
        (sorted_list_of_set (Mapping.keys (path_to_id L))),
     od_deleted = sorted_list_of_set (deleted_paths L)\<rparr>"
proof -
  let ?active = "Mapping.keys (path_to_id L)"
  have "?active \<subseteq> (\<lambda>fid. the (Mapping.lookup (file_paths L) fid)) ` UNIV"
  proof
    fix p
    assume "p \<in> ?active"
    then obtain fid where "Mapping.lookup (path_to_id L) p = Some fid" by (auto simp: keys_dom_lookup)
    then have "Mapping.lookup (file_paths L) fid = Some p" using live_invD(1) [OF inv] by blast
    then show "p \<in> (\<lambda>fid. the (Mapping.lookup (file_paths L) fid)) ` UNIV" by (metis option.sel rangeI)
  qed
  then have fin_active: "finite ?active" using finite_surj [of UNIV] by (meson finite)
  have valid: "shared_validate_path p = Inr ()" if "p \<in> ?active \<or> p \<in> deleted_paths L" for p
  proof -
    have "overlay_of L p \<noteq> Untouched" using that by (auto simp: overlay_of_def keys_dom_lookup split: option.split)
    then show ?thesis using ok by (simp add: storable_overlay_def shared_validate_path_iff)
  qed
  have active: "set (piter ?active) = ?active" using iters(1) fin_active by (simp add: path_iteration_def)
  obtain files where files: "capture_paths (piter ?active) Mapping.empty = Inr files"
    "\<forall>q. Mapping.lookup files q = (if q \<in> ?active then Some [] else None)"
    using capture_paths_result [of "piter ?active" Mapping.empty] valid active by auto
  let ?ps = "overlay_postings titer iter L"
  have "\<exists>p. live_file_path L fid = Some p \<and> Mapping.lookup files p \<noteq> None \<and> validate_trigram t (loc_mask (get_masks L t fid)) = Inr ()"
    if "(t, fid) \<in> set ?ps" for t fid
  proof -
    have mem: "fid \<in> ids_of L t" using that by (auto simp: overlay_postings_def set_iteration [OF iters(3)])
    then obtain p where p: "Mapping.lookup (file_paths L) fid = Some p" using live_invD(2) [OF inv] by blast
    then have id: "Mapping.lookup (path_to_id L) p = Some fid" using live_invD(1) [OF inv] by blast
    then have "overlay_of L p = Active (entry_masks L fid)" "entry_masks L fid t = Some (get_masks L t fid)"
      using mem by (simp_all add: overlay_of_def entry_masks_def)
    then have "t \<le> 0x00ffffff \<and> loc_mask (get_masks L t fid) \<noteq> 0" using ok unfolding storable_overlay_def by blast
    then have "validate_trigram t (loc_mask (get_masks L t fid)) = Inr ()" by (intro validate_trigram_ok) simp_all
    then show ?thesis using p id files(2) by (simp add: live_file_path_def keys_dom_lookup domI)
  qed
  then have all: "\<forall>(t, fid)\<in>set ?ps. \<exists>p. live_file_path L fid = Some p \<and> Mapping.lookup files p \<noteq> None \<and>
      validate_trigram t (loc_mask (get_masks L t fid)) = Inr ()"
    by blast
  obtain files' where files': "capture_postings L ?ps files = Inr files'"
    "\<forall>q. Mapping.lookup files' q = map_option (\<lambda>ts. ts @ map (entry_of L) (filter (\<lambda>(t, fid). live_file_path L fid = Some q) ?ps)) (Mapping.lookup files q)"
    using capture_postings_result [OF all] by blast
  have keys: "Mapping.keys files' = ?active" using files(2) files'(2) by (auto simp: keys_dom_lookup split: if_splits)
  have entries: "the (Mapping.lookup files' p) = file_entries_of titer L (the (Mapping.lookup (path_to_id L) p))" if p: "p \<in> ?active" for p
  proof -
    obtain fid where fid: "Mapping.lookup (path_to_id L) p = Some fid" using p by (auto simp: keys_dom_lookup)
    have "live_file_path L f = Some p \<longleftrightarrow> f = fid" for f
      using live_invD(1) [OF inv, of f p] fid by (auto simp: live_file_path_def)
    then show ?thesis
      using files(2) files'(2) p postings_of_file [OF iters(3), of fid "ids_of L" "titer (Mapping.keys (inverted L))"]
      by (simp add: fid file_entries_of_def overlay_postings_def comp_def)
  qed
  have "validate_deleted (piter (deleted_paths L)) = Inr ()"
    using valid iters(1) fin by (intro validate_deleted_result) (simp add: path_iteration_def)
  then show ?thesis using files(1) files'(1) entries fin_active by (simp add: capture_def keys)
qed

section \<open>What a restoration makes of it\<close>

lemma restore_trigrams_result:
  assumes "distinct (map fst ts)" "\<forall>y\<in>set ts. validate_trigram (fst y) (fst (snd y)) = Inr ()"
    and "\<forall>t\<in>fst ` set ts. Mapping.lookup m t = None"
  shows "\<exists>m'. restore_trigrams ts m = Inr m' \<and>
    (\<forall>t. Mapping.lookup m' t = (case map_of ts t of Some (l, n) \<Rightarrow> Some \<lparr>loc_mask = l, next_mask = n\<rparr> | None \<Rightarrow> Mapping.lookup m t))"
  using assms
proof (induction ts arbitrary: m)
  case (Cons x ts)
  obtain t l n where x: "x = (t, l, n)" by (metis prod_cases3)
  have t: "t \<notin> fst ` set ts" "distinct (map fst ts)" "validate_trigram t l = Inr ()" "Mapping.lookup m t = None"
    using Cons.prems by (simp_all add: x)
  let ?m = "Mapping.update t \<lparr>loc_mask = l, next_mask = n\<rparr> m"
  have "\<forall>u\<in>fst ` set ts. Mapping.lookup ?m u = None"
    using Cons.prems(3) t(1) by (simp add: x lookup_update') (metis imageI)
  moreover have "\<forall>y\<in>set ts. validate_trigram (fst y) (fst (snd y)) = Inr ()" using Cons.prems(2) by simp
  ultimately obtain m' where m': "restore_trigrams ts ?m = Inr m'"
    "\<forall>t. Mapping.lookup m' t = (case map_of ts t of Some (l, n) \<Rightarrow> Some \<lparr>loc_mask = l, next_mask = n\<rparr> | None \<Rightarrow> Mapping.lookup ?m t)"
    using Cons.IH [OF t(2)] by blast
  have "restore_trigrams (x # ts) m = Inr m'" using m'(1) t by (simp add: x)
  moreover have "Mapping.lookup m' u = (case map_of (x # ts) u of Some (l, n) \<Rightarrow> Some \<lparr>loc_mask = l, next_mask = n\<rparr> | None \<Rightarrow> Mapping.lookup m u)" for u
  proof (cases "u = t")
    case True
    have "map_of ts t = None" using t(1) by (simp add: map_of_eq_None_iff)
    then show ?thesis using m'(2) True by (simp add: x lookup_update')
  next
    case False
    then show ?thesis using m'(2) by (auto simp: x lookup_update' split: option.split)
  qed
  ultimately show ?case by blast
qed simp

lemma restore_files_result:
  assumes "live_inv L" "unat (next_id L) + length fs \<le> 2 ^ 31" "distinct (map of_path fs)"
    and "\<forall>f\<in>set fs. shared_validate_path (of_path f) = Inr () \<and> of_path f \<notin> paths \<and>
      restore_trigrams (of_trigrams f) Mapping.empty = Inr (tables (of_path f))"
  shows "\<exists>L'. restore_files fs paths L = Inr (paths \<union> set (map of_path fs), L') \<and> live_inv L' \<and>
    overlay_of L' = (\<lambda>q. if q \<in> set (map of_path fs) then Active (Mapping.lookup (tables q)) else overlay_of L q)"
  using assms
proof (induction fs arbitrary: paths L)
  case (Cons f fs)
  let ?p = "of_path f"
  let ?L = "commit_upsert ?p (tables ?p) L"
  have room: "next_id L < 0x80000000" using Cons.prems(2) by (simp add: word_less_nat_alt)
  note c = commit_upsert_overlay [OF Cons.prems(1) room, of ?p "tables ?p"]
  have "unat (next_id L + 1) = unat (next_id L) + 1" using room by (simp add: unat_word_ariths word_less_nat_alt)
  then have "unat (next_id ?L) + length fs \<le> 2 ^ 31" using Cons.prems(2) c(3) by simp
  moreover have "\<forall>g\<in>set fs. shared_validate_path (of_path g) = Inr () \<and> of_path g \<notin> insert ?p paths \<and>
      restore_trigrams (of_trigrams g) Mapping.empty = Inr (tables (of_path g))"
    using Cons.prems(3,4) by (auto simp: image_iff)
  ultimately obtain L' where L': "restore_files fs (insert ?p paths) ?L = Inr (insert ?p paths \<union> set (map of_path fs), L')"
    "live_inv L'" "overlay_of L' = (\<lambda>q. if q \<in> set (map of_path fs) then Active (Mapping.lookup (tables q)) else overlay_of ?L q)"
    using Cons.IH [OF c(1), of "insert ?p paths"] Cons.prems(3) by auto
  have "restore_files (f # fs) paths L = Inr (paths \<union> set (map of_path (f # fs)), L')"
    using Cons.prems(4) L'(1) by simp
  moreover have "overlay_of L' = (\<lambda>q. if q \<in> set (map of_path (f # fs)) then Active (Mapping.lookup (tables q)) else overlay_of L q)"
    unfolding L'(3) c(2) by auto
  ultimately show ?case using L'(2) by blast
qed simp

lemma restore_deleted_result:
  assumes "live_inv L" "distinct ps" "\<forall>p\<in>set ps. shared_validate_path p = Inr () \<and> p \<notin> paths"
  shows "\<exists>L'. restore_deleted ps paths L = Inr L' \<and> live_inv L' \<and>
    overlay_of L' = (\<lambda>q. if q \<in> set ps then Tombstone else overlay_of L q)"
  using assms
proof (induction ps arbitrary: paths L)
  case (Cons p ps)
  note d = delete_file_overlay [OF Cons.prems(1), of p]
  obtain L' where L': "restore_deleted ps (insert p paths) (delete_file p L) = Inr L'" "live_inv L'"
    "overlay_of L' = (\<lambda>q. if q \<in> set ps then Tombstone else overlay_of (delete_file p L) q)"
    using Cons.IH [OF d(1), of "insert p paths"] Cons.prems(2,3) by fastforce
  moreover have "overlay_of L' = (\<lambda>q. if q \<in> set (p # ps) then Tombstone else overlay_of L q)"
    unfolding L'(3) d(2) by auto
  ultimately show ?case using Cons.prems(3) by auto
qed simp

lemma table_of_entries:
  assumes inv: "live_inv L" and iter: "iteration titer"
  shows "distinct (map fst (sort (file_entries_of titer L fid)))"
    "(case map_of (sort (file_entries_of titer L fid)) t of Some (l, n) \<Rightarrow> Some \<lparr>loc_mask = l, next_mask = n\<rparr> | None \<Rightarrow> None) =
      entry_masks L fid t"
proof -
  let ?es = "file_entries_of titer L fid"
  have "map fst ?es = filter (\<lambda>t. fid \<in> ids_of L t) (titer (Mapping.keys (inverted L)))"
    by (simp add: file_entries_of_def comp_def entry_of_def)
  then have "distinct (map fst ?es)" using distinct_iteration [OF iter] by simp
  moreover have "mset (map fst (sort ?es)) = mset (map fst ?es)" by simp
  ultimately show d: "distinct (map fst (sort ?es))" by (metis mset_eq_imp_distinct_iff)
  have keys: "fid \<in> ids_of L t \<Longrightarrow> t \<in> Mapping.keys (inverted L)" by (auto simp: ids_of_def keys_dom_lookup split: option.splits)
  have mem: "(t, x) \<in> set ?es \<longleftrightarrow> fid \<in> ids_of L t \<and> x = (loc_mask (get_masks L t fid), next_mask (get_masks L t fid))" for x
    using keys by (auto simp: file_entries_of_def entry_of_def set_iteration [OF iter])
  show "(case map_of (sort ?es) t of Some (l, n) \<Rightarrow> Some \<lparr>loc_mask = l, next_mask = n\<rparr> | None \<Rightarrow> None) = entry_masks L fid t"
  proof (cases "fid \<in> ids_of L t")
    case True
    then have "(t, loc_mask (get_masks L t fid), next_mask (get_masks L t fid)) \<in> set (sort ?es)" using mem by simp
    from map_of_is_SomeI [OF d this] show ?thesis using True by (simp add: entry_masks_def)
  next
    case False
    then have "map_of (sort ?es) t = None" using mem by (auto simp: map_of_eq_None_iff)
    then show ?thesis using False by (simp add: entry_masks_def)
  qed
qed

section \<open>Checkpoints keep the view\<close>

lemma finite_active:
  assumes "live_inv L"
  shows "finite (Mapping.keys (path_to_id L))"
proof -
  have "Mapping.keys (path_to_id L) \<subseteq> (\<lambda>fid. the (Mapping.lookup (file_paths L) fid)) ` UNIV"
  proof
    fix p
    assume "p \<in> Mapping.keys (path_to_id L)"
    then obtain fid where "Mapping.lookup (path_to_id L) p = Some fid" by (auto simp: keys_dom_lookup)
    then have "Mapping.lookup (file_paths L) fid = Some p" using live_invD(1) [OF assms] by blast
    then show "p \<in> (\<lambda>fid. the (Mapping.lookup (file_paths L) fid)) ` UNIV" by (metis option.sel rangeI)
  qed
  then show ?thesis using finite_surj [of UNIV] by (meson finite)
qed

lemma restored_overlay:
  assumes inv: "live_inv L" and iters: "path_iteration piter" "iteration titer" "iteration iter"
    and fin: "finite (deleted_paths L)" and ok: "storable_overlay (overlay_of L)"
    and few: "card (Mapping.keys (path_to_id L)) < 2 ^ 31"
  shows "\<exists>data L'. capture piter titer iter L = Inr data \<and> into_live data = Inr L' \<and> live_inv L' \<and>
    overlay_of L' = overlay_of L \<and> dirty_count L' = 0"
proof -
  let ?active = "Mapping.keys (path_to_id L)" and ?id = "\<lambda>p. the (Mapping.lookup (path_to_id L) p)"
  let ?ts = "\<lambda>p. sort (file_entries_of titer L (?id p))"
  define fs where "fs = map (\<lambda>p. \<lparr>of_path = p, of_trigrams = ?ts p\<rparr>) (sorted_list_of_set ?active)"
  have act: "overlay_of L p = Active (entry_masks L (?id p))" if "p \<in> ?active" for p
    using that by (auto simp: overlay_of_def keys_dom_lookup)
  have valid: "shared_validate_path p = Inr ()" if "p \<in> ?active \<or> p \<in> deleted_paths L" for p
  proof -
    have "overlay_of L p \<noteq> Untouched" using that by (auto simp: overlay_of_def keys_dom_lookup split: option.split)
    then show ?thesis using ok by (simp add: storable_overlay_def shared_validate_path_iff)
  qed
  have "\<exists>m. restore_trigrams (?ts p) Mapping.empty = Inr m \<and> Mapping.lookup m = entry_masks L (?id p)" if p: "p \<in> ?active" for p
  proof -
    have "validate_trigram (fst y) (fst (snd y)) = Inr ()" if y: "y \<in> set (?ts p)" for y
    proof -
      obtain t where t: "y = entry_of L (t, ?id p)" "?id p \<in> ids_of L t" using y by (auto simp: file_entries_of_def)
      then have "entry_masks L (?id p) t = Some (get_masks L t (?id p))" by (simp add: entry_masks_def)
      then have "t \<le> 0x00ffffff \<and> loc_mask (get_masks L t (?id p)) \<noteq> 0"
        using ok act [OF p] unfolding storable_overlay_def by blast
      then show ?thesis by (simp add: t(1) entry_of_def validate_trigram_ok)
    qed
    then have "\<forall>y\<in>set (?ts p). validate_trigram (fst y) (fst (snd y)) = Inr ()" by blast
    moreover have "\<forall>t\<in>fst ` set (?ts p). Mapping.lookup Mapping.empty t = None" by simp
    ultimately obtain m where m: "restore_trigrams (?ts p) Mapping.empty = Inr m"
      "\<forall>t. Mapping.lookup m t = (case map_of (?ts p) t of Some (l, n) \<Rightarrow> Some \<lparr>loc_mask = l, next_mask = n\<rparr> | None \<Rightarrow> Mapping.lookup Mapping.empty t)"
      using restore_trigrams_result [OF table_of_entries(1) [OF inv iters(2), of "?id p"]] by blast
    have "Mapping.lookup m t = entry_masks L (?id p) t" for t
      using m(2) table_of_entries(2) [OF inv iters(2), of "?id p" t] by (auto split: option.splits)
    then have "Mapping.lookup m = entry_masks L (?id p)" by (rule ext)
    with m(1) show ?thesis by blast
  qed
  then obtain tables where tables: "restore_trigrams (?ts p) Mapping.empty = Inr (tables p) \<and> Mapping.lookup (tables p) = entry_masks L (?id p)"
    if "p \<in> ?active" for p by metis
  have paths: "map of_path fs = sorted_list_of_set ?active" by (simp add: fs_def comp_def)
  have fin_active: "finite ?active" by (rule finite_active [OF inv])
  have len: "length fs = card ?active" by (simp add: fs_def)
  have files_ok: "\<forall>f\<in>set fs. shared_validate_path (of_path f) = Inr () \<and> of_path f \<notin> {} \<and>
      restore_trigrams (of_trigrams f) Mapping.empty = Inr (tables (of_path f))"
    using valid tables fin_active by (auto simp: fs_def)
  have "unat (next_id live_new) + length fs \<le> 2 ^ 31" using few len by (simp add: live_new_def)
  moreover have "distinct (map of_path fs)" unfolding paths by simp
  ultimately obtain L1 where L1: "restore_files fs {} live_new = Inr ({} \<union> set (map of_path fs), L1)" "live_inv L1"
    "overlay_of L1 = (\<lambda>q. if q \<in> set (map of_path fs) then Active (Mapping.lookup (tables q)) else overlay_of live_new q)"
    using restore_files_result [OF live_inv_new _ _ files_ok] by blast
  have "\<forall>p\<in>set (sorted_list_of_set (deleted_paths L)). shared_validate_path p = Inr () \<and> p \<notin> {} \<union> set (map of_path fs)"
    using valid fin fin_active live_invD(5) [OF inv] unfolding paths by (auto simp: keys_dom_lookup)
  then obtain L2 where L2: "restore_deleted (sorted_list_of_set (deleted_paths L)) ({} \<union> set (map of_path fs)) L1 = Inr L2" "live_inv L2"
    "overlay_of L2 = (\<lambda>q. if q \<in> set (sorted_list_of_set (deleted_paths L)) then Tombstone else overlay_of L1 q)"
    using restore_deleted_result [OF L1(2) distinct_sorted_list_of_set] by blast
  have "overlay_of L2 q = overlay_of L q" for q
  proof -
    consider "q \<in> ?active" | "q \<in> deleted_paths L" "q \<notin> ?active" | "q \<notin> ?active" "q \<notin> deleted_paths L" by blast
    then show ?thesis
    proof cases
      case 1
      then have "q \<notin> deleted_paths L" using live_invD(5) [OF inv] by (auto simp: keys_dom_lookup)
      then show ?thesis using 1 fin fin_active tables [OF 1] act [OF 1] unfolding L2(3) L1(3) paths by simp
    next
      case 2
      then show ?thesis using fin unfolding L2(3) by (simp add: overlay_of_def keys_dom_lookup domIff)
    next
      case 3
      then show ?thesis using fin fin_active unfolding L2(3) L1(3) paths by (simp add: overlay_of_def keys_dom_lookup domIff live_new_def)
    qed
  qed
  then have view: "overlay_of L2 = overlay_of L" by (rule ext)
  let ?data = "\<lparr>od_files = fs, od_deleted = sorted_list_of_set (deleted_paths L)\<rparr>"
  have "capture piter titer iter L = Inr ?data" unfolding fs_def by (rule captured_data [OF inv iters fin ok])
  moreover have "into_live ?data = Inr (reset_dirty_count L2)"
    using few len L1(1) L2(1) by (simp add: into_live_def OVERLAY_BIT_nat)
  moreover have same: "overlay_of (reset_dirty_count L2) = overlay_of L2"
    by (simp add: reset_dirty_count_def overlay_of_def fun_eq_iff split: option.split)
  moreover have "live_inv (reset_dirty_count L2)" "overlay_of (reset_dirty_count L2) = overlay_of L" "dirty_count (reset_dirty_count L2) = 0"
    using L2(2) by (simp_all only: same view) (simp_all add: reset_dirty_count_def)
  ultimately show ?thesis by blast
qed

text \<open>The paths a search finds.\<close>

definition paths_found :: "(u32 set \<Rightarrow> u32 list) \<Rightarrow> hybrid_index \<Rightarrow> query_plan \<Rightarrow> path \<Rightarrow> path set" where
  "paths_found iter H plan pre =
     {p. \<exists>fid\<in>set (fst (execute_query_with_masks_in iter H plan pre)). resolve_path H fid (hreader H) = Some p}"

lemma paths_found_view:
  assumes "hybrid_inv H" "iteration iter" "well_formed_plan plan"
  shows "paths_found iter H plan pre = {p. prefix pre p \<and> (\<exists>t\<in>path_tables H p. plan_accepts t plan)}"
  unfolding paths_found_def using candidates(1) [OF assms, of pre] accepted_paths [OF assms(1), of plan pre] by auto

lemma restore_trigrams_ok:
  assumes "restore_trigrams ts m = Inr m'" "\<forall>t e. Mapping.lookup m t = Some e \<longrightarrow> t \<le> 0x00ffffff \<and> loc_mask e \<noteq> 0"
  shows "\<forall>t e. Mapping.lookup m' t = Some e \<longrightarrow> t \<le> 0x00ffffff \<and> loc_mask e \<noteq> 0"
  using assms
proof (induction ts m rule: restore_trigrams.induct)
  case (2 trigram l n ts trigrams)
  have v: "validate_trigram trigram l = Inr ()" and fresh: "Mapping.lookup trigrams trigram = None"
    and more: "restore_trigrams ts (Mapping.update trigram \<lparr>loc_mask = l, next_mask = n\<rparr> trigrams) = Inr m'"
    using 2(2) by (auto simp: invalid_def split: if_splits)
  have "trigram \<le> 0x00ffffff" "l \<noteq> 0" using v by (auto simp: validate_trigram_def invalid_def not_less split: if_splits)
  then have "\<forall>t e. Mapping.lookup (Mapping.update trigram \<lparr>loc_mask = l, next_mask = n\<rparr> trigrams) t = Some e \<longrightarrow>
      t \<le> 0x00ffffff \<and> loc_mask e \<noteq> 0"
    using 2(3) by (simp add: lookup_update')
  from 2(1) [OF v _ more this] fresh show ?case by simp
qed simp

lemma restore_files_ok:
  assumes "restore_files fs paths L = Inr (paths', L')" "live_inv L" "storable_overlay (overlay_of L)"
    "unat (next_id L) + length fs \<le> 2 ^ 31"
  shows "live_inv L' \<and> storable_overlay (overlay_of L')"
  using assms
proof (induction fs arbitrary: paths L)
  case (Cons f fs)
  obtain tr where f: "shared_validate_path (of_path f) = Inr ()" "restore_trigrams (of_trigrams f) Mapping.empty = Inr tr"
    "restore_files fs (insert (of_path f) paths) (commit_upsert (of_path f) tr L) = Inr (paths', L')"
    using Cons.prems(1) by (auto simp: invalid_def split: if_splits)
  have room: "next_id L < 0x80000000" using Cons.prems(4) by (simp add: word_less_nat_alt)
  note c = commit_upsert_overlay [OF Cons.prems(2) room, of "of_path f" tr]
  have "\<forall>t e. Mapping.lookup tr t = Some e \<longrightarrow> t \<le> 0x00ffffff \<and> loc_mask e \<noteq> 0"
    by (rule restore_trigrams_ok [OF f(2)]) simp
  then have "storable_overlay (overlay_of (commit_upsert (of_path f) tr L))"
    using Cons.prems(3) f(1) unfolding c(2) storable_overlay_def shared_validate_path_iff by auto
  moreover have "unat (next_id L + 1) = unat (next_id L) + 1" using room by (simp add: unat_word_ariths word_less_nat_alt)
  ultimately show ?case using Cons.IH [OF f(3) c(1)] Cons.prems(4) c(3) by simp
qed simp

lemma restore_deleted_ok:
  assumes "restore_deleted ps paths L = Inr L'" "live_inv L" "storable_overlay (overlay_of L)"
  shows "live_inv L' \<and> storable_overlay (overlay_of L')"
  using assms
proof (induction ps arbitrary: paths L)
  case (Cons p ps)
  note d = delete_file_overlay [OF Cons.prems(2), of p]
  have p: "shared_validate_path p = Inr ()" "restore_deleted ps (insert p paths) (delete_file p L) = Inr L'"
    using Cons.prems(1) by (auto simp: invalid_def split: if_splits)
  have "storable_overlay (overlay_of (delete_file p L))"
    using Cons.prems(3) p(1) unfolding d(2) storable_overlay_def shared_validate_path_iff by auto
  then show ?case using Cons.IH [OF p(2) d(1)] by blast
qed simp

lemma into_live_ok:
  assumes "into_live data = Inr L"
  shows "live_inv L \<and> storable_overlay (overlay_of L)"
proof -
  obtain paths L1 L2 where L: "length (od_files data) < 2 ^ 31" "restore_files (od_files data) {} live_new = Inr (paths, L1)"
    "restore_deleted (od_deleted data) paths L1 = Inr L2" "L = reset_dirty_count L2"
    using assms by (auto simp: into_live_def OVERLAY_BIT_nat invalid_def split: if_splits)
  have "storable_overlay (overlay_of live_new)" by (simp add: storable_overlay_def)
  moreover have "unat (next_id live_new) + length (od_files data) \<le> 2 ^ 31" using L(1) by (simp add: live_new_def)
  ultimately have "live_inv L1 \<and> storable_overlay (overlay_of L1)" by (rule restore_files_ok [OF L(2) live_inv_new])
  then have "live_inv L2 \<and> storable_overlay (overlay_of L2)" using restore_deleted_ok [OF L(3)] by blast
  moreover have "overlay_of L = overlay_of L2"
    by (simp add: L(4) reset_dirty_count_def overlay_of_def fun_eq_iff split: option.split)
  ultimately show ?thesis by (simp add: L(4) reset_dirty_count_def)
qed

section \<open>Properties\<close>

text \<open>C13. A checkpoint of a worktree restores its view: captured and restored over the same base, the worktree has
  the same tables for every path, nothing dirty, and every search finds the same paths.\<close>

theorem checkpoint_restores_the_view:
  assumes inv: "hybrid_inv W" "hreader W = base_reader base"
    and iters: "path_iteration piter" "iteration titer" "iteration iter"
    and overlay: "finite (deleted_paths (hlive W))" "storable_overlay (overlay_of (hlive W))"
      "card (Mapping.keys (path_to_id (hlive W))) < 2 ^ 31"
    and roots: "canonical_root (root W) = Inr rt" "canonical_root rt' = Inr rt"
  shows "\<exists>checkpoint W'.
    capture_checkpoint piter titer iter canonical_root base W True generation = Inr checkpoint \<and>
    restore_checkpoint canonical_root base rt' checkpoint generation = Inr W' \<and>
    hybrid_inv W' \<and> path_tables W' = path_tables W \<and> dirty_count (hlive W') = 0 \<and>
    (\<forall>plan pre. well_formed_plan plan \<longrightarrow> paths_found iter W' plan pre = paths_found iter W plan pre)"
proof -
  have live: "live_inv (hlive W)" using inv(1) by (simp add: hybrid_inv_def)
  obtain data L' where data: "capture piter titer iter (hlive W) = Inr data" "into_live data = Inr L'" "live_inv L'"
    "overlay_of L' = overlay_of (hlive W)" "dirty_count L' = 0"
    using restored_overlay [OF live iters overlay] by blast
  define W' where "W' = (from_reader (base_reader base) rt)\<lparr>hlive := L'\<rparr>"
  have W': "hreader W' = hreader W" "hlive W' = L'" by (simp_all add: W'_def from_reader_def inv(2))
  have inv': "hybrid_inv W'" using inv(1) data(3) by (simp add: hybrid_inv_def W')
  have tables: "path_tables W' = path_tables W" unfolding path_tables_def W' data(4) by (rule refl)
  have "paths_found iter W' plan pre = paths_found iter W plan pre" if "well_formed_plan plan" for plan pre
    by (simp add: paths_found_view [OF inv' iters(3) that] paths_found_view [OF inv(1) iters(3) that] tables)
  moreover have "capture_checkpoint piter titer iter canonical_root base W True generation = Inr
      \<lparr>oc_version = OVERLAY_VERSION, oc_base_id = base_id base, oc_root = root_from_path rt, oc_overlay = data,
       oc_generation = generation\<rparr>" by (simp add: capture_checkpoint_def roots data(1))
  moreover have "restore_checkpoint canonical_root base rt'
      \<lparr>oc_version = OVERLAY_VERSION, oc_base_id = base_id base, oc_root = root_from_path rt, oc_overlay = data,
       oc_generation = generation\<rparr> generation = Inr W'" by (simp add: restore_checkpoint_def roots data(2) W'_def)
  ultimately show ?thesis using inv' tables data(5) W'(2) by blast
qed

lemma demo_overlay_storable: "storable_overlay (overlay_of (hlive demo_hybrid))"
proof -
  have "validate_index_path [0x62] = Inr ()" by code_simp
  then show ?thesis
    by (auto simp: storable_overlay_def demo_hybrid_overlay(2) no_filter_def split: if_splits)
qed

theorem checkpoint_restores_the_view_witness:
  "\<exists>checkpoint W'.
    capture_checkpoint sorted_list_of_set sorted_list_of_set sorted_list_of_set Inr
      \<lparr>base_id = [7], base_reader = demo_reader\<rparr> demo_hybrid True (None :: nat option) = Inr checkpoint \<and>
    restore_checkpoint Inr \<lparr>base_id = [7], base_reader = demo_reader\<rparr> [0x2F] checkpoint None = Inr W' \<and>
    path_tables W' [0x62] = path_tables demo_hybrid [0x62]"
proof -
  let ?base = "\<lparr>base_id = [7], base_reader = demo_reader\<rparr>"
  have parts: "hreader demo_hybrid = base_reader ?base" "finite (deleted_paths (hlive demo_hybrid))"
    "card (Mapping.keys (path_to_id (hlive demo_hybrid))) < 2 ^ 31" "root demo_hybrid = [0x2F]"
    by (simp_all add: demo_hybrid_def upsert_file_with_trigrams_def register_path_def live_new_def insert_posting_def)
  have "(Inr (root demo_hybrid) :: byte list result) = Inr [0x2F]" "(Inr [0x2F] :: byte list result) = Inr [0x2F]"
    by (simp_all add: parts(4))
  from checkpoint_restores_the_view [OF demo_hybrid_inv parts(1) path_iteration_sorted iteration_sorted_list_of_set
      iteration_sorted_list_of_set parts(2) demo_overlay_storable parts(3) this, of None]
  show ?thesis by (elim exE conjE) (intro exI conjI, assumption, assumption, simp)
qed

text \<open>C14. Nothing is restored from a checkpoint of another base, version, generation or root, and what is
  restored is well formed whatever the checkpoint holds: the overlay keeps the invariant of the live
  index, its paths are valid and its entries can be stored again.\<close>

theorem restored_checkpoint_is_checked:
  assumes "wf_reader (base_reader base)" "length (reader_paths (base_reader base)) < 2 ^ 31"
    and "restore_checkpoint canonical_root base rt checkpoint generation = Inr W"
  shows "oc_version checkpoint = OVERLAY_VERSION \<and> oc_base_id checkpoint = base_id base \<and>
    (generation = None \<or> oc_generation checkpoint = generation) \<and>
    (\<exists>rt'. canonical_root rt = Inr rt' \<and> root W = rt' \<and> oc_root checkpoint = root_from_path rt' \<and>
      root_to_path (oc_root checkpoint) = Inr rt') \<and>
    hreader W = base_reader base \<and> hybrid_inv W \<and> storable_overlay (overlay_of (hlive W))"
proof -
  obtain rt' L where r: "oc_version checkpoint = OVERLAY_VERSION" "oc_base_id checkpoint = base_id base"
    "generation = None \<or> oc_generation checkpoint = generation" "canonical_root rt = Inr rt'"
    "oc_root checkpoint = root_from_path rt'" "into_live (oc_overlay checkpoint) = Inr L"
    "W = (from_reader (base_reader base) rt')\<lparr>hlive := L\<rparr>"
    using assms(3) by (auto simp: restore_checkpoint_def invalid_def split: if_splits)
  have W: "hreader W = base_reader base" "hlive W = L" "root W = rt'" by (simp_all add: r(7) from_reader_def)
  have "root_to_path (root_from_path rt') = Inr rt'" by (simp add: root_from_path_def)
  then show ?thesis using r(1-5) into_live_ok [OF r(6)] assms(1,2) by (simp add: W hybrid_inv_def)
qed

theorem restored_checkpoint_is_checked_witness:
  "\<exists>W. restore_checkpoint Inr \<lparr>base_id = [7], base_reader = demo_reader\<rparr> [0x2F]
      \<lparr>oc_version = 1, oc_base_id = [7], oc_root = Unicode [0x2F],
       oc_overlay = \<lparr>od_files = [\<lparr>of_path = [0x62], of_trigrams = [(9, 1, 2)]\<rparr>], od_deleted = [[0x61]]\<rparr>,
       oc_generation = Some (3 :: nat)\<rparr> (Some 3) = Inr W \<and>
    hybrid_inv W \<and> storable_overlay (overlay_of (hlive W))"
proof -
  let ?base = "\<lparr>base_id = [7], base_reader = demo_reader\<rparr>"
  let ?overlay = "\<lparr>od_files = [\<lparr>of_path = [0x62], of_trigrams = [(9, 1, 2)]\<rparr>], od_deleted = [[0x61]]\<rparr>"
  let ?checkpoint = "\<lparr>oc_version = 1, oc_base_id = [7], oc_root = Unicode [0x2F], oc_overlay = ?overlay,
       oc_generation = Some (3 :: nat)\<rparr>"
  have p: "shared_validate_path [0x62] = Inr ()" "shared_validate_path [0x61] = Inr ()" "valid_utf8 [0x2F]" by code_simp+
  obtain L where "into_live ?overlay = Inr L"
    by (auto simp: into_live_def p OVERLAY_BIT_nat validate_trigram_def)
  then obtain W where W: "restore_checkpoint Inr ?base [0x2F] ?checkpoint (Some 3) = Inr W"
    by (simp add: restore_checkpoint_def OVERLAY_VERSION_def root_from_path_def p)
  have "wf_reader (base_reader ?base)" "length (reader_paths (base_reader ?base)) < 2 ^ 31"
    using open_impl_wf [OF demo_open [of False False]] by (simp_all add: demo_fields)
  from restored_checkpoint_is_checked [OF this W] W show ?thesis by blast
qed

end
