(* ===== verification/Json_Stream.thy ===== *)
theory Json_Stream
  imports Printer
begin

text \<open>
  The JSON output as a stream of messages (\<^verbatim>\<open>tgrep-cli/src/output.rs\<close>): whatever
  operations a writer performs, the bytes it leaves are messages that open and close one file at a
  time, with one summary at the end that counts what the messages report.
\<close>

section \<open>Messages\<close>

definition msg_kind :: "json \<Rightarrow> byte list" where
  "msg_kind m = (case m of JObject ((k, JText t) # rest) \<Rightarrow> t | _ \<Rightarrow> [])"

definition msg_data :: "json \<Rightarrow> (string \<times> json) list" where
  "msg_data m = (case m of JObject [f, (k, JObject data)] \<Rightarrow> data | _ \<Rightarrow> [])"

definition msg_path :: "json \<Rightarrow> byte list" where
  "msg_path m = (case map_of (msg_data m) ''path'' of Some (JObject [(k, JText p)]) \<Rightarrow> p | _ \<Rightarrow> [])"

definition msg_submatches :: "json \<Rightarrow> nat" where
  "msg_submatches m = (case map_of (msg_data m) ''submatches'' of Some (JArray xs) \<Rightarrow> length xs | _ \<Rightarrow> 0)"

lemma message_simps [simp]:
  "msg_kind (message kind data) = ascii kind" "msg_data (message kind data) = data"
  by (simp_all add: message_def msg_kind_def msg_data_def)

lemma ascii_eq [simp]: "ascii s = ascii t \<longleftrightarrow> s = t"
proof -
  have "inj (of_char :: char \<Rightarrow> byte)" by (simp add: inj_def)
  then show ?thesis unfolding ascii_def by (rule inj_map_eq_map)
qed

text \<open>The state of a reader of the stream is the path of the open file; a message that does not fit is None.\<close>

definition stream_step :: "json \<Rightarrow> byte list option \<Rightarrow> byte list option option" where
  "stream_step m st =
     (if msg_kind m = ascii ''begin'' then if st = None then Some (Some (msg_path m)) else None
      else if msg_kind m = ascii ''match'' \<or> msg_kind m = ascii ''context''
        then if st = Some (msg_path m) then Some st else None
      else if msg_kind m = ascii ''end'' then if st = Some (msg_path m) then Some None else None
      else None)"

definition stream :: "json list \<Rightarrow> byte list option option" where
  "stream msgs = foldl (\<lambda>st m. Option.bind st (stream_step m)) (Some None) msgs"

lemma stream_snoc: "stream (msgs @ [m]) = Option.bind (stream msgs) (stream_step m)"
  by (simp add: stream_def)

definition msg_line :: "json \<Rightarrow> json" where
  "msg_line m = (case map_of (msg_data m) ''line_number'' of Some n \<Rightarrow> n | None \<Rightarrow> JNull)"

text \<open>The lines that the messages report, in order, each with its kind and its path.\<close>

definition reported :: "json list \<Rightarrow> (byte list \<times> byte list \<times> json) list" where
  "reported msgs = map (\<lambda>m. (msg_kind m, msg_path m, msg_line m))
     (filter (\<lambda>m. msg_kind m = ascii ''match'' \<or> msg_kind m = ascii ''context'') msgs)"

lemma reported_append [simp]: "reported [] = []" "reported (msgs @ ms) = reported msgs @ reported ms"
  by (simp_all add: reported_def)

definition written :: "renderer \<Rightarrow> json list \<Rightarrow> byte list" where
  "written render msgs = concat (map (\<lambda>m. render m @ [0x0A]) msgs)"

text \<open>The bytes of the messages that count as printed.\<close>

definition counted :: "renderer \<Rightarrow> json list \<Rightarrow> nat" where
  "counted render msgs = (\<Sum>m\<leftarrow>filter (\<lambda>m. msg_kind m \<noteq> ascii ''end'') msgs. length (render m) + 1)"

lemma display_path_config:
  "config v = config w \<Longrightarrow> display_path v = display_path w"
  by (simp add: display_path_def fun_eq_iff)

lemma display_path_updates [simp]:
  "display_path (file_stats_update f w) = display_path w" "display_path (last_json_match_line_update g w) = display_path w"
  by (auto intro!: display_path_config)

definition json_inv :: "renderer \<Rightarrow> output_writer \<Rightarrow> json list \<Rightarrow> bool" where
  "json_inv render w msgs \<longleftrightarrow> is_json w \<and> \<not> pending_file_separator w \<and> stdout w = written render msgs \<and>
     stream msgs = Some (map_option (display_path w) (current_file w)) \<and>
     stat_matches (total_stats w) + stat_matches (file_stats w) = (\<Sum>m\<leftarrow>msgs. msg_submatches m) \<and>
     bytes_printed (total_stats w) + bytes_printed (file_stats w) = counted render msgs \<and>
     (current_file w = None \<longrightarrow> stat_matches (file_stats w) = 0 \<and> bytes_printed (file_stats w) = 0)"

lemma json_inv_new: "format cfg = Json \<Longrightarrow> json_inv render (writer_new tty cfg) []"
  by (simp add: json_inv_def is_json_def writer_new_def written_def stream_def counted_def stats_default_def)

lemma json_inv_cong:
  assumes "json_inv render w msgs" "config v = config w" "stdout v = stdout w" "current_file v = current_file w"
    and "total_stats v = total_stats w" "file_stats v = file_stats w" "pending_file_separator v = pending_file_separator w"
  shows "json_inv render v msgs"
  using assms(1) display_path_config [OF assms(2)] assms(2-) by (simp add: json_inv_def is_json_def)

lemma put_simps [simp]:
  "stdout (put bs w) = stdout w @ bs" "config (put bs w) = config w" "current_file (put bs w) = current_file w"
  "total_stats (put bs w) = total_stats w" "file_stats (put bs w) = file_stats w"
  "all_searches (put bs w) = all_searches w" "all_bytes_searched (put bs w) = all_bytes_searched w"
  "pending_file_separator (put bs w) = pending_file_separator w"
  by (simp_all add: put_def)

text \<open>The message that closes a file moves what was counted for it to the totals.\<close>

definition end_message :: "json \<Rightarrow> path \<Rightarrow> output_writer \<Rightarrow> json" where
  "end_message e f w =
     message ''end''
       [(''path'', json_text (display_path w f)),
        (''binary_offset'', case current_binary_offset w of Some off \<Rightarrow> JNumber off | None \<Rightarrow> JNull),
        (''stats'', stats_to_json e
           (if stat_matched_lines (file_stats w) > 0 then (file_stats w)\<lparr>searches_with_match := 1\<rparr> else file_stats w))]"

lemma end_message_simps [simp]:
  "msg_kind (end_message e f w) = ascii ''end''" "msg_path (end_message e f w) = display_path w f"
  "msg_submatches (end_message e f w) = 0"
  by (simp_all add: end_message_def msg_path_def msg_submatches_def json_text_def)

lemma finish_json_simps:
  "current_file (finish_json_file render e w) = None" "config (finish_json_file render e w) = config w"
  "all_searches (finish_json_file render e w) = all_searches w"
  "all_bytes_searched (finish_json_file render e w) = all_bytes_searched w"
  "pending_file_separator (finish_json_file render e w) = pending_file_separator w"
  "stdout (finish_json_file render e w) = stdout w @
     (case current_file w of None \<Rightarrow> [] | Some f \<Rightarrow> render (end_message e f w) @ [0x0A])"
  "stat_matches (total_stats (finish_json_file render e w)) + stat_matches (file_stats (finish_json_file render e w)) =
     stat_matches (total_stats w) + stat_matches (file_stats w)"
  "bytes_printed (total_stats (finish_json_file render e w)) + bytes_printed (file_stats (finish_json_file render e w)) =
     bytes_printed (total_stats w) + bytes_printed (file_stats w)"
  "current_file w = None \<longrightarrow> stat_matches (file_stats w) = 0 \<and> bytes_printed (file_stats w) = 0 \<Longrightarrow>
     stat_matches (file_stats (finish_json_file render e w)) = 0 \<and> bytes_printed (file_stats (finish_json_file render e w)) = 0"
  by (simp_all add: finish_json_file_def Let_def put_line_def end_message_def display_path_def stats_add_def
      stats_default_def split: option.split)

lemma finish_json:
  assumes "json_inv render w msgs"
  shows "\<exists>ms. json_inv render (finish_json_file render e w) (msgs @ ms) \<and> reported ms = []"
proof (cases "current_file w")
  case None
  then show ?thesis using assms by (intro exI [of _ "[]"]) (simp add: finish_json_file_def)
next
  case (Some f)
  have "stream (msgs @ [end_message e f w]) = Some None"
    using assms Some by (simp add: json_inv_def stream_snoc stream_step_def)
  moreover have "stat_matches (file_stats (finish_json_file render e w)) = 0 \<and> bytes_printed (file_stats (finish_json_file render e w)) = 0"
    using Some by (intro finish_json_simps) simp
  moreover from this
  have "stat_matches (total_stats (finish_json_file render e w)) = stat_matches (total_stats w) + stat_matches (file_stats w)"
    "bytes_printed (total_stats (finish_json_file render e w)) = bytes_printed (total_stats w) + bytes_printed (file_stats w)"
    using finish_json_simps(7,8) [of render e w] by simp_all
  ultimately have "json_inv render (finish_json_file render e w) (msgs @ [end_message e f w])"
    using assms Some by (simp add: json_inv_def is_json_def finish_json_simps(1-6) written_def counted_def)
  then show ?thesis by (intro exI [of _ "[end_message e f w]"]) (simp add: reported_def)
qed

text \<open>A counted message of an open file, written after the count of matches has been raised by its own.\<close>

lemma put_counted_simps [simp]:
  "stdout (put_counted render m w) = stdout w @ render m @ [0x0A]" "config (put_counted render m w) = config w"
  "total_stats (put_counted render m w) = total_stats w" "current_file (put_counted render m w) = current_file w"
  "all_searches (put_counted render m w) = all_searches w" "all_bytes_searched (put_counted render m w) = all_bytes_searched w"
  "pending_file_separator (put_counted render m w) = pending_file_separator w"
  "stat_matches (file_stats (put_counted render m w)) = stat_matches (file_stats w)"
  "bytes_printed (file_stats (put_counted render m w)) = bytes_printed (file_stats w) + (length (render m) + 1)"
  by (simp_all add: put_counted_def Let_def put_def)

lemma put_counted_message:
  assumes inv: "json_inv render w msgs"
    and cfg: "config w' = config w" "pending_file_separator w' = pending_file_separator w" "stdout w' = stdout w @ render m @ [0x0A]" "total_stats w' = total_stats w"
    and bytes: "bytes_printed (file_stats w') = bytes_printed (file_stats w) + (length (render m) + 1)"
    and subs: "stat_matches (file_stats w') = stat_matches (file_stats w) + msg_submatches m"
    and step: "stream_step m (map_option (display_path w) (current_file w)) = Some (map_option (display_path w) (current_file w'))"
    and kind: "msg_kind m \<noteq> ascii ''end''" "current_file w' \<noteq> None"
  shows "json_inv render w' (msgs @ [m])"
proof -
  have "stream (msgs @ [m]) = Some (map_option (display_path w) (current_file w'))"
    using inv step by (simp add: json_inv_def stream_snoc)
  then show ?thesis using inv cfg bytes subs kind display_path_config [OF cfg(1)]
    by (simp add: json_inv_def is_json_def written_def counted_def)
qed

definition begin_message :: "path \<Rightarrow> output_writer \<Rightarrow> json" where
  "begin_message f w = message ''begin'' [(''path'', json_text (display_path w f))]"

lemma begin_message_simps [simp]:
  "msg_kind (begin_message f w) = ascii ''begin''" "msg_path (begin_message f w) = display_path w f"
  "msg_submatches (begin_message f w) = 0"
  by (simp_all add: begin_message_def msg_path_def msg_submatches_def json_text_def)

lemma begin_json_simps:
  "current_file (ensure_json_begin render e f w) = Some f" "config (ensure_json_begin render e f w) = config w"
  "all_searches (ensure_json_begin render e f w) = all_searches w"
  "all_bytes_searched (ensure_json_begin render e f w) = all_bytes_searched w"
  "pending_file_separator (ensure_json_begin render e f w) = pending_file_separator w"
  by (simp_all add: ensure_json_begin_def Let_def finish_json_simps)

lemma begin_json:
  assumes "json_inv render w msgs"
  shows "\<exists>ms. json_inv render (ensure_json_begin render e f w) (msgs @ ms) \<and> reported ms = []"
proof (cases "current_file w = Some f")
  case True
  then show ?thesis using assms by (intro exI [of _ "[]"]) (simp add: ensure_json_begin_def)
next
  case False
  obtain ms where ms: "json_inv render (finish_json_file render e w) (msgs @ ms)" and none: "reported ms = []"
    using finish_json [OF assms] by blast
  have "json_inv render (ensure_json_begin render e f w) ((msgs @ ms) @ [begin_message f (finish_json_file render e w)])"
  proof (rule put_counted_message [OF ms])
    show "stdout (ensure_json_begin render e f w) =
        stdout (finish_json_file render e w) @ render (begin_message f (finish_json_file render e w)) @ [0x0A]"
      using False by (simp add: ensure_json_begin_def Let_def begin_message_def)
  qed (use False in \<open>simp_all add: begin_json_simps finish_json_simps(1-5) stream_step_def\<close>,
      simp_all add: ensure_json_begin_def Let_def begin_message_def)
  then show ?thesis using none
    by (intro exI [of _ "ms @ [begin_message f (finish_json_file render e w)]"]) (simp add: reported_def)
qed

section \<open>Operations on a writer\<close>

text \<open>The calls that a search makes, between the creation of a writer and its end, when the format is JSON.\<close>

datatype writer_op =
    OpMatch match_result
  | OpContext context_result
  | OpSeparator path nat
  | OpBinary path nat
  | OpSearched nat
  | OpNotes nat nat
  | OpFlush

fun perform :: "renderer \<Rightarrow> json \<Rightarrow> writer_op \<Rightarrow> output_writer \<Rightarrow> output_writer" where
  "perform render e (OpMatch m) w = write_match render e m w"
| "perform render e (OpContext x) w = write_context_line render e x w"
| "perform render e (OpSeparator f l) w = write_context_separator f l w"
| "perform render e (OpBinary f off) w = write_binary_note render e f off w"
| "perform render e (OpSearched n) w = note_bytes_searched n w"
| "perform render e (OpNotes a b) w = note_matches a b w"
| "perform render e OpFlush w = writer_flush render e w"

fun result_of :: "output_writer \<Rightarrow> writer_op \<Rightarrow> (byte list \<times> byte list \<times> json) list" where
  "result_of w (OpMatch m) =
     (if r_hidden m then [] else [(ascii ''match'', display_path w (r_file m), JNumber (r_line_number m))])"
| "result_of w (OpContext x) = [(ascii ''context'', display_path w (x_file x), JNumber (x_line_number x))]"
| "result_of w op = []"

fun searched :: "writer_op \<Rightarrow> nat list" where
  "searched (OpSearched n) = [n]"
| "searched op = []"

definition context_message :: "output_writer \<Rightarrow> context_result \<Rightarrow> json" where
  "context_message w x =
     message ''context''
       [(''path'', json_text (display_path w (x_file x))),
        (''lines'', json_line (x_content x) (x_raw x) (x_terminator_len x)),
        (''line_number'', JNumber (x_line_number x)),
        (''absolute_offset'', JNumber (x_absolute_offset x)), (''submatches'', JArray [])]"

lemma context_message_simps [simp]:
  "msg_kind (context_message w x) = ascii ''context''" "msg_path (context_message w x) = display_path w (x_file x)"
  "msg_submatches (context_message w x) = 0" "msg_line (context_message w x) = JNumber (x_line_number x)"
  by (simp_all add: context_message_def msg_path_def msg_submatches_def msg_line_def json_text_def)

lemma json_untrimmed:
  "is_json w \<Longrightarrow> trim_adjust_indexed w s spans = (s, zip [0..<length spans] spans)"
  "is_json w \<Longrightarrow> fst (trim_adjust w s spans) = s"
  "is_json w \<Longrightarrow> fst (trim_raw w s raw rs kept) = raw"
  by (simp_all add: trim_adjust_def trim_adjust_indexed_def trims_def trim_raw_def)

lemma context_json:
  assumes inv: "json_inv render w msgs"
  shows "\<exists>ms. json_inv render (write_context_line render e x w) (msgs @ ms) \<and> reported ms = result_of w (OpContext x)"
proof -
  let ?b = "ensure_json_begin render e (x_file x) w"
  obtain ms where ms: "json_inv render ?b (msgs @ ms)" and none: "reported ms = []" using begin_json [OF inv] by blast
  have json: "is_json w" "is_json ?b" using inv ms by (auto simp: json_inv_def)
  have written: "write_context_line render e x w =
      (put_counted render (context_message ?b x) ?b)\<lparr>last_printed_line := Some (x_file x, x_line_number x)\<rparr>"
    using json by (simp add: write_context_line_def Let_def context_message_def json_untrimmed option.map_comp o_def option.map_ident)
  have "json_inv render (write_context_line render e x w) ((msgs @ ms) @ [context_message ?b x])"
    by (rule put_counted_message [OF ms]) (simp_all add: written stream_step_def begin_json_simps)
  then show ?thesis using none display_path_config [of ?b w]
    by (intro exI [of _ "ms @ [context_message ?b x]"]) (simp add: reported_def begin_json_simps)
qed

definition match_message :: "output_writer \<Rightarrow> match_result \<Rightarrow> byte list \<Rightarrow> (nat \<times> nat \<times> nat) list \<Rightarrow> json" where
  "match_message w m content kept =
     (let raw = map_option (\<lambda>raw. trim_raw w (r_content m) (raw_bytes raw) (raw_spans raw) (map fst kept)) (r_raw m)
      in message ''match''
        [(''path'', json_text (display_path w (r_file m))),
         (''lines'', json_line content (map_option fst raw) (r_terminator_len m)),
         (''line_number'', JNumber (r_line_number m)), (''absolute_offset'', JNumber (r_absolute_offset m)),
         (''submatches'', JArray (map (\<lambda>(k, span). submatch_json m content raw k span) (zip [0..<length kept] kept)))])"

lemma match_message_simps [simp]:
  "msg_kind (match_message w m content kept) = ascii ''match''"
  "msg_path (match_message w m content kept) = display_path w (r_file m)"
  "msg_submatches (match_message w m content kept) = length kept"
  "msg_line (match_message w m content kept) = JNumber (r_line_number m)"
  by (simp_all add: match_message_def Let_def msg_path_def msg_submatches_def msg_line_def json_text_def)

lemma write_json_match_simps:
  fixes render e m content kept w
  defines "w' \<equiv> write_json_match render e m content kept w" and "b \<equiv> ensure_json_begin render e (r_file m) w"
  shows "config w' = config b" "pending_file_separator w' = pending_file_separator b"
    "current_file w' = current_file b" "total_stats w' = total_stats b"
    "all_searches w' = all_searches b" "all_bytes_searched w' = all_bytes_searched b"
    "stdout w' = stdout b @ render (match_message b m content kept) @ [0x0A]"
    "bytes_printed (file_stats w') = bytes_printed (file_stats b) + (length (render (match_message b m content kept)) + 1)"
    "stat_matches (file_stats w') = stat_matches (file_stats b) + length kept"
proof -
  let ?stats = "if last_json_match_line b \<noteq> Some (r_line_number m)
                then (file_stats b)\<lparr>stat_matched_lines := stat_matched_lines (file_stats b) + 1\<rparr> else file_stats b"
  let ?b = "b\<lparr>last_json_match_line := Some (r_line_number m),
              file_stats := ?stats\<lparr>stat_matches := stat_matches ?stats + length kept\<rparr>\<rparr>"
  have "w' = put_counted render (match_message b m content kept) ?b"
    unfolding w'_def write_json_match_def b_def [symmetric] Let_def match_message_def
    by simp
  then show "config w' = config b" "pending_file_separator w' = pending_file_separator b"
    "current_file w' = current_file b" "total_stats w' = total_stats b"
    "all_searches w' = all_searches b" "all_bytes_searched w' = all_bytes_searched b"
    "stdout w' = stdout b @ render (match_message b m content kept) @ [0x0A]"
    "bytes_printed (file_stats w') = bytes_printed (file_stats b) + (length (render (match_message b m content kept)) + 1)"
    "stat_matches (file_stats w') = stat_matches (file_stats b) + length kept"
    by simp_all
qed

lemma match_json:
  assumes inv: "json_inv render w msgs"
  shows "\<exists>ms. json_inv render (write_match render e m w) (msgs @ ms) \<and> reported ms = result_of w (OpMatch m)"
proof (cases "r_hidden m")
  case True
  have json: "format (config w) = Json" using inv by (simp add: json_inv_def is_json_def)
  have "json_inv render (write_match render e m w) msgs"
    by (rule json_inv_cong [OF inv]) (simp_all add: write_match_def True json)
  then show ?thesis using True by (intro exI [of _ "[]"]) simp
next
  case False
  let ?b = "ensure_json_begin render e (r_file m) w" let ?kept = "zip [0..<length (r_spans m)] (r_spans m)"
  let ?m = "match_message ?b m (r_content m) ?kept"
  obtain ms where ms: "json_inv render ?b (msgs @ ms)" and none: "reported ms = []" using begin_json [OF inv] by blast
  have json: "format (config w) = Json" "\<not> pending_file_separator w" using inv by (auto simp: json_inv_def is_json_def)
  have sep: "write_pending_file_separator w = w"
    using json(2) by (cases w) (simp add: write_pending_file_separator_def Let_def split: option.split)
  have step: "stream_step ?m (Some (display_path ?b (r_file m))) = Some (Some (display_path ?b (r_file m)))"
    by (simp add: stream_step_def)
  let ?j = "write_json_match render e m (r_content m) ?kept w"
  have j: "json_inv render ?j ((msgs @ ms) @ [?m])"
    by (rule put_counted_message [OF ms]) (simp_all add: write_json_match_simps step begin_json_simps(1))
  have "json_inv render (write_match render e m w) ((msgs @ ms) @ [?m])"
    by (rule json_inv_cong [OF j]) (simp_all add: write_match_def Let_def False sep json_untrimmed is_json_def json(1))
  then show ?thesis using none False display_path_config [of ?b w]
    by (intro exI [of _ "ms @ [?m]"]) (simp add: reported_def begin_json_simps)
qed

lemma json_frame:
  assumes "json_inv render w msgs"
  shows "config (perform render e op w) = config w"
    "all_searches (perform render e op w) = all_searches w + length (searched op)"
    "all_bytes_searched (perform render e op w) = all_bytes_searched w + sum_list (searched op)"
proof -
  have json: "format (config w) = Json" "\<not> pending_file_separator w" "is_json w"
    using assms by (auto simp: json_inv_def is_json_def)
  have sep: "write_pending_file_separator w = w"
    using json(2) by (cases w) (simp add: write_pending_file_separator_def Let_def split: option.split)
  have "config (perform render e op w) = config w \<and>
    all_searches (perform render e op w) = all_searches w + length (searched op) \<and>
    all_bytes_searched (perform render e op w) = all_bytes_searched w + sum_list (searched op)"
  proof (cases op)
    case (OpMatch m)
    then show ?thesis
      by (simp add: write_match_def Let_def json sep json_untrimmed write_json_match_simps begin_json_simps)
  next
    case (OpContext x)
    then show ?thesis by (simp add: write_context_line_def json Let_def begin_json_simps)
  qed (simp_all add: write_context_separator_def write_binary_note_def note_bytes_searched_def set_file_bytes_searched_def
      note_matches_def writer_flush_def json begin_json_simps finish_json_simps Let_def)
  then show "config (perform render e op w) = config w"
    "all_searches (perform render e op w) = all_searches w + length (searched op)"
    "all_bytes_searched (perform render e op w) = all_bytes_searched w + sum_list (searched op)" by auto
qed

lemma perform_json:
  assumes inv: "json_inv render w msgs"
  shows "\<exists>ms. json_inv render (perform render e op w) (msgs @ ms) \<and> reported ms = result_of w op"
proof (cases op)
  case (OpMatch m)
  then show ?thesis using match_json [OF inv] by simp
next
  case (OpContext x)
  then show ?thesis using context_json [OF inv] by simp
next
  case (OpSeparator f l)
  then show ?thesis using inv
    by (intro exI [of _ "[]"]) (simp add: json_inv_def write_context_separator_def)
next
  case (OpBinary f off)
  obtain ms where "json_inv render (ensure_json_begin render e f w) (msgs @ ms)" "reported ms = []"
    using begin_json [OF inv] by blast
  moreover from this(1) have "json_inv render (perform render e op w) (msgs @ ms)"
    by (rule json_inv_cong) (use inv in \<open>simp_all add: OpBinary write_binary_note_def json_inv_def\<close>)
  ultimately show ?thesis using OpBinary by auto
next
  case (OpSearched n)
  have "json_inv render (perform render e op w) msgs"
    by (rule json_inv_cong [OF inv]) (simp_all add: OpSearched note_bytes_searched_def set_file_bytes_searched_def)
  then show ?thesis using OpSearched by (intro exI [of _ "[]"]) simp
next
  case (OpNotes a b)
  have "json_inv render (perform render e op w) msgs"
    by (rule json_inv_cong [OF inv]) (simp_all add: OpNotes note_matches_def)
  then show ?thesis using OpNotes by (intro exI [of _ "[]"]) simp
next
  case OpFlush
  then show ?thesis using finish_json [OF inv, of e] inv by (simp add: writer_flush_def json_inv_def)
qed

definition perform_all :: "renderer \<Rightarrow> (json \<times> writer_op) list \<Rightarrow> output_writer \<Rightarrow> output_writer" where
  "perform_all render ops w = fold (\<lambda>(e, op). perform render e op) ops w"

lemma perform_all_json:
  assumes "json_inv render w msgs"
  shows "\<exists>ms. json_inv render (perform_all render ops w) (msgs @ ms) \<and>
      reported ms = concat (map (\<lambda>(e, op). result_of w op) ops) \<and>
      all_searches (perform_all render ops w) = all_searches w + length (concat (map (\<lambda>(e, op). searched op) ops)) \<and>
      all_bytes_searched (perform_all render ops w) = all_bytes_searched w + sum_list (concat (map (\<lambda>(e, op). searched op) ops))"
  using assms
proof (induction ops arbitrary: w msgs)
  case Nil
  then show ?case by (intro exI [of _ "[]"]) (simp add: perform_all_def)
next
  case (Cons eop ops)
  obtain e op where eop: "eop = (e, op)" by (cases eop)
  obtain ms where ms: "json_inv render (perform render e op w) (msgs @ ms)" "reported ms = result_of w op"
    using perform_json [OF Cons.prems] by blast
  note frame = json_frame [OF Cons.prems, of e op]
  have same: "result_of (perform render e op w) o' = result_of w o'" for o'
    using display_path_config [OF frame(1)] by (cases o') simp_all
  obtain ms' where "json_inv render (perform_all render (eop # ops) w) (msgs @ ms @ ms')"
    "reported ms' = concat (map (\<lambda>(e, op). result_of w op) ops)"
    "all_searches (perform_all render (eop # ops) w) =
       all_searches w + length (searched op) + length (concat (map (\<lambda>(e, op). searched op) ops))"
    "all_bytes_searched (perform_all render (eop # ops) w) =
       all_bytes_searched w + sum_list (searched op) + sum_list (concat (map (\<lambda>(e, op). searched op) ops))"
    using Cons.IH [OF ms(1)] unfolding same frame(2,3) by (auto simp: perform_all_def eop)
  then show ?case using ms(2) by (intro exI [of _ "ms @ ms'"]) (simp add: eop)
qed

text \<open>C24. The JSON output is a stream of messages: whatever a search writes, the output is one message to a line; the
  messages open one file at a time, report lines of the open file only and close it before the next; a summary follows once
  every file is closed; the lines reported are those written, in their order; and the summary counts the submatches and the
  bytes of the messages, and the files and bytes searched.\<close>

theorem json_output_is_a_stream:
  assumes "format cfg = Json"
  shows "\<exists>msgs summary.
     let w = perform_all render ops (writer_new tty cfg); final = total_stats (writer_finish render e whole w);
         sizes = concat (map (\<lambda>(e, op). searched op) ops)
     in stdout (writer_finish render e whole w) = written render (msgs @ [summary]) \<and>
        summary = message ''summary'' [(''elapsed_total'', whole), (''stats'', stats_to_json whole final)] \<and>
        stream msgs = Some None \<and>
        reported msgs = concat (map (\<lambda>(e, op). result_of (writer_new tty cfg) op) ops) \<and>
        stat_matches final = (\<Sum>m\<leftarrow>msgs. msg_submatches m) \<and> bytes_printed final = counted render msgs \<and>
        searches final = length sizes \<and> bytes_searched final = sum_list sizes"
proof -
  let ?w = "perform_all render ops (writer_new tty cfg)"
  let ?f = "finish_json_file render e ?w"
  have new: "all_searches (writer_new tty cfg) = 0" "all_bytes_searched (writer_new tty cfg) = 0"
    by (simp_all add: writer_new_def)
  obtain ms where ms: "json_inv render ?w ms"
    "reported ms = concat (map (\<lambda>(e, op). result_of (writer_new tty cfg) op) ops)"
    "all_searches ?w = length (concat (map (\<lambda>(e, op). searched op) ops))"
    "all_bytes_searched ?w = sum_list (concat (map (\<lambda>(e, op). searched op) ops))"
    using perform_all_json [OF json_inv_new [OF assms], of render ops tty] unfolding new by auto
  obtain ms' where ms': "json_inv render ?f (ms @ ms')" "reported ms' = []" using finish_json [OF ms(1)] by blast
  have json: "is_json ?w" using ms(1) by (simp add: json_inv_def)
  have empty: "stat_matches (file_stats ?f) = 0 \<and> bytes_printed (file_stats ?f) = 0"
    using ms(1) by (intro finish_json_simps) (simp add: json_inv_def)
  show ?thesis
    by (intro exI [of _ "ms @ ms'"] exI) (use ms ms' json empty in \<open>simp add: writer_finish_def Let_def json_inv_def
        put_line_def written_def finish_json_simps(1-5)\<close>)
qed

theorem json_output_is_a_stream_witness:
  "\<exists>msgs summary.
     stdout (writer_finish (\<lambda>_. []) JNull JNull (perform_all (\<lambda>_. [])
       [(JNull, OpContext \<lparr>x_file = ascii ''a'', x_line_number = 1, x_content = ascii ''p'', x_absolute_offset = 0,
          x_terminator_len = 1, x_raw = None\<rparr>),
        (JNull, OpContext \<lparr>x_file = ascii ''b'', x_line_number = 7, x_content = ascii ''q'', x_absolute_offset = 9,
          x_terminator_len = 1, x_raw = None\<rparr>)]
       (writer_new False (output_config_default\<lparr>format := Json\<rparr>)))) = written (\<lambda>_. []) (msgs @ [summary]) \<and>
     stream msgs = Some None \<and>
     reported msgs = [(ascii ''context'', ascii ''a'', JNumber 1), (ascii ''context'', ascii ''b'', JNumber 7)]"
proof -
  have "format (output_config_default\<lparr>format := Json\<rparr>) = Json" by simp
  moreover have "display_path (writer_new False (output_config_default\<lparr>format := Json\<rparr>)) f = f" for f
    by (simp add: display_path_def writer_new_def output_config_default_def)
  ultimately show ?thesis
    using json_output_is_a_stream [of "output_config_default\<lparr>format := Json\<rparr>" "\<lambda>_. []"
      "[(JNull, OpContext \<lparr>x_file = ascii ''a'', x_line_number = 1, x_content = ascii ''p'', x_absolute_offset = 0,
          x_terminator_len = 1, x_raw = None\<rparr>),
        (JNull, OpContext \<lparr>x_file = ascii ''b'', x_line_number = 7, x_content = ascii ''q'', x_absolute_offset = 9,
          x_terminator_len = 1, x_raw = None\<rparr>)]" False JNull JNull]
    by (auto simp: Let_def simp del: ascii_eq)
qed

end
