(* ===== verification/Spec2Isabelle.thy ===== *)
theory Spec2Isabelle
  imports Search_Agreement Git_Index Shared Json_Stream
begin

text \<open>
  This library is a verification development for \<^verbatim>\<open>tgrep\<close>, a grep with a trigram index and
  a client/server architecture.  It models the index and the search on the host the program is built
  for first: Unix paths and a 64-bit \<^verbatim>\<open>usize\<close>.

  \<^bold>\<open>The program.\<close>  An index of a directory tree maps every trigram (three adjacent bytes) of the
  indexed texts to the files that contain it.  \<^verbatim>\<open>tgrep-core\<close> builds an index on disk
  (\<^verbatim>\<open>builder.rs\<close>, \<^verbatim>\<open>external.rs\<close>, \<^verbatim>\<open>trigram.rs\<close>,
  \<^verbatim>\<open>encoding.rs\<close>), opens it (\<^verbatim>\<open>reader.rs\<close>, \<^verbatim>\<open>ondisk.rs\<close>), keeps the
  changes since the build in an overlay (\<^verbatim>\<open>live.rs\<close>) and answers queries over both
  (\<^verbatim>\<open>hybrid.rs\<close>).  A pattern becomes a plan of trigram queries (\<^verbatim>\<open>query.rs\<close>); the
  candidates of the plan are then read and matched line by line (\<^verbatim>\<open>tgrep-cli/src/matching.rs\<close>).
  A flush writes the merged view to disk or merges the overlay into the files of the index; a shared
  base with an overlay for each worktree (\<^verbatim>\<open>shared.rs\<close>) serves several checkouts of a
  repository.  The metadata of an index says which version of each file it holds
  (\<^verbatim>\<open>meta.rs\<close>), a sidecar lists paths that are known but not indexed
  (\<^verbatim>\<open>path_index.rs\<close>), and the index of Git says which paths are tracked
  (\<^verbatim>\<open>git_index.rs\<close>).

  \<^bold>\<open>Theories and code.\<close>  A definition has the name of the function, type or field it models; a loop
  inside a function is a definition of its own beside it.  The state of a component is a record
  with the fields of its \<^verbatim>\<open>struct\<close>, an operation takes the state and returns it, an error is
  the left side of a sum.

  \<^item> \<open>Prelude\<close>: machine integers, the errors of \<^verbatim>\<open>error.rs\<close>, the result type, strictly
    ascending lists, slices, partition points and the searches for a byte (\<^verbatim>\<open>memchr\<close>).
  \<^item> \<open>Codec\<close>: the interface \<open>fixed_codec\<close> of a table of entries of fixed width, with the
    lemmas about tables; \<open>Ondisk\<close> interprets it with posting and lookup entries.
  \<^item> \<open>Trigram\<close>: hashing, masks and the single-pass extraction of \<^verbatim>\<open>trigram.rs\<close>, which is
    proved to find exactly the trigrams of a text and of its lowercased copy.
  \<^item> \<open>Utf8\<close> and \<open>Encoding\<close>: \<^verbatim>\<open>encoding.rs\<close>, the choice of a decoder, the repair of
    invalid UTF-8 and the way back from repaired text to the bytes of the file.
  \<^item> \<open>Query_Plan\<close>: \<^verbatim>\<open>query.rs\<close>, the plan of a pattern over the syntax tree of the regex
    parser, and that no file with a match is lost.  \<open>Plan_Exec\<close>: the execution of a plan over posting
    lists.  Its interfaces \<open>posting_source\<close> and \<open>exact_posting_source\<close> state what the client needs
    of a provider of postings; \<open>Live\<close> and \<open>Hybrid\<close> interpret them with the overlay, the
    reader and the scoped lookup of both.
  \<^item> \<open>Ondisk\<close>: the layout of \<^verbatim>\<open>ondisk.rs\<close> and the path check of \<^verbatim>\<open>rooted.rs\<close>.
    \<open>Tables\<close>: what the files of a list of posting lists are, and that a reader reads it back.
  \<^item> \<open>Reader\<close>: opening and validation of \<^verbatim>\<open>reader.rs\<close>, lookup, and the queries on paths.
  \<^item> \<open>Live\<close>: the operations of the overlay, the invariant of its tables, and the refinement of a map
    from paths to their state.  \<open>Hybrid\<close>: the two layers of \<^verbatim>\<open>hybrid.rs\<close>, scoped queries, pruning
    and the snapshot of a flush.
  \<^item> \<open>External\<close>, \<open>Segment\<close> and \<open>Merge\<close>: the sorter of \<^verbatim>\<open>external.rs\<close>, the encoding of
    its spill segments and the merge of segments.  \<open>Writers\<close>: the writers of an index.
  \<^item> \<open>Batches\<close>, \<open>Read_Budget\<close> and \<open>Build\<close>: \<^verbatim>\<open>builder.rs\<close> from the list of files
    to the index: the division into batches, reads under a budget that workers share (a step
    relation with its invariants), extraction and the two destinations of postings.
  \<^item> \<open>Delta_Merge\<close> and \<open>Delta_Spec\<close>: the two merges of \<^verbatim>\<open>builder.rs\<close> into an existing
    index, and what the merged index names for a trigram.
  \<^item> \<open>Path_Index\<close>: \<^verbatim>\<open>visibility.rs\<close> and \<^verbatim>\<open>path_index.rs\<close>.  \<open>Evidence\<close>:
    \<^verbatim>\<open>meta.rs\<close>.  \<open>Git_Index\<close>: \<^verbatim>\<open>git_index.rs\<close>.  \<open>Shared\<close>:
    \<^verbatim>\<open>shared.rs\<close>.
  \<^item> \<open>Lines\<close>, \<open>Matcher\<close>, \<open>Replace_Block\<close> and \<open>File_Matches\<close>: \<^verbatim>\<open>matching.rs\<close>,
    the line table and the grouping of match ranges, the engines and the selection of lines, the blocks
    of a multiline replacement, and the rows that are handed to the caller.
  \<^item> \<open>Base64\<close>, \<open>Printer\<close> and \<open>Json_Stream\<close>: \<^verbatim>\<open>tgrep-cli/src/output.rs\<close>, the writer of
    results: its configuration and state, prefixes, separators, headings, colours, limits on columns,
    the messages of the JSON format and their base64.  \<open>Json_Stream\<close> shows that whatever a search
    writes is a stream that opens and closes one file at a time and ends with a summary of what was
    printed; \<open>Printer\<close> that highlighting adds only colour and that long lines are cut between
    characters.
  \<^item> \<open>File_Text\<close>, \<open>Search_Options\<close> and \<open>Search_File\<close>: \<^verbatim>\<open>tgrep-cli/src/search.rs\<close> as
    far as one file is concerned.  \<open>File_Text\<close> reads or maps a file under the limit and shows that
    both ways give its decoded text; \<open>Search_Options\<close> is the record of the options and what is derived
    from them; \<open>Search_File\<close> searches a file in every mode, maps positions back to its bytes and writes
    the rows.  \<open>search_prints_its_lines\<close> composes matching and printing: the bytes on standard
    output are the selected lines with their context, prefixes and separators.
  \<^item> \<open>Relax\<close>: the scanner of \<^verbatim>\<open>query.rs\<close> that widens a pattern with lookaround to one
    that can be planned.  \<open>Local_Search\<close>: the search of a directory in \<^verbatim>\<open>search.rs\<close>, with
    the index on disk or by a walk: the scope, the plan, the candidates and their filters, sorting and the
    loop over the candidates.  What it observes of the environment is the record \<open>search_tree\<close>.
  \<^item> \<open>Source_Tree\<close>, \<open>Counters\<close> and \<open>Search_Agreement\<close>: the files of a tree as names and the part
    of it that a search is to see, which the filters on indexed paths are shown to select; what is printed
    does not depend on the counters for statistics; and \<open>index_changes_no_output\<close>: with an index that is up to
    date both searches of a directory print the same bytes and find the same.  The walk of the crate
    \<^verbatim>\<open>ignore\<close> is a hypothesis there: under the options that follow the rules of the index it visits what is in view.
  This theory composes them: \<open>search_finds_every_indexed_match\<close> follows a text from the file
  system through build, open, edits of the overlay, plan and scoped query to the candidates of a search.

  \<^bold>\<open>What the lemmas show.\<close>  Each theory has the lemmas that make its component correct: the
  invariant of the state and its preservation, the behaviour of every operation, and refinement of
  an abstract specification.  The properties that matter most are the theorems whose text begins with
  C and a number.  Extraction, planning and execution compose to completeness (no file that contains a match
  is missed) and to exactness of the candidates with respect to the plan.  The writers compose to
  equivalence of the in-memory and the external sort, and of each written index with the tables it
  is to hold.  Decoders are shown to accept exactly what encoders write and to report every other
  input as an error.  The search side composes to the selection of exactly the lines that match, within
  the limits asked for, to the printed window or rewritten file, and to the agreement of the search in the
  index with the search by a walk.

  \<^bold>\<open>Bounds.\<close>  Word types keep the width of the code, and additions wrap where a release build wraps;
  \<^verbatim>\<open>checked_add\<close> and its relatives are options.  Hypotheses of theorems bound what a file of
  the format can hold: fewer than \<open>2^32\<close> files and entries of a posting list in an index, at most
  \<open>2^31\<close> files in a reader with an overlay (the top bit marks overlay identifiers), fewer than
  \<open>2^61\<close> postings in a merge (so that offsets stay below \<open>2^64\<close>), a file of the index of Git
  below \<open>2^62\<close> bytes.  Recursions are structural or have a measure, and no definition uses fuel; the reads of
  \<open>Read_Budget\<close> are a relation whose runs are shown to end.

  \<^bold>\<open>Arguments of the model.\<close>  Third-party code is an argument of the definitions that call it, with the
  laws that proofs need as hypotheses: the digest of \<^verbatim>\<open>blake3\<close>, the decoders of
  \<^verbatim>\<open>encoding_rs\<close>, the searches of \<^verbatim>\<open>memchr\<close>, the parser of \<^verbatim>\<open>regex-syntax\<close>,
  the engines of \<^verbatim>\<open>regex\<close> and \<^verbatim>\<open>fancy-regex\<close>, the matchers of
  \<^verbatim>\<open>ignore\<close> and the JSON of \<^verbatim>\<open>serde\<close>.  The iteration order of a hash table is an
  argument wherever it reaches a result, and the theorems hold for every order.  The file system is what
  the calls of an operation observe, in the order of the calls.

  \<^bold>\<open>Not modelled.\<close>  The walk of a directory tree (\<^verbatim>\<open>walker.rs\<close> around the crate
  \<^verbatim>\<open>ignore\<close>), descriptor-relative file access (\<^verbatim>\<open>rooted.rs\<close> but for the path check)
  and output directories (\<^verbatim>\<open>tgrep-core/src/output.rs\<close>) are calls of the operating system.
  Generations (\<^verbatim>\<open>generations\<close>) run Git and rename directories; the catalogue of managed storage
  (\<^verbatim>\<open>managed\<close>) is SQL over a database, locks and processes; \<^verbatim>\<open>worktrees.rs\<close> drives both.
  The server (\<^verbatim>\<open>serve.rs\<close> and \<^verbatim>\<open>serve\<close>) is sockets, threads and a file watcher
  around the hybrid index.  Of \<^verbatim>\<open>search.rs\<close> the matching of globs and file types (arguments of
  the model), the messages to a server, the listing of files and what goes to standard error are left out;
  \<^verbatim>\<open>main.rs\<close>, \<^verbatim>\<open>index.rs\<close> and \<^verbatim>\<open>status.rs\<close> parse arguments and orchestrate calls of what is modelled;
  \<^verbatim>\<open>mem.rs\<close>, \<^verbatim>\<open>cpu.rs\<close> and \<^verbatim>\<open>walkcount.rs\<close> ask the operating
  system.  Of modelled files, left out are permits and memory accounting, which do not change results,
  the full and the checkpointed build with their walk, the JSON of the metadata record, and the
  compilation of patterns for the engines.
\<close>

section \<open>From the files to the candidates of a search\<close>

text \<open>
  What the index knows of a path after its build and a sequence of edits of the overlay: the text of
  the last upsert, or, when the edits left the path alone, the text the build read for it.
\<close>

definition indexed_text ::
  "'e encodings \<Rightarrow> 'f file_system \<Rightarrow> 'f list \<Rightarrow> live_op list \<Rightarrow> path \<Rightarrow> byte list \<Rightarrow> bool"
where
  "indexed_text E FS files ops p content \<longleftrightarrow>
     (case fold spec_op ops (\<lambda>_. Untouched) p of
        Active table \<Rightarrow> table = Mapping.lookup (extract_merged_masks content)
      | Tombstone \<Rightarrow> False
      | Untouched \<Rightarrow> \<not> is_binary content \<and>
          (\<exists>(f, len) \<in> set (zip files (fst (batch_sizes_and_charges (map (file_len FS) files)))). \<exists>data.
             Option.bind (below_root FS f) index_key = Some p \<and>
             fst (read_for_index (file_opens FS f) len None) = Inr data \<and> verified_version data \<noteq> None \<and>
             content = cow_bytes (decode_for_index E (bytes_of (ir_bytes data)))))"

lemma text_files_member:
  assumes "Inr x \<in> set es" "ef_trigrams x = Some m"
  shows "(ef_path x, m) \<in> set (text_files es)"
  using assms(1)
proof (induction es)
  case (Cons e es)
  with assms(2) show ?case by (cases e) (auto split: option.split)
qed simp

text \<open>A file that is read as text at a verified version is among the texts of the build.\<close>

lemma read_text_indexed:
  assumes "(f, len) \<in> set (zip files (fst (batch_sizes_and_charges (map (file_len FS) files))))"
    and "Option.bind (below_root FS f) index_key = Some p"
    and "fst (read_for_index (file_opens FS f) len None) = Inr data" "verified_version data \<noteq> None"
    and "\<not> is_binary (cow_bytes (decode_for_index E (bytes_of (ir_bytes data))))"
  shows "(p, extract_merged_masks (cow_bytes (decode_for_index E (bytes_of (ir_bytes data)))))
    \<in> set (text_files (files_read E digest FS files))"
proof -
  define x where "x = extract_indexed_file E digest p data"
  have fields: "ef_path x = p" "ef_trigrams x = Some (extract_merged_masks (cow_bytes (decode_for_index E (bytes_of (ir_bytes data)))))"
    "ef_version x \<noteq> None"
    using assms(4,5) by (simp_all add: x_def extract_indexed_file_def Let_def)
  have "index_one E digest FS (f, len) = Some (Inr x)"
    using fields(3) unfolding x_def by (simp add: index_one_def assms(2,3) Let_def)
  then have "Inr x \<in> set (files_read E digest FS files)"
    using assms(1) by (force simp: files_read_def List.map_filter_def)
  from text_files_member [OF this fields(2)] show ?thesis by (simp only: fields(1))
qed

text \<open>C1. No match is lost between the files and the candidates: after an index has been built for a list of
  files, opened, and the overlay edited by any sequence of operations, a search for a set of
  patterns below a prefix returns every path below it whose text, as the last edit or the build
  read it, contains a match of one of the patterns.\<close>

theorem search_finds_every_indexed_match:
  assumes iter: "iteration iter"
    and texts: "texts = text_files (files_read E (blake3 env) FS files)"
    and bounds: "length texts \<le> 2 ^ 31" "sum_list (map (\<lambda>(p, m). card (Mapping.keys m)) texts) < 2 ^ 32"
    and stored: "\<forall>p\<in>set (map fst texts). stored_path p"
    and disk: "check_build_disk_space_for_sizes (free_space env)
      (fst (batch_sizes_and_charges (map (file_len FS) files))) (length files) External = Inr ()"
    and edits: "length ops \<le> 2 ^ 31"
    and plan: "hir_semantics accepts" "build_multi_pattern_plan parse escape as_bytes pats fixed ci = Inr plan"
    and found: "pat \<in> set pats" "pattern_matches accepts parse escape as_bytes fixed ci pat s"
      "content = before @ s @ after" "indexed_text E FS files ops p content" "prefix pre p"
  shows "\<exists>out outcome R. build_index_for_files env E iter amount FS rt files buffer_bytes = Inr (out, outcome) \<and>
    open_impl (index_dir out) require Legacy guarded = Inr R \<and>
    (let H = (from_reader R rt)\<lparr>hlive := fold apply_op ops live_new\<rparr>
     in \<exists>fid\<in>set (fst (execute_query_with_masks_in iter H plan pre)). resolve_path H fid R = Some p)"
proof -
  have bound: "length texts \<le> 2 ^ 32" using bounds(1) by simp
  obtain out R outcome where built: "build_index_for_files env E iter amount FS rt files buffer_bytes = Inr (out, outcome)"
    "open_impl (index_dir out) require Legacy guarded = Inr R" "reader_paths R = map fst texts"
    "\<forall>t. reader_lookup_trigram_with_masks R t = file_entries t 0 texts"
    using built_for_files [OF iter texts bound bounds(2) stored disk, of amount rt buffer_bytes require guarded] by blast
  define H where "H = (from_reader R rt)\<lparr>hlive := fold apply_op ops live_new\<rparr>"
  have H: "hreader H = R" "hlive H = fold apply_op ops live_new" by (simp_all add: H_def from_reader_def)
  have run: "live_inv (hlive H) \<and> overlay_of (hlive H) = fold spec_op ops (\<lambda>_. Untouched)"
  proof -
    have "overlay_of live_new = (\<lambda>_. Untouched)" by (simp add: fun_eq_iff)
    then show ?thesis using run_refines [OF live_inv_new, of ops] edits by (simp add: H live_new_def)
  qed
  have inv: "hybrid_inv H" using run open_impl_wf [OF built(2)] bounds(1) by (simp add: hybrid_inv_def H built(3))
  have accepted: "plan_accepts (Mapping.lookup (extract_merged_masks content)) plan"
    using build_multi_pattern_plan_satisfied [OF plan found(1-3)] by (simp only: plan_satisfied_accepts)
  have wf: "well_formed_plan plan" by (rule build_multi_pattern_plan_well_formed [OF plan(2)])
  have "Mapping.lookup (extract_merged_masks content) \<in> path_tables H p"
  proof (cases "fold spec_op ops (\<lambda>_. Untouched) p")
    case Untouched
    with found(4) have "(p, extract_merged_masks content) \<in> set texts"
      unfolding texts by (auto simp: indexed_text_def intro: read_text_indexed)
    then obtain i where i: "i < length texts" "texts ! i = (p, extract_merged_masks content)" by (metis in_set_conv_nth)
    have fields: "(\<lambda>v :: trigram_masks. \<lparr>loc_mask = loc_mask v, next_mask = next_mask v\<rparr>) = id"
      by (simp add: fun_eq_iff)
    have "reader_table R (of_nat i) = Mapping.lookup (extract_merged_masks content)"
      using entry_for_file_entries [OF i(1), of 0] bound
      by (simp add: fun_eq_iff reader_table_def built(4) i(2) option.map_comp comp_def fields option.map_id)
    moreover have "i < length (reader_paths R)" "reader_paths R ! i = p" using i by (simp_all add: built(3))
    ultimately have "\<exists>j. Mapping.lookup (extract_merged_masks content) = reader_table R (of_nat j) \<and>
        j < length (reader_paths R) \<and> reader_paths R ! j = p"
      by metis
    then show ?thesis using run Untouched by (simp add: path_tables_def H(1))
  next
    case (Active table)
    with run found(4) show ?thesis by (simp add: path_tables_def indexed_text_def)
  next
    case Tombstone
    with found(4) show ?thesis by (simp add: indexed_text_def)
  qed
  then have "\<exists>fid. id_accepted H plan pre fid \<and> resolve_path H fid (hreader H) = Some p"
    using accepted_paths [OF inv] accepted found(5) by blast
  then have "\<exists>fid\<in>set (fst (execute_query_with_masks_in iter H plan pre)). resolve_path H fid R = Some p"
    using candidates(1) [OF inv iter wf] by (auto simp: H(1))
  with built(1,2) show ?thesis by (auto simp: H_def Let_def)
qed

theorem search_finds_every_indexed_match_witness:
  "\<exists>out outcome R. build_index_for_files demo_env demo_encodings sorted_list_of_set (\<lambda>_ _ _. 1) demo_files [] [0] 0 = Inr (out, outcome) \<and>
     open_impl (index_dir out) False Legacy False = Inr R \<and>
     (let H = (from_reader R [])\<lparr>hlive := fold apply_op [Upsert [0x62] [1, 2, 3], Delete [0x63]] live_new\<rparr>
      in \<exists>fid\<in>set (fst (execute_query_with_masks_in sorted_list_of_set H (literals_to_query_plan three_bytes) [])).
           resolve_path H fid R = Some [0x61])"
proof (rule search_finds_every_indexed_match [OF _ demo_files_read [symmetric] _ _ _ demo_files_space])
  show "iteration (sorted_list_of_set :: u32 set \<Rightarrow> u32 list)" by (rule iteration_sorted_list_of_set)
  let ?texts = "[([0x61], extract_merged_masks three_bytes)]"
  show "length ?texts \<le> 2 ^ 31" "sum_list (map (\<lambda>(p, m). card (Mapping.keys m)) ?texts) < 2 ^ 32"
    by (simp_all add: three_bytes_keys)
  show "\<forall>p\<in>set (map fst ?texts). stored_path p"
    by (simp add: stored_path_def MAX_PATH_LEN_def validate_index_path_iff ascii_valid)
  show "length [Upsert [0x62] [1, 2, 3], Delete [0x63]] \<le> 2 ^ 31" by simp
  show "hir_semantics hir_accepts" by (rule hir_semantics_hir_accepts)
  show "build_multi_pattern_plan demo_parse id id [three_bytes] True False = Inr (literals_to_query_plan three_bytes)"
    by (simp add: build_multi_pattern_plan_def build_literal_plan_def literals_to_query_plan_def three_bytes_def
        is_match_all_def combine_plans_def upt_rec)
  show "pattern_matches hir_accepts demo_parse id id True False three_bytes three_bytes" by (simp add: pattern_matches_def)
  show "three_bytes \<in> set [three_bytes]" "three_bytes = [] @ three_bytes @ []" "prefix [] [0x61]" by simp_all
  show "indexed_text demo_encodings demo_files [0] [Upsert [0x62] [1, 2, 3], Delete [0x63]] [0x61] three_bytes"
    using demo_text by (simp add: indexed_text_def)
qed

end
